(* ===== verification/Prelude.thy ===== *)
theory Prelude
  imports Main "HOL-Library.Word"
begin

text \<open>
  Shared vocabulary of the development: bytes and byte vectors, fallible results,
  little-endian byte strings, and the generic lemmas the component theories rely on.

  A C++ function that reports failure by an error code, by a \<open>false\<close> result with the reason
  stored aside or by an exception is modelled by a function into \<open>'e + 'a\<close>: \<open>Inl\<close> carries the
  error, \<open>Inr\<close> the value. \<open>res_bind\<close> sequences two such calls, as an early return does.
\<close>

unbundle bit_operations_syntax

section \<open>Bytes\<close>

type_synonym byte = "8 word"
type_synonym valtype = "byte list"

named_theorems res_simps \<open>rewrite rules for results and their sequencing\<close>
named_theorems byte_simps \<open>rewrite rules for little-endian byte strings\<close>

section \<open>Results\<close>

fun res_bind :: "'e + 'a \<Rightarrow> ('a \<Rightarrow> 'e + 'b) \<Rightarrow> 'e + 'b" where
  "res_bind (Inl e) f = Inl e"
| "res_bind (Inr x) f = f x"

definition require :: "bool \<Rightarrow> 'e \<Rightarrow> 'e + unit" where
  "require b e = (if b then Inr () else Inl e)"

fun opt_res :: "'e \<Rightarrow> 'a option \<Rightarrow> 'e + 'a" where
  "opt_res e None = Inl e"
| "opt_res e (Some x) = Inr x"

fun is_ok :: "'e + 'a \<Rightarrow> bool" where
  "is_ok (Inl _) = False"
| "is_ok (Inr _) = True"

lemma res_bind_Inr_iff [res_simps]:
  "res_bind m f = Inr y \<longleftrightarrow> (\<exists>x. m = Inr x \<and> f x = Inr y)"
  by (cases m) auto

lemma res_bind_Inl_iff [res_simps]:
  "res_bind m f = Inl e \<longleftrightarrow> m = Inl e \<or> (\<exists>x. m = Inr x \<and> f x = Inl e)"
  by (cases m) auto

lemma res_bindE:
  assumes "res_bind m f = Inr y"
  obtains x where "m = Inr x" and "f x = Inr y"
  using assms by (cases m) auto

lemma require_Inr [simp]: "require b e = Inr u \<longleftrightarrow> b"
  by (simp add: require_def)

lemma require_Inl [simp]: "require b e = Inl e' \<longleftrightarrow> \<not> b \<and> e' = e"
  by (auto simp: require_def)

lemma opt_res_Inr [simp]: "opt_res e x = Inr y \<longleftrightarrow> x = Some y"
  by (cases x) auto

lemma opt_res_Inl [simp]: "opt_res e x = Inl e' \<longleftrightarrow> x = None \<and> e' = e"
  by (cases x) auto

lemma is_ok_iff: "is_ok r \<longleftrightarrow> (\<exists>x. r = Inr x)"
  by (cases r) auto

lemma is_ok_res_bind [res_simps]:
  "is_ok (res_bind m f) \<longleftrightarrow> (\<exists>x. m = Inr x \<and> is_ok (f x))"
  by (cases m) auto

section \<open>Little-endian byte strings\<close>

text \<open>
  \<open>le_bytes n x\<close> are the \<open>n\<close> bytes a little-endian store of \<open>x\<close> writes; \<open>le_val\<close> is the number
  a little-endian load reads.
\<close>

fun le_bytes :: "nat \<Rightarrow> nat \<Rightarrow> byte list" where
  "le_bytes 0 x = []"
| "le_bytes (Suc n) x = of_nat (x mod 256) # le_bytes n (x div 256)"

fun le_val :: "byte list \<Rightarrow> nat" where
  "le_val [] = 0"
| "le_val (b # bs) = unat b + 256 * le_val bs"

lemma length_le_bytes [simp]: "length (le_bytes n x) = n"
  by (induction n arbitrary: x) auto

lemma unat_byte_less: "unat (b :: byte) < 256"
  using unsigned_less [where w = b] by simp

lemma unat_byte_le: "unat (b :: byte) \<le> 255"
  using unat_byte_less [of b] by linarith

lemma unat_of_nat_byte [simp]: "unat (of_nat x :: byte) = x mod 256"
  by (simp add: unat_of_nat)

lemma byte_of_nat_unat [simp]: "(of_nat (unat b) :: byte) = b"
  by simp

lemma le_val_le_bytes: "le_val (le_bytes n x) = x mod 256 ^ n"
proof (induction n arbitrary: x)
  case 0
  then show ?case by simp
next
  case (Suc n)
  have "x mod 256 ^ Suc n = 256 * (x div 256 mod 256 ^ n) + x mod 256"
    by (simp add: mod_mult2_eq)
  then show ?case
    using Suc by simp
qed

lemma le_val_bound: "le_val bs < 256 ^ length bs"
proof (induction bs)
  case Nil
  then show ?case by simp
next
  case (Cons b bs)
  have "unat b + 256 * le_val bs < 256 * (le_val bs + 1)"
    using unat_byte_less [of b] by simp
  also have "\<dots> \<le> 256 * 256 ^ length bs"
    using Cons.IH by (intro mult_le_mono2) simp
  finally show ?case by simp
qed

lemma le_bytes_le_val [simp]: "le_bytes (length bs) (le_val bs) = bs"
proof (induction bs)
  case Nil
  then show ?case by simp
next
  case (Cons b bs)
  have "(unat b + 256 * le_val bs) mod 256 = unat b"
    using unat_byte_less [of b] by (simp add: mod_less)
  moreover have "(unat b + 256 * le_val bs) div 256 = le_val bs"
    using unat_byte_less [of b] by (simp add: div_less)
  ultimately show ?case
    using Cons.IH by simp
qed

lemma le_val_append: "le_val (xs @ ys) = le_val xs + 256 ^ length xs * le_val ys"
  by (induction xs) (auto simp: algebra_simps)

lemma byte_digit_bound:
  assumes "(r :: nat) < 256 ^ i" and "b < 256"
  shows "r + 256 ^ i * b < 256 ^ Suc i"
proof -
  have "256 ^ i * b \<le> 256 ^ i * 255"
    using assms(2) by (intro mult_le_mono2) simp
  then show ?thesis
    using assms(1) unfolding power_Suc by linarith
qed

lemma le_val_le_bytes_id [byte_simps]: "x < 256 ^ n \<Longrightarrow> le_val (le_bytes n x) = x"
  by (simp add: le_val_le_bytes)

lemma le_val_inj: "length xs = length ys \<Longrightarrow> le_val xs = le_val ys \<Longrightarrow> xs = ys"
  by (metis le_bytes_le_val)

lemma mod_128_cases: "(x :: nat) < 256 \<Longrightarrow> x mod 128 = (if 128 \<le> x then x - 128 else x)"
  by (simp add: le_mod_geq)

lemma byte_split_unique:
  "(x :: nat) < 256 \<Longrightarrow> y < 256 \<Longrightarrow> x mod 128 = y mod 128 \<Longrightarrow> (128 \<le> x \<longleftrightarrow> 128 \<le> y) \<Longrightarrow> x = y"
  by (simp add: mod_128_cases split: if_splits)

section \<open>The bits of a byte\<close>

lemma unat_drop_bit_8: "unat (drop_bit 8 w :: 64 word) = unat w div 256"
  by (simp add: drop_bit_eq_div unat_div_distrib)

lemma unat_low_byte: "unat (ucast (w AND 0xff) :: byte) = unat (w :: 64 word) mod 256"
proof -
  have "(0xff :: 64 word) = mask 8"
    by (simp add: mask_eq_exp_minus_1)
  then have "w AND 0xff = take_bit 8 w"
    by (simp add: take_bit_eq_mask)
  then have "ucast (w AND 0xff) = (ucast w :: byte)"
    by (simp add: bit_word_eqI bit_simps)
  then show ?thesis
    by (simp add: unsigned_ucast_eq take_bit_eq_mod)
qed

lemma byte_and_7f: "unat (b AND 0x7f :: byte) = unat b mod 128"
proof -
  have "(0x7f :: byte) = mask 7"
    by (simp add: mask_eq_exp_minus_1)
  then have "b AND 0x7f = take_bit 7 b"
    by (simp add: take_bit_eq_mask)
  then show ?thesis
    by (simp add: unsigned_take_bit_eq) (simp add: take_bit_eq_mod)
qed

lemma byte_and_80_bit: "(b AND 0x80 :: byte) \<noteq> 0 \<longleftrightarrow> bit b 7"
  using bit_iff_and_push_bit_not_eq_0 [of b 7] by (simp add: push_bit_eq_mult)

lemma byte_and_80: "(b AND 0x80 :: byte) \<noteq> 0 \<longleftrightarrow> 128 \<le> unat b"
proof -
  have "bit b 7 \<longleftrightarrow> odd (unat b div 128)"
    using bit_iff_odd [of "unat b" 7] by (simp add: bit_unsigned_iff)
  also have "unat b div 128 = (if unat b < 128 then 0 else 1)"
    using unat_byte_less [of b] div_nat_eqI [of 1 128 "unat b"] by auto
  finally show ?thesis
    by (simp add: byte_and_80_bit not_less)
qed

lemma byte_or_80: "unat b < 128 \<Longrightarrow> unat (b OR 0x80 :: byte) = unat b + 128"
proof -
  assume "unat b < 128"
  then have "b AND 0x80 = 0"
    using byte_and_80 [of b] by auto
  then have "b OR 0x80 = b + 0x80"
    using disjunctive_add_eq_or by metis
  then show ?thesis
    using \<open>unat b < 128\<close> by (simp add: unat_word_ariths)
qed

section \<open>Big-endian byte strings\<close>

fun be_val :: "byte list \<Rightarrow> nat" where
  "be_val [] = 0"
| "be_val (b # bs) = 256 ^ length bs * unat b + be_val bs"

lemma be_val_bound: "be_val bs < 256 ^ length bs"
proof (induction bs)
  case Nil
  then show ?case by simp
next
  case (Cons b bs)
  then show ?case
    using byte_digit_bound [OF Cons.IH unat_byte_less [of b]] by (simp add: add.commute)
qed

lemma be_val_less_iff:
  assumes "length xs = length ys"
  shows "be_val (a # xs) < be_val (b # ys) \<longleftrightarrow>
    unat a < unat b \<or> unat a = unat b \<and> be_val xs < be_val ys"
proof -
  have lt: "256 ^ n * i + x < 256 ^ n * j + y" if "i < j" "x < 256 ^ n" for n i j x y :: nat
  proof -
    have "256 ^ n * i + x < 256 ^ n * Suc i"
      using that(2) by simp
    also have "\<dots> \<le> 256 ^ n * j"
      using that(1) by (intro mult_le_mono2) simp
    finally show ?thesis by simp
  qed
  have "be_val xs < 256 ^ length ys" "be_val ys < 256 ^ length ys"
    using be_val_bound [of xs] be_val_bound [of ys] assms by simp_all
  then show ?thesis
    using lt [of "unat a" "unat b" "be_val xs" "length ys" "be_val ys"]
      lt [of "unat b" "unat a" "be_val ys" "length ys" "be_val xs"] assms
    by (cases "unat a" "unat b" rule: linorder_cases) auto
qed

section \<open>Generic facts\<close>

lemma take_append_length [simp]: "length xs = n \<Longrightarrow> take n (xs @ ys) = xs"
  by simp

lemma drop_append_length [simp]: "length xs = n \<Longrightarrow> drop n (xs @ ys) = ys"
  by simp

lemma take_drop_split: "take m (drop n xs) @ drop (n + m) xs = drop n xs"
proof -
  have "drop (n + m) xs = drop m (drop n xs)"
    by (simp add: add.commute)
  then show ?thesis
    by (simp only: append_take_drop_id)
qed

end
