(* ===== verification/ScriptNum.thy ===== *)
theory ScriptNum
  imports Prelude
begin

text \<open>
  Script numbers, class \<open>CScriptNum\<close> of \<open>src/script/script.h\<close>. The member \<open>m_value\<close> is an
  \<open>int64_t\<close>, here a \<open>64 word\<close> read as two's complement by \<open>sint\<close>. The constructor from a byte
  vector throws \<open>scriptnum_error\<close> on an oversized or, when asked to check, non-minimal
  vector: the model returns \<open>None\<close>. \<open>assert\<close> failures of the overloaded operators are also \<open>None\<close>.

  The section on meaning gives the sign-and-magnitude reading of a vector and shows that
  encoding and decoding are inverse to each other on the minimal encodings.
\<close>

type_synonym int64 = "64 word"

section \<open>Operations\<close>

definition nDefaultMaxNumSize :: nat where
  "nDefaultMaxNumSize = 4"

text \<open>The loop of \<open>serialize\<close>: push the low byte of the magnitude while it is not zero.\<close>

function serialize_loop :: "64 word \<Rightarrow> byte list" where
  "serialize_loop absvalue =
     (if absvalue = 0 then [] else ucast (absvalue AND 0xff) # serialize_loop (drop_bit 8 absvalue))"
  by pat_completeness auto
termination
proof (relation "measure unat")
  fix absvalue :: "64 word"
  assume "absvalue \<noteq> 0"
  then have "0 < unat absvalue"
    by (simp add: unat_gt_0)
  then show "(drop_bit 8 absvalue, absvalue) \<in> measure unat"
    by (simp only: in_measure unat_drop_bit_8)
qed simp

declare serialize_loop.simps [simp del]

definition scriptnum_serialize :: "int64 \<Rightarrow> valtype" where
  "scriptnum_serialize n =
     (if n = 0 then []
      else
        let neg = n <s 0;
            absvalue = (if neg then - n else n);
            result = serialize_loop absvalue
        in if last result AND 0x80 \<noteq> 0 then result @ [if neg then 0x80 else 0]
           else if neg then butlast result @ [last result OR 0x80]
           else result)"

text \<open>The loop of \<open>set_vch\<close>: or each byte into the result, shifted by its position.\<close>

fun set_vch_loop :: "nat \<Rightarrow> valtype \<Rightarrow> int64 \<Rightarrow> int64" where
  "set_vch_loop i [] result = result"
| "set_vch_loop i (b # bs) result =
     set_vch_loop (Suc i) bs (result OR push_bit (8 * i) (ucast b))"

definition set_vch :: "valtype \<Rightarrow> int64" where
  "set_vch vch =
     (if vch = [] then 0
      else
        let result = set_vch_loop 0 vch 0
        in if last vch AND 0x80 \<noteq> 0
           then - (result AND NOT (push_bit (8 * (length vch - 1)) 0x80))
           else result)"

text \<open>The minimality check of the constructor, on a non-empty vector.\<close>

definition minimally_encoded :: "valtype \<Rightarrow> bool" where
  "minimally_encoded vch =
     (vch \<noteq> [] \<longrightarrow> last vch AND 0x7f = 0 \<longrightarrow>
        \<not> (length vch \<le> 1 \<or> vch ! (length vch - 2) AND 0x80 = 0))"

definition CScriptNum :: "valtype \<Rightarrow> bool \<Rightarrow> nat \<Rightarrow> int64 option" where
  "CScriptNum vch fRequireMinimal nMaxNumSize =
     (if nMaxNumSize < length vch then None
      else if fRequireMinimal \<and> \<not> minimally_encoded vch then None
      else Some (set_vch vch))"

definition int_max :: int64 where
  "int_max = 0x7fffffff"

definition int_min :: int64 where
  "int_min = - 0x80000000"

text \<open>\<open>getint\<close> clamps to the range of a 32-bit \<open>int\<close>; the result is given as a number.\<close>

definition getint :: "int64 \<Rightarrow> int" where
  "getint n =
     (if int_max <s n then sint int_max
      else if n <s int_min then sint int_min
      else sint n)"

definition getvch :: "int64 \<Rightarrow> valtype" where
  "getvch n = scriptnum_serialize n"

definition int64_max :: int64 where
  "int64_max = 0x7fffffffffffffff"

definition int64_min :: int64 where
  "int64_min = 0x8000000000000000"

text \<open>The operators that assert the absence of overflow.\<close>

definition num_neg :: "int64 \<Rightarrow> int64 option" where
  "num_neg n = (if n = int64_min then None else Some (- n))"

definition num_add_assign :: "int64 \<Rightarrow> int64 \<Rightarrow> int64 option" where
  "num_add_assign n rhs =
     (if rhs = 0 \<or> (0 <s rhs \<and> n \<le>s int64_max - rhs) \<or> (rhs <s 0 \<and> int64_min - rhs \<le>s n)
      then Some (n + rhs) else None)"

definition num_sub_assign :: "int64 \<Rightarrow> int64 \<Rightarrow> int64 option" where
  "num_sub_assign n rhs =
     (if rhs = 0 \<or> (0 <s rhs \<and> int64_min + rhs \<le>s n) \<or> (rhs <s 0 \<and> n \<le>s int64_max + rhs)
      then Some (n - rhs) else None)"

section \<open>Words and their signed values\<close>

lemma sint_of_int64:
  "- (2 ^ 63) \<le> k \<Longrightarrow> k < 2 ^ 63 \<Longrightarrow> sint (word_of_int k :: int64) = k"
  by (simp add: sint_sbintrunc' signed_take_bit_int_eq_self)

lemma uint_small: "unat (x :: int64) < 2 ^ 63 \<Longrightarrow> uint x < 2 ^ 63"
proof -
  assume "unat x < 2 ^ 63"
  then have "int (unat x) < int (2 ^ 63)"
    by (simp only: of_nat_less_iff)
  then show ?thesis by simp
qed

lemma sint_nonneg: "unat (x :: int64) < 2 ^ 63 \<Longrightarrow> sint x = int (unat x)"
proof -
  assume "unat x < 2 ^ 63"
  then have "sint (word_of_int (uint x) :: int64) = uint x"
    by (intro sint_of_int64 uint_small order_trans [OF _ unsigned_greater_eq]) simp_all
  then show ?thesis by simp
qed

lemma sint_uminus_small: "unat (x :: int64) < 2 ^ 63 \<Longrightarrow> sint (- x) = - int (unat x)"
proof -
  assume "unat x < 2 ^ 63"
  then have "uint x < 2 ^ 63"
    by (rule uint_small)
  moreover have "0 \<le> uint x"
    by simp
  ultimately have "- (2 ^ 63) \<le> - uint x" and "- uint x < 2 ^ 63"
    by linarith+
  then have "sint (word_of_int (- uint x) :: int64) = - uint x"
    by (rule sint_of_int64)
  then show ?thesis by (simp flip: wi_hom_neg)
qed

lemma sint_int64_bounds: "- (2 ^ 63) \<le> sint (x :: int64)" "sint (x :: int64) < 2 ^ 63"
  using sint_ge [of x] sint_lt [of x] by simp_all

lemma unat_abs_int64:
  assumes "n \<noteq> int64_min"
  shows "int (unat (if n <s 0 then - n else n)) = \<bar>sint n\<bar>"
proof -
  have min: "sint int64_min = - (2 ^ 63)"
    by (simp add: int64_min_def)
  have "sint n \<noteq> - (2 ^ 63)"
    using assms min signed_word_eqI by metis
  then have b: "- (2 ^ 63) < sint n" "sint n < 2 ^ 63"
    using sint_int64_bounds [of n] by auto
  have w: "word_of_int (sint n) = n"
    by simp
  show ?thesis
  proof (cases "sint n < 0")
    case True
    have "uint (- n) = uint (word_of_int (- sint n) :: int64)"
      by (simp add: wi_hom_neg)
    also have "\<dots> = - sint n"
      using b True by (simp only: uint_word_of_int) simp
    finally show ?thesis
      using True by (simp add: word_sless_alt)
  next
    case False
    have "uint n = uint (word_of_int (sint n) :: int64)"
      by simp
    also have "\<dots> = sint n"
      using b False by (simp only: uint_word_of_int) simp
    finally show ?thesis
      using False by (simp add: word_sless_alt)
  qed
qed

section \<open>The encoding loop\<close>

lemma le_val_serialize_loop: "le_val (serialize_loop w) = unat w"
proof (induction w rule: serialize_loop.induct)
  case (1 w)
  then show ?case
    by (subst serialize_loop.simps)
      (auto simp: unat_low_byte unat_drop_bit_8)
qed

lemma serialize_loop_Nil_iff [simp]: "serialize_loop w = [] \<longleftrightarrow> w = 0"
  by (subst serialize_loop.simps) auto

lemma last_serialize_loop: "w \<noteq> 0 \<Longrightarrow> last (serialize_loop w) \<noteq> 0"
proof (induction w rule: serialize_loop.induct)
  case (1 w)
  let ?d = "drop_bit 8 w"
  have unf: "serialize_loop w = ucast (w AND 0xff) # serialize_loop ?d"
    using "1.prems" by (subst serialize_loop.simps) simp
  show ?case
  proof (cases "?d = 0")
    case True
    then have "unat w div 256 = 0"
      using unat_drop_bit_8 [of w] by simp
    then have "unat (ucast (w AND 0xff) :: byte) = unat w"
      by (simp add: unat_low_byte)
    moreover have "unat w \<noteq> 0"
      using "1.prems" by (simp add: unat_eq_0)
    ultimately have "(ucast (w AND 0xff) :: byte) \<noteq> 0"
      by auto
    then show ?thesis
      using True by (simp only: unf) simp
  next
    case False
    then show ?thesis
      using "1.IH" [OF "1.prems" False] by (simp only: unf) simp
  qed
qed

section \<open>The decoding loop\<close>

lemma unat_or_push_byte:
  assumes "unat (r :: int64) < 256 ^ i" and "i < 8"
  shows "unat (r OR push_bit (8 * i) (ucast (b :: byte))) = unat r + 256 ^ i * unat b"
proof -
  have pow: "(256 :: nat) ^ i = 2 ^ (8 * i)"
    by (simp add: power_mult)
  have "take_bit (8 * i) (unat r) = unat r"
    using assms(1) by (simp only: take_bit_nat_eq_self_iff pow)
  then have "take_bit (8 * i) r = r"
    by (simp add: word_eq_iff_unsigned [where 'a = nat] unsigned_take_bit_eq)
  then have "r AND push_bit (8 * i) (ucast b) = 0"
    by (metis (no_types, lifting) bit.conj_zero_right take_bit_eq_mask and.assoc and.commute
        take_bit_push_bit diff_self_eq_0 push_bit_of_0 take_bit_0)
  then have or: "r OR push_bit (8 * i) (ucast b) = r + push_bit (8 * i) (ucast b)"
    by (simp add: disjunctive_add_eq_or)
  have "unat r + 256 ^ i * unat b < 256 ^ Suc i"
    using assms(1) unat_byte_less by (rule byte_digit_bound)
  also have "(256 :: nat) ^ Suc i \<le> 256 ^ 8"
    using assms(2) by (intro power_increasing) auto
  finally have top: "unat r + 256 ^ i * unat b < 2 ^ 64"
    by simp
  have ub: "unat (ucast b :: int64) = unat b"
    by (simp add: unsigned_ucast_eq take_bit_nat_eq_self order_less_trans [OF unat_byte_less])
  have "push_bit (8 * i) (unat b) = 256 ^ i * unat b"
    by (simp add: push_bit_eq_mult pow)
  moreover have "256 ^ i * unat b < 2 ^ 64"
    using top by linarith
  ultimately have push: "unat (push_bit (8 * i) (ucast b) :: int64) = 256 ^ i * unat b"
    by (simp add: unsigned_push_bit_eq ub take_bit_nat_eq_self)
  show ?thesis
    using push top by (simp add: or unat_word_ariths)
qed

lemma unat_set_vch_loop:
  "unat r < 256 ^ i \<Longrightarrow> i + length bs \<le> 8 \<Longrightarrow>
     unat (set_vch_loop i bs r) = unat r + 256 ^ i * le_val bs"
proof (induction bs arbitrary: i r)
  case Nil
  then show ?case by simp
next
  case (Cons b bs)
  let ?r = "r OR push_bit (8 * i) (ucast b)"
  have r: "unat ?r = unat r + 256 ^ i * unat b"
    using Cons.prems by (intro unat_or_push_byte) auto
  have "unat ?r < 256 ^ Suc i"
    unfolding r using Cons.prems(1) unat_byte_less by (rule byte_digit_bound)
  then have "unat (set_vch_loop (Suc i) bs ?r) = unat ?r + 256 ^ Suc i * le_val bs"
    using Cons.prems(2) by (intro Cons.IH) auto
  then show ?case
    unfolding set_vch_loop.simps r by (simp add: algebra_simps)
qed

section \<open>Meaning: sign and magnitude\<close>

text \<open>
  The number a vector stands for: little-endian, the top bit of the last byte is the sign, the
  remaining bits are the magnitude.
\<close>

definition sm_mag :: "valtype \<Rightarrow> nat" where
  "sm_mag vch =
     (if vch = [] then 0
      else le_val (butlast vch) + 256 ^ (length vch - 1) * (unat (last vch) mod 128))"

definition sm_val :: "valtype \<Rightarrow> int" where
  "sm_val vch =
     (if vch \<noteq> [] \<and> 128 \<le> unat (last vch) then - int (sm_mag vch) else int (sm_mag vch))"

lemma sm_mag_snoc: "sm_mag (xs @ [b]) = le_val xs + 256 ^ length xs * (unat b mod 128)"
  by (simp add: sm_mag_def)

lemma sm_val_snoc:
  "sm_val (xs @ [b]) = (if 128 \<le> unat b then - int (sm_mag (xs @ [b])) else int (sm_mag (xs @ [b])))"
  by (simp add: sm_val_def)

lemma le_val_snoc: "le_val (xs @ [b]) = le_val xs + 256 ^ length xs * unat b"
  by (simp add: le_val_append)

lemma sm_mag_less: "sm_mag (xs @ [b]) < 128 * 256 ^ length xs"
proof -
  have "256 ^ length xs * (unat b mod 128) \<le> 256 ^ length xs * 127"
    by (intro mult_le_mono2) simp
  then show ?thesis
    using le_val_bound [of xs] unfolding sm_mag_snoc by linarith
qed

lemma sm_mag_less_63: "length vch \<le> 8 \<Longrightarrow> sm_mag vch < 2 ^ 63"
proof (cases vch rule: rev_cases)
  case Nil
  then show ?thesis by (simp add: sm_mag_def)
next
  case (snoc xs b)
  assume "length vch \<le> 8"
  then have "(256 :: nat) ^ length xs \<le> 256 ^ 7"
    using snoc by (intro power_increasing) auto
  then show ?thesis
    using sm_mag_less [of xs b] snoc by simp
qed

text \<open>Clearing the sign bit in the decoded word leaves the magnitude.\<close>

lemma unat_clear_sign:
  assumes "unat (r :: int64) = le_val (xs @ [b])" and "128 \<le> unat b" and "length xs \<le> 7"
  shows "unat (r AND NOT (push_bit (8 * length xs) 0x80)) = sm_mag (xs @ [b])"
proof -
  let ?k = "8 * length xs + 7"
  have k: "?k < 64"
    using assms(3) by simp
  have m: "push_bit (8 * length xs) (0x80 :: int64) = push_bit ?k 1"
    by (simp add: push_bit_eq_mult power_add)
  have "(256 :: nat) ^ length xs = 2 ^ (8 * length xs)"
    by (simp add: power_mult)
  then have pow: "(2 :: nat) ^ ?k = 256 ^ length xs * 128"
    by (simp add: power_add)
  obtain c where c: "unat b = 128 + c" "c < 128"
    using assms(2) unat_byte_less [of b] by (metis le_Suc_ex nat_add_left_cancel_less numeral_Bit0)
  then have mag: "sm_mag (xs @ [b]) = le_val xs + 256 ^ length xs * c"
    unfolding sm_mag_snoc by simp
  then have r: "unat r = sm_mag (xs @ [b]) + 2 ^ ?k"
    using assms(1) c unfolding le_val_snoc pow by (simp add: algebra_simps)
  have less: "sm_mag (xs @ [b]) < 2 ^ ?k"
    using sm_mag_less [of xs b] unfolding pow by simp
  have "unat (r AND NOT (push_bit ?k 1)) = unat (take_bit ?k r)"
  proof -
    have "bit r n \<Longrightarrow> n \<le> ?k" for n
    proof (rule ccontr)
      assume "bit r n" and "\<not> n \<le> ?k"
      then have "bit (unat r) n"
        by (simp add: bit_unsigned_iff)
      moreover have "unat r < 2 ^ n"
      proof -
        have "(2 :: nat) ^ Suc ?k \<le> 2 ^ n"
          using \<open>\<not> n \<le> ?k\<close> by (intro power_increasing) auto
        then show ?thesis using r less unfolding power_Suc by linarith
      qed
      ultimately show False
        by (simp add: bit_iff_odd)
    qed
    then have "r AND NOT (push_bit ?k 1) = take_bit ?k r"
      by (intro bit_word_eqI) (auto simp: bit_simps le_less)
    then show ?thesis by simp
  qed
  also have "\<dots> = unat r mod 2 ^ ?k"
    unfolding unsigned_take_bit_eq by (rule take_bit_eq_mod)
  also have "\<dots> = sm_mag (xs @ [b])"
    using r less by simp
  finally show ?thesis
    by (simp only: m)
qed

text \<open>Decoding computes the meaning, for every vector that fits an \<open>int64_t\<close>.\<close>

lemma sint_set_vch: "length vch \<le> 8 \<Longrightarrow> sint (set_vch vch) = sm_val vch"
proof (cases vch rule: rev_cases)
  case Nil
  then show ?thesis by (simp add: set_vch_def sm_val_def sm_mag_def)
next
  case (snoc xs b)
  assume len: "length vch \<le> 8"
  let ?r = "set_vch_loop 0 vch 0"
  have r: "unat ?r = le_val (xs @ [b])"
    using unat_set_vch_loop [of 0 0 vch] len snoc by simp
  have mag: "sm_mag vch < 2 ^ 63"
    using len by (rule sm_mag_less_63)
  show ?thesis
  proof (cases "128 \<le> unat b")
    case True
    then have clear: "unat (?r AND NOT (push_bit (8 * length xs) 0x80)) = sm_mag vch"
      using r len snoc by (subst unat_clear_sign) auto
    have "set_vch vch = - (?r AND NOT (push_bit (8 * length xs) 0x80))"
      using True snoc by (simp add: set_vch_def byte_and_80 Let_def)
    moreover have "sint (- (?r AND NOT (push_bit (8 * length xs) 0x80))) = - int (sm_mag vch)"
      using sint_uminus_small [of "?r AND NOT (push_bit (8 * length xs) 0x80)"]
      by (simp only: clear mag)
    ultimately have "sint (set_vch vch) = - int (sm_mag vch)"
      by simp
    then show ?thesis
      using True snoc by (simp add: sm_val_snoc)
  next
    case False
    then have "set_vch vch = ?r"
      using snoc by (simp add: set_vch_def byte_and_80 [THEN arg_cong [of _ _ Not], simplified] Let_def)
    moreover have "sm_mag vch = unat ?r"
      using False r unfolding snoc sm_mag_snoc le_val_snoc by simp
    ultimately show ?thesis
      using sint_nonneg [of ?r] mag False snoc by (simp add: sm_val_snoc)
  qed
qed

text \<open>Encoding represents the signed value.\<close>

lemma unat_abs_less:
  assumes "n \<noteq> int64_min"
  shows "unat (if n <s 0 then - n else n) = nat \<bar>sint n\<bar>"
  using unat_abs_int64 [OF assms] by linarith

lemma serialize_cases:
  assumes "n \<noteq> 0" and "n \<noteq> int64_min"
  obtains xs b where "serialize_loop (if n <s 0 then - n else n) = xs @ [b]"
    and "le_val xs + 256 ^ length xs * unat b = nat \<bar>sint n\<bar>" and "b \<noteq> 0"
proof -
  let ?a = "if n <s 0 then - n else n"
  have "?a \<noteq> 0"
    using assms(1) by simp
  then have "serialize_loop ?a \<noteq> []" and l: "last (serialize_loop ?a) \<noteq> 0"
    by (simp, rule last_serialize_loop)
  then obtain xs b where xs: "serialize_loop ?a = xs @ [b]"
    by (metis rev_exhaust)
  moreover have "le_val (xs @ [b]) = nat \<bar>sint n\<bar>"
    using le_val_serialize_loop [of ?a] unat_abs_less [OF assms(2)] xs by simp
  ultimately show thesis
    using l that by (simp add: le_val_snoc)
qed

lemma scriptnum_serialize_snoc:
  assumes "n \<noteq> 0" and "serialize_loop (if n <s 0 then - n else n) = xs @ [b]"
  shows "scriptnum_serialize n =
    (if 128 \<le> unat b then (xs @ [b]) @ [if n <s 0 then 0x80 else 0]
     else if n <s 0 then xs @ [b OR 0x80] else xs @ [b])"
  using assms by (auto simp: scriptnum_serialize_def Let_def byte_and_80)

lemma sm_val_serialize:
  assumes "n \<noteq> int64_min"
  shows "sm_val (scriptnum_serialize n) = sint n"
proof (cases "n = 0")
  case True
  then show ?thesis by (simp add: scriptnum_serialize_def sm_val_def sm_mag_def)
next
  case False
  then obtain xs b where loop: "serialize_loop (if n <s 0 then - n else n) = xs @ [b]"
    and mag: "le_val xs + 256 ^ length xs * unat b = nat \<bar>sint n\<bar>"
    using assms by (rule serialize_cases)
  have neg: "n <s 0 \<longleftrightarrow> sint n < 0"
    by (simp add: word_sless_alt)
  show ?thesis
  proof (cases "128 \<le> unat b")
    case True
    then have "scriptnum_serialize n = (xs @ [b]) @ [if n <s 0 then 0x80 else 0]"
      using scriptnum_serialize_snoc [OF False loop] by simp
    moreover have "sm_mag ((xs @ [b]) @ [if n <s 0 then 0x80 else 0]) = nat \<bar>sint n\<bar>"
      unfolding sm_mag_snoc le_val_snoc mag by simp
    ultimately show ?thesis
      using neg by (auto simp del: append_assoc simp: sm_val_snoc)
  next
    case False2: False
    then have ser: "scriptnum_serialize n = xs @ [if n <s 0 then b OR 0x80 else b]"
      using scriptnum_serialize_snoc [OF False loop] by simp
    have "unat (if n <s 0 then b OR 0x80 else b) mod 128 = unat b"
      using False2 byte_or_80 [of b] by simp
    then have "sm_mag (xs @ [if n <s 0 then b OR 0x80 else b]) = nat \<bar>sint n\<bar>"
      unfolding sm_mag_snoc mag by (simp only: mag)
    then show ?thesis
      using neg False2 byte_or_80 [of b] unfolding ser by (auto simp: sm_val_snoc)
  qed
qed

lemma minimally_encoded_serialize:
  assumes "n \<noteq> int64_min"
  shows "minimally_encoded (scriptnum_serialize n)"
proof (cases "n = 0")
  case True
  then show ?thesis by (simp add: scriptnum_serialize_def minimally_encoded_def)
next
  case False
  then obtain xs b where loop: "serialize_loop (if n <s 0 then - n else n) = xs @ [b]" and "b \<noteq> 0"
    using assms by (rule serialize_cases)
  have b7f: "x AND 0x7f = 0 \<longleftrightarrow> unat x mod 128 = 0" for x :: byte
    using byte_and_7f [of x] by (metis unat_eq_zero)
  have "unat b \<noteq> 0"
    using \<open>b \<noteq> 0\<close> by (simp add: unat_eq_0)
  then show ?thesis
    using byte_or_80 [of b] byte_and_80 [of b]
    unfolding scriptnum_serialize_snoc [OF False loop] minimally_encoded_def
    by (auto simp: b7f nth_append)
qed

section \<open>Minimal encodings are unique\<close>

text \<open>The length of a minimal encoding is determined by the magnitude.\<close>

lemma minimal_mag_lower:
  assumes "minimally_encoded (xs @ [b])"
  shows "256 ^ length xs \<le> 2 * sm_mag (xs @ [b])"
proof (cases "unat b mod 128 = 0")
  case False
  then have "256 ^ length xs * 1 \<le> 256 ^ length xs * (unat b mod 128)"
    by (intro mult_le_mono2) simp
  then have "256 ^ length xs \<le> sm_mag (xs @ [b])"
    unfolding sm_mag_snoc by (simp only: mult_1_right trans_le_add2)
  then show ?thesis
    by linarith
next
  case True
  then have "b AND 0x7f = 0"
    using byte_and_7f [of b] by (metis unat_eq_zero)
  then have long: "xs \<noteq> []" and top: "xs ! (length xs - 1) AND 0x80 \<noteq> 0"
    using assms by (auto simp: minimally_encoded_def nth_append split: if_splits)
  then obtain ys c where xs: "xs = ys @ [c]"
    by (metis rev_exhaust)
  then have "128 \<le> unat c"
    using top byte_and_80 [of c] by (simp add: nth_append)
  then have "256 ^ length ys * 128 \<le> 256 ^ length ys * unat c"
    by (intro mult_le_mono2)
  then have "256 ^ length ys * 128 \<le> le_val xs"
    unfolding xs le_val_snoc by (rule trans_le_add2)
  moreover have "le_val xs \<le> sm_mag (xs @ [b])"
    unfolding sm_mag_snoc by simp
  moreover have "(256 :: nat) ^ length xs = 256 * 256 ^ length ys"
    unfolding xs by simp
  ultimately show ?thesis
    by linarith
qed

lemma minimal_mag_pos:
  assumes "minimally_encoded vch" and "vch \<noteq> []"
  shows "0 < sm_mag vch"
proof -
  obtain xs b where vch: "vch = xs @ [b]"
    using assms(2) by (metis rev_exhaust)
  show ?thesis
    using minimal_mag_lower [of xs b] assms(1) unfolding vch
    by (metis gr0I mult_zero_right not_less0 power_not_zero le_zero_eq zero_neq_numeral)
qed

lemma minimal_same_length:
  assumes "minimally_encoded (xs @ [b])" and "sm_mag (xs @ [b]) = sm_mag (ys @ [c])"
  shows "length xs \<le> length ys"
proof (rule ccontr)
  assume "\<not> length xs \<le> length ys"
  then have "(256 :: nat) ^ Suc (length ys) \<le> 256 ^ length xs"
    by (intro power_increasing) auto
  then show False
    using minimal_mag_lower [OF assms(1)] sm_mag_less [of ys c] assms(2) unfolding power_Suc
    by linarith
qed

lemma minimal_unique:
  assumes "minimally_encoded u" and "minimally_encoded v" and "sm_val u = sm_val v"
  shows "u = v"
proof (cases "u = [] \<or> v = []")
  case True
  then have "sm_mag u = 0 \<or> sm_mag v = 0"
    by (auto simp: sm_mag_def)
  then have "sm_mag u = 0 \<and> sm_mag v = 0"
    using assms(3) by (auto simp: sm_val_def split: if_splits)
  then show ?thesis
    using minimal_mag_pos [OF assms(1)] minimal_mag_pos [OF assms(2)] by auto
next
  case False
  then obtain xs b ys c where u: "u = xs @ [b]" and v: "v = ys @ [c]"
    by (metis rev_exhaust)
  have pos: "0 < sm_mag u" "0 < sm_mag v"
    using assms(1,2) False by (auto intro: minimal_mag_pos)
  then have mag: "sm_mag (xs @ [b]) = sm_mag (ys @ [c])"
    and sign: "128 \<le> unat b \<longleftrightarrow> 128 \<le> unat c"
    using assms(3) unfolding u v by (auto simp: sm_val_snoc split: if_splits)
  have len: "length xs = length ys"
    using minimal_same_length [of xs b ys c] minimal_same_length [of ys c xs b] assms(1,2) mag
    unfolding u v by simp
  let ?p = "256 ^ length ys :: nat"
  have eq: "le_val xs + ?p * (unat b mod 128) = le_val ys + ?p * (unat c mod 128)"
    using mag len unfolding sm_mag_snoc by simp
  have "le_val xs < ?p" "le_val ys < ?p"
    using le_val_bound [of xs] le_val_bound [of ys] len by simp_all
  then have "le_val xs = le_val ys" and top: "unat b mod 128 = unat c mod 128"
    using arg_cong [OF eq, of "\<lambda>x. x mod ?p"] arg_cong [OF eq, of "\<lambda>x. x div ?p"] by simp_all
  then have "xs = ys"
    using len by (auto intro: le_val_inj)
  moreover have "unat b = unat c"
    using unat_byte_less unat_byte_less top sign by (rule byte_split_unique)
  then have "b = c"
    by (rule unsigned_word_eqI)
  ultimately show ?thesis
    unfolding u v by simp
qed

section \<open>Round trips and bounds\<close>

lemma CScriptNum_getvch:
  assumes "n \<noteq> int64_min" and "length (getvch n) \<le> k" and "k \<le> 8"
  shows "CScriptNum (getvch n) fRequireMinimal k = Some n"
proof -
  have "sint (set_vch (getvch n)) = sint n"
    using assms by (simp add: sint_set_vch sm_val_serialize getvch_def)
  then have "set_vch (getvch n) = n"
    by (rule signed_word_eqI)
  then show ?thesis
    using assms minimally_encoded_serialize by (simp add: CScriptNum_def getvch_def)
qed

lemma CScriptNum_Some:
  "CScriptNum vch m k = Some n \<longleftrightarrow>
     length vch \<le> k \<and> (m \<longrightarrow> minimally_encoded vch) \<and> n = set_vch vch"
  by (auto simp: CScriptNum_def)

lemma sm_val_bound:
  assumes "length vch \<le> Suc k"
  shows "\<bar>sm_val vch\<bar> < 128 * 256 ^ k"
proof (cases vch rule: rev_cases)
  case Nil
  then show ?thesis by (simp add: sm_val_def sm_mag_def)
next
  case (snoc xs b)
  then have "128 * (256 :: nat) ^ length xs \<le> 128 * 256 ^ k"
    using assms by (intro mult_le_mono2 power_increasing) auto
  then have "sm_mag vch < 128 * 256 ^ k"
    using sm_mag_less [of xs b] unfolding snoc by linarith
  then have "int (sm_mag vch) < int (128 * 256 ^ k)"
    by (simp only: of_nat_less_iff)
  then show ?thesis
    by (simp add: sm_val_def)
qed

lemma CScriptNum_bound:
  assumes "CScriptNum vch m (Suc k) = Some n" and "k < 8"
  shows "\<bar>sint n\<bar> < 128 * 256 ^ k"
  using assms sm_val_bound [of vch k] by (auto simp: CScriptNum_Some sint_set_vch)

lemma getvch_CScriptNum:
  assumes "CScriptNum vch True k = Some n" and "k \<le> 8"
  shows "getvch n = vch"
proof -
  have len: "length vch \<le> 8" and min: "minimally_encoded vch" and n: "n = set_vch vch"
    using assms by (auto simp: CScriptNum_Some)
  have "sint int64_min = - (2 ^ 63)"
    by (simp add: int64_min_def)
  moreover have "\<bar>sint n\<bar> < 2 ^ 63"
    using sm_val_bound [of vch 7] len n by (simp add: sint_set_vch)
  ultimately have "n \<noteq> int64_min"
    by auto
  then have "sm_val (getvch n) = sm_val vch" and "minimally_encoded (getvch n)"
    using len n by (simp_all add: getvch_def sm_val_serialize sint_set_vch minimally_encoded_serialize)
  then show ?thesis
    using min by (auto intro: minimal_unique)
qed

text \<open>
  The comment of the class: operands are confined to 4 bytes, results of one operation may
  exceed that range but never overflow the \<open>int64_t\<close>.
\<close>

lemma operand_range: "CScriptNum vch m nDefaultMaxNumSize = Some n \<Longrightarrow> \<bar>sint n\<bar> \<le> 2 ^ 31 - 1"
  using CScriptNum_bound [of vch m 3 n] by (simp add: nDefaultMaxNumSize_def)

lemma sint_add_operands:
  assumes "\<bar>sint a\<bar> \<le> 2 ^ 31 - 1" and "\<bar>sint b\<bar> \<le> 2 ^ 31 - (1 :: int)"
  shows "sint (a + b :: int64) = sint a + sint b" and "sint (a - b) = sint a - sint b"
proof -
  have "sint (word_of_int (sint a + sint b) :: int64) = sint a + sint b"
    using assms by (intro sint_of_int64) auto
  then show "sint (a + b) = sint a + sint b"
    by (simp add: wi_hom_add [symmetric])
  have "sint (word_of_int (sint a - sint b) :: int64) = sint a - sint b"
    using assms by (intro sint_of_int64) auto
  then show "sint (a - b) = sint a - sint b"
    by (simp add: wi_hom_sub [symmetric])
qed

lemma sint_neg_operand:
  assumes "\<bar>sint a\<bar> \<le> 2 ^ 31 - (1 :: int)"
  shows "num_neg a = Some (- a)" and "sint (- a :: int64) = - sint a"
proof -
  have "a \<noteq> int64_min"
    using assms by (auto simp: int64_min_def)
  then show "num_neg a = Some (- a)"
    by (simp add: num_neg_def)
  have "sint (word_of_int (- sint a) :: int64) = - sint a"
    using assms by (intro sint_of_int64) auto
  then show "sint (- a) = - sint a"
    by (simp add: wi_hom_neg [symmetric])
qed

lemma incr_operand:
  assumes "\<bar>sint a\<bar> \<le> 2 ^ 31 - (1 :: int)"
  shows "num_add_assign a 1 = Some (a + 1)" and "num_sub_assign a 1 = Some (a - 1)"
proof -
  have one: "sint (1 :: int64) = 1" and m: "sint (int64_max - 1) = 2 ^ 63 - 2"
    "sint (int64_min + 1) = - (2 ^ 63) + 1"
    by (simp_all add: int64_max_def int64_min_def)
  show "num_add_assign a 1 = Some (a + 1)"
    using assms one m by (simp add: num_add_assign_def word_sless_alt word_sle_eq)
  show "num_sub_assign a 1 = Some (a - 1)"
    using assms one m by (simp add: num_sub_assign_def word_sless_alt word_sle_eq)
qed

text \<open>No result needs more than nine bytes.\<close>

lemma length_serialize_loop: "length (serialize_loop w) \<le> 8"
proof (cases "w = 0")
  case True
  then show ?thesis by (simp add: serialize_loop.simps)
next
  case False
  then obtain xs b where xs: "serialize_loop w = xs @ [b]" and "b \<noteq> 0"
    using last_serialize_loop [OF False] by (metis rev_exhaust last_snoc serialize_loop_Nil_iff)
  then have "256 ^ length xs * 1 \<le> 256 ^ length xs * unat b"
    by (intro mult_le_mono2) (simp add: Suc_le_eq unat_gt_0)
  then have "256 ^ length xs \<le> unat w"
    using le_val_serialize_loop [of w] unfolding xs le_val_snoc by linarith
  also have "unat w < 256 ^ 8"
    using unsigned_less [where w = w] by simp
  finally have "length xs < 8"
    by (rule power_less_imp_less_exp [rotated]) simp
  then show ?thesis
    using xs by simp
qed

lemma length_getvch: "length (getvch n) \<le> 9"
  using length_serialize_loop [of n] length_serialize_loop [of "- n"]
  by (auto simp: getvch_def scriptnum_serialize_def Let_def)

text \<open>The number of bytes a value takes is the least that holds it and its sign.\<close>

lemma int_sm_mag: "\<bar>sm_val vch\<bar> = int (sm_mag vch)"
  by (simp add: sm_val_def)

lemma length_getvch_le_iff:
  assumes "n \<noteq> int64_min"
  shows "length (getvch n) \<le> Suc k \<longleftrightarrow> \<bar>sint n\<bar> < 128 * 256 ^ k"
proof
  assume "length (getvch n) \<le> Suc k"
  then show "\<bar>sint n\<bar> < 128 * 256 ^ k"
    using sm_val_bound [of "getvch n" k] sm_val_serialize [OF assms] by (simp add: getvch_def)
next
  assume bound: "\<bar>sint n\<bar> < 128 * 256 ^ k"
  show "length (getvch n) \<le> Suc k"
  proof (cases "getvch n" rule: rev_cases)
    case Nil
    then show ?thesis by simp
  next
    case (snoc xs b)
    have "minimally_encoded (xs @ [b])"
      using minimally_encoded_serialize [OF assms] snoc by (simp add: getvch_def)
    then have "256 ^ length xs \<le> 2 * sm_mag (xs @ [b])"
      by (rule minimal_mag_lower)
    moreover have "int (sm_mag (xs @ [b])) < int (128 * 256 ^ k)"
      using bound int_sm_mag [of "getvch n"] sm_val_serialize [OF assms] snoc by (simp add: getvch_def)
    ultimately have "(256 :: nat) ^ length xs < 256 ^ Suc k"
      unfolding of_nat_less_iff power_Suc by linarith
    then have "length xs < Suc k"
      by (rule power_less_imp_less_exp [rotated]) simp
    then show ?thesis
      using snoc by simp
  qed
qed

text \<open>Small non-negative numbers as operands.\<close>

lemma sint_of_nat_int64: "int k < 2 ^ 63 \<Longrightarrow> sint (of_nat k :: int64) = int k"
  using sint_of_int64 [of "int k"] by simp

lemma CScriptNum_of_nat:
  assumes "int k < 2 ^ 31"
  shows "CScriptNum (getvch (of_nat k)) m nDefaultMaxNumSize = Some (of_nat k)"
    and "getint (of_nat k) = int k"
proof -
  have s: "sint (of_nat k :: int64) = int k"
    using assms by (intro sint_of_nat_int64) simp
  then have "of_nat k \<noteq> int64_min"
    by (auto simp: int64_min_def)
  moreover have "length (getvch (of_nat k)) \<le> Suc 3"
    using calculation s assms by (subst length_getvch_le_iff) simp_all
  ultimately show "CScriptNum (getvch (of_nat k)) m nDefaultMaxNumSize = Some (of_nat k)"
    by (intro CScriptNum_getvch) (simp_all add: nDefaultMaxNumSize_def)
  show "getint (of_nat k) = int k"
    using s assms by (simp add: getint_def word_sless_alt int_max_def int_min_def)
qed

end
