(* ===== verification/Script.thy ===== *)
theory Script
  imports Opcodes ScriptNum
begin

text \<open>
  Serialized scripts: class \<open>CScript\<close> of \<open>src/script/script.h\<close> and \<open>src/script/script.cpp\<close>.
  A script is a byte vector; an iterator into it is modelled by the suffix of bytes from the
  iterator to \<open>end()\<close>. \<open>GetOp2\<close> reports failure by its boolean result and then leaves the
  iterator inside the instruction, so the model returns the remaining suffix in that case too.

  The lemmas show that an instruction read is determined by the bytes it consumes, that a
  pushed vector is read back, that deleting a pushed vector removes exactly the instructions
  equal to that push, and how the two signature operation counts compare.
\<close>

section \<open>Reading an instruction\<close>

text \<open>The result of \<open>GetOp2\<close>: success, the opcode, the pushed data and the iterator.\<close>

type_synonym getop_result = "bool \<times> opcodetype \<times> valtype \<times> byte list"

text \<open>The bounds check and the assignment of the \<open>nSize\<close> bytes of an immediate operand.\<close>

definition getop_data :: "opcodetype \<Rightarrow> nat \<Rightarrow> byte list \<Rightarrow> getop_result" where
  "getop_data opcode nSize pc =
     (if length pc < nSize then (False, OP_INVALIDOPCODE, [], pc)
      else (True, opcode, take nSize pc, drop nSize pc))"

text \<open>The size of the operand is itself an operand of \<open>n\<close> little-endian bytes.\<close>

definition getop_sized :: "opcodetype \<Rightarrow> nat \<Rightarrow> byte list \<Rightarrow> getop_result" where
  "getop_sized opcode n pc =
     (if length pc < n then (False, OP_INVALIDOPCODE, [], pc)
      else getop_data opcode (le_val (take n pc)) (drop n pc))"

fun GetOp2 :: "byte list \<Rightarrow> getop_result" where
  "GetOp2 [] = (False, OP_INVALIDOPCODE, [], [])"
| "GetOp2 (b # pc) =
     (let opcode = unat b in
      if opcode \<le> OP_PUSHDATA4 then
        (if opcode < OP_PUSHDATA1 then getop_data opcode opcode pc
         else if opcode = OP_PUSHDATA1 then getop_sized opcode 1 pc
         else if opcode = OP_PUSHDATA2 then getop_sized opcode 2 pc
         else getop_sized opcode 4 pc)
      else (True, opcode, [], pc))"

text \<open>The view of the callers that stop at a failure.\<close>

definition GetOp :: "byte list \<Rightarrow> (opcodetype \<times> valtype \<times> byte list) option" where
  "GetOp pc = (case GetOp2 pc of (ok, opcode, vch, pc') \<Rightarrow> if ok then Some (opcode, vch, pc') else None)"

lemma GetOp_Nil [simp]: "GetOp [] = None"
  by (simp add: GetOp_def)

lemma getop_data_shrinks: "getop_data opc n pc = (ok, opc', v, pc') \<Longrightarrow> length pc' \<le> length pc"
  by (auto simp: getop_data_def split: if_splits)

lemma getop_sized_shrinks: "getop_sized opc n pc = (ok, opc', v, pc') \<Longrightarrow> length pc' \<le> length pc"
  using getop_data_shrinks by (fastforce simp: getop_sized_def split: if_splits)

lemma GetOp2_shrinks: "pc \<noteq> [] \<Longrightarrow> GetOp2 pc = (ok, opc, v, pc') \<Longrightarrow> length pc' < length pc"
  by (cases pc)
    (auto simp: Let_def le_imp_less_Suc split: if_splits dest: getop_data_shrinks getop_sized_shrinks)

lemma GetOp_shrinks: "GetOp pc = Some (opc, v, pc') \<Longrightarrow> length pc' < length pc"
  using GetOp2_shrinks [of pc True opc v pc']
  by (cases "pc = []") (auto simp: GetOp_def split: prod.splits if_splits)

text \<open>An instruction depends on the bytes it consumes only.\<close>

lemma getop_data_chunk:
  "getop_data opc n pc = (True, opc', v, pc') \<Longrightarrow>
     \<exists>c. pc = c @ pc' \<and> (\<forall>r. getop_data opc n (c @ r) = (True, opc', v, r))"
  by (rule exI [of _ "take n pc"]) (auto simp: getop_data_def min_def split: if_splits)

lemma getop_sized_chunk:
  assumes "getop_sized opc n pc = (True, opc', v, pc')"
  shows "\<exists>c. pc = c @ pc' \<and> (\<forall>r. getop_sized opc n (c @ r) = (True, opc', v, r))"
proof -
  have len: "n \<le> length pc" and
    data: "getop_data opc (le_val (take n pc)) (drop n pc) = (True, opc', v, pc')"
    using assms by (auto simp: getop_sized_def split: if_splits)
  obtain c where c: "drop n pc = c @ pc'"
    "\<forall>r. getop_data opc (le_val (take n pc)) (c @ r) = (True, opc', v, r)"
    using getop_data_chunk [OF data] by blast
  have "pc = (take n pc @ c) @ pc'"
    using c(1) by (metis append.assoc append_take_drop_id)
  moreover have "getop_sized opc n ((take n pc @ c) @ r) = (True, opc', v, r)" for r
    using len c(2) by (simp add: getop_sized_def)
  ultimately show ?thesis by blast
qed

lemma GetOp_chunk:
  assumes "GetOp pc = Some (opc, v, pc')"
  obtains c where "c \<noteq> []" and "pc = c @ pc'" and "\<And>r. GetOp (c @ r) = Some (opc, v, r)"
proof -
  obtain b rest where pc: "pc = b # rest"
    using assms by (cases pc) auto
  have ok: "GetOp2 (b # rest) = (True, opc, v, pc')"
    using assms by (auto simp: GetOp_def pc split: prod.splits if_splits)
  have "\<exists>c. rest = c @ pc' \<and> (\<forall>r. GetOp2 (b # c @ r) = (True, opc, v, r))"
    using ok by (auto simp: Let_def split: if_splits dest: getop_data_chunk getop_sized_chunk)
  then obtain c where "rest = c @ pc'" and "\<forall>r. GetOp2 (b # c @ r) = (True, opc, v, r)"
    by blast
  then show thesis
    by (intro that [of "b # c"]) (simp_all add: pc GetOp_def)
qed

section \<open>Writing instructions\<close>

text \<open>\<open>operator<<\<close> for a byte vector: the bytes it appends.\<close>

definition script_push :: "valtype \<Rightarrow> byte list" where
  "script_push b =
     (if length b < OP_PUSHDATA1 then [of_nat (length b)]
      else if length b \<le> 0xff then [of_nat OP_PUSHDATA1, of_nat (length b)]
      else if length b \<le> 0xffff then of_nat OP_PUSHDATA2 # le_bytes 2 (length b)
      else of_nat OP_PUSHDATA4 # le_bytes 4 (length b)) @ b"

text \<open>\<open>operator<<\<close> for an opcode; values outside a byte throw.\<close>

definition script_push_op :: "opcodetype \<Rightarrow> byte list option" where
  "script_push_op opcode = (if 0xff < opcode then None else Some [of_nat opcode])"

definition push_int64 :: "int64 \<Rightarrow> byte list" where
  "push_int64 n =
     (if n = -1 \<or> (1 \<le>s n \<and> n \<le>s 16) then [ucast (n + of_nat (OP_1 - 1))]
      else if n = 0 then [of_nat OP_0]
      else script_push (scriptnum_serialize n))"

definition DecodeOP_N :: "opcodetype \<Rightarrow> nat option" where
  "DecodeOP_N opcode =
     (if opcode = OP_0 then Some 0
      else if OP_1 \<le> opcode \<and> opcode \<le> OP_16 then Some (opcode - (OP_1 - 1))
      else None)"

definition EncodeOP_N :: "nat \<Rightarrow> opcodetype option" where
  "EncodeOP_N n = (if 16 < n then None else if n = 0 then Some OP_0 else Some (OP_1 + n - 1))"

lemma EncodeOP_N_DecodeOP_N: "EncodeOP_N n = Some opc \<longleftrightarrow> DecodeOP_N opc = Some n"
  by (auto simp: EncodeOP_N_def DecodeOP_N_def)

text \<open>The opcode that \<open>script_push\<close> chooses for a vector.\<close>

definition push_opcode :: "valtype \<Rightarrow> opcodetype" where
  "push_opcode b =
     (if length b < OP_PUSHDATA1 then length b
      else if length b \<le> 0xff then OP_PUSHDATA1
      else if length b \<le> 0xffff then OP_PUSHDATA2
      else OP_PUSHDATA4)"

lemma GetOp_script_push:
  assumes "length d < 2 ^ 32"
  shows "GetOp (script_push d @ r) = Some (push_opcode d, d, r)"
proof -
  have small: "GetOp2 (of_nat (length d) # d @ r) = (True, length d, d, r)" if "length d < OP_PUSHDATA1"
    using that by (simp add: getop_data_def)
  have m: "length d mod 256 ^ n = length d" if "length d < 256 ^ n" for n
    using that by simp
  show ?thesis
    using assms small
    by (auto simp: script_push_def push_opcode_def GetOp_def getop_sized_def getop_data_def
        le_val_le_bytes)
qed

section \<open>Deleting a subscript\<close>

text \<open>
  The inner loop of \<open>FindAndDelete\<close> erases occurrences at the iterator, the outer loop moves
  to the next instruction. The model returns the new bytes from the iterator on and the count.
\<close>

function fad_strip :: "byte list \<Rightarrow> byte list \<Rightarrow> byte list \<times> nat" where
  "fad_strip b pc =
     (if b \<noteq> [] \<and> length b \<le> length pc \<and> take (length b) pc = b
      then (case fad_strip b (drop (length b) pc) of (pc', n) \<Rightarrow> (pc', Suc n))
      else (pc, 0))"
  by pat_completeness auto
termination
proof (relation "measure (\<lambda>(b, pc). length pc)")
  fix b pc :: "byte list"
  assume "b \<noteq> [] \<and> length b \<le> length pc \<and> take (length b) pc = b"
  then have "0 < length b" and "length b \<le> length pc"
    by simp_all
  then have "length pc - length b < length pc"
    by linarith
  then show "((b, drop (length b) pc), b, pc) \<in> measure (\<lambda>(b, pc). length pc)"
    by simp
qed simp

declare fad_strip.simps [simp del]

lemma fad_strip_shrinks: "length (fst (fad_strip b pc)) \<le> length pc"
proof (induction b pc rule: fad_strip.induct)
  case (1 b pc)
  then show ?case
    by (subst fad_strip.simps) (auto split: prod.splits)
qed

function fad_loop :: "byte list \<Rightarrow> byte list \<Rightarrow> byte list \<times> nat" where
  "fad_loop b pc =
     (case fad_strip b pc of (pc1, n) \<Rightarrow>
       (case GetOp pc1 of
          None \<Rightarrow> (pc1, n)
        | Some (opcode, _, pc2) \<Rightarrow>
            (case fad_loop b pc2 of (rest, m) \<Rightarrow>
               (take (length pc1 - length pc2) pc1 @ rest, n + m))))"
  by pat_completeness auto
termination
proof (relation "measure (\<lambda>(b, pc). length pc)")
  fix b pc pc1 n z opcode y v pc2
  assume "(pc1, n) = fad_strip b pc" "GetOp pc1 = Some z" "(opcode, y) = z" "(v, pc2) = y"
  then show "((b, pc2), b, pc) \<in> measure (\<lambda>(b, pc). length pc)"
    using fad_strip_shrinks [of b pc] GetOp_shrinks [of pc1 opcode v pc2]
    by (metis (mono_tags, lifting) case_prod_conv fst_conv in_measure order_less_le_trans)
qed simp

declare fad_loop.simps [simp del]

definition FindAndDelete :: "byte list \<Rightarrow> byte list \<Rightarrow> byte list \<times> nat" where
  "FindAndDelete script b = (if b = [] then (script, 0) else fad_loop b script)"

section \<open>Scanning a script\<close>

text \<open>The loop of \<open>Find\<close>: how often an opcode occurs.\<close>

function script_find :: "opcodetype \<Rightarrow> byte list \<Rightarrow> nat" where
  "script_find opc pc =
     (case GetOp pc of
        None \<Rightarrow> 0
      | Some (opcode, _, pc') \<Rightarrow> (if opcode = opc then 1 else 0) + script_find opc pc')"
  by pat_completeness auto
termination
  by (relation "measure (\<lambda>(opc, pc). length pc)") (auto dest: GetOp_shrinks)

declare script_find.simps [simp del]

text \<open>\<open>GetSigOpCount(bool)\<close>: the loop carries the last opcode and the count.\<close>

definition sigop_weight :: "bool \<Rightarrow> opcodetype \<Rightarrow> opcodetype \<Rightarrow> nat" where
  "sigop_weight fAccurate lastOpcode opcode =
     (if opcode = OP_CHECKSIG \<or> opcode = OP_CHECKSIGVERIFY then 1
      else if opcode = OP_CHECKMULTISIG \<or> opcode = OP_CHECKMULTISIGVERIFY then
        (if fAccurate \<and> OP_1 \<le> lastOpcode \<and> lastOpcode \<le> OP_16
         then (case DecodeOP_N lastOpcode of Some n \<Rightarrow> n | None \<Rightarrow> 0) else 20)
      else 0)"

function sigop_loop :: "bool \<Rightarrow> opcodetype \<Rightarrow> byte list \<Rightarrow> nat" where
  "sigop_loop fAccurate lastOpcode pc =
     (case GetOp pc of
        None \<Rightarrow> 0
      | Some (opcode, _, pc') \<Rightarrow>
          sigop_weight fAccurate lastOpcode opcode
          + sigop_loop fAccurate opcode pc')"
  by pat_completeness auto
termination
  by (relation "measure (\<lambda>(acc, opc, pc). length pc)") (auto dest: GetOp_shrinks)

declare sigop_loop.simps [simp del]

definition GetSigOpCount :: "bool \<Rightarrow> byte list \<Rightarrow> nat" where
  "GetSigOpCount fAccurate script = sigop_loop fAccurate OP_INVALIDOPCODE script"

definition IsPayToScriptHash :: "byte list \<Rightarrow> bool" where
  "IsPayToScriptHash s =
     (length s = 23 \<and> s ! 0 = of_nat OP_HASH160 \<and> s ! 1 = 0x14 \<and> s ! 22 = of_nat OP_EQUAL)"

definition IsZerocoinMint :: "byte list \<Rightarrow> bool" where
  "IsZerocoinMint s = (0 < length s \<and> s ! 0 = of_nat OP_ZEROCOINMINT)"

definition IsZerocoinSpend :: "byte list \<Rightarrow> bool" where
  "IsZerocoinSpend s = (0 < length s \<and> s ! 0 = of_nat OP_ZEROCOINSPEND)"

definition IsUnspendable :: "byte list \<Rightarrow> bool" where
  "IsUnspendable s = (0 < length s \<and> s ! 0 = of_nat OP_RETURN)"

text \<open>
  \<open>GetSigOpCount(const CScript&)\<close>: the loop keeps the data of the last push of the
  \<open>scriptSig\<close>; a failed read or a non-push opcode returns 0 at once (\<open>None\<close>).
\<close>

function last_push :: "valtype \<Rightarrow> byte list \<Rightarrow> valtype option" where
  "last_push data pc =
     (if pc = [] then Some data
      else
        (case GetOp pc of
           None \<Rightarrow> None
         | Some (opcode, vch, pc') \<Rightarrow> if OP_16 < opcode then None else last_push vch pc'))"
  by pat_completeness auto
termination
  by (relation "measure (\<lambda>(d, pc). length pc)") (auto dest: GetOp_shrinks)

declare last_push.simps [simp del]

definition GetSigOpCountP2SH :: "byte list \<Rightarrow> byte list \<Rightarrow> nat" where
  "GetSigOpCountP2SH script scriptSig =
     (if \<not> IsPayToScriptHash script then GetSigOpCount True script
      else
        (case last_push [] scriptSig of
           None \<Rightarrow> 0
         | Some data \<Rightarrow> GetSigOpCount True data))"

text \<open>\<open>IsPushOnly(pc)\<close>.\<close>

function IsPushOnly :: "byte list \<Rightarrow> bool" where
  "IsPushOnly pc =
     (if pc = [] then True
      else
        (case GetOp pc of
           None \<Rightarrow> False
         | Some (opcode, _, pc') \<Rightarrow> if OP_16 < opcode then False else IsPushOnly pc'))"
  by pat_completeness auto
termination
  by (relation "measure length") (auto dest: GetOp_shrinks)

declare IsPushOnly.simps [simp del]

text \<open>
  \<open>IsNormalPaymentScript\<close> ignores the result of \<open>GetOp\<close>: after a failed read the loop goes on
  with \<open>OP_INVALIDOPCODE\<close> from wherever the iterator was left.
\<close>

function normal_payment_loop :: "nat \<Rightarrow> byte list \<Rightarrow> bool" where
  "normal_payment_loop i pc =
     (if pc = [] then True
      else
        (case GetOp2 pc of
           (_, opcode, _, pc') \<Rightarrow>
             if i = 0 \<and> opcode \<noteq> OP_DUP then False
             else if i = 1 \<and> opcode \<noteq> OP_HASH160 then False
             else if i = 3 \<and> opcode \<noteq> OP_EQUALVERIFY then False
             else if i = 4 \<and> opcode \<noteq> OP_CHECKSIG then False
             else if i = 5 then False
             else normal_payment_loop (Suc i) pc'))"
  by pat_completeness auto
termination
  by (relation "measure (\<lambda>(i, pc). length pc)") (simp, metis GetOp2_shrinks case_prod_conv in_measure)

declare normal_payment_loop.simps [simp del]

definition IsNormalPaymentScript :: "byte list \<Rightarrow> bool" where
  "IsNormalPaymentScript s = (if length s \<noteq> 25 then False else normal_payment_loop 0 s)"

section \<open>A script as a sequence of instructions\<close>

text \<open>
  The reference view of a script: the byte chunks of its instructions and the bytes left where
  no further instruction can be read. The loops above are described by it.
\<close>

function script_chunks :: "byte list \<Rightarrow> byte list list" where
  "script_chunks pc =
     (case GetOp pc of
        None \<Rightarrow> []
      | Some (_, _, pc') \<Rightarrow> take (length pc - length pc') pc # script_chunks pc')"
  by pat_completeness auto
termination
  by (relation "measure length") (auto dest: GetOp_shrinks)

declare script_chunks.simps [simp del]

function script_tail :: "byte list \<Rightarrow> byte list" where
  "script_tail pc = (case GetOp pc of None \<Rightarrow> pc | Some (_, _, pc') \<Rightarrow> script_tail pc')"
  by pat_completeness auto
termination
  by (relation "measure length") (auto dest: GetOp_shrinks)

declare script_tail.simps [simp del]

definition is_instruction :: "byte list \<Rightarrow> bool" where
  "is_instruction c = (case GetOp c of None \<Rightarrow> False | Some (_, _, pc') \<Rightarrow> pc' = [])"

lemma script_chunks_None: "GetOp pc = None \<Longrightarrow> script_chunks pc = []"
  and script_tail_None: "GetOp pc = None \<Longrightarrow> script_tail pc = pc"
  by (simp_all add: script_chunks.simps [of pc] script_tail.simps [of pc])

lemma script_chunks_Some:
  "(\<And>r. GetOp (c @ r) = Some (opc, v, r)) \<Longrightarrow> script_chunks (c @ pc) = c # script_chunks pc"
  and script_tail_Some:
  "(\<And>r. GetOp (c @ r) = Some (opc, v, r)) \<Longrightarrow> script_tail (c @ pc) = script_tail pc"
  by (simp_all add: script_chunks.simps [of "c @ pc"] script_tail.simps [of "c @ pc"])

text \<open>Induction over the instructions of a script.\<close>

lemma script_induct [case_names stop instr]:
  assumes stop: "\<And>pc. GetOp pc = None \<Longrightarrow> P pc"
    and instr: "\<And>c opc v pc. c \<noteq> [] \<Longrightarrow> (\<And>r. GetOp (c @ r) = Some (opc, v, r)) \<Longrightarrow> P pc \<Longrightarrow> P (c @ pc)"
  shows "P pc"
proof (induction "length pc" arbitrary: pc rule: less_induct)
  case less
  show ?case
  proof (cases "GetOp pc")
    case None
    then show ?thesis by (rule stop)
  next
    case (Some r)
    obtain opc v pc' where get: "GetOp pc = Some (opc, v, pc')"
      using Some by (cases r) auto
    then obtain c where "c \<noteq> []" and pc: "pc = c @ pc'" and "\<And>r. GetOp (c @ r) = Some (opc, v, r)"
      by (rule GetOp_chunk) blast
    moreover have "P pc'"
      using get by (intro less GetOp_shrinks)
    ultimately show ?thesis
      unfolding pc by (intro instr)
  qed
qed

lemma script_chunks_concat: "concat (script_chunks pc) @ script_tail pc = pc"
  by (induction pc rule: script_induct)
    (simp_all add: script_chunks_None script_tail_None script_chunks_Some script_tail_Some)

lemma GetOp_script_tail: "GetOp (script_tail pc) = None"
  by (induction pc rule: script_induct) (simp_all add: script_tail_None script_tail_Some)

lemma script_chunks_instructions: "c \<in> set (script_chunks pc) \<Longrightarrow> is_instruction c"
proof (induction pc rule: script_induct)
  case (stop pc)
  then show ?case by (simp add: script_chunks_None)
next
  case (instr d opc v pc)
  have "GetOp d = Some (opc, v, [])"
    using instr(2) [of "[]"] by simp
  then have "is_instruction d"
    by (simp add: is_instruction_def)
  then show ?case
    using instr.prems instr.IH by (auto simp: script_chunks_Some [OF instr(2)])
qed

lemma is_instructionD:
  assumes "is_instruction b"
  obtains opc v where "\<And>r. GetOp (b @ r) = Some (opc, v, r)" and "b \<noteq> []"
proof -
  obtain opc v where get: "GetOp b = Some (opc, v, [])"
    using assms by (auto simp: is_instruction_def split: option.splits)
  then obtain c where "b = c @ []" and "\<And>r. GetOp (c @ r) = Some (opc, v, r)" and "c \<noteq> []"
    by (rule GetOp_chunk) blast
  then show thesis using that by simp
qed

lemma is_instruction_push: "length d < 2 ^ 32 \<Longrightarrow> is_instruction (script_push d)"
  using GetOp_script_push [of d "[]"] by (simp add: is_instruction_def)

section \<open>What deletion does\<close>

text \<open>
  Deleting an instruction removes exactly the instructions equal to it, and leaves the
  unreadable tail alone.
\<close>

lemma instruction_prefix:
  assumes b: "\<And>r. GetOp (b @ r) = Some (opc, v, r)"
    and c: "\<And>r. GetOp (c @ r) = Some (opc', v', r)"
    and "take (length b) (c @ pc) = b"
  shows "b = c"
proof -
  have "c @ pc = b @ drop (length b) (c @ pc)"
    using assms(3) by (metis append_take_drop_id)
  then have "GetOp (c @ pc) = Some (opc, v, drop (length b) (c @ pc))"
    using b by metis
  then have "drop (length b) (c @ pc) = pc"
    using c by simp
  then show ?thesis
    using assms(3) by (metis append_same_eq append_take_drop_id)
qed

lemma fad_strip_no_match: "\<not> (length b \<le> length pc \<and> take (length b) pc = b) \<Longrightarrow> fad_strip b pc = (pc, 0)"
  by (subst fad_strip.simps) auto

lemma fad_strip_match: "b \<noteq> [] \<Longrightarrow> fad_strip b (b @ pc) = map_prod id Suc (fad_strip b pc)"
  by (subst fad_strip.simps) (auto split: prod.splits)

lemma fad_loop_match: "b \<noteq> [] \<Longrightarrow> fad_loop b (b @ pc) = map_prod id Suc (fad_loop b pc)"
  by (subst (1 2) fad_loop.simps)
    (auto simp: fad_strip_match split: prod.splits option.splits)

lemma fad_loop_filter:
  assumes b: "\<And>r. GetOp (b @ r) = Some (opc, v, r)" and "b \<noteq> []"
  shows "fad_loop b pc =
    (concat (filter (\<lambda>c. c \<noteq> b) (script_chunks pc)) @ script_tail pc,
     length (filter (\<lambda>c. c = b) (script_chunks pc)))"
proof (induction pc rule: script_induct)
  case (stop pc)
  have "\<not> (length b \<le> length pc \<and> take (length b) pc = b)"
    using b stop by (metis append_take_drop_id option.distinct(1))
  then have "fad_strip b pc = (pc, 0)"
    by (rule fad_strip_no_match)
  then show ?case
    using stop by (simp add: fad_loop.simps [of b pc] script_chunks_None script_tail_None)
next
  case (instr c opc' v' pc)
  show ?case
  proof (cases "c = b")
    case True
    then show ?thesis
      using instr.IH assms(2)
      by (simp add: fad_loop_match script_chunks_Some [OF b] script_tail_Some [OF b])
  next
    case False
    then have "\<not> (length b \<le> length (c @ pc) \<and> take (length b) (c @ pc) = b)"
      using instruction_prefix [OF b instr(2)] by blast
    then have "fad_strip b (c @ pc) = (c @ pc, 0)"
      by (rule fad_strip_no_match)
    then show ?thesis
      using instr False
      by (simp add: fad_loop.simps [of b "c @ pc"] script_chunks_Some [OF instr(2)]
          script_tail_Some [OF instr(2)])
  qed
qed

lemma FindAndDelete_instruction:
  assumes "is_instruction b"
  shows "FindAndDelete script b =
    (concat (filter (\<lambda>c. c \<noteq> b) (script_chunks script)) @ script_tail script,
     length (filter (\<lambda>c. c = b) (script_chunks script)))"
  using assms by (elim is_instructionD) (simp add: FindAndDelete_def fad_loop_filter)

text \<open>Reading back a sequence of instructions.\<close>

lemma script_chunks_of_concat:
  assumes "\<And>c. c \<in> set cs \<Longrightarrow> is_instruction c" and "GetOp t = None"
  shows "script_chunks (concat cs @ t) = cs"
  using assms(1)
proof (induction cs)
  case Nil
  then show ?case using assms(2) by (simp add: script_chunks_None)
next
  case (Cons c cs)
  have "is_instruction c"
    using Cons.prems by simp
  then obtain opc v where "\<And>r. GetOp (c @ r) = Some (opc, v, r)"
    by (rule is_instructionD) blast
  then have "script_chunks (c @ concat cs @ t) = c # script_chunks (concat cs @ t)"
    by (rule script_chunks_Some)
  then show ?case using Cons by simp
qed

lemma FindAndDelete_chunks:
  assumes "is_instruction b"
  shows "script_chunks (fst (FindAndDelete script b)) = filter (\<lambda>c. c \<noteq> b) (script_chunks script)"
  unfolding FindAndDelete_instruction [OF assms] fst_conv
  by (rule script_chunks_of_concat) (auto intro: script_chunks_instructions GetOp_script_tail)

section \<open>Signature operation counts and push-only scripts\<close>

text \<open>One step of each scanning loop over an instruction.\<close>

lemma sigop_loop_None: "GetOp pc = None \<Longrightarrow> sigop_loop acc l pc = 0"
  by (simp add: sigop_loop.simps [of acc l pc])

lemma IsPushOnly_step:
  "(\<And>r. GetOp (c @ r) = Some (opc, v, r)) \<Longrightarrow> c \<noteq> [] \<Longrightarrow>
     IsPushOnly (c @ pc) \<longleftrightarrow> opc \<le> OP_16 \<and> IsPushOnly pc"
  by (auto simp: IsPushOnly.simps [of "c @ pc"])

lemma last_push_step:
  "(\<And>r. GetOp (c @ r) = Some (opc, v, r)) \<Longrightarrow> c \<noteq> [] \<Longrightarrow>
     last_push d (c @ pc) = (if OP_16 < opc then None else last_push v pc)"
  by (simp add: last_push.simps [of d "c @ pc"])

lemma IsPushOnly_Nil [simp]: "IsPushOnly []"
  by (simp add: IsPushOnly.simps)

lemma last_push_Nil [simp]: "last_push d [] = Some d"
  by (simp add: last_push.simps)

lemma IsPushOnly_iff_last_push: "IsPushOnly pc \<longleftrightarrow> last_push d pc \<noteq> None"
proof (induction pc arbitrary: d rule: script_induct)
  case (stop pc)
  then show ?case
    by (simp add: IsPushOnly.simps [of pc] last_push.simps [of d pc])
next
  case (instr c opc v pc)
  then show ?case
    using instr.IH [of v] by (simp add: IsPushOnly_step [OF instr(2)] last_push_step [OF instr(2)])
qed

lemma sigop_loop_step:
  "(\<And>r. GetOp (c @ r) = Some (opc, v, r)) \<Longrightarrow>
     sigop_loop acc l (c @ pc) = sigop_weight acc l opc + sigop_loop acc opc pc"
  by (simp add: sigop_loop.simps [of acc l "c @ pc"])

lemma sigop_weight_le: "sigop_weight acc l opc \<le> 20"
  by (auto simp: sigop_weight_def DecodeOP_N_def)

lemma sigop_weight_mono: "sigop_weight acc l opc \<le> sigop_weight False l' opc"
  by (auto simp: sigop_weight_def DecodeOP_N_def)

lemma sigop_weight_push: "opc \<le> OP_16 \<Longrightarrow> sigop_weight acc l opc = 0"
  by (simp add: sigop_weight_def)

lemma sigop_loop_mono: "sigop_loop acc l pc \<le> sigop_loop False l' pc"
proof (induction pc arbitrary: l l' rule: script_induct)
  case (stop pc)
  then show ?case by (simp add: sigop_loop_None)
next
  case (instr c opc v pc)
  show ?case
    unfolding sigop_loop_step [OF instr(2)]
    by (intro add_mono sigop_weight_mono instr.IH)
qed

lemma sigop_loop_bound: "sigop_loop acc l pc \<le> 20 * length pc"
proof (induction pc arbitrary: l rule: script_induct)
  case (stop pc)
  then show ?case by (simp add: sigop_loop_None)
next
  case (instr c opc v pc)
  have "20 * 1 \<le> 20 * length c"
    using instr(1) by (intro mult_le_mono2) (simp add: Suc_le_eq)
  then show ?case
    using sigop_weight_le [of acc l opc] instr.IH [of opc]
    unfolding sigop_loop_step [OF instr(2)] length_append distrib_left by linarith
qed

lemma sigop_loop_push_only: "IsPushOnly pc \<Longrightarrow> sigop_loop acc l pc = 0"
proof (induction pc arbitrary: l rule: script_induct)
  case (stop pc)
  then show ?case by (simp add: sigop_loop_None)
next
  case (instr c opc v pc)
  then show ?case
    by (simp add: sigop_loop_step [OF instr(2)] IsPushOnly_step [OF instr(2)] sigop_weight_push)
qed

text \<open>A sequence of pushes.\<close>

lemma push_opcode_le: "push_opcode d \<le> OP_PUSHDATA4"
  by (simp add: push_opcode_def)

lemma script_push_not_Nil [simp]: "script_push d \<noteq> []"
  by (simp add: script_push_def)

lemma IsPushOnly_pushes:
  "(\<And>d. d \<in> set ds \<Longrightarrow> length d < 2 ^ 32) \<Longrightarrow> IsPushOnly (concat (map script_push ds))"
proof (induction ds)
  case Nil
  then show ?case by simp
next
  case (Cons d ds)
  then show ?case
    using push_opcode_le [of d] by (simp add: IsPushOnly_step [OF GetOp_script_push])
qed

lemma last_push_pushes:
  "(\<And>d. d \<in> set ds \<Longrightarrow> length d < 2 ^ 32) \<Longrightarrow>
     last_push x (concat (map script_push ds)) = Some (last (x # ds))"
proof (induction ds arbitrary: x)
  case Nil
  then show ?case by simp
next
  case (Cons d ds)
  then show ?case
    using push_opcode_le [of d] by (simp add: last_push_step [OF GetOp_script_push])
qed

end
