(* ===== verification/SigEncoding.thy ===== *)
theory SigEncoding
  imports Script
begin

text \<open>
  The encoding checks of \<open>src/script/interpreter.cpp\<close> on public keys, signatures and pushes, with
  \<open>CompareBigEndian\<close> and \<open>CheckSignatureElement\<close> of \<open>src/eccryptoverify.cpp\<close>.

  The DER check reads the vector at computed positions. In the model every read is checked
  and a read past the end gives \<open>None\<close>; a lemma shows that this never happens. The check is
  then shown to accept exactly the layout that the source's comment describes.
\<close>

section \<open>Public keys\<close>

definition IsCompressedOrUncompressedPubKey :: "valtype \<Rightarrow> bool" where
  "IsCompressedOrUncompressedPubKey vchPubKey =
     (if length vchPubKey < 33 then False
      else if vchPubKey ! 0 = 0x04 then length vchPubKey = 65
      else if vchPubKey ! 0 = 0x02 \<or> vchPubKey ! 0 = 0x03 then length vchPubKey = 33
      else False)"

section \<open>Signatures\<close>

text \<open>A checked read.\<close>

definition rd :: "valtype \<Rightarrow> nat \<Rightarrow> (byte \<Rightarrow> 'a option) \<Rightarrow> 'a option" where
  "rd sig i f = (if i < length sig then f (sig ! i) else None)"

definition reject_if :: "bool \<Rightarrow> bool option \<Rightarrow> bool option" where
  "reject_if c k = (if c then Some False else k)"

text \<open>The checks on one integer of \<open>len\<close> bytes that starts at position \<open>i\<close>.\<close>

definition check_der_int :: "valtype \<Rightarrow> nat \<Rightarrow> nat \<Rightarrow> bool option \<Rightarrow> bool option" where
  "check_der_int sig i len k =
     rd sig (i - 2) (\<lambda>tag. reject_if (tag \<noteq> 0x02)
       (reject_if (len = 0)
         (rd sig i (\<lambda>b0. reject_if (b0 AND 0x80 \<noteq> 0)
           (if 1 < len \<and> b0 = 0
            then rd sig (i + 1) (\<lambda>b1. reject_if (b1 AND 0x80 = 0) k)
            else k)))))"

definition IsValidSignatureEncoding :: "valtype \<Rightarrow> bool option" where
  "IsValidSignatureEncoding sig =
     reject_if (length sig < 9)
      (reject_if (73 < length sig)
        (rd sig 0 (\<lambda>b0. reject_if (b0 \<noteq> 0x30)
          (rd sig 1 (\<lambda>b1. reject_if (unat b1 \<noteq> length sig - 3)
            (rd sig 3 (\<lambda>b3. let lenR = unat b3 in
              reject_if (length sig \<le> 5 + lenR)
               (rd sig (5 + lenR) (\<lambda>bS. let lenS = unat bS in
                 reject_if (lenR + lenS + 7 \<noteq> length sig)
                  (check_der_int sig 4 lenR
                    (check_der_int sig (lenR + 6) lenS (Some True))))))))))))"

fun CompareBigEndian :: "byte list \<Rightarrow> byte list \<Rightarrow> int" where
  "CompareBigEndian [] [] = 0"
| "CompareBigEndian (a # c1) [] = (if a \<noteq> 0 then 1 else CompareBigEndian c1 [])"
| "CompareBigEndian [] (b # c2) = (if b \<noteq> 0 then -1 else CompareBigEndian [] c2)"
| "CompareBigEndian (a # c1) (b # c2) =
     (if length c2 < length c1 then (if a \<noteq> 0 then 1 else CompareBigEndian c1 (b # c2))
      else if length c1 < length c2 then (if b \<noteq> 0 then -1 else CompareBigEndian (a # c1) c2)
      else if b < a then 1
      else if a < b then -1
      else CompareBigEndian c1 c2)"

definition vchMaxModOrder :: "byte list" where
  "vchMaxModOrder =
    [0xFF, 0xFF, 0xFF, 0xFF, 0xFF, 0xFF, 0xFF, 0xFF,
     0xFF, 0xFF, 0xFF, 0xFF, 0xFF, 0xFF, 0xFF, 0xFE,
     0xBA, 0xAE, 0xDC, 0xE6, 0xAF, 0x48, 0xA0, 0x3B,
     0xBF, 0xD2, 0x5E, 0x8C, 0xD0, 0x36, 0x41, 0x40]"

definition vchMaxModHalfOrder :: "byte list" where
  "vchMaxModHalfOrder =
    [0x7F, 0xFF, 0xFF, 0xFF, 0xFF, 0xFF, 0xFF, 0xFF,
     0xFF, 0xFF, 0xFF, 0xFF, 0xFF, 0xFF, 0xFF, 0xFF,
     0x5D, 0x57, 0x6E, 0x73, 0x57, 0xA4, 0x50, 0x1D,
     0xDF, 0xE9, 0x2F, 0x46, 0x68, 0x1B, 0x20, 0xA0]"

definition CheckSignatureElement :: "byte list \<Rightarrow> bool \<Rightarrow> bool" where
  "CheckSignatureElement vch half =
     (0 < CompareBigEndian vch [] \<and>
      CompareBigEndian vch (if half then vchMaxModHalfOrder else vchMaxModOrder) \<le> 0)"

definition IsLowDERSignature :: "valtype \<Rightarrow> failure + unit" where
  "IsLowDERSignature vchSig =
     (if IsValidSignatureEncoding vchSig \<noteq> Some True then set_error SCRIPT_ERR_SIG_DER
      else
        let nLenR = unat (vchSig ! 3);
            nLenS = unat (vchSig ! (5 + nLenR));
            S = take nLenS (drop (6 + nLenR) vchSig)
        in if \<not> CheckSignatureElement S True then set_error SCRIPT_ERR_SIG_HIGH_S
           else set_success ())"

definition IsDefinedHashtypeSignature :: "valtype \<Rightarrow> bool" where
  "IsDefinedHashtypeSignature vchSig =
     (if length vchSig = 0 then False
      else
        let nHashType = last vchSig AND NOT (0x80 :: byte)
        in \<not> (nHashType < 1 \<or> 3 < nHashType))"

definition CheckSignatureEncoding :: "valtype \<Rightarrow> flags \<Rightarrow> failure + unit" where
  "CheckSignatureEncoding vchSig flags =
     (if length vchSig = 0 then set_success ()
      else if has_flag flags (SCRIPT_VERIFY_DERSIG OR SCRIPT_VERIFY_LOW_S OR SCRIPT_VERIFY_STRICTENC)
              \<and> IsValidSignatureEncoding vchSig \<noteq> Some True
      then set_error SCRIPT_ERR_SIG_DER
      else if has_flag flags SCRIPT_VERIFY_LOW_S \<and> \<not> is_ok (IsLowDERSignature vchSig)
      then IsLowDERSignature vchSig
      else if has_flag flags SCRIPT_VERIFY_STRICTENC \<and> \<not> IsDefinedHashtypeSignature vchSig
      then set_error SCRIPT_ERR_SIG_HASHTYPE
      else set_success ())"

definition CheckPubKeyEncoding :: "valtype \<Rightarrow> flags \<Rightarrow> failure + unit" where
  "CheckPubKeyEncoding vchPubKey flags =
     (if has_flag flags SCRIPT_VERIFY_STRICTENC \<and> \<not> IsCompressedOrUncompressedPubKey vchPubKey
      then set_error SCRIPT_ERR_PUBKEYTYPE
      else set_success ())"

section \<open>Pushes\<close>

definition CheckMinimalPush :: "valtype \<Rightarrow> opcodetype \<Rightarrow> bool" where
  "CheckMinimalPush data opcode =
     (if length data = 0 then opcode = OP_0
      else if length data = 1 \<and> 1 \<le> data ! 0 \<and> data ! 0 \<le> 16
      then opcode = OP_1 + (unat (data ! 0) - 1)
      else if length data = 1 \<and> data ! 0 = 0x81 then opcode = OP_1NEGATE
      else if length data \<le> 75 then opcode = length data
      else if length data \<le> 255 then opcode = OP_PUSHDATA1
      else if length data \<le> 65535 then opcode = OP_PUSHDATA2
      else True)"

section \<open>The layout the signature check accepts\<close>

text \<open>
  A positive integer in the shortest big-endian form, and the layout of the comment: 0x30, the
  length of what follows less the hash type, two tagged and sized integers, the hash type.
\<close>

definition valid_der_int :: "byte list \<Rightarrow> bool" where
  "valid_der_int x \<longleftrightarrow>
     x \<noteq> [] \<and> unat (x ! 0) < 128 \<and> (1 < length x \<and> x ! 0 = 0 \<longrightarrow> 128 \<le> unat (x ! 1))"

definition der_signature :: "byte list \<Rightarrow> byte list \<Rightarrow> byte \<Rightarrow> valtype" where
  "der_signature R S hashtype =
     [0x30, of_nat (length R + length S + 4), 0x02, of_nat (length R)] @ R @
     [0x02, of_nat (length S)] @ S @ [hashtype]"

lemma rd_in [simp]: "i < length sig \<Longrightarrow> rd sig i f = f (sig ! i)"
  by (simp add: rd_def)

lemma reject_if_simps [simp]: "reject_if True k = Some False" "reject_if False k = k"
  by (simp_all add: reject_if_def)

lemma check_der_int_value:
  assumes "sig = pre @ x @ post" and "i = length pre" and "2 \<le> i"
  shows "check_der_int sig i (length x) k =
    (if sig ! (i - 2) = 0x02 \<and> valid_der_int x then k else Some False)"
proof -
  have tag: "i - 2 < length sig"
    using assms by simp
  show ?thesis
  proof (cases x)
    case Nil
    then show ?thesis
      using tag by (simp add: check_der_int_def valid_der_int_def reject_if_def)
  next
    case (Cons b bs)
    have b: "i < length sig" "sig ! i = b"
      using assms Cons by (simp_all add: nth_append)
    show ?thesis
    proof (cases bs)
      case Nil
      then show ?thesis
        using tag b Cons byte_and_80 [of b]
        by (auto simp: check_der_int_def valid_der_int_def reject_if_def)
    next
      case bs: (Cons c cs)
      have c: "i + 1 < length sig" "sig ! (i + 1) = c"
        using assms Cons bs by (simp_all add: nth_append)
      show ?thesis
        using tag b c Cons bs byte_and_80 [of b] byte_and_80 [of c]
        by (auto simp: check_der_int_def valid_der_int_def reject_if_def)
    qed
  qed
qed

lemma signature_decomposition:
  fixes sig :: valtype
  assumes "9 \<le> length sig"
  obtains (short_R) "length sig \<le> 5 + unat (sig ! 3)"
  | (bad_S) "5 + unat (sig ! 3) < length sig"
      "unat (sig ! 3) + unat (sig ! (5 + unat (sig ! 3))) + 7 \<noteq> length sig"
  | (split) b0 b1 b2 R t S h where
      "sig = [b0, b1, b2, of_nat (length R)] @ R @ [t, of_nat (length S)] @ S @ [h]"
      "length R < 256" "length S < 256"
proof (cases "length sig \<le> 5 + unat (sig ! 3)")
  case True
  then show ?thesis by (rule short_R)
next
  case R: False
  let ?lR = "unat (sig ! 3)" and ?lS = "unat (sig ! (5 + unat (sig ! 3)))"
  show ?thesis
  proof (cases "?lR + ?lS + 7 = length sig")
    case False
    then show ?thesis using R by (intro bad_S) auto
  next
    case True
    define R where "R = take ?lR (drop 4 sig)"
    define S where "S = take ?lS (drop (6 + ?lR) sig)"
    have lens: "length R = ?lR" "length S = ?lS"
      using True by (simp_all add: R_def S_def)
    have step: "i < length sig \<Longrightarrow> j = Suc i \<Longrightarrow> drop i sig = sig ! i # drop j sig" for i j
      by (simp add: Cons_nth_drop_Suc)
    have "sig = drop 0 sig"
      by simp
    also have "\<dots> = [sig ! 0, sig ! 1, sig ! 2, sig ! 3] @ drop 4 sig"
      using assms step [of 0 1] step [of 1 2] step [of 2 3] step [of 3 4] by fastforce
    also have "drop 4 sig = R @ drop (4 + ?lR) sig"
      unfolding R_def by (rule take_drop_split [symmetric])
    also have "drop (4 + ?lR) sig = [sig ! (4 + ?lR), sig ! (5 + ?lR)] @ drop (6 + ?lR) sig"
      using True step [of "4 + ?lR" "5 + ?lR"] step [of "5 + ?lR" "6 + ?lR"] by simp
    also have "drop (6 + ?lR) sig = S @ drop (6 + ?lR + ?lS) sig"
      unfolding S_def by (rule take_drop_split [symmetric])
    also have "drop (6 + ?lR + ?lS) sig = [sig ! (6 + ?lR + ?lS)]"
      using True step [of "6 + ?lR + ?lS" "7 + ?lR + ?lS"] by simp
    finally have eq: "sig = [sig ! 0, sig ! 1, sig ! 2, of_nat (length R)] @ R @
        [sig ! (4 + ?lR), of_nat (length S)] @ S @ [sig ! (6 + ?lR + ?lS)]"
      using lens by simp
    show ?thesis
      using split [OF eq] unat_byte_less [of "sig ! 3"] unat_byte_less [of "sig ! (5 + ?lR)"]
      unfolding lens by blast
  qed
qed

lemma IsValidSignatureEncoding_shape:
  assumes sig: "sig = [b0, b1, b2, of_nat (length R)] @ R @ [t, of_nat (length S)] @ S @ [h]"
    and "length R < 256" "length S < 256"
  shows "IsValidSignatureEncoding sig =
    Some (9 \<le> length sig \<and> length sig \<le> 73 \<and> b0 = 0x30 \<and> unat b1 = length sig - 3 \<and>
          b2 = 0x02 \<and> valid_der_int R \<and> t = 0x02 \<and> valid_der_int S)"
proof -
  have len: "length sig = length R + length S + 7"
    using sig by simp
  have lR: "unat (sig ! 3) = length R" and s0: "sig ! 0 = b0" "sig ! 1 = b1" "sig ! (4 - 2) = b2" "sig ! Suc 0 = b1"
    using assms by simp_all
  have lS: "unat (sig ! (5 + length R)) = length S" and t: "sig ! (length R + 6 - 2) = t"
    using assms by (simp_all add: nth_append)
  have cR: "check_der_int sig 4 (length R) k =
      (if b2 = 0x02 \<and> valid_der_int R then k else Some False)" for k
    unfolding s0(3) [symmetric]
    by (rule check_der_int_value [of _ "[b0, b1, b2, of_nat (length R)]" _ "[t, of_nat (length S)] @ S @ [h]"])
      (simp_all add: sig)
  have cS: "check_der_int sig (length R + 6) (length S) k =
      (if t = 0x02 \<and> valid_der_int S then k else Some False)" for k
    unfolding t [symmetric]
    by (rule check_der_int_value
        [of _ "[b0, b1, b2, of_nat (length R)] @ R @ [t, of_nat (length S)]" _ "[h]"])
      (simp_all add: sig)
  have in_sig: "0 < length sig" "1 < length sig" "3 < length sig" "5 + length R < length sig"
    using len by simp_all
  show ?thesis
    using len unfolding IsValidSignatureEncoding_def Let_def
    by (auto simp: in_sig lR lS s0 cR cS reject_if_def)
qed

lemma IsValidSignatureEncoding_total: "IsValidSignatureEncoding sig \<noteq> None"
proof (cases "9 \<le> length sig")
  case False
  then show ?thesis by (simp add: IsValidSignatureEncoding_def)
next
  case True
  then show ?thesis
  proof (cases rule: signature_decomposition)
    case short_R
    then show ?thesis
      using True by (auto simp: IsValidSignatureEncoding_def Let_def reject_if_def rd_def)
  next
    case bad_S
    then show ?thesis
      using True by (auto simp: IsValidSignatureEncoding_def Let_def reject_if_def rd_def)
  next
    case split
    then show ?thesis by (simp only: IsValidSignatureEncoding_shape) simp
  qed
qed

lemma length_der_signature [simp]: "length (der_signature R S h) = length R + length S + 7"
  by (simp add: der_signature_def)

lemma IsValidSignatureEncoding_der:
  assumes "valid_der_int R" and "valid_der_int S" and "length R + length S \<le> 66"
  shows "IsValidSignatureEncoding (der_signature R S h) = Some True"
proof -
  have "R \<noteq> []" "S \<noteq> []"
    using assms by (auto simp: valid_der_int_def)
  then have "1 \<le> length R" "1 \<le> length S"
    by (simp_all add: Suc_le_eq)
  moreover have "unat (of_nat (length R) + of_nat (length S) + 4 :: byte) = length R + length S + 4"
    using unat_of_nat_byte [of "length R + length S + 4"] assms(3) by simp
  ultimately show ?thesis
    using assms IsValidSignatureEncoding_shape [OF der_signature_def, of R S h] by simp
qed

lemma IsValidSignatureEncoding_layout:
  assumes "IsValidSignatureEncoding sig = Some True"
  shows "\<exists>R S h. sig = der_signature R S h \<and> valid_der_int R \<and> valid_der_int S \<and>
    length R + length S \<le> 66"
proof -
  have long: "9 \<le> length sig"
    using assms by (auto simp: IsValidSignatureEncoding_def reject_if_def split: if_splits)
  then show ?thesis
  proof (cases rule: signature_decomposition)
    case short_R
    then show ?thesis
      using assms long by (auto simp: IsValidSignatureEncoding_def Let_def reject_if_def rd_def split: if_splits)
  next
    case bad_S
    then show ?thesis
      using assms long by (auto simp: IsValidSignatureEncoding_def Let_def reject_if_def rd_def split: if_splits)
  next
    case (split b0 b1 b2 R t S h)
    then have v: "length sig \<le> 73" "b0 = 0x30" "unat b1 = length sig - 3" "b2 = 0x02"
      "valid_der_int R" "t = 0x02" "valid_der_int S"
      using assms IsValidSignatureEncoding_shape [OF split] by auto
    have "unat b1 = length R + length S + 4"
      using v(3) split(1) by simp
    then have "b1 = of_nat (length R + length S + 4)"
      by (metis byte_of_nat_unat)
    then show ?thesis
      using v split(1) by (intro exI [of _ R] exI [of _ S] exI [of _ h]) (simp add: der_signature_def)
  qed
qed

section \<open>Low S\<close>

text \<open>\<open>CompareBigEndian\<close> compares the numbers, whatever the lengths.\<close>

lemma CompareBigEndian_sign:
  "CompareBigEndian c1 c2 =
     (if be_val c1 < be_val c2 then -1 else if be_val c2 < be_val c1 then 1 else 0)"
proof (induction c1 c2 rule: CompareBigEndian.induct)
  case 1
  then show ?case by simp
next
  case (2 a c1)
  have "a \<noteq> 0 \<Longrightarrow> 0 < unat a"
    by (simp add: unat_gt_0)
  then show ?case using 2 by auto
next
  case (3 b c2)
  have "b \<noteq> 0 \<Longrightarrow> 0 < unat b"
    by (simp add: unat_gt_0)
  then show ?case using 3 by auto
next
  case (4 a c1 b c2)
  have pos: "x \<noteq> 0 \<Longrightarrow> 1 \<le> unat x" for x :: byte
    by (simp add: Suc_le_eq unat_gt_0)
  have big: "be_val xs < 256 ^ length ys * unat x + k"
    if "length xs \<le> length ys" "x \<noteq> 0" for x :: byte and xs ys :: "byte list" and k
  proof -
    have "be_val xs < 256 ^ length xs"
      by (rule be_val_bound)
    also have "\<dots> \<le> 256 ^ length ys * 1"
      using that(1) by (simp add: power_increasing)
    also have "\<dots> \<le> 256 ^ length ys * unat x"
      using pos [OF that(2)] by (intro mult_le_mono2)
    finally show ?thesis by simp
  qed
  show ?case
  proof (cases "length c1" "length c2" rule: linorder_cases)
    case less
    then show ?thesis
      using 4 big [where xs = "a # c1" and ys = c2 and x = b and k = "be_val c2"] by auto
  next
    case equal
    then show ?thesis
      using 4 be_val_less_iff [of c1 c2 a b] be_val_less_iff [of c2 c1 b a]
      by (auto simp: word_less_nat_alt)
  next
    case greater
    then show ?thesis
      using 4 big [where xs = "b # c2" and ys = c1 and x = a and k = "be_val c1"] by auto
  qed
qed

lemma CheckSignatureElement_iff:
  "CheckSignatureElement vch half \<longleftrightarrow>
     0 < be_val vch \<and> be_val vch \<le> be_val (if half then vchMaxModHalfOrder else vchMaxModOrder)"
  by (auto simp: CheckSignatureElement_def CompareBigEndian_sign)

text \<open>The half order is half the order of the group: twice it is the order less one.\<close>

lemma half_order: "2 * be_val vchMaxModHalfOrder = be_val vchMaxModOrder"
  by (simp add: vchMaxModHalfOrder_def vchMaxModOrder_def)

lemma der_signature_S:
  assumes "length R < 256" and "length S < 256"
  shows "unat (der_signature R S h ! 3) = length R"
    and "unat (der_signature R S h ! (5 + length R)) = length S"
    and "take (length S) (drop (6 + length R) (der_signature R S h)) = S"
proof -
  let ?pre = "[0x30, of_nat (length R + length S + 4), 0x02, of_nat (length R)] @ R @
    [0x02, of_nat (length S)]"
  have "der_signature R S h = ?pre @ S @ [h]" and "length ?pre = 6 + length R"
    by (simp_all add: der_signature_def)
  then show "take (length S) (drop (6 + length R) (der_signature R S h)) = S"
    by (metis drop_append_length take_append_length)
  show "unat (der_signature R S h ! 3) = length R"
    and "unat (der_signature R S h ! (5 + length R)) = length S"
    using assms by (simp_all add: der_signature_def nth_append)
qed

lemma IsLowDERSignature_der:
  assumes "valid_der_int R" and "valid_der_int S" and "length R + length S \<le> 66"
  shows "IsLowDERSignature (der_signature R S h) =
    (if be_val S = 0 \<or> be_val vchMaxModHalfOrder < be_val S
     then set_error SCRIPT_ERR_SIG_HIGH_S else set_success ())"
  using assms IsValidSignatureEncoding_der [OF assms, of h] der_signature_S [of R S h]
  by (auto simp: IsLowDERSignature_def Let_def CheckSignatureElement_iff)

end
