(* ===== verification/Interpreter.thy ===== *)
theory Interpreter
  imports SigEncoding
begin

text \<open>
  The script interpreter, \<open>EvalScript\<close> and \<open>VerifyScript\<close> of \<open>src/script/interpreter.cpp\<close>.

  The locals of \<open>EvalScript\<close> are the record \<open>eval_state\<close>. The three vectors used as stacks are
  lists whose head is the vector's back, so \<open>stacktop(-1)\<close> is the head and \<open>push_back\<close> is \<open>#\<close>.
  The iterator \<open>pc\<close> and \<open>pbegincodehash\<close> are suffixes of the script. Each group of cases of the
  big switch is one definition; \<open>exec_op\<close> is the switch, \<open>eval_step\<close> the body of the loop and
  \<open>eval_loop\<close> the loop. A C++ exception inside the loop ends in
  \<open>SCRIPT_ERR_UNKNOWN_ERROR\<close> (the \<open>catch (...)\<close>); the only ones that can occur are those of
  \<open>CScriptNum\<close>, because every access to the stack comes after a size check.

  The signature checker is the virtual interface \<open>BaseSignatureChecker\<close>, the hash functions are
  those of \<open>src/crypto\<close>; both are arguments (\<open>eval_env\<close>).
\<close>

section \<open>The environment\<close>

definition MAX_SCRIPT_ELEMENT_SIZE :: nat where
  "MAX_SCRIPT_ELEMENT_SIZE = 520"

record sig_checker =
  CheckSig :: "valtype \<Rightarrow> valtype \<Rightarrow> byte list \<Rightarrow> bool"
  CheckLockTime :: "int64 \<Rightarrow> bool"

text \<open>The base class refuses everything.\<close>

definition BaseSignatureChecker :: sig_checker where
  "BaseSignatureChecker =
     \<lparr>CheckSig = (\<lambda>scriptSig vchPubKey scriptCode. False), CheckLockTime = (\<lambda>nLockTime. False)\<rparr>"

record hash_funs =
  CRIPEMD160 :: "byte list \<Rightarrow> byte list"
  CSHA1 :: "byte list \<Rightarrow> byte list"
  CSHA256 :: "byte list \<Rightarrow> byte list"

text \<open>The hashers of \<open>src/hash.h\<close> run the second function on the output of the first.\<close>

definition CHash160 :: "hash_funs \<Rightarrow> byte list \<Rightarrow> byte list" where
  "CHash160 H x = CRIPEMD160 H (CSHA256 H x)"

definition CHash256 :: "hash_funs \<Rightarrow> byte list \<Rightarrow> byte list" where
  "CHash256 H x = CSHA256 H (CSHA256 H x)"

record eval_env =
  env_flags :: flags
  env_checker :: sig_checker
  env_hash :: hash_funs

record eval_state =
  stack :: "valtype list"
  altstack :: "valtype list"
  vfExec :: "bool list"
  pbegincodehash :: "byte list"
  nOpCount :: nat

type_synonym op_result = "failure + eval_state"

definition fRequireMinimal :: "eval_env \<Rightarrow> bool" where
  "fRequireMinimal env = has_flag (env_flags env) SCRIPT_VERIFY_MINIMALDATA"

fun CastToBool :: "valtype \<Rightarrow> bool" where
  "CastToBool [] = False"
| "CastToBool (b # vch) = (if b \<noteq> 0 then \<not> (vch = [] \<and> b = 0x80) else CastToBool vch)"

definition vchFalse :: valtype where
  "vchFalse = []"

definition vchTrue :: valtype where
  "vchTrue = [1]"

definition vch_of_bool :: "bool \<Rightarrow> valtype" where
  "vch_of_bool b = (if b then vchTrue else vchFalse)"

abbreviation (input) invalid_stack :: "failure + 'a" where
  "invalid_stack \<equiv> set_error SCRIPT_ERR_INVALID_STACK_OPERATION"

text \<open>An operand of a numeric opcode; the exception of \<open>CScriptNum\<close> is caught around the loop.\<close>

definition num_operand :: "eval_env \<Rightarrow> valtype \<Rightarrow> nat \<Rightarrow> failure + int64" where
  "num_operand env vch nMaxNumSize =
     (case CScriptNum vch (fRequireMinimal env) nMaxNumSize of
        None \<Rightarrow> set_error SCRIPT_ERR_UNKNOWN_ERROR
      | Some n \<Rightarrow> Inr n)"

section \<open>The groups of opcodes\<close>

text \<open>Small integers: \<open>OP_1NEGATE\<close> and \<open>OP_1\<close> to \<open>OP_16\<close>.\<close>

definition op_pushint :: "opcodetype \<Rightarrow> eval_state \<Rightarrow> op_result" where
  "op_pushint opcode st =
     Inr (st\<lparr>stack := getvch (of_int (int opcode - int (OP_1 - 1))) # stack st\<rparr>)"

text \<open>Control flow. \<open>OP_NOP\<close> is not among the discouraged ones.\<close>

definition op_nop :: "eval_env \<Rightarrow> opcodetype \<Rightarrow> eval_state \<Rightarrow> op_result" where
  "op_nop env opcode st =
     (if opcode \<noteq> OP_NOP \<and> has_flag (env_flags env) SCRIPT_VERIFY_DISCOURAGE_UPGRADABLE_NOPS
      then set_error SCRIPT_ERR_DISCOURAGE_UPGRADABLE_NOPS
      else Inr st)"

definition op_if :: "opcodetype \<Rightarrow> bool \<Rightarrow> eval_state \<Rightarrow> op_result" where
  "op_if opcode fExec st =
     (if fExec then
        (case stack st of
           [] \<Rightarrow> set_error SCRIPT_ERR_UNBALANCED_CONDITIONAL
         | vch # rest \<Rightarrow>
             let fValue = CastToBool vch;
                 fValue = (if opcode = OP_NOTIF then \<not> fValue else fValue)
             in Inr (st\<lparr>stack := rest, vfExec := fValue # vfExec st\<rparr>))
      else Inr (st\<lparr>vfExec := False # vfExec st\<rparr>))"

definition op_else :: "eval_state \<Rightarrow> op_result" where
  "op_else st =
     (case vfExec st of
        [] \<Rightarrow> set_error SCRIPT_ERR_UNBALANCED_CONDITIONAL
      | b # bs \<Rightarrow> Inr (st\<lparr>vfExec := (\<not> b) # bs\<rparr>))"

definition op_endif :: "eval_state \<Rightarrow> op_result" where
  "op_endif st =
     (case vfExec st of
        [] \<Rightarrow> set_error SCRIPT_ERR_UNBALANCED_CONDITIONAL
      | b # bs \<Rightarrow> Inr (st\<lparr>vfExec := bs\<rparr>))"

definition op_verify :: "eval_state \<Rightarrow> op_result" where
  "op_verify st =
     (case stack st of
        [] \<Rightarrow> invalid_stack
      | vch # rest \<Rightarrow>
          if CastToBool vch then Inr (st\<lparr>stack := rest\<rparr>) else set_error SCRIPT_ERR_VERIFY)"

text \<open>Moves between the two stacks.\<close>

definition op_altstack :: "opcodetype \<Rightarrow> eval_state \<Rightarrow> op_result" where
  "op_altstack opcode st =
     (if opcode = OP_TOALTSTACK then
        (case stack st of
           [] \<Rightarrow> invalid_stack
         | vch # rest \<Rightarrow> Inr (st\<lparr>stack := rest, altstack := vch # altstack st\<rparr>))
      else
        (case altstack st of
           [] \<Rightarrow> set_error SCRIPT_ERR_INVALID_ALTSTACK_OPERATION
         | vch # rest \<Rightarrow> Inr (st\<lparr>stack := vch # stack st, altstack := rest\<rparr>)))"

text \<open>
  Stack shuffles with a fixed pattern: the new stack, or \<open>None\<close> when the stack is too small.
  Patterns list the top of the stack first; the comments of the source list it last.
\<close>

text \<open>From \<open>OP_2DROP\<close> to \<open>OP_IFDUP\<close>.\<close>

definition shuffle_several :: "opcodetype \<Rightarrow> valtype list \<Rightarrow> valtype list option" where
  "shuffle_several opcode s =
     (if opcode = OP_2DROP then (case s of x2 # x1 # r \<Rightarrow> Some r | _ \<Rightarrow> None)
      else if opcode = OP_2DUP then
        (case s of x2 # x1 # r \<Rightarrow> Some (x2 # x1 # x2 # x1 # r) | _ \<Rightarrow> None)
      else if opcode = OP_3DUP then
        (case s of x3 # x2 # x1 # r \<Rightarrow> Some (x3 # x2 # x1 # x3 # x2 # x1 # r) | _ \<Rightarrow> None)
      else if opcode = OP_2OVER then
        (case s of x4 # x3 # x2 # x1 # r \<Rightarrow> Some (x2 # x1 # x4 # x3 # x2 # x1 # r) | _ \<Rightarrow> None)
      else if opcode = OP_2ROT then
        (case s of x6 # x5 # x4 # x3 # x2 # x1 # r \<Rightarrow> Some (x2 # x1 # x6 # x5 # x4 # x3 # r)
         | _ \<Rightarrow> None)
      else if opcode = OP_2SWAP then
        (case s of x4 # x3 # x2 # x1 # r \<Rightarrow> Some (x2 # x1 # x4 # x3 # r) | _ \<Rightarrow> None)
      else if opcode = OP_IFDUP then
        (case s of x # r \<Rightarrow> Some (if CastToBool x then x # x # r else x # r) | _ \<Rightarrow> None)
      else None)"

text \<open>From \<open>OP_DROP\<close> to \<open>OP_OVER\<close>.\<close>

definition shuffle_top :: "opcodetype \<Rightarrow> valtype list \<Rightarrow> valtype list option" where
  "shuffle_top opcode s =
     (if opcode = OP_DROP then (case s of x # r \<Rightarrow> Some r | _ \<Rightarrow> None)
      else if opcode = OP_DUP then (case s of x # r \<Rightarrow> Some (x # x # r) | _ \<Rightarrow> None)
      else if opcode = OP_NIP then (case s of x2 # x1 # r \<Rightarrow> Some (x2 # r) | _ \<Rightarrow> None)
      else if opcode = OP_OVER then (case s of x2 # x1 # r \<Rightarrow> Some (x1 # x2 # x1 # r) | _ \<Rightarrow> None)
      else None)"

text \<open>From \<open>OP_ROT\<close> to \<open>OP_SIZE\<close>.\<close>

definition shuffle_rest :: "opcodetype \<Rightarrow> valtype list \<Rightarrow> valtype list option" where
  "shuffle_rest opcode s =
     (if opcode = OP_ROT then
        (case s of x3 # x2 # x1 # r \<Rightarrow> Some (x1 # x3 # x2 # r) | _ \<Rightarrow> None)
      else if opcode = OP_SWAP then (case s of x2 # x1 # r \<Rightarrow> Some (x1 # x2 # r) | _ \<Rightarrow> None)
      else if opcode = OP_TUCK then
        (case s of x2 # x1 # r \<Rightarrow> Some (x2 # x1 # x2 # r) | _ \<Rightarrow> None)
      else if opcode = OP_SIZE then
        (case s of x # r \<Rightarrow> Some (getvch (of_nat (length x)) # x # r) | _ \<Rightarrow> None)
      else None)"

definition shuffle :: "opcodetype \<Rightarrow> valtype list \<Rightarrow> valtype list option" where
  "shuffle opcode s =
     (if opcode = OP_2DROP \<or> opcode = OP_2DUP \<or> opcode = OP_3DUP \<or> opcode = OP_2OVER \<or>
         opcode = OP_2ROT \<or> opcode = OP_2SWAP \<or> opcode = OP_IFDUP
      then shuffle_several opcode s
      else if opcode = OP_DROP \<or> opcode = OP_DUP \<or> opcode = OP_NIP \<or> opcode = OP_OVER
      then shuffle_top opcode s
      else shuffle_rest opcode s)"

lemmas shuffle_defs = shuffle_def shuffle_several_def shuffle_top_def shuffle_rest_def

definition op_shuffle :: "opcodetype \<Rightarrow> eval_state \<Rightarrow> op_result" where
  "op_shuffle opcode st =
     (case shuffle opcode (stack st) of
        None \<Rightarrow> invalid_stack
      | Some s \<Rightarrow> Inr (st\<lparr>stack := s\<rparr>))"

definition op_depth :: "eval_state \<Rightarrow> op_result" where
  "op_depth st = Inr (st\<lparr>stack := getvch (of_nat (length (stack st))) # stack st\<rparr>)"

definition op_pick :: "eval_env \<Rightarrow> opcodetype \<Rightarrow> eval_state \<Rightarrow> op_result" where
  "op_pick env opcode st =
     (if length (stack st) < 2 then invalid_stack
      else
        res_bind (num_operand env (hd (stack st)) nDefaultMaxNumSize) (\<lambda>bn.
          let n = getint bn; rest = tl (stack st) in
          if n < 0 \<or> int (length rest) \<le> n then invalid_stack
          else
            let vch = rest ! nat n;
                rest' = (if opcode = OP_ROLL then take (nat n) rest @ drop (Suc (nat n)) rest
                         else rest)
            in Inr (st\<lparr>stack := vch # rest'\<rparr>)))"

definition op_equal :: "opcodetype \<Rightarrow> eval_state \<Rightarrow> op_result" where
  "op_equal opcode st =
     (case stack st of
        vch2 # vch1 # rest \<Rightarrow>
          let fEqual = (vch1 = vch2) in
          if opcode = OP_EQUALVERIFY then
            (if fEqual then Inr (st\<lparr>stack := rest\<rparr>) else set_error SCRIPT_ERR_EQUALVERIFY)
          else Inr (st\<lparr>stack := vch_of_bool fEqual # rest\<rparr>)
      | _ \<Rightarrow> invalid_stack)"

text \<open>Arithmetic with one operand; \<open>None\<close> is a failed assertion.\<close>

definition num_of_bool :: "bool \<Rightarrow> int64" where
  "num_of_bool b = (if b then 1 else 0)"

definition num_unary :: "opcodetype \<Rightarrow> int64 \<Rightarrow> int64 option" where
  "num_unary opcode bn =
     (if opcode = OP_1ADD then num_add_assign bn 1
      else if opcode = OP_1SUB then num_sub_assign bn 1
      else if opcode = OP_NEGATE then num_neg bn
      else if opcode = OP_ABS then (if bn <s 0 then num_neg bn else Some bn)
      else if opcode = OP_NOT then Some (num_of_bool (bn = 0))
      else if opcode = OP_0NOTEQUAL then Some (num_of_bool (bn \<noteq> 0))
      else None)"

definition op_unary :: "eval_env \<Rightarrow> opcodetype \<Rightarrow> eval_state \<Rightarrow> op_result" where
  "op_unary env opcode st =
     (case stack st of
        [] \<Rightarrow> invalid_stack
      | x # rest \<Rightarrow>
          res_bind (num_operand env x nDefaultMaxNumSize) (\<lambda>bn.
            case num_unary opcode bn of
              None \<Rightarrow> Inl AssertFail
            | Some bn' \<Rightarrow> Inr (st\<lparr>stack := getvch bn' # rest\<rparr>)))"

text \<open>Arithmetic with two operands.\<close>

definition num_binary :: "opcodetype \<Rightarrow> int64 \<Rightarrow> int64 \<Rightarrow> int64 option" where
  "num_binary opcode bn1 bn2 =
     (if opcode = OP_ADD then Some (bn1 + bn2)
      else if opcode = OP_SUB then Some (bn1 - bn2)
      else if opcode = OP_BOOLAND then Some (num_of_bool (bn1 \<noteq> 0 \<and> bn2 \<noteq> 0))
      else if opcode = OP_BOOLOR then Some (num_of_bool (bn1 \<noteq> 0 \<or> bn2 \<noteq> 0))
      else if opcode = OP_NUMEQUAL \<or> opcode = OP_NUMEQUALVERIFY then Some (num_of_bool (bn1 = bn2))
      else if opcode = OP_NUMNOTEQUAL then Some (num_of_bool (bn1 \<noteq> bn2))
      else if opcode = OP_LESSTHAN then Some (num_of_bool (bn1 <s bn2))
      else if opcode = OP_GREATERTHAN then Some (num_of_bool (bn2 <s bn1))
      else if opcode = OP_LESSTHANOREQUAL then Some (num_of_bool (bn1 \<le>s bn2))
      else if opcode = OP_GREATERTHANOREQUAL then Some (num_of_bool (bn2 \<le>s bn1))
      else if opcode = OP_MIN then Some (if bn1 <s bn2 then bn1 else bn2)
      else if opcode = OP_MAX then Some (if bn2 <s bn1 then bn1 else bn2)
      else None)"

definition op_binary :: "eval_env \<Rightarrow> opcodetype \<Rightarrow> eval_state \<Rightarrow> op_result" where
  "op_binary env opcode st =
     (case stack st of
        x2 # x1 # rest \<Rightarrow>
          res_bind (num_operand env x1 nDefaultMaxNumSize) (\<lambda>bn1.
          res_bind (num_operand env x2 nDefaultMaxNumSize) (\<lambda>bn2.
            case num_binary opcode bn1 bn2 of
              None \<Rightarrow> Inl AssertFail
            | Some bn \<Rightarrow>
                if opcode = OP_NUMEQUALVERIFY then
                  (if CastToBool (getvch bn) then Inr (st\<lparr>stack := rest\<rparr>)
                   else set_error SCRIPT_ERR_NUMEQUALVERIFY)
                else Inr (st\<lparr>stack := getvch bn # rest\<rparr>)))
      | _ \<Rightarrow> invalid_stack)"

definition op_within :: "eval_env \<Rightarrow> eval_state \<Rightarrow> op_result" where
  "op_within env st =
     (case stack st of
        x3 # x2 # x1 # rest \<Rightarrow>
          res_bind (num_operand env x1 nDefaultMaxNumSize) (\<lambda>bn1.
          res_bind (num_operand env x2 nDefaultMaxNumSize) (\<lambda>bn2.
          res_bind (num_operand env x3 nDefaultMaxNumSize) (\<lambda>bn3.
            Inr (st\<lparr>stack := vch_of_bool (bn2 \<le>s bn1 \<and> bn1 <s bn3) # rest\<rparr>))))
      | _ \<Rightarrow> invalid_stack)"

definition op_hash :: "eval_env \<Rightarrow> opcodetype \<Rightarrow> eval_state \<Rightarrow> op_result" where
  "op_hash env opcode st =
     (case stack st of
        [] \<Rightarrow> invalid_stack
      | vch # rest \<Rightarrow>
          let H = env_hash env;
              vchHash =
                (if opcode = OP_RIPEMD160 then CRIPEMD160 H vch
                 else if opcode = OP_SHA1 then CSHA1 H vch
                 else if opcode = OP_SHA256 then CSHA256 H vch
                 else if opcode = OP_HASH160 then CHash160 H vch
                 else CHash256 H vch)
          in Inr (st\<lparr>stack := vchHash # rest\<rparr>))"

text \<open>Signature checks. The script code has the pushes of the signatures removed.\<close>

definition op_checksig :: "eval_env \<Rightarrow> opcodetype \<Rightarrow> eval_state \<Rightarrow> op_result" where
  "op_checksig env opcode st =
     (case stack st of
        vchPubKey # vchSig # rest \<Rightarrow>
          let scriptCode = fst (FindAndDelete (pbegincodehash st) (script_push vchSig)) in
          res_bind (CheckSignatureEncoding vchSig (env_flags env)) (\<lambda>_.
          res_bind (CheckPubKeyEncoding vchPubKey (env_flags env)) (\<lambda>_.
            let fSuccess = CheckSig (env_checker env) vchSig vchPubKey scriptCode in
            if opcode = OP_CHECKSIGVERIFY then
              (if fSuccess then Inr (st\<lparr>stack := rest\<rparr>) else set_error SCRIPT_ERR_CHECKSIGVERIFY)
            else Inr (st\<lparr>stack := vch_of_bool fSuccess # rest\<rparr>)))
      | _ \<Rightarrow> invalid_stack)"

text \<open>
  The matching loop of \<open>OP_CHECKMULTISIG\<close>: the signatures and keys still to be tried, in the
  order they are visited. It stops when more signatures than keys are left.
\<close>

fun multisig_loop ::
  "eval_env \<Rightarrow> byte list \<Rightarrow> valtype list \<Rightarrow> valtype list \<Rightarrow> failure + bool" where
  "multisig_loop env scriptCode [] keys = Inr True"
| "multisig_loop env scriptCode (vchSig # sigs) [] = Inr False"
| "multisig_loop env scriptCode (vchSig # sigs) (vchPubKey # keys) =
     res_bind (CheckSignatureEncoding vchSig (env_flags env)) (\<lambda>_.
     res_bind (CheckPubKeyEncoding vchPubKey (env_flags env)) (\<lambda>_.
       let fOk = CheckSig (env_checker env) vchSig vchPubKey scriptCode;
           sigs' = (if fOk then sigs else vchSig # sigs)
       in if length keys < length sigs' then Inr False
          else multisig_loop env scriptCode sigs' keys))"

fun delete_sigs :: "valtype list \<Rightarrow> byte list \<Rightarrow> byte list" where
  "delete_sigs [] scriptCode = scriptCode"
| "delete_sigs (vchSig # sigs) scriptCode =
     delete_sigs sigs (fst (FindAndDelete scriptCode (script_push vchSig)))"

text \<open>
  The arguments of \<open>OP_CHECKMULTISIG\<close>: the two counts are read from the stack and bounded, and
  the stack must hold the keys, the signatures and one more element. The result is the list of
  keys, the list of signatures, the stack below them and the new opcode count.
\<close>

definition multisig_args ::
  "eval_env \<Rightarrow> eval_state \<Rightarrow> failure + valtype list \<times> valtype list \<times> valtype list \<times> nat" where
  "multisig_args env st =
     (let s = stack st in
      if length s < 1 then invalid_stack
      else
       res_bind (num_operand env (s ! 0) nDefaultMaxNumSize) (\<lambda>bnKeys.
       let nKeysCount = getint bnKeys in
       if nKeysCount < 0 \<or> 20 < nKeysCount then set_error SCRIPT_ERR_PUBKEY_COUNT
       else
        let nKeys = nat nKeysCount; nOpCount' = nOpCount st + nKeys in
        if 201 < nOpCount' then set_error SCRIPT_ERR_OP_COUNT
        else if length s < 2 + nKeys then invalid_stack
        else
         res_bind (num_operand env (s ! (1 + nKeys)) nDefaultMaxNumSize) (\<lambda>bnSigs.
         let nSigsCount = getint bnSigs in
         if nSigsCount < 0 \<or> nKeysCount < nSigsCount then set_error SCRIPT_ERR_SIG_COUNT
         else
          let nSigs = nat nSigsCount in
          if length s < 3 + nKeys + nSigs then invalid_stack
          else Inr (take nKeys (drop 1 s), take nSigs (drop (2 + nKeys) s),
                    drop (2 + nKeys + nSigs) s, nOpCount'))))"

text \<open>
  The operation: match the signatures, drop the arguments and the extra element, which must be
  empty under \<open>SCRIPT_VERIFY_NULLDUMMY\<close>, and push or check the outcome.
\<close>

definition op_checkmultisig :: "eval_env \<Rightarrow> opcodetype \<Rightarrow> eval_state \<Rightarrow> op_result" where
  "op_checkmultisig env opcode st =
     res_bind (multisig_args env st) (\<lambda>(keys, sigs, below, nOpCount').
     res_bind (multisig_loop env (delete_sigs sigs (pbegincodehash st)) sigs keys) (\<lambda>fSuccess.
       case below of
         [] \<Rightarrow> invalid_stack
       | dummy # rest \<Rightarrow>
           if has_flag (env_flags env) SCRIPT_VERIFY_NULLDUMMY \<and> dummy \<noteq> []
           then set_error SCRIPT_ERR_SIG_NULLDUMMY
           else if opcode = OP_CHECKMULTISIGVERIFY then
             (if fSuccess then Inr (st\<lparr>stack := rest, nOpCount := nOpCount'\<rparr>)
              else set_error SCRIPT_ERR_CHECKMULTISIGVERIFY)
           else Inr (st\<lparr>stack := vch_of_bool fSuccess # rest, nOpCount := nOpCount'\<rparr>)))"

definition op_checklocktime :: "eval_env \<Rightarrow> eval_state \<Rightarrow> op_result" where
  "op_checklocktime env st =
     (if \<not> has_flag (env_flags env) SCRIPT_VERIFY_CHECKLOCKTIMEVERIFY then
        (if has_flag (env_flags env) SCRIPT_VERIFY_DISCOURAGE_UPGRADABLE_NOPS
         then set_error SCRIPT_ERR_DISCOURAGE_UPGRADABLE_NOPS
         else Inr st)
      else
        (case stack st of
           [] \<Rightarrow> invalid_stack
         | vch # rest \<Rightarrow>
             res_bind (num_operand env vch 5) (\<lambda>nLockTime.
               if nLockTime <s 0 then set_error SCRIPT_ERR_NEGATIVE_LOCKTIME
               else if \<not> CheckLockTime (env_checker env) nLockTime
               then set_error SCRIPT_ERR_UNSATISFIED_LOCKTIME
               else Inr st)))"

section \<open>The switch\<close>

definition is_disabled :: "opcodetype \<Rightarrow> bool" where
  "is_disabled opcode \<longleftrightarrow>
     opcode = OP_CAT \<or> opcode = OP_SUBSTR \<or> opcode = OP_LEFT \<or> opcode = OP_RIGHT \<or>
     opcode = OP_INVERT \<or> opcode = OP_AND \<or> opcode = OP_OR \<or> opcode = OP_XOR \<or>
     opcode = OP_2MUL \<or> opcode = OP_2DIV \<or> opcode = OP_MUL \<or> opcode = OP_DIV \<or>
     opcode = OP_MOD \<or> opcode = OP_LSHIFT \<or> opcode = OP_RSHIFT"

definition is_shuffle :: "opcodetype \<Rightarrow> bool" where
  "is_shuffle opcode \<longleftrightarrow>
     opcode = OP_2DROP \<or> opcode = OP_2DUP \<or> opcode = OP_3DUP \<or> opcode = OP_2OVER \<or>
     opcode = OP_2ROT \<or> opcode = OP_2SWAP \<or> opcode = OP_IFDUP \<or> opcode = OP_DROP \<or>
     opcode = OP_DUP \<or> opcode = OP_NIP \<or> opcode = OP_OVER \<or> opcode = OP_ROT \<or>
     opcode = OP_SWAP \<or> opcode = OP_TUCK \<or> opcode = OP_SIZE"

definition is_unary :: "opcodetype \<Rightarrow> bool" where
  "is_unary opcode \<longleftrightarrow>
     opcode = OP_1ADD \<or> opcode = OP_1SUB \<or> opcode = OP_NEGATE \<or> opcode = OP_ABS \<or>
     opcode = OP_NOT \<or> opcode = OP_0NOTEQUAL"

definition is_binary :: "opcodetype \<Rightarrow> bool" where
  "is_binary opcode \<longleftrightarrow>
     opcode = OP_ADD \<or> opcode = OP_SUB \<or> opcode = OP_BOOLAND \<or> opcode = OP_BOOLOR \<or>
     opcode = OP_NUMEQUAL \<or> opcode = OP_NUMEQUALVERIFY \<or> opcode = OP_NUMNOTEQUAL \<or>
     opcode = OP_LESSTHAN \<or> opcode = OP_GREATERTHAN \<or> opcode = OP_LESSTHANOREQUAL \<or>
     opcode = OP_GREATERTHANOREQUAL \<or> opcode = OP_MIN \<or> opcode = OP_MAX"

definition is_hash :: "opcodetype \<Rightarrow> bool" where
  "is_hash opcode \<longleftrightarrow>
     opcode = OP_RIPEMD160 \<or> opcode = OP_SHA1 \<or> opcode = OP_SHA256 \<or> opcode = OP_HASH160 \<or>
     opcode = OP_HASH256"

definition exec_op ::
  "eval_env \<Rightarrow> opcodetype \<Rightarrow> bool \<Rightarrow> byte list \<Rightarrow> eval_state \<Rightarrow> op_result" where
  "exec_op env opcode fExec pc st =
     (if opcode = OP_1NEGATE \<or> OP_1 \<le> opcode \<and> opcode \<le> OP_16 then op_pushint opcode st
      else if opcode = OP_NOP \<or> opcode = OP_NOP1 \<or> OP_NOP3 \<le> opcode \<and> opcode \<le> OP_NOP10
      then op_nop env opcode st
      else if opcode = OP_IF \<or> opcode = OP_NOTIF then op_if opcode fExec st
      else if opcode = OP_ELSE then op_else st
      else if opcode = OP_ENDIF then op_endif st
      else if opcode = OP_VERIFY then op_verify st
      else if opcode = OP_RETURN then set_error SCRIPT_ERR_OP_RETURN
      else if opcode = OP_TOALTSTACK \<or> opcode = OP_FROMALTSTACK then op_altstack opcode st
      else if is_shuffle opcode then op_shuffle opcode st
      else if opcode = OP_DEPTH then op_depth st
      else if opcode = OP_PICK \<or> opcode = OP_ROLL then op_pick env opcode st
      else if opcode = OP_EQUAL \<or> opcode = OP_EQUALVERIFY then op_equal opcode st
      else if is_unary opcode then op_unary env opcode st
      else if is_binary opcode then op_binary env opcode st
      else if opcode = OP_WITHIN then op_within env st
      else if is_hash opcode then op_hash env opcode st
      else if opcode = OP_CODESEPARATOR then Inr (st\<lparr>pbegincodehash := pc\<rparr>)
      else if opcode = OP_CHECKSIG \<or> opcode = OP_CHECKSIGVERIFY then op_checksig env opcode st
      else if opcode = OP_CHECKMULTISIG \<or> opcode = OP_CHECKMULTISIGVERIFY
      then op_checkmultisig env opcode st
      else if opcode = OP_CHECKLOCKTIMEVERIFY then op_checklocktime env st
      else set_error SCRIPT_ERR_BAD_OPCODE)"

section \<open>The loop\<close>

text \<open>
  One turn: read the instruction, the limits that apply before it, push or switch, and the
  limit on the size of the two stacks.
\<close>

definition exec_instr ::
  "eval_env \<Rightarrow> opcodetype \<Rightarrow> valtype \<Rightarrow> byte list \<Rightarrow> eval_state \<Rightarrow> op_result" where
  "exec_instr env opcode vchPushValue pc st =
     (let fExec = (False \<notin> set (vfExec st)) in
      if fExec \<and> opcode \<le> OP_PUSHDATA4 then
        (if fRequireMinimal env \<and> \<not> CheckMinimalPush vchPushValue opcode
         then set_error SCRIPT_ERR_MINIMALDATA
         else Inr (st\<lparr>stack := vchPushValue # stack st\<rparr>))
      else if fExec \<or> OP_IF \<le> opcode \<and> opcode \<le> OP_ENDIF
      then exec_op env opcode fExec pc st
      else Inr st)"

definition eval_step ::
  "eval_env \<Rightarrow> byte list \<Rightarrow> eval_state \<Rightarrow> failure + byte list \<times> eval_state" where
  "eval_step env pc st =
     (case GetOp pc of
        None \<Rightarrow> set_error SCRIPT_ERR_BAD_OPCODE
      | Some (opcode, vchPushValue, pc') \<Rightarrow>
          if MAX_SCRIPT_ELEMENT_SIZE < length vchPushValue then set_error SCRIPT_ERR_PUSH_SIZE
          else if OP_16 < opcode \<and> 201 < nOpCount st + 1 then set_error SCRIPT_ERR_OP_COUNT
          else
            let st' = (if OP_16 < opcode then st\<lparr>nOpCount := nOpCount st + 1\<rparr> else st) in
            if is_disabled opcode then set_error SCRIPT_ERR_DISABLED_OPCODE
            else
              res_bind (exec_instr env opcode vchPushValue pc' st') (\<lambda>st''.
                if 1000 < length (stack st'') + length (altstack st'')
                then set_error SCRIPT_ERR_STACK_SIZE
                else Inr (pc', st'')))"

function eval_loop :: "eval_env \<Rightarrow> byte list \<Rightarrow> eval_state \<Rightarrow> failure + eval_state" where
  "eval_loop env pc st =
     (if pc = [] then Inr st
      else
        (case eval_step env pc st of
           Inl e \<Rightarrow> Inl e
         | Inr (pc', st') \<Rightarrow> eval_loop env pc' st'))"
  by pat_completeness auto
termination
  by (relation "measure (\<lambda>(env, pc, st). length pc)")
    (auto simp: eval_step_def Let_def res_simps split: option.splits if_splits dest: GetOp_shrinks)

declare eval_loop.simps [simp del]

definition init_state :: "valtype list \<Rightarrow> byte list \<Rightarrow> eval_state" where
  "init_state s script =
     \<lparr>stack = s, altstack = [], vfExec = [], pbegincodehash = script, nOpCount = 0\<rparr>"

definition EvalScript :: "eval_env \<Rightarrow> valtype list \<Rightarrow> byte list \<Rightarrow> failure + valtype list" where
  "EvalScript env s script =
     (if 10000 < length script then set_error SCRIPT_ERR_SCRIPT_SIZE
      else
        res_bind (eval_loop env script (init_state s script)) (\<lambda>st.
          if vfExec st \<noteq> [] then set_error SCRIPT_ERR_UNBALANCED_CONDITIONAL
          else set_success (stack st)))"

text \<open>The final test on a stack: its top exists and is true.\<close>

definition check_top :: "valtype list \<Rightarrow> failure + unit" where
  "check_top s =
     (case s of
        [] \<Rightarrow> set_error SCRIPT_ERR_EVAL_FALSE
      | vch # rest \<Rightarrow> if CastToBool vch then set_success () else set_error SCRIPT_ERR_EVAL_FALSE)"

definition VerifyScript :: "eval_env \<Rightarrow> byte list \<Rightarrow> byte list \<Rightarrow> failure + unit" where
  "VerifyScript env scriptSig scriptPubKey =
     (if has_flag (env_flags env) SCRIPT_VERIFY_SIGPUSHONLY \<and> \<not> IsPushOnly scriptSig
      then set_error SCRIPT_ERR_SIG_PUSHONLY
      else
        res_bind (EvalScript env [] scriptSig) (\<lambda>stackCopy.
        res_bind (EvalScript env stackCopy scriptPubKey) (\<lambda>s.
        res_bind (check_top s) (\<lambda>_.
          if has_flag (env_flags env) SCRIPT_VERIFY_P2SH \<and> IsPayToScriptHash scriptPubKey then
            (if \<not> IsPushOnly scriptSig then set_error SCRIPT_ERR_SIG_PUSHONLY
             else
               (case stackCopy of
                  [] \<Rightarrow> Inl AssertFail
                | pubKey2 # rest \<Rightarrow> res_bind (EvalScript env rest pubKey2) check_top))
          else set_success ()))))"

end
