(* ===== verification/InterpreterProps.thy ===== *)
theory InterpreterProps
  imports Interpreter
begin

text \<open>
  Facts about the interpreter: the resource limits hold in every state the loop reaches, no
  assertion of the source can fail, how a run of pushes evaluates, and what the standard
  script forms verify.
\<close>

section \<open>Resource limits\<close>

definition hash_sizes :: "hash_funs \<Rightarrow> bool" where
  "hash_sizes H \<longleftrightarrow>
     (\<forall>x. length (CRIPEMD160 H x) = 20 \<and> length (CSHA1 H x) = 20 \<and> length (CSHA256 H x) = 32)"

definition small_elements :: "valtype list \<Rightarrow> bool" where
  "small_elements s \<longleftrightarrow> (\<forall>x \<in> set s. length x \<le> MAX_SCRIPT_ELEMENT_SIZE)"

definition eval_limits :: "eval_state \<Rightarrow> bool" where
  "eval_limits st \<longleftrightarrow>
     length (stack st) + length (altstack st) \<le> 1000 \<and> nOpCount st \<le> 201 \<and>
     small_elements (stack st) \<and> small_elements (altstack st)"

lemma small_elements_simps [simp]:
  "small_elements []"
  "small_elements (x # s) \<longleftrightarrow> length x \<le> MAX_SCRIPT_ELEMENT_SIZE \<and> small_elements s"
  by (auto simp: small_elements_def)

lemma small_getvch [simp]: "length (getvch n) \<le> MAX_SCRIPT_ELEMENT_SIZE"
  using length_getvch [of n] by (simp add: MAX_SCRIPT_ELEMENT_SIZE_def)

lemma small_vch_of_bool [simp]: "length (vch_of_bool b) \<le> MAX_SCRIPT_ELEMENT_SIZE"
  by (simp add: vch_of_bool_def vchTrue_def vchFalse_def MAX_SCRIPT_ELEMENT_SIZE_def)

lemma small_elements_nth: "small_elements s \<Longrightarrow> i < length s \<Longrightarrow> length (s ! i) \<le> MAX_SCRIPT_ELEMENT_SIZE"
  by (simp add: small_elements_def)

lemma small_elements_subset: "small_elements s \<Longrightarrow> set t \<subseteq> set s \<Longrightarrow> small_elements t"
  by (auto simp: small_elements_def)

text \<open>An operation is well behaved when it keeps the elements small and the count in range.\<close>

definition keeps_small :: "eval_state \<Rightarrow> op_result \<Rightarrow> bool" where
  "keeps_small st r \<longleftrightarrow>
     (\<forall>st'. r = Inr st' \<longrightarrow>
        (small_elements (stack st) \<and> small_elements (altstack st) \<longrightarrow>
           small_elements (stack st') \<and> small_elements (altstack st')) \<and>
        (nOpCount st \<le> 201 \<longrightarrow> nOpCount st' \<le> 201))"

lemma keeps_small_Inl [simp]: "keeps_small st (Inl e)"
  by (simp add: keeps_small_def)

lemma keeps_small_set_error [simp]: "keeps_small st (set_error e)"
  by (simp add: keeps_small_def)

lemma keeps_small_Inr:
  "keeps_small st (Inr st') \<longleftrightarrow>
     (small_elements (stack st) \<and> small_elements (altstack st) \<longrightarrow>
        small_elements (stack st') \<and> small_elements (altstack st')) \<and>
     (nOpCount st \<le> 201 \<longrightarrow> nOpCount st' \<le> 201)"
  by (simp add: keeps_small_def)

lemma keeps_small_bind: "(\<And>x. m = Inr x \<Longrightarrow> keeps_small st (f x)) \<Longrightarrow> keeps_small st (res_bind m f)"
  by (cases m) simp_all

lemma keeps_small_op_control:
  "keeps_small st (op_pushint opc st)" "keeps_small st (op_nop env opc st)"
  "keeps_small st (op_if opc fExec st)" "keeps_small st (op_else st)"
  "keeps_small st (op_endif st)" "keeps_small st (op_verify st)"
  "keeps_small st (op_altstack opc st)" "keeps_small st (op_depth st)"
  by (simp_all add: op_pushint_def op_nop_def op_if_def op_else_def op_endif_def op_verify_def
      op_altstack_def op_depth_def keeps_small_def Let_def split: list.splits if_splits)

lemma shuffle_set:
  "shuffle opc s = Some t \<Longrightarrow> set t \<subseteq> set s \<union> {getvch (of_nat (length x)) | x. x \<in> set s}"
  unfolding shuffle_defs by (auto split: if_splits list.splits)

lemma keeps_small_op_shuffle: "keeps_small st (op_shuffle opc st)"
proof (cases "shuffle opc (stack st)")
  case None
  then show ?thesis by (simp add: op_shuffle_def)
next
  case (Some t)
  then have "small_elements (stack st) \<Longrightarrow> small_elements t"
    using shuffle_set [OF Some] by (fastforce simp: small_elements_def)
  then show ?thesis
    using Some by (simp add: op_shuffle_def keeps_small_Inr)
qed

lemma keeps_small_op_pick: "keeps_small st (op_pick env opc st)"
proof -
  have tl: "small_elements s \<Longrightarrow> small_elements (tl s)" for s
    by (cases s) auto
  have roll: "small_elements s \<Longrightarrow> small_elements (take n s @ drop (Suc n) s)" for n s
    by (rule small_elements_subset) (auto dest: in_set_takeD in_set_dropD)
  show ?thesis
    unfolding op_pick_def
    by (auto intro!: keeps_small_bind small_elements_nth tl roll simp: Let_def keeps_small_Inr)
qed

lemma keeps_small_op_numeric:
  "keeps_small st (op_equal opc st)" "keeps_small st (op_unary env opc st)"
  "keeps_small st (op_binary env opc st)" "keeps_small st (op_within env st)"
  by (auto simp: op_equal_def op_unary_def op_binary_def op_within_def keeps_small_Inr Let_def
      intro!: keeps_small_bind split: list.splits option.splits)

lemma keeps_small_op_hash:
  assumes "hash_sizes (env_hash env)"
  shows "keeps_small st (op_hash env opc st)"
  using assms
  by (auto simp: op_hash_def keeps_small_Inr Let_def hash_sizes_def CHash160_def CHash256_def
      MAX_SCRIPT_ELEMENT_SIZE_def split: list.splits)

lemma keeps_small_op_sig:
  "keeps_small st (op_checksig env opc st)" "keeps_small st (op_checklocktime env st)"
  by (auto simp: op_checksig_def op_checklocktime_def keeps_small_Inr Let_def
      intro!: keeps_small_bind split: list.splits)

lemma multisig_args_Inr:
  assumes "multisig_args env st = Inr (keys, sigs, below, n)"
  shows "n = nOpCount st + length keys" and "n \<le> 201" and "length sigs \<le> length keys"
    and "length keys \<le> 20"
    and "\<exists>vk vs. stack st = vk # keys @ vs # sigs @ below" and "below \<noteq> []"
proof -
  obtain k m where k: "\<not> getint k < 0" "\<not> 20 < getint k" and m: "\<not> getint m < 0" "\<not> getint k < getint m"
    and len: "3 + nat (getint k) + nat (getint m) \<le> length (stack st)"
    and keys: "keys = take (nat (getint k)) (drop 1 (stack st))"
    and sigs: "sigs = take (nat (getint m)) (drop (2 + nat (getint k)) (stack st))"
    and below: "below = drop (2 + nat (getint k) + nat (getint m)) (stack st)"
    and n: "n = nOpCount st + nat (getint k)" "n \<le> 201"
    using assms unfolding multisig_args_def Let_def
    by (auto simp: res_simps split: if_splits)
  define K M where "K = nat (getint k)" and "M = nat (getint m)"
  have KM: "K \<le> 20" "M \<le> K" "3 + K + M \<le> length (stack st)"
    using k m len by (auto simp: K_def M_def)
  have lk: "length keys = K" and ls: "length sigs = M"
    using KM by (auto simp: keys sigs K_def M_def)
  show "n = nOpCount st + length keys" "n \<le> 201" "length sigs \<le> length keys" "length keys \<le> 20"
    using n KM by (auto simp: lk ls K_def)
  show "below \<noteq> []"
    using KM by (simp add: below K_def M_def)
  have step: "i < length xs \<Longrightarrow> drop i xs = xs ! i # drop (Suc i) xs" for i and xs :: "valtype list"
    by (simp add: Cons_nth_drop_Suc)
  have "stack st = stack st ! 0 # drop 1 (stack st)"
    using KM step [of 0 "stack st"] by (cases "stack st") auto
  also have "drop 1 (stack st) = keys @ drop (1 + K) (stack st)"
    unfolding keys K_def by (rule take_drop_split [symmetric])
  also have "drop (1 + K) (stack st) = stack st ! (1 + K) # drop (2 + K) (stack st)"
    using KM step [of "1 + K" "stack st"] by simp
  also have "drop (2 + K) (stack st) = sigs @ below"
    unfolding sigs below K_def M_def by (rule take_drop_split [symmetric])
  finally show "\<exists>vk vs. stack st = vk # keys @ vs # sigs @ below"
    by blast
qed

lemma keeps_small_op_checkmultisig: "keeps_small st (op_checkmultisig env opc st)"
proof (cases "multisig_args env st")
  case (Inl e)
  then show ?thesis by (simp add: op_checkmultisig_def)
next
  case (Inr r)
  obtain keys sigs below n where r: "r = (keys, sigs, below, n)"
    by (cases r) auto
  have "n \<le> 201" and "\<exists>vk vs. stack st = vk # keys @ vs # sigs @ below"
    using multisig_args_Inr [OF Inr [unfolded r]] by auto
  then have "small_elements (stack st) \<Longrightarrow> small_elements below"
    by (auto simp: small_elements_def)
  then show ?thesis
    using \<open>n \<le> 201\<close> unfolding op_checkmultisig_def Inr r
    by (auto intro!: keeps_small_bind simp: keeps_small_Inr split: list.splits)
qed

lemmas keeps_small_ops =
  keeps_small_op_control keeps_small_op_shuffle keeps_small_op_pick keeps_small_op_numeric
  keeps_small_op_hash keeps_small_op_sig keeps_small_op_checkmultisig

lemma keeps_small_exec_op:
  "hash_sizes (env_hash env) \<Longrightarrow> keeps_small st (exec_op env opc fExec pc st)"
  unfolding exec_op_def by (simp add: keeps_small_ops) (simp add: keeps_small_Inr)

text \<open>What a turn of the loop does when it does not fail.\<close>

lemma eval_step_Inr:
  assumes "eval_step env pc st = Inr (pc', st')"
  obtains opcode v where "GetOp pc = Some (opcode, v, pc')"
    and "length v \<le> MAX_SCRIPT_ELEMENT_SIZE"
    and "OP_16 < opcode \<longrightarrow> nOpCount st < 201" and "\<not> is_disabled opcode"
    and "exec_instr env opcode v pc'
           (if OP_16 < opcode then st\<lparr>nOpCount := nOpCount st + 1\<rparr> else st) = Inr st'"
    and "length (stack st') + length (altstack st') \<le> 1000"
  using assms by (auto simp: eval_step_def Let_def res_simps split: option.splits if_splits)

lemma keeps_small_exec_instr:
  assumes "hash_sizes (env_hash env)" and "length v \<le> MAX_SCRIPT_ELEMENT_SIZE"
  shows "keeps_small st (exec_instr env opc v pc st)"
  using assms keeps_small_exec_op [OF assms(1)]
  by (simp add: exec_instr_def Let_def keeps_small_Inr)

lemma eval_step_limits:
  assumes "hash_sizes (env_hash env)" and "eval_limits st" and "eval_step env pc st = Inr (pc', st')"
  shows "eval_limits st'"
  using assms(3)
proof (rule eval_step_Inr)
  fix opcode v
  assume get: "GetOp pc = Some (opcode, v, pc')" "length v \<le> MAX_SCRIPT_ELEMENT_SIZE"
    and ops: "OP_16 < opcode \<longrightarrow> nOpCount st < 201"
    and exec: "exec_instr env opcode v pc'
      (if OP_16 < opcode then st\<lparr>nOpCount := nOpCount st + 1\<rparr> else st) = Inr st'"
    and size: "length (stack st') + length (altstack st') \<le> 1000"
  let ?st = "if OP_16 < opcode then st\<lparr>nOpCount := nOpCount st + 1\<rparr> else st"
  have "keeps_small ?st (Inr st')"
    using keeps_small_exec_instr [OF assms(1) get(2), of ?st opcode pc'] exec by simp
  then show "eval_limits st'"
    using assms(2) ops size by (auto simp: eval_limits_def keeps_small_Inr split: if_splits)
qed

lemma eval_loop_Nil [simp]: "eval_loop env [] st = Inr st"
  by (simp add: eval_loop.simps)

lemma eval_loop_step:
  "pc \<noteq> [] \<Longrightarrow> eval_loop env pc st = res_bind (eval_step env pc st) (\<lambda>(pc', st'). eval_loop env pc' st')"
  by (subst eval_loop.simps) (auto split: sum.splits)

text \<open>The states the loop goes through, as a step relation.\<close>

inductive eval_reach :: "eval_env \<Rightarrow> byte list \<times> eval_state \<Rightarrow> byte list \<times> eval_state \<Rightarrow> bool"
  for env where
  reach_start: "eval_reach env c c"
| reach_step: "eval_reach env c (pc, st) \<Longrightarrow> pc \<noteq> [] \<Longrightarrow> eval_step env pc st = Inr (pc', st') \<Longrightarrow>
     eval_reach env c (pc', st')"

inductive_cases eval_reachE: "eval_reach env c d"

lemma eval_reach_trans: "eval_reach env d e \<Longrightarrow> eval_reach env c d \<Longrightarrow> eval_reach env c e"
  by (induction rule: eval_reach.induct) (auto intro: reach_step)

lemma eval_loop_reach: "eval_loop env pc st = Inr st' \<Longrightarrow> eval_reach env (pc, st) ([], st')"
proof (induction env pc st rule: eval_loop.induct)
  case (1 env pc st)
  show ?case
  proof (cases "pc = []")
    case True
    then show ?thesis
      using "1.prems" by (simp add: reach_start)
  next
    case False
    then obtain pc1 st1 where step: "eval_step env pc st = Inr (pc1, st1)"
      and rest: "eval_loop env pc1 st1 = Inr st'"
      using "1.prems" by (auto simp: eval_loop_step res_simps)
    have "eval_reach env (pc1, st1) ([], st')"
      using "1.IH" [OF False step refl rest] by simp
    moreover have "eval_reach env (pc, st) (pc1, st1)"
      using reach_start False step by (rule reach_step)
    ultimately show ?thesis by (rule eval_reach_trans)
  qed
qed

lemma eval_reach_limits:
  assumes "hash_sizes (env_hash env)"
  shows "eval_reach env c d \<Longrightarrow> eval_limits (snd c) \<Longrightarrow> eval_limits (snd d)"
  by (induction rule: eval_reach.induct) (auto intro: eval_step_limits [OF assms])

lemma eval_limits_init:
  "length s \<le> 1000 \<Longrightarrow> small_elements s \<Longrightarrow> eval_limits (init_state s script)"
  by (simp add: eval_limits_def init_state_def)

lemma EvalScript_Inr:
  "EvalScript env s script = Inr t \<longleftrightarrow>
     length script \<le> 10000 \<and>
     (\<exists>st. eval_loop env script (init_state s script) = Inr st \<and> vfExec st = [] \<and> t = stack st)"
  by (auto simp: EvalScript_def res_simps)

lemma EvalScript_limits:
  assumes "hash_sizes (env_hash env)" and "length s \<le> 1000" and "small_elements s"
    and "EvalScript env s script = Inr t"
  shows "length t \<le> 1000" and "small_elements t"
proof -
  obtain st where loop: "eval_loop env script (init_state s script) = Inr st" and t: "t = stack st"
    using assms(4) by (auto simp: EvalScript_Inr)
  have "eval_limits st"
    using eval_reach_limits [OF assms(1) eval_loop_reach [OF loop]] eval_limits_init [OF assms(2,3)]
    by simp
  then show "length t \<le> 1000" "small_elements t"
    unfolding t eval_limits_def by simp_all
qed

section \<open>No assertion fails\<close>

lemma num_operand_range:
  assumes "num_operand env vch nDefaultMaxNumSize = Inr n"
  shows "\<bar>sint n\<bar> \<le> 2 ^ 31 - 1"
  using assms by (auto simp: num_operand_def split: option.splits dest: operand_range)

lemma num_operand_no_assert [simp]: "num_operand env vch k \<noteq> Inl AssertFail"
  by (simp add: num_operand_def split: option.splits)

lemma num_unary_defined:
  assumes "is_unary opc" and "\<bar>sint n\<bar> \<le> 2 ^ 31 - 1"
  shows "num_unary opc n \<noteq> None"
  using assms(1) incr_operand [OF assms(2)] sint_neg_operand(1) [OF assms(2)]
  by (auto simp: is_unary_def num_unary_def)

lemma op_unary_no_assert: "is_unary opc \<Longrightarrow> op_unary env opc st \<noteq> Inl AssertFail"
  using num_unary_defined num_operand_range
  by (fastforce simp: op_unary_def res_simps split: list.splits option.splits)

lemma op_binary_no_assert: "is_binary opc \<Longrightarrow> op_binary env opc st \<noteq> Inl AssertFail"
  by (auto simp: op_binary_def res_simps is_binary_def num_binary_def split: list.splits if_splits)

lemma CheckSignatureEncoding_no_assert [simp]: "CheckSignatureEncoding s f \<noteq> Inl AssertFail"
  by (auto simp: CheckSignatureEncoding_def IsLowDERSignature_def Let_def)

lemma CheckPubKeyEncoding_no_assert [simp]: "CheckPubKeyEncoding s f \<noteq> Inl AssertFail"
  by (auto simp: CheckPubKeyEncoding_def)

lemma multisig_loop_no_assert [simp]: "multisig_loop env code sigs keys \<noteq> Inl AssertFail"
  by (induction env code sigs keys rule: multisig_loop.induct) (auto simp: res_simps Let_def)

lemma multisig_args_no_assert [simp]: "multisig_args env st \<noteq> Inl AssertFail"
  by (auto simp: multisig_args_def res_simps Let_def)

lemma other_ops_no_assert:
  "op_pushint opc st \<noteq> Inl AssertFail" "op_nop env opc st \<noteq> Inl AssertFail"
  "op_if opc fExec st \<noteq> Inl AssertFail" "op_else st \<noteq> Inl AssertFail"
  "op_endif st \<noteq> Inl AssertFail" "op_verify st \<noteq> Inl AssertFail"
  "op_altstack opc st \<noteq> Inl AssertFail" "op_depth st \<noteq> Inl AssertFail"
  "op_shuffle opc st \<noteq> Inl AssertFail" "op_pick env opc st \<noteq> Inl AssertFail"
  "op_equal opc st \<noteq> Inl AssertFail" "op_within env st \<noteq> Inl AssertFail"
  "op_hash env opc st \<noteq> Inl AssertFail" "op_checksig env opc st \<noteq> Inl AssertFail"
  "op_checklocktime env st \<noteq> Inl AssertFail" "op_checkmultisig env opc st \<noteq> Inl AssertFail"
  by (auto simp: op_pushint_def op_nop_def op_if_def op_else_def op_endif_def op_verify_def
      op_altstack_def op_depth_def op_shuffle_def op_pick_def op_equal_def op_within_def op_hash_def
      op_checksig_def op_checklocktime_def op_checkmultisig_def res_simps Let_def
      split: list.splits option.splits)

lemma exec_op_no_assert: "exec_op env opc fExec pc st \<noteq> Inl AssertFail"
  unfolding exec_op_def
  by (simp add: other_ops_no_assert op_unary_no_assert op_binary_no_assert)

lemma eval_step_no_assert: "eval_step env pc st \<noteq> Inl AssertFail"
  by (auto simp: eval_step_def exec_instr_def Let_def res_simps exec_op_no_assert split: option.splits)

lemma eval_loop_no_assert: "eval_loop env pc st \<noteq> Inl AssertFail"
proof (induction env pc st rule: eval_loop.induct)
  case (1 env pc st)
  then show ?case
    by (cases "pc = []") (auto simp: eval_loop_step res_simps eval_step_no_assert)
qed

lemma EvalScript_no_assert: "EvalScript env s script \<noteq> Inl AssertFail"
  by (auto simp: EvalScript_def res_simps eval_loop_no_assert)

section \<open>Evaluating pushes\<close>

definition executing :: "eval_state \<Rightarrow> bool" where
  "executing st \<longleftrightarrow> False \<notin> set (vfExec st)"

text \<open>A push that the flags admit: small enough, and minimal where that is required.\<close>

definition push_ok :: "eval_env \<Rightarrow> valtype \<Rightarrow> bool" where
  "push_ok env d \<longleftrightarrow>
     length d \<le> MAX_SCRIPT_ELEMENT_SIZE \<and>
     (fRequireMinimal env \<longrightarrow> CheckMinimalPush d (push_opcode d))"

lemma push_ok_length: "push_ok env d \<Longrightarrow> length d < 2 ^ 32"
  by (simp add: push_ok_def MAX_SCRIPT_ELEMENT_SIZE_def)

text \<open>Only the vectors with an opcode of their own are not minimal when pushed as data.\<close>

lemma CheckMinimalPush_push_opcode:
  "CheckMinimalPush d (push_opcode d) \<longleftrightarrow>
     \<not> (\<exists>b. d = [b] \<and> (1 \<le> b \<and> b \<le> 16 \<or> b = 0x81))"
proof (cases d)
  case Nil
  then show ?thesis by (simp add: CheckMinimalPush_def push_opcode_def)
next
  case (Cons b bs)
  then show ?thesis
    by (cases bs) (auto simp: CheckMinimalPush_def push_opcode_def)
qed

lemma not_disabled_push: "opc \<le> OP_16 \<Longrightarrow> \<not> is_disabled opc"
  by (auto simp: is_disabled_def)

lemma eval_step_push:
  assumes "executing st" and "push_ok env d"
  shows "eval_step env (script_push d @ pc) st =
    (if 1000 < Suc (length (stack st) + length (altstack st)) then set_error SCRIPT_ERR_STACK_SIZE
     else Inr (pc, st\<lparr>stack := d # stack st\<rparr>))"
  using assms push_opcode_le [of d] push_ok_length [OF assms(2)] not_disabled_push [of "push_opcode d"]
  by (auto simp: eval_step_def GetOp_script_push exec_instr_def executing_def push_ok_def Let_def)

lemma eval_loop_push:
  assumes "executing st" and "push_ok env d"
    and "length (stack st) + length (altstack st) < 1000"
  shows "eval_loop env (script_push d @ pc) st = eval_loop env pc (st\<lparr>stack := d # stack st\<rparr>)"
  using eval_step_push [OF assms(1,2), of pc] assms(3) by (simp add: eval_loop_step)

lemma eval_loop_pushes:
  assumes "executing st" and "\<And>d. d \<in> set ds \<Longrightarrow> push_ok env d"
    and "length ds + length (stack st) + length (altstack st) \<le> 1000"
  shows "eval_loop env (concat (map script_push ds) @ pc) st =
    eval_loop env pc (st\<lparr>stack := rev ds @ stack st\<rparr>)"
  using assms
proof (induction ds arbitrary: st)
  case Nil
  then show ?case by simp
next
  case (Cons d ds)
  have "eval_loop env (script_push d @ concat (map script_push ds) @ pc) st =
      eval_loop env (concat (map script_push ds) @ pc) (st\<lparr>stack := d # stack st\<rparr>)"
    using Cons.prems by (intro eval_loop_push) auto
  also have "\<dots> = eval_loop env pc (st\<lparr>stack := rev (d # ds) @ stack st\<rparr>)"
    using Cons.prems Cons.IH [of "st\<lparr>stack := d # stack st\<rparr>"] by (simp add: executing_def)
  finally show ?case by simp
qed

lemma EvalScript_pushes:
  assumes "\<And>d. d \<in> set ds \<Longrightarrow> push_ok env d" and "length ds + length s \<le> 1000"
    and "length (concat (map script_push ds)) \<le> 10000"
  shows "EvalScript env s (concat (map script_push ds)) = Inr (rev ds @ s)"
  using assms eval_loop_pushes [of "init_state s (concat (map script_push ds))" ds env "[]"]
  by (simp add: EvalScript_def init_state_def executing_def)

section \<open>Evaluating single opcodes\<close>

lemma GetOp_plain: "OP_PUSHDATA4 < unat b \<Longrightarrow> GetOp (b # pc) = Some (unat b, [], pc)"
  by (simp add: GetOp_def)

lemma eval_step_plain:
  assumes "OP_16 < unat b" and "\<not> is_disabled (unat b)" and "executing st" and "nOpCount st < 201"
  shows "eval_step env (b # pc) st =
    res_bind (exec_op env (unat b) True pc (st\<lparr>nOpCount := nOpCount st + 1\<rparr>)) (\<lambda>st'.
      if 1000 < length (stack st') + length (altstack st') then set_error SCRIPT_ERR_STACK_SIZE
      else Inr (pc, st'))"
  using assms by (simp add: eval_step_def GetOp_plain exec_instr_def executing_def)

lemma exec_op_plain:
  "exec_op env OP_DUP fExec pc st = op_shuffle OP_DUP st"
  "exec_op env OP_HASH160 fExec pc st = op_hash env OP_HASH160 st"
  "exec_op env OP_EQUAL fExec pc st = op_equal OP_EQUAL st"
  "exec_op env OP_EQUALVERIFY fExec pc st = op_equal OP_EQUALVERIFY st"
  "exec_op env OP_CHECKSIG fExec pc st = op_checksig env OP_CHECKSIG st"
  "exec_op env OP_RETURN fExec pc st = set_error SCRIPT_ERR_OP_RETURN"
  by (simp_all add: exec_op_def is_shuffle_def is_unary_def is_binary_def is_hash_def)

lemmas is_disabled_simps = is_disabled_def [of "numeral n" for n]

text \<open>A script that starts with \<open>OP_RETURN\<close> fails on every stack.\<close>

lemma EvalScript_unspendable:
  assumes "IsUnspendable script"
  shows "\<not> is_ok (EvalScript env s script)"
proof -
  obtain r where script: "script = 0x6a # r"
    using assms by (cases script) (auto simp: IsUnspendable_def)
  then have "eval_loop env script (init_state s script) = Inl (ScriptFail SCRIPT_ERR_OP_RETURN)"
    by (simp add: eval_loop_step eval_step_plain is_disabled_def executing_def init_state_def
        exec_op_plain)
  then show ?thesis
    by (simp add: EvalScript_def)
qed

section \<open>Pay to script hash\<close>

definition p2sh_script :: "byte list \<Rightarrow> byte list" where
  "p2sh_script h = 0xa9 # script_push h @ [0x87]"

lemma IsPayToScriptHash_p2sh:
  "IsPayToScriptHash s \<longleftrightarrow> (\<exists>h. length h = 20 \<and> s = p2sh_script h)"
proof
  assume s: "IsPayToScriptHash s"
  then obtain a b t where abt: "s = a # b # t" and t: "length t = 21"
    by (auto simp: IsPayToScriptHash_def numeral_eq_Suc length_Suc_conv)
  define h where "h = take 20 t"
  have h: "length h = 20" and "t = h @ [t ! 20]"
    using t take_Suc_conv_app_nth [of 20 t] by (simp_all add: h_def)
  then show "\<exists>h. length h = 20 \<and> s = p2sh_script h"
    using s abt by (intro exI [of _ h])
      (auto simp: IsPayToScriptHash_def p2sh_script_def script_push_def)
next
  assume "\<exists>h. length h = 20 \<and> s = p2sh_script h"
  then show "IsPayToScriptHash s"
    by (auto simp: IsPayToScriptHash_def p2sh_script_def script_push_def nth_append)
qed

lemma push_ok_20: "length d = 20 \<Longrightarrow> push_ok env d"
  by (auto simp: push_ok_def MAX_SCRIPT_ELEMENT_SIZE_def CheckMinimalPush_push_opcode)

lemma EvalScript_p2sh_Nil:
  "EvalScript env [] (p2sh_script h) \<noteq> Inr t"
  by (simp add: EvalScript_Inr p2sh_script_def eval_loop_step eval_step_plain is_disabled_def
      executing_def init_state_def exec_op_plain op_hash_def)

lemma EvalScript_p2sh:
  assumes "length h = 20"
  shows "EvalScript env (x # r) (p2sh_script h) = Inr t \<longleftrightarrow>
    length r \<le> 998 \<and> t = vch_of_bool (CHash160 (env_hash env) x = h) # r"
proof -
  have len: "length (p2sh_script h) = 23" "length (script_push h) = 21"
    using assms by (simp_all add: p2sh_script_def script_push_def)
  let ?st = "init_state (x # r) (p2sh_script h)"
  let ?st1 = "?st\<lparr>stack := CHash160 (env_hash env) x # r, nOpCount := 1\<rparr>"
  have exec: "executing ?st1"
    by (simp add: executing_def init_state_def)
  have step1: "eval_step env (p2sh_script h) ?st =
      (if 1000 < Suc (length r) then set_error SCRIPT_ERR_STACK_SIZE
       else Inr (script_push h @ [0x87], ?st1))"
    by (simp add: p2sh_script_def eval_step_plain is_disabled_def executing_def init_state_def
        exec_op_plain op_hash_def Let_def)
  have step2: "eval_step env (script_push h @ [0x87]) ?st1 =
      (if 1000 < Suc (Suc (length r)) then set_error SCRIPT_ERR_STACK_SIZE
       else Inr ([0x87], ?st1\<lparr>stack := h # CHash160 (env_hash env) x # r\<rparr>))"
    using eval_step_push [OF exec push_ok_20 [OF assms], of env "[0x87]"]
    by (simp add: init_state_def)
  have step3: "eval_step env [0x87] (?st1\<lparr>stack := h # CHash160 (env_hash env) x # r\<rparr>) =
      (if 1000 < Suc (length r) then set_error SCRIPT_ERR_STACK_SIZE
       else Inr ([], ?st1\<lparr>stack := vch_of_bool (CHash160 (env_hash env) x = h) # r, nOpCount := 2\<rparr>))"
    by (simp add: eval_step_plain is_disabled_def executing_def init_state_def exec_op_plain
        op_equal_def Let_def)
  show ?thesis
    using step1 step2 step3
    by (auto simp: EvalScript_Inr len eval_loop_step p2sh_script_def init_state_def)
qed

lemma check_top_no_assert [simp]: "check_top s \<noteq> Inl AssertFail"
  by (simp add: check_top_def split: list.splits)

lemma VerifyScript_no_assert: "VerifyScript env scriptSig scriptPubKey \<noteq> Inl AssertFail"
proof
  assume "VerifyScript env scriptSig scriptPubKey = Inl AssertFail"
  then have "IsPayToScriptHash scriptPubKey" and "\<exists>t. EvalScript env [] scriptPubKey = Inr t"
    by (auto simp: VerifyScript_def res_simps EvalScript_no_assert split: if_splits list.splits)
  then show False
    by (auto simp: IsPayToScriptHash_p2sh EvalScript_p2sh_Nil)
qed

lemma check_top_vch_of_bool [simp]: "check_top (vch_of_bool b # r) = Inr () \<longleftrightarrow> b"
  by (simp add: check_top_def vch_of_bool_def vchTrue_def vchFalse_def)

lemma VerifyScript_p2sh_iff:
  assumes "length h = 20" and "has_flag (env_flags env) SCRIPT_VERIFY_P2SH"
  shows "VerifyScript env scriptSig (p2sh_script h) = Inr () \<longleftrightarrow>
    IsPushOnly scriptSig \<and>
    (\<exists>redeem rest t. EvalScript env [] scriptSig = Inr (redeem # rest) \<and> length rest \<le> 998 \<and>
       CHash160 (env_hash env) redeem = h \<and>
       EvalScript env rest redeem = Inr t \<and> check_top t = Inr ())"
proof -
  have p2sh: "IsPayToScriptHash (p2sh_script h)"
    using assms(1) by (auto simp: IsPayToScriptHash_p2sh)
  show ?thesis
  proof (cases "EvalScript env [] scriptSig")
    case (Inl e)
    then show ?thesis by (simp add: VerifyScript_def)
  next
    case (Inr s)
    show ?thesis
    proof (cases s)
      case Nil
      then show ?thesis
        using Inr by (simp add: VerifyScript_def res_simps EvalScript_p2sh_Nil)
    next
      case (Cons x r)
      have "VerifyScript env scriptSig (p2sh_script h) = Inr () \<longleftrightarrow>
          IsPushOnly scriptSig \<and>
          (\<exists>t. EvalScript env (x # r) (p2sh_script h) = Inr t \<and> check_top t = Inr ()) \<and>
          (\<exists>t. EvalScript env r x = Inr t \<and> check_top t = Inr ())"
        unfolding VerifyScript_def Inr Cons by (auto simp: p2sh assms(2) res_simps)
      then show ?thesis
        unfolding Inr Cons EvalScript_p2sh [OF assms(1)] by auto
    qed
  qed
qed

section \<open>Pay to public key hash\<close>

definition p2pkh_script :: "byte list \<Rightarrow> byte list" where
  "p2pkh_script h = [0x76, 0xa9] @ script_push h @ [0x88, 0xac]"

lemma is_instruction_plain: "OP_PUSHDATA4 < unat (b :: byte) \<Longrightarrow> is_instruction [b]"
  unfolding is_instruction_def by (simp add: GetOp_plain)

lemma script_push_not_plain:
  assumes "OP_PUSHDATA4 < unat b" and "length d < 2 ^ 32"
  shows "script_push d \<noteq> [b]"
  using GetOp_script_push [of d "[]"] GetOp_plain [of b "[]"] assms push_opcode_le [of d] by auto

lemma script_push_inj:
  assumes "script_push d = script_push e" and "length d < 2 ^ 32" and "length e < 2 ^ 32"
  shows "d = e"
  using GetOp_script_push [OF assms(2), of "[]"] GetOp_script_push [OF assms(3), of "[]"] assms(1)
  by (metis option.inject prod.inject)

lemma p2pkh_chunks:
  assumes "length h = 20"
  shows "script_chunks (p2pkh_script h) = [[0x76], [0xa9], script_push h, [0x88], [0xac]]"
    and "script_tail (p2pkh_script h) = []"
proof -
  let ?cs = "[[0x76], [0xa9], script_push h, [0x88], [0xac]]"
  have "is_instruction c" if "c \<in> set ?cs" for c
    using that assms is_instruction_push [of h] by (auto intro!: is_instruction_plain)
  then have "script_chunks (concat ?cs @ []) = ?cs"
    by (intro script_chunks_of_concat) auto
  then show chunks: "script_chunks (p2pkh_script h) = ?cs"
    by (simp add: p2pkh_script_def)
  show "script_tail (p2pkh_script h) = []"
    using script_chunks_concat [of "p2pkh_script h"] unfolding chunks by (simp add: p2pkh_script_def)
qed

text \<open>A signature other than the key hash itself does not occur in the script.\<close>

lemma FindAndDelete_p2pkh:
  assumes "length h = 20" and "length sig < 2 ^ 32" and "sig \<noteq> h"
  shows "fst (FindAndDelete (p2pkh_script h) (script_push sig)) = p2pkh_script h"
proof -
  have "script_push sig \<noteq> script_push h"
    using assms script_push_inj [of sig h] by auto
  moreover have "script_push sig \<noteq> [0x76]" "script_push sig \<noteq> [0xa9]"
    "script_push sig \<noteq> [0x88]" "script_push sig \<noteq> [0xac]"
    using assms(2) by (simp_all add: script_push_not_plain)
  ultimately show ?thesis
    unfolding FindAndDelete_instruction [OF is_instruction_push [OF assms(2)]] fst_conv
      p2pkh_chunks [OF assms(1)] by (simp add: p2pkh_script_def)
qed

lemma EvalScript_p2pkh:
  assumes h: "length h = 20" and "length sig < 2 ^ 32" "sig \<noteq> h"
  shows "EvalScript env [pubkey, sig] (p2pkh_script h) = Inr t \<longleftrightarrow>
    CHash160 (env_hash env) pubkey = h \<and>
    CheckSignatureEncoding sig (env_flags env) = Inr () \<and>
    CheckPubKeyEncoding pubkey (env_flags env) = Inr () \<and>
    t = [vch_of_bool (CheckSig (env_checker env) sig pubkey (p2pkh_script h))]"
proof -
  let ?s = "p2pkh_script h" and ?H = "CHash160 (env_hash env) pubkey"
  let ?st = "\<lambda>s n. \<lparr>stack = s, altstack = [], vfExec = [], pbegincodehash = ?s, nOpCount = n\<rparr>"
  have len: "length ?s = 25" "length (script_push h) = 21"
    using h by (simp_all add: p2pkh_script_def script_push_def)
  have ex: "executing (?st s n)" for s n
    by (simp add: executing_def)
  have step1: "eval_step env ?s (?st [pubkey, sig] 0) =
      Inr (0xa9 # script_push h @ [0x88, 0xac], ?st [pubkey, pubkey, sig] (Suc 0))"
    by (simp add: p2pkh_script_def eval_step_plain is_disabled_def executing_def exec_op_plain
        op_shuffle_def shuffle_defs)
  have step2: "eval_step env (0xa9 # script_push h @ [0x88, 0xac]) (?st [pubkey, pubkey, sig] (Suc 0)) =
      Inr (script_push h @ [0x88, 0xac], ?st [?H, pubkey, sig] 2)"
    by (simp add: eval_step_plain is_disabled_def ex exec_op_plain op_hash_def Let_def)
  have step3: "eval_step env (script_push h @ [0x88, 0xac]) (?st [?H, pubkey, sig] 2) =
      Inr ([0x88, 0xac], ?st [h, ?H, pubkey, sig] 2)"
    using eval_step_push [OF ex [of "[?H, pubkey, sig]" 2] push_ok_20 [OF h], of env "[0x88, 0xac]"] by simp
  have step4: "eval_step env [0x88, 0xac] (?st [h, ?H, pubkey, sig] 2) =
      (if ?H = h then Inr ([0xac], ?st [pubkey, sig] 3) else set_error SCRIPT_ERR_EQUALVERIFY)"
    by (simp add: eval_step_plain is_disabled_def ex exec_op_plain op_equal_def Let_def)
  have step5: "eval_step env [0xac] (?st [pubkey, sig] 3) =
      res_bind (CheckSignatureEncoding sig (env_flags env)) (\<lambda>_.
      res_bind (CheckPubKeyEncoding pubkey (env_flags env)) (\<lambda>_.
        Inr ([], ?st [vch_of_bool (CheckSig (env_checker env) sig pubkey ?s)] 4)))"
    using FindAndDelete_p2pkh [OF assms]
    by (cases "CheckSignatureEncoding sig (env_flags env)";
        cases "CheckPubKeyEncoding pubkey (env_flags env)")
      (simp_all add: eval_step_plain is_disabled_def ex exec_op_plain op_checksig_def Let_def)
  have ne: "?s \<noteq> []"
    by (simp add: p2pkh_script_def)
  have "eval_loop env ?s (?st [pubkey, sig] 0) =
      (if ?H = h then eval_loop env [0xac] (?st [pubkey, sig] 3) else set_error SCRIPT_ERR_EQUALVERIFY)"
    by (simp add: eval_loop_step ne step1 step2 step3 step4)
  also have "eval_loop env [0xac] (?st [pubkey, sig] 3) =
      res_bind (CheckSignatureEncoding sig (env_flags env)) (\<lambda>_.
      res_bind (CheckPubKeyEncoding pubkey (env_flags env)) (\<lambda>_.
        Inr (?st [vch_of_bool (CheckSig (env_checker env) sig pubkey ?s)] 4)))"
    by (cases "CheckSignatureEncoding sig (env_flags env)";
        cases "CheckPubKeyEncoding pubkey (env_flags env)")
      (simp_all add: eval_loop_step step5)
  finally show ?thesis
    by (auto simp: EvalScript_Inr len init_state_def res_simps)
qed

lemma p2pkh_not_p2sh: "length h = 20 \<Longrightarrow> \<not> IsPayToScriptHash (p2pkh_script h)"
  by (simp add: IsPayToScriptHash_def p2pkh_script_def script_push_def)

lemma length_script_push: "length (script_push d) \<le> length d + 5"
  by (simp add: script_push_def)

lemma VerifyScript_p2pkh_iff:
  assumes "length h = 20" and "sig \<noteq> h" and "push_ok env sig" and "push_ok env pubkey"
  shows "VerifyScript env (script_push sig @ script_push pubkey) (p2pkh_script h) = Inr () \<longleftrightarrow>
    CHash160 (env_hash env) pubkey = h \<and>
    CheckSignatureEncoding sig (env_flags env) = Inr () \<and>
    CheckPubKeyEncoding pubkey (env_flags env) = Inr () \<and>
    CheckSig (env_checker env) sig pubkey (p2pkh_script h)"
proof -
  have push: "push_ok env d" if "d \<in> set [sig, pubkey]" for d
    using that assms(3,4) by auto
  have "length sig \<le> 520" "length pubkey \<le> 520"
    using assms(3,4) by (simp_all add: push_ok_def MAX_SCRIPT_ELEMENT_SIZE_def)
  then have "length (concat (map script_push [sig, pubkey])) \<le> 10000"
    using length_script_push [of sig] length_script_push [of pubkey] by simp
  then have "EvalScript env [] (concat (map script_push [sig, pubkey])) = Inr [pubkey, sig]"
    using push EvalScript_pushes [of "[sig, pubkey]" env "[]"] by auto
  then have sigs: "EvalScript env [] (script_push sig @ script_push pubkey) = Inr [pubkey, sig]"
    by simp
  have "IsPushOnly (concat (map script_push [sig, pubkey]))"
    by (rule IsPushOnly_pushes) (use \<open>length sig \<le> 520\<close> \<open>length pubkey \<le> 520\<close> in auto)
  then have "IsPushOnly (script_push sig @ script_push pubkey)"
    by simp
  then show ?thesis
    using EvalScript_p2pkh [OF assms(1) push_ok_length [OF assms(3)] assms(2), of env pubkey]
    unfolding VerifyScript_def sigs by (auto simp: p2pkh_not_p2sh assms(1) res_simps)
qed

end
