(* ===== verification/SigOps.thy ===== *)
theory SigOps
  imports InterpreterProps
begin

text \<open>
  The signature operations charged to a pay-to-script-hash input are those of the script that
  \<open>VerifyScript\<close> will run: \<open>GetSigOpCount(scriptSig)\<close> looks at the data of the last push only,
  while the interpreter takes the top of the stack that the \<open>scriptSig\<close> leaves. The two differ
  when the last instruction is one of \<open>OP_1NEGATE\<close>, \<open>OP_1\<close> to \<open>OP_16\<close>; then neither has a
  signature operation.
\<close>

section \<open>One-byte scripts\<close>

lemma GetSigOpCount_Nil [simp]: "GetSigOpCount acc [] = 0"
  by (simp add: GetSigOpCount_def sigop_loop_None)

lemma GetSigOpCount_one:
  assumes "unat b < OP_CHECKSIG"
  shows "GetSigOpCount acc [b] = 0"
proof (cases "GetOp [b]")
  case None
  then show ?thesis by (simp add: GetSigOpCount_def sigop_loop_None)
next
  case (Some r)
  then obtain opc v pc' where get: "GetOp [b] = Some (opc, v, pc')"
    by (cases r) auto
  then have "pc' = []" and "opc = unat b"
    by (auto simp: GetOp_def getop_data_def getop_sized_def Let_def split: if_splits)
  then show ?thesis
    using assms get by (simp add: GetSigOpCount_def sigop_loop.simps [of acc _ "[b]"]
        sigop_loop_None sigop_weight_def)
qed

text \<open>The number pushed by \<open>OP_1NEGATE\<close> and \<open>OP_1\<close> to \<open>OP_16\<close>, as a script.\<close>

lemma getvch_small:
  "opc = OP_1NEGATE \<or> OP_1 \<le> opc \<and> opc \<le> OP_16 \<Longrightarrow>
     \<exists>b. getvch (of_int (int opc - int (OP_1 - 1))) = [b] \<and> unat b < OP_CHECKSIG"
proof -
  assume "opc = OP_1NEGATE \<or> OP_1 \<le> opc \<and> opc \<le> OP_16"
  then have "opc \<in> set [0x4f, 0x51, 0x52, 0x53, 0x54, 0x55, 0x56, 0x57, 0x58, 0x59, 0x5a, 0x5b,
      0x5c, 0x5d, 0x5e, 0x5f, 0x60]"
    by (simp, presburger)
  then show ?thesis
    by (simp only: list.set insert_iff empty_iff, elim disjE FalseE)
      (simp_all add: getvch_def scriptnum_serialize_def serialize_loop.simps Let_def
        word_sless_alt word_less_nat_alt)
qed

section \<open>Running a push-only script\<close>

definition same_sigops :: "valtype list \<Rightarrow> valtype \<Rightarrow> bool" where
  "same_sigops s data \<longleftrightarrow>
     (if s = [] then data = [] else GetSigOpCount True (hd s) = GetSigOpCount True data)"

lemma eval_step_push_only:
  assumes "eval_step env (c @ pc) st = Inr (pc', st')"
    and get: "\<And>r. GetOp (c @ r) = Some (opc, v, r)" and "opc \<le> OP_16" and "vfExec st = []"
  shows "pc' = pc" and "vfExec st' = []" and "same_sigops (stack st') v" and "stack st' \<noteq> []"
proof -
  have step: "exec_instr env opc v pc st = Inr st'" and pc: "pc' = pc"
    using assms by (auto simp: eval_step_def get Let_def res_simps split: if_splits)
  show "pc' = pc" by fact
  have "vfExec st' = [] \<and> same_sigops (stack st') v \<and> stack st' \<noteq> []"
  proof (cases "opc \<le> OP_PUSHDATA4")
    case True
    then show ?thesis
      using step assms(4) by (auto simp: exec_instr_def same_sigops_def split: if_splits)
  next
    case False
    have "unat (hd c) \<le> OP_PUSHDATA4 \<or> v = []"
      using get [of "[]"] by (cases c) (auto simp: GetOp_def Let_def split: if_splits)
    moreover have "unat (hd c) = opc"
      using get [of "[]"]
      by (cases c) (auto simp: GetOp_def getop_data_def getop_sized_def Let_def split: if_splits)
    ultimately have v: "v = []"
      using False by simp
    show ?thesis
    proof (cases "opc = OP_1NEGATE \<or> OP_1 \<le> opc")
      case True
      then obtain b where b: "getvch (of_int (int opc - int (OP_1 - 1))) = [b]" "unat b < OP_CHECKSIG"
        using getvch_small [of opc] assms(3) by auto
      have "stack st' = [b] # stack st" "vfExec st' = vfExec st"
        using step True assms(3,4) False b
        by (auto simp: exec_instr_def exec_op_def op_pushint_def)
      then show ?thesis
        using b assms(4) by (simp add: same_sigops_def GetSigOpCount_one v)
    next
      case res: False
      then have "opc = OP_RESERVED"
        using False assms(3) by simp
      then show ?thesis
        using step assms(4) by (simp add: exec_instr_def exec_op_def is_shuffle_def is_unary_def
            is_binary_def is_hash_def)
    qed
  qed
  then show "vfExec st' = []" "same_sigops (stack st') v" "stack st' \<noteq> []"
    by simp_all
qed

lemma eval_loop_push_only:
  assumes "eval_loop env pc st = Inr st'" and "IsPushOnly pc" and "vfExec st = []"
    and "same_sigops (stack st) data"
  shows "\<exists>data'. last_push data pc = Some data' \<and> same_sigops (stack st') data'"
  using assms
proof (induction pc arbitrary: st data rule: script_induct)
  case (stop pc)
  then have "pc = []"
    by (auto simp: IsPushOnly.simps [of pc] split: if_splits)
  then show ?case
    using stop by simp
next
  case (instr c opc v pc)
  have opc: "opc \<le> OP_16" and rest: "IsPushOnly pc"
    using instr.prems(2) IsPushOnly_step [OF instr(2,1)] by simp_all
  obtain pc1 st1 where step: "eval_step env (c @ pc) st = Inr (pc1, st1)"
    and loop: "eval_loop env pc1 st1 = Inr st'"
    using instr.prems(1) instr(1) by (auto simp: eval_loop_step res_simps)
  have st1: "pc1 = pc" "vfExec st1 = []" "same_sigops (stack st1) v"
    using eval_step_push_only [OF step instr(2) opc instr.prems(3)] by simp_all
  then have "\<exists>data'. last_push v pc = Some data' \<and> same_sigops (stack st') data'"
    using instr.IH loop rest by simp
  then show ?case
    using opc by (simp add: last_push_step [OF instr(2,1)])
qed

lemma GetSigOpCountP2SH_redeem:
  assumes "length h = 20" and "IsPushOnly scriptSig"
    and "EvalScript env [] scriptSig = Inr (redeem # rest)"
  shows "GetSigOpCountP2SH (p2sh_script h) scriptSig = GetSigOpCount True redeem"
proof -
  obtain st where loop: "eval_loop env scriptSig (init_state [] scriptSig) = Inr st"
    and st: "stack st = redeem # rest"
    using assms(3) by (auto simp: EvalScript_Inr)
  obtain data where "last_push [] scriptSig = Some data" and "same_sigops (stack st) data"
    using eval_loop_push_only [OF loop assms(2), of "[]"]
    by (auto simp: init_state_def same_sigops_def)
  moreover have "IsPayToScriptHash (p2sh_script h)"
    using assms(1) by (auto simp: IsPayToScriptHash_p2sh)
  ultimately show ?thesis
    using st by (simp add: GetSigOpCountP2SH_def same_sigops_def)
qed

end
