(* ===== verification/Multisig.thy ===== *)
theory Multisig
  imports InterpreterProps "HOL-Library.Sublist"
begin

text \<open>
  \<open>OP_CHECKMULTISIG\<close>: the greedy loop of the interpreter decides whether the signatures match
  some of the keys in the given order, and the operation on the stack layout of the source's
  comment pushes that decision.
\<close>

section \<open>The specification: an order-preserving assignment of keys\<close>

definition multisig_match :: "(valtype \<Rightarrow> valtype \<Rightarrow> bool) \<Rightarrow> valtype list \<Rightarrow> valtype list \<Rightarrow> bool" where
  "multisig_match chk sigs keys \<longleftrightarrow> (\<exists>ks. subseq ks keys \<and> list_all2 chk sigs ks)"

lemma multisig_match_Nil [simp]: "multisig_match chk [] keys"
  by (auto simp: multisig_match_def)

lemma multisig_match_Nil2 [simp]: "\<not> multisig_match chk (s # sigs) []"
proof
  assume "multisig_match chk (s # sigs) []"
  then obtain ks where "subseq ks []" and "list_all2 chk (s # sigs) ks"
    by (auto simp: multisig_match_def)
  moreover from this(1) have "ks = []"
    by (cases ks) auto
  ultimately show False by simp
qed

lemma multisig_match_length: "multisig_match chk sigs keys \<Longrightarrow> length sigs \<le> length keys"
  unfolding multisig_match_def
  by (metis list_all2_lengthD list_emb_length)

text \<open>Dropping the first signature, or keys in front, keeps a match.\<close>

lemma multisig_match_tl: "multisig_match chk (s # sigs) keys \<Longrightarrow> multisig_match chk sigs keys"
  unfolding multisig_match_def
  by (metis list_all2_Cons1 subseq_Cons')

lemma multisig_match_Cons_key: "multisig_match chk sigs keys \<Longrightarrow> multisig_match chk sigs (k # keys)"
  by (auto simp: multisig_match_def)

lemma multisig_match_Cons:
  "multisig_match chk (s # sigs) (k # keys) \<longleftrightarrow>
     (if chk s k then multisig_match chk sigs keys else multisig_match chk (s # sigs) keys)"
proof -
  have "chk s k \<and> multisig_match chk sigs keys \<or> multisig_match chk (s # sigs) keys"
    if m: "multisig_match chk (s # sigs) (k # keys)"
  proof -
    obtain zs where "subseq zs (k # keys)" and "list_all2 chk (s # sigs) zs"
      using m unfolding multisig_match_def by blast
    moreover from this(2) obtain k' ks where "zs = k' # ks" and chk: "chk s k'"
      and all: "list_all2 chk sigs ks"
      unfolding list_all2_Cons1 by blast
    ultimately have sub: "subseq (k' # ks) (k # keys)"
      by simp
    show ?thesis
    proof (cases "k' = k")
      case True
      then have "subseq ks keys"
        using sub by simp
      then show ?thesis
        using True chk all by (auto simp: multisig_match_def)
    next
      case False
      then have "subseq (k' # ks) keys"
        using sub by (simp add: subseq_Cons2_iff)
      then have "multisig_match chk (s # sigs) keys"
        unfolding multisig_match_def using chk all by (intro exI [of _ "k' # ks"]) simp
      then show ?thesis ..
    qed
  qed
  moreover have "multisig_match chk (s # sigs) (k # keys)"
    if c: "chk s k" and m: "multisig_match chk sigs keys"
  proof -
    obtain ks where "subseq ks keys" and "list_all2 chk sigs ks"
      using m by (auto simp: multisig_match_def)
    then show ?thesis
      unfolding multisig_match_def using c by (intro exI [of _ "k # ks"]) simp
  qed
  ultimately show ?thesis
    using multisig_match_tl [of chk s sigs keys] multisig_match_Cons_key [of chk "s # sigs" keys k]
    by auto
qed

section \<open>The loop decides the specification\<close>

lemma multisig_loop_match:
  assumes "\<And>s. s \<in> set sigs \<Longrightarrow> CheckSignatureEncoding s (env_flags env) = Inr ()"
    and "\<And>k. k \<in> set keys \<Longrightarrow> CheckPubKeyEncoding k (env_flags env) = Inr ()"
  shows "multisig_loop env code sigs keys =
    Inr (multisig_match (\<lambda>s k. CheckSig (env_checker env) s k code) sigs keys)"
  using assms
proof (induction env code sigs keys rule: multisig_loop.induct)
  case (1 env code keys)
  then show ?case by simp
next
  case (2 env code s sigs)
  then show ?case by simp
next
  case (3 env code s sigs k keys)
  let ?chk = "\<lambda>s k. CheckSig (env_checker env) s k code"
  let ?sigs = "if ?chk s k then sigs else s # sigs"
  have enc: "CheckSignatureEncoding s (env_flags env) = Inr ()"
    "CheckPubKeyEncoding k (env_flags env) = Inr ()"
    using "3.prems" by simp_all
  have match: "multisig_match ?chk (s # sigs) (k # keys) = multisig_match ?chk ?sigs keys"
    by (simp add: multisig_match_Cons)
  show ?case
  proof (cases "length keys < length ?sigs")
    case True
    then have "\<not> multisig_match ?chk ?sigs keys"
      using multisig_match_length [of ?chk ?sigs keys] by linarith
    then show ?thesis
      unfolding match using True enc by (simp add: Let_def)
  next
    case False
    have "multisig_loop env code ?sigs keys = Inr (multisig_match ?chk ?sigs keys)"
      using "3.prems" False by (intro "3.IH" [OF refl refl]) (auto split: if_splits)
    then show ?thesis
      unfolding match using False enc by (simp add: Let_def del: if_split)
  qed
qed

section \<open>The operation on its argument layout\<close>

definition multisig_stack ::
  "valtype list \<Rightarrow> valtype list \<Rightarrow> valtype \<Rightarrow> valtype list \<Rightarrow> valtype list" where
  "multisig_stack keys sigs dummy rest =
     getvch (of_nat (length keys)) # keys @ getvch (of_nat (length sigs)) # sigs @ dummy # rest"

lemma num_operand_of_nat:
  "k \<le> 20 \<Longrightarrow> num_operand env (getvch (of_nat k)) nDefaultMaxNumSize = Inr (of_nat k)"
  "k \<le> 20 \<Longrightarrow> getint (of_nat k) = int k"
  using CScriptNum_of_nat [of k] by (simp_all add: num_operand_def)

lemma multisig_args_stack:
  assumes "stack st = multisig_stack keys sigs dummy rest"
    and "length keys \<le> 20" and "length sigs \<le> length keys" and "nOpCount st + length keys \<le> 201"
  shows "multisig_args env st = Inr (keys, sigs, dummy # rest, nOpCount st + length keys)"
proof -
  let ?s = "multisig_stack keys sigs dummy rest"
  have nth: "?s ! 0 = getvch (of_nat (length keys))"
    "?s ! (1 + length keys) = getvch (of_nat (length sigs))"
    by (simp_all add: multisig_stack_def nth_append)
  have parts: "take (length keys) (drop 1 ?s) = keys"
    "take (length sigs) (drop (2 + length keys) ?s) = sigs"
    "drop (2 + length keys + length sigs) ?s = dummy # rest"
    by (simp_all add: multisig_stack_def)
  have len: "length ?s = 3 + length keys + length sigs + length rest"
    by (simp add: multisig_stack_def)
  have "length sigs \<le> 20"
    using assms(2,3) by linarith
  then show ?thesis
    using assms(2-4) unfolding multisig_args_def assms(1) Let_def nth
    by (simp add: num_operand_of_nat len parts [simplified] nth [simplified])
qed

lemma op_checkmultisig_stack:
  assumes "stack st = multisig_stack keys sigs dummy rest"
    and "length keys \<le> 20" and "length sigs \<le> length keys" and "nOpCount st + length keys \<le> 201"
    and "\<And>s. s \<in> set sigs \<Longrightarrow> CheckSignatureEncoding s (env_flags env) = Inr ()"
    and "\<And>k. k \<in> set keys \<Longrightarrow> CheckPubKeyEncoding k (env_flags env) = Inr ()"
    and "dummy = []"
  shows "op_checkmultisig env OP_CHECKMULTISIG st = Inr (st\<lparr>
    stack := vch_of_bool (multisig_match
      (\<lambda>s k. CheckSig (env_checker env) s k (delete_sigs sigs (pbegincodehash st))) sigs keys) # rest,
    nOpCount := nOpCount st + length keys\<rparr>)"
  unfolding op_checkmultisig_def multisig_args_stack [OF assms(1-4)]
  using multisig_loop_match [OF assms(5,6)] assms(7) by simp

end
