(* ===== verification/Serialize.thy ===== *)
theory Serialize
  imports Prelude
begin

text \<open>
  Serialization, \<open>src/serialize.h\<close>. A writer is a function to the bytes it appends to the
  stream; a reader takes the unread bytes and returns the value and the bytes left, or \<open>None\<close>
  when the source throws \<open>std::ios_base::failure\<close> (end of data, a non-canonical or an oversized
  length). The sizes are those of the source; casts to a narrower type are written by
  \<open>le_bytes\<close>, which keeps the low bytes.

  The contract of a type that is written and read back is the locale \<open>codec\<close>: reading what was
  written gives the value back and leaves the rest, and only what is written can be read. It is
  interpreted here for the integers and the length prefix, and by the theories of the
  serialized classes for those classes.
\<close>

section \<open>The contract\<close>

type_synonym 'a reader = "byte list \<Rightarrow> ('a \<times> byte list) option"

locale codec =
  fixes put :: "'a \<Rightarrow> byte list" and get :: "'a reader" and wf :: "'a \<Rightarrow> bool"
  assumes get_put: "wf x \<Longrightarrow> get (put x @ r) = Some (x, r)"
    and put_get: "get bs = Some (x, r) \<Longrightarrow> wf x \<and> bs = put x @ r"
begin

lemma get_iff: "get bs = Some (x, r) \<longleftrightarrow> wf x \<and> bs = put x @ r"
proof
  assume "get bs = Some (x, r)"
  then show "wf x \<and> bs = put x @ r" by (rule put_get)
next
  assume "wf x \<and> bs = put x @ r"
  then show "get bs = Some (x, r)" using get_put by blast
qed

text \<open>No encoding is a prefix of another one.\<close>

lemma put_prefix_free:
  assumes "wf x" and "wf y" and "put x @ r = put y @ s"
  shows "x = y \<and> r = s"
proof -
  have "get (put x @ r) = Some (y, s)"
    unfolding assms(3) by (rule get_put [OF assms(2)])
  then show ?thesis
    unfolding get_put [OF assms(1)] by simp
qed

lemma put_inj: "wf x \<Longrightarrow> wf y \<Longrightarrow> put x = put y \<Longrightarrow> x = y"
  using put_prefix_free [of x y "[]" "[]"] by simp

lemma get_shorter: "get bs = Some (x, r) \<Longrightarrow> length r \<le> length bs"
  by (drule put_get) auto

end

section \<open>Fixed-size integers\<close>

definition read_bytes :: "nat \<Rightarrow> byte list reader" where
  "read_bytes n bs = (if length bs < n then None else Some (take n bs, drop n bs))"

definition read_uint :: "nat \<Rightarrow> nat reader" where
  "read_uint n bs =
     (case read_bytes n bs of None \<Rightarrow> None | Some (v, r) \<Rightarrow> Some (le_val v, r))"

definition ser_u32 :: "32 word \<Rightarrow> byte list" where
  "ser_u32 w = le_bytes 4 (unat w)"

definition unser_u32 :: "32 word reader" where
  "unser_u32 bs = (case read_uint 4 bs of None \<Rightarrow> None | Some (v, r) \<Rightarrow> Some (of_nat v, r))"

definition ser_u64 :: "64 word \<Rightarrow> byte list" where
  "ser_u64 w = le_bytes 8 (unat w)"

definition unser_u64 :: "64 word reader" where
  "unser_u64 bs = (case read_uint 8 bs of None \<Rightarrow> None | Some (v, r) \<Rightarrow> Some (of_nat v, r))"

lemma read_bytes_append [simp]: "length v = n \<Longrightarrow> read_bytes n (v @ r) = Some (v, r)"
  by (simp add: read_bytes_def)

lemma read_bytes_Some: "read_bytes n bs = Some (v, r) \<longleftrightarrow> length v = n \<and> bs = v @ r"
  by (auto simp: read_bytes_def)

lemma read_uint_le_bytes [simp]: "read_uint n (le_bytes n x @ r) = Some (x mod 256 ^ n, r)"
  by (simp add: read_uint_def le_val_le_bytes)

lemma read_uint_Some:
  "read_uint n bs = Some (x, r) \<longleftrightarrow> x < 256 ^ n \<and> bs = le_bytes n x @ r"
proof
  assume "read_uint n bs = Some (x, r)"
  then obtain v where "length v = n" "bs = v @ r" "x = le_val v"
    by (auto simp: read_uint_def read_bytes_Some split: option.splits)
  then show "x < 256 ^ n \<and> bs = le_bytes n x @ r"
    using le_val_bound [of v] by auto
qed auto

lemma unat_32_less: "unat (w :: 32 word) < 256 ^ 4"
  using unsigned_less [where w = w] by simp

lemma unat_64_less: "unat (w :: 64 word) < 256 ^ 8"
  using unsigned_less [where w = w] by simp

lemmas unat_mod_bytes = mod_less [OF unat_32_less] mod_less [OF unat_64_less]

lemma codec_u32: "codec ser_u32 unser_u32 (\<lambda>_. True)"
proof
  fix w :: "32 word" and r
  show "unser_u32 (ser_u32 w @ r) = Some (w, r)"
    by (simp only: unser_u32_def ser_u32_def read_uint_le_bytes unat_mod_bytes option.case prod.case) simp
next
  fix bs :: "byte list" and w :: "32 word" and r
  assume "unser_u32 bs = Some (w, r)"
  then obtain v where "v < 256 ^ 4" "bs = le_bytes 4 v @ r" "w = of_nat v"
    by (auto simp: unser_u32_def read_uint_Some split: option.splits)
  then show "True \<and> bs = ser_u32 w @ r"
    by (simp add: ser_u32_def unat_of_nat)
qed

lemma codec_u64: "codec ser_u64 unser_u64 (\<lambda>_. True)"
proof
  fix w :: "64 word" and r
  show "unser_u64 (ser_u64 w @ r) = Some (w, r)"
    by (simp only: unser_u64_def ser_u64_def read_uint_le_bytes unat_mod_bytes option.case prod.case) simp
next
  fix bs :: "byte list" and w :: "64 word" and r
  assume "unser_u64 bs = Some (w, r)"
  then obtain v where "v < 256 ^ 8" "bs = le_bytes 8 v @ r" "w = of_nat v"
    by (auto simp: unser_u64_def read_uint_Some split: option.splits)
  then show "True \<and> bs = ser_u64 w @ r"
    by (simp add: ser_u64_def unat_of_nat)
qed

interpretation u32: codec ser_u32 unser_u32 "\<lambda>_. True"
  by (rule codec_u32)

interpretation u64: codec ser_u64 unser_u64 "\<lambda>_. True"
  by (rule codec_u64)

section \<open>The length prefix\<close>

definition MAX_SIZE :: nat where
  "MAX_SIZE = 0x02000000"

definition GetSizeOfCompactSize :: "nat \<Rightarrow> nat" where
  "GetSizeOfCompactSize nSize =
     (if nSize < 253 then 1
      else if nSize \<le> 0xffff then 1 + 2
      else if nSize \<le> 0xffffffff then 1 + 4
      else 1 + 8)"

definition WriteCompactSize :: "nat \<Rightarrow> byte list" where
  "WriteCompactSize nSize =
     (if nSize < 253 then le_bytes 1 nSize
      else if nSize \<le> 0xffff then le_bytes 1 253 @ le_bytes 2 nSize
      else if nSize \<le> 0xffffffff then le_bytes 1 254 @ le_bytes 4 nSize
      else le_bytes 1 255 @ le_bytes 8 nSize)"

text \<open>A length that has a shorter form is refused, as is one over \<open>MAX_SIZE\<close>.\<close>

definition read_size_min :: "nat \<Rightarrow> nat \<Rightarrow> nat reader" where
  "read_size_min n least bs =
     (case read_uint n bs of
        None \<Rightarrow> None
      | Some (nSizeRet, r) \<Rightarrow> if nSizeRet < least then None else Some (nSizeRet, r))"

definition ReadCompactSize :: "nat reader" where
  "ReadCompactSize bs =
     (case read_uint 1 bs of
        None \<Rightarrow> None
      | Some (chSize, r) \<Rightarrow>
          (case (if chSize < 253 then Some (chSize, r)
                 else if chSize = 253 then read_size_min 2 253 r
                 else if chSize = 254 then read_size_min 4 0x10000 r
                 else read_size_min 8 0x100000000 r) of
             None \<Rightarrow> None
           | Some (nSizeRet, r') \<Rightarrow> if MAX_SIZE < nSizeRet then None else Some (nSizeRet, r')))"

lemma length_WriteCompactSize: "length (WriteCompactSize n) = GetSizeOfCompactSize n"
  by (simp add: WriteCompactSize_def GetSizeOfCompactSize_def)

lemma read_size_min_Some:
  "read_size_min n least bs = Some (x, r) \<longleftrightarrow> least \<le> x \<and> x < 256 ^ n \<and> bs = le_bytes n x @ r"
proof -
  have "read_size_min n least bs = Some (x, r) \<longleftrightarrow> least \<le> x \<and> read_uint n bs = Some (x, r)"
    by (auto simp: read_size_min_def split: option.splits)
  then show ?thesis
    by (simp add: read_uint_Some)
qed

lemma read_size_min_le_bytes:
  "least \<le> x \<Longrightarrow> x < 256 ^ n \<Longrightarrow> read_size_min n least (le_bytes n x @ r) = Some (x, r)"
  by (simp add: read_size_min_Some)

lemma ReadCompactSize_Write:
  assumes "n \<le> MAX_SIZE"
  shows "ReadCompactSize (WriteCompactSize n @ r) = Some (n, r)"
proof -
  have max: "n \<le> 0xffffffff" "\<not> MAX_SIZE < n"
    using assms by (simp_all add: MAX_SIZE_def)
  consider "n < 253" | "253 \<le> n" "n \<le> 0xffff" | "0x10000 \<le> n"
    by linarith
  then show ?thesis
  proof cases
    case 1
    then show ?thesis
      using max by (simp add: WriteCompactSize_def ReadCompactSize_def del: le_bytes.simps)
  next
    case 2
    then show ?thesis
      using max read_size_min_le_bytes [where least = 253 and x = n and n = 2 and r = r]
      by (simp add: WriteCompactSize_def ReadCompactSize_def del: le_bytes.simps)
  next
    case 3
    then show ?thesis
      using max read_size_min_le_bytes [where least = 65536 and x = n and n = 4 and r = r]
      by (simp add: WriteCompactSize_def ReadCompactSize_def del: le_bytes.simps)
  qed
qed

lemma ReadCompactSize_canonical:
  assumes "ReadCompactSize bs = Some (n, r)"
  shows "n \<le> MAX_SIZE \<and> bs = WriteCompactSize n @ r"
proof -
  obtain ch r1 where read: "read_uint 1 bs = Some (ch, r1)"
    and n: "(if ch < 253 then Some (ch, r1)
      else if ch = 253 then read_size_min 2 253 r1
      else if ch = 254 then read_size_min 4 0x10000 r1
      else read_size_min 8 0x100000000 r1) = Some (n, r)" and max: "n \<le> MAX_SIZE"
    using assms unfolding ReadCompactSize_def
    by (cases "read_uint 1 bs") (auto split: option.splits if_split_asm prod.splits)
  have ch: "ch < 256" "bs = le_bytes 1 ch @ r1"
    using read by (simp_all add: read_uint_Some)
  consider "ch < 253" | "ch = 253" | "ch = 254" | "ch = 255"
    using ch(1) by linarith
  then show ?thesis
  proof cases
    case 4
    then have "0x100000000 \<le> n"
      using n by (simp add: read_size_min_Some)
    then show ?thesis
      using max by (simp add: MAX_SIZE_def)
  qed (use ch n max in \<open>simp_all add: WriteCompactSize_def read_size_min_Some del: le_bytes.simps\<close>)
qed

interpretation size: codec WriteCompactSize ReadCompactSize "\<lambda>n. n \<le> MAX_SIZE"
  by unfold_locales (auto simp: ReadCompactSize_Write dest: ReadCompactSize_canonical)

section \<open>Vectors\<close>

text \<open>
  A vector of bytes is read in blocks of at most 5,000,000 bytes, so that a bogus length does
  not allocate before the data is there. A vector of other elements is read one by one; the
  source grows it in batches, which has no effect on the result.
\<close>

definition block_size :: nat where
  "block_size = 1 + 4999999"

function read_blocks :: "nat \<Rightarrow> byte list reader" where
  "read_blocks n bs =
     (if n = 0 then Some ([], bs)
      else
        let blk = min n block_size in
        (case read_bytes blk bs of
           None \<Rightarrow> None
         | Some (v, r) \<Rightarrow>
             (case read_blocks (n - blk) r of
                None \<Rightarrow> None
              | Some (w, r') \<Rightarrow> Some (v @ w, r'))))"
  by pat_completeness auto
termination
  by (relation "measure fst") (auto simp: block_size_def)

declare read_blocks.simps [simp del]

definition ser_bytes :: "byte list \<Rightarrow> byte list" where
  "ser_bytes v = WriteCompactSize (length v) @ v"

definition unser_bytes :: "byte list reader" where
  "unser_bytes bs =
     (case ReadCompactSize bs of None \<Rightarrow> None | Some (nSize, r) \<Rightarrow> read_blocks nSize r)"

definition ser_vector :: "('a \<Rightarrow> byte list) \<Rightarrow> 'a list \<Rightarrow> byte list" where
  "ser_vector put v = WriteCompactSize (length v) @ concat (map put v)"

fun read_items :: "'a reader \<Rightarrow> nat \<Rightarrow> 'a list reader" where
  "read_items get 0 bs = Some ([], bs)"
| "read_items get (Suc n) bs =
     (case get bs of
        None \<Rightarrow> None
      | Some (x, r) \<Rightarrow>
          (case read_items get n r of
             None \<Rightarrow> None
           | Some (xs, r') \<Rightarrow> Some (x # xs, r')))"

definition unser_vector :: "'a reader \<Rightarrow> 'a list reader" where
  "unser_vector get bs =
     (case ReadCompactSize bs of None \<Rightarrow> None | Some (nSize, r) \<Rightarrow> read_items get nSize r)"

definition wf_bytes :: "byte list \<Rightarrow> bool" where
  "wf_bytes v \<longleftrightarrow> length v \<le> MAX_SIZE"

definition wf_vector :: "('a \<Rightarrow> bool) \<Rightarrow> 'a list \<Rightarrow> bool" where
  "wf_vector ok v \<longleftrightarrow> length v \<le> MAX_SIZE \<and> list_all ok v"

text \<open>Reading in blocks is reading at once.\<close>

lemma read_blocks_eq: "read_blocks n bs = read_bytes n bs"
proof (induction n bs rule: read_blocks.induct)
  case (1 n bs)
  show ?case
  proof (cases "n = 0")
    case True
    then show ?thesis by (simp add: read_blocks.simps [of 0] read_bytes_def)
  next
    case False
    define b where "b = min n block_size"
    have "b \<le> n" by (simp add: b_def)
    show ?thesis
    proof (cases "length bs < b")
      case True
      then show ?thesis
        using False \<open>b \<le> n\<close> by (simp add: read_blocks.simps [of n] read_bytes_def Let_def b_def [symmetric])
    next
      case enough: False
      then have "read_blocks (n - b) (drop b bs) = read_bytes (n - b) (drop b bs)"
        by (intro "1.IH" [OF False b_def _ refl]) (simp add: read_bytes_def)
      then have step: "read_blocks n bs =
          (case read_bytes (n - b) (drop b bs) of
             None \<Rightarrow> None
           | Some (w, r') \<Rightarrow> Some (take b bs @ w, r'))"
        using False enough by (subst read_blocks.simps) (simp add: read_bytes_def [of b] Let_def b_def [symmetric])
      have "take b bs @ take (n - b) (drop b bs) = take n bs"
        using \<open>b \<le> n\<close> by (metis le_add_diff_inverse take_add)
      then show ?thesis
        using \<open>b \<le> n\<close> enough unfolding step by (auto simp: read_bytes_def not_less)
    qed
  qed
qed

lemma codec_bytes: "codec ser_bytes unser_bytes wf_bytes"
proof
  fix v r
  assume "wf_bytes v"
  then show "unser_bytes (ser_bytes v @ r) = Some (v, r)"
    by (simp add: unser_bytes_def ser_bytes_def wf_bytes_def size.get_put read_blocks_eq)
next
  fix bs v r
  assume "unser_bytes bs = Some (v, r)"
  then show "wf_bytes v \<and> bs = ser_bytes v @ r"
    by (auto simp: unser_bytes_def ser_bytes_def wf_bytes_def size.get_iff read_blocks_eq
        read_bytes_Some split: option.splits)
qed

interpretation bytes: codec ser_bytes unser_bytes wf_bytes
  by (rule codec_bytes)

text \<open>Vectors and pairs of serializable types are serializable.\<close>

context codec
begin

lemma read_items_put: "list_all wf v \<Longrightarrow> read_items get (length v) (concat (map put v) @ r) = Some (v, r)"
  by (induction v) (simp_all add: get_put)

lemma read_items_Some:
  "read_items get n bs = Some (v, r) \<Longrightarrow> length v = n \<and> list_all wf v \<and> bs = concat (map put v) @ r"
proof (induction n arbitrary: bs v)
  case 0
  then show ?case by auto
next
  case (Suc n)
  then obtain x bs' xs where "get bs = Some (x, bs')" "read_items get n bs' = Some (xs, r)" "v = x # xs"
    by (auto split: option.splits)
  then show ?case
    using Suc.IH [of bs' xs] by (auto dest: put_get)
qed

lemma vector_codec: "codec (ser_vector put) (unser_vector get) (wf_vector wf)"
proof
  fix v r
  assume "wf_vector wf v"
  then show "unser_vector get (ser_vector put v @ r) = Some (v, r)"
    by (simp add: unser_vector_def ser_vector_def wf_vector_def size.get_put read_items_put)
next
  fix bs v r
  assume "unser_vector get bs = Some (v, r)"
  then show "wf_vector wf v \<and> bs = ser_vector put v @ r"
    by (auto simp: unser_vector_def ser_vector_def wf_vector_def size.get_iff
        split: option.splits dest!: read_items_Some)
qed

end

end
