(* ===== verification/Transaction.thy ===== *)
theory Transaction
  imports Serialize Opcodes Script "HOL-Library.Monad_Syntax"
begin

text \<open>
  Transactions, \<open>src/primitives/transaction.h\<close> and \<open>.cpp\<close>: the classes \<open>COutPoint\<close>, \<open>CTxIn\<close>,
  \<open>CTxOut\<close> and \<open>CTransaction\<close>, their predicates and their serialization. The memory-only fields
  \<open>prevPubKey\<close> and \<open>nRounds\<close> are kept, with the values a default constructor gives them; the
  cached hash of a transaction is a function of the other fields and is computed where it is used.

  An access past the end of a vector, which the source does not check, is \<open>None\<close>.
\<close>

section \<open>Data\<close>

type_synonym uint256 = "256 word"
type_synonym CAmount = "64 word"

record COutPoint =
  out_hash :: uint256
  out_n :: "32 word"

record CTxIn =
  prevout :: COutPoint
  scriptSig :: "byte list"
  nSequence :: "32 word"
  prevPubKey :: "byte list"

record CTxOut =
  nValue :: CAmount
  scriptPubKey :: "byte list"
  nRounds :: "32 word"

record CTransaction =
  nVersion :: "32 word"
  vin :: "CTxIn list"
  vout :: "CTxOut list"
  nLockTime :: "32 word"

text \<open>The order of outpoints, \<open>operator<\<close>: by hash, then by index. It is the linear order of the type.\<close>

definition COutPoint_less :: "'a COutPoint_scheme \<Rightarrow> 'a COutPoint_scheme \<Rightarrow> bool" where
  "COutPoint_less a b \<longleftrightarrow> out_hash a < out_hash b \<or> out_hash a = out_hash b \<and> out_n a < out_n b"

instantiation COutPoint_ext :: (linorder) linorder
begin

definition less_COutPoint_ext :: "'a COutPoint_scheme \<Rightarrow> 'a COutPoint_scheme \<Rightarrow> bool" where
  "less_COutPoint_ext a b \<longleftrightarrow>
     COutPoint_less a b \<or> out_hash a = out_hash b \<and> out_n a = out_n b \<and> COutPoint.more a < COutPoint.more b"

definition less_eq_COutPoint_ext :: "'a COutPoint_scheme \<Rightarrow> 'a COutPoint_scheme \<Rightarrow> bool" where
  "less_eq_COutPoint_ext a b \<longleftrightarrow> a < b \<or> a = b"

instance
proof
  fix a b c :: "'a COutPoint_scheme"
  show "a < b \<longleftrightarrow> a \<le> b \<and> \<not> b \<le> a"
    by (auto simp: less_eq_COutPoint_ext_def less_COutPoint_ext_def COutPoint_less_def)
  show "a \<le> a"
    by (simp add: less_eq_COutPoint_ext_def)
  show "a \<le> b \<Longrightarrow> b \<le> c \<Longrightarrow> a \<le> c"
    by (auto simp: less_eq_COutPoint_ext_def less_COutPoint_ext_def COutPoint_less_def)
  show "a \<le> b \<Longrightarrow> b \<le> a \<Longrightarrow> a = b"
    by (auto simp: less_eq_COutPoint_ext_def less_COutPoint_ext_def COutPoint_less_def)
  show "a \<le> b \<or> b \<le> a"
    by (auto simp: less_eq_COutPoint_ext_def less_COutPoint_ext_def COutPoint_less_def neq_iff
        intro!: COutPoint.equality)
qed

end

lemma COutPoint_less_iff: "COutPoint_less a b \<longleftrightarrow> a < b" for a b :: COutPoint
  by (simp add: less_COutPoint_ext_def)

definition COutPoint_SetNull :: COutPoint where
  "COutPoint_SetNull = \<lparr>out_hash = 0, out_n = - 1\<rparr>"

definition COutPoint_IsNull :: "COutPoint \<Rightarrow> bool" where
  "COutPoint_IsNull o' \<longleftrightarrow> out_hash o' = 0 \<and> out_n o' = - 1"

definition SEQUENCE_FINAL :: "32 word" where
  "SEQUENCE_FINAL = 0xffffffff"

definition mkTxIn :: "COutPoint \<Rightarrow> byte list \<Rightarrow> 32 word \<Rightarrow> CTxIn" where
  "mkTxIn prevoutIn scriptSigIn nSequenceIn =
     \<lparr>prevout = prevoutIn, scriptSig = scriptSigIn, nSequence = nSequenceIn, prevPubKey = []\<rparr>"

definition CTxIn_IsFinal :: "CTxIn \<Rightarrow> bool" where
  "CTxIn_IsFinal txin \<longleftrightarrow> nSequence txin = SEQUENCE_FINAL"

text \<open>\<open>operator==\<close> ignores the public key stored in memory.\<close>

definition CTxIn_eq :: "CTxIn \<Rightarrow> CTxIn \<Rightarrow> bool" where
  "CTxIn_eq a b \<longleftrightarrow> prevout a = prevout b \<and> scriptSig a = scriptSig b \<and> nSequence a = nSequence b"

definition mkTxOut :: "CAmount \<Rightarrow> byte list \<Rightarrow> CTxOut" where
  "mkTxOut nValueIn scriptPubKeyIn =
     \<lparr>nValue = nValueIn, scriptPubKey = scriptPubKeyIn, nRounds = - 10\<rparr>"

definition CTxOut_SetNull :: CTxOut where
  "CTxOut_SetNull = mkTxOut (- 1) []"

definition CTxOut_IsNull :: "CTxOut \<Rightarrow> bool" where
  "CTxOut_IsNull txout \<longleftrightarrow> nValue txout = - 1"

definition CTxOut_SetEmpty :: "CTxOut \<Rightarrow> CTxOut" where
  "CTxOut_SetEmpty txout = txout\<lparr>nValue := 0, scriptPubKey := []\<rparr>"

definition CTxOut_IsEmpty :: "CTxOut \<Rightarrow> bool" where
  "CTxOut_IsEmpty txout \<longleftrightarrow> nValue txout = 0 \<and> scriptPubKey txout = []"

definition CTxOut_IsZerocoinMint :: "CTxOut \<Rightarrow> bool" where
  "CTxOut_IsZerocoinMint txout \<longleftrightarrow> scriptPubKey txout \<noteq> [] \<and> IsZerocoinMint (scriptPubKey txout)"

section \<open>Predicates on transactions\<close>

definition tx_IsNull :: "CTransaction \<Rightarrow> bool" where
  "tx_IsNull tx \<longleftrightarrow> vin tx = [] \<and> vout tx = []"

text \<open>\<open>vin[0].scriptSig[0]\<close> is read without a test that the script is not empty.\<close>

definition tx_IsZerocoinSpend :: "CTransaction \<Rightarrow> bool option" where
  "tx_IsZerocoinSpend tx =
     (case vin tx of
        [] \<Rightarrow> Some False
      | txin # _ \<Rightarrow>
          if COutPoint_IsNull (prevout txin) then
            (case scriptSig txin of
               [] \<Rightarrow> None
             | b # _ \<Rightarrow> Some (b = of_nat OP_ZEROCOINSPEND))
          else Some False)"

definition tx_IsZerocoinMint :: "CTransaction \<Rightarrow> bool" where
  "tx_IsZerocoinMint tx \<longleftrightarrow> list_ex (\<lambda>txout. IsZerocoinMint (scriptPubKey txout)) (vout tx)"

definition tx_ContainsZerocoins :: "CTransaction \<Rightarrow> bool option" where
  "tx_ContainsZerocoins tx =
     (case tx_IsZerocoinSpend tx of
        None \<Rightarrow> None
      | Some b \<Rightarrow> Some (b \<or> tx_IsZerocoinMint tx))"

definition tx_IsCoinBase :: "CTransaction \<Rightarrow> bool option" where
  "tx_IsCoinBase tx =
     (if length (vin tx) = 1 \<and> COutPoint_IsNull (prevout (vin tx ! 0))
      then map_option Not (tx_ContainsZerocoins tx) else Some False)"

definition tx_IsCoinStake :: "CTransaction \<Rightarrow> bool" where
  "tx_IsCoinStake tx \<longleftrightarrow>
     0 < length (vin tx) \<and> \<not> COutPoint_IsNull (prevout (vin tx ! 0)) \<and>
     2 \<le> length (vout tx) \<and> CTxOut_IsEmpty (vout tx ! 0)"

definition IsMasternodeReward :: "COutPoint \<Rightarrow> CTransaction \<Rightarrow> bool" where
  "IsMasternodeReward o' tx \<longleftrightarrow>
     tx_IsCoinStake tx \<and> unat (out_n o') = length (vout tx) - 1 \<and>
     scriptPubKey (vout tx ! 1) \<noteq> scriptPubKey (vout tx ! unat (out_n o'))"

definition tx_UsesUTXO :: "CTransaction \<Rightarrow> COutPoint \<Rightarrow> bool" where
  "tx_UsesUTXO tx out \<longleftrightarrow> list_ex (\<lambda>txin. prevout txin = out) (vin tx)"

definition tx_GetOutPoints :: "uint256 \<Rightarrow> CTransaction \<Rightarrow> COutPoint list" where
  "tx_GetOutPoints txHash tx =
     map (\<lambda>i. \<lparr>out_hash = txHash, out_n = of_nat i\<rparr>) [0..<length (vout tx)]"

fun zerocoin_minted_loop :: "CTxOut list \<Rightarrow> CAmount" where
  "zerocoin_minted_loop [] = 0"
| "zerocoin_minted_loop (txout # outs) =
     (if \<not> IsZerocoinMint (scriptPubKey txout) then zerocoin_minted_loop outs else nValue txout)"

definition tx_GetZerocoinMinted :: "CTransaction \<Rightarrow> CAmount" where
  "tx_GetZerocoinMinted tx = zerocoin_minted_loop (vout tx)"

definition tx_GetZerocoinMintCount :: "CTransaction \<Rightarrow> nat" where
  "tx_GetZerocoinMintCount tx =
     length (filter (\<lambda>txout. IsZerocoinMint (scriptPubKey txout)) (vout tx))"

text \<open>The size used for priorities: every input takes back its constant overhead.\<close>

fun modified_size_loop :: "CTxIn list \<Rightarrow> nat \<Rightarrow> nat" where
  "modified_size_loop [] nTxSize = nTxSize"
| "modified_size_loop (txin # ins) nTxSize =
     (let offset = 41 + min 110 (length (scriptSig txin)) in
      modified_size_loop ins (if offset < nTxSize then nTxSize - offset else nTxSize))"

section \<open>The value of the outputs\<close>

datatype value_error = ValueNegative | ValueWraps

fun value_out_loop :: "CAmount \<Rightarrow> CTxOut list \<Rightarrow> value_error + CAmount" where
  "value_out_loop nValueOut [] = Inr nValueOut"
| "value_out_loop nValueOut (txout # outs) =
     (if nValue txout <s 0 then Inl ValueNegative
      else if nValueOut + nValue txout <s nValueOut then Inl ValueWraps
      else value_out_loop (nValueOut + nValue txout) outs)"

definition tx_GetValueOut :: "CTransaction \<Rightarrow> value_error + CAmount" where
  "tx_GetValueOut tx = value_out_loop 0 (vout tx)"

definition sum_values :: "CTxOut list \<Rightarrow> int" where
  "sum_values outs = (\<Sum>txout\<leftarrow>outs. sint (nValue txout))"

lemma sint_bounds_64: "- (2 ^ 63) \<le> sint (w :: 64 word)" "sint (w :: 64 word) < 2 ^ 63"
  using sint_range_size [of w] by (simp_all add: word_size)

text \<open>The wrap test is exact: for two amounts that are not negative the sum wraps just when it is smaller.\<close>

lemma sint_add_nonneg:
  assumes "0 \<le> sint (a :: 64 word)" and "0 \<le> sint b"
  shows "a + b <s a \<longleftrightarrow> 2 ^ 63 \<le> sint a + sint b"
    and "sint a + sint b < 2 ^ 63 \<Longrightarrow> sint (a + b) = sint a + sint b"
proof -
  have lt: "sint a + sint b < 2 ^ 64"
    using sint_bounds_64(2) [of a] sint_bounds_64(2) [of b] by simp
  have sum: "a + b = word_of_int (sint a + sint b)"
    by (simp add: wi_hom_add [symmetric])
  have eq: "sint (a + b) = (if sint a + sint b < 2 ^ 63 then sint a + sint b else sint a + sint b - 2 ^ 64)"
  proof (cases "sint a + sint b < 2 ^ 63")
    case True
    then show ?thesis
      using assms unfolding sum by (subst sint_of_int64) simp_all
  next
    case False
    have "a + b = word_of_int (sint a + sint b - 2 ^ 64)"
      unfolding sum by (simp add: wi_hom_sub [symmetric])
    then have "sint (a + b) = sint a + sint b - 2 ^ 64"
      using False lt by (simp only:) (subst sint_of_int64, simp_all)
    then show ?thesis
      using False by simp
  qed
  then show "a + b <s a \<longleftrightarrow> 2 ^ 63 \<le> sint a + sint b"
    "sint a + sint b < 2 ^ 63 \<Longrightarrow> sint (a + b) = sint a + sint b"
    using lt assms sint_bounds_64(2) [of b] by (auto simp: word_sless_alt)
qed

lemma value_out_loop_spec:
  assumes "0 \<le> sint acc"
  shows "(if list_all (\<lambda>txout. 0 \<le> sint (nValue txout)) outs \<and> sint acc + sum_values outs < 2 ^ 63
    then \<exists>v. value_out_loop acc outs = Inr v \<and> sint v = sint acc + sum_values outs
    else \<not> is_ok (value_out_loop acc outs))"
  using assms
proof (induction outs arbitrary: acc)
  case Nil
  then show ?case
    using sint_bounds_64(2) [of acc] by (simp add: sum_values_def)
next
  case (Cons txout outs)
  have sums: "sum_values (txout # outs) = sint (nValue txout) + sum_values outs"
    by (simp add: sum_values_def)
  have nonneg: "list_all (\<lambda>txout. 0 \<le> sint (nValue txout)) outs \<Longrightarrow> 0 \<le> sum_values outs"
    unfolding sum_values_def by (intro sum_list_nonneg) (auto simp: list_all_iff)
  consider "sint (nValue txout) < 0"
    | "0 \<le> sint (nValue txout)" "2 ^ 63 \<le> sint acc + sint (nValue txout)"
    | "0 \<le> sint (nValue txout)" "sint acc + sint (nValue txout) < 2 ^ 63"
    by linarith
  then show ?case
  proof cases
    case 1
    then show ?thesis by (simp add: word_sless_alt)
  next
    case 2
    then show ?thesis
      using sint_add_nonneg(1) [OF Cons.prems 2(1)] nonneg unfolding sums
      by (auto simp: word_sless_alt)
  next
    case 3
    have eq: "sint (acc + nValue txout) = sint acc + sint (nValue txout)"
      using sint_add_nonneg(2) [OF Cons.prems 3(1)] 3(2) by simp
    have "\<not> acc + nValue txout <s acc"
      using sint_add_nonneg(1) [OF Cons.prems 3(1)] 3(2) by simp
    then have step: "value_out_loop acc (txout # outs) = value_out_loop (acc + nValue txout) outs"
      using 3 by (simp add: word_sless_alt)
    have "0 \<le> sint (acc + nValue txout)"
      using eq Cons.prems 3 by simp
    then show ?thesis
      using Cons.IH [of "acc + nValue txout"] 3(1) unfolding step sums eq
      by (auto simp: add.assoc simp del: value_out_loop.simps split: if_split_asm)
  qed
qed

end
