(* ===== verification/TxCodec.thy ===== *)
theory TxCodec
  imports Transaction
begin

text \<open>
  The \<open>SerializationOp\<close> of the transaction classes, for writing and for reading, and the
  interpretations that show each pair is a \<open>codec\<close>: a transaction is determined by its bytes,
  no serialized transaction is a prefix of another one, and nothing else can be read.
\<close>

section \<open>Writers and readers\<close>

definition ser_u256 :: "uint256 \<Rightarrow> byte list" where
  "ser_u256 w = le_bytes 32 (unat w)"

definition unser_u256 :: "uint256 reader" where
  "unser_u256 bs = (case read_uint 32 bs of None \<Rightarrow> None | Some (v, r) \<Rightarrow> Some (of_nat v, r))"

definition ser_outpoint :: "COutPoint \<Rightarrow> byte list" where
  "ser_outpoint o' = ser_u256 (out_hash o') @ ser_u32 (out_n o')"

definition unser_outpoint :: "COutPoint reader" where
  "unser_outpoint bs = do {
     (h, bs) \<leftarrow> unser_u256 bs;
     (n, bs) \<leftarrow> unser_u32 bs;
     Some (\<lparr>out_hash = h, out_n = n\<rparr>, bs) }"

definition ser_txin :: "CTxIn \<Rightarrow> byte list" where
  "ser_txin txin = ser_outpoint (prevout txin) @ ser_bytes (scriptSig txin) @ ser_u32 (nSequence txin)"

definition unser_txin :: "CTxIn reader" where
  "unser_txin bs = do {
     (p, bs) \<leftarrow> unser_outpoint bs;
     (s, bs) \<leftarrow> unser_bytes bs;
     (q, bs) \<leftarrow> unser_u32 bs;
     Some (mkTxIn p s q, bs) }"

definition ser_txout :: "CTxOut \<Rightarrow> byte list" where
  "ser_txout txout = ser_u64 (nValue txout) @ ser_bytes (scriptPubKey txout)"

definition unser_txout :: "CTxOut reader" where
  "unser_txout bs = do {
     (v, bs) \<leftarrow> unser_u64 bs;
     (s, bs) \<leftarrow> unser_bytes bs;
     Some (mkTxOut v s, bs) }"

definition ser_tx :: "CTransaction \<Rightarrow> byte list" where
  "ser_tx tx =
     ser_u32 (nVersion tx) @ ser_vector ser_txin (vin tx) @ ser_vector ser_txout (vout tx) @
     ser_u32 (nLockTime tx)"

definition unser_tx :: "CTransaction reader" where
  "unser_tx bs = do {
     (v, bs) \<leftarrow> unser_u32 bs;
     (ins, bs) \<leftarrow> unser_vector unser_txin bs;
     (outs, bs) \<leftarrow> unser_vector unser_txout bs;
     (l, bs) \<leftarrow> unser_u32 bs;
     Some (\<lparr>nVersion = v, vin = ins, vout = outs, nLockTime = l\<rparr>, bs) }"

text \<open>The values a stream can carry: lengths within the limit, memory-only fields at their defaults.\<close>

definition wf_txin :: "CTxIn \<Rightarrow> bool" where
  "wf_txin txin \<longleftrightarrow> wf_bytes (scriptSig txin) \<and> prevPubKey txin = []"

definition wf_txout :: "CTxOut \<Rightarrow> bool" where
  "wf_txout txout \<longleftrightarrow> wf_bytes (scriptPubKey txout) \<and> nRounds txout = - 10"

definition wf_tx :: "CTransaction \<Rightarrow> bool" where
  "wf_tx tx \<longleftrightarrow> wf_vector wf_txin (vin tx) \<and> wf_vector wf_txout (vout tx)"

section \<open>Each class is a codec\<close>

lemma unat_256_less: "unat (w :: uint256) < 256 ^ 32"
  using unsigned_less [where w = w] by simp

lemma codec_u256: "codec ser_u256 unser_u256 (\<lambda>_. True)"
proof
  fix w :: uint256 and r
  show "unser_u256 (ser_u256 w @ r) = Some (w, r)"
    by (simp only: unser_u256_def ser_u256_def read_uint_le_bytes mod_less [OF unat_256_less]
        option.case prod.case) simp
next
  fix bs :: "byte list" and w :: uint256 and r
  assume "unser_u256 bs = Some (w, r)"
  then obtain v where "v < 256 ^ 32" "bs = le_bytes 32 v @ r" "w = of_nat v"
    by (auto simp: unser_u256_def read_uint_Some split: option.splits)
  then show "True \<and> bs = ser_u256 w @ r"
    by (simp add: ser_u256_def unat_of_nat)
qed

interpretation u256: codec ser_u256 unser_u256 "\<lambda>_. True"
  by (rule codec_u256)

lemma codec_outpoint: "codec ser_outpoint unser_outpoint (\<lambda>_. True)"
  by unfold_locales
    (auto simp: ser_outpoint_def unser_outpoint_def u256.get_put u32.get_put u256.get_iff u32.get_iff
      bind_eq_Some_conv)

interpretation outpoint: codec ser_outpoint unser_outpoint "\<lambda>_. True"
  by (rule codec_outpoint)

lemma codec_txin: "codec ser_txin unser_txin wf_txin"
  by unfold_locales
    (auto simp: ser_txin_def unser_txin_def wf_txin_def mkTxIn_def outpoint.get_put bytes.get_put
      u32.get_put outpoint.get_iff bytes.get_iff u32.get_iff bind_eq_Some_conv)

interpretation txin: codec ser_txin unser_txin wf_txin
  by (rule codec_txin)

lemma codec_txout: "codec ser_txout unser_txout wf_txout"
  by unfold_locales
    (auto simp: ser_txout_def unser_txout_def wf_txout_def mkTxOut_def bytes.get_put u64.get_put
      bytes.get_iff u64.get_iff bind_eq_Some_conv)

interpretation txout: codec ser_txout unser_txout wf_txout
  by (rule codec_txout)

interpretation txins: codec "ser_vector ser_txin" "unser_vector unser_txin" "wf_vector wf_txin"
  by (rule txin.vector_codec)

interpretation txouts: codec "ser_vector ser_txout" "unser_vector unser_txout" "wf_vector wf_txout"
  by (rule txout.vector_codec)

lemma codec_tx: "codec ser_tx unser_tx wf_tx"
  by unfold_locales
    (auto simp: ser_tx_def unser_tx_def wf_tx_def u32.get_put txins.get_put txouts.get_put
      u32.get_iff txins.get_iff txouts.get_iff bind_eq_Some_conv)

interpretation tx: codec ser_tx unser_tx wf_tx
  by (rule codec_tx)

section \<open>Sizes\<close>

lemma length_ser_outpoint [simp]: "length (ser_outpoint o') = 36"
  by (simp add: ser_outpoint_def ser_u256_def ser_u32_def)

lemma length_ser_txin:
  "length (ser_txin txin) = 40 + GetSizeOfCompactSize (length (scriptSig txin)) + length (scriptSig txin)"
  by (simp add: ser_txin_def ser_bytes_def ser_u32_def length_WriteCompactSize)

lemma length_ser_txout:
  "length (ser_txout txout) =
     8 + GetSizeOfCompactSize (length (scriptPubKey txout)) + length (scriptPubKey txout)"
  by (simp add: ser_txout_def ser_bytes_def ser_u64_def length_WriteCompactSize)

text \<open>
  The priority size: the deduction of 41 bytes and up to 110 bytes of script never takes more
  than the inputs' own bytes.
\<close>

definition tx_CalculateModifiedSize :: "CTransaction \<Rightarrow> nat \<Rightarrow> nat" where
  "tx_CalculateModifiedSize tx nTxSize =
     modified_size_loop (vin tx) (if nTxSize = 0 then length (ser_tx tx) else nTxSize)"

lemma length_ser_vector:
  "length (ser_vector put v) = GetSizeOfCompactSize (length v) + (\<Sum>x\<leftarrow>v. length (put x))"
  by (simp add: ser_vector_def length_WriteCompactSize length_concat comp_def)

lemma modified_size_loop_le: "modified_size_loop ins n \<le> n"
proof (induction ins n rule: modified_size_loop.induct)
  case (2 txin ins n)
  then show ?case
    using "2.IH" [OF refl] by (auto simp: Let_def split: if_split_asm intro: order_trans)
qed simp

lemma modified_size_loop_exact:
  assumes "(\<Sum>txin\<leftarrow>ins. length (ser_txin txin)) < n"
  shows "modified_size_loop ins n = n - (\<Sum>txin\<leftarrow>ins. 41 + min 110 (length (scriptSig txin)))
    \<and> (\<Sum>txin\<leftarrow>ins. 41 + min 110 (length (scriptSig txin))) < n"
  using assms
proof (induction ins arbitrary: n)
  case Nil
  then show ?case by simp
next
  case (Cons txin ins)
  let ?o = "41 + min 110 (length (scriptSig txin))"
  have "?o \<le> length (ser_txin txin)"
    by (simp add: length_ser_txin GetSizeOfCompactSize_def)
  then have "?o < n" and "(\<Sum>txin\<leftarrow>ins. length (ser_txin txin)) < n - ?o"
    using Cons.prems by simp_all
  then show ?case
    using Cons.IH [of "n - ?o"] by (simp add: Let_def) linarith
qed

end
