(* ===== verification/SigHash.thy ===== *)
theory SigHash
  imports TxCodec InterpreterProps
begin

text \<open>
  Signature hashes and the checker that uses them, \<open>src/script/interpreter.cpp\<close>: the class
  \<open>CTransactionSignatureSerializer\<close>, \<open>SignatureHash\<close> and \<open>TransactionSignatureChecker\<close>, with the
  part of \<open>src/pubkey.h\<close> it relies on. The verification of an ECDSA signature is in a library
  (secp256k1 or OpenSSL) and is an argument.

  The bytes that are hashed are those of an ordinary serialization of a modified copy of the
  transaction, which is shown here for every hash type.
\<close>

section \<open>Public keys\<close>

definition GetLen :: "byte \<Rightarrow> nat" where
  "GetLen chHeader =
     (if chHeader = 2 \<or> chHeader = 3 then 33
      else if chHeader = 4 \<or> chHeader = 6 \<or> chHeader = 7 then 65
      else 0)"

text \<open>A key is given by \<open>Raw()\<close>, its bytes up to \<open>size()\<close>; the invalid key has none.\<close>

definition CPubKey :: "valtype \<Rightarrow> valtype" where
  "CPubKey vch =
     (let len = (if vch = [] then 0 else GetLen (hd vch)) in
      if len \<noteq> 0 \<and> len = length vch then vch else [])"

definition CPubKey_IsValid :: "valtype \<Rightarrow> bool" where
  "CPubKey_IsValid key \<longleftrightarrow> 0 < length key"

section \<open>The serializer\<close>

record sig_serializer =
  ss_txTo :: CTransaction
  ss_scriptCode :: "byte list"
  ss_nIn :: nat
  ss_fAnyoneCanPay :: bool
  ss_fHashSingle :: bool
  ss_fHashNone :: bool

definition mkSerializer :: "CTransaction \<Rightarrow> byte list \<Rightarrow> nat \<Rightarrow> 32 word \<Rightarrow> sig_serializer" where
  "mkSerializer txToIn scriptCodeIn nInIn nHashTypeIn =
     \<lparr>ss_txTo = txToIn, ss_scriptCode = scriptCodeIn, ss_nIn = nInIn,
      ss_fAnyoneCanPay = (nHashTypeIn AND SIGHASH_ANYONECANPAY \<noteq> 0),
      ss_fHashSingle = (nHashTypeIn AND 0x1f = SIGHASH_SINGLE),
      ss_fHashNone = (nHashTypeIn AND 0x1f = SIGHASH_NONE)\<rparr>"

text \<open>The first loop counts the separators up to the first instruction that cannot be read.\<close>

function count_separators :: "byte list \<Rightarrow> nat" where
  "count_separators it =
     (case GetOp it of
        None \<Rightarrow> 0
      | Some (opcode, _, it') \<Rightarrow> (if opcode = OP_CODESEPARATOR then 1 else 0) + count_separators it')"
  by pat_completeness auto
termination
  by (relation "measure length") (auto dest: GetOp_shrinks)

declare count_separators.simps [simp del]

text \<open>
  The second loop writes the bytes between separators: \<open>pending\<close> are those from \<open>itBegin\<close> to
  \<open>it\<close>. A failed read leaves the iterator where it stopped, and the rest is not written.
\<close>

function write_segments :: "byte list \<Rightarrow> byte list \<Rightarrow> byte list" where
  "write_segments pending it =
     (case GetOp2 it of
        (ok, opcode, _, it') \<Rightarrow>
          let seg = pending @ take (length it - length it') it in
          if ok \<and> it \<noteq> [] then
            (if opcode = OP_CODESEPARATOR then butlast seg @ write_segments [] it'
             else write_segments seg it')
          else if pending @ it \<noteq> [] then seg else [])"
  by pat_completeness auto
termination
  by (relation "measure (length \<circ> snd)") (auto, (metis GetOp2_shrinks)+)

declare write_segments.simps [simp del]

definition SerializeScriptCode :: "byte list \<Rightarrow> byte list" where
  "SerializeScriptCode code =
     WriteCompactSize (length code - count_separators code) @ write_segments [] code"

definition SerializeInput :: "sig_serializer \<Rightarrow> nat \<Rightarrow> byte list" where
  "SerializeInput ss nInput' =
     (let nInput = (if ss_fAnyoneCanPay ss then ss_nIn ss else nInput');
          txin = vin (ss_txTo ss) ! nInput in
      ser_outpoint (prevout txin) @
      (if nInput \<noteq> ss_nIn ss then ser_bytes [] else SerializeScriptCode (ss_scriptCode ss)) @
      (if nInput \<noteq> ss_nIn ss \<and> (ss_fHashSingle ss \<or> ss_fHashNone ss) then ser_u32 0
       else ser_u32 (nSequence txin)))"

definition SerializeOutput :: "sig_serializer \<Rightarrow> nat \<Rightarrow> byte list" where
  "SerializeOutput ss nOutput =
     (if ss_fHashSingle ss \<and> nOutput \<noteq> ss_nIn ss then ser_txout CTxOut_SetNull
      else ser_txout (vout (ss_txTo ss) ! nOutput))"

definition SerializeSig :: "sig_serializer \<Rightarrow> byte list" where
  "SerializeSig ss =
     (let tx = ss_txTo ss;
          nInputs = (if ss_fAnyoneCanPay ss then 1 else length (vin tx));
          nOutputs = (if ss_fHashNone ss then 0
                      else if ss_fHashSingle ss then ss_nIn ss + 1 else length (vout tx)) in
      ser_u32 (nVersion tx) @
      WriteCompactSize nInputs @ concat (map (SerializeInput ss) [0..<nInputs]) @
      WriteCompactSize nOutputs @ concat (map (SerializeOutput ss) [0..<nOutputs]) @
      ser_u32 (nLockTime tx))"

definition uint256_of_bytes :: "byte list \<Rightarrow> uint256" where
  "uint256_of_bytes bs = of_nat (le_val bs)"

definition sighash_preimage :: "byte list \<Rightarrow> CTransaction \<Rightarrow> nat \<Rightarrow> 32 word \<Rightarrow> byte list" where
  "sighash_preimage code txTo nIn nHashType =
     SerializeSig (mkSerializer txTo code nIn nHashType) @ ser_u32 nHashType"

definition SignatureHash ::
  "hash_funs \<Rightarrow> byte list \<Rightarrow> CTransaction \<Rightarrow> nat \<Rightarrow> 32 word \<Rightarrow> uint256" where
  "SignatureHash H code txTo nIn nHashType =
     (if length (vin txTo) \<le> nIn then 1
      else if nHashType AND 0x1f = SIGHASH_SINGLE \<and> length (vout txTo) \<le> nIn then 1
      else uint256_of_bytes (CHash256 H (sighash_preimage code txTo nIn nHashType)))"

section \<open>The checker\<close>

definition LOCKTIME_THRESHOLD :: int where
  "LOCKTIME_THRESHOLD = 500000000"

text \<open>
  \<open>verify key hash sig\<close> is \<open>CPubKey::Verify\<close> on a syntactically valid key. The checker compares
  the lock time as numbers: a \<open>CScriptNum\<close> is signed, the transaction's field is not.
\<close>

definition tx_CheckSig ::
  "hash_funs \<Rightarrow> (valtype \<Rightarrow> uint256 \<Rightarrow> valtype \<Rightarrow> bool) \<Rightarrow> CTransaction \<Rightarrow> nat \<Rightarrow>
   valtype \<Rightarrow> valtype \<Rightarrow> byte list \<Rightarrow> bool" where
  "tx_CheckSig H verify txTo nIn vchSigIn vchPubKey code =
     (let pubkey = CPubKey vchPubKey in
      if \<not> CPubKey_IsValid pubkey then False
      else if vchSigIn = [] then False
      else
        let nHashType = ucast (last vchSigIn);
            vchSig = butlast vchSigIn;
            sighash = SignatureHash H code txTo nIn nHashType
        in verify pubkey sighash vchSig)"

definition tx_CheckLockTime :: "CTransaction \<Rightarrow> nat \<Rightarrow> int64 \<Rightarrow> bool" where
  "tx_CheckLockTime txTo nIn lockTime =
     (let txLock = uint (nLockTime txTo); arg = sint lockTime in
      if \<not> (txLock < LOCKTIME_THRESHOLD \<and> arg < LOCKTIME_THRESHOLD \<or>
            LOCKTIME_THRESHOLD \<le> txLock \<and> LOCKTIME_THRESHOLD \<le> arg) then False
      else if txLock < arg then False
      else if SEQUENCE_FINAL = nSequence (vin txTo ! nIn) then False
      else True)"

definition TransactionSignatureChecker ::
  "hash_funs \<Rightarrow> (valtype \<Rightarrow> uint256 \<Rightarrow> valtype \<Rightarrow> bool) \<Rightarrow> CTransaction \<Rightarrow> nat \<Rightarrow> sig_checker" where
  "TransactionSignatureChecker H verify txTo nIn =
     \<lparr>CheckSig = tx_CheckSig H verify txTo nIn, CheckLockTime = tx_CheckLockTime txTo nIn\<rparr>"

section \<open>Code separators\<close>

definition separator :: "byte list" where
  "separator = [of_nat OP_CODESEPARATOR]"

lemma GetOp2_Some: "GetOp it = Some (opc, v, it') \<longleftrightarrow> GetOp2 it = (True, opc, v, it')"
  by (auto simp: GetOp_def split: prod.splits if_splits)

lemma instruction_is_separator:
  assumes "\<And>r. GetOp (c @ r) = Some (opc, v, r)" and "c \<noteq> []"
  shows "opc = OP_CODESEPARATOR \<longleftrightarrow> c = separator"
proof -
  have get: "GetOp (c @ []) = Some (opc, v, [])"
    using assms(1) .
  have "c = separator" if "opc = OP_CODESEPARATOR"
  proof -
    obtain b bs where c: "c = b # bs"
      using assms(2) by (cases c) auto
    have b: "unat b = OP_CODESEPARATOR"
      using get that unfolding c
      by (auto simp: GetOp_def getop_data_def getop_sized_def Let_def split: if_splits)
    then have "bs = []"
      using get unfolding c by (auto simp: GetOp_def Let_def)
    moreover have "b = of_nat OP_CODESEPARATOR"
      using b by (metis byte_of_nat_unat)
    ultimately show ?thesis
      by (simp add: c separator_def)
  qed
  moreover have "opc = OP_CODESEPARATOR" if "c = separator"
    using get that by (simp add: separator_def GetOp_def)
  ultimately show ?thesis by blast
qed

lemma count_separators_chunks:
  "count_separators code = length (filter (\<lambda>c. c = separator) (script_chunks code))"
proof (induction code rule: script_induct)
  case (stop pc)
  then show ?case
    by (simp add: count_separators.simps [of pc] script_chunks_None)
next
  case (instr c opc v pc)
  then show ?case
    using instruction_is_separator [OF instr(2,1)]
    by (simp add: count_separators.simps [of "c @ pc"] script_chunks_Some [OF instr(2)])
qed

text \<open>
  A script code may end in bytes that are no instruction, a push that announces more data than follow. The
  failed read of that tail goes over its opcode and, where they are there, its size bytes: these are
  written, the rest is not.
\<close>

definition read_tail :: "byte list \<Rightarrow> byte list" where
  "read_tail code = (let t = script_tail code in take (length t - length (snd (snd (snd (GetOp2 t))))) t)"

definition unread_tail :: "byte list \<Rightarrow> byte list" where
  "unread_tail code = drop (length (read_tail code)) (script_tail code)"

lemma read_unread_tail: "read_tail code @ unread_tail code = script_tail code"
proof -
  have "read_tail code = take (length (read_tail code)) (script_tail code)"
    by (simp add: read_tail_def Let_def)
  then show ?thesis
    unfolding unread_tail_def by (metis append_take_drop_id)
qed

lemma decodable_unread: "script_tail code = [] \<Longrightarrow> unread_tail code = []"
  by (simp add: unread_tail_def)

lemma write_segments_chunks:
  "write_segments pending code =
    pending @ concat (filter (\<lambda>c. c \<noteq> separator) (script_chunks code)) @ read_tail code"
proof (induction code arbitrary: pending rule: script_induct)
  case (stop pc)
  obtain ok opc v it' where get: "GetOp2 pc = (ok, opc, v, it')"
    by (rule prod_cases4)
  then have "\<not> ok"
    using stop by (simp add: GetOp_def split: if_splits)
  then show ?case
    using stop by (simp add: write_segments.simps [of _ pc] get script_chunks_None script_tail_None read_tail_def Let_def)
next
  case (instr c opc v pc)
  have get: "GetOp2 (c @ pc) = (True, opc, v, pc)"
    using instr(2) [of pc] by (simp add: GetOp2_Some)
  have "read_tail (c @ pc) = read_tail pc"
    by (simp add: read_tail_def script_tail_Some [OF instr(2)])
  then show ?case
    using instr.IH [of "pending @ c"] instr.IH [of "[]"] instr(1)
      instruction_is_separator [OF instr(2,1)]
    by (simp add: write_segments.simps [of pending "c @ pc"] get Let_def
        script_chunks_Some [OF instr(2)] separator_def)
qed

text \<open>The script code without its separators; a tail that cannot be read stays.\<close>

definition strip_separators :: "byte list \<Rightarrow> byte list" where
  "strip_separators code = concat (filter (\<lambda>c. c \<noteq> separator) (script_chunks code)) @ script_tail code"

lemma length_strip_separators: "length code = length (strip_separators code) + count_separators code"
proof -
  have "length (concat cs) =
      length (concat (filter (\<lambda>c. c \<noteq> separator) cs)) + length (filter (\<lambda>c. c = separator) cs)" for cs
    by (induction cs) (auto simp: separator_def)
  from this [of "script_chunks code"] show ?thesis
    using arg_cong [OF script_chunks_concat [of code], of length]
    unfolding strip_separators_def count_separators_chunks by simp
qed

text \<open>The announced length is that of the whole code without separators, what follows lacks the unread bytes.\<close>

lemma SerializeScriptCode_unread: "SerializeScriptCode code @ unread_tail code = ser_bytes (strip_separators code)"
  using length_strip_separators [of code] read_unread_tail [of code]
  by (simp add: SerializeScriptCode_def ser_bytes_def write_segments_chunks strip_separators_def)

lemma SerializeScriptCode_bytes:
  "unread_tail code = [] \<Longrightarrow> SerializeScriptCode code = ser_bytes (strip_separators code)"
  using SerializeScriptCode_unread [of code] by simp

section \<open>What is hashed\<close>

text \<open>
  The reference: copy the transaction, blank the scripts of the other inputs and put the script
  code in the signed one; for \<open>SIGHASH_NONE\<close> drop the outputs, for \<open>SIGHASH_SINGLE\<close> keep those
  up to the index of the input with the earlier ones null; in both cases let the other inputs'
  sequence numbers go; for \<open>SIGHASH_ANYONECANPAY\<close> keep the signed input only.
\<close>

definition sighash_input :: "byte list \<Rightarrow> nat \<Rightarrow> 32 word \<Rightarrow> nat \<Rightarrow> CTxIn \<Rightarrow> CTxIn" where
  "sighash_input code nIn ht i txin =
     txin\<lparr>scriptSig := (if i = nIn then strip_separators code else []),
          nSequence := (if i \<noteq> nIn \<and> ht AND 0x1f \<in> {SIGHASH_NONE, SIGHASH_SINGLE} then 0
                        else nSequence txin)\<rparr>"

definition sighash_tx :: "byte list \<Rightarrow> CTransaction \<Rightarrow> nat \<Rightarrow> 32 word \<Rightarrow> CTransaction" where
  "sighash_tx code tx nIn ht =
     tx\<lparr>vin := (if ht AND SIGHASH_ANYONECANPAY \<noteq> 0 then [sighash_input code nIn ht nIn (vin tx ! nIn)]
               else map (\<lambda>i. sighash_input code nIn ht i (vin tx ! i)) [0..<length (vin tx)]),
        vout := (if ht AND 0x1f = SIGHASH_NONE then []
                 else if ht AND 0x1f = SIGHASH_SINGLE then replicate nIn CTxOut_SetNull @ [vout tx ! nIn]
                 else vout tx)\<rparr>"

lemma mkSerializer_simps [simp]:
  "ss_txTo (mkSerializer tx code nIn ht) = tx"
  "ss_scriptCode (mkSerializer tx code nIn ht) = code"
  "ss_nIn (mkSerializer tx code nIn ht) = nIn"
  "ss_fAnyoneCanPay (mkSerializer tx code nIn ht) \<longleftrightarrow> ht AND SIGHASH_ANYONECANPAY \<noteq> 0"
  "ss_fHashSingle (mkSerializer tx code nIn ht) \<longleftrightarrow> ht AND 0x1f = SIGHASH_SINGLE"
  "ss_fHashNone (mkSerializer tx code nIn ht) \<longleftrightarrow> ht AND 0x1f = SIGHASH_NONE"
  by (simp_all add: mkSerializer_def)

lemma SerializeInput_reference:
  assumes "unread_tail code = []" and "ht AND SIGHASH_ANYONECANPAY = 0"
  shows "SerializeInput (mkSerializer tx code nIn ht) =
    (\<lambda>i. ser_txin (sighash_input code nIn ht i (vin tx ! i)))"
  using assms
  by (intro ext) (simp add: SerializeInput_def ser_txin_def sighash_input_def Let_def
      SerializeScriptCode_bytes disj_commute)

lemma SerializeInput_reference_acp:
  assumes "unread_tail code = []" and "ht AND SIGHASH_ANYONECANPAY \<noteq> 0"
  shows "SerializeInput (mkSerializer tx code nIn ht) 0 = ser_txin (sighash_input code nIn ht nIn (vin tx ! nIn))"
  using assms
  by (simp add: SerializeInput_def ser_txin_def sighash_input_def Let_def
      SerializeScriptCode_bytes)

lemma SerializeOutput_single:
  assumes "ht AND 0x1f = SIGHASH_SINGLE"
  shows "concat (map (SerializeOutput (mkSerializer tx code nIn ht)) [0..<Suc nIn]) =
    concat (map ser_txout (replicate nIn CTxOut_SetNull @ [vout tx ! nIn]))"
proof -
  have "map (SerializeOutput (mkSerializer tx code nIn ht)) [0..<nIn] =
      map (\<lambda>_. ser_txout CTxOut_SetNull) [0..<nIn]"
    using assms by (intro map_cong) (simp_all add: SerializeOutput_def)
  then have "map (SerializeOutput (mkSerializer tx code nIn ht)) [0..<nIn] =
      replicate nIn (ser_txout CTxOut_SetNull)"
    by (simp add: map_replicate_const)
  moreover have "SerializeOutput (mkSerializer tx code nIn ht) nIn = ser_txout (vout tx ! nIn)"
    by (simp add: SerializeOutput_def)
  ultimately show ?thesis by simp
qed

lemma SerializeOutput_all:
  assumes "ht AND 0x1f \<noteq> SIGHASH_SINGLE"
  shows "concat (map (SerializeOutput (mkSerializer tx code nIn ht)) [0..<length (vout tx)]) =
    concat (map ser_txout (vout tx))"
proof -
  have "map (SerializeOutput (mkSerializer tx code nIn ht)) [0..<length (vout tx)] =
      map ser_txout (map ((!) (vout tx)) [0..<length (vout tx)])"
    using assms by (simp add: SerializeOutput_def)
  then show ?thesis
    by (simp add: map_nth)
qed

lemma SerializeSig_reference:
  assumes code: "unread_tail code = []"
  shows "SerializeSig (mkSerializer tx code nIn ht) = ser_tx (sighash_tx code tx nIn ht)"
proof -
  let ?ss = "mkSerializer tx code nIn ht"
  have ins: "WriteCompactSize (if ss_fAnyoneCanPay ?ss then 1 else length (vin tx)) @
      concat (map (SerializeInput ?ss) [0..<if ss_fAnyoneCanPay ?ss then 1 else length (vin tx)]) =
      ser_vector ser_txin (vin (sighash_tx code tx nIn ht))"
    using SerializeInput_reference [OF code, of ht tx nIn] SerializeInput_reference_acp [OF code, of ht tx nIn]
    by (simp add: ser_vector_def sighash_tx_def comp_def)
  have outs: "WriteCompactSize (if ss_fHashNone ?ss then 0 else if ss_fHashSingle ?ss then nIn + 1 else length (vout tx)) @
      concat (map (SerializeOutput ?ss)
        [0..<if ss_fHashNone ?ss then 0 else if ss_fHashSingle ?ss then nIn + 1 else length (vout tx)]) =
      ser_vector ser_txout (vout (sighash_tx code tx nIn ht))"
    using SerializeOutput_single [of ht tx code nIn] SerializeOutput_all [of ht tx code nIn]
    by (auto simp: ser_vector_def sighash_tx_def simp del: upt_Suc)
  show ?thesis
    using arg_cong2 [OF ins outs, of "\<lambda>a b. ser_u32 (nVersion tx) @ a @ b @ ser_u32 (nLockTime tx)"]
    by (simp only: SerializeSig_def Let_def ser_tx_def append_assoc mkSerializer_simps(1,3))
      (simp add: sighash_tx_def)
qed

text \<open>Without the assumption on the code: the two differ by the unread bytes of its tail.\<close>

lemma SerializeInput_other:
  assumes "ht AND SIGHASH_ANYONECANPAY = 0" and "i \<noteq> nIn"
  shows "SerializeInput (mkSerializer tx code nIn ht) i = ser_txin (sighash_input code nIn ht i (vin tx ! i))"
  using assms by (simp add: SerializeInput_def ser_txin_def sighash_input_def Let_def disj_commute)

lemma SerializeInput_signed:
  assumes "ht AND SIGHASH_ANYONECANPAY = 0 \<Longrightarrow> i = nIn"
  shows "SerializeInput (mkSerializer tx code nIn ht) i =
      ser_outpoint (prevout (vin tx ! nIn)) @ SerializeScriptCode code @ ser_u32 (nSequence (vin tx ! nIn))"
    and "ser_txin (sighash_input code nIn ht nIn (vin tx ! nIn)) =
      ser_outpoint (prevout (vin tx ! nIn)) @ ser_bytes (strip_separators code) @ ser_u32 (nSequence (vin tx ! nIn))"
  using assms by (auto simp: SerializeInput_def ser_txin_def sighash_input_def Let_def)

lemma SerializeSig_unread:
  assumes "nIn < length (vin tx)"
  shows "\<exists>a z. SerializeSig (mkSerializer tx code nIn ht) = a @ SerializeScriptCode code @ z \<and>
    ser_tx (sighash_tx code tx nIn ht) = a @ ser_bytes (strip_separators code) @ z"
proof -
  let ?ss = "mkSerializer tx code nIn ht" and ?n = "length (vin tx)"
  let ?ref = "\<lambda>i. ser_txin (sighash_input code nIn ht i (vin tx ! i))"
  have ins: "\<exists>a z. WriteCompactSize (if ss_fAnyoneCanPay ?ss then 1 else ?n) @
      concat (map (SerializeInput ?ss) [0..<if ss_fAnyoneCanPay ?ss then 1 else ?n]) = a @ SerializeScriptCode code @ z \<and>
      ser_vector ser_txin (vin (sighash_tx code tx nIn ht)) = a @ ser_bytes (strip_separators code) @ z"
  proof (cases "ht AND SIGHASH_ANYONECANPAY = 0")
    case True
    have split: "[0..<?n] = [0..<nIn] @ nIn # [Suc nIn..<?n]"
      using assms by (metis less_imp_le_nat upt_add_eq_append le_Suc_ex upt_conv_Cons le0 add_0)
    have concat: "concat (map f [0..<?n]) = concat (map f [0..<nIn]) @ f nIn @ concat (map f [Suc nIn..<?n])" for f :: "nat \<Rightarrow> byte list"
      by (subst split) simp
    have same: "map (SerializeInput ?ss) [0..<nIn] = map ?ref [0..<nIn]" "map (SerializeInput ?ss) [Suc nIn..<?n] = map ?ref [Suc nIn..<?n]"
      using SerializeInput_other [OF True] by (auto intro!: map_cong)
    let ?a = "WriteCompactSize ?n @ concat (map ?ref [0..<nIn]) @ ser_outpoint (prevout (vin tx ! nIn))"
    let ?z = "ser_u32 (nSequence (vin tx ! nIn)) @ concat (map ?ref [Suc nIn..<?n])"
    have "ser_vector ser_txin (vin (sighash_tx code tx nIn ht)) = WriteCompactSize ?n @ concat (map ?ref [0..<?n])"
      using True by (simp add: ser_vector_def sighash_tx_def comp_def)
    then have "ser_vector ser_txin (vin (sighash_tx code tx nIn ht)) = ?a @ ser_bytes (strip_separators code) @ ?z"
      unfolding concat SerializeInput_signed(2) [OF refl] by simp
    moreover have "WriteCompactSize ?n @ concat (map (SerializeInput ?ss) [0..<?n]) = ?a @ SerializeScriptCode code @ ?z"
      unfolding concat same SerializeInput_signed(1) [where i = nIn, OF refl] by simp
    moreover have n: "(if ss_fAnyoneCanPay ?ss then 1 else ?n) = ?n"
      using True by simp
    ultimately show ?thesis
      unfolding n by blast
  next
    case False
    let ?a = "WriteCompactSize 1 @ ser_outpoint (prevout (vin tx ! nIn))" and ?z = "ser_u32 (nSequence (vin tx ! nIn))"
    have "SerializeInput ?ss 0 = ser_outpoint (prevout (vin tx ! nIn)) @ SerializeScriptCode code @ ?z"
      using False by (intro SerializeInput_signed(1)) simp
    then have "WriteCompactSize (if ss_fAnyoneCanPay ?ss then 1 else ?n) @
        concat (map (SerializeInput ?ss) [0..<if ss_fAnyoneCanPay ?ss then 1 else ?n]) = ?a @ SerializeScriptCode code @ ?z"
      using False by simp
    moreover have "ser_vector ser_txin (vin (sighash_tx code tx nIn ht)) = ?a @ ser_bytes (strip_separators code) @ ?z"
      using False SerializeInput_signed(2) [where nIn = nIn and tx = tx and code = code and ht = ht, OF refl] by (simp add: ser_vector_def sighash_tx_def)
    ultimately show ?thesis
      by blast
  qed
  then obtain a z where az: "WriteCompactSize (if ss_fAnyoneCanPay ?ss then 1 else ?n) @
      concat (map (SerializeInput ?ss) [0..<if ss_fAnyoneCanPay ?ss then 1 else ?n]) = a @ SerializeScriptCode code @ z"
      "ser_vector ser_txin (vin (sighash_tx code tx nIn ht)) = a @ ser_bytes (strip_separators code) @ z"
    by blast
  have outs: "WriteCompactSize (if ss_fHashNone ?ss then 0 else if ss_fHashSingle ?ss then nIn + 1 else length (vout tx)) @
      concat (map (SerializeOutput ?ss)
        [0..<if ss_fHashNone ?ss then 0 else if ss_fHashSingle ?ss then nIn + 1 else length (vout tx)]) =
      ser_vector ser_txout (vout (sighash_tx code tx nIn ht))"
    using SerializeOutput_single [of ht tx code nIn] SerializeOutput_all [of ht tx code nIn]
    by (auto simp: ser_vector_def sighash_tx_def simp del: upt_Suc)
  let ?outs = "ser_vector ser_txout (vout (sighash_tx code tx nIn ht))"
  have "SerializeSig ?ss = ser_u32 (nVersion tx) @ (a @ SerializeScriptCode code @ z) @ ?outs @ ser_u32 (nLockTime tx)"
    using arg_cong2 [OF az(1) outs, of "\<lambda>a b. ser_u32 (nVersion tx) @ a @ b @ ser_u32 (nLockTime tx)"]
    by (simp only: SerializeSig_def Let_def append_assoc mkSerializer_simps(1,3))
  moreover have "ser_tx (sighash_tx code tx nIn ht) =
      ser_u32 (nVersion tx) @ (a @ ser_bytes (strip_separators code) @ z) @ ?outs @ ser_u32 (nLockTime tx)"
    unfolding az(2) [symmetric] by (simp add: ser_tx_def sighash_tx_def)
  ultimately have "SerializeSig ?ss = (ser_u32 (nVersion tx) @ a) @ SerializeScriptCode code @ z @ ?outs @ ser_u32 (nLockTime tx)"
    "ser_tx (sighash_tx code tx nIn ht) = (ser_u32 (nVersion tx) @ a) @ ser_bytes (strip_separators code) @ z @ ?outs @ ser_u32 (nLockTime tx)"
    by simp_all
  then show ?thesis
    by blast
qed

section \<open>What a signature commits to\<close>

text \<open>A transaction without the scripts of its inputs.\<close>

definition unsigned_part :: "CTransaction \<Rightarrow> CTransaction" where
  "unsigned_part tx = tx\<lparr>vin := map (\<lambda>txin. txin\<lparr>scriptSig := []\<rparr>) (vin tx)\<rparr>"

lemma sighash_input_simps [simp]:
  "prevPubKey (sighash_input code nIn ht i txin) = prevPubKey txin"
  "prevout (sighash_input code nIn ht i txin) = prevout txin"
  "scriptSig (sighash_input code nIn ht i txin) = (if i = nIn then strip_separators code else [])"
  by (simp_all add: sighash_input_def)

lemma wf_bytes_Nil [simp]: "wf_bytes []"
  by (simp add: wf_bytes_def MAX_SIZE_def)

lemma wf_sighash_tx:
  assumes "wf_tx tx" and "wf_bytes (strip_separators code)" and "nIn < length (vin tx)"
    and "ht AND 0x1f \<noteq> SIGHASH_SINGLE"
  shows "wf_tx (sighash_tx code tx nIn ht)"
  using assms nth_mem [OF assms(3)]
  by (auto simp: wf_tx_def wf_vector_def sighash_tx_def list_all_iff wf_txin_def MAX_SIZE_def)

lemma sighash_preimage_inj:
  assumes "wf_tx tx" "wf_tx tx'" and "unread_tail code = []" "unread_tail code' = []"
    and "wf_bytes (strip_separators code)" "wf_bytes (strip_separators code')"
    and "nIn < length (vin tx)" "nIn' < length (vin tx')"
    and "ht AND 0x1f \<noteq> SIGHASH_SINGLE" "ht' AND 0x1f \<noteq> SIGHASH_SINGLE"
    and eq: "sighash_preimage code tx nIn ht = sighash_preimage code' tx' nIn' ht'"
  shows "sighash_tx code tx nIn ht = sighash_tx code' tx' nIn' ht' \<and> ht = ht'"
proof -
  have "sighash_tx code tx nIn ht = sighash_tx code' tx' nIn' ht' \<and> ser_u32 ht = ser_u32 ht'"
    using eq assms wf_sighash_tx [of tx code nIn ht] wf_sighash_tx [of tx' code' nIn' ht']
    unfolding sighash_preimage_def SerializeSig_reference [OF assms(3)] SerializeSig_reference [OF assms(4)]
    by (intro tx.put_prefix_free) simp_all
  then show ?thesis
    using u32.put_inj [of ht ht'] by simp
qed

lemma sighash_tx_all:
  assumes "ht AND 0x1f \<notin> {SIGHASH_NONE, SIGHASH_SINGLE}" and "ht AND SIGHASH_ANYONECANPAY = 0"
    and eq: "sighash_tx code tx nIn ht = sighash_tx code' tx' nIn' ht"
    and "nIn < length (vin tx)" and "strip_separators code \<noteq> []"
  shows "unsigned_part tx = unsigned_part tx'" and "nIn = nIn'"
    and "strip_separators code = strip_separators code'"
proof -
  have ins: "map (\<lambda>i. sighash_input code nIn ht i (vin tx ! i)) [0..<length (vin tx)] =
      map (\<lambda>i. sighash_input code' nIn' ht i (vin tx' ! i)) [0..<length (vin tx')]"
    using assms(2) arg_cong [OF eq, of vin] by (simp add: sighash_tx_def)
  have rest: "nVersion tx = nVersion tx'" "nLockTime tx = nLockTime tx'" "vout tx = vout tx'"
    using assms(1) arg_cong [OF eq, of nVersion] arg_cong [OF eq, of nLockTime] arg_cong [OF eq, of vout]
    by (simp_all add: sighash_tx_def)
  have len: "length (vin tx) = length (vin tx')"
    using arg_cong [OF ins, of length] by simp
  have each: "sighash_input code nIn ht i (vin tx ! i) = sighash_input code' nIn' ht i (vin tx' ! i)"
    if "i < length (vin tx)" for i
    using arg_cong [OF ins, of "\<lambda>xs. xs ! i"] that len by simp
  have "(vin tx ! i)\<lparr>scriptSig := []\<rparr> = (vin tx' ! i)\<lparr>scriptSig := []\<rparr>" if "i < length (vin tx)" for i
    using arg_cong [OF each [OF that], of "\<lambda>x. x\<lparr>scriptSig := []\<rparr>"] assms(1)
    by (simp add: sighash_input_def)
  then have "map (\<lambda>txin. txin\<lparr>scriptSig := []\<rparr>) (vin tx) = map (\<lambda>txin. txin\<lparr>scriptSig := []\<rparr>) (vin tx')"
    using len by (intro nth_equalityI) simp_all
  then show "unsigned_part tx = unsigned_part tx'"
    using rest by (simp add: unsigned_part_def)
  have "(if nIn = nIn' then strip_separators code' else []) = strip_separators code"
    using arg_cong [OF each [OF assms(4)], of scriptSig] by (simp split: if_splits)
  then show "nIn = nIn'" "strip_separators code = strip_separators code'"
    using assms(5) by (auto split: if_splits)
qed

section \<open>Lock times\<close>

lemma tx_CheckLockTime_iff:
  "tx_CheckLockTime tx nIn lockTime \<longleftrightarrow>
     (uint (nLockTime tx) < LOCKTIME_THRESHOLD \<longleftrightarrow> sint lockTime < LOCKTIME_THRESHOLD) \<and>
     sint lockTime \<le> uint (nLockTime tx) \<and> nSequence (vin tx ! nIn) \<noteq> SEQUENCE_FINAL"
  by (auto simp: tx_CheckLockTime_def Let_def)

end
