(* ===== verification/ScriptSpec.thy ===== *)
theory ScriptSpec
  imports SigOps Multisig SigHash
begin

text \<open>
  The properties of the script engine: what the standard templates verify, the limits every
  reachable state of the interpreter keeps, how signatures are encoded, counted and hashed.
  Each follows from the lemmas of the component theories; the witnesses run it on a concrete
  environment.
\<close>

section \<open>A concrete environment for the witnesses\<close>

definition sample_hash :: hash_funs where
  "sample_hash =
     \<lparr>CRIPEMD160 = (\<lambda>x. replicate 20 7), CSHA1 = (\<lambda>x. replicate 20 1), CSHA256 = (\<lambda>x. replicate 32 2)\<rparr>"

definition sample_env :: eval_env where
  "sample_env =
     \<lparr>env_flags = SCRIPT_VERIFY_P2SH,
      env_checker = \<lparr>CheckSig = (\<lambda>s k c. s = k), CheckLockTime = (\<lambda>n. True)\<rparr>,
      env_hash = sample_hash\<rparr>"

lemma hash_sizes_sample: "hash_sizes sample_hash"
  by (simp add: hash_sizes_def sample_hash_def)

lemma sample_env_simps [simp]:
  "env_flags sample_env = SCRIPT_VERIFY_P2SH"
  "env_hash sample_env = sample_hash"
  "CheckSig (env_checker sample_env) s k c \<longleftrightarrow> s = k"
  by (simp_all add: sample_env_def)

lemma push_ok_sample: "push_ok sample_env d \<longleftrightarrow> length d \<le> 520"
  by (simp add: push_ok_def fRequireMinimal_def has_flag_def MAX_SCRIPT_ELEMENT_SIZE_def)

lemma neq_replicate: "length x \<noteq> n \<Longrightarrow> x \<noteq> replicate n y"
  by auto

section \<open>Templates\<close>

text \<open>C3: A pay-to-pubkey-hash output is spent by a signature and a key exactly when the key hashes to
  the output's hash, both encodings pass the flags, and the checker accepts the signature for the
  key over the whole output script. The premise \<open>sig \<noteq> h\<close> excludes a signature equal to the
  20-byte hash itself, which \<open>FindAndDelete\<close> would remove from the script code.\<close>

theorem p2pkh_spend_iff:
  assumes "length h = 20" and "sig \<noteq> h" and "push_ok env sig" and "push_ok env pubkey"
  shows "VerifyScript env (script_push sig @ script_push pubkey) (p2pkh_script h) = Inr () \<longleftrightarrow>
    CHash160 (env_hash env) pubkey = h \<and>
    CheckSignatureEncoding sig (env_flags env) = Inr () \<and>
    CheckPubKeyEncoding pubkey (env_flags env) = Inr () \<and>
    CheckSig (env_checker env) sig pubkey (p2pkh_script h)"
  using assms by (rule VerifyScript_p2pkh_iff)

theorem p2pkh_spend_iff_witness:
  "VerifyScript sample_env (script_push [5] @ script_push [5]) (p2pkh_script (replicate 20 7)) = Inr ()"
  by (subst p2pkh_spend_iff)
    (simp_all add: push_ok_sample CHash160_def sample_hash_def CheckSignatureEncoding_def
      CheckPubKeyEncoding_def has_flag_def neq_replicate)

text \<open>C4: A pay-to-script-hash output is spent exactly when the unlocking script only pushes, its last
  push is a script with the output's hash, and that script, run on the other pushes, ends with a
  true value on top.\<close>

theorem p2sh_spend_iff:
  assumes "length h = 20" and "has_flag (env_flags env) SCRIPT_VERIFY_P2SH"
  shows "VerifyScript env unlock (p2sh_script h) = Inr () \<longleftrightarrow>
    IsPushOnly unlock \<and>
    (\<exists>redeem rest t. EvalScript env [] unlock = Inr (redeem # rest) \<and> length rest \<le> 998 \<and>
       CHash160 (env_hash env) redeem = h \<and>
       EvalScript env rest redeem = Inr t \<and> check_top t = Inr ())"
  using assms by (rule VerifyScript_p2sh_iff)

theorem p2sh_spend_iff_witness:
  "VerifyScript sample_env [0x01, 0x51] (p2sh_script (replicate 20 7)) = Inr () \<longleftrightarrow>
    IsPushOnly [0x01, 0x51] \<and>
    (\<exists>redeem rest t. EvalScript sample_env [] [0x01, 0x51] = Inr (redeem # rest) \<and> length rest \<le> 998 \<and>
       CHash160 sample_hash redeem = replicate 20 7 \<and>
       EvalScript sample_env rest redeem = Inr t \<and> check_top t = Inr ())"
  using p2sh_spend_iff [of "replicate 20 7" sample_env "[0x01, 0x51]"] by (simp add: has_flag_def)

text \<open>C5: On a stack holding \<open>n\<close> keys and \<open>m\<close> signatures with sound encodings and an empty extra
  element, \<open>OP_CHECKMULTISIG\<close> consumes all its arguments, charges \<open>n\<close> operations and pushes true
  exactly when the signatures can be assigned, in order, to distinct keys that accept them.\<close>

theorem checkmultisig_matching:
  assumes "stack st = multisig_stack keys sigs [] rest"
    and "length keys \<le> 20" and "length sigs \<le> length keys" and "nOpCount st + length keys \<le> 201"
    and "\<And>s. s \<in> set sigs \<Longrightarrow> CheckSignatureEncoding s (env_flags env) = Inr ()"
    and "\<And>k. k \<in> set keys \<Longrightarrow> CheckPubKeyEncoding k (env_flags env) = Inr ()"
  shows "op_checkmultisig env OP_CHECKMULTISIG st = Inr (st\<lparr>
    stack := vch_of_bool (\<exists>ks. subseq ks keys \<and>
      list_all2 (\<lambda>s k. CheckSig (env_checker env) s k (delete_sigs sigs (pbegincodehash st))) sigs ks) # rest,
    nOpCount := nOpCount st + length keys\<rparr>)"
  using op_checkmultisig_stack [OF assms refl] by (simp only: multisig_match_def)

theorem checkmultisig_matching_witness:
  "op_checkmultisig sample_env OP_CHECKMULTISIG
      (init_state (multisig_stack [[1], [2]] [[2]] [] []) []) =
    Inr ((init_state (multisig_stack [[1], [2]] [[2]] [] []) [])\<lparr>
      stack := [vch_of_bool (\<exists>ks. subseq ks [[1], [2]] \<and> list_all2 (\<lambda>s k. s = k) [[2 :: byte]] ks)],
      nOpCount := 2\<rparr>)"
  by (subst checkmultisig_matching [where keys = "[[1], [2]]" and sigs = "[[2]]" and rest = "[]"])
    (auto simp: init_state_def CheckSignatureEncoding_def CheckPubKeyEncoding_def has_flag_def)

section \<open>Limits\<close>

text \<open>C29: Every state the interpreter reaches from the start of a script keeps the consensus limits:
  at most 1000 elements on the two stacks, at most 201 counted operations, no element above 520
  bytes. The hash functions must return digests of their documented sizes.\<close>

theorem reachable_states_limits:
  assumes "hash_sizes (env_hash env)" and "length s \<le> 1000"
    and "\<forall>x \<in> set s. length x \<le> MAX_SCRIPT_ELEMENT_SIZE"
    and "eval_reach env (script, init_state s script) (pc, st)"
  shows "length (stack st) + length (altstack st) \<le> 1000 \<and> nOpCount st \<le> 201 \<and>
    (\<forall>x \<in> set (stack st) \<union> set (altstack st). length x \<le> MAX_SCRIPT_ELEMENT_SIZE)"
  using eval_reach_limits [OF assms(1,4)] assms(2,3)
  by (auto simp: eval_limits_def small_elements_def init_state_def)

theorem reachable_states_limits_witness:
  "length [[1], [3 :: byte]] + length ([] :: valtype list) \<le> 1000 \<and> (0 :: nat) \<le> 201 \<and>
   length [3 :: byte] \<le> MAX_SCRIPT_ELEMENT_SIZE"
proof -
  let ?st = "(init_state [[3]] [0x51])\<lparr>stack := [[1], [3]]\<rparr>"
  have step: "eval_step sample_env [0x51] (init_state [[3]] [0x51]) = Inr ([], ?st)"
    by code_simp
  have "eval_reach sample_env ([0x51], init_state [[3]] [0x51]) ([], ?st)"
    by (rule reach_step [OF reach_start _ step]) simp
  then show ?thesis
    using reachable_states_limits [of sample_env "[[3]]" "[0x51]" "[]" ?st]
    by (simp add: hash_sizes_sample MAX_SCRIPT_ELEMENT_SIZE_def init_state_def)
qed

text \<open>C30: No input makes script verification fail an assertion or divide the verdict from an error
  code: \<open>VerifyScript\<close> always ends, with success or with a script error. The numeric assertions of
  \<open>CScriptNum\<close> and the one on the copied stack of pay-to-script-hash are never reached.\<close>

theorem verify_total:
  "VerifyScript env sig script = Inr () \<or>
   (\<exists>e. VerifyScript env sig script = Inl (ScriptFail e))"
  using VerifyScript_no_assert [of env sig script]
  by (cases "VerifyScript env sig script") (auto intro: failure.exhaust)

text \<open>A script marked unspendable, one that starts with \<open>OP_RETURN\<close>, fails on every
  stack: its output can be left out of the coin database.\<close>

theorem unspendable_never_runs:
  assumes "IsUnspendable script"
  shows "\<not> is_ok (EvalScript env s script)"
  using assms by (rule EvalScript_unspendable)

theorem unspendable_never_runs_witness: "\<not> is_ok (EvalScript sample_env [] [0x6a, 0x51])"
  by (rule unspendable_never_runs) (simp add: IsUnspendable_def)

section \<open>Encodings\<close>

text \<open>A byte string passes as a signature exactly when it is a strict DER encoding of two positive
  integers of minimal length, at most 66 bytes together, followed by the hash type; and the scan of
  the bytes never reads outside the string.\<close>

theorem signature_encoding_iff:
  "IsValidSignatureEncoding sig =
     Some (\<exists>R S h. sig = der_signature R S h \<and> valid_der_int R \<and> valid_der_int S \<and>
       length R + length S \<le> 66)"
proof -
  obtain b where b: "IsValidSignatureEncoding sig = Some b"
    using IsValidSignatureEncoding_total [of sig] by blast
  have "b \<longleftrightarrow> (\<exists>R S h. sig = der_signature R S h \<and> valid_der_int R \<and> valid_der_int S \<and>
      length R + length S \<le> 66)"
    using IsValidSignatureEncoding_layout [of sig] IsValidSignatureEncoding_der b by (cases b) auto
  then show ?thesis
    using b by simp
qed

text \<open>Of the two signature values \<open>s\<close> and \<open>n - s\<close> that verify alike, where \<open>n\<close> is the order of
  the curve's group, the low-S rule accepts exactly one.\<close>

theorem low_s_unique:
  assumes "valid_der_int R" and "valid_der_int S" "valid_der_int S'"
    and "length R + length S \<le> 66" "length R + length S' \<le> 66"
    and "be_val S + be_val S' = be_val vchMaxModOrder + 1" and "0 < be_val S" "0 < be_val S'"
  shows "is_ok (IsLowDERSignature (der_signature R S h)) \<longleftrightarrow>
    \<not> is_ok (IsLowDERSignature (der_signature R S' h))"
  using assms half_order
  by (auto simp: IsLowDERSignature_der set_error_def set_success_def)

theorem low_s_unique_witness:
  "is_ok (IsLowDERSignature (der_signature [1] [1] 1)) \<longleftrightarrow>
    \<not> is_ok (IsLowDERSignature (der_signature [1] (0 # vchMaxModOrder) 1))"
  by (rule low_s_unique) (simp_all add: valid_der_int_def vchMaxModOrder_def)

text \<open>Removing an instruction from a script keeps exactly the other instructions, in order, and the
  unparsable rest, and counts the removed ones; nothing is found across instruction boundaries.\<close>

theorem find_and_delete_filter:
  assumes "is_instruction b"
  shows "FindAndDelete script b =
    (concat (filter (\<lambda>c. c \<noteq> b) (script_chunks script)) @ script_tail script,
     length (filter (\<lambda>c. c = b) (script_chunks script)))"
  using assms by (rule FindAndDelete_instruction)

theorem find_and_delete_filter_witness:
  "FindAndDelete [0x51, 0xab, 0x01, 0xab] [0xab] =
    (concat (filter (\<lambda>c. c \<noteq> [0xab]) (script_chunks [0x51, 0xab, 0x01, 0xab])) @
       script_tail [0x51, 0xab, 0x01, 0xab],
     length (filter (\<lambda>c. c = [0xab]) (script_chunks [0x51, 0xab, 0x01, 0xab])))"
  by (rule find_and_delete_filter) (simp add: is_instruction_plain)

text \<open>Under the minimal-encoding rule a number other than the smallest 64-bit integer has exactly
  one encoding that the reader accepts: the one the writer produces.\<close>

theorem script_number_unique:
  assumes "n \<noteq> int64_min" and "length (getvch n) \<le> k" and "k \<le> 8"
  shows "CScriptNum vch True k = Some n \<longleftrightarrow> vch = getvch n"
  using CScriptNum_getvch [OF assms] getvch_CScriptNum [OF _ assms(3)] by blast

theorem script_number_unique_witness: 
  "CScriptNum [0xff, 0x80] True 4 = Some (- 255) \<longleftrightarrow> [0xff, 0x80] = getvch (- 255)"
  by (rule script_number_unique) code_simp+

text \<open>\<open>OP_ADD\<close> on two readable operands pushes their exact sum: the operands have at most four
  bytes, so nothing wraps in 64 bits, and the result, which may have five bytes, can still be
  pushed but is no longer an operand when it does not fit four.\<close>

theorem op_add_exact:
  assumes "stack st = x2 # x1 # rest"
    and "num_operand env x1 nDefaultMaxNumSize = Inr a" and "num_operand env x2 nDefaultMaxNumSize = Inr b"
  shows "\<exists>z. op_binary env OP_ADD st = Inr (st\<lparr>stack := getvch z # rest\<rparr>) \<and>
    sint z = sint a + sint b \<and> length (getvch z) \<le> 5 \<and>
    (length (getvch z) \<le> nDefaultMaxNumSize \<longleftrightarrow> \<bar>sint a + sint b\<bar> < 2 ^ 31)"
proof -
  have r: "\<bar>sint a\<bar> \<le> 2 ^ 31 - 1" "\<bar>sint b\<bar> \<le> 2 ^ 31 - 1"
    using assms(2,3) operand_range by (auto simp: num_operand_def set_error_def split: option.splits)
  then have z: "sint (a + b) = sint a + sint b"
    by (rule sint_add_operands)
  have "a + b \<noteq> int64_min"
    using z r by (auto simp: int64_min_def)
  then have "length (getvch (a + b)) \<le> Suc k \<longleftrightarrow> \<bar>sint a + sint b\<bar> < 128 * 256 ^ k" for k
    unfolding z [symmetric] by (rule length_getvch_le_iff)
  from this [of 3] this [of 4] have "length (getvch (a + b)) \<le> 5"
    "length (getvch (a + b)) \<le> nDefaultMaxNumSize \<longleftrightarrow> \<bar>sint a + sint b\<bar> < 2 ^ 31"
    using r by (simp_all add: nDefaultMaxNumSize_def)
  then show ?thesis
    using assms z by (intro exI [of _ "a + b"]) (simp add: op_binary_def num_binary_def)
qed

theorem op_add_exact_witness:
  "\<exists>z. op_binary sample_env OP_ADD (init_state [[2], [3]] []) =
      Inr ((init_state [[2], [3]] [])\<lparr>stack := getvch z # []\<rparr>) \<and>
    sint z = sint (3 :: 64 word) + sint (2 :: 64 word) \<and> length (getvch z) \<le> 5 \<and>
    (length (getvch z) \<le> nDefaultMaxNumSize \<longleftrightarrow> \<bar>sint (3 :: 64 word) + sint (2 :: 64 word)\<bar> < 2 ^ 31)"
  by (rule op_add_exact [of _ "[2]" "[3]"]) code_simp+

section \<open>Signature operations\<close>

text \<open>The signature operations charged to an input that spends a pay-to-script-hash output are those
  of the very script that \<open>VerifyScript\<close> will run: the last element the unlocking script leaves.\<close>

theorem p2sh_sigops_of_redeem:
  assumes "length h = 20" and "IsPushOnly unlock"
    and "EvalScript env [] unlock = Inr (redeem # rest)"
  shows "GetSigOpCountP2SH (p2sh_script h) unlock = GetSigOpCount True redeem"
  using assms by (rule GetSigOpCountP2SH_redeem)

theorem p2sh_sigops_of_redeem_witness:
  "GetSigOpCountP2SH (p2sh_script (replicate 20 7)) (script_push [0xac, 0xac]) =
    GetSigOpCount True [0xac, 0xac]"
proof (rule p2sh_sigops_of_redeem [of _ _ sample_env "[0xac, 0xac]" "[]"])
  show "EvalScript sample_env [] (script_push [0xac, 0xac]) = Inr [[0xac, 0xac]]"
    using EvalScript_pushes [of "[[0xac, 0xac]]" sample_env "[]"]
    by (simp add: push_ok_sample script_push_def)
  show "IsPushOnly (script_push [0xac, 0xac])"
    by code_simp
qed simp

text \<open>The precise count never exceeds the rough one, which charges twenty for every multisig, no
  script counts more than twenty per byte, and a script that only pushes counts nothing.\<close>

theorem sigop_count_bounds:
  "GetSigOpCount True script \<le> GetSigOpCount False script \<and>
   GetSigOpCount acc script \<le> (if IsPushOnly script then 0 else 20 * length script)"
  using sigop_loop_push_only by (auto simp: GetSigOpCount_def sigop_loop_mono sigop_loop_bound)

section \<open>The hash that is signed\<close>


definition sample_tx :: CTransaction where
  "sample_tx = \<lparr>nVersion = 1, vin = [mkTxIn \<lparr>out_hash = 5, out_n = 0\<rparr> [] 0],
     vout = [mkTxOut 7 [0x51]], nLockTime = 100\<rparr>"




text \<open>The data of a truncated push at the end of the script code are not signed: both codes give the same message.\<close>

theorem truncated_push_not_signed:
  "sighash_preimage [0x51, 0x02, 0xaa] tx nIn ht = sighash_preimage [0x51, 0x02, 0xbb] tx nIn ht"
proof -
  have "SerializeScriptCode [0x51, 0x02, 0xaa] = [3, 0x51, 2]" "SerializeScriptCode [0x51, 0x02, 0xbb] = [3, 0x51, 2]"
    by code_simp+
  then have "SerializeInput (mkSerializer tx [0x51, 0x02, 0xaa] nIn ht) = SerializeInput (mkSerializer tx [0x51, 0x02, 0xbb] nIn ht)"
    by (intro ext) (simp add: SerializeInput_def)
  moreover have "SerializeOutput (mkSerializer tx [0x51, 0x02, 0xaa] nIn ht) = SerializeOutput (mkSerializer tx [0x51, 0x02, 0xbb] nIn ht)"
    by (intro ext) (simp add: SerializeOutput_def)
  ultimately show ?thesis
    by (simp add: sighash_preimage_def SerializeSig_def)
qed

text \<open>The lock-time check compares like with like: it passes exactly when the argument and the
  transaction's lock time are both heights or both times, the argument is not later, and the input
  has not opted out with the final sequence number.\<close>

theorem check_lock_time_iff:
  "tx_CheckLockTime tx nIn lockTime \<longleftrightarrow>
     (uint (nLockTime tx) < LOCKTIME_THRESHOLD) = (sint lockTime < LOCKTIME_THRESHOLD) \<and>
     sint lockTime \<le> uint (nLockTime tx) \<and> nSequence (vin tx ! nIn) \<noteq> SEQUENCE_FINAL"
  by (auto simp: tx_CheckLockTime_iff)

section \<open>A template that is not checked\<close>

text \<open>\<open>IsNormalPaymentScript\<close> accepts 25 bytes that are not a pay-to-pubkey-hash output: it looks at
  the opcodes it knows wherever they stand, and never at the length of the pushed hash or at the
  end of the script.\<close>

theorem normal_payment_accepts_other_script:
  "\<exists>script. length script = 25 \<and> IsNormalPaymentScript script \<and> (\<forall>h. script \<noteq> p2pkh_script h)"
proof (intro exI conjI allI)
  let ?s = "[0x76, 0xa9, 0x16] @ replicate 22 (0 :: byte)"
  show "IsNormalPaymentScript ?s" "length ?s = 25"
    by code_simp+
  fix h
  have "last ?s \<noteq> last (p2pkh_script h)"
    by (simp add: p2pkh_script_def)
  then show "?s \<noteq> p2pkh_script h"
    by metis
qed

end
