(* ===== verification/VarInt.thy ===== *)
theory VarInt
  imports Serialize
begin

text \<open>
  Variable-length integers, \<open>WriteVarInt\<close> and \<open>ReadVarInt\<close> of \<open>src/serialize.h\<close>, for the
  64-bit instance of the template. Shifts and the decrement wrap as they do in the source.
\<close>

section \<open>Operations\<close>

lemma unat_drop_bit_7: "unat (drop_bit 7 n :: 64 word) = unat n div 128"
  by (simp add: drop_bit_eq_div unat_div_distrib)

lemma varint_next:
  assumes "\<not> n \<le> (0x7F :: 64 word)"
  shows "unat (drop_bit 7 n - 1) = unat n div 128 - 1" and "1 \<le> unat n div 128"
proof -
  have "128 \<le> unat n"
    using assms by (simp add: word_le_nat_alt not_le)
  then have "1 \<le> unat n div 128"
    using div_le_mono [of 128 "unat n" 128] by simp
  then show "unat (drop_bit 7 n - 1) = unat n div 128 - 1" "1 \<le> unat n div 128"
    by (simp_all add: unat_sub word_le_nat_alt unat_drop_bit_7)
qed

text \<open>The buffer \<open>tmp\<close>, filled from the last byte to the first; \<open>cont\<close> is \<open>len > 0\<close>.\<close>

function varint_tmp :: "bool \<Rightarrow> 64 word \<Rightarrow> byte list" where
  "varint_tmp cont n =
     (ucast (n AND 0x7F) OR (if cont then 0x80 else 0))
     # (if n \<le> 0x7F then [] else varint_tmp True (drop_bit 7 n - 1))"
  by pat_completeness auto

termination
proof (relation "measure (unat \<circ> snd)")
  fix cont and n :: "64 word"
  assume "\<not> n \<le> 0x7F"
  then show "((True, drop_bit 7 n - 1), cont, n) \<in> measure (unat \<circ> snd)"
    using varint_next [of n] div_le_dividend [of "unat n" 128] by simp
qed simp

declare varint_tmp.simps [simp del]

definition WriteVarInt :: "64 word \<Rightarrow> byte list" where
  "WriteVarInt n = rev (varint_tmp False n)"

fun read_varint_loop :: "64 word \<Rightarrow> 64 word reader" where
  "read_varint_loop n [] = None"
| "read_varint_loop n (chData # r) =
     (let n' = push_bit 7 n OR ucast (chData AND 0x7F) in
      if chData AND 0x80 \<noteq> 0 then read_varint_loop (n' + 1) r else Some (n', r))"

definition ReadVarInt :: "64 word reader" where
  "ReadVarInt bs = read_varint_loop 0 bs"

text \<open>The loop of \<open>GetSizeOfVarInt\<close>.\<close>

function GetSizeOfVarInt :: "64 word \<Rightarrow> nat" where
  "GetSizeOfVarInt n = (if n \<le> 0x7F then 1 else Suc (GetSizeOfVarInt (drop_bit 7 n - 1)))"
  by pat_completeness auto
termination
proof (relation "measure unat")
  fix n :: "64 word"
  assume "\<not> n \<le> 0x7F"
  then show "(drop_bit 7 n - 1, n) \<in> measure unat"
    using varint_next [of n] div_le_dividend [of "unat n" 128] by simp
qed simp

declare GetSizeOfVarInt.simps [simp del]

section \<open>Reading back\<close>

lemma low_7_take_bit: "n AND 0x7F = (take_bit 7 n :: 64 word)"
  by (simp add: take_bit_eq_mask mask_eq_exp_minus_1)

lemma unat_low_7: "unat (n AND 0x7F :: 64 word) = unat n mod 128"
  unfolding low_7_take_bit by (simp only: unsigned_take_bit_eq) (simp add: take_bit_eq_mod)

lemma unat_low_7_byte: "unat (ucast (n AND 0x7F :: 64 word) :: byte) = unat n mod 128"
proof -
  have "unat n mod 128 < 256"
    using mod_less_divisor [of 128 "unat n"] by linarith
  then show ?thesis
    by (simp add: unsigned_ucast_eq take_bit_eq_mod unat_low_7)
qed

text \<open>The digit written, and what the reader takes from it.\<close>

definition varint_digit :: "bool \<Rightarrow> 64 word \<Rightarrow> byte" where
  "varint_digit cont n = ucast (n AND 0x7F) OR (if cont then 0x80 else 0)"

lemma unat_varint_digit: "unat (varint_digit cont n) = unat n mod 128 + (if cont then 128 else 0)"
  using byte_or_80 [of "ucast (n AND 0x7F)"] by (simp add: varint_digit_def unat_low_7_byte)

lemma varint_digit_cont: "varint_digit cont n AND 0x80 \<noteq> 0 \<longleftrightarrow> cont"
proof -
  have "unat n mod 128 < 128" by simp
  then show ?thesis
    by (simp only: byte_and_80 unat_varint_digit) (simp add: not_le)
qed

lemma varint_digit_value: "ucast (varint_digit cont n AND 0x7F) = (n AND 0x7F :: 64 word)"
proof (rule unsigned_word_eqI)
  have "unat n mod 128 < 2 ^ 64"
    by (rule order_less_trans [of _ 128]) simp_all
  then show "unat (ucast (varint_digit cont n AND 0x7F) :: 64 word) = unat (n AND 0x7F)"
    by (simp add: unsigned_ucast_eq take_bit_eq_mod byte_and_7f unat_varint_digit unat_low_7)
qed

lemma split_low_7: "push_bit 7 (drop_bit 7 n) OR (n AND 0x7F) = (n :: 64 word)"
  unfolding low_7_take_bit by (rule bit_word_eqI) (auto simp: bit_simps)

lemma small_low_7: "n \<le> 0x7F \<Longrightarrow> n AND 0x7F = (n :: 64 word)"
proof (rule unsigned_word_eqI)
  assume "n \<le> 0x7F"
  then have "unat n < 128"
    by (simp add: word_le_nat_alt)
  then show "unat (n AND 0x7F) = unat n"
    by (simp only: unat_low_7 mod_less)
qed

lemma varint_tmp_digit:
  "varint_tmp cont n =
     varint_digit cont n # (if n \<le> 0x7F then [] else varint_tmp True (drop_bit 7 n - 1))"
  by (simp add: varint_tmp.simps [of cont n] varint_digit_def)

text \<open>One turn of the reader on a digit of \<open>n\<close>, with the higher digits already read.\<close>

lemma read_varint_digit:
  assumes "push_bit 7 m OR (n AND 0x7F) = n"
  shows "read_varint_loop m (varint_digit cont n # r) =
    (if cont then read_varint_loop (n + 1) r else Some (n, r))"
  using varint_digit_cont [of cont n]
  by (cases cont) (simp_all add: varint_digit_value assms)

lemma read_varint_tmp:
  "read_varint_loop 0 (rev (varint_tmp cont n) @ r) =
     (if cont then read_varint_loop (n + 1) r else Some (n, r))"
proof (induction cont n arbitrary: r rule: varint_tmp.induct)
  case (1 cont n)
  show ?case
  proof (cases "n \<le> 0x7F")
    case True
    then show ?thesis
      using read_varint_digit [of 0 n cont r] by (simp add: varint_tmp_digit small_low_7)
  next
    case False
    then show ?thesis
      using read_varint_digit [OF split_low_7, of n cont r] "1.IH" [OF False, of "varint_digit cont n # r"]
      by (simp add: varint_tmp_digit [of cont n])
  qed
qed

lemma ReadVarInt_Write: "ReadVarInt (WriteVarInt n @ r) = Some (n, r)"
  by (simp add: ReadVarInt_def WriteVarInt_def read_varint_tmp)

lemma length_WriteVarInt: "length (WriteVarInt n) = GetSizeOfVarInt n"
proof -
  have "length (varint_tmp cont n) = GetSizeOfVarInt n" for cont
    by (induction cont n rule: varint_tmp.induct)
      (simp add: varint_tmp.simps GetSizeOfVarInt.simps)
  then show ?thesis
    by (simp add: WriteVarInt_def)
qed

section \<open>Encodings that wrap\<close>

text \<open>
  The comment in the source says that every integer has exactly one encoding. The reader does not
  check for overflow, so a long encoding wraps to a value that has a shorter one.
\<close>

lemma ReadVarInt_wraps:
  "ReadVarInt [0x80, 0xFE, 0xFE, 0xFE, 0xFE, 0xFE, 0xFE, 0xFE, 0xFF, 0x00] = Some (0, [])"
  "WriteVarInt 0 = [0x00]"
  by (simp_all add: ReadVarInt_def WriteVarInt_def varint_tmp.simps Let_def push_bit_eq_mult)

end
