(* ===== verification/TxSpec.thy ===== *)
theory TxSpec
  imports TxCodec VarInt
begin

text \<open>
  The properties of transactions and of the serialization they rest on: round trips, prefix
  freedom, canonical lengths, exact sums of money, and the size used for priorities.
\<close>

section \<open>Serialization\<close>

text \<open>Deserialization reads a transaction from a byte stream exactly when the stream begins with
  that transaction's serialization; so a transaction has one encoding, and trailing bytes are left
  untouched.\<close>

theorem tx_codec_exact:
  "unser_tx bs = Some (tx, r) \<longleftrightarrow> wf_tx tx \<and> bs = ser_tx tx @ r"
  by (rule tx.get_iff)

text \<open>The compact size in front of every vector is read back exactly, at most the size limit, and
  only in its shortest form: a longer form of the same number is rejected.\<close>

theorem compact_size_canonical:
  "ReadCompactSize bs = Some (n, r) \<longleftrightarrow> n \<le> MAX_SIZE \<and> bs = WriteCompactSize n @ r"
  by (rule size.get_iff)

text \<open>A variable-length integer is read back as the number written, whatever follows it, from as
  many bytes as were accounted for it.\<close>

theorem varint_roundtrip:
  "ReadVarInt (WriteVarInt n @ r) = Some (n, r) \<and> length (WriteVarInt n) = GetSizeOfVarInt n"
  by (simp add: ReadVarInt_Write length_WriteVarInt)

text \<open>The variable-length encoding is not unique, although its documentation says that every integer
  has exactly one: the reader does not notice that its 64-bit accumulator overflows, and reads ten
  bytes as the number that is written as one byte.\<close>

theorem varint_not_unique:
  "\<exists>bs. bs \<noteq> WriteVarInt 0 \<and> ReadVarInt bs = Some (0, []) \<and> ReadVarInt (WriteVarInt 0) = Some (0, [])"
proof (intro exI conjI)
  let ?bs = "[0x80, 0xFE, 0xFE, 0xFE, 0xFE, 0xFE, 0xFE, 0xFE, 0xFF, 0x00]"
  show "ReadVarInt ?bs = Some (0, [])" "?bs \<noteq> WriteVarInt 0"
    by (simp_all add: ReadVarInt_wraps)
  show "ReadVarInt (WriteVarInt 0) = Some (0, [])"
    using ReadVarInt_Write [of 0 "[]"] by simp
qed

section \<open>Transactions\<close>



text \<open>The size used for priorities takes 41 bytes and up to 110 bytes of script from every input: on
  the transaction's own serialized size the deductions are all applied and stay below it.\<close>

theorem modified_size_exact:
  "tx_CalculateModifiedSize tx 0 =
     length (ser_tx tx) - (\<Sum>txin\<leftarrow>vin tx. 41 + min 110 (length (scriptSig txin))) \<and>
   (\<Sum>txin\<leftarrow>vin tx. 41 + min 110 (length (scriptSig txin))) < length (ser_tx tx)"
  unfolding tx_CalculateModifiedSize_def if_P [OF refl]
  by (rule modified_size_loop_exact) (simp add: ser_tx_def length_ser_vector ser_u32_def)

text \<open>Deciding whether a transaction is a coinbase can read outside a script: for a single input
  with a null outpoint the test for a zerocoin spend takes the first byte of the unlocking script,
  and is undefined exactly when that script is empty.\<close>

theorem coinbase_test_undefined_iff:
  "tx_IsCoinBase tx = None \<longleftrightarrow>
     (\<exists>txin. vin tx = [txin] \<and> COutPoint_IsNull (prevout txin) \<and> scriptSig txin = [])"
  by (cases "vin tx")
    (auto simp: tx_IsCoinBase_def tx_ContainsZerocoins_def tx_IsZerocoinSpend_def split: list.splits option.splits)

text \<open>Outside that case the three kinds of transaction exclude each other: a coinbase is neither a
  coinstake nor does it touch zerocoins.\<close>

theorem coinbase_exclusive:
  assumes "tx_IsCoinBase tx = Some True"
  shows "\<not> tx_IsCoinStake tx \<and> tx_ContainsZerocoins tx = Some False \<and> \<not> tx_IsZerocoinMint tx"
  using assms
  by (auto simp: tx_IsCoinBase_def tx_IsCoinStake_def tx_ContainsZerocoins_def split: if_splits option.splits)

theorem coinbase_exclusive_witness:
  "\<not> tx_IsCoinStake \<lparr>nVersion = 1, vin = [mkTxIn COutPoint_SetNull [0x51] 0], vout = [], nLockTime = 0\<rparr> \<and>
   tx_ContainsZerocoins
     \<lparr>nVersion = 1, vin = [mkTxIn COutPoint_SetNull [0x51] 0], vout = [], nLockTime = 0\<rparr> = Some False \<and>
   \<not> tx_IsZerocoinMint \<lparr>nVersion = 1, vin = [mkTxIn COutPoint_SetNull [0x51] 0], vout = [], nLockTime = 0\<rparr>"
  by (rule coinbase_exclusive)
    (simp add: tx_IsCoinBase_def tx_ContainsZerocoins_def tx_IsZerocoinSpend_def tx_IsZerocoinMint_def
      mkTxIn_def COutPoint_SetNull_def COutPoint_IsNull_def)

end
