(* ===== verification/Uint256.thy ===== *)
theory Uint256
  imports Prelude
begin

text \<open>
  Fixed-width big integers, the template \<open>base_uint\<close> of \<open>src/uint256.h\<close> and \<open>src/uint256.cpp\<close>.
  A number is the list of its 32-bit limbs \<open>pn\<close>, the least significant first; \<open>WIDTH\<close> is the
  length of the list, so the definitions hold for \<open>uint160\<close>, \<open>uint256\<close> and \<open>uint512\<close> at once.
  \<open>uval\<close> is the number meant, and every operation is shown to compute the corresponding
  operation on natural numbers modulo \<open>2 ^ (32 * WIDTH)\<close>.
\<close>

type_synonym limbs = "32 word list"

section \<open>Operations\<close>

text \<open>\<open>operator+=\<close>: the carry goes through a 64-bit sum.\<close>

fun add_loop :: "64 word \<Rightarrow> limbs \<Rightarrow> limbs \<Rightarrow> limbs" where
  "add_loop carry (a # pn) (b # bs) =
     (let n = carry + ucast a + ucast b
      in ucast (n AND 0xffffffff) # add_loop (drop_bit 32 n) pn bs)"
| "add_loop carry _ _ = []"

definition uint_add :: "limbs \<Rightarrow> limbs \<Rightarrow> limbs" where
  "uint_add a b = add_loop 0 a b"

definition uint_of64 :: "nat \<Rightarrow> 64 word \<Rightarrow> limbs" where
  "uint_of64 WIDTH b = ucast b # ucast (drop_bit 32 b) # replicate (WIDTH - 2) 0"

definition uint_compl :: "limbs \<Rightarrow> limbs" where
  "uint_compl a = map NOT a"

fun uint_inc :: "limbs \<Rightarrow> limbs" where
  "uint_inc [] = []"
| "uint_inc (p # pn) = (p + 1) # (if p + 1 = 0 then uint_inc pn else pn)"

fun uint_dec :: "limbs \<Rightarrow> limbs" where
  "uint_dec [] = []"
| "uint_dec (p # pn) = (p - 1) # (if p - 1 = - 1 then uint_dec pn else pn)"

definition uint_neg :: "limbs \<Rightarrow> limbs" where
  "uint_neg a = uint_inc (uint_compl a)"

definition uint_sub :: "limbs \<Rightarrow> limbs \<Rightarrow> limbs" where
  "uint_sub a b = uint_add a (uint_neg b)"

text \<open>\<open>operator*=(uint32_t)\<close>, and the rows of \<open>operator*=(const base_uint&)\<close>.\<close>

fun mul32_loop :: "64 word \<Rightarrow> 32 word \<Rightarrow> limbs \<Rightarrow> limbs" where
  "mul32_loop carry b32 [] = []"
| "mul32_loop carry b32 (p # pn) =
     (let n = carry + ucast b32 * ucast p
      in ucast (n AND 0xffffffff) # mul32_loop (drop_bit 32 n) b32 pn)"

definition uint_mul32 :: "limbs \<Rightarrow> 32 word \<Rightarrow> limbs" where
  "uint_mul32 a b32 = mul32_loop 0 b32 a"

fun mul_row :: "64 word \<Rightarrow> 32 word \<Rightarrow> limbs \<Rightarrow> limbs \<Rightarrow> limbs" where
  "mul_row carry aj (p # pn) (b # bs) =
     (let n = carry + ucast p + ucast aj * ucast b
      in ucast (n AND 0xffffffff) # mul_row (drop_bit 32 n) aj pn bs)"
| "mul_row carry aj _ _ = []"

text \<open>Row \<open>j\<close> changes the limbs from \<open>j\<close> on, and limb \<open>j\<close> is final after it.\<close>

fun mul_loop :: "limbs \<Rightarrow> limbs \<Rightarrow> limbs \<Rightarrow> limbs" where
  "mul_loop [] b pn = pn"
| "mul_loop (aj # as) b pn =
     (case mul_row 0 aj pn b of
        [] \<Rightarrow> []
      | p # pn' \<Rightarrow> p # mul_loop as b pn')"

definition uint_mul :: "limbs \<Rightarrow> limbs \<Rightarrow> limbs" where
  "uint_mul a b = mul_loop a b (replicate (length a) 0)"

text \<open>Shifts: the limb offset \<open>k\<close> and the bit offset \<open>s\<close>.\<close>

definition shl_step :: "limbs \<Rightarrow> nat \<Rightarrow> nat \<Rightarrow> nat \<Rightarrow> limbs \<Rightarrow> limbs" where
  "shl_step a k s i pn =
     (let pn = (if i + k + 1 < length a \<and> s \<noteq> 0
                then pn[i + k + 1 := pn ! (i + k + 1) OR drop_bit (32 - s) (a ! i)] else pn)
      in if i + k < length a then pn[i + k := pn ! (i + k) OR push_bit s (a ! i)] else pn)"

definition uint_shl :: "limbs \<Rightarrow> nat \<Rightarrow> limbs" where
  "uint_shl a shift =
     fold (shl_step a (shift div 32) (shift mod 32)) [0..<length a] (replicate (length a) 0)"

definition shr_step :: "limbs \<Rightarrow> nat \<Rightarrow> nat \<Rightarrow> nat \<Rightarrow> limbs \<Rightarrow> limbs" where
  "shr_step a k s i pn =
     (let pn = (if k + 1 \<le> i \<and> s \<noteq> 0
                then pn[i - k - 1 := pn ! (i - k - 1) OR push_bit (32 - s) (a ! i)] else pn)
      in if k \<le> i then pn[i - k := pn ! (i - k) OR drop_bit s (a ! i)] else pn)"

definition uint_shr :: "limbs \<Rightarrow> nat \<Rightarrow> limbs" where
  "uint_shr a shift =
     fold (shr_step a (shift div 32) (shift mod 32)) [0..<length a] (replicate (length a) 0)"

text \<open>\<open>CompareTo\<close> goes from the most significant limb down.\<close>

fun compare_loop :: "limbs \<Rightarrow> limbs \<Rightarrow> int" where
  "compare_loop (a # as) (b # bs) =
     (if a < b then -1 else if b < a then 1 else compare_loop as bs)"
| "compare_loop _ _ = 0"

definition CompareTo :: "limbs \<Rightarrow> limbs \<Rightarrow> int" where
  "CompareTo a b = compare_loop (rev a) (rev b)"

definition EqualTo :: "limbs \<Rightarrow> 64 word \<Rightarrow> bool" where
  "EqualTo a b \<longleftrightarrow>
     list_all (\<lambda>p. p = 0) (drop 2 a) \<and> ucast (a ! 1) = drop_bit 32 b \<and>
     ucast (a ! 0) = b AND 0xffffffff"

text \<open>\<open>bits\<close>: the position of the highest set bit plus one.\<close>

fun limb_bits :: "nat \<Rightarrow> 32 word \<Rightarrow> nat" where
  "limb_bits 0 p = 1"
| "limb_bits (Suc b) p = (if p AND push_bit (Suc b) 1 \<noteq> 0 then Suc b + 1 else limb_bits b p)"

fun bits_loop :: "limbs \<Rightarrow> nat" where
  "bits_loop [] = 0"
| "bits_loop (p # rest) = (if p \<noteq> 0 then 32 * length rest + limb_bits 31 p else bits_loop rest)"

definition uint_bits :: "limbs \<Rightarrow> nat" where
  "uint_bits a = bits_loop (rev a)"

text \<open>\<open>operator/=\<close>: binary long division; the argument \<open>Suc shift\<close> counts the turns left.\<close>

definition set_quotient_bit :: "nat \<Rightarrow> limbs \<Rightarrow> limbs" where
  "set_quotient_bit shift pn =
     pn[shift div 32 := pn ! (shift div 32) OR push_bit (shift mod 32) 1]"

fun div_loop :: "nat \<Rightarrow> limbs \<Rightarrow> limbs \<Rightarrow> limbs \<Rightarrow> limbs" where
  "div_loop 0 num dv pn = pn"
| "div_loop (Suc shift) num dv pn =
     (if CompareTo num dv \<ge> 0
      then div_loop shift (uint_sub num dv) (uint_shr dv 1) (set_quotient_bit shift pn)
      else div_loop shift num (uint_shr dv 1) pn)"

text \<open>Division by zero throws: \<open>None\<close>.\<close>

definition uint_div :: "limbs \<Rightarrow> limbs \<Rightarrow> limbs option" where
  "uint_div a b =
     (let num_bits = uint_bits a; div_bits = uint_bits b; zero = replicate (length a) 0 in
      if div_bits = 0 then None
      else if num_bits < div_bits then Some zero
      else
        let shift = num_bits - div_bits
        in Some (div_loop (Suc shift) a (uint_shl b shift) zero))"

definition GetLow64 :: "limbs \<Rightarrow> 64 word" where
  "GetLow64 a = ucast (a ! 0) OR push_bit 32 (ucast (a ! 1))"

section \<open>Meaning\<close>

fun uval :: "limbs \<Rightarrow> nat" where
  "uval [] = 0"
| "uval (p # pn) = unat p + 2 ^ 32 * uval pn"

lemma unat_limb_less: "unat (p :: 32 word) < 2 ^ 32"
  using unsigned_less [where w = p] by simp

lemma pow32_Suc: "(2 :: nat) ^ (32 * Suc n) = 2 ^ 32 * 2 ^ (32 * n)"
  by (simp add: power_add)

lemma uval_bound: "uval pn < 2 ^ (32 * length pn)"
proof (induction pn)
  case Nil
  then show ?case by simp
next
  case (Cons p pn)
  then have "2 ^ 32 * (uval pn + 1) \<le> 2 ^ 32 * 2 ^ (32 * length pn)"
    by (intro mult_le_mono2) simp
  then show ?case
    using unat_limb_less [of p] by (simp only: uval.simps list.size pow32_Suc One_nat_def add_Suc_right add_0_right) simp
qed

lemma uval_mod: "uval (p # pn) mod 2 ^ 32 = unat p"
  by (simp only: uval.simps mod_mult_self2 mod_less [OF unat_limb_less])

lemma uval_div: "uval (p # pn) div 2 ^ 32 = uval pn"
proof -
  have "(unat p + 2 ^ 32 * uval pn) div 2 ^ 32 = uval pn + unat p div 2 ^ 32"
    by (rule div_mult_self2) simp
  then show ?thesis
    using div_less [OF unat_limb_less [of p]] by (simp only: uval.simps add_0_right)
qed

lemma uval_inj: "length a = length b \<Longrightarrow> uval a = uval b \<Longrightarrow> a = b"
proof (induction a b rule: list_induct2)
  case Nil
  then show ?case by simp
next
  case (Cons x xs y ys)
  have "unat x = unat y"
    using Cons.prems uval_mod [of x xs] uval_mod [of y ys] by (simp only:)
  then have "x = y"
    by (rule unsigned_word_eqI)
  moreover have "uval xs = uval ys"
    using Cons.prems uval_div [of x xs] uval_div [of y ys] by (simp only:)
  ultimately show ?case
    using Cons.IH by simp
qed

lemma uval_replicate_0 [simp]: "uval (replicate n 0) = 0"
  by (induction n) simp_all

lemma uval_eq_0_iff: "uval a = 0 \<longleftrightarrow> (\<forall>p \<in> set a. p = 0)"
  by (induction a) (auto simp: unat_eq_0)

section \<open>Sums\<close>

text \<open>One limb of a carry chain, on numbers.\<close>

lemma limb_step:
  assumes "0 < (B :: nat)"
  shows "(n + B * x) mod (B * M) = n mod B + B * ((n div B + x) mod M)"
proof -
  have "(n + B * x) div B = n div B + x"
    using assms by (simp add: div_mult_self2)
  then show ?thesis
    by (simp add: mod_mult2_eq)
qed

lemma unat_low_limb: "unat (ucast (n AND 0xffffffff) :: 32 word) = unat (n :: 64 word) mod 2 ^ 32"
proof -
  have "(0xffffffff :: 64 word) = mask 32"
    by (simp add: mask_eq_exp_minus_1)
  then have "n AND 0xffffffff = take_bit 32 n"
    by (simp add: take_bit_eq_mask)
  then have "ucast (n AND 0xffffffff) = (ucast n :: 32 word)"
    by (simp add: bit_word_eqI bit_simps)
  then show ?thesis
    by (simp add: unsigned_ucast_eq take_bit_eq_mod)
qed

lemma unat_high_limb: "unat (drop_bit 32 n :: 64 word) = unat n div 2 ^ 32"
  by (simp add: drop_bit_eq_div unat_div_distrib)

lemma unat_ucast_limb: "unat (ucast (p :: 32 word) :: 64 word) = unat p"
  by (simp add: unsigned_ucast_eq take_bit_nat_eq_self_iff) (use unat_limb_less [of p] in simp)

lemma unat_add_64: "unat a + unat b < 2 ^ 64 \<Longrightarrow> unat (a + b :: 64 word) = unat a + unat b"
  by (simp add: unat_word_ariths)

lemma unat_mult_64: "unat a * unat b < 2 ^ 64 \<Longrightarrow> unat (a * b :: 64 word) = unat a * unat b"
  by (simp add: unat_word_ariths)

lemma length_add_loop: "length (add_loop carry a b) = min (length a) (length b)"
  by (induction carry a b rule: add_loop.induct) (auto simp: Let_def)

lemma uval_add_loop:
  assumes "unat carry \<le> 1" and "length a = length b"
  shows "uval (add_loop carry a b) = (unat carry + uval a + uval b) mod 2 ^ (32 * length a)"
  using assms
proof (induction carry a b rule: add_loop.induct)
  case (1 carry a pn b bs)
  let ?n = "carry + ucast a + ucast b :: 64 word"
  have small: "unat carry + unat a + unat b < 2 ^ 33"
    using "1.prems"(1) unat_limb_less [of a] unat_limb_less [of b] by simp
  have "unat (carry + ucast a :: 64 word) = unat carry + unat a"
    using small unat_add_64 [of carry "ucast a"] by (simp add: unat_ucast_limb)
  then have n: "unat ?n = unat carry + unat a + unat b"
    using small unat_add_64 [of "carry + ucast a" "ucast b"] by (simp add: unat_ucast_limb)
  have carry: "unat (drop_bit 32 ?n) = (unat carry + unat a + unat b) div 2 ^ 32"
    by (simp only: unat_high_limb n)
  then have "unat (drop_bit 32 ?n) \<le> 1"
    using small by (simp add: div_le_mono less_Suc_eq_le [symmetric] div_less_iff_less_mult)
  then have IH: "uval (add_loop (drop_bit 32 ?n) pn bs) =
      (unat (drop_bit 32 ?n) + (uval pn + uval bs)) mod 2 ^ (32 * length pn)"
    using "1.IH" [OF refl] "1.prems"(2) by (simp add: add.assoc)
  have "uval (add_loop carry (a # pn) (b # bs)) =
        (unat carry + unat a + unat b) mod 2 ^ 32 +
        2 ^ 32 * (((unat carry + unat a + unat b) div 2 ^ 32 + (uval pn + uval bs)) mod 2 ^ (32 * length pn))"
      by (simp only: add_loop.simps Let_def uval.simps unat_low_limb n IH carry)
  also have "\<dots> = (unat carry + unat a + unat b + 2 ^ 32 * (uval pn + uval bs)) mod
        (2 ^ 32 * 2 ^ (32 * length pn))"
      by (rule limb_step [symmetric]) simp
  also have "\<dots> = (unat carry + uval (a # pn) + uval (b # bs)) mod 2 ^ (32 * length (a # pn))"
      by (simp only: uval.simps list.size pow32_Suc One_nat_def add_Suc_right add_0_right)
        (simp add: algebra_simps)
  finally show ?case .
qed auto

lemma uval_add:
  assumes "length a = length b"
  shows "uval (uint_add a b) = (uval a + uval b) mod 2 ^ (32 * length a)"
  using uval_add_loop [of 0, OF _ assms] by (simp add: uint_add_def)

lemma length_uint_add [simp]: "length a = length b \<Longrightarrow> length (uint_add a b) = length b"
  by (simp add: uint_add_def length_add_loop)

section \<open>Complement, increment, difference\<close>

lemma unat_not: "unat (NOT p :: 32 word) = 2 ^ 32 - 1 - unat p"
proof -
  have "unat (- 1 - p :: 32 word) = unat (- 1 :: 32 word) - unat p"
    by (rule unat_sub) simp
  moreover have "NOT p = - 1 - p"
    by (simp add: not_eq_complement)
  ultimately show ?thesis
    by (simp add: unsigned_minus_1_eq_mask mask_eq_exp_minus_1)
qed

lemma uval_compl: "uval (uint_compl a) + uval a + 1 = 2 ^ (32 * length a)"
proof (induction a)
  case Nil
  then show ?case by (simp add: uint_compl_def)
next
  case (Cons p pn)
  have "unat (NOT p) + unat p + 1 = 2 ^ 32"
    using unat_limb_less [of p] by (simp add: unat_not)
  then have "uval (uint_compl (p # pn)) + uval (p # pn) + 1 = 2 ^ 32 * (uval (uint_compl pn) + uval pn + 1)"
    by (simp add: uint_compl_def algebra_simps)
  then show ?case
    by (simp only: Cons.IH length_Cons pow32_Suc)
qed

lemma length_uint_compl [simp]: "length (uint_compl a) = length a"
  by (simp add: uint_compl_def)

lemma length_uint_inc [simp]: "length (uint_inc a) = length a"
  by (induction a) simp_all

lemma length_uint_dec [simp]: "length (uint_dec a) = length a"
  by (induction a) simp_all

lemma unat_inc: "unat (p + 1 :: 32 word) = (unat p + 1) mod 2 ^ 32"
  by (simp add: unat_word_ariths)

lemma inc_carry: "(unat p + 1) div 2 ^ 32 = (if p + 1 = (0 :: 32 word) then 1 else 0)"
proof (cases "p + 1 = 0")
  case True
  then have "(unat p + 1) mod 2 ^ 32 = 0"
    using unat_inc [of p] by simp
  then have "2 ^ 32 \<le> unat p + 1"
    using unat_limb_less [of p] by (metis add_is_0 mod_less not_less one_neq_zero)
  then have "unat p + 1 = 2 ^ 32"
    using unat_limb_less [of p] by simp
  then show ?thesis
    using True by simp
next
  case False
  then have "(unat p + 1) mod 2 ^ 32 \<noteq> 0"
    using unat_inc [of p] by (metis unat_eq_zero)
  then have "unat p + 1 \<noteq> 2 ^ 32"
    by (metis mod_self)
  then have "unat p + 1 < 2 ^ 32"
    using unat_limb_less [of p] by linarith
  then show ?thesis
    using False by simp
qed

lemma uval_inc: "uval (uint_inc a) = (uval a + 1) mod 2 ^ (32 * length a)"
proof (induction a)
  case Nil
  then show ?case by simp
next
  case (Cons p pn)
  have "uval (uint_inc (p # pn)) = (unat p + 1) mod 2 ^ 32 +
      2 ^ 32 * (((unat p + 1) div 2 ^ 32 + uval pn) mod 2 ^ (32 * length pn))"
    using mod_less [OF uval_bound [of pn]]
    by (simp only: uint_inc.simps uval.simps unat_inc inc_carry Cons.IH split: if_split)
      (simp add: Cons.IH)
  also have "\<dots> = (unat p + 1 + 2 ^ 32 * uval pn) mod (2 ^ 32 * 2 ^ (32 * length pn))"
    by (rule limb_step [symmetric]) simp
  finally show ?case
    by (simp only: uval.simps list.size pow32_Suc One_nat_def add_Suc_right add_0_right)
      (simp add: algebra_simps)
qed

lemma length_uint_neg [simp]: "length (uint_neg a) = length a"
  by (simp add: uint_neg_def)

lemma uval_neg: "uval (uint_neg a) = (2 ^ (32 * length a) - uval a) mod 2 ^ (32 * length a)"
proof -
  have "uval (uint_compl a) + 1 = 2 ^ (32 * length a) - uval a"
    using uval_compl [of a] by linarith
  then show ?thesis
    by (simp only: uint_neg_def uval_inc length_uint_compl)
qed

lemma length_uint_sub [simp]: "length a = length b \<Longrightarrow> length (uint_sub a b) = length b"
  by (simp add: uint_sub_def)

lemma uval_sub:
  assumes "length a = length b"
  shows "uval (uint_sub a b) = (uval a + (2 ^ (32 * length a) - uval b)) mod 2 ^ (32 * length a)"
  using assms by (simp add: uint_sub_def uval_add uval_neg mod_add_right_eq)

lemma uval_sub_le:
  assumes "length a = length b" and "uval b \<le> uval a"
  shows "uval (uint_sub a b) = uval a - uval b"
proof -
  have "uval a + (2 ^ (32 * length a) - uval b) = (uval a - uval b) + 2 ^ (32 * length a)"
    using uval_bound [of b] assms by simp
  then have "uval (uint_sub a b) = (uval a - uval b) mod 2 ^ (32 * length a)"
    using uval_sub [OF assms(1)] by (simp only: mod_add_self2)
  then show ?thesis
    using uval_bound [of a] by (simp add: less_imp_diff_less)
qed

section \<open>Products\<close>

lemma square_limb: "x < (2 :: nat) ^ 32 \<Longrightarrow> y < 2 ^ 32 \<Longrightarrow> x * y \<le> (2 ^ 32 - 1) * (2 ^ 32 - 1)"
  by (intro mult_le_mono) simp_all

lemma length_mul32_loop [simp]: "length (mul32_loop carry b32 a) = length a"
  by (induction carry b32 a rule: mul32_loop.induct) (simp_all add: Let_def)

lemma uval_mul32_loop:
  assumes "unat carry < 2 ^ 32"
  shows "uval (mul32_loop carry b32 a) = (unat carry + unat b32 * uval a) mod 2 ^ (32 * length a)"
  using assms
proof (induction carry b32 a rule: mul32_loop.induct)
  case (1 carry b32)
  then show ?case by simp
next
  case (2 carry b32 p pn)
  let ?n = "carry + ucast b32 * ucast p :: 64 word"
  let ?m = "unat carry + unat b32 * unat p"
  have prod: "unat b32 * unat p \<le> (2 ^ 32 - 1) * (2 ^ 32 - 1)"
    by (intro square_limb unat_limb_less)
  have "unat (ucast b32 * ucast p :: 64 word) = unat b32 * unat p"
    using prod unat_mult_64 [of "ucast b32" "ucast p"] by (simp add: unat_ucast_limb)
  then have n: "unat ?n = ?m"
    using prod "2.prems" unat_add_64 [of carry "ucast b32 * ucast p"] by simp
  have carry: "unat (drop_bit 32 ?n) = ?m div 2 ^ 32"
    by (simp only: unat_high_limb n)
  have "?m < 2 ^ 32 * 2 ^ 32"
    using prod "2.prems" by simp
  then have "unat (drop_bit 32 ?n) < 2 ^ 32"
    unfolding carry by (simp add: less_mult_imp_div_less)
  then have IH: "uval (mul32_loop (drop_bit 32 ?n) b32 pn) =
      (unat (drop_bit 32 ?n) + unat b32 * uval pn) mod 2 ^ (32 * length pn)"
    using "2.IH" [OF refl] by simp
  have "uval (mul32_loop carry b32 (p # pn)) =
      ?m mod 2 ^ 32 + 2 ^ 32 * ((?m div 2 ^ 32 + unat b32 * uval pn) mod 2 ^ (32 * length pn))"
    by (simp only: mul32_loop.simps Let_def uval.simps unat_low_limb n IH carry)
  also have "\<dots> = (?m + 2 ^ 32 * (unat b32 * uval pn)) mod (2 ^ 32 * 2 ^ (32 * length pn))"
    by (rule limb_step [symmetric]) simp
  also have "\<dots> = (unat carry + unat b32 * uval (p # pn)) mod 2 ^ (32 * length (p # pn))"
    by (simp only: uval.simps list.size pow32_Suc One_nat_def add_Suc_right add_0_right)
      (simp add: algebra_simps)
  finally show ?case .
qed

lemma uval_mul32: "uval (uint_mul32 a b32) = (uval a * unat b32) mod 2 ^ (32 * length a)"
  using uval_mul32_loop [of 0 b32 a] by (simp add: uint_mul32_def mult.commute)

lemma length_uint_mul32 [simp]: "length (uint_mul32 a b32) = length a"
  by (simp add: uint_mul32_def)

lemma length_mul_row: "length (mul_row carry aj pn b) = min (length pn) (length b)"
  by (induction carry aj pn b rule: mul_row.induct) (auto simp: Let_def)

lemma uval_mul_row:
  assumes "unat carry < 2 ^ 32" and "length pn \<le> length b"
  shows "uval (mul_row carry aj pn b) = (unat carry + uval pn + unat aj * uval b) mod 2 ^ (32 * length pn)"
  using assms
proof (induction carry aj pn b rule: mul_row.induct)
  case (1 carry aj p pn b bs)
  let ?n = "carry + ucast p + ucast aj * ucast b :: 64 word"
  let ?m = "unat carry + unat p + unat aj * unat b"
  have prod: "unat aj * unat b \<le> (2 ^ 32 - 1) * (2 ^ 32 - 1)"
    by (intro square_limb unat_limb_less)
  have p: "unat p < 2 ^ 32"
    by (rule unat_limb_less)
  have mult: "unat (ucast aj * ucast b :: 64 word) = unat aj * unat b"
    using prod unat_mult_64 [of "ucast aj" "ucast b"] by (simp add: unat_ucast_limb)
  have "unat (carry + ucast p :: 64 word) = unat carry + unat p"
    using p "1.prems" unat_add_64 [of carry "ucast p"] by (simp add: unat_ucast_limb)
  then have n: "unat ?n = ?m"
    using prod p "1.prems" mult unat_add_64 [of "carry + ucast p" "ucast aj * ucast b"] by simp
  have carry: "unat (drop_bit 32 ?n) = ?m div 2 ^ 32"
    by (simp only: unat_high_limb n)
  have "?m < 2 ^ 32 * 2 ^ 32"
    using prod p "1.prems" by simp
  then have "unat (drop_bit 32 ?n) < 2 ^ 32"
    unfolding carry by (simp add: less_mult_imp_div_less)
  then have IH: "uval (mul_row (drop_bit 32 ?n) aj pn bs) =
      (unat (drop_bit 32 ?n) + (uval pn + unat aj * uval bs)) mod 2 ^ (32 * length pn)"
    using "1.IH" [OF refl] "1.prems"(2) by (simp add: add.assoc)
  have "uval (mul_row carry aj (p # pn) (b # bs)) =
      ?m mod 2 ^ 32 + 2 ^ 32 * ((?m div 2 ^ 32 + (uval pn + unat aj * uval bs)) mod 2 ^ (32 * length pn))"
    by (simp only: mul_row.simps Let_def uval.simps unat_low_limb n IH carry)
  also have "\<dots> = (?m + 2 ^ 32 * (uval pn + unat aj * uval bs)) mod (2 ^ 32 * 2 ^ (32 * length pn))"
    by (rule limb_step [symmetric]) simp
  also have "\<dots> = (unat carry + uval (p # pn) + unat aj * uval (b # bs)) mod 2 ^ (32 * length (p # pn))"
    by (simp only: uval.simps list.size pow32_Suc One_nat_def add_Suc_right add_0_right)
      (simp add: algebra_simps)
  finally show ?case .
qed auto

lemma uval_mul_loop:
  assumes "length a = length pn" and "length pn \<le> length b"
  shows "uval (mul_loop a b pn) = (uval pn + uval a * uval b) mod 2 ^ (32 * length pn)
    \<and> length (mul_loop a b pn) = length pn"
  using assms
proof (induction a b pn rule: mul_loop.induct)
  case (1 b pn)
  then show ?case by simp
next
  case (2 aj as b pn)
  have row: "uval (mul_row 0 aj pn b) = (uval pn + unat aj * uval b) mod 2 ^ (32 * length pn)"
    using uval_mul_row [of 0 pn b aj] "2.prems" by simp
  obtain p pn' where r: "mul_row 0 aj pn b = p # pn'" and len: "length pn = Suc (length pn')"
    using "2.prems" length_mul_row [of 0 aj pn b] by (cases "mul_row 0 aj pn b") auto
  let ?T = "uval pn + unat aj * uval b" and ?M = "2 ^ (32 * length pn') :: nat"
  have T: "uval (p # pn') = ?T mod (2 ^ 32 * ?M)"
    using row unfolding r len pow32_Suc .
  have p: "unat p = ?T mod 2 ^ 32"
    unfolding uval_mod [of p pn', symmetric] T by (simp add: mod_mod_cancel)
  have pn': "uval pn' = ?T div 2 ^ 32 mod ?M"
    unfolding uval_div [of p pn', symmetric] T by (simp add: mod_mult2_eq)
  have IH: "uval (mul_loop as b pn') = (uval pn' + uval as * uval b) mod ?M"
    and lenIH: "length (mul_loop as b pn') = length pn'"
    using "2.IH" [OF r] "2.prems" len by simp_all
  have "uval (mul_loop (aj # as) b pn) = ?T mod 2 ^ 32 + 2 ^ 32 * ((?T div 2 ^ 32 + uval as * uval b) mod ?M)"
    by (simp only: mul_loop.simps r list.case uval.simps p IH) (simp only: pn' mod_add_left_eq)
  also have "\<dots> = (?T + 2 ^ 32 * (uval as * uval b)) mod (2 ^ 32 * ?M)"
    by (rule limb_step [symmetric]) simp
  also have "\<dots> = (uval pn + uval (aj # as) * uval b) mod 2 ^ (32 * length pn)"
    unfolding len pow32_Suc by (simp add: algebra_simps)
  finally show ?case
    using len lenIH by (simp add: r)
qed

lemma uval_mul:
  assumes "length a = length b"
  shows "uval (uint_mul a b) = (uval a * uval b) mod 2 ^ (32 * length a)"
  using uval_mul_loop [of a "replicate (length a) 0" b] assms by (simp add: uint_mul_def)

lemma length_uint_mul [simp]: "length a = length b \<Longrightarrow> length (uint_mul a b) = length b"
  using uval_mul_loop [of a "replicate (length a) 0" b] by (simp add: uint_mul_def)

section \<open>Bits and shifts\<close>

lemma bit_uval: "bit (uval a) n \<longleftrightarrow> n div 32 < length a \<and> bit (a ! (n div 32)) (n mod 32)"
proof (induction a arbitrary: n)
  case Nil
  then show ?case by simp
next
  case (Cons p pn)
  show ?case
  proof (cases "n < 32")
    case True
    have "bit (uval (p # pn)) n \<longleftrightarrow> bit (take_bit 32 (uval (p # pn))) n"
      using True by (simp add: bit_take_bit_iff)
    also have "take_bit 32 (uval (p # pn)) = unat p"
      unfolding take_bit_eq_mod by (rule uval_mod)
    finally show ?thesis
      using True by (simp add: bit_unsigned_iff del: uval.simps)
  next
    case False
    have "bit (uval (p # pn)) n \<longleftrightarrow> bit (drop_bit 32 (uval (p # pn))) (n - 32)"
      using False by (simp add: bit_drop_bit_eq del: uval.simps)
    also have "drop_bit 32 (uval (p # pn)) = uval pn"
      unfolding drop_bit_eq_div by (rule uval_div)
    also have "bit (uval pn) (n - 32) \<longleftrightarrow>
        (n - 32) div 32 < length pn \<and> bit (pn ! ((n - 32) div 32)) ((n - 32) mod 32)"
      by (rule Cons.IH)
    also have "(n - 32) mod 32 = n mod 32"
      using False by (simp add: le_mod_geq)
    finally show ?thesis
      using le_div_geq [of 32 n] False by simp
  qed
qed

lemma div_mod_32:
  assumes "x = 32 * q + r" and "(r :: nat) < 32"
  shows "x div 32 = q" and "x mod 32 = r"
  using assms by simp_all

lemma nat_eqI_bits: "(\<And>n. bit x n \<longleftrightarrow> bit y n) \<Longrightarrow> x = (y :: nat)"
  by (rule bit_eqI) simp

lemma length_fold:
  "(\<And>i pn. length (f i pn) = length pn) \<Longrightarrow> length (fold f xs pn) = length pn"
  by (induction xs arbitrary: pn) simp_all

lemma length_shl_step [simp]: "length (shl_step a k s i pn) = length pn"
  by (simp add: shl_step_def Let_def)

lemma length_shr_step [simp]: "length (shr_step a k s i pn) = length pn"
  by (simp add: shr_step_def Let_def)

lemma length_uint_shl [simp]: "length (uint_shl a shift) = length a"
  by (simp add: uint_shl_def length_fold)

lemma length_uint_shr [simp]: "length (uint_shr a shift) = length a"
  by (simp add: uint_shr_def length_fold)

lemma shl_step_nth:
  assumes "length pn = length a" and "m < length a"
  shows "shl_step a k s i pn ! m =
    pn ! m OR (if s \<noteq> 0 \<and> m = i + k + 1 then drop_bit (32 - s) (a ! i) else 0)
      OR (if m = i + k then push_bit s (a ! i) else 0)"
  using assms by (auto simp: shl_step_def Let_def nth_list_update)

lemma shr_step_nth:
  assumes "length pn = length a" and "m < length a" and "i < length a"
  shows "shr_step a k s i pn ! m =
    pn ! m OR (if s \<noteq> 0 \<and> i = m + k + 1 then push_bit (32 - s) (a ! i) else 0)
      OR (if i = m + k then drop_bit s (a ! i) else 0)"
  using assms by (auto simp: shr_step_def Let_def nth_list_update)

lemma shl_fold:
  assumes "n \<le> length a" and "m < length a"
  shows "fold (shl_step a k s) [0..<n] (replicate (length a) 0) ! m =
    (if s \<noteq> 0 \<and> k + 1 \<le> m \<and> m - k - 1 < n then drop_bit (32 - s) (a ! (m - k - 1)) else 0) OR
    (if k \<le> m \<and> m - k < n then push_bit s (a ! (m - k)) else 0)"
  using assms(1)
proof (induction n)
  case 0
  then show ?case
    using assms(2) by simp
next
  case (Suc n)
  define pn where "pn = fold (shl_step a k s) [0..<n] (replicate (length a) 0)"
  have "length pn = length a"
    by (simp add: pn_def length_fold)
  then have step: "shl_step a k s n pn ! m =
      pn ! m OR (if s \<noteq> 0 \<and> m = n + k + 1 then drop_bit (32 - s) (a ! n) else 0)
        OR (if m = n + k then push_bit s (a ! n) else 0)"
    using assms(2) by (rule shl_step_nth)
  have IH: "pn ! m =
      (if s \<noteq> 0 \<and> k + 1 \<le> m \<and> m - k - 1 < n then drop_bit (32 - s) (a ! (m - k - 1)) else 0) OR
      (if k \<le> m \<and> m - k < n then push_bit s (a ! (m - k)) else 0)"
    using Suc by (simp add: pn_def)
  have fold: "fold (shl_step a k s) [0..<Suc n] (replicate (length a) 0) = shl_step a k s n pn"
    by (simp add: pn_def)
  consider "m = n + k + 1" | "m = n + k" | "m \<noteq> n + k + 1" "m \<noteq> n + k" by blast
  then show ?case
    unfolding fold step IH by cases (auto simp: less_Suc_eq or.commute)
qed

lemma shr_fold:
  assumes "n \<le> length a" and "m < length a"
  shows "fold (shr_step a k s) [0..<n] (replicate (length a) 0) ! m =
    (if s \<noteq> 0 \<and> m + k + 1 < n then push_bit (32 - s) (a ! (m + k + 1)) else 0) OR
    (if m + k < n then drop_bit s (a ! (m + k)) else 0)"
  using assms(1)
proof (induction n)
  case 0
  then show ?case
    using assms(2) by simp
next
  case (Suc n)
  define pn where "pn = fold (shr_step a k s) [0..<n] (replicate (length a) 0)"
  have "length pn = length a"
    by (simp add: pn_def length_fold)
  then have step: "shr_step a k s n pn ! m =
      pn ! m OR (if s \<noteq> 0 \<and> n = m + k + 1 then push_bit (32 - s) (a ! n) else 0)
        OR (if n = m + k then drop_bit s (a ! n) else 0)"
    using assms(2) Suc.prems by (intro shr_step_nth) simp_all
  have IH: "pn ! m =
      (if s \<noteq> 0 \<and> m + k + 1 < n then push_bit (32 - s) (a ! (m + k + 1)) else 0) OR
      (if m + k < n then drop_bit s (a ! (m + k)) else 0)"
    using Suc by (simp add: pn_def)
  have fold: "fold (shr_step a k s) [0..<Suc n] (replicate (length a) 0) = shr_step a k s n pn"
    by (simp add: pn_def)
  consider "n = m + k + 1" | "n = m + k" | "n \<noteq> m + k + 1" "n \<noteq> m + k" by blast
  then show ?case
    unfolding fold step IH by cases (auto simp: less_Suc_eq or.commute)
qed

lemma uval_shl: "uval (uint_shl a shift) = (uval a * 2 ^ shift) mod 2 ^ (32 * length a)"
proof -
  define k s where "k = shift div 32" and "s = shift mod 32"
  have shift: "shift = 32 * k + s" and s: "s < 32"
    by (simp_all add: k_def s_def)
  have "uval (uint_shl a shift) = take_bit (32 * length a) (push_bit shift (uval a))"
  proof (rule nat_eqI_bits)
    fix n :: nat
    define m j where "m = n div 32" and "j = n mod 32"
    have n: "n = 32 * m + j" and j: "j < 32"
      by (simp_all add: m_def j_def)
    have in_range: "n < 32 * length a \<longleftrightarrow> m < length a"
      using n j by auto
    show "bit (uval (uint_shl a shift)) n \<longleftrightarrow> bit (take_bit (32 * length a) (push_bit shift (uval a))) n"
    proof (cases "m < length a")
      case False
      then show ?thesis
        using in_range by (simp add: bit_uval m_def [symmetric] bit_take_bit_iff)
    next
      case True
      have limb: "uint_shl a shift ! m =
          (if s \<noteq> 0 \<and> k + 1 \<le> m then drop_bit (32 - s) (a ! (m - k - 1)) else 0) OR
          (if k \<le> m then push_bit s (a ! (m - k)) else 0)"
      proof -
        have "uint_shl a shift = fold (shl_step a k s) [0..<length a] (replicate (length a) 0)"
          by (simp add: uint_shl_def k_def s_def)
        moreover have "m - k - 1 < length a" "m - k < length a"
          using True by simp_all
        ultimately show ?thesis
          using shl_fold [of "length a" a m k s] True by simp
      qed
      have "bit (uval (uint_shl a shift)) n \<longleftrightarrow> bit (uint_shl a shift ! m) j"
        using True by (simp add: bit_uval m_def [symmetric] j_def)
      also have "\<dots> \<longleftrightarrow> s \<noteq> 0 \<and> k + 1 \<le> m \<and> bit (a ! (m - k - 1)) (32 - s + j) \<or>
          k \<le> m \<and> s \<le> j \<and> bit (a ! (m - k)) (j - s)"
        using j by (auto simp: limb bit_or_iff bit_push_bit_iff bit_drop_bit_eq)
      also have "\<dots> \<longleftrightarrow> shift \<le> n \<and> bit (uval a) (n - shift)"
      proof (cases "s \<le> j")
        case sj: True
        have "\<not> bit (a ! (m - k - 1)) (32 - s + j)" if "s \<noteq> 0"
          using sj that s bit_imp_le_length [of "a ! (m - k - 1)" "32 - s + j"] by auto
        moreover have "shift \<le> n \<longleftrightarrow> k \<le> m"
          using sj j s unfolding n shift by auto
        moreover have "n - shift = 32 * (m - k) + (j - s)" if "k \<le> m"
          using sj that unfolding n shift by (simp add: diff_mult_distrib2)
        then have "(n - shift) div 32 = m - k" "(n - shift) mod 32 = j - s" if "k \<le> m"
          using j that by simp_all
        ultimately show ?thesis
          using sj True by (auto simp: bit_uval)
      next
        case sj: False
        have "shift \<le> n \<longleftrightarrow> k + 1 \<le> m"
          using sj j s unfolding n shift by auto
        moreover have "n - shift = 32 * (m - k - 1) + (32 - s + j)" if "k + 1 \<le> m"
          using sj that s unfolding n shift by (auto simp: diff_mult_distrib2)
        then have "(n - shift) div 32 = m - k - 1" "(n - shift) mod 32 = 32 - s + j" if "k + 1 \<le> m"
          using sj s that div_mod_32 [of "n - shift" "m - k - 1" "32 - s + j"] by simp_all
        ultimately show ?thesis
          using sj True by (auto simp: bit_uval)
      qed
      also have "\<dots> \<longleftrightarrow> bit (take_bit (32 * length a) (push_bit shift (uval a))) n"
        using True in_range by (simp add: bit_take_bit_iff bit_push_bit_iff)
      finally show ?thesis .
    qed
  qed
  then show ?thesis
    by (simp add: take_bit_eq_mod push_bit_eq_mult)
qed

lemma uval_shr: "uval (uint_shr a shift) = uval a div 2 ^ shift"
proof -
  define k s where "k = shift div 32" and "s = shift mod 32"
  have shift: "shift = 32 * k + s" and s: "s < 32"
    by (simp_all add: k_def s_def)
  have "uval (uint_shr a shift) = drop_bit shift (uval a)"
  proof (rule nat_eqI_bits)
    fix n :: nat
    define m j where "m = n div 32" and "j = n mod 32"
    have n: "n = 32 * m + j" and j: "j < 32"
      by (simp_all add: m_def j_def)
    have rhs: "bit (drop_bit shift (uval a)) n \<longleftrightarrow> bit (uval a) (n + shift)"
      by (simp add: bit_drop_bit_eq add.commute)
    show "bit (uval (uint_shr a shift)) n \<longleftrightarrow> bit (drop_bit shift (uval a)) n"
    proof (cases "m < length a")
      case False
      then have "length a \<le> (n + shift) div 32"
        unfolding m_def by (meson div_le_mono le_add1 le_trans not_less)
      then show ?thesis
        using False unfolding rhs by (simp add: bit_uval m_def [symmetric])
    next
      case True
      have limb: "uint_shr a shift ! m =
          (if s \<noteq> 0 \<and> m + k + 1 < length a then push_bit (32 - s) (a ! (m + k + 1)) else 0) OR
          (if m + k < length a then drop_bit s (a ! (m + k)) else 0)"
      proof -
        have "uint_shr a shift = fold (shr_step a k s) [0..<length a] (replicate (length a) 0)"
          by (simp add: uint_shr_def k_def s_def)
        then show ?thesis
          using shr_fold [of "length a" a m k s] True by simp
      qed
      have "bit (uval (uint_shr a shift)) n \<longleftrightarrow> bit (uint_shr a shift ! m) j"
        using True by (simp add: bit_uval m_def [symmetric] j_def)
      also have "\<dots> \<longleftrightarrow>
          s \<noteq> 0 \<and> m + k + 1 < length a \<and> 32 - s \<le> j \<and> bit (a ! (m + k + 1)) (j - (32 - s)) \<or>
          m + k < length a \<and> bit (a ! (m + k)) (s + j)"
        using j by (auto simp: limb bit_or_iff bit_push_bit_iff bit_drop_bit_eq)
      also have "\<dots> \<longleftrightarrow> bit (uval a) (n + shift)"
      proof (cases "s + j < 32")
        case sj: True
        have "n + shift = 32 * (m + k) + (s + j)"
          unfolding n shift by simp
        then have "(n + shift) div 32 = m + k" "(n + shift) mod 32 = s + j"
          using div_mod_32 [of "n + shift" "m + k" "s + j"] sj by blast+
        then show ?thesis
          using sj by (auto simp: bit_uval)
      next
        case sj: False
        have "\<not> bit (a ! (m + k)) (s + j)"
          using sj bit_imp_le_length [of "a ! (m + k)" "s + j"] by auto
        moreover have "j - (32 - s) < 32"
          using j by simp
        moreover have eq: "n + shift = 32 * (m + k + 1) + (j - (32 - s))"
          using sj s unfolding n shift by simp
        have "(n + shift) div 32 = m + k + 1" "(n + shift) mod 32 = j - (32 - s)"
          using div_mod_32 [OF eq] j by (simp_all del: div_mult_self2 add: less_imp_diff_less)
        ultimately show ?thesis
          using sj j by (auto simp: bit_uval)
      qed
      finally show ?thesis
        unfolding rhs .
    qed
  qed
  then show ?thesis
    by (simp add: drop_bit_eq_div)
qed

section \<open>Comparisons\<close>

text \<open>The most significant limb decides; \<open>uval_snoc\<close> splits it off.\<close>

lemma uval_append: "uval (a @ b) = uval a + 2 ^ (32 * length a) * uval b"
proof (induction a)
  case Nil
  then show ?case by simp
next
  case (Cons p pn)
  then show ?case
    by (simp only: append_Cons uval.simps length_Cons pow32_Suc) (simp add: algebra_simps)
qed

lemma digit_less:
  assumes "(x :: nat) < M" and "y < M"
  shows "x + M * i < y + M * j \<longleftrightarrow> i < j \<or> i = j \<and> x < y"
proof -
  have "u + M * p < v + M * q" if "p < q" "u < M" for u v p q
  proof -
    have "M * p + M \<le> M * q"
      using that(1) by (metis Suc_leI mult_Suc_right mult_le_mono2 add.commute)
    then show ?thesis
      using that(2) by linarith
  qed
  then show ?thesis
    using assms by (metis linorder_cases nat_add_left_cancel_less add.commute order_less_asym)
qed

lemma compare_loop_sign:
  assumes "length a = length b"
  shows "compare_loop (rev a) (rev b) =
    (if uval a < uval b then -1 else if uval b < uval a then 1 else 0)"
  using assms
proof (induction a arbitrary: b rule: rev_induct)
  case Nil
  then show ?case by simp
next
  case (snoc p pn)
  then obtain q qn where "b = qn @ [q]" and "length pn = length qn"
    by (cases b rule: rev_cases) auto
  then show ?case
    using snoc.IH [of qn]
      digit_less [of "uval pn" "2 ^ (32 * length qn)" "uval qn" "unat p" "unat q"]
      digit_less [of "uval qn" "2 ^ (32 * length qn)" "uval pn" "unat q" "unat p"]
      uval_bound [of pn] uval_bound [of qn]
    by (auto simp: uval_append word_less_nat_alt)
qed

lemma CompareTo_sign:
  "length a = length b \<Longrightarrow> CompareTo a b =
     (if uval a < uval b then -1 else if uval b < uval a then 1 else 0)"
  unfolding CompareTo_def by (rule compare_loop_sign)

lemma CompareTo_ge: "length a = length b \<Longrightarrow> 0 \<le> CompareTo a b \<longleftrightarrow> uval b \<le> uval a"
  by (simp add: CompareTo_sign)

section \<open>The number of bits\<close>

lemma bit_top:
  assumes "unat (p :: 32 word) < 2 ^ Suc i"
  shows "bit p i \<longleftrightarrow> 2 ^ i \<le> unat p"
proof -
  have "bit p i \<longleftrightarrow> odd (unat p div 2 ^ i)"
    using bit_iff_odd [of "unat p" i] by (simp add: bit_unsigned_iff)
  also have "unat p div 2 ^ i = (if unat p < 2 ^ i then 0 else 1)"
  proof (cases "unat p < 2 ^ i")
    case False
    then have "unat p div 2 ^ i = 1"
      using assms by (intro div_nat_eqI) simp_all
    then show ?thesis
      using False by simp
  qed simp
  finally show ?thesis
    by (simp add: not_less)
qed

lemma limb_bits_bounds:
  assumes "p \<noteq> 0" and "unat p < 2 ^ Suc b" and "b < 32"
  shows "2 ^ (limb_bits b p - 1) \<le> unat p \<and> unat p < 2 ^ limb_bits b p \<and> 1 \<le> limb_bits b p"
  using assms
proof (induction b p rule: limb_bits.induct)
  case (1 p)
  then show ?case
    by (simp add: unat_gt_0 Suc_le_eq)
next
  case (2 b p)
  have bit: "p AND push_bit (Suc b) 1 \<noteq> 0 \<longleftrightarrow> 2 ^ Suc b \<le> unat p"
    using bit_iff_and_push_bit_not_eq_0 [of p "Suc b"] bit_top [OF "2.prems"(2)] by simp
  show ?case
  proof (cases "2 ^ Suc b \<le> unat p")
    case True
    then show ?thesis
      using bit "2.prems"(2) by simp
  next
    case False
    then show ?thesis
      using "2.IH" bit "2.prems" by simp
  qed
qed

lemma uint_bits_bounds:
  "if uval a = 0 then uint_bits a = 0
   else 2 ^ (uint_bits a - 1) \<le> uval a \<and> uval a < 2 ^ uint_bits a \<and> 1 \<le> uint_bits a"
proof (induction a rule: rev_induct)
  case Nil
  then show ?case by (simp add: uint_bits_def)
next
  case (snoc p pn)
  show ?case
  proof (cases "p = 0")
    case True
    then have "uint_bits (pn @ [p]) = uint_bits pn" and "uval (pn @ [p]) = uval pn"
      by (simp_all add: uint_bits_def uval_append)
    then show ?thesis
      using snoc by (simp only:)
  next
    case False
    define L where "L = limb_bits 31 p"
    have L: "2 ^ (L - 1) \<le> unat p" "unat p < 2 ^ L" "1 \<le> L"
      using limb_bits_bounds [OF False, of 31] unat_limb_less [of p] by (simp_all add: L_def)
    have bits: "uint_bits (pn @ [p]) = 32 * length pn + L"
      using False by (simp add: uint_bits_def L_def)
    have val: "uval (pn @ [p]) = uval pn + 2 ^ (32 * length pn) * unat p"
      by (simp add: uval_append)
    have "2 ^ (32 * length pn) * 2 ^ (L - 1) \<le> 2 ^ (32 * length pn) * unat p"
      using L(1) by (intro mult_le_mono2)
    then have low: "2 ^ (32 * length pn + L - 1) \<le> uval (pn @ [p])"
      unfolding val using L(3) by (simp add: power_add [symmetric])
    have "2 ^ (32 * length pn) * (unat p + 1) \<le> 2 ^ (32 * length pn) * 2 ^ L"
      using L(2) by (intro mult_le_mono2) simp
    then have high: "uval (pn @ [p]) < 2 ^ (32 * length pn + L)"
      unfolding val power_add using uval_bound [of pn] by (simp add: algebra_simps)
    have "uval (pn @ [p]) \<noteq> 0"
      using low by (metis le_zero_eq power_not_zero zero_neq_numeral)
    then show ?thesis
      using low high L(3) unfolding bits by simp
  qed
qed

lemma uint_bits_le: "uint_bits a \<le> 32 * length a"
proof (cases "uval a = 0")
  case True
  then show ?thesis
    using uint_bits_bounds [of a] by simp
next
  case False
  then have "2 ^ (uint_bits a - 1) \<le> uval a"
    using uint_bits_bounds [of a] by simp
  then have "2 ^ (uint_bits a - 1) < (2 :: nat) ^ (32 * length a)"
    using uval_bound [of a] by (rule le_less_trans)
  then have "uint_bits a - 1 < 32 * length a"
    by (rule power_less_imp_less_exp [rotated]) simp
  then show ?thesis by linarith
qed

section \<open>Quotients\<close>

lemma length_set_quotient_bit [simp]: "length (set_quotient_bit shift pn) = length pn"
  by (simp add: set_quotient_bit_def)

lemma uval_set_quotient_bit:
  assumes "shift < 32 * length pn" and "2 ^ Suc shift dvd uval pn"
  shows "uval (set_quotient_bit shift pn) = uval pn + 2 ^ shift"
proof -
  have k: "shift div 32 < length pn"
    using assms(1) by (simp add: less_mult_imp_div_less mult.commute)
  have "bit (uval (set_quotient_bit shift pn)) n \<longleftrightarrow> bit (uval pn OR push_bit shift 1) n" for n :: nat
  proof -
    have "n = shift \<longleftrightarrow> n div 32 = shift div 32 \<and> n mod 32 = shift mod 32"
      by (metis div_mult_mod_eq)
    then show ?thesis
      using k by (auto simp: bit_uval set_quotient_bit_def nth_list_update bit_or_iff
          bit_push_bit_iff bit_1_iff bit_exp_iff)
  qed
  then have "uval (set_quotient_bit shift pn) = uval pn OR push_bit shift 1"
    by (rule nat_eqI_bits)
  also have "\<dots> = uval pn + push_bit shift 1"
  proof -
    obtain q where "uval pn = 2 ^ Suc shift * q"
      using assms(2) by (elim dvdE)
    then have "\<not> bit (uval pn) shift"
      by (simp add: bit_iff_odd)
    then have "uval pn AND push_bit shift 1 = 0"
      by (intro nat_eqI_bits) (auto simp: bit_and_iff bit_push_bit_iff bit_1_iff bit_exp_iff)
    then show ?thesis
      by (metis disjunctive_add_eq_or)
  qed
  finally show ?thesis
    by (simp add: push_bit_eq_mult)
qed

lemma length_div_loop: "length num = length dv \<Longrightarrow> length (div_loop t num dv pn) = length pn"
  by (induction t num dv pn rule: div_loop.induct) simp_all

lemma uval_div_loop:
  assumes "0 < d" and "length num = length pn" "length dv = length pn" and "t \<le> 32 * length pn"
    and "t \<noteq> 0 \<Longrightarrow> uval dv = d * 2 ^ (t - 1)"
    and "uval num < d * 2 ^ t" and "2 ^ t dvd uval pn"
  shows "uval (div_loop t num dv pn) = uval pn + uval num div d"
  using assms(2-)
proof (induction t num dv pn rule: div_loop.induct)
  case (1 num dv pn)
  then show ?case by simp
next
  case (2 shift num dv pn)
  have dv: "uval dv = d * 2 ^ shift"
    using "2.prems"(4) by simp
  have half: "uval (uint_shr dv 1) = d * 2 ^ (shift - 1)" if "shift \<noteq> 0"
    using that dv by (cases shift) (simp_all add: uval_shr)
  show ?case
  proof (cases "uval dv \<le> uval num")
    case True
    have sub: "uval (uint_sub num dv) = uval num - d * 2 ^ shift"
      using True "2.prems" dv by (simp add: uval_sub_le)
    have q: "uval (set_quotient_bit shift pn) = uval pn + 2 ^ shift"
      using "2.prems" by (intro uval_set_quotient_bit) simp_all
    have dvd: "2 ^ shift dvd uval pn"
      using "2.prems"(6) by (meson dvd_trans le_imp_power_dvd lessI less_imp_le)
    have small: "uval (uint_sub num dv) < d * 2 ^ shift"
      using "2.prems"(5) True dv unfolding sub by simp
    have "uval (div_loop shift (uint_sub num dv) (uint_shr dv 1) (set_quotient_bit shift pn)) =
        uval (set_quotient_bit shift pn) + uval (uint_sub num dv) div d"
      using True "2.prems" small dvd half q
      by (intro "2.IH"(1)) (simp_all add: CompareTo_ge)
    also have "\<dots> = uval pn + uval num div d"
    proof -
      have "uval num = (uval num - d * 2 ^ shift) + d * 2 ^ shift"
        using True dv by simp
      then have "uval num div d = (uval num - d * 2 ^ shift) div d + 2 ^ shift"
        using assms(1) by (metis div_mult_self4 add.commute less_not_refl2)
      then show ?thesis
        unfolding q sub by simp
    qed
    finally show ?thesis
      using True "2.prems" by (simp add: CompareTo_ge)
  next
    case False
    then have "uval num < d * 2 ^ shift"
      using dv by simp
    moreover have "2 ^ shift dvd uval pn"
      using "2.prems"(6) by (meson dvd_trans le_imp_power_dvd lessI less_imp_le)
    ultimately have "uval (div_loop shift num (uint_shr dv 1) pn) = uval pn + uval num div d"
      using False "2.prems" half by (intro "2.IH"(2)) (simp_all add: CompareTo_ge)
    then show ?thesis
      using False "2.prems" by (simp add: CompareTo_ge)
  qed
qed

lemma uint_div_spec:
  assumes "length a = length b"
  shows "if uval b = 0 then uint_div a b = None
    else \<exists>q. uint_div a b = Some q \<and> length q = length a \<and> uval q = uval a div uval b"
proof (cases "uval b = 0")
  case True
  then show ?thesis
    using uint_bits_bounds [of b] by (simp add: uint_div_def Let_def)
next
  case False
  have b: "2 ^ (uint_bits b - 1) \<le> uval b" "uval b < 2 ^ uint_bits b" "1 \<le> uint_bits b"
    using uint_bits_bounds [of b] False by simp_all
  show ?thesis
  proof (cases "uint_bits a < uint_bits b")
    case True
    have "uval a < uval b"
    proof (cases "uval a = 0")
      case False
      then have "uval a < 2 ^ uint_bits a"
        using uint_bits_bounds [of a] by simp
      also have "\<dots> \<le> 2 ^ (uint_bits b - 1)"
        using True by (intro power_increasing) simp_all
      finally show ?thesis
        using b(1) by simp
    qed (use \<open>uval b \<noteq> 0\<close> in simp)
    then show ?thesis
      using True b(3) \<open>uval b \<noteq> 0\<close> by (simp add: uint_div_def Let_def)
  next
    case False
    define sh where "sh = uint_bits a - uint_bits b"
    have na: "uint_bits a = uint_bits b + sh"
      using False by (simp add: sh_def)
    have a: "uval a < 2 ^ uint_bits a"
      using uint_bits_bounds [of a] by (cases "uval a = 0") simp_all
    have "uval b * 2 ^ sh < 2 ^ uint_bits b * 2 ^ sh"
      using b(2) by simp
    also have "\<dots> \<le> 2 ^ (32 * length a)"
      using uint_bits_le [of a] unfolding na by (simp add: power_add [symmetric])
    finally have shl: "uval (uint_shl b sh) = uval b * 2 ^ sh"
      using assms by (simp add: uval_shl)
    have "2 ^ uint_bits a = (2 :: nat) ^ (uint_bits b - 1) * 2 ^ Suc sh"
      using b(3) unfolding na by (cases "uint_bits b") (simp_all add: power_add)
    also have "\<dots> \<le> uval b * 2 ^ Suc sh"
      using b(1) by (intro mult_le_mono1)
    finally have bound: "uval a < uval b * 2 ^ Suc sh"
      using a by linarith
    have "uval (div_loop (Suc sh) a (uint_shl b sh) (replicate (length a) 0)) =
        uval (replicate (length a) 0) + uval a div uval b"
      using \<open>uval b \<noteq> 0\<close> assms shl bound uint_bits_le [of a] b(3) na
      by (intro uval_div_loop) simp_all
    then show ?thesis
      using False b(3) \<open>uval b \<noteq> 0\<close> assms
      by (simp add: uint_div_def Let_def sh_def [symmetric] length_div_loop del: div_loop.simps)
  qed
qed

lemma GetLow64_val:
  assumes "2 \<le> length a"
  shows "unat (GetLow64 a) = uval a mod 2 ^ 64"
proof -
  obtain p q pn where a: "a = p # q # pn"
    using assms by (metis Suc_le_length_iff numeral_2_eq_2)
  have "GetLow64 a = ucast p + push_bit 32 (ucast q)"
  proof -
    have "ucast p AND push_bit 32 (ucast q) = (0 :: 64 word)"
      by (intro bit_word_eqI) (auto simp: bit_simps dest: bit_imp_le_length)
    then show ?thesis
      by (simp add: GetLow64_def a disjunctive_add_eq_or)
  qed
  moreover have "unat (push_bit 32 (ucast q) :: 64 word) = 2 ^ 32 * unat q"
    using unat_limb_less [of q] by (simp add: push_bit_eq_mult unat_word_ariths unat_ucast_limb)
  ultimately have "unat (GetLow64 a) = unat p + 2 ^ 32 * unat q"
    using unat_add_64 [of "ucast p" "push_bit 32 (ucast q)"] unat_limb_less [of p] unat_limb_less [of q]
    by (simp add: unat_ucast_limb)
  moreover have "uval a = (unat p + 2 ^ 32 * unat q) + 2 ^ 64 * uval pn"
    by (simp add: a)
  moreover have "unat p + 2 ^ 32 * unat q < 2 ^ 64"
    using unat_limb_less [of p] unat_limb_less [of q] by simp
  ultimately show ?thesis
    by (simp only: mod_mult_self2 mod_less)
qed

end
