(* ===== verification/BlockIndex.thy ===== *)
theory BlockIndex
  imports Transaction Uint256
begin

text \<open>
  The block index, class \<open>CBlockIndex\<close> of \<open>src/chain.h\<close>. Entries live in a heap from pointers to
  records; a null pointer is \<open>None\<close>. The fields are those the modelled code reads or writes; the
  numbers it computes with (\<open>nChainWork\<close>, \<open>bnChainTrust\<close>) are lists of limbs, the hashes are
  256-bit words.
\<close>

type_synonym ptr = nat

record CBlockIndex =
  bi_phashBlock :: uint256
  bi_pprev :: "ptr option"
  bi_pnext :: "ptr option"
  bi_pskip :: "ptr option"
  bi_bnChainTrust :: limbs
  bi_nHeight :: int
  bi_nFile :: int
  bi_nDataPos :: "32 word"
  bi_nUndoPos :: "32 word"
  bi_nChainWork :: limbs
  bi_nTx :: "32 word"
  bi_nChainTx :: "32 word"
  bi_nStatus :: "32 word"
  bi_nFlags :: "32 word"
  bi_nStakeModifier :: "64 word"
  bi_nStakeModifierChecksum :: "32 word"
  bi_prevoutStake :: COutPoint
  bi_nStakeTime :: "32 word"
  bi_hashProofOfStake :: uint256
  bi_nMint :: int
  bi_nMoneySupply :: int
  bi_nVersion :: int
  bi_hashMerkleRoot :: uint256
  bi_nTime :: "32 word"
  bi_nBits :: "32 word"
  bi_nNonce :: "32 word"
  bi_nAccumulatorCheckpoint :: uint256
  bi_nSequenceId :: "32 word"

text \<open>\<open>SetNull\<close>; it leaves \<open>pnext\<close> unset, which no modelled code reads.\<close>

definition CBlockIndex_SetNull :: CBlockIndex where
  "CBlockIndex_SetNull =
     \<lparr>bi_phashBlock = 0, bi_pprev = None, bi_pnext = None, bi_pskip = None, bi_bnChainTrust = replicate 8 0, bi_nHeight = 0,
      bi_nFile = 0, bi_nDataPos = 0, bi_nUndoPos = 0, bi_nChainWork = replicate 8 0, bi_nTx = 0, bi_nChainTx = 0,
      bi_nStatus = 0, bi_nFlags = 0, bi_nStakeModifier = 0, bi_nStakeModifierChecksum = 0,
      bi_prevoutStake = COutPoint_SetNull, bi_nStakeTime = 0, bi_hashProofOfStake = 0, bi_nMint = 0, bi_nMoneySupply = 0,
      bi_nVersion = 0, bi_hashMerkleRoot = 0, bi_nTime = 0, bi_nBits = 0, bi_nNonce = 0, bi_nAccumulatorCheckpoint = 0,
      bi_nSequenceId = 0\<rparr>"

type_synonym index_heap = "ptr \<Rightarrow> CBlockIndex option"

section \<open>Validity levels\<close>

abbreviation (input) BLOCK_VALID_UNKNOWN :: "32 word" where "BLOCK_VALID_UNKNOWN \<equiv> 0"
abbreviation (input) BLOCK_VALID_HEADER :: "32 word" where "BLOCK_VALID_HEADER \<equiv> 1"
abbreviation (input) BLOCK_VALID_TREE :: "32 word" where "BLOCK_VALID_TREE \<equiv> 2"
abbreviation (input) BLOCK_VALID_TRANSACTIONS :: "32 word" where "BLOCK_VALID_TRANSACTIONS \<equiv> 3"
abbreviation (input) BLOCK_VALID_CHAIN :: "32 word" where "BLOCK_VALID_CHAIN \<equiv> 4"
abbreviation (input) BLOCK_VALID_SCRIPTS :: "32 word" where "BLOCK_VALID_SCRIPTS \<equiv> 5"
abbreviation (input) BLOCK_HAVE_DATA :: "32 word" where "BLOCK_HAVE_DATA \<equiv> 8"
abbreviation (input) BLOCK_HAVE_UNDO :: "32 word" where "BLOCK_HAVE_UNDO \<equiv> 16"
abbreviation (input) BLOCK_FAILED_VALID :: "32 word" where "BLOCK_FAILED_VALID \<equiv> 32"
abbreviation (input) BLOCK_FAILED_CHILD :: "32 word" where "BLOCK_FAILED_CHILD \<equiv> 64"

definition BLOCK_VALID_MASK :: "32 word" where
  "BLOCK_VALID_MASK =
     BLOCK_VALID_HEADER OR BLOCK_VALID_TREE OR BLOCK_VALID_TRANSACTIONS OR BLOCK_VALID_CHAIN OR
     BLOCK_VALID_SCRIPTS"

definition BLOCK_FAILED_MASK :: "32 word" where
  "BLOCK_FAILED_MASK = BLOCK_FAILED_VALID OR BLOCK_FAILED_CHILD"

text \<open>The assertions that only validity flags are passed give \<open>None\<close> when they fail.\<close>

definition IsValid :: "CBlockIndex \<Rightarrow> 32 word \<Rightarrow> bool option" where
  "IsValid bi nUpTo =
     (if nUpTo AND NOT BLOCK_VALID_MASK \<noteq> 0 then None
      else if bi_nStatus bi AND BLOCK_FAILED_MASK \<noteq> 0 then Some False
      else Some (nUpTo \<le> bi_nStatus bi AND BLOCK_VALID_MASK))"

definition RaiseValidity :: "CBlockIndex \<Rightarrow> 32 word \<Rightarrow> (bool \<times> CBlockIndex) option" where
  "RaiseValidity bi nUpTo =
     (if nUpTo AND NOT BLOCK_VALID_MASK \<noteq> 0 then None
      else if bi_nStatus bi AND BLOCK_FAILED_MASK \<noteq> 0 then Some (False, bi)
      else if bi_nStatus bi AND BLOCK_VALID_MASK < nUpTo
      then Some (True, bi\<lparr>bi_nStatus := (bi_nStatus bi AND NOT BLOCK_VALID_MASK) OR nUpTo\<rparr>)
      else Some (False, bi))"

section \<open>Proof of stake flags\<close>

abbreviation (input) BLOCK_PROOF_OF_STAKE :: "32 word" where "BLOCK_PROOF_OF_STAKE \<equiv> 1"
abbreviation (input) BLOCK_STAKE_ENTROPY :: "32 word" where "BLOCK_STAKE_ENTROPY \<equiv> 2"
abbreviation (input) BLOCK_STAKE_MODIFIER :: "32 word" where "BLOCK_STAKE_MODIFIER \<equiv> 4"

definition bi_IsProofOfStake :: "CBlockIndex \<Rightarrow> bool" where
  "bi_IsProofOfStake bi \<longleftrightarrow> bi_nFlags bi AND BLOCK_PROOF_OF_STAKE \<noteq> 0"

definition SetStakeEntropyBit :: "CBlockIndex \<Rightarrow> nat \<Rightarrow> bool \<times> CBlockIndex" where
  "SetStakeEntropyBit bi nEntropyBit =
     (if 1 < nEntropyBit then (False, bi)
      else (True, bi\<lparr>bi_nFlags :=
              bi_nFlags bi OR (if nEntropyBit \<noteq> 0 then BLOCK_STAKE_ENTROPY else 0)\<rparr>))"

definition GeneratedStakeModifier :: "CBlockIndex \<Rightarrow> bool" where
  "GeneratedStakeModifier bi \<longleftrightarrow> bi_nFlags bi AND BLOCK_STAKE_MODIFIER \<noteq> 0"

definition SetStakeModifier :: "CBlockIndex \<Rightarrow> 64 word \<Rightarrow> bool \<Rightarrow> CBlockIndex" where
  "SetStakeModifier bi nModifier fGeneratedStakeModifier =
     bi\<lparr>bi_nStakeModifier := nModifier,
        bi_nFlags := (if fGeneratedStakeModifier then bi_nFlags bi OR BLOCK_STAKE_MODIFIER
                      else bi_nFlags bi)\<rparr>"

definition GetBlockTime :: "CBlockIndex \<Rightarrow> int" where
  "GetBlockTime bi = uint (bi_nTime bi)"

section \<open>Median time\<close>

text \<open>The times of up to eleven blocks, sorted; the one in the middle.\<close>

fun past_times :: "nat \<Rightarrow> index_heap \<Rightarrow> ptr option \<Rightarrow> int list option" where
  "past_times 0 h p = Some []"
| "past_times (Suc n) h None = Some []"
| "past_times (Suc n) h (Some p) =
     (case h p of
        None \<Rightarrow> None
      | Some bi \<Rightarrow>
          (case past_times n h (bi_pprev bi) of
             None \<Rightarrow> None
           | Some ts \<Rightarrow> Some (GetBlockTime bi # ts)))"

definition nMedianTimeSpan :: nat where
  "nMedianTimeSpan = 11"

definition GetMedianTimePast :: "index_heap \<Rightarrow> ptr \<Rightarrow> int option" where
  "GetMedianTimePast h p =
     (case past_times nMedianTimeSpan h (Some p) of
        None \<Rightarrow> None
      | Some ts \<Rightarrow> Some (sort ts ! (length ts div 2)))"

end
