(* ===== verification/Pow.thy ===== *)
theory Pow
  imports BlockIndex
begin

text \<open>
  Difficulty and proof of work: the compact form of a target (\<open>uint256::SetCompact\<close> and
  \<open>GetCompact\<close>, \<open>src/uint256.cpp\<close>), \<open>src/pow.cpp\<close> and \<open>CBlockIndex::GetBlockTrust\<close> of
  \<open>src/chain.cpp\<close>, on the limbs of theory \<open>Uint256\<close>. The network parameters \<open>Params()\<close> are a record.
\<close>

section \<open>The compact form\<close>

definition uint256_of :: "32 word \<Rightarrow> limbs" where
  "uint256_of w = uint_of64 8 (ucast w)"

definition compact_size :: "32 word \<Rightarrow> nat" where
  "compact_size nCompact = unat (drop_bit 24 nCompact)"

definition SetCompact :: "32 word \<Rightarrow> limbs \<times> bool \<times> bool" where
  "SetCompact nCompact =
     (let nSize = compact_size nCompact;
          nWord = nCompact AND 0x007fffff;
          nWord' = (if nSize \<le> 3 then drop_bit (8 * (3 - nSize)) nWord else nWord);
          this = (if nSize \<le> 3 then uint256_of nWord'
                  else uint_shl (uint256_of nWord') (8 * (nSize - 3)));
          fNegative = (nWord' \<noteq> 0 \<and> nCompact AND 0x00800000 \<noteq> 0);
          fOverflow = (nWord' \<noteq> 0 \<and>
            (34 < nSize \<or> 0xff < nWord' \<and> 33 < nSize \<or> 0xffff < nWord' \<and> 32 < nSize))
      in (this, fNegative, fOverflow))"

text \<open>\<open>None\<close> is a failed assertion.\<close>

definition GetCompact :: "limbs \<Rightarrow> bool \<Rightarrow> 32 word option" where
  "GetCompact a fNegative =
     (let nSize = (uint_bits a + 7) div 8;
          nCompact = (if nSize \<le> 3 then ucast (push_bit (8 * (3 - nSize)) (GetLow64 a))
                      else ucast (GetLow64 (uint_shr a (8 * (nSize - 3))))) :: 32 word;
          nCompact' = (if nCompact AND 0x00800000 \<noteq> 0 then drop_bit 8 nCompact else nCompact);
          nSize' = (if nCompact AND 0x00800000 \<noteq> 0 then nSize + 1 else nSize)
      in if nCompact' AND NOT 0x007fffff \<noteq> 0 \<or> 256 \<le> nSize' then None
         else
           let c = nCompact' OR push_bit 24 (of_nat nSize')
           in Some (c OR (if fNegative \<and> c AND 0x007fffff \<noteq> 0 then 0x00800000 else 0)))"

section \<open>Proof of work\<close>

record chain_params =
  ProofOfWorkLimit :: limbs
  ProofOfStakeLimit :: limbs
  TargetSpacing :: int
  TargetTimespan :: int
  PastBlocksMin :: int
  SkipProofOfWorkCheck :: bool
  HashGenesisBlock :: limbs

definition uint256_of_int :: "int \<Rightarrow> limbs" where
  "uint256_of_int i = uint_of64 8 (of_int i)"

text \<open>
  The retarget factor is an \<open>int64_t\<close>; the overload of \<open>operator*=\<close> it selects takes a
  \<open>uint32_t\<close>, the one of \<open>operator/=\<close> a 256-bit number.
\<close>

definition retarget :: "chain_params \<Rightarrow> limbs \<Rightarrow> int \<Rightarrow> limbs option" where
  "retarget params bnNew nActualSpacing =
     (let nInterval = TargetTimespan params div TargetSpacing params;
          bnNew = uint_mul32 bnNew
            (of_int ((nInterval - 1) * TargetSpacing params + nActualSpacing + nActualSpacing))
      in case uint_div bnNew (uint256_of_int ((nInterval + 1) * TargetSpacing params)) of
           None \<Rightarrow> None
         | Some bnNew \<Rightarrow>
             Some (if CompareTo bnNew (uint256_of 0) \<le> 0 \<or> CompareTo bnNew (ProofOfStakeLimit params) > 0
                   then ProofOfStakeLimit params else bnNew))"

text \<open>\<open>None\<close>: a dangling pointer, a division by zero or a failed assertion.\<close>

definition GetNextWorkRequired :: "chain_params \<Rightarrow> index_heap \<Rightarrow> ptr option \<Rightarrow> 32 word option" where
  "GetNextWorkRequired params h pindexLast =
     (case pindexLast of
        None \<Rightarrow> GetCompact (ProofOfWorkLimit params) False
      | Some p \<Rightarrow> do {
          last \<leftarrow> h p;
          if bi_nHeight last = 0 \<or> bi_nHeight last < PastBlocksMin params
          then GetCompact (ProofOfWorkLimit params) False
          else do {
            pp \<leftarrow> bi_pprev last;
            prev \<leftarrow> h pp;
            let nActualSpacing = GetBlockTime last - GetBlockTime prev;
            let nActualSpacing = (if nActualSpacing < 0 then 1 else nActualSpacing);
            bnNew \<leftarrow> retarget params (fst (SetCompact (bi_nBits last))) nActualSpacing;
            GetCompact bnNew False } })"

definition CheckProofOfWork :: "chain_params \<Rightarrow> limbs \<Rightarrow> 32 word \<Rightarrow> bool" where
  "CheckProofOfWork params hash nBits =
     (if SkipProofOfWorkCheck params then True
      else
        case SetCompact nBits of
          (bnTarget, fNegative, fOverflow) \<Rightarrow>
            if fNegative \<or> EqualTo bnTarget 0 \<or> fOverflow \<or>
               CompareTo bnTarget (ProofOfWorkLimit params) > 0 then False
            else if hash \<noteq> HashGenesisBlock params \<and> CompareTo hash bnTarget > 0 then False
            else True)"

definition GetBlockProof :: "32 word \<Rightarrow> limbs option" where
  "GetBlockProof nBits =
     (case SetCompact nBits of
        (bnTarget, fNegative, fOverflow) \<Rightarrow>
          if fNegative \<or> fOverflow \<or> EqualTo bnTarget 0 then Some (uint256_of 0)
          else
            (case uint_div (uint_compl bnTarget) (uint_add bnTarget (uint256_of 1)) of
               None \<Rightarrow> None
             | Some q \<Rightarrow> Some (uint_add q (uint256_of 1))))"

definition GetBlockTrust :: "CBlockIndex \<Rightarrow> limbs option" where
  "GetBlockTrust bi =
     (let bnTarget = fst (SetCompact (bi_nBits bi)) in
      if CompareTo bnTarget (uint256_of 0) \<le> 0 then Some (uint256_of 0)
      else if bi_IsProofOfStake bi then
        uint_div (uint_shl (uint256_of 1) 256) (uint_add bnTarget (uint256_of 1))
      else
        (case uint_div (uint_shr (uint_compl (uint256_of 0)) 20) (uint_add bnTarget (uint256_of 1)) of
           None \<Rightarrow> None
         | Some bnPoWTrust \<Rightarrow>
             Some (if CompareTo bnPoWTrust (uint256_of 1) > 0 then bnPoWTrust else uint256_of 1)))"

section \<open>What a compact target means\<close>

definition mantissa :: "32 word \<Rightarrow> nat" where
  "mantissa nCompact = unat nCompact mod 2 ^ 23"

definition compact_value :: "32 word \<Rightarrow> nat" where
  "compact_value nCompact =
     (if compact_size nCompact \<le> 3 then mantissa nCompact div 256 ^ (3 - compact_size nCompact)
      else mantissa nCompact * 256 ^ (compact_size nCompact - 3))"

lemma uval_uint256_of [simp]: "uval (uint256_of w) = unat w" "length (uint256_of w) = 8"
proof -
  have "drop_bit 32 (ucast w :: 64 word) = 0"
    by (rule bit_word_eqI) (auto simp: bit_simps dest: bit_imp_le_length)
  moreover have "ucast (ucast w :: 64 word) = w"
    by (rule bit_word_eqI) (auto simp: bit_simps dest: bit_imp_le_length)
  ultimately show "uval (uint256_of w) = unat w" "length (uint256_of w) = 8"
    by (simp_all add: uint256_of_def uint_of64_def)
qed

lemma unat_mantissa: "unat (c AND 0x007fffff :: 32 word) = mantissa c"
proof -
  have "(0x007fffff :: 32 word) = mask 23"
    by (simp add: mask_eq_exp_minus_1)
  then have "c AND 0x007fffff = take_bit 23 c"
    by (simp add: take_bit_eq_mask)
  then show ?thesis
    unfolding mantissa_def by (simp only: unsigned_take_bit_eq) (simp add: take_bit_eq_mod)
qed

lemma unat_drop_bit: "unat (drop_bit n w :: 'a :: len word) = unat w div 2 ^ n"
proof -
  have "unat (drop_bit n w) = drop_bit n (take_bit LENGTH('a) (unat w))"
    by (rule unsigned_drop_bit_eq)
  also have "take_bit LENGTH('a) (unat w) = unat w"
    by (simp add: take_bit_nat_eq_self_iff)
  finally show ?thesis
    by (simp only: drop_bit_eq_div)
qed

lemma mantissa_less: "mantissa c < 2 ^ 23"
  by (simp add: mantissa_def)

lemma length_SetCompact [simp]: "length (fst (SetCompact c)) = 8"
  by (simp add: SetCompact_def Let_def)

lemma pow_256: "(256 :: nat) ^ n = 2 ^ (8 * n)"
  by (simp add: power_mult)

lemma SetCompact_value: "uval (fst (SetCompact c)) = compact_value c mod 2 ^ 256"
proof (cases "compact_size c \<le> 3")
  case True
  define nWord where "nWord = c AND 0x007fffff"
  have "unat (drop_bit n nWord) = mantissa c div 2 ^ n" for n
    unfolding unat_drop_bit nWord_def unat_mantissa ..
  moreover have "mantissa c div 256 ^ (3 - compact_size c) < 2 ^ 256"
    using mantissa_less [of c]
    by (intro le_less_trans [OF div_le_dividend]) simp
  ultimately show ?thesis
    using True by (simp add: SetCompact_def Let_def compact_value_def pow_256 nWord_def [symmetric])
next
  case False
  then show ?thesis
    by (simp add: SetCompact_def Let_def uval_shl unat_mantissa compact_value_def pow_256)
qed

text \<open>The overflow flag says exactly that the value does not fit in 256 bits.\<close>

lemma SetCompact_overflow: "snd (snd (SetCompact c)) \<longleftrightarrow> 2 ^ 256 \<le> compact_value c"
proof -
  define s m where "s = compact_size c" and "m = mantissa c"
  have m: "m < 2 ^ 23"
    using mantissa_less by (simp add: m_def)
  show ?thesis
  proof (cases "s \<le> 3")
    case True
    have "m div 256 ^ (3 - s) \<le> m"
      by (rule div_le_dividend)
    also have "m < 2 ^ 256"
      using m by simp
    finally show ?thesis
      using True by (simp add: SetCompact_def Let_def compact_value_def s_def m_def)
  next
    case False
    define e where "e = s - 3"
    have word: "(x :: nat) < m \<longleftrightarrow> of_nat x < c AND (0x007fffff :: 32 word)" if "x < 2 ^ 32" for x
      using that by (simp add: word_less_nat_alt unat_mantissa m_def unat_of_nat)
    have flag: "snd (snd (SetCompact c)) \<longleftrightarrow>
        m \<noteq> 0 \<and> (34 < s \<or> 0xff < m \<and> 33 < s \<or> 0xffff < m \<and> 32 < s)"
      using False word [of 0] word [of "0xff"] word [of "0xffff"]
      by (simp add: SetCompact_def Let_def s_def [symmetric] word_neq_0_conv)
    have val: "compact_value c = m * 2 ^ (8 * e)"
      using False by (simp add: compact_value_def s_def m_def e_def pow_256)
    have big: "2 ^ 256 \<le> m * 2 ^ (8 * e) \<longleftrightarrow> 2 ^ (256 - 8 * e) \<le> m" if "8 * e \<le> 256"
    proof -
      have "(2 :: nat) ^ 256 = 2 ^ (256 - 8 * e) * 2 ^ (8 * e)"
        using that by (simp add: power_add [symmetric])
      then show ?thesis
        by (simp only: mult_le_cancel2) simp
    qed
    consider "s \<le> 32" | "s = 33" | "s = 34" | "34 < s"
      by linarith
    then show ?thesis
    proof cases
      case 1
      then have e: "8 * e \<le> 232"
        by (simp add: e_def)
      then have "(2 :: nat) ^ 24 \<le> 2 ^ (256 - 8 * e)"
        by (intro power_increasing) simp_all
      then show ?thesis
        using 1 m e big unfolding flag val by (simp add: not_le)
    next
      case 2
      then show ?thesis
        using big unfolding flag val by (simp add: e_def) linarith
    next
      case 3
      then show ?thesis
        using big unfolding flag val by (simp add: e_def) linarith
    next
      case 4
      then have "(2 :: nat) ^ 256 \<le> 2 ^ (8 * e)"
        unfolding e_def by (intro power_increasing) simp_all
      then have "m \<noteq> 0 \<Longrightarrow> 2 ^ 256 \<le> m * 2 ^ (8 * e)"
        by (metis One_nat_def Suc_leI gr0I le_trans mult.commute mult_le_mono2 nat_mult_1_right)
      then show ?thesis
        using 4 unfolding flag val by (cases "m = 0") (simp_all add: e_def)
    qed
  qed
qed

section \<open>The compact form of a number\<close>

lemma uint_bytes_bounds:
  assumes "uval a \<noteq> 0"
  defines "s \<equiv> (uint_bits a + 7) div 8"
  shows "1 \<le> s" and "256 ^ (s - 1) \<le> uval a" and "uval a < 256 ^ s"
proof -
  have b: "2 ^ (uint_bits a - 1) \<le> uval a" "uval a < 2 ^ uint_bits a" "1 \<le> uint_bits a"
    using uint_bits_bounds [of a] assms(1) by simp_all
  have s: "8 * (s - 1) \<le> uint_bits a - 1" "uint_bits a \<le> 8 * s" and "1 \<le> s"
    using b(3) unfolding s_def by linarith+
  then show "1 \<le> s" by simp
  have "(2 :: nat) ^ (8 * (s - 1)) \<le> 2 ^ (uint_bits a - 1)"
    using s(1) by (intro power_increasing) simp_all
  then show "256 ^ (s - 1) \<le> uval a"
    using b(1) unfolding pow_256 by (rule le_trans)
  have "(2 :: nat) ^ uint_bits a \<le> 2 ^ (8 * s)"
    using s(2) by (intro power_increasing) simp_all
  then show "uval a < 256 ^ s"
    using b(2) unfolding pow_256 by (rule less_le_trans [rotated])
qed

definition norm_mantissa :: "nat \<Rightarrow> nat \<Rightarrow> nat" where
  "norm_mantissa s v = (if s \<le> 3 then v * 256 ^ (3 - s) else v div 256 ^ (s - 3))"

lemma norm_mantissa_less:
  assumes "v < 256 ^ s"
  shows "norm_mantissa s v < 2 ^ 24"
proof (cases "s \<le> 3")
  case True
  then have "v * 256 ^ (3 - s) < 256 ^ s * 256 ^ (3 - s)"
    using assms by simp
  also have "\<dots> = (2 :: nat) ^ 24"
    using True by (simp add: power_add [symmetric])
  finally show ?thesis
    using True by (simp add: norm_mantissa_def)
next
  case False
  then have "(256 :: nat) ^ s = 2 ^ 24 * 256 ^ (s - 3)"
    using power_add [of "256 :: nat" 3 "s - 3"] by simp
  then show ?thesis
    using False assms by (simp add: norm_mantissa_def less_mult_imp_div_less)
qed

lemma compact_of_parts:
  assumes "unat m < 2 ^ 23" and "s < 256"
  defines "c \<equiv> m OR push_bit 24 (of_nat s :: 32 word)"
  shows "mantissa c = unat m" and "compact_size c = s" and "c AND 0x00800000 = 0"
proof -
  have "take_bit 23 m = m"
  proof (rule unsigned_word_eqI)
    have "unat (take_bit 23 m) = take_bit 23 (unat m)"
      by (simp only: unsigned_take_bit_eq)
    then show "unat (take_bit 23 m) = unat m"
      using assms(1) by (simp only: take_bit_nat_eq_self_iff)
  qed
  then have m: "bit m n \<Longrightarrow> n < 23" for n
    by (metis bit_take_bit_iff)
  have "m AND push_bit 24 (of_nat s) = 0"
    by (rule bit_word_eqI) (auto simp: bit_simps dest: m)
  then have "c = m + push_bit 24 (of_nat s)"
    unfolding c_def by (metis disjunctive_add_eq_or)
  moreover have "unat (push_bit 24 (of_nat s) :: 32 word) = s * 2 ^ 24"
    using assms(2) by (simp add: push_bit_eq_mult unat_word_ariths unat_of_nat)
  ultimately have c: "unat c = unat m + s * 2 ^ 24"
    using assms(1,2) by (simp add: unat_word_ariths)
  show "compact_size c = s"
    using assms(1) unfolding compact_size_def unat_drop_bit c by simp
  have "unat c = unat m + 2 ^ 23 * (2 * s)"
    unfolding c by simp
  then show "mantissa c = unat m"
    using assms(1) unfolding mantissa_def by (simp only: mod_mult_self2 mod_less)
  have "(0x00800000 :: 32 word) = push_bit 23 1"
    by (simp add: push_bit_eq_mult)
  moreover have "\<not> bit c 23"
    unfolding c_def by (auto simp: bit_simps dest: m)
  then have "c AND push_bit 23 1 = 0"
    using bit_iff_and_push_bit_not_eq_0 [of c 23] by blast
  ultimately show "c AND 0x00800000 = 0"
    by simp
qed

lemma GetCompact_parts:
  assumes "length a = 8" and "uval a < 256 ^ s" and "s = (uint_bits a + 7) div 8"
  defines "m \<equiv> norm_mantissa s (uval a)"
  defines "m' \<equiv> if 2 ^ 23 \<le> m then m div 256 else m"
  defines "s' \<equiv> if 2 ^ 23 \<le> m then s + 1 else s"
  shows "\<exists>c. GetCompact a False = Some c \<and> mantissa c = m' \<and> compact_size c = s' \<and> c AND 0x00800000 = 0"
proof -
  define nc where "nc = (if s \<le> 3 then ucast (push_bit (8 * (3 - s)) (GetLow64 a))
    else ucast (GetLow64 (uint_shr a (8 * (s - 3)))) :: 32 word)"
  have m: "m < 2 ^ 24"
    using norm_mantissa_less [OF assms(2)] by (simp add: m_def)
  have nc: "unat nc = m"
  proof (cases "s \<le> 3")
    case True
    then have "(256 :: nat) ^ s \<le> 256 ^ 3"
      by (intro power_increasing) simp_all
    then have "uval a < 2 ^ 64"
      using assms(2) by simp
    then have "unat (GetLow64 a) = uval a"
      using GetLow64_val [of a] assms(1) by simp
    then have "push_bit (8 * (3 - s)) (unat (GetLow64 a)) = m"
      using True by (simp add: m_def norm_mantissa_def push_bit_eq_mult pow_256)
    then have "unat (push_bit (8 * (3 - s)) (GetLow64 a)) = m"
      using m by (simp only: unsigned_push_bit_eq) (simp add: take_bit_nat_eq_self_iff)
    then show ?thesis
      using True m by (simp add: nc_def unsigned_ucast_eq take_bit_nat_eq_self_iff)
  next
    case False
    then have "unat (GetLow64 (uint_shr a (8 * (s - 3)))) = m mod 2 ^ 64"
      using GetLow64_val [of "uint_shr a (8 * (s - 3))"] assms(1)
      by (simp add: uval_shr m_def norm_mantissa_def pow_256)
    then show ?thesis
      using False m by (simp add: nc_def unsigned_ucast_eq take_bit_nat_eq_self_iff)
  qed
  have "(0x00800000 :: 32 word) = push_bit 23 1"
    by (simp add: push_bit_eq_mult)
  then have top: "nc AND 0x00800000 \<noteq> 0 \<longleftrightarrow> 2 ^ 23 \<le> m"
    using bit_iff_and_push_bit_not_eq_0 [of nc 23] bit_top [of nc 23] m nc by simp
  define nc' where "nc' = (if nc AND 0x00800000 \<noteq> 0 then drop_bit 8 nc else nc)"
  have nc': "unat nc' = m'"
    by (simp add: nc'_def top m'_def unat_drop_bit nc)
  have m': "m' < 2 ^ 23"
    using m by (simp add: m'_def less_mult_imp_div_less)
  have "nc' AND 0x007fffff = nc'"
  proof (rule unsigned_word_eqI)
    show "unat (nc' AND 0x007fffff) = unat nc'"
      using m' nc' by (simp add: unat_mantissa mantissa_def)
  qed
  then have mask: "nc' AND NOT 0x007fffff = 0"
    by (metis and.assoc and.commute bit.conj_cancel_right and_zero_eq)
  have "s \<le> 32"
    using uint_bits_le [of a] assms(1,3) by simp
  then have s': "s' < 256"
    by (simp add: s'_def)
  have "GetCompact a False = Some (nc' OR push_bit 24 (of_nat s'))"
    using mask s' top
    by (cases "2 ^ 23 \<le> m")
      (simp_all add: GetCompact_def Let_def assms(3) [symmetric] nc_def [symmetric] nc'_def s'_def)
  then show ?thesis
    using compact_of_parts [of nc' s'] m' s' nc' by simp
qed

text \<open>
  The compact form keeps the leading bytes: what it drops is a multiple of a power of 256, less
  than one part in 32768 of the number.
\<close>

lemma GetCompact_value:
  assumes "length a = 8"
  shows "\<exists>c k. GetCompact a False = Some c \<and> c AND 0x00800000 = 0 \<and>
    compact_value c = uval a div 256 ^ k * 256 ^ k \<and> (k = 0 \<or> 2 ^ 15 * 256 ^ k \<le> uval a)"
proof -
  define v s where "v = uval a" and "s = (uint_bits a + 7) div 8"
  have v: "v < 256 ^ s"
    using uint_bytes_bounds(3) [of a] by (cases "uval a = 0") (simp_all add: v_def s_def)
  define m where "m = norm_mantissa s v"
  obtain c where c: "GetCompact a False = Some c" "c AND 0x00800000 = 0"
    "mantissa c = (if 2 ^ 23 \<le> m then m div 256 else m)"
    "compact_size c = (if 2 ^ 23 \<le> m then s + 1 else s)"
    using GetCompact_parts [OF assms, of s] v by (auto simp: m_def v_def s_def)
  have split: "(256 :: nat) ^ (s - 2) = 256 ^ (s - 3) * 256" if "3 \<le> s"
  proof -
    have "s - 2 = Suc (s - 3)"
      using that by simp
    then show ?thesis by simp
  qed
  have low: "256 ^ (s - 1) \<le> v" if "3 < s"
  proof -
    have "v \<noteq> 0"
    proof
      assume "v = 0"
      then have "uint_bits a = 0"
        using uint_bits_bounds [of a] by (simp add: v_def)
      then show False
        using that by (simp add: s_def)
    qed
    then show ?thesis
      using uint_bytes_bounds(2) [of a] by (simp add: v_def s_def)
  qed
  consider "m < 2 ^ 23" "s \<le> 3" | "m < 2 ^ 23" "3 < s" | "2 ^ 23 \<le> m" "s < 3" | "2 ^ 23 \<le> m" "3 \<le> s"
    by linarith
  then have "\<exists>k. compact_value c = v div 256 ^ k * 256 ^ k \<and> (k = 0 \<or> 2 ^ 15 * 256 ^ k \<le> v)"
  proof cases
    case 1
    then show ?thesis
      using c(3,4) by (intro exI [of _ 0]) (simp add: compact_value_def m_def norm_mantissa_def)
  next
    case 2
    have "(256 :: nat) ^ (s - 1) = 256 ^ (s - 3) * 2 ^ 16"
    proof -
      have "s - 1 = (s - 3) + 2"
        using 2 by simp
      then show ?thesis
        by (simp only: power_add) simp
    qed
    then have "2 ^ 15 * 256 ^ (s - 3) \<le> v"
      using low [OF 2(2)] by simp
    then show ?thesis
      using 2 c(3,4) by (intro exI [of _ "s - 3"]) (simp add: compact_value_def m_def norm_mantissa_def)
  next
    case 3
    have "m div 256 = v * 256 ^ (2 - s)"
    proof -
      have "3 - s = Suc (2 - s)"
        using 3 by simp
      then have "m = v * 256 ^ (2 - s) * 256"
        using 3 by (simp add: m_def norm_mantissa_def)
      then show ?thesis by simp
    qed
    then show ?thesis
      using 3 c(3,4) by (intro exI [of _ 0]) (simp add: compact_value_def)
  next
    case 4
    have m: "m = v div 256 ^ (s - 3)"
      using 4 by (cases "s = 3") (simp_all add: m_def norm_mantissa_def)
    then have "m div 256 = v div 256 ^ (s - 2)"
      using split [OF 4(2)] by (simp add: div_mult2_eq)
    moreover have "256 ^ (s - 3) * 2 ^ 23 \<le> 256 ^ (s - 3) * m"
      using 4(1) by (intro mult_le_mono2)
    then have "256 ^ (s - 3) * 2 ^ 23 \<le> v"
      unfolding m by (meson div_times_less_eq_dividend le_trans times_div_less_eq_dividend)
    then have "2 ^ 15 * 256 ^ (s - 2) \<le> v"
      unfolding split [OF 4(2)] by simp
    moreover have "compact_size c - 3 = s - 2" "3 < compact_size c" "mantissa c = m div 256"
      using 4 c(3,4) by simp_all
    ultimately show ?thesis
      by (intro exI [of _ "s - 2"]) (simp add: compact_value_def)
  qed
  then show ?thesis
    using c(1,2) by (auto simp: v_def)
qed

section \<open>Work\<close>

text \<open>
  What the computation of a block's work needs of the 256-bit numbers, and the identity it
  rests on: the modulus itself cannot be represented, its quotient can.
\<close>

locale modular_uint =
  fixes val :: "'a \<Rightarrow> nat" and ok :: "'a \<Rightarrow> bool" and M :: nat and one :: 'a
    and add :: "'a \<Rightarrow> 'a \<Rightarrow> 'a" and compl :: "'a \<Rightarrow> 'a" and quot :: "'a \<Rightarrow> 'a \<Rightarrow> 'a option"
  assumes val_less: "ok a \<Longrightarrow> val a < M"
    and one: "ok one" "val one = 1"
    and add: "ok a \<Longrightarrow> ok b \<Longrightarrow> ok (add a b) \<and> val (add a b) = (val a + val b) mod M"
    and compl: "ok a \<Longrightarrow> ok (compl a) \<and> val (compl a) = M - 1 - val a"
    and quot: "ok a \<Longrightarrow> ok b \<Longrightarrow> val b \<noteq> 0 \<Longrightarrow> \<exists>q. quot a b = Some q \<and> ok q \<and> val q = val a div val b"
begin

lemma block_proof:
  assumes "ok t" and "0 < val t" and "val t + 1 < M"
  shows "\<exists>q. quot (compl t) (add t one) = Some q \<and> ok q \<and> val (add q one) = M div (val t + 1)"
proof -
  have d: "ok (add t one)" "val (add t one) = val t + 1"
    using add [OF assms(1) one(1)] one(2) assms(3) by simp_all
  then obtain q where q: "quot (compl t) (add t one) = Some q" "ok q"
    "val q = (M - 1 - val t) div (val t + 1)"
    using quot [of "compl t" "add t one"] compl [OF assms(1)] by auto
  have "M = (M - 1 - val t) + (val t + 1)"
    using assms(3) by simp
  then have total: "M div (val t + 1) = val q + 1"
    unfolding q(3) by (metis add_is_0 div_add_self2 one_neq_zero)
  have "M div (val t + 1) \<le> M div 2"
    using assms(2) by (intro div_le_mono2) simp_all
  also have "\<dots> < M"
    using assms(3) by simp
  finally have "val (add q one) = val q + 1"
    using add [OF q(2) one(1)] one(2) total by simp
  then show ?thesis
    using q total by simp
qed

end

interpretation arith256: modular_uint uval "\<lambda>a. length a = 8" "2 ^ 256" "uint256_of 1"
  uint_add uint_compl uint_div
proof
  fix a b :: limbs
  show "length a = 8 \<Longrightarrow> uval a < 2 ^ 256"
    using uval_bound [of a] by simp
  show "length (uint256_of 1) = 8" "uval (uint256_of 1) = 1"
    by simp_all
  show "length a = 8 \<Longrightarrow> length b = 8 \<Longrightarrow>
      length (uint_add a b) = 8 \<and> uval (uint_add a b) = (uval a + uval b) mod 2 ^ 256"
    using uval_add [of a b] by simp
  show "length a = 8 \<Longrightarrow> length (uint_compl a) = 8 \<and> uval (uint_compl a) = 2 ^ 256 - 1 - uval a"
    using uval_compl [of a] by simp
  show "length a = 8 \<Longrightarrow> length b = 8 \<Longrightarrow> uval b \<noteq> 0 \<Longrightarrow>
      \<exists>q. uint_div a b = Some q \<and> length q = 8 \<and> uval q = uval a div uval b"
    using uint_div_spec [of a b] by simp
qed

lemma EqualTo_val:
  assumes "2 \<le> length a"
  shows "EqualTo a 0 \<longleftrightarrow> uval a = 0"
proof -
  obtain p q pn where a: "a = p # q # pn"
    using assms by (metis Suc_le_length_iff numeral_2_eq_2)
  have zero: "(ucast x :: 64 word) = 0 \<longleftrightarrow> x = 0" for x :: "32 word"
    using unat_ucast_limb [of x] by (metis unat_eq_zero unsigned_0)
  have "EqualTo a 0 \<longleftrightarrow> p = 0 \<and> q = 0 \<and> list_all (\<lambda>p. p = 0) pn"
    by (auto simp: EqualTo_def a zero)
  also have "\<dots> \<longleftrightarrow> uval a = 0"
    by (auto simp: uval_eq_0_iff a list_all_iff unat_eq_0)
  finally show ?thesis .
qed

definition compact_ok :: "32 word \<Rightarrow> bool" where
  "compact_ok c \<longleftrightarrow>
     \<not> fst (snd (SetCompact c)) \<and> 0 < compact_value c \<and> compact_value c < 2 ^ 256"

text \<open>A target read from a valid compact form is exact, and never the greatest number.\<close>

lemma SetCompact_ok:
  assumes "compact_ok c"
  shows "uval (fst (SetCompact c)) = compact_value c" and "compact_value c + 1 < 2 ^ 256"
proof -
  show "uval (fst (SetCompact c)) = compact_value c"
    using assms unfolding SetCompact_value compact_ok_def by (intro mod_less) simp
  show "compact_value c + 1 < 2 ^ 256"
  proof (cases "compact_size c \<le> 3")
    case True
    then have "compact_value c \<le> mantissa c"
      by (simp add: compact_value_def)
    then show ?thesis
      using mantissa_less [of c] by simp
  next
    case False
    define e where "e = compact_size c - 4"
    have "compact_size c - 3 = Suc e"
      using False by (simp add: e_def)
    then have "compact_value c = 2 * (mantissa c * 128 * 256 ^ e)"
      using False by (simp add: compact_value_def)
    then have "even (compact_value c)"
      by simp
    then have "compact_value c \<noteq> 2 ^ 256 - 1"
      by auto
    then show ?thesis
      using assms unfolding compact_ok_def by linarith
  qed
qed

lemma GetBlockProof_value:
  assumes "compact_ok c"
  shows "\<exists>w. GetBlockProof c = Some w \<and> length w = 8 \<and> uval w = 2 ^ 256 div (compact_value c + 1)"
proof -
  let ?t = "fst (SetCompact c)"
  have t: "uval ?t = compact_value c" "compact_value c + 1 < 2 ^ 256"
    using SetCompact_ok [OF assms] .
  have flags: "\<not> fst (snd (SetCompact c))" "\<not> snd (snd (SetCompact c))" "\<not> EqualTo ?t 0"
    using assms t by (simp_all add: compact_ok_def SetCompact_overflow EqualTo_val)
  obtain q where "uint_div (uint_compl ?t) (uint_add ?t (uint256_of 1)) = Some q" "length q = 8"
    "uval (uint_add q (uint256_of 1)) = 2 ^ 256 div (compact_value c + 1)"
    using arith256.block_proof [of ?t] t assms by (auto simp: compact_ok_def)
  then show ?thesis
    using flags by (simp add: GetBlockProof_def case_prod_unfold)
qed

lemma GetBlockProof_invalid:
  assumes "\<not> compact_ok c"
  shows "GetBlockProof c = Some (uint256_of 0)"
proof (cases "2 ^ 256 \<le> compact_value c")
  case True
  then show ?thesis
    using SetCompact_overflow [of c] by (simp add: GetBlockProof_def case_prod_unfold)
next
  case False
  then have "uval (fst (SetCompact c)) = compact_value c"
    unfolding SetCompact_value by (intro mod_less) simp
  then show ?thesis
    using assms False EqualTo_val [of "fst (SetCompact c)"]
    by (auto simp: GetBlockProof_def compact_ok_def case_prod_unfold)
qed

lemma CheckProofOfWork_iff:
  assumes "length hash = 8" and "length (ProofOfWorkLimit params) = 8"
    and "\<not> SkipProofOfWorkCheck params"
  shows "CheckProofOfWork params hash nBits \<longleftrightarrow>
    compact_ok nBits \<and> compact_value nBits \<le> uval (ProofOfWorkLimit params) \<and>
    (hash = HashGenesisBlock params \<or> uval hash \<le> compact_value nBits)"
proof -
  let ?t = "fst (SetCompact nBits)"
  have ok: "compact_ok nBits \<longleftrightarrow>
      \<not> fst (snd (SetCompact nBits)) \<and> \<not> EqualTo ?t 0 \<and> \<not> snd (snd (SetCompact nBits))"
  proof (cases "2 ^ 256 \<le> compact_value nBits")
    case True
    then show ?thesis
      using SetCompact_overflow [of nBits] by (simp add: compact_ok_def)
  next
    case False
    then have "uval ?t = compact_value nBits"
      unfolding SetCompact_value by (intro mod_less) simp
    then show ?thesis
      using False SetCompact_overflow [of nBits] by (auto simp: compact_ok_def EqualTo_val)
  qed
  show ?thesis
  proof (cases "compact_ok nBits")
    case True
    then show ?thesis
      using SetCompact_ok(1) [OF True] assms ok
      by (auto simp: CheckProofOfWork_def CompareTo_sign case_prod_unfold)
  next
    case False
    then show ?thesis
      using assms ok by (auto simp: CheckProofOfWork_def case_prod_unfold)
  qed
qed

text \<open>The trust of a proof-of-stake block: \<open>uint256(1) << 256\<close> has no bit left.\<close>

lemma GetBlockTrust_stake:
  assumes "bi_IsProofOfStake bi" and "compact_ok (bi_nBits bi)"
  shows "\<exists>t. GetBlockTrust bi = Some t \<and> uval t = 0"
proof -
  let ?t = "fst (SetCompact (bi_nBits bi))"
  have t: "uval ?t = compact_value (bi_nBits bi)" "compact_value (bi_nBits bi) + 1 < 2 ^ 256"
    "0 < compact_value (bi_nBits bi)"
    using SetCompact_ok [OF assms(2)] assms(2) by (simp_all add: compact_ok_def)
  have "uval (uint_shl (uint256_of 1) 256) = 0"
    by (simp add: uval_shl)
  moreover have "uval (uint_add ?t (uint256_of 1)) \<noteq> 0"
    using arith256.add [of ?t "uint256_of 1"] t by simp
  ultimately show ?thesis
    using uint_div_spec [of "uint_shl (uint256_of 1) 256" "uint_add ?t (uint256_of 1)"] assms(1) t
    by (auto simp: GetBlockTrust_def Let_def CompareTo_sign)
qed

section \<open>Canonical compact forms\<close>

definition canonical_compact :: "32 word \<Rightarrow> bool" where
  "canonical_compact c \<longleftrightarrow>
     c AND 0x00800000 = 0 \<and> 3 \<le> compact_size c \<and> compact_size c \<le> 32 \<and> 2 ^ 15 \<le> mantissa c"

lemma compact_parts_eq:
  assumes "mantissa c = mantissa d" and "compact_size c = compact_size d"
    and "c AND 0x00800000 = 0" and "d AND 0x00800000 = 0"
  shows "c = d"
proof -
  have word: "unat x = mantissa x + 2 ^ 24 * compact_size x" if "x AND 0x00800000 = 0" for x
  proof -
    have "(0x00800000 :: 32 word) = push_bit 23 1"
      by (simp add: push_bit_eq_mult)
    then have "\<not> bit x 23"
      using that bit_iff_and_push_bit_not_eq_0 [of x 23] by simp
    then have "even (unat x div 2 ^ 23)"
      using bit_iff_odd [of "unat x" 23] by (simp add: bit_unsigned_iff)
    moreover have "unat x div 2 ^ 24 = unat x div 2 ^ 23 div 2"
      by (simp add: div_mult2_eq [symmetric])
    ultimately have "unat x div 2 ^ 23 = 2 * compact_size x"
      by (simp add: compact_size_def unat_drop_bit)
    then show ?thesis
      using div_mult_mod_eq [of "unat x" "2 ^ 23"] by (simp add: mantissa_def)
  qed
  have "unat c = unat d"
    using word [OF assms(3)] word [OF assms(4)] assms(1,2) by simp
  then show ?thesis
    by (rule unsigned_word_eqI)
qed

lemma bytes_unique:
  assumes "256 ^ (s - 1) \<le> (v :: nat)" "v < 256 ^ t" and "256 ^ (t - 1) \<le> v" "v < 256 ^ s"
    and "1 \<le> s" "1 \<le> t"
  shows "s = t"
proof -
  have "(256 :: nat) ^ (s - 1) < 256 ^ t" "(256 :: nat) ^ (t - 1) < 256 ^ s"
    using assms(1-4) by linarith+
  then have "s - 1 < t" "t - 1 < s"
    by (auto intro: power_less_imp_less_exp [of 256, rotated])
  then show ?thesis
    using assms(5,6) by simp
qed

lemma GetCompact_SetCompact:
  assumes "canonical_compact c"
  shows "GetCompact (fst (SetCompact c)) False = Some c"
proof -
  define s m e where "s = compact_size c" and "m = mantissa c" and "e = s - 3"
  have c: "c AND 0x00800000 = 0" "3 \<le> s" "s \<le> 32" "2 ^ 15 \<le> m" "m < 2 ^ 23"
    using assms mantissa_less [of c] by (simp_all add: canonical_compact_def s_def m_def)
  have val: "compact_value c = m * 256 ^ e"
    using c(2) by (cases "s = 3") (simp_all add: compact_value_def s_def m_def e_def)
  have "(256 :: nat) ^ e \<le> 256 ^ 29"
    using c(3) unfolding e_def by (intro power_increasing) simp_all
  then have "m * 256 ^ e < 2 ^ 23 * 256 ^ 29"
    using c(5) by (intro mult_less_le_imp_less) simp_all
  then have v: "uval (fst (SetCompact c)) = m * 256 ^ e"
    unfolding SetCompact_value val by (intro mod_less) simp
  let ?a = "fst (SetCompact c)"
  define t where "t = (uint_bits ?a + 7) div 8"
  have "uval ?a \<noteq> 0"
    unfolding v using c(4) by simp
  then have t: "1 \<le> t" "256 ^ (t - 1) \<le> m * 256 ^ e" "m * 256 ^ e < 256 ^ t"
    using uint_bytes_bounds [of ?a] unfolding v t_def by simp_all
  obtain d where d: "GetCompact ?a False = Some d" "d AND 0x00800000 = 0"
    "mantissa d = (if 2 ^ 23 \<le> norm_mantissa t (m * 256 ^ e) then norm_mantissa t (m * 256 ^ e) div 256
       else norm_mantissa t (m * 256 ^ e))"
    "compact_size d = (if 2 ^ 23 \<le> norm_mantissa t (m * 256 ^ e) then t + 1 else t)"
    using GetCompact_parts [of ?a t] t(3) unfolding v t_def by auto
  have "mantissa d = m \<and> compact_size d = s"
  proof (cases "2 ^ 16 \<le> m")
    case True
    have "256 ^ (s - 1) \<le> m * 256 ^ e"
    proof -
      have "s - 1 = e + 2"
        using c(2) by (simp add: e_def)
      then show ?thesis
        using True by (simp add: power_add)
    qed
    moreover have "m * 256 ^ e < 256 ^ s"
    proof -
      have "s = e + 3"
        using c(2) by (simp add: e_def)
      then show ?thesis
        using c(5) by (simp add: power_add)
    qed
    ultimately have "t = s"
      using bytes_unique [of t "m * 256 ^ e" s] t c(2) by simp
    moreover have "norm_mantissa s (m * 256 ^ e) = m"
      using c(2) by (cases "s = 3") (simp_all add: norm_mantissa_def e_def)
    ultimately show ?thesis
      using d(3,4) c(5) by simp
  next
    case False
    have "256 ^ (s - 1 - 1) \<le> m * 256 ^ e"
    proof -
      have "s - 1 - 1 = Suc e"
        using c(2) by (simp add: e_def)
      then show ?thesis
        using c(4) by simp
    qed
    moreover have "m * 256 ^ e < 256 ^ (s - 1)"
    proof -
      have "s - 1 = e + 2"
        using c(2) by (simp add: e_def)
      then show ?thesis
        using False by (simp add: power_add)
    qed
    ultimately have ts: "t = s - 1"
      using bytes_unique [of t "m * 256 ^ e" "s - 1"] t c(2) by simp
    have "norm_mantissa t (m * 256 ^ e) = m * 256"
    proof (cases "s \<le> 4")
      case True
      then consider "s = 3" | "s = 4"
        using c(2) by linarith
      then show ?thesis
        by cases (simp_all add: norm_mantissa_def ts e_def)
    next
      case False
      then have "e = Suc (s - 4)" "t - 3 = s - 4" "\<not> t \<le> 3"
        by (simp_all add: e_def ts)
      then show ?thesis
        by (simp add: norm_mantissa_def)
    qed
    then have "2 ^ 23 \<le> norm_mantissa t (m * 256 ^ e)" "norm_mantissa t (m * 256 ^ e) div 256 = m"
      using c(4) by simp_all
    moreover have "t + 1 = s"
      using c(2) ts by simp
    ultimately show ?thesis
      using d(3,4) by simp
  qed
  then have "mantissa d = mantissa c" "compact_size d = compact_size c"
    unfolding s_def m_def by blast+
  then have "d = c"
    using d(2) c(1) by (rule compact_parts_eq)
  then show ?thesis
    using d(1) by simp
qed

section \<open>Retargeting\<close>

lemma uval_uint256_of_int:
  assumes "0 \<le> i" and "i < 2 ^ 64"
  shows "uval (uint256_of_int i) = nat i" and "length (uint256_of_int i) = 8"
proof -
  have w: "unat (of_int i :: 64 word) = nat i"
    using assms by (simp add: unat_eq_nat_uint uint_word_of_int_eq take_bit_int_eq_self)
  have "uval (uint256_of_int i) = unat (ucast (of_int i :: 64 word) :: 32 word) +
      2 ^ 32 * unat (ucast (drop_bit 32 (of_int i :: 64 word)) :: 32 word)"
    by (simp add: uint256_of_int_def uint_of64_def)
  also have "unat (ucast (of_int i :: 64 word) :: 32 word) = nat i mod 2 ^ 32"
    by (simp only: unsigned_ucast_eq w take_bit_eq_mod) simp
  also have "unat (ucast (drop_bit 32 (of_int i :: 64 word)) :: 32 word) = nat i div 2 ^ 32"
  proof -
    have "nat i div 2 ^ 32 < 2 ^ 32"
      using assms by (simp add: less_mult_imp_div_less)
    then show ?thesis
      by (simp only: unsigned_ucast_eq unat_drop_bit w take_bit_eq_mod) simp
  qed
  finally show "uval (uint256_of_int i) = nat i"
    by simp
  show "length (uint256_of_int i) = 8"
    by (simp add: uint256_of_int_def uint_of64_def)
qed

definition retarget_factor :: "chain_params \<Rightarrow> int \<Rightarrow> int" where
  "retarget_factor params nActualSpacing =
     (TargetTimespan params div TargetSpacing params - 1) * TargetSpacing params
     + nActualSpacing + nActualSpacing"

definition retarget_divisor :: "chain_params \<Rightarrow> int" where
  "retarget_divisor params = (TargetTimespan params div TargetSpacing params + 1) * TargetSpacing params"

lemma retarget_value:
  assumes "length b = 8" and "length (ProofOfStakeLimit params) = 8"
    and "0 \<le> retarget_factor params act" "retarget_factor params act < 2 ^ 32"
    and "0 < retarget_divisor params" "retarget_divisor params < 2 ^ 64"
    and "uval b * nat (retarget_factor params act) < 2 ^ 256"
  defines "q \<equiv> uval b * nat (retarget_factor params act) div nat (retarget_divisor params)"
  shows "\<exists>r. retarget params b act = Some r \<and> length r = 8 \<and>
    uval r = (if q = 0 \<or> uval (ProofOfStakeLimit params) < q then uval (ProofOfStakeLimit params) else q)"
proof -
  let ?f = "retarget_factor params act" and ?d = "retarget_divisor params"
  have "unat (of_int ?f :: 32 word) = nat ?f"
    using assms(3,4) by (simp add: unat_eq_nat_uint uint_word_of_int_eq take_bit_int_eq_self)
  then have num: "uval (uint_mul32 b (of_int ?f)) = uval b * nat ?f"
    using assms(1,7) by (simp add: uval_mul32)
  obtain r where r: "uint_div (uint_mul32 b (of_int ?f)) (uint256_of_int ?d) = Some r" "length r = 8" "uval r = q"
    using uint_div_spec [of "uint_mul32 b (of_int ?f)" "uint256_of_int ?d"] assms(1,5,6)
      uval_uint256_of_int [of ?d] unfolding num q_def by auto
  have "retarget params b act =
      Some (if CompareTo r (uint256_of 0) \<le> 0 \<or> CompareTo r (ProofOfStakeLimit params) > 0
            then ProofOfStakeLimit params else r)"
    using r(1) by (simp only: retarget_def Let_def retarget_factor_def retarget_divisor_def option.case)
  then show ?thesis
    using assms(2) r(2,3) by (auto simp: CompareTo_sign)
qed

lemma retarget_steady:
  assumes "length b = 8" and "length (ProofOfStakeLimit params) = 8"
    and "0 < TargetSpacing params" "TargetSpacing params \<le> TargetTimespan params"
    and "retarget_divisor params < 2 ^ 32" and "uval b * nat (retarget_divisor params) < 2 ^ 256"
    and "0 < uval b" "uval b \<le> uval (ProofOfStakeLimit params)"
  shows "retarget params b (TargetSpacing params) = Some b"
proof -
  have "1 \<le> TargetTimespan params div TargetSpacing params"
    using zdiv_mono1 [OF assms(4,3)] assms(3) by simp
  then have d: "0 < retarget_divisor params"
    using assms(3) by (simp add: retarget_divisor_def)
  have f: "retarget_factor params (TargetSpacing params) = retarget_divisor params"
    by (simp add: retarget_factor_def retarget_divisor_def algebra_simps)
  have "uval b * nat (retarget_divisor params) div nat (retarget_divisor params) = uval b"
    using d by simp
  then obtain r where "retarget params b (TargetSpacing params) = Some r" "length r = 8" "uval r = uval b"
    using retarget_value [of b params "TargetSpacing params"] assms d unfolding f by auto
  then show ?thesis
    using uval_inj [of r b] assms(1) by simp
qed

end
