(* ===== verification/PowSpec.thy ===== *)
theory PowSpec
  imports Pow
begin

text \<open>
  The properties of 256-bit arithmetic and of the difficulty rules: the limb loops compute
  arithmetic modulo \<open>2 ^ 256\<close>, the compact form of a target is exact, and the proof-of-work test,
  the work of a block and the retargeting formula are what those numbers say.
\<close>

section \<open>Limb arithmetic\<close>

text \<open>The carry loops of \<open>base_uint\<close> compute sums, differences, products and shifts of the numbers
  their limbs denote, modulo two to the width.\<close>

theorem limb_arithmetic:
  assumes "length a = length b"
  shows "uval (uint_add a b) = (uval a + uval b) mod 2 ^ (32 * length a) \<and>
    uval (uint_sub a b) = (uval a + (2 ^ (32 * length a) - uval b)) mod 2 ^ (32 * length a) \<and>
    uval (uint_mul a b) = uval a * uval b mod 2 ^ (32 * length a) \<and>
    uval (uint_shl a k) = uval a * 2 ^ k mod 2 ^ (32 * length a) \<and>
    uval (uint_shr a k) = uval a div 2 ^ k"
  using assms by (simp only: uval_add uval_sub uval_mul uval_shl uval_shr simp_thms)

theorem limb_arithmetic_witness:
  "uval (uint_add [0xffffffff, 1] [1, 0]) = (uval [0xffffffff, 1] + uval [1, 0]) mod 2 ^ (32 * length [0xffffffff, 1 :: 32 word]) \<and>
    uval (uint_sub [0xffffffff, 1] [1, 0]) =
      (uval [0xffffffff, 1] + (2 ^ (32 * length [0xffffffff, 1 :: 32 word]) - uval [1, 0])) mod 2 ^ (32 * length [0xffffffff, 1 :: 32 word]) \<and>
    uval (uint_mul [0xffffffff, 1] [1, 0]) = uval [0xffffffff, 1] * uval [1, 0] mod 2 ^ (32 * length [0xffffffff, 1 :: 32 word]) \<and>
    uval (uint_shl [0xffffffff, 1] 3) = uval [0xffffffff, 1] * 2 ^ 3 mod 2 ^ (32 * length [0xffffffff, 1 :: 32 word]) \<and>
    uval (uint_shr [0xffffffff, 1] 3) = uval [0xffffffff, 1] div 2 ^ 3"
  by (rule limb_arithmetic) simp

text \<open>The bitwise long division ends, fails only for a zero divisor, and otherwise returns the exact
  quotient.\<close>

theorem limb_division:
  assumes "length a = length b"
  shows "if uval b = 0 then uint_div a b = None
    else \<exists>q. uint_div a b = Some q \<and> length q = length a \<and> uval q = uval a div uval b"
  using assms by (rule uint_div_spec)

theorem limb_division_witness:
  "if uval [7, 0] = 0 then uint_div [100, 1] [7, 0] = None
    else \<exists>q. uint_div [100, 1] [7, 0] = Some q \<and> length q = length [100, 1 :: 32 word] \<and>
      uval q = uval [100, 1] div uval [7, 0]"
  by (rule limb_division) simp

section \<open>Compact targets\<close>

text \<open>Reading a compact target yields its mantissa scaled by its exponent, and the overflow flag is
  raised exactly when that number does not fit 256 bits.\<close>

theorem set_compact_exact:
  "uval (fst (SetCompact c)) = compact_value c mod 2 ^ 256 \<and>
   (snd (snd (SetCompact c)) \<longleftrightarrow> 2 ^ 256 \<le> compact_value c)"
  by (simp add: SetCompact_value SetCompact_overflow)

text \<open>A target in normal form survives the round trip through its 256-bit value.\<close>

theorem compact_roundtrip:
  assumes "c AND 0x00800000 = 0" and "3 \<le> compact_size c" "compact_size c \<le> 32" and "2 ^ 15 \<le> mantissa c"
  shows "GetCompact (fst (SetCompact c)) False = Some c"
  using assms by (intro GetCompact_SetCompact) (simp add: canonical_compact_def)

theorem compact_roundtrip_witness: "GetCompact (fst (SetCompact 0x1e0fffff)) False = Some 0x1e0fffff"
  by (rule compact_roundtrip) (simp_all add: compact_size_def mantissa_def)

text \<open>Compressing a number keeps it up to truncation of its low bytes, and at least sixteen
  significant bits of it survive.\<close>

theorem get_compact_truncates:
  assumes "length a = 8"
  shows "\<exists>c k. GetCompact a False = Some c \<and> c AND 0x00800000 = 0 \<and>
    compact_value c = uval a div 256 ^ k * 256 ^ k \<and> (k = 0 \<or> 2 ^ 15 * 256 ^ k \<le> uval a)"
  using assms by (rule GetCompact_value)

theorem get_compact_truncates_witness:
  "\<exists>c k. GetCompact (uint256_of 0x123456789a) False = Some c \<and> c AND 0x00800000 = 0 \<and>
    compact_value c = uval (uint256_of 0x123456789a) div 256 ^ k * 256 ^ k \<and>
    (k = 0 \<or> 2 ^ 15 * 256 ^ k \<le> uval (uint256_of 0x123456789a))"
  by (rule get_compact_truncates) (simp add: uint256_of_def uint_of64_def)

section \<open>Proof of work\<close>

text \<open>A block hash passes the proof-of-work test exactly when its target is a valid compact number
  not above the network's limit and the hash, as a number, does not exceed it, or is the genesis
  block's.\<close>

theorem proof_of_work_iff:
  assumes "length hash = 8" and "length (ProofOfWorkLimit params) = 8"
    and "\<not> SkipProofOfWorkCheck params"
  shows "CheckProofOfWork params hash nBits \<longleftrightarrow>
    compact_ok nBits \<and> compact_value nBits \<le> uval (ProofOfWorkLimit params) \<and>
    (hash = HashGenesisBlock params \<or> uval hash \<le> compact_value nBits)"
  using assms by (rule CheckProofOfWork_iff)

definition sample_params :: chain_params where
  "sample_params =
     \<lparr>ProofOfWorkLimit = uint_shr (uint_compl (uint256_of 0)) 20,
      ProofOfStakeLimit = uint_shr (uint_compl (uint256_of 0)) 24,
      TargetSpacing = 60, TargetTimespan = 2400, PastBlocksMin = 24,
      SkipProofOfWorkCheck = False, HashGenesisBlock = uint256_of 1\<rparr>"

lemma sample_params_length [simp]:
  "length (ProofOfWorkLimit sample_params) = 8" "length (ProofOfStakeLimit sample_params) = 8"
  by code_simp+

theorem proof_of_work_iff_witness:
  "CheckProofOfWork sample_params (uint256_of 9) 0x1e0fffff \<longleftrightarrow>
    compact_ok 0x1e0fffff \<and> compact_value 0x1e0fffff \<le> uval (ProofOfWorkLimit sample_params) \<and>
    (uint256_of 9 = HashGenesisBlock sample_params \<or> uval (uint256_of 9) \<le> compact_value 0x1e0fffff)"
  by (rule proof_of_work_iff) (simp_all add: uint256_of_def uint_of64_def, simp add: sample_params_def)

text \<open>The work credited for a block with a valid target is the expected number of hashes,
  \<open>2^256 / (target + 1)\<close>, computed within 256 bits; an invalid target is worth nothing.\<close>

theorem block_proof_work:
  "\<exists>w. GetBlockProof c = Some w \<and> length w = 8 \<and>
    uval w = (if compact_ok c then 2 ^ 256 div (compact_value c + 1) else 0)"
  using GetBlockProof_value [of c] GetBlockProof_invalid [of c]
  by (cases "compact_ok c") (auto simp: uint256_of_def uint_of64_def)

text \<open>The trust of every proof-of-stake block with a valid target is zero: the numerator is one
  shifted left by the whole width of the number.\<close>

theorem stake_trust_zero:
  assumes "bi_IsProofOfStake bi" and "compact_ok (bi_nBits bi)"
  shows "\<exists>t. GetBlockTrust bi = Some t \<and> uval t = 0"
  using assms by (rule GetBlockTrust_stake)

definition sample_block :: "32 word \<Rightarrow> 32 word \<Rightarrow> ptr option \<Rightarrow> CBlockIndex" where
  "sample_block flags time prev =
     CBlockIndex_SetNull\<lparr>bi_pprev := prev, bi_nHeight := 100, bi_nFlags := flags, bi_nVersion := 1, bi_nTime := time,
       bi_nBits := 0x1d0fffff\<rparr>"

lemma sample_bits: "compact_ok 0x1d0fffff"
proof -
  have "\<not> fst (snd (SetCompact 0x1d0fffff))"
    by code_simp
  moreover have "compact_value 0x1d0fffff = 0x0fffff * 256 ^ 26"
    by (simp add: compact_value_def compact_size_def mantissa_def)
  ultimately show ?thesis
    by (simp add: compact_ok_def)
qed

theorem stake_trust_zero_witness:
  "\<exists>t. GetBlockTrust (sample_block BLOCK_PROOF_OF_STAKE 0 None) = Some t \<and> uval t = 0"
  by (rule stake_trust_zero) (simp_all add: sample_bits sample_block_def bi_IsProofOfStake_def)

section \<open>Retargeting\<close>

text \<open>Above the initial blocks, the next target is the current one times the weighted spacing over the
  weighted target spacing, computed without loss, replaced by the stake limit when it is zero or
  above that limit, and stored in compact form. A negative spacing counts as one second.\<close>

theorem next_work_formula:
  assumes "h p = Some tip" and "bi_pprev tip = Some pp" and "h pp = Some prev"
    and "0 < bi_nHeight tip" "PastBlocksMin params \<le> bi_nHeight tip"
    and "length (ProofOfStakeLimit params) = 8" and "compact_ok (bi_nBits tip)"
    and "0 < retarget_divisor params" "retarget_divisor params < 2 ^ 64"
  defines "spacing \<equiv> GetBlockTime tip - GetBlockTime prev"
  defines "f \<equiv> retarget_factor params (if spacing < 0 then 1 else spacing)"
  assumes "0 \<le> f" "f < 2 ^ 32" "compact_value (bi_nBits tip) * nat f < 2 ^ 256"
  defines "q \<equiv> compact_value (bi_nBits tip) * nat f div nat (retarget_divisor params)"
  shows "\<exists>r. GetNextWorkRequired params h (Some p) = GetCompact r False \<and>
    uval r = (if q = 0 \<or> uval (ProofOfStakeLimit params) < q then uval (ProofOfStakeLimit params) else q)"
proof -
  let ?b = "fst (SetCompact (bi_nBits tip))" and ?act = "if spacing < 0 then 1 else spacing"
  have b: "uval ?b = compact_value (bi_nBits tip)" "length ?b = 8"
    using SetCompact_ok(1) [OF assms(7)] by (simp_all add: length_SetCompact)
  obtain r where "retarget params ?b ?act = Some r"
    "uval r = (if q = 0 \<or> uval (ProofOfStakeLimit params) < q then uval (ProofOfStakeLimit params) else q)"
    using retarget_value [OF b(2) assms(6), of ?act] assms(8,9) assms(12-14) unfolding b f_def q_def by auto
  moreover have "\<not> (bi_nHeight tip = 0 \<or> bi_nHeight tip < PastBlocksMin params)"
    using assms(4,5) by simp
  ultimately show ?thesis
    using assms(1-3) unfolding GetNextWorkRequired_def spacing_def by (auto simp: Let_def)
qed

definition sample_chain :: index_heap where
  "sample_chain = [1 \<mapsto> sample_block 0 1090 (Some 2), 2 \<mapsto> sample_block 0 1000 None]"

theorem next_work_formula_witness:
  "\<exists>r. GetNextWorkRequired sample_params sample_chain (Some 1) = GetCompact r False \<and>
    uval r = compact_value 0x1d0fffff * 2520 div 2460"
proof -
  have limit: "uval (ProofOfStakeLimit sample_params) = 2 ^ 232 - 1"
    using uval_compl [of "uint256_of 0"] by (simp add: sample_params_def uval_shr)
  have params: "retarget_factor sample_params 90 = 2520" "retarget_divisor sample_params = 2460"
    "PastBlocksMin sample_params = 24"
    by (simp_all add: sample_params_def retarget_factor_def retarget_divisor_def)
  have c: "compact_value 0x1d0fffff = 0x0fffff * 256 ^ 26"
    by (simp add: compact_value_def compact_size_def mantissa_def)
  show ?thesis
    using next_work_formula [of sample_chain 1 "sample_block 0 1090 (Some 2)" 2 "sample_block 0 1000 None" sample_params]
    by (simp add: sample_chain_def sample_block_def sample_bits limit c params GetBlockTime_def)
qed

end
