(* ===== verification/Chain.thy ===== *)
theory Chain
  imports BlockIndex "HOL-Library.Monad_Syntax"
begin

unbundle bit_operations_syntax

text \<open>
  The active chain and the skip list of the block tree: \<open>CChain\<close> of \<open>src/chain.h\<close> and
  \<open>src/chain.cpp\<close>, \<open>GetAncestor\<close>, \<open>BuildSkip\<close> and \<open>IsSuperMajority\<close> of \<open>src/main.cpp\<close>.

  A block index entry is a pointer into the heap of \<open>BlockIndex\<close>, \<open>NULL\<close> is \<open>None\<close>. The outer
  \<open>None\<close> of a result is the use of a dangling or null pointer, an index outside a vector, or a loop
  that does not end; the lemmas show that none of them happens on a well-formed tree. \<open>vChain\<close> is a
  list of pointers.
\<close>

section \<open>Ancestors\<close>

definition InvertLowestOne :: "nat \<Rightarrow> nat" where
  "InvertLowestOne n = n AND (n - 1)"

definition GetSkipHeight :: "nat \<Rightarrow> nat" where
  "GetSkipHeight height =
     (if height < 2 then 0
      else if height AND 1 \<noteq> 0 then InvertLowestOne (InvertLowestOne (height - 1)) + 1
      else InvertLowestOne height)"

lemma and_nat_le: "(m :: nat) AND n \<le> n"
proof -
  have "int (m AND n) \<le> int n"
    unfolding of_nat_and_eq by (rule AND_upper2) simp
  then show ?thesis
    by simp
qed

lemma InvertLowestOne_le: "InvertLowestOne n \<le> n - 1"
  unfolding InvertLowestOne_def by (rule and_nat_le)

lemma GetSkipHeight_less: "0 < height \<Longrightarrow> GetSkipHeight height < height"
  using InvertLowestOne_le [of height] InvertLowestOne_le [of "height - 1"]
    InvertLowestOne_le [of "InvertLowestOne (height - 1)"]
  by (auto simp: GetSkipHeight_def)

text \<open>The loop of \<open>GetAncestor\<close>; its guards make all heights natural numbers.\<close>

function ancestor_loop :: "index_heap \<Rightarrow> nat \<Rightarrow> ptr option \<Rightarrow> nat \<Rightarrow> ptr option option" where
  "ancestor_loop h height pindexWalk heightWalk =
     (if heightWalk \<le> height then Some pindexWalk
      else do {
        p \<leftarrow> pindexWalk;
        bi \<leftarrow> h p;
        (let heightSkip = GetSkipHeight heightWalk;
             heightSkipPrev = GetSkipHeight (heightWalk - 1) in
         if heightSkip = height \<or>
            height < heightSkip \<and> \<not> (heightSkipPrev + 2 < heightSkip \<and> height \<le> heightSkipPrev)
         then ancestor_loop h height (bi_pskip bi) heightSkip
         else ancestor_loop h height (bi_pprev bi) (heightWalk - 1)) })"
  by pat_completeness auto
termination
  by (relation "measure (\<lambda>(h, height, p, heightWalk). heightWalk)") (auto simp: GetSkipHeight_less)

declare ancestor_loop.simps [simp del]

definition GetAncestor :: "index_heap \<Rightarrow> ptr \<Rightarrow> int \<Rightarrow> ptr option option" where
  "GetAncestor h p height = do {
     bi \<leftarrow> h p;
     if height > bi_nHeight bi \<or> height < 0 then Some None
     else ancestor_loop h (nat height) (Some p) (nat (bi_nHeight bi)) }"

definition BuildSkip :: "index_heap \<Rightarrow> ptr \<Rightarrow> index_heap option" where
  "BuildSkip h p = do {
     bi \<leftarrow> h p;
     (case bi_pprev bi of
        None \<Rightarrow> Some h
      | Some q \<Rightarrow> do {
          s \<leftarrow> GetAncestor h q (int (GetSkipHeight (nat (bi_nHeight bi))));
          Some (h(p \<mapsto> bi\<lparr>bi_pskip := s\<rparr>)) }) }"

section \<open>Counting versions\<close>

fun super_majority_loop :: "index_heap \<Rightarrow> int \<Rightarrow> nat \<Rightarrow> nat \<Rightarrow> ptr option \<Rightarrow> nat \<Rightarrow> nat option" where
  "super_majority_loop h minVersion nRequired 0 pstart nFound = Some nFound"
| "super_majority_loop h minVersion nRequired (Suc i) None nFound = Some nFound"
| "super_majority_loop h minVersion nRequired (Suc i) (Some p) nFound =
     (if nRequired \<le> nFound then Some nFound
      else do {
        bi \<leftarrow> h p;
        super_majority_loop h minVersion nRequired i (bi_pprev bi)
          (if minVersion \<le> bi_nVersion bi then nFound + 1 else nFound) })"

definition IsSuperMajority :: "index_heap \<Rightarrow> nat \<Rightarrow> int \<Rightarrow> ptr option \<Rightarrow> nat \<Rightarrow> bool option" where
  "IsSuperMajority h nToCheck minVersion pstart nRequired = do {
     nFound \<leftarrow> super_majority_loop h minVersion nRequired nToCheck pstart 0;
     Some (nRequired \<le> nFound) }"

section \<open>The active chain\<close>

type_synonym CChain = "ptr option list"

definition chain_at :: "CChain \<Rightarrow> int \<Rightarrow> ptr option" where
  "chain_at vChain nHeight =
     (if nHeight < 0 \<or> int (length vChain) \<le> nHeight then None else vChain ! nat nHeight)"

definition chain_Genesis :: "CChain \<Rightarrow> ptr option" where
  "chain_Genesis vChain = (if 0 < length vChain then vChain ! 0 else None)"

definition chain_Height :: "CChain \<Rightarrow> int" where
  "chain_Height vChain = int (length vChain) - 1"

partial_function (option) stake_tip_loop :: "index_heap \<Rightarrow> ptr option \<Rightarrow> ptr option option" where
  "stake_tip_loop h pindex =
     (case pindex of
        None \<Rightarrow> Some None
      | Some p \<Rightarrow> do {
          bi \<leftarrow> h p;
          if bi_pprev bi \<noteq> None \<and> \<not> bi_IsProofOfStake bi then stake_tip_loop h (bi_pprev bi)
          else Some (Some p) })"

definition chain_Tip :: "index_heap \<Rightarrow> CChain \<Rightarrow> bool \<Rightarrow> ptr option option" where
  "chain_Tip h vChain fProofOfStake =
     (if vChain = [] then Some None
      else if fProofOfStake then stake_tip_loop h (last vChain)
      else Some (last vChain))"

text \<open>\<open>operator==\<close> reads the last element of both vectors when their sizes agree, empty or not.\<close>

definition chain_eq :: "CChain \<Rightarrow> CChain \<Rightarrow> bool option" where
  "chain_eq a b =
     (if length a \<noteq> length b then Some False
      else if a = [] then None
      else Some (last a = last b))"

definition chain_Contains :: "index_heap \<Rightarrow> CChain \<Rightarrow> ptr \<Rightarrow> bool option" where
  "chain_Contains h vChain p = do {
     bi \<leftarrow> h p;
     Some (chain_at vChain (bi_nHeight bi) = Some p) }"

definition chain_Next :: "index_heap \<Rightarrow> CChain \<Rightarrow> ptr \<Rightarrow> ptr option option" where
  "chain_Next h vChain p = do {
     c \<leftarrow> chain_Contains h vChain p;
     if c then do { bi \<leftarrow> h p; Some (chain_at vChain (bi_nHeight bi + 1)) } else Some None }"

text \<open>\<open>resize\<close> fills with null pointers; a negative size is a huge one and throws.\<close>

definition chain_resize :: "CChain \<Rightarrow> int \<Rightarrow> CChain option" where
  "chain_resize vChain n =
     (if n < 0 then None else Some (take (nat n) vChain @ replicate (nat n - length vChain) None))"

partial_function (option) set_tip_loop :: "index_heap \<Rightarrow> ptr option \<Rightarrow> CChain \<Rightarrow> CChain option" where
  "set_tip_loop h pindex vChain =
     (case pindex of
        None \<Rightarrow> Some vChain
      | Some p \<Rightarrow> do {
          bi \<leftarrow> h p;
          (if bi_nHeight bi < 0 \<or> int (length vChain) \<le> bi_nHeight bi then None
           else if vChain ! nat (bi_nHeight bi) = Some p then Some vChain
           else set_tip_loop h (bi_pprev bi) (vChain[nat (bi_nHeight bi) := Some p])) })"

definition SetTip :: "index_heap \<Rightarrow> CChain \<Rightarrow> ptr option \<Rightarrow> CChain option" where
  "SetTip h vChain pindex =
     (case pindex of
        None \<Rightarrow> Some []
      | Some p \<Rightarrow> do {
          bi \<leftarrow> h p;
          vChain' \<leftarrow> chain_resize vChain (bi_nHeight bi + 1);
          set_tip_loop h pindex vChain' })"

text \<open>A locator: the hashes of blocks with exponentially larger steps back, and the genesis block.\<close>

partial_function (option) locator_loop ::
  "index_heap \<Rightarrow> CChain \<Rightarrow> ptr option \<Rightarrow> int \<Rightarrow> uint256 list \<Rightarrow> uint256 list option" where
  "locator_loop h vChain pindex nStep vHave =
     (case pindex of
        None \<Rightarrow> Some vHave
      | Some p \<Rightarrow> do {
          bi \<leftarrow> h p;
          (let vHave = vHave @ [bi_phashBlock bi] in
           if bi_nHeight bi = 0 then Some vHave
           else do {
             (let nHeight = max (bi_nHeight bi - nStep) 0 in do {
                c \<leftarrow> chain_Contains h vChain p;
                next \<leftarrow> (if c then Some (chain_at vChain nHeight) else GetAncestor h p nHeight);
                locator_loop h vChain next (if 10 < length vHave then nStep * 2 else nStep) vHave }) }) })"

definition GetLocator :: "index_heap \<Rightarrow> CChain \<Rightarrow> ptr option \<Rightarrow> uint256 list option" where
  "GetLocator h vChain pindex = do {
     start \<leftarrow> (case pindex of None \<Rightarrow> chain_Tip h vChain False | Some p \<Rightarrow> Some (Some p));
     locator_loop h vChain start 1 [] }"

partial_function (option) find_fork_loop ::
  "index_heap \<Rightarrow> CChain \<Rightarrow> ptr option \<Rightarrow> ptr option option" where
  "find_fork_loop h vChain pindex =
     (case pindex of
        None \<Rightarrow> Some None
      | Some p \<Rightarrow> do {
          c \<leftarrow> chain_Contains h vChain p;
          if c then Some (Some p) else do { bi \<leftarrow> h p; find_fork_loop h vChain (bi_pprev bi) } })"

definition FindFork :: "index_heap \<Rightarrow> CChain \<Rightarrow> ptr option \<Rightarrow> ptr option option" where
  "FindFork h vChain pindex =
     (case pindex of
        None \<Rightarrow> Some None
      | Some p \<Rightarrow> do {
          bi \<leftarrow> h p;
          start \<leftarrow> (if bi_nHeight bi > chain_Height vChain then GetAncestor h p (chain_Height vChain)
                    else Some (Some p));
          find_fork_loop h vChain start })"

end
