(* ===== verification/ChainProps.thy ===== *)
theory ChainProps
  imports Chain
begin

text \<open>
  The block tree and its active chain: \<open>GetAncestor\<close> over the skip list is the iterated \<open>pprev\<close>,
  \<open>BuildSkip\<close> keeps that true, \<open>SetTip\<close> makes the chain of the tip whatever chain was there before,
  \<open>FindFork\<close> finds the last common block.
\<close>

section \<open>The tree\<close>

text \<open>The block \<open>n\<close> steps back.\<close>

fun up :: "index_heap \<Rightarrow> nat \<Rightarrow> ptr \<Rightarrow> ptr option" where
  "up h 0 p = Some p"
| "up h (Suc n) p =
     (case h p of
        None \<Rightarrow> None
      | Some bi \<Rightarrow> (case bi_pprev bi of None \<Rightarrow> None | Some q \<Rightarrow> up h n q))"

text \<open>Heights count the steps to the root.\<close>

definition block_tree :: "index_heap \<Rightarrow> bool" where
  "block_tree h \<longleftrightarrow>
     (\<forall>p bi. h p = Some bi \<longrightarrow>
        (case bi_pprev bi of
           None \<Rightarrow> bi_nHeight bi = 0
         | Some q \<Rightarrow> \<exists>b. h q = Some b \<and> 0 \<le> bi_nHeight b \<and> bi_nHeight bi = bi_nHeight b + 1))"

definition height_of :: "index_heap \<Rightarrow> ptr \<Rightarrow> nat" where
  "height_of h p = (case h p of None \<Rightarrow> 0 | Some bi \<Rightarrow> nat (bi_nHeight bi))"

definition skip_ok :: "index_heap \<Rightarrow> ptr \<Rightarrow> bool" where
  "skip_ok h p \<longleftrightarrow>
     (\<forall>bi. h p = Some bi \<longrightarrow> bi_pprev bi \<noteq> None \<longrightarrow>
        bi_pskip bi = up h (height_of h p - GetSkipHeight (height_of h p)) p)"

lemma block_tree_cases [consumes 2, case_names root child]:
  assumes "block_tree h" and "h p = Some bi"
  obtains (root) "bi_pprev bi = None" "bi_nHeight bi = 0" "height_of h p = 0"
  | (child) q b where "bi_pprev bi = Some q" "h q = Some b" "bi_nHeight bi = bi_nHeight b + 1"
      "0 \<le> bi_nHeight b" "height_of h p = Suc (height_of h q)"
proof (cases "bi_pprev bi")
  case None
  have "case bi_pprev bi of None \<Rightarrow> bi_nHeight bi = 0
      | Some q \<Rightarrow> \<exists>b. h q = Some b \<and> 0 \<le> bi_nHeight b \<and> bi_nHeight bi = bi_nHeight b + 1"
    using assms unfolding block_tree_def by blast
  then have "bi_nHeight bi = 0"
    using None by simp
  then show ?thesis
    using None root assms(2) by (simp add: height_of_def)
next
  case (Some q)
  then obtain b where b: "h q = Some b" "0 \<le> bi_nHeight b" "bi_nHeight bi = bi_nHeight b + 1"
    using assms by (force simp: block_tree_def)
  then have "height_of h p = Suc (height_of h q)"
    using assms(2) by (simp add: height_of_def nat_add_distrib)
  then show ?thesis
    using child Some b by blast
qed

lemma height_of_int:
  assumes "block_tree h" and "h p = Some bi"
  shows "bi_nHeight bi = int (height_of h p)"
  using assms by (cases rule: block_tree_cases [OF assms]) (simp_all add: height_of_def)

lemma up_add: "up h (m + n) p = Option.bind (up h m p) (up h n)"
  by (induction m arbitrary: p) (auto split: option.splits)

lemma up_Some:
  assumes "block_tree h" and "h p = Some bi" and "n \<le> height_of h p"
  shows "\<exists>q b. up h n p = Some q \<and> h q = Some b \<and> height_of h q = height_of h p - n"
  using assms(2,3)
proof (induction n arbitrary: p bi)
  case 0
  then show ?case by simp
next
  case (Suc n)
  from assms(1) Suc.prems(1)
  show ?case
  proof (cases rule: block_tree_cases)
    case root
    then show ?thesis using Suc.prems by simp
  next
    case (child q b)
    then show ?thesis
      using Suc.IH [OF child(2)] Suc.prems by simp
  qed
qed

lemma up_None: "block_tree h \<Longrightarrow> h p = Some bi \<Longrightarrow> height_of h p < n \<Longrightarrow> up h n p = None"
proof (induction n arbitrary: p bi)
  case 0
  then show ?case by simp
next
  case (Suc n)
  from Suc.prems(1,2)
  show ?case
  proof (cases rule: block_tree_cases)
    case root
    then show ?thesis using Suc.prems by simp
  next
    case (child q b)
    then show ?thesis
      using Suc.IH [OF Suc.prems(1) child(2)] Suc.prems by simp
  qed
qed

lemma up_numeral [simp]:
  "up h (numeral k) p =
     (case h p of None \<Rightarrow> None | Some bi \<Rightarrow> (case bi_pprev bi of None \<Rightarrow> None | Some q \<Rightarrow> up h (pred_numeral k) q))"
  "up h 1 p = (case h p of None \<Rightarrow> None | Some bi \<Rightarrow> bi_pprev bi)"
  by (simp_all add: numeral_eq_Suc split: option.splits)

lemma up_up: "up h m p = Some q \<Longrightarrow> up h n q = up h (m + n) p"
  by (simp add: up_add)

section \<open>The skip list\<close>

lemma ancestor_loop_up:
  assumes "block_tree h" and "\<And>q. height_of h q \<le> hw \<Longrightarrow> skip_ok h q"
    and "h p = Some bi" and "height_of h p = hw" and "height \<le> hw"
  shows "ancestor_loop h height (Some p) hw = Some (up h (hw - height) p)"
  using assms(2-5)
proof (induction hw arbitrary: p bi rule: less_induct)
  case (less hw)
  show ?case
  proof (cases "hw \<le> height")
    case True
    then show ?thesis
      using less.prems by (simp add: ancestor_loop.simps)
  next
    case False
    then obtain q b where q: "bi_pprev bi = Some q" "h q = Some b" "hw = Suc (height_of h q)"
      using less.prems block_tree_cases [OF assms(1) less.prems(2)] by (metis le0)
    let ?s = "GetSkipHeight hw"
    have s: "?s < hw"
      using GetSkipHeight_less [of hw] q(3) by simp
    have skip: "bi_pskip bi = up h (hw - ?s) p"
      using less.prems(1) [of p] less.prems(2,3) q(1) by (simp add: skip_ok_def)
    obtain r c where r: "up h (hw - ?s) p = Some r" "h r = Some c" "height_of h r = ?s"
      using up_Some [OF assms(1) less.prems(2), of "hw - ?s"] less.prems(3) s by auto
    have jump: "ancestor_loop h height (Some r) ?s = Some (up h (hw - height) p)" if "height \<le> ?s"
    proof -
      have "ancestor_loop h height (Some r) ?s = Some (up h (?s - height) r)"
        using less.prems(1) s by (intro less.IH [OF s _ r(2,3) that]) simp
      then show ?thesis
        using up_up [OF r(1), of "?s - height"] s that by simp
    qed
    have walk: "ancestor_loop h height (Some q) (hw - 1) = Some (up h (hw - height) p)"
    proof -
      have "ancestor_loop h height (Some q) (hw - 1) = Some (up h (hw - 1 - height) q)"
        using less.prems(1) q(3) False by (intro less.IH [OF _ _ q(2)]) simp_all
      then show ?thesis
        using less.prems(2) q(1) False by (simp add: Suc_diff_Suc [of height hw, symmetric])
    qed
    show ?thesis
      using False jump walk
      by (subst ancestor_loop.simps) (auto simp: less.prems(2) q(1) skip r(1) Let_def)
  qed
qed

lemma GetAncestor_up:
  assumes "block_tree h" and "\<And>q. height_of h q \<le> height_of h p \<Longrightarrow> skip_ok h q"
    and "h p = Some bi"
  shows "GetAncestor h p height =
    Some (if 0 \<le> height \<and> height \<le> bi_nHeight bi then up h (nat (bi_nHeight bi - height)) p else None)"
proof -
  have "bi_nHeight bi = int (height_of h p)"
    by (rule height_of_int [OF assms(1,3)])
  moreover have "nat (int (height_of h p) - height) = height_of h p - nat height" if "0 \<le> height"
    using that by simp
  ultimately show ?thesis
    using ancestor_loop_up [OF assms(1) assms(2) assms(3) refl, of "nat height"] assms(3)
    by (auto simp: GetAncestor_def)
qed

text \<open>Skip pointers do not matter to the tree.\<close>

lemma up_update_skip: "h p = Some bi \<Longrightarrow> up (h(p \<mapsto> bi\<lparr>bi_pskip := s\<rparr>)) n q = up h n q"
  by (induction n arbitrary: q) (auto split: option.splits)

lemma height_of_update_skip:
  "h p = Some bi \<Longrightarrow> height_of (h(p \<mapsto> bi\<lparr>bi_pskip := s\<rparr>)) q = height_of h q"
  by (auto simp: height_of_def)

lemma block_tree_update_skip:
  assumes "block_tree h" and "h p = Some bi"
  shows "block_tree (h(p \<mapsto> bi\<lparr>bi_pskip := s\<rparr>))" (is "block_tree ?h")
  unfolding block_tree_def
proof (intro allI impI)
  fix x c
  assume "?h x = Some c"
  then obtain c0 where c: "h x = Some c0" "bi_pprev c = bi_pprev c0" "bi_nHeight c = bi_nHeight c0"
    using assms(2) by (cases "x = p") auto
  from assms(1) c(1) show "case bi_pprev c of None \<Rightarrow> bi_nHeight c = 0
      | Some q \<Rightarrow> \<exists>b. ?h q = Some b \<and> 0 \<le> bi_nHeight b \<and> bi_nHeight c = bi_nHeight b + 1"
  proof (cases rule: block_tree_cases)
    case root
    then show ?thesis using c by simp
  next
    case (child q b)
    then show ?thesis using c assms(2) by (cases "q = p") auto
  qed
qed

lemma BuildSkip_ok:
  assumes tree: "block_tree h" and "\<And>q. q \<noteq> p \<Longrightarrow> skip_ok h q" and p: "h p = Some bi"
  shows "\<exists>h'. BuildSkip h p = Some h' \<and> block_tree h' \<and> (\<forall>q. skip_ok h' q) \<and>
    (\<forall>n q. up h' n q = up h n q)"
  using tree p
proof (cases rule: block_tree_cases)
  case root
  have "skip_ok h q" for q
    using assms(2) [of q] p root by (cases "q = p") (simp_all add: skip_ok_def)
  then have "\<forall>q. skip_ok h q"
    by blast
  then show ?thesis
    using root tree p by (auto simp: BuildSkip_def)
next
  case (child q b)
  let ?s = "GetSkipHeight (height_of h p)"
  have s: "?s < height_of h p"
    using GetSkipHeight_less [of "height_of h p"] child by simp
  have "skip_ok h x" if "height_of h x \<le> height_of h q" for x
    using assms(2) [of x] that child(5) by (cases "x = p") simp_all
  then have "GetAncestor h q (int ?s) = Some (up h (height_of h q - ?s) q)"
    using GetAncestor_up [OF tree _ child(2), of "int ?s"] height_of_int [OF tree child(2)] s child(5)
    by (simp add: nat_diff_distrib)
  also have "up h (height_of h q - ?s) q = up h (height_of h p - ?s) p"
    using p child(1,5) s by (simp add: Suc_diff_le)
  finally have get: "GetAncestor h q (int ?s) = Some (up h (height_of h p - ?s) p)" .
  let ?h = "h(p \<mapsto> bi\<lparr>bi_pskip := up h (height_of h p - ?s) p\<rparr>)"
  have "BuildSkip h p = Some ?h"
    using p child get by (simp add: BuildSkip_def height_of_def)
  moreover have "block_tree ?h"
    using tree p by (rule block_tree_update_skip)
  moreover have "skip_ok ?h x" for x
    using assms(2) [of x] p by (auto simp: skip_ok_def up_update_skip height_of_update_skip)
  moreover have "up ?h n x = up h n x" for n x
    by (simp add: up_update_skip p)
  ultimately show ?thesis
    by blast
qed

section \<open>The chain of a block\<close>

definition chain_of :: "index_heap \<Rightarrow> ptr \<Rightarrow> CChain" where
  "chain_of h p = map (\<lambda>i. up h (height_of h p - i) p) [0..<Suc (height_of h p)]"

definition chain_ok :: "index_heap \<Rightarrow> CChain \<Rightarrow> bool" where
  "chain_ok h v \<longleftrightarrow> v = [] \<or> (\<exists>p bi. h p = Some bi \<and> v = chain_of h p)"

lemma chain_of_simps [simp]:
  "length (chain_of h p) = Suc (height_of h p)"
  "i \<le> height_of h p \<Longrightarrow> chain_of h p ! i = up h (height_of h p - i) p"
  "chain_of h p \<noteq> []"
  "last (chain_of h p) = Some p"
  by (simp_all add: chain_of_def del: upt_Suc) (simp add: last_map)

lemma chain_of_member: "Some q \<in> set (chain_of h p) \<longleftrightarrow> (\<exists>n\<le>height_of h p. up h n p = Some q)"
proof
  assume "Some q \<in> set (chain_of h p)"
  then obtain i where i: "i \<in> set [0..<Suc (height_of h p)]" "Some q = up h (height_of h p - i) p"
    unfolding chain_of_def set_map by blast
  then have "i \<le> height_of h p" "up h (height_of h p - i) p = Some q"
    by (simp_all only: set_upt atLeastLessThan_iff less_Suc_eq_le)
  then show "\<exists>n\<le>height_of h p. up h n p = Some q"
    by (intro exI [of _ "height_of h p - i"]) simp
next
  assume "\<exists>n\<le>height_of h p. up h n p = Some q"
  then obtain n where "n \<le> height_of h p" "up h n p = Some q"
    by blast
  then have "height_of h p - n \<in> set [0..<Suc (height_of h p)]"
    and "up h (height_of h p - (height_of h p - n)) p = Some q"
    by auto
  then show "Some q \<in> set (chain_of h p)"
    unfolding chain_of_def set_map by (metis (mono_tags, lifting) image_eqI)
qed

text \<open>The entry at a height, and those below it, are the ancestors of any entry of a chain.\<close>

lemma chain_ok_entry:
  assumes "block_tree h" and "chain_ok h v" and "i < length v"
  shows "\<exists>q b. v ! i = Some q \<and> h q = Some b \<and> height_of h q = i \<and> (\<forall>j\<le>i. v ! j = up h (i - j) q)"
proof -
  obtain p bi where p: "h p = Some bi" "v = chain_of h p"
    using assms by (auto simp: chain_ok_def)
  then have i: "i \<le> height_of h p"
    using assms(3) by simp
  then obtain q b where q: "up h (height_of h p - i) p = Some q" "h q = Some b" "height_of h q = i"
    using up_Some [OF assms(1) p(1), of "height_of h p - i"] by auto
  have "v ! j = up h (i - j) q" if "j \<le> i" for j
    using up_up [OF q(1), of "i - j"] that i p(2) by simp
  then show ?thesis
    using q i p(2) by auto
qed

lemma chain_ok_member:
  assumes "block_tree h" and "chain_ok h v" and "h p = Some bi"
  shows "Some p \<in> set v \<longleftrightarrow> height_of h p < length v \<and> v ! height_of h p = Some p"
  using chain_ok_entry [OF assms(1,2)] by (auto simp: in_set_conv_nth) (metis option.inject)+

lemma chain_Contains_member:
  assumes "block_tree h" and "chain_ok h v" and "h p = Some bi"
  shows "chain_Contains h v p = Some (Some p \<in> set v)"
  using assms(3) height_of_int [OF assms(1,3)]
  by (auto simp: chain_Contains_def chain_at_def chain_ok_member [OF assms])

text \<open>Setting the tip: an entry that is already there stops the loop, because everything below it is right too.\<close>

definition coherent :: "index_heap \<Rightarrow> nat \<Rightarrow> CChain \<Rightarrow> bool" where
  "coherent h k w \<longleftrightarrow> (\<forall>i\<le>k. \<forall>q. w ! i = Some q \<longrightarrow> (\<forall>j\<le>i. w ! j = up h (i - j) q))"

lemma set_tip_loop_up:
  assumes "block_tree h"
  shows "h p = Some bi \<Longrightarrow> height_of h p = k \<Longrightarrow> k < length w \<Longrightarrow> coherent h k w \<Longrightarrow>
    \<exists>w'. set_tip_loop h (Some p) w = Some w' \<and> length w' = length w \<and>
      (\<forall>i<length w. w' ! i = (if i \<le> k then up h (k - i) p else w ! i))"
proof (induction k arbitrary: p bi w)
  case (0)
  from assms 0(1) have "bi_pprev bi = None \<and> bi_nHeight bi = 0"
    by (cases rule: block_tree_cases) (use 0 in simp_all)
  moreover have "set_tip_loop h None u = Some u" for u
    by (simp add: set_tip_loop.simps)
  ultimately show ?case
    using 0 by (subst set_tip_loop.simps) (auto simp: nth_list_update)
next
  case (Suc k)
  obtain q b where q: "bi_pprev bi = Some q" "h q = Some b" "height_of h q = k"
    "bi_nHeight bi = int (Suc k)"
    using assms Suc.prems(1) height_of_int [OF assms Suc.prems(1)]
    by (cases rule: block_tree_cases) (use Suc.prems in auto)
  have n: "nat (1 + int k) = Suc k"
    by simp
  show ?case
  proof (cases "w ! Suc k = Some p")
    case True
    then have "\<forall>j\<le>Suc k. w ! j = up h (Suc k - j) p"
      using Suc.prems(4) by (auto simp: coherent_def)
    then show ?thesis
      using True Suc.prems q by (subst set_tip_loop.simps) (auto simp: n)
  next
    case False
    let ?w = "w[Suc k := Some p]"
    have "coherent h k ?w"
      using Suc.prems(4) by (simp add: coherent_def)
    then obtain w' where w': "set_tip_loop h (Some q) ?w = Some w'" "length w' = length w"
      "\<forall>i<length w. w' ! i = (if i \<le> k then up h (k - i) q else ?w ! i)"
      using Suc.IH [OF q(2,3), of ?w] Suc.prems(3) by auto
    have "set_tip_loop h (Some p) w = Some w'"
      using False Suc.prems(1,3) q w'(1) by (subst set_tip_loop.simps) (simp add: n)
    moreover have "w' ! i = (if i \<le> Suc k then up h (Suc k - i) p else w ! i)" if "i < length w" for i
      using w'(3) that Suc.prems(1) q(1)
      by (cases "i = Suc k") (auto simp: Suc_diff_le nth_list_update)
    ultimately show ?thesis
      using w'(2) by blast
  qed
qed

lemma SetTip_chain_of:
  assumes "block_tree h" and "chain_ok h v" and "h p = Some bi"
  shows "SetTip h v (Some p) = Some (chain_of h p)"
proof -
  let ?k = "height_of h p"
  let ?w = "take (Suc ?k) v @ replicate (Suc ?k - length v) None"
  have entry: "?w ! i = (if i < length v then v ! i else None)" if "i \<le> ?k" for i
    using that by (auto simp: nth_append)
  have "coherent h ?k ?w"
    unfolding coherent_def
  proof (intro allI impI)
    fix i q j
    assume i: "i \<le> ?k" "?w ! i = Some q" "j \<le> i"
    then have "i < length v" "v ! i = Some q"
      by (simp_all add: entry split: if_splits)
    then show "?w ! j = up h (i - j) q"
      using chain_ok_entry [OF assms(1,2), of i] i entry [of j] by auto
  qed
  moreover have "length ?w = Suc ?k"
    by simp
  ultimately obtain w' where w': "set_tip_loop h (Some p) ?w = Some w'" "length w' = Suc ?k"
    "\<forall>i<Suc ?k. w' ! i = (if i \<le> ?k then up h (?k - i) p else ?w ! i)"
    using set_tip_loop_up [OF assms(1,3) refl, of ?w] by auto
  have "w' = chain_of h p"
    using w'(2,3) by (intro nth_equalityI) simp_all
  then show ?thesis
    using w'(1) assms(3) height_of_int [OF assms(1,3)]
    by (simp add: SetTip_def chain_resize_def nat_add_distrib)
qed

section \<open>Forks\<close>

lemma find_fork_loop_up:
  assumes "block_tree h" and "chain_ok h v"
  shows "h p = Some bi \<Longrightarrow> height_of h p = k \<Longrightarrow>
    \<exists>r. find_fork_loop h v (Some p) = Some r \<and>
      (case r of None \<Rightarrow> \<forall>n\<le>k. up h n p \<notin> set v
       | Some q \<Rightarrow> \<exists>n\<le>k. up h n p = Some q \<and> Some q \<in> set v \<and> (\<forall>m<n. up h m p \<notin> set v))"
proof (induction k arbitrary: p bi)
  case 0
  from assms(1) 0(1) have "bi_pprev bi = None"
    by (cases rule: block_tree_cases) (use 0 in simp_all)
  moreover have "find_fork_loop h v None = Some None"
    by (simp add: find_fork_loop.simps)
  ultimately show ?case
    using 0 chain_Contains_member [OF assms 0(1)]
    by (subst find_fork_loop.simps) (auto intro!: exI [of _ 0])
next
  case (Suc k)
  obtain q b where q: "bi_pprev bi = Some q" "h q = Some b" "height_of h q = k"
    using assms(1) Suc.prems(1) by (cases rule: block_tree_cases) (use Suc.prems in auto)
  note contains = chain_Contains_member [OF assms Suc.prems(1)]
  show ?case
  proof (cases "Some p \<in> set v")
    case True
    then show ?thesis
      using contains by (subst find_fork_loop.simps) (auto intro!: exI [of _ 0])
  next
    case False
    then have step: "find_fork_loop h v (Some p) = find_fork_loop h v (Some q)"
      using contains Suc.prems(1) q(1) by (subst find_fork_loop.simps) simp
    obtain r where r: "find_fork_loop h v (Some q) = Some r"
      "case r of None \<Rightarrow> \<forall>n\<le>k. up h n q \<notin> set v
       | Some x \<Rightarrow> \<exists>n\<le>k. up h n q = Some x \<and> Some x \<in> set v \<and> (\<forall>m<n. up h m q \<notin> set v)"
      using Suc.IH [OF q(2,3)] by blast
    have shift: "up h (Suc n) p = up h n q" for n
      using Suc.prems(1) q(1) by simp
    show ?thesis
    proof (cases r)
      case None
      have "up h n p \<notin> set v" if "n \<le> Suc k" for n
        using r(2) None False that shift by (cases n) auto
      then show ?thesis
        using r(1) step None by auto
    next
      case (Some x)
      then obtain n where n: "n \<le> k" "up h n q = Some x" "Some x \<in> set v" "\<forall>m<n. up h m q \<notin> set v"
        using r(2) by auto
      have "up h m p \<notin> set v" if "m < Suc n" for m
        using n(4) False that shift by (cases m) auto
      then show ?thesis
        using r(1) step Some n shift by (auto intro!: exI [of _ "Suc n"] simp del: up.simps)
    qed
  qed
qed

lemma FindFork_last_common:
  assumes "block_tree h" and "\<And>q. skip_ok h q" and "chain_ok h v" and "h p = Some bi"
  shows "\<exists>r. FindFork h v (Some p) = Some r \<and>
    (case r of None \<Rightarrow> \<forall>n\<le>height_of h p. up h n p \<notin> set v
     | Some q \<Rightarrow> \<exists>n\<le>height_of h p. up h n p = Some q \<and> Some q \<in> set v \<and> (\<forall>m<n. up h m p \<notin> set v))"
proof -
  let ?k = "height_of h p"
  have k: "bi_nHeight bi = int ?k"
    by (rule height_of_int [OF assms(1,4)])
  have above: "up h m p \<notin> set v" if m: "m \<le> ?k" "length v \<le> ?k - m" for m
  proof -
    obtain q b where "up h m p = Some q" "h q = Some b" "height_of h q = ?k - m"
      using up_Some [OF assms(1,4) m(1)] by blast
    then show ?thesis
      using chain_ok_member [OF assms(1,3), of q] m(2) by simp
  qed
  show ?thesis
  proof (cases "?k < length v")
    case True
    then have "FindFork h v (Some p) = find_fork_loop h v (Some p)"
      using assms(4) k by (simp add: FindFork_def chain_Height_def)
    then show ?thesis
      using find_fork_loop_up [OF assms(1,3,4) refl] by simp
  next
    case False
    show ?thesis
    proof (cases "v = []")
      case True
      then have "FindFork h v (Some p) = Some None"
        using assms(4) k by (simp add: FindFork_def chain_Height_def GetAncestor_def find_fork_loop.simps)
      then show ?thesis
        using True by simp
    next
      case nonempty: False
      define d where "d = ?k - (length v - 1)"
      have d: "d \<le> ?k" "?k - d = length v - 1" "nat (int ?k - (int (length v) - 1)) = d"
        using False length_greater_0_conv [of v] nonempty unfolding d_def by linarith+
      obtain q b where q: "up h d p = Some q" "h q = Some b" "height_of h q = ?k - d"
        using up_Some [OF assms(1,4) d(1)] by blast
      have "GetAncestor h p (int (length v) - 1) = Some (Some q)"
        using GetAncestor_up [OF assms(1,2,4), of "int (length v) - 1"] k False nonempty d(3) q(1)
        by (simp add: Suc_le_eq)
      then have eq: "FindFork h v (Some p) = find_fork_loop h v (Some q)"
        using assms(4) k False nonempty by (simp add: FindFork_def chain_Height_def)
      obtain r where r: "find_fork_loop h v (Some q) = Some r"
        "case r of None \<Rightarrow> \<forall>n\<le>?k - d. up h n q \<notin> set v
         | Some x \<Rightarrow> \<exists>n\<le>?k - d. up h n q = Some x \<and> Some x \<in> set v \<and> (\<forall>m<n. up h m q \<notin> set v)"
        using find_fork_loop_up [OF assms(1,3) q(2,3)] by blast
      have low: "up h m p \<notin> set v" if "m < d" for m
        using above [of m] that d(1,2) False by simp
      have shift: "up h (d + n) p = up h n q" for n
        by (rule up_up [OF q(1), symmetric])
      have below: "up h m p \<notin> set v" if "\<forall>i<n. up h i q \<notin> set v" "m < d + n" for m n
        using low [of m] that shift [of "m - d"] by (cases "m < d") auto
      show ?thesis
      proof (cases r)
        case None
        have "up h m p \<notin> set v" if "m \<le> ?k" for m
          using below [of "Suc (?k - d)" m] r(2) None that d(1) by (simp add: less_Suc_eq_le)
        then show ?thesis
          using eq r(1) None by simp
      next
        case (Some x)
        then obtain n where n: "n \<le> ?k - d" "up h n q = Some x" "Some x \<in> set v"
          "\<forall>m<n. up h m q \<notin> set v"
          using r(2) by auto
        have "d + n \<le> ?k"
          using n(1) d(1) by simp
        then show ?thesis
          using eq r(1) Some n(2,3) below [OF n(4)] shift by (auto intro!: exI [of _ "d + n"])
      qed
    qed
  qed
qed

end
