(* ===== verification/ChainLocator.thy ===== *)
theory ChainLocator
  imports ChainProps
begin

text \<open>
  Block locators, version majorities and median times: each walk over the tree is described by
  the list of blocks it visits.
\<close>

section \<open>Locators\<close>

text \<open>The heights a locator lists: \<open>n\<close> counts the hashes already taken.\<close>

function locator_heights :: "nat \<Rightarrow> nat \<Rightarrow> nat \<Rightarrow> nat list" where
  "locator_heights n step height =
     height # (if height = 0 then []
               else locator_heights (Suc n) (if 10 < Suc n then step * 2 else step)
                      (if step = 0 then 0 else height - step))"
  by pat_completeness auto
termination
  by (relation "measure (\<lambda>(n, step, height). height)") auto

declare locator_heights.simps [simp del]

text \<open>Once the steps double, the number of entries is logarithmic in the height.\<close>

lemma locator_heights_doubling:
  assumes "10 \<le> n" and "0 < step"
  shows "height \<le> step * (2 ^ k - 1) \<Longrightarrow> length (locator_heights n step height) \<le> Suc k"
  using assms
proof (induction k arbitrary: n step height)
  case 0
  then show ?case by (simp add: locator_heights.simps)
next
  case (Suc k)
  have "height - step \<le> step * 2 * (2 ^ k - 1)"
    using Suc.prems(1) by (simp add: algebra_simps)
  then have "length (locator_heights (Suc n) (step * 2) (height - step)) \<le> Suc k"
    using Suc.prems(2,3) by (intro Suc.IH) simp_all
  then show ?case
    using Suc.prems(2,3) by (subst locator_heights.simps) simp
qed

lemma locator_heights_length:
  assumes "height < 2 ^ k" and "n \<le> 10"
  shows "length (locator_heights n 1 height) \<le> 11 - n + k"
  using assms(2,1)
proof (induction "10 - n" arbitrary: n height)
  case 0
  then show ?case
    using locator_heights_doubling [of n 1 height k] by simp
next
  case (Suc m)
  have "length (locator_heights (Suc n) 1 (height - 1)) \<le> 11 - Suc n + k"
    using Suc.hyps(2) Suc.prems by (intro Suc.hyps(1)) simp_all
  then show ?case
    using Suc.hyps(2) by (subst locator_heights.simps) auto
qed

lemma last_locator_heights: "0 < step \<Longrightarrow> last (locator_heights n step height) = 0"
proof (induction n step height rule: locator_heights.induct)
  case (1 n step height)
  have "locator_heights m s k \<noteq> []" for m s k
    by (simp add: locator_heights.simps)
  then show ?case
    using 1 by (subst locator_heights.simps) auto
qed

definition hash_at :: "index_heap \<Rightarrow> ptr \<Rightarrow> nat \<Rightarrow> uint256" where
  "hash_at h p height =
     (case up h (height_of h p - height) p of
        None \<Rightarrow> 0
      | Some q \<Rightarrow> (case h q of None \<Rightarrow> 0 | Some b \<Rightarrow> bi_phashBlock b))"

lemma hash_at_self: "h p = Some bi \<Longrightarrow> hash_at h p (height_of h p) = bi_phashBlock bi"
  by (simp add: hash_at_def)

lemma hash_at_up:
  assumes "up h (height_of h p - k) p = Some q" and "height_of h q = k" and "k \<le> height_of h p" and "i \<le> k"
  shows "hash_at h p i = hash_at h q i"
  using up_up [OF assms(1), of "k - i"] assms(2-4) by (simp add: hash_at_def)

lemma locator_loop_heights:
  assumes "block_tree h" and "\<And>q. skip_ok h q" and "chain_ok h v"
  shows "h p = Some bi \<Longrightarrow> height_of h p = k \<Longrightarrow> 0 < step \<Longrightarrow>
    locator_loop h v (Some p) (int step) vHave =
      Some (vHave @ map (hash_at h p) (locator_heights (length vHave) step k))"
proof (induction k arbitrary: p bi step vHave rule: less_induct)
  case (less k)
  have height: "bi_nHeight bi = int k"
    using height_of_int [OF assms(1) less.prems(1)] less.prems(2) by simp
  have self: "hash_at h p k = bi_phashBlock bi"
    using hash_at_self [of h p bi] less.prems by simp
  show ?case
  proof (cases "k = 0")
    case True
    then show ?thesis
      using less.prems height self
      by (subst locator_loop.simps) (simp add: locator_heights.simps [of _ _ 0])
  next
    case False
    define j where "j = k - step"
    have j: "j < k" "max (int k - int step) 0 = int j"
      using False less.prems(3) by (auto simp: j_def)
    obtain q b where q: "up h (k - j) p = Some q" "h q = Some b" "height_of h q = j"
      using up_Some [OF assms(1) less.prems(1), of "k - j"] less.prems(2) j(1) by auto
    have contains: "chain_Contains h v p = Some (Some p \<in> set v)"
      by (rule chain_Contains_member [OF assms(1,3) less.prems(1)])
    have jump: "(if Some p \<in> set v then Some (chain_at v (int j)) else GetAncestor h p (int j)) = Some (Some q)"
    proof (cases "Some p \<in> set v")
      case True
      then have "k < length v" "v ! k = Some p"
        using chain_ok_member [OF assms(1,3) less.prems(1)] less.prems(2) by simp_all
      then have "v ! j = up h (k - j) p"
        using chain_ok_entry [OF assms(1,3), of k] j(1) by auto
      then show ?thesis
        using True \<open>k < length v\<close> j(1) q(1) by (simp add: chain_at_def)
    next
      case False
      then show ?thesis
        using GetAncestor_up [OF assms(1,2) less.prems(1), of "int j"] height j(1) q(1)
        by (simp add: nat_diff_distrib')
    qed
    let ?step = "if 10 < Suc (length vHave) then step * 2 else step"
    have "locator_loop h v (Some p) (int step) vHave =
        locator_loop h v (Some q) (int ?step) (vHave @ [bi_phashBlock bi])"
      using less.prems(1) False height contains jump
      by (subst locator_loop.simps) (simp add: Let_def j(2))
    also have "\<dots> = Some ((vHave @ [bi_phashBlock bi]) @
        map (hash_at h q) (locator_heights (length (vHave @ [bi_phashBlock bi])) ?step j))"
      using less.prems(3) by (intro less.IH [OF j(1) q(2,3)]) simp
    also have "map (hash_at h q) (locator_heights (length (vHave @ [bi_phashBlock bi])) ?step j) =
        map (hash_at h p) (locator_heights (Suc (length vHave)) ?step j)"
    proof -
      have le: "\<forall>x \<in> set (locator_heights n s m). x \<le> m" for n s m
      proof (induction n s m rule: locator_heights.induct)
        case (1 n s m)
        then show ?case
          by (subst locator_heights.simps) (auto split: if_split_asm, force+)
      qed
      show ?thesis
        using le [of "Suc (length vHave)" ?step j] hash_at_up [of h p j q] less.prems(2) q(1,3) j(1)
        by (auto intro!: map_cong)
    qed
    finally show ?thesis
      using False less.prems(3) self by (subst locator_heights.simps) (simp add: j_def)
  qed
qed

lemma GetLocator_heights:
  assumes "block_tree h" and "\<And>q. skip_ok h q" and "chain_ok h v" and "h p = Some bi"
  shows "GetLocator h v (Some p) = Some (map (hash_at h p) (locator_heights 0 1 (height_of h p)))"
  using locator_loop_heights [OF assms(1-4) refl, of 1 "[]"] by (simp add: GetLocator_def)

section \<open>Walks of bounded length\<close>

fun prev_blocks :: "nat \<Rightarrow> index_heap \<Rightarrow> ptr option \<Rightarrow> CBlockIndex list option" where
  "prev_blocks 0 h p = Some []"
| "prev_blocks (Suc n) h None = Some []"
| "prev_blocks (Suc n) h (Some p) = do {
     bi \<leftarrow> h p;
     bs \<leftarrow> prev_blocks n h (bi_pprev bi);
     Some (bi # bs) }"

lemma prev_blocks_defined:
  assumes "block_tree h"
  shows "h p = Some bi \<Longrightarrow> \<exists>bs. prev_blocks n h (Some p) = Some bs \<and> length bs = min n (Suc (height_of h p))"
proof (induction n arbitrary: p bi)
  case 0
  then show ?case by simp
next
  case (Suc n)
  from assms Suc.prems show ?case
  proof (cases rule: block_tree_cases)
    case root
    then show ?thesis using Suc.prems by (cases n) simp_all
  next
    case (child q b)
    then show ?thesis using Suc.IH [OF child(2)] Suc.prems by auto
  qed
qed

lemma super_majority_loop_count:
  "prev_blocks n h p = Some bs \<Longrightarrow>
    \<exists>m. super_majority_loop h minVersion nRequired n p nFound = Some m \<and>
      (nRequired \<le> m \<longleftrightarrow> nRequired \<le> nFound + length (filter (\<lambda>b. minVersion \<le> bi_nVersion b) bs))"
proof (induction n arbitrary: p bs nFound)
  case 0
  then show ?case by simp
next
  case (Suc n)
  show ?case
  proof (cases p)
    case None
    then show ?thesis using Suc.prems by simp
  next
    case (Some x)
    then obtain bi bs' where b: "h x = Some bi" "prev_blocks n h (bi_pprev bi) = Some bs'" "bs = bi # bs'"
      using Suc.prems by (auto split: Option.bind_splits)
    then show ?thesis
      using Some Suc.IH [OF b(2), of "if minVersion \<le> bi_nVersion bi then nFound + 1 else nFound"] by auto
  qed
qed

lemma IsSuperMajority_count:
  assumes "prev_blocks nToCheck h p = Some bs"
  shows "IsSuperMajority h nToCheck minVersion p nRequired =
    Some (nRequired \<le> length (filter (\<lambda>b. minVersion \<le> bi_nVersion b) bs))"
  using super_majority_loop_count [OF assms, of minVersion nRequired 0] by (auto simp: IsSuperMajority_def)

lemma past_times_blocks: "past_times n h p = map_option (map GetBlockTime) (prev_blocks n h p)"
  by (induction n h p rule: past_times.induct) (auto split: option.splits Option.bind_splits)

lemma sorted_nth_counts:
  assumes "sorted xs" and "k < length xs"
  shows "length (filter (\<lambda>x. x < xs ! k) xs) \<le> k" and "length (filter (\<lambda>x. xs ! k < x) xs) \<le> length xs - Suc k"
proof -
  have split: "xs = take k xs @ drop k xs" "xs = take (Suc k) xs @ drop (Suc k) xs"
    by simp_all
  have "xs ! k \<le> xs ! (k + i)" if "i < length xs - k" for i
    using sorted_nth_mono [OF assms(1), of k "k + i"] that by simp
  then have "filter (\<lambda>x. x < xs ! k) (drop k xs) = []"
    using assms by (auto simp: filter_empty_conv in_set_conv_nth not_less)
  then have "length (filter (\<lambda>x. x < xs ! k) xs) = length (filter (\<lambda>x. x < xs ! k) (take k xs))"
    by (metis split(1) filter_append append_Nil2)
  then show "length (filter (\<lambda>x. x < xs ! k) xs) \<le> k"
    using length_filter_le [of "\<lambda>x. x < xs ! k" "take k xs"] by simp
  have "xs ! i \<le> xs ! k" if "i < Suc k" for i
    using sorted_nth_mono [OF assms(1), of i k] that assms(2) by simp
  then have "filter (\<lambda>x. xs ! k < x) (take (Suc k) xs) = []"
    using assms by (auto simp: filter_empty_conv in_set_conv_nth not_less)
  then have "length (filter (\<lambda>x. xs ! k < x) xs) = length (filter (\<lambda>x. xs ! k < x) (drop (Suc k) xs))"
    by (metis split(2) filter_append append_Nil)
  then show "length (filter (\<lambda>x. xs ! k < x) xs) \<le> length xs - Suc k"
    using length_filter_le [of "\<lambda>x. xs ! k < x" "drop (Suc k) xs"] by simp
qed

lemma GetMedianTimePast_median:
  assumes "block_tree h" and "h p = Some bi"
  shows "\<exists>ts m. past_times 11 h (Some p) = Some ts \<and> length ts = min 11 (Suc (height_of h p)) \<and>
    GetMedianTimePast h p = Some m \<and> m \<in> set ts \<and>
    length (filter (\<lambda>t. t < m) ts) \<le> length ts div 2 \<and>
    length (filter (\<lambda>t. m < t) ts) \<le> length ts div 2"
proof -
  obtain bs where bs: "prev_blocks 11 h (Some p) = Some bs" "length bs = min 11 (Suc (height_of h p))"
    using prev_blocks_defined [OF assms, of 11] by blast
  let ?ts = "map GetBlockTime bs"
  let ?k = "length ?ts div 2"
  have k: "?k < length (sort ?ts)"
    using bs(2) by (cases bs) auto
  have count: "length (filter P (sort ?ts)) = length (filter P ?ts)" for P
    by (simp add: filter_sort)
  have "sort ?ts ! ?k \<in> set ?ts"
    using nth_mem [OF k] by simp
  moreover have "past_times 11 h (Some p) = Some ?ts"
    by (simp only: past_times_blocks bs(1) option.map)
  moreover from this have "GetMedianTimePast h p = Some (sort ?ts ! ?k)"
    by (simp add: GetMedianTimePast_def nMedianTimeSpan_def)
  moreover have "length (filter (\<lambda>t. t < sort ?ts ! ?k) ?ts) \<le> length ?ts div 2"
    using sorted_nth_counts(1) [OF sorted_sort k] by (simp only: count)
  moreover have "length (filter (\<lambda>t. sort ?ts ! ?k < t) ?ts) \<le> length ?ts - Suc ?k"
    using sorted_nth_counts(2) [OF sorted_sort k] by (simp only: count length_sort)
  then have "length (filter (\<lambda>t. sort ?ts ! ?k < t) ?ts) \<le> length ?ts div 2"
    by linarith
  moreover have "length ?ts = min 11 (Suc (height_of h p))"
    using bs(2) by simp
  ultimately show ?thesis
    by blast
qed

end
