(* ===== verification/ChainSpec.thy ===== *)
theory ChainSpec
  imports ChainLocator
begin

text \<open>
  The properties of the block tree and the active chain: the skip list finds the same ancestors as
  the parent pointers, a tip determines the whole active chain, forks and locators are found where
  they should be, and the votes over past blocks are counts.
\<close>

section \<open>A sample tree\<close>

text \<open>Blocks 0, 1, 2, 3 in a row, and a branch 4, 5 from block 1.\<close>

definition tree_block :: "ptr option \<Rightarrow> nat \<Rightarrow> ptr option \<Rightarrow> CBlockIndex" where
  "tree_block prev height skip =
     CBlockIndex_SetNull\<lparr>bi_phashBlock := of_nat height, bi_pprev := prev, bi_pskip := skip, bi_nHeight := int height,
       bi_nTx := 1, bi_nChainTx := 1, bi_nVersion := 4, bi_nTime := of_nat (60 * height)\<rparr>"

definition sample_tree :: index_heap where
  "sample_tree = [0 \<mapsto> tree_block None 0 None, 1 \<mapsto> tree_block (Some 0) 1 (Some 0),
     2 \<mapsto> tree_block (Some 1) 2 (Some 0), 3 \<mapsto> tree_block (Some 2) 3 (Some 1),
     4 \<mapsto> tree_block (Some 1) 2 (Some 0), 5 \<mapsto> tree_block (Some 4) 3 (Some 1)]"

lemma tree_block_simps [simp]:
  "bi_pprev (tree_block p k s) = p" "bi_pskip (tree_block p k s) = s" "bi_nHeight (tree_block p k s) = int k"
  "bi_phashBlock (tree_block p k s) = of_nat k" "bi_nVersion (tree_block p k s) = 4"
  by (simp_all add: tree_block_def)

lemma sample_tree_simps [simp]:
  "sample_tree 0 = Some (tree_block None 0 None)" "sample_tree (Suc 0) = Some (tree_block (Some 0) 1 (Some 0))"
  "sample_tree 2 = Some (tree_block (Some 1) 2 (Some 0))" "sample_tree 3 = Some (tree_block (Some 2) 3 (Some 1))"
  "sample_tree 4 = Some (tree_block (Some 1) 2 (Some 0))" "sample_tree 5 = Some (tree_block (Some 4) 3 (Some 1))"
  by (simp_all add: sample_tree_def)

lemma sample_tree_cases: "sample_tree p = Some bi \<Longrightarrow> p \<in> {0, 1, 2, 3, 4, 5}"
  by (auto simp: sample_tree_def split: if_splits)

lemma sample_tree_ok: "block_tree sample_tree"
  unfolding block_tree_def using sample_tree_cases by fastforce

lemma prev_blocks_numeral [simp]:
  "prev_blocks (numeral k) h (Some p) =
     Option.bind (h p) (\<lambda>bi. Option.bind (prev_blocks (pred_numeral k) h (bi_pprev bi)) (\<lambda>bs. Some (bi # bs)))"
  by (simp add: numeral_eq_Suc)

lemma sample_heights [simp]: "height_of sample_tree 3 = 3" "height_of sample_tree 5 = 3"
  by (simp_all add: height_of_def)

lemma sample_chains [simp]:
  "chain_of sample_tree 3 = [Some 0, Some 1, Some 2, Some 3]"
  "chain_of sample_tree 5 = [Some 0, Some 1, Some 4, Some 5]"
  by (simp_all add: chain_of_def upt_conv_Cons)

lemma sample_tree_skip: "skip_ok sample_tree p"
proof -
  have sk: "GetSkipHeight (Suc 0) = 0" "GetSkipHeight 2 = 0" "GetSkipHeight 3 = Suc 0"
    by (simp_all add: GetSkipHeight_def InvertLowestOne_def)
  show ?thesis
    unfolding skip_ok_def height_of_def using sample_tree_cases [of p] by (auto simp: sk)
qed

lemma sample_chain_ok: "chain_ok sample_tree (chain_of sample_tree 3)"
  unfolding chain_ok_def by (metis sample_tree_simps(4))

section \<open>Ancestors\<close>

text \<open>C28: On a tree whose skip pointers are ancestors, the walk over skip pointers returns exactly the
  block that many parents up, or a null pointer for a height out of range, and never uses a bad pointer.\<close>

theorem get_ancestor_is_parent_walk:
  assumes "block_tree h" and "\<forall>q. skip_ok h q" and "h p = Some bi"
  shows "GetAncestor h p height =
    Some (if 0 \<le> height \<and> height \<le> bi_nHeight bi then up h (nat (bi_nHeight bi - height)) p else None)"
  using assms by (intro GetAncestor_up) auto

theorem get_ancestor_is_parent_walk_witness:
  "GetAncestor sample_tree 5 1 = Some (Some 1) \<and> GetAncestor sample_tree 5 4 = Some None"
  using get_ancestor_is_parent_walk [OF sample_tree_ok _ sample_tree_simps(6), of 1]
    get_ancestor_is_parent_walk [OF sample_tree_ok _ sample_tree_simps(6), of 4] sample_tree_skip
  by simp

text \<open>Building the skip pointer of a new block keeps the tree well formed, gives every block a correct
  skip pointer and changes no parent.\<close>

theorem build_skip_keeps_tree:
  assumes "block_tree h" and "\<forall>q. q \<noteq> p \<longrightarrow> skip_ok h q" and "h p = Some bi"
  shows "\<exists>h'. BuildSkip h p = Some h' \<and> block_tree h' \<and> (\<forall>q. skip_ok h' q) \<and> (\<forall>n q. up h' n q = up h n q)"
  using assms by (intro BuildSkip_ok) auto

theorem build_skip_keeps_tree_witness:
  "\<exists>h'. BuildSkip sample_tree 5 = Some h' \<and> block_tree h' \<and> (\<forall>q. skip_ok h' q) \<and>
    (\<forall>n q. up h' n q = up sample_tree n q)"
  by (rule build_skip_keeps_tree [OF sample_tree_ok _ sample_tree_simps(6)]) (simp add: sample_tree_skip)

section \<open>The active chain\<close>

text \<open>Setting the tip replaces any active chain by the path from genesis to the new tip, however the
  two branches relate, although the loop stops at the first block that is already in place; membership
  tests then hold for exactly the ancestors of the tip.\<close>

theorem set_tip_is_path:
  assumes "block_tree h" and "chain_ok h v" and "h p = Some bi"
  shows "SetTip h v (Some p) = Some (chain_of h p) \<and> chain_Tip h (chain_of h p) False = Some (Some p) \<and>
    chain_Height (chain_of h p) = bi_nHeight bi \<and>
    (\<forall>q b. h q = Some b \<longrightarrow>
       chain_Contains h (chain_of h p) q = Some (\<exists>n\<le>height_of h p. up h n p = Some q))"
proof -
  have "chain_Contains h (chain_of h p) q = Some (\<exists>n\<le>height_of h p. up h n p = Some q)" if "h q = Some b" for q b
  proof -
    have "chain_ok h (chain_of h p)"
      using assms(3) unfolding chain_ok_def by blast
    then have "chain_Contains h (chain_of h p) q = Some (Some q \<in> set (chain_of h p))"
      by (rule chain_Contains_member [OF assms(1) _ that])
    also have "Some q \<in> set (chain_of h p) \<longleftrightarrow> (\<exists>n\<le>height_of h p. up h n p = Some q)"
      by (rule chain_of_member)
    finally show ?thesis .
  qed
  then show ?thesis
    using SetTip_chain_of [OF assms] height_of_int [OF assms(1,3)] by (simp add: chain_Tip_def chain_Height_def)
qed

theorem set_tip_is_path_witness:
  "SetTip sample_tree (chain_of sample_tree 3) (Some 5) = Some [Some 0, Some 1, Some 4, Some 5]"
  using set_tip_is_path [OF sample_tree_ok sample_chain_ok sample_tree_simps(6)] by simp

text \<open>The fork point of a block with the active chain is its closest ancestor on that chain.\<close>

theorem find_fork_last_common:
  assumes "block_tree h" and "\<forall>q. skip_ok h q" and "chain_ok h v" and "h p = Some bi"
  shows "\<exists>r. FindFork h v (Some p) = Some r \<and>
    (case r of None \<Rightarrow> \<forall>n\<le>height_of h p. up h n p \<notin> set v
     | Some q \<Rightarrow> \<exists>n\<le>height_of h p. up h n p = Some q \<and> Some q \<in> set v \<and> (\<forall>m<n. up h m p \<notin> set v))"
  using assms by (intro FindFork_last_common) auto

theorem find_fork_last_common_witness: "FindFork sample_tree (chain_of sample_tree 3) (Some 5) = Some (Some 1)"
proof -
  let ?v = "chain_of sample_tree 3"
  have up: "up sample_tree 0 5 = Some 5" "up sample_tree 1 5 = Some 4" "up sample_tree 2 5 = Some 1"
    by simp_all
  obtain r where r: "FindFork sample_tree ?v (Some 5) = Some r"
    "case r of None \<Rightarrow> \<forall>n\<le>height_of sample_tree 5. up sample_tree n 5 \<notin> set ?v
     | Some q \<Rightarrow> \<exists>n\<le>height_of sample_tree 5. up sample_tree n 5 = Some q \<and> Some q \<in> set ?v \<and>
         (\<forall>m<n. up sample_tree m 5 \<notin> set ?v)"
    using find_fork_last_common [OF sample_tree_ok _ sample_chain_ok sample_tree_simps(6)] sample_tree_skip by blast
  show ?thesis
  proof (cases r)
    case None
    then show ?thesis
      using r(2) up(3) by (auto dest: spec [of _ 2])
  next
    case (Some q)
    then obtain n where n: "up sample_tree n 5 = Some q" "Some q \<in> set ?v" "\<forall>m<n. up sample_tree m 5 \<notin> set ?v"
      using r(2) by auto
    have "\<not> 2 < n"
      using n(3) up(3) by auto
    moreover have "n \<noteq> 0"
    proof
      assume "n = 0"
      then show False using n(1,2) by auto
    qed
    moreover have "n \<noteq> 1"
    proof
      assume "n = 1"
      then show False using n(1,2) by auto
    qed
    ultimately have "n = 2"
      by linarith
    then show ?thesis
      using n(1) up(3) r(1) Some by simp
  qed
qed

section \<open>Locators\<close>

text \<open>C39: A locator lists the hashes of the ancestors at the heights that fall by one ten times and then by
  powers of two, down to the genesis block; below height \<open>2 ^ k\<close> it has at most \<open>11 + k\<close> hashes.\<close>

theorem locator_is_logarithmic:
  assumes "block_tree h" and "\<forall>q. skip_ok h q" and "chain_ok h v" and "h p = Some bi" and "bi_nHeight bi < 2 ^ k"
  shows "\<exists>hs. GetLocator h v (Some p) = Some hs \<and> hs = map (hash_at h p) (locator_heights 0 1 (height_of h p)) \<and>
    length hs \<le> 11 + k \<and> last hs = hash_at h p 0"
proof -
  have "int (height_of h p) < int (2 ^ k)"
    using assms(5) height_of_int [OF assms(1,4)] by simp
  then have "height_of h p < 2 ^ k"
    by (simp only: of_nat_less_iff)
  then have "length (locator_heights 0 1 (height_of h p)) \<le> 11 + k"
    using locator_heights_length [of "height_of h p" k 0] by simp
  moreover have "locator_heights 0 1 (height_of h p) \<noteq> []"
    by (subst locator_heights.simps) simp
  ultimately show ?thesis
    using GetLocator_heights [OF assms(1) _ assms(3,4)] assms(2) last_locator_heights [of 1 0 "height_of h p"]
    by (auto simp: last_map)
qed

theorem locator_is_logarithmic_witness:
  "\<exists>hs. GetLocator sample_tree (chain_of sample_tree 3) (Some 5) = Some hs \<and>
    hs = map (hash_at sample_tree 5) (locator_heights 0 1 (height_of sample_tree 5)) \<and>
    length hs \<le> 11 + 2 \<and> last hs = hash_at sample_tree 5 0"
  by (rule locator_is_logarithmic [OF sample_tree_ok _ sample_chain_ok sample_tree_simps(6)])
    (simp_all add: sample_tree_skip)

section \<open>Votes over past blocks\<close>

text \<open>The majority test over past blocks, which stops early, decides whether enough of the last blocks
  have at least the version asked for.\<close>

theorem super_majority_is_count:
  assumes "prev_blocks nToCheck h p = Some bs"
  shows "IsSuperMajority h nToCheck minVersion p nRequired =
    Some (nRequired \<le> length (filter (\<lambda>b. minVersion \<le> bi_nVersion b) bs))"
  using assms by (rule IsSuperMajority_count)

theorem super_majority_is_count_witness: "IsSuperMajority sample_tree 3 4 (Some 5) 3 = Some True"
proof -
  have "prev_blocks 3 sample_tree (Some 5) =
      Some [tree_block (Some 4) 3 (Some 1), tree_block (Some 1) 2 (Some 0), tree_block (Some 0) 1 (Some 0)]"
    by simp
  from super_majority_is_count [OF this, of 4 3] show ?thesis
    by simp
qed

text \<open>The median time of a block is one of the times of its last eleven blocks, with at most half of them
  before it and at most half after it.\<close>

theorem median_time_is_median:
  assumes "block_tree h" and "h p = Some bi"
  shows "\<exists>ts m. past_times 11 h (Some p) = Some ts \<and> length ts = min 11 (Suc (height_of h p)) \<and>
    GetMedianTimePast h p = Some m \<and> m \<in> set ts \<and>
    length (filter (\<lambda>t. t < m) ts) \<le> length ts div 2 \<and> length (filter (\<lambda>t. m < t) ts) \<le> length ts div 2"
  using assms by (rule GetMedianTimePast_median)

theorem median_time_is_median_witness:
  "\<exists>ts m. past_times 11 sample_tree (Some 5) = Some ts \<and> length ts = min 11 (Suc (height_of sample_tree 5)) \<and>
    GetMedianTimePast sample_tree 5 = Some m \<and> m \<in> set ts \<and>
    length (filter (\<lambda>t. t < m) ts) \<le> length ts div 2 \<and> length (filter (\<lambda>t. m < t) ts) \<le> length ts div 2"
  by (rule median_time_is_median [OF sample_tree_ok sample_tree_simps(6)])

end
