(* ===== verification/ChainState.thy ===== *)
theory ChainState
  imports ChainProps
begin

unbundle bit_operations_syntax

text \<open>
  The choice of the active chain, \<open>src/main.cpp\<close>: the candidate set and its order, finding the chain
  with most work, connecting and disconnecting blocks step by step, invalidating and reconsidering
  blocks, receiving block data. The globals the code works on are the record \<open>chainstate\<close>.

  \<open>setBlockIndexCandidates\<close> is a \<open>std::set\<close> of pointers ordered by a comparator that reads the
  entries: here the list of its elements in that order, so \<open>rbegin\<close> is the last one.
  \<open>mapBlocksUnlinked\<close> is the list of its pairs, those of one key in insertion order. \<open>mapBlockIndex\<close>
  is the list of its pointers in iteration order. What \<open>ConnectBlock\<close>, \<open>DisconnectBlock\<close> and
  \<open>FlushStateToDisk\<close> do to the coins is an argument, \<open>node_env\<close>; memory pool, wallet notifications and
  fork warnings are left out. The outer \<open>None\<close> of a result is a failed assertion, the use of a null or
  dangling pointer, or a loop that does not end.
\<close>

record 'v chainstate =
  cs_index :: index_heap
  cs_map :: "ptr list"
  cs_active :: CChain
  cs_candidates :: "ptr list"
  cs_unlinked :: "(ptr \<times> ptr) list"
  cs_best_invalid :: "ptr option"
  cs_next_seq :: "32 word"
  cs_dirty :: "ptr set"
  cs_view :: 'v

text \<open>\<open>CValidationState\<close>: its mode, and for an invalid state whether the data may be corrupt.\<close>

datatype vstate = VValid | VInvalid bool | VError

datatype 'v connect_result = ConnectOk 'v | ConnectFail vstate

record 'v node_env =
  ne_connect :: "index_heap \<Rightarrow> ptr \<Rightarrow> 'v \<Rightarrow> CBlockIndex \<times> 'v connect_result"
  ne_disconnect :: "index_heap \<Rightarrow> ptr \<Rightarrow> 'v \<Rightarrow> 'v option"
  ne_flush :: "'v \<Rightarrow> bool"

section \<open>The order of candidates\<close>

text \<open>\<open>CBlockIndexWorkComparator\<close>: less work first, then later arrival, then the higher address.\<close>

definition work_less :: "index_heap \<Rightarrow> ptr \<Rightarrow> ptr \<Rightarrow> bool" where
  "work_less h pa pb =
     (case (h pa, h pb) of
        (Some a, Some b) \<Rightarrow>
          if CompareTo (bi_nChainWork a) (bi_nChainWork b) > 0 then False
          else if CompareTo (bi_nChainWork a) (bi_nChainWork b) < 0 then True
          else if bi_nSequenceId a < bi_nSequenceId b then False
          else if bi_nSequenceId a > bi_nSequenceId b then True
          else if pa < pb then False
          else if pa > pb then True
          else False
      | _ \<Rightarrow> False)"

text \<open>\<open>std::set\<close>: inserting an element that is equivalent to one of the set does nothing.\<close>

fun std_insert :: "('a \<Rightarrow> 'a \<Rightarrow> bool) \<Rightarrow> 'a \<Rightarrow> 'a list \<Rightarrow> 'a list" where
  "std_insert lt p [] = [p]"
| "std_insert lt p (q # qs) =
     (if lt p q then p # q # qs
      else if lt q p then q # std_insert lt p qs
      else q # qs)"

fun std_erase :: "('a \<Rightarrow> 'a \<Rightarrow> bool) \<Rightarrow> 'a \<Rightarrow> 'a list \<Rightarrow> 'a list" where
  "std_erase lt p [] = []"
| "std_erase lt p (q # qs) =
     (if lt q p then q # std_erase lt p qs
      else if lt p q then q # qs
      else qs)"

text \<open>What a \<open>std::set\<close> promises when its comparator is a strict total order on the elements used.\<close>

locale std_set =
  fixes lt :: "'a \<Rightarrow> 'a \<Rightarrow> bool" and carrier :: "'a set"
  assumes irrefl: "x \<in> carrier \<Longrightarrow> \<not> lt x x"
    and trans: "x \<in> carrier \<Longrightarrow> y \<in> carrier \<Longrightarrow> z \<in> carrier \<Longrightarrow> lt x y \<Longrightarrow> lt y z \<Longrightarrow> lt x z"
    and total: "x \<in> carrier \<Longrightarrow> y \<in> carrier \<Longrightarrow> x \<noteq> y \<Longrightarrow> lt x y \<or> lt y x"
begin

lemma asym: "x \<in> carrier \<Longrightarrow> y \<in> carrier \<Longrightarrow> lt x y \<Longrightarrow> \<not> lt y x"
  using irrefl trans by blast

lemma not_less_trans: "x \<in> carrier \<Longrightarrow> y \<in> carrier \<Longrightarrow> z \<in> carrier \<Longrightarrow> \<not> lt x y \<Longrightarrow> \<not> lt y z \<Longrightarrow> \<not> lt x z"
  using trans total by metis

lemma set_insert: "set xs \<subseteq> carrier \<Longrightarrow> p \<in> carrier \<Longrightarrow> set (std_insert lt p xs) = insert p (set xs)"
proof (induction xs)
  case (Cons q qs)
  then show ?case
    using total [of p q] by auto
qed simp

lemma sorted_insert:
  "set xs \<subseteq> carrier \<Longrightarrow> p \<in> carrier \<Longrightarrow> sorted_wrt lt xs \<Longrightarrow> sorted_wrt lt (std_insert lt p xs)"
proof (induction xs)
  case (Cons q qs)
  then have IH: "sorted_wrt lt (std_insert lt p qs)" "set (std_insert lt p qs) = insert p (set qs)"
    using set_insert [of qs p] by simp_all
  have "lt p r" if "lt p q" "r \<in> set qs" for r
    using trans [of p q r] that Cons.prems by auto
  then show ?case
    using Cons.prems IH by auto
qed simp

lemma set_erase:
  "set xs \<subseteq> carrier \<Longrightarrow> p \<in> carrier \<Longrightarrow> sorted_wrt lt xs \<Longrightarrow> set (std_erase lt p xs) = set xs - {p}"
proof (induction xs)
  case (Cons q qs)
  have carrier: "q \<in> carrier" "set qs \<subseteq> carrier" "\<forall>r \<in> set qs. lt q r"
    using Cons.prems by simp_all
  consider "lt q p" | "lt p q" "\<not> lt q p" | "q = p"
    using total [of p q] Cons.prems by auto
  then show ?case
  proof cases
    case 1
    then show ?thesis
      using Cons irrefl [of p] by auto
  next
    case 2
    have "p \<notin> set qs"
      using 2 carrier by auto
    then show ?thesis
      using 2 irrefl [of p] Cons.prems by auto
  next
    case 3
    then have "p \<notin> set qs" "\<not> lt p p"
      using carrier irrefl by auto
    then show ?thesis
      using 3 by auto
  qed
qed simp

lemma sorted_erase:
  "set xs \<subseteq> carrier \<Longrightarrow> p \<in> carrier \<Longrightarrow> sorted_wrt lt xs \<Longrightarrow> sorted_wrt lt (std_erase lt p xs)"
proof (induction xs)
  case (Cons q qs)
  then show ?case
    using set_erase [of qs p] by auto
qed simp

lemma length_erase:
  "set xs \<subseteq> carrier \<Longrightarrow> sorted_wrt lt xs \<Longrightarrow> p \<in> set xs \<Longrightarrow> length (std_erase lt p xs) < length xs"
proof (induction xs)
  case (Cons q qs)
  consider "lt q p" "p \<in> set qs" | "q = p"
    using Cons.prems by auto
  then show ?case
    using Cons irrefl [of p] by cases auto
qed simp

lemma last_greatest:
  assumes "set xs \<subseteq> carrier" and "sorted_wrt lt xs" and "x \<in> set xs"
  shows "\<not> lt (last xs) x"
proof (cases "x = last xs")
  case True
  then show ?thesis
    using assms irrefl by auto
next
  case False
  obtain ys where xs: "xs = ys @ [last xs]"
    using assms(3) by (metis append_butlast_last_id empty_iff empty_set)
  then have "x \<in> set ys"
    using assms(3) False by (metis UnE empty_iff insert_iff list.set set_append)
  then have "lt x (last xs)"
    using assms(2) xs by (metis list.set_intros(1) sorted_wrt_append)
  then show ?thesis
    using asym [of x "last xs"] assms xs by (metis in_set_conv_decomp subsetD)
qed

text \<open>Dropping from the front what is below an element keeps exactly the rest.\<close>

lemma drop_below:
  assumes "set xs \<subseteq> carrier" and "t \<in> carrier" and "sorted_wrt lt xs"
  shows "set (dropWhile (\<lambda>q. lt q t) xs) = {x \<in> set xs. \<not> lt x t}"
  using assms(1,3)
proof (induction xs)
  case (Cons q qs)
  show ?case
  proof (cases "lt q t")
    case True
    then show ?thesis
      using Cons by auto
  next
    case False
    have "\<not> lt r t" if "r \<in> set qs" for r
      using trans [of q r t] that Cons.prems assms(2) False by auto
    then show ?thesis
      using False by auto
  qed
qed simp

end

section \<open>Updates of the state\<close>

definition cs_Tip :: "'v chainstate \<Rightarrow> ptr option" where
  "cs_Tip s = (if cs_active s = [] then None else last (cs_active s))"

definition insert_candidate :: "ptr \<Rightarrow> 'v chainstate \<Rightarrow> 'v chainstate" where
  "insert_candidate p s = s\<lparr>cs_candidates := std_insert (work_less (cs_index s)) p (cs_candidates s)\<rparr>"

definition erase_candidate :: "ptr \<Rightarrow> 'v chainstate \<Rightarrow> 'v chainstate" where
  "erase_candidate p s = s\<lparr>cs_candidates := std_erase (work_less (cs_index s)) p (cs_candidates s)\<rparr>"

definition set_entry :: "ptr \<Rightarrow> CBlockIndex \<Rightarrow> 'v chainstate \<Rightarrow> 'v chainstate" where
  "set_entry p bi s = s\<lparr>cs_index := (cs_index s)(p \<mapsto> bi)\<rparr>"

definition mark_dirty :: "ptr \<Rightarrow> 'v chainstate \<Rightarrow> 'v chainstate" where
  "mark_dirty p s = s\<lparr>cs_dirty := insert p (cs_dirty s)\<rparr>"

definition add_status :: "ptr \<Rightarrow> 32 word \<Rightarrow> 'v chainstate \<Rightarrow> 'v chainstate option" where
  "add_status p flag s = do {
     bi \<leftarrow> cs_index s p;
     Some (set_entry p (bi\<lparr>bi_nStatus := bi_nStatus bi OR flag\<rparr>) s) }"

definition more_work :: "index_heap \<Rightarrow> ptr \<Rightarrow> ptr \<Rightarrow> bool option" where
  "more_work h pa pb = do {
     a \<leftarrow> h pa;
     b \<leftarrow> h pb;
     Some (CompareTo (bi_nChainWork a) (bi_nChainWork b) > 0) }"

text \<open>The log message reads the hash of the tip.\<close>

definition note_invalid :: "ptr \<Rightarrow> 'v chainstate \<Rightarrow> 'v chainstate option" where
  "note_invalid p s = do {
     better \<leftarrow> (case cs_best_invalid s of None \<Rightarrow> Some True | Some b \<Rightarrow> more_work (cs_index s) p b);
     Some (if better then s\<lparr>cs_best_invalid := Some p\<rparr> else s) }"

definition InvalidChainFound :: "ptr \<Rightarrow> 'v chainstate \<Rightarrow> 'v chainstate option" where
  "InvalidChainFound p s = do {
     s \<leftarrow> note_invalid p s;
     tip \<leftarrow> cs_Tip s;
     Some s }"

definition InvalidBlockFound :: "ptr \<Rightarrow> bool \<Rightarrow> 'v chainstate \<Rightarrow> 'v chainstate option" where
  "InvalidBlockFound p corruption s =
     (if corruption then Some s
      else do {
        s \<leftarrow> add_status p BLOCK_FAILED_VALID s;
        InvalidChainFound p (erase_candidate p (mark_dirty p s)) })"

section \<open>The candidate with most work\<close>

text \<open>The entries from the candidate down to the failed one leave the set.\<close>

partial_function (option) remove_failed_loop ::
  "bool \<Rightarrow> ptr \<Rightarrow> ptr \<Rightarrow> 'v chainstate \<Rightarrow> 'v chainstate option" where
  "remove_failed_loop fFailedChain pindexTest pindexFailed s =
     (if pindexTest = pindexFailed then Some s
      else do {
        bi \<leftarrow> cs_index s pindexFailed;
        prev \<leftarrow> bi_pprev bi;
        s \<leftarrow> (if fFailedChain then add_status pindexFailed BLOCK_FAILED_CHILD s
              else Some (s\<lparr>cs_unlinked := cs_unlinked s @ [(prev, pindexFailed)]\<rparr>));
        remove_failed_loop fFailedChain pindexTest prev (erase_candidate pindexFailed s) })"

definition is_failed :: "CBlockIndex \<Rightarrow> bool" where
  "is_failed bi \<longleftrightarrow> bi_nStatus bi AND BLOCK_FAILED_MASK \<noteq> 0"

definition has_data :: "CBlockIndex \<Rightarrow> bool" where
  "has_data bi \<longleftrightarrow> bi_nStatus bi AND BLOCK_HAVE_DATA \<noteq> 0"

definition reject_candidate :: "ptr \<Rightarrow> ptr \<Rightarrow> bool \<Rightarrow> 'v chainstate \<Rightarrow> 'v chainstate option" where
  "reject_candidate pindexNew pindexTest fFailedChain s = do {
     s \<leftarrow> (if fFailedChain then note_invalid pindexNew s else Some s);
     s \<leftarrow> remove_failed_loop fFailedChain pindexTest pindexNew s;
     Some (erase_candidate pindexTest s) }"

text \<open>The walk from the candidate to the active chain; the flag is \<open>fInvalidAncestor\<close>.\<close>

partial_function (option) test_path_loop ::
  "ptr \<Rightarrow> ptr option \<Rightarrow> 'v chainstate \<Rightarrow> (bool \<times> 'v chainstate) option" where
  "test_path_loop pindexNew pindexTest s =
     (case pindexTest of
        None \<Rightarrow> Some (False, s)
      | Some p \<Rightarrow> do {
          c \<leftarrow> chain_Contains (cs_index s) (cs_active s) p;
          bi \<leftarrow> cs_index s p;
          if c then Some (False, s)
          else if bi_nChainTx bi = 0 \<and> bi_nHeight bi \<noteq> 0 then None
          else if is_failed bi \<or> \<not> has_data bi then do {
            s \<leftarrow> reject_candidate pindexNew p (is_failed bi) s;
            Some (True, s) }
          else test_path_loop pindexNew (bi_pprev bi) s })"

partial_function (option) FindMostWorkChain :: "'v chainstate \<Rightarrow> (ptr option \<times> 'v chainstate) option" where
  "FindMostWorkChain s =
     (if cs_candidates s = [] then Some (None, s)
      else do {
        r \<leftarrow> test_path_loop (last (cs_candidates s)) (Some (last (cs_candidates s))) s;
        (case r of (fInvalidAncestor, s') \<Rightarrow>
           if fInvalidAncestor then FindMostWorkChain s'
           else Some (Some (last (cs_candidates s)), s')) })"

definition PruneBlockIndexCandidates :: "'v chainstate \<Rightarrow> 'v chainstate option" where
  "PruneBlockIndexCandidates s = do {
     tip \<leftarrow> cs_Tip s;
     (let kept = dropWhile (\<lambda>q. work_less (cs_index s) q tip) (cs_candidates s) in
      if kept = [] then None else Some (s\<lparr>cs_candidates := kept\<rparr>)) }"

section \<open>Connecting and disconnecting\<close>

text \<open>After setting the tip a log message reads its hash, which needs one.\<close>

definition UpdateTip :: "ptr option \<Rightarrow> 'v chainstate \<Rightarrow> 'v chainstate option" where
  "UpdateTip pindexNew s = do {
     v \<leftarrow> SetTip (cs_index s) (cs_active s) pindexNew;
     tip \<leftarrow> pindexNew;
     Some (s\<lparr>cs_active := v\<rparr>) }"

definition DisconnectTip :: "'v node_env \<Rightarrow> 'v chainstate \<Rightarrow> (bool \<times> 'v chainstate) option" where
  "DisconnectTip env s = do {
     pindexDelete \<leftarrow> cs_Tip s;
     bi \<leftarrow> cs_index s pindexDelete;
     (case ne_disconnect env (cs_index s) pindexDelete (cs_view s) of
        None \<Rightarrow> Some (False, s)
      | Some view \<Rightarrow>
          (let s = s\<lparr>cs_view := view\<rparr> in
           if \<not> ne_flush env view then Some (False, s)
           else do {
             s \<leftarrow> UpdateTip (bi_pprev bi) s;
             Some (True, s) })) }"

definition ConnectTip :: "'v node_env \<Rightarrow> ptr \<Rightarrow> 'v chainstate \<Rightarrow> ((bool \<times> vstate) \<times> 'v chainstate) option" where
  "ConnectTip env pindexNew s = do {
     bi \<leftarrow> cs_index s pindexNew;
     if bi_pprev bi \<noteq> cs_Tip s then None
     else
       (case ne_connect env (cs_index s) pindexNew (cs_view s) of (bi', result) \<Rightarrow>
          (let s = set_entry pindexNew bi' s in
           (case result of
              ConnectFail (VInvalid corruption) \<Rightarrow> do {
                s \<leftarrow> InvalidBlockFound pindexNew corruption s;
                Some ((False, VInvalid corruption), s) }
            | ConnectFail st \<Rightarrow> Some ((False, st), s)
            | ConnectOk view \<Rightarrow>
                (let s = s\<lparr>cs_view := view\<rparr> in
                 if \<not> ne_flush env view then Some ((False, VError), s)
                 else do {
                   s \<leftarrow> UpdateTip (Some pindexNew) s;
                   Some ((True, VValid), s) })))) }"

section \<open>Activating the best chain\<close>

partial_function (option) disconnect_loop ::
  "'v node_env \<Rightarrow> ptr option \<Rightarrow> 'v chainstate \<Rightarrow> (bool \<times> 'v chainstate) option" where
  "disconnect_loop env pindexFork s =
     (if cs_Tip s = None \<or> cs_Tip s = pindexFork then Some (True, s)
      else do {
        r \<leftarrow> DisconnectTip env s;
        (case r of (ok, s) \<Rightarrow> if ok then disconnect_loop env pindexFork s else Some (False, s)) })"

text \<open>The blocks above \<open>nHeight\<close>, the highest first: \<open>vpindexToConnect\<close>.\<close>

partial_function (option) to_connect_loop :: "index_heap \<Rightarrow> int \<Rightarrow> ptr option \<Rightarrow> ptr list option" where
  "to_connect_loop h nHeight pindexIter =
     (case pindexIter of
        None \<Rightarrow> Some []
      | Some p \<Rightarrow> do {
          bi \<leftarrow> h p;
          if bi_nHeight bi = nHeight then Some []
          else do {
            rest \<leftarrow> to_connect_loop h nHeight (bi_pprev bi);
            Some (p # rest) } })"

text \<open>How a batch ends: all connected, in a better position than before, an invalid block, or an error.\<close>

datatype batch_result = BatchDone | BatchBetter | BatchInvalid | BatchError

fun connect_batch ::
  "'v node_env \<Rightarrow> ptr option \<Rightarrow> ptr \<Rightarrow> ptr list \<Rightarrow> 'v chainstate \<Rightarrow> (batch_result \<times> 'v chainstate) option" where
  "connect_batch env pindexOldTip back [] s = Some (BatchDone, s)"
| "connect_batch env pindexOldTip back (p # ps) s = do {
     r \<leftarrow> ConnectTip env p s;
     (case r of ((ok, st), s) \<Rightarrow>
        if ok then do {
          s \<leftarrow> PruneBlockIndexCandidates s;
          tip \<leftarrow> cs_Tip s;
          better \<leftarrow> (case pindexOldTip of None \<Rightarrow> Some True | Some old \<Rightarrow> more_work (cs_index s) tip old);
          if better then Some (BatchBetter, s) else connect_batch env pindexOldTip back ps s }
        else
          (case st of
             VInvalid corruption \<Rightarrow> do {
               s \<leftarrow> (if corruption then Some s else InvalidChainFound back s);
               Some (BatchInvalid, s) }
           | _ \<Rightarrow> Some (BatchError, s))) }"

text \<open>Batches of at most 32 blocks.\<close>

partial_function (option) batches_loop ::
  "'v node_env \<Rightarrow> ptr option \<Rightarrow> ptr \<Rightarrow> int \<Rightarrow> int \<Rightarrow> 'v chainstate \<Rightarrow> (bool \<times> 'v chainstate) option" where
  "batches_loop env pindexOldTip pindexMostWork nTop nHeight s =
     (if nHeight = nTop then Some (True, s)
      else do {
        start \<leftarrow> GetAncestor (cs_index s) pindexMostWork (min (nHeight + 32) nTop);
        vpindexToConnect \<leftarrow> to_connect_loop (cs_index s) nHeight start;
        r \<leftarrow> connect_batch env pindexOldTip (last vpindexToConnect) (rev vpindexToConnect) s;
        (case r of
           (BatchDone, s) \<Rightarrow> batches_loop env pindexOldTip pindexMostWork nTop (min (nHeight + 32) nTop) s
         | (BatchError, s) \<Rightarrow> Some (False, s)
         | (_, s) \<Rightarrow> Some (True, s)) })"

definition ActivateBestChainStep ::
  "'v node_env \<Rightarrow> ptr \<Rightarrow> 'v chainstate \<Rightarrow> (bool \<times> 'v chainstate) option" where
  "ActivateBestChainStep env pindexMostWork s = do {
     pindexFork \<leftarrow> FindFork (cs_index s) (cs_active s) (Some pindexMostWork);
     r \<leftarrow> disconnect_loop env pindexFork s;
     (case r of (ok, s1) \<Rightarrow>
        if \<not> ok then Some (False, s1)
        else do {
          top \<leftarrow> cs_index s1 pindexMostWork;
          nHeight \<leftarrow> (case pindexFork of None \<Rightarrow> Some (-1) | Some f \<Rightarrow> map_option bi_nHeight (cs_index s1 f));
          batches_loop env (cs_Tip s) pindexMostWork (bi_nHeight top) nHeight s1 }) }"

partial_function (option) ActivateBestChain ::
  "'v node_env \<Rightarrow> 'v chainstate \<Rightarrow> (bool \<times> 'v chainstate) option" where
  "ActivateBestChain env s = do {
     r \<leftarrow> FindMostWorkChain s;
     (case r of
        (None, s1) \<Rightarrow> Some (True, s1)
      | (Some pindexMostWork, s1) \<Rightarrow>
          if Some pindexMostWork = cs_Tip s1 then Some (True, s1)
          else do {
            q \<leftarrow> ActivateBestChainStep env pindexMostWork s1;
            (case q of (ok, s2) \<Rightarrow>
               if \<not> ok then Some (False, s2)
               else if Some pindexMostWork = cs_Tip s2 then Some (ne_flush env (cs_view s2), s2)
               else ActivateBestChain env s2) }) }"

section \<open>Invalidating and reconsidering blocks\<close>

partial_function (option) invalidate_loop ::
  "'v node_env \<Rightarrow> ptr \<Rightarrow> 'v chainstate \<Rightarrow> (bool \<times> 'v chainstate) option" where
  "invalidate_loop env pindex s = do {
     c \<leftarrow> chain_Contains (cs_index s) (cs_active s) pindex;
     if \<not> c then Some (True, s)
     else do {
       pindexWalk \<leftarrow> cs_Tip s;
       s \<leftarrow> add_status pindexWalk BLOCK_FAILED_CHILD s;
       r \<leftarrow> DisconnectTip env (erase_candidate pindexWalk (mark_dirty pindexWalk s));
       (case r of (ok, s) \<Rightarrow> if ok then invalidate_loop env pindex s else Some (False, s)) } }"

fun readd_loop :: "ptr list \<Rightarrow> 'v chainstate \<Rightarrow> 'v chainstate option" where
  "readd_loop [] s = Some s"
| "readd_loop (p # ps) s = do {
     bi \<leftarrow> cs_index s p;
     valid \<leftarrow> IsValid bi BLOCK_VALID_TRANSACTIONS;
     tip \<leftarrow> cs_Tip s;
     readd_loop ps
       (if valid \<and> bi_nChainTx bi \<noteq> 0 \<and> \<not> work_less (cs_index s) p tip then insert_candidate p s else s) }"

definition InvalidateBlock :: "'v node_env \<Rightarrow> ptr \<Rightarrow> 'v chainstate \<Rightarrow> (bool \<times> 'v chainstate) option" where
  "InvalidateBlock env pindex s = do {
     s \<leftarrow> add_status pindex BLOCK_FAILED_VALID s;
     r \<leftarrow> invalidate_loop env pindex (erase_candidate pindex (mark_dirty pindex s));
     (case r of (ok, s) \<Rightarrow>
        if \<not> ok then Some (False, s)
        else do {
          s \<leftarrow> readd_loop (cs_map s) s;
          s \<leftarrow> InvalidChainFound pindex s;
          Some (True, s) }) }"

definition clear_failed :: "CBlockIndex \<Rightarrow> CBlockIndex" where
  "clear_failed bi = bi\<lparr>bi_nStatus := bi_nStatus bi AND NOT BLOCK_FAILED_MASK\<rparr>"

text \<open>\<open>IsValid\<close> has the default argument \<open>BLOCK_VALID_TRANSACTIONS\<close>.\<close>

fun reconsider_loop :: "ptr \<Rightarrow> int \<Rightarrow> ptr list \<Rightarrow> 'v chainstate \<Rightarrow> 'v chainstate option" where
  "reconsider_loop pindex nHeight [] s = Some s"
| "reconsider_loop pindex nHeight (p # ps) s = do {
     bi \<leftarrow> cs_index s p;
     valid \<leftarrow> IsValid bi BLOCK_VALID_TRANSACTIONS;
     anc \<leftarrow> (if valid then Some None else GetAncestor (cs_index s) p nHeight);
     if \<not> valid \<and> anc = Some pindex then do {
       (let bi = clear_failed bi; s = mark_dirty p (set_entry p bi s) in do {
          valid \<leftarrow> IsValid bi BLOCK_VALID_TRANSACTIONS;
          better \<leftarrow> (if valid \<and> bi_nChainTx bi \<noteq> 0
                     then do { tip \<leftarrow> cs_Tip s; Some (work_less (cs_index s) tip p) } else Some False);
          (let s = (if better then insert_candidate p s else s);
               s = (if cs_best_invalid s = Some p then s\<lparr>cs_best_invalid := None\<rparr> else s)
           in reconsider_loop pindex nHeight ps s) }) }
     else reconsider_loop pindex nHeight ps s }"

partial_function (option) clear_ancestors_loop :: "ptr option \<Rightarrow> 'v chainstate \<Rightarrow> 'v chainstate option" where
  "clear_ancestors_loop pindex s =
     (case pindex of
        None \<Rightarrow> Some s
      | Some p \<Rightarrow> do {
          bi \<leftarrow> cs_index s p;
          clear_ancestors_loop (bi_pprev bi)
            (if is_failed bi then mark_dirty p (set_entry p (clear_failed bi) s) else s) })"

definition ReconsiderBlock :: "ptr \<Rightarrow> 'v chainstate \<Rightarrow> 'v chainstate option" where
  "ReconsiderBlock pindex s = do {
     bi \<leftarrow> cs_index s pindex;
     s \<leftarrow> reconsider_loop pindex (bi_nHeight bi) (cs_map s) s;
     clear_ancestors_loop (Some pindex) s }"

section \<open>Receiving the data of a block\<close>

text \<open>A position on disk: the number of the file and the offset.\<close>

type_synonym CDiskBlockPos = "int \<times> 32 word"

definition received_one :: "ptr \<Rightarrow> CBlockIndex \<Rightarrow> 32 word \<Rightarrow> 'v chainstate \<Rightarrow> 'v chainstate" where
  "received_one p bi nPrevTx s =
     (let s1 = (set_entry p (bi\<lparr>bi_nChainTx := nPrevTx + bi_nTx bi, bi_nSequenceId := cs_next_seq s\<rparr>) s)
                 \<lparr>cs_next_seq := cs_next_seq s + 1\<rparr>;
          s2 = (if (case cs_Tip s1 of None \<Rightarrow> True | Some tip \<Rightarrow> \<not> work_less (cs_index s1) p tip)
                then insert_candidate p s1 else s1)
      in s2\<lparr>cs_unlinked := filter (\<lambda>e. fst e \<noteq> p) (cs_unlinked s)\<rparr>)"

lemma cs_unlinked_received_one [simp]:
  "cs_unlinked (received_one p bi nPrevTx s) = filter (\<lambda>e. fst e \<noteq> p) (cs_unlinked s)"
  by (simp add: received_one_def Let_def)

function received_loop :: "ptr list \<Rightarrow> 'v chainstate \<Rightarrow> 'v chainstate option" where
  "received_loop [] s = Some s"
| "received_loop (p # queue) s = do {
     bi \<leftarrow> cs_index s p;
     nPrevTx \<leftarrow> (case bi_pprev bi of None \<Rightarrow> Some 0 | Some q \<Rightarrow> map_option bi_nChainTx (cs_index s q));
     received_loop (queue @ map snd (filter (\<lambda>e. fst e = p) (cs_unlinked s))) (received_one p bi nPrevTx s) }"
  by pat_completeness auto
termination
proof (relation "measure (\<lambda>(queue, s). length queue + length (cs_unlinked s))")
  fix p :: ptr and queue :: "ptr list" and s :: "'v chainstate" and bi nPrevTx
  show "((queue @ map snd (filter (\<lambda>e. fst e = p) (cs_unlinked s)), received_one p bi nPrevTx s), p # queue, s)
      \<in> measure (\<lambda>(queue, s). length queue + length (cs_unlinked s))"
    using sum_length_filter_compl [of "\<lambda>e. fst e = p" "cs_unlinked s"] by simp
qed auto

definition ReceivedBlockTransactions ::
  "bool \<Rightarrow> nat \<Rightarrow> CDiskBlockPos \<Rightarrow> ptr \<Rightarrow> 'v chainstate \<Rightarrow> 'v chainstate option" where
  "ReceivedBlockTransactions fProofOfStake nTx pos pindexNew s = do {
     bi \<leftarrow> cs_index s pindexNew;
     r \<leftarrow> RaiseValidity (bi\<lparr>bi_nFlags := (if fProofOfStake then bi_nFlags bi OR BLOCK_PROOF_OF_STAKE else bi_nFlags bi),
            bi_nTx := of_nat nTx, bi_nChainTx := 0, bi_nFile := fst pos, bi_nDataPos := snd pos, bi_nUndoPos := 0,
            bi_nStatus := bi_nStatus bi OR BLOCK_HAVE_DATA\<rparr>) BLOCK_VALID_TRANSACTIONS;
     (let s = mark_dirty pindexNew (set_entry pindexNew (snd r) s) in
      (case bi_pprev bi of
         None \<Rightarrow> received_loop [pindexNew] s
       | Some q \<Rightarrow> do {
           prev \<leftarrow> cs_index s q;
           if bi_nChainTx prev \<noteq> 0 then received_loop [pindexNew] s
           else do {
             valid \<leftarrow> IsValid prev BLOCK_VALID_TREE;
             Some (if valid then s\<lparr>cs_unlinked := cs_unlinked s @ [(q, pindexNew)]\<rparr> else s) } })) }"

section \<open>The last common ancestor\<close>

partial_function (option) common_loop ::
  "index_heap \<Rightarrow> ptr option \<Rightarrow> ptr option \<Rightarrow> (ptr option \<times> ptr option) option" where
  "common_loop h pa pb =
     (case (pa, pb) of
        (Some p, Some q) \<Rightarrow>
          if p = q then Some (pa, pb)
          else do {
            a \<leftarrow> h p;
            b \<leftarrow> h q;
            common_loop h (bi_pprev a) (bi_pprev b) }
      | _ \<Rightarrow> Some (pa, pb))"

definition LastCommonAncestor :: "index_heap \<Rightarrow> ptr \<Rightarrow> ptr \<Rightarrow> ptr option option" where
  "LastCommonAncestor h pa pb = do {
     a \<leftarrow> h pa;
     b \<leftarrow> h pb;
     pa' \<leftarrow> (if bi_nHeight a > bi_nHeight b then GetAncestor h pa (bi_nHeight b) else Some (Some pa));
     pb' \<leftarrow> (if bi_nHeight a < bi_nHeight b then GetAncestor h pb (bi_nHeight a) else Some (Some pb));
     r \<leftarrow> common_loop h pa' pb';
     (case r of (x, y) \<Rightarrow> if x = y then Some x else None) }"

end
