(* ===== verification/ChainStateInv.thy ===== *)
theory ChainStateInv
  imports ChainState
begin

unbundle bit_operations_syntax

text \<open>
  The invariant of the chain state, and what every operation on the candidate set keeps of it. The
  part of the block tree that decides the shape of the tree and the order of candidates is the
  skeleton; the operations that only flag blocks leave it alone.
\<close>

section \<open>The shape of the block tree\<close>

definition sized :: "index_heap \<Rightarrow> ptr set" where
  "sized h = {p. \<exists>bi. h p = Some bi \<and> length (bi_nChainWork bi) = 8}"

definition tree_inv :: "index_heap \<Rightarrow> bool" where
  "tree_inv h \<longleftrightarrow> block_tree h \<and> finite (dom h) \<and> (\<forall>p. skip_ok h p) \<and> dom h = sized h \<and>
     (\<exists>r. \<forall>p \<in> dom h. up h (height_of h p) p = Some r)"

definition shape :: "index_heap \<Rightarrow> ptr \<Rightarrow> (ptr option \<times> ptr option \<times> int \<times> limbs) option" where
  "shape h p = map_option (\<lambda>bi. (bi_pprev bi, bi_pskip bi, bi_nHeight bi, bi_nChainWork bi)) (h p)"

lemma shape_None: "shape h' = shape h \<Longrightarrow> h' p = None \<longleftrightarrow> h p = None"
  by (drule fun_cong [of _ _ p], cases "h' p"; cases "h p") (simp_all add: shape_def)

lemma shape_dom: "shape h' = shape h \<Longrightarrow> dom h' = dom h"
  using shape_None [of h' h] by (auto simp: dom_def)

lemma shape_Some:
  assumes "shape h' = shape h" and "h p = Some bi"
  obtains bi' where "h' p = Some bi'" "bi_pprev bi' = bi_pprev bi" "bi_pskip bi' = bi_pskip bi"
    "bi_nHeight bi' = bi_nHeight bi" "bi_nChainWork bi' = bi_nChainWork bi"
  using fun_cong [OF assms(1), of p] assms(2) by (auto simp: shape_def)

lemma shape_update:
  assumes "h p = Some bi" and "bi_pprev bi' = bi_pprev bi" "bi_pskip bi' = bi_pskip bi"
    "bi_nHeight bi' = bi_nHeight bi" "bi_nChainWork bi' = bi_nChainWork bi"
  shows "shape (h(p \<mapsto> bi')) = shape h"
  using assms by (auto simp: shape_def fun_eq_iff)

lemma shape_up: "shape h' = shape h \<Longrightarrow> up h' n p = up h n p"
proof (induction n arbitrary: p)
  case (Suc n)
  show ?case
  proof (cases "h p")
    case None
    then show ?thesis
      using shape_None [OF Suc.prems, of p] by simp
  next
    case (Some bi)
    obtain bi' where "h' p = Some bi'" "bi_pprev bi' = bi_pprev bi"
      using shape_Some [OF Suc.prems Some] by metis
    then show ?thesis
      using Some Suc.IH [OF Suc.prems] by (simp split: option.splits)
  qed
qed simp

lemma shape_height_of: "shape h' = shape h \<Longrightarrow> height_of h' p = height_of h p"
  by (drule fun_cong [of _ _ p]) (auto simp: shape_def height_of_def split: option.splits)

lemma shape_chain_of: "shape h' = shape h \<Longrightarrow> chain_of h' p = chain_of h p"
  using shape_up [of h' h] shape_height_of [of h' h] by (simp add: chain_of_def)

lemma shape_skip_ok:
  assumes "shape h' = shape h" and "skip_ok h' p"
  shows "skip_ok h p"
  unfolding skip_ok_def
proof (intro allI impI)
  fix bi
  assume bi: "h p = Some bi" "bi_pprev bi \<noteq> None"
  then obtain bi' where "h' p = Some bi'" "bi_pprev bi' = bi_pprev bi" "bi_pskip bi' = bi_pskip bi"
    using shape_Some [OF assms(1)] by metis
  then show "bi_pskip bi = up h (height_of h p - GetSkipHeight (height_of h p)) p"
    using assms(2) bi(2) by (simp add: skip_ok_def shape_up [OF assms(1)] shape_height_of [OF assms(1)])
qed

lemma shape_block_tree:
  assumes "shape h' = shape h" and "block_tree h'"
  shows "block_tree h"
  unfolding block_tree_def
proof (intro allI impI)
  fix p bi
  assume p: "h p = Some bi"
  then obtain bi' where bi': "h' p = Some bi'" "bi_pprev bi' = bi_pprev bi" "bi_nHeight bi' = bi_nHeight bi"
    using shape_Some [OF assms(1)] by metis
  from assms(2) bi'(1)
  show "case bi_pprev bi of None \<Rightarrow> bi_nHeight bi = 0
      | Some q \<Rightarrow> \<exists>b. h q = Some b \<and> 0 \<le> bi_nHeight b \<and> bi_nHeight bi = bi_nHeight b + 1"
  proof (cases rule: block_tree_cases)
    case root
    then show ?thesis
      using bi' by simp
  next
    case (child q b)
    obtain c where "h q = Some c" "bi_nHeight c = bi_nHeight b"
      using shape_Some [OF assms(1) [symmetric] child(2)] by metis
    then show ?thesis
      using child bi' by simp
  qed
qed

lemma shape_sized: "shape h' = shape h \<Longrightarrow> sized h' = sized h"
  unfolding sized_def by (metis (mono_tags, lifting) shape_Some)

lemma shape_tree_inv:
  assumes "shape h' = shape h" and "tree_inv h"
  shows "tree_inv h'"
proof -
  have eqs: "dom h' = dom h" "\<And>p. up h' (height_of h' p) p = up h (height_of h p) p"
    using shape_dom [OF assms(1)] shape_up [OF assms(1)] shape_height_of [OF assms(1)] by simp_all
  have "sized h' = sized h"
    by (rule shape_sized [OF assms(1)])
  moreover have "block_tree h'" "skip_ok h' p" for p
    using assms(2) shape_block_tree [OF assms(1) [symmetric]] shape_skip_ok [OF assms(1) [symmetric]]
    by (simp_all add: tree_inv_def)
  ultimately show ?thesis
    using assms(2) unfolding tree_inv_def eqs by blast
qed

section \<open>The skeleton: the shape, and what decides the order of candidates\<close>

definition skel :: "index_heap \<Rightarrow> ptr \<Rightarrow> (ptr option \<times> ptr option \<times> int \<times> limbs \<times> 32 word \<times> 32 word) option" where
  "skel h p = map_option (\<lambda>bi. (bi_pprev bi, bi_pskip bi, bi_nHeight bi, bi_nChainWork bi, bi_nSequenceId bi, bi_nChainTx bi)) (h p)"

lemma skel_shape: "skel h' = skel h \<Longrightarrow> shape h' = shape h"
proof
  fix p
  assume "skel h' = skel h"
  then have "skel h' p = skel h p"
    by simp
  then show "shape h' p = shape h p"
    by (cases "h' p"; cases "h p") (simp_all add: skel_def shape_def)
qed

lemmas skel_None = shape_None [OF skel_shape]
lemmas skel_dom = shape_dom [OF skel_shape]
lemmas skel_up = shape_up [OF skel_shape]
lemmas skel_height_of = shape_height_of [OF skel_shape]
lemmas skel_chain_of = shape_chain_of [OF skel_shape]
lemmas skel_sized = shape_sized [OF skel_shape]
lemmas skel_tree_inv = shape_tree_inv [OF skel_shape]

lemma skel_Some:
  assumes "skel h' = skel h" and "h p = Some bi"
  obtains bi' where "h' p = Some bi'" "bi_pprev bi' = bi_pprev bi" "bi_pskip bi' = bi_pskip bi"
    "bi_nHeight bi' = bi_nHeight bi" "bi_nChainWork bi' = bi_nChainWork bi" "bi_nSequenceId bi' = bi_nSequenceId bi"
    "bi_nChainTx bi' = bi_nChainTx bi"
  using fun_cong [OF assms(1), of p] assms(2) by (auto simp: skel_def)

lemma skel_update:
  assumes "h p = Some bi" and "bi_pprev bi' = bi_pprev bi" "bi_pskip bi' = bi_pskip bi"
    "bi_nHeight bi' = bi_nHeight bi" "bi_nChainWork bi' = bi_nChainWork bi" "bi_nSequenceId bi' = bi_nSequenceId bi"
    "bi_nChainTx bi' = bi_nChainTx bi"
  shows "skel (h(p \<mapsto> bi')) = skel h"
  using assms by (auto simp: skel_def fun_eq_iff)

lemma skel_work_less: "skel h' = skel h \<Longrightarrow> work_less h' = work_less h"
proof (intro ext)
  fix p q
  assume s: "skel h' = skel h"
  show "work_less h' p q = work_less h p q"
    using fun_cong [OF s, of p] fun_cong [OF s, of q]
    by (cases "h p"; cases "h q"; cases "h' p"; cases "h' q") (simp_all add: skel_def work_less_def)
qed

section \<open>The order of candidates\<close>

definition work_of :: "index_heap \<Rightarrow> ptr \<Rightarrow> nat" where
  "work_of h p = (case h p of None \<Rightarrow> 0 | Some bi \<Rightarrow> uval (bi_nChainWork bi))"

definition seq_of :: "index_heap \<Rightarrow> ptr \<Rightarrow> 32 word" where
  "seq_of h p = (case h p of None \<Rightarrow> 0 | Some bi \<Rightarrow> bi_nSequenceId bi)"

lemma work_less_iff:
  "p \<in> sized h \<Longrightarrow> q \<in> sized h \<Longrightarrow> work_less h p q \<longleftrightarrow>
     work_of h p < work_of h q \<or>
     work_of h p = work_of h q \<and> (seq_of h q < seq_of h p \<or> seq_of h p = seq_of h q \<and> q < p)"
proof -
  assume "p \<in> sized h" "q \<in> sized h"
  then obtain bi bj where b: "h p = Some bi" "h q = Some bj" "length (bi_nChainWork bi) = length (bi_nChainWork bj)"
    by (auto simp: sized_def)
  show ?thesis
    by (cases rule: linorder_cases [of "uval (bi_nChainWork bi)" "uval (bi_nChainWork bj)"];
        cases rule: linorder_cases [of "bi_nSequenceId bi" "bi_nSequenceId bj"])
      (use b in \<open>auto simp: work_less_def work_of_def seq_of_def CompareTo_sign\<close>)
qed

interpretation cand: std_set "work_less h" "sized h" for h
proof
  fix x y z
  show "x \<in> sized h \<Longrightarrow> \<not> work_less h x x"
    by (simp add: work_less_iff)
  show "x \<in> sized h \<Longrightarrow> y \<in> sized h \<Longrightarrow> z \<in> sized h \<Longrightarrow> work_less h x y \<Longrightarrow> work_less h y z \<Longrightarrow> work_less h x z"
    by (auto simp: work_less_iff)
  show "x \<in> sized h \<Longrightarrow> y \<in> sized h \<Longrightarrow> x \<noteq> y \<Longrightarrow> work_less h x y \<or> work_less h y x"
    by (auto simp: work_less_iff)
qed

section \<open>Complete blocks\<close>

text \<open>A block that can be in the active chain: it and its ancestors have not failed and have their data.\<close>

definition received :: "index_heap \<Rightarrow> ptr \<Rightarrow> bool" where
  "received h p \<longleftrightarrow> (\<forall>n q b. up h n p = Some q \<longrightarrow> h q = Some b \<longrightarrow> bi_nChainTx b \<noteq> 0 \<or> bi_nHeight b = 0)"

definition complete :: "index_heap \<Rightarrow> ptr \<Rightarrow> bool" where
  "complete h p \<longleftrightarrow> h p \<noteq> None \<and> received h p \<and>
     (\<forall>n q b. up h n p = Some q \<longrightarrow> h q = Some b \<longrightarrow> \<not> is_failed b \<and> has_data b)"

lemma skel_received: "skel h' = skel h \<Longrightarrow> received h' p \<Longrightarrow> received h p"
  unfolding received_def by (metis skel_Some skel_up)

lemma received_up: "received h p \<Longrightarrow> up h n p = Some q \<Longrightarrow> received h q"
  unfolding received_def by (metis up_up)

lemma complete_up: "complete h p \<Longrightarrow> up h n p = Some q \<Longrightarrow> h q \<noteq> None \<Longrightarrow> complete h q"
  unfolding complete_def using received_up by (metis up_up)

lemma complete_self: "complete h p \<Longrightarrow> h p = Some bi \<Longrightarrow> \<not> is_failed bi \<and> has_data bi"
  unfolding complete_def by (metis up.simps(1))

text \<open>Flagging a block as failed changes nothing for blocks that do not descend from it.\<close>

lemma complete_mark_failed:
  assumes "h q = Some bi" and "skel (h(q \<mapsto> bi')) = skel h" and "\<not> complete h q" and "is_failed bi'"
  shows "complete (h(q \<mapsto> bi')) p \<longleftrightarrow> complete h p"
proof
  assume c: "complete (h(q \<mapsto> bi')) p"
  have not_q: "up h n p \<noteq> Some q" for n
  proof
    assume "up h n p = Some q"
    then have "complete (h(q \<mapsto> bi')) q"
      using complete_up [OF c, of n q] skel_up [OF assms(2)] by simp
    then show False
      using complete_self assms(4) by (metis fun_upd_same)
  qed
  have "p \<noteq> q"
    using not_q [of 0] by auto
  then show "complete h p"
    using c not_q skel_received [OF assms(2)] skel_up [OF assms(2)] unfolding complete_def by (metis fun_upd_other)
next
  assume c: "complete h p"
  have not_q: "up h n p \<noteq> Some q" for n
    using complete_up [OF c, of n q] assms(1,3) by auto
  have "p \<noteq> q"
    using not_q [of 0] by auto
  then show "complete (h(q \<mapsto> bi')) p"
    using c not_q skel_received [OF assms(2) [symmetric]] skel_up [OF assms(2)] unfolding complete_def
    by (metis fun_upd_other)
qed

section \<open>The invariant\<close>

definition chain_inv :: "'v chainstate \<Rightarrow> bool" where
  "chain_inv s \<longleftrightarrow> tree_inv (cs_index s) \<and>
     (\<exists>t. complete (cs_index s) t \<and> cs_active s = chain_of (cs_index s) t) \<and>
     sorted_wrt (work_less (cs_index s)) (cs_candidates s) \<and>
     (\<forall>c \<in> set (cs_candidates s). c \<in> dom (cs_index s) \<and> received (cs_index s) c) \<and>
     (\<forall>b. cs_best_invalid s = Some b \<longrightarrow> b \<in> dom (cs_index s))"

text \<open>Every complete block that is not below \<open>t\<close> is a candidate.\<close>

definition threshold :: "'v chainstate \<Rightarrow> ptr \<Rightarrow> bool" where
  "threshold s t \<longleftrightarrow> complete (cs_index s) t \<and>
     (\<forall>p. complete (cs_index s) p \<longrightarrow> \<not> work_less (cs_index s) p t \<longrightarrow> p \<in> set (cs_candidates s))"

lemma chain_inv_tip:
  assumes "chain_inv s"
  obtains t where "cs_Tip s = Some t" "complete (cs_index s) t" "cs_active s = chain_of (cs_index s) t"
proof -
  obtain t where t: "complete (cs_index s) t" "cs_active s = chain_of (cs_index s) t"
    using assms unfolding chain_inv_def by blast
  then have "cs_Tip s = Some t"
    by (simp add: cs_Tip_def)
  then show ?thesis
    using that t by blast
qed

lemma chain_inv_tree:
  assumes "chain_inv s"
  shows "block_tree (cs_index s)" "skip_ok (cs_index s) p" "finite (dom (cs_index s))" "sized (cs_index s) = dom (cs_index s)"
    "chain_ok (cs_index s) (cs_active s)"
  using assms unfolding chain_inv_def tree_inv_def chain_ok_def complete_def by auto

lemma chain_inv_candidates:
  assumes "chain_inv s"
  shows "set (cs_candidates s) \<subseteq> sized (cs_index s)" "sorted_wrt (work_less (cs_index s)) (cs_candidates s)"
    "c \<in> set (cs_candidates s) \<Longrightarrow> received (cs_index s) c"
  using assms chain_inv_tree(4) [OF assms] unfolding chain_inv_def by auto

lemma complete_dom: "complete h p \<Longrightarrow> p \<in> dom h"
  by (auto simp: complete_def)

text \<open>A block of the active chain is complete.\<close>

lemma active_complete:
  assumes "chain_inv s" and "Some p \<in> set (cs_active s)"
  shows "complete (cs_index s) p"
proof -
  obtain t where t: "complete (cs_index s) t" "cs_active s = chain_of (cs_index s) t"
    using assms(1) by (rule chain_inv_tip)
  obtain n where n: "n \<le> height_of (cs_index s) t" "up (cs_index s) n t = Some p"
    using assms(2) unfolding t(2) chain_of_member by blast
  have "cs_index s p \<noteq> None"
    using up_Some [OF chain_inv_tree(1) [OF assms(1)] _ n(1)] n(2) t(1) by (auto simp: complete_def)
  then show ?thesis
    using complete_up [OF t(1) n(2)] by simp
qed

section \<open>Steps that remove incomplete candidates\<close>

text \<open>The frame of the steps that reject a candidate: blocks that are not complete are flagged and leave the set.\<close>

definition good :: "index_heap \<Rightarrow> ptr set" where
  "good h = {p. \<exists>bi. h p = Some bi \<and> \<not> is_failed bi}"

definition rejects :: "'v chainstate \<Rightarrow> 'v chainstate \<Rightarrow> bool" where
  "rejects s s' \<longleftrightarrow> skel (cs_index s') = skel (cs_index s) \<and>
     (\<forall>p. complete (cs_index s') p = complete (cs_index s) p) \<and> good (cs_index s') \<subseteq> good (cs_index s) \<and>
     cs_active s' = cs_active s \<and> cs_view s' = cs_view s \<and>
     set (cs_candidates s') \<subseteq> set (cs_candidates s) \<and>
     (\<forall>p \<in> set (cs_candidates s) - set (cs_candidates s'). \<not> complete (cs_index s) p) \<and>
     sorted_wrt (work_less (cs_index s')) (cs_candidates s') \<and>
     (\<forall>b. cs_best_invalid s' = Some b \<longrightarrow> b \<in> dom (cs_index s'))"

lemma rejects_refl: "chain_inv s \<Longrightarrow> rejects s s"
  by (simp add: rejects_def chain_inv_def)

lemma rejects_trans: "rejects s1 s2 \<Longrightarrow> rejects s2 s3 \<Longrightarrow> rejects s1 s3"
  unfolding rejects_def by auto

lemma rejects_inv:
  assumes "rejects s s'" and "chain_inv s"
  shows "chain_inv s'"
proof -
  have skel: "skel (cs_index s') = skel (cs_index s)"
    using assms(1) by (simp add: rejects_def)
  obtain t where t: "complete (cs_index s) t" "cs_active s = chain_of (cs_index s) t"
    using assms(2) by (rule chain_inv_tip)
  then have "complete (cs_index s') t" "cs_active s' = chain_of (cs_index s') t"
    using assms(1) skel_chain_of [OF skel] by (simp_all add: rejects_def)
  moreover have "tree_inv (cs_index s')"
    using assms(2) skel_tree_inv [OF skel] by (simp add: chain_inv_def)
  moreover have "received (cs_index s') c" if "received (cs_index s) c" for c
    by (rule skel_received [OF skel [symmetric] that])
  ultimately show ?thesis
    using assms skel_dom [OF skel] unfolding rejects_def chain_inv_def by blast
qed

lemma rejects_threshold:
  assumes "rejects s s'" and "threshold s t"
  shows "threshold s' t"
proof -
  have order: "work_less (cs_index s') = work_less (cs_index s)"
    using assms(1) skel_work_less [of "cs_index s'" "cs_index s"] by (simp add: rejects_def)
  have complete: "complete (cs_index s') p = complete (cs_index s) p" for p
    using assms(1) by (simp add: rejects_def)
  have "p \<in> set (cs_candidates s')" if "complete (cs_index s) p" "p \<in> set (cs_candidates s)" for p
    using assms(1) that unfolding rejects_def by blast
  then show ?thesis
    using assms(2) unfolding threshold_def order complete by blast
qed

lemma rejects_note:
  assumes "chain_inv s" and "p \<in> dom (cs_index s)"
  shows "\<exists>s'. note_invalid p s = Some s' \<and> rejects s s' \<and> cs_index s' = cs_index s \<and> cs_candidates s' = cs_candidates s"
proof -
  have "\<exists>better. (case cs_best_invalid s of None \<Rightarrow> Some True | Some b \<Rightarrow> more_work (cs_index s) p b) = Some better"
  proof (cases "cs_best_invalid s")
    case (Some b)
    then have "b \<in> dom (cs_index s)"
      using assms(1) by (simp add: chain_inv_def)
    then show ?thesis
      using assms(2) Some by (auto simp: more_work_def)
  qed auto
  then obtain better where better: "(case cs_best_invalid s of None \<Rightarrow> Some True | Some b \<Rightarrow> more_work (cs_index s) p b) = Some better"
    by blast
  show ?thesis
    using assms(2) rejects_refl [OF assms(1)]
    by (intro exI [of _ "if better then s\<lparr>cs_best_invalid := Some p\<rparr> else s"]) (auto simp: note_invalid_def better rejects_def)
qed

text \<open>Erasing a candidate that is not complete, and flagging a block that is not complete.\<close>

lemma rejects_erase:
  assumes "chain_inv s" and "p \<in> dom (cs_index s)" and "\<not> complete (cs_index s) p"
  shows "rejects s (erase_candidate p s)" and "set (cs_candidates (erase_candidate p s)) = set (cs_candidates s) - {p}"
proof -
  have p: "p \<in> sized (cs_index s)"
    using assms(2) chain_inv_tree(4) [OF assms(1)] by simp
  show set: "set (cs_candidates (erase_candidate p s)) = set (cs_candidates s) - {p}"
    using cand.set_erase [OF chain_inv_candidates(1) [OF assms(1)] p chain_inv_candidates(2) [OF assms(1)]]
    by (simp add: erase_candidate_def)
  have "sorted_wrt (work_less (cs_index s)) (cs_candidates (erase_candidate p s))"
    using cand.sorted_erase [OF chain_inv_candidates(1) [OF assms(1)] p chain_inv_candidates(2) [OF assms(1)]]
    by (simp add: erase_candidate_def)
  then show "rejects s (erase_candidate p s)"
    using set assms(3) rejects_refl [OF assms(1)] by (auto simp: rejects_def erase_candidate_def)
qed

lemma status_bit: "bit (x AND y) n \<Longrightarrow> x AND y \<noteq> (0 :: 32 word)"
  by auto

lemma is_failed_or_child: "is_failed (bi\<lparr>bi_nStatus := x OR BLOCK_FAILED_CHILD\<rparr>)"
proof -
  have "bit ((x OR push_bit 6 1) AND (push_bit 5 1 OR push_bit 6 1)) (6 :: nat)" for x :: "32 word"
    by (simp add: bit_simps del: push_bit_of_1)
  then show ?thesis
    unfolding is_failed_def BLOCK_FAILED_MASK_def using status_bit [of "x OR BLOCK_FAILED_CHILD" _ 6] by simp
qed

lemma is_failed_or_valid: "is_failed (bi\<lparr>bi_nStatus := x OR BLOCK_FAILED_VALID\<rparr>)"
proof -
  have "bit ((x OR push_bit 5 1) AND (push_bit 5 1 OR push_bit 6 1)) (5 :: nat)" for x :: "32 word"
    by (simp add: bit_simps del: push_bit_of_1)
  then show ?thesis
    unfolding is_failed_def BLOCK_FAILED_MASK_def using status_bit [of "x OR BLOCK_FAILED_VALID" _ 5] by simp
qed

lemma rejects_mark:
  assumes "chain_inv s" and "p \<in> dom (cs_index s)" and "\<not> complete (cs_index s) p"
  shows "\<exists>s'. add_status p BLOCK_FAILED_CHILD s = Some s' \<and> rejects s s' \<and> cs_candidates s' = cs_candidates s"
proof -
  obtain bi where bi: "cs_index s p = Some bi"
    using assms(2) by blast
  let ?bi = "bi\<lparr>bi_nStatus := bi_nStatus bi OR BLOCK_FAILED_CHILD\<rparr>"
  have skel: "skel ((cs_index s)(p \<mapsto> ?bi)) = skel (cs_index s)"
    by (rule skel_update) (simp_all add: bi)
  have "complete ((cs_index s)(p \<mapsto> ?bi)) q = complete (cs_index s) q" for q
    by (rule complete_mark_failed [OF bi skel assms(3) is_failed_or_child])
  moreover have "good ((cs_index s)(p \<mapsto> ?bi)) \<subseteq> good (cs_index s)"
    using is_failed_or_child by (auto simp: good_def split: if_splits)
  ultimately have "rejects s (set_entry p ?bi s)"
    using rejects_refl [OF assms(1)] skel skel_work_less [OF skel] skel_dom [OF skel] by (simp add: rejects_def set_entry_def)
  then show ?thesis
    by (simp add: add_status_def bi set_entry_def)
qed

lemma rejects_unlinked: "rejects s s' \<Longrightarrow> rejects s (s'\<lparr>cs_unlinked := u\<rparr>)"
  by (simp add: rejects_def)

end
