(* ===== verification/ChainSelect.thy ===== *)
theory ChainSelect
  imports ChainStateInv
begin

unbundle bit_operations_syntax

text \<open>
  Finding the chain with most work: the search ends, it only drops candidates that cannot become
  active, and what it returns is complete and not below any complete block.
\<close>

section \<open>Rejecting a candidate\<close>

lemma not_complete_below:
  assumes "up h k f = Some t" and "h t \<noteq> None" and "\<not> complete h t"
  shows "\<not> complete h f"
  using complete_up [OF _ assms(1,2)] assms(3) by blast

lemma up_dom: "block_tree h \<Longrightarrow> f \<in> dom h \<Longrightarrow> up h k f = Some t \<Longrightarrow> t \<in> dom h"
proof (induction k arbitrary: f)
  case (Suc k)
  then obtain bi where bi: "h f = Some bi"
    by blast
  from Suc.prems(1) bi show ?case
  proof (cases rule: block_tree_cases)
    case root
    then show ?thesis
      using Suc.prems(3) bi by simp
  next
    case (child q b)
    then show ?thesis
      using Suc.IH [of q] Suc.prems bi by auto
  qed
qed simp

lemma remove_failed_loop_rejects:
  assumes "chain_inv s" and "f \<in> dom (cs_index s)" and "up (cs_index s) k f = Some t" and "\<not> complete (cs_index s) t"
  shows "\<exists>s'. remove_failed_loop flag t f s = Some s' \<and> rejects s s' \<and> (f \<noteq> t \<longrightarrow> f \<notin> set (cs_candidates s'))"
  using assms
proof (induction k arbitrary: f s)
  case 0
  then show ?case
    using rejects_refl by (auto simp: remove_failed_loop.simps)
next
  case (Suc k)
  show ?case
  proof (cases "t = f")
    case True
    then show ?thesis
      using Suc.prems rejects_refl by (auto simp: remove_failed_loop.simps)
  next
    case False
    obtain bi where bi: "cs_index s f = Some bi"
      using Suc.prems(2) by blast
    then obtain prev where prev: "bi_pprev bi = Some prev" "up (cs_index s) k prev = Some t"
      using Suc.prems(3) by (auto split: option.splits)
    have t: "t \<in> dom (cs_index s)"
      by (rule up_dom [OF chain_inv_tree(1) [OF Suc.prems(1)] Suc.prems(2,3)])
    have f: "\<not> complete (cs_index s) f"
      using not_complete_below [OF Suc.prems(3)] t Suc.prems(4) by blast
    have prev_dom: "prev \<in> dom (cs_index s)"
      using block_tree_cases [OF chain_inv_tree(1) [OF Suc.prems(1)] bi] prev(1) by (metis domIff option.distinct(1) option.inject)
    obtain s1 where s1: "(if flag then add_status f BLOCK_FAILED_CHILD s
        else Some (s\<lparr>cs_unlinked := cs_unlinked s @ [(prev, f)]\<rparr>)) = Some s1" "rejects s s1"
    proof (cases flag)
      case True
      then show ?thesis
        using that rejects_mark [OF Suc.prems(1,2) f] by auto
    next
      case False
      then show ?thesis
        using that rejects_unlinked [OF rejects_refl [OF Suc.prems(1)]] by auto
    qed
    have inv1: "chain_inv s1"
      by (rule rejects_inv [OF s1(2) Suc.prems(1)])
    have skel1: "skel (cs_index s1) = skel (cs_index s)" and comp1: "\<And>p. complete (cs_index s1) p = complete (cs_index s) p"
      using s1(2) by (simp_all add: rejects_def)
    let ?s2 = "erase_candidate f s1"
    have f1: "f \<in> dom (cs_index s1)" "\<not> complete (cs_index s1) f"
      using Suc.prems(2) f comp1 skel_dom [OF skel1] by simp_all
    have s2: "rejects s1 ?s2" "f \<notin> set (cs_candidates ?s2)" "cs_index ?s2 = cs_index s1"
      using rejects_erase [OF inv1 f1] by (simp_all add: erase_candidate_def)
    have inv2: "chain_inv ?s2"
      by (rule rejects_inv [OF s2(1) inv1])
    obtain s' where s': "remove_failed_loop flag t prev ?s2 = Some s'" "rejects ?s2 s'"
      using Suc.IH [OF inv2, of prev] prev_dom prev(2) Suc.prems(4) comp1 skel_dom [OF skel1] skel_up [OF skel1] s2(3) by auto
    have "remove_failed_loop flag t f s = Some s'"
      using False bi prev s1(1) s'(1) by (subst remove_failed_loop.simps) simp
    moreover have "rejects s s'"
      using rejects_trans [OF s1(2) rejects_trans [OF s2(1) s'(2)]] .
    moreover have "f \<notin> set (cs_candidates s')"
      using s2(2) s'(2) by (auto simp: rejects_def)
    ultimately show ?thesis
      by blast
  qed
qed

lemma reject_candidate_rejects:
  assumes "chain_inv s" and "f \<in> dom (cs_index s)" and "up (cs_index s) k f = Some t" and "\<not> complete (cs_index s) t"
  shows "\<exists>s'. reject_candidate f t flag s = Some s' \<and> rejects s s' \<and> f \<notin> set (cs_candidates s')"
proof -
  obtain s1 where s1: "(if flag then note_invalid f s else Some s) = Some s1" "rejects s s1" "cs_index s1 = cs_index s"
  proof (cases flag)
    case True
    then show ?thesis
      using that rejects_note [OF assms(1,2)] by auto
  next
    case False
    then show ?thesis
      using that rejects_refl [OF assms(1)] by auto
  qed
  have inv1: "chain_inv s1"
    by (rule rejects_inv [OF s1(2) assms(1)])
  obtain s2 where s2: "remove_failed_loop flag t f s1 = Some s2" "rejects s1 s2" "f \<noteq> t \<longrightarrow> f \<notin> set (cs_candidates s2)"
    using remove_failed_loop_rejects [OF inv1, of f k t flag] assms s1(3) by auto
  have inv2: "chain_inv s2"
    by (rule rejects_inv [OF s2(2) inv1])
  have skel2: "skel (cs_index s2) = skel (cs_index s)" and comp2: "complete (cs_index s2) t = complete (cs_index s) t"
    using s1(2) s2(2) by (simp_all add: rejects_def)
  have t: "t \<in> dom (cs_index s2)" "\<not> complete (cs_index s2) t"
    using up_dom [OF chain_inv_tree(1) [OF assms(1)] assms(2,3)] assms(4) skel_dom [OF skel2] comp2 by simp_all
  have s3: "rejects s2 (erase_candidate t s2)" "set (cs_candidates (erase_candidate t s2)) = set (cs_candidates s2) - {t}"
    using rejects_erase [OF inv2 t] .
  have "rejects s (erase_candidate t s2)"
    using rejects_trans [OF s1(2) rejects_trans [OF s2(2) s3(1)]] .
  then show ?thesis
    using s1(1) s2 s3(2) by (auto simp: reject_candidate_def)
qed

section \<open>Walking down from a candidate\<close>

definition clean :: "index_heap \<Rightarrow> nat \<Rightarrow> ptr \<Rightarrow> bool" where
  "clean h n c \<longleftrightarrow> (\<forall>m<n. \<forall>q b. up h m c = Some q \<longrightarrow> h q = Some b \<longrightarrow> \<not> is_failed b \<and> has_data b)"

lemma clean_Suc:
  "clean h n c \<Longrightarrow> up h n c = Some q \<Longrightarrow> h q = Some b \<Longrightarrow> \<not> is_failed b \<Longrightarrow> has_data b \<Longrightarrow> clean h (Suc n) c"
  by (auto simp: clean_def less_Suc_eq)

lemma complete_from_clean:
  assumes "c \<in> dom h" and "received h c" and "clean h n c" and "up h n c = Some q" and "complete h q"
  shows "complete h c"
  unfolding complete_def
proof (intro conjI allI impI)
  fix m r b
  assume r: "up h m c = Some r" "h r = Some b"
  have "\<not> is_failed b \<and> has_data b"
  proof (cases "m < n")
    case True
    then show ?thesis
      using assms(3) r unfolding clean_def by blast
  next
    case False
    then have "up h (m - n) q = Some r"
      using up_up [OF assms(4), of "m - n"] r(1) by simp
    then show ?thesis
      using assms(5) r(2) unfolding complete_def by blast
  qed
  then show "\<not> is_failed b" "has_data b"
    by simp_all
qed (use assms in auto)

lemma test_path_loop_result:
  assumes "chain_inv s" and "c \<in> set (cs_candidates s)" and "up (cs_index s) n c = Some q" and "clean (cs_index s) n c"
  shows "\<exists>bad s'. test_path_loop c (Some q) s = Some (bad, s') \<and>
    (if bad then rejects s s' \<and> c \<notin> set (cs_candidates s') else s' = s \<and> complete (cs_index s) c)"
  using assms(3,4)
proof (induction "height_of (cs_index s) q" arbitrary: n q rule: less_induct)
  case less
  let ?h = "cs_index s"
  have tree: "block_tree ?h"
    by (rule chain_inv_tree(1) [OF assms(1)])
  have c: "c \<in> dom ?h" "received ?h c"
    using assms(1,2) chain_inv_candidates [OF assms(1)] chain_inv_tree(4) [OF assms(1)] by auto
  obtain bi where bi: "?h q = Some bi"
    using up_dom [OF tree c(1) less.prems(1)] by blast
  have contains: "chain_Contains ?h (cs_active s) q = Some (Some q \<in> set (cs_active s))"
    by (rule chain_Contains_member [OF tree chain_inv_tree(5) [OF assms(1)] bi])
  have tx: "bi_nChainTx bi \<noteq> 0 \<or> bi_nHeight bi = 0"
    using c(2) less.prems(1) bi unfolding received_def by blast
  consider (active) "Some q \<in> set (cs_active s)" | (bad) "Some q \<notin> set (cs_active s)" "is_failed bi \<or> \<not> has_data bi"
    | (good) "Some q \<notin> set (cs_active s)" "\<not> is_failed bi" "has_data bi"
    by blast
  then show ?case
  proof cases
    case active
    have "complete ?h c"
      by (rule complete_from_clean [OF c less.prems(2,1) active_complete [OF assms(1) active]])
    then show ?thesis
      using active contains bi by (subst test_path_loop.simps) auto
  next
    case bad
    have "\<not> complete ?h q"
      using complete_self [of ?h q bi] bi bad(2) by blast
    then obtain s' where "reject_candidate c q (is_failed bi) s = Some s'" "rejects s s'" "c \<notin> set (cs_candidates s')"
      using reject_candidate_rejects [OF assms(1) c(1) less.prems(1)] by blast
    then show ?thesis
      using bad contains bi tx by (subst test_path_loop.simps) auto
  next
    case good
    have clean: "clean ?h (Suc n) c"
      by (rule clean_Suc [OF less.prems(2,1) bi good(2,3)])
    have step: "test_path_loop c (Some q) s = test_path_loop c (bi_pprev bi) s"
      using good contains bi tx by (subst test_path_loop.simps) auto
    from tree bi show ?thesis
    proof (cases rule: block_tree_cases)
      case root
      have "up ?h m c = None" if "n < m" for m
        using up_None [OF tree bi, of "m - n"] up_up [OF less.prems(1), of "m - n"] root(3) that by simp
      then have "clean ?h m c" for m
        using clean unfolding clean_def by (metis less_Suc_eq_le not_le option.distinct(1))
      then have "complete ?h c"
        unfolding complete_def clean_def using c by (metis domIff lessI)
      then show ?thesis
        unfolding step using root by (auto simp: test_path_loop.simps)
    next
      case (child p b)
      have "up ?h (Suc n) c = Some p"
        using up_up [OF less.prems(1), of 1] bi child(1) by simp
      then show ?thesis
        unfolding step child(1) using less.hyps [of p "Suc n"] clean child(5) by simp
    qed
  qed
qed

section \<open>The search\<close>

lemma FindMostWorkChain_result:
  assumes "chain_inv s"
  shows "\<exists>m s'. FindMostWorkChain s = Some (m, s') \<and> rejects s s' \<and>
    (case m of None \<Rightarrow> cs_candidates s' = []
     | Some c \<Rightarrow> cs_candidates s' \<noteq> [] \<and> c = last (cs_candidates s') \<and> complete (cs_index s') c)"
  using assms
proof (induction "card (set (cs_candidates s))" arbitrary: s rule: less_induct)
  case less
  show ?case
  proof (cases "cs_candidates s = []")
    case True
    then show ?thesis
      using rejects_refl [OF less.prems] by (subst FindMostWorkChain.simps) auto
  next
    case False
    let ?c = "last (cs_candidates s)"
    have c: "?c \<in> set (cs_candidates s)"
      using False by simp
    obtain bad s1 where r: "test_path_loop ?c (Some ?c) s = Some (bad, s1)"
      "if bad then rejects s s1 \<and> ?c \<notin> set (cs_candidates s1) else s1 = s \<and> complete (cs_index s) ?c"
      using test_path_loop_result [OF less.prems c, of 0 ?c] by (auto simp: clean_def)
    show ?thesis
    proof (cases bad)
      case True
      then have s1: "rejects s s1" "?c \<notin> set (cs_candidates s1)"
        using r(2) by simp_all
      have "set (cs_candidates s1) \<subset> set (cs_candidates s)"
        using s1 c unfolding rejects_def by blast
      then have "card (set (cs_candidates s1)) < card (set (cs_candidates s))"
        by (simp add: psubset_card_mono)
      then obtain m s' where s': "FindMostWorkChain s1 = Some (m, s')" "rejects s1 s'"
        "case m of None \<Rightarrow> cs_candidates s' = []
         | Some c \<Rightarrow> cs_candidates s' \<noteq> [] \<and> c = last (cs_candidates s') \<and> complete (cs_index s') c"
        using less.hyps [of s1] rejects_inv [OF s1(1) less.prems] by blast
      have "FindMostWorkChain s = Some (m, s')"
        using False r(1) True s'(1) by (subst FindMostWorkChain.simps) simp
      then show ?thesis
        using rejects_trans [OF s1(1) s'(2)] s'(3) by blast
    next
      case False
      then have "FindMostWorkChain s = Some (Some ?c, s)"
        using \<open>cs_candidates s \<noteq> []\<close> r by (subst FindMostWorkChain.simps) simp
      then show ?thesis
        using False r(2) rejects_refl [OF less.prems] \<open>cs_candidates s \<noteq> []\<close> by auto
    qed
  qed
qed

text \<open>With a threshold, what is found is at least as good as every complete block.\<close>

lemma FindMostWorkChain_best:
  assumes "chain_inv s" and "threshold s t"
  shows "\<exists>c s'. FindMostWorkChain s = Some (Some c, s') \<and> rejects s s' \<and> c \<in> set (cs_candidates s') \<and>
    complete (cs_index s') c \<and> (\<forall>p. complete (cs_index s') p \<longrightarrow> \<not> work_less (cs_index s') c p)"
proof -
  obtain m s' where r: "FindMostWorkChain s = Some (m, s')" "rejects s s'"
    "case m of None \<Rightarrow> cs_candidates s' = []
     | Some c \<Rightarrow> cs_candidates s' \<noteq> [] \<and> c = last (cs_candidates s') \<and> complete (cs_index s') c"
    using FindMostWorkChain_result [OF assms(1)] by blast
  have inv: "chain_inv s'"
    by (rule rejects_inv [OF r(2) assms(1)])
  have thr: "threshold s' t"
    by (rule rejects_threshold [OF r(2) assms(2)])
  let ?h = "cs_index s'"
  have dom: "\<And>p. complete ?h p \<Longrightarrow> p \<in> sized ?h"
    using complete_dom chain_inv_tree(4) [OF inv] by blast
  have t: "complete ?h t" "t \<in> set (cs_candidates s')"
    using thr cand.irrefl [of t ?h] dom unfolding threshold_def by blast+
  then obtain c where m: "m = Some c" "c = last (cs_candidates s')" "complete ?h c" "cs_candidates s' \<noteq> []"
    using r(3) by (cases m) auto
  have last: "\<not> work_less ?h c x" if "x \<in> set (cs_candidates s')" for x
    unfolding m(2) by (rule cand.last_greatest [OF chain_inv_candidates(1,2) [OF inv] that])
  have "\<not> work_less ?h c p" if "complete ?h p" for p
  proof (cases "work_less ?h p t")
    case True
    show ?thesis
    proof
      assume "work_less ?h c p"
      then have "work_less ?h c t"
        using cand.trans [of c ?h p t] True dom m(3) that t(1) by blast
      then show False
        using last t(2) by blast
    qed
  next
    case False
    then show ?thesis
      using last thr that unfolding threshold_def by blast
  qed
  then show ?thesis
    using r(1,2) m by auto
qed

end
