(* ===== verification/ChainActivate.thy ===== *)
theory ChainActivate
  imports ChainSelect
begin

unbundle bit_operations_syntax

text \<open>
  Activating the best chain: every step keeps the invariant and either ends in a better position or
  flags a block, so the loop ends, and it ends at a tip that no complete block is above.

  What is assumed of connecting and disconnecting a block. \<open>R p v\<close> says that \<open>v\<close> are the coins a chain
  that ends in \<open>p\<close> leaves behind, \<open>k\<close> is the shape of the block tree. Connecting writes only the fields
  of the entry it owns; on the coins of its parent a block of this tree is either always accepted or
  always invalid (\<open>V\<close> is the set of those that satisfy the rules); connecting and disconnecting lead
  from coins of the one block to coins of the other. Nothing is assumed for other coins, and nothing
  about a report that the data may be corrupt: whether one can happen is \<open>reports_corruption\<close>.
\<close>

definition connect_frame :: "'v node_env \<Rightarrow> bool" where
  "connect_frame env \<longleftrightarrow>
     (\<forall>h p v bi bi' r. h p = Some bi \<longrightarrow> ne_connect env h p v = (bi', r) \<longrightarrow>
        bi_pprev bi' = bi_pprev bi \<and> bi_pskip bi' = bi_pskip bi \<and> bi_nHeight bi' = bi_nHeight bi \<and>
        bi_nChainWork bi' = bi_nChainWork bi \<and> bi_nSequenceId bi' = bi_nSequenceId bi \<and>
        bi_nChainTx bi' = bi_nChainTx bi \<and> is_failed bi' = is_failed bi \<and> has_data bi' = has_data bi)"

type_synonym tree_shape = "ptr \<Rightarrow> (ptr option \<times> ptr option \<times> int \<times> limbs) option"

definition connect_verdict :: "'v node_env \<Rightarrow> (ptr \<Rightarrow> 'v \<Rightarrow> bool) \<Rightarrow> ptr set \<Rightarrow> tree_shape \<Rightarrow> bool" where
  "connect_verdict env R V k \<longleftrightarrow>
     (\<forall>h p v bi q. shape h = k \<longrightarrow> h p = Some bi \<longrightarrow> bi_pprev bi = Some q \<longrightarrow> R q v \<longrightarrow>
        (case snd (ne_connect env h p v) of
           ConnectOk v' \<Rightarrow> p \<in> V \<and> R p v'
         | ConnectFail (VInvalid corruption) \<Rightarrow> corruption \<or> p \<notin> V
         | ConnectFail _ \<Rightarrow> True))"

definition disconnect_coins :: "'v node_env \<Rightarrow> (ptr \<Rightarrow> 'v \<Rightarrow> bool) \<Rightarrow> tree_shape \<Rightarrow> bool" where
  "disconnect_coins env R k \<longleftrightarrow>
     (\<forall>h p v bi q v'. shape h = k \<longrightarrow> h p = Some bi \<longrightarrow> bi_pprev bi = Some q \<longrightarrow> R p v \<longrightarrow>
        ne_disconnect env h p v = Some v' \<longrightarrow> R q v')"

definition node_contract :: "'v node_env \<Rightarrow> (ptr \<Rightarrow> 'v \<Rightarrow> bool) \<Rightarrow> ptr set \<Rightarrow> tree_shape \<Rightarrow> bool" where
  "node_contract env R V k \<longleftrightarrow> connect_frame env \<and> connect_verdict env R V k \<and> disconnect_coins env R k"

text \<open>A complete block on the coins of its parent for which \<open>ConnectBlock\<close> says that the data may be corrupt.\<close>

definition reports_corruption :: "'v node_env \<Rightarrow> (ptr \<Rightarrow> 'v \<Rightarrow> bool) \<Rightarrow> tree_shape \<Rightarrow> bool" where
  "reports_corruption env R k \<longleftrightarrow>
     (\<exists>h p v bi q. shape h = k \<and> complete h p \<and> h p = Some bi \<and> bi_pprev bi = Some q \<and> R q v \<and>
        snd (ne_connect env h p v) = ConnectFail (VInvalid True))"

text \<open>No block fails to be read or written: the only failures are those of the rules.\<close>

definition storage_ok :: "'v node_env \<Rightarrow> (ptr \<Rightarrow> 'v \<Rightarrow> bool) \<Rightarrow> tree_shape \<Rightarrow> bool" where
  "storage_ok env R k \<longleftrightarrow> (\<forall>v. ne_flush env v) \<and>
     (\<forall>h p v bi q. shape h = k \<longrightarrow> h p = Some bi \<longrightarrow> bi_pprev bi = Some q \<longrightarrow>
        (R p v \<longrightarrow> ne_disconnect env h p v \<noteq> None) \<and>
        (R q v \<longrightarrow> (case snd (ne_connect env h p v) of
           ConnectOk _ \<Rightarrow> True
         | ConnectFail (VInvalid corruption) \<Rightarrow> True
         | ConnectFail _ \<Rightarrow> False)))"

definition verified :: "ptr set \<Rightarrow> index_heap \<Rightarrow> ptr \<Rightarrow> bool" where
  "verified V h p \<longleftrightarrow> (\<forall>n q. up h n p = Some q \<longrightarrow> q \<in> V)"

text \<open>The state of the node between operations: no complete block above the tip is missing from the candidates.\<close>

definition position :: "ptr set \<Rightarrow> 'v chainstate \<Rightarrow> ptr \<Rightarrow> ptr \<Rightarrow> bool" where
  "position V s t \<theta> \<longleftrightarrow> chain_inv s \<and> cs_Tip s = Some t \<and> verified V (cs_index s) t \<and>
     threshold s \<theta> \<and> verified V (cs_index s) \<theta>"

definition node_inv :: "(ptr \<Rightarrow> 'v \<Rightarrow> bool) \<Rightarrow> ptr set \<Rightarrow> 'v chainstate \<Rightarrow> bool" where
  "node_inv R V s \<longleftrightarrow> (\<exists>t \<theta>. position V s t \<theta> \<and> R t (cs_view s))"

definition tip_is_best :: "'v chainstate \<Rightarrow> bool" where
  "tip_is_best s \<longleftrightarrow>
     (\<exists>t. cs_Tip s = Some t \<and> t \<in> set (cs_candidates s) \<and>
        (\<forall>p. complete (cs_index s) p \<longrightarrow> \<not> work_less (cs_index s) t p))"

lemma skel_verified: "skel h' = skel h \<Longrightarrow> verified V h' p = verified V h p"
  using skel_up [of h' h] by (simp add: verified_def)

lemma verified_up: "verified V h p \<Longrightarrow> up h n p = Some q \<Longrightarrow> verified V h q"
  unfolding verified_def using up_up by metis

text \<open>What every step keeps: the shape of the tree; no block becomes complete or is forgiven a failure, and
  no block stops being complete while it and its ancestors satisfy the rules.\<close>

definition shrinks :: "ptr set \<Rightarrow> 'v chainstate \<Rightarrow> 'v chainstate \<Rightarrow> bool" where
  "shrinks V s s' \<longleftrightarrow> skel (cs_index s') = skel (cs_index s) \<and>
     (\<forall>p. complete (cs_index s') p \<longrightarrow> complete (cs_index s) p) \<and> good (cs_index s') \<subseteq> good (cs_index s) \<and>
     (\<forall>p. complete (cs_index s) p \<and> verified V (cs_index s) p \<longrightarrow> complete (cs_index s') p)"

lemma shrinks_refl: "shrinks V s s"
  by (simp add: shrinks_def)

lemma shrinks_trans: "shrinks V s1 s2 \<Longrightarrow> shrinks V s2 s3 \<Longrightarrow> shrinks V s1 s3"
  unfolding shrinks_def by (metis order_trans skel_verified)

lemma rejects_shrinks: "rejects s s' \<Longrightarrow> shrinks V s s'"
  by (simp add: rejects_def shrinks_def)

lemma position_rejects:
  assumes "position V s t \<theta>" and "rejects s s'"
  shows "position V s' t \<theta>"
proof -
  have "skel (cs_index s') = skel (cs_index s)" "cs_Tip s' = cs_Tip s"
    using assms(2) by (simp_all add: rejects_def cs_Tip_def)
  then show ?thesis
    using assms rejects_inv [OF assms(2)] rejects_threshold [OF assms(2)] skel_verified [of "cs_index s'" "cs_index s"]
    by (simp add: position_def)
qed

section \<open>Moving the tip\<close>

text \<open>States that differ in the active chain, the view and fields of the entries that nothing here depends on.\<close>

definition moves :: "'v chainstate \<Rightarrow> 'v chainstate \<Rightarrow> ptr \<Rightarrow> bool" where
  "moves s s' t \<longleftrightarrow> skel (cs_index s') = skel (cs_index s) \<and>
     (\<forall>p. complete (cs_index s') p = complete (cs_index s) p) \<and> good (cs_index s') = good (cs_index s) \<and>
     cs_candidates s' = cs_candidates s \<and> cs_best_invalid s' = cs_best_invalid s \<and>
     cs_active s' = chain_of (cs_index s') t \<and> complete (cs_index s') t"

lemma moves_inv:
  assumes "moves s s' t" and "chain_inv s"
  shows "chain_inv s'" and "cs_Tip s' = Some t"
proof -
  have skel: "skel (cs_index s') = skel (cs_index s)"
    using assms(1) by (simp add: moves_def)
  have "received (cs_index s') c" if "received (cs_index s) c" for c
    by (rule skel_received [OF skel [symmetric] that])
  then show "chain_inv s'"
    using assms skel_tree_inv [OF skel] skel_work_less [OF skel] skel_dom [OF skel] unfolding moves_def chain_inv_def by auto
  show "cs_Tip s' = Some t"
    using assms(1) by (simp add: moves_def cs_Tip_def)
qed

lemma moves_threshold: "moves s s' t \<Longrightarrow> threshold s \<theta> \<Longrightarrow> threshold s' \<theta>"
  using skel_work_less [of "cs_index s'" "cs_index s"] by (simp add: moves_def threshold_def)

lemma moves_trans: "moves s1 s2 t \<Longrightarrow> moves s2 s3 u \<Longrightarrow> moves s1 s3 u"
  by (auto simp: moves_def)

lemma moves_refl:
  assumes "chain_inv s" and "cs_Tip s = Some t"
  shows "moves s s t"
proof -
  obtain u where "cs_Tip s = Some u" "complete (cs_index s) u" "cs_active s = chain_of (cs_index s) u"
    using assms(1) by (rule chain_inv_tip)
  then show ?thesis
    using assms(2) by (simp add: moves_def)
qed

lemma moves_shrinks: "moves s s' t \<Longrightarrow> shrinks V s s'"
  by (simp add: moves_def shrinks_def)

lemma position_moves:
  assumes "position V s t \<theta>" and "moves s s' t'" and "verified V (cs_index s) t'"
  shows "position V s' t' \<theta>"
proof -
  have "skel (cs_index s') = skel (cs_index s)"
    using assms(2) by (simp add: moves_def)
  note v = skel_verified [OF this]
  have s: "chain_inv s" "threshold s \<theta>" "verified V (cs_index s) \<theta>"
    using assms(1) by (simp_all add: position_def)
  show ?thesis
    unfolding position_def v
    using s(3) assms(3) moves_inv [OF assms(2) s(1)] moves_threshold [OF assms(2) s(2)] by simp
qed

lemma UpdateTip_moves:
  assumes "chain_inv s" and "complete (cs_index s) p"
  shows "\<exists>s'. UpdateTip (Some p) s = Some s' \<and> moves s s' p"
proof -
  obtain bi where bi: "cs_index s p = Some bi"
    using complete_dom [OF assms(2)] by blast
  show ?thesis
    using SetTip_chain_of [OF chain_inv_tree(1,5) [OF assms(1)] bi] assms(2) by (simp add: UpdateTip_def moves_def)
qed

lemma set_view_inv: "chain_inv (s\<lparr>cs_view := v\<rparr>) = chain_inv s" and set_view_tip: "cs_Tip (s\<lparr>cs_view := v\<rparr>) = cs_Tip s"
  and moves_set_view: "moves (s\<lparr>cs_view := v\<rparr>) s' t = moves s s' t"
  by (simp_all add: chain_inv_def cs_Tip_def moves_def)

lemma DisconnectTip_moves:
  assumes "chain_inv s" and "cs_Tip s = Some t" and "cs_index s t = Some bi" and "bi_pprev bi = Some q"
  shows "\<exists>ok s'. DisconnectTip env s = Some (ok, s') \<and> moves s s' (if ok then q else t)"
proof (cases "ne_disconnect env (cs_index s) t (cs_view s)")
  case None
  then show ?thesis
    using assms moves_refl [OF assms(1,2)] by (intro exI [of _ False]) (simp add: DisconnectTip_def)
next
  case (Some v)
  have "complete (cs_index s) t"
    using assms(1,2) by (metis chain_inv_tip option.inject)
  moreover have "up (cs_index s) 1 t = Some q"
    using assms(3,4) by simp
  moreover have "cs_index s q \<noteq> None"
    using up_dom [OF chain_inv_tree(1) [OF assms(1)] _ \<open>up (cs_index s) 1 t = Some q\<close>] assms(3) by blast
  ultimately have "complete (cs_index (s\<lparr>cs_view := v\<rparr>)) q"
    using complete_up [of "cs_index s" t 1 q] by simp
  then obtain s' where s': "UpdateTip (Some q) (s\<lparr>cs_view := v\<rparr>) = Some s'" "moves s s' q"
    using UpdateTip_moves [of "s\<lparr>cs_view := v\<rparr>" q] assms(1) by (auto simp: set_view_inv moves_set_view)
  have "moves s (s\<lparr>cs_view := v\<rparr>) t"
    using moves_refl [OF assms(1,2)] by (simp add: moves_def)
  then show ?thesis
    using Some assms s' by (intro exI [of _ "ne_flush env v"]) (simp add: DisconnectTip_def Let_def)
qed

text \<open>The coins after a disconnected tip, and when it is disconnected.\<close>

lemma UpdateTip_view: "UpdateTip p s = Some s' \<Longrightarrow> cs_view s' = cs_view s"
  by (auto simp: UpdateTip_def split: bind_splits)

lemma DisconnectTip_view:
  assumes "DisconnectTip env s = Some (ok, s')" and "cs_Tip s = Some t" and "cs_index s t = Some bi" and "bi_pprev bi = Some q"
    and "disconnect_coins env R (shape (cs_index s))" and "R t (cs_view s)"
  shows "ok \<Longrightarrow> R q (cs_view s')" and "storage_ok env R (shape (cs_index s)) \<Longrightarrow> ok"
proof -
  show "R q (cs_view s')" if ok
  proof (cases "ne_disconnect env (cs_index s) t (cs_view s)")
    case None
    then show ?thesis
      using that assms(1-3) by (simp add: DisconnectTip_def)
  next
    case (Some v)
    have "R q v"
      using assms(3-6) Some unfolding disconnect_coins_def by blast
    moreover have "cs_view s' = v"
      using that assms(1-4) Some UpdateTip_view by (fastforce simp: DisconnectTip_def Let_def split: if_splits bind_splits)
    ultimately show ?thesis
      by simp
  qed
  show ok if "storage_ok env R (shape (cs_index s))"
  proof -
    have "ne_disconnect env (cs_index s) t (cs_view s) \<noteq> None" "ne_flush env v" for v
      using that assms(3,4,6) unfolding storage_ok_def by blast+
    then show ?thesis
      using assms(1-3) by (auto simp: DisconnectTip_def Let_def split: bind_splits)
  qed
qed

text \<open>Disconnecting down to the fork stops there, or earlier when a block cannot be disconnected.\<close>

lemma disconnect_loop_at: "cs_Tip s = Some f \<Longrightarrow> disconnect_loop env (Some f) s = Some (True, s)"
  by (subst disconnect_loop.simps) simp

lemma disconnect_loop_moves:
  assumes "chain_inv s" and "cs_Tip s = Some t" and "up (cs_index s) n t = Some f"
    and "disconnect_coins env R (shape (cs_index s))" and "R t (cs_view s)"
  shows "\<exists>ok s' m t'. disconnect_loop env (Some f) s = Some (ok, s') \<and> moves s s' t' \<and>
    up (cs_index s) m t = Some t' \<and> (ok \<longrightarrow> t' = f \<and> R f (cs_view s')) \<and> (storage_ok env R (shape (cs_index s)) \<longrightarrow> ok)"
  using assms
proof (induction n arbitrary: s t)
  case 0
  then have "t = f" "up (cs_index s) 0 t = Some f"
    by simp_all
  then show ?case
    using moves_refl [OF 0(1,2)] disconnect_loop_at 0(2,5) by blast
next
  case (Suc n)
  show ?case
  proof (cases "t = f")
    case True
    moreover have "up (cs_index s) 0 t = Some t"
      by simp
    ultimately show ?thesis
      using moves_refl [OF Suc.prems(1,2)] disconnect_loop_at Suc.prems(2,5) by blast
  next
    case False
    obtain bi q where q: "cs_index s t = Some bi" "bi_pprev bi = Some q" "up (cs_index s) n q = Some f"
      using Suc.prems(3) by (auto split: option.splits)
    obtain ok s1 where s1: "DisconnectTip env s = Some (ok, s1)" "moves s s1 (if ok then q else t)"
      using DisconnectTip_moves [OF Suc.prems(1,2) q(1,2)] by blast
    note view = DisconnectTip_view [OF s1(1) Suc.prems(2) q(1,2) Suc.prems(4,5)]
    show ?thesis
    proof (cases ok)
      case True
      then have m: "moves s s1 q"
        using s1(2) by simp
      then have skel: "skel (cs_index s1) = skel (cs_index s)"
        by (simp add: moves_def)
      have "up (cs_index s1) n q = Some f"
        using q(3) by (simp only: skel_up [OF skel])
      then obtain ok' s' k t' where loop: "disconnect_loop env (Some f) s1 = Some (ok', s')" "moves s1 s' t'"
        "up (cs_index s1) k q = Some t'" "ok' \<longrightarrow> t' = f \<and> R f (cs_view s')" "storage_ok env R (shape (cs_index s)) \<longrightarrow> ok'"
        using Suc.IH [OF moves_inv [OF m Suc.prems(1)]] view(1) [OF True] Suc.prems(4) skel_shape [OF skel] by auto
      have "up (cs_index s) (Suc k) t = Some t'"
        using loop(3) q(1,2) skel_up [OF skel] by simp
      moreover have "disconnect_loop env (Some f) s = Some (ok', s')"
        using False Suc.prems(2) s1(1) True loop(1) by (subst disconnect_loop.simps) simp
      ultimately show ?thesis
        using moves_trans [OF m loop(2)] loop(4,5) by blast
    next
      case False
      then have "disconnect_loop env (Some f) s = Some (False, s1)"
        using \<open>t \<noteq> f\<close> Suc.prems(2) s1(1) by (subst disconnect_loop.simps) simp
      moreover have "up (cs_index s) 0 t = Some t"
        by simp
      moreover have "moves s s1 t"
        using s1(2) False by simp
      ultimately show ?thesis
        using view(2) False by blast
    qed
  qed
qed

section \<open>Connecting a block\<close>

lemma complete_same_flags:
  assumes "h p = Some bi" and "skel (h(p \<mapsto> bi')) = skel h" and "is_failed bi' = is_failed bi" and "has_data bi' = has_data bi"
  shows "complete (h(p \<mapsto> bi')) q = complete h q" and "good (h(p \<mapsto> bi')) = good h"
proof -
  let ?h = "h(p \<mapsto> bi')"
  have flags: "(\<forall>b. ?h r = Some b \<longrightarrow> \<not> is_failed b \<and> has_data b) \<longleftrightarrow> (\<forall>b. h r = Some b \<longrightarrow> \<not> is_failed b \<and> has_data b)" for r
    using assms by auto
  have rec: "received ?h q = received h q"
    using skel_received [OF assms(2)] skel_received [OF assms(2) [symmetric]] by blast
  have "(\<forall>n r b. up h n q = Some r \<longrightarrow> ?h r = Some b \<longrightarrow> \<not> is_failed b \<and> has_data b) \<longleftrightarrow>
      (\<forall>n r b. up h n q = Some r \<longrightarrow> h r = Some b \<longrightarrow> \<not> is_failed b \<and> has_data b)"
    using flags by blast
  then show "complete ?h q = complete h q"
    by (simp only: complete_def rec skel_up [OF assms(2)] skel_None [OF assms(2)])
  show "good ?h = good h"
    using assms by (auto simp: good_def)
qed

text \<open>The entry that \<open>ConnectBlock\<close> wrote changes nothing that matters.\<close>

definition same_chain :: "'v chainstate \<Rightarrow> 'v chainstate \<Rightarrow> bool" where
  "same_chain s s' \<longleftrightarrow> skel (cs_index s') = skel (cs_index s) \<and>
     (\<forall>p. complete (cs_index s') p = complete (cs_index s) p) \<and> good (cs_index s') = good (cs_index s) \<and>
     cs_candidates s' = cs_candidates s \<and> cs_best_invalid s' = cs_best_invalid s \<and> cs_active s' = cs_active s"

lemma same_chain_moves:
  assumes "same_chain s s'" and "chain_inv s" and "cs_Tip s = Some t"
  shows "moves s s' t"
proof -
  have skel: "skel (cs_index s') = skel (cs_index s)"
    using assms(1) by (simp add: same_chain_def)
  obtain u where "cs_Tip s = Some u" "complete (cs_index s) u" "cs_active s = chain_of (cs_index s) u"
    using assms(2) by (rule chain_inv_tip)
  then show ?thesis
    using assms(1,3) skel_chain_of [OF skel] by (simp add: same_chain_def moves_def)
qed

lemma connect_same_chain:
  assumes "connect_frame env" and "cs_index s p = Some bi" and "ne_connect env (cs_index s) p v = (bi', r)"
  shows "same_chain s (set_entry p bi' s)"
proof -
  have b: "bi_pprev bi' = bi_pprev bi" "bi_pskip bi' = bi_pskip bi" "bi_nHeight bi' = bi_nHeight bi"
    "bi_nChainWork bi' = bi_nChainWork bi" "bi_nSequenceId bi' = bi_nSequenceId bi"
    "bi_nChainTx bi' = bi_nChainTx bi" "is_failed bi' = is_failed bi" "has_data bi' = has_data bi"
    using assms unfolding connect_frame_def by blast+
  have skel: "skel ((cs_index s)(p \<mapsto> bi')) = skel (cs_index s)"
    by (rule skel_update) (simp_all add: assms(2) b(1-6))
  show ?thesis
    using complete_same_flags [OF assms(2) skel b(7,8)] skel by (simp add: same_chain_def set_entry_def)
qed

text \<open>A block that fails leaves the set and takes its descendants out of the complete blocks.\<close>

lemma complete_mark_valid_failed:
  assumes "h p = Some bi" and "skel (h(p \<mapsto> bi')) = skel h" and "is_failed bi'" and "has_data bi' = has_data bi"
  shows "complete (h(p \<mapsto> bi')) q \<longleftrightarrow> complete h q \<and> (\<forall>n. up h n q \<noteq> Some p)"
proof -
  let ?h = "h(p \<mapsto> bi')"
  have rec: "received ?h q = received h q"
    using skel_received [OF assms(2)] skel_received [OF assms(2) [symmetric]] by blast
  show ?thesis
  proof (cases "\<exists>n. up h n q = Some p")
    case True
    then obtain n where "up ?h n q = Some p" "?h p = Some bi'"
      using skel_up [OF assms(2)] by auto
    then have "\<not> complete ?h q"
      using assms(3) unfolding complete_def by blast
    then show ?thesis
      using True by blast
  next
    case False
    then have "(\<forall>n r b. up h n q = Some r \<longrightarrow> ?h r = Some b \<longrightarrow> \<not> is_failed b \<and> has_data b) \<longleftrightarrow>
        (\<forall>n r b. up h n q = Some r \<longrightarrow> h r = Some b \<longrightarrow> \<not> is_failed b \<and> has_data b)"
      by (metis fun_upd_other)
    then have "complete ?h q = complete h q"
      by (simp only: complete_def rec skel_up [OF assms(2)] skel_None [OF assms(2)])
    then show ?thesis
      using False by blast
  qed
qed

lemma InvalidBlockFound_result:
  assumes "chain_inv s" and "complete (cs_index s) p" and "Some p \<notin> set (cs_active s)"
    and "threshold s \<theta>" and "verified V (cs_index s) \<theta>" and "p \<notin> V"
  shows "\<exists>s'. InvalidBlockFound p False s = Some s' \<and> chain_inv s' \<and> threshold s' \<theta> \<and>
    shrinks V s s' \<and> good (cs_index s') \<subset> good (cs_index s) \<and> cs_active s' = cs_active s \<and> cs_view s' = cs_view s"
proof -
  let ?h = "cs_index s"
  obtain bi where bi: "?h p = Some bi"
    using complete_dom [OF assms(2)] by blast
  let ?bi = "bi\<lparr>bi_nStatus := bi_nStatus bi OR BLOCK_FAILED_VALID\<rparr>"
  let ?h' = "?h(p \<mapsto> ?bi)"
  have skel: "skel ?h' = skel ?h"
    by (rule skel_update) (simp_all add: bi)
  have data: "has_data ?bi = has_data bi"
  proof -
    have "(bi_nStatus bi OR 32) AND 8 = (bi_nStatus bi AND 8) OR (32 AND 8)"
      by (rule bit.conj_disj_distrib2)
    then have "(bi_nStatus bi OR 32) AND 8 = bi_nStatus bi AND 8"
      by simp
    then show ?thesis
      by (simp add: has_data_def)
  qed
  note comp = complete_mark_valid_failed [OF bi skel is_failed_or_valid data]
  let ?s1 = "erase_candidate p (mark_dirty p (set_entry p ?bi s))"
  have cands: "set (cs_candidates ?s1) = set (cs_candidates s) - {p}" "sorted_wrt (work_less ?h) (cs_candidates ?s1)"
    using cand.set_erase [OF chain_inv_candidates(1) [OF assms(1)] _ chain_inv_candidates(2) [OF assms(1)], of p]
      cand.sorted_erase [OF chain_inv_candidates(1) [OF assms(1)] _ chain_inv_candidates(2) [OF assms(1)], of p]
      skel_work_less [OF skel] chain_inv_tree(4) [OF assms(1)] bi
    by (auto simp: erase_candidate_def mark_dirty_def set_entry_def)
  have idx: "cs_index ?s1 = ?h'" "cs_active ?s1 = cs_active s" "cs_best_invalid ?s1 = cs_best_invalid s"
    by (simp_all add: erase_candidate_def mark_dirty_def set_entry_def)
  obtain t where t: "cs_Tip s = Some t" "complete ?h t" "cs_active s = chain_of ?h t"
    using assms(1) by (rule chain_inv_tip)
  have not_below: "up ?h n t \<noteq> Some p" for n
  proof
    assume u: "up ?h n t = Some p"
    then have "n \<le> height_of ?h t"
      using up_None [OF chain_inv_tree(1) [OF assms(1)], of t _ n] complete_dom [OF t(2)] by (metis domD not_le option.distinct(1))
    then have "Some p \<in> set (chain_of ?h t)"
      using u unfolding chain_of_member by blast
    then show False
      using assms(3) t(3) by simp
  qed
  have inv1: "chain_inv ?s1"
    unfolding chain_inv_def idx
  proof (intro conjI)
    show "tree_inv ?h'"
      using skel_tree_inv [OF skel] assms(1) by (simp add: chain_inv_def)
    show "\<exists>t. complete ?h' t \<and> cs_active s = chain_of ?h' t"
      using t not_below comp skel_chain_of [OF skel] by metis
    show "sorted_wrt (work_less ?h') (cs_candidates ?s1)"
      using cands(2) skel_work_less [OF skel] by simp
    show "\<forall>c\<in>set (cs_candidates ?s1). c \<in> dom ?h' \<and> received ?h' c"
      using cands(1) assms(1) skel_received [OF skel [symmetric]] skel_dom [OF skel] by (auto simp: chain_inv_def)
    show "\<forall>b. cs_best_invalid s = Some b \<longrightarrow> b \<in> dom ?h'"
      using assms(1) skel_dom [OF skel] by (simp add: chain_inv_def)
  qed
  have "p \<in> dom (cs_index ?s1)"
    by (simp add: idx)
  then obtain s2 where s2: "note_invalid p ?s1 = Some s2" "rejects ?s1 s2" "cs_index s2 = cs_index ?s1"
    using rejects_note [OF inv1] by blast
  have "up ?h n \<theta> \<noteq> Some p" for n
    using assms(5,6) unfolding verified_def by blast
  then have "threshold ?s1 \<theta>"
    using assms(4) comp cands(1) unfolding threshold_def idx skel_work_less [OF skel]
    by (metis DiffI complete_self fun_upd_same is_failed_or_valid singletonD)
  then have "chain_inv s2" "threshold s2 \<theta>" "cs_active s2 = cs_active s"
    using rejects_inv [OF s2(2) inv1] rejects_threshold [OF s2(2)] s2(2) idx(2) by (simp_all add: rejects_def)
  moreover have good: "good ?h' \<subset> good ?h"
    using bi complete_self [OF assms(2) bi] is_failed_or_valid by (auto simp: good_def split: if_splits)
  moreover have "cs_Tip s2 = Some t"
    using t(1) \<open>cs_active s2 = cs_active s\<close> by (simp add: cs_Tip_def split: if_splits)
  moreover have "up ?h n q \<noteq> Some p" if "verified V ?h q" for n q
    using that assms(6) unfolding verified_def by blast
  then have "shrinks V s s2"
    using s2(3) skel idx(1) comp good by (simp add: shrinks_def psubset_imp_subset)
  moreover have "cs_view s2 = cs_view s"
    using s2(2) by (simp add: rejects_def erase_candidate_def mark_dirty_def set_entry_def)
  ultimately show ?thesis
    using s2 idx by (simp add: InvalidBlockFound_def add_status_def bi InvalidChainFound_def shrinks_def)
qed

end
