(* ===== verification/ChainConnect.thy ===== *)
theory ChainConnect
  imports ChainActivate
begin

text \<open>
  Connecting blocks: what one block, a batch of blocks and a whole step of the activation do to the
  position of the node, and how much closer they bring it to the best chain.
\<close>

section \<open>One block\<close>

lemma more_work_iff:
  assumes "p \<in> sized h" and "q \<in> sized h"
  shows "more_work h p q = Some (work_of h q < work_of h p)"
  using assms by (auto simp: sized_def more_work_def work_of_def CompareTo_sign)

lemma child_not_active:
  assumes "chain_inv s" and "cs_Tip s = Some t" and "cs_index s p = Some bi" and "bi_pprev bi = Some t"
  shows "Some p \<notin> set (cs_active s)"
proof
  let ?h = "cs_index s"
  assume "Some p \<in> set (cs_active s)"
  obtain u where u: "cs_Tip s = Some u" "complete ?h u" "cs_active s = chain_of ?h u"
    using assms(1) by (rule chain_inv_tip)
  then have "u = t"
    using assms(2) by simp
  obtain n where n: "n \<le> height_of ?h t" "up ?h n t = Some p"
    using \<open>Some p \<in> set (cs_active s)\<close> unfolding u(3) \<open>u = t\<close> chain_of_member by blast
  obtain b where b: "?h t = Some b"
    using complete_dom [OF u(2)] \<open>u = t\<close> by blast
  have "height_of ?h p = height_of ?h t - n"
    using up_Some [OF chain_inv_tree(1) [OF assms(1)] b n(1)] n(2) by auto
  moreover have "height_of ?h p = Suc (height_of ?h t)"
    using chain_inv_tree(1) [OF assms(1)] assms(3) by (cases rule: block_tree_cases) (use assms(4) in auto)
  ultimately show False
    by simp
qed

lemma verified_child:
  assumes "verified V h t" and "h p = Some bi" and "bi_pprev bi = Some t" and "p \<in> V"
  shows "verified V h p"
  unfolding verified_def
proof (intro allI impI)
  fix n q
  assume "up h n p = Some q"
  then show "q \<in> V"
    using assms by (cases n) (auto simp: verified_def)
qed

text \<open>A block on the tip is connected, or fails and is flagged, or an error leaves the tip where it was.\<close>

lemma ConnectTip_result:
  assumes env: "node_contract env R V k" "\<not> reports_corruption env R k" and pos: "position V s t \<theta>"
    and at: "R t (cs_view s)" "shape (cs_index s) = k"
    and p: "cs_index s p = Some bi" "bi_pprev bi = Some t" "complete (cs_index s) p"
  shows "\<exists>ok st s'. ConnectTip env p s = Some ((ok, st), s') \<and>
    (if ok then p \<in> V \<and> moves s s' p \<and> R p (cs_view s')
     else case st of
       VInvalid corruption \<Rightarrow> \<not> corruption \<and> position V s' t \<theta> \<and> shrinks V s s' \<and>
         good (cs_index s') \<subset> good (cs_index s) \<and> cs_view s' = cs_view s
     | _ \<Rightarrow> moves s s' t \<and> \<not> storage_ok env R k)"
proof -
  have inv: "chain_inv s" "cs_Tip s = Some t" "verified V (cs_index s) t" "threshold s \<theta>" "verified V (cs_index s) \<theta>"
    using pos by (simp_all add: position_def)
  obtain bi' r where r: "ne_connect env (cs_index s) p (cs_view s) = (bi', r)"
    by (cases "ne_connect env (cs_index s) p (cs_view s)")
  have "case snd (ne_connect env (cs_index s) p (cs_view s)) of
      ConnectOk v \<Rightarrow> p \<in> V \<and> R p v | ConnectFail (VInvalid corruption) \<Rightarrow> corruption \<or> p \<notin> V | ConnectFail _ \<Rightarrow> True"
    using env(1) at p(1,2) unfolding node_contract_def connect_verdict_def by blast
  moreover have "snd (ne_connect env (cs_index s) p (cs_view s)) \<noteq> ConnectFail (VInvalid True)"
    using env(2) at p unfolding reports_corruption_def by blast
  ultimately have verdict: "case r of ConnectOk v \<Rightarrow> p \<in> V \<and> R p v | ConnectFail (VInvalid corruption) \<Rightarrow> p \<notin> V \<and> \<not> corruption
      | ConnectFail _ \<Rightarrow> True"
    using r by (auto split: connect_result.splits vstate.splits)
  have flush: "ne_flush env v" if "storage_ok env R k" for v
    using that by (simp add: storage_ok_def)
  have fail: "\<exists>corruption. st = VInvalid corruption" if "storage_ok env R k" "r = ConnectFail st" for st
  proof -
    have "case r of ConnectOk _ \<Rightarrow> True | ConnectFail (VInvalid corruption) \<Rightarrow> True | ConnectFail _ \<Rightarrow> False"
      using that(1) at p(1,2) r unfolding storage_ok_def by (metis snd_conv)
    then show ?thesis
      using that(2) by (cases st) simp_all
  qed
  let ?s = "set_entry p bi' s"
  have same: "same_chain s ?s"
    using connect_same_chain [OF _ p(1) r] env(1) by (simp add: node_contract_def)
  have m: "moves s ?s t"
    by (rule same_chain_moves [OF same inv(1,2)])
  have skel: "skel (cs_index ?s) = skel (cs_index s)"
    using same by (simp add: same_chain_def)
  have pos': "position V ?s t \<theta>"
    by (rule position_moves [OF pos m inv(3)])
  have inv': "chain_inv ?s" "threshold ?s \<theta>" "verified V (cs_index ?s) \<theta>"
    using pos' by (simp_all add: position_def)
  have p': "complete (cs_index ?s) p"
    using p(3) m by (simp add: moves_def)
  show ?thesis
  proof (cases r)
    case (ConnectOk v)
    have V: "p \<in> V" "R p v"
      using verdict ConnectOk by simp_all
    obtain s' where s': "UpdateTip (Some p) (?s\<lparr>cs_view := v\<rparr>) = Some s'" "moves ?s s' p"
      using UpdateTip_moves [of "?s\<lparr>cs_view := v\<rparr>" p] inv'(1) p' by (auto simp: set_view_inv moves_set_view)
    have v: "moves s (?s\<lparr>cs_view := v\<rparr>) t"
      using m by (auto simp: moves_def)
    show ?thesis
    proof (cases "ne_flush env v")
      case True
      then have "ConnectTip env p s = Some ((True, VValid), s')"
        using p inv(2) r ConnectOk s'(1) by (simp add: ConnectTip_def Let_def)
      moreover have "cs_view s' = v"
        using UpdateTip_view [OF s'(1)] by simp
      ultimately show ?thesis
        using V moves_trans [OF m s'(2)] by auto
    next
      case False
      then have "ConnectTip env p s = Some ((False, VError), ?s\<lparr>cs_view := v\<rparr>)"
        using p inv(2) r ConnectOk by (simp add: ConnectTip_def Let_def)
      then show ?thesis
        using v False flush by auto
    qed
  next
    case (ConnectFail st)
    show ?thesis
    proof (cases st)
      case (VInvalid corruption)
      have V: "p \<notin> V" "\<not> corruption"
        using verdict ConnectFail VInvalid by simp_all
      have "Some p \<notin> set (cs_active ?s)"
        using child_not_active [OF inv(1,2) p(1,2)] same by (simp add: same_chain_def)
      then obtain s' where s': "InvalidBlockFound p False ?s = Some s'" "chain_inv s'" "threshold s' \<theta>" "shrinks V ?s s'"
        "good (cs_index s') \<subset> good (cs_index ?s)" "cs_active s' = cs_active ?s" "cs_view s' = cs_view ?s"
        using InvalidBlockFound_result [OF inv'(1) p' _ inv'(2,3) V(1)] by blast
      have skel': "skel (cs_index s') = skel (cs_index s)"
        using s'(4) skel by (simp add: shrinks_def)
      have tip: "cs_Tip s' = Some t"
        using s'(6) inv(2) same by (simp add: cs_Tip_def same_chain_def split: if_splits)
      have "position V s' t \<theta>"
        unfolding position_def skel_verified [OF skel'] using s'(2,3) tip inv(3,5) by simp
      moreover have "shrinks V s s'"
        by (rule shrinks_trans [OF moves_shrinks [OF m] s'(4)])
      moreover have "good (cs_index s') \<subset> good (cs_index s)"
        using s'(5) m by (simp add: moves_def)
      moreover have "ConnectTip env p s = Some ((False, VInvalid corruption), s')"
        using p inv(2) r ConnectFail VInvalid V(2) s'(1) by (simp add: ConnectTip_def Let_def)
      moreover have "cs_view s' = cs_view s"
        using s'(7) by (simp add: set_entry_def)
      ultimately show ?thesis
        using V(2) VInvalid by auto
    next
      case VValid
      then have "ConnectTip env p s = Some ((False, VValid), ?s)"
        using p inv(2) r ConnectFail by (simp add: ConnectTip_def Let_def)
      then show ?thesis
        using m fail [OF _ ConnectFail] VValid by auto
    next
      case VError
      then have "ConnectTip env p s = Some ((False, VError), ?s)"
        using p inv(2) r ConnectFail by (simp add: ConnectTip_def Let_def)
      then show ?thesis
        using m fail [OF _ ConnectFail] VError by auto
    qed
  qed
qed

text \<open>Pruning keeps what is not below the tip, so the tip itself, which may be a new threshold.\<close>

lemma Prune_result:
  assumes "position V s t \<theta>"
  shows "\<exists>cs. PruneBlockIndexCandidates s = Some (s\<lparr>cs_candidates := cs\<rparr>) \<and>
    (\<exists>\<theta>'. position V (s\<lparr>cs_candidates := cs\<rparr>) t \<theta>')"
proof -
  let ?h = "cs_index s" and ?cs = "dropWhile (\<lambda>q. work_less (cs_index s) q t) (cs_candidates s)"
  have inv: "chain_inv s" "cs_Tip s = Some t" "verified V ?h t" "threshold s \<theta>" "verified V ?h \<theta>"
    using assms by (simp_all add: position_def)
  have t: "complete ?h t" "\<And>p. complete ?h p \<Longrightarrow> p \<in> sized ?h"
    using inv(1,2) chain_inv_tip [OF inv(1)] complete_dom chain_inv_tree(4) [OF inv(1)] by (metis option.inject)+
  have kept: "set ?cs = {x \<in> set (cs_candidates s). \<not> work_less ?h x t}"
    by (rule cand.drop_below [OF chain_inv_candidates(1) [OF inv(1)] t(2) [OF t(1)] chain_inv_candidates(2) [OF inv(1)]])
  have sorted: "sorted_wrt (work_less ?h) ?cs"
    using chain_inv_candidates(2) [OF inv(1)] by (metis sorted_wrt_append takeWhile_dropWhile_id)
  define \<theta>' where "\<theta>' = (if work_less ?h t \<theta> then \<theta> else t)"
  have \<theta>': "complete ?h \<theta>'" "verified V ?h \<theta>'"
    using inv(3-5) t(1) by (simp_all add: \<theta>'_def threshold_def)
  have above: "p \<in> set ?cs" if c: "complete ?h p" "\<not> work_less ?h p \<theta>'" for p
  proof -
    have "\<not> work_less ?h p \<theta>"
      using c cand.not_less_trans [of p ?h t \<theta>] t inv(4) by (auto simp: \<theta>'_def threshold_def split: if_splits)
    moreover have "\<not> work_less ?h p t"
      using c cand.trans [of p ?h t \<theta>] t inv(4) by (auto simp: \<theta>'_def threshold_def split: if_splits)
    ultimately show ?thesis
      using inv(4) c(1) kept by (simp add: threshold_def)
  qed
  have "\<theta>' \<in> set ?cs"
    using above \<theta>'(1) cand.irrefl t(2) by blast
  then have "?cs \<noteq> []"
    by (metis empty_iff empty_set)
  then have "PruneBlockIndexCandidates s = Some (s\<lparr>cs_candidates := ?cs\<rparr>)"
    using inv(2) by (simp add: PruneBlockIndexCandidates_def Let_def)
  moreover have "chain_inv (s\<lparr>cs_candidates := ?cs\<rparr>)"
    using inv(1) kept sorted by (simp add: chain_inv_def)
  then have "position V (s\<lparr>cs_candidates := ?cs\<rparr>) t \<theta>'"
    using inv(2,3) \<theta>' above by (simp add: position_def threshold_def cs_Tip_def split: if_splits)
  ultimately show ?thesis
    by blast
qed

section \<open>A batch\<close>

fun linked :: "index_heap \<Rightarrow> ptr \<Rightarrow> ptr list \<Rightarrow> bool" where
  "linked h t [] \<longleftrightarrow> True"
| "linked h t (p # ps) \<longleftrightarrow> (\<exists>bi. h p = Some bi \<and> bi_pprev bi = Some t) \<and> complete h p \<and> linked h p ps"

lemma linked_append: "linked h t (ps @ qs) \<longleftrightarrow> linked h t ps \<and> linked h (last (t # ps)) qs"
  by (induction ps arbitrary: t) auto

lemma linked_cong:
  assumes "skel h' = skel h" and "\<And>p. complete h' p = complete h p"
  shows "linked h t ps \<Longrightarrow> linked h' t ps"
proof (induction ps arbitrary: t)
  case (Cons p ps)
  then obtain bi where bi: "h p = Some bi" "bi_pprev bi = Some t"
    by auto
  obtain bi' where "h' p = Some bi'" "bi_pprev bi' = bi_pprev bi"
    using skel_Some [OF assms(1) bi(1)] by metis
  then show ?case
    using Cons bi assms(2) by simp
qed simp

definition keeps :: "'v chainstate \<Rightarrow> 'v chainstate \<Rightarrow> bool" where
  "keeps s s' \<longleftrightarrow> skel (cs_index s') = skel (cs_index s) \<and>
     (\<forall>p. complete (cs_index s') p = complete (cs_index s) p) \<and> good (cs_index s') = good (cs_index s)"

lemma keeps_refl: "keeps s s"
  by (simp add: keeps_def)

lemma keeps_trans: "keeps s1 s2 \<Longrightarrow> keeps s2 s3 \<Longrightarrow> keeps s1 s3"
  by (simp add: keeps_def)

lemma moves_keeps: "moves s s' t \<Longrightarrow> keeps s s'"
  by (simp add: keeps_def moves_def)

lemma keeps_shrinks: "keeps s s' \<Longrightarrow> shrinks V s s'"
  by (simp add: keeps_def shrinks_def)

text \<open>Where a batch ends, by how it ends; \<open>u\<close> is the last block of the batch and \<open>o\<close> the old tip.\<close>

definition batch_post ::
  "(ptr \<Rightarrow> 'v \<Rightarrow> bool) \<Rightarrow> ptr set \<Rightarrow> ptr \<Rightarrow> ptr \<Rightarrow> 'v chainstate \<Rightarrow> batch_result \<Rightarrow> 'v chainstate \<Rightarrow> bool" where
  "batch_post R V old u s r s' \<longleftrightarrow> shrinks V s s' \<and>
     (\<exists>t' \<theta>'. position V s' t' \<theta>' \<and> (r \<noteq> BatchError \<longrightarrow> R t' (cs_view s')) \<and>
        (case r of
           BatchDone \<Rightarrow> t' = u \<and> keeps s s'
         | BatchBetter \<Rightarrow> work_of (cs_index s) old < work_of (cs_index s) t' \<and> good (cs_index s') = good (cs_index s)
         | BatchInvalid \<Rightarrow> good (cs_index s') \<subset> good (cs_index s)
         | BatchError \<Rightarrow> True))"

lemma skel_work_of: "skel h' = skel h \<Longrightarrow> work_of h' p = work_of h p"
  by (drule fun_cong [of _ _ p]) (auto simp: skel_def work_of_def split: option.splits)

lemma batch_post_keeps:
  assumes "keeps s s1" and "batch_post R V old u s1 r s'"
  shows "batch_post R V old u s r s'"
proof -
  have skel: "skel (cs_index s1) = skel (cs_index s)" and good: "good (cs_index s1) = good (cs_index s)"
    using assms(1) by (simp_all add: keeps_def)
  show ?thesis
    using assms(2) shrinks_trans [OF keeps_shrinks [OF assms(1)], of V s'] keeps_trans [OF assms(1), of s']
    unfolding batch_post_def skel_work_of [OF skel] good by (cases r) auto
qed

lemma position_tip_dom: "position V s t \<theta> \<Longrightarrow> t \<in> sized (cs_index s)"
  using chain_inv_tip complete_dom chain_inv_tree(4) unfolding position_def by (metis option.inject)

lemma InvalidChainFound_result:
  assumes "position V s t \<theta>" and "p \<in> dom (cs_index s)"
  shows "\<exists>s'. InvalidChainFound p s = Some s' \<and> rejects s s' \<and> cs_index s' = cs_index s"
proof -
  obtain s' where s': "note_invalid p s = Some s'" "rejects s s'" "cs_index s' = cs_index s"
    using rejects_note [of s p] assms by (auto simp: position_def)
  have "cs_Tip s' = Some t"
    using position_rejects [OF assms(1) s'(2)] by (simp add: position_def)
  then show ?thesis
    using s' by (simp add: InvalidChainFound_def)
qed

lemma connect_batch_result:
  assumes env: "node_contract env R V k" "\<not> reports_corruption env R k"
  shows "position V s t \<theta> \<Longrightarrow> R t (cs_view s) \<Longrightarrow> shape (cs_index s) = k \<Longrightarrow> linked (cs_index s) t ps \<Longrightarrow> old \<in> sized (cs_index s) \<Longrightarrow>
    (ps \<noteq> [] \<longrightarrow> back \<in> dom (cs_index s)) \<Longrightarrow>
    \<exists>r s'. connect_batch env (Some old) back ps s = Some (r, s') \<and> batch_post R V old (last (t # ps)) s r s' \<and>
      (storage_ok env R k \<longrightarrow> r \<noteq> BatchError)"
proof (induction ps arbitrary: s t \<theta>)
  case Nil
  then have "batch_post R V old t s BatchDone s"
    using shrinks_refl keeps_refl by (auto simp: batch_post_def)
  then show ?case
    by simp
next
  case (Cons p ps)
  let ?u = "last (t # p # ps)"
  obtain bi where p: "cs_index s p = Some bi" "bi_pprev bi = Some t" "complete (cs_index s) p"
    using Cons.prems(4) by auto
  have V: "verified V (cs_index s) t"
    using Cons.prems(1) by (simp add: position_def)
  obtain ok st s1 where c: "ConnectTip env p s = Some ((ok, st), s1)"
    "if ok then p \<in> V \<and> moves s s1 p \<and> R p (cs_view s1)
     else case st of
       VInvalid corruption \<Rightarrow> \<not> corruption \<and> position V s1 t \<theta> \<and> shrinks V s s1 \<and>
         good (cs_index s1) \<subset> good (cs_index s) \<and> cs_view s1 = cs_view s
     | _ \<Rightarrow> moves s s1 t \<and> \<not> storage_ok env R k"
    using ConnectTip_result [OF env Cons.prems(1-3) p] by blast
  have error: "batch_post R V old ?u s BatchError s1" if "moves s s1 t"
    using position_moves [OF Cons.prems(1) that V] moves_shrinks [OF that] by (auto simp: batch_post_def)
  show ?case
  proof (cases ok)
    case True
    then have m: "moves s s1 p" "p \<in> V" "R p (cs_view s1)"
      using c(2) by simp_all
    then have pos1: "position V s1 p \<theta>"
      using position_moves [OF Cons.prems(1)] verified_child [OF V p(1,2)] by blast
    then obtain cs \<theta>' where prune: "PruneBlockIndexCandidates s1 = Some (s1\<lparr>cs_candidates := cs\<rparr>)"
      "position V (s1\<lparr>cs_candidates := cs\<rparr>) p \<theta>'"
      using Prune_result by blast
    let ?s2 = "s1\<lparr>cs_candidates := cs\<rparr>"
    have k: "keeps s ?s2"
      using moves_keeps [OF m(1)] by (simp add: keeps_def)
    then have skel: "skel (cs_index ?s2) = skel (cs_index s)" and comp: "\<And>q. complete (cs_index ?s2) q = complete (cs_index s) q"
      by (simp_all add: keeps_def)
    have old: "old \<in> sized (cs_index ?s2)" "back \<in> dom (cs_index ?s2)"
      using Cons.prems(5,6) skel_sized [OF skel] skel_dom [OF skel] by simp_all
    have better: "more_work (cs_index ?s2) p old = Some (work_of (cs_index s) old < work_of (cs_index s) p)"
      using more_work_iff [OF position_tip_dom [OF prune(2)] old(1)] skel_work_of [OF skel] by simp
    have tip: "cs_Tip ?s2 = Some p"
      using prune(2) by (simp add: position_def)
    show ?thesis
    proof (cases "work_of (cs_index s) old < work_of (cs_index s) p")
      case True
      then have "batch_post R V old ?u s BatchBetter ?s2"
        using prune(2) keeps_shrinks [OF k] k m(3) by (auto simp: batch_post_def keeps_def)
      moreover have "connect_batch env (Some old) back (p # ps) s = Some (BatchBetter, ?s2)"
        using c(1) \<open>ok\<close> prune(1) tip better True by simp
      ultimately show ?thesis
        by blast
    next
      case False
      have "linked (cs_index ?s2) p ps"
        using linked_cong [OF skel comp] Cons.prems(4) by simp
      then obtain r s' where r: "connect_batch env (Some old) back ps ?s2 = Some (r, s')"
        "batch_post R V old (last (p # ps)) ?s2 r s'" "storage_ok env R k \<longrightarrow> r \<noteq> BatchError"
        using Cons.IH [OF prune(2) _ _ _ old(1)] old(2) m(3) skel_shape [OF skel] Cons.prems(3) by auto
      have "connect_batch env (Some old) back (p # ps) s = Some (r, s')"
        using c(1) \<open>ok\<close> prune(1) tip better False r(1) by simp
      then show ?thesis
        using batch_post_keeps [OF k r(2)] r(3) by auto
    qed
  next
    case False
    show ?thesis
    proof (cases st)
      case (VInvalid corruption)
      then have s1: "\<not> corruption" "position V s1 t \<theta>" "shrinks V s s1" "good (cs_index s1) \<subset> good (cs_index s)"
        "cs_view s1 = cs_view s"
        using c(2) False by simp_all
      then have skel: "skel (cs_index s1) = skel (cs_index s)"
        by (simp add: shrinks_def)
      have "back \<in> dom (cs_index s1)"
        unfolding skel_dom [OF skel] using Cons.prems(6) by simp
      then obtain s' where s': "InvalidChainFound back s1 = Some s'" "rejects s1 s'" "cs_index s' = cs_index s1"
        using InvalidChainFound_result [OF s1(2)] by blast
      have "batch_post R V old ?u s BatchInvalid s'"
        using position_rejects [OF s1(2) s'(2)] shrinks_trans [OF s1(3) rejects_shrinks [OF s'(2)]] s1(4,5) s'(2,3) Cons.prems(2)
        by (auto simp: batch_post_def rejects_def)
      moreover have "connect_batch env (Some old) back (p # ps) s = Some (BatchInvalid, s')"
        using c(1) False VInvalid s1(1) s'(1) by simp
      ultimately show ?thesis
        by blast
    next
      case VValid
      then have "batch_post R V old ?u s BatchError s1"
        using c(2) False error by simp
      moreover have "connect_batch env (Some old) back (p # ps) s = Some (BatchError, s1)"
        using c(1) False VValid by simp
      ultimately show ?thesis
        using c(2) False VValid by auto
    next
      case VError
      then have "batch_post R V old ?u s BatchError s1"
        using c(2) False error by simp
      moreover have "connect_batch env (Some old) back (p # ps) s = Some (BatchError, s1)"
        using c(1) False VError by simp
      ultimately show ?thesis
        using c(2) False VError by auto
    qed
  qed
qed

end
