(* ===== verification/ChainBest.thy ===== *)
theory ChainBest
  imports ChainConnect
begin

text \<open>
  Activating the best chain as a whole: from any state that satisfies the invariant it ends, and
  unless a block could not be read or written the tip is then a complete block with most work.
\<close>

section \<open>The blocks to connect\<close>

lemma up_height:
  assumes "block_tree h" and "h p = Some bi" and "up h d p = Some t"
  shows "height_of h p = d + height_of h t"
proof -
  have "d \<le> height_of h p"
    using up_None [OF assms(1,2), of d] assms(3) by (metis not_le option.distinct(1))
  then show ?thesis
    using up_Some [OF assms(1,2), of d] assms(3) by auto
qed

lemma to_connect_loop_linked:
  assumes "block_tree h" and "h t = Some bt"
  shows "complete h p \<Longrightarrow> up h d p = Some t \<Longrightarrow>
    \<exists>ps. to_connect_loop h (bi_nHeight bt) (Some p) = Some ps \<and> linked h t (rev ps) \<and> last (t # rev ps) = p \<and>
      set ps \<subseteq> dom h \<and> (0 < d \<longrightarrow> ps \<noteq> [])"
proof (induction d arbitrary: p)
  case 0
  then show ?case
    using assms(2) by (subst to_connect_loop.simps) simp
next
  case (Suc d)
  obtain bi where bi: "h p = Some bi"
    using complete_dom [OF Suc.prems(1)] by blast
  then obtain q where q: "bi_pprev bi = Some q" "up h d q = Some t"
    using Suc.prems(2) by (auto split: option.splits)
  have "up h 1 p = Some q"
    using bi q(1) by simp
  then have "complete h q"
    using complete_up [of h p 1 q] up_dom [OF assms(1), of p 1 q] Suc.prems(1) bi by auto
  then obtain ps where ps: "to_connect_loop h (bi_nHeight bt) (Some q) = Some ps" "linked h t (rev ps)"
    "last (t # rev ps) = q" "set ps \<subseteq> dom h"
    using Suc.IH q(2) by blast
  have "bi_nHeight bi \<noteq> bi_nHeight bt"
    using up_height [OF assms(1) bi Suc.prems(2)] height_of_int [OF assms(1) bi] height_of_int [OF assms] by simp
  then have "to_connect_loop h (bi_nHeight bt) (Some p) = Some (p # ps)"
    using bi q(1) ps(1) by (subst to_connect_loop.simps) simp
  moreover have "linked h t (rev (p # ps))"
    using ps(2,3) bi q(1) Suc.prems(1) by (simp add: linked_append)
  ultimately show ?case
    using ps(4) bi by auto
qed

section \<open>All batches\<close>

definition step_post ::
  "(ptr \<Rightarrow> 'v \<Rightarrow> bool) \<Rightarrow> ptr set \<Rightarrow> ptr \<Rightarrow> ptr \<Rightarrow> 'v chainstate \<Rightarrow> bool \<Rightarrow> 'v chainstate \<Rightarrow> bool" where
  "step_post R V old c s ok s' \<longleftrightarrow> shrinks V s s' \<and>
     (\<exists>t' \<theta>'. position V s' t' \<theta>' \<and> (ok \<longrightarrow> R t' (cs_view s')) \<and>
        (ok \<longrightarrow> t' = c \<or> good (cs_index s') \<subset> good (cs_index s) \<or>
           good (cs_index s') = good (cs_index s) \<and> work_of (cs_index s) old < work_of (cs_index s) t'))"

lemma step_post_keeps:
  assumes "keeps s s1" and "step_post R V old c s1 ok s'"
  shows "step_post R V old c s ok s'"
proof -
  have skel: "skel (cs_index s1) = skel (cs_index s)" and good: "good (cs_index s1) = good (cs_index s)"
    using assms(1) by (simp_all add: keeps_def)
  show ?thesis
    using assms(2) shrinks_trans [OF keeps_shrinks [OF assms(1)], of V s']
    unfolding step_post_def skel_work_of [OF skel] good by blast
qed

lemma batch_post_step:
  assumes "batch_post R V old u s r s'" and "r \<noteq> BatchDone"
  shows "step_post R V old c s (r \<noteq> BatchError) s'"
  using assms unfolding batch_post_def step_post_def by (cases r) auto

lemma batches_loop_result:
  assumes env: "node_contract env R V k" "\<not> reports_corruption env R k"
  shows "position V s t \<theta> \<Longrightarrow> R t (cs_view s) \<Longrightarrow> shape (cs_index s) = k \<Longrightarrow> complete (cs_index s) c \<Longrightarrow> up (cs_index s) d c = Some t \<Longrightarrow>
    cs_index s c = Some bc \<Longrightarrow> cs_index s t = Some bt \<Longrightarrow> old \<in> sized (cs_index s) \<Longrightarrow>
    \<exists>ok s'. batches_loop env (Some old) c (bi_nHeight bc) (bi_nHeight bt) s = Some (ok, s') \<and> step_post R V old c s ok s' \<and>
      (storage_ok env R k \<longrightarrow> ok)"
proof (induction d arbitrary: s t \<theta> bc bt rule: less_induct)
  case (less d)
  let ?h = "cs_index s"
  have inv: "chain_inv s"
    using less.prems(1) by (simp add: position_def)
  note tree = chain_inv_tree [OF inv]
  have heights: "bi_nHeight bc = int (height_of ?h c)" "bi_nHeight bt = int (height_of ?h t)"
    "height_of ?h c = d + height_of ?h t"
    using height_of_int [OF tree(1)] up_height [OF tree(1)] less.prems(5-7) by blast+
  show ?case
  proof (cases "d = 0")
    case True
    then have "batches_loop env (Some old) c (bi_nHeight bc) (bi_nHeight bt) s = Some (True, s)"
      using heights by (subst batches_loop.simps) simp
    moreover have "step_post R V old c s True s"
      using less.prems(1,2,5) True shrinks_refl by (auto simp: step_post_def)
    ultimately show ?thesis
      by blast
  next
    case False
    define n where "n = min d 32"
    have n: "0 < n" "n \<le> d" "min (bi_nHeight bt + 32) (bi_nHeight bc) = bi_nHeight bt + int n"
      using False heights by (auto simp: n_def)
    obtain x bx where x: "up ?h (d - n) c = Some x" "?h x = Some bx"
      using up_Some [OF tree(1) less.prems(6), of "d - n"] heights(3) by (auto simp: le_diff_conv)
    have up: "up ?h n x = Some t"
      using up_up [OF x(1), of n] n(2) less.prems(5) by simp
    have cx: "complete ?h x"
      using complete_up [of ?h c "d - n" x] less.prems(4) x by simp
    have start: "GetAncestor ?h c (bi_nHeight bt + int n) = Some (Some x)"
      using GetAncestor_up [OF tree(1,2) less.prems(6), of "bi_nHeight bt + int n"] heights n x(1)
      by (simp add: of_nat_diff nat_diff_distrib')
    obtain ps where ps: "to_connect_loop ?h (bi_nHeight bt) (Some x) = Some ps" "linked ?h t (rev ps)"
      "last (t # rev ps) = x" "set ps \<subseteq> dom ?h" "ps \<noteq> []"
      using to_connect_loop_linked [OF tree(1) less.prems(7) cx up] n(1) by blast
    have "last ps \<in> dom ?h"
      using ps(4,5) by (meson last_in_set subsetD)
    then obtain r s' where r: "connect_batch env (Some old) (last ps) (rev ps) s = Some (r, s')" "batch_post R V old x s r s'"
      "storage_ok env R k \<longrightarrow> r \<noteq> BatchError"
      using connect_batch_result [OF env less.prems(1-3) ps(2) less.prems(8), of "last ps"] ps(3) by auto
    have nt: "bi_nHeight bt \<noteq> bi_nHeight bc"
      using heights False by simp
    have eq: "batches_loop env (Some old) c (bi_nHeight bc) (bi_nHeight bt) s =
      (case (r, s') of
         (BatchDone, s) \<Rightarrow> batches_loop env (Some old) c (bi_nHeight bc) (bi_nHeight bt + int n) s
       | (BatchError, s) \<Rightarrow> Some (False, s)
       | (_, s) \<Rightarrow> Some (True, s))"
      using nt start ps(1) r(1) n(3) by (subst batches_loop.simps) (cases r; simp)
    show ?thesis
    proof (cases "r = BatchDone")
      case True
      then obtain \<theta>' where k: "keeps s s'" and pos: "position V s' x \<theta>'" "R x (cs_view s')"
        using r(2) by (auto simp: batch_post_def)
      then have skel: "skel (cs_index s') = skel ?h" and comp: "\<And>q. complete (cs_index s') q = complete ?h q"
        by (simp_all add: keeps_def)
      obtain bc' where bc': "cs_index s' c = Some bc'" "bi_nHeight bc' = bi_nHeight bc"
        using skel_Some [OF skel less.prems(6)] by metis
      obtain bx' where bx': "cs_index s' x = Some bx'" "bi_nHeight bx' = bi_nHeight bx"
        using skel_Some [OF skel x(2)] by metis
      have "height_of ?h x = height_of ?h t + n"
        using up_height [OF tree(1) x(2) up] by simp
      then have hx: "bi_nHeight bx' = bi_nHeight bt + int n"
        using height_of_int [OF tree(1) x(2)] heights(2) bx'(2) by simp
      have ux: "up (cs_index s') (d - n) c = Some x"
        unfolding skel_up [OF skel] by (rule x(1))
      have dn: "d - n < d"
        using n by simp
      obtain ok s'' where "batches_loop env (Some old) c (bi_nHeight bc') (bi_nHeight bx') s' = Some (ok, s'')"
        "step_post R V old c s' ok s''" "storage_ok env R k \<longrightarrow> ok"
        using less.IH [OF dn pos _ _ ux bc'(1) bx'(1)] skel_shape [OF skel] less.prems(3) comp less.prems(4,8) skel_sized [OF skel] by auto
      then show ?thesis
        using eq True bc'(2) hx step_post_keeps [OF k] by auto
    next
      case False
      then have "batches_loop env (Some old) c (bi_nHeight bc) (bi_nHeight bt) s = Some (r \<noteq> BatchError, s')"
        using eq by (cases r) simp_all
      then show ?thesis
        using batch_post_step [OF r(2) False] r(3) by blast
    qed
  qed
qed

section \<open>A step of the activation\<close>

lemma position_tip: "position V s t \<theta> \<Longrightarrow> complete (cs_index s) t \<and> cs_active s = chain_of (cs_index s) t"
  unfolding position_def by (metis chain_inv_tip option.inject)

lemma common_root:
  assumes "chain_inv s" and "cs_index s p = Some bi" and "cs_index s t = Some bt"
  shows "up (cs_index s) (height_of (cs_index s) p) p = up (cs_index s) (height_of (cs_index s) t) t"
proof -
  obtain r where "\<forall>p \<in> dom (cs_index s). up (cs_index s) (height_of (cs_index s) p) p = Some r"
    using assms(1) unfolding chain_inv_def tree_inv_def by blast
  then show ?thesis
    using assms(2,3) by (metis domI)
qed

lemma fork_exists:
  assumes "position V s t \<theta>" and "complete (cs_index s) c"
  shows "\<exists>f n k. FindFork (cs_index s) (cs_active s) (Some c) = Some (Some f) \<and>
    up (cs_index s) n c = Some f \<and> up (cs_index s) k t = Some f"
proof -
  let ?h = "cs_index s"
  have inv: "chain_inv s"
    using assms(1) by (simp add: position_def)
  have t: "complete ?h t" "cs_active s = chain_of ?h t"
    using position_tip [OF assms(1)] by simp_all
  obtain bc bt where b: "?h c = Some bc" "?h t = Some bt"
    using complete_dom [OF assms(2)] complete_dom [OF t(1)] by blast
  obtain r where r: "FindFork ?h (cs_active s) (Some c) = Some r"
    "case r of None \<Rightarrow> \<forall>n\<le>height_of ?h c. up ?h n c \<notin> set (cs_active s)
     | Some q \<Rightarrow> \<exists>n\<le>height_of ?h c. up ?h n c = Some q \<and> Some q \<in> set (cs_active s) \<and> (\<forall>m<n. up ?h m c \<notin> set (cs_active s))"
    using FindFork_last_common [OF chain_inv_tree(1,2,5) [OF inv] b(1)] inv by blast
  have root: "up ?h (height_of ?h c) c \<in> set (cs_active s)"
  proof -
    obtain x where x: "up ?h (height_of ?h t) t = Some x"
      using up_Some [OF chain_inv_tree(1) [OF inv] b(2), of "height_of ?h t"] by auto
    then have "Some x \<in> set (chain_of ?h t)"
      unfolding chain_of_member by blast
    then show ?thesis
      using common_root [OF inv b] x t(2) by simp
  qed
  show ?thesis
  proof (cases r)
    case None
    then show ?thesis
      using r(2) root by auto
  next
    case (Some f)
    then obtain n where n: "up ?h n c = Some f" "Some f \<in> set (cs_active s)"
      using r(2) by auto
    then obtain k where "up ?h k t = Some f"
      unfolding t(2) chain_of_member by blast
    then show ?thesis
      using r(1) Some n(1) by blast
  qed
qed

lemma ActivateBestChainStep_result:
  assumes env: "node_contract env R V k" "\<not> reports_corruption env R k" and pos: "position V s t \<theta>"
    and at: "R t (cs_view s)" "shape (cs_index s) = k" and c: "complete (cs_index s) c"
  shows "\<exists>ok s'. ActivateBestChainStep env c s = Some (ok, s') \<and> step_post R V t c s ok s' \<and> (storage_ok env R k \<longrightarrow> ok)"
proof -
  have inv: "chain_inv s" "cs_Tip s = Some t" "verified V (cs_index s) t"
    using pos by (simp_all add: position_def)
  obtain f n j where f: "FindFork (cs_index s) (cs_active s) (Some c) = Some (Some f)"
    "up (cs_index s) n c = Some f" "up (cs_index s) j t = Some f"
    using fork_exists [OF pos c] by blast
  obtain ok s1 m t1 where s1: "disconnect_loop env (Some f) s = Some (ok, s1)" "moves s s1 t1"
    "up (cs_index s) m t = Some t1" "ok \<longrightarrow> t1 = f \<and> R f (cs_view s1)" "storage_ok env R k \<longrightarrow> ok"
    using disconnect_loop_moves [where R = R, OF inv(1,2) f(3) _ at(1), of env] env(1) unfolding at(2) node_contract_def by blast
  have pos1: "position V s1 t1 \<theta>"
    by (rule position_moves [OF pos s1(2) verified_up [OF inv(3) s1(3)]])
  have keep: "keeps s s1"
    by (rule moves_keeps [OF s1(2)])
  then have skel: "skel (cs_index s1) = skel (cs_index s)" and comp: "\<And>q. complete (cs_index s1) q = complete (cs_index s) q"
    by (simp_all add: keeps_def)
  show ?thesis
  proof (cases ok)
    case False
    then have "ActivateBestChainStep env c s = Some (False, s1)"
      using f(1) s1(1) by (simp add: ActivateBestChainStep_def)
    moreover have "step_post R V t c s False s1"
      using pos1 keeps_shrinks [OF keep] by (auto simp: step_post_def)
    ultimately show ?thesis
      using s1(5) False by blast
  next
    case True
    then have t1: "t1 = f" and Rf: "R f (cs_view s1)"
      using s1(4) by simp_all
    have k1: "shape (cs_index s1) = k"
      using skel_shape [OF skel] at(2) by simp
    have uc: "up (cs_index s1) n c = Some f"
      unfolding skel_up [OF skel] by (rule f(2))
    have c1: "complete (cs_index s1) c"
      using c comp by simp
    have f1: "complete (cs_index s1) f"
      using position_tip [OF pos1] t1 by simp
    obtain bc bf where b: "cs_index s1 c = Some bc" "cs_index s1 f = Some bf"
      using complete_dom [OF c1] complete_dom [OF f1] by blast
    have "t \<in> sized (cs_index s1)"
      unfolding skel_sized [OF skel] by (rule position_tip_dom [OF pos])
    then obtain ok' s' where r: "batches_loop env (Some t) c (bi_nHeight bc) (bi_nHeight bf) s1 = Some (ok', s')"
      "step_post R V t c s1 ok' s'" "storage_ok env R k \<longrightarrow> ok'"
      using batches_loop_result [OF env pos1 [unfolded t1] Rf k1 c1 uc b] by blast
    have "ActivateBestChainStep env c s = Some (ok', s')"
      using f(1) s1(1) True b r(1) inv(2) by (simp add: ActivateBestChainStep_def)
    then show ?thesis
      using step_post_keeps [OF keep r(2)] r(3) by blast
  qed
qed

section \<open>The whole activation\<close>

definition above_tip :: "'v chainstate \<Rightarrow> ptr set" where
  "above_tip s = {p \<in> dom (cs_index s). work_of (cs_index s) (the (cs_Tip s)) < work_of (cs_index s) p}"

lemma above_tip_less:
  assumes "position V s t \<theta>" and "position V s' t' \<theta>'" and "shrinks V s s'"
    and "work_of (cs_index s) t < work_of (cs_index s) t'"
  shows "card (above_tip s') < card (above_tip s)"
proof -
  have skel: "skel (cs_index s') = skel (cs_index s)"
    using assms(3) by (simp add: shrinks_def)
  have "t' \<in> dom (cs_index s)"
    using complete_dom position_tip [OF assms(2)] skel_dom [OF skel] by blast
  then have "t' \<in> above_tip s" "t' \<notin> above_tip s'"
    using assms skel_work_of [OF skel] by (simp_all add: above_tip_def position_def)
  moreover have "above_tip s' \<subseteq> above_tip s"
    using assms skel_work_of [OF skel] skel_dom [OF skel] by (auto simp: above_tip_def position_def)
  moreover have "finite (above_tip s)"
    unfolding above_tip_def using assms(1) chain_inv_tree(3) [of s] by (intro finite_Collect_conjI) (simp add: position_def)
  ultimately show ?thesis
    by (metis psubsetI psubset_card_mono)
qed

definition best_position ::
  "(ptr \<Rightarrow> 'v \<Rightarrow> bool) \<Rightarrow> ptr set \<Rightarrow> 'v chainstate \<Rightarrow> bool \<Rightarrow> 'v chainstate \<Rightarrow> bool" where
  "best_position R V s ok s' \<longleftrightarrow> shrinks V s s' \<and> (\<exists>t \<theta>. position V s' t \<theta> \<and> (ok \<longrightarrow> R t (cs_view s'))) \<and>
     (ok \<longrightarrow> tip_is_best s')"

lemma tip_is_bestI:
  assumes "position V s t \<theta>" and "\<And>p. complete (cs_index s) p \<Longrightarrow> \<not> work_less (cs_index s) t p"
  shows "tip_is_best s"
  using assms position_tip [OF assms(1)] unfolding tip_is_best_def position_def threshold_def by blast

lemma ActivateBestChain_result:
  assumes env: "node_contract env R V k" "\<not> reports_corruption env R k"
  shows "node_inv R V s \<Longrightarrow> shape (cs_index s) = k \<Longrightarrow>
    \<exists>ok s'. ActivateBestChain env s = Some (ok, s') \<and> best_position R V s ok s' \<and> (storage_ok env R k \<longrightarrow> ok)"
proof (induction s rule: wf_induct_rule [OF wf_measures [of "[\<lambda>s. card (good (cs_index s)), \<lambda>s. card (above_tip s)]"]])
  case (1 s)
  then obtain t \<theta> where pos: "position V s t \<theta>" and R: "R t (cs_view s)"
    by (auto simp: node_inv_def)
  then have inv: "chain_inv s" "threshold s \<theta>"
    by (simp_all add: position_def)
  obtain c s1 where f: "FindMostWorkChain s = Some (Some c, s1)" "rejects s s1" "c \<in> set (cs_candidates s1)"
    "complete (cs_index s1) c" "\<forall>p. complete (cs_index s1) p \<longrightarrow> \<not> work_less (cs_index s1) c p"
    using FindMostWorkChain_best [OF inv] by blast
  have pos1: "position V s1 t \<theta>"
    by (rule position_rejects [OF pos f(2)])
  then have tip1: "cs_Tip s1 = Some t"
    by (simp add: position_def)
  have sh1: "shrinks V s s1"
    by (rule rejects_shrinks [OF f(2)])
  have R1: "R t (cs_view s1)" "shape (cs_index s1) = k"
    using R f(2) 1(3) skel_shape [of "cs_index s1" "cs_index s"] by (simp_all add: rejects_def)
  show ?case
  proof (cases "c = t")
    case True
    then have "ActivateBestChain env s = Some (True, s1)"
      using f(1) tip1 by (subst ActivateBestChain.simps) simp
    moreover have "tip_is_best s1"
      using tip_is_bestI [OF pos1] f(5) True by blast
    ultimately show ?thesis
      using pos1 sh1 R1(1) by (auto simp: best_position_def)
  next
    case False
    obtain ok s2 where q: "ActivateBestChainStep env c s1 = Some (ok, s2)" "step_post R V t c s1 ok s2"
      "storage_ok env R k \<longrightarrow> ok"
      using ActivateBestChainStep_result [OF env pos1 R1 f(4)] by blast
    then obtain t2 \<theta>2 where pos2: "position V s2 t2 \<theta>2" "shrinks V s1 s2"
      "ok \<longrightarrow> t2 = c \<or> good (cs_index s2) \<subset> good (cs_index s1) \<or>
        good (cs_index s2) = good (cs_index s1) \<and> work_of (cs_index s1) t < work_of (cs_index s1) t2"
      "ok \<longrightarrow> R t2 (cs_view s2)"
      by (auto simp: step_post_def)
    then have tip2: "cs_Tip s2 = Some t2"
      by (simp add: position_def)
    have sh2: "shrinks V s s2"
      by (rule shrinks_trans [OF sh1 pos2(2)])
    have skel: "skel (cs_index s2) = skel (cs_index s1)"
      using pos2(2) by (simp add: shrinks_def)
    consider "\<not> ok" | "ok" "t2 = c" | "ok" "t2 \<noteq> c"
      by blast
    then show ?thesis
    proof cases
      case 1
      then have "ActivateBestChain env s = Some (False, s2)"
        using f(1) tip1 False q(1) by (subst ActivateBestChain.simps) simp
      then show ?thesis
        using pos2(1) sh2 q(3) 1 by (auto simp: best_position_def)
    next
      case 2
      then have "ActivateBestChain env s = Some (ne_flush env (cs_view s2), s2)"
        using f(1) tip1 False q(1) tip2 by (subst ActivateBestChain.simps) simp
      moreover have "\<not> work_less (cs_index s2) t2 p" if "complete (cs_index s2) p" for p
        using f(5) pos2(2) that 2(2) unfolding skel_work_less [OF skel] shrinks_def by blast
      then have "tip_is_best s2"
        by (rule tip_is_bestI [OF pos2(1)])
      ultimately show ?thesis
        using pos2(1,4) sh2 2(1) by (auto simp: best_position_def storage_ok_def)
    next
      case 3
      have fin: "finite (good (cs_index s))"
        using chain_inv_tree(3) [OF inv(1)] by (rule rev_finite_subset) (auto simp: good_def)
      have sub: "good (cs_index s1) \<subseteq> good (cs_index s)" "good (cs_index s2) \<subseteq> good (cs_index s1)"
        using sh1 pos2(2) by (simp_all add: shrinks_def)
      have "(s2, s) \<in> measures [\<lambda>s. card (good (cs_index s)), \<lambda>s. card (above_tip s)]"
      proof (cases "good (cs_index s2) = good (cs_index s)")
        case True
        then have "work_of (cs_index s1) t < work_of (cs_index s1) t2"
          using 3 pos2(3) sub by blast
        then have "work_of (cs_index s) t < work_of (cs_index s) t2"
          using skel_work_of f(2) by (metis rejects_def)
        then have "card (above_tip s2) < card (above_tip s)"
          by (rule above_tip_less [OF pos pos2(1) sh2])
        then show ?thesis
          using True by simp
      next
        case False
        then have "card (good (cs_index s2)) < card (good (cs_index s))"
          using sub fin by (meson psubsetI psubset_card_mono subset_trans)
        then show ?thesis
          by simp
      qed
      then obtain ok' s' where r: "ActivateBestChain env s2 = Some (ok', s')" "best_position R V s2 ok' s'"
        "storage_ok env R k \<longrightarrow> ok'"
        using 1(1) [of s2] pos2(1,4) 3(1) skel_shape [OF skel] R1(2) unfolding node_inv_def by auto
      have "ActivateBestChain env s = Some (ok', s')"
        using f(1) tip1 False q(1) tip2 3 r(1) by (subst ActivateBestChain.simps) simp
      then show ?thesis
        using r(2,3) shrinks_trans [OF sh2, of s'] by (auto simp: best_position_def)
    qed
  qed
qed

end
