(* ===== verification/ChainInvalid.thy ===== *)
theory ChainInvalid
  imports ChainActivate
begin

unbundle bit_operations_syntax

text \<open>
  Invalidating a block by hand: \<open>InvalidateBlock\<close>. While it runs the tip is a block that counts as
  failed, so what holds in between is weaker than the invariant: the active chain is the chain of
  some block. At the end the block is off the active chain, nothing else has lost its standing, and
  everything that is not below the new tip is a candidate again.
\<close>

section \<open>While blocks are taken off\<close>

definition walk_inv :: "'v chainstate \<Rightarrow> ptr \<Rightarrow> bool" where
  "walk_inv s t \<longleftrightarrow> tree_inv (cs_index s) \<and> t \<in> dom (cs_index s) \<and> cs_active s = chain_of (cs_index s) t \<and>
     sorted_wrt (work_less (cs_index s)) (cs_candidates s) \<and>
     (\<forall>c \<in> set (cs_candidates s). c \<in> dom (cs_index s) \<and> received (cs_index s) c) \<and>
     (\<forall>b. cs_best_invalid s = Some b \<longrightarrow> b \<in> dom (cs_index s))"

lemma walk_inv_tree:
  assumes "walk_inv s t"
  shows "block_tree (cs_index s)" "sized (cs_index s) = dom (cs_index s)" "chain_ok (cs_index s) (cs_active s)"
    "cs_Tip s = Some t" "set (cs_candidates s) \<subseteq> sized (cs_index s)"
  using assms unfolding walk_inv_def tree_inv_def chain_ok_def cs_Tip_def by auto

lemma chain_inv_walk: "chain_inv s \<Longrightarrow> cs_Tip s = Some t \<Longrightarrow> walk_inv s t"
proof -
  assume s: "chain_inv s" "cs_Tip s = Some t"
  obtain u where "cs_Tip s = Some u" "complete (cs_index s) u" "cs_active s = chain_of (cs_index s) u"
    using s(1) by (rule chain_inv_tip)
  then show ?thesis
    using s complete_dom unfolding chain_inv_def walk_inv_def by simp
qed

lemma walk_chain_inv: "walk_inv s t \<Longrightarrow> complete (cs_index s) t \<Longrightarrow> chain_inv s"
  unfolding chain_inv_def walk_inv_def by blast

text \<open>What invalidating \<open>p\<close> takes away: exactly the blocks above \<open>p\<close> are no longer complete.\<close>

definition fails :: "ptr \<Rightarrow> index_heap \<Rightarrow> index_heap \<Rightarrow> bool" where
  "fails p h h' \<longleftrightarrow> skel h' = skel h \<and> (\<forall>x. complete h' x \<longleftrightarrow> complete h x \<and> (\<forall>n. up h n x \<noteq> Some p)) \<and>
     (\<forall>x bi bi'. h x = Some bi \<longrightarrow> h' x = Some bi' \<longrightarrow> bi_nStatus bi' AND BLOCK_VALID_MASK = bi_nStatus bi AND BLOCK_VALID_MASK)"

lemma keep_bits: "(x OR f) AND m = (x AND m) OR (f AND m)" for x :: "32 word"
  by (rule bit.conj_disj_distrib2)

lemma mark_flags:
  assumes "f = BLOCK_FAILED_VALID \<or> f = BLOCK_FAILED_CHILD"
  shows "is_failed (bi\<lparr>bi_nStatus := bi_nStatus bi OR f\<rparr>)"
    and "has_data (bi\<lparr>bi_nStatus := bi_nStatus bi OR f\<rparr>) = has_data bi"
    and "(bi_nStatus bi OR f) AND BLOCK_VALID_MASK = bi_nStatus bi AND BLOCK_VALID_MASK"
  using assms is_failed_or_valid is_failed_or_child by (auto simp: has_data_def keep_bits BLOCK_VALID_MASK_def)

text \<open>Flagging a block, marking it dirty and erasing it from the candidates.\<close>

lemma mark_walk:
  assumes "walk_inv s t" and "cs_index s q = Some bi" and "f = BLOCK_FAILED_VALID \<or> f = BLOCK_FAILED_CHILD"
  defines "s' \<equiv> erase_candidate q (mark_dirty q (set_entry q (bi\<lparr>bi_nStatus := bi_nStatus bi OR f\<rparr>) s))"
  shows "walk_inv s' t"
    and "cs_index s' = (cs_index s)(q \<mapsto> bi\<lparr>bi_nStatus := bi_nStatus bi OR f\<rparr>)"
    and "skel (cs_index s') = skel (cs_index s)"
    and "cs_map s' = cs_map s"
proof -
  let ?h = "cs_index s" and ?bi = "bi\<lparr>bi_nStatus := bi_nStatus bi OR f\<rparr>"
  let ?h' = "?h(q \<mapsto> ?bi)"
  show idx: "cs_index s' = ?h'" and "cs_map s' = cs_map s"
    by (simp_all add: s'_def erase_candidate_def mark_dirty_def set_entry_def)
  have skel: "skel ?h' = skel ?h"
    by (rule skel_update) (simp_all add: assms(2))
  then show "skel (cs_index s') = skel (cs_index s)"
    by (simp add: idx)
  have other: "cs_active s' = cs_active s" "cs_best_invalid s' = cs_best_invalid s"
    "cs_candidates s' = std_erase (work_less ?h') q (cs_candidates s)"
    by (simp_all add: s'_def erase_candidate_def mark_dirty_def set_entry_def)
  have q: "q \<in> sized ?h"
    using walk_inv_tree(2) [OF assms(1)] assms(2) by blast
  have sorted: "sorted_wrt (work_less ?h) (cs_candidates s)"
    using assms(1) by (simp add: walk_inv_def)
  have cands: "set (cs_candidates s') = set (cs_candidates s) - {q}" "sorted_wrt (work_less ?h) (cs_candidates s')"
    using cand.set_erase [OF walk_inv_tree(5) [OF assms(1)] q sorted] cand.sorted_erase [OF walk_inv_tree(5) [OF assms(1)] q sorted]
    by (simp_all add: other(3) skel_work_less [OF skel])
  have rec: "received ?h' c" if "received ?h c" for c
    by (rule skel_received [OF skel [symmetric] that])
  show "walk_inv s' t"
    unfolding walk_inv_def idx other(1,2) skel_dom [OF skel] skel_chain_of [OF skel] skel_work_less [OF skel]
    using assms(1) skel_tree_inv [OF skel] cands rec unfolding walk_inv_def by auto
qed

lemma fails_first:
  assumes "h p = Some bi" and "skel (h(p \<mapsto> bi\<lparr>bi_nStatus := bi_nStatus bi OR BLOCK_FAILED_VALID\<rparr>)) = skel h"
  shows "fails p h (h(p \<mapsto> bi\<lparr>bi_nStatus := bi_nStatus bi OR BLOCK_FAILED_VALID\<rparr>))"
  using complete_mark_valid_failed [OF assms is_failed_or_valid] mark_flags [of BLOCK_FAILED_VALID bi] assms
  unfolding fails_def by auto

lemma fails_more:
  assumes "fails p h h1" and "up h n q = Some p" and "h1 q = Some bi"
  shows "fails p h (h1(q \<mapsto> bi\<lparr>bi_nStatus := bi_nStatus bi OR BLOCK_FAILED_CHILD\<rparr>))"
proof -
  let ?h = "h1(q \<mapsto> bi\<lparr>bi_nStatus := bi_nStatus bi OR BLOCK_FAILED_CHILD\<rparr>)"
  have skel: "skel ?h = skel h1"
    by (rule skel_update) (simp_all add: assms(3))
  have "\<not> complete h1 q"
    using assms(1,2) unfolding fails_def by blast
  then have "complete ?h x = complete h1 x" for x
    by (rule complete_mark_failed [OF assms(3) skel _ is_failed_or_child])
  then show ?thesis
    using assms(1,3) mark_flags(3) [of BLOCK_FAILED_CHILD bi] skel unfolding fails_def by auto
qed


lemma DisconnectTip_walk:
  assumes "walk_inv s t" and "cs_index s t = Some bi" and "bi_pprev bi = Some q"
  shows "\<exists>ok s'. DisconnectTip env s = Some (ok, s') \<and> cs_index s' = cs_index s \<and> cs_map s' = cs_map s \<and>
    walk_inv s' (if ok then q else t)"
proof (cases "ne_disconnect env (cs_index s) t (cs_view s)")
  case None
  then have "DisconnectTip env s = Some (False, s)"
    using assms walk_inv_tree(4) [OF assms(1)] by (simp add: DisconnectTip_def)
  then show ?thesis
    using assms(1) by auto
next
  case (Some v)
  have "up (cs_index s) 1 t = Some q"
    using assms(2,3) by simp
  then obtain bq where q: "cs_index s q = Some bq"
    using up_dom [OF walk_inv_tree(1) [OF assms(1)], of t 1 q] assms(2) by blast
  have tip: "SetTip (cs_index s) (cs_active s) (Some q) = Some (chain_of (cs_index s) q)"
    by (rule SetTip_chain_of [OF walk_inv_tree(1,3) [OF assms(1)] q])
  show ?thesis
  proof (cases "ne_flush env v")
    case True
    then have "DisconnectTip env s = Some (True, s\<lparr>cs_view := v, cs_active := chain_of (cs_index s) q\<rparr>)"
      using Some assms(2,3) walk_inv_tree(4) [OF assms(1)] tip by (simp add: DisconnectTip_def UpdateTip_def Let_def)
    moreover have "walk_inv (s\<lparr>cs_view := v, cs_active := chain_of (cs_index s) q\<rparr>) q"
      using assms(1) q by (auto simp: walk_inv_def)
    ultimately show ?thesis
      by auto
  next
    case False
    then have "DisconnectTip env s = Some (False, s\<lparr>cs_view := v\<rparr>)"
      using Some assms(2,3) walk_inv_tree(4) [OF assms(1)] by (simp add: DisconnectTip_def Let_def)
    moreover have "walk_inv (s\<lparr>cs_view := v\<rparr>) t"
      using assms(1) by (simp add: walk_inv_def)
    ultimately show ?thesis
      by auto
  qed
qed

lemma invalidate_loop_out:
  assumes "walk_inv s t" and "cs_index s p = Some bi" and "Some p \<notin> set (cs_active s)"
  shows "invalidate_loop env p s = Some (True, s)"
  using chain_Contains_member [OF walk_inv_tree(1,3) [OF assms(1)] assms(2)] assms(3)
  by (subst invalidate_loop.simps) simp

lemma parent_chain:
  assumes "block_tree h" and "h p = Some bi" and "bi_pprev bi = Some q"
  shows "Some p \<notin> set (chain_of h q)"
proof
  assume "Some p \<in> set (chain_of h q)"
  then obtain n where n: "n \<le> height_of h q" "up h n q = Some p"
    unfolding chain_of_member by blast
  have "up h 1 p = Some q"
    using assms(2,3) by simp
  then obtain b where "h q = Some b"
    using up_dom [OF assms(1), of p 1 q] assms(2) by blast
  then have "height_of h p = height_of h q - n"
    using up_Some [OF assms(1) _ n(1)] n(2) by auto
  moreover have "height_of h p = Suc (height_of h q)"
    using assms(1,2) by (cases rule: block_tree_cases) (use assms(3) in auto)
  ultimately show False
    by simp
qed

lemma fails_skel: "fails p h h' \<Longrightarrow> skel h' = skel h"
  by (simp add: fails_def)

lemma invalidate_loop_step:
  assumes "walk_inv s t" and "fails p h (cs_index s)" and "up h n t = Some p" and "h t = Some bt" and "bi_pprev bt = Some q"
    and "disconnect_coins env R (shape h)" and "R t (cs_view s)"
  shows "\<exists>ok s1. invalidate_loop env p s = (if ok then invalidate_loop env p s1 else Some (False, s1)) \<and>
    walk_inv s1 (if ok then q else t) \<and> fails p h (cs_index s1) \<and> cs_map s1 = cs_map s \<and>
    (ok \<longrightarrow> R q (cs_view s1)) \<and> (storage_ok env R (shape h) \<longrightarrow> ok)"
proof -
  note tree = walk_inv_tree [OF assms(1)]
  note skel = fails_skel [OF assms(2)]
  obtain bi where bi: "cs_index s t = Some bi" "bi_pprev bi = Some q"
    using skel_Some [OF skel assms(4)] assms(5) by metis
  have up: "up (cs_index s) n t = Some p"
    unfolding skel_up [OF skel] by (rule assms(3))
  then obtain bp where bp: "cs_index s p = Some bp"
    using up_dom [OF tree(1) _ up] bi(1) by blast
  have "n \<le> height_of (cs_index s) t"
    using up_None [OF tree(1) bi(1), of n] up by (metis not_le option.distinct(1))
  then have "Some p \<in> set (chain_of (cs_index s) t)"
    using up unfolding chain_of_member by blast
  then have on: "chain_Contains (cs_index s) (cs_active s) p = Some True"
    using chain_Contains_member [OF tree(1,3) bp] assms(1) by (simp add: walk_inv_def)
  let ?bi = "bi\<lparr>bi_nStatus := bi_nStatus bi OR BLOCK_FAILED_CHILD\<rparr>"
  let ?s = "erase_candidate t (mark_dirty t (set_entry t ?bi s))"
  have m: "walk_inv ?s t" "cs_index ?s = (cs_index s)(t \<mapsto> ?bi)" "cs_map ?s = cs_map s"
    using mark_walk [OF assms(1) bi(1), of BLOCK_FAILED_CHILD] by simp_all
  have f: "fails p h (cs_index ?s)"
    unfolding m(2) by (rule fails_more [OF assms(2,3) bi(1)])
  have bt': "cs_index ?s t = Some ?bi"
    by (simp add: m(2))
  obtain ok s1 where s1: "DisconnectTip env ?s = Some (ok, s1)" "cs_index s1 = cs_index ?s" "cs_map s1 = cs_map ?s"
    "walk_inv s1 (if ok then q else t)"
    using DisconnectTip_walk [OF m(1) bt', of q env] bi(2) by auto
  have view: "shape (cs_index ?s) = shape h" "R t (cs_view ?s)" "bi_pprev ?bi = Some q"
    using skel_shape [OF fails_skel [OF f]] assms(7) bi(2) by (simp_all add: erase_candidate_def mark_dirty_def set_entry_def)
  have R: "ok \<Longrightarrow> R q (cs_view s1)" "storage_ok env R (shape h) \<Longrightarrow> ok"
    using DisconnectTip_view [where R = R, OF s1(1) walk_inv_tree(4) [OF m(1)] bt' view(3)] assms(6) view(1,2) by simp_all
  have "invalidate_loop env p s = (if ok then invalidate_loop env p s1 else Some (False, s1))"
    using on tree(4) bi(1) s1(1) by (subst invalidate_loop.simps) (simp add: add_status_def)
  moreover have "fails p h (cs_index s1)" "cs_map s1 = cs_map s"
    using s1(2,3) f m(3) by simp_all
  ultimately show ?thesis
    using s1(4) R by blast
qed

text \<open>Taking the blocks down to \<open>p\<close> off the chain ends at the parent of \<open>p\<close>.\<close>

lemma invalidate_loop_result:
  assumes "block_tree h" and "h p = Some bp" and "bi_pprev bp = Some q"
    and coins: "disconnect_coins env R (shape h)"
  shows "walk_inv s t \<Longrightarrow> fails p h (cs_index s) \<Longrightarrow> up h n t = Some p \<Longrightarrow> R t (cs_view s) \<Longrightarrow>
    \<exists>ok s'. invalidate_loop env p s = Some (ok, s') \<and> (storage_ok env R (shape h) \<longrightarrow> ok) \<and>
      (ok \<longrightarrow> walk_inv s' q \<and> fails p h (cs_index s') \<and> cs_map s' = cs_map s \<and> R q (cs_view s'))"
proof (induction n arbitrary: s t)
  case 0
  then have "t = p"
    by simp
  then obtain ok s1 where s1: "invalidate_loop env p s = (if ok then invalidate_loop env p s1 else Some (False, s1))"
    "walk_inv s1 (if ok then q else t)" "fails p h (cs_index s1)" "cs_map s1 = cs_map s"
    "ok \<longrightarrow> R q (cs_view s1)" "storage_ok env R (shape h) \<longrightarrow> ok"
    using invalidate_loop_step [where R = R, OF 0(1-3) _ assms(3) coins 0(4)] assms(2) by blast
  show ?case
  proof (cases ok)
    case True
    then have w: "walk_inv s1 q"
      using s1(2) by simp
    note skel = fails_skel [OF s1(3)]
    obtain b where "cs_index s1 p = Some b"
      using skel_Some [OF skel assms(2)] by metis
    moreover have "Some p \<notin> set (cs_active s1)"
      using parent_chain [OF assms(1-3)] w skel_chain_of [OF skel] by (simp add: walk_inv_def)
    ultimately have "invalidate_loop env p s1 = Some (True, s1)"
      using invalidate_loop_out [OF w] by blast
    then show ?thesis
      using s1 w True by auto
  qed (use s1 in auto)
next
  case (Suc n)
  obtain bt q' where t: "h t = Some bt" "bi_pprev bt = Some q'" "up h n q' = Some p"
    using Suc.prems(3) by (auto split: option.splits)
  obtain ok s1 where s1: "invalidate_loop env p s = (if ok then invalidate_loop env p s1 else Some (False, s1))"
    "walk_inv s1 (if ok then q' else t)" "fails p h (cs_index s1)" "cs_map s1 = cs_map s"
    "ok \<longrightarrow> R q' (cs_view s1)" "storage_ok env R (shape h) \<longrightarrow> ok"
    using invalidate_loop_step [where R = R, OF Suc.prems(1-3) t(1,2) coins Suc.prems(4)] by blast
  show ?case
  proof (cases ok)
    case True
    then show ?thesis
      using Suc.IH [of s1 q'] s1 t(3) by auto
  qed (use s1 in auto)
qed

section \<open>Adding candidates again\<close>

text \<open>What every entry satisfies apart from the candidates: counted blocks have counted ancestors,
  and complete blocks were checked with their transactions.\<close>

definition counted_inv :: "index_heap \<Rightarrow> bool" where
  "counted_inv h \<longleftrightarrow>
     (\<forall>p bi. h p = Some bi \<longrightarrow> bi_nChainTx bi \<noteq> 0 \<longrightarrow> received h p) \<and>
     (\<forall>p bi. h p = Some bi \<longrightarrow> complete h p \<longrightarrow>
        bi_nChainTx bi \<noteq> 0 \<and> BLOCK_VALID_TRANSACTIONS \<le> bi_nStatus bi AND BLOCK_VALID_MASK)"

definition readd :: "index_heap \<Rightarrow> ptr \<Rightarrow> ptr \<Rightarrow> bool" where
  "readd h t p \<longleftrightarrow> (\<exists>bi. h p = Some bi \<and> \<not> is_failed bi \<and>
     BLOCK_VALID_TRANSACTIONS \<le> bi_nStatus bi AND BLOCK_VALID_MASK \<and> bi_nChainTx bi \<noteq> 0 \<and> \<not> work_less h p t)"

lemma IsValid_transactions:
  "IsValid bi BLOCK_VALID_TRANSACTIONS =
     Some (\<not> is_failed bi \<and> BLOCK_VALID_TRANSACTIONS \<le> bi_nStatus bi AND BLOCK_VALID_MASK)"
  by (simp add: IsValid_def is_failed_def BLOCK_VALID_MASK_def)

lemma readd_loop_result:
  assumes "\<And>p bi. h p = Some bi \<Longrightarrow> bi_nChainTx bi \<noteq> 0 \<Longrightarrow> received h p"
  shows "walk_inv s t \<Longrightarrow> cs_index s = h \<Longrightarrow> set ps \<subseteq> dom h \<Longrightarrow>
    \<exists>cs. readd_loop ps s = Some (s\<lparr>cs_candidates := cs\<rparr>) \<and> walk_inv (s\<lparr>cs_candidates := cs\<rparr>) t \<and>
      set cs = set (cs_candidates s) \<union> {p \<in> set ps. readd h t p}"
proof (induction ps arbitrary: s)
  case Nil
  then show ?case
    by (intro exI [of _ "cs_candidates s"]) simp
next
  case (Cons p ps)
  obtain bi where bi: "h p = Some bi"
    using Cons.prems(3) by auto
  define c where "c = readd h t p"
  define cs1 where "cs1 = (if c then std_insert (work_less h) p (cs_candidates s) else cs_candidates s)"
  note tree = walk_inv_tree [OF Cons.prems(1), unfolded Cons.prems(2)]
  have p: "p \<in> sized h"
    using tree(2) bi by blast
  have sorted: "sorted_wrt (work_less h) (cs_candidates s)"
    using Cons.prems(1,2) by (simp add: walk_inv_def)
  have set: "set cs1 = set (cs_candidates s) \<union> (if c then {p} else {})" "sorted_wrt (work_less h) cs1"
    using cand.set_insert [OF tree(5) p] cand.sorted_insert [OF tree(5) p sorted] sorted by (simp_all add: cs1_def)
  have "received h p" if c
    using that assms bi by (auto simp: c_def readd_def)
  then have w: "walk_inv (s\<lparr>cs_candidates := cs1\<rparr>) t"
    using Cons.prems(1,2) set bi by (auto simp: walk_inv_def)
  then obtain cs where cs: "readd_loop ps (s\<lparr>cs_candidates := cs1\<rparr>) = Some (s\<lparr>cs_candidates := cs\<rparr>)"
    "walk_inv (s\<lparr>cs_candidates := cs\<rparr>) t" "set cs = set cs1 \<union> {p \<in> set ps. readd h t p}"
    using Cons.IH [OF w] Cons.prems(2,3) by auto
  have "c = (\<not> is_failed bi \<and> BLOCK_VALID_TRANSACTIONS \<le> bi_nStatus bi AND BLOCK_VALID_MASK \<and> bi_nChainTx bi \<noteq> 0 \<and> \<not> work_less h p t)"
    using bi by (simp add: c_def readd_def)
  then have "readd_loop (p # ps) s = readd_loop ps (s\<lparr>cs_candidates := cs1\<rparr>)"
    using Cons.prems(2) bi tree(4) by (simp add: IsValid_transactions cs1_def insert_candidate_def)
  then show ?case
    using cs set(1) by (intro exI [of _ cs]) (auto simp: c_def)
qed


section \<open>Invalidating a block\<close>

lemma fails_counted:
  assumes "fails p h h'" and "counted_inv h"
  shows "\<And>x bi. h' x = Some bi \<Longrightarrow> bi_nChainTx bi \<noteq> 0 \<Longrightarrow> received h' x"
    and "\<And>x bi. h' x = Some bi \<Longrightarrow> complete h' x \<Longrightarrow>
        bi_nChainTx bi \<noteq> 0 \<and> BLOCK_VALID_TRANSACTIONS \<le> bi_nStatus bi AND BLOCK_VALID_MASK"
proof -
  note skel = fails_skel [OF assms(1)]
  fix x bi
  assume x: "h' x = Some bi"
  obtain b where b: "h x = Some b" "bi_nChainTx b = bi_nChainTx bi"
    using skel_Some [OF skel [symmetric] x] by metis
  show "received h' x" if "bi_nChainTx bi \<noteq> 0"
    using skel_received [OF skel [symmetric]] assms(2) b that unfolding counted_inv_def by metis
  show "bi_nChainTx bi \<noteq> 0 \<and> BLOCK_VALID_TRANSACTIONS \<le> bi_nStatus bi AND BLOCK_VALID_MASK" if c: "complete h' x"
  proof -
    have "complete h x" "bi_nStatus bi AND BLOCK_VALID_MASK = bi_nStatus b AND BLOCK_VALID_MASK"
      using assms(1) c x b(1) unfolding fails_def by blast+
    then show ?thesis
      using assms(2) b unfolding counted_inv_def by metis
  qed
qed

lemma InvalidateBlock_result:
  assumes pos: "position V s t \<theta>" and "counted_inv (cs_index s)" and "set (cs_map s) = dom (cs_index s)"
    and p: "cs_index s p = Some bi" "bi_pprev bi = Some q"
    and coins: "disconnect_coins env R (shape (cs_index s))" and R: "R t (cs_view s)"
  defines "new \<equiv> (if Some p \<in> set (cs_active s) then q else t)"
  shows "\<exists>ok s'. InvalidateBlock env p s = Some (ok, s') \<and> (storage_ok env R (shape (cs_index s)) \<longrightarrow> ok) \<and>
    (ok \<longrightarrow> Some p \<notin> set (cs_active s') \<and> fails p (cs_index s) (cs_index s') \<and>
      position V s' new new \<and> R new (cs_view s'))"
proof -
  let ?h = "cs_index s" and ?bi = "bi\<lparr>bi_nStatus := bi_nStatus bi OR BLOCK_FAILED_VALID\<rparr>"
  let ?s = "erase_candidate p (mark_dirty p (set_entry p ?bi s))"
  have inv: "chain_inv s" "cs_Tip s = Some t" "verified V ?h t"
    using pos by (simp_all add: position_def)
  note tree = chain_inv_tree [OF inv(1)]
  note w = chain_inv_walk [OF inv(1,2)]
  have m: "walk_inv ?s t" "cs_index ?s = ?h(p \<mapsto> ?bi)" "skel (cs_index ?s) = skel ?h" "cs_map ?s = cs_map s"
    using mark_walk [OF w p(1), of BLOCK_FAILED_VALID] by simp_all
  have f: "fails p ?h (cs_index ?s)"
    using fails_first [of ?h p bi] p(1) m(3) unfolding m(2) by blast
  have t: "complete ?h t" "cs_active s = chain_of ?h t"
    using chain_inv_tip [OF inv(1)] inv(2) by (metis option.inject)+
  have Rs: "R t (cs_view ?s)"
    using R by (simp add: erase_candidate_def mark_dirty_def set_entry_def)
  have on: "Some p \<in> set (cs_active s) \<longleftrightarrow> (\<exists>n. up ?h n t = Some p)"
  proof -
    obtain bt where "?h t = Some bt"
      using complete_dom [OF t(1)] by blast
    then have "n \<le> height_of ?h t" if "up ?h n t = Some p" for n
      using up_None [OF tree(1), of t bt n] that by (metis not_le option.distinct(1))
    then show ?thesis
      unfolding t(2) chain_of_member by blast
  qed
  have "\<exists>ok s1. invalidate_loop env p ?s = Some (ok, s1) \<and> (storage_ok env R (shape ?h) \<longrightarrow> ok) \<and>
      (ok \<longrightarrow> walk_inv s1 new \<and> fails p ?h (cs_index s1) \<and> cs_map s1 = cs_map s \<and> complete (cs_index s1) new \<and>
        verified V ?h new \<and> Some p \<notin> set (cs_active s1) \<and> R new (cs_view s1))"
  proof (cases "\<exists>n. up ?h n t = Some p")
    case True
    then have new: "new = q"
      using on by (simp add: new_def)
    obtain n where n: "up ?h n t = Some p"
      using True by blast
    obtain ok s1 where s1: "invalidate_loop env p ?s = Some (ok, s1)"
      "storage_ok env R (shape ?h) \<longrightarrow> ok"
      "ok \<longrightarrow> walk_inv s1 q \<and> fails p ?h (cs_index s1) \<and> cs_map s1 = cs_map ?s \<and> R q (cs_view s1)"
      using invalidate_loop_result [where R = R, OF tree(1) p coins m(1) f n Rs] by blast
    have uq: "up ?h (n + 1) t = Some q"
      using n p by (simp add: up_add del: add_Suc_right)
    have "?h q \<noteq> None"
      using up_dom [OF tree(1) _ uq] complete_dom [OF t(1)] by blast
    then have "complete ?h q"
      by (rule complete_up [of ?h t "n + 1" q, OF t(1) uq])
    have not_p: "up ?h m q \<noteq> Some p" for m
    proof
      assume "up ?h m q = Some p"
      then have "m \<le> height_of ?h q"
        using up_None [OF tree(1), of q _ m] \<open>?h q \<noteq> None\<close> by (metis not_le not_None_eq)
      then show False
        using parent_chain [OF tree(1) p] \<open>up ?h m q = Some p\<close> unfolding chain_of_member by blast
    qed
    have "complete (cs_index s1) q" "Some p \<notin> set (cs_active s1)" if ok
    proof -
      have "fails p ?h (cs_index s1)" "walk_inv s1 q"
        using s1(3) that by simp_all
      then show "complete (cs_index s1) q" "Some p \<notin> set (cs_active s1)"
        using \<open>complete ?h q\<close> not_p parent_chain [OF tree(1) p] skel_chain_of [OF fails_skel, of p ?h "cs_index s1" q]
        by (auto simp: fails_def walk_inv_def)
    qed
    then show ?thesis
      using s1 m(4) verified_up [OF inv(3) uq] unfolding new by (intro exI [of _ ok] exI [of _ s1]) simp
  next
    case False
    then have new: "new = t"
      using on by (simp add: new_def)
    have off: "Some p \<notin> set (cs_active ?s)"
      using False m(1) skel_chain_of [OF m(3)] unfolding walk_inv_def chain_of_member by (metis chain_of_member)
    have "invalidate_loop env p ?s = Some (True, ?s)"
      using invalidate_loop_out [OF m(1) _ off] m(2) by simp
    moreover have "complete (cs_index ?s) t"
      using f t(1) False unfolding fails_def by blast
    ultimately show ?thesis
      using m(1,4) f off inv(3) Rs unfolding new by blast
  qed
  then obtain ok s1 where s1: "invalidate_loop env p ?s = Some (ok, s1)"
    "ok \<longrightarrow> walk_inv s1 new \<and> fails p ?h (cs_index s1) \<and> cs_map s1 = cs_map s \<and> complete (cs_index s1) new \<and>
      verified V ?h new \<and> Some p \<notin> set (cs_active s1) \<and> R new (cs_view s1)"
    and ok: "storage_ok env R (shape ?h) \<longrightarrow> ok"
    by blast
  show ?thesis
  proof (cases ok)
    case False
    then show ?thesis
      using s1(1) p(1) ok by (auto simp: InvalidateBlock_def add_status_def)
  next
    case True
    then have s1': "walk_inv s1 new" "fails p ?h (cs_index s1)" "cs_map s1 = cs_map s" "complete (cs_index s1) new"
      "verified V ?h new" "Some p \<notin> set (cs_active s1)" "R new (cs_view s1)"
      using s1(2) by simp_all
    note skel = fails_skel [OF s1'(2)]
    note counted = fails_counted [OF s1'(2) assms(2)]
    have "set (cs_map s1) \<subseteq> dom (cs_index s1)"
      using s1'(3) assms(3) skel_dom [OF skel] by simp
    then obtain cs where cs: "readd_loop (cs_map s1) s1 = Some (s1\<lparr>cs_candidates := cs\<rparr>)"
      "walk_inv (s1\<lparr>cs_candidates := cs\<rparr>) new"
      "set cs = set (cs_candidates s1) \<union> {p \<in> set (cs_map s1). readd (cs_index s1) new p}"
      using readd_loop_result [of "cs_index s1" s1 new "cs_map s1"] counted(1) s1'(1) by blast
    let ?s2 = "s1\<lparr>cs_candidates := cs\<rparr>"
    have inv2: "chain_inv ?s2"
      using walk_chain_inv [OF cs(2)] s1'(4) by simp
    have "x \<in> set cs" if x: "complete (cs_index s1) x" "\<not> work_less (cs_index s1) x new" for x
    proof -
      obtain bx where bx: "cs_index s1 x = Some bx"
        using complete_dom [OF x(1)] by blast
      then have "readd (cs_index s1) new x"
        using x counted(2) [OF bx x(1)] complete_self [OF x(1) bx] by (simp add: readd_def)
      moreover have "x \<in> set (cs_map s1)"
        using s1'(3) assms(3) skel_dom [OF skel] bx by auto
      ultimately show ?thesis
        using cs(3) by simp
    qed
    then have "position V ?s2 new new"
      using inv2 walk_inv_tree(4) [OF cs(2)] s1'(4,5) skel_verified [OF skel] by (simp add: position_def threshold_def)
    moreover have "p \<in> dom (cs_index ?s2)"
      using p(1) skel_dom [OF skel] by auto
    moreover obtain s' where s': "note_invalid p ?s2 = Some s'" "rejects ?s2 s'" "cs_index s' = cs_index ?s2"
      using rejects_note [OF inv2 \<open>p \<in> dom (cs_index ?s2)\<close>] by blast
    ultimately have pos': "position V s' new new"
      using position_rejects by blast
    then have "InvalidChainFound p ?s2 = Some s'"
      using s'(1) by (simp add: InvalidChainFound_def position_def)
    then have "InvalidateBlock env p s = Some (True, s')"
      using s1(1) True cs(1) p(1) by (simp add: InvalidateBlock_def add_status_def)
    moreover have "Some p \<notin> set (cs_active s')" "fails p ?h (cs_index s')"
      using s'(2,3) s1'(2,6) by (simp_all add: rejects_def)
    moreover have "R new (cs_view s')"
      using s'(2) s1'(7) by (simp add: rejects_def)
    ultimately show ?thesis
      using pos' True by blast
  qed
qed

end
