(* ===== verification/ChainReceive.thy ===== *)
theory ChainReceive
  imports ChainStateInv
begin

unbundle bit_operations_syntax

text \<open>
  Receiving the data of a block: \<open>ReceivedBlockTransactions\<close> counts the transactions of the chain
  up to the block, makes it a candidate unless it is below the tip, and goes on with the blocks that
  were waiting for it. What is kept: the invariant of the chain state, that no complete block that is
  not below the tip is missing from the candidates, and that the counters are the true numbers of
  transactions.
\<close>

section \<open>Counting transactions\<close>

definition tx_of :: "index_heap \<Rightarrow> ptr \<Rightarrow> nat" where
  "tx_of h p = (case h p of None \<Rightarrow> 0 | Some bi \<Rightarrow> unat (bi_nTx bi))"

definition chain_tx :: "index_heap \<Rightarrow> ptr \<Rightarrow> nat" where
  "chain_tx h p = (\<Sum>n\<le>height_of h p. case up h n p of None \<Rightarrow> 0 | Some q \<Rightarrow> tx_of h q)"

lemma chain_tx_parent:
  assumes "block_tree h" and "h p = Some bi" and "bi_pprev bi = Some q"
  shows "chain_tx h p = unat (bi_nTx bi) + chain_tx h q"
proof -
  have "height_of h p = Suc (height_of h q)"
    using assms(1,2) by (cases rule: block_tree_cases) (use assms(3) in auto)
  then show ?thesis
    using assms(2,3) unfolding chain_tx_def by (simp add: sum.atMost_Suc_shift tx_of_def del: sum.atMost_Suc)
qed

lemma chain_tx_cong:
  assumes "shape h' = shape h" and "\<And>n q. up h n p = Some q \<Longrightarrow> tx_of h' q = tx_of h q"
  shows "chain_tx h' p = chain_tx h p"
  unfolding chain_tx_def shape_height_of [OF assms(1)] shape_up [OF assms(1)]
  using assms(2) by (intro sum.cong) (auto split: option.split)

definition counted :: "index_heap \<Rightarrow> bool" where
  "counted h \<longleftrightarrow> (\<forall>p bi. h p = Some bi \<longrightarrow> bi_nChainTx bi \<noteq> 0 \<longrightarrow> received h p \<and> unat (bi_nChainTx bi) = chain_tx h p)"

definition fits :: "index_heap \<Rightarrow> bool" where
  "fits h \<longleftrightarrow> (\<forall>p \<in> dom h. chain_tx h p < 2 ^ 32)"

definition awaiting :: "index_heap \<Rightarrow> ptr \<Rightarrow> ptr \<Rightarrow> bool" where
  "awaiting h q r \<longleftrightarrow> (\<exists>bi. h r = Some bi \<and> bi_pprev bi = Some q \<and> bi_nChainTx bi = 0 \<and> bi_nTx bi \<noteq> 0)"

definition ready :: "index_heap \<Rightarrow> ptr \<Rightarrow> bool" where
  "ready h r \<longleftrightarrow> (\<exists>q b. awaiting h q r \<and> h q = Some b \<and> bi_nChainTx b \<noteq> 0)"

definition receive_inv :: "ptr list \<Rightarrow> 'v chainstate \<Rightarrow> ptr \<Rightarrow> bool" where
  "receive_inv queue s t \<longleftrightarrow> chain_inv s \<and> cs_Tip s = Some t \<and> threshold s t \<and>
     counted (cs_index s) \<and> fits (cs_index s) \<and>
     (\<forall>e \<in> set (cs_unlinked s). awaiting (cs_index s) (fst e) (snd e)) \<and>
     (\<forall>r \<in> set queue. ready (cs_index s) r) \<and>
     distinct (queue @ map snd (cs_unlinked s))"

text \<open>A block that waits for its parent is not counted, and nothing above it is.\<close>

lemma awaiting_not_received:
  assumes "block_tree h" and "awaiting h q r"
  shows "\<not> received h r"
proof
  assume "received h r"
  obtain bi where bi: "h r = Some bi" "bi_pprev bi = Some q" "bi_nChainTx bi = 0"
    using assms(2) by (auto simp: awaiting_def)
  have "up h 0 r = Some r"
    by simp
  then have "bi_nHeight bi = 0"
    using \<open>received h r\<close> bi unfolding received_def by blast
  moreover have "bi_nHeight bi \<noteq> 0"
    using assms(1) bi(1) by (cases rule: block_tree_cases) (use bi(2) in auto)
  ultimately show False
    by simp
qed

lemma received_parent:
  assumes "h p = Some bi" and "bi_pprev bi = Some q" and "received h q" and "bi_nChainTx bi \<noteq> 0"
  shows "received h p"
  unfolding received_def
proof (intro allI impI)
  fix n x b
  assume "up h n p = Some x" "h x = Some b"
  then show "bi_nChainTx b \<noteq> 0 \<or> bi_nHeight b = 0"
    using assms unfolding received_def by (cases n) auto
qed

section \<open>One block of the queue\<close>

lemma count_exact:
  assumes tree: "block_tree h" and "counted h" and "fits h" and r: "h r = Some bi" "bi_pprev bi = Some q"
    and q: "h q = Some b" "bi_nChainTx b \<noteq> 0"
  shows "unat (bi_nChainTx b + bi_nTx bi) = chain_tx h r" and "bi_nChainTx b + bi_nTx bi \<noteq> 0"
proof -
  have "unat (bi_nChainTx b) = chain_tx h q"
    using assms(2) q by (simp add: counted_def)
  then have "chain_tx h r = unat (bi_nTx bi) + unat (bi_nChainTx b)"
    using chain_tx_parent [OF tree r(1,2)] by simp
  moreover have "chain_tx h r < 2 ^ 32"
    using assms(3) r(1) by (auto simp: fits_def)
  ultimately have "unat (bi_nChainTx b + bi_nTx bi) = chain_tx h r" "0 < unat (bi_nChainTx b + bi_nTx bi)"
    using q(2) by (simp_all add: unat_add_lem [THEN iffD1] unat_gt_0)
  then show "unat (bi_nChainTx b + bi_nTx bi) = chain_tx h r" and "bi_nChainTx b + bi_nTx bi \<noteq> 0"
    by auto
qed

text \<open>Counting a ready block: it is the only block that becomes complete.\<close>

lemma count_ready:
  fixes sid :: "32 word"
  assumes tree: "block_tree h" and "counted h" and "fits h" and r: "h r = Some bi" "bi_pprev bi = Some q" "awaiting h q r"
    and q: "h q = Some b" "bi_nChainTx b \<noteq> 0"
  defines "h' \<equiv> h(r \<mapsto> bi\<lparr>bi_nChainTx := bi_nChainTx b + bi_nTx bi, bi_nSequenceId := sid\<rparr>)"
  shows "shape h' = shape h" and "received h x \<Longrightarrow> received h' x" and "received h' r"
    and "counted h'" and "fits h'" and "complete h x \<Longrightarrow> complete h' x" and "complete h' x \<Longrightarrow> complete h x \<or> x = r"
proof -
  let ?n = "bi_nChainTx b + bi_nTx bi"
  note n = count_exact [OF tree assms(2,3) r(1,2) q]
  show shape: "shape h' = shape h"
    using r(1) by (auto simp: h'_def shape_def fun_eq_iff)
  have q_rec: "received h q"
    using assms(2) q by (simp add: counted_def)
  have tx: "tx_of h' x = tx_of h x" for x
    using r(1) by (simp add: h'_def tx_of_def)
  have ctx: "chain_tx h' x = chain_tx h x" for x
    by (rule chain_tx_cong [OF shape tx])
  have not_r: "x \<noteq> r" if "received h x" for x
    using awaiting_not_received [OF tree r(3)] that by blast
  have up_not_r: "up h n x \<noteq> Some r" if "received h x" for n x
    using received_up [OF that] awaiting_not_received [OF tree r(3)] by blast
  show rec: "received h' x" if "received h x" for x
    using that up_not_r [OF that] unfolding received_def h'_def shape_up [OF shape [unfolded h'_def]] by auto
  show rec_r: "received h' r"
    by (rule received_parent [of _ r "bi\<lparr>bi_nChainTx := ?n, bi_nSequenceId := sid\<rparr>" q])
      (use r(2) n(2) rec [OF q_rec] in \<open>simp_all add: h'_def\<close>)
  show "counted h'"
    unfolding counted_def ctx
  proof (intro allI impI)
    fix p bp
    assume p: "h' p = Some bp" "bi_nChainTx bp \<noteq> 0"
    show "received h' p \<and> unat (bi_nChainTx bp) = chain_tx h p"
    proof (cases "p = r")
      case True
      then show ?thesis
        using p(1) rec_r n(1) by (auto simp: h'_def)
    next
      case False
      then show ?thesis
        using p assms(2) rec by (simp add: h'_def counted_def)
    qed
  qed
  show "fits h'"
    using assms(3) shape_dom [OF shape] by (simp add: fits_def ctx)
  have flags: "(\<forall>c. h' y = Some c \<longrightarrow> \<not> is_failed c \<and> has_data c) \<longleftrightarrow> (\<forall>c. h y = Some c \<longrightarrow> \<not> is_failed c \<and> has_data c)" for y
    using r(1) by (auto simp: h'_def is_failed_def has_data_def)
  have comp: "complete h' x \<longleftrightarrow> h x \<noteq> None \<and> received h' x \<and>
      (\<forall>n y c. up h n x = Some y \<longrightarrow> h y = Some c \<longrightarrow> \<not> is_failed c \<and> has_data c)" for x
    using flags by (simp only: complete_def shape_up [OF shape] shape_None [OF shape]) blast
  show "complete h' x" if c: "complete h x"
  proof -
    have "h x \<noteq> None" "received h x" "\<forall>n y c. up h n x = Some y \<longrightarrow> h y = Some c \<longrightarrow> \<not> is_failed c \<and> has_data c"
      using c unfolding complete_def by blast+
    then show ?thesis
      using rec comp by blast
  qed
  show "complete h x \<or> x = r" if c: "complete h' x"
  proof (cases "x = r")
    case False
    have "h x \<noteq> None"
      using c comp by blast
    then obtain bx where bx: "h x = Some bx" "h' x = Some bx"
      using False by (auto simp: h'_def)
    show ?thesis
    proof (cases "bi_nHeight bx = 0")
      case True
      have "up h n x = None" if "0 < n" for n
        using up_None [OF tree bx(1), of n] height_of_int [OF tree bx(1)] True that by simp
      then have "received h x"
        using bx(1) True unfolding received_def by (metis gr0I option.inject option.distinct(1) up.simps(1))
      then show ?thesis
        using c unfolding complete_def [of h] comp by blast
    next
      case False
      have "up h' 0 x = Some x"
        by simp
      then have "bi_nChainTx bx \<noteq> 0"
        using c bx(2) False unfolding complete_def received_def by blast
      then have "received h x"
        using assms(2) bx(1) by (simp add: counted_def)
      then show ?thesis
        using c unfolding complete_def [of h] comp by blast
    qed
  qed simp
qed


lemma shape_work: "shape h' = shape h \<Longrightarrow> work_of h' p = work_of h p"
  by (drule fun_cong [of _ _ p]) (auto simp: shape_def work_of_def split: option.splits)

lemma receive_step:
  assumes inv: "receive_inv (r # queue) s t"
  shows "\<exists>bi nPrevTx. cs_index s r = Some bi \<and>
    (case bi_pprev bi of None \<Rightarrow> Some 0 | Some q \<Rightarrow> map_option bi_nChainTx (cs_index s q)) = Some nPrevTx \<and>
    receive_inv (queue @ map snd (filter (\<lambda>e. fst e = r) (cs_unlinked s))) (received_one r bi nPrevTx s) t \<and>
    (\<forall>x. complete (cs_index s) x \<longrightarrow> complete (cs_index (received_one r bi nPrevTx s)) x) \<and>
    (\<forall>x. received (cs_index s) x \<or> x = r \<longrightarrow> received (cs_index (received_one r bi nPrevTx s)) x) \<and>
    shape (cs_index (received_one r bi nPrevTx s)) = shape (cs_index s)"
proof -
  let ?h = "cs_index s" and ?U = "cs_unlinked s"
  have s: "chain_inv s" "cs_Tip s = Some t" "threshold s t" "counted ?h" "fits ?h"
    "\<forall>e \<in> set ?U. awaiting ?h (fst e) (snd e)" "\<forall>x \<in> set (r # queue). ready ?h x" "distinct (r # queue @ map snd ?U)"
    using inv by (simp_all add: receive_inv_def)
  note tree = chain_inv_tree [OF s(1)]
  obtain q b where q: "awaiting ?h q r" "?h q = Some b" "bi_nChainTx b \<noteq> 0"
    using s(7) by (auto simp: ready_def)
  then obtain bi where bi: "?h r = Some bi" "bi_pprev bi = Some q"
    by (auto simp: awaiting_def)
  let ?bi = "bi\<lparr>bi_nChainTx := bi_nChainTx b + bi_nTx bi, bi_nSequenceId := cs_next_seq s\<rparr>"
  define h' where "h' = ?h(r \<mapsto> ?bi)"
  note cr = count_ready [where sid = "cs_next_seq s", OF tree(1) s(4,5) bi q, folded h'_def]
  note nz = count_exact(2) [OF tree(1) s(4,5) bi q(2,3)]
  define in_set where "in_set \<longleftrightarrow> \<not> work_less h' r t"
  define s' where "s' = received_one r bi (bi_nChainTx b) s"
  have s': "cs_index s' = h'" "cs_active s' = cs_active s" "cs_best_invalid s' = cs_best_invalid s"
    "cs_unlinked s' = filter (\<lambda>e. fst e \<noteq> r) ?U"
    "cs_candidates s' = (if in_set then std_insert (work_less h') r (cs_candidates s) else cs_candidates s)"
    using s(2) by (simp_all add: s'_def received_one_def Let_def set_entry_def insert_candidate_def h'_def in_set_def
      cs_Tip_def split: if_splits)
  have tip': "cs_Tip s' = Some t"
    using s(2) s'(2) by (simp add: cs_Tip_def split: if_splits)
  have not_rec: "\<not> received ?h r"
    by (rule awaiting_not_received [OF tree(1) q(1)])
  have t: "complete ?h t" "cs_active s = chain_of ?h t" "received ?h t"
    using chain_inv_tip [OF s(1)] s(2) by (metis option.inject complete_def)+
  have dom: "dom h' = dom ?h" "sized h' = dom h'"
    using shape_dom [OF cr(1)] shape_sized [OF cr(1)] tree(4) by simp_all
  have order: "work_less h' x y = work_less ?h x y" if "x \<noteq> r" "y \<noteq> r" for x y
    using that by (simp add: work_less_def h'_def)
  have cand_not_r: "c \<noteq> r" if "c \<in> set (cs_candidates s)" for c
    using chain_inv_candidates(3) [OF s(1) that] not_rec by blast
  have "sorted_wrt (work_less h') (cs_candidates s)"
    using chain_inv_candidates(2) [OF s(1)] by (rule sorted_wrt_mono_rel [rotated]) (simp add: order cand_not_r)
  moreover have "set (cs_candidates s) \<subseteq> sized h'" "r \<in> sized h'"
    using chain_inv_candidates(1) [OF s(1)] tree(4) dom bi(1) by auto
  ultimately have cands: "sorted_wrt (work_less h') (cs_candidates s')"
    "set (cs_candidates s') = set (cs_candidates s) \<union> (if in_set then {r} else {})"
    using cand.sorted_insert cand.set_insert by (simp_all add: s'(5))
  have rec_cand: "c \<in> dom h' \<and> received h' c" if "c \<in> set (cs_candidates s')" for c
    using that cands(2) chain_inv_candidates(3) [OF s(1)] cr(2,3) chain_inv_candidates(1) [OF s(1)] tree(4) dom bi(1)
    by (auto split: if_splits)
  have inv': "chain_inv s'"
    unfolding chain_inv_def s'(1-3)
  proof (intro conjI)
    show "tree_inv h'"
      using s(1) shape_tree_inv [OF cr(1)] by (simp add: chain_inv_def)
    show "\<exists>t. complete h' t \<and> cs_active s = chain_of h' t"
      using cr(6) t(1,2) shape_chain_of [OF cr(1)] by metis
    show "\<forall>b. cs_best_invalid s = Some b \<longrightarrow> b \<in> dom h'"
      using s(1) dom(1) by (simp add: chain_inv_def)
  qed (use cands rec_cand in auto)
  have t_not_r: "t \<noteq> r"
    using t(3) not_rec by blast
  have thr: "threshold s' t"
    unfolding threshold_def s'(1)
  proof (intro conjI allI impI)
    show "complete h' t"
      by (rule cr(6) [OF t(1)])
    fix p
    assume p: "complete h' p" "\<not> work_less h' p t"
    show "p \<in> set (cs_candidates s')"
    proof (cases "p = r")
      case True
      then show ?thesis
        using p(2) cands(2) by (simp add: in_set_def)
    next
      case False
      then show ?thesis
        using cr(7) [OF p(1)] p(2) order [OF False t_not_r] s(3) cands(2) by (auto simp: threshold_def)
    qed
  qed
  have aw: "awaiting h' x y" if "awaiting ?h x y" "y \<noteq> r" for x y
    using that by (simp add: awaiting_def h'_def)
  have old_ready: "ready h' x" if "x \<in> set queue" for x
  proof -
    obtain y c where y: "awaiting ?h y x" "?h y = Some c" "bi_nChainTx c \<noteq> 0"
      using s(7) \<open>x \<in> set queue\<close> by (auto simp: ready_def)
    have "x \<noteq> r"
      using s(8) that by auto
    moreover have "\<exists>c'. h' y = Some c' \<and> bi_nChainTx c' \<noteq> 0"
      using y(2,3) nz by (simp add: h'_def)
    ultimately show ?thesis
      using aw [OF y(1)] unfolding ready_def by blast
  qed
  have new_ready: "ready h' (snd e)" if e: "e \<in> set ?U" "fst e = r" for e
  proof -
    have "snd e \<noteq> r"
      using e(1) s(8) by (metis distinct.simps(2) image_eqI in_set_conv_decomp set_map Un_iff set_append)
    then have "awaiting h' r (snd e)"
      using aw s(6) e by metis
    moreover have "h' r = Some ?bi" "bi_nChainTx ?bi \<noteq> 0"
      using nz by (simp_all add: h'_def)
    ultimately show ?thesis
      unfolding ready_def by blast
  qed
  have "receive_inv (queue @ map snd (filter (\<lambda>e. fst e = r) ?U)) s' t"
    unfolding receive_inv_def s'(1,4)
  proof (intro conjI)
    show "\<forall>e\<in>set (filter (\<lambda>e. fst e \<noteq> r) ?U). awaiting h' (fst e) (snd e)"
    proof
      fix e
      assume e: "e \<in> set (filter (\<lambda>e. fst e \<noteq> r) ?U)"
      then have "snd e \<in> snd ` set ?U"
        by simp
      then have "snd e \<noteq> r"
        using s(8) by auto
      then show "awaiting h' (fst e) (snd e)"
        using aw s(6) e by simp
    qed
    show "\<forall>x\<in>set (queue @ map snd (filter (\<lambda>e. fst e = r) ?U)). ready h' x"
      using old_ready new_ready by auto
    have "distinct (map snd (filter P ?U))" for P
      using s(8) by (simp add: distinct_map_filter)
    moreover have "snd e \<noteq> snd e'" if "e \<in> set ?U" "e' \<in> set ?U" "fst e = r" "fst e' \<noteq> r" for e e'
      using s(8) that by (auto simp: distinct_map inj_on_def)
    ultimately show "distinct ((queue @ map snd (filter (\<lambda>e. fst e = r) ?U)) @ map snd (filter (\<lambda>e. fst e \<noteq> r) ?U))"
      using s(8) by (auto simp: distinct_map) blast+
  qed (use inv' tip' thr cr(4,5) in auto)
  moreover have "(case bi_pprev bi of None \<Rightarrow> Some 0 | Some q \<Rightarrow> map_option bi_nChainTx (?h q)) = Some (bi_nChainTx b)"
    using bi(2) q(2) by simp
  moreover have "\<forall>x. complete ?h x \<longrightarrow> complete (cs_index s') x" "shape (cs_index s') = shape ?h"
    "\<forall>x. received ?h x \<or> x = r \<longrightarrow> received (cs_index s') x"
    using cr(1-3,6) s'(1) by auto
  ultimately show ?thesis
    using bi(1) unfolding s'_def by blast
qed

text \<open>What receiving may do to the index: the tree stays, and blocks only become counted and complete.\<close>

definition receives :: "index_heap \<Rightarrow> index_heap \<Rightarrow> bool" where
  "receives h h' \<longleftrightarrow> shape h' = shape h \<and> (\<forall>x. complete h x \<longrightarrow> complete h' x) \<and> (\<forall>x. received h x \<longrightarrow> received h' x)"

lemma receives_refl: "receives h h"
  by (simp add: receives_def)

lemma receives_trans: "receives h1 h2 \<Longrightarrow> receives h2 h3 \<Longrightarrow> receives h1 h3"
  by (simp add: receives_def)

text \<open>The blocks that are below \<open>p\<close> in \<open>mapBlocksUnlinked\<close>: those that wait for \<open>p\<close>, those that wait for them, and so on.\<close>

inductive waits_below :: "(ptr \<times> ptr) list \<Rightarrow> ptr \<Rightarrow> ptr \<Rightarrow> bool" for U :: "(ptr \<times> ptr) list" and p :: ptr where
  self: "waits_below U p p"
| child: "waits_below U p q \<Longrightarrow> (q, r) \<in> set U \<Longrightarrow> waits_below U p r"

lemma waits_below_trans: "waits_below U q r \<Longrightarrow> waits_below U p q \<Longrightarrow> waits_below U p r"
  by (induction rule: waits_below.induct) (auto intro: child)

lemma waits_below_mono: "waits_below U p r \<Longrightarrow> set U \<subseteq> set U' \<Longrightarrow> waits_below U' p r"
  by (induction rule: waits_below.induct) (auto intro: self child)

text \<open>One round of the queue: the block is taken off, those that wait for it are appended and leave the map.\<close>

lemma waits_below_round:
  fixes U :: "(ptr \<times> ptr) list" and r :: ptr
  defines "nxt \<equiv> map snd (filter (\<lambda>e. fst e = r) U)" and "rest \<equiv> filter (\<lambda>e. fst e \<noteq> r) U"
  shows "(\<exists>x \<in> set (r # queue). waits_below U x y) \<longleftrightarrow> y = r \<or> (\<exists>x \<in> set (queue @ nxt). waits_below rest x y)"
proof
  have "waits_below U x y \<Longrightarrow> x \<in> set (r # queue) \<Longrightarrow> y = r \<or> (\<exists>x \<in> set (queue @ nxt). waits_below rest x y)" for x
  proof (induction rule: waits_below.induct)
    case self
    then show ?case
      by (auto intro: waits_below.self)
  next
    case (child q z)
    show ?case
    proof (cases "q = r")
      case True
      then have "z \<in> set nxt"
        using child(2) by (force simp: nxt_def)
      then show ?thesis
        by (auto intro: waits_below.self)
    next
      case False
      then have "(q, z) \<in> set rest"
        using child(2) by (simp add: rest_def)
      then show ?thesis
        using child False by (blast intro: waits_below.child)
    qed
  qed
  then show "\<exists>x \<in> set (r # queue). waits_below U x y \<Longrightarrow> y = r \<or> (\<exists>x \<in> set (queue @ nxt). waits_below rest x y)"
    by blast
next
  have rest: "waits_below U x y" if "waits_below rest x y" for x
    using that by (rule waits_below_mono) (auto simp: rest_def)
  have "waits_below U r x" if "x \<in> set nxt" for x
    using that waits_below.child [OF waits_below.self, of r x U] by (auto simp: nxt_def)
  then have "waits_below U r y" if "x \<in> set nxt" "waits_below rest x y" for x
    using that rest waits_below_trans by blast
  then show "y = r \<or> (\<exists>x \<in> set (queue @ nxt). waits_below rest x y) \<Longrightarrow> \<exists>x \<in> set (r # queue). waits_below U x y"
    using rest waits_below.self [of U r] unfolding set_append by (metis Un_iff list.set_intros)
qed

lemma received_loop_result:
  "receive_inv queue s t \<Longrightarrow>
    \<exists>s'. received_loop queue s = Some s' \<and> receive_inv [] s' t \<and> receives (cs_index s) (cs_index s') \<and>
      (\<forall>x \<in> set queue. \<forall>y. waits_below (cs_unlinked s) x y \<longrightarrow> received (cs_index s') y)"
proof (induction queue s rule: received_loop.induct)
  case (1 s)
  then show ?case
    using receives_refl by simp
next
  case (2 r queue s)
  let ?queue = "queue @ map snd (filter (\<lambda>e. fst e = r) (cs_unlinked s))"
  obtain bi n where step: "cs_index s r = Some bi"
    "(case bi_pprev bi of None \<Rightarrow> Some 0 | Some q \<Rightarrow> map_option bi_nChainTx (cs_index s q)) = Some n"
    "receive_inv ?queue (received_one r bi n s) t"
    and more: "receives (cs_index s) (cs_index (received_one r bi n s))" "received (cs_index (received_one r bi n s)) r"
    using receive_step [OF 2(2)] unfolding receives_def by blast
  obtain s' where s': "received_loop ?queue (received_one r bi n s) = Some s'" "receive_inv [] s' t"
    "receives (cs_index (received_one r bi n s)) (cs_index s')"
    "\<forall>x \<in> set ?queue. \<forall>y. waits_below (filter (\<lambda>e. fst e \<noteq> r) (cs_unlinked s)) x y \<longrightarrow> received (cs_index s') y"
    using 2(1) [OF step(1,2,3)] unfolding cs_unlinked_received_one by blast
  have "received_loop (r # queue) s = Some s'"
    using step(1,2) s'(1) by simp
  moreover have "received (cs_index s') r"
    using s'(3) more(2) by (simp add: receives_def)
  then have "received (cs_index s') y" if "\<exists>x \<in> set (r # queue). waits_below (cs_unlinked s) x y" for y
    using s'(4) that unfolding waits_below_round by blast
  then have "\<forall>x \<in> set (r # queue). \<forall>y. waits_below (cs_unlinked s) x y \<longrightarrow> received (cs_index s') y"
    by blast
  ultimately show ?case
    using s'(2) receives_trans [OF more(1) s'(3)] by blast
qed

text \<open>What the loop leaves alone, and what is left of the map.\<close>

lemma received_loop_frame:
  "received_loop queue s = Some s' \<Longrightarrow>
    map_option bi_nStatus (cs_index s' x) = map_option bi_nStatus (cs_index s x) \<and>
    map_option bi_nTx (cs_index s' x) = map_option bi_nTx (cs_index s x) \<and>
    set (cs_unlinked s') = {e \<in> set (cs_unlinked s). \<not> (\<exists>r \<in> set queue. waits_below (cs_unlinked s) r (fst e))} \<and>
    (\<not> (\<exists>r \<in> set queue. waits_below (cs_unlinked s) r x) \<longrightarrow> cs_index s' x = cs_index s x)"
proof (induction queue s rule: received_loop.induct)
  case (2 r queue s)
  let ?queue = "queue @ map snd (filter (\<lambda>e. fst e = r) (cs_unlinked s))"
  obtain bi n where step: "cs_index s r = Some bi"
    "(case bi_pprev bi of None \<Rightarrow> Some 0 | Some q \<Rightarrow> map_option bi_nChainTx (cs_index s q)) = Some n"
    "received_loop ?queue (received_one r bi n s) = Some s'"
    using 2(2) by (auto split: bind_splits)
  have one: "cs_index (received_one r bi n s) =
      (cs_index s)(r \<mapsto> bi\<lparr>bi_nChainTx := n + bi_nTx bi, bi_nSequenceId := cs_next_seq s\<rparr>)"
    by (simp add: received_one_def Let_def set_entry_def insert_candidate_def)
  have keep: "map_option bi_nStatus (cs_index (received_one r bi n s) x) = map_option bi_nStatus (cs_index s x)"
    "map_option bi_nTx (cs_index (received_one r bi n s) x) = map_option bi_nTx (cs_index s x)"
    "x \<noteq> r \<Longrightarrow> cs_index (received_one r bi n s) x = cs_index s x"
    using step(1) by (simp_all add: one)
  note IH = 2(1) [OF step, unfolded cs_unlinked_received_one]
  show ?case
    using IH keep unfolding waits_below_round [of r queue "cs_unlinked s"] by auto
qed simp

section \<open>Receiving a block\<close>

lemma RaiseValidity_frame:
  assumes "nUpTo AND NOT BLOCK_VALID_MASK = 0"
  obtains b bi' where "RaiseValidity bi nUpTo = Some (b, bi')" "bi_pprev bi' = bi_pprev bi" "bi_pskip bi' = bi_pskip bi"
    "bi_nHeight bi' = bi_nHeight bi" "bi_nChainWork bi' = bi_nChainWork bi" "bi_nSequenceId bi' = bi_nSequenceId bi"
    "bi_nChainTx bi' = bi_nChainTx bi" "bi_nTx bi' = bi_nTx bi"
proof (cases "\<not> is_failed bi \<and> bi_nStatus bi AND BLOCK_VALID_MASK < nUpTo")
  case True
  then show ?thesis
    using that [of True "bi\<lparr>bi_nStatus := (bi_nStatus bi AND NOT BLOCK_VALID_MASK) OR nUpTo\<rparr>"] assms
    by (simp add: RaiseValidity_def is_failed_def)
next
  case False
  then show ?thesis
    using that [of False bi] assms by (simp add: RaiseValidity_def is_failed_def)
qed

lemma IsValid_tree:
  "IsValid bi BLOCK_VALID_TREE = Some (\<not> is_failed bi \<and> BLOCK_VALID_TREE \<le> bi_nStatus bi AND BLOCK_VALID_MASK)"
  by (simp add: IsValid_def is_failed_def BLOCK_VALID_MASK_def)

lemma receive_inv_dirty: "receive_inv queue (mark_dirty p s) t = receive_inv queue s t"
  by (simp add: receive_inv_def chain_inv_def threshold_def mark_dirty_def cs_Tip_def)

lemma receive_inv_waiting:
  assumes "receive_inv [] s t" and "awaiting (cs_index s) q p" and "p \<notin> snd ` set (cs_unlinked s)"
  shows "receive_inv [] (s\<lparr>cs_unlinked := cs_unlinked s @ [(q, p)]\<rparr>) t"
  using assms by (auto simp: receive_inv_def chain_inv_def threshold_def cs_Tip_def split: if_splits)

text \<open>Writing the entry of a block that is not counted yet changes nothing for the others.\<close>

lemma write_uncounted:
  assumes inv: "receive_inv [] s t" and p: "cs_index s p = Some bi" "bi_pprev bi = Some q" "bi_nChainTx bi = 0"
    and same: "bi_pprev bi' = bi_pprev bi" "bi_pskip bi' = bi_pskip bi" "bi_nHeight bi' = bi_nHeight bi"
      "bi_nChainWork bi' = bi_nChainWork bi" "bi_nSequenceId bi' = bi_nSequenceId bi" "bi_nChainTx bi' = bi_nChainTx bi"
    and fits: "fits ((cs_index s)(p \<mapsto> bi'))" and new: "p \<notin> snd ` set (cs_unlinked s)"
  shows "receive_inv [] (set_entry p bi' s) t" and "receives (cs_index s) (cs_index (set_entry p bi' s))"
proof -
  let ?h = "cs_index s" and ?h' = "(cs_index s)(p \<mapsto> bi')"
  have s: "chain_inv s" "cs_Tip s = Some t" "threshold s t" "counted ?h"
    "\<forall>e \<in> set (cs_unlinked s). awaiting ?h (fst e) (snd e)" "distinct (map snd (cs_unlinked s))"
    using inv by (simp_all add: receive_inv_def)
  note tree = chain_inv_tree [OF s(1)]
  have skel: "skel ?h' = skel ?h"
    by (rule skel_update) (simp_all add: p(1) same)
  have rec: "received ?h' x = received ?h x" for x
    using skel_received [OF skel] skel_received [OF skel [symmetric]] by blast
  have not_rec: "\<not> received ?h p"
  proof
    assume "received ?h p"
    moreover have "up ?h 0 p = Some p"
      by simp
    ultimately have "bi_nHeight bi = 0"
      using p(1,3) unfolding received_def by blast
    moreover have "bi_nHeight bi \<noteq> 0"
      using tree(1) p(1) by (cases rule: block_tree_cases) (use p(2) in auto)
    ultimately show False
      by simp
  qed
  have up_not_p: "y \<noteq> p" if "received ?h x" "up ?h n x = Some y" for n x y
    using received_up [OF that] not_rec by blast
  have comp: "complete ?h' x = complete ?h x" for x
  proof (cases "received ?h x")
    case True
    have eq: "?h' y = ?h y" if "up ?h n x = Some y" for n y
      using up_not_p [OF True that] by simp
    show ?thesis
      unfolding complete_def rec skel_up [OF skel] skel_None [OF skel] using eq by metis
  qed (simp add: complete_def rec)
  have "chain_tx ?h' x = chain_tx ?h x" if "received ?h x" for x
    by (rule chain_tx_cong [OF skel_shape [OF skel]]) (use up_not_p [OF that] in \<open>simp add: tx_of_def\<close>)
  then have "counted ?h'"
    using s(4) p(3) same(6) unfolding counted_def rec by (metis fun_upd_apply option.inject)
  moreover have "chain_inv (set_entry p bi' s)"
    using s(1) skel_tree_inv [OF skel] comp rec skel_chain_of [OF skel] skel_work_less [OF skel] skel_dom [OF skel]
    unfolding chain_inv_def set_entry_def by auto
  moreover have "threshold (set_entry p bi' s) t"
    using s(3) comp skel_work_less [OF skel] by (simp add: threshold_def set_entry_def)
  moreover have "\<forall>e \<in> set (cs_unlinked s). awaiting ?h' (fst e) (snd e)"
    using s(5) new by (auto simp: awaiting_def)
  ultimately show "receive_inv [] (set_entry p bi' s) t"
    using s(2,6) fits by (simp add: receive_inv_def set_entry_def cs_Tip_def split: if_splits)
  show "receives ?h (cs_index (set_entry p bi' s))"
    using comp rec skel_shape [OF skel] by (simp add: receives_def set_entry_def)
qed

lemma RaiseValidity_flags:
  assumes "RaiseValidity bi BLOCK_VALID_TRANSACTIONS = Some (b, bi')"
  shows "bi_nStatus bi' AND BLOCK_FAILED_MASK = bi_nStatus bi AND BLOCK_FAILED_MASK"
    and "bi_nStatus bi' AND BLOCK_HAVE_DATA = bi_nStatus bi AND BLOCK_HAVE_DATA"
proof -
  have mask: "NOT BLOCK_VALID_MASK AND BLOCK_FAILED_MASK = BLOCK_FAILED_MASK" "BLOCK_VALID_TRANSACTIONS AND BLOCK_FAILED_MASK = 0"
    "NOT BLOCK_VALID_MASK AND BLOCK_HAVE_DATA = BLOCK_HAVE_DATA" "BLOCK_VALID_TRANSACTIONS AND BLOCK_HAVE_DATA = 0"
    by (simp_all add: BLOCK_VALID_MASK_def BLOCK_FAILED_MASK_def)
  have raised: "((x AND NOT BLOCK_VALID_MASK) OR BLOCK_VALID_TRANSACTIONS) AND m = x AND m"
    if "NOT BLOCK_VALID_MASK AND m = m" "BLOCK_VALID_TRANSACTIONS AND m = 0" for x m :: "32 word"
    using that by (simp add: bit.conj_disj_distrib2 and.assoc)
  show "bi_nStatus bi' AND BLOCK_FAILED_MASK = bi_nStatus bi AND BLOCK_FAILED_MASK"
    and "bi_nStatus bi' AND BLOCK_HAVE_DATA = bi_nStatus bi AND BLOCK_HAVE_DATA"
    using assms raised [OF mask(1,2)] raised [OF mask(3,4)] by (auto simp: RaiseValidity_def split: if_splits)
qed

lemma mark_data: "(x OR BLOCK_HAVE_DATA) AND BLOCK_FAILED_MASK = x AND BLOCK_FAILED_MASK"
  "(x OR BLOCK_HAVE_DATA) AND BLOCK_HAVE_DATA \<noteq> 0" for x :: "32 word"
  by (simp_all add: bit.conj_disj_distrib2 BLOCK_FAILED_MASK_def)

text \<open>A received block on a complete one is complete when it has its data and is not flagged.\<close>

lemma complete_above:
  assumes "h p = Some bi" and "bi_pprev bi = Some q" and "complete h q" and "\<not> is_failed bi" and "has_data bi" and "received h p"
  shows "complete h p"
proof -
  have "\<not> is_failed b \<and> has_data b" if "up h n p = Some x" "h x = Some b" for n x b
    using assms that unfolding complete_def by (cases n) auto
  then show ?thesis
    using assms(1,6) by (auto simp: complete_def)
qed

lemma ReceivedBlockTransactions_result:
  assumes inv: "receive_inv [] s t" and p: "cs_index s p = Some bi" "bi_pprev bi = Some q" "bi_nChainTx bi = 0"
    and new: "p \<notin> snd ` set (cs_unlinked s)" and nTx: "0 < nTx" "nTx < 2 ^ 32"
    and fits: "fits ((cs_index s)(p \<mapsto> bi\<lparr>bi_nTx := of_nat nTx\<rparr>))" and q: "cs_index s q = Some b"
  shows "\<exists>s'. ReceivedBlockTransactions pos_stake nTx pos p s = Some s' \<and> receive_inv [] s' t \<and>
    receives (cs_index s) (cs_index s') \<and> tx_of (cs_index s') p = nTx \<and>
    (if bi_nChainTx b \<noteq> 0
     then (\<forall>x. if waits_below (cs_unlinked s) p x then received (cs_index s') x else cs_index s' x = cs_index s x) \<and>
       set (cs_unlinked s') = {e \<in> set (cs_unlinked s). \<not> waits_below (cs_unlinked s) p (fst e)} \<and>
       (complete (cs_index s) q \<and> \<not> is_failed bi \<longrightarrow> complete (cs_index s') p)
     else (\<forall>x. x \<noteq> p \<longrightarrow> cs_index s' x = cs_index s x) \<and> \<not> received (cs_index s') p \<and>
       cs_unlinked s' = cs_unlinked s @
         (if \<not> is_failed b \<and> BLOCK_VALID_TREE \<le> bi_nStatus b AND BLOCK_VALID_MASK then [(q, p)] else []))"
proof -
  let ?bi = "bi\<lparr>bi_nFlags := (if pos_stake then bi_nFlags bi OR BLOCK_PROOF_OF_STAKE else bi_nFlags bi),
            bi_nTx := of_nat nTx, bi_nChainTx := 0, bi_nFile := fst pos, bi_nDataPos := snd pos, bi_nUndoPos := 0,
            bi_nStatus := bi_nStatus bi OR BLOCK_HAVE_DATA\<rparr>"
  have "BLOCK_VALID_TRANSACTIONS AND NOT BLOCK_VALID_MASK = 0"
    by (simp add: BLOCK_VALID_MASK_def)
  then obtain rv bi' where r: "RaiseValidity ?bi BLOCK_VALID_TRANSACTIONS = Some (rv, bi')"
    and same: "bi_pprev bi' = bi_pprev ?bi" "bi_pskip bi' = bi_pskip ?bi" "bi_nHeight bi' = bi_nHeight ?bi"
      "bi_nChainWork bi' = bi_nChainWork ?bi" "bi_nSequenceId bi' = bi_nSequenceId ?bi"
      "bi_nChainTx bi' = bi_nChainTx ?bi" "bi_nTx bi' = bi_nTx ?bi"
    by (rule RaiseValidity_frame)
  let ?s = "set_entry p bi' s"
  have tx: "of_nat nTx \<noteq> (0 :: 32 word)"
    using nTx by (simp add: word_of_nat_eq_0_iff nat_dvd_not_less)
  have "chain_tx ((cs_index s)(p \<mapsto> bi')) x = chain_tx ((cs_index s)(p \<mapsto> bi\<lparr>bi_nTx := of_nat nTx\<rparr>)) x" for x
    by (rule chain_tx_cong) (auto simp: shape_def fun_eq_iff tx_of_def same)
  then have fits': "fits ((cs_index s)(p \<mapsto> bi'))"
    using fits by (simp add: fits_def)
  have s1: "receive_inv [] ?s t" "receives (cs_index s) (cs_index ?s)"
    using write_uncounted [OF inv p, of bi'] fits' new p(3) same by simp_all
  have dirty: "receive_inv [] (mark_dirty p ?s) t" "cs_index (mark_dirty p ?s) = cs_index ?s"
    unfolding receive_inv_dirty using s1(1) by (simp_all add: mark_dirty_def)
  have "p \<noteq> q"
    using inv p chain_inv_tree(1) [of s] unfolding receive_inv_def by (metis block_tree_cases option.inject option.distinct(1) n_not_Suc_n)
  then have q': "cs_index ?s q = Some b"
    using q by (simp add: set_entry_def)
  have aw: "awaiting (cs_index ?s) q p"
    using p(2) tx same by (simp add: awaiting_def set_entry_def)
  have start: "ReceivedBlockTransactions pos_stake nTx pos p s =
     (if bi_nChainTx b \<noteq> 0 then received_loop [p] (mark_dirty p ?s)
      else Some (if \<not> is_failed b \<and> BLOCK_VALID_TREE \<le> bi_nStatus b AND BLOCK_VALID_MASK
                 then (mark_dirty p ?s)\<lparr>cs_unlinked := cs_unlinked (mark_dirty p ?s) @ [(q, p)]\<rparr> else mark_dirty p ?s))"
    using p(1,2) r q'
    by (cases "bi_nChainTx b = 0"; cases "\<not> is_failed b \<and> BLOCK_VALID_TREE \<le> bi_nStatus b AND BLOCK_VALID_MASK")
      (simp_all add: ReceivedBlockTransactions_def Let_def mark_dirty_def IsValid_tree)
  show ?thesis
  proof (cases "bi_nChainTx b \<noteq> 0")
    case True
    have "ready (cs_index ?s) p"
      using aw q' True unfolding ready_def by blast
    then have "receive_inv [p] ?s t"
      using s1(1) new unfolding receive_inv_def by (simp add: set_entry_def)
    then have "receive_inv [p] (mark_dirty p ?s) t"
      by (simp only: receive_inv_dirty)
    then obtain s' where s': "received_loop [p] (mark_dirty p ?s) = Some s'" "receive_inv [] s' t"
      "receives (cs_index ?s) (cs_index s')"
      "\<forall>x. waits_below (cs_unlinked s) p x \<longrightarrow> received (cs_index s') x"
      using received_loop_result [of "[p]" "mark_dirty p ?s" t]
      by (auto simp: mark_dirty_def set_entry_def simp del: received_loop.simps)
    have frame: "map_option bi_nStatus (cs_index s' x) = map_option bi_nStatus (cs_index ?s x)"
      "map_option bi_nTx (cs_index s' x) = map_option bi_nTx (cs_index ?s x)"
      "set (cs_unlinked s') = {e \<in> set (cs_unlinked s). \<not> waits_below (cs_unlinked s) p (fst e)}"
      "\<not> waits_below (cs_unlinked s) p x \<Longrightarrow> cs_index s' x = cs_index s x" for x
      using received_loop_frame [OF s'(1), of x] waits_below.self [of "cs_unlinked s" p]
      by (auto simp: mark_dirty_def set_entry_def simp del: received_loop.simps)
    obtain bp where bp: "cs_index s' p = Some bp" "bi_nStatus bp = bi_nStatus bi'" "bi_nTx bp = bi_nTx bi'"
      using frame(1,2) [of p] by (auto simp: set_entry_def)
    have "shape (cs_index s') p = shape (cs_index ?s) p"
      using s'(3) by (simp add: receives_def)
    then have "bi_pprev bp = Some q"
      using bp(1) p(2) same(1) by (simp add: shape_def set_entry_def)
    moreover have "complete (cs_index s') q" if "complete (cs_index s) q"
      using that s1(2) s'(3) by (simp add: receives_def)
    moreover have "is_failed bp = is_failed bi" "has_data bp"
      using bp(2) RaiseValidity_flags [OF r] by (simp_all add: is_failed_def has_data_def mark_data)
    ultimately have "complete (cs_index s') p" if "complete (cs_index s) q" "\<not> is_failed bi"
      using complete_above [of "cs_index s'" p bp q] bp(1) s'(4) waits_below.self that by blast
    moreover have "tx_of (cs_index s') p = nTx"
      using bp(1,3) same(7) nTx(2) by (simp add: tx_of_def unsigned_of_nat take_bit_nat_eq_self)
    ultimately show ?thesis
      using start True s' frame(3,4) receives_trans [OF s1(2) s'(3)] by auto
  next
    case False
    let ?s2 = "(mark_dirty p ?s)\<lparr>cs_unlinked := cs_unlinked (mark_dirty p ?s) @ [(q, p)]\<rparr>"
    have s2: "receive_inv [] ?s2 t"
      using receive_inv_waiting [OF dirty(1), of q p] aw new by (simp add: mark_dirty_def set_entry_def)
    have "\<not> received (cs_index ?s) p"
      using awaiting_not_received [OF chain_inv_tree(1) aw] s1(1) unfolding receive_inv_def by blast
    moreover have "tx_of (cs_index ?s) p = nTx"
      using same(7) nTx(2) by (simp add: tx_of_def unsigned_of_nat take_bit_nat_eq_self set_entry_def)
    moreover have "\<forall>x. x \<noteq> p \<longrightarrow> cs_index ?s x = cs_index s x" "cs_unlinked ?s = cs_unlinked s"
      by (simp_all add: set_entry_def)
    ultimately show ?thesis
      using s2 start False dirty s1(2) by (simp add: mark_dirty_def)
  qed
qed

lemma received_loop_view: "received_loop queue s = Some s' \<Longrightarrow> cs_view s' = cs_view s"
proof (induction queue s rule: received_loop.induct)
  case (2 r queue s)
  have "cs_view (received_one r bi n s) = cs_view s" for bi n
    by (simp add: received_one_def Let_def set_entry_def insert_candidate_def)
  then show ?case
    using 2 by (auto split: bind_splits)
qed simp

lemma ReceivedBlockTransactions_view:
  "ReceivedBlockTransactions pos_stake nTx pos p s = Some s' \<Longrightarrow> cs_view s' = cs_view s"
  by (auto simp: ReceivedBlockTransactions_def Let_def mark_dirty_def set_entry_def simp del: received_loop.simps
      dest!: received_loop_view split: bind_splits option.splits if_splits)

end
