(* ===== verification/LastCommon.thy ===== *)
theory LastCommon
  imports ChainStateInv
begin

text \<open>
  The last common ancestor of two blocks: \<open>LastCommonAncestor\<close> of \<open>src/main.cpp\<close> first brings both
  blocks to one height and then walks down until they meet, which on a tree with one root they do.
\<close>

definition ancestor_of :: "index_heap \<Rightarrow> ptr \<Rightarrow> ptr \<Rightarrow> bool" where
  "ancestor_of h x p \<longleftrightarrow> (\<exists>n. up h n p = Some x)"

lemma ancestor_of_refl: "ancestor_of h p p"
  unfolding ancestor_of_def by (intro exI [of _ 0]) simp

lemma ancestor_of_up: "up h n p = Some q \<Longrightarrow> ancestor_of h x q \<Longrightarrow> ancestor_of h x p"
  unfolding ancestor_of_def using up_up by metis

text \<open>An ancestor of \<open>p\<close> that is at most as high as the \<open>n\<close>-th one is an ancestor of that one.\<close>

lemma ancestor_of_below:
  assumes "block_tree h" and "h p = Some bi" and "up h n p = Some q" and "ancestor_of h x p"
    and "height_of h x \<le> height_of h q"
  shows "ancestor_of h x q"
proof -
  obtain m where m: "up h m p = Some x"
    using assms(4) by (auto simp: ancestor_of_def)
  have le: "m \<le> height_of h p" "n \<le> height_of h p"
    using up_None [OF assms(1,2)] m assms(3) by (metis not_le option.distinct(1))+
  have "height_of h x = height_of h p - m" "height_of h q = height_of h p - n"
    using up_Some [OF assms(1,2) le(1)] up_Some [OF assms(1,2) le(2)] m assms(3) by auto
  then have "n \<le> m"
    using assms(5) le by linarith
  then show ?thesis
    using up_up [OF assms(3), of "m - n"] m unfolding ancestor_of_def by (intro exI [of _ "m - n"]) simp
qed

lemma common_loop_meet:
  assumes "block_tree h"
  shows "h p = Some a \<Longrightarrow> h q = Some b \<Longrightarrow> height_of h p = k \<Longrightarrow> height_of h q = k \<Longrightarrow> up h k p = up h k q \<Longrightarrow>
    \<exists>r. common_loop h (Some p) (Some q) = Some (Some r, Some r) \<and> ancestor_of h r p \<and> ancestor_of h r q \<and>
      (\<forall>x. ancestor_of h x p \<longrightarrow> ancestor_of h x q \<longrightarrow> ancestor_of h x r)"
proof (induction k arbitrary: p q a b)
  case 0
  then have "common_loop h (Some p) (Some q) = Some (Some p, Some q)"
    by (subst common_loop.simps) simp
  then show ?case
    using 0 ancestor_of_refl by auto
next
  case (Suc k)
  show ?case
  proof (cases "p = q")
    case True
    then have "common_loop h (Some p) (Some q) = Some (Some p, Some p)"
      by (subst common_loop.simps) simp
    then show ?thesis
      using True ancestor_of_refl by blast
  next
    case False
    obtain p' a' where p': "bi_pprev a = Some p'" "h p' = Some a'" "height_of h p' = k"
      using assms Suc.prems(1) by (cases rule: block_tree_cases) (use Suc.prems in auto)
    obtain q' b' where q': "bi_pprev b = Some q'" "h q' = Some b'" "height_of h q' = k"
      using assms Suc.prems(2) by (cases rule: block_tree_cases) (use Suc.prems in auto)
    have up1: "up h 1 p = Some p'" "up h 1 q = Some q'"
      using Suc.prems(1,2) p'(1) q'(1) by simp_all
    have "up h k p' = up h k q'"
      using Suc.prems(1,2,5) p'(1) q'(1) by simp
    then obtain r where r: "common_loop h (Some p') (Some q') = Some (Some r, Some r)" "ancestor_of h r p'"
      "ancestor_of h r q'" "\<forall>x. ancestor_of h x p' \<longrightarrow> ancestor_of h x q' \<longrightarrow> ancestor_of h x r"
      using Suc.IH [OF p'(2) q'(2) p'(3) q'(3)] by blast
    have "common_loop h (Some p) (Some q) = Some (Some r, Some r)"
      using False Suc.prems(1,2) p'(1) q'(1) r(1) by (subst common_loop.simps) simp
    moreover have "ancestor_of h x r" if x: "ancestor_of h x p" "ancestor_of h x q" for x
    proof -
      have "height_of h x \<le> k"
      proof (rule ccontr)
        assume "\<not> height_of h x \<le> k"
        obtain m n where mn: "up h m p = Some x" "up h n q = Some x"
          using x by (auto simp: ancestor_of_def)
        then have "m \<le> Suc k" "n \<le> Suc k"
          using up_None [OF assms Suc.prems(1), of m] up_None [OF assms Suc.prems(2), of n] Suc.prems(3,4)
          by (metis not_le option.distinct(1))+
        then have "height_of h x = Suc k - m" "height_of h x = Suc k - n"
          using up_Some [OF assms Suc.prems(1), of m] up_Some [OF assms Suc.prems(2), of n] Suc.prems(3,4) mn by auto
        then have "m = 0" "n = 0"
          using \<open>\<not> height_of h x \<le> k\<close> by linarith+
        then show False
          using mn False by simp
      qed
      then have "ancestor_of h x p'" "ancestor_of h x q'"
        using ancestor_of_below [OF assms Suc.prems(1) up1(1) x(1)] ancestor_of_below [OF assms Suc.prems(2) up1(2) x(2)]
          p'(3) q'(3) by simp_all
      then show ?thesis
        using r(4) by blast
    qed
    ultimately show ?thesis
      using r(2,3) ancestor_of_up [OF up1(1)] ancestor_of_up [OF up1(2)] by blast
  qed
qed

text \<open>Bringing a block down to a height that is not above it.\<close>

lemma lower_to:
  assumes "tree_inv h" and "h p = Some a" and "k \<le> height_of h p"
  shows "\<exists>q b. GetAncestor h p (int k) = Some (Some q) \<and> up h (height_of h p - k) p = Some q \<and> h q = Some b \<and>
    height_of h q = k \<and> up h k q = up h (height_of h p) p"
proof -
  have tree: "block_tree h" "\<And>x. skip_ok h x"
    using assms(1) by (simp_all add: tree_inv_def)
  obtain q b where q: "up h (height_of h p - k) p = Some q" "h q = Some b" "height_of h q = k"
    using up_Some [OF tree(1) assms(2), of "height_of h p - k"] assms(3) by auto
  have "GetAncestor h p (int k) = Some (Some q)"
    using GetAncestor_up [OF tree assms(2), of "int k"] height_of_int [OF tree(1) assms(2)] assms(3) q(1)
    by (simp add: nat_diff_distrib')
  then show ?thesis
    using q up_up [OF q(1), of k] assms(3) by auto
qed

lemma LastCommonAncestor_result:
  assumes "tree_inv h" and "h p = Some a" and "h q = Some b"
  shows "\<exists>r. LastCommonAncestor h p q = Some (Some r) \<and> ancestor_of h r p \<and> ancestor_of h r q \<and>
    (\<forall>x. ancestor_of h x p \<longrightarrow> ancestor_of h x q \<longrightarrow> ancestor_of h x r)"
proof -
  have tree: "block_tree h"
    using assms(1) by (simp add: tree_inv_def)
  define k where "k = min (height_of h p) (height_of h q)"
  have heights: "bi_nHeight a = int (height_of h p)" "bi_nHeight b = int (height_of h q)"
    using height_of_int [OF tree] assms(2,3) by simp_all
  have k: "k \<le> height_of h p" "k \<le> height_of h q"
    by (simp_all add: k_def)
  obtain p' a' where p': "GetAncestor h p (int k) = Some (Some p')" "up h (height_of h p - k) p = Some p'" "h p' = Some a'"
    "height_of h p' = k" "up h k p' = up h (height_of h p) p"
    using lower_to [OF assms(1,2) k(1)] by blast
  obtain q' b' where q': "GetAncestor h q (int k) = Some (Some q')" "up h (height_of h q - k) q = Some q'" "h q' = Some b'"
    "height_of h q' = k" "up h k q' = up h (height_of h q) q"
    using lower_to [OF assms(1,3) k(2)] by blast
  have "\<exists>r. \<forall>x \<in> dom h. up h (height_of h x) x = Some r"
    using assms(1) unfolding tree_inv_def by blast
  then have "up h (height_of h p) p = up h (height_of h q) q"
    using assms(2,3) by (metis domI)
  then have root: "up h k p' = up h k q'"
    using p'(5) q'(5) by simp
  obtain r where r: "common_loop h (Some p') (Some q') = Some (Some r, Some r)" "ancestor_of h r p'"
    "ancestor_of h r q'" "\<forall>x. ancestor_of h x p' \<longrightarrow> ancestor_of h x q' \<longrightarrow> ancestor_of h x r"
    using common_loop_meet [OF tree p'(3) q'(3) p'(4) q'(4) root] by blast
  have start: "(if bi_nHeight a > bi_nHeight b then GetAncestor h p (bi_nHeight b) else Some (Some p)) = Some (Some p')"
    "(if bi_nHeight a < bi_nHeight b then GetAncestor h q (bi_nHeight a) else Some (Some q)) = Some (Some q')"
    using p'(1,2) q'(1,2) heights by (auto simp: k_def min_def split: if_splits)
  have "LastCommonAncestor h p q = Some (Some r)"
    using assms(2,3) start r(1) by (simp add: LastCommonAncestor_def)
  moreover have "ancestor_of h x r" if x: "ancestor_of h x p" "ancestor_of h x q" for x
  proof -
    have "height_of h x \<le> k"
    proof -
      obtain m n where mn: "up h m p = Some x" "up h n q = Some x"
        using x by (auto simp: ancestor_of_def)
      then have "m \<le> height_of h p" "n \<le> height_of h q"
        using up_None [OF tree assms(2), of m] up_None [OF tree assms(3), of n] by (metis not_le option.distinct(1))+
      then show ?thesis
        using up_Some [OF tree assms(2), of m] up_Some [OF tree assms(3), of n] mn by (auto simp: k_def)
    qed
    then have "ancestor_of h x p'" "ancestor_of h x q'"
      using ancestor_of_below [OF tree assms(2) p'(2) x(1)] ancestor_of_below [OF tree assms(3) q'(2) x(2)] p'(4) q'(4)
      by simp_all
    then show ?thesis
      using r(4) by blast
  qed
  ultimately show ?thesis
    using r(2,3) ancestor_of_up [OF p'(2)] ancestor_of_up [OF q'(2)] by blast
qed

end
