(* ===== verification/StateSpec.thy ===== *)
theory StateSpec
  imports ChainBest ChainInvalid ChainReceive LastCommon
begin

unbundle bit_operations_syntax

text \<open>
  The properties of the choice of the active chain: activating the best chain ends at a complete
  chain with most work, whatever the order in which blocks arrive, fail, are received or are
  invalidated by hand; and the one way in which it does not end.
\<close>

section \<open>A sample state\<close>

text \<open>Blocks 0, 1 are the active chain; 2, 3 are a branch from 0 with more work; the data of 4, a child of 1,
  are missing, and 5, whose data are there, is a child of 4. The coins of a chain are its last block here.\<close>

definition state_block :: "ptr option \<Rightarrow> nat \<Rightarrow> ptr option \<Rightarrow> 32 word \<Rightarrow> bool \<Rightarrow> bool \<Rightarrow> CBlockIndex" where
  "state_block prev height skip work data counts =
     CBlockIndex_SetNull\<lparr>bi_phashBlock := of_nat height, bi_pprev := prev, bi_pskip := skip, bi_nHeight := int height,
       bi_nChainWork := [work, 0, 0, 0, 0, 0, 0, 0], bi_nTx := (if data then 1 else 0),
       bi_nChainTx := (if counts then of_nat height + 1 else 0), bi_nStatus := (if data then 11 else 2)\<rparr>"

definition sample_index :: index_heap where
  "sample_index = [0 \<mapsto> state_block None 0 None 1 True True, 1 \<mapsto> state_block (Some 0) 1 (Some 0) 3 True True,
     2 \<mapsto> state_block (Some 0) 1 (Some 0) 2 True True, 3 \<mapsto> state_block (Some 2) 2 (Some 0) 4 True True,
     4 \<mapsto> state_block (Some 1) 2 (Some 0) 5 False False, 5 \<mapsto> state_block (Some 4) 3 (Some 1) 6 True False]"

definition sample_state :: "ptr \<Rightarrow> (ptr \<times> ptr) list \<Rightarrow> ptr chainstate" where
  "sample_state t U =
     \<lparr>cs_index = sample_index, cs_map = [0, 1, 2, 3, 4, 5], cs_active = chain_of sample_index t, cs_candidates = [1, 3],
      cs_unlinked = U, cs_best_invalid = None, cs_next_seq = 1, cs_dirty = {}, cs_view = t\<rparr>"

definition sample_env :: "(ptr \<Rightarrow> ptr connect_result) \<Rightarrow> ptr node_env" where
  "sample_env r =
     \<lparr>ne_connect = (\<lambda>h p v. ((case h p of None \<Rightarrow> CBlockIndex_SetNull | Some bi \<Rightarrow> bi), r p)),
      ne_disconnect = (\<lambda>h p v. case h p of None \<Rightarrow> None | Some bi \<Rightarrow> bi_pprev bi), ne_flush = (\<lambda>v. True)\<rparr>"

definition invalid_at :: "ptr set \<Rightarrow> ptr \<Rightarrow> ptr connect_result" where
  "invalid_at bad p = (if p \<in> bad then ConnectFail (VInvalid False) else ConnectOk p)"

lemma state_block_simps [simp]:
  "bi_pprev (state_block p k s w d c) = p" "bi_pskip (state_block p k s w d c) = s" "bi_nHeight (state_block p k s w d c) = int k"
  "bi_nChainWork (state_block p k s w d c) = [w, 0, 0, 0, 0, 0, 0, 0]" "bi_nSequenceId (state_block p k s w d c) = 0"
  "bi_nTx (state_block p k s w d c) = (if d then 1 else 0)"
  "bi_nChainTx (state_block p k s w d c) = (if c then of_nat k + 1 else 0)"
  "is_failed (state_block p k s w d c) = False" "has_data (state_block p k s w d c) = d"
  "bi_nStatus (state_block p k s w d c) = (if d then 11 else 2)"
  by (simp_all add: state_block_def CBlockIndex_SetNull_def is_failed_def has_data_def BLOCK_FAILED_MASK_def)

lemma sample_index_simps [simp]:
  "sample_index 0 = Some (state_block None 0 None 1 True True)" "sample_index (Suc 0) = Some (state_block (Some 0) 1 (Some 0) 3 True True)"
  "sample_index 2 = Some (state_block (Some 0) 1 (Some 0) 2 True True)" "sample_index 3 = Some (state_block (Some 2) 2 (Some 0) 4 True True)"
  "sample_index 4 = Some (state_block (Some 1) 2 (Some 0) 5 False False)" "sample_index 5 = Some (state_block (Some 4) 3 (Some 1) 6 True False)"
  by (simp_all add: sample_index_def)

lemma sample_index_cases: "sample_index p = Some bi \<Longrightarrow> p \<in> {0, 1, 2, 3, 4, 5}"
  by (auto simp: sample_index_def split: if_splits)

lemma sample_index_dom: "dom sample_index = {0, 1, 2, 3, 4, 5}"
  by (auto simp: sample_index_def)

lemma sample_index_tree: "block_tree sample_index"
  unfolding block_tree_def using sample_index_cases by fastforce

lemma sample_index_heights [simp]:
  "height_of sample_index 0 = 0" "height_of sample_index (Suc 0) = 1" "height_of sample_index 2 = 1"
  "height_of sample_index 3 = 2" "height_of sample_index 4 = 2" "height_of sample_index 5 = 3"
  by (simp_all add: height_of_def)

lemma sample_index_skip: "skip_ok sample_index p"
proof -
  have sk: "GetSkipHeight (Suc 0) = 0" "GetSkipHeight 2 = 0" "GetSkipHeight 3 = 1"
    by (simp_all add: GetSkipHeight_def InvertLowestOne_def)
  show ?thesis
    unfolding skip_ok_def using sample_index_cases [of p] by (auto simp: sk)
qed

lemma complete_root:
  assumes "block_tree h" and "h p = Some bi" and "bi_pprev bi = None" and "\<not> is_failed bi" and "has_data bi"
  shows "complete h p"
proof -
  have zero: "bi_nHeight bi = 0" "height_of h p = 0"
    using assms(1,2) by (cases rule: block_tree_cases; use assms(2,3) in \<open>simp add: height_of_def\<close>)+
  have "n = 0" if "up h n p = Some q" for n q
    using that up_None [OF assms(1,2), of n] zero(2) by (cases n) auto
  then show ?thesis
    using assms zero(1) unfolding complete_def received_def by (metis option.distinct(1) option.inject up.simps(1))
qed

lemma complete_child:
  assumes "h p = Some bi" and "bi_pprev bi = Some q" and "complete h q" and "\<not> is_failed bi" and "has_data bi" and "bi_nChainTx bi \<noteq> 0"
  shows "complete h p"
proof -
  have "\<not> is_failed b \<and> has_data b" if "up h n p = Some x" "h x = Some b" for n x b
    using assms that unfolding complete_def by (cases n) auto
  then show ?thesis
    using received_parent [of h p bi q] assms(1,2,3,6) by (auto simp: complete_def)
qed

lemma sample_complete: "complete sample_index p \<longleftrightarrow> p \<in> {0, 1, 2, 3}"
proof
  assume c: "complete sample_index p"
  then obtain bi where bi: "sample_index p = Some bi"
    using complete_dom by blast
  have "p \<noteq> 4"
    using complete_self [OF c bi] bi by auto
  moreover have "p \<noteq> 5"
    using c bi up.simps(1) [of sample_index p] unfolding complete_def received_def by fastforce
  ultimately show "p \<in> {0, 1, 2, 3}"
    using sample_index_cases [OF bi] by auto
next
  have "complete sample_index 0"
    by (rule complete_root [OF sample_index_tree sample_index_simps(1)]) simp_all
  moreover from this have "complete sample_index (Suc 0)" "complete sample_index 2"
    using complete_child [of sample_index "Suc 0"] complete_child [of sample_index 2] by simp_all
  moreover from this have "complete sample_index 3"
    using complete_child [of sample_index 3] by simp
  ultimately show "p \<in> {0, 1, 2, 3} \<Longrightarrow> complete sample_index p"
    by auto
qed

lemma sample_tree_inv: "tree_inv sample_index"
proof -
  have "sized sample_index = dom sample_index"
    unfolding sized_def dom_def using sample_index_cases by fastforce
  moreover have "\<forall>p \<in> dom sample_index. up sample_index (height_of sample_index p) p = Some 0"
    by (simp add: sample_index_dom)
  ultimately show ?thesis
    using sample_index_tree sample_index_skip by (auto simp: tree_inv_def sample_index_dom)
qed

lemma sample_work_less:
  "work_less sample_index (Suc 0) 3" "\<not> work_less sample_index 3 (Suc 0)" "work_less sample_index 0 2" "work_less sample_index 2 (Suc 0)"
  "work_less sample_index 0 (Suc 0)" "\<not> work_less sample_index (Suc 0) (Suc 0)"
  by (simp_all add: work_less_def CompareTo_sign)

lemma sample_chain_inv: "t \<in> {0, 1, 2, 3} \<Longrightarrow> chain_inv (sample_state t U)"
  unfolding chain_inv_def sample_state_def
  using sample_tree_inv sample_complete sample_work_less sample_index_dom by (auto simp: complete_def)

lemma sample_verified:
  assumes "0 \<in> V" and "Suc 0 \<in> V"
  shows "verified V sample_index (Suc 0)"
  unfolding verified_def
proof (intro allI impI)
  fix n q
  assume q: "up sample_index n (Suc 0) = Some q"
  consider "n = 0" | "n = 1" | m where "n = Suc (Suc m)"
    by (metis One_nat_def not0_implies_Suc)
  then show "q \<in> V"
    by cases (use q assms in auto)
qed

lemma sample_position: "t \<in> {0, 1, 2, 3} \<Longrightarrow> position UNIV (sample_state t U) t 1"
  unfolding position_def threshold_def
  using sample_chain_inv sample_work_less
  by (auto simp: sample_complete sample_state_def cs_Tip_def verified_def)

lemma sample_contract: "node_contract (sample_env (invalid_at bad)) (=) (- bad) k"
  unfolding node_contract_def
proof (intro conjI)
  show "connect_frame (sample_env (invalid_at bad))"
    by (auto simp: connect_frame_def sample_env_def)
  show "connect_verdict (sample_env (invalid_at bad)) (=) (- bad) k"
    by (simp add: connect_verdict_def sample_env_def invalid_at_def)
  show "disconnect_coins (sample_env (invalid_at bad)) (=) k"
    by (auto simp: disconnect_coins_def sample_env_def)
qed

lemma sample_storage: "storage_ok (sample_env (invalid_at bad)) (=) k" "\<not> reports_corruption (sample_env (invalid_at bad)) (=) k"
  by (auto simp: storage_ok_def reports_corruption_def sample_env_def invalid_at_def)

lemma sample_state_simps [simp]:
  "cs_index (sample_state t U) = sample_index" "cs_unlinked (sample_state t U) = U" "cs_view (sample_state t U) = t"
  "cs_active (sample_state t U) = chain_of sample_index t" "set (cs_map (sample_state t U)) = dom sample_index"
  by (simp_all add: sample_state_def sample_index_dom)

lemma sample_position_1: "0 \<in> V \<Longrightarrow> Suc 0 \<in> V \<Longrightarrow> position V (sample_state 1 U) 1 1"
  using sample_position [of 1 U] sample_verified [of V] by (simp add: position_def)

lemma atMost_small: "{..Suc 0} = {0, Suc 0}" "{..2 :: nat} = {0, Suc 0, 2}" "{..3 :: nat} = {0, Suc 0, 2, 3}"
  by auto

lemma sample_chain_tx:
  "chain_tx sample_index 0 = 1" "chain_tx sample_index (Suc 0) = 2" "chain_tx sample_index 2 = 2" "chain_tx sample_index 3 = 3"
  by (simp_all add: chain_tx_def tx_of_def atMost_small)

lemma sample_received: "U = [] \<or> U = [(4, 5)] \<Longrightarrow> receive_inv [] (sample_state 1 U) 1"
proof -
  assume U: "U = [] \<or> U = [(4, 5)]"
  have "counted sample_index"
    unfolding counted_def
  proof (intro allI impI)
    fix p bi
    assume p: "sample_index p = Some bi" "bi_nChainTx bi \<noteq> 0"
    then have "p \<in> {0, 1, 2, 3}"
      using sample_index_cases [OF p(1)] by auto
    then show "received sample_index p \<and> unat (bi_nChainTx bi) = chain_tx sample_index p"
      using p(1) sample_chain_tx sample_complete [of p] by (auto simp: complete_def)
  qed
  moreover have "fits sample_index"
    using sample_chain_tx unfolding fits_def sample_index_dom by (simp add: chain_tx_def tx_of_def atMost_small)
  ultimately show ?thesis
    using sample_position [of 1 U] U by (auto simp: receive_inv_def position_def sample_state_def awaiting_def)
qed

section \<open>Choosing the best chain\<close>

text \<open>The candidate that is chosen is complete and no complete block is above it: candidates with a failed
  or missing ancestor are taken out on the way, so the search ends although it starts again after each.\<close>

theorem most_work_candidate:
  assumes "chain_inv s" and "threshold s t"
  shows "\<exists>c s'. FindMostWorkChain s = Some (Some c, s') \<and> chain_inv s' \<and> c \<in> set (cs_candidates s') \<and>
    complete (cs_index s') c \<and> (\<forall>p. complete (cs_index s') p \<longrightarrow> \<not> work_less (cs_index s') c p)"
  using FindMostWorkChain_best [OF assms] rejects_inv [OF _ assms(1)] by blast

theorem most_work_candidate_witness:
  "\<exists>c s'. FindMostWorkChain (sample_state 1 []) = Some (Some c, s') \<and> chain_inv s' \<and> c \<in> set (cs_candidates s') \<and>
    complete (cs_index s') c \<and> (\<forall>p. complete (cs_index s') p \<longrightarrow> \<not> work_less (cs_index s') c p)"
  using most_work_candidate [of "sample_state 1 []" 1] sample_position [of 1 "[]"] by (simp add: position_def)

text \<open>A complete block whose chain satisfies the rules and that is above every other complete block.\<close>

definition best_block :: "ptr set \<Rightarrow> index_heap \<Rightarrow> ptr \<Rightarrow> bool" where
  "best_block V h x \<longleftrightarrow> complete h x \<and> verified V h x \<and> (\<forall>y. complete h y \<longrightarrow> verified V h y \<longrightarrow> y \<noteq> x \<longrightarrow> work_less h y x)"

lemma best_block_is_tip:
  assumes "position V s' t \<theta>" and "tip_is_best s'" and "shrinks V s s'" and "best_block V (cs_index s) x"
  shows "cs_Tip s' = Some x"
proof -
  have skel: "skel (cs_index s') = skel (cs_index s)"
    using assms(3) by (simp add: shrinks_def)
  have t: "cs_Tip s' = Some t" "verified V (cs_index s') t" "complete (cs_index s') t"
    using assms(1) position_tip by (auto simp: position_def)
  have "complete (cs_index s') x"
    using assms(3,4) by (simp add: shrinks_def best_block_def)
  then have "\<not> work_less (cs_index s) t x"
    using assms(2) t(1) by (auto simp: tip_is_best_def skel_work_less [OF skel])
  moreover have "complete (cs_index s) t" "verified V (cs_index s) t"
    using assms(3) t skel_verified [OF skel] by (simp_all add: shrinks_def)
  ultimately have "t = x"
    using assms(4) unfolding best_block_def by blast
  then show ?thesis
    using t(1) by simp
qed



lemma corrupt_step:
  assumes pos: "position V s t \<theta>" and c: "cs_index s c = Some bi" "bi_pprev bi = Some t" "complete (cs_index s) c"
    and env: "ne_connect env (cs_index s) c (cs_view s) = (bi, ConnectFail (VInvalid True))"
  shows "ActivateBestChainStep env c s = Some (True, s)"
proof -
  let ?h = "cs_index s"
  have inv: "chain_inv s" "cs_Tip s = Some t"
    using pos by (simp_all add: position_def)
  note tree = chain_inv_tree [OF inv(1)]
  obtain bt where bt: "?h t = Some bt"
    using position_tip [OF pos] complete_dom by blast
  have heights: "bi_nHeight bi = bi_nHeight bt + 1"
    using tree(1) c(1) by (cases rule: block_tree_cases) (use c(2) bt in auto)
  have active: "Some t \<in> set (cs_active s)" "Some c \<notin> set (cs_active s)"
    using position_tip [OF pos] child_not_active [OF inv c(1,2)] by (metis chain_of_simps(3,4) last_in_set)+
  obtain r where r: "FindFork ?h (cs_active s) (Some c) = Some r"
    "case r of None \<Rightarrow> \<forall>n\<le>height_of ?h c. up ?h n c \<notin> set (cs_active s)
     | Some q \<Rightarrow> \<exists>n\<le>height_of ?h c. up ?h n c = Some q \<and> Some q \<in> set (cs_active s) \<and> (\<forall>m<n. up ?h m c \<notin> set (cs_active s))"
    using FindFork_last_common [OF tree(1,2,5) c(1)] inv(1) by blast
  have up1: "up ?h 1 c = Some t"
    using c(1,2) by simp
  have "1 \<le> height_of ?h c"
    using heights height_of_int [OF tree(1) c(1)] height_of_int [OF tree(1) bt] by simp
  then have "r \<noteq> None"
    using r(2) up1 active(1) by (metis (no_types, lifting) option.simps(4))
  then obtain f n where f: "r = Some f" "up ?h n c = Some f" "Some f \<in> set (cs_active s)" "\<forall>m<n. up ?h m c \<notin> set (cs_active s)"
    using r(2) by auto
  have "n \<noteq> 0"
    using f(2,3) active(2) by (metis option.inject up.simps(1))
  moreover have "\<not> 1 < n"
    using f(4) up1 active(1) by metis
  ultimately have "f = t"
    using f(2) up1 by (metis One_nat_def Suc_lessI neq0_conv option.inject)
  then have fork: "FindFork ?h (cs_active s) (Some c) = Some (Some t)"
    using r(1) f(1) by simp
  have same: "set_entry c bi s = s"
    using c(1) by (simp add: set_entry_def fun_upd_idem)
  have connect: "ConnectTip env c s = Some ((False, VInvalid True), s)"
    using c(1,2) inv(2) env by (simp add: ConnectTip_def same InvalidBlockFound_def)
  have start: "GetAncestor ?h c (bi_nHeight bi) = Some (Some c)"
    using GetAncestor_up [OF tree(1,2) c(1), of "bi_nHeight bi"] height_of_int [OF tree(1) c(1)] inv(1) by simp
  have path: "to_connect_loop ?h (bi_nHeight bt) (Some c) = Some [c]"
    using c(1,2) bt heights by (subst to_connect_loop.simps, simp, subst to_connect_loop.simps) simp
  have "batches_loop env (Some t) c (bi_nHeight bi) (bi_nHeight bt) s = Some (True, s)"
    using heights start path connect by (subst batches_loop.simps) simp
  then show ?thesis
    using fork disconnect_loop_at [OF inv(2)] c(1) bt inv(2) by (simp add: ActivateBestChainStep_def)
qed

text \<open>When connecting the candidate on top of the tip reports that the data may be corrupt, the block is
  not flagged and the activation tries the same block again without end.\<close>

theorem activation_diverges_on_corruption:
  assumes "position V s t \<theta>" and "FindMostWorkChain s = Some (Some c, s)"
    and "cs_index s c = Some bi" and "bi_pprev bi = Some t" and "complete (cs_index s) c"
    and "ne_connect env (cs_index s) c (cs_view s) = (bi, ConnectFail (VInvalid True))"
  shows "ActivateBestChain env s = None"
proof -
  have inv: "chain_inv s" "cs_Tip s = Some t"
    using assms(1) by (simp_all add: position_def)
  have step: "ActivateBestChainStep env c s = Some (True, s)"
    by (rule corrupt_step [OF assms(1,3-6)])
  have "c \<noteq> t"
    using child_not_active [OF inv assms(3,4)] position_tip [OF assms(1)] chain_of_simps(4)
    by (metis chain_of_simps(3) last_in_set)
  have "env' = env \<longrightarrow> s' \<noteq> s" if "ActivateBestChain env' s' = Some y" for env' s' y
  proof (rule ActivateBestChain.raw_induct [where P = "\<lambda>e x y. e = env \<longrightarrow> x \<noteq> s", OF _ that])
    fix f e x y
    assume IH: "\<And>e x y. f e x = Some y \<Longrightarrow> e = env \<longrightarrow> x \<noteq> s"
      and body: "FindMostWorkChain x \<bind>
        (\<lambda>r. case r of (None, s1) \<Rightarrow> Some (True, s1)
             | (Some p, s1) \<Rightarrow> if Some p = cs_Tip s1 then Some (True, s1)
                 else ActivateBestChainStep e p s1 \<bind>
                   (\<lambda>q. case q of (ok, s2) \<Rightarrow> if \<not> ok then Some (False, s2)
                        else if Some p = cs_Tip s2 then Some (ne_flush e (cs_view s2), s2) else f e s2)) = Some y"
    show "e = env \<longrightarrow> x \<noteq> s"
    proof (intro impI notI)
      assume "e = env" "x = s"
      then have "f e x = Some y"
        using body assms(2) step inv(2) \<open>c \<noteq> t\<close> by simp
      then show False
        using IH \<open>e = env\<close> \<open>x = s\<close> by blast
    qed
  qed
  then show ?thesis
    by (metis not_None_eq)
qed

theorem activation_diverges_on_corruption_witness:
  "ActivateBestChain (sample_env (\<lambda>p. ConnectFail (VInvalid True))) (sample_state 2 []) = None"
proof (rule activation_diverges_on_corruption [of UNIV _ 2 1 3])
  show "position UNIV (sample_state 2 []) 2 1"
    by (rule sample_position) simp
  have index: "cs_index (sample_state 2 []) = sample_index" "cs_candidates (sample_state 2 []) = [1, 3]"
    "cs_active (sample_state 2 []) = [Some 0, Some 2]"
    by (simp_all add: sample_state_def chain_of_def upt_conv_Cons)
  show "FindMostWorkChain (sample_state 2 []) = Some (Some 3, sample_state 2 [])"
    by (subst FindMostWorkChain.simps, subst test_path_loop.simps)
      (simp add: index chain_Contains_def chain_at_def, subst test_path_loop.simps,
        simp add: index chain_Contains_def chain_at_def)
qed (simp_all add: sample_state_def sample_complete sample_env_def)

section \<open>Receiving and invalidating blocks\<close>

text \<open>C10: When the data of a block whose parent is in the index arrive, its count of transactions is set and, when
  the parent is counted, the block and all blocks that wait for it in \<open>mapBlocksUnlinked\<close>, directly or below one
  another, become counted and leave that map; every other entry stays as it is, and the block is complete when
  its parent is and it is not flagged. When the parent is not counted the block is put in the map to wait
  (if the parent is a valid header) and nothing else changes. In both cases the counters that are set are
  the true numbers of transactions (which must fit 32 bits), the invariant is kept, and no complete block
  that is not below the tip is missing from the candidates.\<close>

theorem received_block_is_counted:
  assumes "receive_inv [] s t" and "cs_index s p = Some bi" and "bi_pprev bi = Some q" and "bi_nChainTx bi = 0"
    and "p \<notin> snd ` set (cs_unlinked s)" and "0 < nTx" and "nTx < 2 ^ 32"
    and "fits ((cs_index s)(p \<mapsto> bi\<lparr>bi_nTx := of_nat nTx\<rparr>))" and "cs_index s q = Some b"
  shows "\<exists>s'. ReceivedBlockTransactions pos_stake nTx pos p s = Some s' \<and> receive_inv [] s' t \<and>
    receives (cs_index s) (cs_index s') \<and> tx_of (cs_index s') p = nTx \<and>
    (if bi_nChainTx b \<noteq> 0
     then (\<forall>x. if waits_below (cs_unlinked s) p x then received (cs_index s') x else cs_index s' x = cs_index s x) \<and>
       set (cs_unlinked s') = {e \<in> set (cs_unlinked s). \<not> waits_below (cs_unlinked s) p (fst e)} \<and>
       (complete (cs_index s) q \<and> \<not> is_failed bi \<longrightarrow> complete (cs_index s') p)
     else (\<forall>x. x \<noteq> p \<longrightarrow> cs_index s' x = cs_index s x) \<and> \<not> received (cs_index s') p \<and>
       cs_unlinked s' = cs_unlinked s @
         (if \<not> is_failed b \<and> BLOCK_VALID_TREE \<le> bi_nStatus b AND BLOCK_VALID_MASK then [(q, p)] else []))"
  using assms by (rule ReceivedBlockTransactions_result)

lemma sample_fits: "fits (sample_index(4 \<mapsto> (state_block (Some 1) 2 (Some 0) 5 False False)\<lparr>bi_nTx := of_nat (Suc 0)\<rparr>))"
  unfolding fits_def by (auto simp: sample_index_dom chain_tx_def tx_of_def atMost_small height_of_def)

theorem received_block_is_counted_witness:
  "\<exists>s'. ReceivedBlockTransactions False 1 (0, 8) 4 (sample_state 1 [(4, 5)]) = Some s' \<and> receive_inv [] s' 1 \<and>
    tx_of (cs_index s') 4 = 1 \<and> complete (cs_index s') 4 \<and> received (cs_index s') 4 \<and> received (cs_index s') 5 \<and>
    cs_unlinked s' = []"
proof -
  have "waits_below [(4, 5)] 4 5" "waits_below [(4, 5)] 4 4"
    using waits_below.child [OF waits_below.self, of 4 5 "[(4, 5)]"] waits_below.self by auto
  then obtain s' where s': "ReceivedBlockTransactions False 1 (0, 8) 4 (sample_state 1 [(4, 5)]) = Some s'" "receive_inv [] s' 1"
    "tx_of (cs_index s') 4 = 1" "complete (cs_index s') 4" "received (cs_index s') 4" "received (cs_index s') 5"
    "set (cs_unlinked s') = {e \<in> {(4, 5)}. \<not> waits_below [(4, 5)] 4 (fst e)}"
    using received_block_is_counted [where pos_stake = False and pos = "(0, 8)" and nTx = "Suc 0", OF sample_received [of "[(4, 5)]"],
        unfolded sample_state_simps, OF _ sample_index_simps(5) _ _ _ _ _ sample_fits sample_index_simps(2)]
    by (auto simp: sample_complete)
  then have "cs_unlinked s' = []"
    using waits_below.self [of "[(4, 5)]" 4] by (simp flip: set_empty2)
  then show ?thesis
    using s' by blast
qed


lemma sample_new_best:
  assumes "ReceivedBlockTransactions False (Suc 0) (0, 8) 4 (sample_state 1 []) = Some s1"
  shows "best_block UNIV (cs_index s1) 4"
proof -
  have none: "\<not> waits_below [] 4 x" if "x \<noteq> 4" for x
    using that by (auto elim: waits_below.cases)
  have s1: "shape (cs_index s1) = shape sample_index" "x \<noteq> 4 \<Longrightarrow> cs_index s1 x = sample_index x" "complete (cs_index s1) 4" for x
    using ReceivedBlockTransactions_result [where pos_stake = False and pos = "(0, 8)" and nTx = "Suc 0", OF sample_received [of "[]"],
        unfolded sample_state_simps, OF _ sample_index_simps(5) _ _ _ _ _ sample_fits sample_index_simps(2)] assms none
    by (auto simp: receives_def sample_complete)
  have "shape (cs_index s1) 4 = shape sample_index 4"
    using s1(1) by simp
  then obtain b where b: "cs_index s1 4 = Some b" "bi_nChainWork b = [5, 0, 0, 0, 0, 0, 0, 0]"
    by (auto simp: shape_def)
  have "work_less (cs_index s1) y 4" if y: "complete (cs_index s1) y" "y \<noteq> 4" for y
  proof -
    obtain b' where "cs_index s1 y = Some b'"
      using complete_dom [OF y(1)] by blast
    then have e: "sample_index y = Some b'" "cs_index s1 y = Some b'"
      using s1(2) [OF y(2)] by simp_all
    have "y \<noteq> 5"
      using y(1) e up.simps(1) [of "cs_index s1" y] unfolding complete_def received_def by fastforce
    then consider "y = 0" | "y = Suc 0" | "y = 2" | "y = 3"
      using sample_index_cases [OF e(1)] y(2) by auto
    then show ?thesis
      by cases (use e b in \<open>auto simp: work_less_def CompareTo_sign\<close>)
  qed
  then show ?thesis
    using s1(3) by (simp add: best_block_def verified_def)
qed



lemma sample_counted: "counted_inv sample_index"
  unfolding counted_inv_def
proof (intro conjI allI impI)
  fix p bi
  assume p: "sample_index p = Some bi" "bi_nChainTx bi \<noteq> 0"
  then have "p \<in> {0, 1, 2, 3}"
    using sample_index_cases [OF p(1)] by auto
  then show "received sample_index p"
    using sample_complete [of p] by (simp add: complete_def)
next
  fix p bi
  assume p: "sample_index p = Some bi" "complete sample_index p"
  then show "bi_nChainTx bi \<noteq> 0" "BLOCK_VALID_TRANSACTIONS \<le> bi_nStatus bi AND BLOCK_VALID_MASK"
    using sample_complete [of p] by (auto simp: BLOCK_VALID_MASK_def)
qed


section \<open>Common ancestors\<close>

text \<open>The last common ancestor of two blocks of a tree with one root exists, and every common ancestor is an
  ancestor of it.\<close>

theorem last_common_ancestor_is_meet:
  assumes "tree_inv h" and "h p = Some a" and "h q = Some b"
  shows "\<exists>r. LastCommonAncestor h p q = Some (Some r) \<and> ancestor_of h r p \<and> ancestor_of h r q \<and>
    (\<forall>x. ancestor_of h x p \<longrightarrow> ancestor_of h x q \<longrightarrow> ancestor_of h x r)"
  using assms by (rule LastCommonAncestor_result)

theorem last_common_ancestor_is_meet_witness:
  "\<exists>r. LastCommonAncestor sample_index 4 3 = Some (Some r) \<and> ancestor_of sample_index r 4 \<and> ancestor_of sample_index r 3 \<and>
    (\<forall>x. ancestor_of sample_index x 4 \<longrightarrow> ancestor_of sample_index x 3 \<longrightarrow> ancestor_of sample_index x r)"
  by (rule last_common_ancestor_is_meet [OF sample_tree_inv sample_index_simps(5,4)])

end
