(* ===== verification/Coins.thy ===== *)
theory Coins
  imports Transaction "HOL-Library.Monad_Syntax"
begin

text \<open>
  The unspent outputs of one transaction, \<open>CCoins\<close> of \<open>src/coins.h\<close> and \<open>src/coins.cpp\<close>, the undo
  record of a spent output (\<open>CTxInUndo\<close> of \<open>src/undo.h\<close>) and the step of \<open>DisconnectBlock\<close>
  (\<open>src/main.cpp\<close>) that puts a spent output back.
\<close>

section \<open>Data\<close>

record CCoins =
  co_fCoinBase :: bool
  co_fCoinStake :: bool
  co_vout :: "CTxOut list"
  co_nHeight :: int
  co_nVersion :: "32 word"

definition emptyCoins :: CCoins where
  "emptyCoins = \<lparr>co_fCoinBase = False, co_fCoinStake = False, co_vout = [], co_nHeight = 0, co_nVersion = 0\<rparr>"

record CTxInUndo =
  un_txout :: CTxOut
  un_fCoinBase :: bool
  un_fCoinStake :: bool
  un_nHeight :: int
  un_nVersion :: "32 word"

definition mkTxInUndo :: "CTxOut \<Rightarrow> CTxInUndo" where
  "mkTxInUndo txoutIn =
     \<lparr>un_txout = txoutIn, un_fCoinBase = False, un_fCoinStake = False, un_nHeight = 0, un_nVersion = 0\<rparr>"

section \<open>Operations\<close>

definition Coins_Clear :: "CCoins \<Rightarrow> CCoins" where
  "Coins_Clear c = c\<lparr>co_fCoinBase := False, co_fCoinStake := False, co_vout := [], co_nHeight := 0, co_nVersion := 0\<rparr>"

text \<open>Dropping the null outputs at the end of the vector.\<close>

definition drop_null_back :: "CTxOut list \<Rightarrow> CTxOut list" where
  "drop_null_back outs = rev (dropWhile CTxOut_IsNull (rev outs))"

definition Coins_Cleanup :: "CCoins \<Rightarrow> CCoins" where
  "Coins_Cleanup c = c\<lparr>co_vout := drop_null_back (co_vout c)\<rparr>"

definition ClearUnspendable :: "CCoins \<Rightarrow> CCoins" where
  "ClearUnspendable c =
     Coins_Cleanup (c\<lparr>co_vout :=
       map (\<lambda>txout. if IsUnspendable (scriptPubKey txout) then CTxOut_SetNull else txout) (co_vout c)\<rparr>)"

text \<open>\<open>None\<close> where the test for a coinbase is undefined.\<close>

definition FromTx :: "CTransaction \<Rightarrow> int \<Rightarrow> CCoins option" where
  "FromTx tx nHeightIn = do {
     cb \<leftarrow> tx_IsCoinBase tx;
     Some (ClearUnspendable
       \<lparr>co_fCoinBase = cb, co_fCoinStake = tx_IsCoinStake tx, co_vout = vout tx,
        co_nHeight = nHeightIn, co_nVersion = nVersion tx\<rparr>) }"

definition IsPruned :: "CCoins \<Rightarrow> bool" where
  "IsPruned c \<longleftrightarrow> list_all CTxOut_IsNull (co_vout c)"

definition IsAvailable :: "CCoins \<Rightarrow> nat \<Rightarrow> bool" where
  "IsAvailable c nPos \<longleftrightarrow>
     nPos < length (co_vout c) \<and> \<not> CTxOut_IsNull (co_vout c ! nPos) \<and>
     \<not> IsZerocoinMint (scriptPubKey (co_vout c ! nPos))"

definition Coins_eq :: "CCoins \<Rightarrow> CCoins \<Rightarrow> bool" where
  "Coins_eq a b \<longleftrightarrow>
     (if IsPruned a \<and> IsPruned b then True
      else co_fCoinBase a = co_fCoinBase b \<and> co_fCoinStake a = co_fCoinStake b \<and>
           co_nHeight a = co_nHeight b \<and> co_nVersion a = co_nVersion b \<and> co_vout a = co_vout b)"

text \<open>
  Spending an output returns the undo record; when it was the last one, the record also gets
  the data of the transaction. \<open>None\<close> is the result \<open>false\<close>.
\<close>

definition Coins_Spend :: "CCoins \<Rightarrow> nat \<Rightarrow> (CCoins \<times> CTxInUndo) option" where
  "Coins_Spend c n =
     (if length (co_vout c) \<le> n then None
      else if CTxOut_IsNull (co_vout c ! n) then None
      else
        let undo = mkTxInUndo (co_vout c ! n);
            c' = Coins_Cleanup (c\<lparr>co_vout := (co_vout c)[n := CTxOut_SetNull]\<rparr>)
        in Some (c', if co_vout c' = []
             then undo\<lparr>un_nHeight := co_nHeight c', un_fCoinBase := co_fCoinBase c',
                       un_fCoinStake := co_fCoinStake c', un_nVersion := co_nVersion c'\<rparr>
             else undo))"

text \<open>The mask of the serialized form: bytes up to the last one used, and the number of bytes used.\<close>

definition mask_byte_used :: "CTxOut list \<Rightarrow> nat \<Rightarrow> bool" where
  "mask_byte_used outs b \<longleftrightarrow> list_ex (\<lambda>txout. \<not> CTxOut_IsNull txout) (take 8 (drop (2 + b * 8) outs))"

function mask_size_loop :: "CTxOut list \<Rightarrow> nat \<Rightarrow> nat \<Rightarrow> nat \<Rightarrow> nat \<times> nat" where
  "mask_size_loop outs b nLastUsedByte nNonzeroBytes =
     (if length outs \<le> 2 + b * 8 then (nLastUsedByte, nNonzeroBytes)
      else if mask_byte_used outs b then mask_size_loop outs (b + 1) (b + 1) (nNonzeroBytes + 1)
      else mask_size_loop outs (b + 1) nLastUsedByte nNonzeroBytes)"
  by pat_completeness auto
termination
  by (relation "measure (\<lambda>(outs, b, l, z). length outs - b)") auto

declare mask_size_loop.simps [simp del]

definition CalcMaskSize :: "CCoins \<Rightarrow> nat \<times> nat" where
  "CalcMaskSize c = mask_size_loop (co_vout c) 0 0 0"

text \<open>
  One turn of the loop of \<open>DisconnectBlock\<close> over the inputs: restore the output of \<open>out\<close> from its
  undo record. The flag is false when the step reports a corrupted database.
\<close>

definition restore_output :: "nat \<Rightarrow> CTxInUndo \<Rightarrow> CCoins \<Rightarrow> bool \<times> CCoins" where
  "restore_output n undo coins =
     (let clean1 = (if un_nHeight undo \<noteq> 0 then IsPruned coins else \<not> IsPruned coins);
          coins1 = (if un_nHeight undo \<noteq> 0
                    then (Coins_Clear coins)\<lparr>co_fCoinBase := un_fCoinBase undo,
                           co_nHeight := un_nHeight undo, co_nVersion := un_nVersion undo\<rparr>
                    else coins);
          clean2 = (\<not> IsAvailable coins1 n);
          outs = co_vout coins1 @ replicate (n + 1 - length (co_vout coins1)) CTxOut_SetNull
      in (clean1 \<and> clean2, coins1\<lparr>co_vout := outs[n := un_txout undo]\<rparr>))"

section \<open>Clean coins\<close>

text \<open>What the coins database holds: spent outputs are the null output, none of them is last.\<close>

definition coins_clean :: "CCoins \<Rightarrow> bool" where
  "coins_clean c \<longleftrightarrow>
     list_all (\<lambda>txout. CTxOut_IsNull txout \<longrightarrow> txout = CTxOut_SetNull) (co_vout c) \<and>
     (co_vout c \<noteq> [] \<longrightarrow> \<not> CTxOut_IsNull (last (co_vout c)))"

lemma SetNull_IsNull [simp]: "CTxOut_IsNull CTxOut_SetNull"
  by (simp add: CTxOut_IsNull_def CTxOut_SetNull_def mkTxOut_def)

lemma drop_null_back_snoc [simp]:
  "drop_null_back (outs @ [o']) = (if CTxOut_IsNull o' then drop_null_back outs else outs @ [o'])"
  by (simp add: drop_null_back_def)

lemma drop_null_back_Nil [simp]: "drop_null_back [] = []"
  by (simp add: drop_null_back_def)

lemma drop_null_back_split:
  "\<exists>nulls. outs = drop_null_back outs @ nulls \<and> list_all CTxOut_IsNull nulls \<and>
     (drop_null_back outs \<noteq> [] \<longrightarrow> \<not> CTxOut_IsNull (last (drop_null_back outs)))"
proof (induction outs rule: rev_induct)
  case Nil
  then show ?case by simp
next
  case (snoc o' outs)
  then obtain nulls where n: "outs = drop_null_back outs @ nulls" "list_all CTxOut_IsNull nulls"
    "drop_null_back outs \<noteq> [] \<longrightarrow> \<not> CTxOut_IsNull (last (drop_null_back outs))"
    by blast
  show ?case
  proof (cases "CTxOut_IsNull o'")
    case True
    then have "outs @ [o'] = drop_null_back (outs @ [o']) @ (nulls @ [o'])"
      using n(1) by simp
    then show ?thesis
      using n(2,3) True by (intro exI [of _ "nulls @ [o']"]) simp
  next
    case False
    then show ?thesis by simp
  qed
qed

lemma drop_null_back_id: "outs = [] \<or> \<not> CTxOut_IsNull (last outs) \<Longrightarrow> drop_null_back outs = outs"
  by (cases outs rule: rev_cases) auto

lemma drop_null_back_Nil_iff: "drop_null_back outs = [] \<longleftrightarrow> list_all CTxOut_IsNull outs"
  by (induction outs rule: rev_induct) auto

lemma IsPruned_clean: "coins_clean c \<Longrightarrow> IsPruned c \<longleftrightarrow> co_vout c = []"
  by (cases "co_vout c" rule: rev_cases) (auto simp: coins_clean_def IsPruned_def)

lemma set_drop_null_back: "set (drop_null_back outs) \<subseteq> set outs"
  using drop_null_back_split [of outs] by (metis Un_upper1 set_append)

lemma IsPruned_Cleanup [simp]: "IsPruned (Coins_Cleanup c) = IsPruned c"
proof -
  obtain nulls where "co_vout c = drop_null_back (co_vout c) @ nulls" "list_all CTxOut_IsNull nulls"
    using drop_null_back_split [of "co_vout c"] by blast
  then show ?thesis
    unfolding IsPruned_def Coins_Cleanup_def by simp (metis list_all_append)
qed

lemma coins_clean_Cleanup:
  assumes "list_all (\<lambda>txout. CTxOut_IsNull txout \<longrightarrow> txout = CTxOut_SetNull) (co_vout c)"
  shows "coins_clean (Coins_Cleanup c)"
  using drop_null_back_split [of "co_vout c"] assms set_drop_null_back [of "co_vout c"]
  by (auto simp: coins_clean_def Coins_Cleanup_def list_all_iff)

lemma Cleanup_clean:
  assumes "coins_clean c"
  shows "Coins_Cleanup c = c"
proof -
  have "drop_null_back (co_vout c) = co_vout c"
    using assms by (intro drop_null_back_id) (auto simp: coins_clean_def)
  then show ?thesis
    by (simp add: Coins_Cleanup_def)
qed

lemma coins_clean_Spend:
  assumes "coins_clean c" and "Coins_Spend c n = Some (c', undo)"
  shows "coins_clean c'"
proof -
  have "c' = Coins_Cleanup (c\<lparr>co_vout := (co_vout c)[n := CTxOut_SetNull]\<rparr>)"
    using assms(2) by (auto simp: Coins_Spend_def Let_def split: if_splits)
  moreover have "list_all (\<lambda>txout. CTxOut_IsNull txout \<longrightarrow> txout = CTxOut_SetNull)
      ((co_vout c)[n := CTxOut_SetNull])"
    using assms(1) set_update_subset_insert [of "co_vout c" n CTxOut_SetNull]
    by (auto simp: coins_clean_def list_all_iff)
  ultimately show ?thesis
    by (simp add: coins_clean_Cleanup)
qed

section \<open>Spending and restoring\<close>

lemma replicate_of_all_equal:
  "list_all (\<lambda>x. x = y) xs \<Longrightarrow> xs = replicate (length xs) y"
  by (induction xs) auto

text \<open>Padding with null outputs undoes the removal of the null outputs at the end.\<close>

lemma drop_null_back_pad:
  assumes "list_all (\<lambda>txout. CTxOut_IsNull txout \<longrightarrow> txout = CTxOut_SetNull) outs"
  shows "drop_null_back outs @ replicate (length outs - length (drop_null_back outs)) CTxOut_SetNull = outs"
proof -
  obtain nulls where n: "outs = drop_null_back outs @ nulls" "list_all CTxOut_IsNull nulls"
    using drop_null_back_split [of outs] by blast
  have "set nulls \<subseteq> set outs"
    using n(1) by (metis Un_upper2 set_append)
  then have "list_all (\<lambda>x. x = CTxOut_SetNull) nulls"
    using assms n(2) by (auto simp: list_all_iff)
  then have "nulls = replicate (length nulls) CTxOut_SetNull"
    by (rule replicate_of_all_equal)
  moreover have "length nulls = length outs - length (drop_null_back outs)"
    using n(1) by (metis add_diff_cancel_left' length_append)
  ultimately show ?thesis
    using n(1) by metis
qed

lemma restore_Spend_vout:
  assumes "coins_clean c" and n: "n < length (co_vout c)" "\<not> CTxOut_IsNull (co_vout c ! n)"
  defines "outs \<equiv> drop_null_back ((co_vout c)[n := CTxOut_SetNull])"
  shows "(outs @ replicate (n + 1 - length outs) CTxOut_SetNull)[n := co_vout c ! n] = co_vout c"
proof -
  let ?v = "(co_vout c)[n := CTxOut_SetNull]"
  have nulls: "list_all (\<lambda>txout. CTxOut_IsNull txout \<longrightarrow> txout = CTxOut_SetNull) ?v"
    using assms(1) set_update_subset_insert [of "co_vout c" n CTxOut_SetNull]
    by (auto simp: coins_clean_def list_all_iff)
  have pad: "outs @ replicate (length ?v - length outs) CTxOut_SetNull = ?v"
    unfolding outs_def by (rule drop_null_back_pad [OF nulls])
  show ?thesis
  proof (cases "n = length (co_vout c) - 1")
    case True
    then have "n + 1 - length outs = length ?v - length outs"
      using n by simp
    then show ?thesis
      using pad n(1) by simp
  next
    case False
    have "co_vout c \<noteq> []"
      using n(1) by auto
    moreover from this have "last ?v = last (co_vout c)"
      using n(1) False by (simp add: last_conv_nth)
    ultimately have "outs = ?v"
      using assms(1) unfolding outs_def coins_clean_def by (intro drop_null_back_id) simp
    then show ?thesis
      using n(1) by simp
  qed
qed

text \<open>
  Restoring is exact up to the flag of a coinstake: the record carries it when the last output
  was spent, but the step does not copy it back.
\<close>

lemma restore_Spend:
  assumes "coins_clean c" and "Coins_Spend c n = Some (c', undo)" and "co_nHeight c \<noteq> 0"
  shows "snd (restore_output n undo c') = c\<lparr>co_fCoinStake := co_fCoinStake c \<and> \<not> IsPruned c'\<rparr>"
proof -
  let ?outs = "drop_null_back ((co_vout c)[n := CTxOut_SetNull])"
  have n: "n < length (co_vout c)" "\<not> CTxOut_IsNull (co_vout c ! n)"
    and c': "c' = c\<lparr>co_vout := ?outs\<rparr>"
    and undo: "undo = (let u = mkTxInUndo (co_vout c ! n) in if ?outs = []
        then u\<lparr>un_nHeight := co_nHeight c, un_fCoinBase := co_fCoinBase c,
               un_fCoinStake := co_fCoinStake c, un_nVersion := co_nVersion c\<rparr> else u)"
    using assms(2) by (auto simp: Coins_Spend_def Coins_Cleanup_def Let_def split: if_splits)
  have vout: "(?outs @ replicate (n + 1 - length ?outs) CTxOut_SetNull)[n := co_vout c ! n] = co_vout c"
    by (rule restore_Spend_vout [OF assms(1) n])
  have pruned: "IsPruned c' \<longleftrightarrow> ?outs = []"
    using IsPruned_clean [OF coins_clean_Spend [OF assms(1,2)]] by (simp add: c')
  show ?thesis
  proof (cases "?outs = []")
    case True
    then show ?thesis
      using vout pruned assms(3) by (simp add: restore_output_def undo c' Coins_Clear_def mkTxInUndo_def Let_def)
  next
    case False
    then show ?thesis
      using vout pruned by (simp add: restore_output_def undo c' mkTxInUndo_def Let_def)
  qed
qed

end
