(* ===== verification/CoinsView.thy ===== *)
theory CoinsView
  imports Coins "HOL-Library.AList"
begin

text \<open>
  Views of the unspent outputs: the interface \<open>CCoinsView\<close>, the database behind it
  (\<open>CCoinsViewDB\<close> of \<open>src/txdb.cpp\<close>) and the write-back cache \<open>CCoinsViewCache\<close> of \<open>src/coins.cpp\<close>
  over any other view, so caches can be stacked.

  A view is a state and a record of operations on it. Reading may change the state, because a
  cache fills itself. A map of entries is an association list with distinct keys, in the order
  the loops visit it. The locale \<open>coins_view\<close> is the contract a cache relies on and provides: every
  view denotes one map from transaction hashes to unspent outputs, and a batch replaces the dirty
  entries in it.
\<close>

section \<open>Entries and views\<close>

record cache_entry =
  ce_coins :: CCoins
  ce_dirty :: bool
  ce_fresh :: bool

type_synonym coins_map = "(uint256 \<times> cache_entry) list"

record 'b view_ops =
  v_GetCoins :: "'b \<Rightarrow> uint256 \<Rightarrow> CCoins option \<times> 'b"
  v_GetBestBlock :: "'b \<Rightarrow> uint256 \<times> 'b"
  v_BatchWrite :: "'b \<Rightarrow> coins_map \<Rightarrow> uint256 \<Rightarrow> (bool \<times> 'b) option"

text \<open>What a pruned record means: nothing.\<close>

definition live :: "CCoins option \<Rightarrow> CCoins option" where
  "live r = (case r of None \<Rightarrow> None | Some c \<Rightarrow> if IsPruned c then None else Some c)"

definition entry_val :: "cache_entry \<Rightarrow> CCoins option" where
  "entry_val e = live (Some (ce_coins e))"

text \<open>The map after a batch: dirty entries replace, the others are ignored.\<close>

definition batch_val :: "coins_map \<Rightarrow> (uint256 \<Rightarrow> CCoins option) \<Rightarrow> uint256 \<Rightarrow> CCoins option" where
  "batch_val m f k =
     (case map_of m k of
        None \<Rightarrow> f k
      | Some e \<Rightarrow> if ce_dirty e then entry_val e else f k)"

text \<open>
  The contract. \<open>known\<close> are the transactions the view may be sent without the fresh mark: a cache
  asserts that it only gets fresh entries for the others.
\<close>

locale coins_view =
  fixes ops :: "'b view_ops" and inv :: "'b \<Rightarrow> bool"
    and val :: "'b \<Rightarrow> uint256 \<Rightarrow> CCoins option" and blk :: "'b \<Rightarrow> uint256"
    and known :: "'b \<Rightarrow> uint256 set"
  assumes get: "inv b \<Longrightarrow> v_GetCoins ops b k = (r, b') \<Longrightarrow>
      inv b' \<and> val b' = val b \<and> blk b' = blk b \<and> known b \<subseteq> known b' \<and> live r = val b k \<and>
      (live r \<noteq> None \<longrightarrow> k \<in> known b')"
    and best: "inv b \<Longrightarrow> v_GetBestBlock ops b = (x, b') \<Longrightarrow>
      inv b' \<and> val b' = val b \<and> blk b' = blk b \<and> known b \<subseteq> known b' \<and> x = blk b"
    and batch: "inv b \<Longrightarrow> distinct (map fst m) \<Longrightarrow>
      (\<And>k e. (k, e) \<in> set m \<Longrightarrow> ce_fresh e \<Longrightarrow> val b k = None) \<Longrightarrow>
      (\<And>k e. (k, e) \<in> set m \<Longrightarrow> \<not> ce_fresh e \<Longrightarrow> k \<in> known b) \<Longrightarrow> x \<noteq> 0 \<Longrightarrow>
      \<exists>b'. v_BatchWrite ops b m x = Some (True, b') \<and> inv b' \<and> val b' = batch_val m (val b) \<and> blk b' = x"

section \<open>The database\<close>

text \<open>
  The store of \<open>CCoinsViewDB\<close>, a finite map from keys to records and the best block; writing a
  batch is atomic and succeeds.
\<close>

record coins_db =
  db_coins :: "(uint256 \<times> CCoins) list"
  db_best :: uint256

definition db_GetCoins :: "coins_db \<Rightarrow> uint256 \<Rightarrow> CCoins option \<times> coins_db" where
  "db_GetCoins db txid = (map_of (db_coins db) txid, db)"

definition db_HaveCoins :: "coins_db \<Rightarrow> uint256 \<Rightarrow> bool" where
  "db_HaveCoins db txid = (map_of (db_coins db) txid \<noteq> None)"

definition db_GetBestBlock :: "coins_db \<Rightarrow> uint256 \<times> coins_db" where
  "db_GetBestBlock db = (db_best db, db)"

definition BatchWriteCoins :: "(uint256 \<times> CCoins) list \<Rightarrow> uint256 \<Rightarrow> CCoins \<Rightarrow> (uint256 \<times> CCoins) list" where
  "BatchWriteCoins store hash coins =
     (if IsPruned coins then AList.delete hash store else AList.update hash coins store)"

fun db_batch_loop :: "(uint256 \<times> CCoins) list \<Rightarrow> coins_map \<Rightarrow> (uint256 \<times> CCoins) list" where
  "db_batch_loop store [] = store"
| "db_batch_loop store ((k, e) # m) =
     db_batch_loop (if ce_dirty e then BatchWriteCoins store k (ce_coins e) else store) m"

definition db_BatchWrite :: "coins_db \<Rightarrow> coins_map \<Rightarrow> uint256 \<Rightarrow> (bool \<times> coins_db) option" where
  "db_BatchWrite db mapCoins hashBlock =
     (let db' = db\<lparr>db_coins := db_batch_loop (db_coins db) mapCoins\<rparr> in
      Some (True, if hashBlock \<noteq> 0 then db'\<lparr>db_best := hashBlock\<rparr> else db'))"

definition db_ops :: "coins_db view_ops" where
  "db_ops = \<lparr>v_GetCoins = db_GetCoins, v_GetBestBlock = db_GetBestBlock, v_BatchWrite = db_BatchWrite\<rparr>"

definition db_val :: "coins_db \<Rightarrow> uint256 \<Rightarrow> CCoins option" where
  "db_val db k = live (map_of (db_coins db) k)"

lemma live_simps [simp]: "live None = None" "IsPruned c \<Longrightarrow> live (Some c) = None"
  "\<not> IsPruned c \<Longrightarrow> live (Some c) = Some c"
  by (simp_all add: live_def)

lemma db_batch_loop_val:
  "distinct (map fst m) \<Longrightarrow>
    (\<lambda>k. live (map_of (db_batch_loop store m) k)) = batch_val m (\<lambda>k. live (map_of store k))"
proof (induction store m rule: db_batch_loop.induct)
  case (1 store)
  then show ?case by (simp add: batch_val_def)
next
  case (2 store k e m)
  then have new: "map_of m k = None"
    by (simp add: map_of_eq_None_iff)
  have "(\<lambda>x. live (map_of (if ce_dirty e then BatchWriteCoins store k (ce_coins e) else store) x)) =
      (\<lambda>x. if x = k \<and> ce_dirty e then entry_val e else live (map_of store x))"
    by (auto simp: BatchWriteCoins_def entry_val_def AList.update_conv AList.delete_conv fun_eq_iff)
  then show ?case
    using 2 new by (auto simp: batch_val_def fun_eq_iff)
qed

lemma db_val_eq: "db_val db = (\<lambda>k. live (map_of (db_coins db) k))"
  by (simp add: db_val_def fun_eq_iff)

interpretation db: coins_view db_ops "\<lambda>db. True" db_val db_best "\<lambda>db. UNIV"
proof
  fix b :: coins_db and m :: coins_map and x :: uint256
  assume m: "distinct (map fst m)" "x \<noteq> 0"
  then show "\<exists>b'. v_BatchWrite db_ops b m x = Some (True, b') \<and> True \<and>
      db_val b' = batch_val m (db_val b) \<and> db_best b' = x"
    using db_batch_loop_val [OF m(1), of "db_coins b"]
    by (simp add: db_ops_def db_BatchWrite_def db_val_eq Let_def)
qed (auto simp: db_ops_def db_GetCoins_def db_GetBestBlock_def db_val_def)

section \<open>The cache\<close>

record 'b coins_cache =
  cc_base :: 'b
  cc_hasModifier :: bool
  cc_hashBlock :: uint256
  cc_map :: coins_map

definition mkCache :: "'b \<Rightarrow> 'b coins_cache" where
  "mkCache b = \<lparr>cc_base = b, cc_hasModifier = False, cc_hashBlock = 0, cc_map = []\<rparr>"

definition FetchCoins :: "'b view_ops \<Rightarrow> 'b coins_cache \<Rightarrow> uint256 \<Rightarrow> cache_entry option \<times> 'b coins_cache" where
  "FetchCoins ops c txid =
     (case map_of (cc_map c) txid of
        Some e \<Rightarrow> (Some e, c)
      | None \<Rightarrow>
          (case v_GetCoins ops (cc_base c) txid of
             (None, b) \<Rightarrow> (None, c\<lparr>cc_base := b\<rparr>)
           | (Some coins, b) \<Rightarrow>
               let e = \<lparr>ce_coins = coins, ce_dirty = False, ce_fresh = IsPruned coins\<rparr>
               in (Some e, c\<lparr>cc_base := b, cc_map := AList.update txid e (cc_map c)\<rparr>)))"

definition cache_GetCoins :: "'b view_ops \<Rightarrow> 'b coins_cache \<Rightarrow> uint256 \<Rightarrow> CCoins option \<times> 'b coins_cache" where
  "cache_GetCoins ops c txid =
     (case FetchCoins ops c txid of (e, c') \<Rightarrow> (map_option ce_coins e, c'))"

definition cache_HaveCoins :: "'b view_ops \<Rightarrow> 'b coins_cache \<Rightarrow> uint256 \<Rightarrow> bool \<times> 'b coins_cache" where
  "cache_HaveCoins ops c txid =
     (case FetchCoins ops c txid of
        (e, c') \<Rightarrow> ((case e of None \<Rightarrow> False | Some e \<Rightarrow> co_vout (ce_coins e) \<noteq> []), c'))"

definition cache_GetBestBlock :: "'b view_ops \<Rightarrow> 'b coins_cache \<Rightarrow> uint256 \<times> 'b coins_cache" where
  "cache_GetBestBlock ops c =
     (if cc_hashBlock c = 0 then
        (case v_GetBestBlock ops (cc_base c) of (x, b) \<Rightarrow> (x, c\<lparr>cc_base := b, cc_hashBlock := x\<rparr>))
      else (cc_hashBlock c, c))"

definition SetBestBlock :: "'b coins_cache \<Rightarrow> uint256 \<Rightarrow> 'b coins_cache" where
  "SetBestBlock c hashBlockIn = c\<lparr>cc_hashBlock := hashBlockIn\<rparr>"

text \<open>One entry of a batch; \<open>None\<close> is the failed assertion that the entry is fresh.\<close>

definition batch_entry :: "coins_map \<Rightarrow> uint256 \<Rightarrow> cache_entry \<Rightarrow> coins_map option" where
  "batch_entry us k e =
     (if \<not> ce_dirty e then Some us
      else
        (case map_of us k of
           None \<Rightarrow>
             if IsPruned (ce_coins e) then Some us
             else if \<not> ce_fresh e then None
             else Some (AList.update k \<lparr>ce_coins = ce_coins e, ce_dirty = True, ce_fresh = True\<rparr> us)
         | Some u \<Rightarrow>
             if ce_fresh u \<and> IsPruned (ce_coins e) then Some (AList.delete k us)
             else Some (AList.update k (u\<lparr>ce_coins := ce_coins e, ce_dirty := True\<rparr>) us)))"

fun batch_loop :: "coins_map \<Rightarrow> coins_map \<Rightarrow> coins_map option" where
  "batch_loop us [] = Some us"
| "batch_loop us ((k, e) # m) =
     (case batch_entry us k e of None \<Rightarrow> None | Some us' \<Rightarrow> batch_loop us' m)"

definition cache_BatchWrite ::
  "'b coins_cache \<Rightarrow> coins_map \<Rightarrow> uint256 \<Rightarrow> (bool \<times> 'b coins_cache) option" where
  "cache_BatchWrite c mapCoins hashBlockIn =
     (if cc_hasModifier c then None
      else
        (case batch_loop (cc_map c) mapCoins of
           None \<Rightarrow> None
         | Some us \<Rightarrow> Some (True, c\<lparr>cc_map := us, cc_hashBlock := hashBlockIn\<rparr>)))"

definition cache_ops :: "'b view_ops \<Rightarrow> 'b coins_cache view_ops" where
  "cache_ops ops =
     \<lparr>v_GetCoins = cache_GetCoins ops, v_GetBestBlock = cache_GetBestBlock ops, v_BatchWrite = cache_BatchWrite\<rparr>"

definition Flush :: "'b view_ops \<Rightarrow> 'b coins_cache \<Rightarrow> (bool \<times> 'b coins_cache) option" where
  "Flush ops c =
     (case v_BatchWrite ops (cc_base c) (cc_map c) (cc_hashBlock c) of
        None \<Rightarrow> None
      | Some (fOk, b) \<Rightarrow> Some (fOk, c\<lparr>cc_base := b, cc_map := []\<rparr>))"

text \<open>
  A modification: \<open>ModifyCoins\<close> opens an entry, the caller changes its coins, and the destructor
  of \<open>CCoinsModifier\<close> cleans it up and drops it when the parent has no use for it.
\<close>

definition ModifyCoins :: "'b view_ops \<Rightarrow> 'b coins_cache \<Rightarrow> uint256 \<Rightarrow> 'b coins_cache option" where
  "ModifyCoins ops c txid =
     (if cc_hasModifier c then None
      else
        (case map_of (cc_map c) txid of
           Some e \<Rightarrow> Some (c\<lparr>cc_hasModifier := True, cc_map := AList.update txid (e\<lparr>ce_dirty := True\<rparr>) (cc_map c)\<rparr>)
         | None \<Rightarrow>
             (case v_GetCoins ops (cc_base c) txid of
                (r, b) \<Rightarrow>
                  let e = (case r of
                      None \<Rightarrow> \<lparr>ce_coins = emptyCoins, ce_dirty = True, ce_fresh = True\<rparr>
                    | Some coins \<Rightarrow> \<lparr>ce_coins = coins, ce_dirty = True, ce_fresh = IsPruned coins\<rparr>)
                  in Some (c\<lparr>cc_base := b, cc_hasModifier := True, cc_map := AList.update txid e (cc_map c)\<rparr>))))"

definition CoinsModifier_end :: "'b coins_cache \<Rightarrow> uint256 \<Rightarrow> 'b coins_cache option" where
  "CoinsModifier_end c txid =
     (if \<not> cc_hasModifier c then None
      else
        (case map_of (cc_map c) txid of
           None \<Rightarrow> None
         | Some e \<Rightarrow>
             let e' = e\<lparr>ce_coins := Coins_Cleanup (ce_coins e)\<rparr> in
             Some (c\<lparr>cc_hasModifier := False,
               cc_map := (if ce_fresh e' \<and> IsPruned (ce_coins e') then AList.delete txid (cc_map c)
                          else AList.update txid e' (cc_map c))\<rparr>)))"

definition modify_with ::
  "'b view_ops \<Rightarrow> 'b coins_cache \<Rightarrow> uint256 \<Rightarrow> (CCoins \<Rightarrow> (CCoins \<times> 'r) option) \<Rightarrow> ('r \<times> 'b coins_cache) option" where
  "modify_with ops c txid f =
     (case ModifyCoins ops c txid of
        None \<Rightarrow> None
      | Some c1 \<Rightarrow>
          (case map_of (cc_map c1) txid of
             None \<Rightarrow> None
           | Some e \<Rightarrow>
               (case f (ce_coins e) of
                  None \<Rightarrow> None
                | Some (coins, r) \<Rightarrow>
                    (case CoinsModifier_end
                         (c1\<lparr>cc_map := AList.update txid (e\<lparr>ce_coins := coins\<rparr>) (cc_map c1)\<rparr>) txid of
                       None \<Rightarrow> None
                     | Some c2 \<Rightarrow> Some (r, c2)))))"

end
