(* ===== verification/CoinsCache.thy ===== *)
theory CoinsCache
  imports CoinsView
begin

text \<open>
  The cache implements the contract of a view on top of any view that does, so the database, a
  cache over it, and a cache over that cache are all views of one map; flushing pushes the map
  down, and a modification changes it at one transaction only.
\<close>

section \<open>The meaning of a cache\<close>

definition entry_ok :: "(uint256 \<Rightarrow> CCoins option) \<Rightarrow> uint256 set \<Rightarrow> uint256 \<Rightarrow> cache_entry \<Rightarrow> bool" where
  "entry_ok f K k e \<longleftrightarrow>
     (if ce_fresh e then f k = None else k \<in> K) \<and> (ce_dirty e \<or> entry_val e = f k)"

definition entries_ok :: "(uint256 \<Rightarrow> CCoins option) \<Rightarrow> uint256 set \<Rightarrow> coins_map \<Rightarrow> bool" where
  "entries_ok f K us \<longleftrightarrow>
     distinct (map fst us) \<and> (\<forall>k e. map_of us k = Some e \<longrightarrow> entry_ok f K k e)"

definition map_val :: "(uint256 \<Rightarrow> CCoins option) \<Rightarrow> coins_map \<Rightarrow> uint256 \<Rightarrow> CCoins option" where
  "map_val f us k = (case map_of us k of None \<Rightarrow> f k | Some e \<Rightarrow> entry_val e)"

definition cache_inv ::
  "('b \<Rightarrow> bool) \<Rightarrow> ('b \<Rightarrow> uint256 \<Rightarrow> CCoins option) \<Rightarrow> ('b \<Rightarrow> uint256 set) \<Rightarrow> 'b coins_cache \<Rightarrow> bool" where
  "cache_inv P val known c \<longleftrightarrow>
     P (cc_base c) \<and> \<not> cc_hasModifier c \<and> entries_ok (val (cc_base c)) (known (cc_base c)) (cc_map c)"

definition cache_val :: "('b \<Rightarrow> uint256 \<Rightarrow> CCoins option) \<Rightarrow> 'b coins_cache \<Rightarrow> uint256 \<Rightarrow> CCoins option" where
  "cache_val val c = map_val (val (cc_base c)) (cc_map c)"

definition cache_blk :: "('b \<Rightarrow> uint256) \<Rightarrow> 'b coins_cache \<Rightarrow> uint256" where
  "cache_blk blk c = (if cc_hashBlock c = 0 then blk (cc_base c) else cc_hashBlock c)"

definition cache_known :: "'b coins_cache \<Rightarrow> uint256 set" where
  "cache_known c = dom (map_of (cc_map c))"

section \<open>Maps of entries\<close>

lemma entries_ok_update:
  assumes "entries_ok f K us" and "entry_ok f K k e"
  shows "entries_ok f K (AList.update k e us)"
  using assms distinct_update [of us k e] by (auto simp: entries_ok_def AList.update_conv)

lemma entries_ok_delete: "entries_ok f K us \<Longrightarrow> entries_ok f K (AList.delete k us)"
  using distinct_delete [of us k] by (auto simp: entries_ok_def AList.delete_conv)

lemma entries_ok_mono: "entries_ok f K us \<Longrightarrow> K \<subseteq> K' \<Longrightarrow> entries_ok f K' us"
  by (fastforce simp: entries_ok_def entry_ok_def split: if_splits)

lemma map_val_update [simp]: "map_val f (AList.update k e us) = (map_val f us)(k := entry_val e)"
  by (auto simp: map_val_def AList.update_conv fun_eq_iff)

lemma map_val_delete [simp]: "map_val f (AList.delete k us) = (map_val f us)(k := f k)"
  by (auto simp: map_val_def AList.delete_conv fun_eq_iff)

lemma map_val_Some: "map_of us k = Some e \<Longrightarrow> map_val f us k = entry_val e"
  by (simp add: map_val_def)

lemma batch_entry_ok:
  assumes us: "entries_ok f K us"
    and fresh: "ce_fresh e \<Longrightarrow> map_val f us k = None" and old: "\<not> ce_fresh e \<Longrightarrow> k \<in> dom (map_of us)"
  shows "\<exists>us'. batch_entry us k e = Some us' \<and> entries_ok f K us' \<and>
    map_val f us' = (if ce_dirty e then (map_val f us)(k := entry_val e) else map_val f us) \<and>
    (\<forall>x. x \<noteq> k \<longrightarrow> map_of us' x = map_of us x)"
proof (cases "ce_dirty e")
  case False
  then show ?thesis using us by (simp add: batch_entry_def)
next
  case dirty: True
  show ?thesis
  proof (cases "map_of us k")
    case None
    then have f: "ce_fresh e" "f k = None"
      using fresh old by (auto simp: map_val_def)
    show ?thesis
    proof (cases "IsPruned (ce_coins e)")
      case True
      then have "(map_val f us)(k := entry_val e) = map_val f us"
        using None f by (auto simp: map_val_def entry_val_def fun_eq_iff)
      then show ?thesis
        using True None dirty us by (simp add: batch_entry_def)
    next
      case False
      let ?e = "\<lparr>ce_coins = ce_coins e, ce_dirty = True, ce_fresh = True\<rparr>"
      have "entry_ok f K k ?e" "entry_val ?e = entry_val e"
        using f by (simp_all add: entry_ok_def entry_val_def)
      then show ?thesis
        using False None dirty f us entries_ok_update [OF us]
        by (simp add: batch_entry_def AList.update_conv)
    qed
  next
    case (Some u)
    have u: "entry_ok f K k u"
      using us Some by (simp add: entries_ok_def)
    show ?thesis
    proof (cases "ce_fresh u \<and> IsPruned (ce_coins e)")
      case True
      then have "entry_val e = f k"
        using u by (simp add: entry_ok_def entry_val_def)
      then show ?thesis
        using True Some dirty entries_ok_delete [OF us]
        by (simp add: batch_entry_def AList.delete_conv)
    next
      case False
      let ?e = "u\<lparr>ce_coins := ce_coins e, ce_dirty := True\<rparr>"
      have "entry_ok f K k ?e" "entry_val ?e = entry_val e"
        using u by (simp_all add: entry_ok_def entry_val_def)
      moreover have "batch_entry us k e = Some (AList.update k ?e us)"
        using False Some dirty by (auto simp: batch_entry_def)
      ultimately show ?thesis
        using dirty entries_ok_update [OF us, of k ?e] by (simp add: AList.update_conv)
    qed
  qed
qed

lemma batch_loop_ok:
  assumes "entries_ok f K us" and "distinct (map fst m)"
    and "\<And>k e. (k, e) \<in> set m \<Longrightarrow> ce_fresh e \<Longrightarrow> map_val f us k = None"
    and "\<And>k e. (k, e) \<in> set m \<Longrightarrow> \<not> ce_fresh e \<Longrightarrow> k \<in> dom (map_of us)"
  shows "\<exists>us'. batch_loop us m = Some us' \<and> entries_ok f K us' \<and> map_val f us' = batch_val m (map_val f us)"
  using assms
proof (induction us m rule: batch_loop.induct)
  case (1 us)
  then show ?case by (simp add: batch_val_def fun_eq_iff)
next
  case (2 us k e m)
  obtain us' where us': "batch_entry us k e = Some us'" "entries_ok f K us'"
    "map_val f us' = (if ce_dirty e then (map_val f us)(k := entry_val e) else map_val f us)"
    "\<forall>x. x \<noteq> k \<longrightarrow> map_of us' x = map_of us x"
    using batch_entry_ok [OF "2.prems"(1), of e k] "2.prems"(3,4) by (metis list.set_intros(1))
  have neq: "x \<noteq> k" if "(x, y) \<in> set m" for x y
    using "2.prems"(2) that by (force simp: image_iff)
  have "\<exists>us''. batch_loop us' m = Some us'' \<and> entries_ok f K us'' \<and> map_val f us'' = batch_val m (map_val f us')"
  proof (rule "2.IH" [OF us'(1,2)])
    show "distinct (map fst m)"
      using "2.prems"(2) by simp
    show "map_val f us' x = None" if "(x, y) \<in> set m" "ce_fresh y" for x y
      using "2.prems"(3) [of x y] that neq [OF that(1)] us'(4) by (simp add: map_val_def)
    show "x \<in> dom (map_of us')" if "(x, y) \<in> set m" "\<not> ce_fresh y" for x y
      using "2.prems"(4) [of x y] that neq [OF that(1)] us'(4) by (simp add: dom_def)
  qed
  moreover have "map_of m k = None"
    using "2.prems"(2) by (simp add: map_of_eq_None_iff)
  then have "batch_val m (map_val f us') = batch_val ((k, e) # m) (map_val f us)"
    by (intro ext) (simp add: us'(3) batch_val_def split: option.splits)
  ultimately show ?case
    using us'(1) by simp
qed

section \<open>The cache is a view\<close>

context coins_view
begin

lemma cache_base_step:
  assumes "cache_inv inv val known c" and "v_GetCoins ops (cc_base c) k = (r, b)"
  shows "inv b" and "val b = val (cc_base c)" and "blk b = blk (cc_base c)" and "val (cc_base c) k = live r"
    and "live r \<noteq> None \<Longrightarrow> k \<in> known b" and "entries_ok (val (cc_base c)) (known b) (cc_map c)"
proof -
  have "inv (cc_base c)" "entries_ok (val (cc_base c)) (known (cc_base c)) (cc_map c)"
    using assms(1) by (simp_all add: cache_inv_def)
  then show "inv b" "val b = val (cc_base c)" "blk b = blk (cc_base c)" "val (cc_base c) k = live r"
    "live r \<noteq> None \<Longrightarrow> k \<in> known b" "entries_ok (val (cc_base c)) (known b) (cc_map c)"
    using get [OF _ assms(2)] entries_ok_mono by auto
qed

lemma fetched_entry_ok:
  assumes "f k = live (Some coins)" and "\<not> IsPruned coins \<Longrightarrow> k \<in> K"
  shows "entry_ok f K k \<lparr>ce_coins = coins, ce_dirty = d, ce_fresh = IsPruned coins\<rparr>"
  using assms by (cases "IsPruned coins") (auto simp: entry_ok_def entry_val_def)

lemma FetchCoins_ok:
  assumes c: "cache_inv inv val known c" and fetch: "FetchCoins ops c k = (r, c')"
  shows "cache_inv inv val known c' \<and> cache_val val c' = cache_val val c \<and> cache_blk blk c' = cache_blk blk c \<and>
    cache_known c \<subseteq> cache_known c' \<and> live (map_option ce_coins r) = cache_val val c k \<and>
    (live (map_option ce_coins r) \<noteq> None \<longrightarrow> k \<in> cache_known c')"
proof (cases "map_of (cc_map c) k")
  case (Some e)
  then have "r = Some e" "c' = c"
    using fetch by (simp_all add: FetchCoins_def)
  then show ?thesis
    using Some c by (simp add: cache_val_def map_val_Some entry_val_def cache_known_def dom_def)
next
  case None
  obtain r0 b where get0: "v_GetCoins ops (cc_base c) k = (r0, b)"
    by fastforce
  note base = cache_base_step [OF c get0]
  have mod: "\<not> cc_hasModifier c"
    using c by (simp add: cache_inv_def)
  show ?thesis
  proof (cases r0)
    case None: None
    then have "r = None" "c' = c\<lparr>cc_base := b\<rparr>"
      using fetch \<open>map_of (cc_map c) k = None\<close> get0 by (auto simp: FetchCoins_def)
    then show ?thesis
      using base None \<open>map_of (cc_map c) k = None\<close> mod
      by (simp add: cache_inv_def cache_val_def cache_blk_def cache_known_def map_val_def)
  next
    case (Some coins)
    let ?e = "\<lparr>ce_coins = coins, ce_dirty = False, ce_fresh = IsPruned coins\<rparr>"
    have c': "r = Some ?e" "c' = c\<lparr>cc_base := b, cc_map := AList.update k ?e (cc_map c)\<rparr>"
      using fetch None get0 Some by (auto simp: FetchCoins_def Let_def)
    have "entry_ok (val (cc_base c)) (known b) k ?e"
      using base(4,5) Some by (intro fetched_entry_ok) auto
    then have "entries_ok (val b) (known b) (AList.update k ?e (cc_map c))"
      using entries_ok_update [OF base(6)] base(2) by simp
    moreover have "(cache_val val c)(k := entry_val ?e) = cache_val val c"
      using None base(4) Some by (auto simp: cache_val_def map_val_def entry_val_def fun_eq_iff)
    ultimately show ?thesis
      using base(1,2,3,4) mod Some None
      by (auto simp: c' cache_inv_def cache_val_def cache_blk_def cache_known_def AList.update_conv
          map_val_def entry_val_def)
  qed
qed

lemma cache_GetBestBlock_ok:
  assumes c: "cache_inv inv val known c" and fetch: "cache_GetBestBlock ops c = (x, c')"
  shows "cache_inv inv val known c' \<and> cache_val val c' = cache_val val c \<and> cache_blk blk c' = cache_blk blk c \<and>
    cache_known c \<subseteq> cache_known c' \<and> x = cache_blk blk c"
proof (cases "cc_hashBlock c = 0")
  case True
  obtain y b where best0: "v_GetBestBlock ops (cc_base c) = (y, b)"
    by fastforce
  then have "x = y" "c' = c\<lparr>cc_base := b, cc_hashBlock := y\<rparr>"
    using fetch True by (auto simp: cache_GetBestBlock_def)
  moreover have "inv b \<and> val b = val (cc_base c) \<and> blk b = blk (cc_base c) \<and>
      known (cc_base c) \<subseteq> known b \<and> y = blk (cc_base c)"
    using best [OF _ best0] c by (simp add: cache_inv_def)
  ultimately show ?thesis
    using c True entries_ok_mono
    by (auto simp: cache_inv_def cache_val_def cache_blk_def cache_known_def)
next
  case False
  then show ?thesis
    using fetch c by (auto simp: cache_GetBestBlock_def cache_blk_def)
qed

lemma cache_coins_view:
  "coins_view (cache_ops ops) (cache_inv inv val known) (cache_val val) (cache_blk blk) cache_known"
proof
  fix c c' :: "'b coins_cache" and k r
  assume "cache_inv inv val known c" "v_GetCoins (cache_ops ops) c k = (r, c')"
  then show "cache_inv inv val known c' \<and> cache_val val c' = cache_val val c \<and> cache_blk blk c' = cache_blk blk c \<and>
      cache_known c \<subseteq> cache_known c' \<and> live r = cache_val val c k \<and> (live r \<noteq> None \<longrightarrow> k \<in> cache_known c')"
    using FetchCoins_ok [of c k] by (auto simp: cache_ops_def cache_GetCoins_def split: prod.splits)
next
  fix c c' :: "'b coins_cache" and x
  assume "cache_inv inv val known c" "v_GetBestBlock (cache_ops ops) c = (x, c')"
  then show "cache_inv inv val known c' \<and> cache_val val c' = cache_val val c \<and> cache_blk blk c' = cache_blk blk c \<and>
      cache_known c \<subseteq> cache_known c' \<and> x = cache_blk blk c"
    using cache_GetBestBlock_ok by (simp add: cache_ops_def)
next
  fix c :: "'b coins_cache" and m :: coins_map and x :: uint256
  assume c: "cache_inv inv val known c" and m: "distinct (map fst m)"
    and fresh: "\<And>k e. (k, e) \<in> set m \<Longrightarrow> ce_fresh e \<Longrightarrow> cache_val val c k = None"
    and old: "\<And>k e. (k, e) \<in> set m \<Longrightarrow> \<not> ce_fresh e \<Longrightarrow> k \<in> cache_known c" and x: "x \<noteq> 0"
  let ?f = "val (cc_base c)" and ?K = "known (cc_base c)"
  have us: "entries_ok ?f ?K (cc_map c)" and mod: "\<not> cc_hasModifier c" "inv (cc_base c)"
    using c by (simp_all add: cache_inv_def)
  obtain us' where "batch_loop (cc_map c) m = Some us'" "entries_ok ?f ?K us'"
    "map_val ?f us' = batch_val m (map_val ?f (cc_map c))"
    using batch_loop_ok [OF us m] fresh old unfolding cache_val_def cache_known_def by blast
  then show "\<exists>c'. v_BatchWrite (cache_ops ops) c m x = Some (True, c') \<and> cache_inv inv val known c' \<and>
      cache_val val c' = batch_val m (cache_val val c) \<and> cache_blk blk c' = x"
    using mod x by (simp add: cache_ops_def cache_BatchWrite_def cache_inv_def cache_val_def cache_blk_def)
qed

text \<open>A new cache is transparent.\<close>

lemma mkCache_ok:
  "inv b \<Longrightarrow> cache_inv inv val known (mkCache b) \<and> cache_val val (mkCache b) = val b \<and> cache_blk blk (mkCache b) = blk b"
  by (simp add: mkCache_def cache_inv_def entries_ok_def cache_val_def map_val_def cache_blk_def fun_eq_iff)

text \<open>Flushing moves the whole map into the parent and changes nothing for the reader.\<close>

lemma entries_ok_set: "entries_ok f K us \<Longrightarrow> (k, e) \<in> set us \<Longrightarrow> entry_ok f K k e"
  by (auto simp: entries_ok_def)

lemma Flush_ok:
  assumes c: "cache_inv inv val known c" and "cc_hashBlock c \<noteq> 0"
  shows "\<exists>c'. Flush ops c = Some (True, c') \<and> cache_inv inv val known c' \<and>
    val (cc_base c') = cache_val val c \<and> blk (cc_base c') = cache_blk blk c \<and>
    cache_val val c' = cache_val val c \<and> cache_blk blk c' = cache_blk blk c"
proof -
  let ?f = "val (cc_base c)" and ?K = "known (cc_base c)" and ?m = "cc_map c"
  have us: "entries_ok ?f ?K ?m" and mod: "\<not> cc_hasModifier c" "inv (cc_base c)"
    using c by (simp_all add: cache_inv_def)
  have "\<exists>b'. v_BatchWrite ops (cc_base c) ?m (cc_hashBlock c) = Some (True, b') \<and> inv b' \<and>
      val b' = batch_val ?m ?f \<and> blk b' = cc_hashBlock c"
  proof (rule batch [OF mod(2) _ _ _ assms(2)])
    show "distinct (map fst ?m)"
      using us by (simp add: entries_ok_def)
    show "?f k = None" if "(k, e) \<in> set ?m" "ce_fresh e" for k e
      using entries_ok_set [OF us that(1)] that(2) by (simp add: entry_ok_def)
    show "k \<in> ?K" if "(k, e) \<in> set ?m" "\<not> ce_fresh e" for k e
      using entries_ok_set [OF us that(1)] that(2) by (simp add: entry_ok_def)
  qed
  then obtain b' where b': "v_BatchWrite ops (cc_base c) ?m (cc_hashBlock c) = Some (True, b')" "inv b'"
    "val b' = batch_val ?m ?f" "blk b' = cc_hashBlock c"
    by blast
  have "batch_val ?m ?f = cache_val val c"
  proof
    fix k
    show "batch_val ?m ?f k = cache_val val c k"
    proof (cases "map_of ?m k")
      case (Some e)
      then have "entry_ok ?f ?K k e"
        using us by (simp add: entries_ok_def)
      then show ?thesis
        using Some by (auto simp: batch_val_def cache_val_def map_val_def entry_ok_def)
    qed (simp add: batch_val_def cache_val_def map_val_def)
  qed
  then show ?thesis
    using b' mod assms(2)
    by (auto simp: Flush_def cache_inv_def entries_ok_def cache_val_def cache_blk_def map_val_def fun_eq_iff)
qed

text \<open>A modification acts on the current coins, or on empty ones, and changes one transaction.\<close>

lemma modify_with_ok:
  assumes c: "cache_inv inv val known c"
  shows "\<exists>raw. live (Some raw) = cache_val val c k \<and>
    (case f raw of
       None \<Rightarrow> modify_with ops c k f = None
     | Some (coins, r) \<Rightarrow>
         \<exists>c'. modify_with ops c k f = Some (r, c') \<and> cache_inv inv val known c' \<and>
           cache_val val c' = (cache_val val c)(k := live (Some (Coins_Cleanup coins))) \<and>
           cache_blk blk c' = cache_blk blk c)"
proof -
  have mod: "\<not> cc_hasModifier c" and us: "entries_ok (val (cc_base c)) (known (cc_base c)) (cc_map c)"
    using c by (simp_all add: cache_inv_def)
  have opened: "\<exists>e b. ModifyCoins ops c k = Some (c\<lparr>cc_base := b, cc_hasModifier := True,
        cc_map := AList.update k e (cc_map c)\<rparr>) \<and> ce_dirty e \<and> entry_val e = cache_val val c k \<and>
      entry_ok (val b) (known b) k e \<and> inv b \<and> val b = val (cc_base c) \<and> blk b = blk (cc_base c) \<and>
      entries_ok (val b) (known b) (cc_map c)"
  proof (cases "map_of (cc_map c) k")
    case (Some e)
    then have "entry_ok (val (cc_base c)) (known (cc_base c)) k (e\<lparr>ce_dirty := True\<rparr>)"
      using us by (auto simp: entries_ok_def entry_ok_def)
    then show ?thesis
      using Some c us mod
      by (intro exI [of _ "e\<lparr>ce_dirty := True\<rparr>"] exI [of _ "cc_base c"])
        (simp add: ModifyCoins_def cache_inv_def cache_val_def map_val_def entry_val_def)
  next
    case None
    obtain r b where get0: "v_GetCoins ops (cc_base c) k = (r, b)"
      by fastforce
    note base = cache_base_step [OF c get0]
    let ?e = "case r of None \<Rightarrow> \<lparr>ce_coins = emptyCoins, ce_dirty = True, ce_fresh = True\<rparr>
      | Some coins \<Rightarrow> \<lparr>ce_coins = coins, ce_dirty = True, ce_fresh = IsPruned coins\<rparr>"
    have "IsPruned emptyCoins"
      by (simp add: IsPruned_def emptyCoins_def)
    then have "entry_val ?e = live r \<and> ce_dirty ?e"
      by (cases r) (simp_all add: entry_val_def)
    moreover have "entry_ok (val (cc_base c)) (known b) k ?e"
      using base(4,5) fetched_entry_ok [of "val (cc_base c)" k _ "known b" True]
      by (cases r) (auto simp: entry_ok_def)
    moreover have "live r = cache_val val c k"
      using None base(4) by (simp add: cache_val_def map_val_def)
    ultimately show ?thesis
      using None get0 base mod
      by (intro exI [of _ ?e] exI [of _ b]) (simp add: ModifyCoins_def)
  qed
  then obtain e b where e: "ModifyCoins ops c k = Some (c\<lparr>cc_base := b, cc_hasModifier := True,
        cc_map := AList.update k e (cc_map c)\<rparr>)" "ce_dirty e" "entry_val e = cache_val val c k"
      "entry_ok (val b) (known b) k e" "inv b" "val b = val (cc_base c)" "blk b = blk (cc_base c)"
      "entries_ok (val b) (known b) (cc_map c)"
    by blast
  show ?thesis
  proof (intro exI [of _ "ce_coins e"] conjI)
    show "live (Some (ce_coins e)) = cache_val val c k"
      using e(3) by (simp add: entry_val_def)
    show "case f (ce_coins e) of
       None \<Rightarrow> modify_with ops c k f = None
     | Some (coins, r) \<Rightarrow>
         \<exists>c'. modify_with ops c k f = Some (r, c') \<and> cache_inv inv val known c' \<and>
           cache_val val c' = (cache_val val c)(k := live (Some (Coins_Cleanup coins))) \<and>
           cache_blk blk c' = cache_blk blk c"
    proof (cases "f (ce_coins e)")
      case None
      then show ?thesis
        by (simp add: modify_with_def e(1) AList.update_conv)
    next
      case (Some p)
      obtain coins r where p: "p = (coins, r)"
        by fastforce
      let ?e = "e\<lparr>ce_coins := Coins_Cleanup coins\<rparr>"
      let ?us = "AList.update k (e\<lparr>ce_coins := coins\<rparr>) (AList.update k e (cc_map c))"
      let ?c = "c\<lparr>cc_base := b, cc_hasModifier := False,
        cc_map := (if ce_fresh e \<and> IsPruned coins then AList.delete k ?us else AList.update k ?e ?us)\<rparr>"
      have ok: "entry_ok (val b) (known b) k (e\<lparr>ce_coins := x\<rparr>)" for x
        using e(2,4) by (simp add: entry_ok_def)
      have run: "modify_with ops c k f = Some (r, ?c)"
        by (simp add: modify_with_def e(1) Some p AList.update_conv CoinsModifier_end_def Let_def)
      have us': "entries_ok (val b) (known b) ?us"
        by (intro entries_ok_update e(8) e(4) ok)
      have "cache_inv inv val known ?c"
        using entries_ok_delete [OF us'] entries_ok_update [OF us' ok] e(5) by (simp add: cache_inv_def)
      moreover have "cache_val val ?c = (cache_val val c)(k := live (Some (Coins_Cleanup coins)))"
      proof (cases "ce_fresh e \<and> IsPruned coins")
        case True
        then have "val (cc_base c) k = None"
          using e(4,6) by (simp add: entry_ok_def)
        then show ?thesis
          using True by (simp add: cache_val_def e(6))
      next
        case False
        then have "cc_map ?c = AList.update k ?e ?us"
          by auto
        then show ?thesis
          by (simp add: cache_val_def e(6) entry_val_def)
      qed
      moreover have "cache_blk blk ?c = cache_blk blk c"
        using e(7) by (simp add: cache_blk_def)
      ultimately show ?thesis
        using run Some p by auto
    qed
  qed
qed

end

text \<open>The cache over the database, and the cache over that cache which blocks are connected with.\<close>

interpretation dbcache: coins_view "cache_ops db_ops" "cache_inv (\<lambda>db. True) db_val (\<lambda>db. UNIV)"
  "cache_val db_val" "cache_blk db_best" cache_known
  by (rule db.cache_coins_view)

interpretation blockcache: coins_view "cache_ops (cache_ops db_ops)"
  "cache_inv (cache_inv (\<lambda>db. True) db_val (\<lambda>db. UNIV)) (cache_val db_val) cache_known"
  "cache_val (cache_val db_val)" "cache_blk (cache_blk db_best)" cache_known
  by (rule dbcache.cache_coins_view)

end
