(* ===== verification/Utxo.thy ===== *)
theory Utxo
  imports CoinsCache SigHash
begin

text \<open>
  Applying a transaction to the set of unspent outputs: \<open>UpdateCoins\<close>, the checks of
  \<open>CheckInputs\<close>, and the part of \<open>DisconnectBlock\<close> that takes a transaction back (\<open>src/main.cpp\<close>),
  on the cache of \<open>CoinsView\<close>. The zerocoin databases that \<open>DisconnectBlock\<close> also updates are not
  part of the view.
\<close>

section \<open>Reading inputs\<close>

definition tx_GetHash :: "hash_funs \<Rightarrow> CTransaction \<Rightarrow> uint256" where
  "tx_GetHash H tx = uint256_of_bytes (CHash256 H (ser_tx tx))"

text \<open>\<open>!tx.IsCoinBase() && !tx.IsZerocoinSpend()\<close>.\<close>

definition has_inputs :: "CTransaction \<Rightarrow> bool option" where
  "has_inputs tx = do {
     cb \<leftarrow> tx_IsCoinBase tx;
     if cb then Some False else map_option Not (tx_IsZerocoinSpend tx) }"

definition AccessCoins :: "'b view_ops \<Rightarrow> 'b coins_cache \<Rightarrow> uint256 \<Rightarrow> CCoins option \<times> 'b coins_cache" where
  "AccessCoins ops c txid = (case FetchCoins ops c txid of (e, c') \<Rightarrow> (map_option ce_coins e, c'))"

fun have_inputs_loop :: "'b view_ops \<Rightarrow> 'b coins_cache \<Rightarrow> CTxIn list \<Rightarrow> bool \<times> 'b coins_cache" where
  "have_inputs_loop ops c [] = (True, c)"
| "have_inputs_loop ops c (txin # ins) =
     (case AccessCoins ops c (out_hash (prevout txin)) of
        (None, c') \<Rightarrow> (False, c')
      | (Some coins, c') \<Rightarrow>
          if IsAvailable coins (unat (out_n (prevout txin))) then have_inputs_loop ops c' ins
          else (False, c'))"

definition HaveInputs :: "'b view_ops \<Rightarrow> 'b coins_cache \<Rightarrow> CTransaction \<Rightarrow> (bool \<times> 'b coins_cache) option" where
  "HaveInputs ops c tx = do {
     b \<leftarrow> has_inputs tx;
     Some (if b then have_inputs_loop ops c (vin tx) else (True, c)) }"

text \<open>\<open>None\<close>: the assertion that the output is available.\<close>

definition GetOutputFor :: "'b view_ops \<Rightarrow> 'b coins_cache \<Rightarrow> CTxIn \<Rightarrow> (CTxOut \<times> 'b coins_cache) option" where
  "GetOutputFor ops c txin =
     (case AccessCoins ops c (out_hash (prevout txin)) of
        (None, c') \<Rightarrow> None
      | (Some coins, c') \<Rightarrow>
          if IsAvailable coins (unat (out_n (prevout txin)))
          then Some (co_vout coins ! unat (out_n (prevout txin)), c') else None)"

fun value_in_loop :: "'b view_ops \<Rightarrow> 'b coins_cache \<Rightarrow> CAmount \<Rightarrow> CTxIn list \<Rightarrow> (CAmount \<times> 'b coins_cache) option" where
  "value_in_loop ops c nResult [] = Some (nResult, c)"
| "value_in_loop ops c nResult (txin # ins) = do {
     (txout, c') \<leftarrow> GetOutputFor ops c txin;
     value_in_loop ops c' (nResult + nValue txout) ins }"

section \<open>Checking inputs\<close>

record money_params =
  MaxMoneyOut :: int
  COINBASE_MATURITY :: int

definition MoneyRange :: "money_params \<Rightarrow> CAmount \<Rightarrow> bool" where
  "MoneyRange params nValueOut \<longleftrightarrow> 0 \<le> sint nValueOut \<and> sint nValueOut \<le> MaxMoneyOut params"

datatype tx_fail =
    TxUndefined
  | InputsUnavailable
  | PrematureSpend
  | InputValuesOutOfRange
  | OutputsInvalid value_error
  | InBelowOut
  | FeeNegative
  | FeeOutOfRange
  | NonMandatoryScriptFail
  | MandatoryScriptFail

text \<open>The cheap checks of every input: maturity of what was minted, and values in range.\<close>

fun check_values_loop ::
  "money_params \<Rightarrow> 'b view_ops \<Rightarrow> int \<Rightarrow> 'b coins_cache \<Rightarrow> CAmount \<Rightarrow> CTxIn list \<Rightarrow>
   tx_fail + CAmount \<times> 'b coins_cache" where
  "check_values_loop params ops nSpendHeight c nValueIn [] = Inr (nValueIn, c)"
| "check_values_loop params ops nSpendHeight c nValueIn (txin # ins) =
     (case AccessCoins ops c (out_hash (prevout txin)) of
        (None, c') \<Rightarrow> Inl TxUndefined
      | (Some coins, c') \<Rightarrow>
          if (co_fCoinBase coins \<or> co_fCoinStake coins) \<and>
             nSpendHeight - co_nHeight coins < COINBASE_MATURITY params then Inl PrematureSpend
          else if length (co_vout coins) \<le> unat (out_n (prevout txin)) then Inl TxUndefined
          else
            let v = nValue (co_vout coins ! unat (out_n (prevout txin)));
                nValueIn' = nValueIn + v
            in if \<not> MoneyRange params v \<or> \<not> MoneyRange params nValueIn' then Inl InputValuesOutOfRange
               else check_values_loop params ops nSpendHeight c' nValueIn' ins)"

definition check_fees :: "money_params \<Rightarrow> CTransaction \<Rightarrow> CAmount \<Rightarrow> tx_fail + unit" where
  "check_fees params tx nValueIn =
     (if tx_IsCoinStake tx then Inr ()
      else
        (case tx_GetValueOut tx of
           Inl e \<Rightarrow> Inl (OutputsInvalid e)
         | Inr nValueOut \<Rightarrow>
             if nValueIn <s nValueOut then Inl InBelowOut
             else
               let nTxFee = nValueIn - nValueOut in
               if nTxFee <s 0 then Inl FeeNegative
               else if \<not> MoneyRange params nTxFee then Inl FeeOutOfRange
               else Inr ()))"

definition STANDARD_NOT_MANDATORY_VERIFY_FLAGS :: flags where
  "STANDARD_NOT_MANDATORY_VERIFY_FLAGS =
     (SCRIPT_VERIFY_P2SH OR SCRIPT_VERIFY_DERSIG OR SCRIPT_VERIFY_STRICTENC OR SCRIPT_VERIFY_MINIMALDATA OR
      SCRIPT_VERIFY_NULLDUMMY OR SCRIPT_VERIFY_DISCOURAGE_UPGRADABLE_NOPS OR
      SCRIPT_VERIFY_CHECKLOCKTIMEVERIFY) AND NOT SCRIPT_VERIFY_P2SH"

text \<open>\<open>CScriptCheck\<close>: the script of the coins against the input.\<close>

definition script_check ::
  "hash_funs \<Rightarrow> (valtype \<Rightarrow> uint256 \<Rightarrow> valtype \<Rightarrow> bool) \<Rightarrow> CTransaction \<Rightarrow> nat \<Rightarrow> flags \<Rightarrow> byte list \<Rightarrow> bool" where
  "script_check H verify tx nIn flags script_pub =
     is_ok (VerifyScript
       \<lparr>env_flags = flags, env_checker = TransactionSignatureChecker H verify tx nIn, env_hash = H\<rparr>
       (scriptSig (vin tx ! nIn)) script_pub)"

fun check_scripts_loop ::
  "hash_funs \<Rightarrow> (valtype \<Rightarrow> uint256 \<Rightarrow> valtype \<Rightarrow> bool) \<Rightarrow> 'b view_ops \<Rightarrow> CTransaction \<Rightarrow> flags \<Rightarrow>
   'b coins_cache \<Rightarrow> nat list \<Rightarrow> tx_fail + 'b coins_cache" where
  "check_scripts_loop H verify ops tx flags c [] = Inr c"
| "check_scripts_loop H verify ops tx flags c (i # is) =
     (let out = prevout (vin tx ! i) in
      case AccessCoins ops c (out_hash out) of
        (None, c') \<Rightarrow> Inl TxUndefined
      | (Some coins, c') \<Rightarrow>
          if length (co_vout coins) \<le> unat (out_n out) then Inl TxUndefined
          else
            let script_pub = scriptPubKey (co_vout coins ! unat (out_n out)) in
            if script_check H verify tx i flags script_pub
            then check_scripts_loop H verify ops tx flags c' is
            else if flags AND STANDARD_NOT_MANDATORY_VERIFY_FLAGS \<noteq> 0 \<and>
                    script_check H verify tx i (flags AND NOT STANDARD_NOT_MANDATORY_VERIFY_FLAGS) script_pub
            then Inl NonMandatoryScriptFail
            else Inl MandatoryScriptFail)"

definition CheckInputs ::
  "hash_funs \<Rightarrow> (valtype \<Rightarrow> uint256 \<Rightarrow> valtype \<Rightarrow> bool) \<Rightarrow> money_params \<Rightarrow> 'b view_ops \<Rightarrow> CTransaction \<Rightarrow>
   int \<Rightarrow> 'b coins_cache \<Rightarrow> bool \<Rightarrow> flags \<Rightarrow> tx_fail + 'b coins_cache" where
  "CheckInputs H verify params ops tx nSpendHeight c fScriptChecks flags =
     (case has_inputs tx of
        None \<Rightarrow> Inl TxUndefined
      | Some False \<Rightarrow> Inr c
      | Some True \<Rightarrow>
          (case have_inputs_loop ops c (vin tx) of
             (False, c1) \<Rightarrow> Inl InputsUnavailable
           | (True, c1) \<Rightarrow>
               res_bind (check_values_loop params ops nSpendHeight c1 0 (vin tx)) (\<lambda>(nValueIn, c2).
               res_bind (check_fees params tx nValueIn) (\<lambda>_.
                 if fScriptChecks then check_scripts_loop H verify ops tx flags c2 [0..<length (vin tx)]
                 else Inr c2))))"

section \<open>Connecting and disconnecting a transaction\<close>

text \<open>\<open>None\<close>: the assertion that the output could be spent.\<close>

fun spend_inputs :: "'b view_ops \<Rightarrow> CTxIn list \<Rightarrow> 'b coins_cache \<Rightarrow> (CTxInUndo list \<times> 'b coins_cache) option" where
  "spend_inputs ops [] c = Some ([], c)"
| "spend_inputs ops (txin # ins) c = do {
     (undo, c1) \<leftarrow> modify_with ops c (out_hash (prevout txin))
        (\<lambda>coins. Coins_Spend coins (unat (out_n (prevout txin))));
     (undos, c2) \<leftarrow> spend_inputs ops ins c1;
     Some (undo # undos, c2) }"

definition UpdateCoins ::
  "hash_funs \<Rightarrow> 'b view_ops \<Rightarrow> CTransaction \<Rightarrow> 'b coins_cache \<Rightarrow> int \<Rightarrow>
   (CTxInUndo list \<times> 'b coins_cache) option" where
  "UpdateCoins H ops tx c nHeight = do {
     b \<leftarrow> has_inputs tx;
     (undos, c1) \<leftarrow> (if b then spend_inputs ops (vin tx) c else Some ([], c));
     (_, c2) \<leftarrow> modify_with ops c1 (tx_GetHash H tx)
        (\<lambda>coins. map_option (\<lambda>new. (new, ())) (FromTx tx nHeight));
     Some (undos, c2) }"

text \<open>The flag is false when the coins of the transaction are not those of the block.\<close>

definition remove_outputs :: "CCoins \<Rightarrow> CCoins \<Rightarrow> CCoins \<times> bool" where
  "remove_outputs outsBlock outs =
     (let outs = ClearUnspendable outs;
          outs = (if co_nVersion outsBlock <s 0 then outs\<lparr>co_nVersion := co_nVersion outsBlock\<rparr> else outs)
      in (Coins_Clear outs, Coins_eq outs outsBlock))"

fun restore_inputs :: "'b view_ops \<Rightarrow> (CTxIn \<times> CTxInUndo) list \<Rightarrow> 'b coins_cache \<Rightarrow> (bool \<times> 'b coins_cache) option" where
  "restore_inputs ops [] c = Some (True, c)"
| "restore_inputs ops ((txin, undo) # ins) c = do {
     (fClean, c1) \<leftarrow> modify_with ops c (out_hash (prevout txin))
        (\<lambda>coins. case restore_output (unat (out_n (prevout txin))) undo coins of (b, new) \<Rightarrow> Some (new, b));
     (fClean', c2) \<leftarrow> restore_inputs ops ins c1;
     Some (fClean \<and> fClean', c2) }"

text \<open>The result \<open>None\<close> is an error: the undo data has another number of inputs.\<close>

definition disconnect_tx ::
  "hash_funs \<Rightarrow> 'b view_ops \<Rightarrow> CTransaction \<Rightarrow> CTxInUndo list \<Rightarrow> int \<Rightarrow> 'b coins_cache \<Rightarrow>
   (bool \<times> 'b coins_cache) option" where
  "disconnect_tx H ops tx vprevout nHeight c = do {
     outsBlock \<leftarrow> FromTx tx nHeight;
     (fClean, c1) \<leftarrow> modify_with ops c (tx_GetHash H tx) (\<lambda>outs. Some (remove_outputs outsBlock outs));
     b \<leftarrow> has_inputs tx;
     if \<not> b then Some (fClean, c1)
     else if length vprevout \<noteq> length (vin tx) then None
     else do {
       (fClean', c2) \<leftarrow> restore_inputs ops (rev (zip (vin tx) vprevout)) c1;
       Some (fClean \<and> fClean', c2) } }"

end
