(* ===== verification/UtxoProps.thy ===== *)
theory UtxoProps
  imports Utxo
begin

text \<open>
  Connecting and disconnecting a transaction: on every view the spent outputs and their undo
  records are exact, so taking a transaction back restores the set of unspent outputs it was
  applied to; and a transaction that passes \<open>CheckInputs\<close> does not create money.
\<close>

section \<open>What the database may hold\<close>

definition utxo_ok :: "(uint256 \<Rightarrow> CCoins option) \<Rightarrow> bool" where
  "utxo_ok f \<longleftrightarrow> (\<forall>k x. f k = Some x \<longrightarrow> coins_clean x \<and> \<not> IsPruned x \<and> co_nHeight x \<noteq> 0)"

lemma utxo_okD: "utxo_ok f \<Longrightarrow> f k = Some x \<Longrightarrow> coins_clean x \<and> \<not> IsPruned x \<and> co_nHeight x \<noteq> 0"
  by (simp add: utxo_ok_def)

definition no_stake :: "(uint256 \<Rightarrow> CCoins option) \<Rightarrow> uint256 set \<Rightarrow> bool" where
  "no_stake f K \<longleftrightarrow> (\<forall>k \<in> K. \<forall>x. f k = Some x \<longrightarrow> \<not> co_fCoinStake x)"

lemma Spend_SomeD:
  assumes "Coins_Spend c n = Some (c', undo)"
  shows "n < length (co_vout c)" and "\<not> CTxOut_IsNull (co_vout c ! n)" and "\<not> IsPruned c"
    and "co_nHeight c' = co_nHeight c" and "co_fCoinStake c' = co_fCoinStake c"
proof -
  show n: "n < length (co_vout c)" "\<not> CTxOut_IsNull (co_vout c ! n)"
    and "co_nHeight c' = co_nHeight c" "co_fCoinStake c' = co_fCoinStake c"
    using assms by (auto simp: Coins_Spend_def Coins_Cleanup_def Let_def split: if_splits)
  show "\<not> IsPruned c"
    using n by (auto simp: IsPruned_def list_all_iff)
qed

text \<open>The restoring step on whatever the cache hands out for the spent coins.\<close>

lemma restore_Spend_flag:
  assumes "coins_clean c" and "Coins_Spend c n = Some (c', undo)" and "co_nHeight c \<noteq> 0"
    and "\<not> co_fCoinStake c" and "live (Some raw) = live (Some c')"
  shows "restore_output n undo raw = (True, c)"
proof -
  let ?v = "(co_vout c)[n := CTxOut_SetNull]"
  have c': "c' = c\<lparr>co_vout := drop_null_back ?v\<rparr>"
    and undo: "undo = (let u = mkTxInUndo (co_vout c ! n) in if drop_null_back ?v = []
        then u\<lparr>un_nHeight := co_nHeight c, un_fCoinBase := co_fCoinBase c,
               un_fCoinStake := co_fCoinStake c, un_nVersion := co_nVersion c\<rparr> else u)"
    using assms(2) by (auto simp: Coins_Spend_def Coins_Cleanup_def Let_def split: if_splits)
  have clean: "coins_clean c'"
    by (rule coins_clean_Spend [OF assms(1,2)])
  have redo: "snd (restore_output n undo c') = c"
    using restore_Spend [OF assms(1-3)] assms(4) by simp
  show ?thesis
  proof (cases "IsPruned c'")
    case True
    then have raw: "IsPruned raw"
      using assms(5) by (auto simp: live_def split: if_splits)
    have h: "un_nHeight undo \<noteq> 0"
      using True assms(3) clean by (simp add: undo IsPruned_clean c' Let_def mkTxInUndo_def)
    then have "snd (restore_output n undo raw) = snd (restore_output n undo c')"
      by (simp add: restore_output_def Let_def Coins_Clear_def)
    moreover have "fst (restore_output n undo raw)"
      using raw h by (simp add: restore_output_def Let_def IsAvailable_def Coins_Clear_def)
    ultimately show ?thesis
      using redo by (metis prod.collapse)
  next
    case False
    then have raw: "raw = c'"
      using assms(5) by (auto simp: live_def split: if_splits)
    have h: "un_nHeight undo = 0"
      using False clean by (simp add: undo IsPruned_clean c' Let_def mkTxInUndo_def)
    have "\<not> IsAvailable c' n"
    proof -
      have "CTxOut_IsNull (drop_null_back ?v ! n)" if "n < length (drop_null_back ?v)"
      proof -
        obtain nulls where "?v = drop_null_back ?v @ nulls"
          using drop_null_back_split [of ?v] by blast
        then have "drop_null_back ?v ! n = ?v ! n"
          using that by (metis nth_append)
        then show ?thesis
          using Spend_SomeD(1) [OF assms(2)] by simp
      qed
      then show ?thesis
        by (auto simp: IsAvailable_def c')
    qed
    then have "fst (restore_output n undo raw)"
      using raw h False by (simp add: restore_output_def Let_def)
    then show ?thesis
      using redo raw by (metis prod.collapse)
  qed
qed

lemma restore_inputs_append:
  "restore_inputs ops (xs @ ys) c =
     (case restore_inputs ops xs c of
        None \<Rightarrow> None
      | Some (b, c1) \<Rightarrow>
          (case restore_inputs ops ys c1 of None \<Rightarrow> None | Some (b', c2) \<Rightarrow> Some (b \<and> b', c2)))"
  by (induction ops xs c rule: restore_inputs.induct)
    (auto split: option.splits Option.bind_splits prod.splits)

section \<open>Spending and restoring inputs\<close>

context coins_view
begin

lemma modify_spend:
  assumes c: "cache_inv inv val known c" and ok: "utxo_ok (cache_val val c)"
    and "modify_with ops c k (\<lambda>coins. Coins_Spend coins n) = Some (undo, c1)"
  shows "\<exists>x x'. cache_val val c k = Some x \<and> Coins_Spend x n = Some (x', undo) \<and>
    cache_inv inv val known c1 \<and> cache_val val c1 = (cache_val val c)(k := live (Some x')) \<and>
    cache_blk blk c1 = cache_blk blk c"
proof -
  obtain raw where raw: "live (Some raw) = cache_val val c k"
    "case Coins_Spend raw n of
       None \<Rightarrow> modify_with ops c k (\<lambda>coins. Coins_Spend coins n) = None
     | Some (coins, r) \<Rightarrow>
         \<exists>c'. modify_with ops c k (\<lambda>coins. Coins_Spend coins n) = Some (r, c') \<and> cache_inv inv val known c' \<and>
           cache_val val c' = (cache_val val c)(k := live (Some (Coins_Cleanup coins))) \<and>
           cache_blk blk c' = cache_blk blk c"
    using modify_with_ok [OF c, of k "\<lambda>coins. Coins_Spend coins n"] by blast
  obtain x' where x': "Coins_Spend raw n = Some (x', undo)"
    "cache_inv inv val known c1" "cache_val val c1 = (cache_val val c)(k := live (Some (Coins_Cleanup x')))"
    "cache_blk blk c1 = cache_blk blk c"
    using raw(2) assms(3) by (auto split: option.splits)
  have x: "cache_val val c k = Some raw"
    using raw(1) Spend_SomeD(3) [OF x'(1)] by simp
  then have "coins_clean raw"
    using utxo_okD [OF ok] by blast
  then have "Coins_Cleanup x' = x'"
    by (intro Cleanup_clean coins_clean_Spend [OF _ x'(1)])
  then show ?thesis
    using x x' by auto
qed

lemma modify_restore:
  assumes c: "cache_inv inv val known c" and x: "coins_clean x" "\<not> IsPruned x"
    and "\<And>raw. live (Some raw) = cache_val val c k \<Longrightarrow> restore_output n undo raw = (True, x)"
  shows "\<exists>c1. modify_with ops c k (\<lambda>coins. case restore_output n undo coins of (b, new) \<Rightarrow> Some (new, b)) =
      Some (True, c1) \<and> cache_inv inv val known c1 \<and> cache_val val c1 = (cache_val val c)(k := Some x) \<and>
      cache_blk blk c1 = cache_blk blk c"
  using modify_with_ok [OF c, of k "\<lambda>coins. case restore_output n undo coins of (b, new) \<Rightarrow> Some (new, b)"]
    assms(4) Cleanup_clean [OF x(1)] x(2) by auto

lemma utxo_ok_spend:
  assumes "utxo_ok f" and "f k = Some x" and "Coins_Spend x n = Some (x', undo)"
  shows "utxo_ok (f(k := live (Some x')))"
proof -
  have "coins_clean x'" "co_nHeight x' \<noteq> 0"
    using utxo_okD [OF assms(1,2)] coins_clean_Spend [OF _ assms(3)] Spend_SomeD(4) [OF assms(3)] by auto
  then show ?thesis
    using assms(1) by (auto simp: utxo_ok_def live_def)
qed

lemma restore_after_spend:
  assumes "spend_inputs ops ins c = Some (undos, c1)" and "cache_inv inv val known c"
    and "utxo_ok (cache_val val c)" and "no_stake (cache_val val c) ((out_hash \<circ> prevout) ` set ins)"
  shows "length undos = length ins \<and> cache_inv inv val known c1 \<and> utxo_ok (cache_val val c1) \<and>
    cache_blk blk c1 = cache_blk blk c \<and>
    (\<forall>k. k \<notin> (out_hash \<circ> prevout) ` set ins \<longrightarrow> cache_val val c1 k = cache_val val c k) \<and>
    (\<forall>d. cache_inv inv val known d \<longrightarrow> cache_val val d = cache_val val c1 \<longrightarrow>
       (\<exists>d'. restore_inputs ops (rev (zip ins undos)) d = Some (True, d') \<and> cache_inv inv val known d' \<and>
          cache_val val d' = cache_val val c \<and> cache_blk blk d' = cache_blk blk d))"
  using assms
proof (induction ins arbitrary: undos c c1)
  case Nil
  then show ?case by auto
next
  case (Cons txin ins)
  let ?k = "out_hash (prevout txin)" and ?n = "unat (out_n (prevout txin))"
  obtain undo e undos' where e: "modify_with ops c ?k (\<lambda>coins. Coins_Spend coins ?n) = Some (undo, e)"
    "spend_inputs ops ins e = Some (undos', c1)" "undos = undo # undos'"
    using Cons.prems(1) by (auto split: Option.bind_splits)
  obtain x x' where x: "cache_val val c ?k = Some x" "Coins_Spend x ?n = Some (x', undo)"
    "cache_inv inv val known e" "cache_val val e = (cache_val val c)(?k := live (Some x'))"
    "cache_blk blk e = cache_blk blk c"
    using modify_spend [OF Cons.prems(2,3) e(1)] by blast
  have clean: "coins_clean x" "\<not> IsPruned x" "co_nHeight x \<noteq> 0" "\<not> co_fCoinStake x"
    using utxo_okD [OF Cons.prems(3) x(1)] Cons.prems(4) x(1) by (auto simp: no_stake_def)
  have ok: "utxo_ok (cache_val val e)"
    unfolding x(4) by (rule utxo_ok_spend [OF Cons.prems(3) x(1,2)])
  have "\<not> co_fCoinStake x'"
    using Spend_SomeD(5) [OF x(2)] clean(4) by simp
  then have stake: "no_stake (cache_val val e) ((out_hash \<circ> prevout) ` set ins)"
    using Cons.prems(4) unfolding x(4) by (auto simp: no_stake_def live_def)
  note IH = Cons.IH [OF e(2) x(3) ok stake]
  have restored: "\<exists>d'. restore_inputs ops (rev (zip (txin # ins) undos)) d = Some (True, d') \<and>
      cache_inv inv val known d' \<and> cache_val val d' = cache_val val c \<and> cache_blk blk d' = cache_blk blk d"
    if d: "cache_inv inv val known d" "cache_val val d = cache_val val c1" for d
  proof -
    obtain d1 where d1: "restore_inputs ops (rev (zip ins undos')) d = Some (True, d1)"
      "cache_inv inv val known d1" "cache_val val d1 = cache_val val e" "cache_blk blk d1 = cache_blk blk d"
      using IH d by blast
    have "restore_output ?n undo raw = (True, x)" if "live (Some raw) = cache_val val d1 ?k" for raw
      using restore_Spend_flag [OF clean(1) x(2) clean(3,4)] that d1(3) x(4) by simp
    then obtain d2 where d2: "modify_with ops d1 ?k
        (\<lambda>coins. case restore_output ?n undo coins of (b, new) \<Rightarrow> Some (new, b)) = Some (True, d2)"
      "cache_inv inv val known d2" "cache_val val d2 = (cache_val val d1)(?k := Some x)"
      "cache_blk blk d2 = cache_blk blk d1"
      using modify_restore [OF d1(2) clean(1,2), of ?k ?n undo] by blast
    have "cache_val val d2 = cache_val val c"
      unfolding d2(3) d1(3) x(4) using x(1) by (auto simp: fun_eq_iff)
    then show ?thesis
      using d1(1,4) d2(1,2,4) e(3) by (simp add: restore_inputs_append)
  qed
  have others: "cache_val val c1 k = cache_val val c k" if "k \<notin> (out_hash \<circ> prevout) ` set (txin # ins)" for k
    using IH that x(4) by auto
  show ?case
    using IH e(3) x(5) restored others by simp
qed

text \<open>Adding the outputs of a transaction.\<close>

lemma modify_const:
  assumes c: "cache_inv inv val known c"
  shows "\<exists>c1. modify_with ops c k (\<lambda>coins. Some (new, r)) = Some (r, c1) \<and> cache_inv inv val known c1 \<and>
    cache_val val c1 = (cache_val val c)(k := live (Some (Coins_Cleanup new))) \<and>
    cache_blk blk c1 = cache_blk blk c"
  using modify_with_ok [OF c, of k "\<lambda>coins. Some (new, r)"] by auto

end

section \<open>The outputs of a transaction\<close>

lemma drop_null_back_idem [simp]: "drop_null_back (drop_null_back outs) = drop_null_back outs"
  using drop_null_back_split [of outs] by (intro drop_null_back_id) auto

lemma Cleanup_idem [simp]: "Coins_Cleanup (Coins_Cleanup c) = Coins_Cleanup c"
  by (simp add: Coins_Cleanup_def)

lemma ClearUnspendable_idem: "ClearUnspendable (ClearUnspendable c) = ClearUnspendable c"
proof -
  let ?g = "\<lambda>txout. if IsUnspendable (scriptPubKey txout) then CTxOut_SetNull else txout"
  have "\<not> IsUnspendable []"
    by (simp add: IsUnspendable_def)
  then have g: "?g (?g o') = ?g o'" for o'
    by (simp add: CTxOut_SetNull_def mkTxOut_def)
  have "map ?g (drop_null_back (map ?g outs)) = drop_null_back (map ?g outs)" for outs
  proof (rule map_idI)
    fix o'
    assume "o' \<in> set (drop_null_back (map ?g outs))"
    then have "o' \<in> ?g ` set outs"
      using set_drop_null_back [of "map ?g outs"] unfolding set_map by blast
    then obtain o'' where "o' = ?g o''"
      by blast
    then show "?g o' = o'"
      using g by simp
  qed
  then show ?thesis
    by (simp add: ClearUnspendable_def Coins_Cleanup_def)
qed

lemma FromTx_SomeD:
  assumes "FromTx tx h = Some new"
  shows "ClearUnspendable new = new" and "Coins_Cleanup new = new" and "co_nHeight new = h"
proof -
  obtain y where y: "new = ClearUnspendable y" "co_nHeight y = h"
    using assms by (auto simp: FromTx_def split: Option.bind_splits)
  then show "ClearUnspendable new = new" "co_nHeight new = h"
    by (simp_all add: ClearUnspendable_idem) (simp add: ClearUnspendable_def Coins_Cleanup_def)
  show "Coins_Cleanup new = new"
    unfolding y(1) by (simp add: ClearUnspendable_def)
qed

text \<open>Removing the outputs finds what the block has, whatever pruned record stands for nothing.\<close>

lemma remove_outputs_match:
  assumes "FromTx tx h = Some new" and "live (Some raw) = live (Some new)"
  shows "snd (remove_outputs new raw)" and "live (Some (Coins_Cleanup (fst (remove_outputs new raw)))) = None"
proof -
  have "Coins_eq (ClearUnspendable raw) new"
  proof (cases "IsPruned new")
    case True
    then have "IsPruned raw"
      using assms(2) by (auto simp: live_def split: if_splits)
    then have "IsPruned (ClearUnspendable raw)"
      by (auto simp: ClearUnspendable_def) (auto simp: IsPruned_def list_all_iff)
    then show ?thesis
      using True by (simp add: Coins_eq_def)
  next
    case False
    then have "raw = new"
      using assms(2) by (auto simp: live_def split: if_splits)
    then show ?thesis
      using FromTx_SomeD(1) [OF assms(1)] by (simp add: Coins_eq_def)
  qed
  moreover have "Coins_eq (x\<lparr>co_nVersion := co_nVersion new\<rparr>) new" if "Coins_eq x new" for x
    using that by (auto simp: Coins_eq_def IsPruned_def split: if_splits)
  ultimately show "snd (remove_outputs new raw)"
    by (simp add: remove_outputs_def Let_def)
  show "live (Some (Coins_Cleanup (fst (remove_outputs new raw)))) = None"
    by (simp add: remove_outputs_def Let_def Coins_Clear_def Coins_Cleanup_def IsPruned_def)
qed

context coins_view
begin

text \<open>Connecting a transaction and taking it back.\<close>

lemma disconnect_UpdateCoins:
  assumes c: "cache_inv inv val known c" and ok: "utxo_ok (cache_val val c)"
    and stake: "no_stake (cache_val val c) ((out_hash \<circ> prevout) ` set (vin tx))"
    and fresh: "cache_val val c (tx_GetHash H tx) = None"
    and acyclic: "tx_GetHash H tx \<notin> (out_hash \<circ> prevout) ` set (vin tx)"
    and upd: "UpdateCoins H ops tx c nHeight = Some (undos, c2)"
  shows "\<exists>c3. disconnect_tx H ops tx undos nHeight c2 = Some (True, c3) \<and> cache_inv inv val known c3 \<and>
    cache_val val c3 = cache_val val c \<and> cache_blk blk c3 = cache_blk blk c"
proof -
  let ?k = "tx_GetHash H tx"
  obtain b c1 where b: "has_inputs tx = Some b"
    "(if b then spend_inputs ops (vin tx) c else Some ([], c)) = Some (undos, c1)"
    "modify_with ops c1 ?k (\<lambda>coins. map_option (\<lambda>new. (new, ())) (FromTx tx nHeight)) = Some ((), c2)"
    using upd by (auto simp: UpdateCoins_def split: Option.bind_splits)
  define ins where "ins = (if b then vin tx else [])"
  have spent: "spend_inputs ops ins c = Some (undos, c1)"
    using b(2) by (cases b) (simp_all add: ins_def)
  have "set ins \<subseteq> set (vin tx)"
    by (auto simp: ins_def split: if_splits)
  then have "no_stake (cache_val val c) ((out_hash \<circ> prevout) ` set ins)" "?k \<notin> (out_hash \<circ> prevout) ` set ins"
    using stake acyclic by (auto simp: no_stake_def)
  note R = restore_after_spend [OF spent c ok this(1)] and notin = this(2)
  have c1: "cache_inv inv val known c1" "cache_blk blk c1 = cache_blk blk c" "cache_val val c1 ?k = None"
    using R notin fresh by auto
  obtain new where new: "FromTx tx nHeight = Some new"
    using b(3) modify_with_ok [OF c1(1), of ?k "\<lambda>coins. map_option (\<lambda>new. (new, ())) (FromTx tx nHeight)"]
    by (cases "FromTx tx nHeight") auto
  have c2: "cache_inv inv val known c2" "cache_val val c2 = (cache_val val c1)(?k := live (Some new))"
    "cache_blk blk c2 = cache_blk blk c1"
    using modify_const [OF c1(1), of ?k new "()"] b(3) FromTx_SomeD(2) [OF new] by (simp_all add: new)
  obtain raw where raw: "live (Some raw) = live (Some new)"
    "\<exists>d. modify_with ops c2 ?k (\<lambda>outs. Some (remove_outputs new outs)) = Some (snd (remove_outputs new raw), d) \<and>
      cache_inv inv val known d \<and>
      cache_val val d = (cache_val val c2)(?k := live (Some (Coins_Cleanup (fst (remove_outputs new raw))))) \<and>
      cache_blk blk d = cache_blk blk c2"
    using modify_with_ok [OF c2(1), of ?k "\<lambda>outs. Some (remove_outputs new outs)"] c2(2)
    by (auto simp: case_prod_unfold)
  then obtain d where d: "modify_with ops c2 ?k (\<lambda>outs. Some (remove_outputs new outs)) = Some (True, d)"
    "cache_inv inv val known d" "cache_val val d = (cache_val val c2)(?k := None)" "cache_blk blk d = cache_blk blk c2"
    using remove_outputs_match [OF new raw(1)] by auto
  have "cache_val val d = cache_val val c1"
    unfolding d(3) c2(2) using c1(3) by (auto simp: fun_eq_iff)
  then obtain d' where d': "restore_inputs ops (rev (zip ins undos)) d = Some (True, d')"
    "cache_inv inv val known d'" "cache_val val d' = cache_val val c" "cache_blk blk d' = cache_blk blk d"
    using R d(2) by blast
  have len: "length undos = length ins"
    using R by blast
  have "disconnect_tx H ops tx undos nHeight c2 = Some (True, d')"
    using new d(1) b(1) d'(1) len by (cases b) (simp_all add: disconnect_tx_def ins_def)
  then show ?thesis
    using d'(2-4) d(4) c2(3) c1(2) by auto
qed

end

section \<open>Checked inputs\<close>

definition output_value :: "(uint256 \<Rightarrow> CCoins option) \<Rightarrow> COutPoint \<Rightarrow> int" where
  "output_value f out =
     (case f (out_hash out) of
        None \<Rightarrow> 0
      | Some x \<Rightarrow> sint (nValue (co_vout x ! unat (out_n out))))"

definition input_value :: "(uint256 \<Rightarrow> CCoins option) \<Rightarrow> CTxIn \<Rightarrow> int" where
  "input_value f txin = output_value f (prevout txin)"

text \<open>Every output that is spent counts once when no outpoint is listed twice.\<close>

lemma input_values_distinct:
  assumes "distinct (map prevout ins)"
  shows "(\<Sum>txin\<leftarrow>ins. input_value f txin) = (\<Sum>out \<in> prevout ` set ins. output_value f out)"
proof -
  have "(\<Sum>txin\<leftarrow>ins. input_value f txin) = sum_list (map (output_value f) (map prevout ins))"
    by (simp add: input_value_def comp_def)
  also have "\<dots> = (\<Sum>out \<in> set (map prevout ins). output_value f out)"
    by (rule sum_list_distinct_conv_sum_set [OF assms])
  finally show ?thesis
    by simp
qed

text \<open>An input that can be spent at a height: unspent, and mature when it was minted.\<close>

definition input_ok :: "money_params \<Rightarrow> int \<Rightarrow> (uint256 \<Rightarrow> CCoins option) \<Rightarrow> CTxIn \<Rightarrow> bool" where
  "input_ok params nSpendHeight f txin \<longleftrightarrow>
     (\<exists>x. f (out_hash (prevout txin)) = Some x \<and>
        unat (out_n (prevout txin)) < length (co_vout x) \<and>
        \<not> CTxOut_IsNull (co_vout x ! unat (out_n (prevout txin))) \<and>
        (co_fCoinBase x \<or> co_fCoinStake x \<longrightarrow> COINBASE_MATURITY params \<le> nSpendHeight - co_nHeight x))"

lemma sint_add_money:
  assumes "MoneyRange params a" and "MoneyRange params b" and "MaxMoneyOut params \<le> 2 ^ 62 - 1"
  shows "sint (a + b) = sint a + sint b"
  using assms by (intro sint_add_nonneg(2)) (auto simp: MoneyRange_def)

context coins_view
begin

lemma AccessCoins_ok:
  assumes c: "cache_inv inv val known c" and "AccessCoins ops c k = (r, c')"
  shows "cache_inv inv val known c'" and "cache_val val c' = cache_val val c"
    and "live r = cache_val val c k"
proof -
  obtain e where "FetchCoins ops c k = (e, c')" "r = map_option ce_coins e"
    using assms(2) by (auto simp: AccessCoins_def split: prod.splits)
  then show "cache_inv inv val known c'" "cache_val val c' = cache_val val c" "live r = cache_val val c k"
    using FetchCoins_ok [OF c] by auto
qed

lemma check_values_loop_ok:
  assumes "MaxMoneyOut params \<le> 2 ^ 62 - 1"
  shows "check_values_loop params ops h c v ins = Inr (v', c') \<Longrightarrow> cache_inv inv val known c \<Longrightarrow>
    MoneyRange params v \<Longrightarrow>
    cache_inv inv val known c' \<and> cache_val val c' = cache_val val c \<and> MoneyRange params v' \<and>
    sint v' = sint v + (\<Sum>txin\<leftarrow>ins. input_value (cache_val val c) txin) \<and>
    (\<forall>txin \<in> set ins. input_ok params h (cache_val val c) txin)"
proof (induction ins arbitrary: c v)
  case Nil
  then show ?case by simp
next
  case (Cons txin ins)
  let ?k = "out_hash (prevout txin)" and ?n = "unat (out_n (prevout txin))"
  obtain r c1 where acc: "AccessCoins ops c ?k = (r, c1)"
    by fastforce
  then obtain coins where r: "r = Some coins"
    using Cons.prems(1) by (cases r) auto
  let ?v = "nValue (co_vout coins ! ?n)"
  have step: "\<not> ((co_fCoinBase coins \<or> co_fCoinStake coins) \<and> h - co_nHeight coins < COINBASE_MATURITY params)"
    "?n < length (co_vout coins)" "MoneyRange params ?v" "MoneyRange params (v + ?v)"
    "check_values_loop params ops h c1 (v + ?v) ins = Inr (v', c')"
    using Cons.prems(1) by (auto simp: acc r Let_def split: if_splits)
  note A = AccessCoins_ok [OF Cons.prems(2) acc]
  have unspent: "\<not> CTxOut_IsNull (co_vout coins ! ?n)"
    using step(3) by (auto simp: MoneyRange_def CTxOut_IsNull_def)
  then have "\<not> IsPruned coins"
    using step(2) by (auto simp: IsPruned_def list_all_iff)
  then have x: "cache_val val c ?k = Some coins"
    using A(3) r by simp
  have sum: "sint (v + ?v) = sint v + sint ?v"
    by (rule sint_add_money [OF Cons.prems(3) step(3) assms])
  note IH = Cons.IH [OF step(5) A(1) step(4)]
  have "input_ok params h (cache_val val c) txin"
    using x step(1,2) unspent by (auto simp: input_ok_def)
  then show ?case
    using IH sum x by (simp add: A(2) input_value_def output_value_def)
qed

lemma have_inputs_loop_ok:
  "have_inputs_loop ops c ins = (b, c') \<Longrightarrow> cache_inv inv val known c \<Longrightarrow>
    cache_inv inv val known c' \<and> cache_val val c' = cache_val val c"
proof (induction ins arbitrary: c)
  case Nil
  then show ?case by simp
next
  case (Cons txin ins)
  obtain r c1 where acc: "AccessCoins ops c (out_hash (prevout txin)) = (r, c1)"
    by fastforce
  note A = AccessCoins_ok [OF Cons.prems(2) acc]
  show ?case
    using Cons.prems(1) A Cons.IH [of c1] by (auto simp: acc split: option.splits if_splits)
qed

lemma CheckInputs_ok:
  assumes "MaxMoneyOut params \<le> 2 ^ 62 - 1" "0 \<le> MaxMoneyOut params" and "cache_inv inv val known c"
    and "has_inputs tx = Some True"
    and "CheckInputs H verify params ops tx h c fScriptChecks flags = Inr c'"
  shows "\<exists>nValueIn. sint nValueIn = (\<Sum>txin\<leftarrow>vin tx. input_value (cache_val val c) txin) \<and>
    (\<forall>txin \<in> set (vin tx). input_ok params h (cache_val val c) txin) \<and> check_fees params tx nValueIn = Inr ()"
proof -
  obtain c1 v c2 where run: "have_inputs_loop ops c (vin tx) = (True, c1)"
    "check_values_loop params ops h c1 0 (vin tx) = Inr (v, c2)" "check_fees params tx v = Inr ()"
    using assms(4,5) by (auto simp: CheckInputs_def res_bind_Inr_iff split: prod.splits bool.splits)
  have c1: "cache_inv inv val known c1" "cache_val val c1 = cache_val val c"
    using have_inputs_loop_ok [OF run(1) assms(3)] by simp_all
  have "MoneyRange params 0"
    using assms(2) by (simp add: MoneyRange_def)
  then show ?thesis
    using check_values_loop_ok [OF assms(1) run(2) c1(1)] run(3) unfolding c1(2) by auto
qed

end

text \<open>Outside a coinstake the outputs are worth at most what the inputs are.\<close>

lemma check_fees_value:
  assumes "check_fees params tx nValueIn = Inr ()" and "\<not> tx_IsCoinStake tx"
  shows "(\<Sum>txout\<leftarrow>vout tx. sint (nValue txout)) \<le> sint nValueIn"
proof -
  obtain v where v: "tx_GetValueOut tx = Inr v" "\<not> nValueIn <s v"
    using assms by (auto simp: check_fees_def Let_def split: sum.splits if_splits)
  then have "sint v = sum_values (vout tx)"
    using value_out_loop_spec [of 0 "vout tx"] by (auto simp: tx_GetValueOut_def split: if_splits)
  then show ?thesis
    using v(2) by (simp add: sum_values_def word_sless_alt)
qed

end
