(* ===== verification/Compressor.thy ===== *)
theory Compressor
  imports Coins VarInt "HOL-Library.Monad_Syntax"
begin

unbundle bit_operations_syntax

text \<open>
  The compact forms of amounts, scripts and outputs in the coin database: \<open>src/compressor.cpp\<close> and
  \<open>src/compressor.h\<close>. Whether a public key is on the curve, and the key of a compressed point, are
  those of the elliptic curve library: the record \<open>secp\<close>.
\<close>

section \<open>Amounts\<close>

text \<open>The loop that drops trailing zeros, at most nine.\<close>

function strip_zeros :: "64 word \<Rightarrow> nat \<Rightarrow> 64 word \<times> nat" where
  "strip_zeros n e = (if n mod 10 = 0 \<and> e < 9 then strip_zeros (n div 10) (e + 1) else (n, e))"
  by pat_completeness auto
termination
  by (relation "measure (\<lambda>(n, e). 9 - e)") auto

declare strip_zeros.simps [simp del]

text \<open>\<open>None\<close> is the failed assertion on the last digit.\<close>

definition CompressAmount :: "64 word \<Rightarrow> 64 word option" where
  "CompressAmount n =
     (if n = 0 then Some 0
      else
        (case strip_zeros n 0 of
           (n, e) \<Rightarrow>
             if e < 9 then
               let d = n mod 10 in
               if \<not> (1 \<le> d \<and> d \<le> 9) then None
               else Some (1 + (n div 10 * 9 + d - 1) * 10 + of_nat e)
             else Some (1 + (n - 1) * 10 + 9)))"

fun mult_pow10 :: "64 word \<Rightarrow> nat \<Rightarrow> 64 word" where
  "mult_pow10 n 0 = n"
| "mult_pow10 n (Suc e) = mult_pow10 (n * 10) e"

definition DecompressAmount :: "64 word \<Rightarrow> 64 word" where
  "DecompressAmount x =
     (if x = 0 then 0
      else
        let x = x - 1; e = unat (x mod 10); x = x div 10;
            n = (if e < 9 then x div 9 * 10 + (x mod 9 + 1) else x + 1)
        in mult_pow10 n e)"

lemma mult_pow10_eq: "mult_pow10 n e = n * 10 ^ e"
  by (induction n e rule: mult_pow10.induct) (simp_all add: mult.assoc)

lemma unat_div_10: "unat (n div 10 :: 64 word) = unat n div 10" "unat (n mod 10 :: 64 word) = unat n mod 10"
  by (simp_all add: unat_div_distrib unat_mod_distrib)

lemma strip_zeros_spec:
  assumes "n \<noteq> 0" and "e \<le> 9" and "strip_zeros n e = (m, f)"
  shows "unat n = unat m * 10 ^ (f - e) \<and> e \<le> f \<and> f \<le> 9 \<and> m \<noteq> 0 \<and> (f < 9 \<longrightarrow> unat m mod 10 \<noteq> 0)"
  using assms
proof (induction n e rule: strip_zeros.induct)
  case (1 n e)
  show ?case
  proof (cases "n mod 10 = 0 \<and> e < 9")
    case True
    then have ten: "unat n = 10 * (unat n div 10)"
      using unat_div_10(2) [of n] by (simp add: mult_div_mod_eq) (metis mod_0_imp_dvd dvd_mult_div_cancel unat_eq_zero)
    have "unat n \<noteq> 0"
      using "1.prems"(1) by (simp add: unat_eq_zero)
    then have "unat (n div 10) \<noteq> 0"
      using ten unat_div_10(1) [of n] by simp
    then have nz: "n div 10 \<noteq> 0"
      by (simp add: unat_eq_zero)
    have rec: "strip_zeros (n div 10) (e + 1) = (m, f)"
      using "1.prems"(3) True by (subst (asm) strip_zeros.simps) simp
    have IH: "unat (n div 10) = unat m * 10 ^ (f - (e + 1)) \<and> e + 1 \<le> f \<and> f \<le> 9 \<and> m \<noteq> 0 \<and>
        (f < 9 \<longrightarrow> unat m mod 10 \<noteq> 0)"
      using "1.IH" [OF True nz _ rec] True by simp
    then have "f - e = Suc (f - (e + 1))"
      by linarith
    then have "(10 :: nat) ^ (f - e) = 10 * 10 ^ (f - (e + 1))"
      by (metis power_Suc)
    then have p: "unat m * 10 ^ (f - e) = 10 * (unat m * 10 ^ (f - (e + 1)))"
      by (simp only: mult.left_commute)
    have "unat (n div 10) = unat m * 10 ^ (f - (e + 1))"
      using IH by blast
    then have "unat n = unat m * 10 ^ (f - e)"
      using ten p unat_div_10(1) [of n] by linarith
    moreover have "e \<le> f"
      using IH by linarith
    ultimately show ?thesis
      using IH by blast
  next
    case False
    then have "m = n" "f = e"
      using "1.prems"(3) by (simp_all only: strip_zeros.simps [of n e] if_False prod.inject simp_thms)
    then show ?thesis
      using False "1.prems" unat_div_10(2) [of n] unat_eq_zero [of "n mod 10"] by auto
  qed
qed

lemma word64_div_mod:
  assumes "K < 2 ^ 64"
  shows "(of_nat K :: 64 word) div 10 = of_nat (K div 10)" and "(of_nat K :: 64 word) mod 10 = of_nat (K mod 10)"
    and "(of_nat K :: 64 word) div 9 = of_nat (K div 9)" and "(of_nat K :: 64 word) mod 9 = of_nat (K mod 9)"
proof -
  have K: "unat (of_nat K :: 64 word) = K"
    using assms by (simp add: unat_of_nat)
  have "unat ((of_nat K :: 64 word) div 10) = K div 10" "unat ((of_nat K :: 64 word) mod 10) = K mod 10"
    "unat ((of_nat K :: 64 word) div 9) = K div 9" "unat ((of_nat K :: 64 word) mod 9) = K mod 9"
    by (simp_all add: unat_div_distrib unat_mod_distrib K)
  from this [THEN arg_cong, of "of_nat :: nat \<Rightarrow> 64 word"]
  show "(of_nat K :: 64 word) div 10 = of_nat (K div 10)" "(of_nat K :: 64 word) mod 10 = of_nat (K mod 10)"
    "(of_nat K :: 64 word) div 9 = of_nat (K div 9)" "(of_nat K :: 64 word) mod 9 = of_nat (K mod 9)"
    by simp_all
qed

text \<open>Amounts up to \<open>2 * 10^18\<close>, which is all the money there may be, come back exactly.\<close>

lemma DecompressAmount_of_nat:
  assumes "Y < 2 ^ 64" and "0 < Y"
  shows "DecompressAmount (of_nat Y) =
    (let e = (Y - 1) mod 10; X = (Y - 1) div 10 in
     of_nat (if e < 9 then X div 9 * 10 + (X mod 9 + 1) else X + 1) * 10 ^ e)"
proof -
  have Y: "unat (of_nat Y :: 64 word) = Y"
    using assms(1) by (simp add: unat_of_nat)
  then have nz: "(of_nat Y :: 64 word) \<noteq> 0"
    using assms(2) by (metis less_irrefl unat_0)
  have m1: "(of_nat Y :: 64 word) - 1 = of_nat (Y - 1)"
    using assms(2) by (simp add: of_nat_diff Suc_leI)
  have le: "Y - 1 < 2 ^ 64" "(Y - 1) div 10 < 2 ^ 64" "(Y - 1) mod 10 < 2 ^ 64"
    using assms(1) by simp_all
  have e: "unat ((of_nat (Y - 1) :: 64 word) mod 10) = (Y - 1) mod 10"
    unfolding word64_div_mod(2) [OF le(1)] using le(3) by (simp add: unat_of_nat)
  note x = word64_div_mod(1) [OF le(1)] and xd = word64_div_mod(3) [OF le(2)] and xm = word64_div_mod(4) [OF le(2)]
  show ?thesis
    unfolding DecompressAmount_def Let_def mult_pow10_eq m1 e x xd xm using nz by (simp add: add_ac)
qed

lemma CompressAmount_roundtrip:
  assumes "unat n \<le> 2 * 10 ^ 18"
  shows "\<exists>x. CompressAmount n = Some x \<and> DecompressAmount x = n"
proof (cases "n = 0")
  case True
  then show ?thesis by (simp add: CompressAmount_def DecompressAmount_def)
next
  case False
  obtain m e where me: "strip_zeros n 0 = (m, e)"
    by fastforce
  define M where "M = unat m"
  have S: "unat n = M * 10 ^ e" "e \<le> 9" "m \<noteq> 0" "e < 9 \<Longrightarrow> M mod 10 \<noteq> 0"
    using strip_zeros_spec [OF False _ me] by (simp_all add: M_def)
  have m: "m = of_nat M"
    by (simp add: M_def)
  have Mpos: "0 < M"
    using S(3) by (simp add: M_def unat_gt_0)
  have n: "n = of_nat M * 10 ^ e"
    using arg_cong [OF S(1), of "of_nat :: nat \<Rightarrow> 64 word"] by simp
  have Mle: "M \<le> 2 * 10 ^ 18"
    using S(1) assms le_trans [of M "M * 10 ^ e" "2 * 10 ^ 18"] by simp
  show ?thesis
  proof (cases "e < 9")
    case True
    define Y where "Y = 1 + (M div 10 * 9 + M mod 10 - 1) * 10 + e"
    have d: "1 \<le> M mod 10" "M mod 10 \<le> 9"
      using S(4) True by simp_all
    have word: "1 + (m div 10 * 9 + m mod 10 - 1) * 10 + of_nat e = (of_nat Y :: 64 word)"
    proof -
      have "m div 10 = of_nat (unat (m div 10))" "m mod 10 = of_nat (unat (m mod 10))"
        by simp_all
      then have "m div 10 = of_nat (M div 10)" "m mod 10 = of_nat (M mod 10)"
        by (simp_all only: unat_div_10 M_def)
      moreover have "(of_nat (M div 10 * 9 + M mod 10 - 1) :: 64 word) =
          of_nat (M div 10) * 9 + of_nat (M mod 10) - 1"
        using d(1) by (simp add: of_nat_diff)
      ultimately show ?thesis
        by (simp add: Y_def)
    qed
    have "1 \<le> m mod 10 \<and> m mod 10 \<le> 9"
      using d unat_div_10(2) [of m] by (simp add: word_le_nat_alt M_def)
    then have comp: "CompressAmount n = Some (of_nat Y)"
      using False me True word by (simp add: CompressAmount_def)
    have bound: "Y < 2 ^ 64"
    proof -
      have "M div 10 \<le> 2 * 10 ^ 17"
        using div_le_mono [OF Mle, of 10] by simp
      then have "Y \<le> 1 + (2 * 10 ^ 17 * 9 + 9) * 10 + 9"
        using d(2) True unfolding Y_def by (intro add_mono mult_right_mono diff_le_self) auto
      then show ?thesis
        by simp
    qed
    have Y1: "Y - 1 = (M div 10 * 9 + M mod 10 - 1) * 10 + e"
      by (simp add: Y_def)
    then have e: "(Y - 1) mod 10 = e" "(Y - 1) div 10 = M div 10 * 9 + (M mod 10 - 1)"
      using True d(1) by simp_all
    have "(k * 9 + D) div 9 = k \<and> (k * 9 + D) mod 9 = D" if "D < 9" for k D :: nat
      using that by simp
    moreover have "M mod 10 - 1 < 9"
      using d by linarith
    ultimately have "(Y - 1) div 10 div 9 = M div 10" "(Y - 1) div 10 mod 9 = M mod 10 - 1"
      unfolding e(2) by blast+
    then have "DecompressAmount (of_nat Y) = of_nat (M div 10 * 10 + (M mod 10 - 1 + 1)) * 10 ^ e"
      using DecompressAmount_of_nat [OF bound] True e by (simp add: Y_def Let_def)
    also have "M div 10 * 10 + (M mod 10 - 1 + 1) = M"
      using d(1) by simp
    finally show ?thesis
      using comp n by simp
  next
    case False: False
    then have e9: "e = 9"
      using S(2) by simp
    define Y where "Y = 1 + (M - 1) * 10 + 9"
    have "1 + (m - 1) * 10 + 9 = (of_nat Y :: 64 word)"
      using Mpos by (simp add: Y_def m of_nat_diff Suc_leI)
    then have comp: "CompressAmount n = Some (of_nat Y)"
      using \<open>n \<noteq> 0\<close> me e9 by (simp add: CompressAmount_def)
    have "M * 10 ^ 9 \<le> 2 * 10 ^ 18"
      using S(1) assms e9 by simp
    then have "M \<le> 2 * 10 ^ 9"
      by simp
    then have bound: "Y < 2 ^ 64"
      by (simp add: Y_def)
    have "Y - 1 = (M - 1) * 10 + 9"
      by (simp add: Y_def)
    then have "(Y - 1) mod 10 = 9" "(Y - 1) div 10 + 1 = M"
      using Mpos by simp_all
    then have "DecompressAmount (of_nat Y) = of_nat M * 10 ^ 9"
      using DecompressAmount_of_nat [OF bound] by (simp only: Let_def) (simp add: Y_def)
    then show ?thesis
      using comp n e9 by simp
  qed
qed

section \<open>Scripts\<close>

record secp =
  sp_IsFullyValid :: "byte list \<Rightarrow> bool"
  sp_Decompress :: "byte list \<Rightarrow> byte list option"

text \<open>
  The documented behaviour of the library: a point that is on the curve is recovered from its
  first coordinate and the parity of the second.
\<close>

definition secp_ok :: "secp \<Rightarrow> bool" where
  "secp_ok S \<longleftrightarrow>
     (\<forall>key. length key = 65 \<longrightarrow> key ! 0 = 4 \<longrightarrow> sp_IsFullyValid S key \<longrightarrow>
        sp_Decompress S ((2 OR (key ! 64 AND 1)) # take 32 (drop 1 key)) = Some key)"

definition IsToKeyID :: "byte list \<Rightarrow> byte list option" where
  "IsToKeyID script =
     (if length script = 25 \<and> script ! 0 = of_nat OP_DUP \<and> script ! 1 = of_nat OP_HASH160 \<and> script ! 2 = 20 \<and>
         script ! 23 = of_nat OP_EQUALVERIFY \<and> script ! 24 = of_nat OP_CHECKSIG
      then Some (take 20 (drop 3 script)) else None)"

definition IsToScriptID :: "byte list \<Rightarrow> byte list option" where
  "IsToScriptID script =
     (if length script = 23 \<and> script ! 0 = of_nat OP_HASH160 \<and> script ! 1 = 20 \<and> script ! 22 = of_nat OP_EQUAL
      then Some (take 20 (drop 2 script)) else None)"

definition IsToPubKey :: "secp \<Rightarrow> byte list \<Rightarrow> byte list option" where
  "IsToPubKey S script =
     (if length script = 35 \<and> script ! 0 = 33 \<and> script ! 34 = of_nat OP_CHECKSIG \<and>
         (script ! 1 = 2 \<or> script ! 1 = 3)
      then Some (take 33 (drop 1 script))
      else if length script = 67 \<and> script ! 0 = 65 \<and> script ! 66 = of_nat OP_CHECKSIG \<and> script ! 1 = 4
      then (let key = take 65 (drop 1 script) in if sp_IsFullyValid S key then Some key else None)
      else None)"

definition Compress :: "secp \<Rightarrow> byte list \<Rightarrow> byte list option" where
  "Compress S script =
     (case IsToKeyID script of
        Some keyID \<Rightarrow> Some (0 # keyID)
      | None \<Rightarrow>
          (case IsToScriptID script of
             Some scriptID \<Rightarrow> Some (1 # scriptID)
           | None \<Rightarrow>
               (case IsToPubKey S script of
                  None \<Rightarrow> None
                | Some pubkey \<Rightarrow>
                    if pubkey ! 0 = 2 \<or> pubkey ! 0 = 3 then Some (pubkey ! 0 # take 32 (drop 1 pubkey))
                    else if pubkey ! 0 = 4 then Some ((4 OR (pubkey ! 64 AND 1)) # take 32 (drop 1 pubkey))
                    else None)))"

definition GetSpecialSize :: "nat \<Rightarrow> nat" where
  "GetSpecialSize nSize =
     (if nSize = 0 \<or> nSize = 1 then 20
      else if nSize = 2 \<or> nSize = 3 \<or> nSize = 4 \<or> nSize = 5 then 32 else 0)"

text \<open>The new script; \<open>None\<close> leaves it as it was.\<close>

definition Decompress :: "secp \<Rightarrow> nat \<Rightarrow> byte list \<Rightarrow> byte list option" where
  "Decompress S nSize inp =
     (if nSize = 0 then
        Some ([of_nat OP_DUP, of_nat OP_HASH160, 20] @ take 20 inp @ [of_nat OP_EQUALVERIFY, of_nat OP_CHECKSIG])
      else if nSize = 1 then Some ([of_nat OP_HASH160, 20] @ take 20 inp @ [of_nat OP_EQUAL])
      else if nSize = 2 \<or> nSize = 3 then
        Some ([33, of_nat nSize] @ take 32 inp @ [of_nat OP_CHECKSIG])
      else if nSize = 4 \<or> nSize = 5 then
        (case sp_Decompress S (of_nat (nSize - 2) # take 32 inp) of
           None \<Rightarrow> None
         | Some key \<Rightarrow> Some ([65] @ key @ [of_nat OP_CHECKSIG]))
      else None)"

text \<open>
  A size is written and read as \<open>unsigned int\<close>: the loops are those of \<open>VarInt\<close>, whose operations
  commute with the truncation to 32 bits.
\<close>

definition WriteVarInt32 :: "32 word \<Rightarrow> byte list" where
  "WriteVarInt32 n = WriteVarInt (ucast n)"

definition ReadVarInt32 :: "32 word reader" where
  "ReadVarInt32 bs = (case ReadVarInt bs of None \<Rightarrow> None | Some (n, r) \<Rightarrow> Some (ucast n, r))"

definition nSpecialScripts :: nat where
  "nSpecialScripts = 6"

definition ser_script :: "secp \<Rightarrow> byte list \<Rightarrow> byte list" where
  "ser_script S script =
     (case Compress S script of
        Some compr \<Rightarrow> compr
      | None \<Rightarrow> WriteVarInt32 (of_nat (length script + nSpecialScripts)) @ script)"

text \<open>The script read into is empty, as in a new output.\<close>

definition unser_script :: "secp \<Rightarrow> byte list reader" where
  "unser_script S bs = do {
     (nSize, bs) \<leftarrow> ReadVarInt32 bs;
     (let nSize = unat nSize in
      if nSize < nSpecialScripts then do {
        (vch, bs) \<leftarrow> read_bytes (GetSpecialSize nSize) bs;
        Some (case Decompress S nSize vch of Some script \<Rightarrow> script | None \<Rightarrow> [], bs) }
      else read_bytes (nSize - nSpecialScripts) bs) }"

lemma ReadVarInt32_Write: "ReadVarInt32 (WriteVarInt32 n @ r) = Some (n, r)"
proof -
  have "ucast (ucast n :: 64 word) = n"
    by (rule bit_word_eqI) (simp add: bit_simps)
  then show ?thesis
    by (simp add: ReadVarInt32_def WriteVarInt32_def ReadVarInt_Write)
qed

text \<open>A code below 128 is its own encoding.\<close>

lemma ReadVarInt32_byte:
  assumes "b AND 0x80 = 0" and "unat b < 128"
  shows "ReadVarInt32 (b # r) = Some (ucast b, r)"
proof -
  have "b AND 0x7F = b"
    using assms(2) byte_and_7f [of b] by (intro unsigned_word_eqI) simp
  moreover have "ucast (ucast b :: 64 word) = (ucast b :: 32 word)"
    by (rule bit_word_eqI) (auto simp: bit_simps dest: bit_imp_le_length)
  ultimately show ?thesis
    using assms(1) by (simp add: ReadVarInt32_def ReadVarInt_def Let_def)
qed

lemma list_split3: "i \<le> j \<Longrightarrow> s = take i s @ take (j - i) (drop i s) @ drop j s"
  by (metis append_take_drop_id drop_drop le_add_diff_inverse2)

lemma take_drop_nth:
  shows take_1_nth: "1 \<le> length s \<Longrightarrow> take 1 s = [s ! 0]"
    and take_2_nth: "2 \<le> length s \<Longrightarrow> take 2 s = [s ! 0, s ! 1]"
    and take_3_nth: "3 \<le> length s \<Longrightarrow> take 3 s = [s ! 0, s ! 1, s ! 2]"
    and drop_last_nth: "length s = Suc k \<Longrightarrow> drop k s = [s ! k]"
    and drop_last_two_nth: "length s = Suc (Suc k) \<Longrightarrow> drop k s = [s ! k, s ! Suc k]"
proof -
  show "1 \<le> length s \<Longrightarrow> take 1 s = [s ! 0]"
    by (cases s) simp_all
  show "2 \<le> length s \<Longrightarrow> take 2 s = [s ! 0, s ! 1]"
    by (rule nth_equalityI) (auto simp: less_2_cases_iff)
  show "3 \<le> length s \<Longrightarrow> take 3 s = [s ! 0, s ! 1, s ! 2]"
    by (rule nth_equalityI) (auto simp: less_Suc_eq numeral_eq_Suc)
  show "length s = Suc k \<Longrightarrow> drop k s = [s ! k]"
    by (simp add: Cons_nth_drop_Suc [symmetric])
  show "length s = Suc (Suc k) \<Longrightarrow> drop k s = [s ! k, s ! Suc k]"
    by (simp add: Cons_nth_drop_Suc [symmetric])
qed

lemma Decompress_Compress:
  assumes "secp_ok S" and "Compress S script = Some out"
  shows "\<exists>b h. out = b # h \<and> b AND 0x80 = 0 \<and> unat b < 6 \<and> length h = GetSpecialSize (unat b) \<and>
    Decompress S (unat b) h = Some script"
proof (cases "IsToKeyID script")
  case (Some h)
  then have s: "length script = 25" "script ! 0 = of_nat OP_DUP" "script ! 1 = of_nat OP_HASH160" "script ! 2 = 20"
    "script ! 23 = of_nat OP_EQUALVERIFY" "script ! 24 = of_nat OP_CHECKSIG" "h = take 20 (drop 3 script)"
    by (auto simp: IsToKeyID_def split: if_splits)
  have "script = take 3 script @ take 20 (drop 3 script) @ drop 23 script"
    using list_split3 [of 3 23 script] by simp
  then have "Decompress S 0 h = Some script"
    using take_3_nth [of script] drop_last_two_nth [of script 23] s
    by (simp add: Decompress_def)
  moreover have "out = 0 # h"
    using assms(2) Some by (simp add: Compress_def)
  ultimately show ?thesis
    using s by (intro exI [of _ 0] exI [of _ h]) (simp add: GetSpecialSize_def)
next
  case keyID: None
  show ?thesis
  proof (cases "IsToScriptID script")
    case (Some h)
    then have s: "length script = 23" "script ! 0 = of_nat OP_HASH160" "script ! 1 = 20"
      "script ! 22 = of_nat OP_EQUAL" "h = take 20 (drop 2 script)"
      by (auto simp: IsToScriptID_def split: if_splits)
    have "script = take 2 script @ take 20 (drop 2 script) @ drop 22 script"
      using list_split3 [of 2 22 script] by simp
    then have "Decompress S 1 h = Some script"
      using take_2_nth [of script] drop_last_nth [of script 22] s
      by (simp add: Decompress_def)
    moreover have "out = 1 # h"
      using assms(2) Some keyID by (simp add: Compress_def)
    ultimately show ?thesis
      using s by (intro exI [of _ 1] exI [of _ h]) (simp add: GetSpecialSize_def)
  next
    case scriptID: None
    obtain key where key: "IsToPubKey S script = Some key"
      using assms(2) keyID scriptID by (auto simp: Compress_def split: option.splits)
    consider (short) "length script = 35" "script ! 0 = 33" "script ! 34 = of_nat OP_CHECKSIG"
        "script ! 1 = 2 \<or> script ! 1 = 3" "key = take 33 (drop 1 script)"
      | (long) "length script = 67" "script ! 0 = 65" "script ! 66 = of_nat OP_CHECKSIG" "script ! 1 = 4"
        "key = take 65 (drop 1 script)" "sp_IsFullyValid S key"
      using key by (auto simp: IsToPubKey_def Let_def split: if_splits)
    then show ?thesis
    proof cases
      case short
      have "key ! 0 = script ! 1"
        using short by simp
      moreover have "take 32 (drop 1 key) = take 32 (drop 2 script)"
        by (simp add: short(5) drop_take numeral_2_eq_2)
      ultimately have out: "out = script ! 1 # take 32 (drop 2 script)"
        using assms(2) keyID scriptID key short(4) by (auto simp: Compress_def)
      have "script = take 2 script @ take 32 (drop 2 script) @ drop 34 script"
        using list_split3 [of 2 34 script] by simp
      moreover have "of_nat (unat (script ! 1)) = script ! 1"
        by simp
      ultimately have "Decompress S (unat (script ! 1)) (take 32 (drop 2 script)) = Some script"
        using short take_2_nth [of script] drop_last_nth [of script 34]
        by (auto simp: Decompress_def)
      then show ?thesis
        using out short by (auto simp: GetSpecialSize_def)
    next
      case long
      let ?b = "4 OR (key ! 64 AND 1)"
      have k: "length key = 65" "key ! 0 = 4"
        using long by simp_all
      then have out: "out = ?b # take 32 (drop 1 key)"
        using assms(2) keyID scriptID key by (auto simp: Compress_def)
      have "key ! 64 AND 1 = 0 \<or> key ! 64 AND 1 = 1"
        by (simp add: and_one_eq mod_2_eq_odd)
      then have b: "?b = 4 \<and> 2 OR (key ! 64 AND 1) = 2 \<or> ?b = 5 \<and> 2 OR (key ! 64 AND 1) = 3"
        by auto
      have dec: "sp_Decompress S ((2 OR (key ! 64 AND 1)) # take 32 (drop 1 key)) = Some key"
        using assms(1) k long(6) by (simp add: secp_ok_def)
      have script: "script = [65] @ key @ [of_nat OP_CHECKSIG]"
        using list_split3 [of 1 66 script] take_1_nth [of script] drop_last_nth [of script 66] long
        by simp
      have "Decompress S (unat ?b) (take 32 (drop 1 key)) = Some script"
        using b dec script by (auto simp: Decompress_def)
      then show ?thesis
        using out b k(1) by (auto simp: GetSpecialSize_def)
    qed
  qed
qed

lemma unser_ser_script:
  assumes "secp_ok S" and "length script + 6 < 2 ^ 32"
  shows "unser_script S (ser_script S script @ r) = Some (script, r)"
proof (cases "Compress S script")
  case None
  have "unat (of_nat (length script + nSpecialScripts) :: 32 word) = length script + nSpecialScripts"
    using assms(2) unfolding nSpecialScripts_def by (subst unat_of_nat) (simp del: of_nat_add)
  then show ?thesis
    using None by (simp add: unser_script_def ser_script_def ReadVarInt32_Write)
next
  case (Some out)
  then obtain b h where out: "out = b # h" "b AND 0x80 = 0" "unat b < 6" "length h = GetSpecialSize (unat b)"
    "Decompress S (unat b) h = Some script"
    using Decompress_Compress [OF assms(1)] by blast
  have "unat (ucast b :: 32 word) = unat b"
    using out(3) by (simp add: unsigned_ucast_eq take_bit_eq_mod)
  then show ?thesis
    using Some out ReadVarInt32_byte [OF out(2)]
    by (simp add: unser_script_def ser_script_def nSpecialScripts_def read_bytes_append out(4) [symmetric])
qed

section \<open>Outputs\<close>

definition ser_ctxout :: "secp \<Rightarrow> CTxOut \<Rightarrow> byte list option" where
  "ser_ctxout S txout = do {
     nVal \<leftarrow> CompressAmount (nValue txout);
     Some (WriteVarInt nVal @ ser_script S (scriptPubKey txout)) }"

definition unser_ctxout :: "secp \<Rightarrow> CTxOut reader" where
  "unser_ctxout S bs = do {
     (nVal, bs) \<leftarrow> ReadVarInt bs;
     (script, bs) \<leftarrow> unser_script S bs;
     Some (mkTxOut (DecompressAmount nVal) script, bs) }"

definition wf_ctxout :: "CTxOut \<Rightarrow> bool" where
  "wf_ctxout txout \<longleftrightarrow>
     0 \<le> sint (nValue txout) \<and> sint (nValue txout) \<le> 2 * 10 ^ 18 \<and> length (scriptPubKey txout) + 6 < 2 ^ 32 \<and>
     nRounds txout = - 10"

text \<open>A number that is not negative reads the same with and without sign.\<close>

lemma int_unat_sint:
  assumes "0 \<le> sint (w :: 64 word)"
  shows "int (unat w) = sint w"
proof -
  have "uint w = take_bit 64 (sint w)"
    by (simp add: uint_sint)
  also have "\<dots> = sint w"
    using assms sint_less [of w] by (simp add: take_bit_int_eq_self)
  finally show ?thesis
    by simp
qed

lemma unser_ser_ctxout:
  assumes "secp_ok S" and "wf_ctxout txout"
  shows "\<exists>bs. ser_ctxout S txout = Some bs \<and> unser_ctxout S (bs @ r) = Some (txout, r)"
proof -
  have "int (unat (nValue txout)) = sint (nValue txout)"
    using assms(2) by (intro int_unat_sint) (simp add: wf_ctxout_def)
  moreover have "sint (nValue txout) \<le> 2000000000000000000"
    using assms(2) by (simp add: wf_ctxout_def)
  ultimately have "unat (nValue txout) \<le> 2000000000000000000"
    by linarith
  then have "unat (nValue txout) \<le> 2 * 10 ^ 18"
    by simp
  then obtain x where x: "CompressAmount (nValue txout) = Some x" "DecompressAmount x = nValue txout"
    using CompressAmount_roundtrip by blast
  have "mkTxOut (nValue txout) (scriptPubKey txout) = txout"
    using assms(2) by (simp add: mkTxOut_def wf_ctxout_def)
  then show ?thesis
    using x assms(2) unser_ser_script [OF assms(1)]
    by (simp add: ser_ctxout_def unser_ctxout_def ReadVarInt_Write wf_ctxout_def)
qed

end
