(* ===== verification/CoinsCodec.thy ===== *)
theory CoinsCodec
  imports Compressor
begin

unbundle bit_operations_syntax

text \<open>
  The serialized forms of the coin database: \<open>CCoins\<close> (\<open>src/coins.h\<close>) with its mask of unspent
  outputs, and the undo record \<open>CTxInUndo\<close> (\<open>src/undo.h\<close>).
\<close>

section \<open>Signed variable-length integers\<close>

text \<open>
  For an \<open>int\<close> the template compares with sign: every negative number is at most \<open>0x7F\<close>, so the loop
  ends at once and writes a single byte.
\<close>

definition WriteVarInt_int :: "32 word \<Rightarrow> byte list" where
  "WriteVarInt_int n = (if sint n < 0 then [ucast (n AND 0x7F)] else WriteVarInt32 n)"

lemma ReadVarInt_int_Write: "0 \<le> sint n \<Longrightarrow> ReadVarInt32 (WriteVarInt_int n @ r) = Some (n, r)"
  by (simp add: WriteVarInt_int_def ReadVarInt32_Write)

text \<open>So a negative number is not read back: what comes back is its lowest seven bits.\<close>

definition stored_int :: "32 word \<Rightarrow> 32 word" where
  "stored_int n = (if sint n < 0 then n AND 0x7F else n)"

lemma ReadVarInt_int_stored: "ReadVarInt32 (WriteVarInt_int n @ r) = Some (stored_int n, r)"
proof (cases "sint n < 0")
  case True
  let ?b = "ucast (n AND 0x7F) :: byte"
  have low: "n AND 0x7F = take_bit 7 n"
    by (simp add: take_bit_eq_mask mask_numeral)
  have b: "?b = take_bit 7 (ucast n)"
    unfolding low by (rule bit_word_eqI) (auto simp: bit_simps)
  have "take_bit 7 w AND push_bit 7 1 = (0 :: byte)" for w :: byte
    by (rule bit_word_eqI) (auto simp: bit_simps simp del: push_bit_of_1)
  then have "?b AND 0x80 = 0"
    unfolding b by simp
  moreover have "unat ?b < 128"
    using take_bit_nat_less_exp [of 7 "unat (ucast n :: byte)"] unfolding b unsigned_take_bit_eq by simp
  moreover have "ucast ?b = n AND 0x7F"
    unfolding b low by (rule bit_word_eqI) (auto simp: bit_simps)
  ultimately show ?thesis
    using True ReadVarInt32_byte [of ?b r] by (simp add: WriteVarInt_int_def stored_int_def)
next
  case False
  then show ?thesis
    using ReadVarInt_int_Write [of n r] by (simp add: stored_int_def)
qed

section \<open>Coins\<close>

definition out_avail :: "CTxOut list \<Rightarrow> nat \<Rightarrow> bool" where
  "out_avail outs i \<longleftrightarrow> i < length outs \<and> \<not> CTxOut_IsNull (outs ! i)"

text \<open>The header code; \<open>None\<close> is the failed assertion. \<open>F\<close> is the factor of the mask code.\<close>

definition coins_code :: "32 word \<Rightarrow> CCoins \<Rightarrow> 32 word option" where
  "coins_code F c =
     (let nMaskCode = snd (CalcMaskSize c);
          fFirst = out_avail (co_vout c) 0;
          fSecond = out_avail (co_vout c) 1
      in if \<not> (fFirst \<or> fSecond \<or> nMaskCode \<noteq> 0) then None
         else Some (F * (of_nat nMaskCode - (if fFirst \<or> fSecond then 0 else 1)) +
                (if co_fCoinBase c then 1 else 0) + (if co_fCoinStake c then 2 else 0) +
                (if fFirst then 4 else 0) + (if fSecond then 8 else 0)))"

definition mask_byte :: "CTxOut list \<Rightarrow> nat \<Rightarrow> byte" where
  "mask_byte outs b =
     fold (\<lambda>i chAvail. if out_avail outs (2 + b * 8 + i) then chAvail OR push_bit i 1 else chAvail) [0..<8] 0"

fun ser_outs :: "secp \<Rightarrow> CTxOut list \<Rightarrow> byte list option" where
  "ser_outs S [] = Some []"
| "ser_outs S (txout # outs) =
     (if CTxOut_IsNull txout then ser_outs S outs
      else do {
        bs \<leftarrow> ser_ctxout S txout;
        rest \<leftarrow> ser_outs S outs;
        Some (bs @ rest) })"

definition ser_coins :: "secp \<Rightarrow> CCoins \<Rightarrow> byte list option" where
  "ser_coins S c = do {
     nCode \<leftarrow> coins_code 16 c;
     outs \<leftarrow> ser_outs S (co_vout c);
     Some (WriteVarInt_int (co_nVersion c) @ WriteVarInt32 nCode @
           map (mask_byte (co_vout c)) [0..<fst (CalcMaskSize c)] @
           outs @ WriteVarInt_int (of_int (co_nHeight c))) }"

text \<open>The size announced by \<open>GetSerializeSize\<close>: its header code has the factor 8.\<close>

fun size_outs :: "secp \<Rightarrow> CTxOut list \<Rightarrow> nat option" where
  "size_outs S [] = Some 0"
| "size_outs S (txout # outs) =
     (if CTxOut_IsNull txout then size_outs S outs
      else do {
        bs \<leftarrow> ser_ctxout S txout;
        rest \<leftarrow> size_outs S outs;
        Some (length bs + rest) })"

definition coins_GetSerializeSize :: "secp \<Rightarrow> CCoins \<Rightarrow> nat option" where
  "coins_GetSerializeSize S c = do {
     nCode \<leftarrow> coins_code 8 c;
     outs \<leftarrow> size_outs S (co_vout c);
     Some (length (WriteVarInt_int (co_nVersion c)) + length (WriteVarInt32 nCode) + fst (CalcMaskSize c) +
           outs + length (WriteVarInt_int (of_int (co_nHeight c)))) }"

fun read_mask_loop :: "nat \<Rightarrow> bool list \<Rightarrow> bool list reader" where
  "read_mask_loop nMaskCode vAvail [] = (if nMaskCode = 0 then Some (vAvail, []) else None)"
| "read_mask_loop nMaskCode vAvail (chAvail # bs) =
     (if nMaskCode = 0 then Some (vAvail, chAvail # bs)
      else read_mask_loop (if chAvail \<noteq> 0 then nMaskCode - 1 else nMaskCode)
             (vAvail @ map (\<lambda>p. chAvail AND push_bit p 1 \<noteq> 0) [0..<8]) bs)"

fun unser_outs :: "secp \<Rightarrow> bool list \<Rightarrow> CTxOut list reader" where
  "unser_outs S [] bs = Some ([], bs)"
| "unser_outs S (a # vAvail) bs = do {
     (txout, bs) \<leftarrow> (if a then unser_ctxout S bs else Some (CTxOut_SetNull, bs));
     (outs, bs) \<leftarrow> unser_outs S vAvail bs;
     Some (txout # outs, bs) }"

definition unser_coins :: "secp \<Rightarrow> CCoins reader" where
  "unser_coins S bs = do {
     (nVersion, bs) \<leftarrow> ReadVarInt32 bs;
     (nCode, bs) \<leftarrow> ReadVarInt32 bs;
     (vAvail, bs) \<leftarrow> read_mask_loop (unat (nCode div 16 + (if nCode AND 12 \<noteq> 0 then 0 else 1)))
                      [nCode AND 4 \<noteq> 0, nCode AND 8 \<noteq> 0] bs;
     (outs, bs) \<leftarrow> unser_outs S vAvail bs;
     (nHeight, bs) \<leftarrow> ReadVarInt32 bs;
     Some (Coins_Cleanup
       \<lparr>co_fCoinBase = (nCode AND 1 \<noteq> 0), co_fCoinStake = (nCode AND 2 \<noteq> 0), co_vout = outs,
        co_nHeight = sint nHeight, co_nVersion = nVersion\<rparr>, bs) }"

lemma size_outs_length: "size_outs S outs = map_option length (ser_outs S outs)"
  by (induction S outs rule: size_outs.induct) (auto split: Option.bind_splits)

section \<open>Undo records\<close>

definition undo_code :: "CTxInUndo \<Rightarrow> 32 word" where
  "undo_code u = of_int (un_nHeight u) * 4 + (if un_fCoinBase u then 2 else 0) + (if un_fCoinStake u then 1 else 0)"

definition ser_undo :: "secp \<Rightarrow> CTxInUndo \<Rightarrow> byte list option" where
  "ser_undo S u = do {
     out \<leftarrow> ser_ctxout S (un_txout u);
     Some (WriteVarInt32 (undo_code u) @
           (if un_nHeight u > 0 then WriteVarInt_int (un_nVersion u) else []) @ out) }"

definition unser_undo :: "secp \<Rightarrow> CTxInUndo reader" where
  "unser_undo S bs = do {
     (nCode, bs) \<leftarrow> ReadVarInt32 bs;
     (let nHeight = uint (drop_bit 2 nCode) in do {
      (nVersion, bs) \<leftarrow> (if nHeight > 0 then ReadVarInt32 bs else Some (0, bs));
      (txout, bs) \<leftarrow> unser_ctxout S bs;
      Some (\<lparr>un_txout = txout, un_fCoinBase = (nCode AND 2 \<noteq> 0), un_fCoinStake = (nCode AND 1 \<noteq> 0),
             un_nHeight = nHeight, un_nVersion = nVersion\<rparr>, bs) }) }"

section \<open>The mask\<close>

lemma mask_byte_bit: "bit (mask_byte outs b) p \<longleftrightarrow> p < 8 \<and> out_avail outs (2 + b * 8 + p)"
proof -
  let ?f = "\<lambda>i chAvail. if out_avail outs (2 + b * 8 + i) then chAvail OR push_bit i 1 else (chAvail :: byte)"
  have "bit (fold ?f [0..<k] 0) p \<longleftrightarrow> p < k \<and> out_avail outs (2 + b * 8 + p)" if "k \<le> 8" for k
    using that by (induction k) (auto simp: bit_simps less_Suc_eq dest: bit_imp_le_length)
  then show ?thesis
    unfolding mask_byte_def by simp
qed

definition mask_bytes :: "CTxOut list \<Rightarrow> nat" where
  "mask_bytes outs = (length outs - 2 + 7) div 8"

lemma less_mask_bytes: "b < mask_bytes outs \<longleftrightarrow> 2 + b * 8 < length outs"
  unfolding mask_bytes_def by linarith

lemma mask_byte_used_iff: "mask_byte_used outs b \<longleftrightarrow> mask_byte outs b \<noteq> 0"
proof -
  have "mask_byte_used outs b \<longleftrightarrow> (\<exists>p<8. out_avail outs (2 + b * 8 + p))"
  proof -
    have "mask_byte_used outs b \<longleftrightarrow> (\<exists>p < length (take 8 (drop (2 + b * 8) outs)).
        \<not> CTxOut_IsNull (take 8 (drop (2 + b * 8) outs) ! p))"
      unfolding mask_byte_used_def list_ex_iff by (metis in_set_conv_nth)
    also have "\<dots> \<longleftrightarrow> (\<exists>p<8. out_avail outs (2 + b * 8 + p))"
      by (auto simp: out_avail_def less_diff_conv add.commute)
    finally show ?thesis .
  qed
  also have "\<dots> \<longleftrightarrow> mask_byte outs b \<noteq> 0"
    by (auto simp: bit_eq_iff mask_byte_bit)
  finally show ?thesis .
qed

text \<open>When the last output is not null the mask ends with it.\<close>

lemma mask_size_loop_eq:
  assumes "outs = [] \<or> \<not> CTxOut_IsNull (last outs)" and "b \<le> mask_bytes outs"
  shows "mask_size_loop outs b l z =
    (if b = mask_bytes outs then l else mask_bytes outs,
     z + length (filter (\<lambda>ch. ch \<noteq> 0) (map (mask_byte outs) [b..<mask_bytes outs])))"
  using assms
proof (induction outs b l z rule: mask_size_loop.induct)
  case (1 outs b l z)
  show ?case
  proof (cases "length outs \<le> 2 + b * 8")
    case True
    then have "b = mask_bytes outs"
      using "1.prems"(2) less_mask_bytes [of b outs] by linarith
    then show ?thesis
      using True by (simp add: mask_size_loop.simps)
  next
    case False
    then have b: "b < mask_bytes outs"
      by (simp add: less_mask_bytes)
    then have split: "[b..<mask_bytes outs] = b # [Suc b..<mask_bytes outs]"
      by (rule upt_conv_Cons)
    have last: "mask_byte_used outs b" if "Suc b = mask_bytes outs"
    proof -
      have le: "length outs \<le> 2 + b * 8 + 8"
        using that less_mask_bytes [of "Suc b" outs] by simp
      define p where "p = length outs - 1 - (2 + b * 8)"
      have p: "p < 8" "2 + b * 8 + p = length outs - 1"
        using False le by (simp_all add: p_def)
      have "outs \<noteq> []"
        using False by auto
      then have "out_avail outs (2 + b * 8 + p)"
        using "1.prems"(1) unfolding p(2) out_avail_def by (simp add: last_conv_nth)
      then have "bit (mask_byte outs b) p"
        using p(1) by (simp add: mask_byte_bit)
      then show ?thesis
        unfolding mask_byte_used_iff by auto
    qed
    show ?thesis
    proof (cases "mask_byte_used outs b")
      case True
      then show ?thesis
        using False "1.IH"(1) [OF False True "1.prems"(1)] b
        by (simp add: mask_size_loop.simps [of outs b] split mask_byte_used_iff)
    next
      case unused: False
      then show ?thesis
        using False "1.IH"(2) [OF False unused "1.prems"(1)] b last
        by (auto simp: mask_size_loop.simps [of outs b] split mask_byte_used_iff)
    qed
  qed
qed

lemma CalcMaskSize_clean:
  assumes "coins_clean c"
  shows "CalcMaskSize c =
    (mask_bytes (co_vout c),
     length (filter (\<lambda>ch. ch \<noteq> 0) (map (mask_byte (co_vout c)) [0..<mask_bytes (co_vout c)])))"
  using mask_size_loop_eq [of "co_vout c" 0 0 0] assms
  by (auto simp: CalcMaskSize_def coins_clean_def)

text \<open>Reading stops at the last byte of the mask, which is not zero.\<close>

lemma read_mask_loop_eq:
  "ms = [] \<or> last ms \<noteq> 0 \<Longrightarrow>
   read_mask_loop (length (filter (\<lambda>ch. ch \<noteq> 0) ms)) v (ms @ r) =
     Some (v @ concat (map (\<lambda>ch. map (\<lambda>p. ch AND push_bit p 1 \<noteq> 0) [0..<8]) ms), r)"
proof (induction ms arbitrary: v)
  case Nil
  then show ?case by (cases r) simp_all
next
  case (Cons ch ms)
  have ne: "length (filter (\<lambda>ch. ch \<noteq> 0) (ch # ms)) \<noteq> 0"
    using Cons.prems last_in_set [of "ch # ms"] by (auto simp: filter_empty_conv)
  have len: "(if ch \<noteq> 0 then length (filter (\<lambda>ch. ch \<noteq> 0) (ch # ms)) - 1
      else length (filter (\<lambda>ch. ch \<noteq> 0) (ch # ms))) = length (filter (\<lambda>ch. ch \<noteq> 0) ms)"
    by simp
  have "ms = [] \<or> last ms \<noteq> 0"
    using Cons.prems by (cases "ms = []") simp_all
  from Cons.IH [OF this] show ?case
    using ne unfolding append_Cons read_mask_loop.simps(2) len by (simp only: if_False concat.simps list.map append_assoc)
qed

text \<open>What is read: one flag per output, and nulls up to the end of the last byte.\<close>

lemma read_mask_avail:
  "[out_avail outs 0, out_avail outs 1] @
     concat (map (\<lambda>ch. map (\<lambda>p. ch AND push_bit p 1 \<noteq> 0) [0..<8]) (map (mask_byte outs) [0..<B])) =
   map (out_avail outs) [0..<2 + B * 8]"
proof (induction B)
  case 0
  then show ?case by (simp add: numeral_2_eq_2)
next
  case (Suc B)
  have "(mask_byte outs B AND push_bit p 1 \<noteq> 0) = out_avail outs (2 + B * 8 + p)" if "p < 8" for p
    using that and_exp_eq_0_iff_not_bit [of "mask_byte outs B" p] by (simp add: push_bit_eq_mult mask_byte_bit)
  then have byte: "map (\<lambda>p. mask_byte outs B AND push_bit p 1 \<noteq> 0) [0..<8] =
      map (\<lambda>p. out_avail outs (2 + B * 8 + p)) [0..<8]"
    by (intro map_cong) auto
  also have "\<dots> = map (out_avail outs) [2 + B * 8..<2 + B * 8 + 8]"
    by (rule nth_equalityI) simp_all
  finally have "map (\<lambda>p. mask_byte outs B AND push_bit p 1 \<noteq> 0) [0..<8] =
      map (out_avail outs) [2 + B * 8..<2 + B * 8 + 8]" .
  moreover have "[0..<2 + Suc B * 8] = [0..<2 + B * 8] @ [2 + B * 8..<2 + B * 8 + 8]"
    using upt_add_eq_append [of 0 "2 + B * 8" 8] by (simp add: add_ac)
  ultimately show ?case
    using Suc by (simp only: upt_Suc_append [of 0] le0 map_append list.map concat_append concat.simps
        append_assoc [symmetric] append_Nil2)
qed

section \<open>Reading coins back\<close>

definition wf_outs :: "CTxOut list \<Rightarrow> bool" where
  "wf_outs outs \<longleftrightarrow> list_all (\<lambda>txout. CTxOut_IsNull txout \<and> txout = CTxOut_SetNull \<or>
     \<not> CTxOut_IsNull txout \<and> wf_ctxout txout) outs"

lemma ser_outs_defined:
  assumes "secp_ok S" and "wf_outs outs"
  shows "\<exists>bs. ser_outs S outs = Some bs \<and>
    unser_outs S (map (\<lambda>txout. \<not> CTxOut_IsNull txout) outs @ replicate k False) (bs @ r) =
      Some (outs @ replicate k CTxOut_SetNull, r)"
  using assms(2)
proof (induction outs)
  case Nil
  have "unser_outs S (replicate k False) r = Some (replicate k CTxOut_SetNull, r)"
    by (induction k) simp_all
  then show ?case by simp
next
  case (Cons txout outs)
  then obtain bs where bs: "ser_outs S outs = Some bs"
    "unser_outs S (map (\<lambda>txout. \<not> CTxOut_IsNull txout) outs @ replicate k False) (bs @ r) =
      Some (outs @ replicate k CTxOut_SetNull, r)"
    by (auto simp: wf_outs_def)
  show ?case
  proof (cases "CTxOut_IsNull txout")
    case True
    then show ?thesis
      using bs Cons.prems by (simp add: wf_outs_def)
  next
    case False
    then have "wf_ctxout txout"
      using Cons.prems by (simp add: wf_outs_def)
    then obtain out where "ser_ctxout S txout = Some out"
      "unser_ctxout S (out @ (bs @ r)) = Some (txout, bs @ r)"
      using unser_ser_ctxout [OF assms(1)] by blast
    then show ?thesis
      using bs False by simp
  qed
qed

text \<open>The flags and the mask code come out of the header code.\<close>

lemma and_12: "(w AND 12 = 0) \<longleftrightarrow> \<not> bit (w :: 32 word) 2 \<and> \<not> bit w 3"
proof -
  have "(12 :: 32 word) = push_bit 2 1 OR push_bit 3 1"
    by (simp add: push_bit_eq_mult)
  then have "w AND 12 = (w AND push_bit 2 1) OR (w AND push_bit 3 1)"
    by (simp only: bit.conj_disj_distrib)
  then show ?thesis
    using and_exp_eq_0_iff_not_bit [of w 2] and_exp_eq_0_iff_not_bit [of w 3]
    by (simp add: push_bit_eq_mult or_eq_0_iff)
qed

lemma and_bits:
  "(w AND 1 \<noteq> 0) \<longleftrightarrow> bit (w :: 32 word) 0" "(w AND 2 \<noteq> 0) \<longleftrightarrow> bit w 1" "(w AND 4 \<noteq> 0) \<longleftrightarrow> bit w 2"
  "(w AND 8 \<noteq> 0) \<longleftrightarrow> bit w 3"
  using and_exp_eq_0_iff_not_bit [of w 0] and_exp_eq_0_iff_not_bit [of w 1] and_exp_eq_0_iff_not_bit [of w 2]
    and_exp_eq_0_iff_not_bit [of w 3] by simp_all

lemma bit_unat_32: "bit (w :: 32 word) j \<longleftrightarrow> odd (unat w div 2 ^ j)"
  by (simp add: bit_iff_odd [symmetric] bit_unsigned_iff)

lemma header_code:
  fixes c s f g :: bool and k :: nat
  assumes "k < 2 ^ 27"
  defines "n \<equiv> 16 * (of_nat k :: 32 word) + (if c then 1 else 0) + (if s then 2 else 0) + (if f then 4 else 0) +
    (if g then 8 else 0)"
  shows "(n AND 1 \<noteq> 0) = c" and "(n AND 2 \<noteq> 0) = s" and "(n AND 4 \<noteq> 0) = f" and "(n AND 8 \<noteq> 0) = g"
    and "(n AND 12 \<noteq> 0) = (f \<or> g)" and "n div 16 = of_nat k"
proof -
  define m :: nat where "m = (if c then 1 else 0) + (if s then 2 else 0) + (if f then 4 else 0) + (if g then 8 else 0)"
  have m: "m < 16"
    by (simp add: m_def)
  have "n = of_nat (16 * k + m)"
    unfolding n_def m_def by simp
  moreover have "16 * k + m < 2 ^ 32"
    using assms(1) m by simp
  ultimately have un: "unat n = 16 * k + m"
    by (simp only: unat_of_nat) simp
  have bits: "bit n 0 = c" "bit n 1 = s" "bit n 2 = f" "bit n 3 = g"
    unfolding bit_unat_32 un power_0 power_one_right div_by_1 m_def
    by (cases c; cases s; cases f; cases g; simp; presburger)+
  show "(n AND 1 \<noteq> 0) = c" "(n AND 2 \<noteq> 0) = s" "(n AND 4 \<noteq> 0) = f" "(n AND 8 \<noteq> 0) = g" "(n AND 12 \<noteq> 0) = (f \<or> g)"
    unfolding and_bits and_12 bits by simp_all
  have "unat (n div 16) = k"
    using m un by (simp add: unat_div_distrib)
  then have "of_nat (unat (n div 16)) = (of_nat k :: 32 word)"
    by (simp only:)
  then show "n div 16 = of_nat k"
    by simp
qed

text \<open>Coins that the database holds: not pruned, with numbers in range.\<close>

definition wf_coins :: "CCoins \<Rightarrow> bool" where
  "wf_coins c \<longleftrightarrow>
     coins_clean c \<and> \<not> IsPruned c \<and>
     list_all (\<lambda>txout. CTxOut_IsNull txout \<or> wf_ctxout txout) (co_vout c) \<and> length (co_vout c) < 2 ^ 27 \<and>
     0 \<le> co_nHeight c \<and> co_nHeight c < 2 ^ 31"

lemma wf_coins_outs: "wf_coins c \<Longrightarrow> wf_outs (co_vout c)"
  by (auto simp: wf_coins_def wf_outs_def coins_clean_def list_all_iff)

lemma pruned_mask:
  assumes "\<not> out_avail outs 0" and "\<not> out_avail outs 1" and "\<not> list_all CTxOut_IsNull outs"
  shows "filter (\<lambda>ch. ch \<noteq> 0) (map (mask_byte outs) [0..<mask_bytes outs]) \<noteq> []"
proof -
  obtain i where i: "i < length outs" "\<not> CTxOut_IsNull (outs ! i)"
    using assms(3) by (auto simp: list_all_length)
  then have "i \<noteq> 0" "i \<noteq> 1"
    using assms(1,2) by (metis out_avail_def)+
  then obtain j where j: "i = 2 + j"
    by (metis One_nat_def add_2_eq_Suc not0_implies_Suc)
  then have eq: "i = 2 + (j div 8) * 8 + j mod 8"
    by simp
  have "out_avail outs (2 + (j div 8) * 8 + j mod 8)"
    using i unfolding eq [symmetric] out_avail_def by simp
  then have "bit (mask_byte outs (j div 8)) (j mod 8)"
    by (simp add: mask_byte_bit)
  then have "mask_byte outs (j div 8) \<noteq> 0"
    by auto
  moreover have "j div 8 < mask_bytes outs"
    using i(1) eq unfolding less_mask_bytes by linarith
  ultimately show ?thesis
    by (auto simp: filter_empty_conv)
qed

text \<open>The header code written for clean coins, and its parts as the reader sees them.\<close>

lemma coins_code_clean:
  assumes "wf_coins c"
  defines "outs \<equiv> co_vout c"
  defines "z \<equiv> length (filter (\<lambda>ch. ch \<noteq> 0) (map (mask_byte outs) [0..<mask_bytes outs]))"
  shows "\<exists>nCode. coins_code 16 c = Some nCode \<and>
    (nCode AND 1 \<noteq> 0) = co_fCoinBase c \<and> (nCode AND 2 \<noteq> 0) = co_fCoinStake c \<and>
    (nCode AND 4 \<noteq> 0) = out_avail outs 0 \<and> (nCode AND 8 \<noteq> 0) = out_avail outs 1 \<and>
    unat (nCode div 16 + (if nCode AND 12 \<noteq> 0 then 0 else 1)) = z"
proof -
  let ?e = "out_avail outs 0 \<or> out_avail outs 1"
  define k where "k = z - (if ?e then 0 else 1)"
  have z: "?e \<or> 0 < z"
    using pruned_mask [of outs] assms(1) unfolding z_def outs_def wf_coins_def IsPruned_def length_greater_0_conv
    by blast
  have "z \<le> mask_bytes outs"
    unfolding z_def by (rule order_trans [OF length_filter_le]) simp
  also have "\<dots> < 2 ^ 27"
  proof -
    have "length outs < 2 ^ 27"
      using assms(1) unfolding outs_def wf_coins_def by blast
    then show ?thesis
      unfolding mask_bytes_def by simp
  qed
  finally have zb: "z < 2 ^ 27" .
  then have kb: "k < 2 ^ 27"
    by (simp add: k_def)
  have "of_nat z - (if ?e then 0 else 1) = (of_nat k :: 32 word)"
    using z unfolding k_def by (auto simp: of_nat_diff Suc_leI)
  moreover define n where "n = 16 * (of_nat k :: 32 word) + (if co_fCoinBase c then 1 else 0) +
    (if co_fCoinStake c then 2 else 0) + (if out_avail outs 0 then 4 else 0) + (if out_avail outs 1 then 8 else 0)"
  ultimately have code: "coins_code 16 c = Some n"
    using z CalcMaskSize_clean [of c] assms(1)
    by (simp add: coins_code_def wf_coins_def Let_def z_def outs_def)
  note parts = header_code [OF kb, of "co_fCoinBase c" "co_fCoinStake c" "out_avail outs 0" "out_avail outs 1",
      folded n_def]
  have "unat (of_nat k + (if ?e then 0 else 1) :: 32 word) = unat (of_nat z :: 32 word)"
    using z unfolding k_def by (auto simp: of_nat_diff Suc_leI)
  also have "\<dots> = z"
    using zb by (simp add: unat_of_nat)
  finally have "unat (n div 16 + (if n AND 12 \<noteq> 0 then 0 else 1)) = z"
    by (subst parts(5), subst parts(6))
  with parts(1-4) code show ?thesis
    by blast
qed

lemma sint_of_int_32: "0 \<le> h \<Longrightarrow> h < 2 ^ 31 \<Longrightarrow> sint (of_int h :: 32 word) = h"
  by (simp add: sint_sbintrunc' signed_take_bit_int_eq_self)

text \<open>\<open>vout\<close> as the reader builds it: every output of the mask, then the cleanup.\<close>

lemma read_vout:
  assumes "wf_coins c"
  defines "outs \<equiv> co_vout c"
  shows "\<exists>k. map (out_avail outs) [0..<2 + mask_bytes outs * 8] =
      map (\<lambda>txout. \<not> CTxOut_IsNull txout) outs @ replicate k False \<and>
    drop_null_back (outs @ replicate k CTxOut_SetNull) = outs"
proof (intro exI conjI)
  have len: "length outs \<le> 2 + mask_bytes outs * 8"
    using less_mask_bytes [of "mask_bytes outs" outs] by simp
  have "map (out_avail outs) [0..<N] = map (\<lambda>txout. \<not> CTxOut_IsNull txout) outs @ replicate (N - length outs) False"
    if "length outs \<le> N" for N
    using that by (intro nth_equalityI) (auto simp: out_avail_def nth_append)
  from this [OF len] show "map (out_avail outs) [0..<2 + mask_bytes outs * 8] =
      map (\<lambda>txout. \<not> CTxOut_IsNull txout) outs @ replicate (2 + mask_bytes outs * 8 - length outs) False" .
  have "drop_null_back (outs @ replicate k CTxOut_SetNull) = drop_null_back outs" for k
  proof (induction k)
    case (Suc k)
    have "outs @ replicate (Suc k) CTxOut_SetNull = (outs @ replicate k CTxOut_SetNull) @ [CTxOut_SetNull]"
      by (simp add: replicate_append_same)
    then show ?case
      using Suc by (simp only: drop_null_back_snoc SetNull_IsNull if_True)
  qed simp
  moreover have "drop_null_back outs = outs"
    using assms(1) unfolding outs_def wf_coins_def coins_clean_def by (intro drop_null_back_id) auto
  ultimately show "drop_null_back (outs @ replicate (2 + mask_bytes outs * 8 - length outs) CTxOut_SetNull) = outs"
    by simp
qed

lemma unser_ser_coins:
  assumes "secp_ok S" and "wf_coins c"
  shows "\<exists>bs. ser_coins S c = Some bs \<and> unser_coins S (bs @ r) = Some (c\<lparr>co_nVersion := stored_int (co_nVersion c)\<rparr>, r)"
proof -
  let ?outs = "co_vout c"
  let ?mask = "map (mask_byte ?outs) [0..<mask_bytes ?outs]"
  obtain nCode where code: "coins_code 16 c = Some nCode" "(nCode AND 1 \<noteq> 0) = co_fCoinBase c"
    "(nCode AND 2 \<noteq> 0) = co_fCoinStake c" "(nCode AND 4 \<noteq> 0) = out_avail ?outs 0"
    "(nCode AND 8 \<noteq> 0) = out_avail ?outs 1"
    "unat (nCode div 16 + (if nCode AND 12 \<noteq> 0 then 0 else 1)) = length (filter (\<lambda>ch. ch \<noteq> 0) ?mask)"
    using coins_code_clean [OF assms(2)] by blast
  have clean: "coins_clean c"
    using assms(2) by (simp add: wf_coins_def)
  have mask: "read_mask_loop (length (filter (\<lambda>ch. ch \<noteq> 0) ?mask)) [out_avail ?outs 0, out_avail ?outs 1] (?mask @ r) =
      Some (map (out_avail ?outs) [0..<2 + mask_bytes ?outs * 8], r)" for r
  proof -
    have "?mask = [] \<or> last ?mask \<noteq> 0"
    proof (cases "mask_bytes ?outs")
      case (Suc b)
      have "mask_size_loop ?outs b (mask_bytes ?outs + 1) 0 =
          (mask_bytes ?outs, length (filter (\<lambda>ch. ch \<noteq> 0) [mask_byte ?outs b]))"
        using mask_size_loop_eq [of ?outs b "mask_bytes ?outs + 1" 0] clean Suc by (auto simp: coins_clean_def)
      moreover have "\<not> length ?outs \<le> 2 + b * 8" "length ?outs \<le> 2 + (b + 1) * 8"
        using Suc less_mask_bytes [of b ?outs] less_mask_bytes [of "Suc b" ?outs] by auto
      ultimately have "mask_byte_used ?outs b"
        using Suc by (auto simp: mask_size_loop.simps [of ?outs b] mask_size_loop.simps [of ?outs "Suc b"] split: if_splits)
      then show ?thesis
        using Suc by (simp add: mask_byte_used_iff)
    qed simp
    from read_mask_loop_eq [OF this, of "[out_avail ?outs 0, out_avail ?outs 1]" r] show ?thesis
      unfolding read_mask_avail .
  qed
  obtain k where k: "map (out_avail ?outs) [0..<2 + mask_bytes ?outs * 8] =
      map (\<lambda>txout. \<not> CTxOut_IsNull txout) ?outs @ replicate k False"
    "drop_null_back (?outs @ replicate k CTxOut_SetNull) = ?outs"
    using read_vout [OF assms(2)] by blast
  let ?h = "WriteVarInt_int (of_int (co_nHeight c))"
  obtain bs where outs: "ser_outs S ?outs = Some bs"
    "unser_outs S (map (\<lambda>txout. \<not> CTxOut_IsNull txout) ?outs @ replicate k False) (bs @ ?h @ r) =
      Some (?outs @ replicate k CTxOut_SetNull, ?h @ r)"
    using ser_outs_defined [OF assms(1) wf_coins_outs [OF assms(2)]] by blast
  have h: "sint (of_int (co_nHeight c) :: 32 word) = co_nHeight c"
    using assms(2) by (intro sint_of_int_32) (simp_all add: wf_coins_def)
  then have "ReadVarInt32 (?h @ r) = Some (of_int (co_nHeight c), r)"
    using assms(2) by (intro ReadVarInt_int_Write) (simp add: wf_coins_def)
  moreover have "ReadVarInt32 (WriteVarInt_int (co_nVersion c) @ r) = Some (stored_int (co_nVersion c), r)" for r
    by (rule ReadVarInt_int_stored)
  ultimately have "unser_coins S ((WriteVarInt_int (co_nVersion c) @ WriteVarInt32 nCode @ ?mask @ bs @ ?h) @ r) =
      Some (c\<lparr>co_nVersion := stored_int (co_nVersion c)\<rparr>, r)"
    using outs(2) h unfolding unser_coins_def
    by (simp only: append_assoc bind.simps prod.case ReadVarInt32_Write code mask k(1)) (simp add: Coins_Cleanup_def k(2))
  moreover have "ser_coins S c = Some (WriteVarInt_int (co_nVersion c) @ WriteVarInt32 nCode @ ?mask @ bs @ ?h)"
    using code(1) outs(1) CalcMaskSize_clean [OF clean] by (simp add: ser_coins_def)
  ultimately show ?thesis
    by blast
qed

lemma unser_ser_undo:
  assumes "secp_ok S" and "wf_ctxout (un_txout u)" and "0 \<le> un_nHeight u" "un_nHeight u < 2 ^ 30"
    and "un_nHeight u > 0 \<Longrightarrow> 0 \<le> sint (un_nVersion u)" and "un_nHeight u = 0 \<Longrightarrow> un_nVersion u = 0"
  shows "\<exists>bs. ser_undo S u = Some bs \<and> unser_undo S (bs @ r) = Some (u, r)"
proof -
  let ?c = "if un_fCoinBase u then 2 else (0 :: nat)" and ?s = "if un_fCoinStake u then 1 else (0 :: nat)"
  let ?h = "nat (un_nHeight u)"
  have "undo_code u = of_nat (4 * ?h + ?c + ?s)"
    using assms(3) by (simp add: undo_code_def of_nat_nat)
  moreover have "4 * ?h + ?c + ?s < 2 ^ 32"
    using assms(3,4) by (auto split: if_splits)
  ultimately have un: "unat (undo_code u) = 4 * ?h + ?c + ?s"
    by (simp only: unat_of_nat) simp
  have bits: "bit (undo_code u) 0 = un_fCoinStake u" "bit (undo_code u) 1 = un_fCoinBase u"
    unfolding bit_unat_32 un power_0 power_one_right div_by_1
    by (cases "un_fCoinBase u"; cases "un_fCoinStake u"; simp; presburger)+
  have "unat (drop_bit 2 (undo_code u)) = ?h"
    using un by (cases "un_fCoinBase u"; cases "un_fCoinStake u"; simp add: drop_bit_eq_div unat_div_distrib; linarith)
  then have h: "uint (drop_bit 2 (undo_code u)) = un_nHeight u"
    using assms(3) by (metis int_nat_eq uint_nat)
  obtain out where out: "ser_ctxout S (un_txout u) = Some out" "unser_ctxout S (out @ r) = Some (un_txout u, r)"
    using unser_ser_ctxout [OF assms(1,2)] by blast
  have "unser_undo S ((WriteVarInt32 (undo_code u) @
      (if un_nHeight u > 0 then WriteVarInt_int (un_nVersion u) else []) @ out) @ r) = Some (u, r)"
    using assms(3,5,6) out(2) ReadVarInt_int_Write [of "un_nVersion u" "out @ r"]
    by (cases "un_nHeight u > 0") (auto simp: unser_undo_def ReadVarInt32_Write h and_bits bits bits [unfolded One_nat_def]
        intro!: CTxInUndo.equality)
  then show ?thesis
    using out(1) by (auto simp: ser_undo_def)
qed

end
