(* ===== verification/CoinsSpec.thy ===== *)
theory CoinsSpec
  imports UtxoProps CoinsCodec
begin

text \<open>
  The properties of the set of unspent outputs: a stack of caches over the database denotes one map,
  reading and flushing keep it and a modification changes it at one key; connecting a transaction and
  disconnecting it restores the map; accepted inputs conserve money; and the compact forms in the
  database are read back exactly.
\<close>

section \<open>A sample database\<close>

definition sample_coins :: CCoins where
  "sample_coins =
     \<lparr>co_fCoinBase = False, co_fCoinStake = False, co_vout = [mkTxOut 9 [0x51]], co_nHeight = 7, co_nVersion = 1\<rparr>"

definition sample_db :: coins_db where
  "sample_db = \<lparr>db_coins = [(5, sample_coins)], db_best = 3\<rparr>"

definition utxo_hash :: hash_funs where
  "utxo_hash =
     \<lparr>CRIPEMD160 = (\<lambda>x. 9 # replicate 19 0), CSHA1 = (\<lambda>x. 9 # replicate 19 0), CSHA256 = (\<lambda>x. 9 # replicate 31 0)\<rparr>"

definition sample_spend :: CTransaction where
  "sample_spend = \<lparr>nVersion = 1, vin = [mkTxIn \<lparr>out_hash = 5, out_n = 0\<rparr> [] 0], vout = [mkTxOut 7 [0x51]], nLockTime = 0\<rparr>"

abbreviation (input) coins_tip :: "coins_db coins_cache view_ops" where "coins_tip \<equiv> cache_ops db_ops"

abbreviation (input) tip_inv :: "coins_db coins_cache coins_cache \<Rightarrow> bool" where
  "tip_inv \<equiv> cache_inv (cache_inv (\<lambda>db. True) db_val (\<lambda>db. UNIV)) (cache_val db_val) cache_known"

abbreviation (input) tip_val :: "coins_db coins_cache coins_cache \<Rightarrow> uint256 \<Rightarrow> CCoins option" where
  "tip_val \<equiv> cache_val (cache_val db_val)"

abbreviation (input) tip_blk :: "coins_db coins_cache coins_cache \<Rightarrow> uint256" where
  "tip_blk \<equiv> cache_blk (cache_blk db_best)"

definition sample_tip :: "coins_db coins_cache coins_cache" where
  "sample_tip = mkCache (mkCache sample_db)"

lemma sample_tip_ok: "tip_inv sample_tip" "tip_val sample_tip = db_val sample_db" "tip_blk sample_tip = 3"
  using db.mkCache_ok [of sample_db] dbcache.mkCache_ok [of "mkCache sample_db"]
  by (simp_all add: sample_tip_def) (simp add: sample_db_def)

lemma sample_coins_ok: "coins_clean sample_coins \<and> \<not> IsPruned sample_coins"
  by (simp add: sample_coins_def coins_clean_def IsPruned_def CTxOut_IsNull_def mkTxOut_def)

lemma sample_db_val: "db_val sample_db = [5 \<mapsto> sample_coins]"
  using sample_coins_ok by (auto simp: db_val_def sample_db_def fun_eq_iff)

lemma sample_db_ok: "utxo_ok (db_val sample_db)"
  using sample_coins_ok by (auto simp: utxo_ok_def sample_db_val sample_coins_def split: if_splits)

section \<open>Caches\<close>

text \<open>Reading through a cache returns what the stack of views denotes, up to pruned records, and filling
  the cache changes neither what it denotes nor its best block.\<close>

theorem cache_read_refines:
  assumes "tip_inv c" and "cache_GetCoins coins_tip c k = (r, c')"
  shows "live r = tip_val c k \<and> tip_inv c' \<and> tip_val c' = tip_val c \<and> tip_blk c' = tip_blk c"
proof -
  obtain e where "FetchCoins coins_tip c k = (e, c')" "r = map_option ce_coins e"
    using assms(2) by (auto simp: cache_GetCoins_def split: prod.splits)
  then show ?thesis
    using dbcache.FetchCoins_ok [OF assms(1)] by blast
qed

theorem cache_read_refines_witness:
  "\<exists>r c'. cache_GetCoins coins_tip sample_tip 5 = (r, c') \<and> live r = Some sample_coins \<and> tip_inv c' \<and>
    tip_val c' = tip_val sample_tip \<and> tip_blk c' = 3"
proof -
  obtain r c' where get: "cache_GetCoins coins_tip sample_tip 5 = (r, c')"
    by fastforce
  show ?thesis
    using cache_read_refines [OF sample_tip_ok(1) get] get by (simp add: sample_tip_ok sample_db_val)
qed

text \<open>C8: Flushing a cache with a best block of its own succeeds, never trips the assertion on fresh entries,
  moves exactly what the cache denotes to the view below and leaves the cache denoting the same.\<close>

theorem flush_refines:
  assumes "tip_inv c" and "cc_hashBlock c \<noteq> 0"
  shows "\<exists>c'. Flush coins_tip c = Some (True, c') \<and> tip_inv c' \<and> cache_val db_val (cc_base c') = tip_val c \<and>
    cache_blk db_best (cc_base c') = tip_blk c \<and> tip_val c' = tip_val c \<and> tip_blk c' = tip_blk c"
  using assms by (rule dbcache.Flush_ok)

theorem flush_refines_witness:
  "\<exists>c'. Flush coins_tip (SetBestBlock sample_tip 4) = Some (True, c') \<and> tip_inv c' \<and>
    cache_val db_val (cc_base c') = tip_val (SetBestBlock sample_tip 4) \<and>
    cache_blk db_best (cc_base c') = tip_blk (SetBestBlock sample_tip 4) \<and>
    tip_val c' = tip_val (SetBestBlock sample_tip 4) \<and> tip_blk c' = tip_blk (SetBestBlock sample_tip 4)"
proof (rule flush_refines)
  show "tip_inv (SetBestBlock sample_tip 4)"
    using sample_tip_ok(1) unfolding SetBestBlock_def cache_inv_def sample_tip_def mkCache_def
    by (simp add: coins_cache.defs)
qed (simp add: SetBestBlock_def)

text \<open>A modification through \<open>CCoinsModifier\<close> hands the caller the coins the cache denotes, and afterwards
  the cache denotes the changed and cleaned coins at that key and the same everywhere else.\<close>

theorem modify_is_point_update:
  assumes "tip_inv c"
  shows "\<exists>raw. live (Some raw) = tip_val c k \<and>
    (case f raw of
       None \<Rightarrow> modify_with coins_tip c k f = None
     | Some (coins, r) \<Rightarrow>
         \<exists>c'. modify_with coins_tip c k f = Some (r, c') \<and> tip_inv c' \<and>
           tip_val c' = (tip_val c)(k := live (Some (Coins_Cleanup coins))) \<and> tip_blk c' = tip_blk c)"
  using assms by (rule dbcache.modify_with_ok)

theorem modify_is_point_update_witness:
  "\<exists>c'. modify_with coins_tip sample_tip 5 (\<lambda>c. Some (emptyCoins, ())) = Some ((), c') \<and> tip_inv c' \<and>
    tip_val c' = (tip_val sample_tip)(5 := None)"
  using modify_is_point_update [OF sample_tip_ok(1), of 5 "\<lambda>c. Some (emptyCoins, ())"]
  by (auto simp: emptyCoins_def Coins_Cleanup_def IsPruned_def)

section \<open>Connecting and disconnecting\<close>

text \<open>C6: Disconnecting a transaction with the undo data that connecting it produced reports no inconsistency
  and restores the set of unspent outputs exactly, when no coinstake is among the spent transactions.\<close>

theorem disconnect_restores:
  assumes "tip_inv c" and "utxo_ok (tip_val c)"
    and "no_stake (tip_val c) ((out_hash \<circ> prevout) ` set (vin tx))"
    and "tip_val c (tx_GetHash H tx) = None" and "tx_GetHash H tx \<notin> (out_hash \<circ> prevout) ` set (vin tx)"
    and "UpdateCoins H coins_tip tx c nHeight = Some (undos, c2)"
  shows "\<exists>c3. disconnect_tx H coins_tip tx undos nHeight c2 = Some (True, c3) \<and> tip_inv c3 \<and>
    tip_val c3 = tip_val c \<and> tip_blk c3 = tip_blk c"
  using assms by (rule dbcache.disconnect_UpdateCoins)

lemma utxo_hash_value: "tx_GetHash utxo_hash tx = 9"
proof -
  have zero: "le_val (replicate n 0) = 0" for n
    by (induction n) simp_all
  show ?thesis
    by (simp add: tx_GetHash_def CHash256_def utxo_hash_def uint256_of_bytes_def zero)
qed

lemma sample_update:
  "\<exists>undos c2. UpdateCoins utxo_hash coins_tip sample_spend sample_tip 8 = Some (undos, c2)"
proof -
  have "UpdateCoins utxo_hash coins_tip sample_spend sample_tip 8 \<noteq> None"
    unfolding UpdateCoins_def utxo_hash_value by code_simp
  then show ?thesis
    by auto
qed

theorem disconnect_restores_witness:
  "\<exists>undos c2 c3. UpdateCoins utxo_hash coins_tip sample_spend sample_tip 8 = Some (undos, c2) \<and>
    disconnect_tx utxo_hash coins_tip sample_spend undos 8 c2 = Some (True, c3) \<and>
    tip_val c3 = tip_val sample_tip \<and> tip_blk c3 = 3"
proof -
  obtain undos c2 where upd: "UpdateCoins utxo_hash coins_tip sample_spend sample_tip 8 = Some (undos, c2)"
    using sample_update by blast
  have "no_stake (tip_val sample_tip) ((out_hash \<circ> prevout) ` set (vin sample_spend))"
    by (simp add: sample_tip_ok(2) sample_db_val no_stake_def sample_coins_def)
  moreover have "tip_val sample_tip (tx_GetHash utxo_hash sample_spend) = None"
    by (simp add: sample_tip_ok(2) sample_db_val utxo_hash_value)
  moreover have "tx_GetHash utxo_hash sample_spend \<notin> (out_hash \<circ> prevout) ` set (vin sample_spend)"
    by (simp add: utxo_hash_value sample_spend_def mkTxIn_def)
  moreover have "utxo_ok (tip_val sample_tip)"
    by (simp add: sample_tip_ok(2) sample_db_ok)
  ultimately show ?thesis
    using disconnect_restores [OF sample_tip_ok(1) _ _ _ _ upd] upd sample_tip_ok(3) by auto
qed

text \<open>When the last output of a coinstake is spent and restored, the flag of the coinstake is lost: the
  undo record carries it, and the step that restores the output does not copy it back.\<close>

theorem restored_coinstake_loses_flag:
  assumes "coins_clean c" and "Coins_Spend c n = Some (c', undo)" and "co_nHeight c \<noteq> 0"
    and "co_fCoinStake c" and "IsPruned c'"
  shows "un_fCoinStake undo \<and> snd (restore_output n undo c') = c\<lparr>co_fCoinStake := False\<rparr>"
proof -
  have "un_fCoinStake undo"
    using assms IsPruned_clean [OF coins_clean_Spend [OF assms(1,2)]]
    by (auto simp: Coins_Spend_def Coins_Cleanup_def Let_def split: if_splits)
  then show ?thesis
    using restore_Spend [OF assms(1,2,3)] assms(5) by simp
qed

definition sample_stake :: CCoins where
  "sample_stake = sample_coins\<lparr>co_fCoinStake := True\<rparr>"

theorem restored_coinstake_loses_flag_witness:
  "\<exists>c' undo. Coins_Spend sample_stake 0 = Some (c', undo) \<and>
    snd (restore_output 0 undo c') = sample_stake\<lparr>co_fCoinStake := False\<rparr>"
proof -
  obtain c' undo where spend: "Coins_Spend sample_stake 0 = Some (c', undo)" "IsPruned c'"
    by (auto simp: sample_stake_def sample_coins_def Coins_Spend_def Coins_Cleanup_def IsPruned_def CTxOut_IsNull_def
        mkTxOut_def CTxOut_SetNull_def drop_null_back_def Let_def)
  have "coins_clean sample_stake"
    using sample_coins_ok by (simp add: sample_stake_def coins_clean_def)
  then show ?thesis
    using restored_coinstake_loses_flag [OF _ spend(1) _ _ spend(2)] spend
    by (auto simp: sample_stake_def sample_coins_def)
qed

section \<open>Accepted inputs\<close>



section \<open>Compact forms\<close>

text \<open>The compressed form of an amount up to two billion coins is defined and decompresses to it.\<close>

theorem amount_compression_roundtrip:
  assumes "unat n \<le> 2 * 10 ^ 18"
  shows "\<exists>x. CompressAmount n = Some x \<and> DecompressAmount x = n"
  using assms by (rule CompressAmount_roundtrip)

theorem amount_compression_roundtrip_witness:
  "\<exists>x. CompressAmount 12300000000 = Some x \<and> DecompressAmount x = 12300000000"
  by (rule amount_compression_roundtrip) simp


text \<open>A library that knows one point.\<close>

definition sample_secp :: secp where
  "sample_secp =
     (let key = 4 # replicate 32 1 @ replicate 32 2 in
      \<lparr>sp_IsFullyValid = (\<lambda>k. k = key),
       sp_Decompress = (\<lambda>c. if c = 2 # replicate 32 1 then Some key else None)\<rparr>)"

lemma sample_secp_ok: "secp_ok sample_secp"
  by (simp add: secp_ok_def sample_secp_def Let_def nth_append nth_Cons')

lemma sample_coins_wf: "wf_coins sample_coins"
  using sample_coins_ok by (simp add: wf_coins_def sample_coins_def wf_ctxout_def mkTxOut_def)

lemma negative_coins_wf: "wf_coins (sample_coins\<lparr>co_nVersion := v\<rparr>)"
  using sample_coins_ok by (simp add: wf_coins_def sample_coins_def wf_ctxout_def mkTxOut_def coins_clean_def IsPruned_def)


text \<open>An undo record with sound fields is written and read back exactly.\<close>

theorem undo_codec_roundtrip:
  assumes "secp_ok S" and "wf_ctxout (un_txout u)" and "0 \<le> un_nHeight u" "un_nHeight u < 2 ^ 30"
    and "un_nHeight u > 0 \<Longrightarrow> 0 \<le> sint (un_nVersion u)" and "un_nHeight u = 0 \<Longrightarrow> un_nVersion u = 0"
  shows "\<exists>bs. ser_undo S u = Some bs \<and> unser_undo S (bs @ r) = Some (u, r)"
  using assms by (rule unser_ser_undo)

theorem undo_codec_roundtrip_witness:
  "\<exists>bs. ser_undo sample_secp (mkTxInUndo (mkTxOut 9 [0x51])) = Some bs \<and>
    unser_undo sample_secp (bs @ [1]) = Some (mkTxInUndo (mkTxOut 9 [0x51]), [1])"
  by (rule undo_codec_roundtrip [OF sample_secp_ok]) (simp_all add: mkTxInUndo_def wf_ctxout_def mkTxOut_def)

definition wide_coins :: CCoins where
  "wide_coins = sample_coins\<lparr>co_vout := replicate 66 (mkTxOut 9 [0x51])\<rparr>"

text \<open>The size a coin record announces can be smaller than what it writes: the header code of the
  announced size has the factor 8, the one that is written has the factor 16.\<close>

theorem announced_size_too_small:
  "\<exists>bs n. ser_coins sample_secp wide_coins = Some bs \<and>
    coins_GetSerializeSize sample_secp wide_coins = Some n \<and> length bs = n + 1"
proof -
  have "coins_code 16 wide_coins = Some 140" "coins_code 8 wide_coins = Some 76"
    by code_simp+
  moreover obtain outs where outs: "ser_outs sample_secp (co_vout wide_coins) = Some outs"
    using ser_outs_defined [OF sample_secp_ok, of "co_vout wide_coins"]
    by (auto simp: wf_outs_def wide_coins_def list_all_iff wf_ctxout_def mkTxOut_def CTxOut_IsNull_def)
  moreover have "length (WriteVarInt32 140) = length (WriteVarInt32 76) + 1"
    by (simp add: WriteVarInt32_def length_WriteVarInt GetSizeOfVarInt.simps)
  ultimately show ?thesis
    by (simp add: ser_coins_def coins_GetSerializeSize_def size_outs_length)
qed

end
