(* ===== verification/Merkle.thy ===== *)
theory Merkle
  imports TxCodec Interpreter SigHash
begin

unbundle bit_operations_syntax

text \<open>
  Merkle trees of a block, \<open>BuildMerkleTree\<close>, \<open>GetMerkleBranch\<close> and \<open>CheckMerkleBranch\<close> of
  \<open>src/primitives/block.cpp\<close>. The vector \<open>vMerkleTree\<close> is a list that the loops extend; its first
  level, the hashes of the transactions, is the argument. The hash function is an argument as in the
  interpreter.
\<close>

section \<open>Operations\<close>

text \<open>\<open>Hash(BEGIN(a), END(a), BEGIN(b), END(b))\<close>.\<close>

definition merkle_node :: "hash_funs \<Rightarrow> uint256 \<Rightarrow> uint256 \<Rightarrow> uint256" where
  "merkle_node H a b = uint256_of_bytes (CHash256 H (ser_u256 a @ ser_u256 b))"

text \<open>The loop over one level of size \<open>nSize\<close> that starts at \<open>j\<close>.\<close>

function merkle_inner :: "hash_funs \<Rightarrow> nat \<Rightarrow> nat \<Rightarrow> nat \<Rightarrow> uint256 list \<Rightarrow> bool \<Rightarrow> uint256 list \<times> bool" where
  "merkle_inner H j nSize i vMerkleTree mutated =
     (if i < nSize then
        let i2 = min (i + 1) (nSize - 1);
            mutated' = (mutated \<or> i2 = i + 1 \<and> i2 + 1 = nSize \<and> vMerkleTree ! (j + i) = vMerkleTree ! (j + i2))
        in merkle_inner H j nSize (i + 2)
             (vMerkleTree @ [merkle_node H (vMerkleTree ! (j + i)) (vMerkleTree ! (j + i2))]) mutated'
      else (vMerkleTree, mutated))"
  by pat_completeness auto
termination
  by (relation "measure (\<lambda>(H, j, nSize, i, v, m). nSize - i)") auto

declare merkle_inner.simps [simp del]

function merkle_outer :: "hash_funs \<Rightarrow> nat \<Rightarrow> nat \<Rightarrow> uint256 list \<Rightarrow> bool \<Rightarrow> uint256 list \<times> bool" where
  "merkle_outer H j nSize vMerkleTree mutated =
     (if 1 < nSize then
        case merkle_inner H j nSize 0 vMerkleTree mutated of
          (v, m) \<Rightarrow> merkle_outer H (j + nSize) ((nSize + 1) div 2) v m
      else (vMerkleTree, mutated))"
  by pat_completeness auto
termination
  by (relation "measure (\<lambda>(H, j, nSize, v, m). nSize)") auto

declare merkle_outer.simps [simp del]

text \<open>The tree, the flag, and the root.\<close>

definition BuildMerkleTree :: "hash_funs \<Rightarrow> uint256 list \<Rightarrow> uint256 list \<times> bool \<times> uint256" where
  "BuildMerkleTree H txids =
     (case merkle_outer H 0 (length txids) txids False of
        (v, mutated) \<Rightarrow> (v, mutated, if v = [] then 0 else last v))"

text \<open>The branch of the transaction at an index.\<close>

function branch_loop :: "uint256 list \<Rightarrow> nat \<Rightarrow> nat \<Rightarrow> int \<Rightarrow> uint256 list" where
  "branch_loop vMerkleTree j nSize nIndex =
     (if 1 < nSize then
        let i = min (nIndex XOR 1) (int nSize - 1) in
        vMerkleTree ! nat (int j + i) # branch_loop vMerkleTree (j + nSize) ((nSize + 1) div 2) (drop_bit 1 nIndex)
      else [])"
  by pat_completeness auto
termination
  by (relation "measure (\<lambda>(v, j, nSize, i). nSize)") auto

declare branch_loop.simps [simp del]

definition GetMerkleBranch :: "hash_funs \<Rightarrow> uint256 list \<Rightarrow> int \<Rightarrow> uint256 list" where
  "GetMerkleBranch H txids nIndex =
     (case BuildMerkleTree H txids of (v, _, _) \<Rightarrow> branch_loop v 0 (length txids) nIndex)"

fun check_branch_loop :: "hash_funs \<Rightarrow> uint256 \<Rightarrow> uint256 list \<Rightarrow> int \<Rightarrow> uint256" where
  "check_branch_loop H hash [] nIndex = hash"
| "check_branch_loop H hash (h # branch) nIndex =
     check_branch_loop H (if nIndex AND 1 \<noteq> 0 then merkle_node H h hash else merkle_node H hash h)
       branch (drop_bit 1 nIndex)"

definition CheckMerkleBranch :: "hash_funs \<Rightarrow> uint256 \<Rightarrow> uint256 list \<Rightarrow> int \<Rightarrow> uint256" where
  "CheckMerkleBranch H hash vMerkleBranch nIndex =
     (if nIndex = -1 then 0 else check_branch_loop H hash vMerkleBranch nIndex)"

section \<open>Levels\<close>

text \<open>A level is halved by combining neighbours; an odd last element is combined with itself.\<close>

fun level_up :: "('a \<Rightarrow> 'a \<Rightarrow> 'a) \<Rightarrow> 'a list \<Rightarrow> 'a list" where
  "level_up N [] = []"
| "level_up N [a] = [N a a]"
| "level_up N (a # b # xs) = N a b # level_up N xs"

fun dup_end :: "'a list \<Rightarrow> bool" where
  "dup_end [] \<longleftrightarrow> False"
| "dup_end [a] \<longleftrightarrow> False"
| "dup_end (a # b # xs) \<longleftrightarrow> (if xs = [] then a = b else dup_end xs)"

lemma length_level_up [simp]: "length (level_up N xs) = (length xs + 1) div 2"
  by (induction N xs rule: level_up.induct) auto

lemma level_up_Nil_iff [simp]: "level_up N xs = [] \<longleftrightarrow> xs = []" "[] = level_up N xs \<longleftrightarrow> xs = []"
  by (cases xs rule: dup_end.cases; simp)+

lemma nth_level_up:
  "k < (length xs + 1) div 2 \<Longrightarrow> level_up N xs ! k = N (xs ! (2 * k)) (xs ! min (2 * k + 1) (length xs - 1))"
proof (induction N xs arbitrary: k rule: level_up.induct)
  case (3 N a b xs)
  show ?case
  proof (cases k)
    case (Suc j)
    then have "xs \<noteq> []"
      using "3.prems" by auto
    then have "min (2 * k + 1) (length (a # b # xs) - 1) = Suc (Suc (min (2 * j + 1) (length xs - 1)))"
      using Suc by (cases xs) auto
    then show ?thesis
      using 3 Suc by simp
  qed simp
qed auto

function merkle_levels :: "('a \<Rightarrow> 'a \<Rightarrow> 'a) \<Rightarrow> 'a list \<Rightarrow> 'a list" where
  "merkle_levels N xs = xs @ (if 1 < length xs then merkle_levels N (level_up N xs) else [])"
  by pat_completeness auto
termination
  by (relation "measure (length \<circ> snd)") auto

function merkle_top :: "('a \<Rightarrow> 'a \<Rightarrow> 'a) \<Rightarrow> 'a list \<Rightarrow> 'a" where
  "merkle_top N xs = (if 1 < length xs then merkle_top N (level_up N xs) else hd xs)"
  by pat_completeness auto
termination
  by (relation "measure (length \<circ> snd)") auto

function merkle_dup :: "('a \<Rightarrow> 'a \<Rightarrow> 'a) \<Rightarrow> 'a list \<Rightarrow> bool" where
  "merkle_dup N xs = (if 1 < length xs then dup_end xs \<or> merkle_dup N (level_up N xs) else False)"
  by pat_completeness auto
termination
  by (relation "measure (length \<circ> snd)") auto

declare merkle_levels.simps [simp del] merkle_top.simps [simp del] merkle_dup.simps [simp del]

lemma merkle_inner_level:
  assumes "v = pre @ xs @ acc" and "length pre = j" and "length xs = nSize" and "even i" and "i \<le> nSize + 1"
  shows "merkle_inner H j nSize i v m = (v @ level_up (merkle_node H) (drop i xs), m \<or> dup_end (drop i xs))"
  using assms
proof (induction H j nSize i v m arbitrary: acc rule: merkle_inner.induct)
  case (1 H j nSize i v m)
  have nth: "v ! (j + k) = xs ! k" if "k < nSize" for k
    using that "1.prems"(1-3) by (simp add: nth_append)
  show ?case
  proof (cases "i < nSize")
    case True
    let ?i2 = "min (i + 1) (nSize - 1)"
    let ?n = "merkle_node H (xs ! i) (xs ! ?i2)"
    have i2: "?i2 < nSize"
      using True by simp
    have "merkle_inner H j nSize i v m =
        merkle_inner H j nSize (i + 2) (v @ [?n]) (m \<or> ?i2 = i + 1 \<and> ?i2 + 1 = nSize \<and> xs ! i = xs ! ?i2)"
      using True nth [OF True] nth [OF i2] by (subst merkle_inner.simps) (simp add: Let_def)
    also have "\<dots> = ((v @ [?n]) @ level_up (merkle_node H) (drop (i + 2) xs),
        (m \<or> ?i2 = i + 1 \<and> ?i2 + 1 = nSize \<and> xs ! i = xs ! ?i2) \<or> dup_end (drop (i + 2) xs))"
      using "1.IH" [OF True refl refl, of "acc @ [?n]"] "1.prems" nth [OF True] nth [OF i2] True by simp
    also have "\<dots> = (v @ level_up (merkle_node H) (drop i xs), m \<or> dup_end (drop i xs))"
    proof (cases "i + 1 < nSize")
      case True
      then have "drop i xs = xs ! i # xs ! (i + 1) # drop (i + 2) xs"
        using "1.prems"(3) by (simp add: Cons_nth_drop_Suc)
      then show ?thesis
        using True "1.prems"(3) by auto
    next
      case False
      then have "nSize = Suc i"
        using \<open>i < nSize\<close> by simp
      then have "drop i xs = [xs ! i]"
        using "1.prems"(3) by (simp add: Cons_nth_drop_Suc [symmetric])
      then show ?thesis
        using False "1.prems"(3) \<open>nSize = Suc i\<close> by simp
    qed
    finally show ?thesis .
  next
    case False
    then show ?thesis
      using "1.prems"(3) by (subst merkle_inner.simps) simp
  qed
qed

lemma merkle_outer_levels:
  assumes "length pre = j" and "length xs = nSize"
  shows "merkle_outer H j nSize (pre @ xs) m =
    (pre @ merkle_levels (merkle_node H) xs, m \<or> merkle_dup (merkle_node H) xs)"
  using assms
proof (induction "merkle_node H" xs arbitrary: pre j nSize m rule: merkle_levels.induct)
  case (1 xs)
  show ?case
  proof (cases "1 < length xs")
    case True
    then show ?thesis
      using "1.hyps" [OF True, of "pre @ xs" "j + nSize" "(nSize + 1) div 2"] "1.prems"
        merkle_inner_level [of "pre @ xs" pre xs "[]" j nSize 0 H]
      by (subst merkle_outer.simps, subst merkle_levels.simps, subst merkle_dup.simps) simp
  next
    case False
    then show ?thesis
      using "1.prems" by (subst merkle_outer.simps, subst merkle_levels.simps, subst merkle_dup.simps) simp
  qed
qed

lemma merkle_levels_last: "xs \<noteq> [] \<Longrightarrow> merkle_levels N xs \<noteq> [] \<and> last (merkle_levels N xs) = merkle_top N xs"
proof (induction N xs rule: merkle_levels.induct)
  case (1 N xs)
  show ?case
  proof (cases "1 < length xs")
    case True
    then have "level_up N xs \<noteq> []"
      by auto
    then show ?thesis
      using 1 True by (subst merkle_levels.simps, subst merkle_levels.simps [of N xs], subst merkle_top.simps) simp
  next
    case False
    then have "length xs = 1"
      using "1.prems" by (cases xs) auto
    then obtain a where "xs = [a]"
      by (cases xs) auto
    then show ?thesis
      by (simp add: merkle_levels.simps merkle_top.simps)
  qed
qed

lemma BuildMerkleTree_levels:
  "BuildMerkleTree H txids =
     (merkle_levels (merkle_node H) txids, merkle_dup (merkle_node H) txids,
      if txids = [] then 0 else merkle_top (merkle_node H) txids)"
proof (cases "txids = []")
  case True
  then show ?thesis
    by (simp add: BuildMerkleTree_def merkle_outer.simps merkle_levels.simps merkle_dup.simps)
next
  case False
  then show ?thesis
    using merkle_outer_levels [of "[]" 0 txids "length txids" H False] merkle_levels_last [OF False]
    by (simp add: BuildMerkleTree_def)
qed

section \<open>Branches\<close>

lemma int_xor_one: "int i XOR 1 = (if even i then int i + 1 else int i - 1)"
  by (simp add: xor_one_eq)

lemma check_branch:
  assumes "i < length xs"
  shows "check_branch_loop H (xs ! i) (branch_loop (pre @ merkle_levels (merkle_node H) xs) (length pre) (length xs) (int i)) (int i) =
    merkle_top (merkle_node H) xs"
  using assms
proof (induction "merkle_node H" xs arbitrary: pre i rule: merkle_levels.induct)
  case (1 xs)
  let ?N = "merkle_node H" and ?n = "length xs"
  show ?case
  proof (cases "1 < ?n")
    case True
    let ?sib = "nat (min (int i XOR 1) (int ?n - 1))"
    have sib: "?sib = (if even i then min (i + 1) (?n - 1) else i - 1)" "?sib < ?n"
      using True "1.prems" by (auto simp: int_xor_one min_def nat_diff_distrib')
    have nonneg: "0 \<le> min (int i XOR 1) (int ?n - 1)"
      using True by (auto simp: int_xor_one elim: oddE)
    have levels: "merkle_levels ?N xs = xs @ merkle_levels ?N (level_up ?N xs)"
      using True by (subst merkle_levels.simps) simp
    have "nat (int (length pre) + min (int i XOR 1) (int ?n - 1)) = length pre + ?sib"
      using nonneg by (simp only: nat_add_distrib of_nat_0_le_iff nat_int)
    then have at: "(pre @ merkle_levels ?N xs) ! nat (int (length pre) + min (int i XOR 1) (int ?n - 1)) = xs ! ?sib"
      using sib(2) unfolding levels by (simp only: nth_append_length_plus nth_append_left)
    have half: "drop_bit 1 (int i) = int (i div 2)"
      by (simp add: drop_bit_eq_div zdiv_int)
    have up: "i div 2 < length (level_up ?N xs)"
      using "1.prems" by simp
    have parent: "(if int i AND 1 \<noteq> 0 then ?N (xs ! ?sib) (xs ! i) else ?N (xs ! i) (xs ! ?sib)) = level_up ?N xs ! (i div 2)"
    proof -
      have "level_up ?N xs ! (i div 2) = ?N (xs ! (2 * (i div 2))) (xs ! min (2 * (i div 2) + 1) (?n - 1))"
        using up by (intro nth_level_up) simp
      then show ?thesis
        using "1.prems" unfolding sib(1) by (cases "even i") (auto simp: and_one_eq mod_2_eq_odd min_def elim!: evenE oddE)
    qed
    have "branch_loop (pre @ merkle_levels ?N xs) (length pre) ?n (int i) =
        xs ! ?sib # branch_loop ((pre @ xs) @ merkle_levels ?N (level_up ?N xs)) (length (pre @ xs))
          (length (level_up ?N xs)) (int (i div 2))"
      using True by (subst branch_loop.simps) (simp add: Let_def at half [unfolded One_nat_def], simp add: levels)
    then show ?thesis
      using "1.hyps" [OF True up, of "pre @ xs"] True half parent
      by (subst merkle_top.simps) simp
  next
    case False
    then show ?thesis
      using "1.prems" by (cases xs) (auto simp: branch_loop.simps merkle_top.simps)
  qed
qed

lemma CheckMerkleBranch_Get:
  assumes "i < length txids" and "BuildMerkleTree H txids = (v, mutated, root)"
  shows "CheckMerkleBranch H (txids ! i) (GetMerkleBranch H txids (int i)) (int i) = root"
  using check_branch [OF assms(1), of H "[]"] assms
  by (auto simp: CheckMerkleBranch_def GetMerkleBranch_def BuildMerkleTree_levels)

section \<open>What the root commits to\<close>

text \<open>The pairs that are hashed while a tree is built.\<close>

fun level_pairs :: "'a list \<Rightarrow> ('a \<times> 'a) set" where
  "level_pairs [] = {}"
| "level_pairs [a] = {(a, a)}"
| "level_pairs (a # b # xs) = insert (a, b) (level_pairs xs)"

function merkle_pairs :: "('a \<Rightarrow> 'a \<Rightarrow> 'a) \<Rightarrow> 'a list \<Rightarrow> ('a \<times> 'a) set" where
  "merkle_pairs N xs = (if 1 < length xs then level_pairs xs \<union> merkle_pairs N (level_up N xs) else {})"
  by pat_completeness auto
termination
  by (relation "measure (length \<circ> snd)") auto

declare merkle_pairs.simps [simp del]

lemma set_level_up: "set (level_up N xs) = (\<lambda>(a, b). N a b) ` level_pairs xs"
  by (induction N xs rule: level_up.induct) auto

text \<open>
  Equal next levels come from equal levels, unless one of them ends in two equal hashes, which is
  what the flag reports.
\<close>

lemma level_up_inj:
  assumes "inj_on (\<lambda>(a, b). N a b) (level_pairs xs \<union> level_pairs ys)"
    and "level_up N xs = level_up N ys" and "\<not> dup_end xs" and "\<not> dup_end ys"
  shows "xs = ys"
  using assms
proof (induction N xs arbitrary: ys rule: level_up.induct)
  case (1 N)
  then show ?case by (cases ys rule: dup_end.cases) auto
next
  case (2 N a)
  show ?case
  proof (cases ys rule: dup_end.cases)
    case (3 c d zs)
    then have "N a a = N c d" "zs = []"
      using "2.prems"(2) by auto
    then have "(a, a) = (c, d)"
      using "2.prems"(1) 3 by (intro inj_onD [OF "2.prems"(1)]) auto
    then show ?thesis
      using "2.prems"(4) 3 \<open>zs = []\<close> by auto
  next
    case (2 c)
    then show ?thesis
      using "2.prems"(1,2) inj_onD [OF "2.prems"(1), of "(a, a)" "(c, c)"] by auto
  qed (use "2.prems"(2) in simp)
next
  case (3 N a b xs)
  show ?case
  proof (cases ys rule: dup_end.cases)
    case 1
    then show ?thesis using "3.prems"(2) by simp
  next
    case (2 c)
    then have "N a b = N c c" "xs = []"
      using "3.prems"(2) by auto
    then have "(a, b) = (c, c)"
      using 2 by (intro inj_onD [OF "3.prems"(1)]) auto
    then show ?thesis
      using "3.prems"(3) \<open>xs = []\<close> by auto
  next
    case ys: (3 c d zs)
    then have "(a, b) = (c, d)"
      using "3.prems"(2) by (intro inj_onD [OF "3.prems"(1)]) auto
    moreover have "xs = zs"
    proof (rule "3.IH")
      show "inj_on (\<lambda>(a, b). N a b) (level_pairs xs \<union> level_pairs zs)"
        by (rule inj_on_subset [OF "3.prems"(1)]) (use ys in auto)
      show "level_up N xs = level_up N zs"
        using "3.prems"(2) ys by simp
      show "\<not> dup_end xs" "\<not> dup_end zs"
        using "3.prems"(3,4) ys by (auto split: if_splits)
    qed
    ultimately show ?thesis
      using ys by simp
  qed
qed

lemma merkle_top_in: "1 < length xs \<Longrightarrow> merkle_top N xs \<in> (\<lambda>(a, b). N a b) ` merkle_pairs N xs"
proof (induction N xs rule: merkle_top.induct)
  case (1 N xs)
  let ?up = "level_up N xs"
  have top: "merkle_top N xs = merkle_top N ?up" and pairs: "merkle_pairs N xs = level_pairs xs \<union> merkle_pairs N ?up"
    using "1.prems" by (subst merkle_top.simps merkle_pairs.simps, simp)+
  show ?case
  proof (cases "1 < length ?up")
    case True
    then show ?thesis
      using "1.IH" [OF "1.prems"] unfolding top pairs by blast
  next
    case False
    then have "length ?up = 1"
      using "1.prems" by simp
    then have "merkle_top N ?up \<in> set ?up"
      by (cases ?up) (simp_all add: merkle_top.simps)
    then show ?thesis
      unfolding top pairs set_level_up by blast
  qed
qed

text \<open>The levels of a tree.\<close>

inductive level_of :: "('a \<Rightarrow> 'a \<Rightarrow> 'a) \<Rightarrow> 'a list \<Rightarrow> 'a list \<Rightarrow> bool" for N where
  level_self: "level_of N xs xs"
| level_next: "1 < length xs \<Longrightarrow> level_of N (level_up N xs) zs \<Longrightarrow> level_of N xs zs"

lemma level_of_top: "xs \<noteq> [] \<Longrightarrow> level_of N xs [merkle_top N xs]"
proof (induction N xs rule: merkle_top.induct)
  case (1 N xs)
  show ?case
  proof (cases "1 < length xs")
    case True
    then have "level_up N xs \<noteq> []"
      using "1.prems" by simp
    then show ?thesis
      using "1.IH" [OF True] True by (subst merkle_top.simps) (simp add: level_next)
  next
    case False
    then have "xs = [hd xs]"
      using "1.prems" by (cases xs) auto
    then show ?thesis
      using False level_self [of N xs] by (subst merkle_top.simps) simp
  qed
qed

lemma level_of_sub: "level_of N xs zs \<Longrightarrow> zs = xs \<or> set zs \<subseteq> (\<lambda>(a, b). N a b) ` merkle_pairs N xs"
proof (induction rule: level_of.induct)
  case (level_next xs zs)
  then show ?case
    by (subst merkle_pairs.simps) (auto simp: set_level_up)
qed simp

lemma level_of_pairs:
  "level_of N xs zs \<Longrightarrow> 1 < length zs \<Longrightarrow>
    level_pairs zs \<subseteq> merkle_pairs N xs \<and> (\<not> merkle_dup N xs \<longrightarrow> \<not> dup_end zs)"
proof (induction rule: level_of.induct)
  case (level_self xs)
  then show ?case
    by (auto simp: merkle_pairs.simps [of N xs] merkle_dup.simps [of N xs])
next
  case (level_next xs zs)
  then show ?case
    by (auto simp: merkle_pairs.simps [of N xs] merkle_dup.simps [of N xs])
qed

lemma level_of_prev:
  "level_of N us ux \<Longrightarrow> us = level_up N xs \<Longrightarrow> 1 < length xs \<Longrightarrow>
    \<exists>zs. level_of N xs zs \<and> 1 < length zs \<and> ux = level_up N zs"
proof (induction arbitrary: xs rule: level_of.induct)
  case (level_self us)
  then show ?case
    by (blast intro: level_of.level_self)
next
  case (level_next us zs)
  then show ?case
    using level_of.level_next by blast
qed

lemma level_of_inj:
  assumes inj: "inj_on (\<lambda>(a, b). N a b) (merkle_pairs N xs \<union> merkle_pairs N ys)"
    and flags: "\<not> merkle_dup N xs" "\<not> merkle_dup N ys" and len: "1 < length xs" "1 < length ys"
    and level: "level_of N (level_up N xs) (level_up N ys)"
  shows "level_of N xs ys"
proof -
  obtain zs where zs: "level_of N xs zs" "1 < length zs" "level_up N ys = level_up N zs"
    using level_of_prev [OF level refl len(1)] by blast
  have "ys = zs"
  proof (rule level_up_inj [OF inj_on_subset [OF inj] zs(3)])
    show "level_pairs ys \<union> level_pairs zs \<subseteq> merkle_pairs N xs \<union> merkle_pairs N ys"
      using level_of_pairs [OF zs(1,2)] level_of_pairs [OF level_self [of N ys] len(2)] by blast
    show "\<not> dup_end ys" "\<not> dup_end zs"
      using level_of_pairs [OF zs(1,2)] level_of_pairs [OF level_self [of N ys] len(2)] flags by blast+
  qed
  then show ?thesis
    using zs(1) by simp
qed

lemma same_top_levels:
  "inj_on (\<lambda>(a, b). N a b) (merkle_pairs N xs \<union> merkle_pairs N ys) \<Longrightarrow> xs \<noteq> [] \<Longrightarrow> ys \<noteq> [] \<Longrightarrow>
    \<not> merkle_dup N xs \<Longrightarrow> \<not> merkle_dup N ys \<Longrightarrow> merkle_top N xs = merkle_top N ys \<Longrightarrow>
    level_of N xs ys \<or> level_of N ys xs"
proof (induction N xs arbitrary: ys rule: merkle_top.induct)
  case (1 N xs)
  have top1: "zs = [merkle_top N zs]" if "zs \<noteq> []" "\<not> 1 < length zs" for zs
    using that by (cases zs) (auto simp: merkle_top.simps)
  show ?case
  proof (cases "1 < length xs \<and> 1 < length ys")
    case True
    let ?ux = "level_up N xs" and ?uy = "level_up N ys"
    have unfold:
      "merkle_top N xs = merkle_top N ?ux" "merkle_top N ys = merkle_top N ?uy"
      "merkle_pairs N xs = level_pairs xs \<union> merkle_pairs N ?ux" "merkle_pairs N ys = level_pairs ys \<union> merkle_pairs N ?uy"
      using True by (simp_all add: merkle_top.simps [of N xs] merkle_top.simps [of N ys] merkle_pairs.simps [of N xs]
          merkle_pairs.simps [of N ys])
    have dup: "\<not> merkle_dup N ?ux" "\<not> merkle_dup N ?uy"
      using True "1.prems"(4,5) by (auto simp: merkle_dup.simps [of N xs] merkle_dup.simps [of N ys])
    have ne: "?ux \<noteq> []" "?uy \<noteq> []"
      using "1.prems"(2,3) by simp_all
    have "level_of N ?ux ?uy \<or> level_of N ?uy ?ux"
    proof (rule "1.IH")
      show "inj_on (\<lambda>(a, b). N a b) (merkle_pairs N ?ux \<union> merkle_pairs N ?uy)"
        by (rule inj_on_subset [OF "1.prems"(1)]) (auto simp: unfold)
    qed (use True ne dup "1.prems"(6) unfold in auto)
    then show ?thesis
      using level_of_inj [OF "1.prems"(1,4,5)] level_of_inj [of N ys xs] "1.prems" True
      by (auto simp: Un_commute)
  next
    case False
    then show ?thesis
      using top1 [OF "1.prems"(2)] top1 [OF "1.prems"(3)] level_of_top [OF "1.prems"(2)] level_of_top [OF "1.prems"(3)]
        "1.prems"(6) by metis
  qed
qed

text \<open>
  Two lists that are not flagged and have the same root are the same, or two different pairs with the
  same hash were hashed, or a transaction hash is the hash of a pair.
\<close>

lemma merkle_top_inj:
  assumes "inj_on (\<lambda>(a, b). N a b) (merkle_pairs N xs \<union> merkle_pairs N ys)"
    and "set xs \<inter> (\<lambda>(a, b). N a b) ` merkle_pairs N ys = {}" and "set ys \<inter> (\<lambda>(a, b). N a b) ` merkle_pairs N xs = {}"
    and "xs \<noteq> []" and "ys \<noteq> []" and "\<not> merkle_dup N xs" and "\<not> merkle_dup N ys"
    and "merkle_top N xs = merkle_top N ys"
  shows "xs = ys"
proof -
  have "set xs \<noteq> {}" "set ys \<noteq> {}"
    using assms(4,5) by simp_all
  from same_top_levels [OF assms(1,4-8)] show ?thesis
  proof
    assume "level_of N xs ys"
    then have "ys = xs \<or> set ys \<subseteq> (\<lambda>(a, b). N a b) ` merkle_pairs N xs"
      by (rule level_of_sub)
    then show ?thesis
      using assms(3) \<open>set ys \<noteq> {}\<close> by (elim disjE) (simp_all add: Int_absorb2)
  next
    assume "level_of N ys xs"
    then have "xs = ys \<or> set xs \<subseteq> (\<lambda>(a, b). N a b) ` merkle_pairs N ys"
      by (rule level_of_sub)
    then show ?thesis
      using assms(2) \<open>set xs \<noteq> {}\<close> by (elim disjE) (simp_all add: Int_absorb2)
  qed
qed

end
