(* ===== verification/MerkleBlock.thy ===== *)
theory MerkleBlock
  imports Merkle
begin

unbundle bit_operations_syntax

text \<open>
  Partial merkle trees, \<open>CPartialMerkleTree\<close> of \<open>src/merkleblock.h\<close> and \<open>src/merkleblock.cpp\<close>: the tree
  of a block cut off below the nodes without a matched transaction. Heights, positions and counts are
  natural numbers; the number of transactions is at most that of a block, far below the width of
  the source's \<open>unsigned int\<close>.
\<close>

section \<open>Building\<close>

definition CalcTreeWidth :: "nat \<Rightarrow> nat \<Rightarrow> nat" where
  "CalcTreeWidth nTransactions height = (nTransactions + 2 ^ height - 1) div 2 ^ height"

lemma less_CalcTreeWidth: "pos < CalcTreeWidth n h \<longleftrightarrow> pos * 2 ^ h < n"
proof -
  have "pos < CalcTreeWidth n h \<longleftrightarrow> (pos + 1) * 2 ^ h \<le> n + 2 ^ h - 1"
    unfolding CalcTreeWidth_def by (simp add: less_eq_div_iff_mult_less_eq Suc_le_eq [symmetric])
  also have "\<dots> \<longleftrightarrow> pos * 2 ^ h < n"
  proof -
    have "(1 :: nat) \<le> 2 ^ h" by simp
    then show ?thesis
      unfolding add_mult_distrib by linarith
  qed
  finally show ?thesis .
qed

fun CalcHash :: "hash_funs \<Rightarrow> nat \<Rightarrow> uint256 list \<Rightarrow> nat \<Rightarrow> nat \<Rightarrow> uint256" where
  "CalcHash H n vTxid 0 pos = vTxid ! pos"
| "CalcHash H n vTxid (Suc height) pos =
     (let left = CalcHash H n vTxid height (pos * 2);
          right = (if pos * 2 + 1 < CalcTreeWidth n height then CalcHash H n vTxid height (pos * 2 + 1) else left)
      in merkle_node H left right)"

definition parent_of_match :: "nat \<Rightarrow> bool list \<Rightarrow> nat \<Rightarrow> nat \<Rightarrow> bool" where
  "parent_of_match n vMatch height pos =
     list_ex (\<lambda>p. vMatch ! p) [pos * 2 ^ height..<min ((pos + 1) * 2 ^ height) n]"

fun TraverseAndBuild ::
  "hash_funs \<Rightarrow> nat \<Rightarrow> uint256 list \<Rightarrow> bool list \<Rightarrow> nat \<Rightarrow> nat \<Rightarrow> bool list \<times> uint256 list \<Rightarrow> bool list \<times> uint256 list" where
  "TraverseAndBuild H n vTxid vMatch 0 pos (vBits, vHash) =
     (vBits @ [parent_of_match n vMatch 0 pos], vHash @ [CalcHash H n vTxid 0 pos])"
| "TraverseAndBuild H n vTxid vMatch (Suc height) pos (vBits, vHash) =
     (let fParentOfMatch = parent_of_match n vMatch (Suc height) pos;
          vBits = vBits @ [fParentOfMatch]
      in if \<not> fParentOfMatch then (vBits, vHash @ [CalcHash H n vTxid (Suc height) pos])
         else
           let st = TraverseAndBuild H n vTxid vMatch height (pos * 2) (vBits, vHash) in
           if pos * 2 + 1 < CalcTreeWidth n height
           then TraverseAndBuild H n vTxid vMatch height (pos * 2 + 1) st else st)"

text \<open>The loop that finds the height of the tree.\<close>

function tree_height :: "nat \<Rightarrow> nat \<Rightarrow> nat" where
  "tree_height n nHeight = (if 1 < CalcTreeWidth n nHeight then tree_height n (nHeight + 1) else nHeight)"
  by pat_completeness auto
termination
proof (relation "measure (\<lambda>(n, h). n - h)")
  fix n h :: nat
  assume "1 < CalcTreeWidth n h"
  then have "2 ^ h < n"
    unfolding less_CalcTreeWidth by simp
  then show "((n, h + 1), n, h) \<in> measure (\<lambda>(n, h). n - h)"
    using less_trans [OF less_exp [of h], of n] by simp
qed simp

declare tree_height.simps [simp del]

record CPartialMerkleTree =
  pm_nTransactions :: nat
  pm_vBits :: "bool list"
  pm_vHash :: "uint256 list"
  pm_fBad :: bool

definition mkPartialMerkleTree :: "hash_funs \<Rightarrow> uint256 list \<Rightarrow> bool list \<Rightarrow> CPartialMerkleTree" where
  "mkPartialMerkleTree H vTxid vMatch =
     (let n = length vTxid in
      case TraverseAndBuild H n vTxid vMatch (tree_height n 0) 0 ([], []) of
        (vBits, vHash) \<Rightarrow> \<lparr>pm_nTransactions = n, pm_vBits = vBits, pm_vHash = vHash, pm_fBad = False\<rparr>)"

section \<open>Extracting\<close>

record extract_state =
  es_nBitsUsed :: nat
  es_nHashUsed :: nat
  es_vMatch :: "uint256 list"
  es_fBad :: bool

text \<open>A leaf, or a node whose flag says that nothing below it matched: the next stored hash.\<close>

definition extract_hash :: "CPartialMerkleTree \<Rightarrow> bool \<Rightarrow> extract_state \<Rightarrow> uint256 \<times> extract_state" where
  "extract_hash pt matched st =
     (if length (pm_vHash pt) \<le> es_nHashUsed st then (0, st\<lparr>es_fBad := True\<rparr>)
      else
        let hash = pm_vHash pt ! es_nHashUsed st in
        (hash, st\<lparr>es_nHashUsed := es_nHashUsed st + 1,
                  es_vMatch := (if matched then es_vMatch st @ [hash] else es_vMatch st)\<rparr>))"

fun TraverseAndExtract ::
  "hash_funs \<Rightarrow> CPartialMerkleTree \<Rightarrow> nat \<Rightarrow> nat \<Rightarrow> extract_state \<Rightarrow> uint256 \<times> extract_state" where
  "TraverseAndExtract H pt 0 pos st =
     (if length (pm_vBits pt) \<le> es_nBitsUsed st then (0, st\<lparr>es_fBad := True\<rparr>)
      else extract_hash pt (pm_vBits pt ! es_nBitsUsed st) (st\<lparr>es_nBitsUsed := es_nBitsUsed st + 1\<rparr>))"
| "TraverseAndExtract H pt (Suc height) pos st =
     (if length (pm_vBits pt) \<le> es_nBitsUsed st then (0, st\<lparr>es_fBad := True\<rparr>)
      else
        let fParentOfMatch = pm_vBits pt ! es_nBitsUsed st;
            st = st\<lparr>es_nBitsUsed := es_nBitsUsed st + 1\<rparr>
        in if \<not> fParentOfMatch then extract_hash pt False st
           else
             (case TraverseAndExtract H pt height (pos * 2) st of
                (left, st) \<Rightarrow>
                  if pos * 2 + 1 < CalcTreeWidth (pm_nTransactions pt) height then
                    (case TraverseAndExtract H pt height (pos * 2 + 1) st of
                       (right, st) \<Rightarrow> (merkle_node H left right, st))
                  else (merkle_node H left left, st)))"

definition MAX_BLOCK_SIZE_CURRENT :: nat where
  "MAX_BLOCK_SIZE_CURRENT = 2000000"

text \<open>The root, or 0 on failure, and the list of matches as it is left.\<close>

definition ExtractMatches :: "hash_funs \<Rightarrow> CPartialMerkleTree \<Rightarrow> uint256 \<times> uint256 list" where
  "ExtractMatches H pt =
     (let n = pm_nTransactions pt in
      if n = 0 then (0, [])
      else if MAX_BLOCK_SIZE_CURRENT div 60 < n then (0, [])
      else if n < length (pm_vHash pt) then (0, [])
      else if length (pm_vBits pt) < length (pm_vHash pt) then (0, [])
      else
        (case TraverseAndExtract H pt (tree_height n 0) 0
            \<lparr>es_nBitsUsed = 0, es_nHashUsed = 0, es_vMatch = [], es_fBad = pm_fBad pt\<rparr> of
           (root, st) \<Rightarrow>
             (if es_fBad st then 0
              else if (es_nBitsUsed st + 7) div 8 \<noteq> (length (pm_vBits pt) + 7) div 8 then 0
              else if es_nHashUsed st \<noteq> length (pm_vHash pt) then 0
              else root, es_vMatch st)))"

section \<open>On the wire\<close>

definition pack_bits :: "bool list \<Rightarrow> byte list" where
  "pack_bits vBits =
     fold (\<lambda>p vBytes. vBytes[p div 8 := vBytes ! (p div 8) OR (if vBits ! p then push_bit (p mod 8) 1 else 0)])
       [0..<length vBits] (replicate ((length vBits + 7) div 8) 0)"

definition unpack_bits :: "byte list \<Rightarrow> bool list" where
  "unpack_bits vBytes = map (\<lambda>p. vBytes ! (p div 8) AND push_bit (p mod 8) 1 \<noteq> 0) [0..<length vBytes * 8]"

definition ser_partial_tree :: "CPartialMerkleTree \<Rightarrow> byte list" where
  "ser_partial_tree pt =
     ser_u32 (of_nat (pm_nTransactions pt)) @ ser_vector ser_u256 (pm_vHash pt) @ ser_bytes (pack_bits (pm_vBits pt))"

definition unser_partial_tree :: "CPartialMerkleTree reader" where
  "unser_partial_tree bs = do {
     (n, bs) \<leftarrow> unser_u32 bs;
     (vHash, bs) \<leftarrow> unser_vector unser_u256 bs;
     (vBytes, bs) \<leftarrow> unser_bytes bs;
     Some (\<lparr>pm_nTransactions = unat n, pm_vBits = unpack_bits vBytes, pm_vHash = vHash, pm_fBad = False\<rparr>, bs) }"

section \<open>Widths and leaves\<close>

lemma nat_eq_by_less: "(\<And>p. p < (a :: nat) \<longleftrightarrow> p < b) \<Longrightarrow> a = b"
  by (metis linorder_neq_iff)

lemma CalcTreeWidth_Suc: "CalcTreeWidth n (Suc h) = (CalcTreeWidth n h + 1) div 2"
proof (rule nat_eq_by_less)
  fix p
  have "p < (CalcTreeWidth n h + 1) div 2 \<longleftrightarrow> 2 * p < CalcTreeWidth n h"
    by linarith
  also have "\<dots> \<longleftrightarrow> p < CalcTreeWidth n (Suc h)"
    unfolding less_CalcTreeWidth power_Suc by (simp only: mult_ac)
  finally show "p < CalcTreeWidth n (Suc h) \<longleftrightarrow> p < (CalcTreeWidth n h + 1) div 2"
    by blast
qed

lemma CalcTreeWidth_0 [simp]: "CalcTreeWidth n 0 = n"
  by (simp add: CalcTreeWidth_def)

definition leaves :: "nat \<Rightarrow> nat \<Rightarrow> nat \<Rightarrow> nat list" where
  "leaves n height pos = [pos * 2 ^ height..<min ((pos + 1) * 2 ^ height) n]"

lemma leaves_Suc:
  "leaves n (Suc h) pos = leaves n h (pos * 2) @ (if pos * 2 + 1 < CalcTreeWidth n h then leaves n h (pos * 2 + 1) else [])"
proof -
  let ?a = "pos * 2 * 2 ^ h" and ?b = "(pos * 2 + 1) * 2 ^ h" and ?c = "(pos * 2 + 2) * 2 ^ h"
  have eq: "leaves n (Suc h) pos = [?a..<min ?c n]" "leaves n h (pos * 2) = [?a..<min ?b n]"
    "leaves n h (pos * 2 + 1) = [?b..<min ?c n]"
    by (simp_all add: leaves_def algebra_simps)
  have le: "?a \<le> ?b" "?b \<le> ?c"
    by (simp_all add: mult_right_mono)
  show ?thesis
  proof (cases "?b < n")
    case True
    then have "[?a..<min ?c n] = [?a..<?b] @ [?b..<min ?c n]"
      using le upt_add_eq_append [of ?a ?b "min ?c n - ?b"] by (simp add: min_def)
    then show ?thesis
      using True unfolding eq less_CalcTreeWidth by (simp add: min_def)
  next
    case False
    then show ?thesis
      using le False unfolding eq less_CalcTreeWidth by (simp add: min_absorb2)
  qed
qed

text \<open>\<open>CalcHash\<close> is the entry of the level that the block's own tree has at that height.\<close>

lemma length_level_up_funpow: "length ((level_up N ^^ h) xs) = CalcTreeWidth (length xs) h"
  by (induction h) (simp_all add: CalcTreeWidth_Suc)

lemma CalcHash_level:
  "pos < CalcTreeWidth (length xs) h \<Longrightarrow> CalcHash H (length xs) xs h pos = (level_up (merkle_node H) ^^ h) xs ! pos"
proof (induction h arbitrary: pos)
  case (Suc h)
  let ?l = "(level_up (merkle_node H) ^^ h) xs" and ?w = "CalcTreeWidth (length xs) h"
  have left: "pos * 2 < ?w" and pos: "pos < (length ?l + 1) div 2"
    using Suc.prems by (simp_all add: CalcTreeWidth_Suc length_level_up_funpow)
  have "(level_up (merkle_node H) ^^ Suc h) xs ! pos = merkle_node H (?l ! (2 * pos)) (?l ! min (2 * pos + 1) (?w - 1))"
    using nth_level_up [OF pos, of "merkle_node H"] by (simp add: length_level_up_funpow)
  also have "\<dots> = CalcHash H (length xs) xs (Suc h) pos"
  proof (cases "pos * 2 + 1 < ?w")
    case True
    then show ?thesis
      using Suc.IH [OF left] Suc.IH [OF True] by (simp add: Let_def mult.commute [of pos] min_absorb1)
  next
    case False
    then have "min (2 * pos + 1) (?w - 1) = 2 * pos"
      using left by linarith
    then show ?thesis
      using False Suc.IH [OF left] by (simp add: Let_def mult.commute [of pos])
  qed
  finally show ?case
    by simp
qed simp

lemma merkle_top_height:
  "(level_up N ^^ h) xs \<noteq> [] \<Longrightarrow>
    merkle_top N ((level_up N ^^ h) xs) = hd ((level_up N ^^ tree_height (length xs) h) xs)"
proof (induction "length xs" h rule: tree_height.induct)
  case (1 h)
  then show ?case
    using length_level_up_funpow [of h N xs] "1.hyps"
    by (subst merkle_top.simps, subst tree_height.simps) simp
qed

lemma tree_height_width: "CalcTreeWidth n (tree_height n h) \<le> 1"
  by (induction n h rule: tree_height.induct) (subst tree_height.simps, simp)

lemma CalcHash_root:
  assumes "xs \<noteq> []"
  shows "CalcHash H (length xs) xs (tree_height (length xs) 0) 0 = merkle_top (merkle_node H) xs"
    and "0 < CalcTreeWidth (length xs) (tree_height (length xs) 0)"
proof -
  show w: "0 < CalcTreeWidth (length xs) (tree_height (length xs) 0)"
    using assms by (simp add: less_CalcTreeWidth)
  then have "(level_up (merkle_node H) ^^ tree_height (length xs) 0) xs \<noteq> []"
    unfolding length_greater_0_conv [symmetric] length_level_up_funpow .
  then show "CalcHash H (length xs) xs (tree_height (length xs) 0) 0 = merkle_top (merkle_node H) xs"
    using merkle_top_height [of 0 "merkle_node H" xs] assms by (simp add: CalcHash_level [OF w] hd_conv_nth)
qed

section \<open>Extracting what was built\<close>

definition extract_spec ::
  "hash_funs \<Rightarrow> uint256 list \<Rightarrow> bool list \<Rightarrow> nat \<Rightarrow> nat \<Rightarrow> bool list \<Rightarrow> uint256 list \<Rightarrow> bool" where
  "extract_spec H txids vMatch h pos b hs \<longleftrightarrow>
     (\<forall>pt B post Hs post' ms f.
        pm_nTransactions pt = length txids \<longrightarrow> pm_vBits pt = B @ b @ post \<longrightarrow> pm_vHash pt = Hs @ hs @ post' \<longrightarrow>
        TraverseAndExtract H pt h pos
          \<lparr>es_nBitsUsed = length B, es_nHashUsed = length Hs, es_vMatch = ms, es_fBad = f\<rparr> =
        (CalcHash H (length txids) txids h pos,
         \<lparr>es_nBitsUsed = length B + length b, es_nHashUsed = length Hs + length hs,
          es_vMatch = ms @ map ((!) txids) (filter ((!) vMatch) (leaves (length txids) h pos)), es_fBad = f\<rparr>))"

lemma leaves_nonempty: "pos * 2 ^ h < n \<Longrightarrow> leaves n h pos \<noteq> []"
  by (auto simp: leaves_def min_def not_le)

lemma parent_of_match_leaves: "parent_of_match n vMatch h pos \<longleftrightarrow> filter ((!) vMatch) (leaves n h pos) \<noteq> []"
  by (auto simp: parent_of_match_def leaves_def list_ex_iff filter_empty_conv)

lemma build_extract:
  assumes "pos * 2 ^ h < length txids"
  shows "\<exists>b hs. (\<forall>B Hs. TraverseAndBuild H (length txids) txids vMatch h pos (B, Hs) = (B @ b, Hs @ hs)) \<and>
    length hs \<le> length (leaves (length txids) h pos) \<and> length hs \<le> length b \<and> extract_spec H txids vMatch h pos b hs"
  using assms
proof (induction h arbitrary: pos)
  case 0
  let ?m = "parent_of_match (length txids) vMatch 0 pos"
  have leaf: "leaves (length txids) 0 pos = [pos]"
    using 0 by (simp add: leaves_def min_absorb1)
  have "extract_spec H txids vMatch 0 pos [?m] [txids ! pos]"
    unfolding extract_spec_def using leaf
    by (auto simp: extract_hash_def nth_append parent_of_match_leaves Let_def)
  then show ?case
    using leaf by (intro exI [of _ "[?m]"] exI [of _ "[txids ! pos]"]) simp
next
  case (Suc h)
  let ?n = "length txids" and ?m = "parent_of_match (length txids) vMatch (Suc h) pos"
  show ?case
  proof (cases ?m)
    case False
    have "extract_spec H txids vMatch (Suc h) pos [False] [CalcHash H ?n txids (Suc h) pos]"
      unfolding extract_spec_def using False
      by (auto simp: extract_hash_def nth_append parent_of_match_leaves simp del: CalcHash.simps)
    moreover have "1 \<le> length (leaves ?n (Suc h) pos)"
      using leaves_nonempty [OF Suc.prems] by (simp add: Suc_le_eq)
    ultimately show ?thesis
      using False by (intro exI [of _ "[False]"] exI [of _ "[CalcHash H ?n txids (Suc h) pos]"]) simp
  next
    case True
    have left: "pos * 2 * 2 ^ h < ?n"
      using Suc.prems by simp
    obtain b1 hs1 where L: "\<And>B Hs. TraverseAndBuild H ?n txids vMatch h (pos * 2) (B, Hs) = (B @ b1, Hs @ hs1)"
      "length hs1 \<le> length (leaves ?n h (pos * 2))" "length hs1 \<le> length b1" "extract_spec H txids vMatch h (pos * 2) b1 hs1"
      using Suc.IH [OF left] by blast
    show ?thesis
    proof (cases "pos * 2 + 1 < CalcTreeWidth ?n h")
      case right: True
      then obtain b2 hs2 where R: "\<And>B Hs. TraverseAndBuild H ?n txids vMatch h (pos * 2 + 1) (B, Hs) = (B @ b2, Hs @ hs2)"
        "length hs2 \<le> length (leaves ?n h (pos * 2 + 1))" "length hs2 \<le> length b2"
        "extract_spec H txids vMatch h (pos * 2 + 1) b2 hs2"
        using Suc.IH [of "pos * 2 + 1"] unfolding less_CalcTreeWidth by blast
      have "extract_spec H txids vMatch (Suc h) pos (True # b1 @ b2) (hs1 @ hs2)"
        unfolding extract_spec_def
      proof (intro allI impI)
        fix pt :: CPartialMerkleTree and B post Hs post' ms f
        assume pt: "pm_nTransactions pt = ?n" "pm_vBits pt = B @ (True # b1 @ b2) @ post" "pm_vHash pt = Hs @ (hs1 @ hs2) @ post'"
        have "pm_vBits pt = (B @ [True]) @ b1 @ (b2 @ post)" "pm_vHash pt = Hs @ hs1 @ (hs2 @ post')"
          "pm_vBits pt = (B @ [True] @ b1) @ b2 @ post" "pm_vHash pt = (Hs @ hs1) @ hs2 @ post'"
          using pt by simp_all
        note l = L(4) [unfolded extract_spec_def, rule_format, OF pt(1) this(1,2)]
          and r = R(4) [unfolded extract_spec_def, rule_format, OF pt(1) this(3,4)]
        show "TraverseAndExtract H pt (Suc h) pos
            \<lparr>es_nBitsUsed = length B, es_nHashUsed = length Hs, es_vMatch = ms, es_fBad = f\<rparr> =
          (CalcHash H ?n txids (Suc h) pos,
           \<lparr>es_nBitsUsed = length B + length (True # b1 @ b2), es_nHashUsed = length Hs + length (hs1 @ hs2),
            es_vMatch = ms @ map ((!) txids) (filter ((!) vMatch) (leaves ?n (Suc h) pos)), es_fBad = f\<rparr>)"
          using pt l r right by (simp add: nth_append Let_def leaves_Suc add_ac)
      qed
      then show ?thesis
        using True right L(1-3) R(1-3)
        by (intro exI [of _ "True # b1 @ b2"] exI [of _ "hs1 @ hs2"]) (auto simp: Let_def leaves_Suc)
    next
      case right: False
      have "extract_spec H txids vMatch (Suc h) pos (True # b1) hs1"
        unfolding extract_spec_def
      proof (intro allI impI)
        fix pt :: CPartialMerkleTree and B post Hs post' ms f
        assume pt: "pm_nTransactions pt = ?n" "pm_vBits pt = B @ (True # b1) @ post" "pm_vHash pt = Hs @ hs1 @ post'"
        have "pm_vBits pt = (B @ [True]) @ b1 @ post"
          using pt by simp
        note l = L(4) [unfolded extract_spec_def, rule_format, OF pt(1) this pt(3)]
        show "TraverseAndExtract H pt (Suc h) pos
            \<lparr>es_nBitsUsed = length B, es_nHashUsed = length Hs, es_vMatch = ms, es_fBad = f\<rparr> =
          (CalcHash H ?n txids (Suc h) pos,
           \<lparr>es_nBitsUsed = length B + length (True # b1), es_nHashUsed = length Hs + length hs1,
            es_vMatch = ms @ map ((!) txids) (filter ((!) vMatch) (leaves ?n (Suc h) pos)), es_fBad = f\<rparr>)"
          using pt l right by (simp add: nth_append Let_def leaves_Suc)
      qed
      then show ?thesis
        using True right L(1-3)
        by (intro exI [of _ "True # b1"] exI [of _ hs1]) (auto simp: Let_def leaves_Suc)
    qed
  qed
qed

text \<open>Bits that were packed for the wire come back with padding at most to the next byte.\<close>

definition matched :: "uint256 list \<Rightarrow> bool list \<Rightarrow> uint256 list" where
  "matched txids vMatch = map ((!) txids) (filter ((!) vMatch) [0..<length txids])"

lemma extract_padded:
  assumes "txids \<noteq> []" and "length txids \<le> MAX_BLOCK_SIZE_CURRENT div 60"
    and pt: "pm_nTransactions pt = length txids" "pm_vHash pt = pm_vHash (mkPartialMerkleTree H txids vMatch)"
      "pm_vBits pt = pm_vBits (mkPartialMerkleTree H txids vMatch) @ pad" "\<not> pm_fBad pt"
    and pad: "(length (pm_vBits (mkPartialMerkleTree H txids vMatch)) + 7) div 8 = (length (pm_vBits pt) + 7) div 8"
  shows "ExtractMatches H pt = (merkle_top (merkle_node H) txids, matched txids vMatch)"
proof -
  let ?n = "length txids" and ?h = "tree_height (length txids) 0"
  obtain b hs where bh: "\<And>B Hs. TraverseAndBuild H ?n txids vMatch ?h 0 (B, Hs) = (B @ b, Hs @ hs)"
    "length hs \<le> length (leaves ?n ?h 0)" "length hs \<le> length b" "extract_spec H txids vMatch ?h 0 b hs"
    using build_extract [of 0 ?h txids H vMatch] assms(1) by auto
  have mk: "pm_vBits (mkPartialMerkleTree H txids vMatch) = b" "pm_vHash (mkPartialMerkleTree H txids vMatch) = hs"
    by (simp_all add: mkPartialMerkleTree_def Let_def bh(1))
  have "?n \<le> 2 ^ ?h"
    using tree_height_width [of ?n 0] less_CalcTreeWidth [of 1 ?n ?h] by simp
  then have leaves: "leaves ?n ?h 0 = [0..<?n]"
    by (simp add: leaves_def min_absorb2)
  have "TraverseAndExtract H pt ?h 0 \<lparr>es_nBitsUsed = 0, es_nHashUsed = 0, es_vMatch = [], es_fBad = False\<rparr> =
      (CalcHash H ?n txids ?h 0,
       \<lparr>es_nBitsUsed = length b, es_nHashUsed = length hs, es_vMatch = matched txids vMatch, es_fBad = False\<rparr>)"
    using bh(4) [unfolded extract_spec_def, rule_format, of pt "[]" pad "[]" "[]" "[]" False] pt(1-3) mk leaves
    by (simp add: matched_def)
  then show ?thesis
    using assms(1,2) pt pad bh(2,3) mk leaves CalcHash_root(1) [OF assms(1), of H]
    by (simp add: ExtractMatches_def Let_def)
qed

lemma length_pack_fold:
  "length (fold (\<lambda>p vBytes. vBytes[p div 8 := vBytes ! (p div 8) OR (if vBits ! p then push_bit (p mod 8) 1 else 0)])
     ps vBytes) = length vBytes"
  by (induction ps arbitrary: vBytes) simp_all

lemma bit_pack_fold:
  fixes vBytes :: "byte list"
  assumes "k \<le> 8 * length vBytes" and "i < length vBytes" and "j < 8"
  shows "bit (fold (\<lambda>p vBytes. vBytes[p div 8 := vBytes ! (p div 8) OR (if vBits ! p then push_bit (p mod 8) 1 else 0)])
     [0..<k] vBytes ! i) j \<longleftrightarrow> bit (vBytes ! i) j \<or> i * 8 + j < k \<and> vBits ! (i * 8 + j)"
  using assms(1)
proof (induction k)
  case (Suc k)
  let ?f = "\<lambda>p vBytes. vBytes[p div 8 := vBytes ! (p div 8) OR (if vBits ! p then push_bit (p mod 8) 1 else (0 :: byte))]"
  let ?r = "fold ?f [0..<k] vBytes"
  have kd: "k div 8 < length ?r"
    using Suc.prems by (simp add: length_pack_fold)
  have "fold ?f [0..<Suc k] vBytes ! i = (if i = k div 8 then ?r ! i OR (if vBits ! k then push_bit (k mod 8) 1 else 0) else ?r ! i)"
    using kd by (simp add: nth_list_update)
  moreover have "i = k div 8 \<and> j = k mod 8 \<longleftrightarrow> i * 8 + j = k"
    using assms(3) by auto
  ultimately show ?case
    using Suc assms(3) by (auto simp: bit_simps less_Suc_eq)
qed simp

lemma unpack_pack:
  "\<exists>pad. unpack_bits (pack_bits vBits) = vBits @ pad \<and>
    (length (unpack_bits (pack_bits vBits)) + 7) div 8 = (length vBits + 7) div 8"
proof -
  let ?bytes = "pack_bits vBits" and ?k = "length vBits"
  have len: "length ?bytes = (?k + 7) div 8"
    by (simp add: pack_bits_def length_pack_fold)
  have le: "?k \<le> length ?bytes * 8"
    unfolding len by linarith
  have "take ?k (unpack_bits ?bytes) = vBits"
  proof (rule nth_equalityI)
    show "length (take ?k (unpack_bits ?bytes)) = length vBits"
      using le by (simp add: unpack_bits_def)
  next
    fix p
    assume "p < length (take ?k (unpack_bits ?bytes))"
    then have p: "p < ?k"
      by simp
    then have "p div 8 < length ?bytes"
      unfolding len by linarith
    then have "bit (?bytes ! (p div 8)) (p mod 8) \<longleftrightarrow> vBits ! p"
      using bit_pack_fold [of ?k "replicate ((?k + 7) div 8) 0" "p div 8" "p mod 8" vBits] p
      by (simp add: pack_bits_def len [unfolded pack_bits_def] length_pack_fold)
    then show "take ?k (unpack_bits ?bytes) ! p = vBits ! p"
      using p le and_exp_eq_0_iff_not_bit [of "?bytes ! (p div 8)" "p mod 8"]
      by (simp add: unpack_bits_def push_bit_eq_mult)
  qed
  then have "unpack_bits ?bytes = vBits @ drop ?k (unpack_bits ?bytes)"
    by (metis append_take_drop_id)
  moreover have "(length (unpack_bits ?bytes) + 7) div 8 = (?k + 7) div 8"
    by (simp add: unpack_bits_def len)
  ultimately show ?thesis
    by blast
qed

text \<open>The tree that is sent has at most four bits per transaction.\<close>

lemma length_build_bits:
  "length (fst (TraverseAndBuild H n txids vMatch h pos (B, Hs))) + 1 \<le> length B + 2 ^ (h + 1)"
proof (induction h arbitrary: pos B Hs)
  case (Suc h)
  obtain B1 H1 where l: "TraverseAndBuild H n txids vMatch h (pos * 2) (B @ [True], Hs) = (B1, H1)"
    by fastforce
  define P where "P = (2 :: nat) ^ (h + 1)"
  have P: "(2 :: nat) ^ (Suc h + 1) = P + P" "1 \<le> P"
    by (simp_all add: P_def)
  have "length B1 + 1 \<le> length B + 1 + P"
    using Suc [of "pos * 2" "B @ [True]" Hs] unfolding l P_def by simp
  moreover have "length (fst (TraverseAndBuild H n txids vMatch h (pos * 2 + 1) (B1, H1))) + 1 \<le> length B1 + P"
    unfolding P_def by (rule Suc)
  ultimately show ?case
    using l P(2) unfolding P(1) by (auto simp: Let_def)
qed simp

lemma tree_height_least: "tree_height n h = h \<or> 2 ^ (tree_height n h - 1) < n"
proof (induction n h rule: tree_height.induct)
  case (1 n h)
  then show ?case
    using less_CalcTreeWidth [of 1 n h] by (cases "1 < CalcTreeWidth n h") (auto simp: tree_height.simps [of n h])
qed

lemma length_vBits:
  assumes "txids \<noteq> []"
  shows "length (pm_vBits (mkPartialMerkleTree H txids vMatch)) \<le> 4 * length txids"
proof -
  let ?h = "tree_height (length txids) 0"
  have "2 ^ (?h + 1) \<le> 4 * length txids"
  proof (cases ?h)
    case 0
    then show ?thesis
      using assms by (simp add: Suc_le_eq)
  next
    case (Suc k)
    then show ?thesis
      using tree_height_least [of "length txids" 0] by simp
  qed
  then show ?thesis
    using length_build_bits [of H "length txids" txids vMatch ?h 0 "[]" "[]"]
    by (auto simp: mkPartialMerkleTree_def Let_def split: prod.splits)
qed

lemma length_vHash:
  assumes "txids \<noteq> []"
  shows "length (pm_vHash (mkPartialMerkleTree H txids vMatch)) \<le> length txids"
proof -
  let ?n = "length txids"
  obtain b hs where "\<And>B Hs. TraverseAndBuild H ?n txids vMatch (tree_height ?n 0) 0 (B, Hs) = (B @ b, Hs @ hs)"
    "length hs \<le> length (leaves ?n (tree_height ?n 0) 0)"
    using build_extract [of 0 "tree_height ?n 0" txids H vMatch] assms by auto
  then show ?thesis
    by (simp add: mkPartialMerkleTree_def Let_def leaves_def)
qed

text \<open>A tree that was sent and read back gives the root and the matched transactions.\<close>

lemma extract_sent:
  assumes "txids \<noteq> []" and "length txids \<le> MAX_BLOCK_SIZE_CURRENT div 60"
  shows "\<exists>pt. unser_partial_tree (ser_partial_tree (mkPartialMerkleTree H txids vMatch) @ r) = Some (pt, r) \<and>
    ExtractMatches H pt = (merkle_top (merkle_node H) txids, matched txids vMatch)"
proof -
  let ?mk = "mkPartialMerkleTree H txids vMatch"
  let ?pt = "?mk\<lparr>pm_vBits := unpack_bits (pack_bits (pm_vBits ?mk))\<rparr>"
  have mk: "pm_nTransactions ?mk = length txids" "\<not> pm_fBad ?mk"
    by (simp_all add: mkPartialMerkleTree_def Let_def split: prod.splits)
  have n: "length txids \<le> 33333"
    using assms(2) by (simp add: MAX_BLOCK_SIZE_CURRENT_def)
  have "length (pack_bits (pm_vBits ?mk)) \<le> MAX_SIZE"
    using length_vBits [OF assms(1), of H vMatch] n by (simp add: pack_bits_def length_pack_fold MAX_SIZE_def)
  then have bytes: "unser_bytes (ser_bytes (pack_bits (pm_vBits ?mk)) @ r) = Some (pack_bits (pm_vBits ?mk), r)"
    by (intro bytes.get_put) (simp add: wf_bytes_def)
  have "length (pm_vHash ?mk) \<le> MAX_SIZE"
    using length_vHash [OF assms(1), of H vMatch] n by (simp add: MAX_SIZE_def)
  then have hashes: "unser_vector unser_u256 (ser_vector ser_u256 (pm_vHash ?mk) @ s) = Some (pm_vHash ?mk, s)" for s
    by (intro codec.get_put [OF u256.vector_codec]) (simp add: wf_vector_def list_all_iff)
  have "unat (of_nat (length txids) :: 32 word) = length txids"
    using n by (simp add: unat_of_nat)
  then have "unser_partial_tree (ser_partial_tree ?mk @ r) = Some (?pt, r)"
    using bytes hashes mk by (simp add: unser_partial_tree_def ser_partial_tree_def u32.get_put)
  moreover obtain pad where pad: "unpack_bits (pack_bits (pm_vBits ?mk)) = pm_vBits ?mk @ pad"
    "(length (unpack_bits (pack_bits (pm_vBits ?mk))) + 7) div 8 = (length (pm_vBits ?mk) + 7) div 8"
    using unpack_pack by blast
  have "ExtractMatches H ?pt = (merkle_top (merkle_node H) txids, matched txids vMatch)"
    by (rule extract_padded [OF assms, of _ _ _ pad]) (use mk pad in simp_all)
  ultimately show ?thesis
    by blast
qed

section \<open>What a received tree proves\<close>

text \<open>The pairs hashed by the extraction, and those of the block's own tree below a node.\<close>

fun traverse_pairs ::
  "hash_funs \<Rightarrow> CPartialMerkleTree \<Rightarrow> nat \<Rightarrow> nat \<Rightarrow> extract_state \<Rightarrow> (uint256 \<times> uint256) set" where
  "traverse_pairs H pt 0 pos st = {}"
| "traverse_pairs H pt (Suc height) pos st =
     (if length (pm_vBits pt) \<le> es_nBitsUsed st \<or> \<not> pm_vBits pt ! es_nBitsUsed st then {}
      else
        let st = st\<lparr>es_nBitsUsed := es_nBitsUsed st + 1\<rparr> in
        (case TraverseAndExtract H pt height (pos * 2) st of
           (left, st1) \<Rightarrow>
             traverse_pairs H pt height (pos * 2) st \<union>
             (if pos * 2 + 1 < CalcTreeWidth (pm_nTransactions pt) height
              then insert (left, fst (TraverseAndExtract H pt height (pos * 2 + 1) st1))
                     (traverse_pairs H pt height (pos * 2 + 1) st1)
              else {(left, left)})))"

fun calc_pairs :: "hash_funs \<Rightarrow> nat \<Rightarrow> uint256 list \<Rightarrow> nat \<Rightarrow> nat \<Rightarrow> (uint256 \<times> uint256) set" where
  "calc_pairs H n txids 0 pos = {}"
| "calc_pairs H n txids (Suc height) pos =
     (let left = CalcHash H n txids height (pos * 2) in
      calc_pairs H n txids height (pos * 2) \<union>
      (if pos * 2 + 1 < CalcTreeWidth n height
       then insert (left, CalcHash H n txids height (pos * 2 + 1)) (calc_pairs H n txids height (pos * 2 + 1))
       else {(left, left)}))"

lemma extract_sound:
  assumes "TraverseAndExtract H pt h pos st = (CalcHash H (length txids) txids h pos, st')"
    and "pm_nTransactions pt = length txids" and "pos * 2 ^ h < length txids"
    and "inj_on (\<lambda>(a, b). merkle_node H a b) (traverse_pairs H pt h pos st \<union> calc_pairs H (length txids) txids h pos)"
  shows "set (es_vMatch st') \<subseteq> set (es_vMatch st) \<union> set txids"
  using assms
proof (induction h arbitrary: pos st st')
  case 0
  then show ?case
    by (auto simp: extract_hash_def Let_def split: if_splits)
next
  case (Suc h)
  let ?n = "length txids" and ?st = "st\<lparr>es_nBitsUsed := es_nBitsUsed st + 1\<rparr>"
  let ?N = "\<lambda>(a, b). merkle_node H a b"
  show ?case
  proof (cases "length (pm_vBits pt) \<le> es_nBitsUsed st \<or> \<not> pm_vBits pt ! es_nBitsUsed st")
    case True
    then show ?thesis
      using Suc.prems(1) by (auto simp: extract_hash_def Let_def simp del: CalcHash.simps split: if_splits)
  next
    case False
    obtain left st1 where L: "TraverseAndExtract H pt h (pos * 2) ?st = (left, st1)"
      by fastforce
    have pos: "pos * 2 * 2 ^ h < ?n"
      using Suc.prems(3) by simp
    let ?cl = "CalcHash H ?n txids h (pos * 2)"
    show ?thesis
    proof (cases "pos * 2 + 1 < CalcTreeWidth ?n h")
      case True
      obtain right st2 where R: "TraverseAndExtract H pt h (pos * 2 + 1) st1 = (right, st2)"
        by fastforce
      let ?cr = "CalcHash H ?n txids h (pos * 2 + 1)"
      have pairs: "traverse_pairs H pt (Suc h) pos st =
          traverse_pairs H pt h (pos * 2) ?st \<union> insert (left, right) (traverse_pairs H pt h (pos * 2 + 1) st1)"
        "calc_pairs H ?n txids (Suc h) pos =
          calc_pairs H ?n txids h (pos * 2) \<union> insert (?cl, ?cr) (calc_pairs H ?n txids h (pos * 2 + 1))"
        using False True L R Suc.prems(2) by (simp_all add: Let_def)
      have res: "merkle_node H left right = merkle_node H ?cl ?cr" "st' = st2"
        using Suc.prems(1,2) False True L R by (simp_all add: Let_def)
      note inj = Suc.prems(4) [unfolded pairs]
      have "(left, right) = (?cl, ?cr)"
        by (rule inj_onD [OF inj]) (simp_all add: res(1))
      then have eq: "left = ?cl" "right = ?cr"
        by simp_all
      have "set (es_vMatch st1) \<subseteq> set (es_vMatch ?st) \<union> set txids"
        by (rule Suc.IH [OF L [unfolded eq(1)] Suc.prems(2) pos], rule inj_on_subset [OF inj]) auto
      moreover have "set (es_vMatch st2) \<subseteq> set (es_vMatch st1) \<union> set txids"
      proof (rule Suc.IH [OF R [unfolded eq(2)] Suc.prems(2)])
        show "(pos * 2 + 1) * 2 ^ h < ?n"
          using True unfolding less_CalcTreeWidth .
        show "inj_on ?N (traverse_pairs H pt h (pos * 2 + 1) st1 \<union> calc_pairs H ?n txids h (pos * 2 + 1))"
          by (rule inj_on_subset [OF inj]) auto
      qed
      ultimately show ?thesis
        using res(2) by auto
    next
      case no_right: False
      have pairs: "traverse_pairs H pt (Suc h) pos st = traverse_pairs H pt h (pos * 2) ?st \<union> {(left, left)}"
        "calc_pairs H ?n txids (Suc h) pos = calc_pairs H ?n txids h (pos * 2) \<union> {(?cl, ?cl)}"
        using False no_right L Suc.prems(2) by (simp_all add: Let_def)
      have res: "merkle_node H left left = merkle_node H ?cl ?cl" "st' = st1"
        using Suc.prems(1,2) False no_right L by (simp_all add: Let_def)
      note inj = Suc.prems(4) [unfolded pairs]
      have "(left, left) = (?cl, ?cl)"
        by (rule inj_onD [OF inj]) (simp_all add: res(1))
      then have eq: "left = ?cl"
        by simp
      have "set (es_vMatch st1) \<subseteq> set (es_vMatch ?st) \<union> set txids"
        by (rule Suc.IH [OF L [unfolded eq] Suc.prems(2) pos], rule inj_on_subset [OF inj]) auto
      then show ?thesis
        using res(2) by simp
    qed
  qed
qed

end
