(* ===== verification/MerkleSpec.thy ===== *)
theory MerkleSpec
  imports MerkleBlock
begin

text \<open>
  The properties of merkle trees: branches verify, a root that is not flagged commits to the list of
  transactions, and a partial tree transports exactly the matched transactions.
\<close>

section \<open>A hash function for the witnesses\<close>

definition digest_hash :: hash_funs where
  "digest_hash =
     \<lparr>CRIPEMD160 = (\<lambda>x. 9 # replicate 19 0), CSHA1 = (\<lambda>x. 9 # replicate 19 0), CSHA256 = (\<lambda>x. 9 # replicate 31 0)\<rparr>"

lemma digest_node: "merkle_node digest_hash a b = 9"
proof -
  have zero: "le_val (replicate n 0) = 0" for n
    by (induction n) simp_all
  show ?thesis
    by (simp add: merkle_node_def CHash256_def digest_hash_def uint256_of_bytes_def zero)
qed

section \<open>Trees and branches\<close>

text \<open>The branch that a block produces for any of its transactions verifies against the block's
  merkle root.\<close>

theorem merkle_branch_verifies:
  assumes "i < length txids" and "BuildMerkleTree H txids = (v, mutated, root)"
  shows "CheckMerkleBranch H (txids ! i) (GetMerkleBranch H txids (int i)) (int i) = root"
  using assms by (rule CheckMerkleBranch_Get)

theorem merkle_branch_verifies_witness:
  "CheckMerkleBranch digest_hash ([1, 2, 3] ! 2) (GetMerkleBranch digest_hash [1, 2, 3] (int 2)) (int 2) =
    snd (snd (BuildMerkleTree digest_hash [1, 2, 3]))"
  using merkle_branch_verifies [of 2 "[1, 2, 3]" digest_hash] by (cases "BuildMerkleTree digest_hash [1, 2, 3]") simp

text \<open>C33: Two transaction lists with the same root, neither flagged as mutated, are the same list, unless two
  different pairs that were hashed collide or a transaction hash is the hash of such a pair.\<close>

theorem merkle_root_commits:
  assumes "BuildMerkleTree H xs = (v, False, root)" and "BuildMerkleTree H ys = (w, False, root)"
    and "xs \<noteq> []" and "ys \<noteq> []"
    and "inj_on (\<lambda>(a, b). merkle_node H a b) (merkle_pairs (merkle_node H) xs \<union> merkle_pairs (merkle_node H) ys)"
    and "set xs \<inter> (\<lambda>(a, b). merkle_node H a b) ` merkle_pairs (merkle_node H) ys = {}"
    and "set ys \<inter> (\<lambda>(a, b). merkle_node H a b) ` merkle_pairs (merkle_node H) xs = {}"
  shows "xs = ys"
  by (rule merkle_top_inj [OF assms(5,6,7,3,4)]) (use assms(1-4) in \<open>simp_all add: BuildMerkleTree_levels\<close>)

theorem merkle_root_commits_witness:
  "BuildMerkleTree digest_hash [1, 2] = ([1, 2, 9], False, 9) \<and> [1, 2 :: uint256] = [1, 2]"
proof -
  have build: "BuildMerkleTree digest_hash [1, 2] = ([1, 2, 9], False, 9)"
    by (simp add: BuildMerkleTree_levels merkle_levels.simps merkle_dup.simps merkle_top.simps digest_node)
  have pairs: "merkle_pairs (merkle_node digest_hash) [1, 2] = {(1, 2)}"
    by (simp add: merkle_pairs.simps)
  have "[1, 2 :: uint256] = [1, 2]"
    by (rule merkle_root_commits [OF build build]) (simp_all add: pairs digest_node)
  then show ?thesis
    using build by blast
qed

text \<open>The list with its odd end repeated has the same root as the original one and is flagged.\<close>

lemma merkle_duplicate_flagged:
  "snd (snd (BuildMerkleTree H [a, b, c, c])) = snd (snd (BuildMerkleTree H [a, b, c]))"
  "fst (snd (BuildMerkleTree H [a, b, c, c]))"
  by (simp_all add: BuildMerkleTree_levels merkle_top.simps merkle_dup.simps)

section \<open>Partial trees\<close>

text \<open>C34: A partial tree built for any selection of a block's transactions, sent and read back, extracts to the
  merkle root of the block and exactly the selected transactions, in order.\<close>

theorem partial_tree_roundtrip:
  assumes "txids \<noteq> []" and "length txids \<le> MAX_BLOCK_SIZE_CURRENT div 60"
  shows "\<exists>pt. unser_partial_tree (ser_partial_tree (mkPartialMerkleTree H txids vMatch) @ r) = Some (pt, r) \<and>
    ExtractMatches H pt = (snd (snd (BuildMerkleTree H txids)),
      map ((!) txids) (filter ((!) vMatch) [0..<length txids]))"
  using extract_sent [OF assms, of H vMatch r] assms(1) by (simp add: BuildMerkleTree_levels matched_def)

theorem partial_tree_roundtrip_witness:
  "\<exists>pt. unser_partial_tree (ser_partial_tree (mkPartialMerkleTree digest_hash [1, 2, 3] [False, True, False]) @ []) =
      Some (pt, []) \<and>
    ExtractMatches digest_hash pt = (9, [2])"
  using partial_tree_roundtrip [of "[1, 2, 3]" digest_hash "[False, True, False]" "[]"]
  by (simp add: MAX_BLOCK_SIZE_CURRENT_def BuildMerkleTree_levels merkle_top.simps digest_node upt_rec)

text \<open>C35: A partial tree received from anyone, for the number of transactions of a block, that extracts to the
  block's merkle root matches only transactions of the block, unless two different pairs that were hashed
  collide.\<close>

theorem partial_tree_sound:
  assumes "ExtractMatches H pt = (snd (snd (BuildMerkleTree H txids)), ms)"
    and "snd (snd (BuildMerkleTree H txids)) \<noteq> 0" and "pm_nTransactions pt = length txids"
    and "inj_on (\<lambda>(a, b). merkle_node H a b)
      (traverse_pairs H pt (tree_height (length txids) 0) 0
         \<lparr>es_nBitsUsed = 0, es_nHashUsed = 0, es_vMatch = [], es_fBad = pm_fBad pt\<rparr> \<union>
       calc_pairs H (length txids) txids (tree_height (length txids) 0) 0)"
  shows "set ms \<subseteq> set txids"
proof -
  let ?st = "\<lparr>es_nBitsUsed = 0, es_nHashUsed = 0, es_vMatch = [], es_fBad = pm_fBad pt\<rparr>"
  have ne: "txids \<noteq> []"
    using assms(2) by (auto simp: BuildMerkleTree_levels)
  obtain root st where run: "TraverseAndExtract H pt (tree_height (length txids) 0) 0 ?st = (root, st)"
    by fastforce
  have "root = CalcHash H (length txids) txids (tree_height (length txids) 0) 0" "ms = es_vMatch st"
    using assms(1-3) run ne CalcHash_root(1) [OF ne, of H]
    by (auto simp: ExtractMatches_def BuildMerkleTree_levels Let_def split: if_splits)
  then show ?thesis
    using extract_sound [of H pt _ 0 ?st txids st, OF _ assms(3) _ assms(4)] run ne by auto
qed

theorem partial_tree_sound_witness:
  "ExtractMatches digest_hash (mkPartialMerkleTree digest_hash [1, 2] [True, False]) = (9, [1]) \<and>
    set [1 :: uint256] \<subseteq> set [1, 2]"
proof -
  let ?pt = "mkPartialMerkleTree digest_hash [1, 2] [True, False]"
  have w: "CalcTreeWidth 2 (Suc 0) = 1"
    by (simp add: CalcTreeWidth_def)
  then have h: "tree_height 2 0 = 1"
    by (simp add: tree_height.simps)
  have pt: "?pt = \<lparr>pm_nTransactions = 2, pm_vBits = [True, True, False], pm_vHash = [1, 2], pm_fBad = False\<rparr>"
    by (simp add: mkPartialMerkleTree_def numeral_2_eq_2 h [unfolded numeral_2_eq_2] w [unfolded numeral_2_eq_2]
        parent_of_match_def Let_def upt_rec)
  have ext: "ExtractMatches digest_hash ?pt = (9, [1])"
    by (simp add: pt ExtractMatches_def h w MAX_BLOCK_SIZE_CURRENT_def extract_hash_def digest_node Let_def)
  moreover have "set [1 :: uint256] \<subseteq> set [1, 2]"
  proof (rule partial_tree_sound [of digest_hash ?pt])
    show "ExtractMatches digest_hash ?pt = (snd (snd (BuildMerkleTree digest_hash [1, 2])), [1])"
      using ext by (simp add: BuildMerkleTree_levels merkle_top.simps digest_node)
  qed (simp_all add: BuildMerkleTree_levels merkle_top.simps digest_node pt h [unfolded numeral_2_eq_2] w
      w [unfolded numeral_2_eq_2] extract_hash_def Let_def)
  ultimately show ?thesis
    by blast
qed

end
