(* ===== verification/HashStream.thy ===== *)
theory HashStream
  imports Prelude
begin

unbundle bit_operations_syntax

text \<open>
  The streaming interface of the hash functions of \<open>src/crypto\<close>: \<open>Write\<close> and \<open>Finalize\<close>, which the
  source repeats for SHA-256, SHA-1, RIPEMD-160 and SHA-512 with their block size, transformation,
  length field and output. A hasher is the record of the class's fields; the buffer,
  which the source leaves uninitialized, starts as zeros. The counter is a natural
  number: the source's wraps at \<open>2 ^ 64\<close>, and only its residue modulo the block size and the low 61
  bits, which the length field holds, are used.

  The locale \<open>hasher\<close> is the contract the users of a hash function rely on: whatever the pieces in
  which a message is written, the result is the digest of the message. HMAC is proved in it once.
\<close>

section \<open>Bytes and words\<close>

definition ReadBE32 :: "byte list \<Rightarrow> nat \<Rightarrow> 32 word" where
  "ReadBE32 p off =
     push_bit 24 (ucast (p ! off)) OR push_bit 16 (ucast (p ! (off + 1))) OR
     push_bit 8 (ucast (p ! (off + 2))) OR ucast (p ! (off + 3))"

definition ReadLE32 :: "byte list \<Rightarrow> nat \<Rightarrow> 32 word" where
  "ReadLE32 p off =
     push_bit 24 (ucast (p ! (off + 3))) OR push_bit 16 (ucast (p ! (off + 2))) OR
     push_bit 8 (ucast (p ! (off + 1))) OR ucast (p ! off)"

definition ReadBE64 :: "byte list \<Rightarrow> nat \<Rightarrow> 64 word" where
  "ReadBE64 p off =
     push_bit 56 (ucast (p ! off)) OR push_bit 48 (ucast (p ! (off + 1))) OR
     push_bit 40 (ucast (p ! (off + 2))) OR push_bit 32 (ucast (p ! (off + 3))) OR
     push_bit 24 (ucast (p ! (off + 4))) OR push_bit 16 (ucast (p ! (off + 5))) OR
     push_bit 8 (ucast (p ! (off + 6))) OR ucast (p ! (off + 7))"

definition WriteBE32 :: "32 word \<Rightarrow> byte list" where
  "WriteBE32 x = [ucast (drop_bit 24 x), ucast (drop_bit 16 x), ucast (drop_bit 8 x), ucast x]"

definition WriteLE32 :: "32 word \<Rightarrow> byte list" where
  "WriteLE32 x = [ucast x, ucast (drop_bit 8 x), ucast (drop_bit 16 x), ucast (drop_bit 24 x)]"

definition WriteBE64 :: "64 word \<Rightarrow> byte list" where
  "WriteBE64 x =
     [ucast (drop_bit 56 x), ucast (drop_bit 48 x), ucast (drop_bit 40 x), ucast (drop_bit 32 x),
      ucast (drop_bit 24 x), ucast (drop_bit 16 x), ucast (drop_bit 8 x), ucast x]"

definition WriteLE64 :: "64 word \<Rightarrow> byte list" where
  "WriteLE64 x =
     [ucast x, ucast (drop_bit 8 x), ucast (drop_bit 16 x), ucast (drop_bit 24 x),
      ucast (drop_bit 32 x), ucast (drop_bit 40 x), ucast (drop_bit 48 x), ucast (drop_bit 56 x)]"

lemma length_WriteBE [simp]:
  "length (WriteBE32 x) = 4" "length (WriteLE32 x) = 4" "length (WriteBE64 y) = 8" "length (WriteLE64 y) = 8"
  by (simp_all add: WriteBE32_def WriteLE32_def WriteBE64_def WriteLE64_def)

text \<open>Rotations, as the sources write them.\<close>

lemma or_shifts_rotr:
  fixes x :: "'a::len word"
  assumes "0 < k" "k < LENGTH('a)" "j = LENGTH('a) - k"
  shows "drop_bit k x OR push_bit j x = word_rotr k x"
proof (rule bit_word_eqI)
  fix n
  assume n: "n < LENGTH('a)"
  show "bit (drop_bit k x OR push_bit j x) n = bit (word_rotr k x) n"
  proof (cases "n + k < LENGTH('a)")
    case True
    then have "\<not> j \<le> n"
      using assms by simp
    then show ?thesis
      using n assms(2) True by (simp add: bit_simps add.commute)
  next
    case False
    then have m: "(n + k) mod LENGTH('a) = n - j" "j \<le> n"
      using n assms by (simp_all add: mod_if)
    have "\<not> bit x (k + n)"
      using False by (auto dest: bit_imp_le_length)
    then show ?thesis
      using n assms(2) m by (simp add: bit_simps)
  qed
qed

lemma or_shifts_rotl:
  fixes x :: "'a::len word"
  assumes "0 < k" "k < LENGTH('a)" "j = LENGTH('a) - k"
  shows "push_bit k x OR drop_bit j x = word_rotl k x"
proof (rule bit_word_eqI)
  fix n
  assume n: "n < LENGTH('a)"
  show "bit (push_bit k x OR drop_bit j x) n = bit (word_rotl k x) n"
  proof (cases "k \<le> n")
    case True
    then have "(n + (LENGTH('a) - k)) mod LENGTH('a) = n - k"
      using n assms by (simp add: mod_if)
    moreover have "\<not> bit x (j + n)"
      using True assms by (auto dest: bit_imp_le_length)
    ultimately show ?thesis
      using n assms True by (simp add: bit_simps)
  next
    case False
    then show ?thesis
      using n assms by (simp add: bit_simps add.commute)
  qed
qed

section \<open>The hasher\<close>

record 's hasher =
  hs_s :: "'s list"
  hs_buf :: "byte list"
  hs_bytes :: nat

text \<open>\<open>memcpy(buf + off, data, len)\<close>.\<close>

definition copy_at :: "byte list \<Rightarrow> nat \<Rightarrow> byte list \<Rightarrow> byte list" where
  "copy_at buf off data = take off buf @ data @ drop (off + length data) buf"

text \<open>The loop over the full chunks of the input; the block size \<open>B\<close> is 64 or 128.\<close>

function write_chunks ::
  "nat \<Rightarrow> ('s list \<Rightarrow> byte list \<Rightarrow> 's list) \<Rightarrow> 's hasher \<Rightarrow> byte list \<Rightarrow> 's hasher \<times> byte list" where
  "write_chunks B T h data =
     (if 0 < B \<and> B \<le> length data then
        write_chunks B T (h\<lparr>hs_s := T (hs_s h) (take B data), hs_bytes := hs_bytes h + B\<rparr>) (drop B data)
      else (h, data))"
  by pat_completeness auto
termination
  by (relation "measure (\<lambda>(B, T, h, data). length data)") auto

declare write_chunks.simps [simp del]

definition md_Write :: "nat \<Rightarrow> ('s list \<Rightarrow> byte list \<Rightarrow> 's list) \<Rightarrow> 's hasher \<Rightarrow> byte list \<Rightarrow> 's hasher" where
  "md_Write B T h data =
     (let bufsize = hs_bytes h mod B;
          fill = (bufsize \<noteq> 0 \<and> B \<le> bufsize + length data);
          buf = copy_at (hs_buf h) bufsize (take (B - bufsize) data);
          h1 = (if fill then h\<lparr>hs_s := T (hs_s h) buf, hs_buf := buf, hs_bytes := hs_bytes h + (B - bufsize)\<rparr> else h);
          data1 = (if fill then drop (B - bufsize) data else data);
          bufsize1 = (if fill then 0 else bufsize)
      in
      (case write_chunks B T h1 data1 of
         (h2, data2) \<Rightarrow>
           if data2 \<noteq> []
           then h2\<lparr>hs_buf := copy_at (hs_buf h2) bufsize1 data2, hs_bytes := hs_bytes h2 + length data2\<rparr>
           else h2))"

text \<open>
  \<open>Finalize\<close>: the padding is written up to the length field of \<open>L\<close> bytes, then the length, and the
  state is written out. \<open>2 * B - 1 - L\<close> is the source's 119 or 239.
\<close>

definition md_finish ::
  "nat \<Rightarrow> nat \<Rightarrow> ('s list \<Rightarrow> byte list \<Rightarrow> 's list) \<Rightarrow> (nat \<Rightarrow> byte list) \<Rightarrow> 's hasher \<Rightarrow> 's hasher" where
  "md_finish B L T sizedesc h =
     (let pad = 0x80 # replicate (B - 1) 0;
          h1 = md_Write B T h (take (1 + (2 * B - 1 - L - hs_bytes h mod B) mod B) pad)
      in md_Write B T h1 (sizedesc (hs_bytes h)))"

definition md_Finalize ::
  "nat \<Rightarrow> nat \<Rightarrow> ('s list \<Rightarrow> byte list \<Rightarrow> 's list) \<Rightarrow> (nat \<Rightarrow> byte list) \<Rightarrow> ('s list \<Rightarrow> byte list) \<Rightarrow>
   's hasher \<Rightarrow> byte list" where
  "md_Finalize B L T sizedesc out h = out (hs_s (md_finish B L T sizedesc h))"

text \<open>\<open>Reset\<close> keeps the buffer.\<close>

definition md_Reset :: "'s list \<Rightarrow> 's hasher \<Rightarrow> 's hasher" where
  "md_Reset iv h = h\<lparr>hs_bytes := 0, hs_s := iv\<rparr>"

section \<open>The digest of a message\<close>

function blocks :: "nat \<Rightarrow> byte list \<Rightarrow> byte list list" where
  "blocks B xs = (if 0 < B \<and> B \<le> length xs then take B xs # blocks B (drop B xs) else [])"
  by pat_completeness auto
termination
  by (relation "measure (length \<circ> snd)") auto

declare blocks.simps [simp del]

text \<open>The padding of the standards: a one bit, the least number of zeros, and the length.\<close>

definition md_pad :: "nat \<Rightarrow> nat \<Rightarrow> (nat \<Rightarrow> byte list) \<Rightarrow> byte list \<Rightarrow> byte list" where
  "md_pad B L sizedesc m =
     m @ 0x80 # replicate (nat ((int B - 1 - int L - int (length m)) mod int B)) 0 @ sizedesc (length m)"

definition md_digest ::
  "nat \<Rightarrow> nat \<Rightarrow> ('s list \<Rightarrow> byte list \<Rightarrow> 's list) \<Rightarrow> (nat \<Rightarrow> byte list) \<Rightarrow> ('s list \<Rightarrow> byte list) \<Rightarrow>
   's list \<Rightarrow> byte list \<Rightarrow> byte list" where
  "md_digest B L T sizedesc out iv m = out (foldl T iv (blocks B (md_pad B L sizedesc m)))"

text \<open>What a hasher has read.\<close>

definition md_rep :: "nat \<Rightarrow> ('s list \<Rightarrow> byte list \<Rightarrow> 's list) \<Rightarrow> 's list \<Rightarrow> 's hasher \<Rightarrow> byte list \<Rightarrow> bool" where
  "md_rep B T iv h m \<longleftrightarrow>
     hs_bytes h = length m \<and> length (hs_buf h) = B \<and> hs_s h = foldl T iv (blocks B m) \<and>
     take (length m mod B) (hs_buf h) = drop (B * (length m div B)) m"

lemma blocks_short: "length xs < B \<Longrightarrow> blocks B xs = []"
  by (simp add: blocks.simps)

lemma blocks_append:
  assumes "0 < B"
  shows "B dvd length xs \<Longrightarrow> blocks B (xs @ ys) = blocks B xs @ blocks B ys"
proof (induction B xs rule: blocks.induct)
  case (1 B xs)
  show ?case
  proof (cases "0 < B \<and> B \<le> length xs")
    case True
    then have "blocks B (drop B xs @ ys) = blocks B (drop B xs) @ blocks B ys"
      using "1.IH" "1.prems" by (simp add: dvd_diff_nat)
    then show ?thesis
      using True by (simp add: blocks.simps [of B "xs @ ys"] blocks.simps [of B xs])
  next
    case False
    then have "xs = []"
      using "1.prems" assms by (cases xs) (auto dest: dvd_imp_le)
    then show ?thesis
      using assms by (auto simp: blocks.simps [of B "[]"])
  qed
qed

lemma blocks_one: "0 < B \<Longrightarrow> length xs = B \<Longrightarrow> blocks B xs = [xs]"
  by (simp add: blocks.simps [of B xs] blocks.simps [of B "[]"])

lemma write_chunks_spec:
  assumes "0 < B"
  shows "write_chunks B T h data =
    (h\<lparr>hs_s := foldl T (hs_s h) (blocks B data), hs_bytes := hs_bytes h + B * (length data div B)\<rparr>,
     drop (B * (length data div B)) data)"
proof (induction B T h data rule: write_chunks.induct)
  case (1 B T h data)
  show ?case
  proof (cases "0 < B \<and> B \<le> length data")
    case True
    then have "length data div B = Suc ((length data - B) div B)"
      by (simp add: le_div_geq)
    then show ?thesis
      using True "1.IH" [OF True] by (subst write_chunks.simps) (simp add: blocks.simps [of B data] add.commute add.left_commute)
  next
    case False
    then have "B = 0 \<or> length data div B = 0"
      by auto
    then show ?thesis
      using False by (subst write_chunks.simps) (auto simp: blocks.simps [of B data])
  qed
qed

lemma blocks_full: "0 < B \<Longrightarrow> blocks B (take (B * (length m div B)) m) = blocks B m"
proof -
  assume B: "0 < B"
  let ?k = "B * (length m div B)"
  have "length (drop ?k m) < B"
    using B by (simp add: minus_mult_div_eq_mod)
  moreover have "length (take ?k m) = ?k"
    by simp
  ultimately have "blocks B (take ?k m @ drop ?k m) = blocks B (take ?k m)"
    using blocks_append [OF B, of "take ?k m" "drop ?k m"] by (simp add: blocks_short)
  then show ?thesis
    by simp
qed

text \<open>One write on an empty buffer, and one that does not fill the buffer.\<close>

lemma md_rep_chunks:
  assumes B: "0 < B" "B dvd length m" and h: "hs_bytes h = length m" "length (hs_buf h) = B" "hs_s h = foldl T iv (blocks B m)"
    and run: "write_chunks B T h data = (h2, data2)"
  shows "md_rep B T iv
    (if data2 \<noteq> [] then h2\<lparr>hs_buf := copy_at (hs_buf h2) 0 data2, hs_bytes := hs_bytes h2 + length data2\<rparr> else h2) (m @ data)"
proof -
  let ?k = "B * (length data div B)"
  have h2: "h2 = h\<lparr>hs_s := foldl T (hs_s h) (blocks B data), hs_bytes := hs_bytes h + ?k\<rparr>" and data2: "data2 = drop ?k data"
    using run write_chunks_spec [OF B(1), of T h data] by simp_all
  have blocks: "blocks B (m @ data) = blocks B m @ blocks B data"
    by (rule blocks_append [OF B])
  obtain q where q: "length m = B * q"
    using B(2) by blast
  have rest: "drop (B * (length (m @ data) div B)) (m @ data) = data2" "length (m @ data) mod B = length data2" "length data2 < B"
    using B(1) by (simp_all add: q data2 minus_mult_div_eq_mod distrib_left)
  show ?thesis
  proof (cases "data2 = []")
    case True
    then have "length data = ?k"
      using times_div_less_eq_dividend [of B "length data"] by (simp add: data2)
    then show ?thesis
      using True h rest blocks by (simp add: md_rep_def h2)
  next
    case False
    have "length data = ?k + length data2"
      using times_div_less_eq_dividend [of B "length data"] by (simp add: data2)
    then show ?thesis
      using False h rest blocks by (simp add: md_rep_def h2 copy_at_def)
  qed
qed

lemma md_rep_short:
  assumes "0 < B" and rep: "md_rep B T iv h m" and "length m mod B + length data < B"
  shows "md_rep B T iv
    (if data \<noteq> [] then h\<lparr>hs_buf := copy_at (hs_buf h) (length m mod B) data, hs_bytes := hs_bytes h + length data\<rparr> else h) (m @ data)"
proof -
  let ?k = "B * (length m div B)"
  have len: "length m = ?k + length m mod B"
    by simp
  have div: "length (m @ data) div B = length m div B" and mod: "length (m @ data) mod B = length m mod B + length data"
  proof -
    have "length (m @ data) = B * (length m div B) + (length m mod B + length data)"
      by simp
    then show "length (m @ data) div B = length m div B" "length (m @ data) mod B = length m mod B + length data"
      using assms(3) by (metis add.commute assms(1) div_mult_self4 div_less add_0 less_numeral_extra(3) neq0_conv,
          metis assms(3) mod_less mod_mult_self4 add.commute)
  qed
  have "blocks B (m @ data) = blocks B m"
  proof -
    have "take ?k (m @ data) = take ?k m"
      using len by simp
    then show ?thesis
      using blocks_full [OF assms(1), of "m @ data"] blocks_full [OF assms(1), of m] unfolding div by simp
  qed
  moreover have "drop ?k (m @ data) = take (length m mod B) (hs_buf h) @ data"
    using rep len by (simp add: md_rep_def)
  ultimately show ?thesis
    using rep assms(3) unfolding md_rep_def div mod by (auto simp: copy_at_def minus_mult_div_eq_mod)
qed

lemma md_rep_Write:
  assumes B: "0 < B" and rep: "md_rep B T iv h m"
  shows "md_rep B T iv (md_Write B T h data) (m @ data)"
proof -
  let ?r = "length m mod B"
  have bytes: "hs_bytes h = length m" and buf: "length (hs_buf h) = B"
    using rep by (simp_all add: md_rep_def)
  have r: "?r < B"
    using B by simp
  consider (empty) "?r = 0" | (fill) "?r \<noteq> 0" "B \<le> ?r + length data" | (short) "?r \<noteq> 0" "?r + length data < B"
    by linarith
  then show ?thesis
  proof cases
    case empty
    obtain h2 data2 where run: "write_chunks B T h data = (h2, data2)"
      by fastforce
    have "B dvd length m"
      using empty by (simp add: dvd_eq_mod_eq_0)
    moreover have "hs_s h = foldl T iv (blocks B m)"
      using rep by (simp add: md_rep_def)
    ultimately have "md_rep B T iv
        (if data2 \<noteq> [] then h2\<lparr>hs_buf := copy_at (hs_buf h2) 0 data2, hs_bytes := hs_bytes h2 + length data2\<rparr> else h2)
        (m @ data)"
      by (rule md_rep_chunks [OF B _ bytes buf _ run])
    then show ?thesis
      using empty run by (cases "data2 = []") (simp_all add: md_Write_def bytes)
  next
    case fill
    let ?d = "take (B - ?r) data" and ?k = "B * (length m div B)"
    let ?buf = "copy_at (hs_buf h) ?r ?d"
    let ?h = "h\<lparr>hs_s := T (hs_s h) ?buf, hs_buf := ?buf, hs_bytes := hs_bytes h + (B - ?r)\<rparr>"
    obtain h2 data2 where run: "write_chunks B T ?h (drop (B - ?r) data) = (h2, data2)"
      by fastforce
    have dlen: "length ?d = B - ?r"
      using fill by simp
    have buf_eq: "?buf = drop ?k m @ ?d"
      using rep buf dlen by (simp add: copy_at_def md_rep_def)
    have len: "length (m @ ?d) = B * (length m div B + 1)"
      using dlen r by (simp add: minus_mod_eq_mult_div [symmetric] distrib_left)
    have "blocks B (m @ ?d) = blocks B (take ?k m) @ blocks B (drop ?k m @ ?d)"
      using blocks_append [OF B, of "take ?k m" "drop ?k m @ ?d"]
      by (simp add: append_assoc [symmetric] del: append_assoc)
    also have "\<dots> = blocks B m @ [?buf]"
      using blocks_full [OF B, of m] blocks_one [OF B, of ?buf] buf dlen r by (simp add: buf_eq minus_mult_div_eq_mod)
    finally have blocks: "blocks B (m @ ?d) = blocks B m @ [?buf]" .
    have "md_rep B T iv (if data2 \<noteq> [] then h2\<lparr>hs_buf := copy_at (hs_buf h2) 0 data2, hs_bytes := hs_bytes h2 + length data2\<rparr> else h2)
        ((m @ ?d) @ drop (B - ?r) data)"
    proof (rule md_rep_chunks [OF B _ _ _ _ run])
      show "B dvd length (m @ ?d)"
        unfolding len by simp
      show "hs_bytes ?h = length (m @ ?d)" "length (hs_buf ?h) = B"
        using bytes dlen r buf by (simp_all add: buf_eq minus_mult_div_eq_mod)
      show "hs_s ?h = foldl T iv (blocks B (m @ ?d))"
        using rep unfolding blocks by (simp add: md_rep_def)
    qed
    then show ?thesis
      using fill run by (cases "data2 = []") (simp_all add: md_Write_def bytes)
  next
    case short
    have "write_chunks B T h data = (h, data)"
      using short by (subst write_chunks.simps) simp
    then show ?thesis
      using md_rep_short [OF B rep short(2)] short by (cases "data = []") (simp_all add: md_Write_def bytes)
  qed
qed

text \<open>The padding that is written is that of the standard.\<close>

lemma pad_zeros:
  assumes "L < B"
  shows "(2 * B - 1 - L - n mod B) mod B = nat ((int B - 1 - int L - int n) mod int B)"
proof -
  have "n mod B < B"
    using assms by simp
  then have "int (2 * B - 1 - L - n mod B) = int B + (int B - 1 - int L - int (n mod B))"
    using assms by linarith
  then have "int ((2 * B - 1 - L - n mod B) mod B) = (int B + (int B - 1 - int L - int n mod int B)) mod int B"
    by (simp add: zmod_int)
  also have "\<dots> = (int B - 1 - int L - int n) mod int B"
    by (simp only: mod_add_self1 mod_diff_right_eq)
  finally show ?thesis
    by (metis nat_int)
qed

lemma md_finish_rep:
  assumes "L < B" and "\<And>n. length (sizedesc n) = L" and rep: "md_rep B T iv h m"
  shows "md_rep B T iv (md_finish B L T sizedesc h) (md_pad B L sizedesc m)"
proof -
  have B: "0 < B"
    using assms(1) by simp
  let ?z = "nat ((int B - 1 - int L - int (length m)) mod int B)"
  have "?z < B"
    using B by (simp add: nat_less_iff)
  then have pad: "take (1 + ?z) (0x80 # replicate (B - 1) 0) = 0x80 # replicate ?z (0 :: byte)"
    by (simp add: min_def)
  have bytes: "hs_bytes h = length m"
    using rep by (simp add: md_rep_def)
  have "md_rep B T iv (md_Write B T (md_Write B T h (0x80 # replicate ?z 0)) (sizedesc (length m)))
      ((m @ 0x80 # replicate ?z 0) @ sizedesc (length m))"
    by (intro md_rep_Write B rep)
  then show ?thesis
    unfolding md_finish_def bytes pad_zeros [OF assms(1)] pad Let_def md_pad_def by simp
qed

lemma md_Finalize_digest:
  assumes "L < B" and "\<And>n. length (sizedesc n) = L" and "md_rep B T iv h m"
  shows "md_Finalize B L T sizedesc out h = md_digest B L T sizedesc out iv m"
  using md_finish_rep [OF assms] by (simp add: md_Finalize_def md_digest_def md_rep_def)

lemma md_rep_Reset: "0 < B \<Longrightarrow> md_rep B T iv h m \<Longrightarrow> md_rep B T iv (md_Reset iv h) []"
  by (simp add: md_rep_def md_Reset_def blocks_short)

section \<open>The contract\<close>

locale hasher =
  fixes init :: 'h and feed :: "'h \<Rightarrow> byte list \<Rightarrow> 'h" and finalize :: "'h \<Rightarrow> byte list"
    and rep :: "'h \<Rightarrow> byte list \<Rightarrow> bool" and digest :: "byte list \<Rightarrow> byte list" and outsize :: nat
  assumes rep_init: "rep init []"
    and rep_write: "rep h m \<Longrightarrow> rep (feed h data) (m @ data)"
    and rep_finalize: "rep h m \<Longrightarrow> finalize h = digest m"
    and length_digest: "length (digest m) = outsize"
begin

lemma rep_stream: "rep h m \<Longrightarrow> rep (foldl feed h pieces) (m @ concat pieces)"
proof (induction pieces arbitrary: h m)
  case (Cons piece pieces)
  then show ?case
    using Cons.IH [OF rep_write [OF Cons.prems]] by simp
qed simp

lemma stream: "finalize (foldl feed init pieces) = digest (concat pieces)"
  using rep_finalize [OF rep_stream [OF rep_init]] by simp

lemma once: "finalize (feed init m) = digest m"
  using rep_finalize [OF rep_write [OF rep_init]] by simp

end

text \<open>
  A class built on a transformation that agrees with the standard's on states of its size is a hasher
  of the standard's digest.
\<close>

lemma foldl_agree:
  assumes "\<And>s c. length s = k \<Longrightarrow> T s c = T' s c \<and> length (T' s c) = k"
  shows "length s = k \<Longrightarrow> foldl T s cs = foldl T' s cs"
proof (induction cs arbitrary: s)
  case (Cons c cs)
  then show ?case
    using assms [OF Cons.prems, of c] by simp
qed simp

lemma md_hasher:
  assumes "L < B" and "\<And>n. length (sizedesc n) = L" and "\<And>s. length (out s) = outsize" and "length iv = k"
    and "\<And>s c. length s = k \<Longrightarrow> T s c = T' s c \<and> length (T' s c) = k"
  shows "hasher \<lparr>hs_s = iv, hs_buf = replicate B 0, hs_bytes = 0\<rparr> (md_Write B T) (md_Finalize B L T sizedesc out)
    (md_rep B T iv) (md_digest B L T' sizedesc out iv) outsize"
proof
  show "md_rep B T iv \<lparr>hs_s = iv, hs_buf = replicate B 0, hs_bytes = 0\<rparr> []"
    using assms(1) by (simp add: md_rep_def blocks_short)
next
  fix h :: "'a hasher" and m data
  assume "md_rep B T iv h m"
  then show "md_rep B T iv (md_Write B T h data) (m @ data)"
    using assms(1) by (intro md_rep_Write) simp_all
next
  fix h :: "'a hasher" and m
  assume rep: "md_rep B T iv h m"
  have "md_Finalize B L T sizedesc out h = md_digest B L T sizedesc out iv m"
    by (rule md_Finalize_digest [OF assms(1,2) rep])
  also have "\<dots> = md_digest B L T' sizedesc out iv m"
    using foldl_agree [where T = T and T' = T', OF assms(5) assms(4)] by (simp add: md_digest_def)
  finally show "md_Finalize B L T sizedesc out h = md_digest B L T' sizedesc out iv m" .
next
  fix m
  show "length (md_digest B L T' sizedesc out iv m) = outsize"
    by (simp add: md_digest_def assms(3))
qed

section \<open>HMAC\<close>

text \<open>
  The classes \<open>CHMAC_SHA256\<close> and \<open>CHMAC_SHA512\<close> are the same code on two hash functions: a pair of the
  outer and the inner hasher.
\<close>

definition hmac_init ::
  "'h \<Rightarrow> ('h \<Rightarrow> byte list \<Rightarrow> 'h) \<Rightarrow> ('h \<Rightarrow> byte list) \<Rightarrow> nat \<Rightarrow> nat \<Rightarrow> byte list \<Rightarrow> 'h \<times> 'h" where
  "hmac_init init feed finalize B outsize key =
     (let rkey = (if length key \<le> B then key @ replicate (B - length key) 0
                  else finalize (feed init key) @ replicate (B - outsize) 0);
          rkey1 = map (\<lambda>b. b XOR 0x5c) rkey;
          rkey2 = map (\<lambda>b. b XOR (0x5c XOR 0x36)) rkey1
      in (feed init rkey1, feed init rkey2))"

definition hmac_write :: "('h \<Rightarrow> byte list \<Rightarrow> 'h) \<Rightarrow> 'h \<times> 'h \<Rightarrow> byte list \<Rightarrow> 'h \<times> 'h" where
  "hmac_write feed h data = (case h of (outer, inner) \<Rightarrow> (outer, feed inner data))"

definition hmac_finalize ::
  "('h \<Rightarrow> byte list \<Rightarrow> 'h) \<Rightarrow> ('h \<Rightarrow> byte list) \<Rightarrow> 'h \<times> 'h \<Rightarrow> byte list" where
  "hmac_finalize feed finalize h = (case h of (outer, inner) \<Rightarrow> finalize (feed outer (finalize inner)))"

text \<open>RFC 2104.\<close>

definition hmac_key :: "(byte list \<Rightarrow> byte list) \<Rightarrow> nat \<Rightarrow> nat \<Rightarrow> byte list \<Rightarrow> byte list" where
  "hmac_key digest B outsize key =
     (if length key \<le> B then key @ replicate (B - length key) 0 else digest key @ replicate (B - outsize) 0)"

definition hmac_spec :: "(byte list \<Rightarrow> byte list) \<Rightarrow> nat \<Rightarrow> nat \<Rightarrow> byte list \<Rightarrow> byte list \<Rightarrow> byte list" where
  "hmac_spec digest B outsize key text =
     digest (map (\<lambda>b. b XOR 0x5c) (hmac_key digest B outsize key) @
             digest (map (\<lambda>b. b XOR 0x36) (hmac_key digest B outsize key) @ text))"

lemma xor_opad_ipad: "(b XOR 0x5c) XOR 0x6a = b XOR (0x36 :: byte)"
proof -
  have "(0x6a :: byte) = 0x5c XOR 0x36"
    by simp
  then have "(b XOR 0x5c) XOR 0x6a = b XOR ((0x5c XOR 0x5c) XOR 0x36)"
    by (simp only: xor.assoc)
  then show ?thesis
    by simp
qed

context hasher
begin

definition hmac_rep :: "byte list \<Rightarrow> 'h \<times> 'h \<Rightarrow> byte list \<Rightarrow> nat \<Rightarrow> bool" where
  "hmac_rep key h m B \<longleftrightarrow>
     rep (fst h) (map (\<lambda>b. b XOR 0x5c) (hmac_key digest B outsize key)) \<and>
     rep (snd h) (map (\<lambda>b. b XOR 0x36) (hmac_key digest B outsize key) @ m)"

lemma hmac_rep_init: "hmac_rep key (hmac_init init feed finalize B outsize key) [] B"
proof -
  have "(if length key \<le> B then key @ replicate (B - length key) 0 else finalize (feed init key) @ replicate (B - outsize) 0) =
      hmac_key digest B outsize key"
    by (simp add: hmac_key_def once)
  then show ?thesis
    using rep_write [OF rep_init, of "map (\<lambda>b. b XOR 0x5c) (hmac_key digest B outsize key)"]
      rep_write [OF rep_init, of "map (\<lambda>b. b XOR 0x36) (hmac_key digest B outsize key)"]
    by (simp add: hmac_rep_def hmac_init_def Let_def comp_def xor_opad_ipad)
qed

lemma hmac_rep_write: "hmac_rep key h m B \<Longrightarrow> hmac_rep key (hmac_write feed h data) (m @ data) B"
  using rep_write by (fastforce simp: hmac_rep_def hmac_write_def split: prod.splits)

lemma hmac_rep_finalize: "hmac_rep key h m B \<Longrightarrow> hmac_finalize feed finalize h = hmac_spec digest B outsize key m"
  using rep_finalize rep_write by (fastforce simp: hmac_rep_def hmac_finalize_def hmac_spec_def split: prod.splits)

text \<open>HMAC is a hasher again.\<close>

lemma hmac_hasher:
  "hasher (hmac_init init feed finalize B outsize key) (hmac_write feed) (hmac_finalize feed finalize)
     (\<lambda>h m. hmac_rep key h m B) (hmac_spec digest B outsize key) outsize"
  by unfold_locales (auto simp: hmac_rep_init hmac_rep_write hmac_rep_finalize hmac_spec_def length_digest)

end

end
