(* ===== verification/Sha1.thy ===== *)
theory Sha1
  imports HashStream
begin

unbundle bit_operations_syntax

text \<open>
  SHA-1, \<open>src/crypto/sha1.cpp\<close>. As for SHA-256 the source writes the 80 rounds out; round \<open>i\<close> passes
  as parameter \<open>j\<close> the register \<open>sha1_reg i j\<close>. The second part is the standard (FIPS 180), which the
  transformation is shown to compute; the class is a \<open>hasher\<close> of the standard's digest.
\<close>

section \<open>Operations\<close>

text \<open>The new values of the parameters \<open>b\<close> and \<open>e\<close>.\<close>

definition sha1_Round ::
  "32 word \<Rightarrow> 32 word \<Rightarrow> 32 word \<Rightarrow> 32 word \<Rightarrow> 32 word \<Rightarrow> 32 word \<Rightarrow> 32 word \<Rightarrow> 32 word \<Rightarrow> 32 word \<times> 32 word" where
  "sha1_Round a b c d e f k w =
     (push_bit 30 b OR drop_bit 2 b, e + ((push_bit 5 a OR drop_bit 27 a) + f + k + w))"

definition sha1_f1 :: "32 word \<Rightarrow> 32 word \<Rightarrow> 32 word \<Rightarrow> 32 word" where
  "sha1_f1 b c d = d XOR (b AND (c XOR d))"

definition sha1_f2 :: "32 word \<Rightarrow> 32 word \<Rightarrow> 32 word \<Rightarrow> 32 word" where
  "sha1_f2 b c d = b XOR c XOR d"

definition sha1_f3 :: "32 word \<Rightarrow> 32 word \<Rightarrow> 32 word \<Rightarrow> 32 word" where
  "sha1_f3 b c d = (b AND c) OR (d AND (b OR c))"

definition sha1_left :: "32 word \<Rightarrow> 32 word" where
  "sha1_left x = push_bit 1 x OR drop_bit 31 x"

definition sha1_Initialize :: "32 word list" where
  "sha1_Initialize = [0x67452301, 0xefcdab89, 0x98badcfe, 0x10325476, 0xc3d2e1f0]"

text \<open>The function and the constant of round \<open>i\<close>.\<close>

definition sha1_fk :: "nat \<Rightarrow> 32 word \<Rightarrow> 32 word \<Rightarrow> 32 word \<Rightarrow> 32 word \<times> 32 word" where
  "sha1_fk i b c d =
     (if i < 20 then (sha1_f1 b c d, 0x5a827999)
      else if i < 40 then (sha1_f2 b c d, 0x6ed9eba1)
      else if i < 60 then (sha1_f3 b c d, 0x8f1bbcdc)
      else (sha1_f2 b c d, 0xca62c1d6))"

definition sha1_reg :: "nat \<Rightarrow> nat \<Rightarrow> nat" where
  "sha1_reg i j = (j + 4 * i) mod 5"

definition sha1_word :: "byte list \<Rightarrow> 32 word list \<Rightarrow> nat \<Rightarrow> 32 word" where
  "sha1_word chunk w i =
     (if i < 16 then ReadBE32 chunk (4 * i)
      else sha1_left (w ! (i mod 16) XOR w ! ((i + 13) mod 16) XOR w ! ((i + 8) mod 16) XOR w ! ((i + 2) mod 16)))"

definition sha1_step :: "byte list \<Rightarrow> 32 word list \<times> 32 word list \<Rightarrow> nat \<Rightarrow> 32 word list \<times> 32 word list" where
  "sha1_step chunk st i =
     (case st of (s, w) \<Rightarrow>
        let wi = sha1_word chunk w i; p = (\<lambda>j. s ! sha1_reg i j) in
        (case sha1_fk i (p 1) (p 2) (p 3) of
           (f, k) \<Rightarrow>
             (case sha1_Round (p 0) (p 1) (p 2) (p 3) (p 4) f k wi of
                (b, e) \<Rightarrow> (s[sha1_reg i 1 := b, sha1_reg i 4 := e], w[i mod 16 := wi]))))"

text \<open>The message words are not initialized before the first sixteen rounds set them.\<close>

definition sha1_Transform :: "32 word list \<Rightarrow> byte list \<Rightarrow> 32 word list" where
  "sha1_Transform s chunk =
     (case foldl (sha1_step chunk) (s, replicate 16 0) [0..<80] of (r, w) \<Rightarrow> map2 (+) s r)"

definition sha1_new :: "32 word hasher" where
  "sha1_new = \<lparr>hs_s = sha1_Initialize, hs_buf = replicate 64 0, hs_bytes = 0\<rparr>"

definition sha1_Write :: "32 word hasher \<Rightarrow> byte list \<Rightarrow> 32 word hasher" where
  "sha1_Write = md_Write 64 sha1_Transform"

definition sha1_sizedesc :: "nat \<Rightarrow> byte list" where
  "sha1_sizedesc bytes = WriteBE64 (push_bit 3 (of_nat bytes))"

definition sha1_out :: "32 word list \<Rightarrow> byte list" where
  "sha1_out s = concat (map (\<lambda>i. WriteBE32 (s ! i)) [0..<5])"

definition sha1_Finalize :: "32 word hasher \<Rightarrow> byte list" where
  "sha1_Finalize = md_Finalize 64 8 sha1_Transform sha1_sizedesc sha1_out"

section \<open>The standard\<close>

definition fips1_f :: "nat \<Rightarrow> 32 word \<Rightarrow> 32 word \<Rightarrow> 32 word \<Rightarrow> 32 word" where
  "fips1_f t x y z =
     (if t < 20 then (x AND y) XOR (NOT x AND z)
      else if 40 \<le> t \<and> t < 60 then (x AND y) XOR (x AND z) XOR (y AND z)
      else x XOR y XOR z)"

definition fips1_K :: "nat \<Rightarrow> 32 word" where
  "fips1_K t = [0x5a827999, 0x6ed9eba1, 0x8f1bbcdc, 0xca62c1d6] ! (t div 20)"

function fips1_W :: "byte list \<Rightarrow> nat \<Rightarrow> 32 word" where
  "fips1_W M t =
     (if t < 16 then ReadBE32 M (4 * t)
      else word_rotl 1 (fips1_W M (t - 3) XOR fips1_W M (t - 8) XOR fips1_W M (t - 14) XOR fips1_W M (t - 16)))"
  by pat_completeness auto
termination
  by (relation "measure snd") auto

declare fips1_W.simps [simp del]

fun fips1_rounds :: "byte list \<Rightarrow> 32 word list \<Rightarrow> nat \<Rightarrow> 32 word list" where
  "fips1_rounds M H 0 = H"
| "fips1_rounds M H (Suc t) =
     (case fips1_rounds M H t of
        [a, b, c, d, e] \<Rightarrow> [word_rotl 5 a + fips1_f t b c d + e + fips1_K t + fips1_W M t, a, word_rotl 30 b, c, d]
      | _ \<Rightarrow> [])"

definition fips1_compress :: "32 word list \<Rightarrow> byte list \<Rightarrow> 32 word list" where
  "fips1_compress H M = map2 (+) H (fips1_rounds M H 80)"

definition sha1 :: "byte list \<Rightarrow> byte list" where
  "sha1 = md_digest 64 8 fips1_compress sha1_sizedesc sha1_out sha1_Initialize"

section \<open>The code meets the standard\<close>

lemma sha1_rotations:
  "sha1_left x = word_rotl 1 x" "push_bit 30 x OR drop_bit 2 x = word_rotl 30 x" "push_bit 5 x OR drop_bit 27 x = word_rotl 5 x"
  for x :: "32 word"
  unfolding sha1_left_def by (rule or_shifts_rotl; simp)+

lemma sha1_bitwise:
  "sha1_f1 x y z = (x AND y) XOR (NOT x AND z)" "sha1_f3 x y z = (x AND y) XOR (x AND z) XOR (y AND z)"
  by (rule bit_word_eqI, auto simp: sha1_f1_def sha1_f3_def bit_simps)+

lemma sha1_fk_standard: "i < 80 \<Longrightarrow> sha1_fk i b c d = (fips1_f i b c d, fips1_K i)"
proof -
  assume i: "i < 80"
  consider "i < 20" | "20 \<le> i" "i < 40" | "40 \<le> i" "i < 60" | "60 \<le> i" "i < 80"
    using i by linarith
  then show ?thesis
  proof cases
    case 2
    then have "i div 20 = 1"
      by (simp add: div_nat_eqI)
    then show ?thesis
      using 2 by (simp add: sha1_fk_def fips1_f_def fips1_K_def sha1_f2_def)
  next
    case 3
    then have "i div 20 = 2"
      by (simp add: div_nat_eqI)
    then show ?thesis
      using 3 by (simp add: sha1_fk_def fips1_f_def fips1_K_def sha1_bitwise)
  next
    case 4
    then have "i div 20 = 3"
      by (simp add: div_nat_eqI)
    then show ?thesis
      using 4 by (simp add: sha1_fk_def fips1_f_def fips1_K_def sha1_f2_def)
  qed (simp add: sha1_fk_def fips1_f_def fips1_K_def sha1_bitwise)
qed

lemma sha1_reg_less [simp]: "sha1_reg i j < 5"
  by (simp add: sha1_reg_def)

lemma sha1_reg_eq: "j < 5 \<Longrightarrow> k < 5 \<Longrightarrow> sha1_reg i j = sha1_reg i k \<longleftrightarrow> j = k"
proof -
  assume less: "j < 5" "k < 5"
  define q where "q = 4 * i mod 5"
  have q: "q < 5"
    by (simp add: q_def)
  have "(a + 4 * i) mod 5 = (if a + q < 5 then a + q else a + q - 5)" if "a < 5" for a
  proof -
    have "(a + 4 * i) mod 5 = (a + q) mod 5"
      by (simp add: q_def mod_add_right_eq)
    then show ?thesis
      using that q by (simp add: mod_if)
  qed
  then show ?thesis
    using less q by (auto simp: sha1_reg_def split: if_splits)
qed

lemma sha1_reg_Suc: "sha1_reg (Suc i) 0 = sha1_reg i 4" "sha1_reg (Suc i) (Suc j) = sha1_reg i j"
proof -
  show "sha1_reg (Suc i) 0 = sha1_reg i 4"
    by (simp add: sha1_reg_def)
  have "Suc j + 4 * Suc i = (j + 4 * i) + 5"
    by simp
  then show "sha1_reg (Suc i) (Suc j) = sha1_reg i j"
    unfolding sha1_reg_def by (simp only: mod_add_self2)
qed

lemma sha1_reg_shift:
  "sha1_reg (Suc i) (Suc 0) = sha1_reg i 0" "sha1_reg (Suc i) 2 = sha1_reg i 1" "sha1_reg (Suc i) 3 = sha1_reg i 2"
  "sha1_reg (Suc i) 4 = sha1_reg i 3"
  using sha1_reg_Suc(2) [of i 0] sha1_reg_Suc(2) [of i 1] sha1_reg_Suc(2) [of i 2] sha1_reg_Suc(2) [of i 3]
  by (simp_all add: numeral_eq_Suc)

text \<open>The parameters of a round, in order.\<close>

definition sha1_params :: "nat \<Rightarrow> 32 word list \<Rightarrow> 32 word list" where
  "sha1_params i s = map (\<lambda>j. s ! sha1_reg i j) [0, 1, 2, 3, 4]"

lemma sha1_list5: "length s = 5 \<Longrightarrow> map ((!) s) [0, 1, 2, 3, 4] = s"
  by (auto simp: numeral_eq_Suc length_Suc_conv)

lemma sha1_params_0: "length s = 5 \<Longrightarrow> sha1_params 0 s = s"
  using sha1_list5 [of s] by (simp add: sha1_params_def sha1_reg_def)

lemma sha1_params_80: "length s = 5 \<Longrightarrow> sha1_params 80 s = s"
  using sha1_list5 [of s] by (simp add: sha1_params_def sha1_reg_def)

lemma sha1_params_Suc:
  assumes "length s = 5"
  shows "sha1_params (Suc i) (s[sha1_reg i 1 := b, sha1_reg i 4 := e]) = [e, s ! sha1_reg i 0, b, s ! sha1_reg i 2, s ! sha1_reg i 3]"
  using sha1_reg_Suc(1) [of i] assms sha1_reg_less [of i]
  by (simp add: sha1_params_def sha1_reg_shift sha1_reg_eq)

lemma sha1_words:
  assumes "\<forall>t < i. i \<le> t + 16 \<longrightarrow> w ! (t mod 16) = fips1_W chunk t"
  shows "sha1_word chunk w i = fips1_W chunk i"
proof (cases "i < 16")
  case True
  then show ?thesis
    by (simp add: sha1_word_def fips1_W.simps [of chunk i])
next
  case False
  have "i + 13 = (i - 3) + 16" "i + 8 = (i - 8) + 16" "i + 2 = (i - 14) + 16" "i = (i - 16) + 16"
    using False by simp_all
  then have m: "(i + 13) mod 16 = (i - 3) mod 16" "(i + 8) mod 16 = (i - 8) mod 16" "(i + 2) mod 16 = (i - 14) mod 16"
    "i mod 16 = (i - 16) mod 16"
    by (metis mod_add_self2)+
  have "w ! ((i - 3) mod 16) = fips1_W chunk (i - 3)" "w ! ((i - 8) mod 16) = fips1_W chunk (i - 8)"
    "w ! ((i - 14) mod 16) = fips1_W chunk (i - 14)" "w ! ((i - 16) mod 16) = fips1_W chunk (i - 16)"
    using assms False by simp_all
  then show ?thesis
    using False unfolding sha1_word_def m by (simp add: fips1_W.simps [of chunk i] sha1_rotations xor.assoc xor.commute xor.left_commute)
qed

lemma sha1_rounds:
  assumes "length s = 5"
  shows "i \<le> 80 \<Longrightarrow> \<exists>r w. foldl (sha1_step chunk) (s, replicate 16 0) [0..<i] = (r, w) \<and> length r = 5 \<and> length w = 16 \<and>
    sha1_params i r = fips1_rounds chunk s i \<and> (\<forall>t < i. i \<le> t + 16 \<longrightarrow> w ! (t mod 16) = fips1_W chunk t)"
proof (induction i)
  case 0
  show ?case
    using sha1_params_0 assms by simp
next
  case (Suc i)
  then obtain r w where IH: "foldl (sha1_step chunk) (s, replicate 16 0) [0..<i] = (r, w)" "length r = 5" "length w = 16"
    "sha1_params i r = fips1_rounds chunk s i" "\<forall>t < i. i \<le> t + 16 \<longrightarrow> w ! (t mod 16) = fips1_W chunk t"
    by auto
  let ?p = "\<lambda>j. r ! sha1_reg i j" and ?wi = "fips1_W chunk i"
  obtain b e where round: "sha1_Round (?p 0) (?p 1) (?p 2) (?p 3) (?p 4) (fips1_f i (?p 1) (?p 2) (?p 3)) (fips1_K i) ?wi = (b, e)"
    by fastforce
  let ?r = "r[sha1_reg i 1 := b, sha1_reg i 4 := e]" and ?w = "w[i mod 16 := ?wi]"
  have step: "foldl (sha1_step chunk) (s, replicate 16 0) [0..<Suc i] = (?r, ?w)"
    using IH(1) sha1_words [OF IH(5)] round Suc.prems by (simp add: sha1_step_def sha1_fk_standard Let_def)
  have rounds: "fips1_rounds chunk s i = [?p 0, ?p 1, ?p 2, ?p 3, ?p 4]"
    using IH(4) by (simp add: sha1_params_def)
  have "sha1_params (Suc i) ?r = fips1_rounds chunk s (Suc i)"
    unfolding sha1_params_Suc [OF IH(2)] using round by (auto simp: rounds sha1_Round_def sha1_rotations)
  moreover have "?w ! (t mod 16) = fips1_W chunk t" if t: "t < Suc i" "Suc i \<le> t + 16" for t
  proof (cases "t = i")
    case False
    then have "t mod 16 \<noteq> i mod 16"
      using t mod_eq_dvd_iff_nat [of t i 16] by (auto dest: dvd_imp_le)
    then show ?thesis
      using IH(5) t False by simp
  qed (simp add: IH(3))
  ultimately show ?case
    using step IH(2,3) by auto
qed

lemma sha1_Transform_standard:
  assumes "length s = 5"
  shows "sha1_Transform s chunk = fips1_compress s chunk" and "length (fips1_compress s chunk) = 5"
proof -
  obtain r w where r: "foldl (sha1_step chunk) (s, replicate 16 0) [0..<80] = (r, w)" "length r = 5"
    "sha1_params 80 r = fips1_rounds chunk s 80"
    using sha1_rounds [OF assms, of 80 chunk] by blast
  then have "r = fips1_rounds chunk s 80"
    using sha1_params_80 by simp
  then show "sha1_Transform s chunk = fips1_compress s chunk" "length (fips1_compress s chunk) = 5"
    using r assms by (simp_all add: sha1_Transform_def fips1_compress_def)
qed

lemma length_sha1_out: "length (sha1_out s) = 20"
  by (simp add: sha1_out_def upt_rec)

interpretation sha1: hasher sha1_new sha1_Write sha1_Finalize "md_rep 64 sha1_Transform sha1_Initialize" sha1 20
  unfolding sha1_new_def sha1_Write_def sha1_Finalize_def sha1_def
  by (rule md_hasher [where k = 5])
     (simp_all add: sha1_sizedesc_def length_sha1_out sha1_Initialize_def sha1_Transform_standard)

end
