(* ===== verification/Sha256.thy ===== *)
theory Sha256
  imports HashStream
begin

unbundle bit_operations_syntax

text \<open>
  SHA-256, \<open>src/crypto/sha256.cpp\<close>. The source writes the 64 rounds out, with the registers renamed from
  line to line and the message words updated in place: round \<open>i\<close> passes as parameter \<open>j\<close> the register
  \<open>sha256_reg i j\<close>, so the fold over the rounds below is that text. The second part is the standard
  (fips256), with its message schedule as a recursive function and its working variables shifted; the
  transformation is shown equal to it, and the class a \<open>hasher\<close> of the standard's digest.
\<close>

section \<open>Operations\<close>

definition sha256_Ch :: "32 word \<Rightarrow> 32 word \<Rightarrow> 32 word \<Rightarrow> 32 word" where
  "sha256_Ch x y z = z XOR (x AND (y XOR z))"

definition sha256_Maj :: "32 word \<Rightarrow> 32 word \<Rightarrow> 32 word \<Rightarrow> 32 word" where
  "sha256_Maj x y z = (x AND y) OR (z AND (x OR y))"

definition sha256_Sigma0 :: "32 word \<Rightarrow> 32 word" where
  "sha256_Sigma0 x = (drop_bit 2 x OR push_bit 30 x) XOR (drop_bit 13 x OR push_bit 19 x) XOR (drop_bit 22 x OR push_bit 10 x)"

definition sha256_Sigma1 :: "32 word \<Rightarrow> 32 word" where
  "sha256_Sigma1 x = (drop_bit 6 x OR push_bit 26 x) XOR (drop_bit 11 x OR push_bit 21 x) XOR (drop_bit 25 x OR push_bit 7 x)"

definition sha256_sigma0 :: "32 word \<Rightarrow> 32 word" where
  "sha256_sigma0 x = (drop_bit 7 x OR push_bit 25 x) XOR (drop_bit 18 x OR push_bit 14 x) XOR drop_bit 3 x"

definition sha256_sigma1 :: "32 word \<Rightarrow> 32 word" where
  "sha256_sigma1 x = (drop_bit 17 x OR push_bit 15 x) XOR (drop_bit 19 x OR push_bit 13 x) XOR drop_bit 10 x"

text \<open>The new values of the parameters \<open>d\<close> and \<open>h\<close>.\<close>

definition sha256_Round ::
  "32 word \<Rightarrow> 32 word \<Rightarrow> 32 word \<Rightarrow> 32 word \<Rightarrow> 32 word \<Rightarrow> 32 word \<Rightarrow> 32 word \<Rightarrow> 32 word \<Rightarrow>
   32 word \<Rightarrow> 32 word \<Rightarrow> 32 word \<times> 32 word" where
  "sha256_Round a b c d e f g h k w =
     (let t1 = h + sha256_Sigma1 e + sha256_Ch e f g + k + w; t2 = sha256_Sigma0 a + sha256_Maj a b c
      in (d + t1, t1 + t2))"

definition sha256_Initialize :: "32 word list" where
  "sha256_Initialize =
     [0x6a09e667, 0xbb67ae85, 0x3c6ef372, 0xa54ff53a, 0x510e527f, 0x9b05688c, 0x1f83d9ab, 0x5be0cd19]"

text \<open>The constants of the rounds, one row for each of the eight orders in which the registers are passed.\<close>

definition sha256_K :: "32 word list list" where
  "sha256_K =
     [[0x428a2f98, 0xd807aa98, 0xe49b69c1, 0x983e5152, 0x27b70a85, 0xa2bfe8a1, 0x19a4c116, 0x748f82ee],
      [0x71374491, 0x12835b01, 0xefbe4786, 0xa831c66d, 0x2e1b2138, 0xa81a664b, 0x1e376c08, 0x78a5636f],
      [0xb5c0fbcf, 0x243185be, 0x0fc19dc6, 0xb00327c8, 0x4d2c6dfc, 0xc24b8b70, 0x2748774c, 0x84c87814],
      [0xe9b5dba5, 0x550c7dc3, 0x240ca1cc, 0xbf597fc7, 0x53380d13, 0xc76c51a3, 0x34b0bcb5, 0x8cc70208],
      [0x3956c25b, 0x72be5d74, 0x2de92c6f, 0xc6e00bf3, 0x650a7354, 0xd192e819, 0x391c0cb3, 0x90befffa],
      [0x59f111f1, 0x80deb1fe, 0x4a7484aa, 0xd5a79147, 0x766a0abb, 0xd6990624, 0x4ed8aa4a, 0xa4506ceb],
      [0x923f82a4, 0x9bdc06a7, 0x5cb0a9dc, 0x06ca6351, 0x81c2c92e, 0xf40e3585, 0x5b9cca4f, 0xbef9a3f7],
      [0xab1c5ed5, 0xc19bf174, 0x76f988da, 0x14292967, 0x92722c85, 0x106aa070, 0x682e6ff3, 0xc67178f2]]"

definition sha256_k :: "nat \<Rightarrow> 32 word" where
  "sha256_k i = sha256_K ! (i mod 8) ! (i div 8)"

definition sha256_reg :: "nat \<Rightarrow> nat \<Rightarrow> nat" where
  "sha256_reg i j = (j + 7 * i) mod 8"

definition sha256_word :: "byte list \<Rightarrow> 32 word list \<Rightarrow> nat \<Rightarrow> 32 word" where
  "sha256_word chunk w i =
     (if i < 16 then ReadBE32 chunk (4 * i)
      else w ! (i mod 16) +
        (sha256_sigma1 (w ! ((i + 14) mod 16)) + w ! ((i + 9) mod 16) + sha256_sigma0 (w ! ((i + 1) mod 16))))"

definition sha256_step :: "byte list \<Rightarrow> 32 word list \<times> 32 word list \<Rightarrow> nat \<Rightarrow> 32 word list \<times> 32 word list" where
  "sha256_step chunk st i =
     (case st of (s, w) \<Rightarrow>
        let wi = sha256_word chunk w i; p = (\<lambda>j. s ! sha256_reg i j) in
        (case sha256_Round (p 0) (p 1) (p 2) (p 3) (p 4) (p 5) (p 6) (p 7) (sha256_k i) wi of
           (d, h) \<Rightarrow> (s[sha256_reg i 3 := d, sha256_reg i 7 := h], w[i mod 16 := wi])))"

text \<open>The message words are not initialized before the first sixteen rounds set them.\<close>

definition sha256_Transform :: "32 word list \<Rightarrow> byte list \<Rightarrow> 32 word list" where
  "sha256_Transform s chunk =
     (case foldl (sha256_step chunk) (s, replicate 16 0) [0..<64] of (r, w) \<Rightarrow> map2 (+) s r)"

definition sha256_new :: "32 word hasher" where
  "sha256_new = \<lparr>hs_s = sha256_Initialize, hs_buf = replicate 64 0, hs_bytes = 0\<rparr>"

definition sha256_Write :: "32 word hasher \<Rightarrow> byte list \<Rightarrow> 32 word hasher" where
  "sha256_Write = md_Write 64 sha256_Transform"

definition sha256_sizedesc :: "nat \<Rightarrow> byte list" where
  "sha256_sizedesc bytes = WriteBE64 (push_bit 3 (of_nat bytes))"

definition sha256_out :: "32 word list \<Rightarrow> byte list" where
  "sha256_out s = concat (map (\<lambda>i. WriteBE32 (s ! i)) [0..<8])"

definition sha256_Finalize :: "32 word hasher \<Rightarrow> byte list" where
  "sha256_Finalize = md_Finalize 64 8 sha256_Transform sha256_sizedesc sha256_out"

section \<open>The standard\<close>

definition fips256_Ch :: "32 word \<Rightarrow> 32 word \<Rightarrow> 32 word \<Rightarrow> 32 word" where
  "fips256_Ch x y z = (x AND y) XOR (NOT x AND z)"

definition fips256_Maj :: "32 word \<Rightarrow> 32 word \<Rightarrow> 32 word \<Rightarrow> 32 word" where
  "fips256_Maj x y z = (x AND y) XOR (x AND z) XOR (y AND z)"

definition fips256_Sigma0 :: "32 word \<Rightarrow> 32 word" where
  "fips256_Sigma0 x = word_rotr 2 x XOR word_rotr 13 x XOR word_rotr 22 x"

definition fips256_Sigma1 :: "32 word \<Rightarrow> 32 word" where
  "fips256_Sigma1 x = word_rotr 6 x XOR word_rotr 11 x XOR word_rotr 25 x"

definition fips256_sigma0 :: "32 word \<Rightarrow> 32 word" where
  "fips256_sigma0 x = word_rotr 7 x XOR word_rotr 18 x XOR drop_bit 3 x"

definition fips256_sigma1 :: "32 word \<Rightarrow> 32 word" where
  "fips256_sigma1 x = word_rotr 17 x XOR word_rotr 19 x XOR drop_bit 10 x"

function fips256_W :: "byte list \<Rightarrow> nat \<Rightarrow> 32 word" where
  "fips256_W M t =
     (if t < 16 then ReadBE32 M (4 * t)
      else fips256_sigma1 (fips256_W M (t - 2)) + fips256_W M (t - 7) + fips256_sigma0 (fips256_W M (t - 15)) + fips256_W M (t - 16))"
  by pat_completeness auto
termination
  by (relation "measure snd") auto

declare fips256_W.simps [simp del]

fun fips256_rounds :: "byte list \<Rightarrow> 32 word list \<Rightarrow> nat \<Rightarrow> 32 word list" where
  "fips256_rounds M H 0 = H"
| "fips256_rounds M H (Suc t) =
     (case fips256_rounds M H t of
        [a, b, c, d, e, f, g, h] \<Rightarrow>
          let T1 = h + fips256_Sigma1 e + fips256_Ch e f g + sha256_k t + fips256_W M t;
              T2 = fips256_Sigma0 a + fips256_Maj a b c
          in [T1 + T2, a, b, c, d + T1, e, f, g]
      | _ \<Rightarrow> [])"

definition fips256_compress :: "32 word list \<Rightarrow> byte list \<Rightarrow> 32 word list" where
  "fips256_compress H M = map2 (+) H (fips256_rounds M H 64)"

definition sha256 :: "byte list \<Rightarrow> byte list" where
  "sha256 = md_digest 64 8 fips256_compress sha256_sizedesc sha256_out sha256_Initialize"

section \<open>The code meets the standard\<close>

lemma sha256_functions:
  "sha256_Ch x y z = fips256_Ch x y z" "sha256_Maj x y z = fips256_Maj x y z"
  "sha256_Sigma0 x = fips256_Sigma0 x" "sha256_Sigma1 x = fips256_Sigma1 x" "sha256_sigma0 x = fips256_sigma0 x" "sha256_sigma1 x = fips256_sigma1 x"
proof -
  show "sha256_Ch x y z = fips256_Ch x y z" "sha256_Maj x y z = fips256_Maj x y z"
    by (rule bit_word_eqI, auto simp: sha256_Ch_def fips256_Ch_def sha256_Maj_def fips256_Maj_def bit_simps)+
  have rots: "drop_bit 2 x OR push_bit 30 x = word_rotr 2 x"
    "drop_bit 6 x OR push_bit 26 x = word_rotr 6 x"
    "drop_bit 7 x OR push_bit 25 x = word_rotr 7 x"
    "drop_bit 11 x OR push_bit 21 x = word_rotr 11 x"
    "drop_bit 13 x OR push_bit 19 x = word_rotr 13 x"
    "drop_bit 17 x OR push_bit 15 x = word_rotr 17 x"
    "drop_bit 18 x OR push_bit 14 x = word_rotr 18 x"
    "drop_bit 19 x OR push_bit 13 x = word_rotr 19 x"
    "drop_bit 22 x OR push_bit 10 x = word_rotr 22 x"
    "drop_bit 25 x OR push_bit 7 x = word_rotr 25 x"
    by (rule or_shifts_rotr; simp)+
  show "sha256_Sigma0 x = fips256_Sigma0 x" "sha256_Sigma1 x = fips256_Sigma1 x" "sha256_sigma0 x = fips256_sigma0 x" "sha256_sigma1 x = fips256_sigma1 x"
    by (simp_all only: sha256_Sigma0_def sha256_Sigma1_def sha256_sigma0_def sha256_sigma1_def
        fips256_Sigma0_def fips256_Sigma1_def fips256_sigma0_def fips256_sigma1_def rots)
qed

lemma sha256_reg_less [simp]: "sha256_reg i j < 8"
  by (simp add: sha256_reg_def)

lemma sha256_reg_eq: "j < 8 \<Longrightarrow> k < 8 \<Longrightarrow> sha256_reg i j = sha256_reg i k \<longleftrightarrow> j = k"
proof -
  assume less: "j < 8" "k < 8"
  define q where "q = 7 * i mod 8"
  have q: "q < 8"
    by (simp add: q_def)
  have "(a + 7 * i) mod 8 = (if a + q < 8 then a + q else a + q - 8)" if "a < 8" for a
  proof -
    have "(a + 7 * i) mod 8 = (a + q) mod 8"
      by (simp add: q_def mod_add_right_eq)
    then show ?thesis
      using that q by (simp add: mod_if)
  qed
  then show ?thesis
    using less q by (auto simp: sha256_reg_def split: if_splits)
qed

lemma sha256_reg_Suc: "sha256_reg (Suc i) 0 = sha256_reg i 7" "sha256_reg (Suc i) (Suc j) = sha256_reg i j"
proof -
  show "sha256_reg (Suc i) 0 = sha256_reg i 7"
    by (simp add: sha256_reg_def)
  have "Suc j + 7 * Suc i = (j + 7 * i) + 8"
    by simp
  then show "sha256_reg (Suc i) (Suc j) = sha256_reg i j"
    unfolding sha256_reg_def by (simp only: mod_add_self2)
qed

lemma sha256_reg_shift:
  "sha256_reg (Suc i) 1 = sha256_reg i 0" "sha256_reg (Suc i) 2 = sha256_reg i 1" "sha256_reg (Suc i) 3 = sha256_reg i 2"
  "sha256_reg (Suc i) 4 = sha256_reg i 3" "sha256_reg (Suc i) 5 = sha256_reg i 4" "sha256_reg (Suc i) 6 = sha256_reg i 5"
  "sha256_reg (Suc i) 7 = sha256_reg i 6"
  using sha256_reg_Suc(2) [of i 0] sha256_reg_Suc(2) [of i 1] sha256_reg_Suc(2) [of i 2] sha256_reg_Suc(2) [of i 3]
    sha256_reg_Suc(2) [of i 4] sha256_reg_Suc(2) [of i 5] sha256_reg_Suc(2) [of i 6]
  by (simp_all add: numeral_eq_Suc)

text \<open>The parameters of a round, in order, and the invariant of the fold.\<close>

definition sha256_params :: "nat \<Rightarrow> 32 word list \<Rightarrow> 32 word list" where
  "sha256_params i s = map (\<lambda>j. s ! sha256_reg i j) [0, 1, 2, 3, 4, 5, 6, 7]"

lemma sha256_list8: "length s = 8 \<Longrightarrow> map ((!) s) [0, 1, 2, 3, 4, 5, 6, 7] = s"
  by (auto simp: numeral_eq_Suc length_Suc_conv)

lemma sha256_words:
  assumes "\<forall>t < i. i \<le> t + 16 \<longrightarrow> w ! (t mod 16) = fips256_W chunk t"
  shows "sha256_word chunk w i = fips256_W chunk i"
proof (cases "i < 16")
  case True
  then show ?thesis
    by (simp add: sha256_word_def fips256_W.simps [of chunk i])
next
  case False
  have "i + 14 = (i - 2) + 16" "i + 9 = (i - 7) + 16" "i + 1 = (i - 15) + 16" "i = (i - 16) + 16"
    using False by simp_all
  then have m: "(i + 14) mod 16 = (i - 2) mod 16" "(i + 9) mod 16 = (i - 7) mod 16" "(i + 1) mod 16 = (i - 15) mod 16"
    "i mod 16 = (i - 16) mod 16"
    by (metis mod_add_self2)+
  have "w ! ((i - 2) mod 16) = fips256_W chunk (i - 2)" "w ! ((i - 7) mod 16) = fips256_W chunk (i - 7)"
    "w ! ((i - 15) mod 16) = fips256_W chunk (i - 15)" "w ! ((i - 16) mod 16) = fips256_W chunk (i - 16)"
    using assms False by simp_all
  then show ?thesis
    using False unfolding sha256_word_def m by (simp add: fips256_W.simps [of chunk i] sha256_functions add_ac)
qed

lemma sha256_rounds:
  assumes "length s = 8"
  shows "\<exists>r w. foldl (sha256_step chunk) (s, replicate 16 0) [0..<i] = (r, w) \<and> length r = 8 \<and> length w = 16 \<and>
    sha256_params i r = fips256_rounds chunk s i \<and> (\<forall>t < i. i \<le> t + 16 \<longrightarrow> w ! (t mod 16) = fips256_W chunk t)"
proof (induction i)
  case 0
  show ?case
    using sha256_list8 [OF assms] assms by (simp add: sha256_params_def sha256_reg_def)
next
  case (Suc i)
  then obtain r w where IH: "foldl (sha256_step chunk) (s, replicate 16 0) [0..<i] = (r, w)" "length r = 8" "length w = 16"
    "sha256_params i r = fips256_rounds chunk s i" "\<forall>t < i. i \<le> t + 16 \<longrightarrow> w ! (t mod 16) = fips256_W chunk t"
    by blast
  let ?p = "\<lambda>j. r ! sha256_reg i j" and ?wi = "fips256_W chunk i"
  obtain d h where round: "sha256_Round (?p 0) (?p 1) (?p 2) (?p 3) (?p 4) (?p 5) (?p 6) (?p 7) (sha256_k i) ?wi = (d, h)"
    by fastforce
  let ?r = "r[sha256_reg i 3 := d, sha256_reg i 7 := h]" and ?w = "w[i mod 16 := ?wi]"
  have step: "foldl (sha256_step chunk) (s, replicate 16 0) [0..<Suc i] = (?r, ?w)"
    using IH(1) sha256_words [OF IH(5)] round by (simp add: sha256_step_def Let_def)
  have rounds: "fips256_rounds chunk s i = [?p 0, ?p 1, ?p 2, ?p 3, ?p 4, ?p 5, ?p 6, ?p 7]"
    using IH(4) by (simp add: sha256_params_def)
  have "sha256_params (Suc i) ?r = [h, ?p 0, ?p 1, ?p 2, d, ?p 4, ?p 5, ?p 6]"
    using sha256_reg_Suc(1) [of i] sha256_reg_Suc(2) [of i] IH(2) sha256_reg_less [of i]
    by (simp add: sha256_params_def sha256_reg_shift sha256_reg_eq)
  also have "\<dots> = fips256_rounds chunk s (Suc i)"
    using round by (auto simp: rounds sha256_Round_def Let_def sha256_functions)
  finally have params: "sha256_params (Suc i) ?r = fips256_rounds chunk s (Suc i)" .
  have "?w ! (t mod 16) = fips256_W chunk t" if t: "t < Suc i" "Suc i \<le> t + 16" for t
  proof (cases "t = i")
    case False
    then have "t mod 16 \<noteq> i mod 16"
      using t mod_eq_dvd_iff_nat [of t i 16] by (auto dest: dvd_imp_le)
    then show ?thesis
      using IH(5) t False by simp
  qed (simp add: IH(3))
  then show ?case
    using step params IH(2,3) by auto
qed

lemma sha256_Transform_standard:
  assumes "length s = 8"
  shows "sha256_Transform s chunk = fips256_compress s chunk" and "length (fips256_compress s chunk) = 8"
proof -
  obtain r w where r: "foldl (sha256_step chunk) (s, replicate 16 0) [0..<64] = (r, w)" "length r = 8"
    "sha256_params 64 r = fips256_rounds chunk s 64"
    using sha256_rounds [OF assms, of chunk 64] by blast
  have "sha256_params 64 r = r"
    using sha256_list8 [OF r(2)] by (simp add: sha256_params_def sha256_reg_def)
  then have "r = fips256_rounds chunk s 64"
    using r(3) by simp
  then show "sha256_Transform s chunk = fips256_compress s chunk" "length (fips256_compress s chunk) = 8"
    using r assms by (simp_all add: sha256_Transform_def fips256_compress_def)
qed

lemma length_sha256_out: "length (sha256_out s) = 32"
  by (simp add: sha256_out_def upt_rec)

interpretation sha256: hasher sha256_new sha256_Write sha256_Finalize "md_rep 64 sha256_Transform sha256_Initialize" sha256 32
  unfolding sha256_new_def sha256_Write_def sha256_Finalize_def sha256_def
  by (rule md_hasher [where k = 8])
     (simp_all add: sha256_sizedesc_def length_sha256_out sha256_Initialize_def sha256_Transform_standard)

end
