(* ===== verification/Sha512.thy ===== *)
theory Sha512
  imports HashStream
begin

unbundle bit_operations_syntax

text \<open>
  SHA-512, \<open>src/crypto/sha512.cpp\<close>. The source writes the 80 rounds out, with the registers renamed from
  line to line and the message words updated in place: round \<open>i\<close> passes as parameter \<open>j\<close> the register
  \<open>sha512_reg i j\<close>, so the fold over the rounds below is that text. The second part is the standard
  (fips512), with its message schedule as a recursive function and its working variables shifted; the
  transformation is shown equal to it, and the class a \<open>hasher\<close> of the standard's digest.
\<close>

section \<open>Operations\<close>

definition sha512_Ch :: "64 word \<Rightarrow> 64 word \<Rightarrow> 64 word \<Rightarrow> 64 word" where
  "sha512_Ch x y z = z XOR (x AND (y XOR z))"

definition sha512_Maj :: "64 word \<Rightarrow> 64 word \<Rightarrow> 64 word \<Rightarrow> 64 word" where
  "sha512_Maj x y z = (x AND y) OR (z AND (x OR y))"

definition sha512_Sigma0 :: "64 word \<Rightarrow> 64 word" where
  "sha512_Sigma0 x = (drop_bit 28 x OR push_bit 36 x) XOR (drop_bit 34 x OR push_bit 30 x) XOR (drop_bit 39 x OR push_bit 25 x)"

definition sha512_Sigma1 :: "64 word \<Rightarrow> 64 word" where
  "sha512_Sigma1 x = (drop_bit 14 x OR push_bit 50 x) XOR (drop_bit 18 x OR push_bit 46 x) XOR (drop_bit 41 x OR push_bit 23 x)"

definition sha512_sigma0 :: "64 word \<Rightarrow> 64 word" where
  "sha512_sigma0 x = (drop_bit 1 x OR push_bit 63 x) XOR (drop_bit 8 x OR push_bit 56 x) XOR drop_bit 7 x"

definition sha512_sigma1 :: "64 word \<Rightarrow> 64 word" where
  "sha512_sigma1 x = (drop_bit 19 x OR push_bit 45 x) XOR (drop_bit 61 x OR push_bit 3 x) XOR drop_bit 6 x"

text \<open>The new values of the parameters \<open>d\<close> and \<open>h\<close>.\<close>

definition sha512_Round ::
  "64 word \<Rightarrow> 64 word \<Rightarrow> 64 word \<Rightarrow> 64 word \<Rightarrow> 64 word \<Rightarrow> 64 word \<Rightarrow> 64 word \<Rightarrow> 64 word \<Rightarrow>
   64 word \<Rightarrow> 64 word \<Rightarrow> 64 word \<times> 64 word" where
  "sha512_Round a b c d e f g h k w =
     (let t1 = h + sha512_Sigma1 e + sha512_Ch e f g + k + w; t2 = sha512_Sigma0 a + sha512_Maj a b c
      in (d + t1, t1 + t2))"

definition sha512_Initialize :: "64 word list" where
  "sha512_Initialize =
     [0x6a09e667f3bcc908, 0xbb67ae8584caa73b, 0x3c6ef372fe94f82b, 0xa54ff53a5f1d36f1,
      0x510e527fade682d1, 0x9b05688c2b3e6c1f, 0x1f83d9abfb41bd6b, 0x5be0cd19137e2179]"

text \<open>The constants of the rounds, one row for each of the eight orders in which the registers are passed.\<close>

definition sha512_K :: "64 word list list" where
  "sha512_K =
     [[0x428a2f98d728ae22, 0xd807aa98a3030242, 0xe49b69c19ef14ad2, 0x983e5152ee66dfab, 0x27b70a8546d22ffc, 0xa2bfe8a14cf10364, 0x19a4c116b8d2d0c8, 0x748f82ee5defb2fc, 0xca273eceea26619c, 0x28db77f523047d84],
      [0x7137449123ef65cd, 0x12835b0145706fbe, 0xefbe4786384f25e3, 0xa831c66d2db43210, 0x2e1b21385c26c926, 0xa81a664bbc423001, 0x1e376c085141ab53, 0x78a5636f43172f60, 0xd186b8c721c0c207, 0x32caab7b40c72493],
      [0xb5c0fbcfec4d3b2f, 0x243185be4ee4b28c, 0x0fc19dc68b8cd5b5, 0xb00327c898fb213f, 0x4d2c6dfc5ac42aed, 0xc24b8b70d0f89791, 0x2748774cdf8eeb99, 0x84c87814a1f0ab72, 0xeada7dd6cde0eb1e, 0x3c9ebe0a15c9bebc],
      [0xe9b5dba58189dbbc, 0x550c7dc3d5ffb4e2, 0x240ca1cc77ac9c65, 0xbf597fc7beef0ee4, 0x53380d139d95b3df, 0xc76c51a30654be30, 0x34b0bcb5e19b48a8, 0x8cc702081a6439ec, 0xf57d4f7fee6ed178, 0x431d67c49c100d4c],
      [0x3956c25bf348b538, 0x72be5d74f27b896f, 0x2de92c6f592b0275, 0xc6e00bf33da88fc2, 0x650a73548baf63de, 0xd192e819d6ef5218, 0x391c0cb3c5c95a63, 0x90befffa23631e28, 0x06f067aa72176fba, 0x4cc5d4becb3e42b6],
      [0x59f111f1b605d019, 0x80deb1fe3b1696b1, 0x4a7484aa6ea6e483, 0xd5a79147930aa725, 0x766a0abb3c77b2a8, 0xd69906245565a910, 0x4ed8aa4ae3418acb, 0xa4506cebde82bde9, 0x0a637dc5a2c898a6, 0x597f299cfc657e2a],
      [0x923f82a4af194f9b, 0x9bdc06a725c71235, 0x5cb0a9dcbd41fbd4, 0x06ca6351e003826f, 0x81c2c92e47edaee6, 0xf40e35855771202a, 0x5b9cca4f7763e373, 0xbef9a3f7b2c67915, 0x113f9804bef90dae, 0x5fcb6fab3ad6faec],
      [0xab1c5ed5da6d8118, 0xc19bf174cf692694, 0x76f988da831153b5, 0x142929670a0e6e70, 0x92722c851482353b, 0x106aa07032bbd1b8, 0x682e6ff3d6b2b8a3, 0xc67178f2e372532b, 0x1b710b35131c471b, 0x6c44198c4a475817]]"

definition sha512_k :: "nat \<Rightarrow> 64 word" where
  "sha512_k i = sha512_K ! (i mod 8) ! (i div 8)"

definition sha512_reg :: "nat \<Rightarrow> nat \<Rightarrow> nat" where
  "sha512_reg i j = (j + 7 * i) mod 8"

definition sha512_word :: "byte list \<Rightarrow> 64 word list \<Rightarrow> nat \<Rightarrow> 64 word" where
  "sha512_word chunk w i =
     (if i < 16 then ReadBE64 chunk (8 * i)
      else w ! (i mod 16) +
        (sha512_sigma1 (w ! ((i + 14) mod 16)) + w ! ((i + 9) mod 16) + sha512_sigma0 (w ! ((i + 1) mod 16))))"

definition sha512_step :: "byte list \<Rightarrow> 64 word list \<times> 64 word list \<Rightarrow> nat \<Rightarrow> 64 word list \<times> 64 word list" where
  "sha512_step chunk st i =
     (case st of (s, w) \<Rightarrow>
        let wi = sha512_word chunk w i; p = (\<lambda>j. s ! sha512_reg i j) in
        (case sha512_Round (p 0) (p 1) (p 2) (p 3) (p 4) (p 5) (p 6) (p 7) (sha512_k i) wi of
           (d, h) \<Rightarrow> (s[sha512_reg i 3 := d, sha512_reg i 7 := h], w[i mod 16 := wi])))"

text \<open>The message words are not initialized before the first sixteen rounds set them.\<close>

definition sha512_Transform :: "64 word list \<Rightarrow> byte list \<Rightarrow> 64 word list" where
  "sha512_Transform s chunk =
     (case foldl (sha512_step chunk) (s, replicate 16 0) [0..<80] of (r, w) \<Rightarrow> map2 (+) s r)"

definition sha512_new :: "64 word hasher" where
  "sha512_new = \<lparr>hs_s = sha512_Initialize, hs_buf = replicate 128 0, hs_bytes = 0\<rparr>"

definition sha512_Write :: "64 word hasher \<Rightarrow> byte list \<Rightarrow> 64 word hasher" where
  "sha512_Write = md_Write 128 sha512_Transform"

definition sha512_sizedesc :: "nat \<Rightarrow> byte list" where
  "sha512_sizedesc bytes = replicate 8 0 @ WriteBE64 (push_bit 3 (of_nat bytes))"

definition sha512_out :: "64 word list \<Rightarrow> byte list" where
  "sha512_out s = concat (map (\<lambda>i. WriteBE64 (s ! i)) [0..<8])"

definition sha512_Finalize :: "64 word hasher \<Rightarrow> byte list" where
  "sha512_Finalize = md_Finalize 128 16 sha512_Transform sha512_sizedesc sha512_out"

section \<open>The standard\<close>

definition fips512_Ch :: "64 word \<Rightarrow> 64 word \<Rightarrow> 64 word \<Rightarrow> 64 word" where
  "fips512_Ch x y z = (x AND y) XOR (NOT x AND z)"

definition fips512_Maj :: "64 word \<Rightarrow> 64 word \<Rightarrow> 64 word \<Rightarrow> 64 word" where
  "fips512_Maj x y z = (x AND y) XOR (x AND z) XOR (y AND z)"

definition fips512_Sigma0 :: "64 word \<Rightarrow> 64 word" where
  "fips512_Sigma0 x = word_rotr 28 x XOR word_rotr 34 x XOR word_rotr 39 x"

definition fips512_Sigma1 :: "64 word \<Rightarrow> 64 word" where
  "fips512_Sigma1 x = word_rotr 14 x XOR word_rotr 18 x XOR word_rotr 41 x"

definition fips512_sigma0 :: "64 word \<Rightarrow> 64 word" where
  "fips512_sigma0 x = word_rotr 1 x XOR word_rotr 8 x XOR drop_bit 7 x"

definition fips512_sigma1 :: "64 word \<Rightarrow> 64 word" where
  "fips512_sigma1 x = word_rotr 19 x XOR word_rotr 61 x XOR drop_bit 6 x"

function fips512_W :: "byte list \<Rightarrow> nat \<Rightarrow> 64 word" where
  "fips512_W M t =
     (if t < 16 then ReadBE64 M (8 * t)
      else fips512_sigma1 (fips512_W M (t - 2)) + fips512_W M (t - 7) + fips512_sigma0 (fips512_W M (t - 15)) + fips512_W M (t - 16))"
  by pat_completeness auto
termination
  by (relation "measure snd") auto

declare fips512_W.simps [simp del]

fun fips512_rounds :: "byte list \<Rightarrow> 64 word list \<Rightarrow> nat \<Rightarrow> 64 word list" where
  "fips512_rounds M H 0 = H"
| "fips512_rounds M H (Suc t) =
     (case fips512_rounds M H t of
        [a, b, c, d, e, f, g, h] \<Rightarrow>
          let T1 = h + fips512_Sigma1 e + fips512_Ch e f g + sha512_k t + fips512_W M t;
              T2 = fips512_Sigma0 a + fips512_Maj a b c
          in [T1 + T2, a, b, c, d + T1, e, f, g]
      | _ \<Rightarrow> [])"

definition fips512_compress :: "64 word list \<Rightarrow> byte list \<Rightarrow> 64 word list" where
  "fips512_compress H M = map2 (+) H (fips512_rounds M H 80)"

definition sha512 :: "byte list \<Rightarrow> byte list" where
  "sha512 = md_digest 128 16 fips512_compress sha512_sizedesc sha512_out sha512_Initialize"

section \<open>The code meets the standard\<close>

lemma sha512_functions:
  "sha512_Ch x y z = fips512_Ch x y z" "sha512_Maj x y z = fips512_Maj x y z"
  "sha512_Sigma0 x = fips512_Sigma0 x" "sha512_Sigma1 x = fips512_Sigma1 x" "sha512_sigma0 x = fips512_sigma0 x" "sha512_sigma1 x = fips512_sigma1 x"
proof -
  show "sha512_Ch x y z = fips512_Ch x y z" "sha512_Maj x y z = fips512_Maj x y z"
    by (rule bit_word_eqI, auto simp: sha512_Ch_def fips512_Ch_def sha512_Maj_def fips512_Maj_def bit_simps)+
  have rots: "drop_bit 1 x OR push_bit 63 x = word_rotr 1 x"
    "drop_bit 8 x OR push_bit 56 x = word_rotr 8 x"
    "drop_bit 14 x OR push_bit 50 x = word_rotr 14 x"
    "drop_bit 18 x OR push_bit 46 x = word_rotr 18 x"
    "drop_bit 19 x OR push_bit 45 x = word_rotr 19 x"
    "drop_bit 28 x OR push_bit 36 x = word_rotr 28 x"
    "drop_bit 34 x OR push_bit 30 x = word_rotr 34 x"
    "drop_bit 39 x OR push_bit 25 x = word_rotr 39 x"
    "drop_bit 41 x OR push_bit 23 x = word_rotr 41 x"
    "drop_bit 61 x OR push_bit 3 x = word_rotr 61 x"
    by (rule or_shifts_rotr; simp)+
  show "sha512_Sigma0 x = fips512_Sigma0 x" "sha512_Sigma1 x = fips512_Sigma1 x" "sha512_sigma0 x = fips512_sigma0 x" "sha512_sigma1 x = fips512_sigma1 x"
    by (simp_all only: sha512_Sigma0_def sha512_Sigma1_def sha512_sigma0_def sha512_sigma1_def
        fips512_Sigma0_def fips512_Sigma1_def fips512_sigma0_def fips512_sigma1_def rots)
qed

lemma sha512_reg_less [simp]: "sha512_reg i j < 8"
  by (simp add: sha512_reg_def)

lemma sha512_reg_eq: "j < 8 \<Longrightarrow> k < 8 \<Longrightarrow> sha512_reg i j = sha512_reg i k \<longleftrightarrow> j = k"
proof -
  assume less: "j < 8" "k < 8"
  define q where "q = 7 * i mod 8"
  have q: "q < 8"
    by (simp add: q_def)
  have "(a + 7 * i) mod 8 = (if a + q < 8 then a + q else a + q - 8)" if "a < 8" for a
  proof -
    have "(a + 7 * i) mod 8 = (a + q) mod 8"
      by (simp add: q_def mod_add_right_eq)
    then show ?thesis
      using that q by (simp add: mod_if)
  qed
  then show ?thesis
    using less q by (auto simp: sha512_reg_def split: if_splits)
qed

lemma sha512_reg_Suc: "sha512_reg (Suc i) 0 = sha512_reg i 7" "sha512_reg (Suc i) (Suc j) = sha512_reg i j"
proof -
  show "sha512_reg (Suc i) 0 = sha512_reg i 7"
    by (simp add: sha512_reg_def)
  have "Suc j + 7 * Suc i = (j + 7 * i) + 8"
    by simp
  then show "sha512_reg (Suc i) (Suc j) = sha512_reg i j"
    unfolding sha512_reg_def by (simp only: mod_add_self2)
qed

lemma sha512_reg_shift:
  "sha512_reg (Suc i) 1 = sha512_reg i 0" "sha512_reg (Suc i) 2 = sha512_reg i 1" "sha512_reg (Suc i) 3 = sha512_reg i 2"
  "sha512_reg (Suc i) 4 = sha512_reg i 3" "sha512_reg (Suc i) 5 = sha512_reg i 4" "sha512_reg (Suc i) 6 = sha512_reg i 5"
  "sha512_reg (Suc i) 7 = sha512_reg i 6"
  using sha512_reg_Suc(2) [of i 0] sha512_reg_Suc(2) [of i 1] sha512_reg_Suc(2) [of i 2] sha512_reg_Suc(2) [of i 3]
    sha512_reg_Suc(2) [of i 4] sha512_reg_Suc(2) [of i 5] sha512_reg_Suc(2) [of i 6]
  by (simp_all add: numeral_eq_Suc)

text \<open>The parameters of a round, in order, and the invariant of the fold.\<close>

definition sha512_params :: "nat \<Rightarrow> 64 word list \<Rightarrow> 64 word list" where
  "sha512_params i s = map (\<lambda>j. s ! sha512_reg i j) [0, 1, 2, 3, 4, 5, 6, 7]"

lemma sha512_list8: "length s = 8 \<Longrightarrow> map ((!) s) [0, 1, 2, 3, 4, 5, 6, 7] = s"
  by (auto simp: numeral_eq_Suc length_Suc_conv)

lemma sha512_words:
  assumes "\<forall>t < i. i \<le> t + 16 \<longrightarrow> w ! (t mod 16) = fips512_W chunk t"
  shows "sha512_word chunk w i = fips512_W chunk i"
proof (cases "i < 16")
  case True
  then show ?thesis
    by (simp add: sha512_word_def fips512_W.simps [of chunk i])
next
  case False
  have "i + 14 = (i - 2) + 16" "i + 9 = (i - 7) + 16" "i + 1 = (i - 15) + 16" "i = (i - 16) + 16"
    using False by simp_all
  then have m: "(i + 14) mod 16 = (i - 2) mod 16" "(i + 9) mod 16 = (i - 7) mod 16" "(i + 1) mod 16 = (i - 15) mod 16"
    "i mod 16 = (i - 16) mod 16"
    by (metis mod_add_self2)+
  have "w ! ((i - 2) mod 16) = fips512_W chunk (i - 2)" "w ! ((i - 7) mod 16) = fips512_W chunk (i - 7)"
    "w ! ((i - 15) mod 16) = fips512_W chunk (i - 15)" "w ! ((i - 16) mod 16) = fips512_W chunk (i - 16)"
    using assms False by simp_all
  then show ?thesis
    using False unfolding sha512_word_def m by (simp add: fips512_W.simps [of chunk i] sha512_functions add_ac)
qed

lemma sha512_rounds:
  assumes "length s = 8"
  shows "\<exists>r w. foldl (sha512_step chunk) (s, replicate 16 0) [0..<i] = (r, w) \<and> length r = 8 \<and> length w = 16 \<and>
    sha512_params i r = fips512_rounds chunk s i \<and> (\<forall>t < i. i \<le> t + 16 \<longrightarrow> w ! (t mod 16) = fips512_W chunk t)"
proof (induction i)
  case 0
  show ?case
    using sha512_list8 [OF assms] assms by (simp add: sha512_params_def sha512_reg_def)
next
  case (Suc i)
  then obtain r w where IH: "foldl (sha512_step chunk) (s, replicate 16 0) [0..<i] = (r, w)" "length r = 8" "length w = 16"
    "sha512_params i r = fips512_rounds chunk s i" "\<forall>t < i. i \<le> t + 16 \<longrightarrow> w ! (t mod 16) = fips512_W chunk t"
    by blast
  let ?p = "\<lambda>j. r ! sha512_reg i j" and ?wi = "fips512_W chunk i"
  obtain d h where round: "sha512_Round (?p 0) (?p 1) (?p 2) (?p 3) (?p 4) (?p 5) (?p 6) (?p 7) (sha512_k i) ?wi = (d, h)"
    by fastforce
  let ?r = "r[sha512_reg i 3 := d, sha512_reg i 7 := h]" and ?w = "w[i mod 16 := ?wi]"
  have step: "foldl (sha512_step chunk) (s, replicate 16 0) [0..<Suc i] = (?r, ?w)"
    using IH(1) sha512_words [OF IH(5)] round by (simp add: sha512_step_def Let_def)
  have rounds: "fips512_rounds chunk s i = [?p 0, ?p 1, ?p 2, ?p 3, ?p 4, ?p 5, ?p 6, ?p 7]"
    using IH(4) by (simp add: sha512_params_def)
  have "sha512_params (Suc i) ?r = [h, ?p 0, ?p 1, ?p 2, d, ?p 4, ?p 5, ?p 6]"
    using sha512_reg_Suc(1) [of i] sha512_reg_Suc(2) [of i] IH(2) sha512_reg_less [of i]
    by (simp add: sha512_params_def sha512_reg_shift sha512_reg_eq)
  also have "\<dots> = fips512_rounds chunk s (Suc i)"
    using round by (auto simp: rounds sha512_Round_def Let_def sha512_functions)
  finally have params: "sha512_params (Suc i) ?r = fips512_rounds chunk s (Suc i)" .
  have "?w ! (t mod 16) = fips512_W chunk t" if t: "t < Suc i" "Suc i \<le> t + 16" for t
  proof (cases "t = i")
    case False
    then have "t mod 16 \<noteq> i mod 16"
      using t mod_eq_dvd_iff_nat [of t i 16] by (auto dest: dvd_imp_le)
    then show ?thesis
      using IH(5) t False by simp
  qed (simp add: IH(3))
  then show ?case
    using step params IH(2,3) by auto
qed

lemma sha512_Transform_standard:
  assumes "length s = 8"
  shows "sha512_Transform s chunk = fips512_compress s chunk" and "length (fips512_compress s chunk) = 8"
proof -
  obtain r w where r: "foldl (sha512_step chunk) (s, replicate 16 0) [0..<80] = (r, w)" "length r = 8"
    "sha512_params 80 r = fips512_rounds chunk s 80"
    using sha512_rounds [OF assms, of chunk 80] by blast
  have "sha512_params 80 r = r"
    using sha512_list8 [OF r(2)] by (simp add: sha512_params_def sha512_reg_def)
  then have "r = fips512_rounds chunk s 80"
    using r(3) by simp
  then show "sha512_Transform s chunk = fips512_compress s chunk" "length (fips512_compress s chunk) = 8"
    using r assms by (simp_all add: sha512_Transform_def fips512_compress_def)
qed

lemma length_sha512_out: "length (sha512_out s) = 64"
  by (simp add: sha512_out_def upt_rec)

interpretation sha512: hasher sha512_new sha512_Write sha512_Finalize "md_rep 128 sha512_Transform sha512_Initialize" sha512 64
  unfolding sha512_new_def sha512_Write_def sha512_Finalize_def sha512_def
  by (rule md_hasher [where k = 8])
     (simp_all add: sha512_sizedesc_def length_sha512_out sha512_Initialize_def sha512_Transform_standard)

end
