(* ===== verification/Ripemd160.thy ===== *)
theory Ripemd160
  imports HashStream
begin

unbundle bit_operations_syntax

text \<open>
  RIPEMD-160, \<open>src/crypto/ripemd160.cpp\<close>. The source writes two lines of 80 rounds out, one round of
  each in turn; the message word and the rotation of every round are the tables below, and round \<open>i\<close>
  passes as parameter \<open>j\<close> the register \<open>ripemd160_reg i j\<close>. The second part is the specification of
  the designers, with the word order as powers of a permutation; the transformation is shown to
  compute it, and the class is a \<open>hasher\<close> of that digest.
\<close>

section \<open>Operations\<close>

definition ripemd160_f1 :: "32 word \<Rightarrow> 32 word \<Rightarrow> 32 word \<Rightarrow> 32 word" where
  "ripemd160_f1 x y z = x XOR y XOR z"

definition ripemd160_f2 :: "32 word \<Rightarrow> 32 word \<Rightarrow> 32 word \<Rightarrow> 32 word" where
  "ripemd160_f2 x y z = (x AND y) OR (NOT x AND z)"

definition ripemd160_f3 :: "32 word \<Rightarrow> 32 word \<Rightarrow> 32 word \<Rightarrow> 32 word" where
  "ripemd160_f3 x y z = (x OR NOT y) XOR z"

definition ripemd160_f4 :: "32 word \<Rightarrow> 32 word \<Rightarrow> 32 word \<Rightarrow> 32 word" where
  "ripemd160_f4 x y z = (x AND z) OR (y AND NOT z)"

definition ripemd160_f5 :: "32 word \<Rightarrow> 32 word \<Rightarrow> 32 word \<Rightarrow> 32 word" where
  "ripemd160_f5 x y z = x XOR (y OR NOT z)"

definition ripemd160_Initialize :: "32 word list" where
  "ripemd160_Initialize = [0x67452301, 0xefcdab89, 0x98badcfe, 0x10325476, 0xc3d2e1f0]"

definition ripemd160_rol :: "32 word \<Rightarrow> nat \<Rightarrow> 32 word" where
  "ripemd160_rol x i = push_bit i x OR drop_bit (32 - i) x"

text \<open>The new values of the parameters \<open>a\<close> and \<open>c\<close>.\<close>

definition ripemd160_Round ::
  "32 word \<Rightarrow> 32 word \<Rightarrow> 32 word \<Rightarrow> 32 word \<Rightarrow> 32 word \<Rightarrow> 32 word \<Rightarrow> 32 word \<Rightarrow> 32 word \<Rightarrow> nat \<Rightarrow>
   32 word \<times> 32 word" where
  "ripemd160_Round a b c d e f x k r = (ripemd160_rol (a + f + x + k) r + e, ripemd160_rol c 10)"

text \<open>\<open>R11\<close> to \<open>R51\<close> and \<open>R12\<close> to \<open>R52\<close>, by the number of the group.\<close>

definition ripemd160_R1 ::
  "nat \<Rightarrow> 32 word \<Rightarrow> 32 word \<Rightarrow> 32 word \<Rightarrow> 32 word \<Rightarrow> 32 word \<Rightarrow> 32 word \<Rightarrow> nat \<Rightarrow> 32 word \<times> 32 word" where
  "ripemd160_R1 n a b c d e x r =
     (if n = 0 then ripemd160_Round a b c d e (ripemd160_f1 b c d) x 0 r
      else if n = 1 then ripemd160_Round a b c d e (ripemd160_f2 b c d) x 0x5a827999 r
      else if n = 2 then ripemd160_Round a b c d e (ripemd160_f3 b c d) x 0x6ed9eba1 r
      else if n = 3 then ripemd160_Round a b c d e (ripemd160_f4 b c d) x 0x8f1bbcdc r
      else ripemd160_Round a b c d e (ripemd160_f5 b c d) x 0xa953fd4e r)"

definition ripemd160_R2 ::
  "nat \<Rightarrow> 32 word \<Rightarrow> 32 word \<Rightarrow> 32 word \<Rightarrow> 32 word \<Rightarrow> 32 word \<Rightarrow> 32 word \<Rightarrow> nat \<Rightarrow> 32 word \<times> 32 word" where
  "ripemd160_R2 n a b c d e x r =
     (if n = 0 then ripemd160_Round a b c d e (ripemd160_f5 b c d) x 0x50a28be6 r
      else if n = 1 then ripemd160_Round a b c d e (ripemd160_f4 b c d) x 0x5c4dd124 r
      else if n = 2 then ripemd160_Round a b c d e (ripemd160_f3 b c d) x 0x6d703ef3 r
      else if n = 3 then ripemd160_Round a b c d e (ripemd160_f2 b c d) x 0x7a6d76e9 r
      else ripemd160_Round a b c d e (ripemd160_f1 b c d) x 0 r)"

definition ripemd160_w1 :: "nat list" where
  "ripemd160_w1 =
     [0, 1, 2, 3, 4, 5, 6, 7, 8, 9, 10, 11, 12, 13, 14, 15,
      7, 4, 13, 1, 10, 6, 15, 3, 12, 0, 9, 5, 2, 14, 11, 8,
      3, 10, 14, 4, 9, 15, 8, 1, 2, 7, 0, 6, 13, 11, 5, 12,
      1, 9, 11, 10, 0, 8, 12, 4, 13, 3, 7, 15, 14, 5, 6, 2,
      4, 0, 5, 9, 7, 12, 2, 10, 14, 1, 3, 8, 11, 6, 15, 13]"

definition ripemd160_w2 :: "nat list" where
  "ripemd160_w2 =
     [5, 14, 7, 0, 9, 2, 11, 4, 13, 6, 15, 8, 1, 10, 3, 12,
      6, 11, 3, 7, 0, 13, 5, 10, 14, 15, 8, 12, 4, 9, 1, 2,
      15, 5, 1, 3, 7, 14, 6, 9, 11, 8, 12, 2, 10, 0, 4, 13,
      8, 6, 4, 1, 3, 11, 15, 0, 5, 12, 2, 13, 9, 7, 10, 14,
      12, 15, 10, 4, 1, 5, 8, 7, 6, 2, 13, 14, 0, 3, 9, 11]"

definition ripemd160_s1 :: "nat list" where
  "ripemd160_s1 =
     [11, 14, 15, 12, 5, 8, 7, 9, 11, 13, 14, 15, 6, 7, 9, 8,
      7, 6, 8, 13, 11, 9, 7, 15, 7, 12, 15, 9, 11, 7, 13, 12,
      11, 13, 6, 7, 14, 9, 13, 15, 14, 8, 13, 6, 5, 12, 7, 5,
      11, 12, 14, 15, 14, 15, 9, 8, 9, 14, 5, 6, 8, 6, 5, 12,
      9, 15, 5, 11, 6, 8, 13, 12, 5, 12, 13, 14, 11, 8, 5, 6]"

definition ripemd160_s2 :: "nat list" where
  "ripemd160_s2 =
     [8, 9, 9, 11, 13, 15, 15, 5, 7, 7, 8, 11, 14, 14, 12, 6,
      9, 13, 15, 7, 12, 8, 9, 11, 7, 7, 12, 7, 6, 15, 13, 11,
      9, 7, 15, 11, 8, 6, 6, 14, 12, 13, 5, 14, 13, 13, 7, 5,
      15, 5, 8, 11, 14, 14, 6, 14, 6, 9, 12, 9, 12, 5, 15, 8,
      8, 5, 12, 9, 12, 5, 14, 6, 8, 13, 6, 5, 15, 13, 11, 11]"

definition ripemd160_reg :: "nat \<Rightarrow> nat \<Rightarrow> nat" where
  "ripemd160_reg i j = (j + 4 * i) mod 5"

text \<open>Round \<open>i\<close> of a line whose function is \<open>R\<close>, on its five registers.\<close>

definition ripemd160_line ::
  "(nat \<Rightarrow> 32 word \<Rightarrow> 32 word \<Rightarrow> 32 word \<Rightarrow> 32 word \<Rightarrow> 32 word \<Rightarrow> 32 word \<Rightarrow> nat \<Rightarrow> 32 word \<times> 32 word) \<Rightarrow>
   nat list \<Rightarrow> nat list \<Rightarrow> byte list \<Rightarrow> 32 word list \<Rightarrow> nat \<Rightarrow> 32 word list" where
  "ripemd160_line R ws rs chunk s i =
     (let p = (\<lambda>j. s ! ripemd160_reg i j) in
      (case R (i div 16) (p 0) (p 1) (p 2) (p 3) (p 4) (ReadLE32 chunk (4 * ws ! i)) (rs ! i) of
         (a, c) \<Rightarrow> s[ripemd160_reg i 0 := a, ripemd160_reg i 2 := c]))"

definition ripemd160_step :: "byte list \<Rightarrow> 32 word list \<times> 32 word list \<Rightarrow> nat \<Rightarrow> 32 word list \<times> 32 word list" where
  "ripemd160_step chunk st i =
     (case st of (l, r) \<Rightarrow>
        (ripemd160_line ripemd160_R1 ripemd160_w1 ripemd160_s1 chunk l i,
         ripemd160_line ripemd160_R2 ripemd160_w2 ripemd160_s2 chunk r i))"

definition ripemd160_Transform :: "32 word list \<Rightarrow> byte list \<Rightarrow> 32 word list" where
  "ripemd160_Transform s chunk =
     (case foldl (ripemd160_step chunk) (s, s) [0..<80] of
        (l, r) \<Rightarrow>
          [s ! 1 + l ! 2 + r ! 3, s ! 2 + l ! 3 + r ! 4, s ! 3 + l ! 4 + r ! 0, s ! 4 + l ! 0 + r ! 1, s ! 0 + l ! 1 + r ! 2])"

definition ripemd160_new :: "32 word hasher" where
  "ripemd160_new = \<lparr>hs_s = ripemd160_Initialize, hs_buf = replicate 64 0, hs_bytes = 0\<rparr>"

definition ripemd160_Write :: "32 word hasher \<Rightarrow> byte list \<Rightarrow> 32 word hasher" where
  "ripemd160_Write = md_Write 64 ripemd160_Transform"

definition ripemd160_sizedesc :: "nat \<Rightarrow> byte list" where
  "ripemd160_sizedesc bytes = WriteLE64 (push_bit 3 (of_nat bytes))"

definition ripemd160_out :: "32 word list \<Rightarrow> byte list" where
  "ripemd160_out s = concat (map (\<lambda>i. WriteLE32 (s ! i)) [0..<5])"

definition ripemd160_Finalize :: "32 word hasher \<Rightarrow> byte list" where
  "ripemd160_Finalize = md_Finalize 64 8 ripemd160_Transform ripemd160_sizedesc ripemd160_out"

section \<open>The specification\<close>

text \<open>The permutations of the message words: the left line starts with the identity, the right line with \<open>\<pi>\<close>.\<close>

definition rmd_rho :: "nat \<Rightarrow> nat" where
  "rmd_rho i = [7, 4, 13, 1, 10, 6, 15, 3, 12, 0, 9, 5, 2, 14, 11, 8] ! i"

definition rmd_pi :: "nat \<Rightarrow> nat" where
  "rmd_pi i = (9 * i + 5) mod 16"

definition rmd_r :: "nat \<Rightarrow> nat" where
  "rmd_r j = (rmd_rho ^^ (j div 16)) (j mod 16)"

definition rmd_r' :: "nat \<Rightarrow> nat" where
  "rmd_r' j = (rmd_rho ^^ (j div 16)) (rmd_pi (j mod 16))"

definition rmd_f :: "nat \<Rightarrow> 32 word \<Rightarrow> 32 word \<Rightarrow> 32 word \<Rightarrow> 32 word" where
  "rmd_f j x y z =
     (if j < 16 then x XOR y XOR z
      else if j < 32 then (x AND y) OR (NOT x AND z)
      else if j < 48 then (x OR NOT y) XOR z
      else if j < 64 then (x AND z) OR (y AND NOT z)
      else x XOR (y OR NOT z))"

definition rmd_K :: "nat \<Rightarrow> 32 word" where
  "rmd_K j = [0, 0x5a827999, 0x6ed9eba1, 0x8f1bbcdc, 0xa953fd4e] ! (j div 16)"

definition rmd_K' :: "nat \<Rightarrow> 32 word" where
  "rmd_K' j = [0x50a28be6, 0x5c4dd124, 0x6d703ef3, 0x7a6d76e9, 0] ! (j div 16)"

fun rmd_line ::
  "(nat \<Rightarrow> 32 word \<Rightarrow> 32 word \<Rightarrow> 32 word \<Rightarrow> 32 word) \<Rightarrow> (nat \<Rightarrow> 32 word) \<Rightarrow> (nat \<Rightarrow> nat) \<Rightarrow> (nat \<Rightarrow> nat) \<Rightarrow>
   byte list \<Rightarrow> 32 word list \<Rightarrow> nat \<Rightarrow> 32 word list" where
  "rmd_line f K r s M H 0 = H"
| "rmd_line f K r s M H (Suc j) =
     (case rmd_line f K r s M H j of
        [a, b, c, d, e] \<Rightarrow>
          [e, word_rotl (s j) (a + f j b c d + ReadLE32 M (4 * r j) + K j) + e, b, word_rotl 10 c, d]
      | _ \<Rightarrow> [])"

definition rmd_compress :: "32 word list \<Rightarrow> byte list \<Rightarrow> 32 word list" where
  "rmd_compress H M =
     (case (H, rmd_line rmd_f rmd_K rmd_r (\<lambda>j. ripemd160_s1 ! j) M H 80,
            rmd_line (\<lambda>j. rmd_f (79 - j)) rmd_K' rmd_r' (\<lambda>j. ripemd160_s2 ! j) M H 80) of
        ([h0, h1, h2, h3, h4], [a, b, c, d, e], [a', b', c', d', e']) \<Rightarrow>
          [h1 + c + d', h2 + d + e', h3 + e + a', h4 + a + b', h0 + b + c']
      | _ \<Rightarrow> [])"

definition ripemd160 :: "byte list \<Rightarrow> byte list" where
  "ripemd160 = md_digest 64 8 rmd_compress ripemd160_sizedesc ripemd160_out ripemd160_Initialize"

section \<open>The code meets the specification\<close>

lemma ripemd160_tables:
  assumes "j < 80"
  shows "ripemd160_w1 ! j = rmd_r j" "ripemd160_w2 ! j = rmd_r' j"
    "0 < ripemd160_s1 ! j" "ripemd160_s1 ! j < 32" "0 < ripemd160_s2 ! j" "ripemd160_s2 ! j < 32"
proof -
  have "list_all (\<lambda>j. ripemd160_w1 ! j = rmd_r j \<and> ripemd160_w2 ! j = rmd_r' j) [0..<80]"
    by code_simp
  moreover have "list_all (\<lambda>k. 0 < k \<and> k < 32) ripemd160_s1" "list_all (\<lambda>k. 0 < k \<and> k < 32) ripemd160_s2"
    "length ripemd160_s1 = 80" "length ripemd160_s2 = 80"
    by code_simp+
  ultimately show "ripemd160_w1 ! j = rmd_r j" "ripemd160_w2 ! j = rmd_r' j"
    "0 < ripemd160_s1 ! j" "ripemd160_s1 ! j < 32" "0 < ripemd160_s2 ! j" "ripemd160_s2 ! j < 32"
    using assms by (simp_all add: list_all_length)
qed

lemma ripemd160_rol: "0 < k \<Longrightarrow> k < 32 \<Longrightarrow> ripemd160_rol x k = word_rotl k x"
  unfolding ripemd160_rol_def by (rule or_shifts_rotl) simp_all

lemma div16_cases:
  assumes "j < 80"
  obtains "j < 16" "j div 16 = 0" | "16 \<le> j" "j < 32" "j div 16 = 1" | "32 \<le> j" "j < 48" "j div 16 = 2"
  | "48 \<le> j" "j < 64" "j div 16 = 3" | "64 \<le> j" "j div 16 = (4 :: nat)"
proof -
  have "j < 16 \<or> 16 \<le> j \<and> j < 32 \<or> 32 \<le> j \<and> j < 48 \<or> 48 \<le> j \<and> j < 64 \<or> 64 \<le> j"
    by linarith
  then show ?thesis
    using that assms by (auto simp: div_nat_eqI)
qed

lemma ripemd160_R1_spec:
  "j < 80 \<Longrightarrow> ripemd160_R1 (j div 16) a b c d e x r = ripemd160_Round a b c d e (rmd_f j b c d) x (rmd_K j) r"
  by (erule div16_cases)
     (simp_all add: ripemd160_R1_def rmd_f_def rmd_K_def ripemd160_f1_def ripemd160_f2_def ripemd160_f3_def
       ripemd160_f4_def ripemd160_f5_def)

lemma ripemd160_R2_spec:
  "j < 80 \<Longrightarrow> ripemd160_R2 (j div 16) a b c d e x r = ripemd160_Round a b c d e (rmd_f (79 - j) b c d) x (rmd_K' j) r"
  by (erule div16_cases)
     (auto simp: ripemd160_R2_def rmd_f_def rmd_K'_def ripemd160_f1_def ripemd160_f2_def ripemd160_f3_def
       ripemd160_f4_def ripemd160_f5_def)

lemma ripemd160_reg_less [simp]: "ripemd160_reg i j < 5"
  by (simp add: ripemd160_reg_def)

lemma ripemd160_reg_eq: "j < 5 \<Longrightarrow> k < 5 \<Longrightarrow> ripemd160_reg i j = ripemd160_reg i k \<longleftrightarrow> j = k"
proof -
  assume less: "j < 5" "k < 5"
  define q where "q = 4 * i mod 5"
  have q: "q < 5"
    by (simp add: q_def)
  have "(a + 4 * i) mod 5 = (if a + q < 5 then a + q else a + q - 5)" if "a < 5" for a
  proof -
    have "(a + 4 * i) mod 5 = (a + q) mod 5"
      by (simp add: q_def mod_add_right_eq)
    then show ?thesis
      using that q by (simp add: mod_if)
  qed
  then show ?thesis
    using less q by (auto simp: ripemd160_reg_def split: if_splits)
qed

lemma ripemd160_reg_Suc: "ripemd160_reg (Suc i) 0 = ripemd160_reg i 4" "ripemd160_reg (Suc i) (Suc j) = ripemd160_reg i j"
proof -
  show "ripemd160_reg (Suc i) 0 = ripemd160_reg i 4"
    by (simp add: ripemd160_reg_def)
  have "Suc j + 4 * Suc i = (j + 4 * i) + 5"
    by simp
  then show "ripemd160_reg (Suc i) (Suc j) = ripemd160_reg i j"
    unfolding ripemd160_reg_def by (simp only: mod_add_self2)
qed

lemma ripemd160_reg_shift:
  "ripemd160_reg (Suc i) (Suc 0) = ripemd160_reg i 0" "ripemd160_reg (Suc i) 2 = ripemd160_reg i 1"
  "ripemd160_reg (Suc i) 3 = ripemd160_reg i 2" "ripemd160_reg (Suc i) 4 = ripemd160_reg i 3"
  using ripemd160_reg_Suc(2) [of i 0] ripemd160_reg_Suc(2) [of i 1] ripemd160_reg_Suc(2) [of i 2]
    ripemd160_reg_Suc(2) [of i 3]
  by (simp_all add: numeral_eq_Suc)

definition ripemd160_params :: "nat \<Rightarrow> 32 word list \<Rightarrow> 32 word list" where
  "ripemd160_params i s = map (\<lambda>j. s ! ripemd160_reg i j) [0, 1, 2, 3, 4]"

lemma ripemd160_list5: "length s = 5 \<Longrightarrow> map ((!) s) [0, 1, 2, 3, 4] = s"
  by (auto simp: numeral_eq_Suc length_Suc_conv)

lemma ripemd160_params_Suc:
  assumes "length s = 5"
  shows "ripemd160_params (Suc i) (s[ripemd160_reg i 0 := a, ripemd160_reg i 2 := c]) =
    [s ! ripemd160_reg i 4, a, s ! ripemd160_reg i 1, c, s ! ripemd160_reg i 3]"
  using ripemd160_reg_Suc(1) [of i] assms ripemd160_reg_less [of i]
  by (simp add: ripemd160_params_def ripemd160_reg_shift ripemd160_reg_eq)

text \<open>A line of the code is a line of the specification, whichever line it is.\<close>

lemma ripemd160_line_spec:
  assumes "length H = 5"
    and R: "\<And>j a b c d e x r. j < 80 \<Longrightarrow> R (j div 16) a b c d e x r = ripemd160_Round a b c d e (f j b c d) x (K j) r"
    and tables: "\<And>j. j < 80 \<Longrightarrow> ws ! j = r j" "\<And>j. j < 80 \<Longrightarrow> 0 < rs ! j" "\<And>j. j < 80 \<Longrightarrow> rs ! j < 32"
  shows "n \<le> 80 \<Longrightarrow> length (foldl (ripemd160_line R ws rs M) H [0..<n]) = 5 \<and>
    ripemd160_params n (foldl (ripemd160_line R ws rs M) H [0..<n]) = rmd_line f K r (\<lambda>j. rs ! j) M H n"
proof (induction n)
  case 0
  show ?case
    using ripemd160_list5 [OF assms(1)] assms(1) by (simp add: ripemd160_params_def ripemd160_reg_def)
next
  case (Suc n)
  let ?s = "foldl (ripemd160_line R ws rs M) H [0..<n]"
  let ?p = "\<lambda>j. ?s ! ripemd160_reg n j"
  have n: "n < 80" and IH: "length ?s = 5" "ripemd160_params n ?s = rmd_line f K r (\<lambda>j. rs ! j) M H n"
    using Suc by simp_all
  obtain a c where round: "ripemd160_Round (?p 0) (?p 1) (?p 2) (?p 3) (?p 4) (f n (?p 1) (?p 2) (?p 3))
      (ReadLE32 M (4 * r n)) (K n) (rs ! n) = (a, c)"
    by fastforce
  have step: "foldl (ripemd160_line R ws rs M) H [0..<Suc n] = ?s[ripemd160_reg n 0 := a, ripemd160_reg n 2 := c]"
    using round R [OF n] tables(1) [OF n] by (simp add: ripemd160_line_def Let_def)
  have line: "rmd_line f K r (\<lambda>j. rs ! j) M H n = [?p 0, ?p 1, ?p 2, ?p 3, ?p 4]"
    using IH(2) by (simp add: ripemd160_params_def)
  have "[?p 4, a, ?p 1, c, ?p 3] = rmd_line f K r (\<lambda>j. rs ! j) M H (Suc n)"
    using round tables(2,3) [OF n] by (auto simp: line ripemd160_Round_def ripemd160_rol)
  then show ?case
    unfolding step ripemd160_params_Suc [OF IH(1)] using IH(1) by simp
qed

lemma ripemd160_fold_pair:
  "foldl (ripemd160_step M) (l, r) is =
    (foldl (ripemd160_line ripemd160_R1 ripemd160_w1 ripemd160_s1 M) l is,
     foldl (ripemd160_line ripemd160_R2 ripemd160_w2 ripemd160_s2 M) r is)"
  by (induction "is" arbitrary: l r) (simp_all add: ripemd160_step_def)

lemma list5_eta: "length s = 5 \<Longrightarrow> s = [s ! 0, s ! 1, s ! 2, s ! 3, s ! 4]"
  using ripemd160_list5 [of s] by simp

lemma ripemd160_Transform_standard:
  assumes "length s = 5"
  shows "ripemd160_Transform s chunk = rmd_compress s chunk" and "length (rmd_compress s chunk) = 5"
proof -
  let ?l = "foldl (ripemd160_line ripemd160_R1 ripemd160_w1 ripemd160_s1 chunk) s [0..<80]"
  let ?r = "foldl (ripemd160_line ripemd160_R2 ripemd160_w2 ripemd160_s2 chunk) s [0..<80]"
  have params: "ripemd160_params 80 s' = s'" if "length s' = 5" for s'
    using ripemd160_list5 [OF that] by (simp add: ripemd160_params_def ripemd160_reg_def)
  have l: "length ?l = 5" "ripemd160_params 80 ?l = rmd_line rmd_f rmd_K rmd_r (\<lambda>j. ripemd160_s1 ! j) chunk s 80"
    using ripemd160_line_spec [where R = ripemd160_R1 and f = rmd_f and K = rmd_K and r = rmd_r,
        OF assms ripemd160_R1_spec ripemd160_tables(1,3,4), of 80 chunk] by simp_all
  have r: "length ?r = 5"
    "ripemd160_params 80 ?r = rmd_line (\<lambda>j. rmd_f (79 - j)) rmd_K' rmd_r' (\<lambda>j. ripemd160_s2 ! j) chunk s 80"
    using ripemd160_line_spec [where R = ripemd160_R2 and f = "\<lambda>j. rmd_f (79 - j)" and K = rmd_K' and r = rmd_r',
        OF assms ripemd160_R2_spec ripemd160_tables(2,5,6), of 80 chunk] by simp_all
  have "rmd_compress s chunk = (case (s, ?l, ?r) of
      ([h0, h1, h2, h3, h4], [a, b, c, d, e], [a', b', c', d', e']) \<Rightarrow>
        [h1 + c + d', h2 + d + e', h3 + e + a', h4 + a + b', h0 + b + c'] | _ \<Rightarrow> [])"
    unfolding rmd_compress_def using l r params by simp
  also have "\<dots> = [s ! 1 + ?l ! 2 + ?r ! 3, s ! 2 + ?l ! 3 + ?r ! 4, s ! 3 + ?l ! 4 + ?r ! 0,
      s ! 4 + ?l ! 0 + ?r ! 1, s ! 0 + ?l ! 1 + ?r ! 2]"
    by (subst list5_eta [OF assms], subst list5_eta [OF l(1)], subst list5_eta [OF r(1)]) simp
  finally have "rmd_compress s chunk = ripemd160_Transform s chunk"
    by (simp add: ripemd160_Transform_def ripemd160_fold_pair)
  then show "ripemd160_Transform s chunk = rmd_compress s chunk" "length (rmd_compress s chunk) = 5"
    by (simp_all add: ripemd160_Transform_def split: prod.split)
qed

lemma length_ripemd160_out: "length (ripemd160_out s) = 20"
  by (simp add: ripemd160_out_def upt_rec)

interpretation ripemd160: hasher ripemd160_new ripemd160_Write ripemd160_Finalize
    "md_rep 64 ripemd160_Transform ripemd160_Initialize" ripemd160 20
  unfolding ripemd160_new_def ripemd160_Write_def ripemd160_Finalize_def ripemd160_def
  by (rule md_hasher [where k = 5])
     (simp_all add: ripemd160_sizedesc_def length_ripemd160_out ripemd160_Initialize_def ripemd160_Transform_standard)

end
