(* ===== verification/HashFuns.thy ===== *)
theory HashFuns
  imports Sha1 Sha256 Sha512 Ripemd160 InterpreterProps
begin

unbundle bit_operations_syntax

text \<open>
  The hash functions the node uses, built from the classes of \<open>src/crypto\<close>: \<open>CHash256\<close> and \<open>CHash160\<close>
  of \<open>src/hash.h\<close>, HMAC, the deterministic generator of RFC 6979, \<open>MurmurHash3\<close> and the key
  derivation hash of \<open>src/hash.cpp\<close>. The composed classes are hashers again, of the composed digest.
\<close>

section \<open>The hashers of \<open>hash.h\<close>\<close>

definition sha256_Reset :: "32 word hasher \<Rightarrow> 32 word hasher" where
  "sha256_Reset = md_Reset sha256_Initialize"

definition sha512_Reset :: "64 word hasher \<Rightarrow> 64 word hasher" where
  "sha512_Reset = md_Reset sha512_Initialize"

definition sha1_Reset :: "32 word hasher \<Rightarrow> 32 word hasher" where
  "sha1_Reset = md_Reset sha1_Initialize"

definition ripemd160_Reset :: "32 word hasher \<Rightarrow> 32 word hasher" where
  "ripemd160_Reset = md_Reset ripemd160_Initialize"

definition Hash256_Finalize :: "32 word hasher \<Rightarrow> byte list" where
  "Hash256_Finalize sha =
     (let fin = md_finish 64 8 sha256_Transform sha256_sizedesc sha; buf = sha256_out (hs_s fin)
      in sha256_Finalize (sha256_Write (sha256_Reset fin) buf))"

definition Hash160_Finalize :: "32 word hasher \<Rightarrow> byte list" where
  "Hash160_Finalize sha = ripemd160_Finalize (ripemd160_Write ripemd160_new (sha256_Finalize sha))"

text \<open>\<open>Hash(pbegin, pend)\<close> and \<open>Hash160(pbegin, pend)\<close>, and the hash of several pieces.\<close>

definition Hash256 :: "byte list list \<Rightarrow> byte list" where
  "Hash256 pieces = Hash256_Finalize (foldl sha256_Write sha256_new pieces)"

definition Hash160 :: "byte list \<Rightarrow> byte list" where
  "Hash160 data = Hash160_Finalize (sha256_Write sha256_new data)"

lemma sha256_digest: "sha256 m = md_digest 64 8 sha256_Transform sha256_sizedesc sha256_out sha256_Initialize m"
proof -
  have "md_rep 64 sha256_Transform sha256_Initialize (sha256_Write sha256_new m) ([] @ m)"
    by (rule sha256.rep_write [OF sha256.rep_init])
  then show ?thesis
    using sha256.once [of m] md_Finalize_digest [of 8 64 sha256_sizedesc sha256_Transform sha256_Initialize "sha256_Write sha256_new m" m]
    by (simp add: sha256_Finalize_def sha256_sizedesc_def)
qed

interpretation hash256: hasher sha256_new sha256_Write Hash256_Finalize
    "md_rep 64 sha256_Transform sha256_Initialize" "\<lambda>m. sha256 (sha256 m)" 32
proof
  fix h :: "32 word hasher" and m
  assume rep: "md_rep 64 sha256_Transform sha256_Initialize h m"
  let ?fin = "md_finish 64 8 sha256_Transform sha256_sizedesc h"
  have fin: "md_rep 64 sha256_Transform sha256_Initialize ?fin (md_pad 64 8 sha256_sizedesc m)"
    by (rule md_finish_rep [OF _ _ rep]) (simp_all add: sha256_sizedesc_def)
  have out: "sha256_out (hs_s ?fin) = sha256 m"
    using sha256.rep_finalize [OF rep] by (simp add: sha256_Finalize_def md_Finalize_def)
  have "md_rep 64 sha256_Transform sha256_Initialize (sha256_Write (sha256_Reset ?fin) (sha256 m)) ([] @ sha256 m)"
    unfolding sha256_Reset_def using md_rep_Reset [OF _ fin] by (intro sha256.rep_write) simp
  then show "Hash256_Finalize h = sha256 (sha256 m)"
    unfolding Hash256_Finalize_def Let_def out using sha256.rep_finalize by simp
qed (simp_all add: sha256.rep_init sha256.rep_write sha256.length_digest)

interpretation hash160: hasher sha256_new sha256_Write Hash160_Finalize
    "md_rep 64 sha256_Transform sha256_Initialize" "\<lambda>m. ripemd160 (sha256 m)" 20
  by unfold_locales
    (simp_all add: sha256.rep_init sha256.rep_write Hash160_Finalize_def sha256.rep_finalize ripemd160.once
      ripemd160.length_digest)

text \<open>The hash functions of the node, as the interpreter takes them.\<close>

definition node_hash :: hash_funs where
  "node_hash =
     \<lparr>CRIPEMD160 = (\<lambda>x. ripemd160_Finalize (ripemd160_Write ripemd160_new x)),
      CSHA1 = (\<lambda>x. sha1_Finalize (sha1_Write sha1_new x)),
      CSHA256 = (\<lambda>x. sha256_Finalize (sha256_Write sha256_new x))\<rparr>"

lemma node_hash_digests:
  "CRIPEMD160 node_hash = ripemd160" "CSHA1 node_hash = sha1" "CSHA256 node_hash = sha256"
  by (simp_all add: node_hash_def fun_eq_iff ripemd160.once sha1.once sha256.once)

lemma hash_sizes_node: "hash_sizes node_hash"
  by (simp add: hash_sizes_def node_hash_digests ripemd160.length_digest sha1.length_digest sha256.length_digest)

lemma CHash_node: "CHash256 node_hash m = Hash256 [m]" "CHash160 node_hash m = Hash160 m"
  using hash256.stream [of "[m]"] hash160.once [of m]
  by (simp_all add: CHash256_def CHash160_def node_hash_digests Hash256_def Hash160_def)

section \<open>HMAC\<close>

definition CHMAC_SHA256 :: "byte list \<Rightarrow> 32 word hasher \<times> 32 word hasher" where
  "CHMAC_SHA256 = hmac_init sha256_new sha256_Write sha256_Finalize 64 32"

definition hmac_sha256_Write ::
  "32 word hasher \<times> 32 word hasher \<Rightarrow> byte list \<Rightarrow> 32 word hasher \<times> 32 word hasher" where
  "hmac_sha256_Write = hmac_write sha256_Write"

definition hmac_sha256_Finalize :: "32 word hasher \<times> 32 word hasher \<Rightarrow> byte list" where
  "hmac_sha256_Finalize = hmac_finalize sha256_Write sha256_Finalize"

definition CHMAC_SHA512 :: "byte list \<Rightarrow> 64 word hasher \<times> 64 word hasher" where
  "CHMAC_SHA512 = hmac_init sha512_new sha512_Write sha512_Finalize 128 64"

definition hmac_sha512_Write ::
  "64 word hasher \<times> 64 word hasher \<Rightarrow> byte list \<Rightarrow> 64 word hasher \<times> 64 word hasher" where
  "hmac_sha512_Write = hmac_write sha512_Write"

definition hmac_sha512_Finalize :: "64 word hasher \<times> 64 word hasher \<Rightarrow> byte list" where
  "hmac_sha512_Finalize = hmac_finalize sha512_Write sha512_Finalize"

definition hmac_sha256 :: "byte list \<Rightarrow> byte list \<Rightarrow> byte list" where
  "hmac_sha256 = hmac_spec sha256 64 32"

definition hmac_sha512 :: "byte list \<Rightarrow> byte list \<Rightarrow> byte list" where
  "hmac_sha512 = hmac_spec sha512 128 64"

interpretation hmac256: hasher "CHMAC_SHA256 key" hmac_sha256_Write hmac_sha256_Finalize
    "\<lambda>h m. sha256.hmac_rep key h m 64" "hmac_sha256 key" 32 for key
  unfolding CHMAC_SHA256_def hmac_sha256_Write_def hmac_sha256_Finalize_def hmac_sha256_def by (rule sha256.hmac_hasher)

interpretation hmac512: hasher "CHMAC_SHA512 key" hmac_sha512_Write hmac_sha512_Finalize
    "\<lambda>h m. sha512.hmac_rep key h m 128" "hmac_sha512 key" 64 for key
  unfolding CHMAC_SHA512_def hmac_sha512_Write_def hmac_sha512_Finalize_def hmac_sha512_def by (rule sha512.hmac_hasher)

text \<open>\<open>CHMAC_SHA256(key, keylen).Write(a).Write(b)...Finalize(out)\<close>.\<close>

definition hmac_sha256_of :: "byte list \<Rightarrow> byte list list \<Rightarrow> byte list" where
  "hmac_sha256_of key pieces = hmac_sha256_Finalize (foldl hmac_sha256_Write (CHMAC_SHA256 key) pieces)"

lemma hmac_sha256_of_spec: "hmac_sha256_of key pieces = hmac_sha256 key (concat pieces)"
  unfolding hmac_sha256_of_def by (rule hmac256.stream)

section \<open>The generator of RFC 6979\<close>

record rfc6979 =
  rfc_V :: "byte list"
  rfc_K :: "byte list"
  rfc_retry :: bool

definition RFC6979_HMAC_SHA256 :: "byte list \<Rightarrow> byte list \<Rightarrow> rfc6979" where
  "RFC6979_HMAC_SHA256 key msg =
     (let V = replicate 32 1; K = replicate 32 0;
          K = hmac_sha256_of K [V, [0], key, msg];
          V = hmac_sha256_of K [V];
          K = hmac_sha256_of K [V, [1], key, msg];
          V = hmac_sha256_of K [V]
      in \<lparr>rfc_V = V, rfc_K = K, rfc_retry = False\<rparr>)"

text \<open>The loop of \<open>Generate\<close>: the bytes it writes and the last value of \<open>V\<close>.\<close>

function generate_loop :: "byte list \<Rightarrow> byte list \<Rightarrow> nat \<Rightarrow> byte list \<times> byte list" where
  "generate_loop K V outputlen =
     (if 0 < outputlen then
        (let V' = hmac_sha256_of K [V]; len = min outputlen 32 in
         (case generate_loop K V' (outputlen - len) of (rest, V'') \<Rightarrow> (take len V' @ rest, V'')))
      else ([], V))"
  by pat_completeness auto
termination
  by (relation "measure (\<lambda>(K, V, n). n)") auto

declare generate_loop.simps [simp del]

definition Generate :: "rfc6979 \<Rightarrow> nat \<Rightarrow> byte list \<times> rfc6979" where
  "Generate g outputlen =
     (let K = (if rfc_retry g then hmac_sha256_of (rfc_K g) [rfc_V g, [0]] else rfc_K g);
          V = (if rfc_retry g then hmac_sha256_of K [rfc_V g] else rfc_V g)
      in (case generate_loop K V outputlen of
            (output, V') \<Rightarrow> (output, \<lparr>rfc_V = V', rfc_K = K, rfc_retry = True\<rparr>)))"

text \<open>Section 3.2 of the RFC: the blocks \<open>V = HMAC_K(V)\<close>, of which the output is the beginning.\<close>

definition drbg_block :: "byte list \<Rightarrow> byte list \<Rightarrow> nat \<Rightarrow> byte list" where
  "drbg_block K V i = (hmac_sha256 K ^^ Suc i) V"

definition drbg_seed :: "byte list \<Rightarrow> byte list \<Rightarrow> byte list \<times> byte list" where
  "drbg_seed key msg =
     (let K1 = hmac_sha256 (replicate 32 0) (replicate 32 1 @ [0] @ key @ msg);
          V1 = hmac_sha256 K1 (replicate 32 1);
          K2 = hmac_sha256 K1 (V1 @ [1] @ key @ msg)
      in (K2, hmac_sha256 K2 V1))"

lemma drbg_seed: "RFC6979_HMAC_SHA256 key msg = \<lparr>rfc_V = snd (drbg_seed key msg), rfc_K = fst (drbg_seed key msg), rfc_retry = False\<rparr>"
  by (simp add: RFC6979_HMAC_SHA256_def drbg_seed_def hmac_sha256_of_spec Let_def)

lemma length_drbg_block [simp]: "length (drbg_block K V i) = 32"
  by (simp add: drbg_block_def hmac256.length_digest)

lemma drbg_block_shift: "drbg_block K (hmac_sha256 K V) i = drbg_block K V (Suc i)"
  by (simp add: drbg_block_def funpow_swap1)

lemma generate_loop_blocks:
  "n \<le> 32 * k \<Longrightarrow> fst (generate_loop K V n) = take n (concat (map (drbg_block K V) [0..<k]))"
proof (induction k arbitrary: V n)
  case 0
  then show ?case
    by (simp add: generate_loop.simps)
next
  case (Suc k)
  have first: "hmac_sha256 K V = drbg_block K V 0"
    by (simp add: drbg_block_def)
  have blocks: "map (drbg_block K V) [0..<Suc k] = drbg_block K V 0 # map (drbg_block K (drbg_block K V 0)) [0..<k]"
    unfolding map_upt_Suc first [symmetric] drbg_block_shift by simp
  show ?case
  proof (cases "n = 0")
    case False
    have "fst (generate_loop K V n) =
        take (min n 32) (drbg_block K V 0) @ fst (generate_loop K (drbg_block K V 0) (n - min n 32))"
      using False by (subst generate_loop.simps)
        (simp add: Let_def hmac_sha256_of_spec first split: prod.split)
    also have "\<dots> = take n (drbg_block K V 0) @ take (n - 32) (concat (map (drbg_block K (drbg_block K V 0)) [0..<k]))"
      using Suc.IH [of "n - 32" "drbg_block K V 0"] Suc.prems by (cases "n \<le> 32") (simp_all add: generate_loop.simps min_def)
    finally show ?thesis
      unfolding blocks by simp
  qed (simp add: generate_loop.simps)
qed

section \<open>MurmurHash3\<close>

definition ROTL32 :: "32 word \<Rightarrow> nat \<Rightarrow> 32 word" where
  "ROTL32 x r = push_bit r x OR drop_bit (32 - r) x"

definition murmur_k :: "32 word \<Rightarrow> 32 word" where
  "murmur_k k1 = ROTL32 (k1 * 0xcc9e2d51) 15 * 0x1b873593"

text \<open>The loop over the blocks, a little-endian machine reading them as words.\<close>

definition murmur_block :: "byte list \<Rightarrow> 32 word \<Rightarrow> nat \<Rightarrow> 32 word" where
  "murmur_block data h1 i = ROTL32 (h1 XOR murmur_k (ReadLE32 data (4 * i))) 13 * 5 + 0xe6546b64"

definition murmur_tail :: "byte list \<Rightarrow> 32 word \<Rightarrow> 32 word" where
  "murmur_tail tail h1 =
     (let k1 = (if length tail = 3 then push_bit 16 (ucast (tail ! 2)) else 0) XOR
               (if 2 \<le> length tail then push_bit 8 (ucast (tail ! 1)) else 0) XOR
               (if 1 \<le> length tail then ucast (tail ! 0) else 0)
      in if 1 \<le> length tail then h1 XOR murmur_k k1 else h1)"

definition murmur_fmix :: "32 word \<Rightarrow> 32 word" where
  "murmur_fmix h1 =
     (let h1 = (h1 XOR drop_bit 16 h1) * 0x85ebca6b;
          h1 = (h1 XOR drop_bit 13 h1) * 0xc2b2ae35
      in h1 XOR drop_bit 16 h1)"

definition MurmurHash3 :: "32 word \<Rightarrow> byte list \<Rightarrow> 32 word" where
  "MurmurHash3 nHashSeed data =
     (let nblocks = length data div 4;
          h1 = foldl (murmur_block data) nHashSeed [0..<nblocks];
          h1 = murmur_tail (drop (4 * nblocks) data) h1
      in murmur_fmix (h1 XOR of_nat (length data)))"

section \<open>The hash of key derivation\<close>

definition BIP32Hash :: "byte list \<Rightarrow> 32 word \<Rightarrow> byte \<Rightarrow> byte list \<Rightarrow> byte list" where
  "BIP32Hash chainCode nChild header data =
     (let num = [ucast (drop_bit 24 nChild AND 0xff), ucast (drop_bit 16 nChild AND 0xff),
                 ucast (drop_bit 8 nChild AND 0xff), ucast (nChild AND 0xff)]
      in hmac_sha512_Finalize (foldl hmac_sha512_Write (CHMAC_SHA512 chainCode) [[header], data, num]))"

lemma BIP32Hash_spec: "BIP32Hash chainCode nChild header data = hmac_sha512 chainCode (header # data @ WriteBE32 nChild)"
proof -
  have ff: "(0xff :: 32 word) = mask 8"
    by (simp add: mask_eq_exp_minus_1)
  have "(ucast (x AND 0xff) :: byte) = ucast x" for x :: "32 word"
    unfolding ff by (auto intro!: bit_word_eqI simp: bit_simps)
  then show ?thesis
    by (simp add: BIP32Hash_def hmac512.stream [simplified] WriteBE32_def Let_def del: foldl.simps)
qed

section \<open>The quark hash\<close>

text \<open>
  \<open>HashQuark\<close> of \<open>src/hash.h\<close>: nine 512-bit hashes in a row, three of them chosen by a bit of the
  previous one. The hash functions are those of the vendored sphlib, arguments here.
\<close>

record sph_funs =
  sph_blake512 :: "byte list \<Rightarrow> byte list"
  sph_bmw512 :: "byte list \<Rightarrow> byte list"
  sph_groestl512 :: "byte list \<Rightarrow> byte list"
  sph_jh512 :: "byte list \<Rightarrow> byte list"
  sph_keccak512 :: "byte list \<Rightarrow> byte list"
  sph_skein512 :: "byte list \<Rightarrow> byte list"

definition HashQuark :: "sph_funs \<Rightarrow> byte list \<Rightarrow> byte list" where
  "HashQuark S data =
     (let bit_set = (\<lambda>h. (h ! 0) AND 8 \<noteq> (0 :: byte));
          h0 = sph_blake512 S data;
          h1 = sph_bmw512 S h0;
          h2 = (if bit_set h1 then sph_groestl512 S h1 else sph_skein512 S h1);
          h3 = sph_groestl512 S h2;
          h4 = sph_jh512 S h3;
          h5 = (if bit_set h4 then sph_blake512 S h4 else sph_bmw512 S h4);
          h6 = sph_keccak512 S h5;
          h7 = sph_skein512 S h6;
          h8 = (if bit_set h7 then sph_keccak512 S h7 else sph_jh512 S h7)
      in take 32 h8)"

end
