(* ===== verification/HashSpec.thy ===== *)
theory HashSpec
  imports HashFuns
begin

unbundle bit_operations_syntax

text \<open>
  Properties of the hash functions: each class computes the standard's digest of what was written,
  in whatever pieces; HMAC is that of RFC 2104; the nonce generator is that of RFC 6979.
\<close>

section \<open>Digests\<close>


text \<open>Digests have the documented sizes, so the hypothesis on hash functions of the script properties holds
  for the node's own.\<close>

theorem digest_sizes:
  "hash_sizes node_hash \<and> length (sha512 m) = 64 \<and> length (Hash256 pieces) = 32 \<and> length (Hash160 m) = 20"
  using hash_sizes_node sha512.length_digest hash256.length_digest hash160.length_digest
    hash256.stream [of pieces] hash160.once [of m]
  by (simp add: Hash256_def Hash160_def)

text \<open>A hasher that is reset, in whatever state, starts a new message.\<close>

lemma hash_reset:
  "md_rep 64 sha256_Transform sha256_Initialize h m \<Longrightarrow>
    sha256_Finalize (foldl sha256_Write (sha256_Reset h) pieces) = sha256 (concat pieces)"
  using sha256.rep_finalize [OF sha256.rep_stream [OF md_rep_Reset]] by (simp add: sha256_Reset_def)

section \<open>HMAC and the nonce generator\<close>

text \<open>The two HMAC classes, fed in any pieces, compute RFC 2104 over their hash: keys longer than a block are
  hashed first, and turning the outer pad into the inner one by a single exclusive or is sound.\<close>

theorem hmac_rfc2104:
  "hmac_sha256_Finalize (foldl hmac_sha256_Write (CHMAC_SHA256 key) pieces) = hmac_spec sha256 64 32 key (concat pieces) \<and>
   hmac_sha512_Finalize (foldl hmac_sha512_Write (CHMAC_SHA512 key) pieces) = hmac_spec sha512 128 64 key (concat pieces)"
  unfolding hmac_sha256_def [symmetric] hmac_sha512_def [symmetric] by (intro conjI hmac256.stream hmac512.stream)

text \<open>C37: The first request for \<open>n\<close> bytes returns exactly \<open>n\<close> bytes, the beginning of the block sequence that
  section 3.2 of RFC 6979 derives from the key and the message.\<close>

theorem nonce_generator_rfc6979:
  "fst (Generate (RFC6979_HMAC_SHA256 key msg) n) =
     take n (concat (map (drbg_block (fst (drbg_seed key msg)) (snd (drbg_seed key msg))) [0..<Suc (n div 32)])) \<and>
   length (fst (Generate (RFC6979_HMAC_SHA256 key msg) n)) = n"
proof -
  have le: "n \<le> 32 * Suc (n div 32)"
    by simp
  have len: "length (concat (map (drbg_block K V) [0..<k])) = 32 * k" for K V k
    by (induction k) simp_all
  have out: "fst (Generate (RFC6979_HMAC_SHA256 key msg) n) =
      fst (generate_loop (fst (drbg_seed key msg)) (snd (drbg_seed key msg)) n)"
    by (simp add: Generate_def drbg_seed Let_def split: prod.split)
  show ?thesis
    unfolding out generate_loop_blocks [OF le] using le by (simp add: len del: upt_Suc mult_Suc_right)
qed

text \<open>After a request the generator has advanced: the next one starts with a new key, as the RFC demands.\<close>

lemma generate_reseeds:
  "rfc_retry (snd (Generate g n)) \<and>
   fst (Generate (g\<lparr>rfc_retry := True\<rparr>) n) =
     fst (generate_loop (hmac_sha256 (rfc_K g) (rfc_V g @ [0]))
            (hmac_sha256 (hmac_sha256 (rfc_K g) (rfc_V g @ [0])) (rfc_V g)) n)"
  by (simp add: Generate_def hmac_sha256_of_spec Let_def split: prod.split)

section \<open>MurmurHash3\<close>

text \<open>Vectors of the reference implementation, and its last step is a bijection.\<close>

lemma murmur_vectors:
  "MurmurHash3 0xfba4c795 [0] = 0xea3f0b17"
  "MurmurHash3 0 [0, 0x11, 0x22] = 0x8eb51c3d"
  "MurmurHash3 0 [0, 0x11, 0x22, 0x33, 0x44, 0x55, 0x66] = 0xb074502c"
  by code_simp+

lemma xor_shift_inject:
  fixes x y :: "32 word"
  assumes "0 < k" and eq: "x XOR drop_bit k x = y XOR drop_bit k y"
  shows "x = y"
proof -
  have "bit x n = bit y n" if "32 \<le> n + d" for n d
    using that
  proof (induction d arbitrary: n)
    case 0
    then show ?case
      by (auto dest: bit_imp_le_length)
  next
    case (Suc d)
    have "bit x (k + n) = bit y (k + n)"
      using Suc assms(1) by simp
    then show ?case
      using arg_cong [OF eq, of "\<lambda>w. bit w n"] Suc.prems by (auto simp: bit_simps)
  qed
  then show ?thesis
    by (intro bit_word_eqI) (metis le_add2)
qed

lemma odd_mult_inject:
  fixes x y c :: "32 word"
  assumes "c * d = 1" and "x * c = y * c"
  shows "x = y"
proof -
  have "z = z * c * d" for z
    by (simp only: mult.assoc assms(1) mult_1_right)
  then show ?thesis
    using assms(2) by metis
qed

lemma murmur_fmix_inject: "murmur_fmix x = murmur_fmix y \<longleftrightarrow> x = y"
proof
  let ?a = "(x XOR drop_bit 16 x) * 0x85ebca6b" and ?b = "(y XOR drop_bit 16 y) * 0x85ebca6b"
  assume "murmur_fmix x = murmur_fmix y"
  then have "(?a XOR drop_bit 13 ?a) * 0xc2b2ae35 = (?b XOR drop_bit 13 ?b) * 0xc2b2ae35"
    unfolding murmur_fmix_def Let_def by (rule xor_shift_inject [rotated]) simp
  then have "?a XOR drop_bit 13 ?a = ?b XOR drop_bit 13 ?b"
    by (rule odd_mult_inject [where d = "0x7ed1b41d", rotated]) simp
  then have "?a = ?b"
    by (rule xor_shift_inject [rotated]) simp
  then have "x XOR drop_bit 16 x = y XOR drop_bit 16 y"
    by (rule odd_mult_inject [where d = "0xa5cb9243", rotated]) simp
  then show "x = y"
    by (rule xor_shift_inject [rotated]) simp
qed simp

end
