(* ===== verification/Kernel.thy ===== *)
theory Kernel
  imports ChainProps Pow Interpreter SigHash "HOL-Library.Product_Lexorder"
begin

unbundle bit_operations_syntax

text \<open>
  The proof-of-stake kernel, \<open>src/kernel.cpp\<close>: the stake modifier, which collects one bit from each
  of 64 blocks selected from the recent past, and the test of a coin's kernel hash against its target.

  Values of \<open>uint256\<close> are 256-bit words here; theory \<open>Uint256\<close> shows that the limb loops of the class
  compute the same operations. \<open>mapBlockIndex\<close> is a map from hashes to pointers. Times and heights are
  integers, the parameters of the network that are unsigned in the code are words. The outer \<open>None\<close> of
  a result is a failed assertion, the use of a null or dangling pointer, a division by zero, an index
  outside a vector, or a loop that does not end; the errors that the code reports are values. Log output is left out.
\<close>

type_synonym block_map = "uint256 \<Rightarrow> ptr option"

record stake_params =
  nModifierInterval :: "32 word"
  nModifierIntervalRatio :: "32 word"
  ModifierUpgradeBlock :: int
  GetMinStakeAge :: "int \<Rightarrow> int"
  hashGenesisBlock :: uint256

text \<open>\<open>Hash\<close> over a range of bytes.\<close>

definition hash_bytes :: "hash_funs \<Rightarrow> byte list \<Rightarrow> uint256" where
  "hash_bytes H bs = uint256_of_bytes (CHash256 H bs)"

section \<open>Selecting blocks\<close>

partial_function (option) last_modifier_loop :: "index_heap \<Rightarrow> ptr \<Rightarrow> CBlockIndex option" where
  "last_modifier_loop h p = do {
     bi \<leftarrow> h p;
     (case bi_pprev bi of
        Some q \<Rightarrow> if GeneratedStakeModifier bi then Some bi else last_modifier_loop h q
      | None \<Rightarrow> Some bi) }"

text \<open>The inner result is \<open>None\<close> when the code reports an error, else the modifier and its time.\<close>

definition GetLastStakeModifier :: "index_heap \<Rightarrow> ptr option \<Rightarrow> (64 word \<times> int) option option" where
  "GetLastStakeModifier h pindex =
     (case pindex of
        None \<Rightarrow> Some None
      | Some p \<Rightarrow> do {
          bi \<leftarrow> last_modifier_loop h p;
          Some (if \<not> GeneratedStakeModifier bi then None else Some (bi_nStakeModifier bi, GetBlockTime bi)) })"

definition GetStakeModifierSelectionIntervalSection :: "stake_params \<Rightarrow> int \<Rightarrow> int option" where
  "GetStakeModifierSelectionIntervalSection P nSection =
     (if nSection < 0 \<or> 64 \<le> nSection then None
      else
        let d = 63 + (of_int (63 - nSection) * (nModifierIntervalRatio P - 1)) in
        if d = 0 then None else Some (uint (nModifierInterval P * 63 div d)))"

fun interval_loop :: "stake_params \<Rightarrow> nat \<Rightarrow> nat \<Rightarrow> int \<Rightarrow> int option" where
  "interval_loop P nSection 0 nSelectionInterval = Some nSelectionInterval"
| "interval_loop P nSection (Suc n) nSelectionInterval = do {
     a \<leftarrow> GetStakeModifierSelectionIntervalSection P (int nSection);
     interval_loop P (nSection + 1) n (nSelectionInterval + a) }"

definition GetStakeModifierSelectionInterval :: "stake_params \<Rightarrow> int option" where
  "GetStakeModifierSelectionInterval P = interval_loop P 0 64 0"

definition GetStakeEntropyBit :: "CBlockIndex \<Rightarrow> nat" where
  "GetStakeEntropyBit bi = unat (bi_phashBlock bi AND 1)"

text \<open>The hash that decides the selection; a proof-of-stake block is favoured by 32 bits.\<close>

definition selection_hash :: "hash_funs \<Rightarrow> bool \<Rightarrow> 64 word \<Rightarrow> CBlockIndex \<Rightarrow> uint256" where
  "selection_hash H fModifierV2 nStakeModifierPrev bi =
     (let hashProof = (if fModifierV2 then bi_phashBlock bi else if bi_IsProofOfStake bi then 0 else bi_phashBlock bi);
          hashSelection = hash_bytes H (ser_u256 hashProof @ ser_u64 nStakeModifierPrev)
      in if bi_IsProofOfStake bi then drop_bit 32 hashSelection else hashSelection)"

text \<open>The locals of the loop: the first-run flag with the version of the hash, and the best block so far with its hash.\<close>

fun select_loop ::
  "hash_funs \<Rightarrow> stake_params \<Rightarrow> index_heap \<Rightarrow> block_map \<Rightarrow> uint256 set \<Rightarrow> int \<Rightarrow> 64 word \<Rightarrow> bool option \<Rightarrow>
   (uint256 \<times> ptr) option \<Rightarrow> (int \<times> uint256) list \<Rightarrow> (bool \<times> ptr option) option" where
  "select_loop H P h mapBlockIndex mapSelectedBlocks nStop nPrev fModifierV2 best [] =
     Some (best \<noteq> None, map_option snd best)"
| "select_loop H P h mapBlockIndex mapSelectedBlocks nStop nPrev fModifierV2 best (item # items) =
     (case mapBlockIndex (snd item) of
        None \<Rightarrow> Some (False, map_option snd best)
      | Some p \<Rightarrow> do {
          bi \<leftarrow> h p;
          if best \<noteq> None \<and> GetBlockTime bi > nStop then Some (best \<noteq> None, map_option snd best)
          else
            let v2 = (case fModifierV2 of None \<Rightarrow> bi_nHeight bi \<ge> ModifierUpgradeBlock P | Some v \<Rightarrow> v) in
            if bi_phashBlock bi \<in> mapSelectedBlocks
            then select_loop H P h mapBlockIndex mapSelectedBlocks nStop nPrev (Some v2) best items
            else
              let hashSelection = selection_hash H v2 nPrev bi;
                  best' = (case best of
                             Some (hashBest, q) \<Rightarrow> if hashSelection < hashBest then Some (hashSelection, p) else best
                           | None \<Rightarrow> Some (hashSelection, p))
              in select_loop H P h mapBlockIndex mapSelectedBlocks nStop nPrev (Some v2) best' items })"

definition SelectBlockFromCandidates ::
  "hash_funs \<Rightarrow> stake_params \<Rightarrow> index_heap \<Rightarrow> block_map \<Rightarrow> (int \<times> uint256) list \<Rightarrow> uint256 set \<Rightarrow> int \<Rightarrow> 64 word \<Rightarrow>
   (bool \<times> ptr option) option" where
  "SelectBlockFromCandidates H P h mapBlockIndex vSortedByTimestamp mapSelectedBlocks nStop nPrev =
     select_loop H P h mapBlockIndex mapSelectedBlocks nStop nPrev None None vSortedByTimestamp"

section \<open>The next stake modifier\<close>

partial_function (option) candidates_loop :: "index_heap \<Rightarrow> int \<Rightarrow> ptr option \<Rightarrow> (int \<times> uint256) list option" where
  "candidates_loop h nStart pindex =
     (case pindex of
        None \<Rightarrow> Some []
      | Some p \<Rightarrow> do {
          bi \<leftarrow> h p;
          if GetBlockTime bi \<ge> nStart then do {
            rest \<leftarrow> candidates_loop h nStart (bi_pprev bi);
            Some ((GetBlockTime bi, bi_phashBlock bi) # rest) }
          else Some [] })"

text \<open>The rounds that are left; the inner result is \<open>None\<close> when no block can be selected.\<close>

fun rounds_loop ::
  "hash_funs \<Rightarrow> stake_params \<Rightarrow> index_heap \<Rightarrow> block_map \<Rightarrow> (int \<times> uint256) list \<Rightarrow> 64 word \<Rightarrow> nat \<Rightarrow> nat \<Rightarrow> int \<Rightarrow>
   uint256 set \<Rightarrow> 64 word \<Rightarrow> 64 word option option" where
  "rounds_loop H P h mapBlockIndex vSorted nPrev nRound 0 nStop mapSelectedBlocks nNew = Some (Some nNew)"
| "rounds_loop H P h mapBlockIndex vSorted nPrev nRound (Suc n) nStop mapSelectedBlocks nNew = do {
     a \<leftarrow> GetStakeModifierSelectionIntervalSection P (int nRound);
     r \<leftarrow> SelectBlockFromCandidates H P h mapBlockIndex vSorted mapSelectedBlocks (nStop + a) nPrev;
     (case r of (fSelected, pindex) \<Rightarrow>
        if \<not> fSelected then Some None
        else do {
          p \<leftarrow> pindex;
          bi \<leftarrow> h p;
          rounds_loop H P h mapBlockIndex vSorted nPrev (nRound + 1) n (nStop + a)
            (insert (bi_phashBlock bi) mapSelectedBlocks)
            (nNew OR push_bit nRound (of_nat (GetStakeEntropyBit bi))) }) }"

text \<open>
  The result is the return value and the two output parameters, which keep what they were given last
  when the code returns an error. The first block above genesis gets the address of a string literal,
  the argument \<open>address\<close>.
\<close>

definition ComputeNextStakeModifier ::
  "64 word \<Rightarrow> hash_funs \<Rightarrow> stake_params \<Rightarrow> index_heap \<Rightarrow> block_map \<Rightarrow> ptr option \<Rightarrow> (bool \<times> 64 word \<times> bool) option" where
  "ComputeNextStakeModifier address H P h mapBlockIndex pindexPrev =
     (case pindexPrev of
        None \<Rightarrow> Some (True, 0, True)
      | Some prev \<Rightarrow> do {
          bp \<leftarrow> h prev;
          if bi_nHeight bp = 0 then Some (True, address, True)
          else do {
            lm \<leftarrow> GetLastStakeModifier h pindexPrev;
            (case lm of
               None \<Rightarrow> Some (False, 0, False)
             | Some (nStakeModifier, nModifierTime) \<Rightarrow>
                 let interval = uint (nModifierInterval P) in
                 if interval = 0 then None
                 else if nModifierTime div interval \<ge> GetBlockTime bp div interval then Some (True, nStakeModifier, False)
                 else do {
                   nSelectionInterval \<leftarrow> GetStakeModifierSelectionInterval P;
                   (let nStart = GetBlockTime bp div interval * interval - nSelectionInterval in do {
                      candidates \<leftarrow> candidates_loop h nStart pindexPrev;
                      (let vSorted = sort (rev candidates) in do {
                         r \<leftarrow> rounds_loop H P h mapBlockIndex vSorted nStakeModifier 0 (min 64 (length vSorted)) nStart {} 0;
                         Some (case r of
                                 None \<Rightarrow> (False, nStakeModifier, False)
                               | Some nNew \<Rightarrow> (True, nNew, True)) }) }) }) } })"

section \<open>The modifier of a kernel\<close>

partial_function (option) kernel_modifier_loop ::
  "index_heap \<Rightarrow> CChain \<Rightarrow> int \<Rightarrow> ptr \<Rightarrow> ptr option \<Rightarrow> int \<Rightarrow> int \<Rightarrow> (ptr \<times> int \<times> int) option option" where
  "kernel_modifier_loop h vChain nUntil pindex pindexNext nHeight nTime =
     (if nTime < nUntil then
        (case pindexNext of
           None \<Rightarrow> Some None
         | Some p \<Rightarrow> do {
             bi \<leftarrow> h p;
             (let pnext = chain_at vChain (bi_nHeight bi + 1) in
              if GeneratedStakeModifier bi
              then kernel_modifier_loop h vChain nUntil p pnext (bi_nHeight bi) (GetBlockTime bi)
              else kernel_modifier_loop h vChain nUntil p pnext nHeight nTime) })
      else Some (Some (pindex, nHeight, nTime)))"

text \<open>The inner result is \<open>None\<close> when the code reports an error, else modifier, height and time.\<close>

definition GetKernelStakeModifier ::
  "stake_params \<Rightarrow> index_heap \<Rightarrow> block_map \<Rightarrow> CChain \<Rightarrow> uint256 \<Rightarrow> (64 word \<times> int \<times> int) option option" where
  "GetKernelStakeModifier P h mapBlockIndex vChain hashBlockFrom =
     (case mapBlockIndex hashBlockFrom of
        None \<Rightarrow> Some None
      | Some from \<Rightarrow> do {
          bf \<leftarrow> h from;
          nInterval \<leftarrow> GetStakeModifierSelectionInterval P;
          r \<leftarrow> kernel_modifier_loop h vChain (GetBlockTime bf + nInterval) from
                 (chain_at vChain (bi_nHeight bf + 1)) (bi_nHeight bf) (GetBlockTime bf);
          (case r of
             None \<Rightarrow> Some None
           | Some (p, nHeight, nTime) \<Rightarrow> do {
               bi \<leftarrow> h p;
               Some (Some (bi_nStakeModifier bi, nHeight, nTime)) }) })"

section \<open>The kernel hash\<close>

definition stakeHash :: "hash_funs \<Rightarrow> 32 word \<Rightarrow> byte list \<Rightarrow> 32 word \<Rightarrow> uint256 \<Rightarrow> 32 word \<Rightarrow> uint256" where
  "stakeHash H nTimeTx ss prevoutIndex prevoutHash nTimeBlockFrom =
     hash_bytes H (ss @ ser_u32 nTimeBlockFrom @ ser_u32 prevoutIndex @ ser_u256 prevoutHash @ ser_u32 nTimeTx)"

definition stakeTargetHit :: "uint256 \<Rightarrow> CAmount \<Rightarrow> uint256 \<Rightarrow> bool" where
  "stakeTargetHit hashProofOfStake nValueIn bnTargetPerCoinDay =
     (let bnCoinDayWeight = (ucast nValueIn :: uint256) div 10000 in
      hashProofOfStake < bnCoinDayWeight * bnTargetPerCoinDay)"

text \<open>What the checks read of the block a coin comes from.\<close>

record block_from =
  bf_hash :: uint256
  bf_nTime :: "32 word"

text \<open>
  The search over \<open>nHashDrift\<close> timestamps. Another thread may connect a block meanwhile: \<open>tip i\<close> is the height
  of the active chain that the \<open>i\<close>-th read after the start of the search finds (\<open>-1\<close> for an empty chain), and
  the search ends when it is not the height at the start. The last component of the result numbers the next read.
\<close>

fun drift_loop ::
  "(nat \<Rightarrow> int) \<Rightarrow> int \<Rightarrow> (32 word \<Rightarrow> uint256) \<Rightarrow> (uint256 \<Rightarrow> bool) \<Rightarrow> 32 word \<Rightarrow> 32 word \<Rightarrow> nat \<Rightarrow> nat \<Rightarrow> uint256 \<Rightarrow>
   bool \<times> 32 word \<times> uint256 \<times> nat" where
  "drift_loop tip nHeightStart hash hit nTimeTx nHashDrift i 0 hashProof = (False, nTimeTx, hashProof, i)"
| "drift_loop tip nHeightStart hash hit nTimeTx nHashDrift i (Suc n) hashProof =
     (if tip i \<noteq> nHeightStart then (False, nTimeTx, hashProof, i + 1)
      else
        let nTryTime = nTimeTx + nHashDrift - of_nat i; hp = hash nTryTime in
        if \<not> hit hp then drift_loop tip nHeightStart hash hit nTimeTx nHashDrift (i + 1) n hp
        else (True, nTryTime, hp, i + 1))"

text \<open>
  The result is the return value, the time, the proof hash, and \<open>mapHashedBlocks\<close> when it is replaced
  (a map with at most the height of the tip and the time \<open>now\<close>).
\<close>

record kernel_result =
  kr_ok :: bool
  kr_nTimeTx :: "32 word"
  kr_hashProof :: uint256
  kr_mapHashed :: "(int \<times> int) list option"

definition CheckStakeKernelHash ::
  "hash_funs \<Rightarrow> stake_params \<Rightarrow> index_heap \<Rightarrow> block_map \<Rightarrow> CChain \<Rightarrow> (nat \<Rightarrow> int) \<Rightarrow> int \<Rightarrow> 32 word \<Rightarrow> block_from \<Rightarrow>
   CTransaction \<Rightarrow> COutPoint \<Rightarrow> 32 word \<Rightarrow> 32 word \<Rightarrow> bool \<Rightarrow> uint256 \<Rightarrow> kernel_result option" where
  "CheckStakeKernelHash H P h mapBlockIndex vChain tip now nBits blockFrom txPrev out nTimeTx nHashDrift fCheck hashProof =
     (if length (vout txPrev) \<le> unat (out_n out) then None
      else
        let nValueIn = nValue (vout txPrev ! unat (out_n out));
            nTimeBlockFrom = bf_nTime blockFrom;
            failed = \<lparr>kr_ok = False, kr_nTimeTx = nTimeTx, kr_hashProof = hashProof, kr_mapHashed = None\<rparr> in
        if nTimeTx < nTimeBlockFrom then Some failed
        else if uint nTimeBlockFrom + GetMinStakeAge P (chain_Height vChain + 1) > uint nTimeTx then Some failed
        else
          let bnTargetPerCoinDay = of_nat (uval (fst (SetCompact nBits))) in do {
            m \<leftarrow> GetKernelStakeModifier P h mapBlockIndex vChain (bf_hash blockFrom);
            (case m of
               None \<Rightarrow> Some failed
             | Some (nStakeModifier, _, _) \<Rightarrow>
                 let ss = ser_u64 nStakeModifier;
                     hash = (\<lambda>t. stakeHash H t ss (out_n out) (out_hash out) nTimeBlockFrom);
                     hit = (\<lambda>hp. stakeTargetHit hp nValueIn bnTargetPerCoinDay) in
                 if fCheck
                 then Some \<lparr>kr_ok = hit (hash nTimeTx), kr_nTimeTx = nTimeTx, kr_hashProof = hash nTimeTx, kr_mapHashed = None\<rparr>
                 else
                   (case drift_loop tip (chain_Height vChain) hash hit nTimeTx nHashDrift 0 (unat nHashDrift) hashProof of (ok, t, hp, j) \<Rightarrow>
                      Some \<lparr>kr_ok = ok, kr_nTimeTx = t, kr_hashProof = hp,
                            kr_mapHashed = Some (if tip j < 0 then [] else [(tip j, now)])\<rparr>)) })"

section \<open>Checksums and timestamps\<close>

definition CheckCoinStakeTimestamp :: "int \<Rightarrow> int \<Rightarrow> bool" where
  "CheckCoinStakeTimestamp nTimeBlock nTimeTx \<longleftrightarrow> nTimeBlock = nTimeTx"

text \<open>A chain of checksums over the flags, the proof hash and the modifier of the blocks.\<close>

definition GetStakeModifierChecksum :: "hash_funs \<Rightarrow> stake_params \<Rightarrow> index_heap \<Rightarrow> CBlockIndex \<Rightarrow> 32 word option" where
  "GetStakeModifierChecksum H P h bi =
     (if bi_pprev bi = None \<and> bi_phashBlock bi \<noteq> hashGenesisBlock P then None
      else do {
        ss \<leftarrow> (case bi_pprev bi of
                None \<Rightarrow> Some []
              | Some q \<Rightarrow> (case h q of None \<Rightarrow> None | Some bq \<Rightarrow> Some (ser_u32 (bi_nStakeModifierChecksum bq))));
        Some (ucast (drop_bit (256 - 32) (hash_bytes H
          (ss @ ser_u32 (bi_nFlags bi) @ ser_u256 (bi_hashProofOfStake bi) @ ser_u64 (bi_nStakeModifier bi))))) })"

definition mapStakeModifierCheckpoints :: "int \<Rightarrow> 32 word option" where
  "mapStakeModifierCheckpoints = [0 \<mapsto> 0xfd11f4e7]"

definition CheckStakeModifierCheckpoints :: "int \<Rightarrow> 32 word \<Rightarrow> bool" where
  "CheckStakeModifierCheckpoints nHeight nStakeModifierChecksum =
     (case mapStakeModifierCheckpoints nHeight of Some c \<Rightarrow> nStakeModifierChecksum = c | None \<Rightarrow> True)"

end
