(* ===== verification/KernelProps.thy ===== *)
theory KernelProps
  imports Kernel
begin

unbundle bit_operations_syntax

text \<open>
  The stake modifier and the kernel search: which block a round selects, that 64 rounds always find
  blocks, and that the search over timestamps finds exactly the times that the check accepts.
\<close>

section \<open>A round\<close>

text \<open>The candidates are what the block index says of their hashes.\<close>

definition indexed :: "index_heap \<Rightarrow> block_map \<Rightarrow> (int \<times> uint256) list \<Rightarrow> bool" where
  "indexed h M items \<longleftrightarrow>
     (\<forall>it \<in> set items. \<exists>p bi. M (snd it) = Some p \<and> h p = Some bi \<and> bi_phashBlock bi = snd it \<and> GetBlockTime bi = fst it)"

definition entry_of :: "index_heap \<Rightarrow> block_map \<Rightarrow> uint256 \<Rightarrow> CBlockIndex" where
  "entry_of h M x = the (h (the (M x)))"

lemma indexed_Cons:
  assumes "indexed h M (it # items)"
  obtains p where "M (snd it) = Some p" "h p = Some (entry_of h M (snd it))" "bi_phashBlock (entry_of h M (snd it)) = snd it"
    "GetBlockTime (entry_of h M (snd it)) = fst it" "indexed h M items"
  using assms by (auto simp: indexed_def entry_of_def)

text \<open>The best block so far is one of the items, and no item that was eligible beats it.\<close>

definition chosen :: "(uint256 \<Rightarrow> uint256) \<Rightarrow> uint256 set \<Rightarrow> int \<Rightarrow> (int \<times> uint256) list \<Rightarrow> int \<times> uint256 \<Rightarrow> bool" where
  "chosen key sel stop items it \<longleftrightarrow> it \<in> set items \<and> snd it \<notin> sel \<and>
     (\<forall>x \<in> set items. snd x \<notin> sel \<longrightarrow> fst x \<le> stop \<longrightarrow> key (snd it) \<le> key (snd x)) \<and>
     (fst it \<le> stop \<or> (\<forall>x \<in> set items. snd x \<notin> sel \<longrightarrow> fst it \<le> fst x))"

lemma select_loop_best:
  assumes "sorted (map fst items)" and "indexed h M items"
  shows "\<exists>q' hb'. select_loop H P h M sel stop nPrev (Some v) (Some (hb, q)) items = Some (True, Some q') \<and>
    (q' = q \<and> hb' = hb \<or> (\<exists>it \<in> set items. M (snd it) = Some q' \<and> hb' = selection_hash H v nPrev (entry_of h M (snd it)) \<and>
        snd it \<notin> sel \<and> fst it \<le> stop)) \<and>
    hb' \<le> hb \<and> (\<forall>x \<in> set items. snd x \<notin> sel \<longrightarrow> fst x \<le> stop \<longrightarrow> hb' \<le> selection_hash H v nPrev (entry_of h M (snd x)))"
  using assms
proof (induction items arbitrary: hb q)
  case Nil
  then show ?case
    by simp
next
  case (Cons it items)
  obtain p where p: "M (snd it) = Some p" "h p = Some (entry_of h M (snd it))" "bi_phashBlock (entry_of h M (snd it)) = snd it"
    "GetBlockTime (entry_of h M (snd it)) = fst it" and ix: "indexed h M items"
    using Cons.prems(2) by (rule indexed_Cons)
  have srt: "sorted (map fst items)" "\<forall>x \<in> set items. fst it \<le> fst x"
    using Cons.prems(1) by auto
  let ?key = "selection_hash H v nPrev (entry_of h M (snd it))"
  consider "stop < fst it" | "fst it \<le> stop" "snd it \<in> sel" | "fst it \<le> stop" "snd it \<notin> sel" "?key < hb"
    | "fst it \<le> stop" "snd it \<notin> sel" "\<not> ?key < hb"
    by linarith
  then show ?case
  proof cases
    case 1
    then have "\<forall>x \<in> set (it # items). stop < fst x"
      using srt(2) by fastforce
    then show ?thesis
      using p 1 by (intro exI [of _ q] exI [of _ hb]) auto
  next
    case 2
    then show ?thesis
      using Cons.IH [OF srt(1) ix, of hb q] p by auto
  next
    case 3
    then obtain q' hb' where *: "select_loop H P h M sel stop nPrev (Some v) (Some (?key, p)) items = Some (True, Some q')"
      "q' = p \<and> hb' = ?key \<or> (\<exists>it \<in> set items. M (snd it) = Some q' \<and> hb' = selection_hash H v nPrev (entry_of h M (snd it)) \<and>
        snd it \<notin> sel \<and> fst it \<le> stop)" "hb' \<le> ?key"
      "\<forall>x \<in> set items. snd x \<notin> sel \<longrightarrow> fst x \<le> stop \<longrightarrow> hb' \<le> selection_hash H v nPrev (entry_of h M (snd x))"
      using Cons.IH [OF srt(1) ix, of ?key p] by blast
    then show ?thesis
      using p 3 by (intro exI [of _ q'] exI [of _ hb']) (auto simp: Let_def)
  next
    case 4
    then obtain q' hb' where *: "select_loop H P h M sel stop nPrev (Some v) (Some (hb, q)) items = Some (True, Some q')"
      "q' = q \<and> hb' = hb \<or> (\<exists>it \<in> set items. M (snd it) = Some q' \<and> hb' = selection_hash H v nPrev (entry_of h M (snd it)) \<and>
        snd it \<notin> sel \<and> fst it \<le> stop)" "hb' \<le> hb"
      "\<forall>x \<in> set items. snd x \<notin> sel \<longrightarrow> fst x \<le> stop \<longrightarrow> hb' \<le> selection_hash H v nPrev (entry_of h M (snd x))"
      using Cons.IH [OF srt(1) ix, of hb q] by blast
    then show ?thesis
      using p 4 by (intro exI [of _ q'] exI [of _ hb']) (auto simp: Let_def)
  qed
qed

text \<open>Whether the second version of the hash is used is decided by the first candidate.\<close>

definition modifier_v2 :: "stake_params \<Rightarrow> index_heap \<Rightarrow> block_map \<Rightarrow> (int \<times> uint256) list \<Rightarrow> bool" where
  "modifier_v2 P h M items \<longleftrightarrow> bi_nHeight (entry_of h M (snd (hd items))) \<ge> ModifierUpgradeBlock P"

lemma select_loop_none:
  assumes "sorted (map fst items)" and "indexed h M items" and "\<exists>x \<in> set items. snd x \<notin> sel"
    and "fv = Some v \<or> fv = None \<and> v = modifier_v2 P h M items"
  shows "\<exists>it q. select_loop H P h M sel stop nPrev fv None items = Some (True, Some q) \<and> M (snd it) = Some q \<and>
    chosen (\<lambda>x. selection_hash H v nPrev (entry_of h M x)) sel stop items it"
  using assms
proof (induction items arbitrary: fv)
  case Nil
  then show ?case
    by simp
next
  case (Cons it items)
  obtain p where p: "M (snd it) = Some p" "h p = Some (entry_of h M (snd it))" "bi_phashBlock (entry_of h M (snd it)) = snd it"
    "GetBlockTime (entry_of h M (snd it)) = fst it" and ix: "indexed h M items"
    using Cons.prems(2) by (rule indexed_Cons)
  have srt: "sorted (map fst items)" "\<forall>x \<in> set items. fst it \<le> fst x"
    using Cons.prems(1) by auto
  have v: "(case fv of None \<Rightarrow> bi_nHeight (entry_of h M (snd it)) \<ge> ModifierUpgradeBlock P | Some v \<Rightarrow> v) = v"
    using Cons.prems(4) by (auto simp: modifier_v2_def)
  let ?key = "\<lambda>x. selection_hash H v nPrev (entry_of h M x)"
  show ?case
  proof (cases "snd it \<in> sel")
    case True
    then obtain y q where "select_loop H P h M sel stop nPrev (Some v) None items = Some (True, Some q)" "M (snd y) = Some q"
      "chosen ?key sel stop items y"
      using Cons.IH [OF srt(1) ix, of "Some v"] Cons.prems(3) by auto
    then show ?thesis
      using p v True by (intro exI [of _ y] exI [of _ q]) (auto simp: chosen_def Let_def)
  next
    case False
    obtain q hb where r: "select_loop H P h M sel stop nPrev (Some v) (Some (?key (snd it), p)) items = Some (True, Some q)"
      "q = p \<and> hb = ?key (snd it) \<or> (\<exists>y \<in> set items. M (snd y) = Some q \<and> hb = ?key (snd y) \<and> snd y \<notin> sel \<and> fst y \<le> stop)"
      "hb \<le> ?key (snd it)" "\<forall>x \<in> set items. snd x \<notin> sel \<longrightarrow> fst x \<le> stop \<longrightarrow> hb \<le> ?key (snd x)"
      using select_loop_best [OF srt(1) ix, of H P sel stop nPrev v "?key (snd it)" p] by blast
    have step: "select_loop H P h M sel stop nPrev fv None (it # items) = Some (True, Some q)"
      using p v False r(1) by (simp add: Let_def)
    show ?thesis
    proof (cases "q = p \<and> hb = ?key (snd it)")
      case True
      then have "chosen ?key sel stop (it # items) it"
        using False r(4) srt(2) by (auto simp: chosen_def)
      then show ?thesis
        using step True p(1) by blast
    next
      case False
      then obtain y where y: "y \<in> set items" "M (snd y) = Some q" "hb = ?key (snd y)" "snd y \<notin> sel" "fst y \<le> stop"
        using r(2) by blast
      then have "chosen ?key sel stop (it # items) y"
        using r(3,4) by (auto simp: chosen_def)
      then show ?thesis
        using step y(2) by blast
    qed
  qed
qed

lemma SelectBlock_chosen:
  assumes "sorted (map fst items)" and "indexed h M items" and "\<exists>x \<in> set items. snd x \<notin> sel"
  shows "\<exists>it p. SelectBlockFromCandidates H P h M items sel stop nPrev = Some (True, Some p) \<and> M (snd it) = Some p \<and>
    h p = Some (entry_of h M (snd it)) \<and> bi_phashBlock (entry_of h M (snd it)) = snd it \<and>
    chosen (\<lambda>x. selection_hash H (modifier_v2 P h M items) nPrev (entry_of h M x)) sel stop items it"
proof -
  obtain it p where r: "SelectBlockFromCandidates H P h M items sel stop nPrev = Some (True, Some p)" "M (snd it) = Some p"
    "chosen (\<lambda>x. selection_hash H (modifier_v2 P h M items) nPrev (entry_of h M x)) sel stop items it"
    using select_loop_none [OF assms, of None "modifier_v2 P h M items" P H stop nPrev]
    unfolding SelectBlockFromCandidates_def by blast
  then have "it \<in> set items"
    by (simp add: chosen_def)
  then have "h p = Some (entry_of h M (snd it))" "bi_phashBlock (entry_of h M (snd it)) = snd it"
    using assms(2) r(2) by (auto simp: indexed_def entry_of_def)
  then show ?thesis
    using r by blast
qed

section \<open>All rounds\<close>

definition sections_ok :: "stake_params \<Rightarrow> bool" where
  "sections_ok P \<longleftrightarrow> (\<forall>n < 64. GetStakeModifierSelectionIntervalSection P (int n) \<noteq> None)"

lemma interval_loop_Some:
  "(\<And>i. i < k + n \<Longrightarrow> \<exists>a. GetStakeModifierSelectionIntervalSection P (int i) = Some a) \<Longrightarrow> \<exists>r. interval_loop P k n acc = Some r"
proof (induction n arbitrary: k acc)
  case (Suc n)
  obtain a where a: "GetStakeModifierSelectionIntervalSection P (int k) = Some a"
    using Suc.prems [of k] by auto
  have "\<exists>r. interval_loop P (k + 1) n (acc + a) = Some r"
    by (rule Suc.IH, rule Suc.prems) simp
  then show ?case
    by (simp add: a)
qed simp

lemma GetStakeModifierSelectionInterval_Some:
  "sections_ok P \<Longrightarrow> \<exists>r. GetStakeModifierSelectionInterval P = Some r"
  unfolding sections_ok_def GetStakeModifierSelectionInterval_def by (rule interval_loop_Some) auto

text \<open>As long as fewer blocks are selected than there are candidates, a round selects a new one.\<close>

lemma rounds_loop_Some:
  assumes "sorted (map fst items)" and "indexed h M items" and "distinct (map snd items)" and "sections_ok P"
  shows "k + n \<le> length items \<Longrightarrow> k + n \<le> 64 \<Longrightarrow> finite sel \<Longrightarrow> card sel = k \<Longrightarrow>
    \<exists>m. rounds_loop H P h M items nPrev k n stop sel acc = Some (Some m)"
proof (induction n arbitrary: k stop sel acc)
  case (Suc n)
  obtain a where a: "GetStakeModifierSelectionIntervalSection P (int k) = Some a"
  proof -
    have "k < 64"
      using Suc.prems(2) by linarith
    then show ?thesis
      using assms(4) that unfolding sections_ok_def by blast
  qed
  have "card (set (map snd items)) = length items"
    using distinct_card [OF assms(3)] by simp
  then have "\<not> set (map snd items) \<subseteq> sel"
    using card_mono [OF Suc.prems(3), of "set (map snd items)"] Suc.prems(1,4) by linarith
  then have "\<exists>x \<in> set items. snd x \<notin> sel"
    unfolding set_map by blast
  then obtain it p where it: "SelectBlockFromCandidates H P h M items sel (stop + a) nPrev = Some (True, Some p)"
    "h p = Some (entry_of h M (snd it))" "bi_phashBlock (entry_of h M (snd it)) = snd it"
    "chosen (\<lambda>x. selection_hash H (modifier_v2 P h M items) nPrev (entry_of h M x)) sel (stop + a) items it"
    using SelectBlock_chosen [OF assms(1,2) \<open>\<exists>x \<in> set items. snd x \<notin> sel\<close>] by metis
  have new: "snd it \<notin> sel"
    using it(4) by (simp add: chosen_def)
  have "card (insert (snd it) sel) = k + 1"
    using Suc.prems(3,4) new by simp
  then have "\<exists>m. rounds_loop H P h M items nPrev (k + 1) n (stop + a) (insert (snd it) sel)
      (acc OR push_bit k (of_nat (GetStakeEntropyBit (entry_of h M (snd it))))) = Some (Some m)"
    using Suc.prems by (intro Suc.IH) simp_all
  then show ?case
    by (simp add: a it(1-3))
qed simp


section \<open>The next modifier\<close>

definition map_ok :: "index_heap \<Rightarrow> block_map \<Rightarrow> bool" where
  "map_ok h M \<longleftrightarrow> (\<forall>p bi. h p = Some bi \<longrightarrow> M (bi_phashBlock bi) = Some p)"

lemma last_modifier_loop_Some:
  assumes "block_tree h"
  shows "h p = Some bi \<Longrightarrow> height_of h p = k \<Longrightarrow>
    \<exists>b. last_modifier_loop h p = Some b \<and>
      ((\<exists>n q c. up h n p = Some q \<and> h q = Some c \<and> GeneratedStakeModifier c) \<longrightarrow> GeneratedStakeModifier b)"
proof (induction k arbitrary: p bi)
  case 0
  have root: "bi_pprev bi = None"
    using assms 0(1) by (cases rule: block_tree_cases) (use 0 in auto)
  have "n = 0" if "up h n p = Some q" for n q
    using that up_None [OF assms 0(1), of n] 0(2) by (cases n) auto
  then show ?case
    using 0 root by (subst last_modifier_loop.simps) fastforce
next
  case (Suc k)
  obtain q b where q: "bi_pprev bi = Some q" "h q = Some b" "height_of h q = k"
    using assms Suc.prems(1) by (cases rule: block_tree_cases) (use Suc.prems in auto)
  obtain c where c: "last_modifier_loop h q = Some c"
    "(\<exists>n x d. up h n q = Some x \<and> h x = Some d \<and> GeneratedStakeModifier d) \<longrightarrow> GeneratedStakeModifier c"
    using Suc.IH [OF q(2,3)] by blast
  show ?case
  proof (cases "GeneratedStakeModifier bi")
    case True
    then show ?thesis
      using Suc.prems(1) q(1) by (subst last_modifier_loop.simps) simp
  next
    case False
    have "\<exists>n x d. up h n q = Some x \<and> h x = Some d \<and> GeneratedStakeModifier d"
      if "up h m p = Some x" "h x = Some d" "GeneratedStakeModifier d" for m x d
      using that False Suc.prems(1) q(1) by (cases m) auto
    moreover have "last_modifier_loop h p = Some c"
      using False Suc.prems(1) q(1) c(1) by (subst last_modifier_loop.simps) simp
    ultimately show ?thesis
      using c(2) by blast
  qed
qed

lemma candidates_loop_Some:
  assumes "block_tree h" and "map_ok h M"
  shows "h p = Some bi \<Longrightarrow> height_of h p = k \<Longrightarrow>
    \<exists>items. candidates_loop h t (Some p) = Some items \<and> indexed h M items \<and> distinct (map snd items) \<and>
      (\<forall>it \<in> set items. \<exists>q. M (snd it) = Some q \<and> height_of h q \<le> k)"
proof (induction k arbitrary: p bi)
  case 0
  have "bi_pprev bi = None"
    using assms(1) 0(1) by (cases rule: block_tree_cases) (use 0 in auto)
  moreover have "candidates_loop h t None = Some []"
    by (subst candidates_loop.simps) simp
  moreover have "M (bi_phashBlock bi) = Some p"
    using assms(2) 0(1) by (simp add: map_ok_def)
  ultimately show ?case
    using 0 by (subst candidates_loop.simps) (auto simp: indexed_def)
next
  case (Suc k)
  obtain q b where q: "bi_pprev bi = Some q" "h q = Some b" "height_of h q = k"
    using assms(1) Suc.prems(1) by (cases rule: block_tree_cases) (use Suc.prems in auto)
  obtain items where items: "candidates_loop h t (Some q) = Some items" "indexed h M items" "distinct (map snd items)"
    "\<forall>it \<in> set items. \<exists>q. M (snd it) = Some q \<and> height_of h q \<le> k"
    using Suc.IH [OF q(2,3)] by blast
  have M: "M (bi_phashBlock bi) = Some p"
    using assms(2) Suc.prems(1) by (simp add: map_ok_def)
  show ?case
  proof (cases "t \<le> GetBlockTime bi")
    case True
    then have "candidates_loop h t (Some p) = Some ((GetBlockTime bi, bi_phashBlock bi) # items)"
      using Suc.prems(1) q(1) items(1) by (subst candidates_loop.simps) simp
    moreover have "bi_phashBlock bi \<notin> snd ` set items"
      using items(4) M Suc.prems(2) by fastforce
    moreover have "indexed h M ((GetBlockTime bi, bi_phashBlock bi) # items)"
      using items(2) M Suc.prems(1) by (auto simp: indexed_def)
    ultimately show ?thesis
      using items(3,4) M Suc.prems(2) by fastforce
  next
    case False
    then have "candidates_loop h t (Some p) = Some []"
      using Suc.prems(1) by (subst candidates_loop.simps) simp
    then show ?thesis
      by (simp add: indexed_def)
  qed
qed

lemma sorted_times: "sorted xs \<Longrightarrow> sorted (map fst xs)" for xs :: "(int \<times> uint256) list"
  unfolding sorted_map by (rule sorted_wrt_mono_rel [of _ "(\<le>)"]) (auto simp: less_eq_prod_def)

lemma ComputeNextStakeModifier_Some:
  assumes "block_tree h" and "map_ok h M" and "sections_ok P" and "nModifierInterval P \<noteq> 0" and "h prev = Some bp"
    and "up h n prev = Some q" and "h q = Some c" and "GeneratedStakeModifier c"
  shows "\<exists>m g. ComputeNextStakeModifier address H P h M (Some prev) = Some (True, m, g)"
proof (cases "bi_nHeight bp = 0")
  case True
  then show ?thesis
    using assms(5) by (auto simp: ComputeNextStakeModifier_def)
next
  case False
  obtain b where b: "last_modifier_loop h prev = Some b" "GeneratedStakeModifier b"
    using last_modifier_loop_Some [OF assms(1,5) refl] assms(6-8) by blast
  let ?i = "uint (nModifierInterval P)"
  have i: "?i \<noteq> 0"
    using assms(4) by (simp add: uint_0_iff)
  show ?thesis
  proof (cases "GetBlockTime b div ?i \<ge> GetBlockTime bp div ?i")
    case True
    then show ?thesis
      using assms(5) False b i by (auto simp: ComputeNextStakeModifier_def GetLastStakeModifier_def Let_def)
  next
    case newer: False
    obtain sel where sel: "GetStakeModifierSelectionInterval P = Some sel"
      using GetStakeModifierSelectionInterval_Some [OF assms(3)] by blast
    let ?start = "GetBlockTime bp div ?i * ?i - sel"
    obtain items where items: "candidates_loop h ?start (Some prev) = Some items" "indexed h M items" "distinct (map snd items)"
      using candidates_loop_Some [OF assms(1,2,5) refl] by blast
    let ?v = "sort (rev items)"
    have "sorted (map fst ?v)" "indexed h M ?v"
      using items(2) by (simp_all add: sorted_times indexed_def)
    moreover have "distinct (map snd ?v)"
      using items(3) by (simp add: distinct_map)
    ultimately obtain m where m: "rounds_loop H P h M ?v (bi_nStakeModifier b) 0 (min 64 (length ?v)) ?start {} 0 = Some (Some m)"
      using rounds_loop_Some [of ?v h M P 0 "min 64 (length ?v)" "{}" H "bi_nStakeModifier b" ?start 0] assms(3) by auto
    show ?thesis
      using assms(5) False b i newer sel items(1) m
      by (auto simp: ComputeNextStakeModifier_def GetLastStakeModifier_def Let_def)
  qed
qed

section \<open>The modifier of a kernel\<close>

text \<open>The first block from index \<open>k\<close> of the chain that generated a modifier at or after a time.\<close>

definition late_modifier :: "index_heap \<Rightarrow> CChain \<Rightarrow> int \<Rightarrow> nat \<Rightarrow> bool" where
  "late_modifier h v t j \<longleftrightarrow> j < length v \<and>
     (\<exists>p b. v ! j = Some p \<and> h p = Some b \<and> GeneratedStakeModifier b \<and> t \<le> GetBlockTime b)"

lemma kernel_modifier_loop_first:
  assumes "block_tree h" and "chain_ok h v"
  shows "nTime < t \<Longrightarrow> length v - k = d \<Longrightarrow>
    \<exists>r. kernel_modifier_loop h v t pi (chain_at v (int k)) nh nTime = Some r \<and>
      (case r of
         None \<Rightarrow> \<forall>j\<ge>k. \<not> late_modifier h v t j
       | Some (p, height, time) \<Rightarrow> \<exists>j\<ge>k. v ! j = Some p \<and> late_modifier h v t j \<and> (\<forall>i. k \<le> i \<longrightarrow> i < j \<longrightarrow> \<not> late_modifier h v t i))"
proof (induction d arbitrary: k pi nh nTime)
  case 0
  then have "chain_at v (int k) = None" "\<forall>j\<ge>k. \<not> late_modifier h v t j"
    by (simp_all add: chain_at_def late_modifier_def)
  then show ?case
    using 0(1) by (subst kernel_modifier_loop.simps) simp
next
  case (Suc d)
  then have k: "k < length v" "length v - (k + 1) = d"
    by simp_all
  obtain p b where p: "v ! k = Some p" "h p = Some b" "height_of h p = k"
    using chain_ok_entry [OF assms k(1)] by blast
  have at: "chain_at v (int k) = Some p"
    using k(1) p(1) by (simp add: chain_at_def)
  have hb: "int (k + 1) = bi_nHeight b + 1"
    using height_of_int [OF assms(1) p(2)] p(3) by simp
  have late: "late_modifier h v t k \<longleftrightarrow> GeneratedStakeModifier b \<and> t \<le> GetBlockTime b"
    using k(1) p by (simp add: late_modifier_def)
  show ?case
  proof (cases "late_modifier h v t k")
    case True
    then have "kernel_modifier_loop h v t p (chain_at v (bi_nHeight b + 1)) (bi_nHeight b) (GetBlockTime b) =
        Some (Some (p, bi_nHeight b, GetBlockTime b))"
      using late by (subst kernel_modifier_loop.simps) simp
    then have "kernel_modifier_loop h v t pi (chain_at v (int k)) nh nTime = Some (Some (p, bi_nHeight b, GetBlockTime b))"
      using True late Suc.prems(1) at p(2) by (subst kernel_modifier_loop.simps) (simp add: Let_def)
    then show ?thesis
      using True p(1) by auto
  next
    case False
    define nh' nTime' where "nh' = (if GeneratedStakeModifier b then bi_nHeight b else nh)"
      and "nTime' = (if GeneratedStakeModifier b then GetBlockTime b else nTime)"
    have "nTime' < t"
      using False late Suc.prems(1) by (auto simp: nTime'_def)
    then obtain r where r: "kernel_modifier_loop h v t p (chain_at v (int (k + 1))) nh' nTime' = Some r"
      "case r of None \<Rightarrow> \<forall>j\<ge>k + 1. \<not> late_modifier h v t j
       | Some (p, height, time) \<Rightarrow> \<exists>j\<ge>k + 1. v ! j = Some p \<and> late_modifier h v t j \<and>
           (\<forall>i. k + 1 \<le> i \<longrightarrow> i < j \<longrightarrow> \<not> late_modifier h v t i)"
      using Suc.IH [OF _ k(2)] by blast
    have "kernel_modifier_loop h v t pi (chain_at v (int k)) nh nTime = Some r"
      using Suc.prems(1) at p(2) r(1) unfolding hb nh'_def nTime'_def
      by (subst kernel_modifier_loop.simps) (cases "GeneratedStakeModifier b"; simp add: Let_def)
    moreover have le: "k \<le> i \<longleftrightarrow> i = k \<or> k + 1 \<le> i" for i
      by auto
    have "case r of
         None \<Rightarrow> \<forall>j\<ge>k. \<not> late_modifier h v t j
       | Some (p, height, time) \<Rightarrow> \<exists>j\<ge>k. v ! j = Some p \<and> late_modifier h v t j \<and> (\<forall>i. k \<le> i \<longrightarrow> i < j \<longrightarrow> \<not> late_modifier h v t i)"
    proof (cases r)
      case None
      then show ?thesis
        using r(2) False le by simp
    next
      case (Some x)
      obtain p' ht tm where x: "x = (p', ht, tm)"
        by (cases x)
      then obtain j where "j \<ge> k + 1" "v ! j = Some p'" "late_modifier h v t j"
        "\<forall>i. k + 1 \<le> i \<longrightarrow> i < j \<longrightarrow> \<not> late_modifier h v t i"
        using r(2) Some by auto
      then show ?thesis
        using False le Some x by (auto intro!: exI [of _ j])
    qed
    ultimately show ?thesis
      by blast
  qed
qed

section \<open>The search over timestamps\<close>

lemma drift_loop_first:
  "drift_loop tip start hash hit t d i n hp = (ok, t', hp', r) \<Longrightarrow>
    (if ok then \<exists>j. i \<le> j \<and> j < i + n \<and> (\<forall>l. i \<le> l \<longrightarrow> l \<le> j \<longrightarrow> tip l = start) \<and> t' = t + d - of_nat j \<and> hp' = hash t' \<and> hit hp' \<and>
        (\<forall>k. i \<le> k \<longrightarrow> k < j \<longrightarrow> \<not> hit (hash (t + d - of_nat k)))
     else \<forall>k. i \<le> k \<longrightarrow> k < i + n \<longrightarrow> (\<forall>l. i \<le> l \<longrightarrow> l \<le> k \<longrightarrow> tip l = start) \<longrightarrow> \<not> hit (hash (t + d - of_nat k)))"
proof (induction tip start hash hit t d i n hp rule: drift_loop.induct)
  case (2 tip start hash hit t d i n hp)
  consider "tip i \<noteq> start" | "tip i = start" "hit (hash (t + d - of_nat i))" | "tip i = start" "\<not> hit (hash (t + d - of_nat i))"
    by blast
  then show ?case
  proof cases
    case 1
    then show ?thesis
      using 2(2) by auto
  next
    case hit: 2
    then show ?thesis
      using 2(2) by (auto simp: Let_def intro!: exI [of _ i])
  next
    case 3
    have le: "i \<le> k \<longleftrightarrow> k = i \<or> i + 1 \<le> k" for k
      by auto
    have IH: "if ok then \<exists>j. i + 1 \<le> j \<and> j < i + 1 + n \<and> (\<forall>l. i + 1 \<le> l \<longrightarrow> l \<le> j \<longrightarrow> tip l = start) \<and>
        t' = t + d - of_nat j \<and> hp' = hash t' \<and> hit hp' \<and> (\<forall>k. i + 1 \<le> k \<longrightarrow> k < j \<longrightarrow> \<not> hit (hash (t + d - of_nat k)))
     else \<forall>k. i + 1 \<le> k \<longrightarrow> k < i + 1 + n \<longrightarrow> (\<forall>l. i + 1 \<le> l \<longrightarrow> l \<le> k \<longrightarrow> tip l = start) \<longrightarrow> \<not> hit (hash (t + d - of_nat k))"
      using 2(1) [OF _ refl refl] 2(2) 3 by (simp add: Let_def)
    show ?thesis
    proof (cases ok)
      case True
      then obtain j where "i + 1 \<le> j" "j < i + 1 + n" "t' = t + d - of_nat j" "hp' = hash t'" "hit hp'"
        "\<forall>l. i + 1 \<le> l \<longrightarrow> l \<le> j \<longrightarrow> tip l = start" "\<forall>k. i + 1 \<le> k \<longrightarrow> k < j \<longrightarrow> \<not> hit (hash (t + d - of_nat k))"
        using IH by auto
      then show ?thesis
        using True 3 le by (auto intro!: exI [of _ j])
    next
      case notok: False
      then show ?thesis
        using IH 3 le by auto
    qed
  qed
qed simp

end
