(* ===== verification/KernelSpec.thy ===== *)
theory KernelSpec
  imports KernelProps
begin

unbundle bit_operations_syntax

text \<open>
  The properties of the proof-of-stake kernel: the block a round selects, that the next modifier can
  always be computed, which modifier a kernel uses, and what the search over timestamps finds.
\<close>

section \<open>A sample index\<close>

text \<open>Three blocks in a row, one minute apart; a hash function that is constant.\<close>

definition kernel_params :: stake_params where
  "kernel_params =
     \<lparr>nModifierInterval = 60, nModifierIntervalRatio = 3, ModifierUpgradeBlock = 10, GetMinStakeAge = (\<lambda>_. 60), hashGenesisBlock = 7\<rparr>"

definition kernel_hash :: hash_funs where
  "kernel_hash = \<lparr>CRIPEMD160 = (\<lambda>x. take 20 x), CSHA1 = (\<lambda>x. take 20 x), CSHA256 = (\<lambda>_. replicate 32 0)\<rparr>"

definition kernel_block :: "ptr option \<Rightarrow> nat \<Rightarrow> uint256 \<Rightarrow> 32 word \<Rightarrow> CBlockIndex" where
  "kernel_block prev height hash time =
     CBlockIndex_SetNull\<lparr>bi_phashBlock := hash, bi_pprev := prev, bi_nHeight := int height, bi_nFlags := 4,
       bi_nStakeModifier := of_nat height, bi_nTime := time\<rparr>"

definition kernel_index :: index_heap where
  "kernel_index = [0 \<mapsto> kernel_block None 0 7 600, 1 \<mapsto> kernel_block (Some 0) 1 5 660, 2 \<mapsto> kernel_block (Some 1) 2 6 9000]"

definition kernel_map :: block_map where
  "kernel_map = [7 \<mapsto> 0, 5 \<mapsto> 1, 6 \<mapsto> 2]"

lemma kernel_block_simps [simp]:
  "bi_pprev (kernel_block p k x t) = p" "bi_nHeight (kernel_block p k x t) = int k" "bi_phashBlock (kernel_block p k x t) = x"
  "GeneratedStakeModifier (kernel_block p k x t)" "GetBlockTime (kernel_block p k x t) = uint t"
  "bi_nStakeModifier (kernel_block p k x t) = of_nat k" "\<not> bi_IsProofOfStake (kernel_block p k x t)"
  by (simp_all add: kernel_block_def CBlockIndex_SetNull_def GeneratedStakeModifier_def GetBlockTime_def bi_IsProofOfStake_def)

lemma kernel_index_simps [simp]:
  "kernel_index 0 = Some (kernel_block None 0 7 600)" "kernel_index (Suc 0) = Some (kernel_block (Some 0) 1 5 660)"
  "kernel_index 2 = Some (kernel_block (Some 1) 2 6 9000)"
  "kernel_map 7 = Some 0" "kernel_map 5 = Some 1" "kernel_map 6 = Some 2"
  by (simp_all add: kernel_index_def kernel_map_def)

lemma kernel_index_cases: "kernel_index p = Some bi \<Longrightarrow> p \<in> {0, 1, 2}"
  by (auto simp: kernel_index_def split: if_splits)

lemma kernel_index_tree: "block_tree kernel_index"
  unfolding block_tree_def using kernel_index_cases by fastforce

lemma kernel_map_ok: "map_ok kernel_index kernel_map"
  unfolding map_ok_def using kernel_index_cases by fastforce

lemma kernel_sections: "sections_ok kernel_params"
proof -
  have "\<forall>n \<in> set [0..<64]. GetStakeModifierSelectionIntervalSection kernel_params (int n) \<noteq> None"
    by code_simp
  then show ?thesis
    unfolding sections_ok_def by simp
qed

lemma kernel_interval: "GetStakeModifierSelectionInterval kernel_params = Some 2087"
  by code_simp

lemma kernel_heights [simp]: "height_of kernel_index 0 = 0" "height_of kernel_index (Suc 0) = 1" "height_of kernel_index 2 = 2"
  by (simp_all add: height_of_def)

lemma kernel_chain: "chain_of kernel_index 2 = [Some 0, Some (Suc 0), Some 2]"
proof -
  have "up kernel_index (Suc (Suc 0)) 2 = Some 0"
    by simp
  then have "up kernel_index 2 2 = Some 0"
    by (metis Suc_1 One_nat_def)
  moreover have "[0..<Suc 2] = [0, 1, 2]"
    by (simp add: upt_rec)
  ultimately show ?thesis
    unfolding chain_of_def kernel_heights by simp
qed

lemma kernel_modifier:
  "GetKernelStakeModifier kernel_params kernel_index kernel_map [Some 0, Some (Suc 0), Some 2] 7 = Some (Some (2, 2, 9000))"
  unfolding GetKernelStakeModifier_def kernel_interval
  by (simp add: chain_at_def kernel_modifier_loop.simps)

section \<open>Properties\<close>

text \<open>
  A round of the stake modifier: when a candidate is left that has not been selected, the round selects an
  unselected candidate whose selection hash is least among the unselected ones up to the end of
  the round's interval; a candidate after that end is taken only if every other unselected one is no earlier.
\<close>

theorem selection_is_least:
  assumes "sorted (map fst items)" and "indexed h M items" and "\<exists>x \<in> set items. snd x \<notin> sel"
  shows "\<exists>it p bi. SelectBlockFromCandidates H P h M items sel stop nPrev = Some (True, Some p) \<and>
    it \<in> set items \<and> snd it \<notin> sel \<and> M (snd it) = Some p \<and> h p = Some bi \<and> bi_phashBlock bi = snd it \<and>
    (let key = \<lambda>x. selection_hash H (modifier_v2 P h M items) nPrev (entry_of h M x) in
     (\<forall>x \<in> set items. snd x \<notin> sel \<longrightarrow> fst x \<le> stop \<longrightarrow> key (snd it) \<le> key (snd x)) \<and>
     (fst it \<le> stop \<or> (\<forall>x \<in> set items. snd x \<notin> sel \<longrightarrow> fst it \<le> fst x)))"
  using SelectBlock_chosen [OF assms, of H P stop nPrev] unfolding chosen_def Let_def by blast

theorem selection_is_least_witness:
  "\<exists>it p. SelectBlockFromCandidates kernel_hash kernel_params kernel_index kernel_map [(600, 7), (660, 5)] {7} 600 0 = Some (True, Some p) \<and>
    it \<in> {(600, 7), (660, 5)} \<and> snd it \<noteq> 7 \<and> kernel_map (snd it) = Some p"
proof -
  have 1: "sorted (map fst [(600::int, 7::uint256), (660, 5)])" and 2: "indexed kernel_index kernel_map [(600, 7), (660, 5)]"
    and 3: "\<exists>x \<in> set [(600::int, 7::uint256), (660, 5)]. snd x \<notin> {7::uint256}"
    by (simp_all add: indexed_def)
  show ?thesis
    using selection_is_least [OF 1 2 3, of kernel_hash kernel_params 600 0] by auto
qed

text \<open>C14: 
  The next stake modifier can always be computed: on a block tree whose entries the block map finds, with a
  positive interval, some ancestor that generated a modifier and sections that are defined, no
  assertion fails, no round runs out of blocks, and the function returns true.
\<close>

theorem stake_modifier_always_computed:
  assumes "block_tree h" and "map_ok h M" and "sections_ok P" and "nModifierInterval P \<noteq> 0" and "h prev = Some bp"
    and "up h n prev = Some q" and "h q = Some c" and "GeneratedStakeModifier c"
  shows "\<exists>m g. ComputeNextStakeModifier address H P h M (Some prev) = Some (True, m, g)"
  using assms by (rule ComputeNextStakeModifier_Some)

theorem stake_modifier_always_computed_witness:
  "\<exists>m g. ComputeNextStakeModifier 1 kernel_hash kernel_params kernel_index kernel_map (Some 2) = Some (True, m, g)"
proof -
  have 1: "nModifierInterval kernel_params \<noteq> 0" and 2: "kernel_index 2 = Some (kernel_block (Some 1) 2 6 9000)"
    and 3: "up kernel_index 0 2 = Some 2" and 4: "GeneratedStakeModifier (kernel_block (Some 1) 2 6 9000)"
    by (simp_all add: kernel_params_def)
  show ?thesis
    by (rule stake_modifier_always_computed [OF kernel_index_tree kernel_map_ok kernel_sections 1 2 3 2 4])
qed

text \<open>
  The modifier of a kernel is that of the first block of the active chain, above the block the coin comes
  from, that generated a modifier at least a selection interval after it; when there is none the function
  reports an error. It returns in both cases.
\<close>

theorem kernel_modifier_is_first_late:
  assumes "block_tree h" and "chain_ok h v" and "M x = Some p" and "h p = Some bf"
    and "GetStakeModifierSelectionInterval P = Some d" and "0 < d"
  shows "\<exists>r. GetKernelStakeModifier P h M v x = Some r \<and>
    (let k = nat (bi_nHeight bf + 1); late = late_modifier h v (GetBlockTime bf + d) in
     case r of
       None \<Rightarrow> \<forall>j\<ge>k. \<not> late j
     | Some (m, height, time) \<Rightarrow>
         \<exists>j q b. k \<le> j \<and> v ! j = Some q \<and> h q = Some b \<and> late j \<and> (\<forall>i. k \<le> i \<longrightarrow> i < j \<longrightarrow> \<not> late i) \<and> m = bi_nStakeModifier b)"
proof -
  define k where "k = nat (bi_nHeight bf + 1)"
  define late where "late = late_modifier h v (GetBlockTime bf + d)"
  have k: "bi_nHeight bf + 1 = int k"
    using height_of_int [OF assms(1,4)] by (simp add: k_def)
  obtain r where r: "kernel_modifier_loop h v (GetBlockTime bf + d) p (chain_at v (int k)) (bi_nHeight bf) (GetBlockTime bf) = Some r"
    "case r of None \<Rightarrow> \<forall>j\<ge>k. \<not> late j
     | Some (q, height, time) \<Rightarrow> \<exists>j\<ge>k. v ! j = Some q \<and> late j \<and> (\<forall>i. k \<le> i \<longrightarrow> i < j \<longrightarrow> \<not> late i)"
    using kernel_modifier_loop_first [OF assms(1,2), of "GetBlockTime bf" "GetBlockTime bf + d" k "length v - k" p "bi_nHeight bf"]
      assms(6) unfolding late_def by auto
  show ?thesis
  proof (cases r)
    case None
    then show ?thesis
      using assms(3-5) r k unfolding k_def [symmetric] late_def [symmetric] Let_def by (simp add: GetKernelStakeModifier_def)
  next
    case (Some y)
    obtain q height time where y: "y = (q, height, time)"
      by (cases y)
    obtain j where j: "k \<le> j" "v ! j = Some q" "late j" "\<forall>i. k \<le> i \<longrightarrow> i < j \<longrightarrow> \<not> late i"
      using r(2) Some y by auto
    then obtain b where b: "h q = Some b"
      unfolding late_def late_modifier_def by auto
    have "GetKernelStakeModifier P h M v x = Some (Some (bi_nStakeModifier b, height, time))"
      using assms(3-5) r(1) k Some y b by (simp add: GetKernelStakeModifier_def)
    then show ?thesis
      using j b unfolding k_def [symmetric] late_def [symmetric] Let_def by auto
  qed
qed

theorem kernel_modifier_is_first_late_witness:
  "\<exists>height time. GetKernelStakeModifier kernel_params kernel_index kernel_map (chain_of kernel_index 2) 7 = Some (Some (2, height, time))"
proof -
  have ok: "chain_ok kernel_index (chain_of kernel_index 2)"
    unfolding chain_ok_def by (intro disjI2 exI [of _ 2] exI conjI) (rule kernel_index_simps, rule refl)
  have late: "late_modifier kernel_index (chain_of kernel_index 2) 2687 j \<longleftrightarrow> j = 2" for j
  proof -
    consider "j = 0" | "j = 1" | "j = 2" | "3 \<le> j"
      by linarith
    then show ?thesis
      unfolding kernel_chain late_modifier_def by cases simp_all
  qed
  have "\<exists>r. GetKernelStakeModifier kernel_params kernel_index kernel_map (chain_of kernel_index 2) 7 = Some r \<and>
    (let k = nat (bi_nHeight (kernel_block None 0 7 600) + 1);
         late = late_modifier kernel_index (chain_of kernel_index 2) (GetBlockTime (kernel_block None 0 7 600) + 2087) in
     case r of
       None \<Rightarrow> \<forall>j\<ge>k. \<not> late j
     | Some (m, height, time) \<Rightarrow>
         \<exists>j q b. k \<le> j \<and> chain_of kernel_index 2 ! j = Some q \<and> kernel_index q = Some b \<and> late j \<and>
           (\<forall>i. k \<le> i \<longrightarrow> i < j \<longrightarrow> \<not> late i) \<and> m = bi_nStakeModifier b)"
    by (rule kernel_modifier_is_first_late [where p = 0, OF kernel_index_tree ok _ _ kernel_interval]) simp_all
  then show ?thesis
    by (auto simp: late [unfolded kernel_chain] Let_def kernel_chain split: option.splits)
qed

definition kernel_accepts ::
  "hash_funs \<Rightarrow> stake_params \<Rightarrow> index_heap \<Rightarrow> block_map \<Rightarrow> CChain \<Rightarrow> int \<Rightarrow> 32 word \<Rightarrow> block_from \<Rightarrow> CTransaction \<Rightarrow>
   COutPoint \<Rightarrow> 32 word \<Rightarrow> bool" where
  "kernel_accepts H P h M v now nBits blockFrom tx out u \<longleftrightarrow>
     (case CheckStakeKernelHash H P h M v (\<lambda>_. chain_Height v) now nBits blockFrom tx out u 0 True 0 of Some c \<Rightarrow> kr_ok c | None \<Rightarrow> False)"

lemma window_times:
  fixes t d u :: "32 word"
  assumes "unat t + unat d < 2 ^ 32"
  shows "(t < u \<and> u \<le> t + d) \<longleftrightarrow> (\<exists>j < unat d. u = t + d - of_nat j)"
proof -
  have td: "unat (t + d) = unat t + unat d"
    using assms by (simp add: unat_word_ariths)
  have *: "unat (t + d - of_nat j) = unat t + unat d - j" if "j < unat d" for j
  proof -
    have j: "unat (of_nat j :: 32 word) = j"
      using that assms by (simp add: unat_of_nat take_bit_nat_eq_self)
    then have "(of_nat j :: 32 word) \<le> t + d"
      using that td by (simp add: word_le_nat_alt)
    then show ?thesis
      using j td by (simp add: unat_sub)
  qed
  show ?thesis
  proof
    assume u: "t < u \<and> u \<le> t + d"
    define j where "j = unat t + unat d - unat u"
    have b: "unat t < unat u" "unat u \<le> unat t + unat d"
      using u td by (simp_all add: word_less_nat_alt word_le_nat_alt)
    then have "j < unat d" "unat t + unat d - j = unat u"
      by (simp_all add: j_def)
    then show "\<exists>j < unat d. u = t + d - of_nat j"
      using * by (metis word_unat_eq_iff)
  next
    assume "\<exists>j < unat d. u = t + d - of_nat j"
    then obtain j where "j < unat d" "u = t + d - of_nat j"
      by blast
    then show "t < u \<and> u \<le> t + d"
      using * [of j] td by (simp add: word_less_nat_alt word_le_nat_alt)
  qed
qed

text \<open>The coin is old enough at a time; the tests that come before any hashing.\<close>

definition coin_ripe :: "stake_params \<Rightarrow> CChain \<Rightarrow> block_from \<Rightarrow> 32 word \<Rightarrow> bool" where
  "coin_ripe P v bf t \<longleftrightarrow> bf_nTime bf \<le> t \<and> uint (bf_nTime bf) + GetMinStakeAge P (chain_Height v + 1) \<le> uint t"

lemma check_from_search:
  assumes "CheckStakeKernelHash H P h M v tip now nBits bf tx out t d False hp = Some r" and "coin_ripe P v bf t"
  obtains (none) "\<not> kr_ok r" "kr_mapHashed r = None" "\<And>u. t \<le> u \<Longrightarrow> \<not> kernel_accepts H P h M v now nBits bf tx out u"
    | (search) hash hit j where "drift_loop tip (chain_Height v) hash hit t d 0 (unat d) hp = (kr_ok r, kr_nTimeTx r, kr_hashProof r, j)"
      "kr_mapHashed r = Some (if tip j < 0 then [] else [(tip j, now)])"
      "\<And>u. t \<le> u \<Longrightarrow> kernel_accepts H P h M v now nBits bf tx out u \<longleftrightarrow> hit (hash u)"
proof -
  have len: "unat (out_n out) < length (vout tx)"
    using assms(1) by (rule contrapos_pp) (simp add: CheckStakeKernelHash_def)
  have t: "\<not> u < bf_nTime bf" "\<not> uint u < uint (bf_nTime bf) + GetMinStakeAge P (chain_Height v + 1)" if "t \<le> u" for u
    using assms(2) that by (auto simp: coin_ripe_def word_le_def word_less_def)
  obtain m where m: "GetKernelStakeModifier P h M v (bf_hash bf) = Some m"
    using assms(1) len t [of t] by (auto simp: CheckStakeKernelHash_def Let_def split: if_splits bind_splits)
  show thesis
  proof (cases m)
    case None
    then show ?thesis
      using assms(1) len t [of t] m t by (intro none) (auto simp: CheckStakeKernelHash_def kernel_accepts_def Let_def)
  next
    case (Some y)
    obtain x a b where y: "y = (x, a, b)"
      by (rule prod_cases3)
    let ?hash = "\<lambda>t. stakeHash H t (ser_u64 x) (out_n out) (out_hash out) (bf_nTime bf)"
    let ?hit = "\<lambda>hp. stakeTargetHit hp (nValue (vout tx ! unat (out_n out))) (of_nat (uval (fst (SetCompact nBits))))"
    obtain ok t' hp' j where loop: "drift_loop tip (chain_Height v) ?hash ?hit t d 0 (unat d) hp = (ok, t', hp', j)"
      by (rule prod_cases4)
    then have "r = \<lparr>kr_ok = ok, kr_nTimeTx = t', kr_hashProof = hp', kr_mapHashed = Some (if tip j < 0 then [] else [(tip j, now)])\<rparr>"
      using assms(1) len t [of t] m Some y by (simp add: CheckStakeKernelHash_def Let_def)
    moreover have "kernel_accepts H P h M v now nBits bf tx out u \<longleftrightarrow> ?hit (?hash u)" if "t \<le> u" for u
      using t [OF that] len m Some y by (simp add: CheckStakeKernelHash_def kernel_accepts_def Let_def)
    ultimately show ?thesis
      using loop by (intro search [of ?hash ?hit j]) simp_all
  qed
qed

definition kernel_coin :: CTransaction where
  "kernel_coin = \<lparr>nVersion = 1, vin = [], vout = [\<lparr>nValue = 10000, scriptPubKey = [], nRounds = 0\<rparr>], nLockTime = 0\<rparr>"

lemma kernel_target: "uval (fst (SetCompact 0x01010000)) = 1"
proof -
  have "compact_size 0x01010000 = 1" "mantissa 0x01010000 = 65536"
    by (simp_all add: compact_size_def mantissa_def)
  then show ?thesis
    unfolding SetCompact_value by (simp add: compact_value_def)
qed

lemma kernel_hit: "stakeTargetHit (stakeHash kernel_hash t ss i x b) 10000 (of_nat (uval (fst (SetCompact 0x01010000))))"
proof -
  have "uint256_of_bytes (replicate 32 0) = 0"
    by (simp add: uint256_of_bytes_def numeral_eq_Suc)
  then have "stakeHash kernel_hash t ss i x b = 0"
    by (simp add: stakeHash_def hash_bytes_def CHash256_def kernel_hash_def)
  then show ?thesis
    unfolding kernel_target by (simp add: stakeTargetHit_def)
qed

lemma kernel_search_result:
  "CheckStakeKernelHash kernel_hash kernel_params kernel_index kernel_map (chain_of kernel_index 2) (\<lambda>_. 2) 10000 0x01010000
     \<lparr>bf_hash = 7, bf_nTime = 600\<rparr> kernel_coin \<lparr>out_hash = 1, out_n = 0\<rparr> 9000 2 False 0 =
   Some \<lparr>kr_ok = True, kr_nTimeTx = 9002, kr_hashProof = stakeHash kernel_hash 9002 (ser_u64 2) 0 1 600,
     kr_mapHashed = Some [(2, 10000)]\<rparr>"
proof -
  have two: "unat (2 :: 32 word) = Suc (Suc 0)"
    by simp
  show ?thesis
    unfolding kernel_chain CheckStakeKernelHash_def two using kernel_modifier kernel_hit by (simp add: kernel_coin_def kernel_params_def Let_def chain_Height_def)
qed



end
