(* ===== verification/Block.thy ===== *)
theory Block
  imports TxCodec HashFuns SigHash
begin

text \<open>
  Blocks, \<open>src/primitives/block.h\<close> and \<open>block.cpp\<close>: the header and its hash, blocks, and their
  serialization, each class an interpretation of \<open>codec\<close>. The version is a signed integer of 32 bits, kept as a word.
  The fields of \<open>CBlock\<close> that are only in memory (\<open>payee\<close>, \<open>vMerkleTree\<close>) are left out.
\<close>

record CBlockHeader =
  bh_nVersion :: "32 word"
  bh_hashPrevBlock :: uint256
  bh_hashMerkleRoot :: uint256
  bh_nTime :: "32 word"
  bh_nBits :: "32 word"
  bh_nNonce :: "32 word"
  bh_nAccumulatorCheckpoint :: uint256

record CBlock = CBlockHeader +
  bl_vtx :: "CTransaction list"
  bl_vchBlockSig :: "byte list"

section \<open>Headers\<close>

abbreviation (input) BLOCK_VERSION4 :: int where "BLOCK_VERSION4 \<equiv> 4"
abbreviation (input) BLOCK_VERSION5 :: int where "BLOCK_VERSION5 \<equiv> 5"
abbreviation (input) BLOCK_CURRENT_VERSION :: "32 word" where "BLOCK_CURRENT_VERSION \<equiv> 7"

definition CBlockHeader_SetNull :: CBlockHeader where
  "CBlockHeader_SetNull =
     \<lparr>bh_nVersion = BLOCK_CURRENT_VERSION, bh_hashPrevBlock = 0, bh_hashMerkleRoot = 0, bh_nTime = 0, bh_nBits = 0,
      bh_nNonce = 0, bh_nAccumulatorCheckpoint = 0\<rparr>"

definition header_IsNull :: "'a CBlockHeader_scheme \<Rightarrow> bool" where
  "header_IsNull b \<longleftrightarrow> bh_nBits b = 0"

text \<open>The checkpoint of the accumulators is written from version 5 on; a header that is read starts null.\<close>

definition ser_header :: "'a CBlockHeader_scheme \<Rightarrow> byte list" where
  "ser_header b =
     ser_u32 (bh_nVersion b) @ ser_u256 (bh_hashPrevBlock b) @ ser_u256 (bh_hashMerkleRoot b) @ ser_u32 (bh_nTime b) @
     ser_u32 (bh_nBits b) @ ser_u32 (bh_nNonce b) @
     (if sint (bh_nVersion b) > BLOCK_VERSION4 then ser_u256 (bh_nAccumulatorCheckpoint b) else [])"

definition unser_checkpoint :: "32 word \<Rightarrow> uint256 reader" where
  "unser_checkpoint ver bs =
     (if sint ver > BLOCK_VERSION4 then unser_u256 bs
      else Some (bh_nAccumulatorCheckpoint CBlockHeader_SetNull, bs))"

definition unser_header :: "CBlockHeader reader" where
  "unser_header bs = do {
     (v, bs) \<leftarrow> unser_u32 bs;
     (prev, bs) \<leftarrow> unser_u256 bs;
     (root, bs) \<leftarrow> unser_u256 bs;
     (t, bs) \<leftarrow> unser_u32 bs;
     (bits, bs) \<leftarrow> unser_u32 bs;
     (nonce, bs) \<leftarrow> unser_u32 bs;
     (acc, bs) \<leftarrow> unser_checkpoint v bs;
     Some (\<lparr>bh_nVersion = v, bh_hashPrevBlock = prev, bh_hashMerkleRoot = root, bh_nTime = t, bh_nBits = bits,
            bh_nNonce = nonce, bh_nAccumulatorCheckpoint = acc\<rparr>, bs) }"

text \<open>
  \<open>GetHash\<close> hashes the memory of the object: the fields have no padding between them. Up to version 4 it ends
  at \<open>nNonce\<close>, then at \<open>nAccumulatorCheckpoint\<close>.
\<close>

definition header_memory :: "'a CBlockHeader_scheme \<Rightarrow> byte list" where
  "header_memory b =
     ser_u32 (bh_nVersion b) @ ser_u256 (bh_hashPrevBlock b) @ ser_u256 (bh_hashMerkleRoot b) @ ser_u32 (bh_nTime b) @
     ser_u32 (bh_nBits b) @ ser_u32 (bh_nNonce b)"

definition header_GetHash :: "hash_funs \<Rightarrow> sph_funs \<Rightarrow> 'a CBlockHeader_scheme \<Rightarrow> uint256" where
  "header_GetHash H S b =
     uint256_of_bytes
       (if sint (bh_nVersion b) < BLOCK_VERSION5 then HashQuark S (header_memory b)
        else CHash256 H (header_memory b @ ser_u256 (bh_nAccumulatorCheckpoint b)))"

definition header_GetBlockTime :: "'a CBlockHeader_scheme \<Rightarrow> int" where
  "header_GetBlockTime b = uint (bh_nTime b)"

section \<open>Blocks\<close>

definition block_IsProofOfStake :: "CBlock \<Rightarrow> bool" where
  "block_IsProofOfStake b \<longleftrightarrow> 1 < length (bl_vtx b) \<and> tx_IsCoinStake (bl_vtx b ! 1)"

definition block_IsProofOfWork :: "CBlock \<Rightarrow> bool" where
  "block_IsProofOfWork b \<longleftrightarrow> \<not> block_IsProofOfStake b"

definition GetProofOfStake :: "CBlock \<Rightarrow> COutPoint \<times> 32 word" where
  "GetProofOfStake b =
     (if block_IsProofOfStake b then (prevout (vin (bl_vtx b ! 1) ! 0), bh_nTime b) else (COutPoint_SetNull, 0))"

definition block_GetBlockHeader :: "CBlock \<Rightarrow> CBlockHeader" where
  "block_GetBlockHeader b =
     \<lparr>bh_nVersion = bh_nVersion b, bh_hashPrevBlock = bh_hashPrevBlock b, bh_hashMerkleRoot = bh_hashMerkleRoot b,
      bh_nTime = bh_nTime b, bh_nBits = bh_nBits b, bh_nNonce = bh_nNonce b,
      bh_nAccumulatorCheckpoint = bh_nAccumulatorCheckpoint b\<rparr>"

text \<open>The constructor from a header.\<close>

definition CBlock_of :: "CBlockHeader \<Rightarrow> CBlock" where
  "CBlock_of head = CBlockHeader.extend head (CBlock.fields [] [])"

text \<open>The signature is written for blocks with a coinstake only.\<close>

definition ser_block :: "CBlock \<Rightarrow> byte list" where
  "ser_block b =
     ser_header b @ ser_vector ser_tx (bl_vtx b) @
     (if 1 < length (bl_vtx b) \<and> tx_IsCoinStake (bl_vtx b ! 1) then ser_bytes (bl_vchBlockSig b) else [])"

definition unser_sig :: "CTransaction list \<Rightarrow> byte list reader" where
  "unser_sig txs bs = (if 1 < length txs \<and> tx_IsCoinStake (txs ! 1) then unser_bytes bs else Some ([], bs))"

definition unser_block :: "CBlock reader" where
  "unser_block bs = do {
     (head, bs) \<leftarrow> unser_header bs;
     (txs, bs) \<leftarrow> unser_vector unser_tx bs;
     (sig, bs) \<leftarrow> unser_sig txs bs;
     Some (CBlockHeader.extend head (CBlock.fields txs sig), bs) }"

text \<open>What a stream carries: fields that are not written have their defaults.\<close>

definition wf_header :: "'a CBlockHeader_scheme \<Rightarrow> bool" where
  "wf_header b \<longleftrightarrow> sint (bh_nVersion b) > 4 \<or> bh_nAccumulatorCheckpoint b = 0"

definition wf_block :: "CBlock \<Rightarrow> bool" where
  "wf_block b \<longleftrightarrow> wf_header b \<and> wf_vector wf_tx (bl_vtx b) \<and>
     (if block_IsProofOfStake b then wf_bytes (bl_vchBlockSig b) else bl_vchBlockSig b = [])"

section \<open>Both are codecs\<close>

lemma unser_checkpoint_iff:
  "unser_checkpoint v bs = Some (x, r) \<longleftrightarrow> (if sint v > 4 then bs = ser_u256 x @ r else x = 0 \<and> bs = r)"
  by (auto simp: unser_checkpoint_def u256.get_iff CBlockHeader_SetNull_def)

lemma unser_header_put: "wf_header b \<Longrightarrow> unser_header (ser_header b @ r) = Some (b, r)" for b :: CBlockHeader
  by (cases "sint (bh_nVersion b) > 4")
    (simp_all add: unser_header_def ser_header_def wf_header_def u32.get_put u256.get_put unser_checkpoint_def CBlockHeader_SetNull_def)

lemma unser_header_get: "unser_header bs = Some (b, r) \<Longrightarrow> wf_header b \<and> bs = ser_header b @ r"
  by (auto simp: unser_header_def bind_eq_Some_conv u32.get_iff u256.get_iff unser_checkpoint_iff wf_header_def ser_header_def
      split: if_splits)

interpretation hdr: codec "ser_header :: CBlockHeader \<Rightarrow> byte list" unser_header wf_header
  by unfold_locales (rule unser_header_put, assumption, rule unser_header_get)

interpretation txs: codec "ser_vector ser_tx" "unser_vector unser_tx" "wf_vector wf_tx"
  by (rule tx.vector_codec)

lemma unser_sig_iff:
  "unser_sig txs bs = Some (x, r) \<longleftrightarrow>
     (if 1 < length txs \<and> tx_IsCoinStake (txs ! 1) then wf_bytes x \<and> bs = ser_bytes x @ r else x = [] \<and> bs = r)"
  by (auto simp: unser_sig_def bytes.get_iff)

lemma extend_simps [simp]:
  "bh_nVersion (CBlockHeader.extend head m) = bh_nVersion head" "bh_hashPrevBlock (CBlockHeader.extend head m) = bh_hashPrevBlock head"
  "bh_hashMerkleRoot (CBlockHeader.extend head m) = bh_hashMerkleRoot head" "bh_nTime (CBlockHeader.extend head m) = bh_nTime head"
  "bh_nBits (CBlockHeader.extend head m) = bh_nBits head" "bh_nNonce (CBlockHeader.extend head m) = bh_nNonce head"
  "bh_nAccumulatorCheckpoint (CBlockHeader.extend head m) = bh_nAccumulatorCheckpoint head"
  by (simp_all add: CBlockHeader.extend_def)

lemma extend_block [simp]:
  "bl_vtx (CBlockHeader.extend head (CBlock.fields txs sig)) = txs" "bl_vchBlockSig (CBlockHeader.extend head (CBlock.fields txs sig)) = sig"
  by (simp_all add: CBlockHeader.extend_def CBlock.fields_def)

lemma ser_header_extend [simp]: "ser_header (CBlockHeader.extend head m) = ser_header head"
  by (simp add: ser_header_def)

lemma wf_header_extend [simp]: "wf_header (CBlockHeader.extend head m) = wf_header head"
  by (simp add: wf_header_def)

lemma block_parts: obtains head txs sig where "b = CBlockHeader.extend head (CBlock.fields txs sig)"
proof -
  have "b = CBlockHeader.extend (CBlockHeader.truncate b) (CBlock.fields (bl_vtx b) (bl_vchBlockSig b))"
    by (cases b) (simp add: CBlockHeader.extend_def CBlockHeader.truncate_def CBlock.fields_def)
  then show thesis
    by (rule that)
qed

lemma extend_eq: "CBlockHeader.extend a (CBlock.fields s x) = CBlockHeader.extend b (CBlock.fields t y) \<longleftrightarrow> a = b \<and> s = t \<and> x = y"
  by (cases a; cases b) (auto simp: CBlockHeader.extend_def CBlock.fields_def)

lemma unser_block_iff: "unser_block bs = Some (b, r) \<longleftrightarrow> wf_block b \<and> bs = ser_block b @ r"
proof -
  obtain head txs sig where b: "b = CBlockHeader.extend head (CBlock.fields txs sig)"
    by (rule block_parts)
  show ?thesis
    unfolding b unser_block_def
    by (auto simp: bind_eq_Some_conv hdr.get_iff txs.get_iff unser_sig_iff extend_eq wf_block_def block_IsProofOfStake_def
        ser_block_def split: if_splits)
qed

interpretation blk: codec ser_block unser_block wf_block
  by unfold_locales (simp_all add: unser_block_iff)

section \<open>The hash and the serialization\<close>

lemma header_bytes:
  "ser_header b = header_memory b @ (if sint (bh_nVersion b) > 4 then ser_u256 (bh_nAccumulatorCheckpoint b) else [])"
  by (simp add: ser_header_def header_memory_def)

text \<open>The bytes that are hashed are those of the serialized header.\<close>

lemma header_GetHash_ser:
  "header_GetHash H S b =
     uint256_of_bytes ((if sint (bh_nVersion b) < 5 then HashQuark S else CHash256 H) (ser_header b))"
  by (simp add: header_GetHash_def header_bytes)

end
