(* ===== verification/AddIndex.thy ===== *)
theory AddIndex
  imports Block KernelProps ChainStateInv
begin

unbundle bit_operations_syntax

text \<open>
  New entries of the block index, \<open>AddToBlockIndex\<close> of \<open>src/main.cpp\<close> with the constructor of
  \<open>CBlockIndex\<close> from a block and the positions on disk. The globals are a record; the address that \<open>new\<close> returns is an argument.
  \<open>None\<close> is a failed assertion or a dangling pointer.
\<close>

record block_store =
  bs_heap :: index_heap
  bs_map :: block_map
  bs_best_header :: "ptr option"
  bs_stake_seen :: "(COutPoint \<times> 32 word) set"
  bs_proofs :: "uint256 \<Rightarrow> uint256 option"
  bs_dirty :: "ptr set"

section \<open>The constructor\<close>

definition SetProofOfStake :: "CBlockIndex \<Rightarrow> CBlockIndex" where
  "SetProofOfStake bi = bi\<lparr>bi_nFlags := bi_nFlags bi OR BLOCK_PROOF_OF_STAKE\<rparr>"

definition CBlockIndex_of :: "CBlock \<Rightarrow> CBlockIndex" where
  "CBlockIndex_of b =
     (let bi = CBlockIndex_SetNull\<lparr>bi_nVersion := sint (bh_nVersion b), bi_hashMerkleRoot := bh_hashMerkleRoot b,
                 bi_nTime := bh_nTime b, bi_nBits := bh_nBits b, bi_nNonce := bh_nNonce b\<rparr>;
          bi = (if sint (bh_nVersion b) > BLOCK_VERSION4
                then bi\<lparr>bi_nAccumulatorCheckpoint := bh_nAccumulatorCheckpoint b\<rparr> else bi);
          bi = bi\<lparr>bi_bnChainTrust := replicate 8 0, bi_nMint := 0, bi_nMoneySupply := 0, bi_nFlags := 0, bi_nStakeModifier := 0,
                 bi_nStakeModifierChecksum := 0, bi_hashProofOfStake := 0\<rparr>
      in if block_IsProofOfStake b
         then (SetProofOfStake bi)\<lparr>bi_prevoutStake := prevout (vin (bl_vtx b ! 1) ! 0), bi_nStakeTime := bh_nTime b\<rparr>
         else bi\<lparr>bi_prevoutStake := COutPoint_SetNull, bi_nStakeTime := 0\<rparr>)"

text \<open>Positions on disk, \<open>(-1, 0)\<close> when the status says that there are no data.\<close>

definition GetBlockPos :: "CBlockIndex \<Rightarrow> int \<times> 32 word" where
  "GetBlockPos bi = (if bi_nStatus bi AND BLOCK_HAVE_DATA \<noteq> 0 then (bi_nFile bi, bi_nDataPos bi) else (- 1, 0))"

definition GetUndoPos :: "CBlockIndex \<Rightarrow> int \<times> 32 word" where
  "GetUndoPos bi = (if bi_nStatus bi AND BLOCK_HAVE_UNDO \<noteq> 0 then (bi_nFile bi, bi_nUndoPos bi) else (- 1, 0))"

text \<open>A header without a parent keeps the null hash of a new header.\<close>

definition bi_GetBlockHeader :: "index_heap \<Rightarrow> CBlockIndex \<Rightarrow> CBlockHeader option" where
  "bi_GetBlockHeader h bi = do {
     prev \<leftarrow> (case bi_pprev bi of
               None \<Rightarrow> Some (bh_hashPrevBlock CBlockHeader_SetNull)
             | Some q \<Rightarrow> map_option bi_phashBlock (h q));
     Some \<lparr>bh_nVersion = of_int (bi_nVersion bi), bh_hashPrevBlock = prev, bh_hashMerkleRoot = bi_hashMerkleRoot bi,
           bh_nTime = bi_nTime bi, bh_nBits = bi_nBits bi, bh_nNonce = bi_nNonce bi,
           bh_nAccumulatorCheckpoint = bi_nAccumulatorCheckpoint bi\<rparr> }"

section \<open>Adding a block\<close>

text \<open>The trust, the entropy bit and the proof hash; \<open>mapProofOfStake[hash]\<close> creates a missing entry.\<close>

definition stake_entry ::
  "limbs \<Rightarrow> uint256 \<Rightarrow> (uint256 \<Rightarrow> uint256 option) \<Rightarrow> CBlockIndex \<Rightarrow> CBlockIndex \<times> (uint256 \<Rightarrow> uint256 option)" where
  "stake_entry trust hash mapProofOfStake bi =
     (let bi = bi\<lparr>bi_bnChainTrust := trust\<rparr>;
          bi = snd (SetStakeEntropyBit bi (GetStakeEntropyBit bi))
      in if \<not> bi_IsProofOfStake bi then (bi, mapProofOfStake)
         else (case mapProofOfStake hash of
                 Some x \<Rightarrow> (bi\<lparr>bi_hashProofOfStake := x\<rparr>, mapProofOfStake)
               | None \<Rightarrow> (bi\<lparr>bi_hashProofOfStake := 0\<rparr>, mapProofOfStake(hash \<mapsto> 0))))"

text \<open>The part for a block whose parent is in the index.\<close>

definition link_block ::
  "hash_funs \<Rightarrow> stake_params \<Rightarrow> 64 word \<Rightarrow> ptr \<Rightarrow> ptr \<Rightarrow> uint256 \<Rightarrow> block_store \<Rightarrow> block_store option" where
  "link_block H P address p q hash s = do {
     bq \<leftarrow> bs_heap s q;
     bi \<leftarrow> bs_heap s p;
     h \<leftarrow> BuildSkip ((bs_heap s)(p \<mapsto> bi\<lparr>bi_pprev := Some q, bi_nHeight := bi_nHeight bq + 1\<rparr>)) p;
     bq \<leftarrow> h q;
     (let h = h(q \<mapsto> bq\<lparr>bi_pnext := Some p\<rparr>) in do {
        bi \<leftarrow> h p;
        trust \<leftarrow> GetBlockTrust bi;
        (case stake_entry (uint_add (bi_bnChainTrust bq) trust) hash (bs_proofs s) bi of (bi, proofs) \<Rightarrow>
           let h = h(p \<mapsto> bi) in do {
             r \<leftarrow> ComputeNextStakeModifier address H P h (bs_map s) (bi_pprev bi);
             (case r of (_, nStakeModifier, fGeneratedStakeModifier) \<Rightarrow>
                let bi = SetStakeModifier bi nStakeModifier fGeneratedStakeModifier in do {
                  c \<leftarrow> GetStakeModifierChecksum H P h bi;
                  Some (s\<lparr>bs_heap := h(p \<mapsto> bi\<lparr>bi_nStakeModifierChecksum := c\<rparr>), bs_proofs := proofs\<rparr>) }) }) }) }"

text \<open>The work of the chain, the status, the best header and the pointer of the parent.\<close>

definition finish_block :: "ptr \<Rightarrow> block_store \<Rightarrow> block_store option" where
  "finish_block p s = do {
     bi \<leftarrow> bs_heap s p;
     work \<leftarrow> (case bi_pprev bi of None \<Rightarrow> Some (replicate 8 0) | Some q \<Rightarrow> map_option bi_nChainWork (bs_heap s q));
     proof' \<leftarrow> GetBlockProof (bi_nBits bi);
     (_, bi) \<leftarrow> RaiseValidity (bi\<lparr>bi_nChainWork := uint_add work proof'\<rparr>) BLOCK_VALID_TREE;
     (let h = (bs_heap s)(p \<mapsto> bi) in do {
        better \<leftarrow> (case bs_best_header s of
                    None \<Rightarrow> Some True
                  | Some b \<Rightarrow> map_option (\<lambda>bb. CompareTo (bi_nChainWork bb) (bi_nChainWork bi) < 0) (h b));
        h \<leftarrow> (if bi_nHeight bi \<noteq> 0 then do {
               q \<leftarrow> bi_pprev bi;
               bq \<leftarrow> h q;
               Some (h(q \<mapsto> bq\<lparr>bi_pnext := Some p\<rparr>)) }
             else Some h);
        Some (s\<lparr>bs_heap := h, bs_best_header := (if better then Some p else bs_best_header s), bs_dirty := insert p (bs_dirty s)\<rparr>) }) }"

definition AddToBlockIndex ::
  "hash_funs \<Rightarrow> sph_funs \<Rightarrow> stake_params \<Rightarrow> 64 word \<Rightarrow> ptr \<Rightarrow> CBlock \<Rightarrow> block_store \<Rightarrow> (ptr \<times> block_store) option" where
  "AddToBlockIndex H S P address new b s =
     (let hash = header_GetHash H S b in
      case bs_map s hash of
        Some p \<Rightarrow> Some (p, s)
      | None \<Rightarrow>
          let bi = (CBlockIndex_of b)\<lparr>bi_nSequenceId := 0, bi_phashBlock := hash\<rparr>;
              s = s\<lparr>bs_heap := (bs_heap s)(new \<mapsto> bi), bs_map := (bs_map s)(hash \<mapsto> new),
                    bs_stake_seen := (if bi_IsProofOfStake bi then insert (bi_prevoutStake bi, bi_nStakeTime bi) (bs_stake_seen s)
                                      else bs_stake_seen s)\<rparr> in do {
            s \<leftarrow> (case bs_map s (bh_hashPrevBlock b) of
                   None \<Rightarrow> Some s
                 | Some q \<Rightarrow> link_block H P address new q hash s);
            s \<leftarrow> finish_block new s;
            Some (new, s) })"

end
