(* ===== verification/AddIndexProps.thy ===== *)
theory AddIndexProps
  imports AddIndex
begin

unbundle bit_operations_syntax

text \<open>
  Adding a block keeps the block index: a tree with skip pointers that agree with the parents, a map that
  finds exactly its entries, work that adds up, a best header with most work, and modifiers that can always be computed.
\<close>

section \<open>A new leaf\<close>

definition new_leaf :: "index_heap \<Rightarrow> ptr \<Rightarrow> CBlockIndex \<Rightarrow> ptr \<Rightarrow> CBlockIndex \<Rightarrow> bool" where
  "new_leaf h new b q bq \<longleftrightarrow> block_tree h \<and> h new = None \<and> h q = Some bq \<and> bi_pprev b = Some q \<and> bi_nHeight b = bi_nHeight bq + 1"

lemma new_leafD:
  assumes "new_leaf h new b q bq"
  shows "block_tree h" and "h new = None" and "h q = Some bq" and "bi_pprev b = Some q" and "bi_nHeight b = bi_nHeight bq + 1"
    and "bi_nHeight bq = int (height_of h q)" and "q \<noteq> new"
  using assms height_of_int [of h q bq] by (auto simp: new_leaf_def)

lemma leaf_height:
  assumes "new_leaf h new b q bq"
  shows "x \<noteq> new \<Longrightarrow> height_of (h(new \<mapsto> b)) x = height_of h x" and "height_of (h(new \<mapsto> b)) new = Suc (height_of h q)"
proof -
  have "nat (bi_nHeight b) = Suc (height_of h q)"
    using new_leafD(5,6) [OF assms] by simp
  then show "height_of (h(new \<mapsto> b)) new = Suc (height_of h q)"
    by (simp add: height_of_def)
qed (simp add: height_of_def)

lemma leaf_block_tree:
  assumes "new_leaf h new b q bq"
  shows "block_tree (h(new \<mapsto> b))"
  unfolding block_tree_def
proof (intro allI impI)
  fix p bi
  assume p: "(h(new \<mapsto> b)) p = Some bi"
  show "case bi_pprev bi of None \<Rightarrow> bi_nHeight bi = 0
      | Some q \<Rightarrow> \<exists>c. (h(new \<mapsto> b)) q = Some c \<and> 0 \<le> bi_nHeight c \<and> bi_nHeight bi = bi_nHeight c + 1"
  proof (cases "p = new")
    case True
    then show ?thesis
      using p new_leafD [OF assms] by simp
  next
    case False
    then have "h p = Some bi"
      using p by simp
    with new_leafD(1) [OF assms] show ?thesis
    proof (cases rule: block_tree_cases)
      case root
      then show ?thesis by simp
    next
      case (child y c)
      then show ?thesis
        using new_leafD(2) [OF assms] by (cases "y = new") auto
    qed
  qed
qed

lemma leaf_up:
  assumes "new_leaf h new b q bq"
  shows "h x \<noteq> None \<Longrightarrow> up (h(new \<mapsto> b)) n x = up h n x"
proof (induction n arbitrary: x)
  case (Suc n)
  then obtain bi where x: "h x = Some bi"
    by blast
  with new_leafD(2) [OF assms] have "x \<noteq> new"
    by auto
  from new_leafD(1) [OF assms] x show ?case
  proof (cases rule: block_tree_cases)
    case root
    then show ?thesis
      using x \<open>x \<noteq> new\<close> by simp
  next
    case (child y c)
    then show ?thesis
      using x \<open>x \<noteq> new\<close> Suc.IH [of y] by simp
  qed
qed simp

lemma leaf_skip:
  assumes "new_leaf h new b q bq"
  shows "skip_ok h x \<Longrightarrow> x \<noteq> new \<Longrightarrow> skip_ok (h(new \<mapsto> b)) x"
  using leaf_height(1) [OF assms, of x] leaf_up [OF assms, of x] unfolding skip_ok_def by auto

lemma leaf_tree_inv:
  assumes leaf: "new_leaf h new b q bq" and "tree_inv h" and "skip_ok (h(new \<mapsto> b)) new" and "length (bi_nChainWork b) = 8"
  shows "tree_inv (h(new \<mapsto> b))"
proof -
  have skip: "skip_ok (h(new \<mapsto> b)) x" for x
    using leaf_skip [OF leaf, of x] assms(2,3) by (cases "x = new") (simp_all add: tree_inv_def)
  obtain r where r: "\<And>p. p \<in> dom h \<Longrightarrow> up h (height_of h p) p = Some r"
    using assms(2) unfolding tree_inv_def by blast
  have "up (h(new \<mapsto> b)) (height_of (h(new \<mapsto> b)) p) p = Some r" if "p \<in> dom (h(new \<mapsto> b))" for p
  proof (cases "p = new")
    case True
    have "up (h(new \<mapsto> b)) (Suc (height_of h q)) new = up (h(new \<mapsto> b)) (height_of h q) q"
      using new_leafD(4) [OF leaf] by simp
    then show ?thesis
      using True leaf_height(2) [OF leaf] leaf_up [OF leaf, of q "height_of h q"] new_leafD(3) [OF leaf] r [of q] by auto
  next
    case False
    then show ?thesis
      using that leaf_height(1) [OF leaf False] leaf_up [OF leaf, of p "height_of h p"] r [of p] by auto
  qed
  moreover have "dom (h(new \<mapsto> b)) = sized (h(new \<mapsto> b))"
    using assms(2,4) unfolding tree_inv_def sized_def by (auto split: if_splits)
  moreover have "finite (dom h)"
    using assms(2) unfolding tree_inv_def by blast
  then have "finite (dom (h(new \<mapsto> b)))"
    by simp
  ultimately show ?thesis
    using leaf_block_tree [OF leaf] skip unfolding tree_inv_def by (intro conjI exI [of _ r] ballI allI)
qed

text \<open>The first block.\<close>

lemma root_tree_inv:
  assumes "bi_pprev b = None" and "bi_nHeight b = 0" and "length (bi_nChainWork b) = 8"
  shows "tree_inv [new \<mapsto> b]"
proof -
  have "sized [new \<mapsto> b] = {new}"
    using assms(3) by (auto simp: sized_def split: if_splits)
  then show ?thesis
    using assms by (auto simp: tree_inv_def block_tree_def skip_ok_def height_of_def split: if_splits)
qed

section \<open>Work and trust are defined\<close>

lemma target_not_max: "uval (fst (SetCompact c)) + 1 < 2 ^ 256"
proof (cases "compact_size c \<le> 3")
  case True
  then have "compact_value c \<le> mantissa c"
    by (simp add: compact_value_def)
  then have "compact_value c < 2 ^ 23"
    using mantissa_less [of c] by linarith
  moreover have "compact_value c mod 2 ^ 256 \<le> compact_value c"
    by (rule mod_less_eq_dividend)
  ultimately show ?thesis
    unfolding SetCompact_value by simp
next
  case False
  then have "2 dvd compact_value c"
    by (simp add: compact_value_def dvd_mult)
  then have "2 dvd compact_value c mod 2 ^ 256"
    by (simp add: dvd_mod)
  moreover have "compact_value c mod 2 ^ 256 < 2 ^ 256"
    by simp
  moreover have "\<not> 2 dvd (2 ^ 256 - 1 :: nat)"
    by simp
  ultimately show ?thesis
    unfolding SetCompact_value by (metis Suc_eq_plus1 Suc_lessI diff_Suc_1)
qed

lemma GetBlockTrust_Some: "\<exists>t. GetBlockTrust bi = Some t \<and> length t = 8"
proof -
  let ?t = "fst (SetCompact (bi_nBits bi))"
  have "uval (uint_add ?t (uint256_of 1)) \<noteq> 0"
    using arith256.add [of ?t "uint256_of 1"] target_not_max [of "bi_nBits bi"] by simp
  then have div: "\<exists>q. uint_div a (uint_add ?t (uint256_of 1)) = Some q \<and> length q = 8" if "length a = 8" for a
    using uint_div_spec [of a "uint_add ?t (uint256_of 1)"] that by auto
  obtain x where x: "uint_div (uint_shl (uint256_of 1) 256) (uint_add ?t (uint256_of 1)) = Some x" "length x = 8"
    using div [of "uint_shl (uint256_of 1) 256"] by auto
  obtain y where y: "uint_div (uint_shr (uint_compl (uint256_of 0)) 20) (uint_add ?t (uint256_of 1)) = Some y" "length y = 8"
    using div [of "uint_shr (uint_compl (uint256_of 0)) 20"] by auto
  show ?thesis
    using x y by (auto simp: GetBlockTrust_def Let_def)
qed

lemma GetBlockProof_Some: "\<exists>w. GetBlockProof c = Some w \<and> length w = 8"
  using GetBlockProof_value [of c] GetBlockProof_invalid [of c] by (cases "compact_ok c") auto

section \<open>Linking a block\<close>

definition stake_params_ok :: "stake_params \<Rightarrow> bool" where
  "stake_params_ok P \<longleftrightarrow> sections_ok P \<and> nModifierInterval P \<noteq> 0"

definition header_fields :: "CBlockIndex \<Rightarrow> int \<times> uint256 \<times> 32 word \<times> 32 word \<times> uint256" where
  "header_fields bi = (bi_nVersion bi, bi_hashMerkleRoot bi, bi_nTime bi, bi_nNonce bi, bi_nAccumulatorCheckpoint bi)"

lemma stake_entry_fields:
  assumes "stake_entry t x m bi = (bi', m')"
  shows "bi_pprev bi' = bi_pprev bi" and "bi_pskip bi' = bi_pskip bi" and "bi_nHeight bi' = bi_nHeight bi"
    and "bi_nChainWork bi' = bi_nChainWork bi" and "bi_phashBlock bi' = bi_phashBlock bi" and "bi_nStatus bi' = bi_nStatus bi"
    and "bi_nBits bi' = bi_nBits bi" and "header_fields bi' = header_fields bi"
proof -
  have *: "\<exists>f x. bi' = bi\<lparr>bi_bnChainTrust := t, bi_nFlags := f, bi_hashProofOfStake := x\<rparr>"
  proof -
    have "snd (SetStakeEntropyBit (bi\<lparr>bi_bnChainTrust := t\<rparr>) (GetStakeEntropyBit (bi\<lparr>bi_bnChainTrust := t\<rparr>))) =
        bi\<lparr>bi_bnChainTrust := t, bi_nFlags := bi_nFlags (snd (SetStakeEntropyBit (bi\<lparr>bi_bnChainTrust := t\<rparr>)
          (GetStakeEntropyBit (bi\<lparr>bi_bnChainTrust := t\<rparr>)))), bi_hashProofOfStake := bi_hashProofOfStake bi\<rparr>"
      by (cases bi) (simp add: SetStakeEntropyBit_def)
    then obtain f where f: "snd (SetStakeEntropyBit (bi\<lparr>bi_bnChainTrust := t\<rparr>) (GetStakeEntropyBit (bi\<lparr>bi_bnChainTrust := t\<rparr>))) =
        bi\<lparr>bi_bnChainTrust := t, bi_nFlags := f, bi_hashProofOfStake := bi_hashProofOfStake bi\<rparr>"
      by blast
    show ?thesis
      using assms unfolding stake_entry_def Let_def f by (cases bi) (auto split: if_splits option.splits)
  qed
  then show "bi_pprev bi' = bi_pprev bi" and "bi_pskip bi' = bi_pskip bi" and "bi_nHeight bi' = bi_nHeight bi"
    and "bi_nChainWork bi' = bi_nChainWork bi" and "bi_phashBlock bi' = bi_phashBlock bi" and "bi_nStatus bi' = bi_nStatus bi"
    and "bi_nBits bi' = bi_nBits bi" and "header_fields bi' = header_fields bi"
    by (auto simp: header_fields_def)
qed

lemma SetStakeModifier_fields [simp]:
  "bi_pprev (SetStakeModifier bi m g) = bi_pprev bi" "bi_pskip (SetStakeModifier bi m g) = bi_pskip bi"
  "bi_nHeight (SetStakeModifier bi m g) = bi_nHeight bi" "bi_nChainWork (SetStakeModifier bi m g) = bi_nChainWork bi"
  "bi_phashBlock (SetStakeModifier bi m g) = bi_phashBlock bi" "bi_nStatus (SetStakeModifier bi m g) = bi_nStatus bi"
  "bi_nBits (SetStakeModifier bi m g) = bi_nBits bi" "header_fields (SetStakeModifier bi m g) = header_fields bi"
  by (simp_all add: SetStakeModifier_def header_fields_def)

lemma header_fields_simps [simp]:
  "header_fields (bi\<lparr>bi_nStakeModifierChecksum := c\<rparr>) = header_fields bi" "header_fields (bi\<lparr>bi_pskip := k\<rparr>) = header_fields bi"
  "header_fields (bi\<lparr>bi_pprev := q, bi_nHeight := n\<rparr>) = header_fields bi"
  "header_fields (bi\<lparr>bi_nChainWork := w, bi_nStatus := st\<rparr>) = header_fields bi"
  "header_fields (bi\<lparr>bi_nSequenceId := sq, bi_phashBlock := x\<rparr>) = header_fields bi"
  by (simp_all add: header_fields_def)

lemma SetStakeModifier_generated: "GeneratedStakeModifier (SetStakeModifier bi m True)"
proof -
  have "(bi_nFlags bi OR BLOCK_STAKE_MODIFIER) AND BLOCK_STAKE_MODIFIER = BLOCK_STAKE_MODIFIER"
    by (simp add: bit.conj_disj_distrib2)
  then show ?thesis
    by (simp add: GeneratedStakeModifier_def SetStakeModifier_def)
qed

text \<open>Flags apart, what the new entry looks like after it is linked.\<close>

definition linked_entry :: "index_heap \<Rightarrow> ptr \<Rightarrow> ptr \<Rightarrow> CBlockIndex \<Rightarrow> CBlockIndex \<Rightarrow> CBlockIndex \<Rightarrow> bool" where
  "linked_entry h new q bq b0 bi \<longleftrightarrow> new_leaf h new bi q bq \<and> skip_ok (h(new \<mapsto> bi)) new \<and> bi_nChainWork bi = bi_nChainWork b0 \<and>
     bi_phashBlock bi = bi_phashBlock b0 \<and> bi_nStatus bi = bi_nStatus b0 \<and> bi_nBits bi = bi_nBits b0 \<and>
     header_fields bi = header_fields b0"

lemma skip_ok_leaf_cong:
  assumes "new_leaf h new b q bq" and "skip_ok (h(new \<mapsto> b)) new" and "bi_pprev b' = bi_pprev b" and "bi_pskip b' = bi_pskip b"
    and "bi_nHeight b' = bi_nHeight b"
  shows "new_leaf h new b' q bq \<and> skip_ok (h(new \<mapsto> b')) new"
proof -
  have leaf: "new_leaf h new b' q bq"
    using assms(1,3,5) by (simp add: new_leaf_def)
  have "up (h(new \<mapsto> b')) n new = up (h(new \<mapsto> b)) n new" for n
    using leaf_up [OF leaf, of q] leaf_up [OF assms(1), of q] new_leafD [OF leaf] assms(3) by (cases n) simp_all
  then show ?thesis
    using leaf assms(2-4) leaf_height(2) [OF leaf] leaf_height(2) [OF assms(1)] by (simp add: skip_ok_def)
qed

lemma link_block_ok:
  assumes tree: "tree_inv h" and new: "h new = None" and q: "h q = Some bq" and s: "bs_heap s = h(new \<mapsto> b0)"
    and len: "length (bi_nChainWork b0) = 8" and map: "map_ok (bs_heap s) (bs_map s)" and P: "stake_params_ok P"
    and gen: "bi_nHeight bq = 0 \<or> (\<exists>n x c. up h n q = Some x \<and> h x = Some c \<and> GeneratedStakeModifier c)"
  shows "\<exists>s' bi. link_block H P address new q hash s = Some s' \<and>
    bs_heap s' = h(new \<mapsto> bi, q \<mapsto> bq\<lparr>bi_pnext := Some new\<rparr>) \<and> bs_map s' = bs_map s \<and> bs_best_header s' = bs_best_header s \<and>
    linked_entry h new q bq b0 bi \<and> (bi_nHeight bi = 1 \<longrightarrow> GeneratedStakeModifier bi)"
proof -
  have qn: "q \<noteq> new" "new \<noteq> q"
    using new q by auto
  define b1 where "b1 = b0\<lparr>bi_pprev := Some q, bi_nHeight := bi_nHeight bq + 1\<rparr>"
  have leaf1: "new_leaf h new b1 q bq"
    using tree new q by (simp add: new_leaf_def b1_def tree_inv_def)
  have "skip_ok (h(new \<mapsto> b1)) x" if "x \<noteq> new" for x
    using leaf_skip [OF leaf1 _ that] tree by (simp add: tree_inv_def)
  then obtain h2 where h2: "BuildSkip (h(new \<mapsto> b1)) new = Some h2" "\<forall>x. skip_ok h2 x"
    using BuildSkip_ok [OF leaf_block_tree [OF leaf1], of new b1] by auto
  then obtain sk where sk: "h2 = h(new \<mapsto> b1\<lparr>bi_pskip := sk\<rparr>)"
    by (auto simp: BuildSkip_def b1_def bind_eq_Some_conv)
  define b2 where "b2 = b1\<lparr>bi_pskip := sk\<rparr>"
  have leaf2: "new_leaf h new b2 q bq \<and> skip_ok (h(new \<mapsto> b2)) new"
    using leaf1 h2(2) unfolding sk b2_def by (simp add: new_leaf_def)
  obtain trust where trust: "GetBlockTrust b2 = Some trust"
    using GetBlockTrust_Some by blast
  obtain b5 proofs where b5: "stake_entry (uint_add (bi_bnChainTrust bq) trust) hash (bs_proofs s) b2 = (b5, proofs)"
    by (cases "stake_entry (uint_add (bi_bnChainTrust bq) trust) hash (bs_proofs s) b2")
  note f5 = stake_entry_fields [OF b5]
  have leaf5: "new_leaf h new b5 q bq \<and> skip_ok (h(new \<mapsto> b5)) new"
    using skip_ok_leaf_cong [OF leaf2 [THEN conjunct1] leaf2 [THEN conjunct2]] f5 by simp
  define bq' where "bq' = bq\<lparr>bi_pnext := Some new\<rparr>"
  define h4 where "h4 = h(new \<mapsto> b2, q \<mapsto> bq', new \<mapsto> b5)"
  have h4: "h4 = h(new \<mapsto> b5, q \<mapsto> bq')"
    using qn by (simp add: h4_def fun_upd_twist)
  have shape: "shape h4 = shape (h(new \<mapsto> b5))"
    unfolding h4 using qn q by (intro shape_update) (simp_all add: bq'_def)
  have tree4: "block_tree h4"
    using shape_block_tree [OF shape [symmetric]] leaf_block_tree [OF leaf5 [THEN conjunct1]] by blast
  have map4: "map_ok h4 (bs_map s)"
    using map q qn f5(5) unfolding s map_ok_def h4 by (auto simp: bq'_def b2_def b1_def)
  have h4q: "h4 q = Some bq'" "h4 new = Some b5"
    using qn by (simp_all add: h4)
  obtain m g where mg: "\<exists>ok. ComputeNextStakeModifier address H P h4 (bs_map s) (Some q) = Some (ok, m, g)" "bi_nHeight bq = 0 \<longrightarrow> g"
  proof (cases "bi_nHeight bq = 0")
    case True
    then have "ComputeNextStakeModifier address H P h4 (bs_map s) (Some q) = Some (True, address, True)"
      using h4q by (simp add: ComputeNextStakeModifier_def bq'_def)
    then show ?thesis
      using that by blast
  next
    case False
    then obtain n x c where x: "up h n q = Some x" "h x = Some c" "GeneratedStakeModifier c"
      using gen by blast
    have "up h4 n q = Some x"
      using shape_up [OF shape] leaf_up [OF leaf5 [THEN conjunct1], of q n] q x(1) by simp
    moreover have "x \<noteq> new"
      using x(2) new by auto
    then obtain c' where "h4 x = Some c'" "GeneratedStakeModifier c'"
      using x(2,3) q by (cases "x = q") (auto simp: h4 bq'_def GeneratedStakeModifier_def)
    ultimately show ?thesis
      using ComputeNextStakeModifier_Some [OF tree4 map4 _ _ h4q(1), of P n x c' address H] P False that
      unfolding stake_params_ok_def by blast
  qed
  then obtain ok where mg1: "ComputeNextStakeModifier address H P h4 (bs_map s) (Some q) = Some (ok, m, g)"
    by blast
  define b6 where "b6 = SetStakeModifier b5 m g"
  have pp: "bi_pprev b5 = Some q"
    using leaf5 by (simp add: new_leaf_def)
  then obtain c where c: "GetStakeModifierChecksum H P h4 b6 = Some c"
    using h4q by (auto simp: GetStakeModifierChecksum_def b6_def)
  define bi where "bi = b6\<lparr>bi_nStakeModifierChecksum := c\<rparr>"
  have leaf: "new_leaf h new bi q bq \<and> skip_ok (h(new \<mapsto> bi)) new"
    by (rule skip_ok_leaf_cong [OF leaf5 [THEN conjunct1] leaf5 [THEN conjunct2]]) (simp_all add: bi_def b6_def)
  have "linked_entry h new q bq b0 bi"
    using leaf f5 by (simp add: linked_entry_def bi_def b6_def b2_def b1_def)
  moreover have "GeneratedStakeModifier bi" if "bi_nHeight bi = 1"
  proof -
    have "bi_nHeight bq = 0"
      using new_leafD(5) [OF leaf [THEN conjunct1]] that by simp
    then show ?thesis
      using mg(2) SetStakeModifier_generated [of b5 m] by (simp add: bi_def b6_def GeneratedStakeModifier_def)
  qed
  moreover have "link_block H P address new q hash s = Some (s\<lparr>bs_heap := h4(new \<mapsto> bi), bs_proofs := proofs\<rparr>)"
  proof -
    have "BuildSkip (h(new \<mapsto> b0, new \<mapsto> b0\<lparr>bi_pprev := Some q, bi_nHeight := bi_nHeight bq + 1\<rparr>)) new = Some h2"
      using h2(1) by (simp add: b1_def)
    moreover have h4': "h4 = h(q \<mapsto> bq', new \<mapsto> b5)"
      using qn unfolding h4 by (simp add: fun_upd_twist)
    ultimately show ?thesis
      unfolding link_block_def s using q qn sk trust b5 pp mg1 [unfolded h4'] c [unfolded h4']
      by (simp add: Let_def h4' b2_def [symmetric] bq'_def [symmetric] bi_def b6_def)
  qed
  moreover have "h4(new \<mapsto> bi) = h(new \<mapsto> bi, q \<mapsto> bq\<lparr>bi_pnext := Some new\<rparr>)"
    using qn unfolding h4 bq'_def by (simp add: fun_upd_twist)
  ultimately show ?thesis
    by (intro exI [of _ "s\<lparr>bs_heap := h4(new \<mapsto> bi), bs_proofs := proofs\<rparr>"] exI [of _ bi]) simp
qed

section \<open>The invariant of the index\<close>

definition index_ok :: "block_store \<Rightarrow> bool" where
  "index_ok s \<longleftrightarrow> tree_inv (bs_heap s) \<and>
     (\<forall>x p. bs_map s x = Some p \<longleftrightarrow> (\<exists>bi. bs_heap s p = Some bi \<and> bi_phashBlock bi = x)) \<and>
     (\<forall>p bi. bs_heap s p = Some bi \<longrightarrow> bi_nHeight bi = 1 \<longrightarrow> GeneratedStakeModifier bi) \<and>
     (case bs_best_header s of
        None \<Rightarrow> dom (bs_heap s) = {}
      | Some b \<Rightarrow> b \<in> dom (bs_heap s) \<and> (\<forall>p \<in> dom (bs_heap s). work_of (bs_heap s) p \<le> work_of (bs_heap s) b))"

definition bs_empty :: block_store where
  "bs_empty = \<lparr>bs_heap = Map.empty, bs_map = Map.empty, bs_best_header = None, bs_stake_seen = {}, bs_proofs = Map.empty, bs_dirty = {}\<rparr>"

lemma index_ok_empty: "index_ok bs_empty"
  by (simp add: index_ok_def bs_empty_def tree_inv_def block_tree_def skip_ok_def sized_def)

text \<open>Every block but the first has an ancestor at height 1.\<close>

lemma generated_ancestor:
  assumes "block_tree h" and "\<forall>p bi. h p = Some bi \<longrightarrow> bi_nHeight bi = 1 \<longrightarrow> GeneratedStakeModifier bi" and "h q = Some bq"
  shows "bi_nHeight bq = 0 \<or> (\<exists>n x c. up h n q = Some x \<and> h x = Some c \<and> GeneratedStakeModifier c)"
proof (cases "height_of h q = 0")
  case True
  then show ?thesis
    using height_of_int [OF assms(1,3)] by simp
next
  case False
  then obtain x c where x: "up h (height_of h q - 1) q = Some x" "h x = Some c" "height_of h x = 1"
    using up_Some [OF assms(1,3), of "height_of h q - 1"] by auto
  then have "GeneratedStakeModifier c"
    using assms(2) height_of_int [OF assms(1) x(2)] by simp
  then show ?thesis
    using x by blast
qed

lemma raise_to_tree:
  assumes "bi_nStatus bi = 0"
  shows "RaiseValidity bi BLOCK_VALID_TREE = Some (True, bi\<lparr>bi_nStatus := 2\<rparr>)"
  using assms by (simp add: RaiseValidity_def BLOCK_VALID_MASK_def BLOCK_FAILED_MASK_def)

section \<open>Finishing the entry\<close>

lemma new_entry_fields [simp]:
  "bi_pprev (CBlockIndex_of b) = None" "bi_nHeight (CBlockIndex_of b) = 0" "bi_nChainWork (CBlockIndex_of b) = replicate 8 0"
  "bi_nStatus (CBlockIndex_of b) = 0" "bi_nBits (CBlockIndex_of b) = bh_nBits b"
  by (simp_all add: CBlockIndex_of_def SetProofOfStake_def CBlockIndex_SetNull_def Let_def)

definition better_header :: "index_heap \<Rightarrow> ptr option \<Rightarrow> nat \<Rightarrow> bool" where
  "better_header h best w \<longleftrightarrow> (case best of None \<Rightarrow> True | Some b \<Rightarrow> work_of h b < w)"

lemma finish_linked:
  assumes entry: "linked_entry h new q bq b0 bi" and status: "bi_nStatus b0 = 0" and heap: "bs_heap s = h(new \<mapsto> bi, q \<mapsto> bq\<lparr>bi_pnext := Some new\<rparr>)"
    and tree: "tree_inv h" and best: "\<And>b. bs_best_header s = Some b \<Longrightarrow> b \<in> dom h"
  shows "\<exists>s' w bi'. finish_block new s = Some s' \<and> bi' = bi\<lparr>bi_nChainWork := w, bi_nStatus := 2\<rparr> \<and> length w = 8 \<and>
    (\<exists>p. GetBlockProof (bi_nBits bi) = Some p \<and> w = uint_add (bi_nChainWork bq) p) \<and>
    bs_heap s' = h(new \<mapsto> bi', q \<mapsto> bq\<lparr>bi_pnext := Some new\<rparr>) \<and> bs_map s' = bs_map s \<and>
    bs_best_header s' = (if better_header h (bs_best_header s) (uval w) then Some new else bs_best_header s)"
proof -
  have leaf: "new_leaf h new bi q bq"
    using entry by (simp add: linked_entry_def)
  note leafD = new_leafD [OF leaf]
  obtain p where p: "GetBlockProof (bi_nBits bi) = Some p" "length p = 8"
    using GetBlockProof_Some by blast
  have sized: "length (bi_nChainWork c) = 8" if "h x = Some c" for x c
  proof -
    have "x \<in> sized h"
      using tree that unfolding tree_inv_def by blast
    then show ?thesis
      using that by (simp add: sized_def)
  qed
  define w where "w = uint_add (bi_nChainWork bq) p"
  have w: "length w = 8"
    using p(2) sized [OF leafD(3)] by (simp add: w_def)
  define bi' where "bi' = bi\<lparr>bi_nChainWork := w, bi_nStatus := 2\<rparr>"
  have raise: "RaiseValidity (bi\<lparr>bi_nChainWork := w\<rparr>) BLOCK_VALID_TREE = Some (True, bi')"
    using entry status raise_to_tree [of "bi\<lparr>bi_nChainWork := w\<rparr>"] by (simp add: linked_entry_def bi'_def)
  define h' where "h' = h(new \<mapsto> bi', q \<mapsto> bq\<lparr>bi_pnext := Some new\<rparr>)"
  have heap': "(bs_heap s)(new \<mapsto> bi') = h'"
    using leafD(7) by (simp add: heap h'_def fun_upd_twist)
  have better: "(case bs_best_header s of None \<Rightarrow> Some True
      | Some b \<Rightarrow> map_option (\<lambda>bb. CompareTo (bi_nChainWork bb) (bi_nChainWork bi') < 0) (h' b)) =
      Some (better_header h (bs_best_header s) (uval w))"
  proof (cases "bs_best_header s")
    case None
    then show ?thesis
      by (simp add: better_header_def)
  next
    case (Some b)
    then obtain c where c: "h b = Some c"
      using best by blast
    then have "b \<noteq> new"
      using leafD(2) by auto
    then obtain c' where c': "h' b = Some c'" "bi_nChainWork c' = bi_nChainWork c"
      using c leafD(3) by (cases "b = q") (simp_all add: h'_def)
    then have "CompareTo (bi_nChainWork c') (bi_nChainWork bi') < 0 \<longleftrightarrow> uval (bi_nChainWork c) < uval w"
      using sized [OF c] w by (simp add: CompareTo_sign bi'_def)
    then show ?thesis
      using Some c c' by (simp add: better_header_def work_of_def)
  qed
  have "bi_nHeight bi' \<noteq> 0" "bi_pprev bi' = Some q" "h' q = Some (bq\<lparr>bi_pnext := Some new\<rparr>)"
    using leafD(4-6) by (simp_all add: bi'_def h'_def)
  moreover have "h'(q \<mapsto> bq\<lparr>bi_pnext := Some new\<rparr>) = h'"
    by (simp add: h'_def)
  moreover have "bs_heap s new = Some bi" "bs_heap s q = Some (bq\<lparr>bi_pnext := Some new\<rparr>)"
    using leafD(7) by (simp_all add: heap)
  ultimately have "finish_block new s = Some (s\<lparr>bs_heap := h',
      bs_best_header := (if better_header h (bs_best_header s) (uval w) then Some new else bs_best_header s), bs_dirty := insert new (bs_dirty s)\<rparr>)"
    unfolding finish_block_def using p(1) leafD(4) raise better by (simp add: heap' w_def [symmetric])
  then show ?thesis
    using w p(1) by (intro exI [of _ "s\<lparr>bs_heap := h',
      bs_best_header := (if better_header h (bs_best_header s) (uval w) then Some new else bs_best_header s), bs_dirty := insert new (bs_dirty s)\<rparr>"]
        exI [of _ w] exI [of _ bi']) (simp add: h'_def bi'_def w_def)
qed

section \<open>Adding a block\<close>

lemma index_okD:
  assumes "index_ok s"
  shows "tree_inv (bs_heap s)" and "bs_map s x = Some p \<longleftrightarrow> (\<exists>bi. bs_heap s p = Some bi \<and> bi_phashBlock bi = x)"
    and "\<forall>p bi. bs_heap s p = Some bi \<longrightarrow> bi_nHeight bi = 1 \<longrightarrow> GeneratedStakeModifier bi"
    and "bs_best_header s = Some b \<Longrightarrow> b \<in> dom (bs_heap s) \<and> (\<forall>p \<in> dom (bs_heap s). work_of (bs_heap s) p \<le> work_of (bs_heap s) b)"
    and "bs_best_header s = None \<Longrightarrow> dom (bs_heap s) = {}"
  using assms unfolding index_ok_def by auto

text \<open>What is known of the index after one more entry.\<close>

lemma index_ok_extend:
  assumes ok: "index_ok s" and leaf: "new_leaf (bs_heap s) new bi q bq" "skip_ok ((bs_heap s)(new \<mapsto> bi)) new" "length (bi_nChainWork bi) = 8"
    and gen: "bi_nHeight bi = 1 \<longrightarrow> GeneratedStakeModifier bi" and fresh: "bs_map s x = None" "bi_phashBlock bi = x"
    and s': "bs_heap s' = (bs_heap s)(new \<mapsto> bi, q \<mapsto> bq\<lparr>bi_pnext := y\<rparr>)" "bs_map s' = (bs_map s)(x \<mapsto> new)"
      "bs_best_header s' = (if better_header (bs_heap s) (bs_best_header s) (uval (bi_nChainWork bi)) then Some new else bs_best_header s)"
  shows "index_ok s'"
proof -
  note leafD = new_leafD [OF leaf(1)]
  have q: "bs_heap s q = Some bq" "q \<noteq> new" "new \<noteq> q"
    using leafD(3,7) by auto
  have tree: "tree_inv ((bs_heap s)(new \<mapsto> bi))"
    by (rule leaf_tree_inv [OF leaf(1) index_okD(1) [OF ok] leaf(2,3)])
  have shape: "shape (bs_heap s') = shape ((bs_heap s)(new \<mapsto> bi))"
    unfolding s'(1) using q by (intro shape_update) simp_all
  have entry: "bs_heap s' p = (if p = new then Some bi else if p = q then Some (bq\<lparr>bi_pnext := y\<rparr>) else bs_heap s p)" for p
    using q unfolding s'(1) by simp
  have work: "work_of (bs_heap s') p = (if p = new then uval (bi_nChainWork bi) else work_of (bs_heap s) p)" for p
    using q unfolding work_of_def entry by simp
  have dom: "dom (bs_heap s') = insert new (dom (bs_heap s))"
    using q unfolding s'(1) by auto
  have "tree_inv (bs_heap s')"
    by (rule shape_tree_inv [OF shape tree])
  moreover have "bs_map s' z = Some p \<longleftrightarrow> (\<exists>b. bs_heap s' p = Some b \<and> bi_phashBlock b = z)" for z p
  proof -
    have "bs_map s z = Some p \<longleftrightarrow> (\<exists>b. bs_heap s p = Some b \<and> bi_phashBlock b = z)"
      by (rule index_okD(2) [OF ok])
    moreover have "\<not> (\<exists>b. bs_heap s p = Some b \<and> bi_phashBlock b = x)"
      using index_okD(2) [OF ok, of x p] fresh(1) by simp
    ultimately show ?thesis
      using q leafD(2) fresh(2) unfolding s'(2) entry by auto
  qed
  moreover have "GeneratedStakeModifier b" if "bs_heap s' p = Some b" "bi_nHeight b = 1" for p b
    using that gen index_okD(3) [OF ok] q unfolding entry
    by (auto simp: GeneratedStakeModifier_def split: if_splits)
  moreover have "case bs_best_header s' of
        None \<Rightarrow> dom (bs_heap s') = {}
      | Some b \<Rightarrow> b \<in> dom (bs_heap s') \<and> (\<forall>p \<in> dom (bs_heap s'). work_of (bs_heap s') p \<le> work_of (bs_heap s') b)"
  proof (cases "bs_best_header s")
    case None
    then have "dom (bs_heap s) = {}"
      by (rule index_okD(5) [OF ok])
    then show ?thesis
      using q by (simp add: dom_def)
  next
    case (Some b)
    note best = index_okD(4) [OF ok Some]
    then have "b \<noteq> new"
      using leafD(2) by auto
    then show ?thesis
      using best Some unfolding s'(3) dom better_header_def by (auto simp: work intro: order_trans less_imp_le)
  qed
  ultimately show ?thesis
    unfolding index_ok_def by blast
qed

lemma AddToBlockIndex_linked:
  assumes ok: "index_ok s" and P: "stake_params_ok P" and new: "bs_heap s new = None" and x: "x = header_GetHash H S b" "bs_map s x = None"
    and q: "bs_map s (bh_hashPrevBlock b) = Some q"
  shows "\<exists>s' bi bq. AddToBlockIndex H S P address new b s = Some (new, s') \<and> index_ok s' \<and> bs_map s' = (bs_map s)(x \<mapsto> new) \<and>
    dom (bs_heap s') = insert new (dom (bs_heap s)) \<and> bs_heap s' new = Some bi \<and> bs_heap s q = Some bq \<and>
    bi_pprev bi = Some q \<and> bi_nHeight bi = bi_nHeight bq + 1 \<and> bi_phashBlock bi = x \<and> bi_nStatus bi = 2 \<and>
    bi_nBits bi = bh_nBits b \<and> header_fields bi = header_fields (CBlockIndex_of b) \<and>
    (\<exists>p. GetBlockProof (bh_nBits b) = Some p \<and> bi_nChainWork bi = uint_add (bi_nChainWork bq) p)"
proof -
  let ?h = "bs_heap s"
  define b0 where "b0 = (CBlockIndex_of b)\<lparr>bi_nSequenceId := 0, bi_phashBlock := x\<rparr>"
  define s1 where "s1 = s\<lparr>bs_heap := ?h(new \<mapsto> b0), bs_map := (bs_map s)(x \<mapsto> new),
     bs_stake_seen := (if bi_IsProofOfStake b0 then insert (bi_prevoutStake b0, bi_nStakeTime b0) (bs_stake_seen s) else bs_stake_seen s)\<rparr>"
  obtain bq where bq: "?h q = Some bq"
    using index_okD(2) [OF ok] q by blast
  have tree: "tree_inv ?h"
    by (rule index_okD(1) [OF ok])
  have map: "map_ok (bs_heap s1) (bs_map s1)"
    unfolding map_ok_def
  proof (intro allI impI)
    fix p bi
    assume p: "bs_heap s1 p = Some bi"
    show "bs_map s1 (bi_phashBlock bi) = Some p"
    proof (cases "p = new")
      case True
      then show ?thesis
        using p by (auto simp: s1_def b0_def)
    next
      case False
      then have "bs_map s (bi_phashBlock bi) = Some p"
        using p index_okD(2) [OF ok, of "bi_phashBlock bi" p] by (simp add: s1_def)
      then show ?thesis
        using x(2) by (auto simp: s1_def)
    qed
  qed
  have gen: "bi_nHeight bq = 0 \<or> (\<exists>n x c. up ?h n q = Some x \<and> ?h x = Some c \<and> GeneratedStakeModifier c)"
    using generated_ancestor [OF _ index_okD(3) [OF ok] bq] tree by (simp add: tree_inv_def)
  have heap1: "bs_heap s1 = ?h(new \<mapsto> b0)"
    by (simp add: s1_def)
  obtain s2 bi where link: "link_block H P address new q x s1 = Some s2" "bs_heap s2 = ?h(new \<mapsto> bi, q \<mapsto> bq\<lparr>bi_pnext := Some new\<rparr>)"
    "bs_map s2 = bs_map s1" "bs_best_header s2 = bs_best_header s1" "linked_entry ?h new q bq b0 bi" "bi_nHeight bi = 1 \<longrightarrow> GeneratedStakeModifier bi"
    using link_block_ok [OF tree new bq heap1 _ map P gen, of H address x] by (auto simp: b0_def)
  have best: "bs_best_header s2 = Some c \<Longrightarrow> c \<in> dom ?h" for c
    using index_okD(4) [OF ok] link(4) by (auto simp: s1_def)
  have st: "bi_nStatus b0 = 0"
    by (simp add: b0_def)
  obtain s3 w bi' p where fin: "finish_block new s2 = Some s3" "bi' = bi\<lparr>bi_nChainWork := w, bi_nStatus := 2\<rparr>" "length w = 8"
    "GetBlockProof (bi_nBits bi) = Some p" "w = uint_add (bi_nChainWork bq) p"
    "bs_heap s3 = ?h(new \<mapsto> bi', q \<mapsto> bq\<lparr>bi_pnext := Some new\<rparr>)" "bs_map s3 = bs_map s2"
    "bs_best_header s3 = (if better_header ?h (bs_best_header s2) (uval w) then Some new else bs_best_header s2)"
    using finish_linked [OF link(5) st link(2) tree best] by blast
  have leaf: "new_leaf ?h new bi' q bq \<and> skip_ok (?h(new \<mapsto> bi')) new"
    using link(5) by (intro skip_ok_leaf_cong [of ?h new bi]) (simp_all add: linked_entry_def fin(2))
  note leafD = new_leafD [OF leaf [THEN conjunct1]]
  have fields: "bi_phashBlock bi' = x" "bi_nBits bi = bh_nBits b" "bi_nBits bi' = bh_nBits b"
    "header_fields bi' = header_fields (CBlockIndex_of b)"
    using link(5) by (simp_all add: linked_entry_def fin(2) b0_def)
  have "index_ok s3"
  proof (rule index_ok_extend [OF ok, of new bi' q bq x s3 "Some new"])
    show "bs_best_header s3 = (if better_header ?h (bs_best_header s) (uval (bi_nChainWork bi')) then Some new else bs_best_header s)"
      using fin(2,8) link(4) by (simp add: s1_def)
    show "bs_map s3 = (bs_map s)(x \<mapsto> new)"
      using fin(7) link(3) by (simp add: s1_def)
    show "bi_nHeight bi' = 1 \<longrightarrow> GeneratedStakeModifier bi'"
      using link(6) by (simp add: fin(2) GeneratedStakeModifier_def)
  qed (use leaf fin x(2) fields in simp_all)
  moreover have "bh_hashPrevBlock b \<noteq> x"
    using q x(2) by auto
  then have "bs_map s1 (bh_hashPrevBlock b) = Some q"
    using q by (simp add: s1_def)
  then have "AddToBlockIndex H S P address new b s = Some (new, s3)"
    using x(2) link(1) fin(1) unfolding AddToBlockIndex_def x(1) [symmetric] Let_def b0_def [symmetric] s1_def [symmetric]
    by simp
  moreover have "dom (bs_heap s3) = insert new (dom ?h)" "bs_heap s3 new = Some bi'"
    using leafD(3,7) by (auto simp: fin(6))
  ultimately show ?thesis
    using bq leafD fields fin by (intro exI [of _ s3] exI [of _ bi'] exI [of _ bq]) (simp add: link(3) s1_def)
qed

lemma AddToBlockIndex_first:
  assumes ok: "index_ok s" and empty: "bs_heap s = Map.empty" and x: "x = header_GetHash H S b" "bh_hashPrevBlock b \<noteq> x"
  shows "\<exists>s'. AddToBlockIndex H S P address new b s = Some (new, s') \<and> index_ok s'"
proof -
  have map: "bs_map s z = None" for z
    using index_okD(2) [OF ok, of z] empty by (cases "bs_map s z") auto
  have best: "bs_best_header s = None"
    using index_okD(4) [OF ok] empty by (cases "bs_best_header s") auto
  define b0 where "b0 = (CBlockIndex_of b)\<lparr>bi_nSequenceId := 0, bi_phashBlock := x\<rparr>"
  define s1 where "s1 = s\<lparr>bs_heap := [new \<mapsto> b0], bs_map := (bs_map s)(x \<mapsto> new),
     bs_stake_seen := (if bi_IsProofOfStake b0 then insert (bi_prevoutStake b0, bi_nStakeTime b0) (bs_stake_seen s) else bs_stake_seen s)\<rparr>"
  obtain p where p: "GetBlockProof (bh_nBits b) = Some p" "length p = 8"
    using GetBlockProof_Some by blast
  define w where "w = uint_add (replicate 8 0) p"
  have w: "length w = 8"
    using p(2) by (simp add: w_def)
  define b1 where "b1 = b0\<lparr>bi_nChainWork := w, bi_nStatus := 2\<rparr>"
  have raise: "RaiseValidity (b0\<lparr>bi_nChainWork := w\<rparr>) BLOCK_VALID_TREE = Some (True, b1)"
    using raise_to_tree [of "b0\<lparr>bi_nChainWork := w\<rparr>"] by (simp add: b1_def b0_def)
  define s2 where "s2 = s1\<lparr>bs_heap := [new \<mapsto> b1], bs_best_header := Some new, bs_dirty := insert new (bs_dirty s)\<rparr>"
  have b0: "bi_pprev b0 = None" "bi_nHeight b0 = 0" "bi_nBits b0 = bh_nBits b" "bi_phashBlock b0 = x"
    by (simp_all add: b0_def)
  have "bs_heap s1 new = Some b0" "bs_best_header s1 = None" "(bs_heap s1)(new \<mapsto> b1) = [new \<mapsto> b1]" "bi_nHeight b1 = 0" "bs_dirty s1 = bs_dirty s"
    by (simp_all add: s1_def best b1_def b0)
  then have "finish_block new s1 = Some s2"
    unfolding finish_block_def using raise p(1) b0 by (simp add: s2_def w_def [symmetric] Let_def)
  moreover have "bs_map s1 (bh_hashPrevBlock b) = None"
    using map x(2) by (simp add: s1_def)
  ultimately have "AddToBlockIndex H S P address new b s = Some (new, s2)"
    using map unfolding AddToBlockIndex_def x(1) [symmetric] Let_def empty b0_def [symmetric] s1_def [symmetric] by simp
  moreover have "index_ok s2"
    unfolding index_ok_def
  proof (intro conjI allI impI)
    show "tree_inv (bs_heap s2)"
      using root_tree_inv [of b1 new] b0 w by (simp add: s2_def b1_def)
    show "bs_map s2 z = Some p \<longleftrightarrow> (\<exists>bi. bs_heap s2 p = Some bi \<and> bi_phashBlock bi = z)" for z p
      using map b0 by (auto simp: s2_def s1_def b1_def)
    show "GeneratedStakeModifier bi" if "bs_heap s2 p = Some bi" "bi_nHeight bi = 1" for p bi
      using that b0 by (auto simp: s2_def b1_def split: if_splits)
  qed (simp add: s2_def)
  ultimately show ?thesis
    by blast
qed

text \<open>The states of the index: blocks are added whose parent is known, or to an empty index.\<close>

definition parent_known :: "hash_funs \<Rightarrow> sph_funs \<Rightarrow> block_store \<Rightarrow> CBlock \<Rightarrow> bool" where
  "parent_known H S s b \<longleftrightarrow> bs_map s (bh_hashPrevBlock b) \<noteq> None \<or> bs_heap s = Map.empty \<and> bh_hashPrevBlock b \<noteq> header_GetHash H S b"

inductive reachable_index :: "hash_funs \<Rightarrow> sph_funs \<Rightarrow> stake_params \<Rightarrow> 64 word \<Rightarrow> block_store \<Rightarrow> bool"
  for H S P address where
  empty: "reachable_index H S P address bs_empty"
| add: "reachable_index H S P address s \<Longrightarrow> bs_heap s new = None \<Longrightarrow> parent_known H S s b \<Longrightarrow>
    AddToBlockIndex H S P address new b s = Some (p, s') \<Longrightarrow> reachable_index H S P address s'"

inductive_cases reachable_index_cases: "reachable_index H S P address s"

lemma AddToBlockIndex_ok:
  assumes "index_ok s" and "stake_params_ok P" and "bs_heap s new = None" and "parent_known H S s b"
  shows "\<exists>p s'. AddToBlockIndex H S P address new b s = Some (p, s') \<and> index_ok s'"
proof (cases "bs_map s (header_GetHash H S b)")
  case None
  show ?thesis
  proof (cases "bs_map s (bh_hashPrevBlock b)")
    case (Some q)
    then show ?thesis
      using AddToBlockIndex_linked [OF assms(1-3) refl None Some] by blast
  next
    case none: None
    then show ?thesis
      using AddToBlockIndex_first [OF assms(1) _ refl, of b H S P address new] assms(4) by (auto simp: parent_known_def)
  qed
next
  case (Some p)
  then show ?thesis
    using assms(1) by (simp add: AddToBlockIndex_def)
qed

lemma reachable_index_ok: "reachable_index H S P address s \<Longrightarrow> stake_params_ok P \<Longrightarrow> index_ok s"
proof (induction rule: reachable_index.induct)
  case empty
  then show ?case
    by (simp add: index_ok_empty)
next
  case (add s new b p s')
  obtain p' t where "AddToBlockIndex H S P address new b s = Some (p', t)" "index_ok t"
    using AddToBlockIndex_ok [OF add.IH [OF add.prems] add.prems add.hyps(2,3)] by blast
  then show ?case
    using add.hyps(4) by simp
qed

text \<open>The header that is read back from the new entry is the header of the block.\<close>

lemma header_of_entry:
  assumes "bi_pprev bi = Some q" and "h q = Some bq" and "bi_phashBlock bq = bh_hashPrevBlock b" and "wf_header b"
    and "bi_nBits bi = bh_nBits b" and "header_fields bi = header_fields (CBlockIndex_of b)"
  shows "bi_GetBlockHeader h bi = Some (block_GetBlockHeader b)"
  using assms
  by (simp add: bi_GetBlockHeader_def block_GetBlockHeader_def header_fields_def CBlockIndex_of_def SetProofOfStake_def Let_def
      wf_header_def CBlockIndex_SetNull_def split: if_splits)

lemma AddToBlockIndex_map:
  assumes "index_ok s" and "stake_params_ok P" and "bs_heap s new = None" and "parent_known H S s b"
    and "AddToBlockIndex H S P address new b s = Some (p, s')"
  shows "bs_map s' (header_GetHash H S b) = Some p"
proof (cases "bs_map s (header_GetHash H S b)")
  case None
  show ?thesis
  proof (cases "bs_map s (bh_hashPrevBlock b)")
    case (Some q)
    then show ?thesis
      using AddToBlockIndex_linked [OF assms(1-3) refl None Some, of address] assms(5) by auto
  next
    case none: None
    then have "bh_hashPrevBlock b \<noteq> header_GetHash H S b"
      using assms(4) by (simp add: parent_known_def)
    then show ?thesis
      using None none assms(5) by (auto simp: AddToBlockIndex_def Let_def finish_block_def bind_eq_Some_conv)
  qed
next
  case (Some p')
  then show ?thesis
    using assms(5) by (auto simp: AddToBlockIndex_def)
qed

end
