(* ===== verification/IndexSpec.thy ===== *)
theory IndexSpec
  imports AddIndexProps
begin

unbundle bit_operations_syntax

text \<open>
  The properties of blocks and of the block index: the wire format of blocks, and that adding blocks keeps the
  index well formed and records in each entry what the block says.
\<close>

section \<open>A sample index\<close>

definition index_params :: stake_params where
  "index_params =
     \<lparr>nModifierInterval = 60, nModifierIntervalRatio = 3, ModifierUpgradeBlock = 10, GetMinStakeAge = (\<lambda>_. 60), hashGenesisBlock = 7\<rparr>"

definition zero_hash :: hash_funs where
  "zero_hash = \<lparr>CRIPEMD160 = (\<lambda>_. replicate 20 0), CSHA1 = (\<lambda>_. replicate 20 0), CSHA256 = (\<lambda>_. replicate 32 0)\<rparr>"

definition zero_sph :: sph_funs where
  "zero_sph = \<lparr>sph_blake512 = (\<lambda>_. replicate 64 0), sph_bmw512 = (\<lambda>_. replicate 64 0), sph_groestl512 = (\<lambda>_. replicate 64 0),
     sph_jh512 = (\<lambda>_. replicate 64 0), sph_keccak512 = (\<lambda>_. replicate 64 0), sph_skein512 = (\<lambda>_. replicate 64 0)\<rparr>"

definition index_block :: "uint256 \<Rightarrow> CBlock" where
  "index_block prev =
     \<lparr>bh_nVersion = 7, bh_hashPrevBlock = prev, bh_hashMerkleRoot = 3, bh_nTime = 700, bh_nBits = 0x1e0fffff, bh_nNonce = 9,
      bh_nAccumulatorCheckpoint = 0, bl_vtx = [], bl_vchBlockSig = []\<rparr>"

definition one_block :: block_store where
  "one_block = bs_empty\<lparr>bs_heap := [0 \<mapsto> CBlockIndex_SetNull\<lparr>bi_phashBlock := 7\<rparr>], bs_map := [7 \<mapsto> 0], bs_best_header := Some 0\<rparr>"

lemma zero_header_hash: "header_GetHash zero_hash S (index_block prev) = 0"
proof -
  have "uint256_of_bytes (replicate 32 0) = 0"
    by (simp add: uint256_of_bytes_def numeral_eq_Suc)
  then show ?thesis
    by (simp add: header_GetHash_def index_block_def CHash256_def zero_hash_def)
qed

lemma index_params_ok: "stake_params_ok index_params"
proof -
  have "\<forall>n \<in> set [0..<64]. GetStakeModifierSelectionIntervalSection index_params (int n) \<noteq> None"
    by code_simp
  then show ?thesis
    unfolding stake_params_ok_def sections_ok_def by (simp add: index_params_def)
qed

lemma one_block_ok: "index_ok one_block"
proof -
  have "tree_inv [0 \<mapsto> CBlockIndex_SetNull\<lparr>bi_phashBlock := 7\<rparr>]"
    by (rule root_tree_inv) (simp_all add: CBlockIndex_SetNull_def)
  then show ?thesis
    by (auto simp: index_ok_def one_block_def bs_empty_def CBlockIndex_SetNull_def split: if_splits)
qed

section \<open>Properties\<close>

text \<open>
  The wire format of blocks is exact: what a block is read from is its serialization and nothing else, for every
  header version and with or without a block signature; no field is lost and no byte is left open.
\<close>

theorem block_codec_exact:
  "unser_block bs = Some (b, r) \<longleftrightarrow> wf_block b \<and> bs = ser_block b @ r"
  by (rule unser_block_iff)

text \<open>C12: 
  The block index stays well formed. In every index that is built from nothing by adding blocks whose parent is known
  (or a first block), entries form one tree with exact heights and skip pointers, the map from hashes finds exactly the entries,
  the best header has most work, every block at height 1 generated a stake modifier; and the next such
  block can be added without an assertion failing.
\<close>

theorem added_blocks_keep_index:
  assumes "reachable_index H S P address s" and "stake_params_ok P" and "bs_heap s new = None" and "parent_known H S s b"
  shows "index_ok s \<and> (\<exists>p s'. AddToBlockIndex H S P address new b s = Some (p, s') \<and> index_ok s' \<and> bs_map s' (header_GetHash H S b) = Some p)"
proof -
  have ok: "index_ok s"
    by (rule reachable_index_ok [OF assms(1,2)])
  obtain p s' where add: "AddToBlockIndex H S P address new b s = Some (p, s')" "index_ok s'"
    using AddToBlockIndex_ok [OF ok assms(2-4)] by blast
  show ?thesis
    using ok add AddToBlockIndex_map [OF ok assms(2-4) add(1)] by blast
qed

theorem added_blocks_keep_index_witness:
  "\<exists>p s'. AddToBlockIndex zero_hash zero_sph index_params 1 4 (index_block 5) bs_empty = Some (p, s') \<and> index_ok s'"
proof -
  have "reachable_index zero_hash zero_sph index_params 1 bs_empty"
    by (rule reachable_index.empty)
  moreover have "bs_heap bs_empty 4 = None" "parent_known zero_hash zero_sph bs_empty (index_block 5)"
    by (simp_all add: bs_empty_def parent_known_def zero_header_hash) (simp add: index_block_def)
  ultimately show ?thesis
    using added_blocks_keep_index [OF _ index_params_ok] by blast
qed

text \<open>
  What a new entry records: it is filed under the hash of the block, one above its parent, with the work of the parent
  plus that of its own target, valid up to the tree and not failed, and the header read back from it is the header
  of the block. Nothing else is added.
\<close>

theorem added_entry_records_block:
  assumes "index_ok s" and "stake_params_ok P" and "bs_heap s new = None" and "bs_map s (header_GetHash H S b) = None"
    and "bs_map s (bh_hashPrevBlock b) = Some q" and "wf_header b"
  shows "\<exists>s' bi bq w. AddToBlockIndex H S P address new b s = Some (new, s') \<and> bs_map s' = (bs_map s)(header_GetHash H S b \<mapsto> new) \<and>
    dom (bs_heap s') = insert new (dom (bs_heap s)) \<and> bs_heap s' new = Some bi \<and> bs_heap s q = Some bq \<and>
    bi_pprev bi = Some q \<and> bi_nHeight bi = bi_nHeight bq + 1 \<and> bi_phashBlock bi = header_GetHash H S b \<and>
    IsValid bi BLOCK_VALID_TREE = Some True \<and> GetBlockProof (bh_nBits b) = Some w \<and> bi_nChainWork bi = uint_add (bi_nChainWork bq) w \<and>
    bi_GetBlockHeader (bs_heap s) bi = Some (block_GetBlockHeader b)"
proof -
  obtain s' bi bq w where *: "AddToBlockIndex H S P address new b s = Some (new, s')" "bs_map s' = (bs_map s)(header_GetHash H S b \<mapsto> new)"
    "dom (bs_heap s') = insert new (dom (bs_heap s))" "bs_heap s' new = Some bi" "bs_heap s q = Some bq"
    "bi_pprev bi = Some q" "bi_nHeight bi = bi_nHeight bq + 1" "bi_phashBlock bi = header_GetHash H S b" "bi_nStatus bi = 2"
    "bi_nBits bi = bh_nBits b" "header_fields bi = header_fields (CBlockIndex_of b)"
    "GetBlockProof (bh_nBits b) = Some w" "bi_nChainWork bi = uint_add (bi_nChainWork bq) w"
    using AddToBlockIndex_linked [OF assms(1-3) refl assms(4,5), of address] by blast
  have "bi_phashBlock bq = bh_hashPrevBlock b"
    using index_okD(2) [OF assms(1)] assms(5) *(5) by auto
  then have "bi_GetBlockHeader (bs_heap s) bi = Some (block_GetBlockHeader b)"
    using header_of_entry [of bi q "bs_heap s" bq b] *(5,6,10,11) assms(6) by blast
  moreover have "IsValid bi BLOCK_VALID_TREE = Some True"
    using *(9) by (simp add: IsValid_def BLOCK_VALID_MASK_def BLOCK_FAILED_MASK_def)
  ultimately show ?thesis
    using * by blast
qed

theorem added_entry_records_block_witness:
  "\<exists>s' bi. AddToBlockIndex zero_hash zero_sph index_params 1 4 (index_block 7) one_block = Some (4, s') \<and>
    bs_heap s' 4 = Some bi \<and> bi_pprev bi = Some 0 \<and> bi_nHeight bi = 1 \<and> bi_GetBlockHeader (bs_heap one_block) bi = Some (block_GetBlockHeader (index_block 7))"
proof -
  have 1: "bs_heap one_block 4 = None" and 2: "bs_map one_block (header_GetHash zero_hash zero_sph (index_block 7)) = None"
    and 3: "bs_map one_block (bh_hashPrevBlock (index_block 7)) = Some 0" and 4: "wf_header (index_block 7)"
    and 5: "bs_heap one_block 0 = Some (CBlockIndex_SetNull\<lparr>bi_phashBlock := 7\<rparr>)"
    by (simp_all add: one_block_def zero_header_hash) (simp_all add: index_block_def wf_header_def)
  show ?thesis
    using added_entry_records_block [OF one_block_ok index_params_ok 1 2 3 4, of 1] 5 by (auto simp: CBlockIndex_SetNull_def)
qed

end
