(* ===== verification/Standard.thy ===== *)
theory Standard
  imports SigHash
begin

text \<open>
  Standard scripts, \<open>src/script/standard.cpp\<close>: matching a script against the templates (\<open>Solver\<close>), the
  destinations it pays to, and the scripts for destinations. A destination is the variant \<open>CTxDestination\<close>; hashes of 160 bits
  are byte lists. \<open>vSolutionsRet\<close> is taken to be empty when \<open>Solver\<close> is called, as its callers do. The outer \<open>None\<close>
  is an iterator range that ends before it begins, from which no vector can be made, or a failed assertion.
\<close>

datatype txnouttype = TX_NONSTANDARD | TX_PUBKEY | TX_PUBKEYHASH | TX_SCRIPTHASH | TX_MULTISIG | TX_NULL_DATA | TX_ZEROCOINMINT

datatype CTxDestination = CNoDestination | CKeyID "byte list" | CScriptID "byte list"

definition GetTxnOutputType :: "txnouttype \<Rightarrow> string" where
  "GetTxnOutputType t =
     (case t of
        TX_NONSTANDARD \<Rightarrow> ''nonstandard''
      | TX_PUBKEY \<Rightarrow> ''pubkey''
      | TX_PUBKEYHASH \<Rightarrow> ''pubkeyhash''
      | TX_SCRIPTHASH \<Rightarrow> ''scripthash''
      | TX_MULTISIG \<Rightarrow> ''multisig''
      | TX_NULL_DATA \<Rightarrow> ''nulldata''
      | TX_ZEROCOINMINT \<Rightarrow> ''zerocoinmint'')"

section \<open>Templates\<close>

text \<open>A \<open>multimap\<close> is traversed in the order of its keys.\<close>

definition mTemplates :: "(txnouttype \<times> byte list) list" where
  "mTemplates =
     [(TX_PUBKEY, [of_nat OP_PUBKEY, of_nat OP_CHECKSIG]),
      (TX_PUBKEYHASH, [of_nat OP_DUP, of_nat OP_HASH160, of_nat OP_PUBKEYHASH, of_nat OP_EQUALVERIFY, of_nat OP_CHECKSIG]),
      (TX_MULTISIG, [of_nat OP_SMALLINTEGER, of_nat OP_PUBKEYS, of_nat OP_SMALLINTEGER, of_nat OP_CHECKMULTISIG])]"

text \<open>The loop over the keys of a multisignature script; its result is the last instruction read, the iterator and the solutions.\<close>

function pubkeys_loop ::
  "opcodetype \<Rightarrow> valtype \<Rightarrow> byte list \<Rightarrow> valtype list \<Rightarrow> opcodetype \<times> valtype \<times> byte list \<times> valtype list" where
  "pubkeys_loop opcode1 vch1 pc1 sols =
     (if 33 \<le> length vch1 \<and> length vch1 \<le> 65 then
        (case GetOp2 pc1 of (ok, opcode1', vch1', pc1') \<Rightarrow>
           if \<not> ok \<or> pc1 = [] then (opcode1', vch1', pc1', sols @ [vch1])
           else pubkeys_loop opcode1' vch1' pc1' (sols @ [vch1]))
      else (opcode1, vch1, pc1, sols))"
  by pat_completeness auto
termination
  by (relation "measure (\<lambda>(o1, v1, pc1, s). length pc1)") (auto dest: GetOp2_shrinks simp: prod_eq_iff split: prod.splits)

declare pubkeys_loop.simps [simp del]

text \<open>One instruction of the script against one of the template: the new solutions, or \<open>None\<close> when they do not match.\<close>

definition template_match :: "opcodetype \<Rightarrow> valtype \<Rightarrow> opcodetype \<Rightarrow> valtype \<Rightarrow> valtype list \<Rightarrow> valtype list option" where
  "template_match opcode1 vch1 opcode2 vch2 sols =
     (if opcode2 = OP_PUBKEY then (if length vch1 < 33 \<or> 65 < length vch1 then None else Some (sols @ [vch1]))
      else if opcode2 = OP_PUBKEYHASH then (if length vch1 \<noteq> 20 then None else Some (sols @ [vch1]))
      else if opcode2 = OP_SMALLINTEGER then
        (if opcode1 = OP_0 \<or> OP_1 \<le> opcode1 \<and> opcode1 \<le> OP_16
         then map_option (\<lambda>n. sols @ [[of_nat n]]) (DecodeOP_N opcode1)
         else None)
      else if opcode1 \<noteq> opcode2 \<or> vch1 \<noteq> vch2 then None
      else Some sols)"

function template_loop :: "byte list \<Rightarrow> byte list \<Rightarrow> valtype list \<Rightarrow> valtype list option" where
  "template_loop pc1 pc2 sols =
     (if pc1 = [] \<and> pc2 = [] then Some sols
      else
        (case GetOp pc1 of
           None \<Rightarrow> None
         | Some (opcode1, vch1, pc1) \<Rightarrow>
             (case GetOp pc2 of
                None \<Rightarrow> None
              | Some (opcode2, vch2, pc2) \<Rightarrow>
                  if opcode2 = OP_PUBKEYS then
                    (case pubkeys_loop opcode1 vch1 pc1 sols of (opcode1, vch1, pc1, sols) \<Rightarrow>
                       (case GetOp pc2 of
                          None \<Rightarrow> None
                        | Some (opcode2, vch2, pc2) \<Rightarrow>
                            (case template_match opcode1 vch1 opcode2 vch2 sols of
                               None \<Rightarrow> None
                             | Some sols \<Rightarrow> template_loop pc1 pc2 sols)))
                  else
                    (case template_match opcode1 vch1 opcode2 vch2 sols of
                       None \<Rightarrow> None
                     | Some sols \<Rightarrow> template_loop pc1 pc2 sols))))"
  by pat_completeness auto
termination
  by (relation "measure (\<lambda>(pc1, pc2, sols). length pc2)") (auto dest!: GetOp_shrinks)

declare template_loop.simps [simp del]

text \<open>The additional checks on a multisignature script; bytes are unsigned.\<close>

definition multisig_ok :: "valtype list \<Rightarrow> bool" where
  "multisig_ok sols =
     (let m = unat (hd sols ! 0); n = unat (last sols ! 0) in \<not> (m < 1 \<or> n < 1 \<or> m > n \<or> length sols - 2 \<noteq> n))"

fun scan_templates :: "byte list \<Rightarrow> (txnouttype \<times> byte list) list \<Rightarrow> bool \<times> txnouttype \<times> valtype list" where
  "scan_templates script1 [] = (False, TX_NONSTANDARD, [])"
| "scan_templates script1 ((t, script2) # ts) =
     (case template_loop script1 script2 [] of
        None \<Rightarrow> scan_templates script1 ts
      | Some sols \<Rightarrow> (if t = TX_MULTISIG then multisig_ok sols else True, t, sols))"

section \<open>Solver\<close>

definition Solver :: "byte list \<Rightarrow> (bool \<times> txnouttype \<times> valtype list) option" where
  "Solver script_pub =
     (if IsPayToScriptHash script_pub then Some (True, TX_SCRIPTHASH, [take 20 (drop 2 script_pub)])
      else if IsZerocoinMint script_pub then
        (if 150 < length script_pub then Some (False, TX_ZEROCOINMINT, [])
         else if length script_pub < 2 then None
         else Some (True, TX_ZEROCOINMINT, [drop 2 script_pub]))
      else if 1 \<le> length script_pub \<and> script_pub ! 0 = of_nat OP_RETURN \<and> IsPushOnly (drop 1 script_pub)
      then Some (True, TX_NULL_DATA, [])
      else Some (scan_templates script_pub mTemplates))"

definition ScriptSigArgsExpected :: "txnouttype \<Rightarrow> valtype list \<Rightarrow> int" where
  "ScriptSigArgsExpected t vSolutions =
     (case t of
        TX_PUBKEY \<Rightarrow> 1
      | TX_PUBKEYHASH \<Rightarrow> 2
      | TX_MULTISIG \<Rightarrow>
          if length vSolutions < 1 \<or> length (vSolutions ! 0) < 1 then - 1 else uint (vSolutions ! 0 ! 0) + 1
      | TX_SCRIPTHASH \<Rightarrow> 1
      | _ \<Rightarrow> - 1)"

text \<open>The two settings are the option \<open>-datacarrier\<close> and \<open>nMaxDatacarrierBytes\<close>.\<close>

definition IsStandard :: "bool \<Rightarrow> nat \<Rightarrow> byte list \<Rightarrow> (bool \<times> txnouttype) option" where
  "IsStandard fDataCarrier nMaxDatacarrierBytes script_pub =
     (case Solver script_pub of
        None \<Rightarrow> None
      | Some (ok, whichType, vSolutions) \<Rightarrow>
          if \<not> ok then Some (False, whichType)
          else if whichType = TX_MULTISIG then
            (let m = unat (hd vSolutions ! 0); n = unat (last vSolutions ! 0) in
             if n < 1 \<or> n > 3 then Some (False, whichType)
             else if m < 1 \<or> m > n then Some (False, whichType)
             else Some (True, whichType))
          else if whichType = TX_NULL_DATA \<and> (\<not> fDataCarrier \<or> nMaxDatacarrierBytes < length script_pub)
          then Some (False, whichType)
          else Some (whichType \<noteq> TX_NONSTANDARD, whichType))"

section \<open>Destinations\<close>

definition CPubKey_GetID :: "hash_funs \<Rightarrow> valtype \<Rightarrow> byte list" where
  "CPubKey_GetID H key = CHash160 H key"

text \<open>The inner result is \<open>None\<close> when there is no destination.\<close>

definition ExtractDestination :: "hash_funs \<Rightarrow> byte list \<Rightarrow> CTxDestination option option" where
  "ExtractDestination H script_pub =
     (case Solver script_pub of
        None \<Rightarrow> None
      | Some (ok, whichType, vSolutions) \<Rightarrow>
          if \<not> ok then Some None
          else if whichType = TX_PUBKEY then
            (let pubKey = CPubKey (vSolutions ! 0) in
             if \<not> CPubKey_IsValid pubKey then Some None else Some (Some (CKeyID (CPubKey_GetID H pubKey))))
          else if whichType = TX_PUBKEYHASH then Some (Some (CKeyID (vSolutions ! 0)))
          else if whichType = TX_SCRIPTHASH then Some (Some (CScriptID (vSolutions ! 0)))
          else Some None)"

fun key_ids :: "hash_funs \<Rightarrow> valtype list \<Rightarrow> CTxDestination list" where
  "key_ids H [] = []"
| "key_ids H (k # ks) =
     (let pubKey = CPubKey k in
      if \<not> CPubKey_IsValid pubKey then key_ids H ks else CKeyID (CPubKey_GetID H pubKey) # key_ids H ks)"

text \<open>The return value, the type, the addresses and the number of signatures, which is unset when the function fails early.\<close>

definition ExtractDestinations ::
  "hash_funs \<Rightarrow> byte list \<Rightarrow> (bool \<times> txnouttype \<times> CTxDestination list \<times> nat option) option" where
  "ExtractDestinations H script_pub =
     (case Solver script_pub of
        None \<Rightarrow> None
      | Some (ok, t, vSolutions) \<Rightarrow>
          if \<not> ok then Some (False, t, [], None)
          else if t = TX_NULL_DATA then Some (False, t, [], None)
          else if t = TX_MULTISIG then
            (let addressRet = key_ids H (take (length vSolutions - 2) (drop 1 vSolutions)) in
             Some (addressRet \<noteq> [], t, addressRet, Some (unat (hd vSolutions ! 0))))
          else
            (case ExtractDestination H script_pub of
               None \<Rightarrow> None
             | Some None \<Rightarrow> Some (False, t, [], Some 1)
             | Some (Some address) \<Rightarrow> Some (True, t, [address], Some 1)))"

definition GetScriptForDestination :: "CTxDestination \<Rightarrow> byte list" where
  "GetScriptForDestination dest =
     (case dest of
        CNoDestination \<Rightarrow> []
      | CKeyID keyID \<Rightarrow> [of_nat OP_DUP, of_nat OP_HASH160] @ script_push keyID @ [of_nat OP_EQUALVERIFY, of_nat OP_CHECKSIG]
      | CScriptID scriptID \<Rightarrow> [of_nat OP_HASH160] @ script_push scriptID @ [of_nat OP_EQUAL])"

text \<open>\<open>EncodeOP_N\<close> asserts that its argument is at most 16.\<close>

definition GetScriptForMultisig :: "nat \<Rightarrow> valtype list \<Rightarrow> byte list option" where
  "GetScriptForMultisig nRequired keys =
     (case EncodeOP_N nRequired of
        None \<Rightarrow> None
      | Some m \<Rightarrow>
          (case EncodeOP_N (length keys) of
             None \<Rightarrow> None
           | Some n \<Rightarrow> Some ([of_nat m] @ concat (map script_push keys) @ [of_nat n, of_nat OP_CHECKMULTISIG])))"

end
