(* ===== verification/StandardProps.thy ===== *)
theory StandardProps
  imports Standard
begin

text \<open>
  Which scripts \<open>Solver\<close> recognises, and that the scripts made for destinations and for multisignatures are
  recognised as such.
\<close>

section \<open>Steps of the template matching\<close>

lemma GetOp_opcode:
  assumes "OP_PUSHDATA4 < opc" and "opc < 256"
  shows "GetOp pc = Some (opc, v, r) \<longleftrightarrow> v = [] \<and> pc = of_nat opc # r"
proof (cases pc)
  case (Cons b bs)
  have u: "unat (of_nat opc :: byte) = opc"
    using assms(2) by (simp add: unat_of_nat)
  have small: "getop_data x n xs \<noteq> (True, opc, v, r)" "getop_sized x n xs \<noteq> (True, opc, v, r)" if "x \<le> OP_PUSHDATA4" for x n xs
    using that assms(1) by (auto simp: getop_sized_def getop_data_def split: if_splits)
  show ?thesis
  proof (cases "unat b \<le> OP_PUSHDATA4")
    case True
    then have "b \<noteq> of_nat opc"
      using u assms(1) by auto
    moreover have "GetOp2 (b # bs) \<noteq> (True, opc, v, r)"
      using True small by (auto simp: Let_def split: if_splits)
    then have "GetOp pc \<noteq> Some (opc, v, r)"
      by (auto simp: Cons GetOp_def split: prod.splits)
    ultimately show ?thesis
      using Cons by simp
  next
    case False
    have "b = of_nat opc" if "opc = unat b"
      using that by simp
    then show ?thesis
      using False u Cons by (auto simp: GetOp_def Let_def)
  qed
qed simp

lemma GetOp_opcode_Cons [simp]: "OP_PUSHDATA4 < opc \<Longrightarrow> opc < 256 \<Longrightarrow> GetOp (of_nat opc # r) = Some (opc, [], r)"
  by (simp add: GetOp_opcode)

lemma template_loop_end: "template_loop pc1 [] sols = (if pc1 = [] then Some sols else None)"
  by (subst template_loop.simps) (auto split: option.splits)

lemma template_loop_step:
  assumes "OP_PUSHDATA4 < o2" and "o2 < 256" and "o2 \<noteq> OP_PUBKEYS"
  shows "template_loop pc1 (of_nat o2 # pc2) sols =
    (case GetOp pc1 of
       None \<Rightarrow> None
     | Some (o1, v1, p1) \<Rightarrow>
         (case template_match o1 v1 o2 [] sols of None \<Rightarrow> None | Some sols \<Rightarrow> template_loop p1 pc2 sols))"
  using assms by (subst template_loop.simps) (auto split: option.splits prod.splits)

lemma template_loop_opcode:
  assumes "OP_PUSHDATA4 < o2" and "o2 < 256" and "o2 \<notin> {OP_PUBKEYS, OP_PUBKEY, OP_PUBKEYHASH, OP_SMALLINTEGER}"
  shows "template_loop pc1 (of_nat o2 # pc2) sols = Some sols' \<longleftrightarrow>
    (\<exists>p1. pc1 = of_nat o2 # p1 \<and> template_loop p1 pc2 sols = Some sols')"
proof -
  have "template_loop pc1 (of_nat o2 # pc2) sols = Some sols' \<longleftrightarrow>
      (\<exists>o1 v1 p1. GetOp pc1 = Some (o1, v1, p1) \<and> o1 = o2 \<and> v1 = [] \<and> template_loop p1 pc2 sols = Some sols')"
    using assms template_loop_step [OF assms(1,2), of pc1 pc2 sols] by (auto simp: template_match_def split: option.splits)
  then show ?thesis
    using GetOp_opcode [OF assms(1,2)] by auto
qed

text \<open>One push of a vector, in whatever form.\<close>

definition pushes :: "byte list \<Rightarrow> valtype \<Rightarrow> bool" where
  "pushes c x \<longleftrightarrow> c \<noteq> [] \<and> (\<exists>opc. \<forall>r. GetOp (c @ r) = Some (opc, x, r))"

lemma GetOp_pushes: "(\<exists>opc. GetOp pc = Some (opc, x, r)) \<longleftrightarrow> (\<exists>c. pushes c x \<and> pc = c @ r)"
proof
  assume "\<exists>opc. GetOp pc = Some (opc, x, r)"
  then obtain opc where "GetOp pc = Some (opc, x, r)" ..
  then obtain c where "c \<noteq> []" "pc = c @ r" "\<And>r. GetOp (c @ r) = Some (opc, x, r)"
    by (rule GetOp_chunk) blast
  then show "\<exists>c. pushes c x \<and> pc = c @ r"
    unfolding pushes_def by blast
qed (auto simp: pushes_def)

lemma pushes_script_push: "length x < 2 ^ 32 \<Longrightarrow> pushes (script_push x) x"
  by (auto simp: pushes_def GetOp_script_push)

lemma template_loop_key:
  "template_loop pc1 (of_nat OP_PUBKEYHASH # pc2) sols = Some sols' \<longleftrightarrow>
    (\<exists>c x p1. pushes c x \<and> length x = 20 \<and> pc1 = c @ p1 \<and> template_loop p1 pc2 (sols @ [x]) = Some sols')"
  "template_loop pc1 (of_nat OP_PUBKEY # pc2) sols = Some sols' \<longleftrightarrow>
    (\<exists>c x p1. pushes c x \<and> 33 \<le> length x \<and> length x \<le> 65 \<and> pc1 = c @ p1 \<and> template_loop p1 pc2 (sols @ [x]) = Some sols')"
proof -
  have "template_loop pc1 (of_nat OP_PUBKEYHASH # pc2) sols = Some sols' \<longleftrightarrow>
      (\<exists>x p1. (\<exists>opc. GetOp pc1 = Some (opc, x, p1)) \<and> length x = 20 \<and> template_loop p1 pc2 (sols @ [x]) = Some sols')"
    using template_loop_step [of OP_PUBKEYHASH pc1 pc2 sols] by (auto simp: template_match_def split: option.splits)
  then show "template_loop pc1 (of_nat OP_PUBKEYHASH # pc2) sols = Some sols' \<longleftrightarrow>
    (\<exists>c x p1. pushes c x \<and> length x = 20 \<and> pc1 = c @ p1 \<and> template_loop p1 pc2 (sols @ [x]) = Some sols')"
    unfolding GetOp_pushes by blast
  have "template_loop pc1 (of_nat OP_PUBKEY # pc2) sols = Some sols' \<longleftrightarrow>
      (\<exists>x p1. (\<exists>opc. GetOp pc1 = Some (opc, x, p1)) \<and> 33 \<le> length x \<and> length x \<le> 65 \<and>
        template_loop p1 pc2 (sols @ [x]) = Some sols')"
    using template_loop_step [of OP_PUBKEY pc1 pc2 sols] by (auto simp: template_match_def split: option.splits)
  then show "template_loop pc1 (of_nat OP_PUBKEY # pc2) sols = Some sols' \<longleftrightarrow>
    (\<exists>c x p1. pushes c x \<and> 33 \<le> length x \<and> length x \<le> 65 \<and> pc1 = c @ p1 \<and> template_loop p1 pc2 (sols @ [x]) = Some sols')"
    unfolding GetOp_pushes by blast
qed

section \<open>What Solver recognises\<close>

text \<open>The three shapes that are found by their template.\<close>

definition p2pk_shape :: "byte list \<Rightarrow> valtype \<Rightarrow> bool" where
  "p2pk_shape s key \<longleftrightarrow> 33 \<le> length key \<and> length key \<le> 65 \<and> (\<exists>c. pushes c key \<and> s = c @ [of_nat OP_CHECKSIG])"

definition p2pkh_shape :: "byte list \<Rightarrow> valtype \<Rightarrow> bool" where
  "p2pkh_shape s x \<longleftrightarrow> length x = 20 \<and>
     (\<exists>c. pushes c x \<and> s = [of_nat OP_DUP, of_nat OP_HASH160] @ c @ [of_nat OP_EQUALVERIFY, of_nat OP_CHECKSIG])"

lemma template_p2pk: "template_loop s (snd (mTemplates ! 0)) [] = Some sols \<longleftrightarrow> (\<exists>x. p2pk_shape s x \<and> sols = [x])"
proof -
  have "template_loop s [of_nat OP_PUBKEY, of_nat OP_CHECKSIG] [] = Some sols \<longleftrightarrow>
      (\<exists>c x p1. pushes c x \<and> 33 \<le> length x \<and> length x \<le> 65 \<and> s = c @ p1 \<and> template_loop p1 [of_nat OP_CHECKSIG] [x] = Some sols)"
    unfolding template_loop_key by simp
  also have "\<dots> \<longleftrightarrow> (\<exists>x. p2pk_shape s x \<and> sols = [x])"
    using template_loop_opcode [of OP_CHECKSIG _ "[]"] unfolding p2pk_shape_def
    by (auto simp: template_loop_end split: if_splits)
  finally show ?thesis
    by (simp add: mTemplates_def)
qed

lemma template_p2pkh: "template_loop s (snd (mTemplates ! 1)) [] = Some sols \<longleftrightarrow> (\<exists>x. p2pkh_shape s x \<and> sols = [x])"
proof -
  let ?fin = "[of_nat OP_EQUALVERIFY, of_nat OP_CHECKSIG] :: byte list"
  have tail: "template_loop p1 ?fin [x] = Some sols \<longleftrightarrow> p1 = ?fin \<and> sols = [x]" for p1 x
    using template_loop_opcode [of OP_EQUALVERIFY p1 "[of_nat OP_CHECKSIG]" "[x]" sols]
      template_loop_opcode [of OP_CHECKSIG _ "[]" "[x]" sols] by (auto simp: template_loop_end split: if_splits)
  have "template_loop s ([of_nat OP_DUP, of_nat OP_HASH160] @ of_nat OP_PUBKEYHASH # ?fin) [] = Some sols \<longleftrightarrow>
      (\<exists>p1. s = of_nat OP_DUP # of_nat OP_HASH160 # p1 \<and> template_loop p1 (of_nat OP_PUBKEYHASH # ?fin) [] = Some sols)"
    using template_loop_opcode [of OP_DUP s "of_nat OP_HASH160 # of_nat OP_PUBKEYHASH # ?fin" "[]" sols]
      template_loop_opcode [of OP_HASH160 _ "of_nat OP_PUBKEYHASH # ?fin" "[]" sols] by auto
  also have "\<dots> \<longleftrightarrow> (\<exists>x. p2pkh_shape s x \<and> sols = [x])"
    unfolding template_loop_key append_Nil tail p2pkh_shape_def by auto
  finally show ?thesis
    by (simp add: mTemplates_def)
qed

text \<open>A multisignature script: a small integer, keys, a small integer.\<close>

lemma pubkeys_loop_keys:
  assumes "\<forall>k \<in> set keys. 33 \<le> length k \<and> length k \<le> 65" and "keys \<noteq> []" and "OP_PUSHDATA4 < opc" and "opc < 256"
  shows "pubkeys_loop o1 (hd keys) (concat (map script_push (tl keys)) @ of_nat opc # rest) sols = (opc, [], rest, sols @ keys)"
  using assms(1,2)
proof (induction keys arbitrary: o1 sols)
  case (Cons k ks)
  show ?case
  proof (cases ks)
    case Nil
    have "GetOp2 (of_nat opc # rest) = (True, opc, [], rest)"
      using assms(3,4) GetOp_opcode_Cons [of opc rest] by (auto simp: GetOp_def split: prod.splits if_splits)
    moreover have "pubkeys_loop opc [] rest (sols @ [k]) = (opc, [], rest, sols @ [k])"
      by (subst pubkeys_loop.simps) simp
    ultimately show ?thesis
      using Cons.prems Nil by (subst pubkeys_loop.simps) simp
  next
    case (Cons k' ks')
    have k': "length k' \<le> 65" "33 \<le> length k" "length k \<le> 65"
      using Cons.prems Cons by simp_all
    have "GetOp (script_push k' @ concat (map script_push ks') @ of_nat opc # rest) =
        Some (push_opcode k', k', concat (map script_push ks') @ of_nat opc # rest)"
      using k' by (intro GetOp_script_push) simp
    then have "GetOp2 (script_push k' @ concat (map script_push ks') @ of_nat opc # rest) =
        (True, push_opcode k', k', concat (map script_push ks') @ of_nat opc # rest)"
      by (auto simp: GetOp_def split: prod.splits if_splits)
    moreover have "pubkeys_loop (push_opcode k') k' (concat (map script_push ks') @ of_nat opc # rest) (sols @ [k]) = (opc, [], rest, sols @ k # ks)"
      using Cons.IH [of "push_opcode k'" "sols @ [k]"] Cons.prems Cons by simp
    ultimately show ?thesis
      using k' Cons by (subst pubkeys_loop.simps) simp
  qed
qed simp

lemma pushes_head:
  assumes "pushes c x" and "x \<noteq> []"
  shows "c \<noteq> [] \<and> unat (hd c) \<le> OP_PUSHDATA4"
proof -
  obtain opc where c: "c \<noteq> []" "GetOp (c @ []) = Some (opc, x, [])"
    using assms(1) unfolding pushes_def by blast
  then show ?thesis
    using assms(2) by (cases c) (auto simp: GetOp_def Let_def split: if_splits)
qed

lemma Solver_templates:
  assumes "s \<noteq> []" and "hd s \<notin> {of_nat OP_HASH160, of_nat OP_ZEROCOINMINT, of_nat OP_RETURN}"
  shows "Solver s = Some (scan_templates s mTemplates)"
  using assms by (cases s) (auto simp: Solver_def IsPayToScriptHash_def IsZerocoinMint_def)

lemma p2pk_head: "p2pk_shape s x \<Longrightarrow> s \<noteq> [] \<and> unat (hd s) \<le> OP_PUSHDATA4"
  using pushes_head [of _ x] by (fastforce simp: p2pk_shape_def)

lemma p2pk_not_p2pkh: "p2pkh_shape s x \<Longrightarrow> \<not> p2pk_shape s y"
  using p2pk_head [of s y] by (auto simp: p2pkh_shape_def)

lemma no_template: "template_loop s t [] = None \<longleftrightarrow> (\<nexists>sols. template_loop s t [] = Some sols)"
  by (cases "template_loop s t []") auto

lemma scan_p2pkh:
  "scan_templates s mTemplates = (True, TX_PUBKEYHASH, sols) \<longleftrightarrow> (\<exists>x. p2pkh_shape s x \<and> sols = [x])"
proof (cases "template_loop s (snd (mTemplates ! 0)) []")
  case (Some y)
  then have "\<exists>x. p2pk_shape s x"
    unfolding template_p2pk by blast
  then show ?thesis
    using Some p2pk_not_p2pkh by (auto simp: mTemplates_def)
next
  case None
  then show ?thesis
    using template_p2pkh [of s sols] by (auto simp: mTemplates_def split: option.splits)
qed

lemma Solver_p2pkh_iff: "Solver s = Some (True, TX_PUBKEYHASH, sols) \<longleftrightarrow> (\<exists>x. p2pkh_shape s x \<and> sols = [x])"
proof
  assume "Solver s = Some (True, TX_PUBKEYHASH, sols)"
  then have "scan_templates s mTemplates = (True, TX_PUBKEYHASH, sols)"
    by (simp add: Solver_def split: if_splits)
  then show "\<exists>x. p2pkh_shape s x \<and> sols = [x]"
    unfolding scan_p2pkh .
next
  assume x: "\<exists>x. p2pkh_shape s x \<and> sols = [x]"
  then have "Solver s = Some (scan_templates s mTemplates)"
    by (intro Solver_templates) (auto simp: p2pkh_shape_def)
  then show "Solver s = Some (True, TX_PUBKEYHASH, sols)"
    using x scan_p2pkh by simp
qed

lemma Solver_p2pk_iff: "Solver s = Some (True, TX_PUBKEY, sols) \<longleftrightarrow> (\<exists>x. p2pk_shape s x \<and> sols = [x])"
proof
  assume "Solver s = Some (True, TX_PUBKEY, sols)"
  then have "scan_templates s mTemplates = (True, TX_PUBKEY, sols)"
    by (simp add: Solver_def split: if_splits)
  then have "template_loop s (snd (mTemplates ! 0)) [] = Some sols"
    by (auto simp: mTemplates_def split: option.splits)
  then show "\<exists>x. p2pk_shape s x \<and> sols = [x]"
    unfolding template_p2pk .
next
  assume x: "\<exists>x. p2pk_shape s x \<and> sols = [x]"
  then have "template_loop s (snd (mTemplates ! 0)) [] = Some sols"
    unfolding template_p2pk .
  moreover have "Solver s = Some (scan_templates s mTemplates)"
    using x p2pk_head [of s] by (intro Solver_templates) auto
  ultimately show "Solver s = Some (True, TX_PUBKEY, sols)"
    by (simp add: mTemplates_def)
qed

lemma Solver_p2sh_iff: "Solver s = Some (True, TX_SCRIPTHASH, sols) \<longleftrightarrow> IsPayToScriptHash s \<and> sols = [take 20 (drop 2 s)]"
proof -
  have "scan_templates s mTemplates \<noteq> (True, TX_SCRIPTHASH, sols)"
    by (auto simp: mTemplates_def split: option.splits)
  then show ?thesis
    by (auto simp: Solver_def)
qed

lemma Solver_None_iff: "Solver s = None \<longleftrightarrow> s = [of_nat OP_ZEROCOINMINT]"
proof -
  have "s = [x]" if "length s < 2" "0 < length s" "s ! 0 = x" for x
    using that by (cases s) (auto simp: less_Suc_eq_le numeral_2_eq_2)
  then show ?thesis
    by (cases "scan_templates s mTemplates") (auto simp: Solver_def IsZerocoinMint_def IsPayToScriptHash_def)
qed

section \<open>Scripts that are made\<close>

lemma small_opcode:
  assumes "EncodeOP_N n = Some opc" and "1 \<le> n"
  shows "OP_PUSHDATA4 < opc" and "opc < 256" and "template_match opc [] OP_SMALLINTEGER [] sols = Some (sols @ [[of_nat n]])"
    and "OP_1 \<le> opc" and "opc \<le> OP_16"
  using assms by (auto simp: EncodeOP_N_def template_match_def DecodeOP_N_def split: if_splits)

lemma Solver_multisig:
  assumes "1 \<le> m" and "m \<le> length keys" and "length keys \<le> 16" and "\<forall>k \<in> set keys. 33 \<le> length k \<and> length k \<le> 65"
  shows "\<exists>s. GetScriptForMultisig m keys = Some s \<and> Solver s = Some (True, TX_MULTISIG, [[of_nat m]] @ keys @ [[of_nat (length keys)]])"
proof -
  obtain om on where o': "EncodeOP_N m = Some om" "EncodeOP_N (length keys) = Some on"
  proof -
    have "\<exists>opc. EncodeOP_N n = Some opc" if "n \<le> 16" for n
      using that by (simp add: EncodeOP_N_def)
    then show ?thesis
      using assms(2,3) that by (meson order_trans)
  qed
  note om = small_opcode [OF o'(1) assms(1)]
  have n1: "1 \<le> length keys"
    using assms(1,2) by linarith
  note on = small_opcode [OF o'(2) n1]
  let ?tail = "[of_nat on, of_nat OP_CHECKMULTISIG] :: byte list"
  define s where "s = of_nat om # concat (map script_push keys) @ ?tail"
  have get: "GetScriptForMultisig m keys = Some s"
    using o' by (simp add: GetScriptForMultisig_def s_def)
  obtain k ks where keys: "keys = k # ks"
    using n1 by (cases keys) auto
  have hd_s: "s \<noteq> []" "unat (hd s) = om"
    using om(2) by (simp_all add: s_def unat_of_nat)
  have "hd s \<notin> {of_nat OP_HASH160, of_nat OP_ZEROCOINMINT, of_nat OP_RETURN, of_nat OP_DUP}"
    using hd_s(2) om(4,5) by auto
  then have solver: "Solver s = Some (scan_templates s mTemplates)" "\<not> p2pkh_shape s x" for x
    using Solver_templates [OF hd_s(1)] by (auto simp: p2pkh_shape_def)
  have "\<not> p2pk_shape s x" for x
    using p2pk_head [of s x] hd_s(2) om(1) by auto
  then have skip: "template_loop s (snd (mTemplates ! 0)) [] = None" "template_loop s (snd (mTemplates ! 1)) [] = None"
    unfolding no_template template_p2pk template_p2pkh using solver(2) by blast+
  have key: "length k \<le> 65"
    using assms(4) keys by simp
  have loop: "pubkeys_loop (push_opcode k) k (concat (map script_push ks) @ ?tail) [[of_nat m]] = (on, [], [of_nat OP_CHECKMULTISIG], [of_nat m] # keys)"
    using pubkeys_loop_keys [of keys on "push_opcode k" "[of_nat OP_CHECKMULTISIG]" "[[of_nat m]]"] assms(4) on(1,2) keys by simp
  have last: "template_loop [of_nat OP_CHECKMULTISIG] [of_nat OP_CHECKMULTISIG] sols = Some sols" for sols
    using template_loop_opcode [of OP_CHECKMULTISIG "[of_nat OP_CHECKMULTISIG]" "[]" sols sols] by (simp add: template_loop_end)
  have push: "GetOp (script_push k @ concat (map script_push ks) @ ?tail) = Some (push_opcode k, k, concat (map script_push ks) @ ?tail)"
    using key by (intro GetOp_script_push) simp
  have mid: "template_loop (script_push k @ concat (map script_push ks) @ ?tail)
      [of_nat OP_PUBKEYS, of_nat OP_SMALLINTEGER, of_nat OP_CHECKMULTISIG] [[of_nat m]] = Some ([of_nat m] # keys @ [[of_nat (length keys)]])"
  proof -
    have g: "GetOp [of_nat OP_PUBKEYS, of_nat OP_SMALLINTEGER, of_nat OP_CHECKMULTISIG] = Some (OP_PUBKEYS, [], [of_nat OP_SMALLINTEGER, of_nat OP_CHECKMULTISIG])"
      "GetOp [of_nat OP_SMALLINTEGER, of_nat OP_CHECKMULTISIG] = Some (OP_SMALLINTEGER, [], [of_nat OP_CHECKMULTISIG])"
      by (rule GetOp_opcode_Cons; simp)+
    show ?thesis
      by (subst template_loop.simps) (simp only: list.distinct simp_thms if_False push g option.case prod.case loop if_True refl on(3) last append_Cons)
  qed
  have "template_loop s [of_nat OP_SMALLINTEGER, of_nat OP_PUBKEYS, of_nat OP_SMALLINTEGER, of_nat OP_CHECKMULTISIG] [] =
      Some ([of_nat m] # keys @ [[of_nat (length keys)]])"
    using template_loop_step [of OP_SMALLINTEGER s "[of_nat OP_PUBKEYS, of_nat OP_SMALLINTEGER, of_nat OP_CHECKMULTISIG]" "[]"] mid om(1,2)
    by (simp add: s_def keys om(3))
  then have match: "template_loop s (snd (mTemplates ! 2)) [] = Some ([of_nat m] # keys @ [[of_nat (length keys)]])"
    by (simp add: mTemplates_def)
  have templates: "mTemplates = [(TX_PUBKEY, snd (mTemplates ! 0)), (TX_PUBKEYHASH, snd (mTemplates ! 1)), (TX_MULTISIG, snd (mTemplates ! 2))]"
    by (simp add: mTemplates_def)
  have "unat (of_nat m :: byte) = m" "unat (of_nat (length keys) :: byte) = length keys"
    using assms(2,3) by (simp_all add: unat_of_nat)
  then have "multisig_ok ([of_nat m] # keys @ [[of_nat (length keys)]])"
    using assms(1,2) n1 by (auto simp: multisig_ok_def)
  then have "scan_templates s mTemplates = (True, TX_MULTISIG, [of_nat m] # keys @ [[of_nat (length keys)]])"
    using skip match by (subst templates) simp
  then show ?thesis
    using get solver(1) by simp
qed

section \<open>Destinations\<close>

definition dest_hash :: "CTxDestination \<Rightarrow> byte list" where
  "dest_hash d = (case d of CNoDestination \<Rightarrow> [] | CKeyID x \<Rightarrow> x | CScriptID x \<Rightarrow> x)"

lemma Solver_destination:
  assumes "length (dest_hash d) = 20"
  shows "Solver (GetScriptForDestination d) =
    Some (True, (case d of CKeyID _ \<Rightarrow> TX_PUBKEYHASH | _ \<Rightarrow> TX_SCRIPTHASH), [dest_hash d])"
proof (cases d)
  case CNoDestination
  then show ?thesis
    using assms by (simp add: dest_hash_def)
next
  case (CKeyID x)
  have len: "length x = 20"
    using assms CKeyID by (simp add: dest_hash_def)
  have "p2pkh_shape (GetScriptForDestination d) x"
    unfolding p2pkh_shape_def CKeyID GetScriptForDestination_def using len by (auto intro!: exI [of _ "script_push x"] pushes_script_push)
  then have "Solver (GetScriptForDestination d) = Some (True, TX_PUBKEYHASH, [x])"
    unfolding Solver_p2pkh_iff by blast
  then show ?thesis
    by (simp add: dest_hash_def CKeyID)
next
  case (CScriptID x)
  have len: "length x = 20"
    using assms CScriptID by (simp add: dest_hash_def)
  have s: "GetScriptForDestination d = of_nat OP_HASH160 # 0x14 # x @ [of_nat OP_EQUAL]"
    using len by (simp add: GetScriptForDestination_def CScriptID script_push_def)
  have "IsPayToScriptHash (GetScriptForDestination d)"
    unfolding s IsPayToScriptHash_def using len by (simp add: nth_append)
  moreover have "take 20 (drop 2 (GetScriptForDestination d)) = x"
    unfolding s using len by simp
  ultimately have "Solver (GetScriptForDestination d) = Some (True, TX_SCRIPTHASH, [x])"
    unfolding Solver_p2sh_iff by simp
  then show ?thesis
    by (simp add: dest_hash_def CScriptID)
qed

lemma ExtractDestination_script:
  assumes "length (dest_hash d) = 20"
  shows "ExtractDestination H (GetScriptForDestination d) = Some (Some d)"
  using Solver_destination [OF assms] assms by (cases d) (simp_all add: ExtractDestination_def dest_hash_def)

end
