(* ===== verification/StakeCheck.thy ===== *)
theory StakeCheck
  imports AddIndex StandardProps Utxo
begin

unbundle bit_operations_syntax

text \<open>
  The checks on a proof-of-stake block: its signature, \<open>CheckBlockSignature\<close> and \<open>SignBlock\<close> of
  \<open>src/primitives/block.cpp\<close>, and its kernel, \<open>CheckProofOfStake\<close> of \<open>src/kernel.cpp\<close>. Keys are an argument:
  \<open>verify key hash sig\<close> is \<open>CPubKey::Verify\<close>, \<open>get_key\<close> the key store and \<open>sign\<close> the signature of a key. So are
  \<open>GetTransaction\<close> and reading a block from disk. \<open>None\<close> is an exception, a failed assertion or an index outside a vector.
\<close>

section \<open>The signature of a block\<close>

definition CheckBlockSignature ::
  "(valtype \<Rightarrow> uint256 \<Rightarrow> valtype \<Rightarrow> bool) \<Rightarrow> hash_funs \<Rightarrow> sph_funs \<Rightarrow> CBlock \<Rightarrow> bool option" where
  "CheckBlockSignature verify H S b =
     (if block_IsProofOfWork b then Some (bl_vchBlockSig b = [])
      else
        let txout = vout (bl_vtx b ! 1) ! 1 in
        (case Solver (scriptPubKey txout) of
           None \<Rightarrow> None
         | Some (ok, whichType, vSolutions) \<Rightarrow>
             if \<not> ok then Some False
             else if whichType = TX_PUBKEY then
               (let pubkey = CPubKey (vSolutions ! 0) in
                if \<not> CPubKey_IsValid pubkey then Some False
                else if bl_vchBlockSig b = [] then Some False
                else Some (verify pubkey (header_GetHash H S b) (bl_vchBlockSig b)))
             else if whichType = TX_PUBKEYHASH then
               (let pubkey = CPubKey (vSolutions ! 0) in
                if \<not> CPubKey_IsValid pubkey then Some False
                else if bl_vchBlockSig b = [] then Some False
                else Some (verify pubkey (header_GetHash H S b) (bl_vchBlockSig b)))
             else Some False))"

text \<open>A hash of 160 bits is made from a vector of 20 bytes; another size throws.\<close>

definition uint160_of :: "valtype \<Rightarrow> byte list option" where
  "uint160_of v = (if length v = 20 then Some v else None)"

text \<open>The new signature, or \<open>None\<close> when the function returns false; the loop is over the outputs of the coinbase.\<close>

definition sign_with ::
  "(byte list \<Rightarrow> 'key option) \<Rightarrow> ('key \<Rightarrow> uint256 \<Rightarrow> valtype option) \<Rightarrow> uint256 \<Rightarrow> byte list \<Rightarrow> valtype option" where
  "sign_with get_key sign hash keyID = (case get_key keyID of None \<Rightarrow> None | Some key \<Rightarrow> sign key hash)"

fun sign_work_loop ::
  "(byte list \<Rightarrow> 'key option) \<Rightarrow> ('key \<Rightarrow> uint256 \<Rightarrow> valtype option) \<Rightarrow> uint256 \<Rightarrow> CTxOut list \<Rightarrow> valtype option option" where
  "sign_work_loop get_key sign hash [] = Some None"
| "sign_work_loop get_key sign hash (txout # outs) =
     (case Solver (scriptPubKey txout) of
        None \<Rightarrow> None
      | Some (ok, whichType, vSolutions) \<Rightarrow>
          if \<not> ok then sign_work_loop get_key sign hash outs
          else if whichType = TX_PUBKEY then
            (case uint160_of (vSolutions ! 0) of
               None \<Rightarrow> None
             | Some keyID \<Rightarrow> Some (sign_with get_key sign hash keyID))
          else sign_work_loop get_key sign hash outs)"

definition SignBlock ::
  "(byte list \<Rightarrow> 'key option) \<Rightarrow> ('key \<Rightarrow> uint256 \<Rightarrow> valtype option) \<Rightarrow> hash_funs \<Rightarrow> sph_funs \<Rightarrow> CBlock \<Rightarrow> valtype option option" where
  "SignBlock get_key sign H S b =
     (let hash = header_GetHash H S b in
      if \<not> block_IsProofOfStake b then
        (case bl_vtx b of [] \<Rightarrow> None | tx # _ \<Rightarrow> sign_work_loop get_key sign hash (vout tx))
      else
        (case Solver (scriptPubKey (vout (bl_vtx b ! 1) ! 1)) of
           None \<Rightarrow> None
         | Some (ok, whichType, vSolutions) \<Rightarrow>
             if \<not> ok then Some None
             else if whichType = TX_PUBKEYHASH then
               map_option (sign_with get_key sign hash) (uint160_of (vSolutions ! 0))
             else if whichType = TX_PUBKEY then
               Some (sign_with get_key sign hash (CPubKey_GetID H (CPubKey (vSolutions ! 0))))
             else Some None))"

section \<open>The kernel of a block\<close>

definition STANDARD_SCRIPT_VERIFY_FLAGS :: flags where
  "STANDARD_SCRIPT_VERIFY_FLAGS =
     SCRIPT_VERIFY_P2SH OR SCRIPT_VERIFY_DERSIG OR SCRIPT_VERIFY_STRICTENC OR SCRIPT_VERIFY_MINIMALDATA OR
     SCRIPT_VERIFY_NULLDUMMY OR SCRIPT_VERIFY_DISCOURAGE_UPGRADABLE_NOPS OR SCRIPT_VERIFY_CHECKLOCKTIMEVERIFY"

text \<open>
  The result is the return value and the proof hash, which keeps its value \<open>hp\<close> until the kernel is hashed.
  \<open>GetTransaction\<close> returns a transaction with the hash of its block.
\<close>

definition CheckProofOfStake ::
  "hash_funs \<Rightarrow> sph_funs \<Rightarrow> (valtype \<Rightarrow> uint256 \<Rightarrow> valtype \<Rightarrow> bool) \<Rightarrow> (uint256 \<Rightarrow> (CTransaction \<times> uint256) option) \<Rightarrow>
   (int \<times> 32 word \<Rightarrow> CBlock option) \<Rightarrow> stake_params \<Rightarrow> index_heap \<Rightarrow> block_map \<Rightarrow> CChain \<Rightarrow> int \<Rightarrow> CBlock \<Rightarrow> uint256 \<Rightarrow>
   (bool \<times> uint256) option" where
  "CheckProofOfStake H S verify GetTransaction ReadBlockFromDisk P h mapBlockIndex vChain now b hp =
     (if length (bl_vtx b) < 2 then None
      else
        let tx = bl_vtx b ! 1 in
        if \<not> tx_IsCoinStake tx then Some (False, hp)
        else
          let txin = vin tx ! 0; out = prevout txin in
          (case GetTransaction (out_hash out) of
             None \<Rightarrow> Some (False, hp)
           | Some (txPrev, hashBlock) \<Rightarrow>
               if length (vout txPrev) \<le> unat (out_n out) then None
               else if \<not> script_check H verify tx 0 STANDARD_SCRIPT_VERIFY_FLAGS (scriptPubKey (vout txPrev ! unat (out_n out)))
               then Some (False, hp)
               else
                 (case mapBlockIndex hashBlock of
                    None \<Rightarrow> Some (False, hp)
                  | Some p \<Rightarrow> do {
                      bi \<leftarrow> h p;
                      (case ReadBlockFromDisk (GetBlockPos bi) of
                         None \<Rightarrow> Some (False, hp)
                       | Some blockprev \<Rightarrow> do {
                           r \<leftarrow> CheckStakeKernelHash H P h mapBlockIndex vChain (\<lambda>_. chain_Height vChain) now (bh_nBits b)
                                  \<lparr>bf_hash = header_GetHash H S blockprev, bf_nTime = bh_nTime blockprev\<rparr> txPrev out (bh_nTime b) 0 True hp;
                           Some (kr_ok r, kr_hashProof r) }) })))"

section \<open>What the signature check accepts\<close>

lemma short_key_invalid: "length v = 20 \<Longrightarrow> \<not> CPubKey_IsValid (CPubKey v)"
  by (auto simp: CPubKey_def CPubKey_IsValid_def GetLen_def Let_def)

lemma CheckBlockSignature_iff:
  "CheckBlockSignature verify H S b = Some True \<longleftrightarrow>
     (if block_IsProofOfStake b
      then (\<exists>key. p2pk_shape (scriptPubKey (vout (bl_vtx b ! 1) ! 1)) key \<and> CPubKey_IsValid (CPubKey key) \<and> bl_vchBlockSig b \<noteq> [] \<and>
        verify (CPubKey key) (header_GetHash H S b) (bl_vchBlockSig b))
      else bl_vchBlockSig b = [])"
proof (cases "block_IsProofOfStake b")
  case False
  then show ?thesis
    by (simp add: CheckBlockSignature_def block_IsProofOfWork_def)
next
  case True
  let ?s = "scriptPubKey (vout (bl_vtx b ! 1) ! 1)"
  show ?thesis
  proof (cases "Solver ?s")
    case None
    then have "\<not> p2pk_shape ?s key" for key
      using Solver_p2pk_iff [of ?s "[key]"] by auto
    then show ?thesis
      using True None by (simp add: CheckBlockSignature_def block_IsProofOfWork_def)
  next
    case (Some r)
    obtain ok t sols where r: "r = (ok, t, sols)"
      by (cases r)
    note solver = Some [unfolded r]
    consider "ok" "t = TX_PUBKEY" | "ok" "t = TX_PUBKEYHASH" | "\<not> ok \<or> t \<noteq> TX_PUBKEY \<and> t \<noteq> TX_PUBKEYHASH"
      by blast
    then show ?thesis
    proof cases
      case 1
      then obtain key where key: "p2pk_shape ?s key" "sols = [key]"
        using solver Solver_p2pk_iff [of ?s sols] by auto
      moreover have "key' = key" if "p2pk_shape ?s key'" for key'
      proof -
        have "Solver ?s = Some (True, TX_PUBKEY, [key'])"
          unfolding Solver_p2pk_iff using that by blast
        then show ?thesis
          using solver key(2) by simp
      qed
      ultimately have "(\<exists>key. p2pk_shape ?s key \<and> Q key) \<longleftrightarrow> Q key" for Q
        by metis
      then show ?thesis
        using True 1 solver key(2) by (simp add: CheckBlockSignature_def block_IsProofOfWork_def Let_def)
    next
      case 2
      then obtain x where x: "p2pkh_shape ?s x" "sols = [x]"
        using solver Solver_p2pkh_iff [of ?s sols] by auto
      then have "\<not> CPubKey_IsValid (CPubKey x)"
        by (intro short_key_invalid) (simp add: p2pkh_shape_def)
      then show ?thesis
        using True 2 solver x p2pk_not_p2pkh by (auto simp: CheckBlockSignature_def block_IsProofOfWork_def Let_def)
    next
      case 3
      then have "\<not> p2pk_shape ?s key" for key
        using solver Solver_p2pk_iff [of ?s "[key]"] by auto
      then show ?thesis
        using True 3 solver by (auto simp: CheckBlockSignature_def block_IsProofOfWork_def Let_def)
    qed
  qed
qed

end
