(* ===== verification/StandardSpec.thy ===== *)
theory StandardSpec
  imports StakeCheck KernelSpec
begin

unbundle bit_operations_syntax

text \<open>
  The properties of standard scripts and of the checks on a proof-of-stake block: which scripts the solver
  recognises, that it recognises the scripts the node makes, and what an accepted block signature and kernel guarantee.
\<close>

text \<open>C15: 
  The solver recognises exactly these scripts: a push of a key and \<open>OP_CHECKSIG\<close>; the pay-to-pubkey-hash
  instructions around a push of 20 bytes, in whatever form the push is written; and the 23 bytes of
  pay-to-script-hash. It returns for every script except the single byte \<open>OP_ZEROCOINMINT\<close>, for which it makes a vector
  from a range that ends before it begins.
\<close>

theorem solver_recognises:
  "(Solver s = Some (True, TX_PUBKEY, sols)) = (\<exists>x. p2pk_shape s x \<and> sols = [x]) \<and>
   (Solver s = Some (True, TX_PUBKEYHASH, sols)) = (\<exists>x. p2pkh_shape s x \<and> sols = [x]) \<and>
   (Solver s = Some (True, TX_SCRIPTHASH, sols)) = (IsPayToScriptHash s \<and> sols = [take 20 (drop 2 s)]) \<and>
   (Solver s = None) = (s = [of_nat OP_ZEROCOINMINT])"
  by (intro conjI) (rule Solver_p2pk_iff Solver_p2pkh_iff Solver_p2sh_iff Solver_None_iff)+

text \<open>
  Addresses round trip: the script made for a key hash or a script hash is standard and pays to that destination and
  no other.
\<close>

theorem destination_roundtrip:
  assumes "length (dest_hash d) = 20"
  shows "ExtractDestination H (GetScriptForDestination d) = Some (Some d) \<and>
    map_option fst (IsStandard fDataCarrier nMaxDatacarrierBytes (GetScriptForDestination d)) = Some True"
  using ExtractDestination_script [OF assms] Solver_destination [OF assms] assms
  by (cases d) (auto simp: IsStandard_def dest_hash_def)

theorem destination_roundtrip_witness:
  "ExtractDestination kernel_hash (GetScriptForDestination (CKeyID (replicate 20 7))) = Some (Some (CKeyID (replicate 20 7)))"
  using destination_roundtrip [of "CKeyID (replicate 20 7)"] by (simp add: dest_hash_def)

text \<open>C16: 
  A multisignature script round trips: made for \<open>m\<close> of at most 16 keys it is recognised with the number, the keys
  in order and their count.
\<close>

theorem multisig_script_roundtrip:
  assumes "1 \<le> m" and "m \<le> length keys" and "length keys \<le> 16" and "\<forall>k \<in> set keys. 33 \<le> length k \<and> length k \<le> 65"
  shows "\<exists>s. GetScriptForMultisig m keys = Some s \<and>
    Solver s = Some (True, TX_MULTISIG, [[of_nat m]] @ keys @ [[of_nat (length keys)]]) \<and>
    ExtractDestinations H s = Some (key_ids H keys \<noteq> [], TX_MULTISIG, key_ids H keys, Some m)"
proof -
  obtain s where s: "GetScriptForMultisig m keys = Some s"
    "Solver s = Some (True, TX_MULTISIG, [[of_nat m]] @ keys @ [[of_nat (length keys)]])"
    using Solver_multisig [OF assms] by blast
  have "unat (of_nat m :: byte) = m"
    using assms(2,3) by (simp add: unat_of_nat)
  then show ?thesis
    using s by (simp add: ExtractDestinations_def Let_def)
qed

theorem multisig_script_roundtrip_witness:
  "\<exists>s. GetScriptForMultisig 1 [replicate 33 2] = Some s \<and> Solver s = Some (True, TX_MULTISIG, [[1], replicate 33 2, [1]])"
  using multisig_script_roundtrip [of 1 "[replicate 33 2]"] by auto

text \<open>C17: 
  A block signature is accepted exactly when the block is a proof-of-stake block whose second output of the coinstake is a bare public
  key that verifies the signature of the block's hash, or a proof-of-work block without signature. In particular
  an output to a key hash is never accepted, although \<open>SignBlock\<close> signs for it.
\<close>

theorem block_signature_iff:
  "CheckBlockSignature verify H S b = Some True \<longleftrightarrow>
     (if block_IsProofOfStake b
      then (\<exists>key. p2pk_shape (scriptPubKey (vout (bl_vtx b ! 1) ! 1)) key \<and> CPubKey_IsValid (CPubKey key) \<and> bl_vchBlockSig b \<noteq> [] \<and>
        verify (CPubKey key) (header_GetHash H S b) (bl_vchBlockSig b))
      else bl_vchBlockSig b = [])"
  by (rule CheckBlockSignature_iff)

text \<open>C11: 
  What an accepted kernel guarantees: the block has a coinstake whose first input spends an output that exists, with a
  script that verifies under the standard flags; the block it comes from is older by the minimum age; and the proof hash is the kernel
  hash of that coin with the stake modifier selected for it, below the target scaled by the coin's value.
\<close>

theorem accepted_stake_is_sound:
  assumes "CheckProofOfStake H S verify GetTransaction ReadBlockFromDisk P h M v now b hp = Some (True, hp')"
  shows "\<exists>txPrev x p bi from m a c.
    (let tx = bl_vtx b ! 1; out = prevout (vin tx ! 0) in
     1 < length (bl_vtx b) \<and> tx_IsCoinStake tx \<and> GetTransaction (out_hash out) = Some (txPrev, x) \<and> unat (out_n out) < length (vout txPrev) \<and>
     script_check H verify tx 0 STANDARD_SCRIPT_VERIFY_FLAGS (scriptPubKey (vout txPrev ! unat (out_n out))) \<and>
     M x = Some p \<and> h p = Some bi \<and> ReadBlockFromDisk (GetBlockPos bi) = Some from \<and>
     uint (bh_nTime from) + GetMinStakeAge P (chain_Height v + 1) \<le> uint (bh_nTime b) \<and>
     GetKernelStakeModifier P h M v (header_GetHash H S from) = Some (Some (m, a, c)) \<and>
     hp' = stakeHash H (bh_nTime b) (ser_u64 m) (out_n out) (out_hash out) (bh_nTime from) \<and>
     stakeTargetHit hp' (nValue (vout txPrev ! unat (out_n out))) (of_nat (uval (fst (SetCompact (bh_nBits b))))))"
proof -
  let ?tx = "bl_vtx b ! 1"
  let ?out = "prevout (vin ?tx ! 0)"
  have len: "1 < length (bl_vtx b)" and stake: "tx_IsCoinStake ?tx"
    using assms unfolding CheckProofOfStake_def Let_def by (auto split: if_splits)
  obtain txPrev x where get: "GetTransaction (out_hash ?out) = Some (txPrev, x)"
    using assms len stake unfolding CheckProofOfStake_def Let_def by (auto split: if_splits option.splits)
  have n: "unat (out_n ?out) < length (vout txPrev)" and
    script: "script_check H verify ?tx 0 STANDARD_SCRIPT_VERIFY_FLAGS (scriptPubKey (vout txPrev ! unat (out_n ?out)))"
    using assms len stake get unfolding CheckProofOfStake_def Let_def by (auto split: if_splits option.splits)
  obtain p bi where p: "M x = Some p" "h p = Some bi"
    using assms len stake get n script unfolding CheckProofOfStake_def Let_def by (auto split: if_splits option.splits simp: bind_eq_Some_conv)
  obtain "from" where "from": "ReadBlockFromDisk (GetBlockPos bi) = Some from"
    using assms len stake get n script p unfolding CheckProofOfStake_def Let_def by (auto split: if_splits option.splits)
  obtain r where r: "CheckStakeKernelHash H P h M v (\<lambda>_. chain_Height v) now (bh_nBits b) \<lparr>bf_hash = header_GetHash H S from, bf_nTime = bh_nTime from\<rparr>
      txPrev ?out (bh_nTime b) 0 True hp = Some r" "kr_ok r" "kr_hashProof r = hp'"
    using assms len stake get n script p "from" unfolding CheckProofOfStake_def Let_def by (auto simp: bind_eq_Some_conv)
  have "kr_ok r" "uint (bh_nTime from) + GetMinStakeAge P (chain_Height v + 1) \<le> uint (bh_nTime b)"
    using r n by (auto simp: CheckStakeKernelHash_def Let_def split: if_splits)
  moreover obtain m a c where m: "GetKernelStakeModifier P h M v (header_GetHash H S from) = Some (Some (m, a, c))"
    using r n by (auto simp: CheckStakeKernelHash_def Let_def bind_eq_Some_conv split: if_splits option.splits)
  moreover have "hp' = stakeHash H (bh_nTime b) (ser_u64 m) (out_n ?out) (out_hash ?out) (bh_nTime from)"
    "stakeTargetHit hp' (nValue (vout txPrev ! unat (out_n ?out))) (of_nat (uval (fst (SetCompact (bh_nBits b)))))"
    using r n m by (auto simp: CheckStakeKernelHash_def Let_def split: if_splits)
  ultimately show ?thesis
    using len stake get n script p "from" unfolding Let_def by blast
qed

text \<open>A block with a coinstake that spends an output any script may spend.\<close>

definition stake_tx :: CTransaction where
  "stake_tx = \<lparr>nVersion = 1, vin = [\<lparr>prevout = \<lparr>out_hash = 1, out_n = 0\<rparr>, scriptSig = [0x51], nSequence = 0, prevPubKey = []\<rparr>],
     vout = [\<lparr>nValue = 0, scriptPubKey = [], nRounds = 0\<rparr>, \<lparr>nValue = 10000, scriptPubKey = [], nRounds = 0\<rparr>], nLockTime = 0\<rparr>"

definition stake_block :: "32 word \<Rightarrow> CTransaction list \<Rightarrow> CBlock" where
  "stake_block t txs =
     \<lparr>bh_nVersion = 7, bh_hashPrevBlock = 0, bh_hashMerkleRoot = 0, bh_nTime = t, bh_nBits = 0x01010000, bh_nNonce = 0,
      bh_nAccumulatorCheckpoint = 0, bl_vtx = txs, bl_vchBlockSig = []\<rparr>"

lemma stake_script: "script_check kernel_hash verify stake_tx 0 STANDARD_SCRIPT_VERIFY_FLAGS []"
  unfolding script_check_def STANDARD_SCRIPT_VERIFY_FLAGS_def stake_tx_def by code_simp

lemma stake_sample:
  "CheckProofOfStake kernel_hash S (\<lambda>_ _ _. False) (\<lambda>_. Some (kernel_coin, 7)) (\<lambda>_. Some (stake_block 600 [])) kernel_params kernel_index
     (kernel_map(0 \<mapsto> 0)) [Some 0, Some (Suc 0), Some 2] 10000 (stake_block 9000 [stake_tx, stake_tx]) 0 =
   Some (True, stakeHash kernel_hash 9000 (ser_u64 2) 0 1 600)"
proof -
  have zero: "header_GetHash kernel_hash S (stake_block 600 []) = 0"
  proof -
    have "uint256_of_bytes (replicate 32 0) = 0"
      by (simp add: uint256_of_bytes_def numeral_eq_Suc)
    then show ?thesis
      by (simp add: header_GetHash_def stake_block_def CHash256_def kernel_hash_def)
  qed
  have modifier: "GetKernelStakeModifier kernel_params kernel_index (kernel_map(0 \<mapsto> 0)) [Some 0, Some (Suc 0), Some 2] 0 = Some (Some (2, 2, 9000))"
    unfolding GetKernelStakeModifier_def kernel_interval by (simp add: chain_at_def kernel_modifier_loop.simps)
  have stake: "tx_IsCoinStake stake_tx"
    by (simp add: tx_IsCoinStake_def stake_tx_def COutPoint_IsNull_def CTxOut_IsEmpty_def)
  have out: "prevout (vin stake_tx ! 0) = \<lparr>out_hash = 1, out_n = 0\<rparr>"
    by (simp add: stake_tx_def)
  have coin: "vout kernel_coin = [\<lparr>nValue = 10000, scriptPubKey = [], nRounds = 0\<rparr>]"
    by (simp add: kernel_coin_def)
  have block: "bl_vtx (stake_block t txs) = txs" "bh_nTime (stake_block t txs) = t" "bh_nBits (stake_block t txs) = 0x01010000" for t txs
    by (simp_all add: stake_block_def)
  have kernel: "CheckStakeKernelHash kernel_hash kernel_params kernel_index (kernel_map(0 \<mapsto> 0)) [Some 0, Some (Suc 0), Some 2] tip 10000 0x01010000
      \<lparr>bf_hash = 0, bf_nTime = 600\<rparr> kernel_coin \<lparr>out_hash = 1, out_n = 0\<rparr> 9000 0 True 0 =
    Some \<lparr>kr_ok = True, kr_nTimeTx = 9000, kr_hashProof = stakeHash kernel_hash 9000 (ser_u64 2) 0 1 600, kr_mapHashed = None\<rparr>" for tip
    unfolding CheckStakeKernelHash_def using modifier kernel_hit by (simp add: coin kernel_params_def Let_def chain_Height_def)
  show ?thesis
    unfolding CheckProofOfStake_def by (simp add: block stake out coin stake_script zero kernel Let_def)
qed

theorem accepted_stake_is_sound_witness:
  "stakeTargetHit (stakeHash kernel_hash 9000 (ser_u64 2) 0 1 600) 10000 (of_nat (uval (fst (SetCompact 0x01010000))))"
  using accepted_stake_is_sound [OF stake_sample] by (auto simp: Let_def stake_block_def kernel_coin_def stake_tx_def)

text \<open>
  The scaled target wraps: at the easiest target of the main network a coin of greater value can miss the kernel target
  that a coin of smaller value hits with the same hash, since the product is taken modulo \<open>2 ^ 256\<close>.
\<close>

theorem stake_weight_wraps:
  "\<exists>hp v v'. v <s v' \<and> 0 <s v \<and> stakeTargetHit hp v (of_nat (uval (fst (SetCompact 0x1e00ffff)))) \<and>
    \<not> stakeTargetHit hp v' (of_nat (uval (fst (SetCompact 0x1e00ffff))))"
proof -
  have "compact_size 0x1e00ffff = 30" "mantissa 0x1e00ffff = 65535"
    by (simp_all add: compact_size_def mantissa_def)
  then have t: "uval (fst (SetCompact 0x1e00ffff)) = 65535 * 2 ^ 216"
    unfolding SetCompact_value by (simp add: compact_value_def)
  show ?thesis
    unfolding t by (intro exI [of _ "2 ^ 250"] exI [of _ "10000 * 2 ^ 24"] exI [of _ "10000 * (2 ^ 24 + 2 ^ 9)"])
      (simp add: stakeTargetHit_def word_sless_alt)
qed

end
