(* ===== verification/Bloom.thy ===== *)
theory Bloom
  imports Standard Utxo HashFuns
begin

unbundle bit_operations_syntax

text \<open>
  Bloom filters, \<open>src/bloom.h\<close> and \<open>src/bloom.cpp\<close>: the filter a light client gives its peers, and the test of
  a transaction against it, which adds outputs to the filter. The sizes the constructor computes in floating point are
  not modelled; a filter has whatever the wire gave it. \<open>None\<close> is a remainder by zero, for a filter without data,
  or an exception of \<open>Solver\<close>.
\<close>

record CBloomFilter =
  bf_vData :: "byte list"
  bf_isFull :: bool
  bf_isEmpty :: bool
  bf_nHashFuncs :: "32 word"
  bf_nTweak :: "32 word"
  bf_nFlags :: byte

abbreviation (input) BLOOM_UPDATE_NONE :: byte where "BLOOM_UPDATE_NONE \<equiv> 0"
abbreviation (input) BLOOM_UPDATE_ALL :: byte where "BLOOM_UPDATE_ALL \<equiv> 1"
abbreviation (input) BLOOM_UPDATE_P2PUBKEY_ONLY :: byte where "BLOOM_UPDATE_P2PUBKEY_ONLY \<equiv> 2"
abbreviation (input) BLOOM_UPDATE_MASK :: byte where "BLOOM_UPDATE_MASK \<equiv> 3"
abbreviation (input) MAX_BLOOM_FILTER_SIZE :: nat where "MAX_BLOOM_FILTER_SIZE \<equiv> 36000"
abbreviation (input) MAX_HASH_FUNCS :: nat where "MAX_HASH_FUNCS \<equiv> 50"

text \<open>The default constructor makes a filter that matches everything.\<close>

definition CBloomFilter_default :: CBloomFilter where
  "CBloomFilter_default =
     \<lparr>bf_vData = [], bf_isFull = True, bf_isEmpty = False, bf_nHashFuncs = 0, bf_nTweak = 0, bf_nFlags = 0\<rparr>"

definition ser_bloom :: "CBloomFilter \<Rightarrow> byte list" where
  "ser_bloom f = ser_bytes (bf_vData f) @ ser_u32 (bf_nHashFuncs f) @ ser_u32 (bf_nTweak f) @ [bf_nFlags f]"

text \<open>A filter that is read starts as the default one; only the serialized fields change.\<close>

definition unser_bloom :: "CBloomFilter reader" where
  "unser_bloom bs = do {
     (d, bs) \<leftarrow> unser_bytes bs;
     (n, bs) \<leftarrow> unser_u32 bs;
     (t, bs) \<leftarrow> unser_u32 bs;
     (case bs of
        [] \<Rightarrow> None
      | fl # bs \<Rightarrow> Some (CBloomFilter_default\<lparr>bf_vData := d, bf_nHashFuncs := n, bf_nTweak := t, bf_nFlags := fl\<rparr>, bs)) }"

section \<open>Bits\<close>

definition bloom_hash :: "CBloomFilter \<Rightarrow> nat \<Rightarrow> byte list \<Rightarrow> nat option" where
  "bloom_hash f nHashNum vDataToHash =
     (if bf_vData f = [] then None
      else Some (unat (MurmurHash3 (of_nat nHashNum * 0xFBA4C795 + bf_nTweak f) vDataToHash) mod (length (bf_vData f) * 8)))"

definition set_bit_at :: "byte list \<Rightarrow> nat \<Rightarrow> byte list" where
  "set_bit_at d nIndex = d[nIndex div 8 := d ! (nIndex div 8) OR push_bit (nIndex mod 8) 1]"

definition test_bit_at :: "byte list \<Rightarrow> nat \<Rightarrow> bool" where
  "test_bit_at d nIndex \<longleftrightarrow> d ! (nIndex div 8) AND push_bit (nIndex mod 8) 1 \<noteq> 0"

fun insert_loop :: "byte list \<Rightarrow> nat \<Rightarrow> nat \<Rightarrow> CBloomFilter \<Rightarrow> CBloomFilter option" where
  "insert_loop vKey i 0 f = Some f"
| "insert_loop vKey i (Suc n) f =
     (case bloom_hash f i vKey of
        None \<Rightarrow> None
      | Some nIndex \<Rightarrow> insert_loop vKey (i + 1) n (f\<lparr>bf_vData := set_bit_at (bf_vData f) nIndex\<rparr>))"

definition bloom_insert :: "CBloomFilter \<Rightarrow> byte list \<Rightarrow> CBloomFilter option" where
  "bloom_insert f vKey =
     (if bf_isFull f then Some f
      else map_option (\<lambda>f. f\<lparr>bf_isEmpty := False\<rparr>) (insert_loop vKey 0 (unat (bf_nHashFuncs f)) f))"

definition bloom_insert_outpoint :: "CBloomFilter \<Rightarrow> COutPoint \<Rightarrow> CBloomFilter option" where
  "bloom_insert_outpoint f out = bloom_insert f (ser_outpoint out)"

definition bloom_insert_hash :: "CBloomFilter \<Rightarrow> uint256 \<Rightarrow> CBloomFilter option" where
  "bloom_insert_hash f hash = bloom_insert f (ser_u256 hash)"

fun contains_loop :: "byte list \<Rightarrow> nat \<Rightarrow> nat \<Rightarrow> CBloomFilter \<Rightarrow> bool option" where
  "contains_loop vKey i 0 f = Some True"
| "contains_loop vKey i (Suc n) f =
     (case bloom_hash f i vKey of
        None \<Rightarrow> None
      | Some nIndex \<Rightarrow> if \<not> test_bit_at (bf_vData f) nIndex then Some False else contains_loop vKey (i + 1) n f)"

definition bloom_contains :: "CBloomFilter \<Rightarrow> byte list \<Rightarrow> bool option" where
  "bloom_contains f vKey =
     (if bf_isFull f then Some True
      else if bf_isEmpty f then Some False
      else contains_loop vKey 0 (unat (bf_nHashFuncs f)) f)"

definition bloom_contains_outpoint :: "CBloomFilter \<Rightarrow> COutPoint \<Rightarrow> bool option" where
  "bloom_contains_outpoint f out = bloom_contains f (ser_outpoint out)"

definition bloom_contains_hash :: "CBloomFilter \<Rightarrow> uint256 \<Rightarrow> bool option" where
  "bloom_contains_hash f hash = bloom_contains f (ser_u256 hash)"

definition bloom_clear :: "CBloomFilter \<Rightarrow> CBloomFilter" where
  "bloom_clear f = f\<lparr>bf_vData := replicate (length (bf_vData f)) 0, bf_isFull := False, bf_isEmpty := True\<rparr>"

definition IsWithinSizeConstraints :: "CBloomFilter \<Rightarrow> bool" where
  "IsWithinSizeConstraints f \<longleftrightarrow> length (bf_vData f) \<le> MAX_BLOOM_FILTER_SIZE \<and> unat (bf_nHashFuncs f) \<le> MAX_HASH_FUNCS"

definition UpdateEmptyFull :: "CBloomFilter \<Rightarrow> CBloomFilter" where
  "UpdateEmptyFull f = f\<lparr>bf_isFull := list_all (\<lambda>b. b = 0xff) (bf_vData f), bf_isEmpty := list_all (\<lambda>b. b = 0) (bf_vData f)\<rparr>"

section \<open>Transactions\<close>

text \<open>The loop over the data a script pushes: whether the filter contains one of them.\<close>

function script_matches :: "CBloomFilter \<Rightarrow> byte list \<Rightarrow> bool option" where
  "script_matches f pc =
     (if pc = [] then Some False
      else
        (case GetOp pc of
           None \<Rightarrow> Some False
         | Some (opcode, data, pc') \<Rightarrow>
             if data \<noteq> [] then
               (case bloom_contains f data of
                  None \<Rightarrow> None
                | Some found \<Rightarrow> if found then Some True else script_matches f pc')
             else script_matches f pc'))"
  by pat_completeness auto
termination
  by (relation "measure (\<lambda>(f, pc). length pc)") (auto dest: GetOp_shrinks)

declare script_matches.simps [simp del]

text \<open>What the filter does with a matched output.\<close>

definition add_matched :: "CBloomFilter \<Rightarrow> byte list \<Rightarrow> COutPoint \<Rightarrow> CBloomFilter option" where
  "add_matched f script_pub out =
     (if bf_nFlags f AND BLOOM_UPDATE_MASK = BLOOM_UPDATE_ALL then bloom_insert_outpoint f out
      else if bf_nFlags f AND BLOOM_UPDATE_MASK = BLOOM_UPDATE_P2PUBKEY_ONLY then
        (case Solver script_pub of
           None \<Rightarrow> None
         | Some (ok, t, _) \<Rightarrow> if ok \<and> (t = TX_PUBKEY \<or> t = TX_MULTISIG) then bloom_insert_outpoint f out else Some f)
      else Some f)"

fun outputs_loop :: "uint256 \<Rightarrow> nat \<Rightarrow> CTxOut list \<Rightarrow> bool \<Rightarrow> CBloomFilter \<Rightarrow> (bool \<times> CBloomFilter) option" where
  "outputs_loop hash i [] fFound f = Some (fFound, f)"
| "outputs_loop hash i (txout # outs) fFound f =
     (case script_matches f (scriptPubKey txout) of
        None \<Rightarrow> None
      | Some False \<Rightarrow> outputs_loop hash (i + 1) outs fFound f
      | Some True \<Rightarrow>
          (case add_matched f (scriptPubKey txout) \<lparr>out_hash = hash, out_n = of_nat i\<rparr> of
             None \<Rightarrow> None
           | Some f \<Rightarrow> outputs_loop hash (i + 1) outs True f))"

fun inputs_loop :: "CBloomFilter \<Rightarrow> CTxIn list \<Rightarrow> bool option" where
  "inputs_loop f [] = Some False"
| "inputs_loop f (txin # ins) =
     (case bloom_contains_outpoint f (prevout txin) of
        None \<Rightarrow> None
      | Some True \<Rightarrow> Some True
      | Some False \<Rightarrow>
          (case script_matches f (scriptSig txin) of
             None \<Rightarrow> None
           | Some True \<Rightarrow> Some True
           | Some False \<Rightarrow> inputs_loop f ins))"

definition IsRelevantAndUpdate :: "hash_funs \<Rightarrow> CBloomFilter \<Rightarrow> CTransaction \<Rightarrow> (bool \<times> CBloomFilter) option" where
  "IsRelevantAndUpdate H f tx =
     (if bf_isFull f then Some (True, f)
      else if bf_isEmpty f then Some (False, f)
      else
        let hash = tx_GetHash H tx in
        (case bloom_contains_hash f hash of
           None \<Rightarrow> None
         | Some fFound \<Rightarrow>
             (case outputs_loop hash 0 (vout tx) fFound f of
                None \<Rightarrow> None
              | Some (fFound, f) \<Rightarrow>
                  if fFound then Some (True, f) else map_option (\<lambda>r. (r, f)) (inputs_loop f (vin tx)))))"

end
