(* ===== verification/BloomProps.thy ===== *)
theory BloomProps
  imports Bloom
begin

unbundle bit_operations_syntax

text \<open>
  A Bloom filter has no false negatives: what has been inserted stays in the filter whatever else is
  inserted, and a matched output brings the transactions that spend it.
\<close>

section \<open>Bits\<close>

lemma test_bit_iff: "test_bit_at d m \<longleftrightarrow> bit (d ! (m div 8)) (m mod 8)"
  unfolding test_bit_at_def by (rule bit_iff_and_push_bit_not_eq_0 [symmetric])

lemma test_set_bit:
  assumes "n < length d * 8" and "m < length d * 8"
  shows "test_bit_at (set_bit_at d n) m \<longleftrightarrow> test_bit_at d m \<or> m = n"
proof -
  have "n div 8 < length d"
    using assms by (simp add: less_mult_imp_div_less)
  moreover have "m = n \<longleftrightarrow> m div 8 = n div 8 \<and> m mod 8 = n mod 8"
    by (metis div_mult_mod_eq)
  moreover have "bit (push_bit k (1 :: byte)) i \<longleftrightarrow> i = k" if "k < 8" for k i
    using that by (auto simp: bit_simps)
  ultimately show ?thesis
    unfolding test_bit_iff set_bit_at_def by (cases "m div 8 = n div 8") (auto simp: bit_or_iff)
qed

lemma test_full_bit:
  assumes "list_all (\<lambda>b. b = 0xff) d" and "m < length d * 8"
  shows "test_bit_at d m"
proof -
  have "d ! (m div 8) = 0xff"
    using assms by (simp add: list_all_length less_mult_imp_div_less)
  also have "(0xff :: byte) = - 1"
    by simp
  finally show ?thesis
    by (simp add: test_bit_iff)
qed

section \<open>What a filter has\<close>

text \<open>The bits of a key, and a filter that has it: either full, or neither empty nor full with all bits of the key set.\<close>

definition key_bit :: "CBloomFilter \<Rightarrow> byte list \<Rightarrow> nat \<Rightarrow> nat" where
  "key_bit f k i = unat (MurmurHash3 (of_nat i * 0xFBA4C795 + bf_nTweak f) k) mod (length (bf_vData f) * 8)"

definition has_key :: "CBloomFilter \<Rightarrow> byte list \<Rightarrow> bool" where
  "has_key f k \<longleftrightarrow>
     (if bf_isFull f then list_all (\<lambda>b. b = 0xff) (bf_vData f)
      else \<not> bf_isEmpty f \<and> bf_vData f \<noteq> [] \<and> bf_nHashFuncs f \<noteq> 0 \<and> (\<forall>i < unat (bf_nHashFuncs f). test_bit_at (bf_vData f) (key_bit f k i)))"

definition bloom_ok :: "CBloomFilter \<Rightarrow> bool" where
  "bloom_ok f \<longleftrightarrow> bf_nHashFuncs f \<noteq> 0 \<and> (bf_isFull f \<longrightarrow> list_all (\<lambda>b. b = 0xff) (bf_vData f))"

lemma bloom_hash_Some: "bf_vData f \<noteq> [] \<Longrightarrow> bloom_hash f i k = Some (key_bit f k i)"
  by (simp add: bloom_hash_def key_bit_def)

lemma key_bit_flags [simp]: "key_bit (f\<lparr>bf_isFull := a, bf_isEmpty := b\<rparr>) k i = key_bit f k i"
  by (simp add: key_bit_def)

lemma key_bit_less: "bf_vData f \<noteq> [] \<Longrightarrow> key_bit f k i < length (bf_vData f) * 8"
  by (simp add: key_bit_def)

lemma contains_loop_iff:
  "bf_vData f \<noteq> [] \<Longrightarrow> contains_loop k i n f = Some (\<forall>j. i \<le> j \<longrightarrow> j < i + n \<longrightarrow> test_bit_at (bf_vData f) (key_bit f k j))"
proof (induction k i n f rule: contains_loop.induct)
  case (2 k i n f)
  have "(\<forall>j. i \<le> j \<longrightarrow> j < i + Suc n \<longrightarrow> P j) \<longleftrightarrow> P i \<and> (\<forall>j. i + 1 \<le> j \<longrightarrow> j < i + 1 + n \<longrightarrow> P j)" for P :: "nat \<Rightarrow> bool"
  proof -
    have "i \<le> j \<longleftrightarrow> j = i \<or> i + 1 \<le> j" for j
      by auto
    then show ?thesis
      by auto
  qed
  then show ?case
    using 2 by (simp add: bloom_hash_Some)
qed simp

lemma has_contains: "has_key f k \<Longrightarrow> bloom_contains f k = Some True"
  by (simp add: has_key_def bloom_contains_def contains_loop_iff split: if_splits)

lemma contains_total: "bf_isFull f \<or> bf_vData f \<noteq> [] \<Longrightarrow> bloom_contains f k \<noteq> None"
  by (auto simp: bloom_contains_def contains_loop_iff)

text \<open>Inserting sets the bits of the key and clears none.\<close>

lemma insert_loop_bits:
  "bf_vData f \<noteq> [] \<Longrightarrow> \<exists>d. insert_loop k i n f = Some (f\<lparr>bf_vData := d\<rparr>) \<and> length d = length (bf_vData f) \<and>
     (\<forall>m < length d * 8. test_bit_at (bf_vData f) m \<longrightarrow> test_bit_at d m) \<and>
     (\<forall>j. i \<le> j \<longrightarrow> j < i + n \<longrightarrow> test_bit_at d (key_bit f k j))"
proof (induction k i n f rule: insert_loop.induct)
  case (1 k i f)
  then show ?case
    by (intro exI [of _ "bf_vData f"]) simp
next
  case (2 k i n f)
  let ?f = "f\<lparr>bf_vData := set_bit_at (bf_vData f) (key_bit f k i)\<rparr>"
  have len: "length (set_bit_at (bf_vData f) m) = length (bf_vData f)" for m
    by (simp add: set_bit_at_def)
  have ne: "bf_vData ?f \<noteq> []"
    using 2(2) by (simp add: set_bit_at_def)
  have kb: "key_bit ?f k j = key_bit f k j" for j
    by (simp add: key_bit_def len)
  obtain d where d: "insert_loop k (i + 1) n ?f = Some (?f\<lparr>bf_vData := d\<rparr>)" "length d = length (bf_vData f)"
    "\<forall>m < length d * 8. test_bit_at (set_bit_at (bf_vData f) (key_bit f k i)) m \<longrightarrow> test_bit_at d m"
    "\<forall>j. i + 1 \<le> j \<longrightarrow> j < i + 1 + n \<longrightarrow> test_bit_at d (key_bit f k j)"
    using 2(1) [OF bloom_hash_Some [OF 2(2)] ne] by (auto simp: kb len)
  have bit: "test_bit_at (set_bit_at (bf_vData f) (key_bit f k i)) m \<longleftrightarrow> test_bit_at (bf_vData f) m \<or> m = key_bit f k i"
    if "m < length (bf_vData f) * 8" for m
    using test_set_bit [OF key_bit_less [OF 2(2)] that] .
  have "test_bit_at d (key_bit f k j)" if "i \<le> j" "j < i + Suc n" for j
  proof (cases "j = i")
    case True
    then show ?thesis
      using d(2,3) test_set_bit [OF key_bit_less [OF 2(2)] key_bit_less [OF 2(2)], of k i k i] key_bit_less [OF 2(2), of k i] by simp
  next
    case False
    then show ?thesis
      using that d(4) by simp
  qed
  then show ?case
    using d bit bloom_hash_Some [OF 2(2)] by (intro exI [of _ d]) auto
qed

lemma insert_Some:
  assumes "bloom_insert f k = Some g"
  shows "if bf_isFull f then g = f
    else \<exists>d. g = f\<lparr>bf_vData := d, bf_isEmpty := False\<rparr> \<and> length d = length (bf_vData f) \<and>
      (\<forall>m < length d * 8. test_bit_at (bf_vData f) m \<longrightarrow> test_bit_at d m) \<and>
      (\<forall>j < unat (bf_nHashFuncs f). test_bit_at d (key_bit f k j)) \<and> (bf_nHashFuncs f \<noteq> 0 \<longrightarrow> bf_vData f \<noteq> [])"
proof (cases "bf_isFull f")
  case True
  then show ?thesis
    using assms by (simp add: bloom_insert_def)
next
  case False
  show ?thesis
  proof (cases "bf_vData f = []")
    case True
    have "bf_nHashFuncs f = 0"
    proof (rule ccontr)
      assume "bf_nHashFuncs f \<noteq> 0"
      then obtain n where "unat (bf_nHashFuncs f) = Suc n"
        by (metis not0_implies_Suc unat_eq_zero)
      then show False
        using assms False True by (simp add: bloom_insert_def bloom_hash_def)
    qed
    then show ?thesis
      using assms False True by (auto simp: bloom_insert_def intro!: exI [of _ "[]"])
  next
    case ne: False
    show ?thesis
      using assms False insert_loop_bits [OF ne, of k 0 "unat (bf_nHashFuncs f)"] ne by (auto simp: bloom_insert_def)
  qed
qed

lemma insert_has:
  assumes "bloom_ok f" and "bloom_insert f k = Some g"
  shows "has_key g k" and "bloom_ok g"
proof -
  have g: "has_key g k \<and> bloom_ok g"
  proof (cases "bf_isFull f")
    case True
    then show ?thesis
      using assms insert_Some [OF assms(2)] by (simp add: has_key_def bloom_ok_def)
  next
    case False
    then obtain d where d: "g = f\<lparr>bf_vData := d, bf_isEmpty := False\<rparr>" "length d = length (bf_vData f)"
      "\<forall>j < unat (bf_nHashFuncs f). test_bit_at d (key_bit f k j)" "bf_vData f \<noteq> []"
      using insert_Some [OF assms(2)] assms(1) by (auto simp: bloom_ok_def)
    have "d \<noteq> []"
      using d(2,4) by auto
    moreover have "key_bit g k j = key_bit f k j" for j
      using d(1,2) by (simp add: key_bit_def)
    ultimately show ?thesis
      using assms(1) False d by (simp add: has_key_def bloom_ok_def)
  qed
  then show "has_key g k" and "bloom_ok g"
    by simp_all
qed

lemma insert_keeps:
  assumes "has_key f k" and "bloom_insert f k' = Some g"
  shows "has_key g k"
proof (cases "bf_isFull f")
  case True
  then show ?thesis
    using assms(1) insert_Some [OF assms(2)] by simp
next
  case False
  then obtain d where d: "g = f\<lparr>bf_vData := d, bf_isEmpty := False\<rparr>" "length d = length (bf_vData f)"
    "\<forall>m < length d * 8. test_bit_at (bf_vData f) m \<longrightarrow> test_bit_at d m"
    using insert_Some [OF assms(2)] by (simp only: if_False) metis
  have f: "bf_vData f \<noteq> []" "bf_nHashFuncs f \<noteq> 0" "\<forall>i < unat (bf_nHashFuncs f). test_bit_at (bf_vData f) (key_bit f k i)"
    using assms(1) False by (simp_all add: has_key_def)
  have "d \<noteq> []"
    using f(1) d(2) by auto
  moreover have "key_bit g k j = key_bit f k j" for j
    using d(1,2) by (simp add: key_bit_def)
  ultimately show ?thesis
    using False d f key_bit_less [OF f(1), of k] by (simp add: has_key_def)
qed

lemma UpdateEmptyFull_keeps:
  assumes "has_key f k"
  shows "has_key (UpdateEmptyFull f) k"
proof (cases "bf_isFull f")
  case True
  then show ?thesis
    using assms by (simp add: has_key_def UpdateEmptyFull_def)
next
  case False
  then have f: "bf_vData f \<noteq> []" "bf_nHashFuncs f \<noteq> 0" "\<forall>i < unat (bf_nHashFuncs f). test_bit_at (bf_vData f) (key_bit f k i)"
    using assms by (simp_all add: has_key_def)
  have "0 < unat (bf_nHashFuncs f)"
    using f(2) by (simp add: word_gt_0_no unat_gt_0)
  then have "test_bit_at (bf_vData f) (key_bit f k 0)"
    using f(3) by blast
  then have "bf_vData f ! (key_bit f k 0 div 8) \<noteq> 0"
    by (auto simp: test_bit_iff)
  then have "\<not> list_all (\<lambda>b. b = 0) (bf_vData f)"
    using key_bit_less [OF f(1), of k 0] less_mult_imp_div_less [of "key_bit f k 0" "length (bf_vData f)" 8]
    by (auto simp: list_all_length)
  then show ?thesis
    using f by (simp add: has_key_def UpdateEmptyFull_def)
qed

lemma has_key_ok: "has_key f k \<Longrightarrow> bf_nHashFuncs f \<noteq> 0 \<Longrightarrow> bloom_ok f"
  by (simp add: has_key_def bloom_ok_def split: if_splits)

section \<open>Transactions\<close>

definition inserted :: "CBloomFilter \<Rightarrow> CBloomFilter \<Rightarrow> bool" where
  "inserted f g \<longleftrightarrow> (\<forall>k. has_key f k \<longrightarrow> has_key g k) \<and> bf_nFlags g = bf_nFlags f \<and> bf_nHashFuncs g = bf_nHashFuncs f \<and>
     (bf_isFull f \<longrightarrow> g = f) \<and> (\<not> bf_isFull f \<longrightarrow> \<not> bf_isFull g) \<and> length (bf_vData g) = length (bf_vData f)"

lemma inserted_refl [simp]: "inserted f f"
  by (simp add: inserted_def)

lemma inserted_trans: "inserted f g \<Longrightarrow> inserted g h \<Longrightarrow> inserted f h"
  by (auto simp: inserted_def)

lemma insert_inserted:
  assumes "bloom_insert f k = Some g"
  shows "inserted f g"
  unfolding inserted_def using insert_keeps [OF _ assms] insert_Some [OF assms] by (auto split: if_splits)

lemma add_matched_inserted: "add_matched f s out = Some g \<Longrightarrow> inserted f g"
  by (auto simp: add_matched_def bloom_insert_outpoint_def split: if_splits option.splits dest: insert_inserted)

lemma outputs_loop_inserted: "outputs_loop x i outs found f = Some (r, g) \<Longrightarrow> inserted f g \<and> (found \<longrightarrow> r)"
proof (induction x i outs found f rule: outputs_loop.induct)
  case (2 x i txout outs found f)
  then show ?case
    by (auto split: option.splits bool.splits dest: add_matched_inserted intro: inserted_trans)
qed simp

lemma IsRelevant_inserted: "IsRelevantAndUpdate H f tx = Some (r, g) \<Longrightarrow> inserted f g"
  by (auto simp: IsRelevantAndUpdate_def Let_def split: if_splits option.splits bool.splits dest: outputs_loop_inserted)

text \<open>The data a script pushes before it cannot be read any further.\<close>

inductive pushed_in :: "valtype \<Rightarrow> byte list \<Rightarrow> bool" where
  here: "GetOp pc = Some (opc, d, r) \<Longrightarrow> pushed_in d pc"
| later: "GetOp pc = Some (opc, v, r) \<Longrightarrow> pushed_in d r \<Longrightarrow> pushed_in d pc"

inductive_cases pushed_inE: "pushed_in d pc"

lemma script_matches_pushed:
  "pushed_in d pc \<Longrightarrow> has_key f d \<Longrightarrow> d \<noteq> [] \<Longrightarrow> bf_isFull f \<or> bf_vData f \<noteq> [] \<Longrightarrow> script_matches f pc = Some True"
proof (induction rule: pushed_in.induct)
  case (here pc opc d r)
  then have "pc \<noteq> []"
    by auto
  then show ?case
    using here by (subst script_matches.simps) (simp add: has_contains)
next
  case (later pc opc v r d)
  then have "pc \<noteq> []"
    by auto
  then show ?case
    using later contains_total [of f v] by (subst script_matches.simps) (auto split: option.splits)
qed

lemma script_matches_total: "bf_isFull f \<or> bf_vData f \<noteq> [] \<Longrightarrow> script_matches f pc \<noteq> None"
proof (induction f pc rule: script_matches.induct)
  case (1 f pc)
  show ?case
  proof (cases "GetOp pc")
    case None
    then show ?thesis
      by (subst script_matches.simps) auto
  next
    case (Some x)
    obtain opc v r where x: "x = (opc, v, r)"
      by (cases x)
    have ne: "pc \<noteq> []"
      using Some by auto
    obtain b where b: "bloom_contains f v = Some b"
      using contains_total [OF 1(3)] by blast
    have "script_matches f r \<noteq> None" if "v = [] \<or> \<not> b"
      using 1(1,2) [OF ne Some [unfolded x] refl refl] b 1(3) that by (cases "v = []") auto
    then show ?thesis
      using ne Some x b by (subst script_matches.simps) auto
  qed
qed

section \<open>A matched output brings its spender\<close>

definition updates_all :: "CBloomFilter \<Rightarrow> bool" where
  "updates_all f \<longleftrightarrow> bf_nFlags f AND BLOOM_UPDATE_MASK = BLOOM_UPDATE_ALL"

lemma insert_total: "bf_isFull f \<or> bf_vData f \<noteq> [] \<Longrightarrow> \<exists>g. bloom_insert f k = Some g"
  using insert_loop_bits [of f k 0 "unat (bf_nHashFuncs f)"] by (auto simp: bloom_insert_def)

text \<open>The loop over the outputs ends, and adds every output whose script pushes a key the filter has.\<close>

lemma outputs_loop_matched:
  assumes "updates_all f" and "bf_nHashFuncs f \<noteq> 0"
  shows "bf_vData f \<noteq> [] \<Longrightarrow> \<not> bf_isFull f \<Longrightarrow> \<exists>r g. outputs_loop x i outs found f = Some (r, g) \<and>
    (\<forall>d n. has_key f d \<longrightarrow> d \<noteq> [] \<longrightarrow> n < length outs \<longrightarrow> pushed_in d (scriptPubKey (outs ! n)) \<longrightarrow>
      r \<and> has_key g (ser_outpoint \<lparr>out_hash = x, out_n = of_nat (i + n)\<rparr>))"
  using assms
proof (induction outs arbitrary: i found f)
  case Nil
  then show ?case
    by simp
next
  case (Cons o' outs)
  obtain b where b: "script_matches f (scriptPubKey o') = Some b"
    using script_matches_total [of f] Cons.prems(1) by blast
  let ?out = "\<lparr>out_hash = x, out_n = of_nat i\<rparr>"
  obtain f1 found1 where f1: "outputs_loop x i (o' # outs) found f = outputs_loop x (i + 1) outs found1 f1"
    "inserted f f1" "b \<longrightarrow> found1 \<and> has_key f1 (ser_outpoint ?out)"
  proof (cases b)
    case True
    obtain f1 where f1: "bloom_insert f (ser_outpoint ?out) = Some f1"
      using insert_total [of f] Cons.prems(1) by blast
    moreover have "add_matched f (scriptPubKey o') ?out = Some f1"
      using Cons.prems(3) f1 by (simp add: add_matched_def updates_all_def bloom_insert_outpoint_def)
    moreover have "has_key f1 (ser_outpoint ?out)"
      using Cons.prems(2,4) by (intro insert_has [OF _ f1]) (simp add: bloom_ok_def)
    ultimately show ?thesis
      using that [of True f1] b True insert_inserted [OF f1] by simp
  next
    case False
    then show ?thesis
      using that [of found f] b by simp
  qed
  have p1: "bf_vData f1 \<noteq> []" "\<not> bf_isFull f1" "updates_all f1" "bf_nHashFuncs f1 \<noteq> 0"
    using f1(2) Cons.prems by (auto simp: inserted_def updates_all_def)
  obtain r g where g: "outputs_loop x (i + 1) outs found1 f1 = Some (r, g)"
    "\<And>d n. has_key f1 d \<Longrightarrow> d \<noteq> [] \<Longrightarrow> n < length outs \<Longrightarrow> pushed_in d (scriptPubKey (outs ! n)) \<Longrightarrow>
      r \<and> has_key g (ser_outpoint \<lparr>out_hash = x, out_n = of_nat (i + 1 + n)\<rparr>)"
    using Cons.IH [OF p1] by blast
  have ins: "inserted f1 g" "found1 \<longrightarrow> r"
    using outputs_loop_inserted [OF g(1)] by simp_all
  have "r \<and> has_key g (ser_outpoint \<lparr>out_hash = x, out_n = of_nat (i + n)\<rparr>)"
    if d: "has_key f d" "d \<noteq> []" "n < length (o' # outs)" "pushed_in d (scriptPubKey ((o' # outs) ! n))" for d n
  proof (cases n)
    case 0
    then have "b"
      using script_matches_pushed [of d _ f] d Cons.prems(1) b by simp
    then show ?thesis
      using 0 f1(3) ins by (auto simp: inserted_def)
  next
    case (Suc m)
    moreover have "has_key f1 d"
      using f1(2) d(1) by (simp add: inserted_def)
    ultimately show ?thesis
      using g(2) [of d m] d by simp
  qed
  then have "\<forall>d n. has_key f d \<longrightarrow> d \<noteq> [] \<longrightarrow> n < length (o' # outs) \<longrightarrow> pushed_in d (scriptPubKey ((o' # outs) ! n)) \<longrightarrow>
      r \<and> has_key g (ser_outpoint \<lparr>out_hash = x, out_n = of_nat (i + n)\<rparr>)"
    by (intro allI impI)
  moreover have "outputs_loop x i (o' # outs) found f = Some (r, g)"
    using f1(1) g(1) by (rule trans)
  ultimately show ?case
    by (intro exI conjI)
qed

lemma inputs_loop_matched:
  "bf_vData f \<noteq> [] \<Longrightarrow> txin \<in> set ins \<Longrightarrow> has_key f (ser_outpoint (prevout txin)) \<Longrightarrow> inputs_loop f ins = Some True"
proof (induction ins)
  case (Cons x ins)
  obtain a where a: "bloom_contains_outpoint f (prevout x) = Some a"
    using contains_total [of f] Cons.prems(1) unfolding bloom_contains_outpoint_def by blast
  obtain b where b: "script_matches f (scriptSig x) = Some b"
    using script_matches_total [of f] Cons.prems(1) by blast
  show ?case
  proof (cases "x = txin")
    case True
    then have "a"
      using a Cons.prems(3) has_contains by (simp add: bloom_contains_outpoint_def)
    then show ?thesis
      using a by simp
  next
    case False
    then have "inputs_loop f ins = Some True"
      using Cons by simp
    then show ?thesis
      using a b by (cases a; cases b; simp)
  qed
qed simp

lemma relevant_output:
  assumes "updates_all f" and "bf_nHashFuncs f \<noteq> 0" and "has_key f d" and "d \<noteq> []" and "n < length (vout tx)"
    and "pushed_in d (scriptPubKey (vout tx ! n))"
  shows "\<exists>g. IsRelevantAndUpdate H f tx = Some (True, g) \<and> has_key g (ser_outpoint \<lparr>out_hash = tx_GetHash H tx, out_n = of_nat n\<rparr>) \<and>
    updates_all g \<and> bf_nHashFuncs g \<noteq> 0"
proof (cases "bf_isFull f")
  case True
  then show ?thesis
    using assms(1-3) by (simp add: IsRelevantAndUpdate_def has_key_def)
next
  case False
  then have f: "bf_vData f \<noteq> []" "\<not> bf_isEmpty f"
    using assms(3) by (simp_all add: has_key_def)
  obtain found where found: "bloom_contains_hash f (tx_GetHash H tx) = Some found"
    using contains_total [of f] f(1) unfolding bloom_contains_hash_def by blast
  obtain r g where g: "outputs_loop (tx_GetHash H tx) 0 (vout tx) found f = Some (r, g)"
    "r \<and> has_key g (ser_outpoint \<lparr>out_hash = tx_GetHash H tx, out_n = of_nat (0 + n)\<rparr>)"
    using outputs_loop_matched [OF assms(1,2) f(1) False, of "tx_GetHash H tx" 0 "vout tx" found] assms(3-6) by blast
  then have "IsRelevantAndUpdate H f tx = Some (True, g)"
    using False f(2) found by (simp add: IsRelevantAndUpdate_def Let_def)
  then show ?thesis
    using g outputs_loop_inserted [OF g(1)] assms(1,2) by (auto simp: inserted_def updates_all_def)
qed

lemma relevant_input:
  assumes "updates_all f" and "bf_nHashFuncs f \<noteq> 0" and "txin \<in> set (vin tx)" and "has_key f (ser_outpoint (prevout txin))"
  shows "\<exists>g. IsRelevantAndUpdate H f tx = Some (True, g)"
proof (cases "bf_isFull f")
  case True
  then show ?thesis
    by (simp add: IsRelevantAndUpdate_def)
next
  case False
  then have f: "bf_vData f \<noteq> []" "\<not> bf_isEmpty f"
    using assms(4) by (simp_all add: has_key_def)
  obtain found where found: "bloom_contains_hash f (tx_GetHash H tx) = Some found"
    using contains_total [of f] f(1) unfolding bloom_contains_hash_def by blast
  obtain r g where g: "outputs_loop (tx_GetHash H tx) 0 (vout tx) found f = Some (r, g)"
    using outputs_loop_matched [OF assms(1,2) f(1) False, of "tx_GetHash H tx" 0 "vout tx" found] by blast
  then have ins: "inserted f g"
    using outputs_loop_inserted by blast
  then have "inputs_loop g (vin tx) = Some True"
    using assms(3,4) f(1) by (intro inputs_loop_matched [of g txin]) (auto simp: inserted_def)
  then show ?thesis
    using False f(2) found g by (cases r) (simp_all add: IsRelevantAndUpdate_def Let_def)
qed

section \<open>The life of a filter\<close>

inductive bloom_reach :: "hash_funs \<Rightarrow> CBloomFilter \<Rightarrow> CBloomFilter \<Rightarrow> bool" for H f where
  refl: "bloom_reach H f f"
| insert: "bloom_reach H f g \<Longrightarrow> bloom_insert g k = Some g' \<Longrightarrow> bloom_reach H f g'"
| update: "bloom_reach H f g \<Longrightarrow> bloom_reach H f (UpdateEmptyFull g)"
| relevant: "bloom_reach H f g \<Longrightarrow> IsRelevantAndUpdate H g tx = Some (r, g') \<Longrightarrow> bloom_reach H f g'"

lemma bloom_reach_keeps:
  "bloom_reach H f g \<Longrightarrow> (has_key f k \<longrightarrow> has_key g k) \<and> bf_nFlags g = bf_nFlags f \<and> bf_nHashFuncs g = bf_nHashFuncs f"
proof (induction rule: bloom_reach.induct)
  case (insert g k' g')
  then show ?case
    using insert_inserted by (simp add: inserted_def)
next
  case (update g)
  then show ?case
    using UpdateEmptyFull_keeps by (simp add: UpdateEmptyFull_def)
next
  case (relevant g tx r g')
  then show ?case
    using IsRelevant_inserted by (simp add: inserted_def)
qed simp

end
