(* ===== verification/BloomSpec.thy ===== *)
theory BloomSpec
  imports BloomProps
begin

unbundle bit_operations_syntax

text \<open>
  The properties of Bloom filters: no false negatives, and following payments.
\<close>

text \<open>C26: 
  A Bloom filter has no false negatives: a key that was inserted into a consistent filter with at least one hash function is contained in
  every filter it becomes by inserting keys, testing transactions and recomputing the two flags.
\<close>

theorem bloom_no_false_negatives:
  assumes "bloom_ok f" and "bloom_insert f k = Some f1" and "bloom_reach H f1 f2"
  shows "bloom_contains f2 k = Some True"
  using bloom_reach_keeps [OF assms(3), of k] insert_has(1) [OF assms(1,2)] has_contains by blast

definition sample_filter :: CBloomFilter where
  "sample_filter = \<lparr>bf_vData = [0, 0], bf_isFull = False, bf_isEmpty = True, bf_nHashFuncs = 2, bf_nTweak = 5, bf_nFlags = 1\<rparr>"

lemma sample_insert: "bloom_ok sample_filter" "\<exists>f. bloom_insert sample_filter [5] = Some f"
  using insert_total [of sample_filter] by (simp_all add: sample_filter_def bloom_ok_def)

theorem bloom_no_false_negatives_witness:
  "\<exists>f. bloom_insert sample_filter [5] = Some f \<and> bloom_contains (UpdateEmptyFull f) [5] = Some True"
proof -
  obtain f where f: "bloom_insert sample_filter [5] = Some f"
    using sample_insert(2) by blast
  have "bloom_reach undefined f (UpdateEmptyFull f)"
    by (rule bloom_reach.update, rule bloom_reach.refl)
  then show ?thesis
    using bloom_no_false_negatives [OF sample_insert(1) f] f by blast
qed

text \<open>C27: 
  The filter follows payments: when it is set to add all matched outputs and has a key that an output of a
  transaction pushes, the transaction is relevant, and from then on every transaction that spends this output is relevant too.
\<close>

theorem bloom_follows_payments:
  assumes "updates_all f" and "bf_nHashFuncs f \<noteq> 0" and "has_key f d" and "d \<noteq> []" and "n < length (vout tx)"
    and "pushed_in d (scriptPubKey (vout tx ! n))"
  shows "\<exists>g. IsRelevantAndUpdate H f tx = Some (True, g) \<and>
    (\<forall>g' tx'. bloom_reach H g g' \<longrightarrow> (\<exists>txin \<in> set (vin tx'). prevout txin = \<lparr>out_hash = tx_GetHash H tx, out_n = of_nat n\<rparr>) \<longrightarrow>
      (\<exists>g''. IsRelevantAndUpdate H g' tx' = Some (True, g'')))"
proof -
  obtain g where g: "IsRelevantAndUpdate H f tx = Some (True, g)"
    "has_key g (ser_outpoint \<lparr>out_hash = tx_GetHash H tx, out_n = of_nat n\<rparr>)" "updates_all g" "bf_nHashFuncs g \<noteq> 0"
    using relevant_output [OF assms] by blast
  have "\<exists>g''. IsRelevantAndUpdate H g' tx' = Some (True, g'')"
    if reach: "bloom_reach H g g'" and txin: "txin \<in> set (vin tx')" "prevout txin = \<lparr>out_hash = tx_GetHash H tx, out_n = of_nat n\<rparr>" for g' tx' txin
  proof (rule relevant_input [OF _ _ txin(1)])
    show "updates_all g'" "bf_nHashFuncs g' \<noteq> 0"
      using bloom_reach_keeps [OF reach] g(3,4) by (simp_all add: updates_all_def)
    show "has_key g' (ser_outpoint (prevout txin))"
      unfolding txin(2) using bloom_reach_keeps [OF reach] g(2) by blast
  qed
  then show ?thesis
    using g(1) by blast
qed

definition paying_tx :: CTransaction where
  "paying_tx = \<lparr>nVersion = 1, vin = [], vout = [\<lparr>nValue = 1, scriptPubKey = [1, 5], nRounds = 0\<rparr>], nLockTime = 0\<rparr>"

theorem bloom_follows_payments_witness:
  "\<exists>f g. bloom_insert sample_filter [5] = Some f \<and> IsRelevantAndUpdate node_hash f paying_tx = Some (True, g)"
proof -
  obtain f where f: "bloom_insert sample_filter [5] = Some f"
    using sample_insert(2) by blast
  have key: "has_key f [5]"
    by (rule insert_has(1) [OF sample_insert(1) f])
  have "inserted sample_filter f"
    by (rule insert_inserted [OF f])
  then have all: "updates_all f" "bf_nHashFuncs f \<noteq> 0"
    by (simp_all add: inserted_def updates_all_def sample_filter_def)
  have "GetOp [1, 5] = Some (1, [5], [])"
    by (simp add: GetOp_def getop_data_def)
  then have push: "pushed_in [5] (scriptPubKey (vout paying_tx ! 0))"
    unfolding paying_tx_def by (auto intro: pushed_in.here)
  have "[5 :: byte] \<noteq> []" "0 < length (vout paying_tx)"
    by (simp_all add: paying_tx_def)
  then show ?thesis
    using bloom_follows_payments [OF all key _ _ push, of node_hash] f by blast
qed

end
