(* ===== verification/Rewards.thy ===== *)
theory Rewards
  imports Transaction "HOL-Library.Log_Nat"
begin

text \<open>
  The value of a block and how it is shared, \<open>src/main.cpp\<close> (\<open>GetBlockValue\<close> to \<open>GetMasternodePaymentSeeSaw\<close>),
  with the parameters of the networks from \<open>src/chainparams.cpp\<close>. Amounts are \<open>int64_t\<close>: a signed overflow, which
  is undefined in the language, is \<open>None\<close>. The see-saw multiplies by decimal literals in double precision: \<open>dbl\<close> rounds
  a rational to 53 significant bits, to the nearest and to even on a tie; the values here are far from the limits of
  the exponent.
\<close>

section \<open>Parameters of the networks\<close>

datatype ChainHeight = H1 | H2 | H3 | H4 | H5 | H6 | H7 | H8 | H9

record reward_params =
  GetChainHeight :: "ChainHeight \<Rightarrow> int"
  nBudgetPercent :: int
  nDevFundPercent :: int
  nRequiredMasternodeCollateral :: int
  fTestNet :: bool
  nLastPOWBlock :: int
  nMasternodeCountDrift :: int
  nBlockSpacing :: int
  nBudgetPaymentCycle :: int
  nMaxSuperBlocksPerCycle :: int
  nMasternodePaymentSigRequired :: int

abbreviation (input) COIN :: int where "COIN \<equiv> 100000000"

fun main_height :: "ChainHeight \<Rightarrow> int" where
  "main_height H1 = 1"
| "main_height H2 = 151202"
| "main_height H3 = 302401"
| "main_height H4 = 388800"
| "main_height H5 = 500000"
| "main_height H6 = 500000"
| "main_height H7 = 550000"
| "main_height H8 = 1252800"
| "main_height H9 = 1296000"

definition mainParams :: reward_params where
  "mainParams = \<lparr>GetChainHeight = main_height, nBudgetPercent = 10, nDevFundPercent = 10,
     nRequiredMasternodeCollateral = 10000000 * COIN, fTestNet = False, nLastPOWBlock = 10080,
     nMasternodeCountDrift = 20, nBlockSpacing = 1 * 60, nBudgetPaymentCycle = 60 * 60 * 24 * 30,
     nMaxSuperBlocksPerCycle = 100, nMasternodePaymentSigRequired = 6\<rparr>"

fun test_height :: "ChainHeight \<Rightarrow> int" where
  "test_height H1 = 1"
| "test_height H2 = 35500"
| "test_height H3 = 35500"
| "test_height H4 = 35500"
| "test_height H5 = 53000"
| "test_height H6 = 53000"
| "test_height H7 = 53000"
| "test_height H8 = 99000"
| "test_height H9 = 99120"

definition testNetParams :: reward_params where
  "testNetParams = \<lparr>GetChainHeight = test_height, nBudgetPercent = 10, nDevFundPercent = 10,
     nRequiredMasternodeCollateral = 10000000 * COIN, fTestNet = True, nLastPOWBlock = 10080,
     nMasternodeCountDrift = 20, nBlockSpacing = 1 * 60, nBudgetPaymentCycle = 60 * 60 * 2,
     nMaxSuperBlocksPerCycle = 100, nMasternodePaymentSigRequired = 1\<rparr>"

section \<open>Checked and floating point arithmetic\<close>

definition int64_mult :: "int \<Rightarrow> int \<Rightarrow> int option" where
  "int64_mult a b = (if - (2 ^ 63) \<le> a * b \<and> a * b < 2 ^ 63 then Some (a * b) else None)"

text \<open>The exponent of the leading bit of a positive rational, from the lengths of its numerator and denominator.\<close>

definition leading_exp :: "rat \<Rightarrow> int" where
  "leading_exp x =
     (let (p, q) = quotient_of x; e = int (floorlog 2 (nat p)) - int (floorlog 2 (nat q))
      in if x < 2 powi e then e - 1 else e)"

definition round_half_even :: "rat \<Rightarrow> int" where
  "round_half_even x =
     (let f = \<lfloor>x\<rfloor>; d = x - of_int f
      in if d < 1 / 2 \<or> d = 1 / 2 \<and> even f then f else f + 1)"

definition dbl_pos :: "rat \<Rightarrow> rat" where
  "dbl_pos x = (let u = 2 powi (leading_exp x - 52) in of_int (round_half_even (x / u)) * u)"

definition dbl :: "rat \<Rightarrow> rat" where
  "dbl x = (if x = 0 then 0 else if 0 < x then dbl_pos x else - dbl_pos (- x))"

text \<open>The product of an integer and a literal of thousandths, both converted to \<open>double\<close>; back to an integer it is truncated.\<close>

definition dmul :: "int \<Rightarrow> int \<Rightarrow> rat" where
  "dmul n k = dbl (dbl (of_int n) * dbl (of_int k / 1000))"

definition to_int64 :: "rat \<Rightarrow> int" where
  "to_int64 x = (if 0 \<le> x then \<lfloor>x\<rfloor> else \<lceil>x\<rceil>)"

section \<open>The value of a block\<close>

definition GetBlockValue :: "reward_params \<Rightarrow> int \<Rightarrow> int" where
  "GetBlockValue R nHeight =
     (if nHeight < GetChainHeight R H1 then 0
      else if nHeight = GetChainHeight R H1 then 12000000000 * COIN
      else if nHeight < GetChainHeight R H2 then 2500 * COIN
      else if nHeight < GetChainHeight R H3 then 1250 * COIN
      else if nHeight < GetChainHeight R H4 then 1000 * COIN
      else 1500 * COIN)"

definition GetBlockValueReward :: "reward_params \<Rightarrow> int \<Rightarrow> int" where
  "GetBlockValueReward R nHeight =
     (if nHeight = GetChainHeight R H1 then GetBlockValue R nHeight
      else if nHeight < GetChainHeight R H4 then GetBlockValue R nHeight * (100 - 5) div 100
      else if nHeight < GetChainHeight R H8 then GetBlockValue R nHeight * (100 - nBudgetPercent R) div 100
      else GetBlockValue R nHeight * (100 - nBudgetPercent R - nDevFundPercent R) div 100)"

definition GetBlockExpectedMint :: "reward_params \<Rightarrow> int \<Rightarrow> int" where
  "GetBlockExpectedMint R nHeight = GetBlockValueReward R nHeight"

definition GetBlockValueBudget :: "reward_params \<Rightarrow> int \<Rightarrow> int" where
  "GetBlockValueBudget R nHeight =
     (if nHeight = GetChainHeight R H1 then 0
      else if nHeight < GetChainHeight R H4 then GetBlockValue R nHeight * 5 div 100
      else GetBlockValue R nHeight * nBudgetPercent R div 100)"

definition GetBlockValueDevFund :: "reward_params \<Rightarrow> int \<Rightarrow> int" where
  "GetBlockValueDevFund R nHeight =
     (if nHeight < GetChainHeight R H4 then 0
      else GetBlockValue R nHeight * nDevFundPercent R div 100)"

section \<open>The payment of the masternode\<close>

text \<open>
  The see-saw: each row is a branch, the lower and the upper bound of the coins locked in masternodes as
  thousandths of the money supply, and the share of the reward in hundredths. The lower bound of the first row is the
  integer zero.
\<close>

definition seesaw_table :: "(int \<times> int \<times> int) list" where
  "seesaw_table = [
    (0, 10, 90), (10, 20, 88), (20, 30, 87), (30, 40, 86), (40, 50, 85), (50, 60, 84), (60, 70, 83),
    (70, 80, 82), (80, 90, 81), (90, 100, 80), (100, 110, 79), (110, 120, 78), (120, 130, 77), (130, 140, 76),
    (140, 150, 75), (150, 160, 74), (160, 170, 73), (170, 180, 72), (180, 190, 71), (190, 200, 70),
    (200, 210, 69), (210, 220, 68), (220, 230, 67), (230, 240, 66), (240, 250, 65), (250, 260, 64),
    (260, 270, 63), (270, 280, 62), (280, 290, 61), (290, 300, 60), (300, 310, 59), (310, 320, 58),
    (320, 330, 57), (330, 340, 56), (340, 350, 55), (350, 363, 54), (363, 376, 53), (376, 389, 52),
    (389, 402, 51), (402, 415, 50), (415, 428, 49), (428, 441, 48), (441, 454, 47), (454, 467, 46),
    (467, 480, 45), (480, 493, 44), (493, 506, 43), (506, 519, 42), (519, 532, 41), (532, 545, 40),
    (545, 558, 39), (558, 571, 38), (571, 584, 37), (584, 597, 36), (597, 610, 35), (610, 623, 34),
    (623, 636, 33), (636, 649, 32), (649, 662, 31), (662, 675, 30), (675, 688, 29), (688, 701, 28),
    (701, 714, 27), (714, 727, 26), (727, 740, 25), (740, 753, 24), (753, 766, 23), (766, 779, 22),
    (779, 792, 21), (792, 805, 20), (805, 818, 19), (818, 831, 18), (831, 844, 17), (844, 857, 16),
    (857, 870, 15), (870, 883, 14), (883, 896, 13), (896, 909, 12), (909, 922, 11), (922, 935, 10),
    (935, 945, 9), (945, 961, 8), (961, 974, 7), (974, 987, 6), (987, 990, 5)]"

fun seesaw_share :: "(int \<times> int \<times> int) list \<Rightarrow> int \<Rightarrow> int \<Rightarrow> int" where
  "seesaw_share [] nNodeCoins nMoneySupply = 1"
| "seesaw_share ((lo, hi, share) # rows) nNodeCoins nMoneySupply =
     (if dbl (of_int nNodeCoins) \<le> dmul nMoneySupply hi \<and> dmul nMoneySupply lo < dbl (of_int nNodeCoins) then share
      else seesaw_share rows nNodeCoins nMoneySupply)"

definition GetMasternodePaymentSeeSaw :: "reward_params \<Rightarrow> int \<Rightarrow> int \<Rightarrow> int \<Rightarrow> int option" where
  "GetMasternodePaymentSeeSaw R nHeight nMasternodeCount nMoneySupply =
     (let nReward = GetBlockValueReward R nHeight - GetBlockValueDevFund R nHeight
      in case int64_mult nMasternodeCount (nRequiredMasternodeCollateral R) of
           None \<Rightarrow> None
         | Some nNodeCoins \<Rightarrow>
             Some (if nNodeCoins = 0 then 0
                   else to_int64 (dmul nReward (10 * seesaw_share seesaw_table nNodeCoins nMoneySupply))))"

definition GetMasternodePayment :: "reward_params \<Rightarrow> int \<Rightarrow> int \<Rightarrow> int \<Rightarrow> int option" where
  "GetMasternodePayment R nHeight nMasternodeCount nMoneySupply =
     (if nHeight < GetChainHeight R H4 then
        map_option (\<lambda>n. n div 100) (int64_mult (GetBlockValueReward R nHeight) 60)
      else if GetChainHeight R H4 \<le> nHeight \<and> nHeight < GetChainHeight R H6 then
        GetMasternodePaymentSeeSaw R nHeight nMasternodeCount nMoneySupply
      else if GetChainHeight R H6 \<le> nHeight \<and> nHeight < GetChainHeight R H8 then
        map_option (\<lambda>n. n div 100) (int64_mult (GetBlockValueReward R nHeight - GetBlockValueDevFund R nHeight) 60)
      else map_option (\<lambda>n. n div 100) (int64_mult (GetBlockValueReward R nHeight) 60))"

end
