(* ===== verification/RewardsProps.thy ===== *)
theory RewardsProps
  imports Rewards
begin

text \<open>
  Rounding to double precision is monotone and exact on small integers; the see-saw falls as the number of
  masternodes grows; the sum of the block values.
\<close>

section \<open>Rounding\<close>

lemma floorlog_nat:
  assumes "0 < p"
  shows "2 powi (int (floorlog 2 (nat p)) - 1) \<le> (of_int p :: rat)" and "of_int p < (2 powi int (floorlog 2 (nat p)) :: rat)"
proof -
  let ?k = "floorlog 2 (nat p)"
  have k: "?k \<noteq> 0"
    using assms by (simp add: floorlog_eq_zero_iff)
  have "2 ^ (?k - 1) \<le> nat p" and "nat p < 2 ^ ?k"
    using floorlog_bounds [of "nat p" 2] assms by simp_all
  then have *: "2 ^ (?k - 1) \<le> p" "p < 2 ^ ?k"
    using assms by (simp_all add: le_nat_iff nat_less_iff)
  have e: "int ?k - 1 = int (?k - 1)"
    using k by simp
  have "(of_int (2 ^ (?k - 1)) :: rat) \<le> of_int p"
    using *(1) by (simp only: of_int_le_iff)
  then show "2 powi (int ?k - 1) \<le> (of_int p :: rat)"
    unfolding e by simp
  have "(of_int p :: rat) < of_int (2 ^ ?k)"
    using *(2) by (simp only: of_int_less_iff)
  then show "of_int p < (2 powi int ?k :: rat)"
    by simp
qed

lemma leading_exp_bounds:
  assumes "0 < x"
  shows "2 powi leading_exp x \<le> x" and "x < 2 powi (leading_exp x + 1)"
proof -
  obtain p q where pq: "quotient_of x = (p, q)"
    by fastforce
  have q: "0 < q"
    by (rule quotient_of_denom_pos [OF pq])
  have x: "x = of_int p / of_int q"
    by (rule quotient_of_div [OF pq])
  have p: "0 < p"
    using assms q by (simp add: x zero_less_divide_iff)
  let ?a = "int (floorlog 2 (nat p))" and ?b = "int (floorlog 2 (nat q))"
  have "x \<le> of_int p / 2 powi (?b - 1)"
    unfolding x using floorlog_nat(1) [OF q] p q by (intro divide_left_mono) auto
  also have "\<dots> < 2 powi ?a / 2 powi (?b - 1)"
    using floorlog_nat(2) [OF p] by (intro divide_strict_right_mono) auto
  also have "\<dots> = 2 powi (?a - (?b - 1))"
    by (rule power_int_diff [symmetric]) simp
  also have "?a - (?b - 1) = ?a - ?b + 1"
    by simp
  finally have upper: "x < 2 powi (?a - ?b + 1)" .
  have "2 powi (?a - ?b - 1) = (2 powi (?a - 1 - ?b) :: rat)"
    by (simp add: algebra_simps)
  also have "\<dots> = 2 powi (?a - 1) / 2 powi ?b"
    by (rule power_int_diff) simp
  also have "\<dots> \<le> of_int p / 2 powi ?b"
    using floorlog_nat(1) [OF p] by (intro divide_right_mono) auto
  also have "\<dots> \<le> x"
    unfolding x using floorlog_nat(2) [OF q] p q by (intro divide_left_mono) auto
  finally have lower: "2 powi (?a - ?b - 1) \<le> x" .
  show "2 powi leading_exp x \<le> x" "x < 2 powi (leading_exp x + 1)"
    using upper lower by (auto simp: leading_exp_def pq Let_def)
qed

lemma leading_exp_unique:
  assumes "2 powi e \<le> x" and "x < 2 powi (e + 1)"
  shows "leading_exp x = e"
proof -
  have x: "0 < x"
    using assms(1) by (rule less_le_trans [rotated]) simp
  have less: "(2 :: rat) powi a < 2 powi b \<Longrightarrow> a < b" for a b :: int
    by (rule ccontr) (auto simp: not_less dest: power_int_increasing [where a = "2 :: rat", OF _ ])
  have "e < leading_exp x + 1"
    by (rule less, rule le_less_trans [OF assms(1) leading_exp_bounds(2) [OF x]])
  moreover have "leading_exp x < e + 1"
    by (rule less, rule le_less_trans [OF leading_exp_bounds(1) [OF x] assms(2)])
  ultimately show ?thesis
    by simp
qed

lemma leading_exp_mono:
  assumes "0 < x" and "x \<le> y"
  shows "leading_exp x \<le> leading_exp y"
proof (rule ccontr)
  assume "\<not> leading_exp x \<le> leading_exp y"
  then have "(2 :: rat) powi (leading_exp y + 1) \<le> 2 powi leading_exp x"
    by (intro power_int_increasing) auto
  then show False
    using leading_exp_bounds(2) [of y] leading_exp_bounds(1) [of x] assms by linarith
qed

lemma round_half_even_mono:
  assumes "x \<le> y"
  shows "round_half_even x \<le> round_half_even y"
proof (cases "\<lfloor>x\<rfloor> = \<lfloor>y\<rfloor>")
  case True
  then show ?thesis
    using assms by (auto simp: round_half_even_def Let_def)
next
  case False
  then have "\<lfloor>x\<rfloor> + 1 \<le> \<lfloor>y\<rfloor>"
    using floor_mono [OF assms] by simp
  moreover have "round_half_even x \<le> \<lfloor>x\<rfloor> + 1" "\<lfloor>y\<rfloor> \<le> round_half_even y"
    by (simp_all add: round_half_even_def Let_def)
  ultimately show ?thesis
    by linarith
qed

lemma round_half_even_int [simp]: "round_half_even (of_int n) = n"
  by (simp add: round_half_even_def Let_def)

text \<open>A positive number rounds into the binade it is in, its upper end included.\<close>

lemma dbl_pos_bounds:
  assumes "0 < x"
  shows "2 powi leading_exp x \<le> dbl_pos x" and "dbl_pos x \<le> 2 powi (leading_exp x + 1)"
proof -
  define u where "u = (2 :: rat) powi (leading_exp x - 52)"
  have u: "0 < u"
    by (simp add: u_def)
  have lo: "2 powi leading_exp x = of_int (2 ^ 52) * u" and hi: "2 powi (leading_exp x + 1) = of_int (2 ^ 53) * u"
    unfolding u_def by (simp_all add: power_int_diff power_int_add)
  have "of_int (2 ^ 52) \<le> x / u" "x / u \<le> of_int (2 ^ 53)"
    using leading_exp_bounds [OF assms] u unfolding lo hi by (simp_all add: field_simps)
  then have "2 ^ 52 \<le> round_half_even (x / u)" "round_half_even (x / u) \<le> 2 ^ 53"
    using round_half_even_mono [of "of_int (2 ^ 52)" "x / u"] round_half_even_mono [of "x / u" "of_int (2 ^ 53)"]
    by (simp_all only: round_half_even_int)
  then show "2 powi leading_exp x \<le> dbl_pos x" "dbl_pos x \<le> 2 powi (leading_exp x + 1)"
    unfolding lo hi dbl_pos_def Let_def u_def [symmetric] using u by (simp_all only: mult_le_cancel_right_pos of_int_le_iff)
qed

lemma dbl_pos_mono:
  assumes "0 < x" and "x \<le> y"
  shows "dbl_pos x \<le> dbl_pos y"
proof (cases "leading_exp x = leading_exp y")
  case True
  have "x / 2 powi (leading_exp y - 52) \<le> y / 2 powi (leading_exp y - 52)"
    using assms by (simp add: divide_right_mono)
  then show ?thesis
    by (simp add: dbl_pos_def Let_def True round_half_even_mono)
next
  case False
  then have "leading_exp x + 1 \<le> leading_exp y"
    using leading_exp_mono [OF assms] by simp
  then have "(2 :: rat) powi (leading_exp x + 1) \<le> 2 powi leading_exp y"
    by (intro power_int_increasing) auto
  then show ?thesis
    using dbl_pos_bounds [of x] dbl_pos_bounds [of y] assms by linarith
qed

lemma dbl_pos_positive: "0 < x \<Longrightarrow> 0 < dbl_pos x"
  by (rule less_le_trans [OF _ dbl_pos_bounds(1)]) simp_all

lemma dbl_0 [simp]: "dbl 0 = 0"
  by (simp add: dbl_def)

lemma dbl_sign: "0 < dbl x \<longleftrightarrow> 0 < x" "0 \<le> dbl x \<longleftrightarrow> 0 \<le> x"
  using dbl_pos_positive [of x] dbl_pos_positive [of "- x"] by (auto simp: dbl_def)

lemma dbl_mono:
  assumes "x \<le> y"
  shows "dbl x \<le> dbl y"
proof -
  consider "0 < x" | "x \<le> 0 \<and> 0 \<le> y" | "y < 0"
    using assms by linarith
  then show ?thesis
  proof cases
    case 1
    then show ?thesis using assms dbl_pos_mono [of x y] by (simp add: dbl_def)
  next
    case 2
    then show ?thesis using dbl_sign [of x] dbl_sign [of y] by linarith
  next
    case 3
    then show ?thesis using assms dbl_pos_mono [of "- y" "- x"] by (simp add: dbl_def)
  qed
qed

text \<open>Integers below 2 to the power of 53 are exact.\<close>

lemma dbl_int:
  assumes "0 \<le> n" and "n < 2 ^ 53"
  shows "dbl (of_int n) = of_int n"
proof (cases "n = 0")
  case False
  then have n: "0 < (of_int n :: rat)"
    using assms by simp
  define e where "e = leading_exp (of_int n)"
  have "(2 :: rat) powi e < 2 powi 53"
  proof -
    have "(of_int n :: rat) < of_int (2 ^ 53)"
      using assms(2) by (simp only: of_int_less_iff)
    then show ?thesis
      using leading_exp_bounds(1) [OF n] by (simp add: e_def)
  qed
  then have "e < 53"
    using power_int_increasing [of 53 e "2 :: rat"] by linarith
  then have k: "52 - e = int (nat (52 - e))"
    by simp
  have "of_int n / 2 powi (e - 52) = (of_int n * 2 powi (52 - e) :: rat)"
    by (metis divide_inverse minus_diff_eq power_int_minus)
  also have "\<dots> = of_int (n * 2 ^ nat (52 - e))"
    by (subst k) (simp only: power_int_of_nat of_int_mult of_int_power of_int_numeral)
  finally have scaled: "of_int n / 2 powi (e - 52) = (of_int (n * 2 ^ nat (52 - e)) :: rat)" .
  have restored: "of_int (n * 2 ^ nat (52 - e)) * 2 powi (e - 52) = (of_int n :: rat)"
    by (subst scaled [symmetric]) simp
  then show ?thesis
    using n restored by (simp only: dbl_def dbl_pos_def Let_def e_def [symmetric] scaled round_half_even_int) simp
qed simp

section \<open>The see-saw falls\<close>

text \<open>A table whose rows meet and whose shares fall, from a bound and a cap on.\<close>

fun falling :: "int \<Rightarrow> int \<Rightarrow> (int \<times> int \<times> int) list \<Rightarrow> bool" where
  "falling lo cap [] = (1 \<le> cap)"
| "falling lo cap ((l, h, s) # rows) = (l = lo \<and> 1 \<le> s \<and> s \<le> cap \<and> falling h s rows)"

lemma share_range: "falling lo cap rows \<Longrightarrow> 1 \<le> seesaw_share rows n m \<and> seesaw_share rows n m \<le> cap"
  by (induction rows arbitrary: lo cap) force+

lemma share_antitone:
  assumes "falling lo cap rows" and "dmul m lo < dbl (of_int n)" and "n \<le> n'"
  shows "seesaw_share rows n' m \<le> seesaw_share rows n m"
  using assms
proof (induction rows arbitrary: lo cap)
  case (Cons row rows)
  obtain l h s where row: "row = (l, h, s)"
    by (cases row)
  have d: "dbl (of_int n) \<le> dbl (of_int n' :: rat)"
    using Cons.prems(3) by (intro dbl_mono) simp
  show ?case
  proof (cases "dbl (of_int n) \<le> dmul m h")
    case True
    then show ?thesis
      using Cons.prems share_range [of h s rows n' m] by (auto simp: row)
  next
    case False
    then show ?thesis
      using Cons.IH [of h s] Cons.prems d by (auto simp: row)
  qed
qed simp

lemma seesaw_table_falling: "falling 0 90 seesaw_table"
  by (simp add: seesaw_table_def)

lemma dmul_0 [simp]: "dmul n 0 = 0"
  by (simp add: dmul_def)

lemma dmul_mono: "0 \<le> n \<Longrightarrow> k \<le> k' \<Longrightarrow> dmul n k \<le> dmul n k'"
  unfolding dmul_def by (intro dbl_mono mult_left_mono) (simp_all add: dbl_sign divide_right_mono)

lemma dmul_nonneg: "0 \<le> n \<Longrightarrow> 0 \<le> k \<Longrightarrow> 0 \<le> dmul n k"
  by (simp add: dmul_def dbl_sign)

lemma dmul_le:
  assumes "0 \<le> n" and "n < 2 ^ 53" and "k \<le> 1000"
  shows "dmul n k \<le> of_int n"
proof -
  have "dbl (of_int k / 1000) \<le> dbl (of_int 1)"
    using assms(3) by (intro dbl_mono) (simp add: divide_le_eq)
  then have "dbl (of_int k / 1000) \<le> 1"
    using dbl_int [of 1] by simp
  then have "of_int n * dbl (of_int k / 1000) \<le> of_int n * 1"
    using assms(1) by (intro mult_left_mono) simp_all
  then have "dbl (of_int n * dbl (of_int k / 1000)) \<le> dbl (of_int n)"
    by (intro dbl_mono) simp
  then show ?thesis
    using dbl_int [OF assms(1,2)] by (simp add: dmul_def)
qed

lemma to_int64_mono: "0 \<le> x \<Longrightarrow> x \<le> y \<Longrightarrow> to_int64 x \<le> to_int64 y"
  by (simp add: to_int64_def floor_mono)

lemma to_int64_nonneg: "0 \<le> x \<Longrightarrow> 0 \<le> to_int64 x"
  by (simp add: to_int64_def)

lemma to_int64_int [simp]: "to_int64 (of_int n) = n"
  by (simp add: to_int64_def)

lemmas value_defs = GetBlockValue_def GetBlockValueReward_def GetBlockValueBudget_def GetBlockValueDevFund_def

section \<open>The networks\<close>

definition network :: "reward_params \<Rightarrow> bool" where
  "network R \<longleftrightarrow> R = mainParams \<or> R = testNetParams"

lemma network_simps:
  assumes "network R"
  shows "GetChainHeight R H1 = 1" "nBudgetPercent R = 10" "nDevFundPercent R = 10"
    "nRequiredMasternodeCollateral R = 1000000000000000"
    "1 < GetChainHeight R H2" "GetChainHeight R H2 \<le> GetChainHeight R H3" "GetChainHeight R H3 \<le> GetChainHeight R H4"
    "GetChainHeight R H4 < GetChainHeight R H6" "GetChainHeight R H6 < GetChainHeight R H8"
    "GetChainHeight R H8 < GetChainHeight R H9"
  using assms by (auto simp: network_def mainParams_def testNetParams_def)

lemma seesaw_reward:
  assumes "network R" and "GetChainHeight R H4 \<le> h" and "h < GetChainHeight R H8"
  shows "GetBlockValueReward R h - GetBlockValueDevFund R h = 120000000000"
  using network_simps [OF assms(1)] assms(2,3) by (simp add: value_defs)

lemma seesaw_payment_bounds:
  assumes "network R" and "GetChainHeight R H4 \<le> h" and "h < GetChainHeight R H8"
    and "GetMasternodePaymentSeeSaw R h c m = Some p"
  shows "0 \<le> p \<and> p \<le> 120000000000"
proof -
  let ?share = "\<lambda>n. 10 * seesaw_share seesaw_table n m"
  have share: "0 \<le> ?share n" "?share n \<le> 1000" for n
    using share_range [OF seesaw_table_falling, of n m] by simp_all
  have "0 \<le> dmul 120000000000 (?share n)" and le: "dmul 120000000000 (?share n) \<le> of_int 120000000000" for n
    using dmul_nonneg [OF _ share(1), of 120000000000] dmul_le [OF _ _ share(2), of 120000000000] by simp_all
  then have "0 \<le> to_int64 (dmul 120000000000 (?share n))" "to_int64 (dmul 120000000000 (?share n)) \<le> to_int64 (of_int 120000000000)" for n
    using to_int64_nonneg to_int64_mono [OF _ le] by blast+
  then show ?thesis
    using assms(4) unfolding GetMasternodePaymentSeeSaw_def seesaw_reward [OF assms(1-3)] to_int64_int
    by (auto split: option.splits if_splits)
qed

lemma seesaw_payment_falls:
  assumes "network R" and "GetChainHeight R H4 \<le> h" and "h < GetChainHeight R H8" and "0 < c" and "c \<le> c'"
    and "GetMasternodePaymentSeeSaw R h c m = Some p" and "GetMasternodePaymentSeeSaw R h c' m = Some p'"
  shows "p' \<le> p"
proof -
  note net = network_simps(4) [OF assms(1)]
  let ?n = "c * 1000000000000000" and ?n' = "c' * 1000000000000000"
  have pos: "dmul m 0 < dbl (of_int ?n)"
    using assms(4) by (simp add: dbl_sign)
  have "seesaw_share seesaw_table ?n' m \<le> seesaw_share seesaw_table ?n m"
    using assms(5) by (intro share_antitone [OF seesaw_table_falling pos]) simp
  moreover have "1 \<le> seesaw_share seesaw_table ?n' m"
    using share_range [OF seesaw_table_falling] by blast
  ultimately have "to_int64 (dmul 120000000000 (10 * seesaw_share seesaw_table ?n' m))
    \<le> to_int64 (dmul 120000000000 (10 * seesaw_share seesaw_table ?n m))"
    by (intro to_int64_mono dmul_mono dmul_nonneg) auto
  moreover have "?n \<noteq> 0" "?n' \<noteq> 0"
    using assms(4,5) by auto
  ultimately show ?thesis
    using assms(6,7) unfolding GetMasternodePaymentSeeSaw_def seesaw_reward [OF assms(1-3)] net
    by (auto simp: int64_mult_def Let_def split: if_splits)
qed

lemma payment_fits:
  assumes "network R" and p: "GetMasternodePayment R h c m = Some p"
  shows "0 \<le> p \<and> p + (if h < GetChainHeight R H8 then GetBlockValueDevFund R h else 0) \<le> GetBlockValueReward R h"
proof (cases "GetChainHeight R H4 \<le> h \<and> h < GetChainHeight R H6")
  case True
  then have "GetMasternodePaymentSeeSaw R h c m = Some p" "h < GetChainHeight R H8"
    using p network_simps [OF assms(1)] by (simp_all add: GetMasternodePayment_def)
  then show ?thesis
    using seesaw_payment_bounds [OF assms(1)] seesaw_reward [OF assms(1)] True by force
next
  case False
  then show ?thesis
    using p network_simps [OF assms(1)] by (auto simp: GetMasternodePayment_def value_defs int64_mult_def split: if_splits)
qed

lemma masternode_payment_mono:
  assumes "network R" and "0 < c" and "c \<le> c'"
    and "GetMasternodePayment R h c m = Some p" and "GetMasternodePayment R h c' m = Some p'"
  shows "p' \<le> p"
proof (cases "GetChainHeight R H4 \<le> h \<and> h < GetChainHeight R H6")
  case True
  then have "GetMasternodePaymentSeeSaw R h c m = Some p" "GetMasternodePaymentSeeSaw R h c' m = Some p'" "h < GetChainHeight R H8"
    using assms(4,5) network_simps [OF assms(1)] by (simp_all add: GetMasternodePayment_def)
  then show ?thesis
    using seesaw_payment_falls [OF assms(1) _ _ assms(2,3)] True by blast
next
  case False
  then show ?thesis
    using assms(4,5) by (auto simp: GetMasternodePayment_def split: if_splits)
qed

lemma devfund_fits:
  assumes "network R"
  shows "0 \<le> GetBlockValueDevFund R h" and "GetBlockValueDevFund R h \<le> GetBlockValueReward R h"
    and "GetBlockValueDevFund R h \<le> 15000000000" and "GetChainHeight R H4 \<le> h \<Longrightarrow> 0 < GetBlockValueDevFund R h"
  using network_simps [OF assms] by (auto simp: value_defs)

section \<open>The sum of the block values\<close>

fun total_value :: "nat \<Rightarrow> int" where
  "total_value 0 = 0"
| "total_value (Suc h) = total_value h + GetBlockValue mainParams (int (Suc h))"

lemma total_value_phase:
  assumes "\<And>i. a < i \<Longrightarrow> i \<le> a + k \<Longrightarrow> GetBlockValue mainParams (int i) = v"
  shows "total_value (a + k) = total_value a + int k * v"
  using assms
proof (induction k)
  case (Suc k)
  have "total_value (a + Suc k) = total_value (a + k) + GetBlockValue mainParams (int (a + Suc k))"
    by simp
  then show ?case
    using Suc.IH Suc.prems [of "a + Suc k"] Suc.prems by (simp add: algebra_simps)
qed simp

lemma main_value:
  "GetBlockValue mainParams h =
     (if h < 1 then 0 else if h = 1 then 12000000000 * COIN else if h < 151202 then 2500 * COIN
      else if h < 302401 then 1250 * COIN else if h < 388800 then 1000 * COIN else 1500 * COIN)"
  by (simp add: GetBlockValue_def mainParams_def)

lemma total_value_late: "total_value (388799 + k) = 12653397750 * COIN + int k * (1500 * COIN)"
proof -
  have 1: "total_value (0 + 1) = total_value 0 + int 1 * (12000000000 * COIN)"
    by (rule total_value_phase) (simp add: main_value)
  have 2: "total_value (1 + 151200) = total_value 1 + int 151200 * (2500 * COIN)"
    by (rule total_value_phase) (simp add: main_value)
  have 3: "total_value (151201 + 151199) = total_value 151201 + int 151199 * (1250 * COIN)"
    by (rule total_value_phase) (simp add: main_value)
  have 4: "total_value (302400 + 86399) = total_value 302400 + int 86399 * (1000 * COIN)"
    by (rule total_value_phase) (simp add: main_value)
  have 5: "total_value (388799 + k) = total_value 388799 + int k * (1500 * COIN)"
    by (rule total_value_phase) (simp add: main_value)
  show ?thesis
    using 1 2 3 4 5 by (simp del: total_value.simps(2))
qed

lemma total_value_mono: "a \<le> b \<Longrightarrow> total_value a \<le> total_value b"
proof (induction b rule: dec_induct)
  case (step n)
  have "0 \<le> GetBlockValue mainParams (int (Suc n))"
    by (simp add: main_value)
  then show ?case
    using step.IH by simp
qed simp

end
