(* ===== verification/RewardsSpec.thy ===== *)
theory RewardsSpec
  imports RewardsProps
begin

text \<open>
  The properties of the rewards: how a block's value is shared, how the share of a masternode falls, and how many
  coins there are.
\<close>

text \<open>C24: 
  On the main and the test network the value of every block is shared out exactly between the reward, the budget and, once it
  is no longer part of the reward, the developer fund; the payment of the masternode is defined unless a product overflows,
  which happens at the premine and for absurd masternode counts only, and it fits in the reward beside the developer fund.
\<close>

theorem block_value_fully_shared:
  assumes "network R"
  shows "GetBlockValueReward R h + GetBlockValueBudget R h + (if h < GetChainHeight R H8 then 0 else GetBlockValueDevFund R h)
      = GetBlockValue R h \<and>
    (case GetMasternodePayment R h c m of
       None \<Rightarrow> h = 1 \<or> GetChainHeight R H4 \<le> h \<and> h < GetChainHeight R H6 \<and> (c < - 9223 \<or> 9223 < c)
     | Some p \<Rightarrow> 0 \<le> p \<and>
         p + (if h < GetChainHeight R H8 then GetBlockValueDevFund R h else 0) \<le> GetBlockValueReward R h)"
proof (intro conjI)
  note net = network_simps [OF assms]
  show "GetBlockValueReward R h + GetBlockValueBudget R h + (if h < GetChainHeight R H8 then 0 else GetBlockValueDevFund R h)
      = GetBlockValue R h"
    using net by (auto simp: value_defs)
  show "case GetMasternodePayment R h c m of
       None \<Rightarrow> h = 1 \<or> GetChainHeight R H4 \<le> h \<and> h < GetChainHeight R H6 \<and> (c < - 9223 \<or> 9223 < c)
     | Some p \<Rightarrow> 0 \<le> p \<and> p + (if h < GetChainHeight R H8 then GetBlockValueDevFund R h else 0) \<le> GetBlockValueReward R h"
  proof (cases "GetMasternodePayment R h c m")
    case None
    then show ?thesis
      using net by (auto simp: GetMasternodePayment_def GetMasternodePaymentSeeSaw_def value_defs int64_mult_def Let_def split: if_splits)
  next
    case (Some p)
    then show ?thesis
      using payment_fits [OF assms Some] by simp
  qed
qed

theorem block_value_fully_shared_witness:
  "GetBlockValueReward mainParams 600000 + GetBlockValueBudget mainParams 600000 = GetBlockValue mainParams 600000 \<and>
   72000000000 + GetBlockValueDevFund mainParams 600000 \<le> GetBlockValueReward mainParams 600000"
proof -
  have net: "network mainParams"
    by (simp add: network_def)
  have "GetMasternodePayment mainParams 600000 100 0 = Some 72000000000"
    by (simp add: GetMasternodePayment_def value_defs mainParams_def int64_mult_def)
  with block_value_fully_shared [OF net, of 600000 100 0] show ?thesis
    by (simp add: mainParams_def)
qed

text \<open>C25: 
  More masternodes, smaller payments: for the same height and money supply the payment does not grow with a positive number of
  masternodes. A peer that asks only for the payment due for a larger count accepts what is due for a smaller one.
\<close>

theorem masternode_payment_falls:
  assumes "network R" and "0 < c" and "c \<le> c'"
    and "GetMasternodePayment R h c m = Some p" and "GetMasternodePayment R h c' m = Some p'"
  shows "p' \<le> p"
  using assms by (rule masternode_payment_mono)

theorem masternode_payment_falls_witness:
  "\<exists>p p'. GetMasternodePayment mainParams 400000 10 12000 = Some p \<and> GetMasternodePayment mainParams 400000 30 12000 = Some p' \<and> p' \<le> p"
proof -
  have net: "network mainParams"
    by (simp add: network_def)
  have defined: "\<exists>p. GetMasternodePayment mainParams 400000 c 12000 = Some p" if "0 \<le> c" "c \<le> 9000" for c
    using that by (simp add: GetMasternodePayment_def GetMasternodePaymentSeeSaw_def mainParams_def int64_mult_def)
  obtain p where p: "GetMasternodePayment mainParams 400000 10 12000 = Some p"
    using defined [of 10] by auto
  obtain p' where p': "GetMasternodePayment mainParams 400000 30 12000 = Some p'"
    using defined [of 30] by auto
  show ?thesis
    using masternode_payment_falls [OF net _ _ p p'] p p' by simp
qed

text \<open>
  The sum of the values of all blocks up to a height stays within the largest amount of the main network just up to height
  5286533, about ten years of blocks: the last phase of the schedule has no end.
\<close>

theorem supply_in_range_iff:
  "(total_value h \<le> 20000000000 * COIN) = (h \<le> 5286533)"
proof -
  have "total_value 5286533 \<le> 20000000000 * COIN" "20000000000 * COIN < total_value 5286534"
    using total_value_late [of "5286533 - 388799"] total_value_late [of "5286534 - 388799"] by (simp_all del: total_value.simps(2))
  then show ?thesis
    using total_value_mono [of h 5286533] total_value_mono [of 5286534 h] by (cases "h \<le> 5286533") auto
qed

end
