(* ===== verification/Budget.thy ===== *)
theory Budget
  imports Rewards Standard BlockIndex "HOL-Library.AList" "HOL-Library.Signed_Division"
begin

text \<open>
  The budget, \<open>src/masternode-budget.h\<close> and \<open>src/masternode-budget.cpp\<close>: proposals and finalized budgets with the
  votes of masternodes, the budget of the next cycle, and which payments a superblock makes and must make. The maps
  \<open>mapVotes\<close>, \<open>mapProposals\<close> and \<open>mapFinalizedBudgets\<close> are association lists in the order of their
  keys. Signatures, collateral transactions, the clock and the number of enabled masternodes are arguments. Amounts
  and heights are integers; division and remainder truncate, as in the language. Messages and logging are left out.
\<close>

section \<open>Cycles and totals\<close>

definition GetBudgetPaymentCycleBlocks :: "reward_params \<Rightarrow> int" where
  "GetBudgetPaymentCycleBlocks R = nBudgetPaymentCycle R sdiv nBlockSpacing R"

definition GetBudgetFinalizationBlocks :: "reward_params \<Rightarrow> int" where
  "GetBudgetFinalizationBlocks R =
     (if \<not> fTestNet R then GetBudgetPaymentCycleBlocks R sdiv 30 * 2 else GetBudgetPaymentCycleBlocks R sdiv 2)"

definition GetBudgetFee :: "reward_params \<Rightarrow> int \<Rightarrow> int" where
  "GetBudgetFee R nBudgetBlockStart = (if GetChainHeight R H7 \<le> nBudgetBlockStart then 25000 * COIN else 50 * COIN)"

definition GetTotalBudget :: "reward_params \<Rightarrow> int \<Rightarrow> int" where
  "GetTotalBudget R nHeight = GetBlockValueBudget R nHeight * GetBudgetPaymentCycleBlocks R"

definition GetTotalDevFund :: "reward_params \<Rightarrow> int \<Rightarrow> int" where
  "GetTotalDevFund R nHeight = GetBlockValueDevFund R nHeight * GetBudgetPaymentCycleBlocks R"

section \<open>Votes\<close>

abbreviation (input) VOTE_ABSTAIN :: int where "VOTE_ABSTAIN \<equiv> 0"
abbreviation (input) VOTE_YES :: int where "VOTE_YES \<equiv> 1"
abbreviation (input) VOTE_NO :: int where "VOTE_NO \<equiv> 2"
abbreviation (input) BUDGET_VOTE_UPDATE_MIN :: int where "BUDGET_VOTE_UPDATE_MIN \<equiv> 60 * 60"

record CBudgetVote =
  bv_fValid :: bool
  bv_vin :: CTxIn
  bv_nProposalHash :: uint256
  bv_nVote :: int
  bv_nTime :: int
  bv_vchSig :: "byte list"

record CFinalizedBudgetVote =
  fv_fValid :: bool
  fv_vin :: CTxIn
  fv_nBudgetHash :: uint256
  fv_nTime :: int
  fv_vchSig :: "byte list"

definition COutPoint_GetHash :: "hash_funs \<Rightarrow> COutPoint \<Rightarrow> uint256" where
  "COutPoint_GetHash H o' = uint256_of_bytes (CHash256 H (ser_outpoint o'))"

datatype vote_error = VoteOlder | VoteTooSoon | VoteAhead

definition check_vote_time :: "int \<Rightarrow> int option \<Rightarrow> int \<Rightarrow> vote_error option" where
  "check_vote_time now old new =
     (case old of
        Some t \<Rightarrow>
          if new < t then Some VoteOlder
          else if new - t < BUDGET_VOTE_UPDATE_MIN then Some VoteTooSoon
          else if now + 60 * 60 < new then Some VoteAhead else None
      | None \<Rightarrow> if now + 60 * 60 < new then Some VoteAhead else None)"

section \<open>Proposals\<close>

record CBudgetProposal =
  pr_nAlloted :: int
  pr_fValid :: bool
  pr_strProposalName :: string
  pr_strURL :: string
  pr_nBlockStart :: int
  pr_nBlockEnd :: int
  pr_nAmount :: int
  pr_address :: "byte list"
  pr_nTime :: int
  pr_nFeeTXHash :: uint256
  pr_mapVotes :: "(uint256 \<times> CBudgetVote) list"

definition proposal_AddOrUpdateVote ::
  "hash_funs \<Rightarrow> int \<Rightarrow> CBudgetProposal \<Rightarrow> CBudgetVote \<Rightarrow> vote_error + CBudgetProposal" where
  "proposal_AddOrUpdateVote H now p vote =
     (let hash = COutPoint_GetHash H (prevout (bv_vin vote)) in
      case check_vote_time now (map_option bv_nTime (map_of (pr_mapVotes p) hash)) (bv_nTime vote) of
        Some e \<Rightarrow> Inl e
      | None \<Rightarrow> Inr (p\<lparr>pr_mapVotes := AList.update hash vote (pr_mapVotes p)\<rparr>))"

definition proposal_CleanAndRemove :: "(CBudgetVote \<Rightarrow> bool) \<Rightarrow> CBudgetProposal \<Rightarrow> CBudgetProposal" where
  "proposal_CleanAndRemove SignatureValid p =
     p\<lparr>pr_mapVotes := map (\<lambda>(k, v). (k, v\<lparr>bv_fValid := SignatureValid v\<rparr>)) (pr_mapVotes p)\<rparr>"

definition count_votes :: "int \<Rightarrow> CBudgetProposal \<Rightarrow> int" where
  "count_votes nVote p = int (length (filter (\<lambda>(_, v). bv_nVote v = nVote \<and> bv_fValid v) (pr_mapVotes p)))"

definition GetYeas :: "CBudgetProposal \<Rightarrow> int" where
  "GetYeas p = count_votes VOTE_YES p"

definition GetNays :: "CBudgetProposal \<Rightarrow> int" where
  "GetNays p = count_votes VOTE_NO p"

definition GetAbstains :: "CBudgetProposal \<Rightarrow> int" where
  "GetAbstains p = count_votes VOTE_ABSTAIN p"

definition GetBlockStartCycle :: "reward_params \<Rightarrow> CBudgetProposal \<Rightarrow> int" where
  "GetBlockStartCycle R p = pr_nBlockStart p - pr_nBlockStart p smod GetBudgetPaymentCycleBlocks R"

definition GetBlockEndCycle :: "CBudgetProposal \<Rightarrow> int" where
  "GetBlockEndCycle p = pr_nBlockEnd p"

definition GetBlockCurrentCycle :: "reward_params \<Rightarrow> int option \<Rightarrow> CBudgetProposal \<Rightarrow> int" where
  "GetBlockCurrentCycle R tip p =
     (case tip of
        None \<Rightarrow> - 1
      | Some nHeight \<Rightarrow>
          if GetBlockEndCycle p \<le> nHeight then - 1 else nHeight - nHeight smod GetBudgetPaymentCycleBlocks R)"

definition GetTotalPaymentCount :: "reward_params \<Rightarrow> CBudgetProposal \<Rightarrow> int" where
  "GetTotalPaymentCount R p = (GetBlockEndCycle p - GetBlockStartCycle R p) sdiv GetBudgetPaymentCycleBlocks R"

definition GetRemainingPaymentCount :: "reward_params \<Rightarrow> int option \<Rightarrow> CBudgetProposal \<Rightarrow> int" where
  "GetRemainingPaymentCount R tip p =
     min ((GetBlockEndCycle p - GetBlockCurrentCycle R tip p) sdiv GetBudgetPaymentCycleBlocks R - 1) (GetTotalPaymentCount R p)"

definition IsEstablished :: "reward_params \<Rightarrow> int \<Rightarrow> CBudgetProposal \<Rightarrow> bool" where
  "IsEstablished R now p \<longleftrightarrow>
     (if \<not> fTestNet R then pr_nTime p < now - 60 * 60 * 24 else pr_nTime p < now - 60 * 5)"

datatype proposal_error =
  ActiveRemoval | InvalidProposal | EndBeforeStart | InvalidAmount | InvalidPaymentAddress | InvalidCollateral
  | MultisigNotSupported | PaymentMoreThanMax | EndBeforeHeight

text \<open>The answer with the message for a failure; the tip is \<open>None\<close> when there is no chain.\<close>

definition proposal_IsValid ::
  "reward_params \<Rightarrow> int \<Rightarrow> (CBudgetProposal \<Rightarrow> bool) \<Rightarrow> int option \<Rightarrow> CBudgetProposal \<Rightarrow> bool \<Rightarrow> proposal_error option" where
  "proposal_IsValid R CountEnabled IsBudgetCollateralValid tip p fCheckCollateral =
     (if CountEnabled sdiv 10 < GetNays p - GetYeas p then Some ActiveRemoval
      else if pr_nBlockStart p < 0 then Some InvalidProposal
      else if pr_nBlockEnd p < pr_nBlockStart p then Some EndBeforeStart
      else if pr_nAmount p < 10 * COIN then Some InvalidAmount
      else if pr_address p = [] then Some InvalidPaymentAddress
      else if fCheckCollateral \<and> \<not> IsBudgetCollateralValid p then Some InvalidCollateral
      else if IsPayToScriptHash (pr_address p) then Some MultisigNotSupported
      else if GetTotalBudget R (pr_nBlockStart p) < pr_nAmount p then Some PaymentMoreThanMax
      else
        (case tip of
           None \<Rightarrow> None
         | Some nHeight \<Rightarrow>
             let nProposalEnd = pr_nBlockStart p + GetBudgetPaymentCycleBlocks R * GetTotalPaymentCount R p in
             if nProposalEnd < nHeight then Some EndBeforeHeight else None))"

section \<open>The budget of the next cycle\<close>

text \<open>
  \<open>std::sort\<close> by the difference of the votes, then by the hash of the fee transaction, both falling; the order
  of proposals that agree in both is not specified by the library, here they keep theirs.
\<close>

definition sort_proposals :: "(uint256 \<times> CBudgetProposal) list \<Rightarrow> (uint256 \<times> CBudgetProposal) list" where
  "sort_proposals ps =
     sort_key (\<lambda>(_, p). - (GetYeas p - GetNays p)) (sort_key (\<lambda>(_, p). - uint (pr_nFeeTXHash p)) ps)"

definition proposal_eligible :: "reward_params \<Rightarrow> int \<Rightarrow> int \<Rightarrow> int \<Rightarrow> int \<Rightarrow> CBudgetProposal \<Rightarrow> bool" where
  "proposal_eligible R CountEnabled now nBlockStart nBlockEnd p \<longleftrightarrow>
     pr_fValid p \<and> pr_nBlockStart p \<le> nBlockStart \<and> nBlockEnd \<le> pr_nBlockEnd p \<and> 0 < GetYeas p \<and>
     CountEnabled sdiv 10 \<le> GetYeas p - GetNays p \<and> IsEstablished R now p"

text \<open>The walk over the sorted proposals returns the map with the allotted amounts and the proposals that were added.\<close>

fun allot_loop :: "(CBudgetProposal \<Rightarrow> bool) \<Rightarrow> int \<Rightarrow> (uint256 \<times> CBudgetProposal) list \<Rightarrow> int
    \<Rightarrow> (uint256 \<times> CBudgetProposal) list \<Rightarrow> (uint256 \<times> CBudgetProposal) list \<times> CBudgetProposal list" where
  "allot_loop eligible nTotalBudget [] nBudgetAllocated m = (m, [])"
| "allot_loop eligible nTotalBudget ((k, p) # ps) nBudgetAllocated m =
     (if eligible p then
        if pr_nAmount p + nBudgetAllocated \<le> nTotalBudget then
          (let p' = p\<lparr>pr_nAlloted := pr_nAmount p\<rparr>;
               (m', ret) = allot_loop eligible nTotalBudget ps (nBudgetAllocated + pr_nAmount p) (AList.update k p' m)
           in (m', p' # ret))
        else allot_loop eligible nTotalBudget ps nBudgetAllocated (AList.update k (p\<lparr>pr_nAlloted := 0\<rparr>) m)
      else allot_loop eligible nTotalBudget ps nBudgetAllocated m)"

definition GetBudget ::
  "reward_params \<Rightarrow> int \<Rightarrow> int \<Rightarrow> (CBudgetVote \<Rightarrow> bool) \<Rightarrow> int option \<Rightarrow> (uint256 \<times> CBudgetProposal) list
    \<Rightarrow> (uint256 \<times> CBudgetProposal) list \<times> CBudgetProposal list" where
  "GetBudget R CountEnabled now SignatureValid tip mapProposals =
     (let cleaned = map (\<lambda>(k, p). (k, proposal_CleanAndRemove SignatureValid p)) mapProposals in
      case tip of
        None \<Rightarrow> (cleaned, [])
      | Some nHeight \<Rightarrow>
          let nBlockStart = nHeight - nHeight smod GetBudgetPaymentCycleBlocks R + GetBudgetPaymentCycleBlocks R;
              nBlockEnd = nBlockStart + GetBudgetPaymentCycleBlocks R - 1
          in allot_loop (proposal_eligible R CountEnabled now nBlockStart nBlockEnd) (GetTotalBudget R nBlockStart)
               (sort_proposals cleaned) 0 cleaned)"

section \<open>Finalized budgets\<close>

record CTxBudgetPayment =
  bp_nProposalHash :: uint256
  bp_payee :: "byte list"
  bp_nAmount :: int

record CFinalizedBudget =
  fb_fAutoChecked :: bool
  fb_fValid :: bool
  fb_strBudgetName :: string
  fb_nBlockStart :: int
  fb_vecBudgetPayments :: "CTxBudgetPayment list"
  fb_mapVotes :: "(uint256 \<times> CFinalizedBudgetVote) list"
  fb_nFeeTXHash :: uint256
  fb_nTime :: int

definition GetBlockEnd :: "CFinalizedBudget \<Rightarrow> int" where
  "GetBlockEnd b = fb_nBlockStart b + (int (length (fb_vecBudgetPayments b)) - 1)"

definition GetVoteCount :: "CFinalizedBudget \<Rightarrow> int" where
  "GetVoteCount b = int (length (fb_mapVotes b))"

definition GetBudgetPaymentByBlock :: "CFinalizedBudget \<Rightarrow> int \<Rightarrow> CTxBudgetPayment option" where
  "GetBudgetPaymentByBlock b nBlockHeight =
     (let i = nBlockHeight - fb_nBlockStart b in
      if i < 0 then None
      else if int (length (fb_vecBudgetPayments b)) - 1 < i then None
      else Some (fb_vecBudgetPayments b ! nat i))"

definition GetPayeeAndAmount :: "CFinalizedBudget \<Rightarrow> int \<Rightarrow> (byte list \<times> int) option" where
  "GetPayeeAndAmount b nBlockHeight =
     (let i = nBlockHeight - fb_nBlockStart b in
      if i < 0 then None
      else if int (length (fb_vecBudgetPayments b)) - 1 < i then None
      else Some (bp_payee (fb_vecBudgetPayments b ! nat i), bp_nAmount (fb_vecBudgetPayments b ! nat i)))"

definition finalized_AddOrUpdateVote ::
  "hash_funs \<Rightarrow> int \<Rightarrow> CFinalizedBudget \<Rightarrow> CFinalizedBudgetVote \<Rightarrow> vote_error + CFinalizedBudget" where
  "finalized_AddOrUpdateVote H now b vote =
     (let hash = COutPoint_GetHash H (prevout (fv_vin vote)) in
      case check_vote_time now (map_option fv_nTime (map_of (fb_mapVotes b) hash)) (fv_nTime vote) of
        Some e \<Rightarrow> Inl e
      | None \<Rightarrow> Inr (b\<lparr>fb_mapVotes := AList.update hash vote (fb_mapVotes b)\<rparr>))"

definition finalized_CleanAndRemove :: "(CFinalizedBudgetVote \<Rightarrow> bool) \<Rightarrow> CFinalizedBudget \<Rightarrow> CFinalizedBudget" where
  "finalized_CleanAndRemove SignatureValid b =
     b\<lparr>fb_mapVotes := map (\<lambda>(k, v). (k, v\<lparr>fv_fValid := SignatureValid v\<rparr>)) (fb_mapVotes b)\<rparr>"

definition GetTotalPayout :: "CFinalizedBudget \<Rightarrow> int" where
  "GetTotalPayout b = (\<Sum>p\<leftarrow>fb_vecBudgetPayments b. bp_nAmount p)"

datatype budget_error =
  InvalidBlockStart | InvalidBlockEnd | TooManyPayments | InvalidBudgetName | BlockStartZero | FeeTxZero
  | PayoutMoreThanMax | FinalizedCollateral | TooOld

definition finalized_IsValid ::
  "reward_params \<Rightarrow> (CFinalizedBudget \<Rightarrow> bool) \<Rightarrow> int option \<Rightarrow> CFinalizedBudget \<Rightarrow> bool \<Rightarrow> budget_error option" where
  "finalized_IsValid R IsBudgetCollateralValid tip b fCheckCollateral =
     (if fb_nBlockStart b smod GetBudgetPaymentCycleBlocks R \<noteq> 0 then Some InvalidBlockStart
      else if 100 < GetBlockEnd b - fb_nBlockStart b then Some InvalidBlockEnd
      else if 100 < length (fb_vecBudgetPayments b) then Some TooManyPayments
      else if fb_strBudgetName b = [] then Some InvalidBudgetName
      else if fb_nBlockStart b = 0 then Some BlockStartZero
      else if fb_nFeeTXHash b = 0 then Some FeeTxZero
      else if GetTotalBudget R (fb_nBlockStart b) < GetTotalPayout b then Some PayoutMoreThanMax
      else if fCheckCollateral \<and> \<not> IsBudgetCollateralValid b then Some FinalizedCollateral
      else
        (case tip of
           None \<Rightarrow> None
         | Some nCurrentHeight \<Rightarrow>
             let nBlockStart = nCurrentHeight - nCurrentHeight smod GetBudgetPaymentCycleBlocks R + GetBudgetPaymentCycleBlocks R;
                 nMaxAge = nBlockStart - 2 * GetBudgetPaymentCycleBlocks R
             in if GetBlockEnd b < nMaxAge then Some TooOld else None))"

text \<open>
  \<open>CFinalizedBudget::IsTransactionValid\<close>: some output pays the amount to the payee. When there is none the
  destination of the payee is extracted for a message, which throws for one script: \<open>None\<close>.
\<close>

definition finalized_IsTransactionValid :: "hash_funs \<Rightarrow> CFinalizedBudget \<Rightarrow> CTransaction \<Rightarrow> int \<Rightarrow> bool option" where
  "finalized_IsTransactionValid H b txNew nBlockHeight =
     (let nCurrentBudgetPayment = nBlockHeight - fb_nBlockStart b in
      if nCurrentBudgetPayment < 0 then Some False
      else if int (length (fb_vecBudgetPayments b)) - 1 < nCurrentBudgetPayment then Some False
      else
        let p = fb_vecBudgetPayments b ! nat nCurrentBudgetPayment in
        if list_ex (\<lambda>out. bp_payee p = scriptPubKey out \<and> bp_nAmount p = sint (nValue out)) (vout txNew) then Some True
        else map_option (\<lambda>_. False) (ExtractDestination H (bp_payee p)))"

end
