(* ===== verification/BudgetPay.thy ===== *)
theory BudgetPay
  imports Budget
begin

text \<open>
  Superblocks, \<open>src/masternode-budget.cpp\<close> (from \<open>GrabHighestCount\<close> to \<open>IsTransactionValidBeforeH8\<close>) and
  \<open>FindPayment\<close> of \<open>src/masternode-payments.cpp\<close>: what a superblock pays when it is made and what is asked of it
  when it is checked. \<open>None\<close> is an exception or an undefined read: the destination of a script is extracted for messages
  and for the comparison of addresses, which throws for the script \<open>[OP_ZEROCOINMINT]\<close>, and the walk over the index follows pointers.
\<close>

record fund_addresses =
  GetDevFundAddress :: CTxDestination
  GetTxFeeAddress :: CTxDestination
  GetUnallocatedBudgetAddress :: CTxDestination
  Get108MAddress :: CTxDestination

record budget_env =
  be_params :: reward_params
  be_addresses :: fund_addresses
  be_finalized :: "(uint256 \<times> CFinalizedBudget) list"
  be_CountEnabled :: int
  be_superblocks :: bool

section \<open>Finding payments\<close>

text \<open>\<open>FindPayment\<close> by script, the function object of \<open>IsTransactionValid\<close>.\<close>

definition FindPayment_script :: "CTransaction \<Rightarrow> byte list \<Rightarrow> CAmount" where
  "FindPayment_script tx script_pub =
     foldl (\<lambda>nAmount out. if scriptPubKey out = script_pub then nAmount + nValue out else nAmount) 0 (vout tx)"

text \<open>
  \<open>FindPayment\<close> by address: the text form of an address determines its destination, so destinations are compared; a script
  without a destination leaves the default one.
\<close>

fun find_payment_loop :: "hash_funs \<Rightarrow> CTxDestination \<Rightarrow> CTxOut list \<Rightarrow> CAmount \<Rightarrow> CAmount option" where
  "find_payment_loop H address [] nAmount = Some nAmount"
| "find_payment_loop H address (out # outs) nAmount =
     (case ExtractDestination H (scriptPubKey out) of
        None \<Rightarrow> None
      | Some d \<Rightarrow>
          find_payment_loop H address outs
            (if (case d of None \<Rightarrow> CNoDestination | Some a \<Rightarrow> a) = address then nAmount + nValue out else nAmount))"

definition FindPayment :: "hash_funs \<Rightarrow> CTransaction \<Rightarrow> CTxDestination \<Rightarrow> CAmount option" where
  "FindPayment H tx address = find_payment_loop H address (vout tx) 0"

section \<open>The winning budget\<close>

fun grab_loop :: "(uint256 \<times> CFinalizedBudget) list \<Rightarrow> int \<Rightarrow> int \<Rightarrow> byte list \<times> int \<Rightarrow> int \<times> byte list \<times> int" where
  "grab_loop [] nTargetHeight nHighestCount pay = (nHighestCount, pay)"
| "grab_loop ((_, b) # bs) nTargetHeight nHighestCount pay =
     (if 0 < GetVoteCount b \<and> nHighestCount < GetVoteCount b \<and> fb_nBlockStart b \<le> nTargetHeight \<and> nTargetHeight \<le> GetBlockEnd b
      then
        (case GetPayeeAndAmount b nTargetHeight of
           None \<Rightarrow> grab_loop bs nTargetHeight nHighestCount pay
         | Some pay' \<Rightarrow> grab_loop bs nTargetHeight (GetVoteCount b) pay')
      else grab_loop bs nTargetHeight nHighestCount pay)"

definition GrabHighestCount :: "budget_env \<Rightarrow> int \<Rightarrow> byte list \<times> int \<Rightarrow> int \<times> byte list \<times> int" where
  "GrabHighestCount E nTargetHeight pay = grab_loop (be_finalized E) nTargetHeight (- 1) pay"

definition nFivePercent :: "budget_env \<Rightarrow> int" where
  "nFivePercent E = be_CountEnabled E sdiv 20"

fun find_payments_loop :: "budget_env \<Rightarrow> nat \<Rightarrow> int \<Rightarrow> byte list \<times> int \<Rightarrow> (byte list \<times> int) list" where
  "find_payments_loop E 0 nTargetHeight pay = []"
| "find_payments_loop E (Suc n) nTargetHeight pay =
     (let (nCount, pay') = GrabHighestCount E nTargetHeight pay in
      if nFivePercent E \<le> nCount then pay' # find_payments_loop E n (nTargetHeight + 1) pay' else [])"

definition FindBudgetPayments :: "budget_env \<Rightarrow> int \<Rightarrow> (byte list \<times> int) list" where
  "FindBudgetPayments E nTargetHeight =
     find_payments_loop E (nat (nMaxSuperBlocksPerCycle (be_params E))) nTargetHeight ([], 0)"

definition IsBudgetPaymentBlock :: "budget_env \<Rightarrow> int \<Rightarrow> bool" where
  "IsBudgetPaymentBlock E nBlockHeight =
     (let R = be_params E; cycle = GetBudgetPaymentCycleBlocks R in
      if \<not> be_superblocks E then False
      else if GetChainHeight R H8 \<le> nBlockHeight then 0 = nBlockHeight smod cycle
      else if nMaxSuperBlocksPerCycle R \<le> nBlockHeight smod cycle then False
      else if nFivePercent E \<le> fst (GrabHighestCount E nBlockHeight ([], 0)) then True
      else 0 = nBlockHeight smod cycle)"

section \<open>What the cycle has paid\<close>

partial_function (option) paid_loop :: "reward_params \<Rightarrow> index_heap \<Rightarrow> int \<Rightarrow> int \<Rightarrow> ptr \<Rightarrow> int option" where
  "paid_loop R h nBudgetCycleStartHeight nAmount pindex =
     (case h pindex of
        None \<Rightarrow> None
      | Some bi \<Rightarrow>
          if nBudgetCycleStartHeight \<le> bi_nHeight bi then
            (case bi_pprev bi of
               None \<Rightarrow> Some (- 1)
             | Some p \<Rightarrow>
                 paid_loop R h nBudgetCycleStartHeight
                   (nAmount + (bi_nMint bi - GetBlockExpectedMint R (bi_nHeight bi))) p)
          else Some nAmount)"

definition GetPaidBudgetValue :: "budget_env \<Rightarrow> index_heap \<Rightarrow> int \<Rightarrow> ptr option \<Rightarrow> int option" where
  "GetPaidBudgetValue E h nTargetHeight pindexPrev =
     (let R = be_params E; cycle = GetBudgetPaymentCycleBlocks R in
      if nMaxSuperBlocksPerCycle R \<le> nTargetHeight smod cycle then Some (- 1)
      else
        (case pindexPrev of
           None \<Rightarrow> Some (- 1)
         | Some p \<Rightarrow> paid_loop R h (nTargetHeight - nTargetHeight smod cycle) 0 p))"

text \<open>
  The part of the cycle's budget that is left when the last budget payment of the cycle is made: the total without
  this payment and what has been paid. It is \<open>0\<close> when there are more payments to come.
\<close>

definition unallocated_amount :: "budget_env \<Rightarrow> index_heap \<Rightarrow> int \<Rightarrow> ptr option \<Rightarrow> int \<Rightarrow> int option" where
  "unallocated_amount E h nTargetHeight pindexPrev nAmount =
     (if fst (GrabHighestCount E (nTargetHeight + 1) ([], 0)) < nFivePercent E then
        (case GetPaidBudgetValue E h nTargetHeight pindexPrev of
           None \<Rightarrow> None
         | Some nPaidAmount \<Rightarrow>
             Some (if 0 \<le> nPaidAmount
                   then max 0 (GetTotalBudget (be_params E) nTargetHeight - nAmount - nPaidAmount) else 0))
      else Some 0)"

definition GetBudgetValue :: "budget_env \<Rightarrow> index_heap \<Rightarrow> int \<Rightarrow> ptr option \<Rightarrow> int option" where
  "GetBudgetValue E h nTargetHeight pindexPrev =
     (let (nHighestCount, payee, nAmount) = GrabHighestCount E nTargetHeight ([], 0) in
      if nHighestCount < nFivePercent E then
        Some (if 0 = nTargetHeight smod GetBudgetPaymentCycleBlocks (be_params E)
              then GetTotalBudget (be_params E) nTargetHeight else 0)
      else if pindexPrev \<noteq> None then
        map_option (\<lambda>nUnallocatedAmount. nAmount + nUnallocatedAmount) (unallocated_amount E h nTargetHeight pindexPrev nAmount)
      else Some nAmount)"

section \<open>Making a superblock\<close>

definition push_out :: "int \<Rightarrow> byte list \<Rightarrow> CTransaction \<Rightarrow> CTransaction" where
  "push_out nAmount script_pub tx = tx\<lparr>vout := vout tx @ [mkTxOut (of_int nAmount) script_pub]\<rparr>"

fun add_payments :: "hash_funs \<Rightarrow> int \<Rightarrow> (byte list \<times> int) list \<Rightarrow> int \<Rightarrow> CTransaction \<Rightarrow> (int \<times> CTransaction) option" where
  "add_payments H nTotalBudget [] nPaidBudget tx = Some (nPaidBudget, tx)"
| "add_payments H nTotalBudget ((payee, nAmount) # ps) nPaidBudget tx =
     (if nPaidBudget + nAmount \<le> nTotalBudget then
        (case ExtractDestination H payee of
           None \<Rightarrow> None
         | Some _ \<Rightarrow> add_payments H nTotalBudget ps (nPaidBudget + nAmount) (push_out nAmount payee tx))
      else add_payments H nTotalBudget ps nPaidBudget tx)"

definition extra_coins :: "reward_params \<Rightarrow> int \<Rightarrow> bool" where
  "extra_coins R nHeight \<longleftrightarrow>
     GetChainHeight R H9 \<le> nHeight \<and> nHeight \<le> GetChainHeight R H9 + 24 * GetBudgetPaymentCycleBlocks R"

definition fill_single :: "budget_env \<Rightarrow> hash_funs \<Rightarrow> int \<Rightarrow> CTransaction \<Rightarrow> CTransaction option" where
  "fill_single E H nTargetHeight txNew =
     (let R = be_params E; A = be_addresses E; nTotalBudget = GetTotalBudget R nTargetHeight in
      case add_payments H nTotalBudget (FindBudgetPayments E nTargetHeight) 0 txNew of
        None \<Rightarrow> None
      | Some (nPaidBudget, tx) \<Rightarrow>
          let tx1 = (if nPaidBudget < nTotalBudget
                     then push_out (nTotalBudget - nPaidBudget) (GetScriptForDestination (GetUnallocatedBudgetAddress A)) tx else tx);
              tx2 = (if GetChainHeight R H9 \<le> nTargetHeight
                     then push_out (GetTotalDevFund R nTargetHeight) (GetScriptForDestination (GetDevFundAddress A)) tx1 else tx1);
              tx3 = (if extra_coins R nTargetHeight
                     then push_out (4500000 * COIN) (GetScriptForDestination (Get108MAddress A)) tx2 else tx2)
          in Some tx3)"

definition fill_cycle :: "budget_env \<Rightarrow> hash_funs \<Rightarrow> index_heap \<Rightarrow> int \<Rightarrow> ptr option \<Rightarrow> CTransaction \<Rightarrow> CTransaction option" where
  "fill_cycle E H h nTargetHeight pindexPrev txNew =
     (let R = be_params E; unallocated = GetScriptForDestination (GetUnallocatedBudgetAddress (be_addresses E));
          (nHighestCount, payee, nAmount) = GrabHighestCount E nTargetHeight ([], 0)
      in if nHighestCount < nFivePercent E then
           Some (if 0 = nTargetHeight smod GetBudgetPaymentCycleBlocks R
                 then push_out (GetTotalBudget R nTargetHeight) unallocated txNew else txNew)
         else
           (case ExtractDestination H payee of
              None \<Rightarrow> None
            | Some _ \<Rightarrow>
                (case unallocated_amount E h nTargetHeight pindexPrev nAmount of
                   None \<Rightarrow> None
                 | Some n \<Rightarrow>
                     Some (if 0 < n then push_out n unallocated (push_out nAmount payee txNew)
                           else push_out nAmount payee txNew))))"

definition budget_FillBlockPayee ::
  "budget_env \<Rightarrow> hash_funs \<Rightarrow> index_heap \<Rightarrow> bool \<Rightarrow> ptr option \<Rightarrow> CTransaction \<Rightarrow> CTransaction option" where
  "budget_FillBlockPayee E H h fProofOfStake pindexPrev txNew =
     (if \<not> fProofOfStake then Some txNew
      else
        (case pindexPrev of
           None \<Rightarrow> Some txNew
         | Some p \<Rightarrow>
             (case h p of
                None \<Rightarrow> None
              | Some bi \<Rightarrow>
                  let nTargetHeight = bi_nHeight bi + 1 in
                  if \<not> IsBudgetPaymentBlock E nTargetHeight then Some txNew
                  else if GetChainHeight (be_params E) H8 \<le> nTargetHeight then fill_single E H nTargetHeight txNew
                  else fill_cycle E H h nTargetHeight pindexPrev txNew)))"

section \<open>Checking a superblock\<close>

text \<open>The loop over the payments: \<open>None\<close> when one is missing, otherwise what was paid.\<close>

fun check_payments :: "int \<Rightarrow> CTransaction \<Rightarrow> (byte list \<times> int) list \<Rightarrow> int \<Rightarrow> int option" where
  "check_payments nTotalBudget tx [] nPaidBudget = Some nPaidBudget"
| "check_payments nTotalBudget tx ((payee, nAmount) # ps) nPaidBudget =
     (if nPaidBudget + nAmount \<le> nTotalBudget then
        if sint (FindPayment_script tx payee) < nAmount then None
        else check_payments nTotalBudget tx ps (nPaidBudget + nAmount)
      else check_payments nTotalBudget tx ps nPaidBudget)"

definition check_single :: "budget_env \<Rightarrow> CTransaction \<Rightarrow> int \<Rightarrow> bool" where
  "check_single E txNew nBlockHeight =
     (let R = be_params E; A = be_addresses E; nTotalBudget = GetTotalBudget R nBlockHeight;
          paid = (\<lambda>a. sint (FindPayment_script txNew (GetScriptForDestination a)))
      in case check_payments nTotalBudget txNew (FindBudgetPayments E nBlockHeight) 0 of
           None \<Rightarrow> False
         | Some nPaidBudget \<Rightarrow>
             if paid (GetUnallocatedBudgetAddress A) < nTotalBudget - nPaidBudget then False
             else if GetChainHeight R H9 \<le> nBlockHeight \<and> paid (GetDevFundAddress A) < GetTotalDevFund R nBlockHeight then False
             else if extra_coins R nBlockHeight \<and> paid (Get108MAddress A) \<noteq> 4500000 * COIN then False
             else True)"

fun final_budget_loop ::
  "hash_funs \<Rightarrow> CTransaction \<Rightarrow> int \<Rightarrow> int \<Rightarrow> (uint256 \<times> CFinalizedBudget) list \<Rightarrow> bool option" where
  "final_budget_loop H txNew nBlockHeight nNeeded [] = Some False"
| "final_budget_loop H txNew nBlockHeight nNeeded ((_, b) # bs) =
     (if nNeeded \<le> GetVoteCount b \<and> fb_nBlockStart b \<le> nBlockHeight \<and> nBlockHeight \<le> GetBlockEnd b then
        (case finalized_IsTransactionValid H b txNew nBlockHeight of
           None \<Rightarrow> None
         | Some True \<Rightarrow> Some True
         | Some False \<Rightarrow> final_budget_loop H txNew nBlockHeight nNeeded bs)
      else final_budget_loop H txNew nBlockHeight nNeeded bs)"

definition check_unallocated :: "budget_env \<Rightarrow> hash_funs \<Rightarrow> CTransaction \<Rightarrow> int \<Rightarrow> bool option" where
  "check_unallocated E H txNew nNeeded =
     map_option (\<lambda>nAmount. nNeeded \<le> sint nAmount) (FindPayment H txNew (GetUnallocatedBudgetAddress (be_addresses E)))"

definition IsTransactionValidBeforeH8 ::
  "budget_env \<Rightarrow> hash_funs \<Rightarrow> index_heap \<Rightarrow> CTransaction \<Rightarrow> int \<Rightarrow> ptr option \<Rightarrow> bool option" where
  "IsTransactionValidBeforeH8 E H h txNew nBlockHeight pindexPrev =
     (let R = be_params E; (nHighestCount, payee, nAmount) = GrabHighestCount E nBlockHeight ([], 0) in
      if nHighestCount < nFivePercent E then
        (if 0 = nBlockHeight smod GetBudgetPaymentCycleBlocks R
         then check_unallocated E H txNew (GetTotalBudget R nBlockHeight) else Some False)
      else
        (case final_budget_loop H txNew nBlockHeight (nHighestCount - be_CountEnabled E sdiv 10) (be_finalized E) of
           None \<Rightarrow> None
         | Some finalBudgetValid \<Rightarrow>
             if pindexPrev = None then Some finalBudgetValid
             else
               (case unallocated_amount E h nBlockHeight pindexPrev nAmount of
                  None \<Rightarrow> None
                | Some n \<Rightarrow>
                    if 0 < n then map_option (\<lambda>ok. finalBudgetValid \<and> ok) (check_unallocated E H txNew n)
                    else Some finalBudgetValid)))"

definition budget_IsTransactionValid ::
  "budget_env \<Rightarrow> hash_funs \<Rightarrow> index_heap \<Rightarrow> CTransaction \<Rightarrow> int \<Rightarrow> ptr option \<Rightarrow> bool option" where
  "budget_IsTransactionValid E H h txNew nBlockHeight pindexPrev =
     (if nBlockHeight < GetChainHeight (be_params E) H8 then IsTransactionValidBeforeH8 E H h txNew nBlockHeight pindexPrev
      else if 0 \<noteq> nBlockHeight smod GetBudgetPaymentCycleBlocks (be_params E) then Some True
      else Some (check_single E txNew nBlockHeight))"

end
