(* ===== verification/Payments.thy ===== *)
theory Payments
  imports BudgetPay Block
begin

text \<open>
  Payments to masternodes, \<open>src/masternode-payments.h\<close> and \<open>src/masternode-payments.cpp\<close>: the votes for the
  payees of a block, the outputs a new block is given, and the checks on the value and the payees of a block. The
  tables of masternodes, their ranks and signatures, the hash of an old block and the state of the synchronisation are
  arguments. \<open>None\<close> and the left side of a sum are exceptions: \<open>GetValueOut\<close> throws, the destination of a
  script is extracted for messages, and products may overflow. Messages and logging are left out.
\<close>

section \<open>Votes for payees\<close>

record CMasternodePayee =
  my_scriptPubKey :: "byte list"
  my_nVotes :: int

record CMasternodeBlockPayees =
  by_nBlockHeight :: int
  by_vecPayments :: "CMasternodePayee list"

record CMasternodePaymentWinner =
  pw_vinMasternode :: CTxIn
  pw_nBlockHeight :: int
  pw_payee :: "byte list"
  pw_vchSig :: "byte list"

record CMasternodePayments =
  mapMasternodePayeeVotes :: "(uint256 \<times> CMasternodePaymentWinner) list"
  mapMasternodeBlocks :: "(int \<times> CMasternodeBlockPayees) list"
  mapMasternodesLastVote :: "(uint256 \<times> int) list"

definition CMasternodePayments_init :: CMasternodePayments where
  "CMasternodePayments_init = \<lparr>mapMasternodePayeeVotes = [], mapMasternodeBlocks = [], mapMasternodesLastVote = []\<rparr>"

definition payments_Clear :: "CMasternodePayments \<Rightarrow> CMasternodePayments" where
  "payments_Clear m = m\<lparr>mapMasternodeBlocks := [], mapMasternodePayeeVotes := []\<rparr>"

fun add_payee_loop :: "byte list \<Rightarrow> int \<Rightarrow> CMasternodePayee list \<Rightarrow> CMasternodePayee list option" where
  "add_payee_loop payeeIn nIncrement [] = None"
| "add_payee_loop payeeIn nIncrement (p # ps) =
     (if my_scriptPubKey p = payeeIn then Some (p\<lparr>my_nVotes := my_nVotes p + nIncrement\<rparr> # ps)
      else map_option ((#) p) (add_payee_loop payeeIn nIncrement ps))"

definition AddPayee :: "byte list \<Rightarrow> int \<Rightarrow> CMasternodeBlockPayees \<Rightarrow> CMasternodeBlockPayees" where
  "AddPayee payeeIn nIncrement b =
     (case add_payee_loop payeeIn nIncrement (by_vecPayments b) of
        Some ps \<Rightarrow> b\<lparr>by_vecPayments := ps\<rparr>
      | None \<Rightarrow> b\<lparr>by_vecPayments := by_vecPayments b @ [\<lparr>my_scriptPubKey = payeeIn, my_nVotes = nIncrement\<rparr>]\<rparr>)"

text \<open>The payee with most votes, the first of them; the variable the caller passes stays as it is when there is none.\<close>

fun get_payee_loop :: "CMasternodePayee list \<Rightarrow> int \<Rightarrow> byte list option \<Rightarrow> byte list option" where
  "get_payee_loop [] nVotes payee = payee"
| "get_payee_loop (p # ps) nVotes payee =
     (if nVotes < my_nVotes p then get_payee_loop ps (my_nVotes p) (Some (my_scriptPubKey p))
      else get_payee_loop ps nVotes payee)"

definition GetPayee :: "CMasternodeBlockPayees \<Rightarrow> byte list option" where
  "GetPayee b = get_payee_loop (by_vecPayments b) (- 1) None"

definition HasPayeeWithVotes :: "CMasternodeBlockPayees \<Rightarrow> byte list \<Rightarrow> int \<Rightarrow> bool" where
  "HasPayeeWithVotes b payee nVotesReq \<longleftrightarrow>
     list_ex (\<lambda>p. nVotesReq \<le> my_nVotes p \<and> my_scriptPubKey p = payee) (by_vecPayments b)"

definition GetBlockPayee :: "CMasternodePayments \<Rightarrow> int \<Rightarrow> byte list option" where
  "GetBlockPayee m nBlockHeight =
     (case map_of (mapMasternodeBlocks m) nBlockHeight of
        None \<Rightarrow> None
      | Some b \<Rightarrow> GetPayee b)"

definition IsScheduled :: "CMasternodePayments \<Rightarrow> int option \<Rightarrow> byte list \<Rightarrow> int \<Rightarrow> bool" where
  "IsScheduled m tip mnpayee nNotBlockHeight =
     (case tip of
        None \<Rightarrow> False
      | Some nHeight \<Rightarrow>
          list_ex (\<lambda>h. h \<noteq> nNotBlockHeight \<and> GetBlockPayee m h = Some mnpayee) [nHeight..nHeight + 8])"

definition CanVote :: "CMasternodePayments \<Rightarrow> COutPoint \<Rightarrow> int \<Rightarrow> bool \<times> CMasternodePayments" where
  "CanVote m outMasternode nBlockHeight =
     (let key = out_hash outMasternode + ucast (out_n outMasternode) in
      if map_of (mapMasternodesLastVote m) key = Some nBlockHeight then (False, m)
      else (True, m\<lparr>mapMasternodesLastVote := AList.update key nBlockHeight (mapMasternodesLastVote m)\<rparr>))"

definition winner_GetHash :: "hash_funs \<Rightarrow> CMasternodePaymentWinner \<Rightarrow> uint256" where
  "winner_GetHash H w =
     uint256_of_bytes (CHash256 H (ser_bytes (pw_payee w) @ ser_u32 (of_int (pw_nBlockHeight w)) @ ser_outpoint (prevout (pw_vinMasternode w))))"

definition AddWinningMasternode ::
  "hash_funs \<Rightarrow> (int \<Rightarrow> uint256 option) \<Rightarrow> CMasternodePaymentWinner \<Rightarrow> CMasternodePayments \<Rightarrow> bool \<times> CMasternodePayments" where
  "AddWinningMasternode H GetBlockHash winnerIn m =
     (if GetBlockHash (pw_nBlockHeight winnerIn - 100) = None then (False, m)
      else if map_of (mapMasternodePayeeVotes m) (winner_GetHash H winnerIn) \<noteq> None then (False, m)
      else
        let votes = AList.update (winner_GetHash H winnerIn) winnerIn (mapMasternodePayeeVotes m);
            mblocks = (if map_of (mapMasternodeBlocks m) (pw_nBlockHeight winnerIn) = None
                      then AList.update (pw_nBlockHeight winnerIn)
                        \<lparr>by_nBlockHeight = pw_nBlockHeight winnerIn, by_vecPayments = []\<rparr> (mapMasternodeBlocks m)
                      else mapMasternodeBlocks m);
            b = the (map_of mblocks (pw_nBlockHeight winnerIn))
        in (True, m\<lparr>mapMasternodePayeeVotes := votes,
             mapMasternodeBlocks := AList.update (pw_nBlockHeight winnerIn) (AddPayee (pw_payee winnerIn) 1 b) mblocks\<rparr>))"

text \<open>The walk over the votes removes a vote that is too old, and all payees of its block.\<close>

fun clean_loop :: "int \<Rightarrow> int \<Rightarrow> (uint256 \<times> CMasternodePaymentWinner) list \<Rightarrow> (int \<times> CMasternodeBlockPayees) list
    \<Rightarrow> (uint256 \<times> CMasternodePaymentWinner) list \<times> (int \<times> CMasternodeBlockPayees) list" where
  "clean_loop nHeight nLimit [] mblocks = ([], mblocks)"
| "clean_loop nHeight nLimit ((k, winner) # ws) mblocks =
     (if nLimit < nHeight - pw_nBlockHeight winner
      then clean_loop nHeight nLimit ws (AList.delete (pw_nBlockHeight winner) mblocks)
      else (let (ws', mblocks') = clean_loop nHeight nLimit ws mblocks in ((k, winner) # ws', mblocks')))"

definition CleanPaymentList :: "int option \<Rightarrow> nat \<Rightarrow> CMasternodePayments \<Rightarrow> CMasternodePayments" where
  "CleanPaymentList tip nMasternodes m =
     (case tip of
        None \<Rightarrow> m
      | Some nHeight \<Rightarrow>
          let nLimit = max (int (nMasternodes * 5 div 4)) 1000;
              (votes, mblocks) = clean_loop nHeight nLimit (mapMasternodePayeeVotes m) (mapMasternodeBlocks m)
          in m\<lparr>mapMasternodePayeeVotes := votes, mapMasternodeBlocks := mblocks\<rparr>)"

definition GetOldestBlock :: "CMasternodePayments \<Rightarrow> int" where
  "GetOldestBlock m = foldl (\<lambda>n (h, _). if h < n then h else n) (2 ^ 31 - 1) (mapMasternodeBlocks m)"

definition GetNewestBlock :: "CMasternodePayments \<Rightarrow> int" where
  "GetNewestBlock m = foldl (\<lambda>n (h, _). if n < h then h else n) 0 (mapMasternodeBlocks m)"

section \<open>Paying\<close>

record payments_env =
  pe_budget :: budget_env
  pe_stable_size :: int
  pe_current_masternode :: "valtype option"
  pe_synced :: bool
  pe_initial_download :: bool
  pe_spork :: "nat \<Rightarrow> bool"

datatype pay_error = ValueOutThrows value_error | BadScript | AmountOverflow | NullPointer

text \<open>
  \<open>SubtractFromStakeReward\<close>; the inner \<open>None\<close> is the answer false, which leaves the transaction as it is.
\<close>

definition sub_value :: "nat \<Rightarrow> int \<Rightarrow> CTxOut list \<Rightarrow> CTxOut list" where
  "sub_value i n outs = outs[i := (outs ! i)\<lparr>nValue := nValue (outs ! i) - of_int n\<rparr>]"

definition SubtractFromStakeReward :: "CTransaction \<Rightarrow> nat \<Rightarrow> int \<Rightarrow> pay_error + CTransaction option" where
  "SubtractFromStakeReward tx nStakeOut nAmount =
     (if nStakeOut < 1 then Inr None
      else if length (vout tx) < 1 + nStakeOut then Inr None
      else if nAmount \<le> 0 then Inr None
      else
        (case tx_GetValueOut tx of
           Inl e \<Rightarrow> Inl (ValueOutThrows e)
         | Inr nValueOut \<Rightarrow>
             if sint nValueOut < nAmount then Inr None
             else if 1 < nStakeOut then
               (let nAmount1 = nAmount div 2; nAmount2 = nAmount - nAmount1 in
                Inr (Some (tx\<lparr>vout := sub_value 2 nAmount2 (sub_value 1 nAmount1 (vout tx))\<rparr>)))
             else Inr (Some (tx\<lparr>vout := sub_value 1 nAmount (vout tx)\<rparr>))))"

definition stake_out :: "CTransaction \<Rightarrow> nat" where
  "stake_out tx = (if 2 < length (vout tx) then 2 else 1)"

text \<open>The outputs of a proof-of-work block: two, the first loses what the second gets.\<close>

definition pay_work :: "int \<Rightarrow> byte list \<Rightarrow> CTransaction \<Rightarrow> CTransaction" where
  "pay_work n payee tx =
     (let outs = take 2 (vout tx @ replicate 2 CTxOut_SetNull);
          outs1 = outs[1 := (outs ! 1)\<lparr>scriptPubKey := payee, nValue := of_int n\<rparr>]
      in tx\<lparr>vout := sub_value 0 n outs1\<rparr>)"

definition payee_of :: "payments_env \<Rightarrow> hash_funs \<Rightarrow> CMasternodePayments \<Rightarrow> int \<Rightarrow> byte list option" where
  "payee_of P H m nTargetHeight =
     (case GetBlockPayee m nTargetHeight of
        Some payee \<Rightarrow> Some payee
      | None \<Rightarrow> map_option (\<lambda>k. GetScriptForDestination (CKeyID (CPubKey_GetID H k))) (pe_current_masternode P))"

definition mn_FillBlockPayee ::
  "payments_env \<Rightarrow> hash_funs \<Rightarrow> CMasternodePayments \<Rightarrow> bool \<Rightarrow> CBlockIndex \<Rightarrow> CTransaction \<Rightarrow> pay_error + CTransaction" where
  "mn_FillBlockPayee P H m fProofOfStake prev txNew =
     (let nTargetHeight = bi_nHeight prev + 1 in
      case payee_of P H m nTargetHeight of
        None \<Rightarrow> Inr txNew
      | Some payee \<Rightarrow>
          (case GetMasternodePayment (be_params (pe_budget P)) nTargetHeight (pe_stable_size P) (bi_nMoneySupply prev) of
             None \<Rightarrow> Inl AmountOverflow
           | Some nMasternodePayment \<Rightarrow>
               (case (if fProofOfStake then
                        (case SubtractFromStakeReward txNew (stake_out txNew) nMasternodePayment of
                           Inl e \<Rightarrow> Inl e
                         | Inr None \<Rightarrow> Inr txNew
                         | Inr (Some tx) \<Rightarrow> Inr (push_out nMasternodePayment payee tx))
                      else Inr (pay_work nMasternodePayment payee txNew)) of
                  Inl e \<Rightarrow> Inl e
                | Inr tx \<Rightarrow> (case ExtractDestination H payee of None \<Rightarrow> Inl BadScript | Some _ \<Rightarrow> Inr tx))))"

definition add_dev_fund :: "reward_params \<Rightarrow> fund_addresses \<Rightarrow> nat \<Rightarrow> int \<Rightarrow> CTransaction \<Rightarrow> pay_error + CTransaction" where
  "add_dev_fund R A nStakeOut nTargetHeight tx =
     (let nDevfundPayment = GetBlockValueDevFund R nTargetHeight in
      if nTargetHeight < GetChainHeight R H8 \<and> 0 < nDevfundPayment then
        (case SubtractFromStakeReward tx nStakeOut nDevfundPayment of
           Inl e \<Rightarrow> Inl e
         | Inr None \<Rightarrow> Inr tx
         | Inr (Some tx') \<Rightarrow> Inr (push_out nDevfundPayment (GetScriptForDestination (GetDevFundAddress A)) tx'))
      else Inr tx)"

definition add_fees :: "fund_addresses \<Rightarrow> int \<Rightarrow> CTransaction \<Rightarrow> CTransaction" where
  "add_fees A nFees tx =
     (if 100 * COIN \<le> nFees then push_out nFees (GetScriptForDestination (GetTxFeeAddress A)) tx else tx)"

definition FillBlockPayee ::
  "payments_env \<Rightarrow> hash_funs \<Rightarrow> index_heap \<Rightarrow> CMasternodePayments \<Rightarrow> CTransaction \<Rightarrow> int \<Rightarrow> bool \<Rightarrow> ptr option
    \<Rightarrow> pay_error + CTransaction" where
  "FillBlockPayee P H h m txNew nFees fProofOfStake pindexPrev =
     (case pindexPrev of
        None \<Rightarrow> Inr txNew
      | Some p \<Rightarrow>
          (case h p of
             None \<Rightarrow> Inl NullPointer
           | Some prev \<Rightarrow>
               let E = pe_budget P; nStakeOut = stake_out txNew; nTargetHeight = bi_nHeight prev + 1 in
               (case (if IsBudgetPaymentBlock E nTargetHeight
                      then (case budget_FillBlockPayee E H h fProofOfStake pindexPrev txNew of None \<Rightarrow> Inl BadScript | Some tx \<Rightarrow> Inr tx)
                      else mn_FillBlockPayee P H m fProofOfStake prev txNew) of
                  Inl e \<Rightarrow> Inl e
                | Inr tx \<Rightarrow>
                    (case add_dev_fund (be_params E) (be_addresses E) nStakeOut nTargetHeight tx of
                       Inl e \<Rightarrow> Inl e
                     | Inr tx' \<Rightarrow> Inr (add_fees (be_addresses E) nFees tx')))))"

section \<open>Checking\<close>

definition max_signatures :: "int \<Rightarrow> CMasternodePayee list \<Rightarrow> int" where
  "max_signatures required ps =
     foldl (\<lambda>n p. if n \<le> my_nVotes p \<and> required \<le> my_nVotes p then my_nVotes p else n) 0 ps"

text \<open>The search for a paid payee; the destinations of payees that are not paid are extracted for the message.\<close>

fun paid_payee_loop :: "hash_funs \<Rightarrow> int \<Rightarrow> int \<Rightarrow> CTransaction \<Rightarrow> CMasternodePayee list \<Rightarrow> bool option" where
  "paid_payee_loop H required nRequiredMasternodePayment txNew [] = Some False"
| "paid_payee_loop H required nRequiredMasternodePayment txNew (p # ps) =
     (let found = list_ex (\<lambda>out. my_scriptPubKey p = scriptPubKey out \<and> nRequiredMasternodePayment \<le> sint (nValue out)) (vout txNew) in
      if required \<le> my_nVotes p then
        if found then Some True
        else (case ExtractDestination H (my_scriptPubKey p) of
                None \<Rightarrow> None
              | Some _ \<Rightarrow> paid_payee_loop H required nRequiredMasternodePayment txNew ps)
      else paid_payee_loop H required nRequiredMasternodePayment txNew ps)"

definition payees_IsTransactionValid ::
  "payments_env \<Rightarrow> hash_funs \<Rightarrow> CBlockIndex option \<Rightarrow> CMasternodeBlockPayees \<Rightarrow> CTransaction \<Rightarrow> bool option" where
  "payees_IsTransactionValid P H tip b txNew =
     (case tip of
        None \<Rightarrow> Some False
      | Some pindexPrev \<Rightarrow>
          let R = be_params (pe_budget P);
              required = nMasternodePaymentSigRequired R;
              nMasternodeCount = pe_stable_size P + nMasternodeCountDrift R
          in (case GetMasternodePayment R (by_nBlockHeight b) nMasternodeCount (bi_nMoneySupply pindexPrev) of
                None \<Rightarrow> None
              | Some nRequiredMasternodePayment \<Rightarrow>
                  if max_signatures required (by_vecPayments b) < required then Some True
                  else (case paid_payee_loop H required nRequiredMasternodePayment txNew (by_vecPayments b) of
                          None \<Rightarrow> None
                        | Some True \<Rightarrow> Some True
                        | Some False \<Rightarrow>
                            if list_all (\<lambda>p. ExtractDestination H (my_scriptPubKey p) \<noteq> None) (by_vecPayments b)
                            then Some False else None)))"

definition mn_IsTransactionValid ::
  "payments_env \<Rightarrow> hash_funs \<Rightarrow> CBlockIndex option \<Rightarrow> CMasternodePayments \<Rightarrow> CTransaction \<Rightarrow> int \<Rightarrow> bool option" where
  "mn_IsTransactionValid P H tip m txNew nBlockHeight =
     (case map_of (mapMasternodeBlocks m) nBlockHeight of
        None \<Rightarrow> Some True
      | Some b \<Rightarrow> payees_IsTransactionValid P H tip b txNew)"

text \<open>
  A check of a payment to an address: at least \<open>nNeeded\<close>, and not nothing. A failed check refuses the block only when its
  spork is active.
\<close>

definition address_paid :: "hash_funs \<Rightarrow> CTransaction \<Rightarrow> CTxDestination \<Rightarrow> int \<Rightarrow> bool option" where
  "address_paid H txNew address nNeeded =
     map_option (\<lambda>nAmount. nAmount \<noteq> 0 \<and> nNeeded \<le> sint nAmount) (FindPayment H txNew address)"

definition enforced :: "bool \<Rightarrow> bool option \<Rightarrow> bool option" where
  "enforced spork check = map_option (\<lambda>ok. ok \<or> \<not> spork) check"

abbreviation (input) SPORK_8 :: nat where "SPORK_8 \<equiv> 10007"
abbreviation (input) SPORK_9 :: nat where "SPORK_9 \<equiv> 10008"
abbreviation (input) SPORK_17 :: nat where "SPORK_17 \<equiv> 10016"
abbreviation (input) SPORK_18 :: nat where "SPORK_18 \<equiv> 10017"

definition and_then :: "bool option \<Rightarrow> bool option \<Rightarrow> bool option" where
  "and_then a b = (case a of None \<Rightarrow> None | Some False \<Rightarrow> Some False | Some True \<Rightarrow> b)"

definition checked_tx :: "reward_params \<Rightarrow> CTransaction list \<Rightarrow> int \<Rightarrow> CTransaction option" where
  "checked_tx R vtx nBlockHeight =
     (if nLastPOWBlock R < nBlockHeight
      then (if 1 < length vtx then Some (vtx ! 1) else None)
      else (if 0 < length vtx then Some (vtx ! 0) else None))"

definition IsBlockPayeeValid ::
  "payments_env \<Rightarrow> hash_funs \<Rightarrow> index_heap \<Rightarrow> CBlockIndex option \<Rightarrow> CMasternodePayments \<Rightarrow> CBlock \<Rightarrow> int \<Rightarrow> int \<Rightarrow> ptr option
    \<Rightarrow> bool option" where
  "IsBlockPayeeValid P H h tip m block nBlockHeight nFees pindexPrev =
     (if \<not> pe_synced P then Some True
      else
        let E = pe_budget P; R = be_params E; A = be_addresses E in
        (case checked_tx R (bl_vtx block) nBlockHeight of
           None \<Rightarrow> None
         | Some txNew \<Rightarrow>
             and_then
               (if IsBudgetPaymentBlock E nBlockHeight
                then enforced (pe_spork P SPORK_9) (budget_IsTransactionValid E H h txNew nBlockHeight pindexPrev)
                else enforced (pe_spork P SPORK_8) (mn_IsTransactionValid P H tip m txNew nBlockHeight))
               (and_then
                 (if 100 * COIN \<le> nFees \<and> GetChainHeight R H4 \<le> nBlockHeight
                  then enforced (pe_spork P SPORK_17) (address_paid H txNew (GetTxFeeAddress A) nFees)
                  else Some True)
                 (if GetChainHeight R H4 \<le> nBlockHeight \<and> nBlockHeight < GetChainHeight R H8
                  then enforced (pe_spork P SPORK_18) (address_paid H txNew (GetDevFundAddress A) (GetBlockValueDevFund R nBlockHeight))
                  else Some True))))"

definition IsBlockValueValid ::
  "payments_env \<Rightarrow> index_heap \<Rightarrow> int \<Rightarrow> int \<Rightarrow> int \<Rightarrow> ptr option \<Rightarrow> bool option" where
  "IsBlockValueValid P h nHeight nExpectedValue nMinted pindexPrev =
     (let E = pe_budget P; R = be_params E; cycle = GetBudgetPaymentCycleBlocks R;
          extraCoin = (if extra_coins R nHeight then 4500000 * COIN else 0)
      in if nHeight \<le> 0 then Some False
         else if fTestNet R \<and> nHeight \<in> {10800, 11040, 11041} then Some True
         else if GetChainHeight R H9 \<le> nHeight then
           (if 0 = nHeight smod cycle
            then Some (nMinted \<le> nExpectedValue + GetTotalBudget R nHeight + GetTotalDevFund R nHeight + extraCoin)
            else Some (nMinted \<le> nExpectedValue))
         else if GetChainHeight R H8 \<le> nHeight then
           (if 0 = nHeight smod cycle then Some (nMinted \<le> nExpectedValue + GetTotalBudget R nHeight)
            else Some (nMinted \<le> nExpectedValue))
         else if \<not> pe_synced P \<or> pe_initial_download P then
           (if nHeight smod cycle < nMaxSuperBlocksPerCycle R then Some (nMinted \<le> nExpectedValue + GetTotalBudget R nHeight)
            else Some (nMinted \<le> nExpectedValue))
         else if IsBudgetPaymentBlock E nHeight then
           map_option (\<lambda>n. nMinted \<le> nExpectedValue + n) (GetBudgetValue E h nHeight pindexPrev)
         else Some (nMinted \<le> nExpectedValue))"

end
