(* ===== verification/PaymentsProps.thy ===== *)
theory PaymentsProps
  imports Payments RewardsProps
begin

text \<open>
  The votes for payees are those recorded, the winner has most of them; what filling a block adds and moves, and that the
  checks find it.
\<close>

section \<open>Votes\<close>

definition votes_for :: "CMasternodePayments \<Rightarrow> int \<Rightarrow> byte list \<Rightarrow> int" where
  "votes_for m h s = int (length (filter (\<lambda>(_, w). pw_nBlockHeight w = h \<and> pw_payee w = s) (mapMasternodePayeeVotes m)))"

definition tally :: "CMasternodePayee list \<Rightarrow> byte list \<Rightarrow> int" where
  "tally ps s = (\<Sum>p\<leftarrow>ps. if my_scriptPubKey p = s then my_nVotes p else 0)"

definition block_tally :: "CMasternodePayments \<Rightarrow> int \<Rightarrow> byte list \<Rightarrow> int" where
  "block_tally m h s = (case map_of (mapMasternodeBlocks m) h of None \<Rightarrow> 0 | Some b \<Rightarrow> tally (by_vecPayments b) s)"

definition block_ok :: "int \<Rightarrow> CMasternodeBlockPayees \<Rightarrow> bool" where
  "block_ok h b \<longleftrightarrow> by_nBlockHeight b = h \<and> distinct (map my_scriptPubKey (by_vecPayments b)) \<and> (\<forall>p \<in> set (by_vecPayments b). 1 \<le> my_nVotes p)"

definition payments_ok :: "CMasternodePayments \<Rightarrow> bool" where
  "payments_ok m \<longleftrightarrow>
     (\<forall>h b. map_of (mapMasternodeBlocks m) h = Some b \<longrightarrow> block_ok h b) \<and>
     (\<forall>h s. block_tally m h s = votes_for m h s)"

lemma tally_simps [simp]:
  "tally [] s = 0"
  "tally (p # ps) s = (if my_scriptPubKey p = s then my_nVotes p else 0) + tally ps s"
  "tally (ps @ qs) s = tally ps s + tally qs s"
  by (simp_all add: tally_def)

lemma tally_absent: "s \<notin> my_scriptPubKey ` set ps \<Longrightarrow> tally ps s = 0"
  by (induction ps) auto

lemma tally_member:
  assumes "distinct (map my_scriptPubKey ps)" and "p \<in> set ps"
  shows "tally ps (my_scriptPubKey p) = my_nVotes p"
  using assms by (induction ps) (auto simp: tally_absent image_iff)

lemma add_payee_loop:
  "add_payee_loop s n ps = None \<Longrightarrow> s \<notin> my_scriptPubKey ` set ps"
  "add_payee_loop s n ps = Some qs \<Longrightarrow>
     map my_scriptPubKey qs = map my_scriptPubKey ps \<and> tally qs s' = tally ps s' + (if s' = s then n else 0) \<and>
     (0 \<le> n \<longrightarrow> (\<forall>p \<in> set ps. 1 \<le> my_nVotes p) \<longrightarrow> (\<forall>p \<in> set qs. 1 \<le> my_nVotes p))"
  by (induction ps arbitrary: qs) (auto split: if_splits)

lemma AddPayee_ok:
  assumes "block_ok h b" and "1 \<le> n"
  shows "block_ok h (AddPayee s n b)"
    and "tally (by_vecPayments (AddPayee s n b)) s' = tally (by_vecPayments b) s' + (if s' = s then n else 0)"
proof -
  have *: "block_ok h (AddPayee s n b) \<and>
    tally (by_vecPayments (AddPayee s n b)) s' = tally (by_vecPayments b) s' + (if s' = s then n else 0)"
  proof (cases "add_payee_loop s n (by_vecPayments b)")
    case None
    then show ?thesis
      using assms add_payee_loop(1) [OF None] by (auto simp: AddPayee_def block_ok_def)
  next
    case (Some qs)
    then show ?thesis
      using assms add_payee_loop(2) [OF Some, of s'] by (simp add: AddPayee_def block_ok_def)
  qed
  then show "block_ok h (AddPayee s n b)"
    "tally (by_vecPayments (AddPayee s n b)) s' = tally (by_vecPayments b) s' + (if s' = s then n else 0)"
    by blast+
qed

lemma update_fresh: "map_of m k = None \<Longrightarrow> AList.update k v m = m @ [(k, v)]"
  by (induction m) (auto split: if_splits)

lemma AddWinningMasternode_ok:
  assumes "payments_ok m" and "AddWinningMasternode H G w m = (ok, m')"
  shows "payments_ok m'"
proof (cases "G (pw_nBlockHeight w - 100) = None \<or> map_of (mapMasternodePayeeVotes m) (winner_GetHash H w) \<noteq> None")
  case True
  then have "m' = m"
    using assms(2) by (auto simp: AddWinningMasternode_def split: if_splits)
  then show ?thesis
    using assms(1) by simp
next
  case False
  let ?h = "pw_nBlockHeight w" and ?s = "pw_payee w"
  define b where "b = (case map_of (mapMasternodeBlocks m) ?h of
    None \<Rightarrow> \<lparr>by_nBlockHeight = ?h, by_vecPayments = []\<rparr> | Some b \<Rightarrow> b)"
  have b: "block_ok ?h b"
    using assms(1) by (auto simp: b_def payments_ok_def block_ok_def split: option.splits)
  have b_tally: "tally (by_vecPayments b) s = block_tally m ?h s" for s
    by (simp add: b_def block_tally_def split: option.splits)
  have votes: "mapMasternodePayeeVotes m' = mapMasternodePayeeVotes m @ [(winner_GetHash H w, w)]"
    and mblocks: "map_of (mapMasternodeBlocks m') h =
      (if h = ?h then Some (AddPayee ?s 1 b) else map_of (mapMasternodeBlocks m) h)" for h
    using False assms(2) by (auto simp: AddWinningMasternode_def b_def update_fresh update_conv' Let_def map_add_def split: option.splits if_splits)
  have "votes_for m' h s = votes_for m h s + (if h = ?h \<and> s = ?s then 1 else 0)" for h s
    by (simp add: votes_for_def votes)
  moreover have "block_tally m' h s = block_tally m h s + (if h = ?h \<and> s = ?s then 1 else 0)" for h s
    using AddPayee_ok(2) [OF b, of 1 ?s s] b_tally by (auto simp: block_tally_def mblocks)
  moreover have "block_ok h c" if "map_of (mapMasternodeBlocks m') h = Some c" for h c
    using that AddPayee_ok(1) [OF b] assms(1) by (auto simp: mblocks payments_ok_def split: if_splits)
  ultimately show ?thesis
    using assms(1) by (simp add: payments_ok_def)
qed

lemma clean_loop:
  assumes "clean_loop n age ws bs = (ws', bs')"
  shows "ws' = filter (\<lambda>(_, w). n - pw_nBlockHeight w \<le> age) ws"
    and "map_of bs' h = (if \<exists>w \<in> snd ` set ws. pw_nBlockHeight w = h \<and> age < n - h then None else map_of bs h)"
proof -
  have "ws' = filter (\<lambda>(_, w). n - pw_nBlockHeight w \<le> age) ws \<and>
    map_of bs' h = (if \<exists>w \<in> snd ` set ws. pw_nBlockHeight w = h \<and> age < n - h then None else map_of bs h)"
    using assms
  proof (induction n age ws bs arbitrary: ws' bs' rule: clean_loop.induct)
    case (2 n age k w ws bs)
    show ?case
    proof (cases "age < n - pw_nBlockHeight w")
      case True
      then show ?thesis
        using "2.IH"(1) [OF True] "2.prems" by (auto simp: delete_conv')
    next
      case False
      then obtain ws'' where "clean_loop n age ws bs = (ws'', bs')" "ws' = (k, w) # ws''"
        using "2.prems" by (auto split: prod.splits)
      then show ?thesis
        using "2.IH"(2) [OF False] False by (auto simp del: ex_simps)
    qed
  qed simp
  then show "ws' = filter (\<lambda>(_, w). n - pw_nBlockHeight w \<le> age) ws"
    "map_of bs' h = (if \<exists>w \<in> snd ` set ws. pw_nBlockHeight w = h \<and> age < n - h then None else map_of bs h)"
    by blast+
qed

lemma CleanPaymentList_ok:
  assumes "payments_ok m"
  shows "payments_ok (CleanPaymentList tip k m)"
proof (cases tip)
  case (Some n)
  define age where "age = max (int (k * 5 div 4)) 1000"
  obtain ws bs where loop: "clean_loop n age (mapMasternodePayeeVotes m) (mapMasternodeBlocks m) = (ws, bs)"
    by fastforce
  note loop' = clean_loop [OF loop]
  have m': "CleanPaymentList tip k m = m\<lparr>mapMasternodePayeeVotes := ws, mapMasternodeBlocks := bs\<rparr>"
    using loop by (simp add: CleanPaymentList_def Some Let_def age_def)
  have votes: "votes_for (CleanPaymentList tip k m) h s = (if age < n - h then 0 else votes_for m h s)" for h s
    using loop'(1) by (auto simp: m' votes_for_def filter_empty_conv intro!: arg_cong [where f = length] filter_cong)
  have tally: "block_tally (CleanPaymentList tip k m) h s = (if age < n - h then 0 else votes_for m h s)" for h s
  proof (cases "\<exists>w \<in> snd ` set (mapMasternodePayeeVotes m). pw_nBlockHeight w = h \<and> age < n - h")
    case True
    then show ?thesis
      using loop'(1) loop'(2) [of h] by (auto simp: m' block_tally_def)
  next
    case False
    then have "age < n - h \<Longrightarrow> votes_for m h s = 0"
      by (auto simp: votes_for_def filter_empty_conv)
    moreover have "block_tally (CleanPaymentList tip k m) h s = block_tally m h s"
      using loop'(1) loop'(2) [of h] False by (auto simp: m' block_tally_def)
    ultimately show ?thesis
      using assms by (simp add: payments_ok_def)
  qed
  have "block_ok h b" if "map_of (mapMasternodeBlocks (CleanPaymentList tip k m)) h = Some b" for h b
    using that loop'(1) loop'(2) [of h] assms by (auto simp: m' payments_ok_def split: if_splits)
  then show ?thesis
    by (simp add: payments_ok_def votes tally)
qed (use assms in \<open>simp add: CleanPaymentList_def\<close>)

text \<open>The states the operations reach.\<close>

inductive reachable_payments :: "hash_funs \<Rightarrow> CMasternodePayments \<Rightarrow> bool" for H where
  init: "reachable_payments H CMasternodePayments_init"
| add: "reachable_payments H m \<Longrightarrow> AddWinningMasternode H G w m = (ok, m') \<Longrightarrow> reachable_payments H m'"
| clean: "reachable_payments H m \<Longrightarrow> reachable_payments H (CleanPaymentList tip n m)"
| clear: "reachable_payments H m \<Longrightarrow> reachable_payments H (payments_Clear m)"
| vote: "reachable_payments H m \<Longrightarrow> CanVote m out h = (ok, m') \<Longrightarrow> reachable_payments H m'"

lemma reachable_payments_ok: "reachable_payments H m \<Longrightarrow> payments_ok m"
proof (induction rule: reachable_payments.induct)
  case init
  then show ?case
    by (simp add: payments_ok_def CMasternodePayments_init_def block_tally_def votes_for_def)
next
  case (vote m out h ok m')
  then have "mapMasternodePayeeVotes m' = mapMasternodePayeeVotes m" "mapMasternodeBlocks m' = mapMasternodeBlocks m"
    by (auto simp: CanVote_def Let_def split: if_splits)
  then show ?case
    using vote.IH by (simp add: payments_ok_def block_tally_def votes_for_def)
next
  case (clear m)
  then show ?case
    by (simp add: payments_ok_def payments_Clear_def block_tally_def votes_for_def)
qed (auto intro: AddWinningMasternode_ok CleanPaymentList_ok)

section \<open>The payee with most votes\<close>

lemma get_payee_loop:
  assumes "get_payee_loop ps n pay = r"
  shows "(r = pay \<and> (\<forall>p \<in> set ps. my_nVotes p \<le> n)) \<or>
    (\<exists>p \<in> set ps. r = Some (my_scriptPubKey p) \<and> n < my_nVotes p \<and> (\<forall>q \<in> set ps. my_nVotes q \<le> my_nVotes p))"
  using assms
proof (induction ps n pay rule: get_payee_loop.induct)
  case (2 p ps n pay)
  then show ?case
    by (cases "n < my_nVotes p") force+
qed simp

lemma GetPayee_Some:
  assumes "GetPayee b = Some s"
  shows "\<exists>p \<in> set (by_vecPayments b). s = my_scriptPubKey p \<and> 0 \<le> my_nVotes p \<and> (\<forall>q \<in> set (by_vecPayments b). my_nVotes q \<le> my_nVotes p)"
  using get_payee_loop [of "by_vecPayments b" "- 1" None "Some s"] assms by (force simp: GetPayee_def)

lemma block_payee_most_votes:
  assumes "payments_ok m" and "GetBlockPayee m h = Some s"
  shows "0 < votes_for m h s" and "votes_for m h s' \<le> votes_for m h s"
proof -
  obtain b where b: "map_of (mapMasternodeBlocks m) h = Some b" "GetPayee b = Some s"
    using assms(2) by (auto simp: GetBlockPayee_def split: option.splits)
  have ok: "block_ok h b" and "block_tally m h t = votes_for m h t" for t
    using assms(1) b(1) by (auto simp: payments_ok_def)
  then have votes: "tally (by_vecPayments b) t = votes_for m h t" for t
    by (simp add: block_tally_def b(1))
  obtain p where p: "p \<in> set (by_vecPayments b)" "s = my_scriptPubKey p" "\<forall>q \<in> set (by_vecPayments b). my_nVotes q \<le> my_nVotes p"
    using GetPayee_Some [OF b(2)] by blast
  have dist: "distinct (map my_scriptPubKey (by_vecPayments b))" and pos: "1 \<le> my_nVotes p"
    using ok p(1) by (auto simp: block_ok_def)
  have s: "votes_for m h s = my_nVotes p"
    using tally_member [OF dist p(1)] votes p(2) by metis
  show "0 < votes_for m h s"
    using s pos by simp
  show "votes_for m h s' \<le> votes_for m h s"
  proof (cases "s' \<in> my_scriptPubKey ` set (by_vecPayments b)")
    case True
    then obtain q where "q \<in> set (by_vecPayments b)" "s' = my_scriptPubKey q"
      by blast
    then show ?thesis
      using tally_member [OF dist] votes p(3) s by metis
  next
    case False
    then show ?thesis
      using tally_absent [OF False] votes s pos by simp
  qed
qed

end
