(* ===== verification/FillProps.thy ===== *)
theory FillProps
  imports PaymentsProps StandardProps
begin

text \<open>
  Filling a block moves value from the stake to the masternode and the developer fund and adds what the budget and the
  fees pay; the checks find each payment.
\<close>

section \<open>Sums of values\<close>

lemma sum_values_simps [simp]:
  "sum_values [] = 0"
  "sum_values (out # outs) = sint (nValue out) + sum_values outs"
  "sum_values (xs @ ys) = sum_values xs + sum_values ys"
  by (simp_all add: sum_values_def)

lemma sum_values_nonneg: "(\<And>out. out \<in> set outs \<Longrightarrow> 0 \<le> sint (nValue out)) \<Longrightarrow> 0 \<le> sum_values outs"
  unfolding sum_values_def by (intro sum_list_nonneg) auto

lemma sum_values_update:
  "i < length outs \<Longrightarrow> sum_values (outs[i := out]) = sum_values outs - sint (nValue (outs ! i)) + sint (nValue out)"
  by (induction outs arbitrary: i) (auto split: nat.split)

lemma sum_values_member:
  assumes "\<And>out. out \<in> set outs \<Longrightarrow> 0 \<le> sint (nValue out)" and "out \<in> set outs"
  shows "sint (nValue out) \<le> sum_values outs"
proof -
  obtain xs ys where "outs = xs @ out # ys"
    using assms(2) by (meson split_list)
  moreover have "0 \<le> sum_values xs" "0 \<le> sum_values ys"
    using assms(1) calculation by (auto intro: sum_values_nonneg)
  ultimately show ?thesis
    by simp
qed

definition good_outs :: "CTxOut list \<Rightarrow> bool" where
  "good_outs outs \<longleftrightarrow> (\<forall>out \<in> set outs. 0 \<le> sint (nValue out)) \<and> sum_values outs < 2 ^ 63"

lemma GetValueOut_Inr:
  assumes "tx_GetValueOut tx = Inr v"
  shows "good_outs (vout tx)" and "sint v = sum_values (vout tx)"
  using value_out_loop_spec [of 0 "vout tx"] assms
  by (auto simp: tx_GetValueOut_def good_outs_def list_all_iff split: if_splits)

lemma sint_of_int64': "- (2 ^ 63) \<le> n \<Longrightarrow> n < 2 ^ 63 \<Longrightarrow> sint (of_int n :: 64 word) = n"
  by (rule sint_of_int64) simp_all

lemma sint_minus_amount:
  assumes "0 \<le> sint (v :: 64 word)" and "0 \<le> n" and "n < 2 ^ 63"
  shows "sint (v - of_int n) = sint v - n"
proof -
  have "v - of_int n = word_of_int (sint v - n)"
    by (simp add: wi_hom_sub [symmetric])
  then show ?thesis
    using assms sint_bounds_64(2) [of v] by (simp only:) (subst sint_of_int64, simp_all)
qed

section \<open>Taking from the stake\<close>

lemma sub_value:
  assumes "i < length outs" and "0 \<le> sint (nValue (outs ! i))" and "0 \<le> n" and "n < 2 ^ 63"
  shows "sum_values (sub_value i n outs) = sum_values outs - n"
    and "length (sub_value i n outs) = length outs"
    and "map scriptPubKey (sub_value i n outs) = map scriptPubKey outs"
  using assms by (simp_all add: sub_value_def sum_values_update sint_minus_amount map_update list_update_same_conv)

lemma sub_value_append: "i < length xs \<Longrightarrow> sub_value i n (xs @ ys) = sub_value i n xs @ ys"
  by (simp add: sub_value_def nth_append list_update_append1)

lemma sub_value_nth: "i \<noteq> j \<Longrightarrow> sub_value i n outs ! j = outs ! j"
  by (simp add: sub_value_def)

text \<open>What a successful subtraction does, with outputs behind those of the stake left alone.\<close>

lemma SubtractFromStakeReward_Some:
  assumes "SubtractFromStakeReward tx k n = Inr (Some tx')" and "vout tx = xs @ ys" and "k < length xs" and "k \<le> 2"
  shows "\<exists>xs'. tx' = tx\<lparr>vout := xs' @ ys\<rparr> \<and> length xs' = length xs \<and> sum_values xs' = sum_values xs - n \<and>
    map scriptPubKey xs' = map scriptPubKey xs \<and> 0 < n \<and> n < 2 ^ 63"
proof -
  obtain v where v: "tx_GetValueOut tx = Inr v" "n \<le> sint v" and n: "0 < n" and k: "1 \<le> k"
    using assms(1) by (auto simp: SubtractFromStakeReward_def split: if_splits sum.splits)
  have n': "n < 2 ^ 63"
    using v(2) sint_bounds_64(2) [of v] by linarith
  have nonneg: "0 \<le> sint (nValue (xs ! i))" if "i < length xs" for i
    using GetValueOut_Inr(1) [OF v(1)] that by (simp add: good_outs_def assms(2))
  show ?thesis
  proof (cases "k = 2")
    case True
    define ys1 where "ys1 = sub_value 1 (n div 2) xs"
    have 1: "sum_values ys1 = sum_values xs - n div 2" "length ys1 = length xs" "map scriptPubKey ys1 = map scriptPubKey xs"
      unfolding ys1_def using nonneg [of 1] True assms(3) n n' by (intro sub_value; simp)+
    have "ys1 ! 2 = xs ! 2"
      unfolding ys1_def by (simp add: sub_value_nth)
    then have 2: "sum_values (sub_value 2 (n - n div 2) ys1) = sum_values ys1 - (n - n div 2)"
      "length (sub_value 2 (n - n div 2) ys1) = length ys1" "map scriptPubKey (sub_value 2 (n - n div 2) ys1) = map scriptPubKey ys1"
      using nonneg [of 2] True assms(3) n n' 1(2) by (intro sub_value; simp)+
    have "tx' = tx\<lparr>vout := sub_value 2 (n - n div 2) ys1 @ ys\<rparr>"
      using assms(1) v n True assms(2,3) 1(2)
      by (auto simp: SubtractFromStakeReward_def sub_value_append ys1_def Let_def split: if_splits)
    then show ?thesis
      using 1 2 n n' by auto
  next
    case False
    then have k1: "k = 1"
      using k assms(4) by simp
    have 1: "sum_values (sub_value 1 n xs) = sum_values xs - n" "length (sub_value 1 n xs) = length xs"
      "map scriptPubKey (sub_value 1 n xs) = map scriptPubKey xs"
      using nonneg [of 1] k1 assms(3) n n' by (intro sub_value; simp)+
    have "tx' = tx\<lparr>vout := sub_value 1 n xs @ ys\<rparr>"
      using assms(1) v n k1 assms(2,3) by (auto simp: SubtractFromStakeReward_def sub_value_append split: if_splits)
    then show ?thesis
      using 1 n n' by auto
  qed
qed

lemma SubtractFromStakeReward_None:
  assumes "SubtractFromStakeReward tx k n = Inr None" and "1 \<le> k" and "k < length (vout tx)" and "0 < n"
  shows "sum_values (vout tx) < n"
  using assms GetValueOut_Inr(2) [of tx] by (auto simp: SubtractFromStakeReward_def Let_def split: if_splits sum.splits)

lemma push_out [simp]: "vout (push_out n s tx) = vout tx @ [mkTxOut (of_int n) s]"
  by (simp add: push_out_def)

lemma mkTxOut_sel [simp]: "nValue (mkTxOut v s) = v" "scriptPubKey (mkTxOut v s) = s"
  by (simp_all add: mkTxOut_def)

section \<open>Finding payments\<close>

lemma find_script:
  assumes "\<forall>out \<in> set outs. 0 \<le> sint (nValue out)" and "0 \<le> sint acc" and "sint acc + sum_values outs < 2 ^ 63"
  shows "sint (foldl (\<lambda>nAmount out. if scriptPubKey out = s then nAmount + nValue out else nAmount) acc outs) =
    sint acc + sum_values (filter (\<lambda>out. scriptPubKey out = s) outs)"
  using assms
proof (induction outs arbitrary: acc)
  case (Cons out outs)
  have rest: "0 \<le> sum_values outs"
    using Cons.prems(1) by (intro sum_values_nonneg) simp
  have "sint (acc + nValue out) = sint acc + sint (nValue out)"
    using Cons.prems rest by (intro sint_add_nonneg(2)) auto
  then show ?case
    using Cons.IH [of acc] Cons.IH [of "acc + nValue out"] Cons.prems by auto
qed simp

lemma sum_values_filter:
  assumes "\<forall>out \<in> set outs. 0 \<le> sint (nValue out)"
  shows "0 \<le> sum_values (filter P outs)" and "out \<in> set outs \<Longrightarrow> P out \<Longrightarrow> sint (nValue out) \<le> sum_values (filter P outs)"
  using assms by (auto intro: sum_values_nonneg sum_values_member)

lemma FindPayment_script_ge:
  assumes "good_outs (vout tx)"
  shows "0 \<le> sint (FindPayment_script tx s)"
    and "out \<in> set (vout tx) \<Longrightarrow> scriptPubKey out = s \<Longrightarrow> sint (nValue out) \<le> sint (FindPayment_script tx s)"
  using find_script [of "vout tx" 0 s] sum_values_filter [of "vout tx"] assms
  by (auto simp: good_outs_def FindPayment_script_def)

definition scripts_ok :: "hash_funs \<Rightarrow> CTxOut list \<Rightarrow> bool" where
  "scripts_ok H outs \<longleftrightarrow> (\<forall>out \<in> set outs. ExtractDestination H (scriptPubKey out) \<noteq> None)"

lemma find_payment_loop:
  assumes "\<forall>out \<in> set outs. 0 \<le> sint (nValue out)" and "0 \<le> sint acc" and "sint acc + sum_values outs < 2 ^ 63" and "scripts_ok H outs"
  shows "\<exists>v. find_payment_loop H a outs acc = Some v \<and> sint acc \<le> sint v \<and>
    (\<forall>out \<in> set outs. ExtractDestination H (scriptPubKey out) = Some (Some a) \<longrightarrow> sint (nValue out) \<le> sint v)"
  using assms
proof (induction outs arbitrary: acc)
  case (Cons out outs)
  obtain d where d: "ExtractDestination H (scriptPubKey out) = Some d"
    using Cons.prems(4) by (auto simp: scripts_ok_def)
  have rest: "0 \<le> sum_values outs" and ok: "scripts_ok H outs"
    using Cons.prems(1,4) by (auto intro: sum_values_nonneg simp: scripts_ok_def)
  have sum: "sint (acc + nValue out) = sint acc + sint (nValue out)"
    using Cons.prems rest by (intro sint_add_nonneg(2)) auto
  show ?case
  proof (cases "(case d of None \<Rightarrow> CNoDestination | Some a \<Rightarrow> a) = a")
    case True
    then show ?thesis
      using Cons.IH [of "acc + nValue out"] Cons.prems ok sum d by (auto simp: scripts_ok_def)
  next
    case False
    then have "d \<noteq> Some a"
      by auto
    then show ?thesis
      using False Cons.IH [of acc] Cons.prems ok d by auto
  qed
qed simp

lemma address_paid_True:
  assumes "good_outs (vout tx)" and "scripts_ok H (vout tx)" and "length (dest_hash a) = 20"
    and "mkTxOut (of_int n) (GetScriptForDestination a) \<in> set (vout tx)" and "0 < n" and "n < 2 ^ 63" and "k \<le> n"
  shows "address_paid H tx a k = Some True"
proof -
  obtain v where v: "FindPayment H tx a = Some v" "n \<le> sint v"
    using find_payment_loop [of "vout tx" 0 H a] assms ExtractDestination_script [OF assms(3), of H]
    by (force simp: good_outs_def FindPayment_def sint_of_int64')
  then show ?thesis
    using assms(5,7) by (auto simp: address_paid_def)
qed

section \<open>The sum of the outputs of a filled block\<close>

lemma SubtractFromStakeReward_sum:
  assumes "SubtractFromStakeReward tx k n = Inr (Some tx')" and "k \<le> 2"
  shows "sum_values (vout tx') + n = sum_values (vout tx) \<and> 0 < n \<and> n < 2 ^ 63"
proof -
  have "k < length (vout tx)"
    using assms(1) by (auto simp: SubtractFromStakeReward_def split: if_splits)
  then show ?thesis
    using SubtractFromStakeReward_Some [OF assms(1), of "vout tx" "[]"] assms(2) by auto
qed

lemma stake_out_le: "1 \<le> stake_out tx" "stake_out tx \<le> 2"
  by (simp_all add: stake_out_def)

text \<open>What is taken from the stake and paid leaves the sum as it is.\<close>

lemma push_moved:
  assumes "SubtractFromStakeReward tx k n = Inr (Some t)" and "k \<le> 2"
  shows "sum_values (vout (push_out n s t)) = sum_values (vout tx)"
  using SubtractFromStakeReward_sum [OF assms] by (simp add: sint_of_int64')

lemma mn_fill_sum:
  assumes "mn_FillBlockPayee P H m True prev tx = Inr tx'"
  shows "sum_values (vout tx') = sum_values (vout tx)"
  using assms push_moved [OF _ stake_out_le(2)]
  by (auto simp: mn_FillBlockPayee_def Let_def simp del: push_out split: option.splits sum.splits if_splits)

lemma add_dev_fund_sum:
  assumes "add_dev_fund R A k n tx = Inr tx'" and "k \<le> 2"
  shows "sum_values (vout tx') = sum_values (vout tx)"
proof -
  consider "tx' = tx" | t where "SubtractFromStakeReward tx k (GetBlockValueDevFund R n) = Inr (Some t)"
      "tx' = push_out (GetBlockValueDevFund R n) (GetScriptForDestination (GetDevFundAddress A)) t"
    using assms(1) by (auto simp: add_dev_fund_def Let_def split: if_splits sum.splits option.splits)
  then show ?thesis
  proof cases
    case 2
    then show ?thesis
      using push_moved [OF 2(1) assms(2)] by simp
  qed simp
qed

lemma add_fees_sum:
  "nFees < 2 ^ 63 \<Longrightarrow> sum_values (vout (add_fees A nFees tx)) = sum_values (vout tx) + (if 100 * COIN \<le> nFees then nFees else 0)"
  by (simp add: add_fees_def sint_of_int64')

definition amounts_ok :: "budget_env \<Rightarrow> bool" where
  "amounts_ok E \<longleftrightarrow> (\<forall>(k, b) \<in> set (be_finalized E). \<forall>p \<in> set (fb_vecBudgetPayments b). 0 \<le> bp_nAmount p \<and> bp_nAmount p < 2 ^ 62)"

lemma grab_amount:
  assumes "\<forall>(k, b) \<in> set bs. \<forall>p \<in> set (fb_vecBudgetPayments b). 0 \<le> bp_nAmount p \<and> bp_nAmount p < 2 ^ 62"
    and "0 \<le> snd pay \<and> snd pay < 2 ^ 62" and "grab_loop bs t n pay = (n', s, a)"
  shows "0 \<le> a \<and> a < 2 ^ 62"
  using assms
proof (induction bs t n pay rule: grab_loop.induct)
  case (2 k b bs t n pay)
  show ?case
  proof (cases "GetPayeeAndAmount b t")
    case None
    then show ?thesis
      using 2 by (auto split: if_splits)
  next
    case (Some pay')
    then have "\<exists>p \<in> set (fb_vecBudgetPayments b). snd pay' = bp_nAmount p"
      by (auto simp: GetPayeeAndAmount_def Let_def split: if_splits)
    then show ?thesis
      using 2 Some by (auto split: if_splits)
  qed
qed simp

lemma GrabHighestCount_amount:
  assumes "amounts_ok E" and "0 \<le> snd pay \<and> snd pay < 2 ^ 62" and "GrabHighestCount E t pay = (n', s, a)"
  shows "0 \<le> a \<and> a < 2 ^ 62"
  using grab_amount assms unfolding amounts_ok_def GrabHighestCount_def by blast

lemma find_payments_amounts:
  assumes "amounts_ok E" and "0 \<le> snd pay \<and> snd pay < 2 ^ 62" and "(s, a) \<in> set (find_payments_loop E n t pay)"
  shows "0 \<le> a \<and> a < 2 ^ 62"
  using assms(2,3)
proof (induction n arbitrary: t pay)
  case (Suc n)
  obtain c s' a' where g: "GrabHighestCount E t pay = (c, s', a')"
    by (metis prod_cases3)
  then show ?case
    using Suc.prems GrabHighestCount_amount [OF assms(1) Suc.prems(1) g] Suc.IH [of "(s', a')" "t + 1"] by (auto split: if_splits)
qed simp

lemma FindBudgetPayments_amounts: "amounts_ok E \<Longrightarrow> (s, a) \<in> set (FindBudgetPayments E t) \<Longrightarrow> 0 \<le> a \<and> a < 2 ^ 62"
  by (rule find_payments_amounts [where pay = "([], 0)"]) (simp_all add: FindBudgetPayments_def)

text \<open>The payments that are added, and that they are found again.\<close>

lemma add_payments:
  assumes "add_payments H tot ps paid tx = Some (paid', tx')" and "\<forall>p \<in> set ps. 0 \<le> snd p \<and> snd p < 2 ^ 62"
  shows "(\<exists>ys. vout tx' = vout tx @ ys) \<and> sum_values (vout tx') = sum_values (vout tx) + (paid' - paid) \<and> (paid \<le> tot \<longrightarrow> paid' \<le> tot) \<and>
    (\<forall>t. good_outs (vout t) \<longrightarrow> set (vout tx') \<subseteq> set (vout t) \<longrightarrow> check_payments tot t ps paid = Some paid')"
  using assms
proof (induction H tot ps paid tx rule: add_payments.induct)
  case (2 H tot payee a ps paid tx)
  have a: "0 \<le> a" "a < 2 ^ 62"
    using "2.prems"(2) by simp_all
  show ?case
  proof (cases "paid + a \<le> tot")
    case False
    then show ?thesis
      using "2.IH"(2) [OF False] "2.prems" by simp
  next
    case True
    then obtain d where d: "ExtractDestination H payee = Some d"
      and rest: "add_payments H tot ps (paid + a) (push_out a payee tx) = Some (paid', tx')"
      using "2.prems"(1) by (auto split: option.splits)
    note IH = "2.IH"(1) [OF True d rest] 
    obtain ys where ys: "vout tx' = vout (push_out a payee tx) @ ys"
      using IH "2.prems"(2) by auto
    have "\<not> sint (FindPayment_script t payee) < a" if "good_outs (vout t)" "set (vout tx') \<subseteq> set (vout t)" for t
      using FindPayment_script_ge(2) [OF that(1), of "mkTxOut (of_int a) payee" payee] that(2) a by (simp add: ys sint_of_int64')
    moreover have "sum_values (vout (push_out a payee tx)) = sum_values (vout tx) + a"
      using a by (simp add: sint_of_int64')
    ultimately show ?thesis
      using IH "2.prems"(2) True a by auto
  qed
qed simp

lemma add_payments_nonneg:
  assumes "add_payments H tot ps paid tx = Some (paid', tx')" and "\<forall>p \<in> set ps. 0 \<le> snd p" and "0 \<le> paid"
  shows "0 \<le> paid'"
  using assms by (induction H tot ps paid tx rule: add_payments.induct) (auto split: if_splits option.splits)

section \<open>Superblocks\<close>

lemma cycle_blocks:
  assumes "network R"
  shows "0 < GetBudgetPaymentCycleBlocks R \<and> GetBudgetPaymentCycleBlocks R \<le> 43200"
  using assms by (auto simp: network_def mainParams_def testNetParams_def GetBudgetPaymentCycleBlocks_def signed_divide_int_def)

lemma totals:
  assumes "network R"
  shows "0 \<le> GetTotalBudget R h" and "GetTotalBudget R h < 2 ^ 62" and "0 \<le> GetTotalDevFund R h" and "GetTotalDevFund R h < 2 ^ 62"
proof -
  note net = network_simps [OF assms]
  have budget: "0 \<le> GetBlockValueBudget R h" "GetBlockValueBudget R h \<le> 15000000000"
    and fund: "0 \<le> GetBlockValueDevFund R h" "GetBlockValueDevFund R h \<le> 15000000000"
    using net by (auto simp: value_defs)
  have "0 \<le> x * GetBudgetPaymentCycleBlocks R \<and> x * GetBudgetPaymentCycleBlocks R \<le> 15000000000 * 43200"
    if "0 \<le> x" "x \<le> 15000000000" for x
    using that cycle_blocks [OF assms] mult_mono [of x 15000000000 "GetBudgetPaymentCycleBlocks R" 43200] by auto
  from this [OF budget] this [OF fund]
  show "0 \<le> GetTotalBudget R h" "GetTotalBudget R h < 2 ^ 62" "0 \<le> GetTotalDevFund R h" "GetTotalDevFund R h < 2 ^ 62"
    by (simp_all add: GetTotalBudget_def GetTotalDevFund_def)
qed

text \<open>What the single superblock adds beside the budget.\<close>

definition fund_outs :: "reward_params \<Rightarrow> int \<Rightarrow> int" where
  "fund_outs R h = (if GetChainHeight R H9 \<le> h then GetTotalDevFund R h else 0) + (if extra_coins R h then 4500000 * COIN else 0)"

lemma fill_single:
  assumes "network (be_params E)" and "amounts_ok E" and "fill_single E H n tx = Some tx'"
  shows "\<exists>ys. vout tx' = vout tx @ ys"
    and "sum_values (vout tx') = sum_values (vout tx) + GetTotalBudget (be_params E) n + fund_outs (be_params E) n"
    and "good_outs (vout t) \<Longrightarrow> set (vout tx') \<subseteq> set (vout t) \<Longrightarrow>
      (extra_coins (be_params E) n \<Longrightarrow>
        sint (FindPayment_script t (GetScriptForDestination (Get108MAddress (be_addresses E)))) = 4500000 * COIN) \<Longrightarrow>
      check_single E t n"
proof -
  let ?R = "be_params E" and ?tot = "GetTotalBudget (be_params E) n"
  let ?un = "GetScriptForDestination (GetUnallocatedBudgetAddress (be_addresses E))"
    and ?dev = "GetScriptForDestination (GetDevFundAddress (be_addresses E))"
    and ?extra = "GetScriptForDestination (Get108MAddress (be_addresses E))"
  note tot = totals [OF assms(1), of n]
  obtain paid tx0 where add: "add_payments H ?tot (FindBudgetPayments E n) 0 tx = Some (paid, tx0)"
    using assms(3) by (auto simp: fill_single_def Let_def split: option.splits)
  define us where "us = (if paid < ?tot then [mkTxOut (of_int (?tot - paid)) ?un] else [])"
  define ds where "ds = (if GetChainHeight ?R H9 \<le> n then [mkTxOut (of_int (GetTotalDevFund ?R n)) ?dev] else [])"
  define es where "es = (if extra_coins ?R n then [mkTxOut (of_int (4500000 * COIN)) ?extra] else [])"
  have "\<forall>p \<in> set (FindBudgetPayments E n). 0 \<le> snd p \<and> snd p < 2 ^ 62"
    using FindBudgetPayments_amounts [OF assms(2)] by fastforce
  note A = add_payments [OF add this]
  obtain zs where zs: "vout tx0 = vout tx @ zs"
    using A by blast
  have sum0: "sum_values zs = paid" "paid \<le> ?tot"
    using A tot(1) by (auto simp: zs)
  have outs: "vout tx' = vout tx @ zs @ us @ ds @ es"
    using assms(3) by (auto simp: fill_single_def Let_def add zs us_def ds_def es_def)
  then show "\<exists>ys. vout tx' = vout tx @ ys"
    by blast
  have amounts: "\<And>p. p \<in> set (FindBudgetPayments E n) \<Longrightarrow> 0 \<le> snd p"
    using FindBudgetPayments_amounts [OF assms(2)] by (metis prod.collapse)
  have "0 \<le> paid"
    using add_payments_nonneg [OF add] amounts by simp
  then have rest: "sint (of_int (?tot - paid) :: 64 word) = ?tot - paid"
    using sum0(2) tot(2) by (intro sint_of_int64') simp_all
  have fund: "sint (of_int (GetTotalDevFund ?R n) :: 64 word) = GetTotalDevFund ?R n"
    using tot(3,4) by (intro sint_of_int64') simp_all
  have coins: "sint (of_int (4500000 * COIN) :: 64 word) = 4500000 * COIN"
    by (rule sint_of_int64') simp_all
  have us: "sum_values us = ?tot - paid" and ds: "sum_values ds + sum_values es = fund_outs ?R n"
    using rest fund coins sum0(2) unfolding us_def ds_def es_def fund_outs_def by auto
  show "sum_values (vout tx') = sum_values (vout tx) + ?tot + fund_outs ?R n"
    using sum0(1) us ds unfolding outs by simp
  assume t: "good_outs (vout t)" "set (vout tx') \<subseteq> set (vout t)"
    and extra: "extra_coins ?R n \<Longrightarrow> sint (FindPayment_script t ?extra) = 4500000 * COIN"
  have "check_payments ?tot t (FindBudgetPayments E n) 0 = Some paid"
    using A t by (auto simp: zs outs)
  moreover have "\<not> sint (FindPayment_script t ?un) < ?tot - paid"
    using FindPayment_script_ge(1) [OF t(1), of ?un] FindPayment_script_ge(2) [OF t(1), of _ ?un] t(2) rest unfolding outs us_def by (cases "paid < ?tot") force+
  moreover have "\<not> (GetChainHeight ?R H9 \<le> n \<and> sint (FindPayment_script t ?dev) < GetTotalDevFund ?R n)"
    using FindPayment_script_ge(2) [OF t(1), of _ ?dev] t(2) fund unfolding outs ds_def by force
  ultimately show "check_single E t n"
    using extra unfolding check_single_def Let_def by auto
qed

lemma unallocated_range:
  assumes "network (be_params E)" and "0 \<le> a" and "unallocated_amount E h n q a = Some v"
  shows "0 \<le> v \<and> v \<le> GetTotalBudget (be_params E) n"
  using assms totals(1) [OF assms(1), of n] by (auto simp: unallocated_amount_def split: option.splits if_splits)

lemma fill_cycle:
  assumes "network (be_params E)" and "amounts_ok E" and "fill_cycle E H h n (Some q) tx = Some tx'"
  shows "\<exists>v. GetBudgetValue E h n (Some q) = Some v \<and> sum_values (vout tx') = sum_values (vout tx) + v"
proof -
  obtain c s a where g: "GrabHighestCount E n ([], 0) = (c, s, a)"
    by (metis prod_cases3)
  have a: "0 \<le> a \<and> a < 2 ^ 62"
    using GrabHighestCount_amount [OF assms(2) _ g] by simp
  note tot = totals [OF assms(1), of n]
  show ?thesis
  proof (cases "c < nFivePercent E")
    case True
    then show ?thesis
      using assms(3) g tot by (auto simp: fill_cycle_def GetBudgetValue_def Let_def sint_of_int64')
  next
    case False
    then obtain v where v: "unallocated_amount E h n (Some q) a = Some v"
      "tx' = (if 0 < v then push_out v (GetScriptForDestination (GetUnallocatedBudgetAddress (be_addresses E))) (push_out a s tx)
              else push_out a s tx)"
      using assms(3) g by (auto simp: fill_cycle_def Let_def split: option.splits)
    note range = unallocated_range [OF assms(1) _ v(1)]
    have "sint (of_int a :: 64 word) = a" "sint (of_int v :: 64 word) = v"
      using a range tot(2) by (intro sint_of_int64'; simp)+
    then show ?thesis
      using False g v range a by (auto simp: GetBudgetValue_def)
  qed
qed

section \<open>Filling a block\<close>

lemma FillBlockPayee_steps:
  assumes "FillBlockPayee P H h m tx nFees True (Some p) = Inr tx'" and "h p = Some prev"
  obtains tx1 tx2 where
    "if IsBudgetPaymentBlock (pe_budget P) (bi_nHeight prev + 1)
     then budget_FillBlockPayee (pe_budget P) H h True (Some p) tx = Some tx1
     else mn_FillBlockPayee P H m True prev tx = Inr tx1"
    and "add_dev_fund (be_params (pe_budget P)) (be_addresses (pe_budget P)) (stake_out tx) (bi_nHeight prev + 1) tx1 = Inr tx2"
    and "tx' = add_fees (be_addresses (pe_budget P)) nFees tx2"
  using assms by (auto simp: FillBlockPayee_def Let_def split: sum.splits option.splits if_splits)

lemma FillBlockPayee_sum:
  assumes "network (be_params (pe_budget P))" and "amounts_ok (pe_budget P)" and "nFees < 2 ^ 63"
    and fill: "FillBlockPayee P H h m tx nFees True (Some p) = Inr tx'" and prev: "h p = Some prev"
  defines "n \<equiv> bi_nHeight prev + 1" and "R \<equiv> be_params (pe_budget P)"
  shows "\<exists>v. sum_values (vout tx') = sum_values (vout tx) + v + (if 100 * COIN \<le> nFees then nFees else 0) \<and>
    (if \<not> IsBudgetPaymentBlock (pe_budget P) n then v = 0
     else if GetChainHeight R H8 \<le> n then v = GetTotalBudget R n + fund_outs R n
     else GetBudgetValue (pe_budget P) h n (Some p) = Some v)"
proof -
  let ?E = "pe_budget P"
  obtain tx1 tx2 where s: "if IsBudgetPaymentBlock ?E n then budget_FillBlockPayee ?E H h True (Some p) tx = Some tx1
      else mn_FillBlockPayee P H m True prev tx = Inr tx1"
    "add_dev_fund R (be_addresses ?E) (stake_out tx) n tx1 = Inr tx2" "tx' = add_fees (be_addresses ?E) nFees tx2"
    using FillBlockPayee_steps [OF fill prev] unfolding n_def R_def by metis
  have sum: "sum_values (vout tx') = sum_values (vout tx1) + (if 100 * COIN \<le> nFees then nFees else 0)"
    using add_fees_sum [OF assms(3)] add_dev_fund_sum [OF s(2) stake_out_le(2)] by (simp add: s(3))
  show ?thesis
  proof (cases "IsBudgetPaymentBlock ?E n")
    case False
    then show ?thesis
      using s(1) mn_fill_sum sum by auto
  next
    case True
    then have b: "(if GetChainHeight R H8 \<le> n then fill_single ?E H n tx else fill_cycle ?E H h n (Some p) tx) = Some tx1"
      using s(1) prev by (simp add: budget_FillBlockPayee_def n_def R_def Let_def split: if_splits)
    show ?thesis
    proof (cases "GetChainHeight R H8 \<le> n")
      case True
      then show ?thesis
        using \<open>IsBudgetPaymentBlock ?E n\<close> b sum fill_single(2) [OF assms(1,2), of H n tx tx1] by (simp add: R_def)
    next
      case False
      then show ?thesis
        using \<open>IsBudgetPaymentBlock ?E n\<close> b sum fill_cycle [OF assms(1,2), of H h n p tx tx1] by auto
    qed
  qed
qed

section \<open>The payments are found\<close>

lemma add_dev_fund_keeps:
  assumes "add_dev_fund R A k n tx = Inr tx'" and "vout tx = xs @ ys" and "k < length xs" and "1 \<le> k" and "k \<le> 2"
  shows "\<exists>xs' ds. vout tx' = xs' @ ys @ ds \<and> map scriptPubKey xs' = map scriptPubKey xs \<and>
    (n < GetChainHeight R H8 \<longrightarrow> 0 < GetBlockValueDevFund R n \<longrightarrow> GetBlockValueDevFund R n \<le> sum_values (vout tx) \<longrightarrow>
      ds = [mkTxOut (of_int (GetBlockValueDevFund R n)) (GetScriptForDestination (GetDevFundAddress A))])"
proof -
  let ?d = "GetBlockValueDevFund R n"
  consider (skip) "tx' = tx" "\<not> (n < GetChainHeight R H8 \<and> 0 < ?d)"
    | (none) "tx' = tx" "0 < ?d" "SubtractFromStakeReward tx k ?d = Inr None"
    | (some) t where "SubtractFromStakeReward tx k ?d = Inr (Some t)"
        "tx' = push_out ?d (GetScriptForDestination (GetDevFundAddress A)) t"
    using assms(1) by (auto simp: add_dev_fund_def Let_def split: if_splits sum.splits option.splits)
  then show ?thesis
  proof cases
    case skip
    then show ?thesis
      using assms(2) by (intro exI [of _ xs] exI [of _ "[]"]) auto
  next
    case none
    then have "sum_values (vout tx) < ?d"
      using SubtractFromStakeReward_None [OF none(3) assms(4)] assms(2,3) by simp
    then show ?thesis
      using none assms(2) by (intro exI [of _ xs] exI [of _ "[]"]) auto
  next
    case some
    then show ?thesis
      using SubtractFromStakeReward_Some [OF some(1) assms(2,3,5)] some(2) by fastforce
  qed
qed

text \<open>The outputs of a block that pays a masternode: the stake, the masternode, the developer fund and the fees.\<close>

lemma mn_fill_outs:
  assumes "mn_FillBlockPayee P H m True prev tx = Inr tx1" and "2 \<le> length (vout tx)"
  shows "\<exists>xs ys. vout tx1 = xs @ ys \<and> length xs = length (vout tx) \<and>
    (\<forall>s k. payee_of P H m (bi_nHeight prev + 1) = Some s \<longrightarrow>
      GetMasternodePayment (be_params (pe_budget P)) (bi_nHeight prev + 1) (pe_stable_size P) (bi_nMoneySupply prev) = Some k \<longrightarrow>
      0 < k \<longrightarrow> k \<le> sum_values (vout tx) \<longrightarrow> ys = [mkTxOut (of_int k) s] \<and> k < 2 ^ 63)"
proof -
  have len: "stake_out tx < length (vout tx)"
    using assms(2) by (simp add: stake_out_def)
  consider (none) "tx1 = tx" "payee_of P H m (bi_nHeight prev + 1) = None"
    | (some) s k where "payee_of P H m (bi_nHeight prev + 1) = Some s"
        "GetMasternodePayment (be_params (pe_budget P)) (bi_nHeight prev + 1) (pe_stable_size P) (bi_nMoneySupply prev) = Some k"
    using assms(1) by (auto simp: mn_FillBlockPayee_def Let_def split: option.splits sum.splits)
  then show ?thesis
  proof cases
    case none
    then show ?thesis
      by (intro exI [of _ "vout tx"] exI [of _ "[]"]) simp
  next
    case some
    consider (no) "SubtractFromStakeReward tx (stake_out tx) k = Inr None" "tx1 = tx"
      | (yes) t where "SubtractFromStakeReward tx (stake_out tx) k = Inr (Some t)" "tx1 = push_out k s t"
      using assms(1) some by (auto simp: mn_FillBlockPayee_def Let_def split: option.splits sum.splits)
    then show ?thesis
    proof cases
      case no
      then have "0 < k \<Longrightarrow> sum_values (vout tx) < k"
        using SubtractFromStakeReward_None [OF no(1) stake_out_le(1) len] by simp
      then show ?thesis
        using some no(2) by (intro exI [of _ "vout tx"] exI [of _ "[]"]) auto
    next
      case yes
      obtain xs where "vout t = xs" "length xs = length (vout tx)" "k < 2 ^ 63"
        using SubtractFromStakeReward_Some [OF yes(1), of "vout tx" "[]"] len stake_out_le(2) by auto
      then show ?thesis
        using some yes(2) by (intro exI [of _ xs] exI [of _ "[mkTxOut (of_int k) s]"]) auto
    qed
  qed
qed

lemma mn_block_outs:
  assumes fill: "FillBlockPayee P H h m tx nFees True (Some p) = Inr tx'" and prev: "h p = Some prev"
    and "\<not> IsBudgetPaymentBlock (pe_budget P) (bi_nHeight prev + 1)" and "2 \<le> length (vout tx)"
    and "GetBlockValueDevFund (be_params (pe_budget P)) (bi_nHeight prev + 1) \<le> sum_values (vout tx)"
  defines "n \<equiv> bi_nHeight prev + 1" and "R \<equiv> be_params (pe_budget P)" and "A \<equiv> be_addresses (pe_budget P)"
  shows "payee_of P H m n = Some s \<Longrightarrow> GetMasternodePayment R n (pe_stable_size P) (bi_nMoneySupply prev) = Some k \<Longrightarrow>
      0 < k \<Longrightarrow> k \<le> sum_values (vout tx) \<Longrightarrow> mkTxOut (of_int k) s \<in> set (vout tx') \<and> k < 2 ^ 63"
    and "n < GetChainHeight R H8 \<Longrightarrow> 0 < GetBlockValueDevFund R n \<Longrightarrow>
      mkTxOut (of_int (GetBlockValueDevFund R n)) (GetScriptForDestination (GetDevFundAddress A)) \<in> set (vout tx')"
    and "100 * COIN \<le> nFees \<Longrightarrow> mkTxOut (of_int nFees) (GetScriptForDestination (GetTxFeeAddress A)) \<in> set (vout tx')"
proof -
  obtain tx1 tx2 where steps: "mn_FillBlockPayee P H m True prev tx = Inr tx1"
    "add_dev_fund R A (stake_out tx) n tx1 = Inr tx2" "tx' = add_fees A nFees tx2"
    using FillBlockPayee_steps [OF fill prev] assms(3) unfolding n_def R_def A_def by metis
  obtain xs ys where outs1: "vout tx1 = xs @ ys" "length xs = length (vout tx)"
    "payee_of P H m n = Some s \<Longrightarrow> GetMasternodePayment R n (pe_stable_size P) (bi_nMoneySupply prev) = Some k \<Longrightarrow>
      0 < k \<Longrightarrow> k \<le> sum_values (vout tx) \<Longrightarrow> ys = [mkTxOut (of_int k) s] \<and> k < 2 ^ 63"
    using mn_fill_outs [OF steps(1) assms(4)] unfolding n_def R_def by metis
  have len: "stake_out tx < length xs"
    using assms(4) outs1(2) by (simp add: stake_out_def)
  have sum: "sum_values (vout tx1) = sum_values (vout tx)"
    by (rule mn_fill_sum [OF steps(1)])
  obtain xs' ds where outs: "vout tx2 = xs' @ ys @ ds"
    "n < GetChainHeight R H8 \<Longrightarrow> 0 < GetBlockValueDevFund R n \<Longrightarrow>
      ds = [mkTxOut (of_int (GetBlockValueDevFund R n)) (GetScriptForDestination (GetDevFundAddress A))]"
    using add_dev_fund_keeps [OF steps(2) outs1(1) len stake_out_le] sum assms(5) unfolding n_def R_def by auto
  have tx': "set (vout tx2) \<subseteq> set (vout tx')"
    "100 * COIN \<le> nFees \<Longrightarrow> mkTxOut (of_int nFees) (GetScriptForDestination (GetTxFeeAddress A)) \<in> set (vout tx')"
    unfolding steps(3) add_fees_def by auto
  show "payee_of P H m n = Some s \<Longrightarrow> GetMasternodePayment R n (pe_stable_size P) (bi_nMoneySupply prev) = Some k \<Longrightarrow>
      0 < k \<Longrightarrow> k \<le> sum_values (vout tx) \<Longrightarrow> mkTxOut (of_int k) s \<in> set (vout tx') \<and> k < 2 ^ 63"
    using outs1(3) outs(1) tx'(1) by auto
  show "n < GetChainHeight R H8 \<Longrightarrow> 0 < GetBlockValueDevFund R n \<Longrightarrow>
      mkTxOut (of_int (GetBlockValueDevFund R n)) (GetScriptForDestination (GetDevFundAddress A)) \<in> set (vout tx')"
    using outs tx'(1) by auto
  show "100 * COIN \<le> nFees \<Longrightarrow> mkTxOut (of_int nFees) (GetScriptForDestination (GetTxFeeAddress A)) \<in> set (vout tx')"
    by (rule tx'(2))
qed

text \<open>The checks of the fees and of the developer fund succeed on such outputs.\<close>

lemma enforced_True [simp]: "enforced spork (Some True) = Some True"
  by (simp add: enforced_def)

lemma and_then_True [simp]: "and_then (Some True) b = b"
  by (simp add: and_then_def)

section \<open>The payee of a block\<close>

lemma max_signatures_reached:
  assumes "required \<le> max_signatures required ps" and "0 < required"
  shows "\<exists>p \<in> set ps. required \<le> my_nVotes p"
proof -
  have "foldl (\<lambda>n p. if n \<le> my_nVotes p \<and> required \<le> my_nVotes p then my_nVotes p else n) a ps < required"
    if "\<forall>p \<in> set ps. my_nVotes p < required" "a < required" for a
    using that by (induction ps arbitrary: a) auto
  from this [of 0] show ?thesis
    using assms unfolding max_signatures_def by force
qed

lemma paid_payee_loop:
  assumes "\<forall>q \<in> set ps. ExtractDestination H (my_scriptPubKey q) \<noteq> None" and "p \<in> set ps" and "required \<le> my_nVotes p"
    and "out \<in> set (vout tx)" and "my_scriptPubKey p = scriptPubKey out" and "k \<le> sint (nValue out)"
  shows "paid_payee_loop H required k tx ps = Some True"
  using assms by (induction H required k tx ps rule: paid_payee_loop.induct) (auto simp: list_ex_iff split: option.splits)

end
