(* ===== verification/BudgetSpec.thy ===== *)
theory BudgetSpec
  imports FillProps HashFuns
begin

text \<open>
  The properties of the budget: which votes count, what the next budget holds, and an output that is counted twice.
\<close>

section \<open>Votes\<close>

text \<open>The votes of a proposal are kept under the hash of the masternode that cast them, one for each.\<close>

definition votes_ok :: "hash_funs \<Rightarrow> CBudgetProposal \<Rightarrow> bool" where
  "votes_ok H p \<longleftrightarrow> distinct (map fst (pr_mapVotes p)) \<and>
     (\<forall>k v. map_of (pr_mapVotes p) k = Some v \<longrightarrow> k = COutPoint_GetHash H (prevout (bv_vin v)))"

lemma check_vote_time_None:
  "check_vote_time now old new = None \<longleftrightarrow>
     new \<le> now + 60 * 60 \<and> (case old of None \<Rightarrow> True | Some t \<Rightarrow> t + BUDGET_VOTE_UPDATE_MIN \<le> new)"
  by (auto simp: check_vote_time_def split: option.splits)

lemma update_votes_ok:
  assumes "votes_ok H p" and "k = COutPoint_GetHash H (prevout (bv_vin v))"
  shows "votes_ok H (p\<lparr>pr_mapVotes := AList.update k v (pr_mapVotes p)\<rparr>)"
  using assms by (auto simp: votes_ok_def distinct_update update_conv')

text \<open>What is counted are the masternodes whose recorded vote is valid and of the given kind.\<close>

definition voters :: "int \<Rightarrow> CBudgetProposal \<Rightarrow> uint256 set" where
  "voters nVote p = {k. \<exists>v. map_of (pr_mapVotes p) k = Some v \<and> bv_nVote v = nVote \<and> bv_fValid v}"

lemma count_votes_card:
  assumes "votes_ok H p"
  shows "count_votes nVote p = int (card (voters nVote p))"
proof -
  let ?ms = "pr_mapVotes p" and ?P = "\<lambda>(_, v). bv_nVote v = nVote \<and> bv_fValid v"
  have keys: "distinct (map fst ?ms)"
    using assms by (simp add: votes_ok_def)
  have "voters nVote p = fst ` set (filter ?P ?ms)"
    by (auto simp: voters_def map_of_eq_Some_iff [OF keys] image_iff)
  moreover have "distinct (map fst (filter ?P ?ms))"
    using keys by (rule distinct_map_filter)
  then have "card (fst ` set (filter ?P ?ms)) = length (filter ?P ?ms)"
    using distinct_card [of "map fst (filter ?P ?ms)"] by simp
  ultimately show ?thesis
    by (simp add: count_votes_def)
qed

text \<open>C23: A vote on a proposal is accepted just when it is at most an hour ahead and, if its masternode has voted
  before, at least an hour after that vote, and is refused otherwise. An accepted vote takes the place of the
  old one of its masternode; no other vote and nothing else of the proposal changes. The counts of yes, no
  and abstentions are then the numbers of masternodes whose recorded vote is valid and of that kind.\<close>

theorem proposal_vote_replaces:
  assumes "votes_ok H p"
  shows "(let key = COutPoint_GetHash H (prevout (bv_vin vote));
      in_time = (bv_nTime vote \<le> now + 60 * 60 \<and>
        (case map_of (pr_mapVotes p) key of None \<Rightarrow> True | Some old \<Rightarrow> bv_nTime old + 60 * 60 \<le> bv_nTime vote)) in
    case proposal_AddOrUpdateVote H now p vote of
      Inl _ \<Rightarrow> \<not> in_time
    | Inr p' \<Rightarrow> in_time \<and> votes_ok H p' \<and> map_of (pr_mapVotes p') = (map_of (pr_mapVotes p))(key \<mapsto> vote) \<and>
        p'\<lparr>pr_mapVotes := pr_mapVotes p\<rparr> = p \<and>
        GetYeas p' = int (card (voters VOTE_YES p')) \<and> GetNays p' = int (card (voters VOTE_NO p')) \<and>
        GetAbstains p' = int (card (voters VOTE_ABSTAIN p')))"
proof (cases "check_vote_time now (map_option bv_nTime (map_of (pr_mapVotes p) (COutPoint_GetHash H (prevout (bv_vin vote))))) (bv_nTime vote)")
  case (Some e)
  then show ?thesis
    by (auto simp: proposal_AddOrUpdateVote_def check_vote_time_def Let_def split: option.splits if_splits)
next
  case None
  define p' where "p' = p\<lparr>pr_mapVotes := AList.update (COutPoint_GetHash H (prevout (bv_vin vote))) vote (pr_mapVotes p)\<rparr>"
  have ok: "votes_ok H p'"
    unfolding p'_def by (rule update_votes_ok [OF assms]) simp
  have "proposal_AddOrUpdateVote H now p vote = Inr p'"
    using None by (simp add: proposal_AddOrUpdateVote_def p'_def Let_def)
  moreover have "map_of (pr_mapVotes p') = (map_of (pr_mapVotes p))(COutPoint_GetHash H (prevout (bv_vin vote)) \<mapsto> vote)"
    by (simp add: p'_def update_conv')
  moreover have "p'\<lparr>pr_mapVotes := pr_mapVotes p\<rparr> = p"
    by (simp add: p'_def)
  moreover have "bv_nTime vote \<le> now + 60 * 60 \<and>
      (case map_of (pr_mapVotes p) (COutPoint_GetHash H (prevout (bv_vin vote))) of
         None \<Rightarrow> True | Some old \<Rightarrow> bv_nTime old + 60 * 60 \<le> bv_nTime vote)"
    using None by (auto simp: check_vote_time_def split: option.splits if_splits)
  ultimately show ?thesis
    using ok by (simp add: count_votes_card [OF ok] GetYeas_def GetNays_def GetAbstains_def)
qed

definition sample_proposal :: CBudgetProposal where
  "sample_proposal = \<lparr>pr_nAlloted = 0, pr_fValid = True, pr_strProposalName = ''one'', pr_strURL = [], pr_nBlockStart = 43200, pr_nBlockEnd = 129600,
     pr_nAmount = 1000000000, pr_address = [1], pr_nTime = 0, pr_nFeeTXHash = 5, pr_mapVotes = []\<rparr>"

definition sample_vote :: CBudgetVote where
  "sample_vote = \<lparr>bv_fValid = True, bv_vin = mkTxIn \<lparr>out_hash = 3, out_n = 0\<rparr> [] (- 1), bv_nProposalHash = 9, bv_nVote = 1, bv_nTime = 100, bv_vchSig = []\<rparr>"

theorem proposal_vote_replaces_witness:
  "\<exists>p. proposal_AddOrUpdateVote node_hash 100 sample_proposal sample_vote = Inr p \<and> votes_ok node_hash p \<and> GetYeas p = 1"
proof -
  have "votes_ok node_hash sample_proposal"
    by (simp add: votes_ok_def sample_proposal_def)
  from proposal_vote_replaces [where now = 100 and vote = sample_vote, OF this] show ?thesis
    by (simp add: proposal_AddOrUpdateVote_def check_vote_time_def sample_proposal_def sample_vote_def GetYeas_def count_votes_def Let_def)
qed

section \<open>The next budget\<close>

definition net_votes :: "CBudgetProposal \<Rightarrow> int" where
  "net_votes p = GetYeas p - GetNays p"

lemma allot_loop:
  assumes "allot_loop el tot ps n m = (m', ret)"
  shows "(n \<le> tot \<longrightarrow> n + (\<Sum>p\<leftarrow>ret. pr_nAmount p) \<le> tot) \<and>
    (\<forall>q \<in> set ret. \<exists>(k, p) \<in> set ps. el p \<and> q = p\<lparr>pr_nAlloted := pr_nAmount p\<rparr>) \<and>
    (sorted_wrt (\<lambda>(_, p) (_, q). net_votes q \<le> net_votes p) ps \<longrightarrow> sorted_wrt (\<lambda>p q. net_votes q \<le> net_votes p) ret)"
  using assms
proof (induction el tot ps n m arbitrary: m' ret rule: allot_loop.induct)
  case (2 el tot k p ps n m)
  show ?case
  proof (cases "el p \<and> pr_nAmount p + n \<le> tot")
    case True
    let ?p = "p\<lparr>pr_nAlloted := pr_nAmount p\<rparr>"
    obtain ret' where rest: "allot_loop el tot ps (n + pr_nAmount p) (AList.update k ?p m) = (m', ret')" "ret = ?p # ret'"
      using True "2.prems" by (auto simp: Let_def split: prod.splits)
    have votes: "net_votes (q\<lparr>pr_nAlloted := a\<rparr>) = net_votes q" for q a
      by (simp add: net_votes_def GetYeas_def GetNays_def count_votes_def)
    have IH: "(n + pr_nAmount p \<le> tot \<longrightarrow> n + pr_nAmount p + (\<Sum>p\<leftarrow>ret'. pr_nAmount p) \<le> tot) \<and>
      (\<forall>q \<in> set ret'. \<exists>(k, p) \<in> set ps. el p \<and> q = p\<lparr>pr_nAlloted := pr_nAmount p\<rparr>) \<and>
      (sorted_wrt (\<lambda>(_, p) (_, q). net_votes q \<le> net_votes p) ps \<longrightarrow> sorted_wrt (\<lambda>p q. net_votes q \<le> net_votes p) ret')"
      using "2.IH"(1) [OF _ _ refl rest(1)] True by simp
    have "net_votes q \<le> net_votes p" if "q \<in> set ret'" "sorted_wrt (\<lambda>(_, p) (_, q). net_votes q \<le> net_votes p) ((k, p) # ps)" for q
      using IH that by (fastforce simp: votes)
    then show ?thesis
      using IH True by (auto simp: rest(2) votes)
  next
    case False
    then obtain m2 where rest: "allot_loop el tot ps n m2 = (m', ret)"
      and IH: "(n \<le> tot \<longrightarrow> n + (\<Sum>p\<leftarrow>ret. pr_nAmount p) \<le> tot) \<and>
      (\<forall>q \<in> set ret. \<exists>(k, p) \<in> set ps. el p \<and> q = p\<lparr>pr_nAlloted := pr_nAmount p\<rparr>) \<and>
      (sorted_wrt (\<lambda>(_, p) (_, q). net_votes q \<le> net_votes p) ps \<longrightarrow> sorted_wrt (\<lambda>p q. net_votes q \<le> net_votes p) ret)"
      using 2 by (auto split: if_splits)
    then show ?thesis
      by auto
  qed
qed simp

text \<open>C22: 
  The budget of the next cycle stays within the total: the proposals chosen are eligible and in the order of their net
  votes, each is allotted its amount, and together they ask for no more than the total of the cycle.
\<close>

theorem budget_within_total:
  assumes "network R" and "GetBudget R n now valid (Some nHeight) m = (m', ret)"
    and "start = nHeight - nHeight smod GetBudgetPaymentCycleBlocks R + GetBudgetPaymentCycleBlocks R"
  shows "(\<Sum>p\<leftarrow>ret. pr_nAmount p) \<le> GetTotalBudget R start \<and>
    sorted_wrt (\<lambda>p q. net_votes q \<le> net_votes p) ret \<and>
    list_all (\<lambda>p. pr_nAlloted p = pr_nAmount p \<and> proposal_eligible R n now start (start + GetBudgetPaymentCycleBlocks R - 1) p) ret"
proof -
  let ?fin = "start + GetBudgetPaymentCycleBlocks R - 1"
  let ?ps = "sort_proposals (map (\<lambda>(k, p). (k, proposal_CleanAndRemove valid p)) m)"
  have "sorted (map (\<lambda>(_, p). - (GetYeas p - GetNays p)) ?ps)"
    unfolding sort_proposals_def by (rule sorted_sort_key)
  then have sorted: "sorted_wrt (\<lambda>(_, p) (_, q). net_votes q \<le> net_votes p) ?ps"
    unfolding sorted_map by (rule sorted_wrt_mono_rel [rotated]) (auto simp: net_votes_def)
  obtain m0 where loop: "allot_loop (proposal_eligible R n now start ?fin) (GetTotalBudget R start) ?ps 0 m0 = (m', ret)"
    using assms(2) unfolding assms(3) by (auto simp: GetBudget_def Let_def)
  have "proposal_eligible R n now start ?fin (p\<lparr>pr_nAlloted := a\<rparr>) = proposal_eligible R n now start ?fin p" for p a
    by (simp add: proposal_eligible_def GetYeas_def GetNays_def count_votes_def IsEstablished_def)
  then show ?thesis
    using allot_loop [OF loop] sorted totals(1) [OF assms(1)] by (fastforce simp: list_all_iff)
qed

definition voted_proposal :: CBudgetProposal where
  "voted_proposal = sample_proposal\<lparr>pr_mapVotes := [(5, sample_vote)]\<rparr>"

lemma voted_budget: "GetBudget mainParams 5 100000 (\<lambda>_. True) (Some 100) [(1, voted_proposal)] =
  ([(1, voted_proposal\<lparr>pr_nAlloted := 1000000000\<rparr>)], [voted_proposal\<lparr>pr_nAlloted := 1000000000\<rparr>])"
proof -
  have cycle: "GetBudgetPaymentCycleBlocks mainParams = 43200" and total: "GetTotalBudget mainParams 43200 = 540000000000000"
    by (simp_all add: GetTotalBudget_def GetBudgetPaymentCycleBlocks_def value_defs mainParams_def signed_divide_int_def)
  have "\<not> fTestNet mainParams"
    by (simp add: mainParams_def)
  then show ?thesis
    by (simp add: GetBudget_def cycle total Let_def signed_modulo_int_def signed_divide_int_def sort_proposals_def proposal_CleanAndRemove_def
        proposal_eligible_def IsEstablished_def GetYeas_def GetNays_def count_votes_def voted_proposal_def sample_proposal_def sample_vote_def)
qed

theorem budget_within_total_witness:
  "(\<Sum>p\<leftarrow>[voted_proposal\<lparr>pr_nAlloted := 1000000000\<rparr>]. pr_nAmount p) \<le> GetTotalBudget mainParams 43200"
proof -
  have net: "network mainParams"
    by (simp add: network_def)
  have start: "43200 = 100 - 100 smod GetBudgetPaymentCycleBlocks mainParams + GetBudgetPaymentCycleBlocks mainParams"
    by (simp add: GetBudgetPaymentCycleBlocks_def mainParams_def signed_divide_int_def signed_modulo_int_def)
  show ?thesis
    using budget_within_total [OF net voted_budget start] by (rule conjunct1)
qed

section \<open>An output is counted once for each payment\<close>

text \<open>Two payments of one budget to the same script.\<close>

definition two_payments :: budget_env where
  "two_payments =
     \<lparr>be_params = mainParams,
      be_addresses = \<lparr>GetDevFundAddress = CKeyID (replicate 20 1), GetTxFeeAddress = CKeyID (replicate 20 2),
        GetUnallocatedBudgetAddress = CKeyID (replicate 20 3), Get108MAddress = CKeyID (replicate 20 4)\<rparr>,
      be_finalized = [(1, \<lparr>fb_fAutoChecked = False, fb_fValid = True, fb_strBudgetName = ''main'', fb_nBlockStart = 1252800,
        fb_vecBudgetPayments = [\<lparr>bp_nProposalHash = 1, bp_payee = [1], bp_nAmount = 1000000000\<rparr>,
          \<lparr>bp_nProposalHash = 2, bp_payee = [1], bp_nAmount = 1000000000\<rparr>],
        fb_mapVotes = [(1, \<lparr>fv_fValid = True, fv_vin = mkTxIn \<lparr>out_hash = 3, out_n = 0\<rparr> [] (- 1), fv_nBudgetHash = 1, fv_nTime = 0, fv_vchSig = []\<rparr>)],
        fb_nFeeTXHash = 1, fb_nTime = 0\<rparr>)],
      be_CountEnabled = 20, be_superblocks = True\<rparr>"

definition one_payment :: CTransaction where
  "one_payment = \<lparr>nVersion = 1, vin = [], vout = [mkTxOut 1000000000 [1],
     mkTxOut 647998000000000 (GetScriptForDestination (CKeyID (replicate 20 3)))], nLockTime = 0\<rparr>"

lemma two_payments_found: "FindBudgetPayments two_payments 1252800 = [([1], 1000000000), ([1], 1000000000)]"
proof -
  have max: "nat (nMaxSuperBlocksPerCycle (be_params two_payments)) = Suc (Suc (Suc 97))"
    by (simp add: two_payments_def mainParams_def)
  have five: "nFivePercent two_payments = 1"
    by (simp add: nFivePercent_def two_payments_def signed_divide_int_def)
  have "GrabHighestCount two_payments 1252800 pay = (1, [1], 1000000000)" "GrabHighestCount two_payments 1252801 pay = (1, [1], 1000000000)"
    "GrabHighestCount two_payments 1252802 pay = (- 1, pay)" for pay
    by (simp_all add: GrabHighestCount_def two_payments_def GetVoteCount_def GetBlockEnd_def GetPayeeAndAmount_def Let_def)
  then show ?thesis
    unfolding FindBudgetPayments_def max by (simp only: find_payments_loop.simps Let_def five) simp
qed

text \<open>
  The check of a superblock looks at each payment by itself: a single output of 10 coins satisfies two payments of 10 coins to
  one script, and the superblock is valid although it pays 10 coins less than the budget.
\<close>

theorem superblock_counts_output_twice:
  "check_single two_payments one_payment 1252800 \<and>
   sum_values (vout one_payment) + 1000000000 = GetTotalBudget mainParams 1252800"
proof -
  have sel: "be_params two_payments = mainParams" "GetChainHeight mainParams H9 = 1296000"
    "GetUnallocatedBudgetAddress (be_addresses two_payments) = CKeyID (replicate 20 3)" "GetTotalBudget mainParams 1252800 = 648000000000000"
    by (simp_all add: two_payments_def GetTotalBudget_def GetBudgetPaymentCycleBlocks_def value_defs mainParams_def signed_divide_int_def)
  have other: "GetScriptForDestination (CKeyID (replicate 20 3)) \<noteq> [1]"
    by (simp add: GetScriptForDestination_def)
  have "sint (FindPayment_script one_payment [1]) = 1000000000"
    "sint (FindPayment_script one_payment (GetScriptForDestination (CKeyID (replicate 20 3)))) = 647998000000000"
    using other by (auto simp: FindPayment_script_def one_payment_def)
  then show ?thesis
    by (simp add: check_single_def two_payments_found sel extra_coins_def Let_def) (simp add: one_payment_def)
qed

end
