(* ===== verification/PaymentsSpec.thy ===== *)
theory PaymentsSpec
  imports FillProps HashFuns
begin

text \<open>
  The properties of masternode payments and the budget: the payee of a block, what a filled block mints, and that
  blocks filled by one node are accepted by another.
\<close>

text \<open>C21: 
  In every state the operations reach, the payee of a block is one for whom the most recorded winners of that height vote, and
  there is at least one.
\<close>

theorem block_payee_wins_vote:
  assumes "reachable_payments H m" and "GetBlockPayee m h = Some s"
  shows "0 < votes_for m h s \<and> votes_for m h s' \<le> votes_for m h s"
  using block_payee_most_votes [OF reachable_payments_ok [OF assms(1)] assms(2)] by blast

definition sample_key :: CTxDestination where
  "sample_key = CKeyID (replicate 20 7)"

definition sample_winner :: CMasternodePaymentWinner where
  "sample_winner =
     \<lparr>pw_vinMasternode = mkTxIn \<lparr>out_hash = 3, out_n = 0\<rparr> [] (- 1), pw_nBlockHeight = 1300001,
      pw_payee = GetScriptForDestination sample_key, pw_vchSig = []\<rparr>"

definition sample_votes :: CMasternodePayments where
  "sample_votes = snd (AddWinningMasternode node_hash (\<lambda>_. Some 0) sample_winner CMasternodePayments_init)"

lemma sample_blocks: "mapMasternodeBlocks sample_votes =
  [(1300001, \<lparr>by_nBlockHeight = 1300001, by_vecPayments = [\<lparr>my_scriptPubKey = GetScriptForDestination sample_key, my_nVotes = 1\<rparr>]\<rparr>)]"
  by (simp add: sample_votes_def AddWinningMasternode_def CMasternodePayments_init_def sample_winner_def AddPayee_def Let_def)

lemma sample_payee: "GetBlockPayee sample_votes 1300001 = Some (GetScriptForDestination sample_key)"
  by (simp add: GetBlockPayee_def sample_blocks GetPayee_def)

lemma sample_votes_reachable: "reachable_payments node_hash sample_votes"
  by (rule reachable_payments.add [OF reachable_payments.init, where ok = "fst (AddWinningMasternode node_hash (\<lambda>_. Some 0) sample_winner CMasternodePayments_init)"])
    (simp add: sample_votes_def)

theorem block_payee_wins_vote_witness:
  "0 < votes_for sample_votes 1300001 (GetScriptForDestination sample_key) \<and>
   votes_for sample_votes 1300001 [8] \<le> votes_for sample_votes 1300001 (GetScriptForDestination sample_key)"
  by (rule block_payee_wins_vote [OF sample_votes_reachable sample_payee])

text \<open>C20: 
  A filled block never mints too much: what the outputs of a proof-of-stake block gain beside the fees, when a synchronised node
  fills it, is within what the check of the block's value allows above the expected value.
\<close>

theorem filled_block_value_valid:
  assumes "network (be_params (pe_budget P))" and "amounts_ok (pe_budget P)" and "nFees < 2 ^ 63"
    and "FillBlockPayee P H h m tx nFees True (Some p) = Inr tx'" and "h p = Some prev" and "0 \<le> bi_nHeight prev"
    and "pe_synced P" and "\<not> pe_initial_download P"
  shows "IsBlockValueValid P h (bi_nHeight prev + 1) nExpected
    (nExpected + (sum_values (vout tx') - sum_values (vout tx) - (if 100 * COIN \<le> nFees then nFees else 0))) (Some p) = Some True"
proof -
  let ?n = "bi_nHeight prev + 1" and ?R = "be_params (pe_budget P)"
  obtain v where v: "sum_values (vout tx') - sum_values (vout tx) - (if 100 * COIN \<le> nFees then nFees else 0) = v"
    "if \<not> IsBudgetPaymentBlock (pe_budget P) ?n then v = 0
     else if GetChainHeight ?R H8 \<le> ?n then v = GetTotalBudget ?R ?n + fund_outs ?R ?n
     else GetBudgetValue (pe_budget P) h ?n (Some p) = Some v"
    using FillBlockPayee_sum [OF assms(1-5)] by (auto split: if_splits)
  have "IsBlockValueValid P h ?n nExpected (nExpected + v) (Some p) = Some True"
  proof (cases "IsBudgetPaymentBlock (pe_budget P) ?n")
    case True
    moreover have "0 = ?n smod GetBudgetPaymentCycleBlocks ?R" if "GetChainHeight ?R H8 \<le> ?n"
      using True that by (simp add: IsBudgetPaymentBlock_def Let_def split: if_splits)
    ultimately show ?thesis
      using v(2) assms(6-8) network_simps(10) [OF assms(1)]
      by (auto simp: IsBlockValueValid_def fund_outs_def extra_coins_def Let_def split: if_splits)
  next
    case False
    then show ?thesis
      using v(2) assms(6-8) totals [OF assms(1), of ?n] by (auto simp: IsBlockValueValid_def extra_coins_def Let_def)
  qed
  then show ?thesis
    unfolding v(1) .
qed

definition sample_addresses :: fund_addresses where
  "sample_addresses = \<lparr>GetDevFundAddress = sample_key, GetTxFeeAddress = sample_key, GetUnallocatedBudgetAddress = sample_key,
     Get108MAddress = CScriptID (replicate 20 8)\<rparr>"

definition sample_budget :: budget_env where
  "sample_budget = \<lparr>be_params = mainParams, be_addresses = sample_addresses, be_finalized = [], be_CountEnabled = 100, be_superblocks = False\<rparr>"

definition sample_env :: payments_env where
  "sample_env = \<lparr>pe_budget = sample_budget, pe_stable_size = 100, pe_current_masternode = None, pe_synced = True,
     pe_initial_download = False, pe_spork = (\<lambda>_. True)\<rparr>"

definition sample_prev :: CBlockIndex where
  "sample_prev = CBlockIndex_SetNull\<lparr>bi_nHeight := 1300000\<rparr>"

definition sample_stake :: CTransaction where
  "sample_stake = \<lparr>nVersion = 1, vin = [], vout = [mkTxOut 0 [], mkTxOut 200000000000 [1]], nLockTime = 0\<rparr>"

definition sample_filled :: CTransaction where
  "sample_filled = sample_stake\<lparr>vout := [mkTxOut 0 [], mkTxOut 128000000000 [1], mkTxOut 72000000000 (GetScriptForDestination sample_key)]\<rparr>"

lemma sample_sel [simp]:
  "pe_budget sample_env = sample_budget" "pe_stable_size sample_env = 100" "pe_synced sample_env" "\<not> pe_initial_download sample_env"
  "be_params sample_budget = mainParams" "be_addresses sample_budget = sample_addresses" "be_finalized sample_budget = []"
  "bi_nHeight sample_prev = 1300000" "bi_nMoneySupply sample_prev = 0"
  "nMasternodeCountDrift mainParams = 20" "nLastPOWBlock mainParams = 10080" "GetBlockValueReward mainParams 1300001 = 120000000000"
  "GetBlockValueDevFund mainParams 1300001 = 15000000000" "GetChainHeight mainParams H8 = 1252800"
  by (simp_all add: sample_env_def sample_budget_def sample_prev_def CBlockIndex_SetNull_def value_defs mainParams_def)

lemma ExtractDestination_None_iff: "ExtractDestination H s = None \<longleftrightarrow> s = [of_nat OP_ZEROCOINMINT]"
  unfolding Solver_None_iff [symmetric] by (auto simp: ExtractDestination_def Let_def split: option.splits)

lemma sample_scripts: "ExtractDestination H [] \<noteq> None" "ExtractDestination H [1] \<noteq> None"
  by (simp_all add: ExtractDestination_None_iff del: not_None_eq)

lemma sample_script: "ExtractDestination H (GetScriptForDestination sample_key) = Some (Some sample_key)"
  by (rule ExtractDestination_script) (simp add: sample_key_def dest_hash_def)

lemma sample_script_other: "GetScriptForDestination sample_key \<noteq> [of_nat OP_ZEROCOINMINT]"
  using sample_script unfolding ExtractDestination_None_iff [symmetric, where H = node_hash] by simp

lemma sample_net: "network (be_params (pe_budget sample_env))"
  by (simp add: sample_env_def sample_budget_def network_def)

lemma sample_payment: "GetMasternodePayment mainParams 1300001 n 0 = Some 72000000000"
  by (simp add: GetMasternodePayment_def value_defs mainParams_def int64_mult_def)

lemma sample_nobudget: "IsBudgetPaymentBlock sample_budget n = False"
  by (simp add: IsBudgetPaymentBlock_def sample_budget_def Let_def)

lemma sample_fill: "FillBlockPayee sample_env node_hash (\<lambda>_. Some sample_prev) sample_votes sample_stake 0 True (Some 0) = Inr sample_filled"
proof -
  have "SubtractFromStakeReward sample_stake (stake_out sample_stake) 72000000000 =
      Inr (Some (sample_stake\<lparr>vout := [mkTxOut 0 [], mkTxOut 128000000000 [1]]\<rparr>))"
    by (simp add: SubtractFromStakeReward_def stake_out_def sample_stake_def tx_GetValueOut_def word_sless_alt sub_value_def mkTxOut_def)
  then have "mn_FillBlockPayee sample_env node_hash sample_votes True sample_prev sample_stake = Inr sample_filled"
    by (simp add: mn_FillBlockPayee_def payee_of_def sample_payee sample_payment sample_script push_out_def sample_filled_def)
  then show ?thesis
    by (simp add: FillBlockPayee_def sample_nobudget add_dev_fund_def add_fees_def Let_def)
qed

theorem filled_block_value_valid_witness:
  "IsBlockValueValid sample_env (\<lambda>_. Some sample_prev) 1300001 120000000000 120000000000 (Some 0) = Some True"
proof -
  have "IsBlockValueValid sample_env (\<lambda>_. Some sample_prev) (bi_nHeight sample_prev + 1) 120000000000
      (120000000000 + (sum_values (vout sample_filled) - sum_values (vout sample_stake) - (if 100 * COIN \<le> 0 then 0 else 0))) (Some 0) = Some True"
    by (rule filled_block_value_valid [OF sample_net _ _ sample_fill])
      (simp_all add: amounts_ok_def)
  then show ?thesis
    by (simp add: sample_filled_def sample_stake_def)
qed

text \<open>C18: 
  A block filled to pay a masternode is accepted: a peer with the same votes and budget, whose count of masternodes is at most
  the allowed drift below that of the node that filled the block, finds the payments to the masternode, the fees and the developer
  fund, whatever sporks are active.
\<close>

theorem filled_block_pays_masternode:
  assumes net: "network (be_params (pe_budget P))" and reach: "reachable_payments H m"
    and fill: "FillBlockPayee P H h m tx nFees True (Some p) = Inr tx'" and prev: "h p = Some prev"
    and nobudget: "\<not> IsBudgetPaymentBlock (pe_budget P) (bi_nHeight prev + 1)"
    and pay: "GetMasternodePayment (be_params (pe_budget P)) (bi_nHeight prev + 1) (pe_stable_size P) (bi_nMoneySupply prev) = Some k" "0 < k"
    and stake: "2 \<le> length (vout tx)" "GetBlockValueReward (be_params (pe_budget P)) (bi_nHeight prev + 1) \<le> sum_values (vout tx)"
    and good: "good_outs (vout tx')" "scripts_ok H (vout tx')" "nFees < 2 ^ 63"
    and payees: "\<And>b q. map_of (mapMasternodeBlocks m) (bi_nHeight prev + 1) = Some b \<Longrightarrow> q \<in> set (by_vecPayments b) \<Longrightarrow>
      ExtractDestination H (my_scriptPubKey q) \<noteq> None"
    and funds: "length (dest_hash (GetDevFundAddress (be_addresses (pe_budget P)))) = 20"
      "length (dest_hash (GetTxFeeAddress (be_addresses (pe_budget P)))) = 20"
    and peer: "pe_budget P' = pe_budget P" "0 < pe_stable_size P"
      "pe_stable_size P \<le> pe_stable_size P' + nMasternodeCountDrift (be_params (pe_budget P))"
      "GetMasternodePayment (be_params (pe_budget P)) (bi_nHeight prev + 1)
        (pe_stable_size P' + nMasternodeCountDrift (be_params (pe_budget P))) (bi_nMoneySupply prev) = Some k'"
    and block: "nLastPOWBlock (be_params (pe_budget P)) \<le> bi_nHeight prev" "1 < length (bl_vtx block)" "bl_vtx block ! 1 = tx'"
  shows "IsBlockPayeeValid P' H h (Some prev) m block (bi_nHeight prev + 1) nFees (Some p) = Some True"
proof -
  let ?n = "bi_nHeight prev + 1" and ?R = "be_params (pe_budget P)" and ?A = "be_addresses (pe_budget P)"
  have fits: "k \<le> GetBlockValueReward ?R ?n" "GetBlockValueDevFund ?R ?n \<le> GetBlockValueReward ?R ?n"
    using payment_fits [OF net pay(1)] devfund_fits(1,2) [OF net, of ?n] by (auto split: if_splits)
  note outs = mn_block_outs [OF fill prev nobudget stake(1) order_trans [OF fits(2) stake(2)]]
  have mn: "mn_IsTransactionValid P' H (Some prev) m tx' ?n = Some True"
  proof (cases "map_of (mapMasternodeBlocks m) ?n")
    case None
    then show ?thesis
      by (simp add: mn_IsTransactionValid_def)
  next
    case (Some b)
    have ok: "block_ok ?n b"
      using reachable_payments_ok [OF reach] Some by (simp add: payments_ok_def)
    have less: "k' \<le> k"
      by (rule masternode_payment_mono [OF net peer(2,3) pay(1) peer(4)])
    have "nMasternodePaymentSigRequired ?R \<le> max_signatures (nMasternodePaymentSigRequired ?R) (by_vecPayments b) \<Longrightarrow>
      paid_payee_loop H (nMasternodePaymentSigRequired ?R) k' tx' (by_vecPayments b) = Some True"
    proof -
      assume "nMasternodePaymentSigRequired ?R \<le> max_signatures (nMasternodePaymentSigRequired ?R) (by_vecPayments b)"
      moreover have "0 < nMasternodePaymentSigRequired ?R"
        using net by (auto simp: network_def mainParams_def testNetParams_def)
      ultimately obtain q where q: "q \<in> set (by_vecPayments b)" "nMasternodePaymentSigRequired ?R \<le> my_nVotes q"
        using max_signatures_reached by blast
      obtain s where s: "GetPayee b = Some s"
        using q(1) ok get_payee_loop [of "by_vecPayments b" "- 1" None "GetPayee b"] by (force simp: GetPayee_def block_ok_def)
      then obtain r where r: "r \<in> set (by_vecPayments b)" "s = my_scriptPubKey r" "my_nVotes q \<le> my_nVotes r"
        using GetPayee_Some [OF s] q(1) by blast
      have "payee_of P H m ?n = Some s"
        by (simp add: payee_of_def GetBlockPayee_def Some s)
      from outs(1) [OF this pay order_trans [OF fits(1) stake(2)]]
      have out: "mkTxOut (of_int k) s \<in> set (vout tx')" "k < 2 ^ 63"
        by blast+
      show ?thesis
        using payees [OF Some] r q(2) out less pay(2)
        by (intro paid_payee_loop [of _ _ r _ "mkTxOut (of_int k) s"]) (auto simp: sint_of_int64')
    qed
    then show ?thesis
      using ok peer(4) by (auto simp: mn_IsTransactionValid_def Some payees_IsTransactionValid_def peer(1) block_ok_def Let_def not_less)
  qed
  have fees: "address_paid H tx' (GetTxFeeAddress ?A) nFees = Some True" if "100 * COIN \<le> nFees"
    using address_paid_True [OF good(1,2) funds(2) outs(3) [OF that]] that good(3) by simp
  have fund: "address_paid H tx' (GetDevFundAddress ?A) (GetBlockValueDevFund ?R ?n) = Some True"
    if "GetChainHeight ?R H4 \<le> ?n" "?n < GetChainHeight ?R H8"
    using address_paid_True [OF good(1,2) funds(1) outs(2) [OF that(2)]] devfund_fits [OF net, of ?n] that(1) by simp
  have tx: "checked_tx ?R (bl_vtx block) ?n = Some tx'"
    using block by (simp add: checked_tx_def)
  show ?thesis
    using fees fund by (simp add: IsBlockPayeeValid_def peer(1) Let_def tx nobudget mn)
qed

theorem filled_block_pays_masternode_witness:
  "IsBlockPayeeValid sample_env node_hash (\<lambda>_. Some sample_prev) (Some sample_prev) sample_votes
     \<lparr>bh_nVersion = 7, bh_hashPrevBlock = 0, bh_hashMerkleRoot = 0, bh_nTime = 0, bh_nBits = 0, bh_nNonce = 0,
      bh_nAccumulatorCheckpoint = 0, bl_vtx = [sample_stake, sample_filled], bl_vchBlockSig = []\<rparr> 1300001 0 (Some 0) = Some True"
proof -
  have good: "good_outs (vout sample_filled)" "scripts_ok node_hash (vout sample_filled)"
    by (simp_all add: good_outs_def scripts_ok_def sample_filled_def ExtractDestination_None_iff sample_script_other [simplified])
  have "IsBlockPayeeValid sample_env node_hash (\<lambda>_. Some sample_prev) (Some sample_prev) sample_votes
     \<lparr>bh_nVersion = 7, bh_hashPrevBlock = 0, bh_hashMerkleRoot = 0, bh_nTime = 0, bh_nBits = 0, bh_nNonce = 0,
      bh_nAccumulatorCheckpoint = 0, bl_vtx = [sample_stake, sample_filled], bl_vchBlockSig = []\<rparr> (bi_nHeight sample_prev + 1) 0 (Some 0) = Some True"
    by (rule filled_block_pays_masternode [OF sample_net sample_votes_reachable sample_fill, where k = 72000000000 and k' = 72000000000])
      (auto simp: good sample_payment sample_nobudget sample_blocks sample_script, simp_all add: sample_stake_def sample_addresses_def sample_key_def dest_hash_def)
  then show ?thesis
    by simp
qed

text \<open>C19: 
  A filled superblock is accepted: a peer that knows the same finalized budgets finds every budget payment, the unallocated rest,
  the developer fund and the fees in it; the coins created for one address must be the only output to it.
\<close>

theorem filled_superblock_accepted:
  assumes net: "network (be_params (pe_budget P))" and amounts: "amounts_ok (pe_budget P)"
    and fill: "FillBlockPayee P H h m tx nFees True (Some p) = Inr tx'" and prev: "h p = Some prev"
    and budget: "IsBudgetPaymentBlock (pe_budget P) (bi_nHeight prev + 1)"
    and height: "GetChainHeight (be_params (pe_budget P)) H8 \<le> bi_nHeight prev + 1" "nLastPOWBlock (be_params (pe_budget P)) \<le> bi_nHeight prev"
    and good: "good_outs (vout tx')" "scripts_ok H (vout tx')" "nFees < 2 ^ 63"
    and extra: "extra_coins (be_params (pe_budget P)) (bi_nHeight prev + 1) \<Longrightarrow>
      sint (FindPayment_script tx' (GetScriptForDestination (Get108MAddress (be_addresses (pe_budget P))))) = 4500000 * COIN"
    and funds: "length (dest_hash (GetTxFeeAddress (be_addresses (pe_budget P)))) = 20"
    and peer: "pe_budget P' = pe_budget P" "1 < length (bl_vtx block)" "bl_vtx block ! 1 = tx'"
  shows "IsBlockPayeeValid P' H h tip m' block (bi_nHeight prev + 1) nFees (Some p) = Some True"
proof -
  let ?n = "bi_nHeight prev + 1" and ?E = "pe_budget P" and ?R = "be_params (pe_budget P)" and ?A = "be_addresses (pe_budget P)"
  obtain tx1 tx2 where "budget_FillBlockPayee ?E H h True (Some p) tx = Some tx1"
    and dev: "add_dev_fund ?R ?A (stake_out tx) ?n tx1 = Inr tx2" and fees: "tx' = add_fees ?A nFees tx2"
    using FillBlockPayee_steps [OF fill prev] budget by metis
  then have single: "fill_single ?E H ?n tx = Some tx1"
    using prev budget height(1) by (simp add: budget_FillBlockPayee_def Let_def)
  have "tx2 = tx1"
    using dev height(1) by (simp add: add_dev_fund_def Let_def)
  then have outs: "set (vout tx1) \<subseteq> set (vout tx')"
    "100 * COIN \<le> nFees \<Longrightarrow> mkTxOut (of_int nFees) (GetScriptForDestination (GetTxFeeAddress ?A)) \<in> set (vout tx')"
    unfolding fees add_fees_def by auto
  have check: "check_single ?E tx' ?n"
    by (rule fill_single(3) [OF net amounts single good(1) outs(1) extra])
  have cycle: "0 = ?n smod GetBudgetPaymentCycleBlocks ?R"
    using budget height(1) by (simp add: IsBudgetPaymentBlock_def Let_def split: if_splits)
  then have valid: "budget_IsTransactionValid ?E H h tx' ?n (Some p) = Some True"
    using height(1) check by (simp add: budget_IsTransactionValid_def)
  have paid: "address_paid H tx' (GetTxFeeAddress ?A) nFees = Some True" if "100 * COIN \<le> nFees"
    using address_paid_True [OF good(1,2) funds outs(2) [OF that]] that good(3) by simp
  have tx: "checked_tx ?R (bl_vtx block) ?n = Some tx'"
    using peer height(2) by (simp add: checked_tx_def)
  show ?thesis
    using paid height(1) by (simp add: IsBlockPayeeValid_def peer(1) Let_def tx budget valid)
qed

definition super_env :: payments_env where
  "super_env = sample_env\<lparr>pe_budget := sample_budget\<lparr>be_superblocks := True\<rparr>\<rparr>"

definition super_prev :: CBlockIndex where
  "super_prev = CBlockIndex_SetNull\<lparr>bi_nHeight := 1339199\<rparr>"

definition super_filled :: CTransaction where
  "super_filled = sample_stake\<lparr>vout := vout sample_stake @
     [mkTxOut 648000000000000 (GetScriptForDestination sample_key), mkTxOut 648000000000000 (GetScriptForDestination sample_key),
      mkTxOut 450000000000000 (GetScriptForDestination (CScriptID (replicate 20 8)))]\<rparr>"

lemma super_sel [simp]:
  "be_params (pe_budget super_env) = mainParams" "be_addresses (pe_budget super_env) = sample_addresses"
  "be_finalized (pe_budget super_env) = []" "bi_nHeight super_prev = 1339199" "GetBudgetPaymentCycleBlocks mainParams = 43200"
  "GetTotalBudget mainParams 1339200 = 648000000000000" "GetTotalDevFund mainParams 1339200 = 648000000000000"
  "extra_coins mainParams 1339200" "GetChainHeight mainParams H9 = 1296000"
  by (simp_all add: super_env_def sample_env_def sample_budget_def super_prev_def CBlockIndex_SetNull_def GetTotalBudget_def
      GetTotalDevFund_def extra_coins_def GetBudgetPaymentCycleBlocks_def value_defs mainParams_def signed_divide_int_def)

lemma super_block: "IsBudgetPaymentBlock (pe_budget super_env) 1339200"
  by (simp add: IsBudgetPaymentBlock_def Let_def signed_modulo_int_def) (simp add: super_env_def sample_budget_def)

lemma no_finalized_no_payments:
  assumes "be_finalized E = []" and "0 \<le> be_CountEnabled E"
  shows "FindBudgetPayments E n = []"
proof -
  have "0 \<le> nFivePercent E"
    using assms(2) by (cases "be_CountEnabled E = 0") (simp_all add: nFivePercent_def signed_divide_int_def)
  then show ?thesis
    using assms(1) by (cases "nat (nMaxSuperBlocksPerCycle (be_params E))") (simp_all add: FindBudgetPayments_def GrabHighestCount_def)
qed

lemma super_fill: "FillBlockPayee super_env node_hash (\<lambda>_. Some super_prev) CMasternodePayments_init sample_stake 0 True (Some 0) = Inr super_filled"
proof -
  have "FindBudgetPayments (pe_budget super_env) 1339200 = []"
    by (rule no_finalized_no_payments) (simp_all add: super_env_def sample_budget_def)
  then show ?thesis
    by (simp add: FillBlockPayee_def super_block budget_FillBlockPayee_def fill_single_def add_dev_fund_def add_fees_def Let_def
        push_out_def super_filled_def sample_addresses_def sample_stake_def)
qed

theorem filled_superblock_accepted_witness:
  "IsBlockPayeeValid super_env node_hash (\<lambda>_. Some super_prev) None CMasternodePayments_init
     \<lparr>bh_nVersion = 7, bh_hashPrevBlock = 0, bh_hashMerkleRoot = 0, bh_nTime = 0, bh_nBits = 0, bh_nNonce = 0,
      bh_nAccumulatorCheckpoint = 0, bl_vtx = [sample_stake, super_filled], bl_vchBlockSig = []\<rparr> 1339200 0 (Some 0) = Some True"
proof -
  have key: "GetScriptForDestination sample_key \<noteq> GetScriptForDestination (CScriptID (replicate 20 8))"
    by (simp add: GetScriptForDestination_def sample_key_def)
  have script: "ExtractDestination node_hash (GetScriptForDestination (CScriptID (replicate 20 8))) = Some (Some (CScriptID (replicate 20 8)))"
    by (rule ExtractDestination_script) (simp add: dest_hash_def)
  have good: "good_outs (vout super_filled)" "scripts_ok node_hash (vout super_filled)"
    by (simp_all add: good_outs_def scripts_ok_def super_filled_def sample_stake_def sample_script script sample_scripts [simplified])
  have paid: "sint (FindPayment_script super_filled (GetScriptForDestination (CScriptID (replicate 20 8)))) = 450000000000000"
    using key by (simp add: FindPayment_script_def super_filled_def sample_stake_def GetScriptForDestination_def)
  have "IsBlockPayeeValid super_env node_hash (\<lambda>_. Some super_prev) None CMasternodePayments_init
     \<lparr>bh_nVersion = 7, bh_hashPrevBlock = 0, bh_hashMerkleRoot = 0, bh_nTime = 0, bh_nBits = 0, bh_nNonce = 0,
      bh_nAccumulatorCheckpoint = 0, bl_vtx = [sample_stake, super_filled], bl_vchBlockSig = []\<rparr> (bi_nHeight super_prev + 1) 0 (Some 0) = Some True"
    by (rule filled_superblock_accepted [OF _ _ super_fill])
      (simp_all add: network_def amounts_ok_def super_block good paid sample_addresses_def, simp add: sample_key_def dest_hash_def)
  then show ?thesis
    by simp
qed

end
