(* ===== verification/Spec2Isabelle.thy ===== *)
theory Spec2Isabelle
  imports ScriptSpec TxSpec PowSpec ChainSpec StateSpec CoinsSpec MerkleSpec HashSpec KernelSpec IndexSpec StandardSpec BloomSpec RewardsSpec BudgetSpec PaymentsSpec
begin

text \<open>
  Verification development of the ColossusXT core, a proof-of-stake wallet node of the Bitcoin
  family (\<open>src/src\<close>).

  \<^bold>\<open>Parts and theories.\<close>

  \<^item> Script engine (\<open>script/script.h\<close>, \<open>script/script.cpp\<close>, \<open>script/interpreter.cpp\<close>).
    \<open>ScriptNum\<close> has the numbers of the stack machine (\<open>CScriptNum\<close>), \<open>Opcodes\<close> the opcodes, error
    codes and flags, \<open>Script\<close> the byte container: reading and pushing instructions,
    \<open>FindAndDelete\<close>, signature-operation counts, template tests. \<open>SigEncoding\<close> has the checks on
    signature, key and push encodings (with \<open>eccryptoverify.cpp\<close>). \<open>Interpreter\<close> is \<open>EvalScript\<close> and
    \<open>VerifyScript\<close>: the locals of \<open>EvalScript\<close> are the record \<open>eval_state\<close>, every group of cases of
    its switch is one definition \<open>op_...\<close>, \<open>exec_op\<close> is the switch, \<open>eval_step\<close> the body of the loop.
    \<open>InterpreterProps\<close> has the limits, the absence of assertion failures and the standard templates,
    \<open>Multisig\<close> the matching of signatures and keys, \<open>SigOps\<close> the link between the operations
    charged and the script that runs.
  \<^item> Serialization (\<open>serialize.h\<close>, \<open>streams.h\<close>). \<open>Serialize\<close> states the contract of a writer and a
    reader as the locale \<open>codec\<close> and interprets it on integers, sizes and vectors; \<open>VarInt\<close> has the
    variable-length integers.
  \<^item> Transactions (\<open>primitives/transaction.h\<close>, \<open>.cpp\<close>). \<open>Transaction\<close> has the classes and their
    predicates, \<open>TxCodec\<close> their serialization, each class an interpretation of \<open>codec\<close>. \<open>SigHash\<close> is
    the hash that signatures sign and the checker the interpreter calls.
  \<^item> Difficulty (\<open>uint256.h\<close>, \<open>uint256.cpp\<close>, \<open>chain.h\<close>, \<open>pow.cpp\<close>). \<open>Uint256\<close> has the limb loops of
    \<open>base_uint\<close>, each with its arithmetic meaning; \<open>BlockIndex\<close> the block index entries, kept in a
    heap of pointers; \<open>Pow\<close> compact targets, proof of work and retargeting.
  \<^item> Active chain (\<open>chain.h\<close>, \<open>chain.cpp\<close>, \<open>main.cpp\<close>). \<open>Chain\<close> has \<open>CChain\<close> and the skip list;
    \<open>ChainProps\<close> shows that skip pointers and the chain vector agree with the parent pointers,
    \<open>ChainLocator\<close> has locators, version majorities and the median time.
  \<^item> Choice of the active chain (\<open>main.cpp\<close>). \<open>ChainState\<close> has the globals as the record \<open>chainstate\<close> and
    the operations on them: the candidate set (a \<open>std::set\<close>, whose contract is the locale \<open>std_set\<close>,
    interpreted on the order of the candidates), finding the chain with most work, connecting and disconnecting the
    tip, activation, invalidating and reconsidering blocks, receiving their data. \<open>ChainStateInv\<close> has the invariant,
    \<open>ChainSelect\<close> the search, \<open>ChainActivate\<close>, \<open>ChainConnect\<close> and \<open>ChainBest\<close> the steps of the activation
    and its end, \<open>ChainInvalid\<close> and \<open>ChainReceive\<close> the operations that change the candidates from outside,
    \<open>LastCommon\<close> common ancestors. What connecting a block does to the coins is the argument \<open>node_env\<close>.
  \<^item> Proof of stake (\<open>kernel.cpp\<close>, \<open>primitives/block.cpp\<close>). \<open>Kernel\<close> has the stake modifier and the kernel hash,
    \<open>KernelProps\<close> shows what a round selects, that the next modifier can always be computed and what the search over
    timestamps finds; \<open>StakeCheck\<close> has the checks on the signature and the kernel of a block.
  \<^item> Blocks and the block index (\<open>primitives/block.h\<close>, \<open>chain.h\<close>, \<open>main.cpp\<close>). \<open>Block\<close> has headers and blocks,
    each an interpretation of \<open>codec\<close>; \<open>AddIndex\<close> adds a block to the index, \<open>AddIndexProps\<close> proves the invariant
    of every index built that way (\<open>reachable_index\<close>).
  \<^item> Standard scripts (\<open>script/standard.cpp\<close>). \<open>Standard\<close> has the solver, destinations and their scripts,
    \<open>StandardProps\<close> which scripts it recognises.
  \<^item> Bloom filters (\<open>bloom.h\<close>, \<open>bloom.cpp\<close>). \<open>Bloom\<close> has the filter and the match of a transaction, \<open>BloomProps\<close>
    what a filter has and keeps.
  \<^item> Rewards (\<open>main.cpp\<close>, \<open>chainparams.cpp\<close>). \<open>Rewards\<close> has the value of a block, its shares and the payment of
    the masternode, with the double precision arithmetic of the see-saw; \<open>RewardsProps\<close> shows that rounding is monotone.
  \<^item> Budget (\<open>masternode-budget.h\<close>, \<open>masternode-budget.cpp\<close>). \<open>Budget\<close> has proposals, finalized budgets and their
    votes, \<open>BudgetPay\<close> what a superblock pays and what is asked of it.
  \<^item> Masternode payments (\<open>masternode-payments.h\<close>, \<open>masternode-payments.cpp\<close>). \<open>Payments\<close> has the votes for payees,
    the payments of a new block and the checks on them; \<open>PaymentsProps\<close> proves that the votes of a block are
    those recorded (\<open>reachable_payments\<close>), \<open>FillProps\<close> what filling a block moves and adds and that the checks find it.
  \<^item> Unspent outputs (\<open>coins.h\<close>, \<open>coins.cpp\<close>, \<open>undo.h\<close>, \<open>txdb.cpp\<close>, \<open>main.cpp\<close>). \<open>Coins\<close> has the
    outputs of one transaction and its undo records; \<open>CoinsView\<close> states the contract of a view as the
    locale \<open>coins_view\<close> and interprets it on the database; \<open>CoinsCache\<close> shows that a cache over any view
    is a view again, and interprets it on the cache over the database and on the cache over that one.
    \<open>Utxo\<close> applies transactions to a cache, \<open>UtxoProps\<close> proves their effect in the context of the
    locale. \<open>Compressor\<close> and \<open>CoinsCodec\<close> are the compact forms of the database.
  \<^item> Blocks (\<open>primitives/block.cpp\<close>, \<open>merkleblock.cpp\<close>). \<open>Merkle\<close> has merkle trees and branches,
    \<open>MerkleBlock\<close> the partial trees that are sent to light clients and their extraction.
  \<^item> Hash functions (\<open>crypto\<close>, \<open>hash.h\<close>, \<open>hash.cpp\<close>). \<open>HashStream\<close> has the streaming code the hashers share and
    states their contract as the locale \<open>hasher\<close>; \<open>Sha256\<close>, \<open>Sha512\<close>, \<open>Sha1\<close> and \<open>Ripemd160\<close> show
    that the unrolled transformations compute the standards and interpret it; \<open>HashFuns\<close> has the
    composed hashes, HMAC, the nonce generator and MurmurHash3, each an interpretation again.

  \<^bold>\<open>Conventions.\<close> A machine integer is a word of its width. An index into a buffer is the suffix of
  the buffer that starts there. Errors are values: \<open>None\<close> or the left side of a sum; an assertion
  or an undefined read is an outcome of its own (\<open>AssertFail\<close>, \<open>None\<close>). Stacks are lists with the
  top first. Loops are recursive functions with a termination measure; walks over parent pointers, which
  end only on a well-formed tree, are partial functions to an option. None needs fuel.

  \<^bold>\<open>Properties.\<close> \<open>ScriptSpec\<close>, \<open>TxSpec\<close>, \<open>PowSpec\<close>, \<open>ChainSpec\<close>, \<open>StateSpec\<close>, \<open>CoinsSpec\<close>, \<open>MerkleSpec\<close>, \<open>HashSpec\<close>, \<open>KernelSpec\<close>,
  \<open>IndexSpec\<close>, \<open>StandardSpec\<close>, \<open>BloomSpec\<close>, \<open>RewardsSpec\<close>,
  \<open>BudgetSpec\<close> and \<open>PaymentsSpec\<close> state the properties, each with a witness that
  runs it on a concrete input where it has premises.

  \<^bold>\<open>Parameters.\<close> Hash functions (\<open>hash_funs\<close>), the signature checker (\<open>sig_checker\<close>), the elliptic
  curve test of a key, and the parameters of the network (\<open>chain_params\<close>) are arguments. The
  properties that need it assume that a hash function returns a digest of its documented size;
  \<open>digest_sizes\<close> shows that the node's hash functions do. Connecting a block is assumed to write only the
  fields of the entry it owns and to give every block one verdict on the consensus rules (\<open>connect_frame\<close>,
  \<open>connect_verdict\<close>); \<open>activation_diverges_on_corruption\<close> shows that the second is needed.

  \<^bold>\<open>Not modelled.\<close> Input and output, locking and threads, the wallet, RPC and graphical interface,
  vendored libraries; the manifest lists the parts.
\<close>

end
